(* ===== verification/Cfx_Base.thy ===== *)
theory Cfx_Base imports Main "HOL-Library.Monad_Syntax" begin

text \<open>
  Shared vocabulary of the development: the fixed-width integers of the C++ code as
  \<open>int\<close> with the wrap-around written out, the theorem collections the components
  feed, and a few generic facts on \<open>option\<close> and lists.

  A function of the model has type \<open>... \<Rightarrow> 'r option\<close> where the C++ code can run
  into undefined behaviour (an access outside live memory, a second \<open>delete[]\<close>, a
  division by zero). \<open>None\<close> is that outcome, never an ordinary error return: those
  are values of the result.
\<close>

named_theorems cfx_width \<open>readings of fixed-width integers that stay in range\<close>
named_theorems cfx_mem \<open>how memory operations read and write cells\<close>

section \<open>Fixed-width integers\<close>

definition u8 :: "int \<Rightarrow> int" where "u8 x = x mod 2 ^ 8"
definition u16 :: "int \<Rightarrow> int" where "u16 x = x mod 2 ^ 16"
definition u32 :: "int \<Rightarrow> int" where "u32 x = x mod 2 ^ 32"
definition u64 :: "int \<Rightarrow> int" where "u64 x = x mod 2 ^ 64"
definition s32 :: "int \<Rightarrow> int" where "s32 x = (x + 2 ^ 31) mod 2 ^ 32 - 2 ^ 31"
definition s64 :: "int \<Rightarrow> int" where "s64 x = (x + 2 ^ 63) mod 2 ^ 64 - 2 ^ 63"

lemma u8_id [simp, cfx_width]: "0 \<le> x \<Longrightarrow> x < 256 \<Longrightarrow> u8 x = x"
  by (simp add: u8_def)

lemma u16_id [simp, cfx_width]: "0 \<le> x \<Longrightarrow> x < 65536 \<Longrightarrow> u16 x = x"
  by (simp add: u16_def)

lemma u32_id [simp, cfx_width]: "0 \<le> x \<Longrightarrow> x < 4294967296 \<Longrightarrow> u32 x = x"
  by (simp add: u32_def)

lemma u64_id [simp, cfx_width]: "0 \<le> x \<Longrightarrow> x < 18446744073709551616 \<Longrightarrow> u64 x = x"
  by (simp add: u64_def)

lemma s32_id [simp, cfx_width]: "- 2147483648 \<le> x \<Longrightarrow> x < 2147483648 \<Longrightarrow> s32 x = x"
  by (simp add: s32_def)

lemma s64_id [simp, cfx_width]:
  "- 9223372036854775808 \<le> x \<Longrightarrow> x < 9223372036854775808 \<Longrightarrow> s64 x = x"
  by (simp add: s64_def)

lemma u64_neg: "0 < d \<Longrightarrow> d \<le> 18446744073709551616 \<Longrightarrow> u64 (- d) = 18446744073709551616 - d"
proof -
  assume d: "0 < d" "d \<le> 18446744073709551616"
  have "u64 (- d) = (- d + 18446744073709551616) mod 18446744073709551616"
    by (simp only: u64_def mod_add_self2) simp
  also have "\<dots> = - d + 18446744073709551616"
    using d by (intro mod_pos_pos_trivial) auto
  finally show ?thesis by simp
qed

lemma u64_bounds: "0 \<le> u64 x \<and> u64 x < 2 ^ 64"
  by (simp add: u64_def)

lemma u32_bounds: "0 \<le> u32 x \<and> u32 x < 2 ^ 32"
  by (simp add: u32_def)

lemma s32_bounds: "- 2147483648 \<le> s32 x \<and> s32 x < 2147483648"
proof -
  have "0 \<le> (x + 2147483648) mod 4294967296" and "(x + 2147483648) mod 4294967296 < 4294967296"
    by simp_all
  then show ?thesis unfolding s32_def by simp
qed

lemma s32_step: "s32 (s32 x + 1) = s32 (x + 1)"
  by (simp add: s32_def) presburger

lemma s32_even: "even (s32 x) \<longleftrightarrow> even x"
proof -
  have "s32 x = x - 2 ^ 32 * ((x + 2 ^ 31) div 2 ^ 32)"
    by (simp add: s32_def minus_mult_div_eq_mod [symmetric])
  then show ?thesis by simp
qed

lemma s32_inj_near: "s32 x = s32 y \<Longrightarrow> x \<le> y \<Longrightarrow> y - x < 2 ^ 32 \<Longrightarrow> x = y"
proof -
  assume "s32 x = s32 y" "x \<le> y" "y - x < 2 ^ 32"
  then have "(x + 2 ^ 31) mod 2 ^ 32 = (y + 2 ^ 31) mod 2 ^ (32::nat)" by (simp add: s32_def)
  then have "(y - x) mod 2 ^ 32 = 0" by (simp add: mod_eq_dvd_iff dvd_diff_commute)
  then show "x = y" using \<open>x \<le> y\<close> \<open>y - x < 2 ^ 32\<close> by simp
qed

text \<open>C++ integer division and remainder truncate towards zero.\<close>

definition c_div :: "int \<Rightarrow> int \<Rightarrow> int" where
  "c_div a b = sgn a * sgn b * (\<bar>a\<bar> div \<bar>b\<bar>)"

definition c_mod :: "int \<Rightarrow> int \<Rightarrow> int" where
  "c_mod a b = a - c_div a b * b"

lemma c_div_nonneg [simp]: "0 \<le> a \<Longrightarrow> 0 < b \<Longrightarrow> c_div a b = a div b"
  by (cases "a = 0") (simp_all add: c_div_def)

lemma c_mod_nonneg [simp]: "0 \<le> a \<Longrightarrow> 0 < b \<Longrightarrow> c_mod a b = a mod b"
  by (simp add: c_mod_def minus_div_mult_eq_mod)

lemma c_div_neg: "a < 0 \<Longrightarrow> 0 < b \<Longrightarrow> c_div a b = - ((- a) div b)"
  by (simp add: c_div_def)

lemma c_mod_neg: "a < 0 \<Longrightarrow> 0 < b \<Longrightarrow> c_mod a b = - ((- a) mod b)"
  by (simp add: c_mod_def c_div_neg minus_mult_div_eq_mod [symmetric] algebra_simps)

lemma c_div_mod: "c_div a b * b + c_mod a b = a"
  by (simp add: c_mod_def)

lemma round_up_mult:
  fixes x n :: int
  assumes n: "0 < n"
  shows "((x + n - 1) div n) * n = (if x mod n = 0 then x else x + (n - x mod n))"
proof (cases "x mod n = 0")
  case True
  then obtain k where k: "x = n * k" by (metis mod_0_imp_dvd dvd_def)
  have "(n * k + (n - 1)) div n = k + (n - 1) div n" using n by (intro div_mult_self4) simp
  then show ?thesis using True n k by (simp add: add_diff_eq div_pos_pos_trivial)
next
  case False
  have m0: "0 < x mod n" "x mod n < n"
    using n False pos_mod_bound [OF n, of x] pos_mod_sign [OF n, of x] by linarith+
  have "x + n - 1 = (x div n) * n + (x mod n + (n - 1))" using div_mult_mod_eq [of x n] by simp
  also have "\<dots> div n = x div n + (x mod n + (n - 1)) div n" using n by (intro div_mult_self3) simp
  also have "(x mod n + (n - 1)) div n = 1"
    by (rule int_div_pos_eq [where r = "x mod n - 1"]) (use m0 in linarith)+
  finally have "(x + n - 1) div n * n = x div n * n + n" by (simp add: distrib_right)
  moreover have "x div n * n + x mod n = x" by (rule div_mult_mod_eq)
  ultimately have "(x + n - 1) div n * n = x + (n - x mod n)" by linarith
  then show ?thesis using False by simp
qed

section \<open>Generic facts\<close>

lemma bind_SomeD: "Option.bind x f = Some y \<Longrightarrow> \<exists>z. x = Some z \<and> f z = Some y"
  by (cases x) auto

lemmas bind_Some_iff = Option.bind_eq_Some_conv

lemma nat_min: "nat (min a b) = min (nat a) (nat b)"
  by (simp add: min_def)

lemma map_upt_shift: "map f [a..<a + n] = map (\<lambda>i. f (a + i)) [0..<n]"
  by (rule nth_equalityI) auto

lemma map_upt_append:
  "map f [0..<m + n] = map f [0..<m] @ map (\<lambda>i. f (m + i)) [0..<n]"
  by (rule nth_equalityI) (auto simp: nth_append)

section \<open>Calls that may block\<close>

text \<open>
  The result of a call made while no other thread runs: it returns, it blocks for good, or
  its behaviour is undefined. \<open>run_then\<close> is sequential composition.
\<close>

datatype 'a run = Ret 'a | Blocks | Undef

fun run_then :: "'a run \<Rightarrow> ('a \<Rightarrow> 'b run) \<Rightarrow> 'b run" where
  "run_then (Ret x) f = f x"
| "run_then Blocks f = Blocks"
| "run_then Undef f = Undef"

definition run_opt :: "'a option \<Rightarrow> 'a run" where
  "run_opt x = (case x of None \<Rightarrow> Undef | Some y \<Rightarrow> Ret y)"

lemma run_opt_simps [simp]: "run_opt (Some x) = Ret x" "run_opt None = Undef"
  by (simp_all add: run_opt_def)

lemma run_then_assoc: "run_then (run_then r f) g = run_then r (\<lambda>x. run_then (f x) g)"
  by (cases r) simp_all

lemma run_then_Ret_iff: "run_then r f = Ret y \<longleftrightarrow> (\<exists>x. r = Ret x \<and> f x = Ret y)"
  by (cases r) simp_all

text \<open>A call that is made \<open>n\<close> times.\<close>

fun run_times :: "nat \<Rightarrow> ('a \<Rightarrow> 'a run) \<Rightarrow> 'a \<Rightarrow> 'a run" where
  "run_times 0 f x = Ret x"
| "run_times (Suc n) f x = run_then (f x) (run_times n f)"

section \<open>Rings\<close>

lemma ring_mod_inj:
  fixes g i j n :: int
  assumes "0 \<le> i" "i < n" "0 \<le> j" "j < n" and "(g + i) mod n = (g + j) mod n"
  shows "i = j"
proof -
  have "n dvd (g + i) - (g + j)" using assms(5) by (simp add: mod_eq_dvd_iff)
  then have d: "n dvd i - j" by simp
  show ?thesis
  proof (rule ccontr)
    assume ne: "i \<noteq> j"
    then have "\<bar>n\<bar> \<le> \<bar>i - j\<bar>" using dvd_imp_le_int [OF _ d] by simp
    then show False using assms(1-4) by linarith
  qed
qed

lemma ring_mod_bounds: "0 < n \<Longrightarrow> 0 \<le> (x::int) mod n \<and> x mod n < n"
  by simp

section \<open>Counting\<close>

definition cntp :: "('a \<Rightarrow> bool) \<Rightarrow> 'a list \<Rightarrow> int" where
  "cntp P xs = int (length (filter P xs))"

abbreviation ind :: "bool \<Rightarrow> int" where
  "ind b \<equiv> (if b then 1 else 0)"

lemma cntp_upd: "t < length xs \<Longrightarrow> cntp P (xs[t := x]) = cntp P xs - ind (P (xs ! t)) + ind (P x)"
proof (induction xs arbitrary: t)
  case Nil
  then show ?case by simp
next
  case (Cons y ys)
  show ?case
  proof (cases t)
    case 0
    then show ?thesis by (simp add: cntp_def)
  next
    case (Suc k)
    then have "cntp P (ys[k := x]) = cntp P ys - ind (P (ys ! k)) + ind (P x)" using Cons by simp
    then show ?thesis using Suc by (simp add: cntp_def split: if_splits)
  qed
qed

lemma cntp_nonneg [simp]: "0 \<le> cntp P xs"
  by (simp add: cntp_def)

lemma cntp_pos: "t < length xs \<Longrightarrow> P (xs ! t) \<Longrightarrow> 1 \<le> cntp P xs"
proof -
  assume "t < length xs" "P (xs ! t)"
  then have "filter P xs \<noteq> []" by (auto simp: filter_empty_conv)
  then show ?thesis by (cases "filter P xs") (simp_all add: cntp_def)
qed

lemma cntp_disjoint:
  "(\<And>x. \<not> (P x \<and> Q x)) \<Longrightarrow> (\<And>x. P x \<or> Q x \<Longrightarrow> R x) \<Longrightarrow> cntp P xs + cntp Q xs \<le> cntp R xs"
proof (induction xs)
  case Nil
  then show ?case by (simp add: cntp_def)
next
  case (Cons x xs)
  then have "cntp P xs + cntp Q xs \<le> cntp R xs" "\<not> (P x \<and> Q x)" "P x \<or> Q x \<longrightarrow> R x" by blast+
  then show ?case by (auto simp: cntp_def)
qed

lemma cntp_mono: "(\<And>x. P x \<Longrightarrow> Q x) \<Longrightarrow> cntp P xs \<le> cntp Q xs"
  using cntp_disjoint [of P "\<lambda>_. False" Q xs] by (simp add: cntp_def)

lemma cntp_none: "(\<And>x. x \<in> set xs \<Longrightarrow> \<not> P x) \<Longrightarrow> cntp P xs = 0"
  by (simp add: cntp_def filter_empty_conv)

lemma cntp_some: "0 < cntp P xs \<Longrightarrow> \<exists>t < length xs. P (xs ! t)"
  by (metis cntp_none in_set_conv_nth less_irrefl)

end
