(* ===== verification/Cfx_Memory.thy ===== *)
theory Cfx_Memory imports Cfx_Base begin

text \<open>
  The memory the containers share: a flat array of cells addressed by integers, in units
  of one element, with the null pointer as address 0. Reading or writing a cell that is
  not live is undefined behaviour (\<open>None\<close>). \<open>m_blocks\<close> records the arrays that
  came from \<open>new T[n]\<close>, so that \<open>delete[]\<close> of anything else, or of the same array
  twice, is undefined behaviour too. Allocation always succeeds, and a fresh array holds
  whatever its cells held before (\<open>m_val\<close> is total), as an uninitialised one does.
  Blocks are separated by one dead cell, so the pointer one past the end of an array is
  never the start of another.
\<close>

record 'a mem =
  m_val :: "int \<Rightarrow> 'a"
  m_live :: "int \<Rightarrow> bool"
  m_blocks :: "int \<rightharpoonup> int"
  m_brk :: int

definition rd :: "'a mem \<Rightarrow> int \<Rightarrow> 'a option" where
  "rd m p = (if m_live m p then Some (m_val m p) else None)"

definition wr :: "'a mem \<Rightarrow> int \<Rightarrow> 'a \<Rightarrow> 'a mem option" where
  "wr m p v = (if m_live m p then Some (m\<lparr>m_val := (m_val m)(p := v)\<rparr>) else None)"

definition live_range :: "'a mem \<Rightarrow> int \<Rightarrow> int \<Rightarrow> bool" where
  "live_range m p n \<longleftrightarrow> (\<forall>a\<in>{p..<p + n}. m_live m a)"

definition mem_new :: "int \<Rightarrow> 'a mem \<Rightarrow> int \<times> 'a mem" where
  "mem_new n m =
     (m_brk m,
      m\<lparr>m_live := (\<lambda>a. (m_brk m \<le> a \<and> a < m_brk m + n) \<or> m_live m a),
        m_blocks := (m_blocks m)(m_brk m \<mapsto> n),
        m_brk := m_brk m + n + 1\<rparr>)"

definition mem_delete :: "int \<Rightarrow> 'a mem \<Rightarrow> 'a mem option" where
  "mem_delete p m =
     (if p = 0 then Some m
      else case m_blocks m p of
        None \<Rightarrow> None
      | Some n \<Rightarrow> Some (m\<lparr>m_live := (\<lambda>a. m_live m a \<and> \<not> (p \<le> a \<and> a < p + n)),
                           m_blocks := (m_blocks m)(p := None)\<rparr>))"

text \<open>Every address below the break was handed out; live blocks lie between 0 and it.\<close>

definition mem_wf :: "'a mem \<Rightarrow> bool" where
  "mem_wf m \<longleftrightarrow> 0 < m_brk m \<and> m_blocks m 0 = None \<and>
     (\<forall>a. m_live m a \<longrightarrow> 0 < a \<and> a < m_brk m) \<and>
     (\<forall>p n. m_blocks m p = Some n \<longrightarrow> 0 < p \<and> 0 \<le> n \<and> p + n < m_brk m \<and> live_range m p n)"

text \<open>The contents of \<open>n\<close> consecutive cells.\<close>

definition cells :: "'a mem \<Rightarrow> int \<Rightarrow> int \<Rightarrow> 'a list" where
  "cells m p n = map (\<lambda>i. m_val m (p + int i)) [0..<nat n]"

section \<open>Copying\<close>

text \<open>
  The element loop of \<open>copy_elem\<close>, \<open>while (n--) *dest++ = *src++;\<close>, which
  Buffer, Array and CircQueue define alike.
\<close>

fun copy_elem :: "int \<Rightarrow> int \<Rightarrow> nat \<Rightarrow> 'a mem \<Rightarrow> 'a mem option" where
  "copy_elem dest src 0 m = Some m"
| "copy_elem dest src (Suc n) m =
     do { v \<leftarrow> rd m src; m' \<leftarrow> wr m dest v; copy_elem (dest + 1) (src + 1) n m' }"

text \<open>\<open>memcpy\<close>, which is undefined on overlapping ranges.\<close>

definition mem_cpy :: "int \<Rightarrow> int \<Rightarrow> int \<Rightarrow> 'a mem \<Rightarrow> 'a mem option" where
  "mem_cpy d s n m = (if 0 < n \<and> d < s + n \<and> s < d + n then None else copy_elem d s (nat n) m)"

text \<open>What the loop computes when it copies upwards safely.\<close>

definition blit :: "int \<Rightarrow> int \<Rightarrow> int \<Rightarrow> 'a mem \<Rightarrow> 'a mem" where
  "blit dest src n m =
     m\<lparr>m_val := (\<lambda>a. if dest \<le> a \<and> a < dest + n then m_val m (a - dest + src) else m_val m a)\<rparr>"

definition no_clobber :: "int \<Rightarrow> int \<Rightarrow> int \<Rightarrow> bool" where
  "no_clobber dest src n \<longleftrightarrow> dest \<le> src \<or> src + n \<le> dest"

lemma live_range_nth: "live_range m p n \<Longrightarrow> p \<le> a \<Longrightarrow> a < p + n \<Longrightarrow> m_live m a"
  by (simp add: live_range_def)

lemma live_range_sub:
  "live_range m p n \<Longrightarrow> p \<le> q \<Longrightarrow> q + k \<le> p + n \<Longrightarrow> live_range m q k"
  by (auto simp: live_range_def)

lemma live_range_empty [simp]: "n \<le> 0 \<Longrightarrow> live_range m p n"
  by (simp add: live_range_def)

lemma live_range_cong: "m_live m' = m_live m \<Longrightarrow> live_range m' p n = live_range m p n"
  by (simp add: live_range_def)

lemma rd_live [cfx_mem]: "m_live m p \<Longrightarrow> rd m p = Some (m_val m p)"
  by (simp add: rd_def)

lemma wr_live [cfx_mem]: "m_live m p \<Longrightarrow> wr m p v = Some (m\<lparr>m_val := (m_val m)(p := v)\<rparr>)"
  by (simp add: wr_def)

lemma wr_frame: "wr m p v = Some m' \<Longrightarrow>
  m_live m' = m_live m \<and> m_blocks m' = m_blocks m \<and> m_brk m' = m_brk m"
  by (auto simp: wr_def split: if_splits)

lemma blit_frame [simp]:
  "m_live (blit d s n m) = m_live m" "m_blocks (blit d s n m) = m_blocks m"
  "m_brk (blit d s n m) = m_brk m"
  by (simp_all add: blit_def)

lemma blit_empty [simp]: "n \<le> 0 \<Longrightarrow> blit d s n m = m"
proof -
  assume n: "n \<le> 0"
  have "(\<lambda>a. if d \<le> a \<and> a < d + n then m_val m (a - d + s) else m_val m a) = m_val m"
    by (rule ext) (use n in auto)
  then show ?thesis by (simp add: blit_def)
qed

lemma copy_elem_blit [cfx_mem]:
  assumes "live_range m dest (int n)" and "live_range m src (int n)"
    and "no_clobber dest src (int n)"
  shows "copy_elem dest src n m = Some (blit dest src (int n) m)"
  using assms
proof (induction n arbitrary: dest src m)
  case 0
  then show ?case by simp
next
  case (Suc n)
  let ?m = "m\<lparr>m_val := (m_val m)(dest := m_val m src)\<rparr>"
  have d: "m_live m dest" and s: "m_live m src"
    using Suc.prems by (auto intro: live_range_nth)
  have lr: "live_range ?m (dest + 1) (int n)" "live_range ?m (src + 1) (int n)"
    using Suc.prems by (auto simp: live_range_def)
  have nc: "no_clobber (dest + 1) (src + 1) (int n)"
    using Suc.prems(3) by (auto simp: no_clobber_def)
  have val: "m_val (blit (dest + 1) (src + 1) (int n) ?m) = m_val (blit dest src (int (Suc n)) m)"
    (is "?l = ?r")
  proof
    fix a
    have "src + 1 \<le> a - dest + src \<Longrightarrow> a < dest + 1 + int n \<Longrightarrow> a - dest + src \<noteq> dest"
      using Suc.prems(3) by (auto simp: no_clobber_def)
    then show "?l a = ?r a" by (auto simp: blit_def algebra_simps)
  qed
  have "copy_elem dest src (Suc n) m = copy_elem (dest + 1) (src + 1) n ?m"
    using d s by (simp add: rd_live wr_live)
  also have "\<dots> = Some (blit (dest + 1) (src + 1) (int n) ?m)"
    by (rule Suc.IH [OF lr nc])
  also have "\<dots> = Some (blit dest src (int (Suc n)) m)"
    using val by (simp add: blit_def)
  finally show ?case .
qed

section \<open>Contents of ranges\<close>

lemma length_cells [simp]: "length (cells m p n) = nat n"
  by (simp add: cells_def)

lemma nth_cells: "i < nat n \<Longrightarrow> cells m p n ! i = m_val m (p + int i)"
  by (simp add: cells_def)

lemma cells_empty [simp]: "n \<le> 0 \<Longrightarrow> cells m p n = []"
  by (simp add: cells_def)

lemma cells_Suc: "0 < n \<Longrightarrow> cells m p n = m_val m p # cells m (p + 1) (n - 1)"
proof -
  assume n: "0 < n"
  have "cells m p n ! i = (m_val m p # cells m (p + 1) (n - 1)) ! i" if "i < nat n" for i
    using that n by (cases i) (auto simp: nth_cells algebra_simps)
  then show ?thesis using n by (intro nth_equalityI) auto
qed

lemma cells_snoc: "0 \<le> n \<Longrightarrow> cells m p (n + 1) = cells m p n @ [m_val m (p + n)]"
  by (simp add: cells_def nat_add_distrib)

lemma cells_append:
  assumes "0 \<le> k" and "k \<le> n"
  shows "cells m p n = cells m p k @ cells m (p + k) (n - k)"
proof (rule nth_equalityI)
  show "length (cells m p n) = length (cells m p k @ cells m (p + k) (n - k))"
    using assms by simp
next
  fix i
  assume "i < length (cells m p n)"
  then show "cells m p n ! i = (cells m p k @ cells m (p + k) (n - k)) ! i"
    using assms by (cases "i < nat k") (auto simp: nth_append nth_cells)
qed

lemma cells_cong:
  "(\<And>a. p \<le> a \<Longrightarrow> a < p + n \<Longrightarrow> m_val m' a = m_val m a) \<Longrightarrow> cells m' p n = cells m p n"
  by (rule nth_equalityI) (auto simp: nth_cells)

lemma cells_blit_same: "cells (blit d s n m) d n = cells m s n"
  by (rule nth_equalityI) (auto simp: nth_cells blit_def add.commute)

lemma cells_blit_other: "p + k \<le> d \<or> d + n \<le> p \<Longrightarrow> cells (blit d s n m) p k = cells m p k"
  by (rule cells_cong) (auto simp: blit_def)

lemma cells_upd_other:
  "a < p \<or> p + n \<le> a \<Longrightarrow> cells (m\<lparr>m_val := (m_val m)(a := v)\<rparr>) p n = cells m p n"
  by (rule cells_cong) auto

section \<open>Allocation\<close>

lemma mem_new_live: "mem_new n m = (p, m') \<Longrightarrow> live_range m' p n"
  by (auto simp: mem_new_def live_range_def)

lemma mem_new_frame:
  "mem_new n m = (p, m') \<Longrightarrow> m_live m a \<Longrightarrow> m_live m' a \<and> m_val m' a = m_val m a"
  by (auto simp: mem_new_def)

lemma mem_new_block: "mem_new n m = (p, m') \<Longrightarrow> m_blocks m' p = Some n \<and> p = m_brk m"
  by (auto simp: mem_new_def)

lemma mem_new_wf:
  assumes wf: "mem_wf m" and n: "0 \<le> n" and new: "mem_new n m = (p, m')"
  shows "mem_wf m'"
proof -
  have m': "m' = snd (mem_new n m)" using new by simp
  have blk: "0 < q \<and> 0 \<le> k \<and> q + k < m_brk m' \<and> live_range m' q k"
    if "m_blocks m' q = Some k" for q k
  proof (cases "q = m_brk m")
    case True
    then show ?thesis using that wf n by (auto simp: m' mem_new_def mem_wf_def live_range_def)
  next
    case False
    then have "m_blocks m q = Some k" using that by (simp add: m' mem_new_def)
    then have "0 < q \<and> 0 \<le> k \<and> q + k < m_brk m \<and> live_range m q k"
      using wf unfolding mem_wf_def by blast
    then show ?thesis using n by (auto simp: m' mem_new_def live_range_def)
  qed
  have "0 < a \<and> a < m_brk m'" if "m_live m' a" for a
  proof -
    have "(m_brk m \<le> a \<and> a < m_brk m + n) \<or> m_live m a" and b: "m_brk m' = m_brk m + n + 1"
      using that by (simp_all add: m' mem_new_def)
    moreover have "m_live m a \<Longrightarrow> 0 < a \<and> a < m_brk m" and "0 < m_brk m"
      using wf by (simp_all add: mem_wf_def)
    ultimately show ?thesis using n by auto
  qed
  moreover have "0 < m_brk m' \<and> m_blocks m' 0 = None"
    using wf n by (auto simp: m' mem_new_def mem_wf_def)
  ultimately show ?thesis using blk unfolding mem_wf_def by blast
qed

lemma mem_delete_null [simp]: "mem_delete 0 m = Some m"
  by (simp add: mem_delete_def)

lemma mem_delete_block:
  "p \<noteq> 0 \<Longrightarrow> m_blocks m p = Some n \<Longrightarrow> \<exists>m'. mem_delete p m = Some m' \<and> m_blocks m' p = None"
  by (simp add: mem_delete_def)

section \<open>A concrete memory\<close>

text \<open>
  A heap of \<open>n - 1\<close> live cells that belong to the caller, none of them from \<open>new\<close>,
  on which the properties are instantiated.
\<close>

definition arena :: "'a \<Rightarrow> int \<Rightarrow> 'a mem" where
  "arena v n = \<lparr>m_val = (\<lambda>_. v), m_live = (\<lambda>a. 1 \<le> a \<and> a < n), m_blocks = Map.empty, m_brk = n\<rparr>"

lemma arena_wf [simp]: "0 < n \<Longrightarrow> mem_wf (arena v n)"
  by (simp add: arena_def mem_wf_def)

lemma arena_live [simp]: "live_range (arena v n) p k \<longleftrightarrow> k \<le> 0 \<or> (1 \<le> p \<and> p + k \<le> n)"
  by (auto simp: arena_def live_range_def dest: bspec [where x = p] bspec [where x = "p + k - 1"])

lemma arena_val [simp]: "m_val (arena v n) a = v"
  by (simp add: arena_def)

lemma arena_brk [simp]: "m_brk (arena v n) = n"
  by (simp add: arena_def)

end
