(* ===== verification/BufferColl.thy ===== *)
theory BufferColl imports Cfx_Memory begin

text \<open>
  \<open>CtrlrFx/Buffer.h\<close> and \<open>CtrlrFx/FixedBuffer.h\<close>: the I/O buffer with position, limit
  and mark over a block of memory. Pointer members are addresses. A buffer is in write
  mode between \<open>clear\<close> and \<open>flip\<close>, and in read mode after \<open>flip\<close>.
\<close>

record bf =
  bf_base :: int
  bf_pos :: int
  bf_lim :: int
  bf_end :: int
  bf_mark :: int
  bf_own :: bool

section \<open>Queries\<close>

definition bf_capacity :: "bf \<Rightarrow> int" where "bf_capacity b = u64 (bf_end b - bf_base b)"
definition bf_byte_capacity :: "int \<Rightarrow> bf \<Rightarrow> int" where
  "bf_byte_capacity item b = u64 (bf_capacity b * item)"
definition bf_size :: "bf \<Rightarrow> int" where "bf_size b = u64 (bf_lim b - bf_base b)"
definition bf_position :: "bf \<Rightarrow> int" where "bf_position b = u64 (bf_pos b - bf_base b)"
definition bf_position_ptr :: "bf \<Rightarrow> int" where "bf_position_ptr b = bf_pos b"
definition bf_get_mark :: "bf \<Rightarrow> int" where "bf_get_mark b = u64 (bf_mark b - bf_base b)"
definition bf_available :: "bf \<Rightarrow> int" where "bf_available b = u64 (bf_lim b - bf_pos b)"
definition bf_has_available :: "bf \<Rightarrow> bool" where "bf_has_available b \<longleftrightarrow> bf_lim b \<noteq> bf_pos b"
definition bf_full :: "bf \<Rightarrow> bool" where "bf_full b \<longleftrightarrow> bf_lim b = bf_pos b"
definition bf_empty :: "bf \<Rightarrow> bool" where "bf_empty b \<longleftrightarrow> bf_lim b = bf_pos b"
definition bf_data :: "bf \<Rightarrow> int" where "bf_data b = bf_base b"
definition bf_index :: "bf \<Rightarrow> int \<Rightarrow> 'a mem \<Rightarrow> 'a option" where "bf_index b i m = rd m (bf_base b + i)"

section \<open>Position, limit and mark\<close>

definition bf_set_size :: "int \<Rightarrow> bf \<Rightarrow> bf" where
  "bf_set_size sz b = b\<lparr>bf_lim := bf_base b + sz\<rparr>"
definition bf_set_position :: "int \<Rightarrow> bf \<Rightarrow> bf" where
  "bf_set_position p b = b\<lparr>bf_pos := bf_base b + p\<rparr>"
definition bf_incr_position :: "int \<Rightarrow> bf \<Rightarrow> bf" where
  "bf_incr_position n b = b\<lparr>bf_pos := bf_pos b + n\<rparr>"
definition bf_set_mark :: "bf \<Rightarrow> bf" where
  "bf_set_mark b = b\<lparr>bf_mark := bf_pos b\<rparr>"
definition bf_reset :: "bf \<Rightarrow> bf" where
  "bf_reset b = b\<lparr>bf_pos := bf_mark b\<rparr>"
definition bf_rewind :: "bf \<Rightarrow> bf" where
  "bf_rewind b = b\<lparr>bf_mark := bf_base b, bf_pos := bf_base b\<rparr>"
definition bf_reserve :: "int \<Rightarrow> bf \<Rightarrow> bf" where
  "bf_reserve n b = b\<lparr>bf_lim := bf_end b - n\<rparr>"

definition bf_clear :: "bf \<Rightarrow> bf" where
  "bf_clear b = b\<lparr>bf_mark := bf_base b, bf_pos := bf_base b, bf_lim := bf_end b\<rparr>"

definition bf_clear_size :: "int \<Rightarrow> bf \<Rightarrow> bf" where
  "bf_clear_size sz b =
     (let sz = (if sz > bf_capacity b then bf_capacity b else sz)
      in b\<lparr>bf_mark := bf_base b, bf_pos := bf_base b, bf_lim := bf_base b + sz\<rparr>)"

definition bf_flip :: "bf \<Rightarrow> bf" where
  "bf_flip b = b\<lparr>bf_lim := bf_pos b, bf_mark := bf_base b, bf_pos := bf_base b\<rparr>"

text \<open>\<open>for (size_t i=0; i<n; ++i) base_[i] = pos_[i];\<close> with \<open>k\<close> rounds left.\<close>

fun bf_compact_loop :: "nat \<Rightarrow> int \<Rightarrow> bf \<Rightarrow> 'a mem \<Rightarrow> 'a mem option" where
  "bf_compact_loop 0 i b m = Some m"
| "bf_compact_loop (Suc k) i b m =
     do { v \<leftarrow> rd m (bf_pos b + i); m' \<leftarrow> wr m (bf_base b + i) v; bf_compact_loop k (i + 1) b m' }"

definition bf_compact :: "bf \<Rightarrow> 'a mem \<Rightarrow> (bf \<times> 'a mem) option" where
  "bf_compact b m =
     do { m' \<leftarrow> bf_compact_loop (nat (u64 (bf_lim b - bf_pos b))) 0 b m;
          Some (b\<lparr>bf_lim := bf_lim b - (bf_pos b - bf_base b), bf_pos := bf_base b\<rparr>, m') }"

text \<open>The remainder by \<open>n = 0\<close> is undefined; the step is dropped when it reaches \<open>end_\<close>.\<close>

definition bf_align :: "int \<Rightarrow> bf \<Rightarrow> bf option" where
  "bf_align n b =
     (if n = 0 then None
      else
        let rem = c_mod (s32 (bf_pos b - bf_base b)) n in
        if rem \<noteq> 0 then
          let p = bf_pos b + (n - rem)
          in Some (if p < bf_end b then b\<lparr>bf_pos := p\<rparr> else b)
        else Some b)"

function bf_fill :: "'a \<Rightarrow> bf \<Rightarrow> 'a mem \<Rightarrow> (bf \<times> 'a mem) option" where
  "bf_fill v b m =
     (if bf_pos b < bf_lim b then
        case wr m (bf_pos b) v of None \<Rightarrow> None
        | Some m' \<Rightarrow> bf_fill v (b\<lparr>bf_pos := bf_pos b + 1\<rparr>) m'
      else Some (b, m))"
  by pat_completeness auto
termination by (relation "measure (\<lambda>(v, b, m). nat (bf_lim b - bf_pos b))") auto

declare bf_fill.simps [simp del]

section \<open>Data transfer\<close>

text \<open>The single-item \<open>put\<close> and \<open>get\<close> do not look at the limit.\<close>

definition bf_put1 :: "'a \<Rightarrow> bf \<Rightarrow> 'a mem \<Rightarrow> (bool \<times> bf \<times> 'a mem) option" where
  "bf_put1 v b m = do { m' \<leftarrow> wr m (bf_pos b) v; Some (True, b\<lparr>bf_pos := bf_pos b + 1\<rparr>, m') }"

definition bf_get1 :: "bf \<Rightarrow> 'a mem \<Rightarrow> ('a \<times> bf) option" where
  "bf_get1 b m = do { v \<leftarrow> rd m (bf_pos b); Some (v, b\<lparr>bf_pos := bf_pos b + 1\<rparr>) }"

definition bf_putn :: "int \<Rightarrow> int \<Rightarrow> bf \<Rightarrow> 'a mem \<Rightarrow> (int \<times> bf \<times> 'a mem) option" where
  "bf_putn arr n b m =
     (if bf_pos b + n > bf_lim b then Some (0, b, m)
      else do { m' \<leftarrow> copy_elem (bf_pos b) arr (nat n) m;
                Some (n, b\<lparr>bf_pos := bf_pos b + n\<rparr>, m') })"

definition bf_getp :: "bf \<Rightarrow> 'a mem \<Rightarrow> ('a option \<times> bf) option" where
  "bf_getp b m =
     (if bf_pos b = bf_lim b then Some (None, b)
      else do { v \<leftarrow> rd m (bf_pos b); Some (Some v, b\<lparr>bf_pos := bf_pos b + 1\<rparr>) })"

definition bf_getn :: "int \<Rightarrow> int \<Rightarrow> bf \<Rightarrow> 'a mem \<Rightarrow> (int \<times> bf \<times> 'a mem) option" where
  "bf_getn arr n b m =
     (if bf_pos b + n > bf_lim b then Some (0, b, m)
      else do { m' \<leftarrow> copy_elem arr (bf_pos b) (nat n) m;
                Some (n, b\<lparr>bf_pos := bf_pos b + n\<rparr>, m') })"

section \<open>Lifetime and copies\<close>

definition bf_ctor :: bf where
  "bf_ctor = \<lparr>bf_base = 0, bf_pos = 0, bf_lim = 0, bf_end = 0, bf_mark = 0, bf_own = False\<rparr>"

definition bf_ctor_cap :: "int \<Rightarrow> 'a mem \<Rightarrow> bf \<times> 'a mem" where
  "bf_ctor_cap cap m =
     (let (p, m') = mem_new cap m
      in (\<lparr>bf_base = p, bf_pos = p, bf_lim = p + cap, bf_end = p + cap, bf_mark = p, bf_own = True\<rparr>, m'))"

definition bf_ctor_arr :: "int \<Rightarrow> int \<Rightarrow> bool \<Rightarrow> bf" where
  "bf_ctor_arr arr cap own =
     \<lparr>bf_base = arr, bf_pos = arr, bf_lim = arr + cap, bf_end = arr + cap, bf_mark = arr, bf_own = own\<rparr>"

definition bf_ctor_data :: "int \<Rightarrow> int \<Rightarrow> int \<Rightarrow> bool \<Rightarrow> bf" where
  "bf_ctor_data arr sz cap own =
     \<lparr>bf_base = arr, bf_pos = arr + sz, bf_lim = arr + cap, bf_end = arr + cap,
      bf_mark = arr + sz, bf_own = own\<rparr>"

definition bf_alloc :: "int \<Rightarrow> bf \<Rightarrow> 'a mem \<Rightarrow> bf \<times> 'a mem" where
  "bf_alloc cap b m =
     (let (p, m') = mem_new cap m
      in (b\<lparr>bf_base := p, bf_pos := p, bf_mark := p, bf_end := p + cap, bf_lim := p + cap,
            bf_own := True\<rparr>, m'))"

definition bf_dealloc :: "bf \<Rightarrow> 'a mem \<Rightarrow> (bf \<times> 'a mem) option" where
  "bf_dealloc b m =
     (if bf_own b then
        do { m' \<leftarrow> mem_delete (bf_base b) m; Some (b\<lparr>bf_base := 0, bf_own := False\<rparr>, m') }
      else Some (b, m))"

definition bf_deep_copy :: "bf \<Rightarrow> bf \<Rightarrow> 'a mem \<Rightarrow> (bool \<times> bf \<times> 'a mem) option" where
  "bf_deep_copy rhs b m =
     (if bf_size rhs > bf_capacity b then Some (False, b, m)
      else do { m' \<leftarrow> copy_elem (bf_base b) (bf_base rhs) (nat (bf_size rhs)) m;
                Some (True, b\<lparr>bf_pos := bf_base b + bf_position rhs,
                              bf_mark := bf_base b + bf_get_mark rhs,
                              bf_lim := bf_base b + bf_size rhs\<rparr>, m') })"

definition bf_ctor_copy :: "bf \<Rightarrow> bf \<Rightarrow> 'a mem \<Rightarrow> (bf \<times> 'a mem) option" where
  "bf_ctor_copy rhs b m =
     (let (b1, m1) = bf_alloc (bf_capacity rhs) b m
      in do { (r, b2, m2) \<leftarrow> bf_deep_copy rhs b1 m1; Some (b2, m2) })"

definition bf_dtor :: "bf \<Rightarrow> 'a mem \<Rightarrow> 'a mem option" where
  "bf_dtor b m = map_option snd (bf_dealloc b m)"

definition bf_resize :: "int \<Rightarrow> bf \<Rightarrow> 'a mem \<Rightarrow> (bf \<times> 'a mem) option" where
  "bf_resize cap b m = do { (b1, m1) \<leftarrow> bf_dealloc b m; Some (bf_alloc cap b1 m1) }"

definition bf_assign :: "int \<Rightarrow> int \<Rightarrow> int \<Rightarrow> bool \<Rightarrow> bf \<Rightarrow> 'a mem \<Rightarrow> (bf \<times> 'a mem) option" where
  "bf_assign arr sz cap own b m =
     do { (b1, m1) \<leftarrow> bf_dealloc b m;
          Some (b1\<lparr>bf_base := arr, bf_pos := arr + sz, bf_mark := arr + sz,
                   bf_end := arr + cap, bf_lim := arr + cap, bf_own := own\<rparr>, m1) }"

definition bf_destroy :: "bf \<Rightarrow> 'a mem \<Rightarrow> (bf \<times> 'a mem) option" where
  "bf_destroy b m =
     do { (b1, m1) \<leftarrow> bf_dealloc b m;
          Some (b1\<lparr>bf_mark := 0, bf_pos := 0, bf_end := 0, bf_lim := 0\<rparr>, m1) }"

text \<open>
  \<open>operator=\<close> reads \<open>rhs\<close> after it has released and reallocated \<open>*this\<close>. When
  both are one object (\<open>self\<close>) it then reads the members it has just overwritten.
\<close>

definition bf_op_assign :: "bool \<Rightarrow> bf \<Rightarrow> bf \<Rightarrow> 'a mem \<Rightarrow> (bf \<times> 'a mem) option" where
  "bf_op_assign self rhs b m =
     do { (b1, m1) \<leftarrow> bf_dealloc b m;
          let (b2, m2) = bf_alloc (bf_capacity (if self then b1 else rhs)) b1 m1;
          (r, b3, m3) \<leftarrow> bf_deep_copy (if self then b2 else rhs) b2 m2;
          Some (b3, m3) }"

text \<open>\<open>FixedBuffer<T,N>\<close>: a buffer over the array member \<open>arr_\<close> at address \<open>arr\<close>.\<close>

definition fb_ctor :: "int \<Rightarrow> int \<Rightarrow> bf" where
  "fb_ctor arr N = bf_ctor_arr arr N False"

definition fb_ctor_copy :: "int \<Rightarrow> int \<Rightarrow> bf \<Rightarrow> 'a mem \<Rightarrow> (bf \<times> 'a mem) option" where
  "fb_ctor_copy arr N rhs m =
     do { (r, b, m') \<leftarrow> bf_deep_copy rhs (bf_ctor_arr arr N False) m; Some (b, m') }"

definition fb_op_assign :: "bf \<Rightarrow> bf \<Rightarrow> 'a mem \<Rightarrow> (bf \<times> 'a mem) option" where
  "fb_op_assign rhs b m = do { (r, b', m') \<leftarrow> bf_deep_copy rhs b m; Some (b', m') }"


section \<open>Invariant\<close>

definition bf_inv :: "bf \<Rightarrow> 'a mem \<Rightarrow> bool" where
  "bf_inv b m \<longleftrightarrow> bf_base b \<le> bf_pos b \<and> bf_pos b \<le> bf_lim b \<and> bf_lim b \<le> bf_end b \<and>
     bf_end b - bf_base b < 9223372036854775808 \<and>
     live_range m (bf_base b) (bf_end b - bf_base b)"

text \<open>The mark is a position that \<open>reset\<close> may return to.\<close>

definition bf_mark_ok :: "bf \<Rightarrow> bool" where
  "bf_mark_ok b \<longleftrightarrow> bf_base b \<le> bf_mark b \<and> bf_mark b \<le> bf_lim b"

text \<open>What has been transferred, and what is left up to the limit.\<close>

definition bf_done :: "bf \<Rightarrow> 'a mem \<Rightarrow> 'a list" where
  "bf_done b m = cells m (bf_base b) (bf_pos b - bf_base b)"

definition bf_rest :: "bf \<Rightarrow> 'a mem \<Rightarrow> 'a list" where
  "bf_rest b m = cells m (bf_pos b) (bf_lim b - bf_pos b)"

definition bf_apart :: "bf \<Rightarrow> int \<Rightarrow> int \<Rightarrow> bool" where
  "bf_apart b arr n \<longleftrightarrow> arr + n \<le> bf_base b \<or> bf_end b \<le> arr"

lemma bf_sizes:
  assumes "bf_inv b m"
  shows "bf_capacity b = bf_end b - bf_base b" "bf_size b = bf_lim b - bf_base b"
    "bf_position b = bf_pos b - bf_base b" "bf_available b = bf_lim b - bf_pos b"
    "bf_available b = int (length (bf_rest b m))"
  using assms
  by (simp_all add: bf_inv_def bf_capacity_def bf_size_def bf_position_def bf_available_def bf_rest_def)

lemma bf_live: "bf_inv b m \<Longrightarrow> bf_base b \<le> p \<Longrightarrow> p + n \<le> bf_end b \<Longrightarrow> live_range m p n"
  unfolding bf_inv_def by (erule conjE)+ (erule live_range_sub, auto)

lemma bf_live_cell: "bf_inv b m \<Longrightarrow> bf_base b \<le> p \<Longrightarrow> p < bf_end b \<Longrightarrow> m_live m p"
  unfolding bf_inv_def by (rule live_range_nth) auto

lemma bf_inv_moves:
  assumes "bf_inv b m"
  shows "bf_inv (bf_set_mark b) m" "bf_inv (bf_rewind b) m" "bf_inv (bf_clear b) m"
    "bf_inv (bf_flip b) m" "0 \<le> sz \<Longrightarrow> bf_inv (bf_clear_size sz b) m"
    "bf_mark_ok b \<Longrightarrow> bf_inv (bf_reset b) m"
    "0 \<le> p \<Longrightarrow> p \<le> bf_size b \<Longrightarrow> bf_inv (bf_set_position p b) m"
    "bf_position b \<le> sz \<Longrightarrow> sz \<le> bf_capacity b \<Longrightarrow> bf_inv (bf_set_size sz b) m"
    "0 \<le> n \<Longrightarrow> n \<le> bf_available b \<Longrightarrow> bf_inv (bf_incr_position n b) m"
    "0 \<le> n \<Longrightarrow> bf_position b + n \<le> bf_capacity b \<Longrightarrow> bf_inv (bf_reserve n b) m"
  using assms bf_sizes [OF assms]
  by (auto simp: bf_inv_def bf_set_mark_def bf_rewind_def bf_clear_def bf_flip_def bf_clear_size_def
      bf_reset_def bf_mark_ok_def bf_set_position_def bf_set_size_def bf_incr_position_def
      bf_reserve_def Let_def)

lemma bf_mark_ok_moves:
  assumes "bf_inv b m"
  shows "bf_mark_ok (bf_set_mark b)" "bf_mark_ok (bf_rewind b)" "bf_mark_ok (bf_clear b)"
    "bf_mark_ok (bf_flip b)" "0 \<le> sz \<Longrightarrow> bf_mark_ok (bf_clear_size sz b)"
  using assms bf_sizes [OF assms]
  by (auto simp: bf_inv_def bf_set_mark_def bf_rewind_def bf_clear_def bf_flip_def bf_clear_size_def
      bf_mark_ok_def Let_def)

section \<open>Transfers\<close>

lemma bf_putn_fits:
  assumes inv: "bf_inv b m" and n: "0 \<le> n" "n \<le> bf_available b" "live_range m arr n"
    and apart: "bf_apart b arr n"
  defines "b' \<equiv> b\<lparr>bf_pos := bf_pos b + n\<rparr>" and "m' \<equiv> blit (bf_pos b) arr n m"
  shows "bf_putn arr n b m = Some (n, b', m') \<and> bf_inv b' m' \<and>
    bf_done b' m' = bf_done b m @ cells m arr n \<and> bf_rest b' m' = drop (nat n) (bf_rest b m)"
proof -
  note q = inv [unfolded bf_inv_def] bf_sizes [OF inv]
  have "copy_elem (bf_pos b) arr (nat n) m = Some m'"
    using copy_elem_blit [of m "bf_pos b" "nat n" arr] n apart q bf_live [OF inv, of "bf_pos b" n]
    by (auto simp: bf_apart_def no_clobber_def m'_def)
  then have "bf_putn arr n b m = Some (n, b', m')"
    using n q by (simp add: bf_putn_def b'_def)
  moreover have "bf_inv b' m'" using q n by (simp add: bf_inv_def b'_def m'_def live_range_def)
  moreover have "bf_done b' m' = bf_done b m @ cells m arr n"
    using q n cells_append [of "bf_pos b - bf_base b" "bf_pos b - bf_base b + n" m' "bf_base b"]
    by (simp add: bf_done_def b'_def m'_def cells_blit_same cells_blit_other algebra_simps)
  moreover have "bf_rest b' m' = drop (nat n) (bf_rest b m)"
    using q n cells_append [of n "bf_lim b - bf_pos b" m "bf_pos b"]
    by (simp add: bf_rest_def b'_def m'_def cells_blit_other diff_diff_eq)
  ultimately show ?thesis by blast
qed

lemma bf_putn_short: "bf_inv b m \<Longrightarrow> bf_available b < n \<Longrightarrow> bf_putn arr n b m = Some (0, b, m)"
  by (simp add: bf_sizes(4) bf_putn_def)

lemma bf_getn_fits:
  assumes inv: "bf_inv b m" and n: "0 \<le> n" "n \<le> bf_available b" "live_range m arr n"
    and apart: "bf_apart b arr n"
  defines "b' \<equiv> b\<lparr>bf_pos := bf_pos b + n\<rparr>" and "m' \<equiv> blit arr (bf_pos b) n m"
  shows "bf_getn arr n b m = Some (n, b', m') \<and> bf_inv b' m' \<and>
    cells m' arr n = take (nat n) (bf_rest b m) \<and> bf_rest b' m' = drop (nat n) (bf_rest b m)"
proof -
  note q = inv [unfolded bf_inv_def] bf_sizes [OF inv]
  have "copy_elem arr (bf_pos b) (nat n) m = Some m'"
    using copy_elem_blit [of m arr "nat n" "bf_pos b"] n apart q bf_live [OF inv, of "bf_pos b" n]
    by (auto simp: bf_apart_def no_clobber_def m'_def)
  then have "bf_getn arr n b m = Some (n, b', m')"
    using n q by (simp add: bf_getn_def b'_def)
  moreover have "bf_inv b' m'" using q n by (simp add: bf_inv_def b'_def m'_def live_range_def)
  moreover have "cells m' arr n = take (nat n) (bf_rest b m) \<and> bf_rest b' m' = drop (nat n) (bf_rest b m)"
  proof -
    have "cells m' (bf_pos b + n) (bf_lim b - bf_pos b - n) = cells m (bf_pos b + n) (bf_lim b - bf_pos b - n)"
      unfolding m'_def using apart q n by (intro cells_blit_other) (auto simp: bf_apart_def)
    then show ?thesis using q n cells_append [of n "bf_lim b - bf_pos b" m "bf_pos b"]
      by (simp add: bf_rest_def b'_def m'_def cells_blit_same diff_diff_eq)
  qed
  ultimately show ?thesis by blast
qed

lemma bf_getn_short: "bf_inv b m \<Longrightarrow> bf_available b < n \<Longrightarrow> bf_getn arr n b m = Some (0, b, m)"
  by (simp add: bf_sizes(4) bf_getn_def)

lemma bf_put1_ok:
  assumes inv: "bf_inv b m" and av: "bf_pos b < bf_lim b"
  shows "\<exists>m'. bf_put1 v b m = Some (True, b\<lparr>bf_pos := bf_pos b + 1\<rparr>, m') \<and>
    bf_inv (b\<lparr>bf_pos := bf_pos b + 1\<rparr>) m' \<and>
    bf_done (b\<lparr>bf_pos := bf_pos b + 1\<rparr>) m' = bf_done b m @ [v] \<and>
    m' = m\<lparr>m_val := (m_val m)(bf_pos b := v)\<rparr>"
proof -
  note q = inv [unfolded bf_inv_def]
  have "m_live m (bf_pos b)" using bf_live_cell [OF inv] q av by simp
  then show ?thesis
    using q av cells_snoc [of "bf_pos b - bf_base b" "m\<lparr>m_val := (m_val m)(bf_pos b := v)\<rparr>" "bf_base b"]
    by (simp add: bf_put1_def wr_live bf_inv_def live_range_def bf_done_def cells_upd_other algebra_simps)
qed

lemma bf_get1_ok:
  assumes inv: "bf_inv b m" and av: "bf_pos b < bf_lim b"
  shows "bf_get1 b m = Some (hd (bf_rest b m), b\<lparr>bf_pos := bf_pos b + 1\<rparr>) \<and>
    bf_inv (b\<lparr>bf_pos := bf_pos b + 1\<rparr>) m \<and>
    bf_rest (b\<lparr>bf_pos := bf_pos b + 1\<rparr>) m = tl (bf_rest b m)"
  using inv av bf_live_cell [OF inv, of "bf_pos b"]
  by (simp add: bf_get1_def rd_live bf_rest_def cells_Suc [of "bf_lim b - bf_pos b"] bf_inv_def
      diff_diff_eq add.commute)

lemma bf_getp_get1:
  "bf_getp b m = (if bf_pos b = bf_lim b then Some (None, b) else map_option (\<lambda>(v, b'). (Some v, b')) (bf_get1 b m))"
  by (auto simp: bf_getp_def bf_get1_def rd_def)

lemma bf_fill_spec:
  "bf_inv b m \<Longrightarrow> \<exists>m'. bf_fill v b m = Some (b\<lparr>bf_pos := bf_lim b\<rparr>, m') \<and>
     m_val m' = (\<lambda>a. if bf_pos b \<le> a \<and> a < bf_lim b then v else m_val m a) \<and>
     m_live m' = m_live m"
proof (induction v b m rule: bf_fill.induct)
  case (1 v b m)
  show ?case
  proof (cases "bf_pos b < bf_lim b")
    case True
    let ?b = "b\<lparr>bf_pos := bf_pos b + 1\<rparr>" and ?m = "m\<lparr>m_val := (m_val m)(bf_pos b := v)\<rparr>"
    have live: "m_live m (bf_pos b)"
      using bf_live_cell [OF "1.prems"] "1.prems" True by (simp add: bf_inv_def)
    then have w: "wr m (bf_pos b) v = Some ?m" by (simp add: wr_live)
    have "bf_inv ?b ?m" using "1.prems" True by (simp add: bf_inv_def live_range_def)
    then obtain m' where m': "bf_fill v ?b ?m = Some (?b\<lparr>bf_pos := bf_lim ?b\<rparr>, m')"
        "m_val m' = (\<lambda>a. if bf_pos ?b \<le> a \<and> a < bf_lim ?b then v else m_val ?m a)"
        "m_live m' = m_live ?m"
      using "1.IH" [OF True w] by blast
    have "m_val m' = (\<lambda>a. if bf_pos b \<le> a \<and> a < bf_lim b then v else m_val m a)"
      using True by (rule_tac ext) (auto simp: m'(2))
    then show ?thesis using m' True w by (simp add: bf_fill.simps [of v b m])
  next
    case False
    have eq: "bf_pos b = bf_lim b" using False "1.prems" by (simp add: bf_inv_def)
    have "(\<lambda>a. if bf_lim b \<le> a \<and> a < bf_lim b then v else m_val m a) = m_val m" by (rule ext) auto
    moreover have "b\<lparr>bf_pos := bf_lim b\<rparr> = b" using eq by (metis bf.surjective bf.update_convs(2))
    ultimately show ?thesis using False eq by (simp add: bf_fill.simps [of v b m])
  qed
qed

text \<open>Write, flip, read: the array comes back, whatever follows it in the buffer.\<close>

lemma bf_roundtrip:
  assumes inv: "bf_inv b m" and n: "0 \<le> n" "n \<le> bf_capacity b"
    and src: "live_range m src n" "bf_apart b src n"
    and dst: "live_range m dst n" "bf_apart b dst n"
  shows "\<exists>b1 m1 b2 m2. bf_putn src n (bf_clear b) m = Some (n, b1, m1) \<and>
    bf_getn dst n (bf_flip b1) m1 = Some (n, b2, m2) \<and> cells m2 dst n = cells m src n \<and>
    bf_empty b2 \<and> bf_inv b2 m2"
proof -
  have c: "bf_inv (bf_clear b) m" by (rule bf_inv_moves(3) [OF inv])
  have av: "bf_available (bf_clear b) = bf_capacity b" "bf_apart (bf_clear b) src n"
    using src by (simp_all add: bf_available_def bf_clear_def bf_capacity_def bf_apart_def)
  let ?b1 = "(bf_clear b)\<lparr>bf_pos := bf_pos (bf_clear b) + n\<rparr>"
  let ?m1 = "blit (bf_pos (bf_clear b)) src n m"
  have p: "bf_putn src n (bf_clear b) m = Some (n, ?b1, ?m1)" "bf_inv ?b1 ?m1"
      "bf_done ?b1 ?m1 = cells m src n"
    using bf_putn_fits [OF c n(1) _ src(1)] av n by (simp_all add: bf_done_def bf_clear_def)
  have f: "bf_inv (bf_flip ?b1) ?m1" by (rule bf_inv_moves(4) [OF p(2)])
  have rest: "bf_rest (bf_flip ?b1) ?m1 = cells m src n"
    using p(3) by (simp add: bf_rest_def bf_done_def bf_flip_def)
  have "bf_available (bf_flip ?b1) = n" using bf_sizes(5) [OF f] rest n by simp
  moreover have "bf_apart (bf_flip ?b1) dst n" using dst by (simp add: bf_apart_def bf_flip_def bf_clear_def)
  ultimately have g: "bf_getn dst n (bf_flip ?b1) ?m1
      = Some (n, (bf_flip ?b1)\<lparr>bf_pos := bf_pos (bf_flip ?b1) + n\<rparr>, blit dst (bf_pos (bf_flip ?b1)) n ?m1)"
      "bf_inv ((bf_flip ?b1)\<lparr>bf_pos := bf_pos (bf_flip ?b1) + n\<rparr>) (blit dst (bf_pos (bf_flip ?b1)) n ?m1)"
      "cells (blit dst (bf_pos (bf_flip ?b1)) n ?m1) dst n = cells m src n"
    using bf_getn_fits [OF f n(1), of dst] dst rest n by (simp_all add: live_range_def)
  show ?thesis using p(1) g by (intro exI conjI) (auto simp: bf_empty_def bf_flip_def bf_clear_def)
qed

lemma bf_compact_loop_copy:
  "bf_compact_loop k i b m = copy_elem (bf_base b + i) (bf_pos b + i) k m"
proof (induction k arbitrary: i m)
  case (Suc k)
  have "(bf_compact_loop k (i + 1) b :: 'a mem \<Rightarrow> 'a mem option)
      = copy_elem (bf_base b + i + 1) (bf_pos b + i + 1) k"
    by (rule ext) (simp only: Suc.IH add.assoc)
  then show ?case by simp
qed simp

lemma bf_compact_spec:
  assumes inv: "bf_inv b m"
  shows "\<exists>b' m'. bf_compact b m = Some (b', m') \<and> bf_inv b' m' \<and> bf_rest b' m' = bf_rest b m \<and>
    bf_pos b' = bf_base b \<and> bf_mark b' = bf_mark b \<and> bf_size b' = bf_available b"
proof -
  note q = inv [unfolded bf_inv_def] bf_sizes [OF inv]
  let ?n = "bf_lim b - bf_pos b"
  let ?b = "b\<lparr>bf_lim := bf_lim b - (bf_pos b - bf_base b), bf_pos := bf_base b\<rparr>"
  let ?m = "blit (bf_base b) (bf_pos b) ?n m"
  have "copy_elem (bf_base b) (bf_pos b) (nat ?n) m = Some ?m"
    using copy_elem_blit [of m "bf_base b" "nat ?n" "bf_pos b"] q
      bf_live [OF inv, of "bf_pos b" ?n] bf_live [OF inv, of "bf_base b" ?n]
    by (auto simp: no_clobber_def)
  then have "bf_compact b m = Some (?b, ?m)"
    using q by (simp add: bf_compact_def bf_compact_loop_copy)
  moreover have "bf_inv ?b ?m" using q by (simp add: bf_inv_def live_range_def)
  moreover have "bf_size ?b = bf_available b" by (simp add: bf_size_def bf_available_def)
  moreover have "bf_rest ?b ?m = bf_rest b m"
    by (simp add: bf_rest_def cells_blit_same diff_diff_eq2)
  ultimately show ?thesis by simp
qed

text \<open>
  \<open>compact\<close> moves the data but not the mark. A mark further from the base than there is
  data left is then past the limit, and \<open>reset\<close> puts the position behind it: the number of
  available items wraps around.
\<close>

lemma bf_compact_stale_mark:
  assumes inv: "bf_inv b m" and mark: "bf_lim b - bf_pos b < bf_mark b - bf_base b"
    and mend: "bf_mark b \<le> bf_end b"
  shows "\<exists>b' m'. bf_compact b m = Some (b', m') \<and> \<not> bf_mark_ok b' \<and>
    bf_available (bf_reset b') = 2 ^ 64 - (bf_mark b - bf_base b - (bf_lim b - bf_pos b))"
proof -
  obtain b' m' where c: "bf_compact b m = Some (b', m')" using bf_compact_spec [OF inv] by blast
  then have b': "b' = b\<lparr>bf_lim := bf_lim b - (bf_pos b - bf_base b), bf_pos := bf_base b\<rparr>"
    by (auto simp: bf_compact_def bind_Some_iff)
  let ?d = "bf_mark b - bf_base b - (bf_lim b - bf_pos b)"
  have d: "0 < ?d" "?d < 2 ^ 64" using mark mend inv by (auto simp: bf_inv_def)
  have "u64 (- ?d) = 2 ^ 64 - ?d" using u64_neg [of ?d] d by simp
  moreover have "bf_lim (bf_reset b') - bf_pos (bf_reset b') = - ?d" by (simp add: b' bf_reset_def)
  ultimately have "bf_available (bf_reset b') = 2 ^ 64 - ?d" by (simp add: bf_available_def)
  moreover have "\<not> bf_mark_ok b'" using mark by (simp add: b' bf_mark_ok_def)
  ultimately show ?thesis using c by blast
qed

section \<open>Alignment\<close>

lemma bf_align_spec:
  assumes inv: "bf_inv b m" and n: "0 < n" and cap: "bf_end b - bf_base b < 2147483648"
  shows "\<exists>b'. bf_align n b = Some b' \<and> bf_base b' = bf_base b \<and> bf_lim b' = bf_lim b \<and>
    (let p = bf_base b + ((bf_position b + n - 1) div n) * n
     in bf_pos b' = (if p < bf_end b then p else bf_pos b))"
proof -
  obtain x where x: "x = bf_position b" by simp
  have e: "bf_pos b = bf_base b + x" "0 \<le> x" "s32 x = x"
    using inv cap bf_sizes(3) [OF inv] x by (auto simp: bf_inv_def)
  show ?thesis unfolding x [symmetric] round_up_mult [OF n, of x]
    using n e by (auto simp: bf_align_def Let_def)
qed

section \<open>Copies\<close>

text \<open>A source buffer is well placed when it lies below the break, where nothing fresh is.\<close>

lemma bf_deep_copy_spec:
  assumes src: "bf_inv rhs m" "bf_mark_ok rhs" and dst: "live_range m (bf_base b) (bf_end b - bf_base b)"
    and cap: "bf_size rhs \<le> bf_capacity b" "0 \<le> bf_end b - bf_base b" "bf_end b - bf_base b < 2 ^ 63"
    and apart: "bf_end rhs \<le> bf_base b \<or> bf_end b \<le> bf_base rhs"
  shows "\<exists>b' m'. bf_deep_copy rhs b m = Some (True, b', m') \<and> bf_inv b' m' \<and> bf_base b' = bf_base b \<and>
    bf_end b' = bf_end b \<and> bf_size b' = bf_size rhs \<and> bf_position b' = bf_position rhs \<and>
    bf_get_mark b' = bf_get_mark rhs \<and>
    cells m' (bf_base b') (bf_size b') = cells m (bf_base rhs) (bf_size rhs) \<and>
    bf_inv rhs m' \<and> cells m' (bf_base rhs) (bf_size rhs) = cells m (bf_base rhs) (bf_size rhs)"
proof -
  note q = src(1) [unfolded bf_inv_def] bf_sizes [OF src(1)]
  have c: "bf_capacity b = bf_end b - bf_base b" using cap by (simp add: bf_capacity_def)
  have mk: "bf_get_mark rhs = bf_mark rhs - bf_base rhs"
    using q src(2) by (simp add: bf_get_mark_def bf_mark_ok_def)
  let ?n = "bf_size rhs"
  let ?m = "blit (bf_base b) (bf_base rhs) ?n m"
  let ?b = "b\<lparr>bf_pos := bf_base b + bf_position rhs, bf_mark := bf_base b + bf_get_mark rhs,
              bf_lim := bf_base b + bf_size rhs\<rparr>"
  have n: "0 \<le> ?n" "bf_base b + ?n \<le> bf_end b" using q cap c by simp_all
  have "copy_elem (bf_base b) (bf_base rhs) (nat ?n) m = Some ?m"
    using copy_elem_blit [of m "bf_base b" "nat ?n" "bf_base rhs"] n apart q
      bf_live [OF src(1), of "bf_base rhs" ?n] live_range_sub [OF dst, of "bf_base b" ?n]
    by (auto simp: no_clobber_def)
  then have "bf_deep_copy rhs b m = Some (True, ?b, ?m)" using cap by (simp add: bf_deep_copy_def)
  moreover have "bf_inv ?b ?m" using q n dst cap by (simp add: bf_inv_def live_range_def)
  moreover have "bf_inv rhs ?m" using q by (simp add: bf_inv_def live_range_def)
  moreover have "cells ?m (bf_base rhs) ?n = cells m (bf_base rhs) ?n"
    using apart n q by (intro cells_blit_other) auto
  moreover have "bf_size ?b = ?n" "bf_position ?b = bf_position rhs" "bf_get_mark ?b = bf_get_mark rhs"
    using q n mk src(2) by (simp_all add: bf_size_def bf_position_def bf_get_mark_def bf_mark_ok_def)
  ultimately show ?thesis by (simp add: cells_blit_same)
qed

lemma bf_deep_copy_refused:
  "bf_capacity b < bf_size rhs \<Longrightarrow> bf_deep_copy rhs b m = Some (False, b, m)"
  by (simp add: bf_deep_copy_def)

lemma bf_ctor_copy_spec:
  assumes wf: "mem_wf m" and src: "bf_inv rhs m" "bf_mark_ok rhs" and below: "bf_end rhs \<le> m_brk m"
  shows "\<exists>b' m'. bf_ctor_copy rhs b m = Some (b', m') \<and> bf_inv b' m' \<and> bf_own b' \<and>
    bf_capacity b' = bf_capacity rhs \<and> bf_size b' = bf_size rhs \<and>
    bf_position b' = bf_position rhs \<and> bf_get_mark b' = bf_get_mark rhs \<and>
    cells m' (bf_base b') (bf_size b') = cells m (bf_base rhs) (bf_size rhs) \<and>
    bf_inv rhs m' \<and> cells m' (bf_base rhs) (bf_size rhs) = cells m (bf_base rhs) (bf_size rhs) \<and>
    bf_end rhs \<le> bf_base b'"
proof -
  note q = src(1) [unfolded bf_inv_def] bf_sizes [OF src(1)]
  let ?cap = "bf_capacity rhs"
  obtain m1 where new: "mem_new ?cap m = (m_brk m, m1)" by (simp add: mem_new_def)
  let ?b1 = "b\<lparr>bf_base := m_brk m, bf_pos := m_brk m, bf_mark := m_brk m,
               bf_end := m_brk m + ?cap, bf_lim := m_brk m + ?cap, bf_own := True\<rparr>"
  have a: "bf_alloc ?cap b m = (?b1, m1)" by (simp add: bf_alloc_def new)
  have val: "m_val m1 = m_val m" using new by (auto simp: mem_new_def)
  have rhs1: "bf_inv rhs m1" using q mem_new_frame [OF new] by (auto simp: bf_inv_def live_range_def)
  have cap1: "bf_capacity ?b1 = ?cap" using q by (simp add: bf_capacity_def)
  have "\<exists>b' m'. bf_deep_copy rhs ?b1 m1 = Some (True, b', m') \<and> bf_inv b' m' \<and> bf_base b' = bf_base ?b1 \<and>
    bf_end b' = bf_end ?b1 \<and> bf_size b' = bf_size rhs \<and> bf_position b' = bf_position rhs \<and>
    bf_get_mark b' = bf_get_mark rhs \<and>
    cells m' (bf_base b') (bf_size b') = cells m1 (bf_base rhs) (bf_size rhs) \<and>
    bf_inv rhs m' \<and> cells m' (bf_base rhs) (bf_size rhs) = cells m1 (bf_base rhs) (bf_size rhs)"
    using q below cap1 mem_new_live [OF new] by (intro bf_deep_copy_spec [OF rhs1 src(2)]) auto
  then obtain b' m' where d: "bf_deep_copy rhs ?b1 m1 = Some (True, b', m')" "bf_inv b' m'"
    "bf_base b' = m_brk m" "bf_end b' = m_brk m + ?cap" "bf_size b' = bf_size rhs"
    "bf_position b' = bf_position rhs" "bf_get_mark b' = bf_get_mark rhs"
    "cells m' (bf_base b') (bf_size b') = cells m1 (bf_base rhs) (bf_size rhs)"
    "bf_inv rhs m'" "cells m' (bf_base rhs) (bf_size rhs) = cells m1 (bf_base rhs) (bf_size rhs)"
    by auto
  have "bf_own b'" using d(1) by (auto simp: bf_deep_copy_def bind_Some_iff split: if_splits)
  moreover have "bf_capacity b' = ?cap" using d(3,4) q by (simp add: bf_capacity_def)
  moreover have "cells m1 p k = cells m p k" for p k by (rule cells_cong) (simp add: val)
  ultimately show ?thesis using a d below by (simp add: bf_ctor_copy_def)
qed

text \<open>
  Self-assignment. An owning buffer is released first, its base pointer is null when its
  capacity is computed, and so the new block has as many items as the old end pointer has
  address units; the position and the contents are gone.
\<close>

lemma bf_self_assign:
  assumes wf: "mem_wf m" and own: "bf_own b" and blk: "m_blocks m (bf_base b) = Some n"
    and en: "0 \<le> bf_end b" "bf_end b < 2 ^ 63"
  shows "\<exists>b' m'. bf_op_assign True b b m = Some (b', m') \<and> bf_base b' = m_brk m \<and>
    bf_capacity b' = bf_end b \<and> bf_position b' = 0 \<and> bf_size b' = bf_end b \<and>
    m_blocks m' (bf_base b) = None \<and> m_val m' = m_val m"
proof -
  have base: "bf_base b \<noteq> 0" "bf_base b \<noteq> m_brk m"
    using wf blk unfolding mem_wf_def by fastforce+
  obtain m1 where del: "mem_delete (bf_base b) m = Some m1" "m_brk m1 = m_brk m"
      "m_blocks m1 (bf_base b) = None" "m_val m1 = m_val m"
    using blk base by (simp add: mem_delete_def)
  let ?b1 = "b\<lparr>bf_base := 0, bf_own := False\<rparr>"
  have d: "bf_dealloc b m = Some (?b1, m1)" using own del by (simp add: bf_dealloc_def)
  have c: "bf_capacity ?b1 = bf_end b" using en by (simp add: bf_capacity_def)
  let ?p = "m_brk m"
  let ?m2 = "snd (mem_new (bf_end b) m1)"
  let ?b2 = "?b1\<lparr>bf_base := ?p, bf_pos := ?p, bf_mark := ?p, bf_end := ?p + bf_end b,
                 bf_lim := ?p + bf_end b, bf_own := True\<rparr>"
  have a: "bf_alloc (bf_end b) ?b1 m1 = (?b2, ?m2)" by (simp add: bf_alloc_def mem_new_def del)
  have live: "live_range ?m2 ?p (bf_end b)" by (simp add: mem_new_def del live_range_def)
  have "copy_elem ?p ?p (nat (bf_end b)) ?m2 = Some (blit ?p ?p (bf_end b) ?m2)"
    using copy_elem_blit [of ?m2 ?p "nat (bf_end b)" ?p] live en by (simp add: no_clobber_def)
  then have dc: "bf_deep_copy ?b2 ?b2 ?m2 = Some (True, ?b2, blit ?p ?p (bf_end b) ?m2)"
    using en by (simp add: bf_deep_copy_def bf_size_def bf_capacity_def bf_position_def bf_get_mark_def)
  have "bf_op_assign True b b m = Some (?b2, blit ?p ?p (bf_end b) ?m2)"
    using d c a dc by (simp add: bf_op_assign_def)
  moreover have "m_val (blit ?p ?p (bf_end b) ?m2) = m_val m"
    by (rule ext) (simp add: blit_def mem_new_def del)
  ultimately show ?thesis using en del base
    by (simp add: bf_capacity_def bf_position_def bf_size_def mem_new_def)
qed

section \<open>Properties\<close>

text \<open>A buffer of eight cells at address 1 with position \<open>p\<close>, limit \<open>l\<close> and mark \<open>k\<close>.\<close>

definition bf_demo :: "int \<Rightarrow> int \<Rightarrow> int \<Rightarrow> bf" where
  "bf_demo p l k = \<lparr>bf_base = 1, bf_pos = p, bf_lim = l, bf_end = 9, bf_mark = k, bf_own = False\<rparr>"

lemma bf_demo_inv: "1 \<le> p \<Longrightarrow> p \<le> l \<Longrightarrow> l \<le> 9 \<Longrightarrow> 9 \<le> n \<Longrightarrow> bf_inv (bf_demo p l k) (arena v n)"
  by (simp add: bf_demo_def bf_inv_def)

lemma bf_demo [simp]:
  "bf_base (bf_demo p l k) = 1" "bf_end (bf_demo p l k) = 9" "bf_pos (bf_demo p l k) = p"
  "bf_lim (bf_demo p l k) = l" "bf_mark (bf_demo p l k) = k" "bf_capacity (bf_demo p l k) = 8"
  "bf_apart (bf_demo p l k) a n \<longleftrightarrow> a + n \<le> 1 \<or> 9 \<le> a"
  by (auto simp: bf_demo_def bf_capacity_def bf_apart_def)

text \<open>an array written to a cleared buffer and read back after \<open>flip\<close> comes back whole, with
  the buffer used up.\<close>

theorem bf_write_flip_read:
  assumes "bf_inv b m" and "0 \<le> n" and "n \<le> bf_capacity b"
    and "live_range m src n" and "bf_apart b src n" and "live_range m dst n" and "bf_apart b dst n"
  shows "\<exists>b1 m1 b2 m2. bf_putn src n (bf_clear b) m = Some (n, b1, m1) \<and>
    bf_getn dst n (bf_flip b1) m1 = Some (n, b2, m2) \<and> cells m2 dst n = cells m src n \<and>
    bf_empty b2 \<and> bf_inv b2 m2"
  by (rule bf_roundtrip [OF assms])

theorem bf_write_flip_read_witness:
  "\<exists>b1 m1 b2 m2. bf_putn 9 8 (bf_clear (bf_demo 3 5 1)) (arena (7::int) 30) = Some (8, b1, m1) \<and>
    bf_getn 20 8 (bf_flip b1) m1 = Some (8, b2, m2) \<and> cells m2 20 8 = cells (arena 7 30) 9 8 \<and>
    bf_empty b2 \<and> bf_inv b2 m2"
  by (rule bf_write_flip_read [OF bf_demo_inv]) simp_all

text \<open>\<open>align\<close> moves the position up to the next multiple of \<open>n\<close> from the base, unless that
  is the end of the buffer or beyond, when it leaves the position where it is.\<close>

theorem bf_align_rounds_up:
  assumes "bf_inv b m" and "0 < n" and "bf_end b - bf_base b < 2147483648"
  shows "\<exists>b' p. bf_align n b = Some b' \<and> p = bf_base b + ((bf_position b + n - 1) div n) * n \<and>
    bf_pos b' = (if p < bf_end b then p else bf_pos b) \<and> bf_inv (b'\<lparr>bf_lim := bf_end b\<rparr>) m"
proof -
  obtain b' where b': "bf_align n b = Some b'" "bf_base b' = bf_base b" "bf_lim b' = bf_lim b"
      "bf_pos b' = (let p = bf_base b + ((bf_position b + n - 1) div n) * n
        in if p < bf_end b then p else bf_pos b)"
    using bf_align_spec [OF assms] by (auto simp: Let_def)
  have "bf_end b' = bf_end b" using b'(1) by (auto simp: bf_align_def Let_def split: if_splits)
  moreover have "bf_position b \<le> ((bf_position b + n - 1) div n) * n"
    unfolding round_up_mult [OF assms(2)] using pos_mod_bound [OF assms(2), of "bf_position b"]
    by (cases "bf_position b mod n = 0") (linarith | simp)+
  ultimately show ?thesis using b' assms(1) bf_sizes(3) [OF assms(1)]
    by (auto simp: bf_inv_def Let_def)
qed

theorem bf_align_rounds_up_witness:
  "\<exists>b'. bf_align 4 (bf_demo 2 9 1) = Some b' \<and> bf_pos b' = 5"
  using bf_align_rounds_up [OF bf_demo_inv [of 2 9 30 1 "0::int"], of 4]
  by (auto simp: bf_position_def)

text \<open>\<open>compact\<close> moves the items that are left to the start of the buffer and loses none.\<close>

theorem bf_compact_keeps_rest:
  assumes "bf_inv b m"
  shows "\<exists>b' m'. bf_compact b m = Some (b', m') \<and> bf_inv b' m' \<and> bf_rest b' m' = bf_rest b m \<and>
    bf_position b' = 0 \<and> bf_size b' = bf_available b \<and> bf_get_mark b' = bf_get_mark b"
proof -
  obtain b' m' where c: "bf_compact b m = Some (b', m')" "bf_inv b' m'" "bf_rest b' m' = bf_rest b m"
      "bf_pos b' = bf_base b" "bf_mark b' = bf_mark b" "bf_size b' = bf_available b"
    using bf_compact_spec [OF assms] by blast
  moreover have "bf_base b' = bf_base b" using c(1) by (auto simp: bf_compact_def bind_Some_iff)
  ultimately show ?thesis by (simp add: bf_position_def bf_get_mark_def)
qed

theorem bf_compact_keeps_rest_witness:
  "\<exists>b' m'. bf_compact (bf_demo 3 8 1) (arena (7::int) 30) = Some (b', m') \<and> bf_size b' = 5 \<and>
    bf_rest b' m' = bf_rest (bf_demo 3 8 1) (arena 7 30)"
  using bf_compact_keeps_rest [OF bf_demo_inv [of 3 8 30 1 "7::int"]]
  by (fastforce simp: bf_available_def)

text \<open>\<open>compact\<close> leaves the mark where it was, so that with less data left than the mark is
  from the base, a \<open>reset\<close> afterwards puts the position past the limit and \<open>available\<close> wraps
  around to almost \<open>2 ^ 64\<close>.\<close>

theorem bf_compact_then_reset_overruns:
  assumes "bf_inv b m" and "bf_lim b - bf_pos b < bf_mark b - bf_base b" and "bf_mark b \<le> bf_end b"
  shows "\<exists>b' m'. bf_compact b m = Some (b', m') \<and> bf_lim b' < bf_pos (bf_reset b') \<and>
    bf_available (bf_reset b') = 2 ^ 64 - (bf_get_mark b - bf_available b)"
proof -
  have "bf_get_mark b = bf_mark b - bf_base b" "bf_available b = bf_lim b - bf_pos b"
    using assms by (simp_all add: bf_get_mark_def bf_available_def bf_inv_def)
  moreover obtain b' m' where c: "bf_compact b m = Some (b', m')" "bf_available (bf_reset b')
      = 2 ^ 64 - (bf_mark b - bf_base b - (bf_lim b - bf_pos b))"
    using bf_compact_stale_mark [OF assms] by blast
  moreover have "bf_lim b' < bf_pos (bf_reset b')"
    using c(1) assms(2) by (auto simp: bf_compact_def bind_Some_iff bf_reset_def)
  ultimately show ?thesis by simp
qed

theorem bf_compact_then_reset_overruns_witness:
  "\<exists>b' m'. bf_compact (bf_demo 7 9 6) (arena (0::int) 30) = Some (b', m') \<and>
    bf_lim b' < bf_pos (bf_reset b') \<and> bf_available (bf_reset b') = 2 ^ 64 - 3"
  using bf_compact_then_reset_overruns [OF bf_demo_inv [of 7 9 30 6 "0::int"]]
  by (simp add: bf_get_mark_def bf_available_def)

text \<open>the copy constructor makes an owning buffer of the same capacity in memory of its own,
  with the same size, position, mark and items, and leaves the source as it was.\<close>

theorem bf_copy_constructs:
  assumes "mem_wf m" and "bf_inv rhs m" and "bf_mark_ok rhs" and "bf_end rhs \<le> m_brk m"
  shows "\<exists>b' m'. bf_ctor_copy rhs b m = Some (b', m') \<and> bf_inv b' m' \<and> bf_own b' \<and>
    bf_capacity b' = bf_capacity rhs \<and> bf_size b' = bf_size rhs \<and>
    bf_position b' = bf_position rhs \<and> bf_get_mark b' = bf_get_mark rhs \<and>
    cells m' (bf_base b') (bf_size b') = cells m (bf_base rhs) (bf_size rhs) \<and>
    cells m' (bf_base rhs) (bf_size rhs) = cells m (bf_base rhs) (bf_size rhs) \<and>
    bf_end rhs \<le> bf_base b'"
  using bf_ctor_copy_spec [OF assms] by blast

theorem bf_copy_constructs_witness:
  "\<exists>b' m'. bf_ctor_copy (bf_demo 3 5 1) bf_ctor (arena (7::int) 30) = Some (b', m') \<and> bf_own b' \<and>
    bf_capacity b' = 8 \<and> 9 \<le> bf_base b'"
  using bf_copy_constructs [OF _ bf_demo_inv [of 3 5 30 1 "7::int"], of bf_ctor]
  by (auto simp: bf_mark_ok_def)

text \<open>assigning an owning buffer to itself frees its block first; what is left is a fresh
  block of as many items as the old end pointer had as a number, without the old contents,
  position or size.\<close>

theorem bf_self_assign_loses_data:
  assumes "mem_wf m" and "bf_own b" and "m_blocks m (bf_base b) = Some n"
    and "0 \<le> bf_end b" and "bf_end b < 2 ^ 63"
  shows "\<exists>b' m'. bf_op_assign True b b m = Some (b', m') \<and> bf_base b' = m_brk m \<and>
    bf_capacity b' = bf_end b \<and> bf_position b' = 0 \<and> bf_size b' = bf_end b \<and>
    m_blocks m' (bf_base b) = None"
  using bf_self_assign [OF assms] by blast

theorem bf_self_assign_loses_data_witness:
  "\<exists>b' m'. bf_op_assign True \<lparr>bf_base = 100, bf_pos = 102, bf_lim = 103, bf_end = 104, bf_mark = 100, bf_own = True\<rparr>
      \<lparr>bf_base = 100, bf_pos = 102, bf_lim = 103, bf_end = 104, bf_mark = 100, bf_own = True\<rparr>
      (snd (mem_new 4 (arena (0::int) 100))) = Some (b', m') \<and> bf_capacity b' = 104"
proof -
  have "mem_wf (snd (mem_new 4 (arena (0::int) 100)))"
    by (rule mem_new_wf [OF arena_wf [of 100 "0::int"], of 4]) (simp_all add: mem_new_def)
  from bf_self_assign_loses_data [OF this, of "\<lparr>bf_base = 100, bf_pos = 102, bf_lim = 103,
      bf_end = 104, bf_mark = 100, bf_own = True\<rparr>" 4]
  show ?thesis by (auto simp: mem_new_def)
qed

end
