(* ===== verification/Codec.thy ===== *)
theory Codec imports BufferColl "HOL-Library.Word" begin

text \<open>
  \<open>CtrlrFx/swap.h\<close>, \<open>CtrlrFx/BufCodec.h\<close> and \<open>src/data/BufCodec.cpp\<close>: the binary
  encoders and decoders over a \<open>ByteBuffer\<close>. A value of an integer type of \<open>k\<close> bytes is
  an \<open>int\<close> taken modulo \<open>256 ^ k\<close>; the template parameter \<open>T\<close> of the code is that
  size. The host's byte order is the argument \<open>le\<close> (little endian). Local variables the
  code hands to the buffer by address are byte lists.
\<close>

type_synonym byte = "8 word"

section \<open>Byte layouts of integers\<close>

fun bytes_le :: "nat \<Rightarrow> int \<Rightarrow> byte list" where
  "bytes_le 0 x = []"
| "bytes_le (Suc k) x = word_of_int x # bytes_le k (x div 256)"

fun val_le :: "byte list \<Rightarrow> int" where
  "val_le [] = 0"
| "val_le (b # bs) = uint b + 256 * val_le bs"

text \<open>The object representation of a value on the host.\<close>

definition host_bytes :: "bool \<Rightarrow> nat \<Rightarrow> int \<Rightarrow> byte list" where
  "host_bytes le k x = (if le then bytes_le k x else rev (bytes_le k x))"

definition host_val :: "bool \<Rightarrow> byte list \<Rightarrow> int" where
  "host_val le bs = (if le then val_le bs else val_le (rev bs))"

text \<open>\<open>long n = 1L; *(byte* )&n == 1\<close>, for a \<open>long\<close> of 8 bytes.\<close>

definition is_little_endian :: "bool \<Rightarrow> bool" where
  "is_little_endian le \<longleftrightarrow> hd (host_bytes le 8 1) = 1"

definition is_big_endian :: "bool \<Rightarrow> bool" where
  "is_big_endian le \<longleftrightarrow> \<not> is_little_endian le"

text \<open>A layout of fixed width that can be read back.\<close>

locale fixed_width_layout =
  fixes to_b :: "nat \<Rightarrow> int \<Rightarrow> byte list"
    and of_b :: "byte list \<Rightarrow> int"
  assumes to_b_length: "length (to_b k x) = k"
    and of_to_b: "of_b (to_b k x) = x mod 256 ^ k"
begin

lemma read_back: "0 \<le> x \<Longrightarrow> x < 256 ^ k \<Longrightarrow> of_b (to_b k x) = x"
  by (simp add: of_to_b)

lemma to_b_inj: "to_b k x = to_b k y \<Longrightarrow> x mod 256 ^ k = y mod 256 ^ k"
  by (metis of_to_b)

lemma to_b_nth_append: "take k (to_b k x @ rest) = to_b k x"
  by (simp add: to_b_length)

end

lemma bytes_le_length [simp]: "length (bytes_le k x) = k"
  by (induction k arbitrary: x) auto

lemma val_bytes_le: "val_le (bytes_le k x) = x mod 256 ^ k"
proof (induction k arbitrary: x)
  case (Suc k)
  have "val_le (bytes_le (Suc k) x) = x mod 256 + 256 * (x div 256 mod 256 ^ k)"
    by (simp add: Suc.IH uint_word_of_int take_bit_eq_mod)
  also have "\<dots> = x mod (256 * 256 ^ k)"
    by (simp add: zmod_zmult2_eq)
  finally show ?case by simp
qed simp

lemma uint_byte: "uint (word_of_int z :: byte) = z mod 256"
  by (simp add: uint_word_of_int take_bit_eq_mod)

lemma bytes_val_le: "bytes_le (length bs) (val_le bs) = bs"
proof (induction bs)
  case (Cons b bs)
  have lt: "uint b < 256" "0 \<le> uint b" using uint_lt2p [of b] by simp_all
  have "(word_of_int (uint b + 256 * val_le bs) :: byte) = b"
    by (rule word_uint_eqI, subst uint_byte) (use lt in simp)
  moreover have "(uint b + 256 * val_le bs) div 256 = val_le bs"
    using lt by simp
  ultimately show ?case using Cons.IH by simp
qed simp

interpretation native: fixed_width_layout "host_bytes le" "host_val le"
  by unfold_locales (simp_all add: host_bytes_def host_val_def val_bytes_le)

interpretation swapped: fixed_width_layout "\<lambda>k x. rev (host_bytes le k x)" "\<lambda>bs. host_val le (rev bs)"
  by unfold_locales (simp_all add: native.to_b_length native.of_to_b)

lemma host_bytes_length [simp]: "length (host_bytes le k x) = k"
  by (rule native.to_b_length)

lemma rev_host_bytes: "rev (host_bytes le k x) = host_bytes (\<not> le) k x"
  by (simp add: host_bytes_def)

lemma host_bytes_val: "host_bytes le (length bs) (host_val le bs) = bs"
  using bytes_val_le [of bs] bytes_val_le [of "rev bs"] by (simp add: host_bytes_def host_val_def)

lemma host_bytes_1: "host_bytes le 1 x = [word_of_int x]"
  by (simp add: host_bytes_def)

lemma is_little_endian_host: "is_little_endian le = le"
proof -
  have "bytes_le 8 1 = [1, 0, 0, 0, 0, 0, 0, 0]" by code_simp
  then show ?thesis by (cases le) (simp_all add: is_little_endian_def host_bytes_def)
qed

section \<open>Byte swapping in place\<close>

text \<open>\<open>for (i=0; i<n/2; ++i) { tmp = pv[i]; pv[i] = pv[n-1-i]; pv[n-1-i] = tmp; }\<close>\<close>

fun swap_loop :: "nat \<Rightarrow> nat \<Rightarrow> byte list \<Rightarrow> byte list" where
  "swap_loop 0 i pv = pv"
| "swap_loop (Suc k) i pv =
     (let n = length pv; tmp = pv ! i; pv = pv[i := pv ! (n - 1 - i)]; pv = pv[n - 1 - i := tmp]
      in swap_loop k (i + 1) pv)"

definition swap_bytes :: "byte list \<Rightarrow> byte list" where
  "swap_bytes pv = (let n = length pv in if n > 1 then swap_loop (n div 2) 0 pv else pv)"

text \<open>The specialisation for \<open>uint16_t\<close>.\<close>

definition swap_bytes_u16 :: "byte list \<Rightarrow> byte list" where
  "swap_bytes_u16 pv = (let tmp = pv ! 0; pv = pv[0 := pv ! 1]; pv = pv[1 := tmp] in pv)"

text \<open>\<open>T swap_bytes(T val)\<close>: the swapped value of \<open>k\<close> bytes.\<close>

definition swap_val :: "bool \<Rightarrow> nat \<Rightarrow> int \<Rightarrow> int" where
  "swap_val le k x = host_val le (swap_bytes (host_bytes le k x))"

lemma swap_loop_length [simp]: "length (swap_loop k i pv) = length pv"
  by (induction k i pv rule: swap_loop.induct) (simp_all add: Let_def)

text \<open>Round \<open>i\<close> swaps the outermost bytes of the middle part that is not swapped yet.\<close>

lemma swap_loop_middle:
  assumes "k = length mid div 2" and "length as = i" and "length bs = i"
  shows "swap_loop k i (as @ mid @ bs) = as @ rev mid @ bs"
  using assms
proof (induction k arbitrary: i as mid bs)
  case 0
  then have "length mid < 2" by linarith
  then have "mid = [] \<or> (\<exists>b. mid = [b])" by (cases mid) auto
  then show ?case by auto
next
  case (Suc k)
  obtain x mid' y where mid: "mid = x # mid' @ [y]"
  proof (cases mid)
    case (Cons x xs)
    with Suc.prems(1) have "xs \<noteq> []" by auto
    with Cons that [of x "butlast xs" "last xs"] show ?thesis by simp
  qed (use Suc.prems(1) in simp)
  let ?pv = "as @ mid @ bs"
  have last: "length ?pv - 1 - i = length (as @ x # mid')" using Suc.prems mid by simp
  have step: "?pv ! i = x" "?pv ! (length ?pv - 1 - i) = y"
      "(?pv[i := y])[length ?pv - 1 - i := x] = (as @ [y]) @ mid' @ (x # bs)"
    using Suc.prems(2) unfolding last by (simp_all add: mid nth_append list_update_append)
  have "swap_loop (Suc k) i ?pv = swap_loop k (i + 1) ((as @ [y]) @ mid' @ (x # bs))"
    using step by (simp add: Let_def)
  also have "\<dots> = (as @ [y]) @ rev mid' @ (x # bs)"
    using Suc.prems mid by (intro Suc.IH) auto
  finally show ?case by (simp add: mid)
qed

lemma swap_bytes_rev: "swap_bytes pv = rev pv"
proof (cases "length pv > 1")
  case True
  then show ?thesis using swap_loop_middle [of "length pv div 2" pv "[]" 0 "[]"]
    by (simp add: swap_bytes_def)
next
  case False
  then have "pv = [] \<or> (\<exists>b. pv = [b])" by (cases pv) auto
  then show ?thesis by (auto simp: swap_bytes_def)
qed

lemma swap_bytes_u16_eq: "length pv = 2 \<Longrightarrow> swap_bytes_u16 pv = swap_bytes pv"
  by (auto simp: swap_bytes_rev swap_bytes_u16_def Let_def length_Suc_conv numeral_2_eq_2)

lemma swap_val_other_host: "swap_val le k x = host_val le (host_bytes (\<not> le) k x)"
  by (simp add: swap_val_def swap_bytes_rev rev_host_bytes)

lemma swap_val_involution: "swap_val le k (swap_val le k x) = x mod 256 ^ k"
proof -
  have "host_bytes le k (swap_val le k x) = host_bytes (\<not> le) k x"
    using host_bytes_val [of le "host_bytes (\<not> le) k x"] by (simp add: swap_val_other_host)
  then show ?thesis
    by (simp add: swap_val_def [of _ _ "swap_val le k x"] swap_bytes_rev rev_host_bytes native.of_to_b)
qed

section \<open>Properties\<close>

text \<open>\<open>swap_bytes\<close> gives what a host of the opposite byte order would read from the same
  bytes, its \<open>uint16_t\<close> specialisation agrees with it, and swapping twice is the identity.\<close>

theorem swap_changes_byte_order:
  "swap_val le k x = host_val le (host_bytes (\<not> le) k x) \<and>
   swap_val le k (swap_val le k x) = x mod 256 ^ k \<and>
   swap_bytes_u16 (host_bytes le 2 x) = swap_bytes (host_bytes le 2 x)"
  by (intro conjI swap_val_other_host swap_val_involution swap_bytes_u16_eq) simp

end
