(* ===== verification/Encoders.thy ===== *)
theory Encoders imports Codec begin

text \<open>
  \<open>CtrlrFx/BufCodec.h\<close> and \<open>src/data/BufCodec.cpp\<close>: the encoders and decoders. A codec is
  the buffer it refers to and its good flag. An inserter returns the count the code
  returns, the codec and the memory; an extractor returns the count, the value stored
  through the pointer (\<open>None\<close> when the code stores nothing) and the codec.
\<close>

record codec =
  cd_buf :: bf
  cd_good :: bool

definition cd_ctor :: "bf \<Rightarrow> codec" where
  "cd_ctor b = \<lparr>cd_buf = b, cd_good = True\<rparr>"

definition cd_size :: "codec \<Rightarrow> int" where "cd_size c = bf_size (cd_buf c)"
definition cd_full :: "codec \<Rightarrow> bool" where "cd_full c = bf_full (cd_buf c)"
definition cd_empty :: "codec \<Rightarrow> bool" where "cd_empty c = bf_empty (cd_buf c)"

definition cd_mark :: "codec \<Rightarrow> codec" where
  "cd_mark c = c\<lparr>cd_buf := bf_set_mark (cd_buf c)\<rparr>"
definition cd_reset :: "codec \<Rightarrow> codec" where
  "cd_reset c = c\<lparr>cd_buf := bf_reset (cd_buf c), cd_good := True\<rparr>"
definition cd_rewind :: "codec \<Rightarrow> codec" where
  "cd_rewind c = c\<lparr>cd_buf := bf_rewind (cd_buf c), cd_good := True\<rparr>"
definition cd_clear :: "codec \<Rightarrow> codec" where
  "cd_clear c = c\<lparr>cd_buf := bf_clear (cd_buf c), cd_good := True\<rparr>"

section \<open>The buffer's array transfers on local variables\<close>

text \<open>
  \<open>buf_.put(arr, n)\<close> and \<open>buf_.get(arr, n)\<close> where the array is a local variable of the
  caller: the same steps as \<open>bf_putn\<close> and \<open>bf_getn\<close>, on a byte list.
\<close>

fun wr_list :: "'a mem \<Rightarrow> int \<Rightarrow> 'a list \<Rightarrow> 'a mem option" where
  "wr_list m p [] = Some m"
| "wr_list m p (x # xs) = do { m' \<leftarrow> wr m p x; wr_list m' (p + 1) xs }"

fun rd_list :: "'a mem \<Rightarrow> int \<Rightarrow> nat \<Rightarrow> 'a list option" where
  "rd_list m p 0 = Some []"
| "rd_list m p (Suc n) = do { x \<leftarrow> rd m p; xs \<leftarrow> rd_list m (p + 1) n; Some (x # xs) }"

definition bf_put_local :: "'a list \<Rightarrow> bf \<Rightarrow> 'a mem \<Rightarrow> (int \<times> bf \<times> 'a mem) option" where
  "bf_put_local xs b m =
     (if bf_pos b + int (length xs) > bf_lim b then Some (0, b, m)
      else do { m' \<leftarrow> wr_list m (bf_pos b) xs;
                Some (int (length xs), b\<lparr>bf_pos := bf_pos b + int (length xs)\<rparr>, m') })"

definition bf_get_local :: "nat \<Rightarrow> bf \<Rightarrow> 'a mem \<Rightarrow> (int \<times> 'a list option \<times> bf) option" where
  "bf_get_local n b m =
     (if bf_pos b + int n > bf_lim b then Some (0, None, b)
      else do { xs \<leftarrow> rd_list m (bf_pos b) n;
                Some (int n, Some xs, b\<lparr>bf_pos := bf_pos b + int n\<rparr>) })"

section \<open>Native encoder\<close>

text \<open>\<open>put(const T& v)\<close>; the swap encoder's private \<open>put\<close> is the same text.\<close>

definition enc_put :: "bool \<Rightarrow> nat \<Rightarrow> int \<Rightarrow> codec \<Rightarrow> byte mem \<Rightarrow> (int \<times> codec \<times> byte mem) option" where
  "enc_put le k v c m =
     (if cd_good c then
        do { b \<leftarrow> bf_align (int k) (cd_buf c);
             (nx, b', m') \<leftarrow> bf_put_local (host_bytes le k v) b m;
             Some (nx, c\<lparr>cd_buf := b', cd_good := (nx = int k)\<rparr>, m') }
      else Some (0, c, m))"

text \<open>
  \<open>put(const T arr[], size_t n)\<close> for \<open>T = byte\<close>, the only type \<open>buf_.put(arr, n)\<close>
  accepts. The count of the copied elements goes to an inner \<open>nx\<close>, so that the outer one,
  which is returned, stays 0.
\<close>

definition enc_put_arr :: "bool \<Rightarrow> int \<Rightarrow> int \<Rightarrow> codec \<Rightarrow> byte mem \<Rightarrow> (int \<times> codec \<times> byte mem) option" where
  "enc_put_arr le arr n c m =
     (if cd_good c then
        do { (r, c1, m1) \<leftarrow> enc_put le 2 (u16 n) c m;
             if r \<noteq> 2 then Some (0, c1, m1)
             else do { b \<leftarrow> bf_align 1 (cd_buf c1);
                       (nx, b', m') \<leftarrow> bf_putn arr n b m1;
                       Some (0, c1\<lparr>cd_buf := b', cd_good := (nx = s32 n)\<rparr>, m') } }
      else Some (0, c, m))"

definition enc_put_bool :: "bool \<Rightarrow> bool \<Rightarrow> codec \<Rightarrow> byte mem \<Rightarrow> (int \<times> codec \<times> byte mem) option" where
  "enc_put_bool le b = enc_put le 1 (if b then 1 else 0)"
definition enc_put_char :: "bool \<Rightarrow> int \<Rightarrow> codec \<Rightarrow> byte mem \<Rightarrow> (int \<times> codec \<times> byte mem) option" where
  "enc_put_char le = enc_put le 1"
definition enc_put_byte :: "bool \<Rightarrow> int \<Rightarrow> codec \<Rightarrow> byte mem \<Rightarrow> (int \<times> codec \<times> byte mem) option" where
  "enc_put_byte le = enc_put le 1"
definition enc_put_int16 :: "bool \<Rightarrow> int \<Rightarrow> codec \<Rightarrow> byte mem \<Rightarrow> (int \<times> codec \<times> byte mem) option" where
  "enc_put_int16 le = enc_put le 2"
definition enc_put_uint16 :: "bool \<Rightarrow> int \<Rightarrow> codec \<Rightarrow> byte mem \<Rightarrow> (int \<times> codec \<times> byte mem) option" where
  "enc_put_uint16 le = enc_put le 2"
definition enc_put_int32 :: "bool \<Rightarrow> int \<Rightarrow> codec \<Rightarrow> byte mem \<Rightarrow> (int \<times> codec \<times> byte mem) option" where
  "enc_put_int32 le = enc_put le 4"
definition enc_put_uint32 :: "bool \<Rightarrow> int \<Rightarrow> codec \<Rightarrow> byte mem \<Rightarrow> (int \<times> codec \<times> byte mem) option" where
  "enc_put_uint32 le = enc_put le 4"

definition enc_shl :: "bool \<Rightarrow> nat \<Rightarrow> int \<Rightarrow> codec \<Rightarrow> byte mem \<Rightarrow> (codec \<times> byte mem) option" where
  "enc_shl le k v c m = map_option snd (enc_put le k v c m)"

section \<open>Native decoder\<close>

text \<open>The value is read back as an unsigned one; \<open>signed_val\<close> reinterprets it.\<close>

definition dec_get :: "bool \<Rightarrow> nat \<Rightarrow> codec \<Rightarrow> byte mem \<Rightarrow> (int \<times> int option \<times> codec) option" where
  "dec_get le k c m =
     (if cd_good c then
        do { b \<leftarrow> bf_align (int k) (cd_buf c);
             (nx, bs, b') \<leftarrow> bf_get_local k b m;
             Some (nx, map_option (host_val le) bs, c\<lparr>cd_buf := b', cd_good := (nx = int k)\<rparr>) }
      else Some (0, None, c))"

definition signed_val :: "nat \<Rightarrow> int \<Rightarrow> int" where
  "signed_val k x = (if x < 256 ^ k div 2 then x else x - 256 ^ k)"

definition dec_get_arr :: "bool \<Rightarrow> nat \<Rightarrow> int \<Rightarrow> int \<Rightarrow> codec \<Rightarrow> byte mem \<Rightarrow> (int \<times> codec \<times> byte mem) option" where
  "dec_get_arr le k arr n c m =
     (if cd_good c then
        do { (r, nc, c1) \<leftarrow> dec_get le 2 c m;
             if r \<noteq> 2 then Some (0, c1, m)
             else let n = min n (the nc)
                  in do { b \<leftarrow> bf_align (int k) (cd_buf c1);
                          (nx, b', m') \<leftarrow> bf_getn arr n b m;
                          Some (nx, c1\<lparr>cd_buf := b', cd_good := (nx = s32 n)\<rparr>, m') } }
      else Some (0, c, m))"

text \<open>The byte starts at 0, so the flag is stored even when nothing could be read.\<close>

definition dec_get_bool :: "bool \<Rightarrow> codec \<Rightarrow> byte mem \<Rightarrow> (int \<times> bool \<times> codec) option" where
  "dec_get_bool le c m =
     do { (ret, by, c') \<leftarrow> dec_get le 1 c m;
          Some (ret, (case by of None \<Rightarrow> False | Some x \<Rightarrow> x \<noteq> 0), c') }"

definition dec_get_byte :: "bool \<Rightarrow> codec \<Rightarrow> byte mem \<Rightarrow> (int \<times> int option \<times> codec) option" where
  "dec_get_byte le = dec_get le 1"
definition dec_get_uint16 :: "bool \<Rightarrow> codec \<Rightarrow> byte mem \<Rightarrow> (int \<times> int option \<times> codec) option" where
  "dec_get_uint16 le = dec_get le 2"
definition dec_get_uint32 :: "bool \<Rightarrow> codec \<Rightarrow> byte mem \<Rightarrow> (int \<times> int option \<times> codec) option" where
  "dec_get_uint32 le = dec_get le 4"
definition dec_get_char :: "bool \<Rightarrow> codec \<Rightarrow> byte mem \<Rightarrow> (int \<times> int option \<times> codec) option" where
  "dec_get_char le c m =
     map_option (\<lambda>(n, v, c'). (n, map_option (signed_val 1) v, c')) (dec_get le 1 c m)"
definition dec_get_int16 :: "bool \<Rightarrow> codec \<Rightarrow> byte mem \<Rightarrow> (int \<times> int option \<times> codec) option" where
  "dec_get_int16 le c m =
     map_option (\<lambda>(n, v, c'). (n, map_option (signed_val 2) v, c')) (dec_get le 2 c m)"
definition dec_get_int32 :: "bool \<Rightarrow> codec \<Rightarrow> byte mem \<Rightarrow> (int \<times> int option \<times> codec) option" where
  "dec_get_int32 le c m =
     map_option (\<lambda>(n, v, c'). (n, map_option (signed_val 4) v, c')) (dec_get le 4 c m)"

section \<open>Swapping encoder and decoder\<close>

text \<open>The bytes go out with the unchecked single-item \<open>put\<close>, last byte first.\<close>

fun put_each :: "byte list \<Rightarrow> bf \<Rightarrow> byte mem \<Rightarrow> (bf \<times> byte mem) option" where
  "put_each [] b m = Some (b, m)"
| "put_each (x # xs) b m = do { (r, b', m') \<leftarrow> bf_put1 x b m; put_each xs b' m' }"

definition put_swap2 :: "bool \<Rightarrow> int \<Rightarrow> codec \<Rightarrow> byte mem \<Rightarrow> (int \<times> codec \<times> byte mem) option" where
  "put_swap2 le v c m =
     (if bf_available (cd_buf c) < 2 then Some (0, c, m)
      else let b = host_bytes le 2 v
           in do { (b', m') \<leftarrow> put_each [b ! 1, b ! 0] (cd_buf c) m; Some (2, c\<lparr>cd_buf := b'\<rparr>, m') })"

definition put_swap4 :: "bool \<Rightarrow> int \<Rightarrow> codec \<Rightarrow> byte mem \<Rightarrow> (int \<times> codec \<times> byte mem) option" where
  "put_swap4 le v c m =
     (if bf_available (cd_buf c) < 4 then Some (0, c, m)
      else let b = host_bytes le 4 v
           in do { (b', m') \<leftarrow> put_each [b ! 3, b ! 2, b ! 1, b ! 0] (cd_buf c) m;
                   Some (4, c\<lparr>cd_buf := b'\<rparr>, m') })"

definition put_swap8 :: "bool \<Rightarrow> int \<Rightarrow> codec \<Rightarrow> byte mem \<Rightarrow> (int \<times> codec \<times> byte mem) option" where
  "put_swap8 le v c m =
     (if bf_available (cd_buf c) < 8 then Some (0, c, m)
      else let b = host_bytes le 8 v
           in do { (b', m') \<leftarrow> put_each (map (\<lambda>i. b ! i) (rev [0..<8])) (cd_buf c) m;
                   Some (8, c\<lparr>cd_buf := b'\<rparr>, m') })"

text \<open>Extraction with the limit-checking \<open>get(T* p)\<close>, filling the value from its last byte.\<close>

fun get_each :: "nat \<Rightarrow> bf \<Rightarrow> byte mem \<Rightarrow> (byte option list \<times> bf) option" where
  "get_each 0 b m = Some ([], b)"
| "get_each (Suc n) b m =
     do { (x, b') \<leftarrow> bf_getp b m; (xs, b'') \<leftarrow> get_each n b' m; Some (x # xs, b'') }"

definition get_swap :: "bool \<Rightarrow> nat \<Rightarrow> codec \<Rightarrow> byte mem \<Rightarrow> (int \<times> int option \<times> codec) option" where
  "get_swap le k c m =
     (if bf_available (cd_buf c) < int k then Some (0, None, c)
      else do { (xs, b') \<leftarrow> get_each k (cd_buf c) m;
                Some (int k,
                      (if None \<in> set xs then None else Some (host_val le (rev (map the xs)))),
                      c\<lparr>cd_buf := b'\<rparr>) })"

definition get_swap2 :: "bool \<Rightarrow> codec \<Rightarrow> byte mem \<Rightarrow> (int \<times> int option \<times> codec) option" where
  "get_swap2 le = get_swap le 2"
definition get_swap4 :: "bool \<Rightarrow> codec \<Rightarrow> byte mem \<Rightarrow> (int \<times> int option \<times> codec) option" where
  "get_swap4 le = get_swap le 4"
definition get_swap8 :: "bool \<Rightarrow> codec \<Rightarrow> byte mem \<Rightarrow> (int \<times> int option \<times> codec) option" where
  "get_swap8 le = get_swap le 8"

text \<open>
  The swapping encoder and decoder as classes: single bytes and counted arrays go through
  \<open>put\<close> and \<open>get\<close>, whose bodies are those of the native classes (so that the
  count of an array is \<^emph>\<open>not\<close> swapped), the integers through the swapping routines.
\<close>

definition sw_put :: "bool \<Rightarrow> nat \<Rightarrow> int \<Rightarrow> codec \<Rightarrow> byte mem \<Rightarrow> (int \<times> codec \<times> byte mem) option" where
  "sw_put le k v c m =
     (if cd_good c then
        do { b \<leftarrow> bf_align (int k) (cd_buf c);
             (nx, b', m') \<leftarrow> bf_put_local (host_bytes le k v) b m;
             Some (nx, c\<lparr>cd_buf := b', cd_good := (nx = int k)\<rparr>, m') }
      else Some (0, c, m))"

definition sw_put_arr :: "bool \<Rightarrow> int \<Rightarrow> int \<Rightarrow> codec \<Rightarrow> byte mem \<Rightarrow> (int \<times> codec \<times> byte mem) option" where
  "sw_put_arr le arr n c m =
     (if cd_good c then
        do { (r, c1, m1) \<leftarrow> sw_put le 2 (u16 n) c m;
             if r \<noteq> 2 then Some (0, c1, m1)
             else do { b \<leftarrow> bf_align 1 (cd_buf c1);
                       (nx, b', m') \<leftarrow> bf_putn arr n b m1;
                       Some (0, c1\<lparr>cd_buf := b', cd_good := (nx = s32 n)\<rparr>, m') } }
      else Some (0, c, m))"

definition sw_put_bool :: "bool \<Rightarrow> bool \<Rightarrow> codec \<Rightarrow> byte mem \<Rightarrow> (int \<times> codec \<times> byte mem) option" where
  "sw_put_bool le b = sw_put le 1 (if b then 1 else 0)"
definition sw_put_byte :: "bool \<Rightarrow> int \<Rightarrow> codec \<Rightarrow> byte mem \<Rightarrow> (int \<times> codec \<times> byte mem) option" where
  "sw_put_byte le = sw_put le 1"
definition sw_put_char :: "bool \<Rightarrow> int \<Rightarrow> codec \<Rightarrow> byte mem \<Rightarrow> (int \<times> codec \<times> byte mem) option" where
  "sw_put_char le = sw_put le 1"
definition sw_put_uint16 :: "bool \<Rightarrow> int \<Rightarrow> codec \<Rightarrow> byte mem \<Rightarrow> (int \<times> codec \<times> byte mem) option" where
  "sw_put_uint16 le = put_swap2 le"
definition sw_put_uint32 :: "bool \<Rightarrow> int \<Rightarrow> codec \<Rightarrow> byte mem \<Rightarrow> (int \<times> codec \<times> byte mem) option" where
  "sw_put_uint32 le = put_swap4 le"
definition sw_put_int16 :: "bool \<Rightarrow> int \<Rightarrow> codec \<Rightarrow> byte mem \<Rightarrow> (int \<times> codec \<times> byte mem) option" where
  "sw_put_int16 le = put_swap2 le"
definition sw_put_int32 :: "bool \<Rightarrow> int \<Rightarrow> codec \<Rightarrow> byte mem \<Rightarrow> (int \<times> codec \<times> byte mem) option" where
  "sw_put_int32 le = put_swap4 le"

definition sw_get :: "bool \<Rightarrow> nat \<Rightarrow> codec \<Rightarrow> byte mem \<Rightarrow> (int \<times> int option \<times> codec) option" where
  "sw_get le k c m =
     (if cd_good c then
        do { b \<leftarrow> bf_align (int k) (cd_buf c);
             (nx, bs, b') \<leftarrow> bf_get_local k b m;
             Some (nx, map_option (host_val le) bs, c\<lparr>cd_buf := b', cd_good := (nx = int k)\<rparr>) }
      else Some (0, None, c))"

definition sw_get_byte :: "bool \<Rightarrow> codec \<Rightarrow> byte mem \<Rightarrow> (int \<times> int option \<times> codec) option" where
  "sw_get_byte le = sw_get le 1"
definition sw_get_uint16 :: "bool \<Rightarrow> codec \<Rightarrow> byte mem \<Rightarrow> (int \<times> int option \<times> codec) option" where
  "sw_get_uint16 le = get_swap2 le"
definition sw_get_uint32 :: "bool \<Rightarrow> codec \<Rightarrow> byte mem \<Rightarrow> (int \<times> int option \<times> codec) option" where
  "sw_get_uint32 le = get_swap4 le"

definition sw_get_char :: "bool \<Rightarrow> codec \<Rightarrow> byte mem \<Rightarrow> (int \<times> int option \<times> codec) option" where
  "sw_get_char le c m =
     map_option (\<lambda>(n, v, c'). (n, map_option (signed_val 1) v, c')) (sw_get le 1 c m)"
definition sw_get_int16 :: "bool \<Rightarrow> codec \<Rightarrow> byte mem \<Rightarrow> (int \<times> int option \<times> codec) option" where
  "sw_get_int16 le c m =
     map_option (\<lambda>(n, v, c'). (n, map_option (signed_val 2) v, c')) (get_swap2 le c m)"
definition sw_get_int32 :: "bool \<Rightarrow> codec \<Rightarrow> byte mem \<Rightarrow> (int \<times> int option \<times> codec) option" where
  "sw_get_int32 le c m =
     map_option (\<lambda>(n, v, c'). (n, map_option (signed_val 4) v, c')) (get_swap4 le c m)"

text \<open>Unlike the native one this leaves the byte uninitialised; its value is the argument \<open>g\<close>.\<close>

definition sw_get_bool :: "bool \<Rightarrow> int \<Rightarrow> codec \<Rightarrow> byte mem \<Rightarrow> (int \<times> bool \<times> codec) option" where
  "sw_get_bool le g c m =
     do { (ret, by, c') \<leftarrow> sw_get le 1 c m;
          Some (ret, (case by of None \<Rightarrow> g \<noteq> 0 | Some x \<Rightarrow> x \<noteq> 0), c') }"

definition sw_get_arr :: "bool \<Rightarrow> nat \<Rightarrow> int \<Rightarrow> int \<Rightarrow> codec \<Rightarrow> byte mem \<Rightarrow> (int \<times> codec \<times> byte mem) option" where
  "sw_get_arr le k arr n c m =
     (if cd_good c then
        do { (r, nc, c1) \<leftarrow> sw_get le 2 c m;
             if r \<noteq> 2 then Some (0, c1, m)
             else let n = min n (the nc)
                  in do { b \<leftarrow> bf_align (int k) (cd_buf c1);
                          (nx, b', m') \<leftarrow> bf_getn arr n b m;
                          Some (nx, c1\<lparr>cd_buf := b', cd_good := (nx = s32 n)\<rparr>, m') } }
      else Some (0, c, m))"

lemma sw_bytes_native: "sw_put = enc_put" "sw_put_arr = enc_put_arr" "sw_get = dec_get"
  by (intro ext, simp add: sw_put_def enc_put_def, intro ext,
      simp add: sw_put_arr_def enc_put_arr_def sw_put_def enc_put_def, intro ext, simp add: sw_get_def dec_get_def)


section \<open>Transfers of local variables\<close>

definition put_at :: "int \<Rightarrow> 'a list \<Rightarrow> 'a mem \<Rightarrow> 'a mem" where
  "put_at p xs m =
     m\<lparr>m_val := (\<lambda>a. if p \<le> a \<and> a < p + int (length xs) then xs ! nat (a - p) else m_val m a)\<rparr>"

lemma put_at_frame [simp]:
  "m_live (put_at p xs m) = m_live m" "m_blocks (put_at p xs m) = m_blocks m"
  "m_brk (put_at p xs m) = m_brk m" "live_range (put_at p xs m) q n = live_range m q n"
  by (simp_all add: put_at_def live_range_def)

lemma put_at_Nil [simp]: "put_at p [] m = m"
proof -
  have "(\<lambda>a. if p \<le> a \<and> a < p then [] ! nat (a - p) else m_val m a) = m_val m"
    by (rule ext) auto
  then show ?thesis by (simp add: put_at_def)
qed

lemma put_at_outside: "a < p \<or> p + int (length xs) \<le> a \<Longrightarrow> m_val (put_at p xs m) a = m_val m a"
  by (auto simp: put_at_def)

lemma cells_put_at: "cells (put_at p xs m) p (int (length xs)) = xs"
  by (rule nth_equalityI) (auto simp: nth_cells put_at_def)

lemma put_at_Cons: "put_at (p + 1) xs (m\<lparr>m_val := (m_val m)(p := x)\<rparr>) = put_at p (x # xs) m"
proof -
  have "m_val (put_at (p + 1) xs (m\<lparr>m_val := (m_val m)(p := x)\<rparr>)) a = m_val (put_at p (x # xs) m) a" for a
  proof (cases "a \<le> p")
    case False
    then have "nat (a - p) = Suc (nat (a - (p + 1)))" by simp
    then show ?thesis using False by (auto simp: put_at_def)
  qed (auto simp: put_at_def)
  then have "m_val (put_at (p + 1) xs (m\<lparr>m_val := (m_val m)(p := x)\<rparr>)) = m_val (put_at p (x # xs) m)" by blast
  then show ?thesis by (simp add: put_at_def)
qed

lemma put_at_append: "put_at (p + int (length xs)) ys (put_at p xs m) = put_at p (xs @ ys) m"
proof (induction xs arbitrary: p m)
  case (Cons x xs)
  let ?m = "m\<lparr>m_val := (m_val m)(p := x)\<rparr>"
  have "p + int (length (x # xs)) = p + 1 + int (length xs)" by simp
  then have "put_at (p + int (length (x # xs))) ys (put_at p (x # xs) m) =
      put_at (p + 1 + int (length xs)) ys (put_at (p + 1) xs ?m)"
    by (simp only: put_at_Cons [symmetric])
  also have "\<dots> = put_at (p + 1) (xs @ ys) ?m" by (rule Cons.IH)
  also have "\<dots> = put_at p ((x # xs) @ ys) m" by (simp only: put_at_Cons append_Cons)
  finally show ?case .
qed simp

lemma wr_list_put_at: "live_range m p (int (length xs)) \<Longrightarrow> wr_list m p xs = Some (put_at p xs m)"
proof (induction xs arbitrary: p m)
  case (Cons x xs)
  have "m_live m p" using Cons.prems by (rule live_range_nth) auto
  moreover have "live_range (m\<lparr>m_val := (m_val m)(p := x)\<rparr>) (p + 1) (int (length xs))"
    using Cons.prems by (auto simp: live_range_def)
  ultimately show ?case using Cons.IH by (simp add: wr_live put_at_Cons)
qed simp

lemma rd_list_cells: "live_range m p (int n) \<Longrightarrow> rd_list m p n = Some (cells m p (int n))"
proof (induction n arbitrary: p)
  case (Suc n)
  have "m_live m p" using Suc.prems by (rule live_range_nth) auto
  moreover have "live_range m (p + 1) (int n)" using Suc.prems by (auto simp: live_range_def)
  ultimately show ?case using Suc.IH by (simp add: rd_live cells_Suc [of "1 + int n"])
qed simp

lemma bf_put_local_ok:
  assumes "bf_inv b m" and "bf_pos b + int (length xs) \<le> bf_lim b"
  shows "bf_put_local xs b m =
    Some (int (length xs), b\<lparr>bf_pos := bf_pos b + int (length xs)\<rparr>, put_at (bf_pos b) xs m)"
  using assms bf_live [OF assms(1), of "bf_pos b" "int (length xs)"]
  by (simp add: bf_put_local_def wr_list_put_at bf_inv_def)

lemma bf_get_local_ok:
  assumes "bf_inv b m" and "bf_pos b + int n \<le> bf_lim b"
  shows "bf_get_local n b m =
    Some (int n, Some (cells m (bf_pos b) (int n)), b\<lparr>bf_pos := bf_pos b + int n\<rparr>)"
  using assms bf_live [OF assms(1), of "bf_pos b" "int n"]
  by (simp add: bf_get_local_def rd_list_cells bf_inv_def)

text \<open>On an array that holds \<open>xs\<close>, clear of the buffer, \<open>bf_putn\<close> does the same.\<close>

lemma bf_putn_local:
  assumes inv: "bf_inv b m" and arr: "live_range m arr (int (length xs))" "bf_apart b arr (int (length xs))"
    and xs: "cells m arr (int (length xs)) = xs" and fits: "bf_pos b + int (length xs) \<le> bf_lim b"
  shows "bf_putn arr (int (length xs)) b m = bf_put_local xs b m"
proof -
  have "m_val (blit (bf_pos b) arr (int (length xs)) m) a = m_val (put_at (bf_pos b) xs m) a" for a
  proof (cases "bf_pos b \<le> a \<and> a < bf_pos b + int (length xs)")
    case True
    define i where "i = nat (a - bf_pos b)"
    have i: "i < length xs" "a = bf_pos b + int i" using True by (simp_all add: i_def nat_less_iff)
    then have "cells m arr (int (length xs)) ! i = m_val m (arr + int i)" by (simp add: nth_cells)
    then show ?thesis using i by (simp add: xs blit_def put_at_def add.commute)
  qed (auto simp: blit_def put_at_def)
  then have "m_val (blit (bf_pos b) arr (int (length xs)) m) = m_val (put_at (bf_pos b) xs m)" by blast
  then have "blit (bf_pos b) arr (int (length xs)) m = put_at (bf_pos b) xs m"
    by (simp add: blit_def put_at_def)
  then show ?thesis
    using bf_putn_fits [OF inv _ _ arr(1) arr(2)] fits bf_sizes(4) [OF inv] bf_put_local_ok [OF inv fits]
    by simp
qed

section \<open>One field\<close>

text \<open>The offset at which a field of \<open>k\<close> bytes starts, and the offset after it.\<close>

definition field_off :: "nat \<Rightarrow> int \<Rightarrow> int" where
  "field_off k off = ((off + int k - 1) div int k) * int k"

lemma field_off_round: "0 < k \<Longrightarrow>
  field_off k off = (if off mod int k = 0 then off else off + (int k - off mod int k))"
  unfolding field_off_def by (rule round_up_mult) simp

lemma field_off_bounds: "0 < k \<Longrightarrow> off \<le> field_off k off \<and> field_off k off < off + int k"
proof -
  assume k: "0 < k"
  then have b: "0 \<le> off mod int k" "off mod int k < int k" by simp_all
  show ?thesis
  proof (cases "off mod int k = 0")
    case True
    then show ?thesis using k by (simp add: field_off_round)
  next
    case False
    then have "field_off k off = off + (int k - off mod int k)" using k by (simp add: field_off_round)
    then show ?thesis using b False by linarith
  qed
qed

lemma field_off_dvd: "int k dvd field_off k off"
  by (simp add: field_off_def)

lemma align_field:
  assumes inv: "bf_inv b m" and k: "0 < k" and cap: "bf_end b - bf_base b < 2147483648"
  defines "p \<equiv> bf_base b + field_off k (bf_pos b - bf_base b)"
  shows "\<exists>q. bf_align (int k) b = Some (b\<lparr>bf_pos := q\<rparr>) \<and> bf_base b \<le> q \<and> q \<le> bf_end b \<and>
    (p + int k \<le> bf_end b \<longrightarrow> q = p) \<and>
    (\<forall>lim \<le> bf_end b. lim < p + int k \<longrightarrow> lim < q + int k)"
proof -
  define off where "off = bf_pos b - bf_base b"
  have pos: "bf_pos b = bf_base b + off" and o: "0 \<le> off" "s32 off = off"
    using inv cap by (auto simp: bf_inv_def off_def)
  have r: "off mod int k < int k" "0 \<le> off mod int k" using k by simp_all
  have p: "p = bf_base b + field_off k off" by (simp add: p_def off_def)
  have inv': "bf_base b + off \<le> bf_end b" using inv by (simp add: bf_inv_def off_def)
  show ?thesis
  proof (cases "off mod int k = 0")
    case True
    then have "bf_align (int k) b = Some (b\<lparr>bf_pos := bf_pos b\<rparr>)"
      using k o pos by (simp add: bf_align_def Let_def)
    moreover have "p = bf_pos b" using True k by (simp add: p pos field_off_round)
    ultimately show ?thesis using inv' o pos by (intro exI [of _ "bf_pos b"]) simp
  next
    case False
    have p': "p = bf_pos b + (int k - off mod int k)" using False k by (simp add: p pos field_off_round)
    have al: "bf_align (int k) b = Some (if p < bf_end b then b\<lparr>bf_pos := p\<rparr> else b)"
      using False k o pos p' by (simp add: bf_align_def Let_def)
    show ?thesis
    proof (cases "p < bf_end b")
      case True
      then show ?thesis using al p' r o pos by (intro exI [of _ p]) auto
    next
      case f: False
      then have "bf_align (int k) b = Some (b\<lparr>bf_pos := bf_pos b\<rparr>)" using al by simp
      moreover have "bf_end b < bf_pos b + int k" using f p' r False by linarith
      ultimately show ?thesis using f p' k o pos inv' r by (intro exI [of _ "bf_pos b"]) auto
    qed
  qed
qed

lemma enc_put_fits:
  assumes inv: "bf_inv b m" and k: "0 < k" and lim: "bf_lim b = bf_end b"
    and cap: "bf_end b - bf_base b < 2147483648"
  defines "p \<equiv> bf_base b + field_off k (bf_pos b - bf_base b)"
  assumes fits: "p + int k \<le> bf_lim b"
  shows "enc_put le k v \<lparr>cd_buf = b, cd_good = True\<rparr> m =
      Some (int k, \<lparr>cd_buf = b\<lparr>bf_pos := p + int k\<rparr>, cd_good = True\<rparr>, put_at p (host_bytes le k v) m) \<and>
    bf_inv (b\<lparr>bf_pos := p + int k\<rparr>) (put_at p (host_bytes le k v) m)"
proof -
  have al: "bf_align (int k) b = Some (b\<lparr>bf_pos := p\<rparr>)" and pb: "bf_base b \<le> p"
    using align_field [OF inv k cap] fits lim by (auto simp: p_def)
  have "bf_inv (b\<lparr>bf_pos := p\<rparr>) m" using inv pb fits k by (simp add: bf_inv_def)
  then have "bf_put_local (host_bytes le k v) (b\<lparr>bf_pos := p\<rparr>) m =
      Some (int k, b\<lparr>bf_pos := p + int k\<rparr>, put_at p (host_bytes le k v) m)"
    using bf_put_local_ok [of "b\<lparr>bf_pos := p\<rparr>" m "host_bytes le k v"] fits by simp
  then show ?thesis using al inv pb fits k by (simp add: enc_put_def bf_inv_def)
qed

lemma enc_put_overflow:
  assumes inv: "bf_inv b m" and k: "0 < k" and lim: "bf_lim b = bf_end b"
    and cap: "bf_end b - bf_base b < 2147483648"
    and over: "bf_lim b < bf_base b + field_off k (bf_pos b - bf_base b) + int k"
  shows "\<exists>q. enc_put le k v \<lparr>cd_buf = b, cd_good = True\<rparr> m =
    Some (0, \<lparr>cd_buf = b\<lparr>bf_pos := q\<rparr>, cd_good = False\<rparr>, m)"
proof -
  obtain q where q: "bf_align (int k) b = Some (b\<lparr>bf_pos := q\<rparr>)" "bf_lim b < q + int k"
    using align_field [OF inv k cap] over lim by auto
  then show ?thesis using k by (intro exI [of _ q]) (simp add: enc_put_def bf_put_local_def)
qed

lemma enc_put_bad: "\<not> cd_good c \<Longrightarrow> enc_put le k v c m = Some (0, c, m)"
  by (simp add: enc_put_def)

lemma dec_get_fits:
  assumes inv: "bf_inv b m" and k: "0 < k" and cap: "bf_end b - bf_base b < 2147483648"
  defines "p \<equiv> bf_base b + field_off k (bf_pos b - bf_base b)"
  assumes fits: "p + int k \<le> bf_lim b"
  shows "dec_get le k \<lparr>cd_buf = b, cd_good = True\<rparr> m =
      Some (int k, Some (host_val le (cells m p (int k))),
            \<lparr>cd_buf = b\<lparr>bf_pos := p + int k\<rparr>, cd_good = True\<rparr>) \<and>
    bf_inv (b\<lparr>bf_pos := p + int k\<rparr>) m"
proof -
  have le: "bf_lim b \<le> bf_end b" using inv by (simp add: bf_inv_def)
  then have al: "bf_align (int k) b = Some (b\<lparr>bf_pos := p\<rparr>)" and pb: "bf_base b \<le> p"
    using align_field [OF inv k cap] fits by (auto simp: p_def)
  have "bf_inv (b\<lparr>bf_pos := p\<rparr>) m" using inv pb fits k by (simp add: bf_inv_def)
  then show ?thesis using bf_get_local_ok [of "b\<lparr>bf_pos := p\<rparr>" m k] al inv pb fits k
    by (simp add: dec_get_def bf_inv_def)
qed

lemma dec_get_short:
  assumes inv: "bf_inv b m" and k: "0 < k" and cap: "bf_end b - bf_base b < 2147483648"
    and over: "bf_lim b < bf_base b + field_off k (bf_pos b - bf_base b) + int k"
  shows "\<exists>q. dec_get le k \<lparr>cd_buf = b, cd_good = True\<rparr> m =
    Some (0, None, \<lparr>cd_buf = b\<lparr>bf_pos := q\<rparr>, cd_good = False\<rparr>)"
proof -
  have "bf_lim b \<le> bf_end b" using inv by (simp add: bf_inv_def)
  then obtain q where q: "bf_align (int k) b = Some (b\<lparr>bf_pos := q\<rparr>)" "bf_lim b < q + int k"
    using align_field [OF inv k cap] over by auto
  then show ?thesis using k by (intro exI [of _ q]) (simp add: dec_get_def bf_get_local_def)
qed

section \<open>Sequences of fields\<close>

text \<open>A message: fields of given sizes put one after the other, and read back in turn.\<close>

fun enc_seq :: "bool \<Rightarrow> (nat \<times> int) list \<Rightarrow> codec \<Rightarrow> byte mem \<Rightarrow> (codec \<times> byte mem) option" where
  "enc_seq le [] c m = Some (c, m)"
| "enc_seq le ((k, v) # fs) c m = do { (r, c', m') \<leftarrow> enc_put le k v c m; enc_seq le fs c' m' }"

fun dec_seq :: "bool \<Rightarrow> nat list \<Rightarrow> codec \<Rightarrow> byte mem \<Rightarrow> (int option list \<times> codec) option" where
  "dec_seq le [] c m = Some ([], c)"
| "dec_seq le (k # ks) c m =
     do { (r, v, c') \<leftarrow> dec_get le k c m; (vs, c'') \<leftarrow> dec_seq le ks c' m; Some (v # vs, c'') }"

fun seq_end :: "nat list \<Rightarrow> int \<Rightarrow> int" where
  "seq_end [] off = off"
| "seq_end (k # ks) off = seq_end ks (field_off k off + int k)"

lemma seq_end_ge: "\<forall>k\<in>set ks. 0 < k \<Longrightarrow> off \<le> seq_end ks off"
proof (induction ks arbitrary: off)
  case (Cons k ks)
  then have "field_off k off + int k \<le> seq_end ks (field_off k off + int k)" by simp
  then show ?case using field_off_bounds [of k off] Cons.prems by auto
qed simp

lemma enc_seq_bad: "\<not> cd_good c \<Longrightarrow> enc_seq le fs c m = Some (c, m)"
  by (induction fs) (auto simp: enc_put_bad)

lemma enc_seq_fits:
  assumes "bf_inv b m" and "\<forall>k\<in>set (map fst fs). 0 < k" and "bf_lim b = bf_end b"
    and "bf_end b - bf_base b < 2147483648"
    and "bf_base b + seq_end (map fst fs) (bf_pos b - bf_base b) \<le> bf_end b"
  shows "\<exists>m'. enc_seq le fs \<lparr>cd_buf = b, cd_good = True\<rparr> m =
      Some (\<lparr>cd_buf = b\<lparr>bf_pos := bf_base b + seq_end (map fst fs) (bf_pos b - bf_base b)\<rparr>,
             cd_good = True\<rparr>, m') \<and>
    bf_inv (b\<lparr>bf_pos := bf_base b + seq_end (map fst fs) (bf_pos b - bf_base b)\<rparr>) m' \<and>
    (\<forall>a. a < bf_pos b \<or> bf_end b \<le> a \<longrightarrow> m_val m' a = m_val m a) \<and> m_live m' = m_live m"
  using assms
proof (induction fs arbitrary: b m)
  case Nil
  then show ?case by simp
next
  case (Cons f fs)
  obtain k v where f: "f = (k, v)" by fastforce
  have k: "0 < k" "\<forall>k\<in>set (map fst fs). 0 < k" using Cons.prems(2) f by auto
  let ?o = "bf_pos b - bf_base b"
  let ?p = "bf_base b + field_off k ?o"
  let ?b = "b\<lparr>bf_pos := ?p + int k\<rparr>" and ?m = "put_at ?p (host_bytes le k v) m"
  have se: "field_off k ?o + int k \<le> seq_end (map fst fs) (field_off k ?o + int k)"
    by (rule seq_end_ge [OF k(2)])
  have fits: "?p + int k \<le> bf_lim b" using se Cons.prems(3,5) f by simp
  have e: "enc_put le k v \<lparr>cd_buf = b, cd_good = True\<rparr> m = Some (int k, \<lparr>cd_buf = ?b, cd_good = True\<rparr>, ?m)"
    and inv: "bf_inv ?b ?m"
    using enc_put_fits [OF Cons.prems(1) k(1) Cons.prems(3,4) fits] by blast+
  obtain m' where m': "enc_seq le fs \<lparr>cd_buf = ?b, cd_good = True\<rparr> ?m =
      Some (\<lparr>cd_buf = ?b\<lparr>bf_pos := bf_base ?b + seq_end (map fst fs) (bf_pos ?b - bf_base ?b)\<rparr>,
             cd_good = True\<rparr>, m')"
    "bf_inv (?b\<lparr>bf_pos := bf_base ?b + seq_end (map fst fs) (bf_pos ?b - bf_base ?b)\<rparr>) m'"
    "\<forall>a. a < bf_pos ?b \<or> bf_end ?b \<le> a \<longrightarrow> m_val m' a = m_val ?m a" "m_live m' = m_live ?m"
    using Cons.IH [OF inv k(2)] Cons.prems f by auto
  have "bf_pos b \<le> ?p" using field_off_bounds [OF k(1), of ?o] by simp
  then have "\<forall>a. a < bf_pos b \<or> bf_end b \<le> a \<longrightarrow> m_val m' a = m_val m a"
    using m'(3) fits Cons.prems(3) by (auto simp: put_at_outside)
  then show ?case using e m' f by simp
qed

text \<open>The bytes an encoded message occupies are final: a decoder that sees them reads the fields.\<close>

lemma dec_seq_enc_seq:
  assumes "bf_inv b m" and "\<forall>k\<in>set (map fst fs). 0 < k" and "bf_lim b = bf_end b"
    and "bf_end b - bf_base b < 2147483648"
    and "bf_base b + seq_end (map fst fs) (bf_pos b - bf_base b) \<le> bf_end b"
    and "enc_seq le fs \<lparr>cd_buf = b, cd_good = True\<rparr> m = Some (c', m')"
    and "bf_inv d md" and "bf_end d - bf_base d < 2147483648"
    and "bf_pos d - bf_base d = bf_pos b - bf_base b"
    and "bf_base d + seq_end (map fst fs) (bf_pos b - bf_base b) \<le> bf_lim d"
    and "\<And>i. bf_pos b - bf_base b \<le> i \<Longrightarrow> i < seq_end (map fst fs) (bf_pos b - bf_base b) \<Longrightarrow>
      m_val md (bf_base d + i) = m_val m' (bf_base b + i)"
  shows "dec_seq le (map fst fs) \<lparr>cd_buf = d, cd_good = True\<rparr> md =
    Some (map (\<lambda>(k, v). Some (v mod 256 ^ k)) fs,
      \<lparr>cd_buf = d\<lparr>bf_pos := bf_base d + seq_end (map fst fs) (bf_pos b - bf_base b)\<rparr>, cd_good = True\<rparr>)"
  using assms
proof (induction fs arbitrary: b m d)
  case Nil
  then have "bf_base d + (bf_pos b - bf_base b) = bf_pos d" by simp
  then show ?case by simp
next
  case (Cons f fs)
  obtain k v where f: "f = (k, v)" by fastforce
  have k: "0 < k" "\<forall>k\<in>set (map fst fs). 0 < k" using Cons.prems(2) f by auto
  let ?o = "bf_pos b - bf_base b"
  let ?q = "field_off k ?o"
  let ?b = "b\<lparr>bf_pos := bf_base b + ?q + int k\<rparr>" and ?m = "put_at (bf_base b + ?q) (host_bytes le k v) m"
  let ?d = "d\<lparr>bf_pos := bf_base d + ?q + int k\<rparr>"
  have se: "?q + int k \<le> seq_end (map fst fs) (?q + int k)" by (rule seq_end_ge [OF k(2)])
  have qo: "?o \<le> ?q" using field_off_bounds [OF k(1), of ?o] by simp
  have fb: "bf_base b + ?q + int k \<le> bf_lim b" using se Cons.prems(3,5) f by simp
  have fd: "bf_base d + field_off k (bf_pos d - bf_base d) + int k \<le> bf_lim d"
    using se Cons.prems(9,10) f by simp
  have e: "enc_put le k v \<lparr>cd_buf = b, cd_good = True\<rparr> m = Some (int k, \<lparr>cd_buf = ?b, cd_good = True\<rparr>, ?m)"
    and inv: "bf_inv ?b ?m"
    using enc_put_fits [OF Cons.prems(1) k(1) Cons.prems(3,4) fb] by blast+
  have g: "dec_get le k \<lparr>cd_buf = d, cd_good = True\<rparr> md =
      Some (int k, Some (host_val le (cells md (bf_base d + ?q) (int k))), \<lparr>cd_buf = ?d, cd_good = True\<rparr>)"
    and invd: "bf_inv ?d md"
    using dec_get_fits [OF Cons.prems(7) k(1) Cons.prems(8) fd] Cons.prems(9) by simp_all
  have rest: "enc_seq le fs \<lparr>cd_buf = ?b, cd_good = True\<rparr> ?m = Some (c', m')"
    using Cons.prems(6) e f by simp
  obtain m2 where "enc_seq le fs \<lparr>cd_buf = ?b, cd_good = True\<rparr> ?m =
      Some (\<lparr>cd_buf = ?b\<lparr>bf_pos := bf_base ?b + seq_end (map fst fs) (bf_pos ?b - bf_base ?b)\<rparr>,
             cd_good = True\<rparr>, m2)"
      "\<forall>a. a < bf_pos ?b \<or> bf_end ?b \<le> a \<longrightarrow> m_val m2 a = m_val ?m a"
    using enc_seq_fits [OF inv k(2), of le] Cons.prems(3,4,5) f by auto
  then have keep: "a < bf_base b + ?q + int k \<Longrightarrow> m_val m' a = m_val ?m a" for a
    using rest by simp
  have "cells md (bf_base d + ?q) (int k) = host_bytes le k v"
  proof (rule nth_equalityI)
    fix i
    assume "i < length (cells md (bf_base d + ?q) (int k))"
    then have i: "i < k" by simp
    have "m_val md (bf_base d + (?q + int i)) = m_val m' (bf_base b + (?q + int i))"
      using Cons.prems(11) [of "?q + int i"] i se qo f by simp
    also have "\<dots> = m_val ?m (bf_base b + ?q + int i)" using keep i by (simp add: add.assoc)
    finally show "cells md (bf_base d + ?q) (int k) ! i = host_bytes le k v ! i"
      using i by (simp add: nth_cells put_at_def add.assoc)
  qed simp
  then have val: "host_val le (cells md (bf_base d + ?q) (int k)) = v mod 256 ^ k"
    by (simp add: native.of_to_b)
  have agree: "m_val md (bf_base ?d + i) = m_val m' (bf_base ?b + i)"
    if "bf_pos ?b - bf_base ?b \<le> i" "i < seq_end (map fst fs) (bf_pos ?b - bf_base ?b)" for i
    using that Cons.prems(11) [of i] qo f by simp
  have "dec_seq le (map fst fs) \<lparr>cd_buf = ?d, cd_good = True\<rparr> md =
    Some (map (\<lambda>(k, v). Some (v mod 256 ^ k)) fs,
      \<lparr>cd_buf = ?d\<lparr>bf_pos := bf_base ?d + seq_end (map fst fs) (bf_pos ?b - bf_base ?b)\<rparr>, cd_good = True\<rparr>)"
    by (rule Cons.IH [OF inv k(2) _ _ _ rest invd]) (use Cons.prems f agree in auto)
  then show ?case using g val f by simp
qed

text \<open>The encoder is still good exactly when every field fitted.\<close>

lemma enc_seq_good_iff:
  assumes "bf_inv b m" and "\<forall>k\<in>set (map fst fs). 0 < k" and "bf_lim b = bf_end b"
    and "bf_end b - bf_base b < 2147483648"
  shows "\<exists>c' m'. enc_seq le fs \<lparr>cd_buf = b, cd_good = True\<rparr> m = Some (c', m') \<and>
    (cd_good c' \<longleftrightarrow> bf_base b + seq_end (map fst fs) (bf_pos b - bf_base b) \<le> bf_end b)"
  using assms
proof (induction fs arbitrary: b m)
  case Nil
  then show ?case by (simp add: bf_inv_def)
next
  case (Cons f fs)
  obtain k v where f: "f = (k, v)" by fastforce
  have k: "0 < k" "\<forall>k\<in>set (map fst fs). 0 < k" using Cons.prems(2) f by auto
  let ?q = "field_off k (bf_pos b - bf_base b)"
  have se: "?q + int k \<le> seq_end (map fst fs) (?q + int k)" by (rule seq_end_ge [OF k(2)])
  show ?case
  proof (cases "bf_base b + ?q + int k \<le> bf_lim b")
    case True
    let ?b = "b\<lparr>bf_pos := bf_base b + ?q + int k\<rparr>" and ?m = "put_at (bf_base b + ?q) (host_bytes le k v) m"
    have e: "enc_put le k v \<lparr>cd_buf = b, cd_good = True\<rparr> m = Some (int k, \<lparr>cd_buf = ?b, cd_good = True\<rparr>, ?m)"
      and inv: "bf_inv ?b ?m"
      using enc_put_fits [OF Cons.prems(1) k(1) Cons.prems(3,4) True] by blast+
    then show ?thesis using Cons.IH [OF inv k(2)] Cons.prems f by simp
  next
    case False
    then obtain q where "enc_put le k v \<lparr>cd_buf = b, cd_good = True\<rparr> m =
        Some (0, \<lparr>cd_buf = b\<lparr>bf_pos := q\<rparr>, cd_good = False\<rparr>, m)"
      using enc_put_overflow [OF Cons.prems(1) k(1) Cons.prems(3,4), of le v] by auto
    then show ?thesis using f False se Cons.prems(3) by (simp add: enc_seq_bad)
  qed
qed


section \<open>Swapped fields\<close>

lemma put_each_local:
  "bf_inv b m \<Longrightarrow> bf_pos b + int (length xs) \<le> bf_lim b \<Longrightarrow>
   put_each xs b m = Some (b\<lparr>bf_pos := bf_pos b + int (length xs)\<rparr>, put_at (bf_pos b) xs m)"
proof (induction xs arbitrary: b m)
  case Nil
  then show ?case by simp
next
  case (Cons x xs)
  obtain m' where p: "bf_put1 x b m = Some (True, b\<lparr>bf_pos := bf_pos b + 1\<rparr>, m')"
      "bf_inv (b\<lparr>bf_pos := bf_pos b + 1\<rparr>) m'" "m' = m\<lparr>m_val := (m_val m)(bf_pos b := x)\<rparr>"
    using bf_put1_ok [OF Cons.prems(1), of x] Cons.prems(2) by auto
  have "put_each xs (b\<lparr>bf_pos := bf_pos b + 1\<rparr>) m' =
      Some (b\<lparr>bf_pos := bf_pos b + 1 + int (length xs)\<rparr>, put_at (bf_pos b + 1) xs m')"
    using Cons.IH [OF p(2)] Cons.prems(2) by simp
  then show ?case using p by (simp add: put_at_Cons add.assoc)
qed

lemma rev_nths: "rev xs = map (\<lambda>i. xs ! i) (rev [0..<length xs])"
  by (simp add: rev_map [symmetric] map_nth)

lemma swapped_order:
  "[host_bytes le 2 v ! 1, host_bytes le 2 v ! 0] = host_bytes (\<not> le) 2 v"
  "[host_bytes le 4 v ! 3, host_bytes le 4 v ! 2, host_bytes le 4 v ! 1, host_bytes le 4 v ! 0]
    = host_bytes (\<not> le) 4 v"
  "map (\<lambda>i. host_bytes le 8 v ! i) (rev [0..<8]) = host_bytes (\<not> le) 8 v"
  using rev_nths [of "host_bytes le 2 v"] rev_nths [of "host_bytes le 4 v"] rev_nths [of "host_bytes le 8 v"]
  by (simp_all add: rev_host_bytes upt_rec numeral_2_eq_2 [symmetric])

lemmas put_swap_alt =
  put_swap2_def [unfolded Let_def swapped_order]
  put_swap4_def [unfolded Let_def swapped_order]
  put_swap8_def [unfolded Let_def swapped_order]

text \<open>What the three swapping inserters do with \<open>k\<close> free bytes, and with fewer.\<close>

lemma put_swap_fits:
  assumes inv: "bf_inv (cd_buf c) m" and fits: "int k \<le> bf_available (cd_buf c)"
    and op: "(k, op) \<in> {(2, put_swap2), (4, put_swap4), (8, put_swap8)}"
  shows "op le v c m = Some (int k,
    c\<lparr>cd_buf := (cd_buf c)\<lparr>bf_pos := bf_pos (cd_buf c) + int k\<rparr>\<rparr>,
    put_at (bf_pos (cd_buf c)) (host_bytes (\<not> le) k v) m)"
proof -
  have "bf_pos (cd_buf c) + int k \<le> bf_lim (cd_buf c)" using fits bf_sizes(4) [OF inv] by simp
  then have "put_each (host_bytes (\<not> le) k v) (cd_buf c) m =
      Some ((cd_buf c)\<lparr>bf_pos := bf_pos (cd_buf c) + int k\<rparr>,
            put_at (bf_pos (cd_buf c)) (host_bytes (\<not> le) k v) m)"
    using put_each_local [OF inv, of "host_bytes (\<not> le) k v"] by simp
  then show ?thesis using op fits by (auto simp: put_swap_alt simp del: put_each.simps)
qed

lemma put_swap_short:
  "bf_available (cd_buf c) < int k \<Longrightarrow> (k, op) \<in> {(2, put_swap2), (4, put_swap4), (8, put_swap8)} \<Longrightarrow>
   op le v c m = Some (0, c, m)"
  by (auto simp: put_swap2_def put_swap4_def put_swap8_def)

lemma get_each_cells:
  "bf_inv b m \<Longrightarrow> bf_pos b + int n \<le> bf_lim b \<Longrightarrow>
   get_each n b m = Some (map Some (cells m (bf_pos b) (int n)), b\<lparr>bf_pos := bf_pos b + int n\<rparr>)"
proof (induction n arbitrary: b)
  case 0
  then show ?case by simp
next
  case (Suc n)
  have "bf_inv (b\<lparr>bf_pos := bf_pos b + 1\<rparr>) m" using Suc.prems by (simp add: bf_inv_def)
  moreover have "m_live m (bf_pos b)" using bf_live_cell [OF Suc.prems(1)] Suc.prems by (simp add: bf_inv_def)
  ultimately show ?case using Suc.IH [of "b\<lparr>bf_pos := bf_pos b + 1\<rparr>"] Suc.prems
    by (simp add: bf_getp_def rd_live cells_Suc [of "1 + int n"] add.assoc)
qed

lemma get_swap_fits:
  assumes inv: "bf_inv (cd_buf c) m" and fits: "int k \<le> bf_available (cd_buf c)"
  shows "get_swap le k c m = Some (int k, Some (host_val (\<not> le) (cells m (bf_pos (cd_buf c)) (int k))),
    c\<lparr>cd_buf := (cd_buf c)\<lparr>bf_pos := bf_pos (cd_buf c) + int k\<rparr>\<rparr>)"
proof -
  have "bf_pos (cd_buf c) + int k \<le> bf_lim (cd_buf c)" using fits bf_sizes(4) [OF inv] by simp
  then have g: "get_each k (cd_buf c) m = Some (map Some (cells m (bf_pos (cd_buf c)) (int k)),
      (cd_buf c)\<lparr>bf_pos := bf_pos (cd_buf c) + int k\<rparr>)"
    by (rule get_each_cells [OF inv])
  have "map the (map Some xs) = xs" for xs :: "byte list" by (simp add: comp_def)
  moreover have "host_val le (rev xs) = host_val (\<not> le) xs" for xs by (simp add: host_val_def)
  ultimately show ?thesis using g fits by (auto simp: get_swap_def simp del: map_map)
qed

text \<open>
  A value swapped out by one host is what a host of the opposite byte order writes itself:
  it reads back unswapped there, and swapped on the first host.
\<close>

lemma put_swap_interop:
  assumes inv: "bf_inv (cd_buf c) m" and fits: "int k \<le> bf_available (cd_buf c)"
    and op: "(k, op) \<in> {(2, put_swap2), (4, put_swap4), (8, put_swap8)}"
  shows "\<exists>c' m'. op le v c m = Some (int k, c', m') \<and>
    get_swap le k c m' = Some (int k, Some (v mod 256 ^ k), c') \<and>
    cells m' (bf_pos (cd_buf c)) (int k) = host_bytes (\<not> le) k v \<and>
    (cd_good c \<longrightarrow> int k dvd (bf_pos (cd_buf c) - bf_base (cd_buf c)) \<longrightarrow>
     bf_end (cd_buf c) - bf_base (cd_buf c) < 2147483648 \<longrightarrow>
     dec_get (\<not> le) k c m' = Some (int k, Some (v mod 256 ^ k), c'))"
proof -
  let ?b = "cd_buf c"
  let ?m = "put_at (bf_pos ?b) (host_bytes (\<not> le) k v) m"
  let ?c = "c\<lparr>cd_buf := ?b\<lparr>bf_pos := bf_pos ?b + int k\<rparr>\<rparr>"
  have put: "op le v c m = Some (int k, ?c, ?m)" by (rule put_swap_fits [OF inv fits op])
  have inv': "bf_inv ?b ?m" using inv by (simp add: bf_inv_def)
  have at: "cells ?m (bf_pos ?b) (int k) = host_bytes (\<not> le) k v"
    using cells_put_at [of "bf_pos ?b" "host_bytes (\<not> le) k v" m] by simp
  have get: "get_swap le k c ?m = Some (int k, Some (v mod 256 ^ k), ?c)"
    using get_swap_fits [OF inv' fits, of le] at by (simp add: native.of_to_b)
  have k: "0 < k" using op by auto
  have "dec_get (\<not> le) k c ?m = Some (int k, Some (v mod 256 ^ k), ?c)"
    if good: "cd_good c" and dvd: "int k dvd (bf_pos ?b - bf_base ?b)"
      and cap: "bf_end ?b - bf_base ?b < 2147483648"
  proof -
    have c: "c = \<lparr>cd_buf = ?b, cd_good = True\<rparr>" using good by simp
    have o: "field_off k (bf_pos ?b - bf_base ?b) = bf_pos ?b - bf_base ?b"
      using dvd k by (simp add: field_off_round)
    have "bf_base ?b + field_off k (bf_pos ?b - bf_base ?b) + int k \<le> bf_lim ?b"
      using fits bf_sizes(4) [OF inv] o by simp
    from dec_get_fits [OF inv' k cap this, of "\<not> le"] show ?thesis
      using at good unfolding o by (subst c) (simp add: native.of_to_b)
  qed
  then show ?thesis using put get at by blast
qed

section \<open>Counted arrays\<close>

lemma enc_put_arr_fits:
  assumes inv: "bf_inv b m" and lim: "bf_lim b = bf_end b" and cap: "bf_end b - bf_base b < 2147483648"
    and n: "0 \<le> n" "n < 65536" and arr: "live_range m arr n" "bf_apart b arr n"
  defines "p \<equiv> bf_base b + field_off 2 (bf_pos b - bf_base b)"
  assumes fits: "p + 2 + n \<le> bf_lim b"
  shows "\<exists>m'. enc_put_arr le arr n \<lparr>cd_buf = b, cd_good = True\<rparr> m =
      Some (0, \<lparr>cd_buf = b\<lparr>bf_pos := p + 2 + n\<rparr>, cd_good = True\<rparr>, m') \<and>
    bf_inv (b\<lparr>bf_pos := p + 2 + n\<rparr>) m' \<and>
    cells m' p 2 = host_bytes le 2 n \<and> cells m' (p + 2) n = cells m arr n \<and> m_live m' = m_live m"
proof -
  let ?b1 = "b\<lparr>bf_pos := p + 2\<rparr>" and ?m1 = "put_at p (host_bytes le 2 n) m"
  have fit2: "bf_base b + field_off 2 (bf_pos b - bf_base b) + int 2 \<le> bf_lim b"
    using fits n by (simp add: p_def)
  have e: "enc_put le 2 n \<lparr>cd_buf = b, cd_good = True\<rparr> m = Some (2, \<lparr>cd_buf = ?b1, cd_good = True\<rparr>, ?m1)"
    and inv1: "bf_inv ?b1 ?m1"
    using enc_put_fits [OF inv _ lim cap fit2, of le n] by (simp_all add: p_def)
  have al: "bf_align 1 ?b1 = Some ?b1" using inv1 cap by (simp add: bf_align_def bf_inv_def Let_def)
  have pb: "bf_base b \<le> p" using inv1 field_off_bounds [of 2 "bf_pos b - bf_base b"] inv
    by (simp add: p_def bf_inv_def)
  have src: "cells ?m1 arr n = cells m arr n"
    using arr(2) pb fits lim n by (intro cells_cong put_at_outside) (auto simp: bf_apart_def)
  let ?m2 = "blit (p + 2) arr n ?m1"
  have av: "bf_available ?b1 = bf_lim b - (p + 2)" using bf_sizes(4) [OF inv1] by simp
  have put: "bf_putn arr n ?b1 ?m1 = Some (n, b\<lparr>bf_pos := p + 2 + n\<rparr>, ?m2)"
    and inv2: "bf_inv (b\<lparr>bf_pos := p + 2 + n\<rparr>) ?m2"
    using bf_putn_fits [OF inv1 n(1), of arr] av fits arr by (simp_all add: bf_apart_def)
  have c1: "cells ?m2 p 2 = host_bytes le 2 n"
    using cells_put_at [of p "host_bytes le 2 n" m] n by (simp add: cells_blit_other)
  have c2: "cells ?m2 (p + 2) n = cells m arr n" using src by (simp add: cells_blit_same)
  show ?thesis using e al put inv2 c1 c2 n by (simp add: enc_put_arr_def)
qed

text \<open>
  The count is read, then at most \<open>n\<close> bytes of the array. The fields come back as
  \<open>enc_put_arr\<close> wrote them when the caller asks for as many.
\<close>

lemma dec_get_arr_fits:
  assumes inv: "bf_inv d m" and cap: "bf_end d - bf_base d < 2147483648"
    and n: "0 \<le> n" "n < 65536" and arr: "live_range m arr n" "bf_apart d arr n"
  defines "p \<equiv> bf_base d + field_off 2 (bf_pos d - bf_base d)"
  assumes fits: "p + 2 + n \<le> bf_lim d" and cnt: "cells m p 2 = host_bytes le 2 n"
  shows "\<exists>m'. dec_get_arr le 1 arr n \<lparr>cd_buf = d, cd_good = True\<rparr> m =
      Some (n, \<lparr>cd_buf = d\<lparr>bf_pos := p + 2 + n\<rparr>, cd_good = True\<rparr>, m') \<and>
    cells m' arr n = cells m (p + 2) n"
proof -
  let ?d1 = "d\<lparr>bf_pos := p + 2\<rparr>"
  have fit2: "bf_base d + field_off 2 (bf_pos d - bf_base d) + int 2 \<le> bf_lim d"
    using fits n by (simp add: p_def)
  have g: "dec_get le 2 \<lparr>cd_buf = d, cd_good = True\<rparr> m
      = Some (2, Some (host_val le (cells m p 2)), \<lparr>cd_buf = ?d1, cd_good = True\<rparr>)"
    and inv1: "bf_inv ?d1 m"
    using dec_get_fits [OF inv _ cap fit2, of le] by (simp_all add: p_def)
  have v: "host_val le (cells m p 2) = n" using n by (simp add: cnt native.of_to_b)
  have al: "bf_align 1 ?d1 = Some ?d1" using inv1 cap by (simp add: bf_align_def bf_inv_def Let_def)
  have "bf_available ?d1 = bf_lim d - (p + 2)" using bf_sizes(4) [OF inv1] by simp
  then have "bf_getn arr n ?d1 m = Some (n, d\<lparr>bf_pos := p + 2 + n\<rparr>, blit arr (p + 2) n m)"
    using bf_getn_fits [OF inv1 n(1), of arr] fits arr by (simp add: bf_apart_def)
  then show ?thesis using g v al n by (simp add: dec_get_arr_def cells_blit_same)
qed

section \<open>Messages\<close>

lemma seq_roundtrip:
  assumes "bf_inv b m" and "\<forall>k\<in>set (map fst fs). 0 < k" and "bf_end b - bf_base b < 2147483648"
    and "seq_end (map fst fs) 0 \<le> bf_capacity b"
  shows "\<exists>c m' d. enc_seq le fs (cd_ctor (bf_clear b)) m = Some (c, m') \<and> cd_good c \<and>
    dec_seq le (map fst fs) (cd_ctor (bf_flip (cd_buf c))) m' = Some (map (\<lambda>(k, v). Some (v mod 256 ^ k)) fs, d) \<and>
    cd_good d \<and> cd_empty d"
proof -
  let ?b = "bf_clear b" and ?e = "seq_end (map fst fs) 0"
  have inv: "bf_inv ?b m" by (rule bf_inv_moves(3) [OF assms(1)])
  have b: "bf_base ?b = bf_base b" "bf_end ?b = bf_end b" "bf_lim ?b = bf_end b" "bf_pos ?b = bf_base b"
    by (simp_all add: bf_clear_def)
  have ends: "bf_base b + ?e \<le> bf_end b" using assms(4) bf_sizes(1) [OF assms(1)] by simp
  let ?c = "\<lparr>cd_buf = ?b\<lparr>bf_pos := bf_base b + ?e\<rparr>, cd_good = True\<rparr>"
  obtain m' where e: "enc_seq le fs (cd_ctor ?b) m = Some (?c, m')" and inv': "bf_inv (cd_buf ?c) m'"
    using enc_seq_fits [OF inv assms(2), of le] assms(3) ends b by (auto simp: cd_ctor_def)
  define d where "d = bf_flip (cd_buf ?c)"
  have d: "bf_inv d m'" "bf_base d = bf_base b" "bf_pos d = bf_base b" "bf_lim d = bf_base b + ?e"
      "bf_end d = bf_end b"
    using bf_inv_moves(4) [OF inv'] by (simp_all add: d_def bf_flip_def b)
  have "dec_seq le (map fst fs) \<lparr>cd_buf = d, cd_good = True\<rparr> m' = Some (map (\<lambda>(k, v). Some (v mod 256 ^ k)) fs,
      \<lparr>cd_buf = d\<lparr>bf_pos := bf_base b + ?e\<rparr>, cd_good = True\<rparr>)"
    using dec_seq_enc_seq [OF inv assms(2), of le ?c m' d m'] e d(1) assms(3) ends
    by (simp add: cd_ctor_def b d(2-5))
  then show ?thesis using e d(4) unfolding d_def [symmetric]
    by (auto simp: cd_ctor_def cd_empty_def bf_empty_def d_def)
qed

section \<open>Properties\<close>

text \<open>C4: a sequence of fields written by the native encoder to a cleared buffer, whatever their
  widths and the padding in between, is read back by the native decoder after \<open>flip\<close>: each
  field returns its value at its width, both sides stay good, and nothing is left over.\<close>

theorem message_roundtrip:
  assumes "bf_inv b m" and "\<forall>k\<in>set (map fst fs). 0 < k" and "bf_end b - bf_base b < 2147483648"
    and "seq_end (map fst fs) 0 \<le> bf_capacity b"
  shows "\<exists>c m' d. enc_seq le fs (cd_ctor (bf_clear b)) m = Some (c, m') \<and> cd_good c \<and>
    dec_seq le (map fst fs) (cd_ctor (bf_flip (cd_buf c))) m' = Some (map (\<lambda>(k, v). Some (v mod 256 ^ k)) fs, d) \<and>
    cd_good d \<and> cd_empty d"
  using assms by (rule seq_roundtrip)

theorem message_roundtrip_witness:
  "\<exists>c m' d. enc_seq True [(1, 7), (2, 305), (2, -1)] (cd_ctor (bf_clear (bf_demo 3 5 1)))
      (arena 0 30) = Some (c, m') \<and> cd_good c \<and>
    dec_seq True [1, 2, 2] (cd_ctor (bf_flip (cd_buf c))) m' = Some ([Some 7, Some 305, Some 65535], d) \<and>
    cd_good d \<and> cd_empty d"
  using message_roundtrip [OF bf_demo_inv [of 3 5 30 1 "0::byte"], of "[(1, 7), (2, 305), (2, -1)]" True]
  by (simp add: field_off_def)

text \<open>C37: an encoder stays good on a sequence of fields exactly when all of them fit with their
  padding, so a message is never cut short unnoticed.\<close>

theorem encoder_good_iff_fits:
  assumes "bf_inv b m" and "\<forall>k\<in>set (map fst fs). 0 < k" and "bf_lim b = bf_end b"
    and "bf_end b - bf_base b < 2147483648"
  shows "\<exists>c m'. enc_seq le fs (cd_ctor b) m = Some (c, m') \<and>
    (cd_good c \<longleftrightarrow> bf_base b + seq_end (map fst fs) (bf_position b) \<le> bf_end b)"
  using enc_seq_good_iff [OF assms, of le] bf_sizes(3) [OF assms(1)] by (simp add: cd_ctor_def)

theorem encoder_good_iff_fits_witness:
  "\<exists>c m'. enc_seq True [(1, 7), (4, 5), (4, 6)] (cd_ctor (bf_demo 1 9 1)) (arena 0 30) = Some (c, m') \<and> \<not> cd_good c"
  using encoder_good_iff_fits [OF bf_demo_inv [of 1 9 30 1 "0::byte"], of "[(1, 7), (4, 5), (4, 6)]" True]
  by (auto simp: field_off_def bf_position_def)

text \<open>a value that the swapping encoder writes is, in the buffer, what a host of the opposite
  byte order writes natively; the swapping decoder of this host and the native decoder of the
  other one both read it back.\<close>

theorem swap_codec_interoperates:
  assumes "bf_inv (cd_buf c) m" and "int k \<le> bf_available (cd_buf c)"
    and "(k, put_swap) \<in> {(2, put_swap2), (4, put_swap4), (8, put_swap8)}"
  shows "\<exists>c' m'. put_swap le v c m = Some (int k, c', m') \<and>
    get_swap le k c m' = Some (int k, Some (v mod 256 ^ k), c') \<and>
    cells m' (bf_pos (cd_buf c)) (int k) = host_bytes (\<not> le) k v \<and>
    (cd_good c \<longrightarrow> int k dvd bf_position (cd_buf c) \<longrightarrow> bf_end (cd_buf c) - bf_base (cd_buf c) < 2147483648 \<longrightarrow>
     dec_get (\<not> le) k c m' = Some (int k, Some (v mod 256 ^ k), c'))"
  using put_swap_interop [OF assms, of le v] bf_sizes(3) [OF assms(1)] by simp

theorem swap_codec_interoperates_witness:
  "\<exists>c' m'. put_swap4 True 305419896 (cd_ctor (bf_demo 5 9 1)) (arena 0 30) = Some (4, c', m') \<and>
    dec_get False 4 (cd_ctor (bf_demo 5 9 1)) m' = Some (4, Some 305419896, c')"
  using swap_codec_interoperates [of "cd_ctor (bf_demo 5 9 1)" "arena 0 30" 4 put_swap4 True 305419896]
    bf_demo_inv [of 5 9 30 1 "0::byte"]
  by (fastforce simp: cd_ctor_def bf_available_def bf_position_def)

text \<open>a swapping encoder that runs out of room returns 0 and stays good, so the following
  fields are written as if the lost one had never been there; a native encoder goes bad.\<close>

theorem swap_encoder_overflow_unnoticed:
  assumes "bf_inv b m" and "bf_available b < 4" and "bf_lim b = bf_end b" and "bf_end b - bf_base b < 2147483648"
  shows "put_swap4 le v (cd_ctor b) m = Some (0, cd_ctor b, m) \<and>
    (\<exists>c. enc_put le 4 v (cd_ctor b) m = Some (0, c, m) \<and> \<not> cd_good c)"
proof
  show "put_swap4 le v (cd_ctor b) m = Some (0, cd_ctor b, m)"
    using put_swap_short [of "cd_ctor b" 4 put_swap4] assms(2) by (simp add: cd_ctor_def)
  have "bf_lim b < bf_base b + field_off 4 (bf_pos b - bf_base b) + int 4"
    using assms(2) bf_sizes(4) [OF assms(1)] field_off_bounds [of 4 "bf_pos b - bf_base b"] by simp
  then show "\<exists>c. enc_put le 4 v (cd_ctor b) m = Some (0, c, m) \<and> \<not> cd_good c"
    using enc_put_overflow [OF assms(1) _ assms(3,4), of 4 le v] by (auto simp: cd_ctor_def)
qed

theorem swap_encoder_overflow_unnoticed_witness:
  "put_swap4 True 5 (cd_ctor (bf_demo 7 9 1)) (arena 0 30) = Some (0, cd_ctor (bf_demo 7 9 1), arena 0 30)"
  by (rule swap_encoder_overflow_unnoticed [THEN conjunct1, OF bf_demo_inv]) (simp_all add: bf_available_def)

text \<open>a counted array written by the encoder returns 0 to its caller although every byte of
  it went in, and reads back whole from its field.\<close>

theorem counted_array_roundtrip:
  assumes "bf_inv b m" and "bf_lim b = bf_end b" and "bf_end b - bf_base b < 2147483648"
    and "0 \<le> n" and "n < 65536" and "live_range m src n" and "bf_apart b src n"
    and "live_range m dst n" and "bf_apart b dst n"
    and "bf_base b + field_off 2 (bf_position b) + 2 + n \<le> bf_lim b"
  shows "\<exists>c m1 d m2. enc_put_arr le src n (cd_ctor b) m = Some (0, c, m1) \<and> cd_good c \<and>
    dec_get_arr le 1 dst n (cd_ctor b) m1 = Some (n, d, m2) \<and> cd_good d \<and>
    cells m2 dst n = cells m src n \<and> bf_position (cd_buf d) = bf_position (cd_buf c)"
proof -
  define p where "p = bf_base b + field_off 2 (bf_pos b - bf_base b)"
  have fits: "p + 2 + n \<le> bf_lim b" using assms(10) bf_sizes(3) [OF assms(1)] by (simp add: p_def)
  obtain m1 where e: "enc_put_arr le src n (cd_ctor b) m =
      Some (0, \<lparr>cd_buf = b\<lparr>bf_pos := p + 2 + n\<rparr>, cd_good = True\<rparr>, m1)"
      "bf_inv (b\<lparr>bf_pos := p + 2 + n\<rparr>) m1"
      "cells m1 p 2 = host_bytes le 2 n" "cells m1 (p + 2) n = cells m src n" "m_live m1 = m_live m"
    using enc_put_arr_fits [OF assms(1-7), of le] fits
    unfolding p_def cd_ctor_def by blast
  have "bf_inv b m1" using e(5) assms(1) by (simp add: bf_inv_def live_range_def)
  moreover have "live_range m1 dst n" using assms(8) e(5) by (simp add: live_range_def)
  ultimately obtain m2 where "dec_get_arr le 1 dst n (cd_ctor b) m1 =
      Some (n, \<lparr>cd_buf = b\<lparr>bf_pos := p + 2 + n\<rparr>, cd_good = True\<rparr>, m2)"
      "cells m2 dst n = cells m1 (p + 2) n"
    using dec_get_arr_fits [OF _ assms(3-5) _ assms(9), of m1 le] fits e(3)
    unfolding p_def cd_ctor_def by blast
  then show ?thesis using e by auto
qed

theorem counted_array_roundtrip_witness:
  "\<exists>c m1 d m2. enc_put_arr True 9 4 (cd_ctor (bf_demo 2 9 1)) (arena 0 30) = Some (0, c, m1) \<and> cd_good c \<and>
    dec_get_arr True 1 20 4 (cd_ctor (bf_demo 2 9 1)) m1 = Some (4, d, m2) \<and> cd_good d \<and>
    cells m2 20 4 = cells (arena 0 30) 9 4 \<and> bf_position (cd_buf d) = bf_position (cd_buf c)"
  by (rule counted_array_roundtrip [OF bf_demo_inv]) (simp_all add: field_off_def bf_position_def)

end
