(* ===== verification/Device.thy ===== *)
theory Device imports Encoders begin

text \<open>
  \<open>CtrlrFx/Device.h\<close> and \<open>src/io/Device/Device.cpp\<close>: reading and writing through a file
  descriptor. The operating system's \<open>open\<close>, \<open>close\<close>, \<open>read\<close>, \<open>write\<close> and
  \<open>lseek\<close> are arguments, over a state of type \<open>'s\<close>: \<open>read\<close> returns its result, the
  bytes it stored and the new state. What the code stores through a \<open>void*\<close> is a byte list
  here; the operations on a \<open>ByteBuffer\<close> write it to the buffer's memory.
\<close>

unbundle bit_operations_syntax

type_synonym 's sys_read = "int \<Rightarrow> int \<Rightarrow> 's \<Rightarrow> int \<times> byte list \<times> 's"
type_synonym 's sys_write = "int \<Rightarrow> byte list \<Rightarrow> 's \<Rightarrow> int \<times> 's"

section \<open>Transfers\<close>

text \<open>The loop of \<open>read_n\<close>, with the count \<open>nr\<close>, the last result \<open>nx\<close> and the bytes stored
  so far. \<open>read\<close> does not return more than it is asked for.\<close>

function rn_loop :: "'s sys_read \<Rightarrow> int \<Rightarrow> int \<Rightarrow> int \<Rightarrow> int \<Rightarrow> byte list \<Rightarrow> 's \<Rightarrow> int \<times> byte list \<times> 's" where
  "rn_loop rdf fd n nr nx acc s =
     (if nr < n then
        let (nx, bs, s') = rdf fd (n - nr) s
        in if nx \<le> 0 then (if nr = 0 then nx else s32 nr, acc, s')
           else rn_loop rdf fd n (nr + nx) nx (acc @ bs) s'
      else (if nr = 0 then nx else s32 nr, acc, s))"
  by pat_completeness auto
termination by (relation "measure (\<lambda>(rdf, fd, n, nr, nx, acc, s). nat (n - nr))") auto

declare rn_loop.simps [simp del]

definition dv_read_n :: "'s sys_read \<Rightarrow> int \<Rightarrow> int \<Rightarrow> 's \<Rightarrow> int \<times> byte list \<times> 's" where
  "dv_read_n rdf fd n s = rn_loop rdf fd n 0 0 [] s"

function wn_loop :: "'s sys_write \<Rightarrow> int \<Rightarrow> byte list \<Rightarrow> int \<Rightarrow> int \<Rightarrow> 's \<Rightarrow> int \<times> 's" where
  "wn_loop wrf fd bs nw nx s =
     (if nw < int (length bs) then
        let (nx, s') = wrf fd (drop (nat nw) bs) s
        in if nx \<le> 0 then (if nw = 0 then nx else s32 nw, s') else wn_loop wrf fd bs (nw + nx) nx s'
      else (if nw = 0 then nx else s32 nw, s))"
  by pat_completeness auto
termination by (relation "measure (\<lambda>(wrf, fd, bs, nw, nx, s). nat (int (length bs) - nw))") auto

declare wn_loop.simps [simp del]

definition dv_write_n :: "'s sys_write \<Rightarrow> int \<Rightarrow> byte list \<Rightarrow> 's \<Rightarrow> int \<times> 's" where
  "dv_write_n wrf fd bs s = wn_loop wrf fd bs 0 0 s"

text \<open>The buffer versions; \<open>read\<close> and \<open>read_n\<close> store at the position, then advance it.\<close>

definition dv_read_buf :: "'s sys_read \<Rightarrow> int \<Rightarrow> bf \<Rightarrow> 's \<Rightarrow> byte mem \<Rightarrow> (int \<times> bf \<times> 's \<times> byte mem) option" where
  "dv_read_buf rdf fd b s m =
     (let (n, bs, s') = rdf fd (bf_available b) s
      in do { m' \<leftarrow> wr_list m (bf_position_ptr b) bs;
              Some (s32 n, if 0 < s32 n then bf_incr_position (s32 n) b else b, s', m') })"

definition dv_read_n_buf :: "'s sys_read \<Rightarrow> int \<Rightarrow> bf \<Rightarrow> 's \<Rightarrow> byte mem \<Rightarrow> (int \<times> bf \<times> 's \<times> byte mem) option" where
  "dv_read_n_buf rdf fd b s m =
     (let (n, bs, s') = dv_read_n rdf fd (bf_available b) s
      in do { m' \<leftarrow> wr_list m (bf_position_ptr b) bs;
              Some (n, if 0 < n then bf_incr_position n b else b, s', m') })"

definition dv_write_buf :: "'s sys_write \<Rightarrow> int \<Rightarrow> bf \<Rightarrow> 's \<Rightarrow> byte mem \<Rightarrow> (int \<times> bf \<times> 's) option" where
  "dv_write_buf wrf fd b s m =
     do { bs \<leftarrow> rd_list m (bf_position_ptr b) (nat (bf_available b));
          let (n, s') = wrf fd bs s in
          Some (s32 n, if 0 < s32 n then bf_incr_position (s32 n) b else b, s') }"

definition dv_write_n_buf :: "'s sys_write \<Rightarrow> int \<Rightarrow> bf \<Rightarrow> 's \<Rightarrow> byte mem \<Rightarrow> (int \<times> bf \<times> 's) option" where
  "dv_write_n_buf wrf fd b s m =
     do { bs \<leftarrow> rd_list m (bf_position_ptr b) (nat (bf_available b));
          let (n, s') = dv_write_n wrf fd bs s in
          Some (n, if 0 < n then bf_incr_position n b else b, s') }"

section \<open>DeviceBase\<close>

text \<open>The default constructor does not initialise \<open>own_\<close>; its value is the argument \<open>g\<close>.\<close>

record dev =
  dv_fd :: int
  dv_own :: bool

definition dv_ctor :: "bool \<Rightarrow> dev" where "dv_ctor g = \<lparr>dv_fd = -1, dv_own = g\<rparr>"
definition dv_ctor_fd :: "int \<Rightarrow> bool \<Rightarrow> dev" where "dv_ctor_fd fd own = \<lparr>dv_fd = fd, dv_own = own\<rparr>"

definition dv_close :: "(int \<Rightarrow> 's \<Rightarrow> 's) \<Rightarrow> dev \<times> 's \<Rightarrow> dev \<times> 's" where
  "dv_close clf ds =
     (if 0 \<le> dv_fd (fst ds) \<and> dv_own (fst ds)
      then (\<lparr>dv_fd = -1, dv_own = False\<rparr>, clf (dv_fd (fst ds)) (snd ds)) else ds)"

definition dv_open ::
  "(string \<Rightarrow> int \<Rightarrow> 's \<Rightarrow> int \<times> 's) \<Rightarrow> (int \<Rightarrow> 's \<Rightarrow> 's) \<Rightarrow> string \<Rightarrow> int \<Rightarrow> dev \<times> 's \<Rightarrow> int \<times> dev \<times> 's" where
  "dv_open opf clf name flags ds =
     (let (d, s) = dv_close clf ds; (fd, s') = opf name flags s in (fd, \<lparr>dv_fd = fd, dv_own = True\<rparr>, s'))"

definition dv_ctor_name ::
  "(string \<Rightarrow> int \<Rightarrow> 's \<Rightarrow> int \<times> 's) \<Rightarrow> (int \<Rightarrow> 's \<Rightarrow> 's) \<Rightarrow> bool \<Rightarrow> string \<Rightarrow> int \<Rightarrow> 's \<Rightarrow> dev \<times> 's" where
  "dv_ctor_name opf clf g name flags s = snd (dv_open opf clf name flags (dv_ctor g, s))"

definition dv_assign :: "(int \<Rightarrow> 's \<Rightarrow> 's) \<Rightarrow> int \<Rightarrow> bool \<Rightarrow> dev \<times> 's \<Rightarrow> dev \<times> 's" where
  "dv_assign clf fd own ds = (let (d, s) = dv_close clf ds in (\<lparr>dv_fd = fd, dv_own = own\<rparr>, s))"

definition dv_claim :: "dev \<Rightarrow> dev" where "dv_claim d = d\<lparr>dv_own := True\<rparr>"
definition dv_handle :: "dev \<Rightarrow> int" where "dv_handle d = dv_fd d"
definition dv_is_open :: "dev \<Rightarrow> bool" where "dv_is_open d \<longleftrightarrow> 0 \<le> dv_fd d"
definition dv_dtor :: "(int \<Rightarrow> 's \<Rightarrow> 's) \<Rightarrow> dev \<times> 's \<Rightarrow> 's" where "dv_dtor clf ds = snd (dv_close clf ds)"

text \<open>\<open>SEEK_SET\<close>, \<open>SEEK_CUR\<close> and \<open>SEEK_END\<close> are 0, 1 and 2.\<close>

definition dv_seek_beg :: "(int \<Rightarrow> int \<Rightarrow> int \<Rightarrow> 's \<Rightarrow> int \<times> 's) \<Rightarrow> dev \<Rightarrow> int \<Rightarrow> 's \<Rightarrow> int \<times> 's" where
  "dv_seek_beg lsf d off = lsf (dv_fd d) off 0"
definition dv_seek_cur :: "(int \<Rightarrow> int \<Rightarrow> int \<Rightarrow> 's \<Rightarrow> int \<times> 's) \<Rightarrow> dev \<Rightarrow> int \<Rightarrow> 's \<Rightarrow> int \<times> 's" where
  "dv_seek_cur lsf d off = lsf (dv_fd d) off 1"
definition dv_seek_end :: "(int \<Rightarrow> int \<Rightarrow> int \<Rightarrow> 's \<Rightarrow> int \<times> 's) \<Rightarrow> dev \<Rightarrow> int \<Rightarrow> 's \<Rightarrow> int \<times> 's" where
  "dv_seek_end lsf d off = lsf (dv_fd d) off 2"
definition dv_seek :: "(int \<Rightarrow> int \<Rightarrow> int \<Rightarrow> 's \<Rightarrow> int \<times> 's) \<Rightarrow> dev \<Rightarrow> int \<Rightarrow> 's \<Rightarrow> int \<times> 's" where
  "dv_seek lsf d off = dv_seek_beg lsf d off"

section \<open>InDevice, OutDevice and Device\<close>

text \<open>The access modes of POSIX: \<open>O_RDONLY\<close> is 0, \<open>O_WRONLY\<close> 1, \<open>O_RDWR\<close> 2.\<close>

definition in_open ::
  "(string \<Rightarrow> int \<Rightarrow> 's \<Rightarrow> int \<times> 's) \<Rightarrow> (int \<Rightarrow> 's \<Rightarrow> 's) \<Rightarrow> string \<Rightarrow> int \<Rightarrow> dev \<times> 's \<Rightarrow> int \<times> dev \<times> 's" where
  "in_open opf clf name flags = dv_open opf clf name (0 OR (flags AND NOT (1 OR 2)))"
definition out_open ::
  "(string \<Rightarrow> int \<Rightarrow> 's \<Rightarrow> int \<times> 's) \<Rightarrow> (int \<Rightarrow> 's \<Rightarrow> 's) \<Rightarrow> string \<Rightarrow> int \<Rightarrow> dev \<times> 's \<Rightarrow> int \<times> dev \<times> 's" where
  "out_open opf clf name flags = dv_open opf clf name (1 OR (flags AND NOT (0 OR 2)))"
definition io_open ::
  "(string \<Rightarrow> int \<Rightarrow> 's \<Rightarrow> int \<times> 's) \<Rightarrow> (int \<Rightarrow> 's \<Rightarrow> 's) \<Rightarrow> string \<Rightarrow> int \<Rightarrow> dev \<times> 's \<Rightarrow> int \<times> dev \<times> 's" where
  "io_open opf clf name flags = dv_open opf clf name (2 OR (flags AND NOT (0 OR 1)))"

definition in_read :: "'s sys_read \<Rightarrow> dev \<Rightarrow> int \<Rightarrow> 's \<Rightarrow> int \<times> byte list \<times> 's" where
  "in_read rdf d n s = rdf (dv_fd d) n s"
definition in_read_n :: "'s sys_read \<Rightarrow> dev \<Rightarrow> int \<Rightarrow> 's \<Rightarrow> int \<times> byte list \<times> 's" where
  "in_read_n rdf d n s = dv_read_n rdf (dv_fd d) n s"
definition in_read_buf :: "'s sys_read \<Rightarrow> dev \<Rightarrow> bf \<Rightarrow> 's \<Rightarrow> byte mem \<Rightarrow> (int \<times> bf \<times> 's \<times> byte mem) option" where
  "in_read_buf rdf d b s m = dv_read_buf rdf (dv_fd d) b s m"
definition in_read_n_buf :: "'s sys_read \<Rightarrow> dev \<Rightarrow> bf \<Rightarrow> 's \<Rightarrow> byte mem \<Rightarrow> (int \<times> bf \<times> 's \<times> byte mem) option" where
  "in_read_n_buf rdf d b s m = dv_read_n_buf rdf (dv_fd d) b s m"
definition out_write :: "'s sys_write \<Rightarrow> dev \<Rightarrow> byte list \<Rightarrow> 's \<Rightarrow> int \<times> 's" where
  "out_write wrf d bs s = wrf (dv_fd d) bs s"
definition out_write_n :: "'s sys_write \<Rightarrow> dev \<Rightarrow> byte list \<Rightarrow> 's \<Rightarrow> int \<times> 's" where
  "out_write_n wrf d bs s = dv_write_n wrf (dv_fd d) bs s"
definition out_write_buf :: "'s sys_write \<Rightarrow> dev \<Rightarrow> bf \<Rightarrow> 's \<Rightarrow> byte mem \<Rightarrow> (int \<times> bf \<times> 's) option" where
  "out_write_buf wrf d b s m = dv_write_buf wrf (dv_fd d) b s m"
definition out_write_n_buf :: "'s sys_write \<Rightarrow> dev \<Rightarrow> bf \<Rightarrow> 's \<Rightarrow> byte mem \<Rightarrow> (int \<times> bf \<times> 's) option" where
  "out_write_n_buf wrf d b s m = dv_write_n_buf wrf (dv_fd d) b s m"

text \<open>The standard streams: they are assigned the descriptor without owning it.\<close>

definition std_ctor :: "(int \<Rightarrow> 's \<Rightarrow> 's) \<Rightarrow> int \<Rightarrow> bool \<Rightarrow> 's \<Rightarrow> dev \<times> 's" where
  "std_ctor clf fd g s = dv_assign clf fd False (dv_ctor g, s)"
definition std_close :: "dev \<Rightarrow> dev" where "std_close d = d\<lparr>dv_fd := -1\<rparr>"
definition std_dtor :: "(int \<Rightarrow> 's \<Rightarrow> 's) \<Rightarrow> dev \<times> 's \<Rightarrow> 's" where
  "std_dtor clf ds = dv_dtor clf (std_close (fst ds), snd ds)"

section \<open>Devices that carry a byte stream\<close>

text \<open>What POSIX says of \<open>read\<close> on a stream: it takes any positive number of the bytes that are
  there, at most as many as asked for, and returns 0 when there are none.\<close>

definition dev_source :: "'s sys_read \<Rightarrow> int \<Rightarrow> ('s \<Rightarrow> byte list) \<Rightarrow> bool" where
  "dev_source rdf fd content \<longleftrightarrow>
     (\<forall>n s. 0 < n \<longrightarrow> (\<exists>k s'. rdf fd n s = (int k, take k (content s), s') \<and> content s' = drop k (content s) \<and>
        k \<le> length (content s) \<and> int k \<le> n \<and> (k = 0 \<longrightarrow> content s = [])))"

text \<open>And of \<open>write\<close>: it takes a positive number of the bytes it is given.\<close>

definition dev_sink :: "'s sys_write \<Rightarrow> int \<Rightarrow> ('s \<Rightarrow> byte list) \<Rightarrow> bool" where
  "dev_sink wrf fd sent \<longleftrightarrow>
     (\<forall>bs s. bs \<noteq> [] \<longrightarrow> (\<exists>k s'. wrf fd bs s = (int k, s') \<and> 0 < k \<and> k \<le> length bs \<and>
        sent s' = sent s @ take k bs))"

lemma dev_sourceD:
  "dev_source rdf fd content \<Longrightarrow> 0 < n \<Longrightarrow> \<exists>k s'. rdf fd n s = (int k, take k (content s), s') \<and>
     content s' = drop k (content s) \<and> k \<le> length (content s) \<and> int k \<le> n \<and> (k = 0 \<longrightarrow> content s = [])"
  by (simp add: dev_source_def)

lemma dev_sinkD:
  "dev_sink wrf fd sent \<Longrightarrow> bs \<noteq> [] \<Longrightarrow> \<exists>k s'. wrf fd bs s = (int k, s') \<and> 0 < k \<and> k \<le> length bs \<and>
     sent s' = sent s @ take k bs"
  by (simp add: dev_sink_def)

lemma rn_loop_stream:
  "dev_source rdf fd content \<Longrightarrow> 0 \<le> nr \<Longrightarrow> nr \<le> n \<Longrightarrow> nr = int (length acc) \<Longrightarrow> n < 2147483648 \<Longrightarrow> (nr = 0 \<Longrightarrow> nx = 0) \<Longrightarrow>
    \<exists>s'. rn_loop rdf fd n nr nx acc s = (nr + int (length (take (nat (n - nr)) (content s))),
        acc @ take (nat (n - nr)) (content s), s') \<and> content s' = drop (nat (n - nr)) (content s)"
proof (induction rdf fd n nr nx acc s rule: rn_loop.induct)
  case (1 rdf fd n nr nx acc s)
  show ?case
  proof (cases "nr < n")
    case False
    then have "rn_loop rdf fd n nr nx acc s = (nr, acc, s)" using 1(3-7) by (subst rn_loop.simps) auto
    then show ?thesis using False 1(4,5) by simp
  next
    case True
    obtain k s1 where r: "rdf fd (n - nr) s = (int k, take k (content s), s1)" "content s1 = drop k (content s)"
        "k \<le> length (content s)" "int k \<le> n - nr" "k = 0 \<longrightarrow> content s = []"
      using dev_sourceD [OF 1(2), of "n - nr" s] True by auto
    show ?thesis
    proof (cases "k = 0")
      case True
      then have "rn_loop rdf fd n nr nx acc s = (nr, acc, s1)"
        using r \<open>nr < n\<close> 1(3-7) by (subst rn_loop.simps) auto
      then show ?thesis using True r(2,5) 1(5) by simp
    next
      case False
      have "rn_loop rdf fd n nr nx acc s = rn_loop rdf fd n (nr + int k) (int k) (acc @ take k (content s)) s1"
        using r True False by (simp add: rn_loop.simps [of rdf fd n nr nx acc s])
      moreover obtain s2 where "rn_loop rdf fd n (nr + int k) (int k) (acc @ take k (content s)) s1 =
          (nr + int k + int (length (take (nat (n - (nr + int k))) (content s1))),
           (acc @ take k (content s)) @ take (nat (n - (nr + int k))) (content s1), s2)"
          "content s2 = drop (nat (n - (nr + int k))) (content s1)"
        using 1(1) [OF True r(1) [symmetric] refl refl _ 1(2)] False r 1(3-7) by auto
      moreover have "nat (n - nr) = k + nat (n - (nr + int k))" using r(4) by simp
      ultimately show ?thesis using r(2,3) by (simp add: take_add drop_drop add.commute)
    qed
  qed
qed

lemma dv_read_n_stream:
  assumes "dev_source rdf fd content" "0 \<le> n" "n < 2147483648"
  shows "\<exists>s'. dv_read_n rdf fd n s =
      (int (length (take (nat n) (content s))), take (nat n) (content s), s') \<and> content s' = drop (nat n) (content s)"
  using rn_loop_stream [OF assms(1), of 0 n "[]" 0 s] assms(2,3) by (simp add: dv_read_n_def)

lemma wn_loop_stream:
  "dev_sink wrf fd sent \<Longrightarrow> 0 \<le> nw \<Longrightarrow> nw \<le> int (length bs) \<Longrightarrow> length bs < 2147483648 \<Longrightarrow> (nw = 0 \<Longrightarrow> nx = 0) \<Longrightarrow>
    \<exists>s'. wn_loop wrf fd bs nw nx s = (int (length bs), s') \<and> sent s' = sent s @ drop (nat nw) bs"
proof (induction wrf fd bs nw nx s rule: wn_loop.induct)
  case (1 wrf fd bs nw nx s)
  show ?case
  proof (cases "nw < int (length bs)")
    case False
    then have "wn_loop wrf fd bs nw nx s = (nw, s)" using 1(3-6) by (subst wn_loop.simps) auto
    then show ?thesis using False 1(4) by simp
  next
    case True
    have "drop (nat nw) bs \<noteq> []" using True 1(3) by simp
    then obtain k s1 where r: "wrf fd (drop (nat nw) bs) s = (int k, s1)" "0 < k"
        "k \<le> length bs - nat nw" "sent s1 = sent s @ take k (drop (nat nw) bs)"
      using dev_sinkD [OF 1(2), of "drop (nat nw) bs" s] by auto
    have "wn_loop wrf fd bs nw nx s = wn_loop wrf fd bs (nw + int k) (int k) s1"
      using r True by (simp add: wn_loop.simps [of wrf fd bs nw nx s])
    moreover have le: "nw + int k \<le> int (length bs)" using r(3) 1(3) True by linarith
    moreover obtain s2 where "wn_loop wrf fd bs (nw + int k) (int k) s1 = (int (length bs), s2)"
        "sent s2 = sent s1 @ drop (nat (nw + int k)) bs"
      using 1(1) [OF True r(1) [symmetric] refl _ 1(2)] r 1(3-6) le by auto
    moreover have "take k (drop (nat nw) bs) @ drop (nat (nw + int k)) bs = drop (nat nw) bs"
      using 1(3) by (simp add: nat_add_distrib add.commute [of "nat nw" k] flip: drop_drop)
    ultimately show ?thesis using r(4) by simp
  qed
qed

lemma dv_write_n_stream:
  assumes "dev_sink wrf fd sent" "length bs < 2147483648"
  shows "\<exists>s'. dv_write_n wrf fd bs s = (int (length bs), s') \<and> sent s' = sent s @ bs"
  using wn_loop_stream [OF assms(1), of 0 bs 0 s] assms(2) by (simp add: dv_write_n_def)

section \<open>A device for examples\<close>

text \<open>Its state is the bytes to read and the bytes written; it moves at most two at a time.\<close>

definition slow_read :: "(byte list \<times> byte list) sys_read" where
  "slow_read fd n s = (let k = min (min 2 (nat n)) (length (fst s)) in (int k, take k (fst s), (drop k (fst s), snd s)))"

definition slow_write :: "(byte list \<times> byte list) sys_write" where
  "slow_write fd bs s = (let k = min 2 (length bs) in (int k, (fst s, snd s @ take k bs)))"

lemma slow_source: "dev_source slow_read fd fst"
  by (auto simp: dev_source_def slow_read_def Let_def min_def)

lemma slow_sink: "dev_sink slow_write fd snd"
  by (auto simp: dev_sink_def slow_write_def Let_def min_def)

section \<open>Properties\<close>

text \<open>\<open>read_n\<close> on a buffer fills it from a stream device however short the individual reads
  are: it stops only at the limit or at the end of the data, keeps the order of the bytes and
  takes none beyond those it stores.\<close>

theorem device_read_n_fills_buffer:
  assumes "dev_source rdf fd content" "bf_inv b m" "bf_available b < 2147483648"
  shows "\<exists>s' m'. dv_read_n_buf rdf fd b s m =
      Some (min (bf_available b) (int (length (content s))),
        b\<lparr>bf_pos := bf_pos b + min (bf_available b) (int (length (content s)))\<rparr>, s', m') \<and>
    cells m' (bf_pos b) (min (bf_available b) (int (length (content s)))) = take (nat (bf_available b)) (content s) \<and>
    content s' = drop (nat (bf_available b)) (content s) \<and> m_live m' = m_live m"
proof -
  let ?n = "bf_available b" and ?bs = "take (nat (bf_available b)) (content s)"
  have n: "?n = bf_lim b - bf_pos b" "0 \<le> ?n" using bf_sizes(4) [OF assms(2)] assms(2) by (auto simp: bf_inv_def)
  have len: "min ?n (int (length (content s))) = int (length ?bs)" using n by simp
  obtain s' where r: "dv_read_n rdf fd ?n s = (int (length ?bs), ?bs, s')" "content s' = drop (nat ?n) (content s)"
    using dv_read_n_stream [OF assms(1) n(2) assms(3)] by metis
  have "live_range m (bf_pos b) (int (length ?bs))"
  proof (rule bf_live [OF assms(2)])
    have "int (length ?bs) \<le> ?n" using n by simp
    then show "bf_pos b + int (length ?bs) \<le> bf_end b" using n assms(2) unfolding bf_inv_def by linarith
  qed (use assms(2) in \<open>simp add: bf_inv_def\<close>)
  then have "wr_list m (bf_pos b) ?bs = Some (put_at (bf_pos b) ?bs m)" by (rule wr_list_put_at)
  then show ?thesis unfolding len using r cells_put_at [of "bf_pos b" ?bs m]
    by (auto simp: dv_read_n_buf_def bf_position_ptr_def bf_incr_position_def)
qed

theorem device_read_n_fills_buffer_witness:
  "\<exists>s' m'. dv_read_n_buf slow_read 0 (bf_demo 3 8 1) ([1, 2, 3, 4, 5, 6, 7], []) (arena 0 30) =
      Some (5, (bf_demo 3 8 1)\<lparr>bf_pos := 8\<rparr>, s', m') \<and>
    cells m' 3 5 = [1, 2, 3, 4, 5] \<and> fst s' = [6, 7] \<and> m_live m' = m_live (arena (0::byte) 30)"
  using device_read_n_fills_buffer [OF slow_source [of 0], of "bf_demo 3 8 1" "arena 0 30" "([1, 2, 3, 4, 5, 6, 7], [])"]
    bf_demo_inv [of 3 8 30 1 "0::byte"] by (simp add: bf_demo_def bf_available_def)

text \<open>\<open>write_n\<close> on a buffer hands the device everything from the position to the limit, in order
  and exactly once, however little each write takes, and leaves the buffer empty.\<close>

theorem device_write_n_drains_buffer:
  assumes "dev_sink wrf fd sent" "bf_inv b m" "bf_available b < 2147483648"
  shows "\<exists>s'. dv_write_n_buf wrf fd b s m = Some (bf_available b, b\<lparr>bf_pos := bf_lim b\<rparr>, s') \<and>
    sent s' = sent s @ bf_rest b m"
proof -
  let ?n = "bf_available b"
  have n: "?n = bf_lim b - bf_pos b" "0 \<le> ?n" using bf_sizes(4) [OF assms(2)] assms(2) by (auto simp: bf_inv_def)
  have "live_range m (bf_pos b) (int (nat ?n))"
    using bf_live [OF assms(2), of "bf_pos b" ?n] assms(2) n by (simp add: bf_inv_def)
  then have rd: "rd_list m (bf_pos b) (nat ?n) = Some (bf_rest b m)"
    using rd_list_cells [of m "bf_pos b" "nat ?n"] n by (simp add: bf_rest_def)
  have "length (bf_rest b m) < 2147483648" using n assms(3) by (simp add: bf_rest_def nat_less_iff)
  then obtain s' where "dv_write_n wrf fd (bf_rest b m) s = (int (length (bf_rest b m)), s')" "sent s' = sent s @ bf_rest b m"
    using dv_write_n_stream [OF assms(1), of "bf_rest b m" s] by blast
  moreover have "int (length (bf_rest b m)) = ?n" using n by (simp add: bf_rest_def)
  ultimately show ?thesis using rd n
    by (cases "?n = 0") (auto simp: dv_write_n_buf_def bf_position_ptr_def bf_incr_position_def)
qed

theorem device_write_n_drains_buffer_witness:
  "\<exists>s'. dv_write_n_buf slow_write 0 (bf_demo 3 8 1) ([], [9]) (arena 4 30) = Some (5, (bf_demo 3 8 1)\<lparr>bf_pos := 8\<rparr>, s') \<and>
    snd s' = [9, 4, 4, 4, 4, 4]"
  using device_write_n_drains_buffer [OF slow_sink [of 0], of "bf_demo 3 8 1" "arena 4 30" "([], [9])"]
    bf_demo_inv [of 3 8 30 1 "4::byte"] by (simp add: bf_demo_def bf_available_def bf_rest_def cells_def upt_rec)

end
