(* ===== verification/PosixTime.thy ===== *)
theory PosixTime imports Cfx_Base begin

text \<open>
  \<open>os/posix/CtrlrFx/Time.h\<close>, \<open>src/os/posix/Time.cpp\<close>, \<open>CtrlrFx/TimeUnits.h\<close> and
  \<open>CtrlrFx/ClockTime.h\<close>: durations and times as a \<open>timespec\<close>, in the configuration
  without floating point (\<open>CFX_NO_FLOAT\<close>). Signed arithmetic that leaves its type is
  undefined (\<open>None\<close>); conversions between integer types wrap.
\<close>

definition ck32 :: "int \<Rightarrow> int option" where
  "ck32 x = (if - 2147483648 \<le> x \<and> x < 2147483648 then Some x else None)"

definition ck64 :: "int \<Rightarrow> int option" where
  "ck64 x = (if - 9223372036854775808 \<le> x \<and> x < 9223372036854775808 then Some x else None)"

lemma ck_Some [simp]:
  "ck32 x = Some y \<longleftrightarrow> y = x \<and> - 2147483648 \<le> x \<and> x < 2147483648"
  "ck64 x = Some y \<longleftrightarrow> y = x \<and> - 9223372036854775808 \<le> x \<and> x < 9223372036854775808"
  by (auto simp: ck32_def ck64_def)

record timespec =
  tv_sec :: int
  tv_nsec :: int

definition ts :: "int \<Rightarrow> int \<Rightarrow> timespec" where
  "ts s n = \<lparr>tv_sec = s, tv_nsec = n\<rparr>"

lemma ts_sel [simp]: "tv_sec (ts s n) = s" "tv_nsec (ts s n) = n" "ts s n = ts s' n' \<longleftrightarrow> s = s' \<and> n = n'"
  by (simp_all add: ts_def)

lemma ts_surj: "ts (tv_sec t) (tv_nsec t) = t"
  by (simp add: ts_def)

abbreviation ns_per_sec :: int where "ns_per_sec \<equiv> 1000000000"

section \<open>Normalisation\<close>

text \<open>The two loops of \<open>normalize_timespec\<close>, and the adjustment of the signs.\<close>

function norm_pos :: "int \<Rightarrow> int \<Rightarrow> int \<times> int" where
  "norm_pos s n = (if ns_per_sec < n then norm_pos (s + 1) (n - ns_per_sec) else (s, n))"
  by pat_completeness auto
termination by (relation "measure (\<lambda>(s, n). nat n)") auto

function norm_neg :: "int \<Rightarrow> int \<Rightarrow> int \<times> int" where
  "norm_neg s n = (if n < - ns_per_sec then norm_neg (s - 1) (n + ns_per_sec) else (s, n))"
  by pat_completeness auto
termination by (relation "measure (\<lambda>(s, n). nat (- n))") auto

declare norm_pos.simps [simp del] norm_neg.simps [simp del]

definition norm_sign :: "int \<Rightarrow> int \<Rightarrow> int \<times> int" where
  "norm_sign s n =
     (if 0 < s \<and> n < 0 then (s - 1, n + ns_per_sec)
      else if s < 0 \<and> 0 < n then (s + 1, n - ns_per_sec) else (s, n))"

definition normalize_timespec :: "timespec \<Rightarrow> timespec" where
  "normalize_timespec t =
     (let (s, n) = norm_pos (tv_sec t) (tv_nsec t); (s, n) = norm_neg s n; (s, n) = norm_sign s n in ts s n)"

section \<open>TimeBase\<close>

definition tb_ctor :: timespec where "tb_ctor = ts 0 0"
definition tb_ctor_parts :: "int \<Rightarrow> int \<Rightarrow> timespec" where "tb_ctor_parts s n = ts s n"
definition tb_ctor_spec :: "timespec \<Rightarrow> timespec" where "tb_ctor_spec t = t"
definition tb_ctor_timeval :: "int \<times> int \<Rightarrow> timespec option" where
  "tb_ctor_timeval tv = do { n \<leftarrow> ck64 (snd tv * 1000); Some (ts (fst tv) n) }"
definition tb_normalize :: "timespec \<Rightarrow> timespec" where "tb_normalize t = normalize_timespec t"

definition tb_ticks :: "timespec \<Rightarrow> int option" where
  "tb_ticks t = do { p \<leftarrow> ck64 (tv_sec t * ns_per_sec); ck64 (p + tv_nsec t) }"

definition tb_to_timeval :: "timespec \<Rightarrow> int \<times> int" where
  "tb_to_timeval t = (tv_sec t, c_div (tv_nsec t) 1000)"

definition tb_eq :: "timespec \<Rightarrow> timespec \<Rightarrow> bool" where
  "tb_eq t1 t2 \<longleftrightarrow> tv_sec t1 = tv_sec t2 \<and> tv_nsec t1 = tv_nsec t2"
definition tb_ne :: "timespec \<Rightarrow> timespec \<Rightarrow> bool" where
  "tb_ne t1 t2 \<longleftrightarrow> tv_sec t1 \<noteq> tv_sec t2 \<or> tv_nsec t1 \<noteq> tv_nsec t2"
definition tb_lt :: "timespec \<Rightarrow> timespec \<Rightarrow> bool option" where
  "tb_lt t1 t2 = do { a \<leftarrow> tb_ticks t1; b \<leftarrow> tb_ticks t2; Some (a < b) }"
definition tb_le :: "timespec \<Rightarrow> timespec \<Rightarrow> bool option" where
  "tb_le t1 t2 = do { a \<leftarrow> tb_ticks t1; b \<leftarrow> tb_ticks t2; Some (a \<le> b) }"
definition tb_gt :: "timespec \<Rightarrow> timespec \<Rightarrow> bool option" where
  "tb_gt t1 t2 = do { a \<leftarrow> tb_ticks t1; b \<leftarrow> tb_ticks t2; Some (b < a) }"
definition tb_ge :: "timespec \<Rightarrow> timespec \<Rightarrow> bool option" where
  "tb_ge t1 t2 = do { a \<leftarrow> tb_ticks t1; b \<leftarrow> tb_ticks t2; Some (b \<le> a) }"

section \<open>Duration\<close>

text \<open>The unit wrappers hold an \<open>int64_t\<close> (nanoseconds) or an \<open>int32_t\<close> (the others).\<close>

definition nsec :: "int \<Rightarrow> int" where "nsec n = s64 n"
definition usec :: "int \<Rightarrow> int" where "usec n = s32 n"
definition msec :: "int \<Rightarrow> int" where "msec n = s32 n"
definition secs :: "int \<Rightarrow> int" where "secs n = s32 n"
definition minutes :: "int \<Rightarrow> int" where "minutes n = s32 n"
definition hours :: "int \<Rightarrow> int" where "hours n = s32 n"
definition days :: "int \<Rightarrow> int" where "days n = s32 n"

definition du_from_sec :: "int \<Rightarrow> timespec" where "du_from_sec s = ts s 0"

definition du_ctor :: timespec where "du_ctor = tb_ctor"
definition du_nsec :: "int \<Rightarrow> timespec" where "du_nsec ns = ts (c_div ns ns_per_sec) (c_mod ns ns_per_sec)"
definition du_usec :: "int \<Rightarrow> timespec" where "du_usec us = ts (c_div us 1000000) (c_mod us 1000000 * 1000)"
definition du_msec :: "int \<Rightarrow> timespec" where "du_msec ms = ts (c_div ms 1000) (c_mod ms 1000 * 1000000)"
definition du_sec :: "int \<Rightarrow> timespec" where "du_sec s = du_from_sec s"
definition du_minutes :: "int \<Rightarrow> timespec option" where "du_minutes m = map_option du_from_sec (ck32 (60 * m))"
definition du_hours :: "int \<Rightarrow> timespec option" where "du_hours h = map_option du_from_sec (ck32 (h * 3600))"
definition du_days :: "int \<Rightarrow> timespec option" where "du_days d = map_option du_from_sec (ck32 (86400 * d))"
definition du_uint32 :: "int \<Rightarrow> timespec" where "du_uint32 ms = ts (ms div 1000) ((ms mod 1000) * 1000000)"
definition du_parts :: "int \<Rightarrow> int \<Rightarrow> timespec" where "du_parts s n = tb_ctor_parts s n"
definition du_spec :: "timespec \<Rightarrow> timespec" where "du_spec t = tb_ctor_spec t"
definition du_timeval :: "int \<times> int \<Rightarrow> timespec option" where "du_timeval tv = tb_ctor_timeval tv"
definition du_copy :: "timespec \<Rightarrow> timespec" where "du_copy t = tb_ctor_spec t"
definition du_normalize :: "timespec \<Rightarrow> timespec" where "du_normalize t = normalize_timespec t"

definition du_to_nsec :: "timespec \<Rightarrow> int option" where
  "du_to_nsec t = do { p \<leftarrow> ck64 (tv_sec t * ns_per_sec); ck64 (p + tv_nsec t) }"

text \<open>The seconds are first converted to the 32-bit result type and multiplied there; the
  nanoseconds are added as a \<open>long\<close>, and the sum is converted back.\<close>

definition du_to_usec :: "timespec \<Rightarrow> int option" where
  "du_to_usec t = do { p \<leftarrow> ck32 (s32 (tv_sec t) * 1000000); Some (s32 (p + c_div (tv_nsec t) 1000)) }"
definition du_to_msec :: "timespec \<Rightarrow> int option" where
  "du_to_msec t = do { p \<leftarrow> ck32 (s32 (tv_sec t) * 1000); Some (s32 (p + c_div (tv_nsec t) 1000000)) }"
definition du_to_sec :: "timespec \<Rightarrow> int" where
  "du_to_sec t = s32 (s32 (tv_sec t) + c_div (s32 (tv_nsec t)) ns_per_sec)"
definition du_to_minutes :: "timespec \<Rightarrow> int" where "du_to_minutes t = c_div (du_to_sec t) 60"
definition du_to_hours :: "timespec \<Rightarrow> int" where "du_to_hours t = c_div (du_to_sec t) 3600"
definition du_to_days :: "timespec \<Rightarrow> int" where "du_to_days t = c_div (du_to_sec t) 86400"

definition du_assign :: "timespec \<Rightarrow> timespec" where "du_assign d = ts (tv_sec d) (tv_nsec d)"

definition ts_offset :: "timespec \<Rightarrow> int \<Rightarrow> int \<Rightarrow> timespec option" where
  "ts_offset t ds dn = do { s \<leftarrow> ck64 (tv_sec t + ds); n \<leftarrow> ck64 (tv_nsec t + dn); Some (ts s n) }"

definition du_add_assign :: "timespec \<Rightarrow> timespec \<Rightarrow> timespec option" where
  "du_add_assign t d = map_option du_normalize (ts_offset t (tv_sec d) (tv_nsec d))"
definition du_sub_assign :: "timespec \<Rightarrow> timespec \<Rightarrow> timespec option" where
  "du_sub_assign t d = map_option du_normalize (ts_offset t (- tv_sec d) (- tv_nsec d))"
definition du_add :: "timespec \<Rightarrow> timespec \<Rightarrow> timespec option" where
  "du_add d1 d2 = map_option du_normalize (ts_offset d1 (tv_sec d2) (tv_nsec d2))"
definition du_sub :: "timespec \<Rightarrow> timespec \<Rightarrow> timespec option" where
  "du_sub d1 d2 = map_option du_normalize (ts_offset d1 (- tv_sec d2) (- tv_nsec d2))"

section \<open>Absolute time\<close>

text \<open>What the clock returns is an argument.\<close>

definition tm_ctor :: timespec where "tm_ctor = tb_ctor"
definition tm_parts :: "int \<Rightarrow> int \<Rightarrow> timespec" where "tm_parts s n = tb_ctor_parts s n"
definition tm_normalize :: "timespec \<Rightarrow> timespec" where "tm_normalize t = normalize_timespec t"
definition tm_now :: "timespec \<Rightarrow> timespec" where "tm_now clock = clock"
definition tm_assign_spec :: "timespec \<Rightarrow> timespec" where "tm_assign_spec t = normalize_timespec t"
definition tm_assign :: "timespec \<Rightarrow> timespec" where "tm_assign t = t"
definition tm_from_now :: "timespec \<Rightarrow> timespec \<Rightarrow> timespec option" where
  "tm_from_now clock d = map_option tm_normalize (ts_offset clock (tv_sec d) (tv_nsec d))"
definition tm_add_assign :: "timespec \<Rightarrow> timespec \<Rightarrow> timespec option" where
  "tm_add_assign t d = map_option tm_normalize (ts_offset t (tv_sec d) (tv_nsec d))"
definition tm_sub_assign :: "timespec \<Rightarrow> timespec \<Rightarrow> timespec option" where
  "tm_sub_assign t d = map_option tm_normalize (ts_offset t (- tv_sec d) (- tv_nsec d))"
definition tm_add :: "timespec \<Rightarrow> timespec \<Rightarrow> timespec option" where
  "tm_add t d = map_option tm_normalize (ts_offset t (tv_sec d) (tv_nsec d))"
definition tm_add_left :: "timespec \<Rightarrow> timespec \<Rightarrow> timespec option" where
  "tm_add_left d t = tm_add t d"
definition tm_sub :: "timespec \<Rightarrow> timespec \<Rightarrow> timespec option" where
  "tm_sub t d = map_option tm_normalize (ts_offset t (- tv_sec d) (- tv_nsec d))"
definition tm_diff :: "timespec \<Rightarrow> timespec \<Rightarrow> timespec option" where
  "tm_diff t1 t2 = map_option du_normalize (ts_offset t1 (- tv_sec t2) (- tv_nsec t2))"

section \<open>Processor time\<close>

text \<open>\<open>CLOCKS_PER_SEC\<close> is one million on POSIX; the products are of type \<open>uint32_t\<close>.\<close>

definition clk_ticks_per_sec :: int where "clk_ticks_per_sec = 1000000"
definition clk_from_ms :: "int \<Rightarrow> int" where "clk_from_ms ms = u32 (ms * clk_ticks_per_sec) div 1000"
definition clk_from_sec :: "int \<Rightarrow> int" where "clk_from_sec s = u32 (s * clk_ticks_per_sec)"
definition clk_ms :: "int \<Rightarrow> int option" where
  "clk_ms ticks = do { p \<leftarrow> ck64 (1000 * ticks); Some (c_div p clk_ticks_per_sec) }"
definition clk_sec :: "int \<Rightarrow> int" where "clk_sec ticks = c_div ticks clk_ticks_per_sec"
definition clk_diff :: "int \<Rightarrow> int \<Rightarrow> int option" where "clk_diff t1 t2 = ck64 (t1 - t2)"
definition clk_add :: "int \<Rightarrow> int \<Rightarrow> int option" where "clk_add t d = ck64 (t + d)"
definition clk_elapsed_ms :: "int \<Rightarrow> int \<Rightarrow> int option" where
  "clk_elapsed_ms now t = do { d \<leftarrow> clk_diff now t; clk_ms d }"
definition clk_elapsed_sec :: "int \<Rightarrow> int \<Rightarrow> int option" where
  "clk_elapsed_sec now t = map_option clk_sec (clk_diff now t)"

section \<open>What normalisation does\<close>

text \<open>The time in nanoseconds, without a bound.\<close>

definition ts_ns :: "timespec \<Rightarrow> int" where
  "ts_ns t = tv_sec t * ns_per_sec + tv_nsec t"

definition ts_norm :: "timespec \<Rightarrow> bool" where
  "ts_norm t \<longleftrightarrow> \<bar>tv_nsec t\<bar> \<le> ns_per_sec \<and> (0 < tv_sec t \<longrightarrow> 0 \<le> tv_nsec t) \<and> (tv_sec t < 0 \<longrightarrow> tv_nsec t \<le> 0)"

lemma norm_pos_ok: "norm_pos s n = (s', n') \<Longrightarrow>
    s' * ns_per_sec + n' = s * ns_per_sec + n \<and> n' \<le> ns_per_sec \<and> (0 \<le> n \<longrightarrow> 0 \<le> n') \<and> (n < 0 \<longrightarrow> n' = n)"
proof (induction s n rule: norm_pos.induct)
  case (1 s n)
  then show ?case by (cases "ns_per_sec < n") (auto simp: norm_pos.simps [of s n])
qed

lemma norm_neg_ok: "norm_neg s n = (s', n') \<Longrightarrow>
    s' * ns_per_sec + n' = s * ns_per_sec + n \<and> - ns_per_sec \<le> n' \<and> (n \<le> 0 \<longrightarrow> n' \<le> 0) \<and> (0 \<le> n \<longrightarrow> n' = n)"
proof (induction s n rule: norm_neg.induct)
  case (1 s n)
  then show ?case by (cases "n < - ns_per_sec") (auto simp: norm_neg.simps [of s n])
qed

lemma normalize_ok: "ts_ns (normalize_timespec t) = ts_ns t \<and> ts_norm (normalize_timespec t)"
proof -
  obtain s1 n1 where p: "norm_pos (tv_sec t) (tv_nsec t) = (s1, n1)" by fastforce
  obtain s2 n2 where q: "norm_neg s1 n1 = (s2, n2)" by fastforce
  have "n2 \<le> ns_per_sec" "- ns_per_sec \<le> n2" "s2 * ns_per_sec + n2 = ts_ns t"
    using norm_pos_ok [OF p] norm_neg_ok [OF q] by (auto simp: ts_ns_def)
  moreover have "normalize_timespec t = (let (s, n) = norm_sign s2 n2 in ts s n)"
    by (simp add: normalize_timespec_def p q)
  moreover have "\<bar>snd (norm_sign s n)\<bar> \<le> ns_per_sec \<and> ts_norm (ts (fst (norm_sign s n)) (snd (norm_sign s n)))
      \<and> fst (norm_sign s n) * ns_per_sec + snd (norm_sign s n) = s * ns_per_sec + n"
    if "n \<le> ns_per_sec" "- ns_per_sec \<le> n" for s n
    using that by (auto simp: norm_sign_def ts_norm_def)
  ultimately show ?thesis
    by (simp add: ts_ns_def split_beta)
qed

lemma norm_idle: "\<bar>n\<bar> \<le> ns_per_sec \<Longrightarrow> norm_pos s n = (s, n) \<and> norm_neg s n = (s, n)"
  by (auto simp: norm_pos.simps [of s n] norm_neg.simps [of s n])

lemma normalize_idle: "ts_norm t \<Longrightarrow> normalize_timespec t = t"
  using norm_idle [of "tv_nsec t" "tv_sec t"]
  by (auto simp: normalize_timespec_def norm_sign_def ts_norm_def ts_surj)

lemma ts_norm_unique:
  assumes "ts_norm a" "ts_norm b" "ts_ns a = ts_ns b" "\<bar>tv_nsec a\<bar> < ns_per_sec" "\<bar>tv_nsec b\<bar> < ns_per_sec"
  shows "a = b"
proof -
  have "tv_sec a = tv_sec b \<and> tv_nsec a = tv_nsec b"
    using assms unfolding ts_norm_def ts_ns_def by (smt (verit))
  then show ?thesis by (metis ts_surj)
qed

lemma ts_offset_ns: "ts_offset t ds dn = Some t' \<Longrightarrow> ts_ns t' = ts_ns t + ds * ns_per_sec + dn"
  by (auto simp: ts_offset_def bind_Some_iff ts_ns_def algebra_simps)

text \<open>Times whose parts are small enough for a few sums: about 100,000 years.\<close>

definition ts_small :: "timespec \<Rightarrow> bool" where
  "ts_small t \<longleftrightarrow> \<bar>tv_sec t\<bar> \<le> 4398046511104 \<and> \<bar>tv_nsec t\<bar> \<le> 4398046511104"

definition ts_medium :: "timespec \<Rightarrow> bool" where
  "ts_medium t \<longleftrightarrow> \<bar>tv_sec t\<bar> \<le> 4611686018427387903 \<and> \<bar>tv_nsec t\<bar> \<le> 4611686018427387903"

lemma ts_offset_medium:
  "ts_medium t \<Longrightarrow> ts_medium d \<Longrightarrow>
   ts_offset t (tv_sec d) (tv_nsec d) = Some (ts (tv_sec t + tv_sec d) (tv_nsec t + tv_nsec d)) \<and>
   ts_offset t (- tv_sec d) (- tv_nsec d) = Some (ts (tv_sec t - tv_sec d) (tv_nsec t - tv_nsec d))"
  by (auto simp: ts_medium_def ts_offset_def ck64_def)

lemma small_medium: "ts_small t \<Longrightarrow> ts_medium t"
  by (auto simp: ts_small_def ts_medium_def)

lemma norm_medium: "ts_norm t \<Longrightarrow> \<bar>ts_ns t\<bar> \<le> 4611686018427387903000000000 \<Longrightarrow> ts_medium t"
  by (auto simp: ts_norm_def ts_medium_def ts_ns_def)

text \<open>Adding and subtracting: a sum and a difference of the numbers of nanoseconds.\<close>

lemma norm_ts:
  "ts_norm (normalize_timespec (ts a b)) \<and> ts_ns (normalize_timespec (ts a b)) = a * ns_per_sec + b"
  using normalize_ok [of "ts a b"] by (simp add: ts_ns_def)

lemma tm_add_ok: "ts_medium t \<Longrightarrow> ts_medium d \<Longrightarrow>
    \<exists>u. tm_add t d = Some u \<and> ts_norm u \<and> ts_ns u = ts_ns t + ts_ns d"
  by (simp add: tm_add_def tm_normalize_def ts_offset_medium norm_ts ts_ns_def [of t] ts_ns_def [of d] algebra_simps)

lemma tm_sub_ok: "ts_medium t \<Longrightarrow> ts_medium d \<Longrightarrow>
    \<exists>u. tm_sub t d = Some u \<and> ts_norm u \<and> ts_ns u = ts_ns t - ts_ns d"
  by (simp add: tm_sub_def tm_normalize_def ts_offset_medium norm_ts ts_ns_def [of t] ts_ns_def [of d] algebra_simps)

lemma tm_diff_ok: "ts_medium t \<Longrightarrow> ts_medium d \<Longrightarrow>
    \<exists>u. tm_diff t d = Some u \<and> ts_norm u \<and> ts_ns u = ts_ns t - ts_ns d"
  by (simp add: tm_diff_def du_normalize_def ts_offset_medium norm_ts ts_ns_def [of t] ts_ns_def [of d] algebra_simps)

lemma du_tm_normalize: "du_normalize = normalize_timespec" "tm_normalize = normalize_timespec"
  by (simp_all add: fun_eq_iff du_normalize_def tm_normalize_def)

lemma du_same_as_tm:
  "du_add = tm_add" "du_sub = tm_sub" "du_add_assign = tm_add" "du_sub_assign = tm_sub"
  "tm_add_assign = tm_add" "tm_sub_assign = tm_sub" "tm_from_now = tm_add" "tm_add_left d t = tm_add t d"
  by (auto simp: fun_eq_iff du_tm_normalize du_add_def tm_add_def du_sub_def tm_sub_def du_add_assign_def du_sub_assign_def
      tm_add_assign_def tm_sub_assign_def tm_from_now_def tm_add_left_def)

lemma small_ns: "ts_small t \<Longrightarrow> \<bar>ts_ns t\<bar> \<le> 4398046511104000000000 + 4398046511104"
  by (auto simp: ts_small_def ts_ns_def)

lemma div_le_self: "0 \<le> a \<Longrightarrow> 0 < b \<Longrightarrow> 0 \<le> a div b \<and> a div b * b \<le> a \<and> a div b \<le> (a::int)"
proof -
  assume a: "0 \<le> a" and b: "0 < b"
  have q: "0 \<le> a div b" using a b by (simp add: pos_imp_zdiv_nonneg_iff)
  have "a div b * b \<le> a" using div_mult_mod_eq [of a b] pos_mod_sign [OF b, of a] by linarith
  moreover have "a div b * 1 \<le> a div b * b" using q b by (intro mult_left_mono) auto
  ultimately show ?thesis using q by linarith
qed

lemma c_div_bounds:
  "0 < b \<Longrightarrow> \<bar>c_div a b * b\<bar> \<le> \<bar>a\<bar> \<and> \<bar>c_div a b\<bar> \<le> \<bar>a\<bar> \<and> \<bar>c_mod a b\<bar> < b"
proof (cases "0 \<le> a")
  case True
  assume b: "0 < b"
  show ?thesis
    using True b div_le_self [OF True b] pos_mod_bound [OF b, of a] pos_mod_sign [OF b, of a] by simp
next
  case False
  assume b: "0 < b"
  have "0 \<le> - a" using False by simp
  from div_le_self [OF this b] show ?thesis
    using False b pos_mod_bound [OF b, of "- a"] pos_mod_sign [OF b, of "- a"]
    by (simp add: c_div_neg c_mod_neg)
qed

lemma c_div_pos_neg:
  "0 < b \<Longrightarrow> (0 \<le> a \<longrightarrow> 0 \<le> c_div a b \<and> c_div a b \<le> a \<and> 0 \<le> c_div a b * b \<and> c_div a b * b \<le> a) \<and>
     (a \<le> 0 \<longrightarrow> a \<le> c_div a b \<and> c_div a b \<le> 0 \<and> a \<le> c_div a b * b \<and> c_div a b * b \<le> 0)"
  using div_le_self [of a b] div_le_self [of "- a" b]
  by (cases a "0::int" rule: linorder_cases) (auto simp: c_div_neg mult_nonneg_nonneg)

lemma unit_roundtrip:
  assumes n: "- 2147483648 \<le> n" "n < 2147483648" and b: "0 < b" "0 < c"
  shows "do { p \<leftarrow> ck32 (s32 (c_div n b) * b); Some (s32 (p + c_div (c_mod n b * c) c)) } = Some n"
proof -
  have k: "c_div (c_mod n b * c) c = c_mod n b"
    using b by (auto simp: c_div_def sgn_mult abs_mult sgn_mult_abs)
  have q: "- 2147483648 \<le> c_div n b" "c_div n b < 2147483648" "- 2147483648 \<le> c_div n b * b" "c_div n b * b < 2147483648"
    using n c_div_pos_neg [of b n] b by (cases "0 \<le> n"; auto)+
  show ?thesis using n q by (simp add: k ck32_def c_div_mod)
qed

section \<open>Properties\<close>

text \<open>\<open>normalize_timespec\<close> does not change the time, leaves seconds and nanoseconds with the same
  sign and at most a second of nanoseconds, and changes nothing when it is applied again.\<close>

theorem time_normalize:
  "ts_ns (normalize_timespec t) = ts_ns t \<and> ts_norm (normalize_timespec t) \<and>
   normalize_timespec (normalize_timespec t) = normalize_timespec t"
  using normalize_ok [of t] normalize_idle by blast

text \<open>adding a duration to a time and taking it away again gives the time back, and the
  difference of the two times is the duration, to the nanosecond.\<close>

theorem time_arithmetic:
  assumes "ts_small t" "ts_small d"
  shows "\<exists>u v w. tm_add t d = Some u \<and> tm_sub u d = Some v \<and> tm_diff u t = Some w \<and>
     ts_norm u \<and> ts_ns u = ts_ns t + ts_ns d \<and> ts_ns v = ts_ns t \<and> ts_ns w = ts_ns d"
proof -
  note m = assms [THEN small_medium] and n = assms [THEN small_ns]
  obtain u where u: "tm_add t d = Some u" "ts_norm u" "ts_ns u = ts_ns t + ts_ns d"
    using tm_add_ok [OF m] by blast
  have mu: "ts_medium u" using u(3) n by (intro norm_medium [OF u(2)]) linarith
  obtain v where v: "tm_sub u d = Some v" "ts_ns v = ts_ns u - ts_ns d" using tm_sub_ok [OF mu m(2)] by blast
  obtain w where w: "tm_diff u t = Some w" "ts_ns w = ts_ns u - ts_ns t" using tm_diff_ok [OF mu m(1)] by blast
  show ?thesis using u v w by auto
qed

theorem time_arithmetic_witness:
  "\<exists>u v w. tm_add (ts 1139000000 900000000) (ts 2 500000000) = Some u \<and> tm_sub u (ts 2 500000000) = Some v \<and>
     tm_diff u (ts 1139000000 900000000) = Some w \<and> ts_norm u \<and>
     ts_ns u = ts_ns (ts 1139000000 900000000) + ts_ns (ts 2 500000000) \<and>
     ts_ns v = ts_ns (ts 1139000000 900000000) \<and> ts_ns w = ts_ns (ts 2 500000000)"
  by (rule time_arithmetic) (simp_all add: ts_small_def)

text \<open>a duration made from nanoseconds, microseconds, milliseconds or seconds of the wrapper's
  type converts back to the same number, negative numbers included, without overflow.\<close>

theorem duration_units_roundtrip:
  assumes "- 2147483648 \<le> n" "n < 2147483648" "- 9223372036854775808 \<le> ns" "ns < 9223372036854775808"
  shows "du_to_msec (du_msec (msec n)) = Some n \<and> du_to_usec (du_usec (usec n)) = Some n \<and>
    du_to_nsec (du_nsec (nsec ns)) = Some ns \<and> du_to_sec (du_sec (secs n)) = n"
proof -
  have "du_to_msec (du_msec (msec n)) = Some n"
    using assms unit_roundtrip [of n 1000 1000000] by (simp add: du_to_msec_def du_msec_def msec_def)
  moreover have "du_to_usec (du_usec (usec n)) = Some n"
    using assms unit_roundtrip [of n 1000000 1000] by (simp add: du_to_usec_def du_usec_def usec_def)
  moreover have "du_to_nsec (du_nsec (nsec ns)) = Some ns"
    using assms c_div_bounds [of ns_per_sec ns] c_div_mod [of ns ns_per_sec]
    by (auto simp: du_to_nsec_def du_nsec_def nsec_def bind_Some_iff)
  moreover have "du_to_sec (du_sec (secs n)) = n"
    using assms by (simp add: du_to_sec_def du_sec_def du_from_sec_def secs_def)
  ultimately show ?thesis by simp
qed

theorem duration_units_roundtrip_witness:
  "du_to_msec (du_msec (msec (- 1500))) = Some (- 1500) \<and> du_to_usec (du_usec (usec (- 1500))) = Some (- 1500) \<and>
    du_to_nsec (du_nsec (nsec 5000000001)) = Some 5000000001 \<and> du_to_sec (du_sec (secs (- 1500))) = - 1500"
  by (rule duration_units_roundtrip) simp_all

text \<open>normalisation leaves a whole second of nanoseconds alone, so it does not give a unique
  time: half a second twice is not equal to a second, although neither is less than the other,
  and the deadline of a timed wait can have a nanosecond field that the kernel rejects.\<close>

theorem time_normalize_keeps_a_full_second:
  "du_add (du_msec 500) (du_msec 500) = Some (ts 0 1000000000) \<and> \<not> tb_eq (ts 0 1000000000) (du_sec 1) \<and>
   tb_lt (ts 0 1000000000) (du_sec 1) = Some False \<and> tb_gt (ts 0 1000000000) (du_sec 1) = Some False \<and>
   tm_from_now (ts s 400000000) (du_msec 600) = (if ck64 s = None then None else Some (if s < 0 then ts (s + 1) 0 else ts s 1000000000))"
  by (simp add: du_add_def du_normalize_def du_msec_def normalize_timespec_def norm_sign_def norm_idle ts_offset_def
      ck64_def tb_eq_def du_sec_def du_from_sec_def tb_lt_def tb_gt_def tb_ticks_def tm_from_now_def tm_normalize_def)

text \<open>the conversions that multiply in 32 bits: 25 days have no number of milliseconds and an
  hour no number of microseconds, and a clock duration of 4295 seconds wraps to a fraction of a second.\<close>

theorem time_conversions_overflow:
  "Option.bind (du_days 24) du_to_msec = Some 2073600000 \<and> Option.bind (du_days 25) du_to_msec = None \<and>
   Option.bind (du_hours 1) du_to_usec = None \<and>
   clk_from_sec 4294 = 4294 * clk_ticks_per_sec \<and> clk_from_sec 4295 = 32704 \<and>
   clk_from_ms 4294 = 4294000 \<and> clk_from_ms 4295 = 32"
  by (simp add: du_days_def du_hours_def du_from_sec_def du_to_msec_def du_to_usec_def ck32_def
      clk_from_sec_def clk_from_ms_def clk_ticks_per_sec_def u32_def)

end
