(* ===== verification/Sockets.thy ===== *)
theory Sockets imports Device PosixTime begin

text \<open>
  \<open>CtrlrFx/Socket.h\<close>, \<open>InetAddr.h\<close>, \<open>TcpAcceptor.h\<close>, \<open>TcpConnector.h\<close> and their sources
  under \<open>src/io/net\<close>, in the POSIX configuration: internet addresses, the ownership of
  socket handles, and transfers over UDP and TCP sockets. The operating system's calls are
  the functions of a record \<open>net_os\<close> over a state of type \<open>'s\<close>.
\<close>

section \<open>Internet addresses\<close>

text \<open>\<open>sockaddr_in\<close>: the numbers as the host reads them from the fields.\<close>

record inet_addr =
  sin_family :: int
  sin_port :: int
  sin_addr :: int
  sin_zero :: "byte list"

text \<open>The 16 bytes of the object.\<close>

definition ia_bytes :: "bool \<Rightarrow> inet_addr \<Rightarrow> byte list" where
  "ia_bytes le a = host_bytes le 2 (sin_family a) @ host_bytes le 2 (sin_port a) @
     host_bytes le 4 (sin_addr a) @ sin_zero a"

definition ia_size :: int where "ia_size = 16"

text \<open>\<open>htons\<close> and its relatives: the network's bytes are the most significant first.\<close>

definition hton :: "bool \<Rightarrow> nat \<Rightarrow> int \<Rightarrow> int" where
  "hton le k x = host_val le (rev (bytes_le k x))"

definition ntoh :: "bool \<Rightarrow> nat \<Rightarrow> int \<Rightarrow> int" where
  "ntoh le k x = val_le (rev (host_bytes le k x))"

definition AF_INET :: int where "AF_INET = 2"
definition INADDR_ANY :: int where "INADDR_ANY = 0"

definition ia_zero :: inet_addr where
  "ia_zero = \<lparr>sin_family = 0, sin_port = 0, sin_addr = 0, sin_zero = replicate 8 0\<rparr>"

text \<open>The loop of \<open>is_set\<close> over the bytes of the object.\<close>

fun ia_is_set_loop :: "byte list \<Rightarrow> bool" where
  "ia_is_set_loop [] = False"
| "ia_is_set_loop (x # xs) = (if x \<noteq> 0 then True else ia_is_set_loop xs)"

definition ia_is_set :: "bool \<Rightarrow> inet_addr \<Rightarrow> bool" where
  "ia_is_set le a = ia_is_set_loop (ia_bytes le a)"

text \<open>\<open>inet_aton\<close> and \<open>gethostbyname\<close> are arguments; they give addresses in network order.\<close>

definition ia_resolve_name :: "(string \<Rightarrow> int option) \<Rightarrow> (string \<Rightarrow> int option) \<Rightarrow> string \<Rightarrow> int" where
  "ia_resolve_name aton byname name =
     (case aton name of Some x \<Rightarrow> x
      | None \<Rightarrow> (case byname name of Some x \<Rightarrow> x | None \<Rightarrow> 0))"

definition ia_create :: "bool \<Rightarrow> int \<Rightarrow> int \<Rightarrow> inet_addr" where
  "ia_create le addr p =
     ia_zero\<lparr>sin_family := AF_INET, sin_addr := hton le 4 addr, sin_port := hton le 2 p\<rparr>"

definition ia_create_name ::
  "bool \<Rightarrow> (string \<Rightarrow> int option) \<Rightarrow> (string \<Rightarrow> int option) \<Rightarrow> string \<Rightarrow> int \<Rightarrow> inet_addr" where
  "ia_create_name le aton byname name p =
     ia_zero\<lparr>sin_family := AF_INET, sin_addr := ia_resolve_name aton byname name, sin_port := hton le 2 p\<rparr>"

definition ia_ctor :: inet_addr where "ia_ctor = ia_zero"
definition ia_ctor_port :: "bool \<Rightarrow> int \<Rightarrow> inet_addr" where "ia_ctor_port le p = ia_create le INADDR_ANY p"
definition ia_ctor_addr :: "bool \<Rightarrow> int \<Rightarrow> int \<Rightarrow> inet_addr" where "ia_ctor_addr le addr p = ia_create le addr p"
definition ia_ctor_name ::
  "bool \<Rightarrow> (string \<Rightarrow> int option) \<Rightarrow> (string \<Rightarrow> int option) \<Rightarrow> string \<Rightarrow> int \<Rightarrow> inet_addr" where
  "ia_ctor_name le aton byname name p = ia_create_name le aton byname name p"
definition ia_ctor_copy :: "inet_addr \<Rightarrow> inet_addr" where "ia_ctor_copy a = a"

definition ia_address :: "bool \<Rightarrow> inet_addr \<Rightarrow> int" where "ia_address le a = ntoh le 4 (sin_addr a)"
definition ia_port :: "bool \<Rightarrow> inet_addr \<Rightarrow> int" where "ia_port le a = ntoh le 2 (sin_port a)"

text \<open>\<open>memcmp\<close> of the two objects.\<close>

definition ia_eq :: "bool \<Rightarrow> inet_addr \<Rightarrow> inet_addr \<Rightarrow> bool" where
  "ia_eq le a b \<longleftrightarrow> ia_bytes le a = ia_bytes le b"
definition ia_ne :: "bool \<Rightarrow> inet_addr \<Rightarrow> inet_addr \<Rightarrow> bool" where
  "ia_ne le a b \<longleftrightarrow> \<not> ia_eq le a b"

section \<open>The operating system\<close>

text \<open>The socket type is \<open>SOCK_STREAM\<close> (1) or \<open>SOCK_DGRAM\<close> (2), the protocol
  \<open>IPPROTO_TCP\<close> (6) or \<open>IPPROTO_UDP\<close> (17).\<close>

record 's net_os =
  nt_socket :: "int \<Rightarrow> int \<Rightarrow> 's \<Rightarrow> int \<times> 's"
  nt_close :: "int \<Rightarrow> 's \<Rightarrow> 's"
  nt_setsockopt :: "int \<Rightarrow> int \<Rightarrow> int \<times> int \<Rightarrow> 's \<Rightarrow> int \<times> 's"
  nt_bind :: "int \<Rightarrow> inet_addr \<Rightarrow> 's \<Rightarrow> int \<times> 's"
  nt_listen :: "int \<Rightarrow> int \<Rightarrow> 's \<Rightarrow> int \<times> 's"
  nt_accept :: "int \<Rightarrow> 's \<Rightarrow> int \<times> 's"
  nt_connect :: "int \<Rightarrow> inet_addr \<Rightarrow> 's \<Rightarrow> int \<times> 's"
  nt_recv :: "'s sys_read"
  nt_send :: "'s sys_write"
  nt_sendto :: "int \<Rightarrow> byte list \<Rightarrow> inet_addr \<Rightarrow> 's \<Rightarrow> int \<times> 's"
  nt_recvfrom :: "int \<Rightarrow> int \<Rightarrow> 's \<Rightarrow> int \<times> byte list \<times> inet_addr \<times> 's"

definition SO_REUSEADDR :: int where "SO_REUSEADDR = 2"
definition SO_RCVTIMEO :: int where "SO_RCVTIMEO = 20"
definition SO_SNDTIMEO :: int where "SO_SNDTIMEO = 21"

section \<open>Socket\<close>

definition INVALID_SOCKET :: int where "INVALID_SOCKET = -1"

record sock =
  sock_h :: int

definition so_ctor :: sock where "so_ctor = \<lparr>sock_h = INVALID_SOCKET\<rparr>"
definition so_ctor_handle :: "int \<Rightarrow> sock" where "so_ctor_handle h = \<lparr>sock_h = h\<rparr>"
definition so_handle :: "sock \<Rightarrow> int" where "so_handle k = sock_h k"
definition so_is_open :: "sock \<Rightarrow> bool" where "so_is_open k \<longleftrightarrow> sock_h k \<noteq> INVALID_SOCKET"
definition so_is_valid :: "sock \<Rightarrow> bool" where "so_is_valid k \<longleftrightarrow> sock_h k \<noteq> INVALID_SOCKET"

definition so_release :: "sock \<Rightarrow> int \<times> sock" where
  "so_release k = (sock_h k, k\<lparr>sock_h := INVALID_SOCKET\<rparr>)"

definition so_close :: "(int \<Rightarrow> 's \<Rightarrow> 's) \<Rightarrow> sock \<times> 's \<Rightarrow> sock \<times> 's" where
  "so_close clf ks =
     (if 0 \<le> sock_h (fst ks)
      then (let (h, k) = so_release (fst ks) in (k, clf h (snd ks))) else ks)"

definition so_reset :: "(int \<Rightarrow> 's \<Rightarrow> 's) \<Rightarrow> int \<Rightarrow> sock \<times> 's \<Rightarrow> sock \<times> 's" where
  "so_reset clf h ks =
     (if h \<noteq> sock_h (fst ks)
      then (let (k, s) = so_close clf ks in (k\<lparr>sock_h := h\<rparr>, s)) else ks)"

text \<open>Copying takes the handle from the source: the new object and the source after it.\<close>

definition so_ctor_copy :: "sock \<Rightarrow> sock \<times> sock" where
  "so_ctor_copy k = (let (h, k') = so_release k in (\<lparr>sock_h = h\<rparr>, k'))"

text \<open>Assignment of another object (of the object itself it does nothing): the target and the
  source after it.\<close>

definition so_assign :: "(int \<Rightarrow> 's \<Rightarrow> 's) \<Rightarrow> sock \<Rightarrow> sock \<times> 's \<Rightarrow> sock \<times> sock \<times> 's" where
  "so_assign clf src ks =
     (let (h, src') = so_release src; (k, s) = so_reset clf h ks in (k, src', s))"

definition so_dtor :: "(int \<Rightarrow> 's \<Rightarrow> 's) \<Rightarrow> sock \<times> 's \<Rightarrow> 's" where
  "so_dtor clf ks = snd (so_close clf ks)"

text \<open>\<open>SocketRef\<close> carries a handle between temporaries.\<close>

record socket_ref =
  ref_sock :: int

definition so_to_ref :: "sock \<Rightarrow> socket_ref \<times> sock" where
  "so_to_ref k = (let (h, k') = so_release k in (\<lparr>ref_sock = h\<rparr>, k'))"
definition so_ctor_ref :: "socket_ref \<Rightarrow> sock" where "so_ctor_ref r = \<lparr>sock_h = ref_sock r\<rparr>"
definition so_assign_ref :: "(int \<Rightarrow> 's \<Rightarrow> 's) \<Rightarrow> socket_ref \<Rightarrow> sock \<times> 's \<Rightarrow> sock \<times> 's" where
  "so_assign_ref clf r ks = so_reset clf (ref_sock r) ks"

section \<open>UdpSocket\<close>

definition udp_create :: "'s net_os \<Rightarrow> 's \<Rightarrow> int \<times> 's" where "udp_create nt s = nt_socket nt 2 17 s"

definition udp_bind :: "'s net_os \<Rightarrow> inet_addr \<Rightarrow> sock \<Rightarrow> 's \<Rightarrow> int \<times> 's" where
  "udp_bind nt a k s = nt_bind nt (so_handle k) a s"
definition udp_connect :: "'s net_os \<Rightarrow> inet_addr \<Rightarrow> sock \<Rightarrow> 's \<Rightarrow> int \<times> 's" where
  "udp_connect nt a k s = nt_connect nt (so_handle k) a s"

definition udp_ctor :: "'s net_os \<Rightarrow> 's \<Rightarrow> sock \<times> 's" where
  "udp_ctor nt s = (let (h, s1) = udp_create nt s in (so_ctor_handle h, s1))"
definition udp_ctor_addr :: "'s net_os \<Rightarrow> inet_addr \<Rightarrow> 's \<Rightarrow> sock \<times> 's" where
  "udp_ctor_addr nt a s =
     (let (h, s1) = udp_create nt s; k = so_ctor_handle h; (ret, s2) = udp_bind nt a k s1 in (k, s2))"
definition udp_ctor_port :: "bool \<Rightarrow> 's net_os \<Rightarrow> int \<Rightarrow> 's \<Rightarrow> sock \<times> 's" where
  "udp_ctor_port le nt p s =
     (let (h, s1) = udp_create nt s; k = so_ctor_handle h; (ret, s2) = udp_bind nt (ia_ctor_port le p) k s1
      in (k, s2))"

text \<open>The results of the system calls are \<open>ssize_t\<close>; the code keeps them in an \<open>int\<close>.\<close>

definition udp_sendto :: "'s net_os \<Rightarrow> byte list \<Rightarrow> inet_addr \<Rightarrow> sock \<Rightarrow> 's \<Rightarrow> int \<times> 's" where
  "udp_sendto nt bs a k s = (let (n, s') = nt_sendto nt (so_handle k) bs a s in (s32 n, s'))"
definition udp_send :: "'s net_os \<Rightarrow> byte list \<Rightarrow> sock \<Rightarrow> 's \<Rightarrow> int \<times> 's" where
  "udp_send nt bs k s = (let (n, s') = nt_send nt (so_handle k) bs s in (s32 n, s'))"
definition udp_recv :: "'s net_os \<Rightarrow> int \<Rightarrow> sock \<Rightarrow> 's \<Rightarrow> int \<times> byte list \<times> 's" where
  "udp_recv nt n k s = (let (r, bs, s') = nt_recv nt (so_handle k) n s in (s32 r, bs, s'))"
definition udp_recvfrom :: "'s net_os \<Rightarrow> int \<Rightarrow> inet_addr \<Rightarrow> sock \<Rightarrow> 's \<Rightarrow> int \<times> byte list \<times> inet_addr \<times> 's" where
  "udp_recvfrom nt n addr k s =
     (let (r, bs, sai, s') = nt_recvfrom nt (so_handle k) n s
      in (s32 r, bs, if 0 \<le> s32 r then sai else addr, s'))"

definition udp_sendto_buf :: "'s net_os \<Rightarrow> inet_addr \<Rightarrow> sock \<Rightarrow> bf \<Rightarrow> 's \<Rightarrow> byte mem \<Rightarrow> (int \<times> bf \<times> 's) option" where
  "udp_sendto_buf nt a k b s m =
     do { bs \<leftarrow> rd_list m (bf_position_ptr b) (nat (bf_available b));
          let (n, s') = udp_sendto nt bs a k s in
          Some (n, if 0 < n then bf_incr_position n b else b, s') }"

definition udp_send_buf :: "'s net_os \<Rightarrow> sock \<Rightarrow> bf \<Rightarrow> 's \<Rightarrow> byte mem \<Rightarrow> (int \<times> bf \<times> 's) option" where
  "udp_send_buf nt k b s m =
     do { bs \<leftarrow> rd_list m (bf_position_ptr b) (nat (bf_available b));
          let (n, s') = udp_send nt bs k s in
          Some (n, if 0 < n then bf_incr_position n b else b, s') }"

definition udp_recvfrom_buf ::
  "'s net_os \<Rightarrow> inet_addr \<Rightarrow> sock \<Rightarrow> bf \<Rightarrow> 's \<Rightarrow> byte mem \<Rightarrow> (int \<times> inet_addr \<times> bf \<times> 's \<times> byte mem) option" where
  "udp_recvfrom_buf nt addr k b s m =
     (let (n, bs, addr', s') = udp_recvfrom nt (bf_available b) addr k s
      in do { m' \<leftarrow> wr_list m (bf_position_ptr b) bs;
              Some (n, addr', if 0 < n then bf_incr_position n b else b, s', m') })"

definition udp_recv_buf :: "'s net_os \<Rightarrow> sock \<Rightarrow> bf \<Rightarrow> 's \<Rightarrow> byte mem \<Rightarrow> (int \<times> bf \<times> 's \<times> byte mem) option" where
  "udp_recv_buf nt k b s m =
     (let (n, bs, s') = udp_recv nt (bf_available b) k s
      in do { m' \<leftarrow> wr_list m (bf_position_ptr b) bs;
              Some (n, if 0 < n then bf_incr_position n b else b, s', m') })"

section \<open>TcpSocket\<close>

definition tcp_create :: "'s net_os \<Rightarrow> 's \<Rightarrow> int \<times> 's" where "tcp_create nt s = nt_socket nt 1 6 s"

definition tcp_ctor :: sock where "tcp_ctor = so_ctor"
definition tcp_ctor_handle :: "int \<Rightarrow> sock" where "tcp_ctor_handle h = so_ctor_handle h"
definition tcp_ctor_copy :: "sock \<Rightarrow> sock \<times> sock" where "tcp_ctor_copy k = so_ctor_copy k"
definition tcp_ctor_ref :: "socket_ref \<Rightarrow> sock" where "tcp_ctor_ref r = so_ctor_handle (ref_sock r)"
definition tcp_assign_ref :: "(int \<Rightarrow> 's \<Rightarrow> 's) \<Rightarrow> socket_ref \<Rightarrow> sock \<times> 's \<Rightarrow> sock \<times> 's" where
  "tcp_assign_ref clf r ks = so_reset clf (ref_sock r) ks"

definition tcp_open :: "'s net_os \<Rightarrow> sock \<times> 's \<Rightarrow> int \<times> sock \<times> 's" where
  "tcp_open nt ks =
     (let (k, s) = (if \<not> so_is_open (fst ks)
                    then (let (h, s1) = tcp_create nt (snd ks) in so_reset (nt_close nt) h (fst ks, s1))
                    else ks)
      in (if so_is_open k then 0 else -1, k, s))"

definition tcp_read :: "'s net_os \<Rightarrow> sock \<Rightarrow> int \<Rightarrow> 's \<Rightarrow> int \<times> byte list \<times> 's" where
  "tcp_read nt k n s = (let (r, bs, s') = nt_recv nt (so_handle k) n s in (s32 r, bs, s'))"

definition tcp_write :: "'s net_os \<Rightarrow> sock \<Rightarrow> byte list \<Rightarrow> 's \<Rightarrow> int \<times> 's" where
  "tcp_write nt k bs s = (let (r, s') = nt_send nt (so_handle k) bs s in (s32 r, s'))"

text \<open>The loops of \<open>read_n\<close> and \<open>write_n\<close> on an array.\<close>

function tcp_rn_loop :: "'s net_os \<Rightarrow> sock \<Rightarrow> int \<Rightarrow> int \<Rightarrow> int \<Rightarrow> byte list \<Rightarrow> 's \<Rightarrow> int \<times> byte list \<times> 's" where
  "tcp_rn_loop nt k n nr nx acc s =
     (if nr < n then
        let (nx, bs, s') = tcp_read nt k (n - nr) s
        in if nx \<le> 0 then (if nr = 0 \<and> nx < 0 then nx else s32 nr, acc, s')
           else tcp_rn_loop nt k n (nr + nx) nx (acc @ bs) s'
      else (if nr = 0 \<and> nx < 0 then nx else s32 nr, acc, s))"
  by pat_completeness auto
termination by (relation "measure (\<lambda>(nt, k, n, nr, nx, acc, s). nat (n - nr))") auto

declare tcp_rn_loop.simps [simp del]

definition tcp_read_n :: "'s net_os \<Rightarrow> sock \<Rightarrow> int \<Rightarrow> 's \<Rightarrow> int \<times> byte list \<times> 's" where
  "tcp_read_n nt k n s = tcp_rn_loop nt k n 0 0 [] s"

function tcp_wn_loop :: "'s net_os \<Rightarrow> sock \<Rightarrow> byte list \<Rightarrow> int \<Rightarrow> int \<Rightarrow> 's \<Rightarrow> int \<times> 's" where
  "tcp_wn_loop nt k bs nw nx s =
     (if nw < int (length bs) then
        let (nx, s') = tcp_write nt k (drop (nat nw) bs) s
        in if nx \<le> 0 then (if nw = 0 \<and> nx < 0 then nx else s32 nw, s') else tcp_wn_loop nt k bs (nw + nx) nx s'
      else (if nw = 0 \<and> nx < 0 then nx else s32 nw, s))"
  by pat_completeness auto
termination by (relation "measure (\<lambda>(nt, k, bs, nw, nx, s). nat (int (length bs) - nw))") auto

declare tcp_wn_loop.simps [simp del]

definition tcp_write_n :: "'s net_os \<Rightarrow> sock \<Rightarrow> byte list \<Rightarrow> 's \<Rightarrow> int \<times> 's" where
  "tcp_write_n nt k bs s = tcp_wn_loop nt k bs 0 0 s"

definition tcp_read_buf :: "'s net_os \<Rightarrow> sock \<Rightarrow> bf \<Rightarrow> 's \<Rightarrow> byte mem \<Rightarrow> (int \<times> bf \<times> 's \<times> byte mem) option" where
  "tcp_read_buf nt k b s m =
     (let (n, bs, s') = tcp_read nt k (bf_available b) s
      in do { m' \<leftarrow> wr_list m (bf_position_ptr b) bs;
              Some (n, if 0 < n then bf_incr_position n b else b, s', m') })"

definition tcp_write_buf :: "'s net_os \<Rightarrow> sock \<Rightarrow> bf \<Rightarrow> 's \<Rightarrow> byte mem \<Rightarrow> (int \<times> bf \<times> 's) option" where
  "tcp_write_buf nt k b s m =
     do { bs \<leftarrow> rd_list m (bf_position_ptr b) (nat (bf_available b));
          let (n, s') = tcp_write nt k bs s in
          Some (n, if 0 < n then bf_incr_position n b else b, s') }"

text \<open>On a buffer \<open>read_n\<close> and \<open>write_n\<close> repeat the transfer until the position meets the
  limit. A loop that does not end is \<open>None\<close>, as an undefined access is.\<close>

partial_function (option) tcp_rn_buf_loop ::
  "'s net_os \<Rightarrow> sock \<Rightarrow> int \<Rightarrow> int \<Rightarrow> bf \<Rightarrow> 's \<Rightarrow> byte mem \<Rightarrow> (int \<times> bf \<times> 's \<times> byte mem) option" where
  "tcp_rn_buf_loop nt k nr nx b s m =
     (if \<not> bf_full b then
        let (nx, bs, s') = tcp_read nt k (bf_available b) s
        in do { m' \<leftarrow> wr_list m (bf_position_ptr b) bs;
                if nx \<le> 0 then Some (if nr = 0 \<and> nx < 0 then nx else s32 nr, b, s', m')
                else tcp_rn_buf_loop nt k (nr + nx) nx (bf_incr_position nx b) s' m' }
      else Some (if nr = 0 \<and> nx < 0 then nx else s32 nr, b, s, m))"

definition tcp_read_n_buf :: "'s net_os \<Rightarrow> sock \<Rightarrow> bf \<Rightarrow> 's \<Rightarrow> byte mem \<Rightarrow> (int \<times> bf \<times> 's \<times> byte mem) option" where
  "tcp_read_n_buf nt k b s m = tcp_rn_buf_loop nt k 0 0 b s m"

partial_function (option) tcp_wn_buf_loop ::
  "'s net_os \<Rightarrow> sock \<Rightarrow> int \<Rightarrow> int \<Rightarrow> bf \<Rightarrow> 's \<Rightarrow> byte mem \<Rightarrow> (int \<times> bf \<times> 's) option" where
  "tcp_wn_buf_loop nt k nw nx b s m =
     (if \<not> bf_empty b then
        do { bs \<leftarrow> rd_list m (bf_position_ptr b) (nat (bf_available b));
             let (nx, s') = tcp_write nt k bs s in
             if nx \<le> 0 then Some (if nw = 0 \<and> nx < 0 then nx else s32 nw, b, s')
             else tcp_wn_buf_loop nt k (nw + nx) nx (bf_incr_position nx b) s' m }
      else Some (if nw = 0 \<and> nx < 0 then nx else s32 nw, b, s))"

definition tcp_write_n_buf :: "'s net_os \<Rightarrow> sock \<Rightarrow> bf \<Rightarrow> 's \<Rightarrow> byte mem \<Rightarrow> (int \<times> bf \<times> 's) option" where
  "tcp_write_n_buf nt k b s m = tcp_wn_buf_loop nt k 0 0 b s m"

text \<open>Timeouts hand the option the \<open>timeval\<close> of the duration.\<close>

definition tcp_read_timeout :: "'s net_os \<Rightarrow> timespec \<Rightarrow> sock \<Rightarrow> 's \<Rightarrow> bool \<times> 's" where
  "tcp_read_timeout nt d k s =
     (let (r, s') = nt_setsockopt nt (so_handle k) SO_RCVTIMEO (tb_to_timeval d) s in (r = 0, s'))"
definition tcp_write_timeout :: "'s net_os \<Rightarrow> timespec \<Rightarrow> sock \<Rightarrow> 's \<Rightarrow> bool \<times> 's" where
  "tcp_write_timeout nt d k s =
     (let (r, s') = nt_setsockopt nt (so_handle k) SO_SNDTIMEO (tb_to_timeval d) s in (r = 0, s'))"

section \<open>TcpAcceptor and TcpConnector\<close>

record acceptor =
  ac_sock :: sock
  ac_addr :: inet_addr

definition ac_ctor :: acceptor where "ac_ctor = \<lparr>ac_sock = tcp_ctor, ac_addr = ia_ctor\<rparr>"
definition ac_get_addr :: "acceptor \<Rightarrow> inet_addr" where "ac_get_addr a = ac_addr a"

definition ac_bind :: "'s net_os \<Rightarrow> inet_addr \<Rightarrow> sock \<Rightarrow> 's \<Rightarrow> int \<times> 's" where
  "ac_bind nt a k s = nt_bind nt (so_handle k) a s"
definition ac_listen :: "'s net_os \<Rightarrow> int \<Rightarrow> sock \<Rightarrow> 's \<Rightarrow> int \<times> 's" where
  "ac_listen nt n k s = nt_listen nt (so_handle k) n s"

text \<open>The option value 1 of \<open>SO_REUSEADDR\<close> is an \<open>int\<close>, here the first of the pair.\<close>

definition ac_open :: "bool \<Rightarrow> 's net_os \<Rightarrow> inet_addr \<Rightarrow> int \<Rightarrow> acceptor \<times> 's \<Rightarrow> int \<times> acceptor \<times> 's" where
  "ac_open le nt addr que as =
     (let (a, s) = as in
      if so_is_open (ac_sock a) then (0, a, s)
      else if \<not> ia_is_set le addr then (-1, a, s)
      else
        let (h, s) = tcp_create nt s;
            (k, s) = so_reset (nt_close nt) h (ac_sock a, s)
        in if \<not> so_is_valid k then (so_handle k, a\<lparr>ac_sock := k\<rparr>, s)
        else
          let (ret, s) = nt_setsockopt nt (so_handle k) SO_REUSEADDR (1, 0) s
          in if ret < 0 then (ret, a\<lparr>ac_sock := snd (so_release k)\<rparr>, s)
          else
            let (ret, s) = ac_bind nt addr k s
            in if ret < 0 then (ret, a\<lparr>ac_sock := snd (so_release k)\<rparr>, s)
            else
              let (ret, s) = ac_listen nt que k s
              in if ret < 0 then (ret, a\<lparr>ac_sock := snd (so_release k)\<rparr>, s)
              else (0, \<lparr>ac_sock = k, ac_addr = addr\<rparr>, s))"

definition ac_open_port :: "bool \<Rightarrow> 's net_os \<Rightarrow> int \<Rightarrow> int \<Rightarrow> acceptor \<times> 's \<Rightarrow> int \<times> acceptor \<times> 's" where
  "ac_open_port le nt p que as = ac_open le nt (ia_ctor_port le p) que as"

definition ac_ctor_addr :: "bool \<Rightarrow> 's net_os \<Rightarrow> inet_addr \<Rightarrow> int \<Rightarrow> 's \<Rightarrow> acceptor \<times> 's" where
  "ac_ctor_addr le nt addr que s =
     snd (ac_open le nt addr que (\<lparr>ac_sock = tcp_ctor, ac_addr = ia_ctor_copy addr\<rparr>, s))"
definition ac_ctor_port :: "bool \<Rightarrow> 's net_os \<Rightarrow> int \<Rightarrow> int \<Rightarrow> 's \<Rightarrow> acceptor \<times> 's" where
  "ac_ctor_port le nt p que s =
     snd (ac_open_port le nt p que (\<lparr>ac_sock = tcp_ctor, ac_addr = ia_ctor_port le p\<rparr>, s))"

definition ac_accept :: "'s net_os \<Rightarrow> acceptor \<Rightarrow> 's \<Rightarrow> sock \<times> 's" where
  "ac_accept nt a s = (let (h, s') = nt_accept nt (so_handle (ac_sock a)) s in (tcp_ctor_handle h, s'))"

definition tn_ctor :: "'s net_os \<Rightarrow> inet_addr \<Rightarrow> 's \<Rightarrow> sock \<times> 's" where
  "tn_ctor nt addr s =
     (let (h, s) = tcp_create nt s; k = tcp_ctor_handle h; (ret, s) = nt_connect nt (so_handle k) addr s
      in (if ret < 0 then snd (so_release k) else k, s))"

definition tn_connect :: "'s net_os \<Rightarrow> inet_addr \<Rightarrow> sock \<times> 's \<Rightarrow> int \<times> sock \<times> 's" where
  "tn_connect nt addr ks =
     (let (h, s) = tcp_create nt (snd ks);
          (k, s) = so_reset (nt_close nt) h (fst ks, s);
          (ret, s) = nt_connect nt (so_handle k) addr s
      in (ret, if ret < 0 then snd (so_release k) else k, s))"

section \<open>Lemmas on addresses\<close>

lemma hton_bytes: "0 \<le> x \<Longrightarrow> x < 256 ^ k \<Longrightarrow> host_bytes le k (hton le k x) = rev (bytes_le k x)"
  using bytes_val_le [of "rev (bytes_le k x)"] bytes_val_le [of "bytes_le k x"]
  by (cases le) (simp_all add: host_bytes_def hton_def host_val_def)

lemma ntoh_hton: "0 \<le> x \<Longrightarrow> x < 256 ^ k \<Longrightarrow> ntoh le k (hton le k x) = x"
  by (simp add: ntoh_def hton_bytes val_bytes_le)

lemma bytes_le_mod_inj: "bytes_le k x = bytes_le k y \<Longrightarrow> x mod 256 ^ k = y mod 256 ^ k"
  by (metis val_bytes_le)

lemma bytes_le_small:
  "bytes_le 2 x = [word_of_int x, word_of_int (x div 256)]"
  "bytes_le 4 x = [word_of_int x, word_of_int (x div 256), word_of_int (x div 65536), word_of_int (x div 16777216)]"
  by (simp_all add: numeral_eq_Suc div_mult2_eq [symmetric] zdiv_zmult2_eq [symmetric])

lemma ia_is_set_loop_iff: "ia_is_set_loop bs \<longleftrightarrow> (\<exists>x\<in>set bs. x \<noteq> 0)"
  by (induction bs) auto

lemma ia_create_bytes:
  assumes "0 \<le> addr" "addr < 4294967296" "0 \<le> p" "p < 65536"
  shows "ia_bytes le (ia_create le addr p) =
    host_bytes le 2 AF_INET @ rev (bytes_le 2 p) @ rev (bytes_le 4 addr) @ replicate 8 0"
  using hton_bytes [of addr 4 le] hton_bytes [of p 2 le] assms
  by (simp add: ia_bytes_def ia_create_def ia_zero_def)

lemma ia_create_reads:
  assumes "0 \<le> addr" "addr < 4294967296" "0 \<le> p" "p < 65536"
  shows "ia_address le (ia_create le addr p) = addr" "ia_port le (ia_create le addr p) = p"
  using ntoh_hton [of addr 4 le] ntoh_hton [of p 2 le] assms
  by (simp_all add: ia_address_def ia_port_def ia_create_def ia_zero_def)

lemma ia_create_is_set: "ia_is_set le (ia_create le addr p)"
proof -
  have "2 \<in> set (host_bytes le 2 2)"
    by (simp add: host_bytes_def numeral_2_eq_2)
  then have "2 \<in> set (ia_bytes le (ia_create le addr p))"
    by (simp add: ia_bytes_def ia_create_def AF_INET_def)
  moreover have "(2::byte) \<noteq> 0" by simp
  ultimately show ?thesis unfolding ia_is_set_def ia_is_set_loop_iff by blast
qed

section \<open>Ownership of handles\<close>

text \<open>What the operating system keeps: the handles it has open, and whether a handle was ever
  closed that was not.\<close>

record fdtab =
  ft_open :: "int set"
  ft_bad :: bool

definition fd_close :: "int \<Rightarrow> fdtab \<Rightarrow> fdtab" where
  "fd_close h s = s\<lparr>ft_open := ft_open s - {h}, ft_bad := ft_bad s \<or> h \<notin> ft_open s\<rparr>"

definition fd_fresh :: "int \<times> fdtab \<Rightarrow> fdtab \<Rightarrow> bool" where
  "fd_fresh r s \<longleftrightarrow> fst r = INVALID_SOCKET \<and> snd r = s \<or>
     0 \<le> fst r \<and> fst r \<notin> ft_open s \<and> snd r = s\<lparr>ft_open := insert (fst r) (ft_open s)\<rparr>"

text \<open>\<open>socket\<close> and \<open>accept\<close> return a handle that is not open, or fail with -1.\<close>

definition fd_net :: "fdtab net_os \<Rightarrow> bool" where
  "fd_net nt \<longleftrightarrow> nt_close nt = fd_close \<and> (\<forall>ty pr s. fd_fresh (nt_socket nt ty pr s) s) \<and>
     (\<forall>h s. fd_fresh (nt_accept nt h s) s)"

text \<open>The socket objects of a program, the system, and the handles the program itself holds:
  those released to it, or on their way in a \<open>SocketRef\<close>.\<close>

record sk_cfg =
  sc_objs :: "nat \<rightharpoonup> sock"
  sc_os :: fdtab
  sc_loose :: "int set"

definition sk_claim :: "int \<Rightarrow> sk_cfg \<Rightarrow> bool" where
  "sk_claim h c \<longleftrightarrow> h = INVALID_SOCKET \<or> h \<in> sc_loose c"

text \<open>A program may construct, copy, assign, reset, release, close, open and destroy sockets in
  any order; it hands a socket only handles that are its own to give.\<close>

inductive sk_step :: "sk_cfg \<Rightarrow> sk_cfg \<Rightarrow> bool" where
  sk_new: "sc_objs c i = None \<Longrightarrow> sk_step c (c\<lparr>sc_objs := (sc_objs c)(i \<mapsto> so_ctor)\<rparr>)"
| sk_handle: "sc_objs c i = None \<Longrightarrow> sk_claim h c \<Longrightarrow>
    sk_step c (c\<lparr>sc_objs := (sc_objs c)(i \<mapsto> so_ctor_handle h), sc_loose := sc_loose c - {h}\<rparr>)"
| sk_copy: "sc_objs c i = None \<Longrightarrow> sc_objs c j = Some k \<Longrightarrow> so_ctor_copy k = (n, k') \<Longrightarrow>
    sk_step c (c\<lparr>sc_objs := (sc_objs c)(j \<mapsto> k', i \<mapsto> n)\<rparr>)"
| sk_assign: "sc_objs c i = Some k \<Longrightarrow> sc_objs c j = Some l \<Longrightarrow> i \<noteq> j \<Longrightarrow>
    so_assign fd_close l (k, sc_os c) = (k', l', t) \<Longrightarrow>
    sk_step c (c\<lparr>sc_objs := (sc_objs c)(i \<mapsto> k', j \<mapsto> l'), sc_os := t\<rparr>)"
| sk_reset: "sc_objs c i = Some k \<Longrightarrow> sk_claim h c \<or> h = so_handle k \<Longrightarrow>
    so_reset fd_close h (k, sc_os c) = (k', t) \<Longrightarrow>
    sk_step c (c\<lparr>sc_objs := (sc_objs c)(i \<mapsto> k'), sc_os := t, sc_loose := sc_loose c - {h}\<rparr>)"
| sk_close: "sc_objs c i = Some k \<Longrightarrow> so_close fd_close (k, sc_os c) = (k', t) \<Longrightarrow>
    sk_step c (c\<lparr>sc_objs := (sc_objs c)(i \<mapsto> k'), sc_os := t\<rparr>)"
| sk_release: "sc_objs c i = Some k \<Longrightarrow> so_release k = (h, k') \<Longrightarrow>
    sk_step c (c\<lparr>sc_objs := (sc_objs c)(i \<mapsto> k'), sc_loose := insert h (sc_loose c) - {INVALID_SOCKET}\<rparr>)"
| sk_to_ref: "sc_objs c i = Some k \<Longrightarrow> so_to_ref k = (r, k') \<Longrightarrow>
    sk_step c (c\<lparr>sc_objs := (sc_objs c)(i \<mapsto> k'), sc_loose := insert (ref_sock r) (sc_loose c) - {INVALID_SOCKET}\<rparr>)"
| sk_from_ref: "sc_objs c i = None \<Longrightarrow> sk_claim (ref_sock r) c \<Longrightarrow>
    sk_step c (c\<lparr>sc_objs := (sc_objs c)(i \<mapsto> so_ctor_ref r), sc_loose := sc_loose c - {ref_sock r}\<rparr>)"
| sk_assign_ref: "sc_objs c i = Some k \<Longrightarrow> sk_claim (ref_sock r) c \<Longrightarrow>
    so_assign_ref fd_close r (k, sc_os c) = (k', t) \<Longrightarrow>
    sk_step c (c\<lparr>sc_objs := (sc_objs c)(i \<mapsto> k'), sc_os := t, sc_loose := sc_loose c - {ref_sock r}\<rparr>)"
| sk_open: "fd_net nt \<Longrightarrow> sc_objs c i = Some k \<Longrightarrow> tcp_open nt (k, sc_os c) = (r, k', t) \<Longrightarrow>
    sk_step c (c\<lparr>sc_objs := (sc_objs c)(i \<mapsto> k'), sc_os := t\<rparr>)"
| sk_accept: "fd_net nt \<Longrightarrow> sc_objs c i = None \<Longrightarrow> ac_accept nt a (sc_os c) = (k, t) \<Longrightarrow>
    sk_step c (c\<lparr>sc_objs := (sc_objs c)(i \<mapsto> k), sc_os := t\<rparr>)"
| sk_udp: "fd_net nt \<Longrightarrow> sc_objs c i = None \<Longrightarrow> udp_ctor nt (sc_os c) = (k, t) \<Longrightarrow>
    sk_step c (c\<lparr>sc_objs := (sc_objs c)(i \<mapsto> k), sc_os := t\<rparr>)"
| sk_destroy: "sc_objs c i = Some k \<Longrightarrow>
    sk_step c (c\<lparr>sc_objs := (sc_objs c)(i := None), sc_os := so_dtor fd_close (k, sc_os c)\<rparr>)"

definition sk_start :: sk_cfg where
  "sk_start = \<lparr>sc_objs = (\<lambda>i. None), sc_os = \<lparr>ft_open = {}, ft_bad = False\<rparr>, sc_loose = {}\<rparr>"

inductive sk_reach :: "sk_cfg \<Rightarrow> bool" where
  sk_reach_start: "sk_reach sk_start"
| sk_reach_step: "sk_reach c \<Longrightarrow> sk_step c c' \<Longrightarrow> sk_reach c'"

text \<open>The handle each object has, and the abstract account of ownership: every open handle is
  in exactly one place.\<close>

definition so_owned :: "(nat \<rightharpoonup> sock) \<Rightarrow> nat \<Rightarrow> int" where
  "so_owned objs i = (case objs i of None \<Rightarrow> INVALID_SOCKET | Some k \<Rightarrow> so_handle k)"

definition own_ok :: "('i \<Rightarrow> int) \<Rightarrow> int set \<Rightarrow> int set \<Rightarrow> bool" where
  "own_ok f S L \<longleftrightarrow> (\<forall>i. f i \<noteq> -1 \<longrightarrow> f i \<in> S \<and> f i \<notin> L) \<and> (\<forall>i j. f i = f j \<and> f i \<noteq> -1 \<longrightarrow> i = j) \<and>
     L \<subseteq> S \<and> (\<forall>h\<in>S. 0 \<le> h \<and> (h \<in> L \<or> (\<exists>i. f i = h)))"

named_theorems own_moves \<open>the moves that keep the account of ownership\<close>

lemma own_okI:
  assumes "\<And>i. f i \<noteq> -1 \<Longrightarrow> f i \<in> S \<and> f i \<notin> L" "\<And>i j. f i = f j \<Longrightarrow> f i \<noteq> -1 \<Longrightarrow> i = j" "L \<subseteq> S"
    "\<And>h. h \<in> S \<Longrightarrow> 0 \<le> h" "\<And>h. h \<in> S \<Longrightarrow> h \<notin> L \<Longrightarrow> \<exists>i. f i = h"
  shows "own_ok f S L"
  using assms unfolding own_ok_def by blast

lemma own_okD:
  assumes "own_ok f S L"
  shows "f i \<noteq> -1 \<Longrightarrow> f i \<in> S" "f i \<noteq> -1 \<Longrightarrow> f i \<notin> L" "f i = f j \<Longrightarrow> f i \<noteq> -1 \<Longrightarrow> i = j"
    "h \<in> L \<Longrightarrow> h \<in> S" "h \<in> S \<Longrightarrow> 0 \<le> h" "h \<in> S \<Longrightarrow> h \<notin> L \<Longrightarrow> \<exists>i. f i = h"
  using assms unfolding own_ok_def by blast+

lemma own_drop [own_moves]:
  assumes "own_ok f S L" "f i \<noteq> -1"
  shows "own_ok (f(i := -1)) (S - {f i}) L"
proof (rule own_okI)
  show "(f(i := -1)) k \<in> S - {f i} \<and> (f(i := -1)) k \<notin> L" if "(f(i := -1)) k \<noteq> -1" for k
    using own_okD(1,2) [OF assms(1), of k] own_okD(3) [OF assms(1), of k i] that by (auto split: if_splits)
  show "j = k" if "(f(i := -1)) j = (f(i := -1)) k" "(f(i := -1)) j \<noteq> -1" for j k
    using own_okD(3) [OF assms(1), of j k] that by (auto split: if_splits)
  show "L \<subseteq> S - {f i}" using own_okD(2,4) [OF assms(1)] assms(2) by blast
  show "0 \<le> h" if "h \<in> S - {f i}" for h using own_okD(5) [OF assms(1)] that by blast
  show "\<exists>k. (f(i := -1)) k = h" if h: "h \<in> S - {f i}" "h \<notin> L" for h
  proof -
    obtain k where "f k = h" using own_okD(6) [OF assms(1), of h] h by blast
    then show ?thesis using h(1) by (intro exI [of _ k]) auto
  qed
qed

lemma own_give [own_moves]:
  assumes "own_ok f S L" "f i \<noteq> -1"
  shows "own_ok (f(i := -1)) S (insert (f i) L)"
proof (rule own_okI)
  show "(f(i := -1)) k \<in> S \<and> (f(i := -1)) k \<notin> insert (f i) L" if "(f(i := -1)) k \<noteq> -1" for k
    using own_okD(1,2) [OF assms(1), of k] own_okD(3) [OF assms(1), of k i] that by (auto split: if_splits)
  show "j = k" if "(f(i := -1)) j = (f(i := -1)) k" "(f(i := -1)) j \<noteq> -1" for j k
    using own_okD(3) [OF assms(1), of j k] that by (auto split: if_splits)
  show "insert (f i) L \<subseteq> S" using own_okD(1) [OF assms] own_okD(4) [OF assms(1)] by blast
  show "0 \<le> h" if "h \<in> S" for h using own_okD(5) [OF assms(1)] that by blast
  show "\<exists>k. (f(i := -1)) k = h" if h: "h \<in> S" "h \<notin> insert (f i) L" for h
  proof -
    obtain k where "f k = h" using own_okD(6) [OF assms(1), of h] h by blast
    then show ?thesis using h(2) by (intro exI [of _ k]) auto
  qed
qed

lemma own_gain:
  assumes "own_ok f S L" "f i = -1" "\<And>k. f k \<noteq> h" "0 \<le> h" "S' = insert h S" "L' = L - {h}"
  shows "own_ok (f(i := h)) S' L'"
proof (rule own_okI)
  show "(f(i := h)) k \<in> S' \<and> (f(i := h)) k \<notin> L'" if "(f(i := h)) k \<noteq> -1" for k
    using own_okD(1,2) [OF assms(1), of k] that assms(5,6) by (auto split: if_splits)
  show "j = k" if "(f(i := h)) j = (f(i := h)) k" "(f(i := h)) j \<noteq> -1" for j k
    using own_okD(3) [OF assms(1), of j k] that assms(3) [of j] assms(3) [of k] by (auto split: if_splits)
  show "L' \<subseteq> S'" using own_okD(4) [OF assms(1)] assms(5,6) by blast
  show "0 \<le> g" if "g \<in> S'" for g using own_okD(5) [OF assms(1), of g] that assms(4,5) by blast
  show "\<exists>k. (f(i := h)) k = g" if g: "g \<in> S'" "g \<notin> L'" for g
  proof (cases "g = h")
    case False
    then obtain k where "f k = g" using own_okD(6) [OF assms(1), of g] g assms(5,6) by blast
    then show ?thesis using False assms(2) own_okD(5) [OF assms(1), of g] g(1) assms(5) by (intro exI [of _ k]) auto
  qed auto
qed

lemma own_take [own_moves]:
  assumes "own_ok f S L" "f i = -1" "h \<in> L"
  shows "own_ok (f(i := h)) S (L - {h})"
proof (rule own_gain [OF assms(1,2)])
  have h: "h \<in> S" "0 \<le> h" using own_okD(4,5) [OF assms(1)] assms(3) by blast+
  show "0 \<le> h" "S = insert h S" using h by auto
  show "f k \<noteq> h" for k using own_okD(2) [OF assms(1), of k] assms(3) h(2) by auto
qed auto

lemma own_fresh [own_moves]:
  assumes "own_ok f S L" "f i = -1" "0 \<le> h" "h \<notin> S"
  shows "own_ok (f(i := h)) (insert h S) L"
proof (rule own_gain [OF assms(1,2) _ assms(3)])
  show "f k \<noteq> h" for k using own_okD(1) [OF assms(1), of k] assms(3,4) by auto
  show "L = L - {h}" using own_okD(4) [OF assms(1), of h] assms(4) by auto
qed auto

lemma so_owned_simps [simp]:
  "so_owned (objs(i \<mapsto> k)) = (so_owned objs)(i := so_handle k)"
  "so_owned (objs(i := None)) = (so_owned objs)(i := -1)"
  "objs i = None \<Longrightarrow> so_owned objs i = -1"
  "objs i = Some k \<Longrightarrow> so_owned objs i = so_handle k"
  by (auto simp: so_owned_def INVALID_SOCKET_def fun_eq_iff)

definition skc_inv :: "(nat \<rightharpoonup> sock) \<Rightarrow> fdtab \<Rightarrow> int set \<Rightarrow> bool" where
  "skc_inv objs t L \<longleftrightarrow> \<not> ft_bad t \<and> own_ok (so_owned objs) (ft_open t) L"

lemma skc_inv_same: "skc_inv objs t L \<Longrightarrow> so_owned objs i = so_handle k \<Longrightarrow> skc_inv (objs(i \<mapsto> k)) t L"
  by (simp add: skc_inv_def fun_upd_idem)

lemma skc_inv_release:
  assumes "skc_inv objs t L" "objs i = Some k" "so_release k = (h, k')"
  shows "so_handle k' = -1" "h = so_handle k" "h \<noteq> -1 \<Longrightarrow> skc_inv (objs(i \<mapsto> k')) t (insert h L)"
    "h = -1 \<Longrightarrow> skc_inv (objs(i \<mapsto> k')) t L" "skc_inv (objs(i \<mapsto> k')) t (insert h L - {-1})"
proof -
  show k': "so_handle k' = -1" and h: "h = so_handle k"
    using assms(3) by (auto simp: so_release_def so_handle_def INVALID_SOCKET_def)
  have L: "-1 \<notin> L" using own_okD(4,5) [of "so_owned objs" "ft_open t" L "-1"] assms(1) by (auto simp: skc_inv_def)
  show gone: "skc_inv (objs(i \<mapsto> k')) t (insert h L)" if "h \<noteq> -1"
    using own_give [of "so_owned objs" "ft_open t" L i] assms(1,2) that h k' by (simp add: skc_inv_def)
  show kept: "skc_inv (objs(i \<mapsto> k')) t L" if "h = -1"
    using skc_inv_same [OF assms(1), of i k'] assms(2) that h k' by simp
  show "skc_inv (objs(i \<mapsto> k')) t (insert h L - {-1})"
  proof (cases "h = -1")
    case True
    then have "insert h L - {-1} = L" using L by auto
    then show ?thesis using kept [OF True] by simp
  next
    case False
    then have "insert h L - {-1} = insert h L" using L by auto
    then show ?thesis using gone [OF False] by simp
  qed
qed

lemma skc_inv_close:
  assumes "skc_inv objs t L" "objs i = Some k" "so_close fd_close (k, t) = (k', t')"
  shows "so_handle k' = -1" "skc_inv (objs(i \<mapsto> k')) t' L" "k' = so_ctor"
proof -
  have own: "own_ok (so_owned objs) (ft_open t) L" and nb: "\<not> ft_bad t" using assms(1) by (auto simp: skc_inv_def)
  have "sock_h k = -1 \<or> (0 \<le> sock_h k \<and> sock_h k \<in> ft_open t)"
    using own_okD(1) [OF own, of i] own_okD(5) [OF own, of "sock_h k"] assms(2) by (auto simp: so_handle_def)
  then have "sock_h k' = -1 \<and> skc_inv (objs(i \<mapsto> k')) t' L"
  proof
    assume "sock_h k = -1"
    then have "k' = k" "t' = t" using assms(3) by (auto simp: so_close_def)
    then show ?thesis using skc_inv_same [OF assms(1), of i k] assms(2) \<open>sock_h k = -1\<close> by simp
  next
    assume h: "0 \<le> sock_h k \<and> sock_h k \<in> ft_open t"
    then have "sock_h k' = -1" "t' = fd_close (sock_h k) t"
      using assms(3) by (auto simp: so_close_def so_release_def INVALID_SOCKET_def)
    then show ?thesis using own_drop [OF own, of i] nb h assms(2) by (simp add: skc_inv_def fd_close_def so_handle_def)
  qed
  then show "so_handle k' = -1" "skc_inv (objs(i \<mapsto> k')) t' L" "k' = so_ctor"
    by (auto simp: so_handle_def so_ctor_def INVALID_SOCKET_def)
qed

lemma skc_inv_take:
  assumes "skc_inv objs t L" "so_owned objs i = -1" "h = -1 \<or> h \<in> L" "so_handle k = h"
  shows "skc_inv (objs(i \<mapsto> k)) t (L - {h})"
proof (cases "h = -1")
  case True
  have "h \<notin> L" using own_okD(4,5) [of "so_owned objs" "ft_open t" L "-1"] assms(1) True by (auto simp: skc_inv_def)
  then have "L - {h} = L" by auto
  then show ?thesis using skc_inv_same [OF assms(1), of i k] assms(2,4) True by simp
next
  case False
  then show ?thesis using own_take [of "so_owned objs" "ft_open t" L i h] assms by (simp add: skc_inv_def)
qed

lemma skc_inv_reset:
  assumes "skc_inv objs t L" "objs i = Some k" "h = -1 \<or> h \<in> L \<or> h = so_handle k"
    "so_reset fd_close h (k, t) = (k', t')"
  shows "skc_inv (objs(i \<mapsto> k')) t' (L - {h})" "so_handle k' = h"
proof -
  have own: "own_ok (so_owned objs) (ft_open t) L" using assms(1) by (simp add: skc_inv_def)
  have "skc_inv (objs(i \<mapsto> k')) t' (L - {h}) \<and> so_handle k' = h"
  proof (cases "h = so_handle k")
    case True
    then have "k' = k" "t' = t" using assms(4) by (auto simp: so_reset_def so_handle_def)
    moreover have "h \<notin> L"
      using own_okD(2) [OF own, of i] own_okD(4,5) [OF own, of h] True assms(2) by (cases "h = -1") auto
    ultimately show ?thesis using skc_inv_same [OF assms(1), of i k] assms(2) True by simp
  next
    case False
    obtain k1 where c: "so_close fd_close (k, t) = (k1, t')" "k' = k1\<lparr>sock_h := h\<rparr>"
      using assms(4) False by (auto simp: so_reset_def so_handle_def split: prod.splits)
    have "skc_inv ((objs(i \<mapsto> k1))(i \<mapsto> k')) t' (L - {h})"
      using skc_inv_close(1,2) [OF assms(1,2) c(1)] assms(3) False c(2)
      by (intro skc_inv_take) (auto simp: so_handle_def)
    then show ?thesis using c(2) by (simp add: so_handle_def)
  qed
  then show "skc_inv (objs(i \<mapsto> k')) t' (L - {h})" "so_handle k' = h" by auto
qed

lemma skc_inv_fresh:
  assumes "skc_inv objs t L" "so_owned objs i = -1" "fd_fresh (h, t') t" "so_handle k = h"
  shows "skc_inv (objs(i \<mapsto> k)) t' L"
proof (cases "h = -1")
  case True
  then show ?thesis using skc_inv_same [OF assms(1), of i k] assms by (simp add: fd_fresh_def INVALID_SOCKET_def)
next
  case False
  then show ?thesis using own_fresh [of "so_owned objs" "ft_open t" L i h] assms
    by (simp add: skc_inv_def fd_fresh_def INVALID_SOCKET_def)
qed

text \<open>A released handle that another object takes.\<close>

lemma skc_inv_pass:
  assumes inv: "skc_inv objs t L" and j: "objs j = Some l" "so_release l = (h, l')"
  shows "skc_inv (objs(j \<mapsto> l')) t (if h = -1 then L else insert h L)" "h \<notin> L"
    "(if h = -1 then L else insert h L) - {h} = L"
proof -
  show "skc_inv (objs(j \<mapsto> l')) t (if h = -1 then L else insert h L)"
    using skc_inv_release(3,4) [OF inv j] by auto
  have own: "own_ok (so_owned objs) (ft_open t) L" using inv by (simp add: skc_inv_def)
  show hL: "h \<notin> L"
    using own_okD(2) [OF own, of j] own_okD(4,5) [OF own, of h] skc_inv_release(2) [OF inv j] j(1)
    by (cases "h = -1") auto
  then show "(if h = -1 then L else insert h L) - {h} = L" by auto
qed

lemma skc_inv_copy:
  assumes "skc_inv objs t L" "objs i = None" "objs j = Some k" "so_ctor_copy k = (n, k')"
  shows "skc_inv (objs(j \<mapsto> k', i \<mapsto> n)) t L"
proof -
  obtain h where r: "so_release k = (h, k')" "so_handle n = h"
    using assms(4) by (auto simp: so_ctor_copy_def so_handle_def split: prod.splits)
  have "so_owned (objs(j \<mapsto> k')) i = -1" using assms(2,3) by (auto simp: so_owned_def INVALID_SOCKET_def)
  then show ?thesis
    using skc_inv_take [OF skc_inv_pass(1) [OF assms(1,3) r(1)], of i h n] skc_inv_pass(3) [OF assms(1,3) r(1)] r(2)
    by auto
qed

lemma skc_inv_assign:
  assumes "skc_inv objs t L" "objs i = Some k" "objs j = Some l" "i \<noteq> j"
    "so_assign fd_close l (k, t) = (k', l', t')"
  shows "skc_inv (objs(i \<mapsto> k', j \<mapsto> l')) t' L"
proof -
  obtain h where r: "so_release l = (h, l')" "so_reset fd_close h (k, t) = (k', t')"
    using assms(5) by (auto simp: so_assign_def split: prod.splits)
  have "(objs(j \<mapsto> l')) i = Some k" using assms(2,4) by simp
  then have "skc_inv (objs(j \<mapsto> l', i \<mapsto> k')) t' ((if h = -1 then L else insert h L) - {h})"
    using skc_inv_reset(1) [OF skc_inv_pass(1) [OF assms(1,3) r(1)] _ _ r(2)] by auto
  then show ?thesis using skc_inv_pass(3) [OF assms(1,3) r(1)] assms(4) by (simp add: fun_upd_twist)
qed

lemma skc_inv_open:
  assumes "skc_inv objs t L" "fd_net nt" "objs i = Some k" "tcp_open nt (k, t) = (r, k', t')"
  shows "skc_inv (objs(i \<mapsto> k')) t' L"
proof (cases "so_is_open k")
  case True
  then have "k' = k" "t' = t" using assms(4) by (auto simp: tcp_open_def)
  then show ?thesis using assms(1,3) skc_inv_same by simp
next
  case False
  obtain h t1 where c: "nt_socket nt 1 6 t = (h, t1)" by fastforce
  then have "so_reset fd_close h (k, t1) = (k', t')"
    using assms(2,4) False by (auto simp: tcp_open_def tcp_create_def fd_net_def split: prod.splits)
  moreover have "so_handle k = -1" using False by (simp add: so_is_open_def so_handle_def INVALID_SOCKET_def)
  ultimately have "t' = t1" "so_handle k' = h"
    by (auto simp: so_reset_def so_close_def so_handle_def split: if_splits)
  moreover have "fd_fresh (h, t1) t" using assms(2) c by (metis fd_net_def)
  ultimately show ?thesis using skc_inv_fresh [OF assms(1), of i h t1 k'] assms(3) \<open>so_handle k = -1\<close> by simp
qed

lemma skc_inv_destroy:
  assumes "skc_inv objs t L" "objs i = Some k"
  shows "skc_inv (objs(i := None)) (so_dtor fd_close (k, t)) L"
proof -
  obtain k' t' where c: "so_close fd_close (k, t) = (k', t')" by fastforce
  then show ?thesis using skc_inv_close(1,2) [OF assms c] by (simp add: so_dtor_def skc_inv_def)
qed

lemma sk_claim_iff: "sk_claim h c \<longleftrightarrow> h = -1 \<or> h \<in> sc_loose c"
  by (simp add: sk_claim_def INVALID_SOCKET_def)

lemma skc_inv_handle:
  "skc_inv objs t L \<Longrightarrow> objs i = None \<Longrightarrow> h = -1 \<or> h \<in> L \<Longrightarrow> skc_inv (objs(i \<mapsto> so_ctor_handle h)) t (L - {h})"
  by (simp add: skc_inv_take so_ctor_handle_def so_handle_def)

lemma skc_inv_new: "skc_inv objs t L \<Longrightarrow> objs i = None \<Longrightarrow> skc_inv (objs(i \<mapsto> so_ctor)) t L"
  by (rule skc_inv_same) (auto simp: so_ctor_def so_handle_def INVALID_SOCKET_def)

lemma skc_inv_accept:
  assumes "skc_inv objs t L" "objs i = None" "fd_net nt" "ac_accept nt a t = (k, t')"
  shows "skc_inv (objs(i \<mapsto> k)) t' L"
proof -
  obtain h where "nt_accept nt (so_handle (ac_sock a)) t = (h, t')" "so_handle k = h"
    using assms(4) by (auto simp: ac_accept_def tcp_ctor_handle_def so_ctor_handle_def so_handle_def split: prod.splits)
  moreover from this assms(3) have "fd_fresh (h, t') t" by (metis fd_net_def)
  ultimately show ?thesis using assms(1,2) by (simp add: skc_inv_fresh)
qed

lemma skc_inv_udp:
  assumes "skc_inv objs t L" "objs i = None" "fd_net nt" "udp_ctor nt t = (k, t')"
  shows "skc_inv (objs(i \<mapsto> k)) t' L"
proof -
  obtain h where "nt_socket nt 2 17 t = (h, t')" "so_handle k = h"
    using assms(4) by (auto simp: udp_ctor_def udp_create_def so_ctor_handle_def so_handle_def split: prod.splits)
  moreover from this assms(3) have "fd_fresh (h, t') t" by (metis fd_net_def)
  ultimately show ?thesis using assms(1,2) by (simp add: skc_inv_fresh)
qed

lemma sk_step_inv:
  assumes "sk_step c c'" "skc_inv (sc_objs c) (sc_os c) (sc_loose c)"
  shows "skc_inv (sc_objs c') (sc_os c') (sc_loose c')"
  using assms
proof (induction rule: sk_step.induct)
  case (sk_new c i)
  then show ?case using skc_inv_new [OF sk_new(2,1)] by (simp add: fun_upd_def)
next
  case (sk_handle c i h)
  then show ?case using skc_inv_handle [OF sk_handle(3,1)] by (simp add: sk_claim_iff fun_upd_def)
next
  case (sk_copy c i j k n k')
  show ?case using skc_inv_copy [OF sk_copy(4,1-3)] by (simp add: fun_upd_def)
next
  case (sk_assign c i k j l k' l' t)
  show ?case using skc_inv_assign [OF sk_assign(5,1-4)] by (simp add: fun_upd_def)
next
  case (sk_reset c i k h k' t)
  then show ?case using skc_inv_reset(1) [OF sk_reset(4,1) _ sk_reset(3)] by (simp add: sk_claim_iff fun_upd_def disj_ac)
next
  case (sk_close c i k k' t)
  show ?case using skc_inv_close(2) [OF sk_close(3,1,2)] by (simp add: fun_upd_def)
next
  case (sk_release c i k h k')
  show ?case using skc_inv_release(5) [OF sk_release(3,1,2)] by (simp add: INVALID_SOCKET_def fun_upd_def)
next
  case (sk_to_ref c i k r k')
  then have "so_release k = (ref_sock r, k')" by (auto simp: so_to_ref_def split: prod.splits)
  then show ?case using skc_inv_release(5) [OF sk_to_ref(3,1)] by (simp add: INVALID_SOCKET_def fun_upd_def)
next
  case (sk_from_ref c i r)
  then show ?case using skc_inv_handle [OF sk_from_ref(3,1)]
    by (simp add: sk_claim_iff so_ctor_ref_def so_ctor_handle_def fun_upd_def)
next
  case (sk_assign_ref c i k r k' t)
  then have "so_reset fd_close (ref_sock r) (k, sc_os c) = (k', t)" by (simp add: so_assign_ref_def)
  then show ?case using skc_inv_reset(1) [OF sk_assign_ref(4,1), of "ref_sock r" k' t] sk_assign_ref(2)
    by (auto simp: sk_claim_iff fun_upd_def)
next
  case (sk_open nt c i k r k' t)
  show ?case using skc_inv_open [OF sk_open(4,1-3)] by (simp add: fun_upd_def)
next
  case (sk_accept nt c i a k t)
  show ?case using skc_inv_accept [OF sk_accept(4,2,1,3)] by (simp add: fun_upd_def)
next
  case (sk_udp nt c i k t)
  show ?case using skc_inv_udp [OF sk_udp(4,2,1,3)] by (simp add: fun_upd_def)
next
  case (sk_destroy c i k)
  show ?case using skc_inv_destroy [OF sk_destroy(2,1)] by (simp add: fun_upd_def)
qed

lemma sk_reach_inv: "sk_reach c \<Longrightarrow> skc_inv (sc_objs c) (sc_os c) (sc_loose c)"
proof (induction rule: sk_reach.induct)
  case sk_reach_start
  then show ?case
    by (simp add: sk_start_def skc_inv_def own_ok_def so_owned_def INVALID_SOCKET_def)
qed (rule sk_step_inv)

section \<open>Transfers over TCP\<close>

text \<open>What POSIX says of \<open>recv\<close> and \<open>send\<close>: a count that is not more than was asked for, with
  that many bytes stored, or -1.\<close>

definition sys_read_ok :: "'s sys_read \<Rightarrow> int \<Rightarrow> bool" where
  "sys_read_ok rdf fd \<longleftrightarrow> (\<forall>n s. 0 < n \<longrightarrow>
     (\<exists>r bs s'. rdf fd n s = (r, bs, s') \<and> -1 \<le> r \<and> r \<le> n \<and> length bs = nat r))"

definition sys_write_ok :: "'s sys_write \<Rightarrow> int \<Rightarrow> bool" where
  "sys_write_ok wrf fd \<longleftrightarrow> (\<forall>bs s. -1 \<le> fst (wrf fd bs s) \<and> fst (wrf fd bs s) \<le> int (length bs))"

lemma sys_read_okD:
  "sys_read_ok rdf fd \<Longrightarrow> 0 < n \<Longrightarrow> \<exists>r bs s'. rdf fd n s = (r, bs, s') \<and> -1 \<le> r \<and> r \<le> n \<and> length bs = nat r"
  by (simp add: sys_read_ok_def)

lemma tcp_rn_buf_loop_eq:
  assumes "sys_read_ok (nt_recv nt) (so_handle k)" "bf_inv b m" "0 \<le> nr" "nr + (bf_lim b - bf_pos b) < 2147483648"
    "nr = 0 \<Longrightarrow> nx = 0"
  shows "\<exists>n bs s'. rn_loop (nt_recv nt) (so_handle k) (nr + (bf_lim b - bf_pos b)) nr nx acc s = (n, acc @ bs, s') \<and>
    int (length bs) \<le> bf_lim b - bf_pos b \<and>
    (if nr + int (length bs) = 0 then n \<le> 0 else n = nr + int (length bs)) \<and>
    tcp_rn_buf_loop nt k nr nx b s m = Some (n, b\<lparr>bf_pos := bf_pos b + int (length bs)\<rparr>, s', put_at (bf_pos b) bs m)"
  using assms
proof (induction "nat (bf_lim b - bf_pos b)" arbitrary: b m nr nx acc s rule: less_induct)
  case less
  let ?n = "bf_lim b - bf_pos b" and ?rd = "nt_recv nt" and ?fd = "so_handle k"
  have le: "0 \<le> ?n" using less.prems(2) by (simp add: bf_inv_def)
  show ?case
  proof (cases "?n = 0")
    case True
    then show ?thesis using less.prems(3-5)
      by (intro exI [of _ nr] exI [of _ "[]"] exI [of _ s])
        (auto simp: rn_loop.simps tcp_rn_buf_loop.simps bf_full_def)
  next
    case False
    then have pos: "0 < ?n" using le by simp
    obtain r bs s1 where r: "?rd ?fd ?n s = (r, bs, s1)" "-1 \<le> r" "r \<le> ?n" "length bs = nat r"
      using sys_read_okD [OF less.prems(1) pos] by metis
    have s32r: "s32 r = r" using r(2,3) less.prems(3,4) by simp
    have live: "live_range m (bf_pos b) (int (length bs))"
      using bf_live [OF less.prems(2), of "bf_pos b" "int (length bs)"] less.prems(2) r(3,4) le by (simp add: bf_inv_def)
    have av: "bf_available b = ?n" using bf_sizes(4) [OF less.prems(2)] .
    have once: "tcp_rn_buf_loop nt k nr nx b s m =
        (if r \<le> 0 then Some (if nr = 0 \<and> r < 0 then r else s32 nr, b, s1, put_at (bf_pos b) bs m)
         else tcp_rn_buf_loop nt k (nr + r) r (bf_incr_position r b) s1 (put_at (bf_pos b) bs m))"
      using False by (subst tcp_rn_buf_loop.simps)
        (simp add: bf_full_def tcp_read_def av r(1) s32r bf_position_ptr_def wr_list_put_at [OF live])
    have rn: "rn_loop ?rd ?fd (nr + ?n) nr nx acc s =
        (if r \<le> 0 then (if nr = 0 then r else s32 nr, acc, s1)
         else rn_loop ?rd ?fd (nr + ?n) (nr + r) r (acc @ bs) s1)"
      using pos by (subst rn_loop.simps) (simp add: r(1))
    show ?thesis
    proof (cases "r \<le> 0")
      case True
      then have "bs = []" using r(4) by simp
      then show ?thesis using True once rn less.prems(3,4) r(2) le
        by (intro exI [of _ "if nr = 0 then r else s32 nr"] exI [of _ "[]"] exI [of _ s1]) auto
    next
      case False
      let ?b = "bf_incr_position r b" and ?m = "put_at (bf_pos b) bs m"
      have inv: "bf_inv ?b ?m"
        using less.prems(2) r(3) False by (simp add: bf_inv_def bf_incr_position_def)
      have d: "bf_lim ?b - bf_pos ?b = ?n - r" by (simp add: bf_incr_position_def)
      have "\<exists>n cs s'. rn_loop ?rd ?fd (nr + r + (bf_lim ?b - bf_pos ?b)) (nr + r) r (acc @ bs) s1 = (n, (acc @ bs) @ cs, s') \<and>
          int (length cs) \<le> bf_lim ?b - bf_pos ?b \<and>
          (if nr + r + int (length cs) = 0 then n \<le> 0 else n = nr + r + int (length cs)) \<and>
          tcp_rn_buf_loop nt k (nr + r) r ?b s1 ?m =
            Some (n, ?b\<lparr>bf_pos := bf_pos ?b + int (length cs)\<rparr>, s', put_at (bf_pos ?b) cs ?m)"
        using False pos r(3) less.prems(1,3,4) d by (intro less.hyps inv) auto
      then obtain n cs s' where IH: "rn_loop ?rd ?fd (nr + ?n) (nr + r) r (acc @ bs) s1 = (n, (acc @ bs) @ cs, s')"
          "int (length cs) \<le> ?n - r" "n = nr + r + int (length cs)"
          "tcp_rn_buf_loop nt k (nr + r) r ?b s1 ?m =
            Some (n, ?b\<lparr>bf_pos := bf_pos ?b + int (length cs)\<rparr>, s', put_at (bf_pos ?b) cs ?m)"
        using d False less.prems(3) by (auto split: if_splits)
      have "put_at (bf_pos ?b) cs ?m = put_at (bf_pos b) (bs @ cs) m"
        using put_at_append [of "bf_pos b" bs cs m] r(4) False by (simp add: bf_incr_position_def)
      then show ?thesis using IH once rn False r(4) less.prems(3)
        by (intro exI [of _ n] exI [of _ "bs @ cs"] exI [of _ s']) (auto simp: bf_incr_position_def algebra_simps)
    qed
  qed
qed

lemma sys_write_okD: "sys_write_ok wrf fd \<Longrightarrow> wrf fd bs s = (r, s') \<Longrightarrow> -1 \<le> r \<and> r \<le> int (length bs)"
  unfolding sys_write_ok_def by (metis fst_conv)

lemma tcp_wn_buf_loop_eq:
  assumes "sys_write_ok (nt_send nt) (so_handle k)" "bf_inv b m" "0 \<le> nw" "nw + (bf_lim b - bf_pos b) < 2147483648"
    "nw = 0 \<Longrightarrow> nx = 0" "nw = int (length pre)"
  shows "\<exists>n j s'. wn_loop (nt_send nt) (so_handle k) (pre @ bf_rest b m) nw nx s = (n, s') \<and>
    0 \<le> j \<and> j \<le> bf_lim b - bf_pos b \<and> (if nw + j = 0 then n \<le> 0 else n = nw + j) \<and>
    tcp_wn_buf_loop nt k nw nx b s m = Some (n, b\<lparr>bf_pos := bf_pos b + j\<rparr>, s')"
  using assms
proof (induction "nat (bf_lim b - bf_pos b)" arbitrary: b nw nx pre s rule: less_induct)
  case less
  let ?n = "bf_lim b - bf_pos b" and ?wr = "nt_send nt" and ?fd = "so_handle k"
  have le: "0 \<le> ?n" using less.prems(2) by (simp add: bf_inv_def)
  have len: "int (length (bf_rest b m)) = ?n" using le by (simp add: bf_rest_def)
  show ?case
  proof (cases "?n = 0")
    case True
    then have "wn_loop ?wr ?fd (pre @ bf_rest b m) nw nx s = (nw, s)"
      using len less.prems(3-6) by (subst wn_loop.simps) auto
    then show ?thesis using True less.prems(3-5)
      by (intro exI [of _ nw] exI [of _ 0] exI [of _ s]) (auto simp: tcp_wn_buf_loop.simps bf_empty_def)
  next
    case False
    then have pos: "0 < ?n" using le by simp
    obtain r s1 where r: "?wr ?fd (bf_rest b m) s = (r, s1)" by fastforce
    then have rb: "-1 \<le> r" "r \<le> ?n" using sys_write_okD [OF less.prems(1) r] len by auto
    have s32r: "s32 r = r" using rb less.prems(3,4) by simp
    have av: "bf_available b = ?n" using bf_sizes(4) [OF less.prems(2)] .
    have "live_range m (bf_pos b) (int (nat ?n))"
      using bf_live [OF less.prems(2), of "bf_pos b" ?n] less.prems(2) le by (simp add: bf_inv_def)
    then have rd: "rd_list m (bf_pos b) (nat ?n) = Some (bf_rest b m)"
      using rd_list_cells [of m "bf_pos b" "nat ?n"] le by (simp add: bf_rest_def)
    have once: "tcp_wn_buf_loop nt k nw nx b s m =
        (if r \<le> 0 then Some (if nw = 0 \<and> r < 0 then r else s32 nw, b, s1)
         else tcp_wn_buf_loop nt k (nw + r) r (bf_incr_position r b) s1 m)"
      using False by (subst tcp_wn_buf_loop.simps)
        (simp add: bf_empty_def tcp_write_def av r s32r bf_position_ptr_def rd)
    have wn: "wn_loop ?wr ?fd (pre @ bf_rest b m) nw nx s =
        (if r \<le> 0 then (if nw = 0 then r else s32 nw, s1)
         else wn_loop ?wr ?fd (pre @ bf_rest b m) (nw + r) r s1)"
      using pos len less.prems(6) by (subst wn_loop.simps) (simp add: r)
    show ?thesis
    proof (cases "r \<le> 0")
      case True
      then show ?thesis using once wn less.prems(3,4) le
        by (intro exI [of _ "if nw = 0 then r else s32 nw"] exI [of _ 0] exI [of _ s1]) auto
    next
      case False
      let ?b = "bf_incr_position r b" and ?pre = "pre @ take (nat r) (bf_rest b m)"
      have inv: "bf_inv ?b m" using less.prems(2) rb(2) False by (simp add: bf_inv_def bf_incr_position_def)
      have d: "bf_lim ?b - bf_pos ?b = ?n - r" by (simp add: bf_incr_position_def)
      have rest: "?pre @ bf_rest ?b m = pre @ bf_rest b m"
        using cells_append [of r ?n m "bf_pos b"] False rb(2)
        by (simp add: bf_rest_def bf_incr_position_def diff_diff_eq)
      have "\<exists>n j s'. wn_loop ?wr ?fd (?pre @ bf_rest ?b m) (nw + r) r s1 = (n, s') \<and>
          0 \<le> j \<and> j \<le> bf_lim ?b - bf_pos ?b \<and> (if nw + r + j = 0 then n \<le> 0 else n = nw + r + j) \<and>
          tcp_wn_buf_loop nt k (nw + r) r ?b s1 m = Some (n, ?b\<lparr>bf_pos := bf_pos ?b + j\<rparr>, s')"
        using False pos rb len less.prems(1,3,4,6) d by (intro less.hyps inv) auto
      then obtain n j s' where "wn_loop ?wr ?fd (pre @ bf_rest b m) (nw + r) r s1 = (n, s')"
          "0 \<le> j" "j \<le> ?n - r" "n = nw + r + j"
          "tcp_wn_buf_loop nt k (nw + r) r ?b s1 m = Some (n, ?b\<lparr>bf_pos := bf_pos ?b + j\<rparr>, s')"
        using d False less.prems(3) unfolding rest by (auto split: if_splits)
      then show ?thesis using once wn False less.prems(3)
        by (intro exI [of _ n] exI [of _ "r + j"] exI [of _ s']) (auto simp: bf_incr_position_def algebra_simps)
    qed
  qed
qed

lemma tcp_rn_loop_eq:
  "sys_read_ok (nt_recv nt) (so_handle k) \<Longrightarrow> 0 \<le> nr \<Longrightarrow> n < 2147483648 \<Longrightarrow> (nr = 0 \<Longrightarrow> nx = 0) \<Longrightarrow>
    tcp_rn_loop nt k n nr nx acc s = rn_loop (nt_recv nt) (so_handle k) n nr nx acc s"
proof (induction nt k n nr nx acc s rule: tcp_rn_loop.induct)
  case (1 nt k n nr nx acc s)
  show ?case
  proof (cases "nr < n")
    case True
    obtain r bs s1 where r: "nt_recv nt (so_handle k) (n - nr) s = (r, bs, s1)" "-1 \<le> r" "r \<le> n - nr"
      using sys_read_okD [OF 1(2), of "n - nr" s] True by auto
    then have tr: "tcp_read nt k (n - nr) s = (r, bs, s1)" using 1(3,4) by (simp add: tcp_read_def)
    have "tcp_rn_loop nt k n (nr + r) r (acc @ bs) s1 = rn_loop (nt_recv nt) (so_handle k) n (nr + r) r (acc @ bs) s1"
      if "\<not> r \<le> 0"
      using 1(1) [OF True tr [symmetric] refl refl that 1(2) _ 1(4)] 1(3) that by simp
    then show ?thesis using True r tr 1(3)
      by (subst tcp_rn_loop.simps, subst rn_loop.simps) auto
  next
    case False
    then show ?thesis using 1(3,5) by (subst tcp_rn_loop.simps, subst rn_loop.simps) auto
  qed
qed

lemma tcp_wn_loop_eq:
  "sys_write_ok (nt_send nt) (so_handle k) \<Longrightarrow> 0 \<le> nw \<Longrightarrow> length bs < 2147483648 \<Longrightarrow> (nw = 0 \<Longrightarrow> nx = 0) \<Longrightarrow>
    tcp_wn_loop nt k bs nw nx s = wn_loop (nt_send nt) (so_handle k) bs nw nx s"
proof (induction nt k bs nw nx s rule: tcp_wn_loop.induct)
  case (1 nt k bs nw nx s)
  show ?case
  proof (cases "nw < int (length bs)")
    case True
    obtain r s1 where r: "nt_send nt (so_handle k) (drop (nat nw) bs) s = (r, s1)" by fastforce
    then have rb: "-1 \<le> r" "r < 2147483648" using sys_write_okD [OF 1(2) r] 1(4) by auto
    then have tw: "tcp_write nt k (drop (nat nw) bs) s = (r, s1)" using r by (simp add: tcp_write_def)
    have "tcp_wn_loop nt k bs (nw + r) r s1 = wn_loop (nt_send nt) (so_handle k) bs (nw + r) r s1" if "\<not> r \<le> 0"
      using 1(1) [OF True tw [symmetric] refl that 1(2) _ 1(4)] 1(3) that by simp
    then show ?thesis using True r tw 1(3)
      by (subst tcp_wn_loop.simps, subst wn_loop.simps) auto
  next
    case False
    then show ?thesis using 1(3,5) by (subst tcp_wn_loop.simps, subst wn_loop.simps) auto
  qed
qed

section \<open>A network for examples\<close>

text \<open>Sockets over the device that moves two bytes at a time.\<close>

definition slow_net :: "(byte list \<times> byte list) net_os" where
  "slow_net = \<lparr>nt_socket = (\<lambda>ty pr s. (3, s)), nt_close = (\<lambda>h s. s), nt_setsockopt = (\<lambda>h n v s. (0, s)),
     nt_bind = (\<lambda>h a s. (0, s)), nt_listen = (\<lambda>h n s. (0, s)), nt_accept = (\<lambda>h s. (4, s)),
     nt_connect = (\<lambda>h a s. (0, s)), nt_recv = slow_read, nt_send = slow_write,
     nt_sendto = (\<lambda>h bs a s. (-1, s)), nt_recvfrom = (\<lambda>h n s. (-1, [], ia_zero, s))\<rparr>"

text \<open>A system with two handles to give, on which connecting fails.\<close>

definition two_handles :: "fdtab \<Rightarrow> int \<times> fdtab" where
  "two_handles s = (if 3 \<notin> ft_open s then (3, s\<lparr>ft_open := insert 3 (ft_open s)\<rparr>)
     else if 4 \<notin> ft_open s then (4, s\<lparr>ft_open := insert 4 (ft_open s)\<rparr>) else (-1, s))"

definition fd_demo_net :: "fdtab net_os" where
  "fd_demo_net = \<lparr>nt_socket = (\<lambda>ty pr. two_handles), nt_close = fd_close, nt_setsockopt = (\<lambda>h n v s. (0, s)),
     nt_bind = (\<lambda>h a s. (0, s)), nt_listen = (\<lambda>h n s. (0, s)), nt_accept = (\<lambda>h. two_handles),
     nt_connect = (\<lambda>h a s. (-1, s)), nt_recv = (\<lambda>h n s. (-1, [], s)), nt_send = (\<lambda>h bs s. (-1, s)),
     nt_sendto = (\<lambda>h bs a s. (-1, s)), nt_recvfrom = (\<lambda>h n s. (-1, [], ia_zero, s))\<rparr>"

lemma slow_net_ok:
  "sys_read_ok (nt_recv slow_net) fd" "sys_write_ok (nt_send slow_net) fd"
  by (auto simp: sys_read_ok_def sys_write_ok_def slow_net_def slow_read_def slow_write_def Let_def)

lemma fd_demo_net_ok: "fd_net fd_demo_net"
  by (auto simp: fd_net_def fd_demo_net_def fd_fresh_def two_handles_def INVALID_SOCKET_def)

section \<open>Properties\<close>

text \<open>An address made of a host number and a port holds both in network order, the family
  before them and zeros behind, on a host of either byte order: it reads back as what it was made
  of, it counts as set, and two addresses compare equal exactly when they agree on both.\<close>

theorem inet_addr_network_order:
  assumes "0 \<le> addr" "addr < 4294967296" "0 \<le> p" "p < 65536"
    and "0 \<le> addr'" "addr' < 4294967296" "0 \<le> p'" "p' < 65536"
  shows "ia_bytes le (ia_create le addr p) =
      host_bytes le 2 AF_INET @ rev (bytes_le 2 p) @ rev (bytes_le 4 addr) @ replicate 8 0 \<and>
    ia_address le (ia_create le addr p) = addr \<and> ia_port le (ia_create le addr p) = p \<and>
    ia_is_set le (ia_create le addr p) \<and>
    (ia_eq le (ia_create le addr p) (ia_create le addr' p') \<longleftrightarrow> addr = addr' \<and> p = p')"
proof -
  note bs = ia_create_bytes [OF assms(1-4)] ia_create_bytes [OF assms(5-8)]
  have "p = p'" if "bytes_le 2 p = bytes_le 2 p'"
    using assms(3,4,7,8) bytes_le_mod_inj [OF that] by simp
  moreover have "addr = addr'" if "bytes_le 4 addr = bytes_le 4 addr'"
    using assms(1,2,5,6) bytes_le_mod_inj [OF that] by simp
  ultimately have "ia_eq le (ia_create le addr p) (ia_create le addr' p') \<longleftrightarrow> addr = addr' \<and> p = p'"
    by (auto simp: ia_eq_def bs)
  then show ?thesis using bs(1) ia_create_reads [OF assms(1-4)] ia_create_is_set by blast
qed

theorem inet_addr_network_order_witness:
  "ia_bytes True (ia_create True 2130706433 80) = [2, 0, 0, 80, 127, 0, 0, 1] @ replicate 8 0 \<and>
   ia_port True (ia_create True 2130706433 80) = 80 \<and>
   \<not> ia_eq True (ia_create True 2130706433 80) (ia_create True 2130706433 81)"
  using inet_addr_network_order [of 2130706433 80 2130706433 81 True]
  by (simp add: host_bytes_def AF_INET_def bytes_le_small)


text \<open>A run in which a socket is opened, copied and destroyed: its copy has the handle.\<close>

lemma sk_demo_reach:
  "sk_reach \<lparr>sc_objs = [1 \<mapsto> \<lparr>sock_h = 3\<rparr>], sc_os = \<lparr>ft_open = {3}, ft_bad = False\<rparr>, sc_loose = {}\<rparr>"
proof -
  let ?t = "\<lparr>ft_open = {3}, ft_bad = False\<rparr>"
  let ?c1 = "\<lparr>sc_objs = [0 \<mapsto> so_ctor], sc_os = \<lparr>ft_open = {}, ft_bad = False\<rparr>, sc_loose = {}\<rparr>"
  let ?c2 = "\<lparr>sc_objs = [0 \<mapsto> \<lparr>sock_h = 3\<rparr>], sc_os = ?t, sc_loose = {}\<rparr>"
  let ?c3 = "\<lparr>sc_objs = [0 \<mapsto> so_ctor, 1 \<mapsto> \<lparr>sock_h = 3\<rparr>], sc_os = ?t, sc_loose = {}\<rparr>"
  have 1: "sk_step sk_start ?c1"
    using sk_new [of sk_start 0] by (simp add: sk_start_def)
  have "tcp_open fd_demo_net (so_ctor, \<lparr>ft_open = {}, ft_bad = False\<rparr>) = (0, \<lparr>sock_h = 3\<rparr>, ?t)"
    by (simp add: tcp_open_def tcp_create_def fd_demo_net_def two_handles_def so_is_open_def so_ctor_def
        INVALID_SOCKET_def so_reset_def so_close_def)
  then have 2: "sk_step ?c1 ?c2"
    using sk_open [OF fd_demo_net_ok, of ?c1 0 so_ctor 0 "\<lparr>sock_h = 3\<rparr>" ?t] by simp
  have "so_ctor_copy \<lparr>sock_h = 3\<rparr> = (\<lparr>sock_h = 3\<rparr>, so_ctor)"
    by (simp add: so_ctor_copy_def so_release_def so_ctor_def)
  then have 3: "sk_step ?c2 ?c3"
    using sk_copy [of ?c2 1 0 "\<lparr>sock_h = 3\<rparr>" "\<lparr>sock_h = 3\<rparr>" so_ctor] by (simp add: fun_upd_twist)
  have "so_dtor fd_close (so_ctor, ?t) = ?t" by (simp add: so_dtor_def so_close_def so_ctor_def INVALID_SOCKET_def)
  then have 4: "sk_step ?c3 \<lparr>sc_objs = [1 \<mapsto> \<lparr>sock_h = 3\<rparr>], sc_os = ?t, sc_loose = {}\<rparr>"
    using sk_destroy [of ?c3 0 so_ctor] by (simp add: fun_upd_twist fun_upd_idem)
  show ?thesis by (rule sk_reach_step [OF _ 4], rule sk_reach_step [OF _ 3], rule sk_reach_step [OF _ 2],
    rule sk_reach_step [OF sk_reach_start 1])
qed


text \<open>C36: \<open>TcpSocket\<close> has loops of its own for whole transfers; they agree with those of
  \<open>DeviceBase\<close> in result, buffer, memory and connection, on the arrays and on the buffers, for
  every behaviour of \<open>recv\<close> and \<open>send\<close>: short counts, errors at any point, and the end of the
  stream. In particular they end.\<close>

theorem tcp_transfers_are_device_transfers:
  assumes "sys_read_ok (nt_recv nt) (so_handle k)" "sys_write_ok (nt_send nt) (so_handle k)"
    and "bf_inv b m" "bf_available b < 2147483648" "n < 2147483648" "length bs < 2147483648"
  shows "tcp_read_n nt k n s = dv_read_n (nt_recv nt) (so_handle k) n s \<and>
    tcp_write_n nt k bs s = dv_write_n (nt_send nt) (so_handle k) bs s \<and>
    tcp_read_n_buf nt k b s m = dv_read_n_buf (nt_recv nt) (so_handle k) b s m \<and> tcp_read_n_buf nt k b s m \<noteq> None \<and>
    tcp_write_n_buf nt k b s m = dv_write_n_buf (nt_send nt) (so_handle k) b s m \<and> tcp_write_n_buf nt k b s m \<noteq> None"
proof -
  let ?n = "bf_lim b - bf_pos b"
  have av: "bf_available b = ?n" "0 \<le> ?n" using bf_sizes(4) [OF assms(3)] assms(3) by (auto simp: bf_inv_def)
  have 1: "tcp_read_n nt k n s = dv_read_n (nt_recv nt) (so_handle k) n s"
    using assms(1,5) by (simp add: tcp_read_n_def dv_read_n_def tcp_rn_loop_eq)
  have 2: "tcp_write_n nt k bs s = dv_write_n (nt_send nt) (so_handle k) bs s"
    using assms(2,6) by (simp add: tcp_write_n_def dv_write_n_def tcp_wn_loop_eq)
  obtain r cs s' where rd: "rn_loop (nt_recv nt) (so_handle k) ?n 0 0 [] s = (r, cs, s')" "int (length cs) \<le> ?n"
      "if int (length cs) = 0 then r \<le> 0 else r = int (length cs)"
      "tcp_rn_buf_loop nt k 0 0 b s m = Some (r, b\<lparr>bf_pos := bf_pos b + int (length cs)\<rparr>, s', put_at (bf_pos b) cs m)"
    using tcp_rn_buf_loop_eq [OF assms(1,3), of 0 0 "[]" s] assms(4) av by auto
  have "live_range m (bf_pos b) (int (length cs))"
    using bf_live [OF assms(3), of "bf_pos b" "int (length cs)"] assms(3) rd(2) by (simp add: bf_inv_def)
  then have 3: "tcp_read_n_buf nt k b s m = dv_read_n_buf (nt_recv nt) (so_handle k) b s m \<and> tcp_read_n_buf nt k b s m \<noteq> None"
    using rd(1,3,4) av by (cases "cs = []")
      (auto simp: tcp_read_n_buf_def dv_read_n_buf_def dv_read_n_def bf_position_ptr_def wr_list_put_at bf_incr_position_def)
  obtain w j t where wr: "wn_loop (nt_send nt) (so_handle k) (bf_rest b m) 0 0 s = (w, t)" "0 \<le> j" "j \<le> ?n"
      "if j = 0 then w \<le> 0 else w = j" "tcp_wn_buf_loop nt k 0 0 b s m = Some (w, b\<lparr>bf_pos := bf_pos b + j\<rparr>, t)"
    using tcp_wn_buf_loop_eq [OF assms(2,3), of 0 0 "[]" s] assms(4) av by auto
  have "live_range m (bf_pos b) (int (nat ?n))"
    using bf_live [OF assms(3), of "bf_pos b" ?n] assms(3) av by (simp add: bf_inv_def)
  then have "rd_list m (bf_pos b) (nat ?n) = Some (bf_rest b m)"
    using rd_list_cells [of m "bf_pos b" "nat ?n"] av by (simp add: bf_rest_def)
  then have "tcp_write_n_buf nt k b s m = dv_write_n_buf (nt_send nt) (so_handle k) b s m \<and> tcp_write_n_buf nt k b s m \<noteq> None"
    using wr av by (cases "j = 0")
      (auto simp: tcp_write_n_buf_def dv_write_n_buf_def dv_write_n_def bf_position_ptr_def bf_incr_position_def)
  then show ?thesis using 1 2 3 by blast
qed

theorem tcp_transfers_are_device_transfers_witness:
  "tcp_read_n_buf slow_net so_ctor (bf_demo 3 8 1) ([1, 2, 3, 4, 5, 6, 7], []) (arena 0 30) =
     dv_read_n_buf slow_read (-1) (bf_demo 3 8 1) ([1, 2, 3, 4, 5, 6, 7], []) (arena 0 30) \<and>
   tcp_write_n slow_net so_ctor [1, 2, 3] ([], []) = dv_write_n slow_write (-1) [1, 2, 3] ([], [])"
  using tcp_transfers_are_device_transfers [OF slow_net_ok, where k = so_ctor and b = "bf_demo 3 8 1"
      and m = "arena 0 30" and n = 0 and bs = "[1, 2, 3]"]
    bf_demo_inv [of 3 8 30 1 "0::byte"]
  by (simp add: bf_demo_def bf_available_def so_ctor_def so_handle_def INVALID_SOCKET_def slow_net_def)

text \<open>Opening an acceptor either succeeds as a whole or not at all: it returns 0 with a valid
  socket on which options, address and queue were set in that order, and records the address; or it
  returns an error with the socket invalid and the recorded address unchanged. An acceptor that is
  open already is left alone, and an address of all zeros is refused before any socket is made.\<close>

theorem acceptor_open_all_or_nothing:
  assumes "ac_open le nt addr que (a, s) = (ret, a', s')"
  shows "if so_is_open (ac_sock a) then ret = 0 \<and> a' = a \<and> s' = s
    else if \<not> ia_is_set le addr then ret = -1 \<and> a' = a \<and> s' = s
    else
      ret = 0 \<and> so_is_open (ac_sock a') \<and> ac_addr a' = addr \<and>
        (\<exists>h s1 r1 s2 r2 s3 r3. nt_socket nt 1 6 s = (h, s1) \<and> so_handle (ac_sock a') = h \<and>
          nt_setsockopt nt h SO_REUSEADDR (1, 0) s1 = (r1, s2) \<and> nt_bind nt h addr s2 = (r2, s3) \<and>
          nt_listen nt h que s3 = (r3, s') \<and> 0 \<le> r1 \<and> 0 \<le> r2 \<and> 0 \<le> r3) \<or>
      ret < 0 \<and> \<not> so_is_open (ac_sock a') \<and> ac_addr a' = ac_addr a"
proof (cases "so_is_open (ac_sock a) \<or> \<not> ia_is_set le addr")
  case True
  then show ?thesis using assms by (auto simp: ac_open_def)
next
  case False
  then have shut: "\<not> so_is_open (ac_sock a)" and set: "ia_is_set le addr" by auto
  obtain h s1 where h: "nt_socket nt 1 6 s = (h, s1)" by fastforce
  obtain r1 s2 where r1: "nt_setsockopt nt h SO_REUSEADDR (1, 0) s1 = (r1, s2)" by fastforce
  obtain r2 s3 where r2: "nt_bind nt h addr s2 = (r2, s3)" by fastforce
  obtain r3 s4 where r3: "nt_listen nt h que s3 = (r3, s4)" by fastforce
  have k: "so_reset (nt_close nt) h (ac_sock a, s1) = (\<lparr>sock_h = h\<rparr>, s1)"
    using shut by (cases "ac_sock a") (auto simp: so_reset_def so_close_def so_is_open_def INVALID_SOCKET_def)
  show ?thesis
    using assms shut set h r1 r2 r3 k
    by (auto simp: ac_open_def tcp_create_def so_handle_def so_release_def so_is_valid_def so_is_open_def
        ac_bind_def ac_listen_def INVALID_SOCKET_def Let_def split: if_splits)
qed

theorem acceptor_open_all_or_nothing_witness:
  "\<exists>a' s'. ac_open True fd_demo_net (ia_create True 0 80) 5 (ac_ctor, \<lparr>ft_open = {}, ft_bad = False\<rparr>) = (0, a', s') \<and>
    ac_addr a' = ia_create True 0 80"
proof -
  obtain ret a' s' where r:
      "ac_open True fd_demo_net (ia_create True 0 80) 5 (ac_ctor, \<lparr>ft_open = {}, ft_bad = False\<rparr>) = (ret, a', s')"
    by (metis prod_cases3)
  moreover have "\<not> so_is_open (ac_sock ac_ctor)" by (simp add: ac_ctor_def tcp_ctor_def so_ctor_def so_is_open_def)
  moreover have "0 \<le> ret"
    using r ia_create_is_set [of True 0 80]
    by (auto simp: ac_open_def ac_ctor_def tcp_ctor_def so_ctor_def so_is_open_def so_is_valid_def tcp_create_def
        fd_demo_net_def two_handles_def so_reset_def so_close_def INVALID_SOCKET_def ac_bind_def ac_listen_def)
  ultimately show ?thesis using acceptor_open_all_or_nothing [OF r] ia_create_is_set [of True 0 80] by auto
qed

text \<open>A socket whose connection failed is released, not closed: nothing owns its handle, and it stays
  open. So does the handle of an acceptor that could not bind.\<close>

theorem failed_open_leaks_the_handle:
  "tn_connect fd_demo_net (ia_create True 0 80) (so_ctor, \<lparr>ft_open = {}, ft_bad = False\<rparr>) =
     (-1, so_ctor, \<lparr>ft_open = {3}, ft_bad = False\<rparr>)"
  "fst (tn_ctor fd_demo_net (ia_create True 0 80) \<lparr>ft_open = {}, ft_bad = False\<rparr>) = so_ctor \<and>
   ft_open (snd (tn_ctor fd_demo_net (ia_create True 0 80) \<lparr>ft_open = {}, ft_bad = False\<rparr>)) = {3}"
  "ac_open True (fd_demo_net\<lparr>nt_bind := (\<lambda>h a s. (-1, s))\<rparr>) (ia_create True 0 80) 5
      (ac_ctor, \<lparr>ft_open = {}, ft_bad = False\<rparr>) = (-1, ac_ctor, \<lparr>ft_open = {3}, ft_bad = False\<rparr>)"
  using ia_create_is_set [of True 0 80]
  by (simp_all add: tn_connect_def tn_ctor_def tcp_create_def fd_demo_net_def two_handles_def so_ctor_def so_reset_def
      so_close_def so_release_def so_handle_def INVALID_SOCKET_def tcp_ctor_handle_def so_ctor_handle_def ac_open_def ac_ctor_def
      tcp_ctor_def so_is_open_def so_is_valid_def ac_bind_def)

text \<open>A name that does not resolve gives the address that stands for every interface of the host,
  and it counts as set.\<close>

theorem unresolved_name_is_any_address:
  assumes "aton name = None" "byname name = None"
  shows "ia_ctor_name le aton byname name p = ia_ctor_port le p" "ia_is_set le (ia_ctor_name le aton byname name p)"
proof -
  have "hton le 4 0 = 0" by (simp add: hton_def host_val_def bytes_le_small)
  then show 1: "ia_ctor_name le aton byname name p = ia_ctor_port le p"
    using assms by (simp add: ia_ctor_name_def ia_create_name_def ia_resolve_name_def ia_ctor_port_def ia_create_def INADDR_ANY_def)
  show "ia_is_set le (ia_ctor_name le aton byname name p)" unfolding 1 ia_ctor_port_def by (rule ia_create_is_set)
qed

end
