(* ===== verification/EchoLoops.thy ===== *)
theory EchoLoops imports Sockets begin

text \<open>
  The network programs of \<open>examples/net\<close>, one connection at a time: the echo servers
  \<open>StEchoServer.cpp\<close> and \<open>MtEchoServer.cpp\<close>, the echo client \<open>tcpecho.cpp\<close>, and \<open>devfwd.cpp\<close>, which
  forwards a connection to a serial device and back. Each is a loop that relays bytes from where it
  reads to where it writes; the locale \<open>relay\<close> says what a turn of such a loop does and concludes that
  the loop ends and has moved everything. The threads of \<open>MtEchoServer.cpp\<close> are the subject of
  \<open>EchoThreads\<close>. Messages to the console have no part in it.
\<close>

section \<open>StEchoServer.cpp\<close>

definition ECHO_BUF_SIZE :: int where "ECHO_BUF_SIZE = 4096"
definition ECHO_TCP_PORT :: int where "ECHO_TCP_PORT = 12345"
definition LISTEN_QUE_SIZE :: int where "LISTEN_QUE_SIZE = 1"

text \<open>\<open>while ((n = s.read(buf, BUF_SIZE)) > 0) s.write_n(buf, n);\<close> one turn, with whether the loop goes on,
  and the loop.\<close>

definition st_turn :: "'s net_os \<Rightarrow> sock \<Rightarrow> 's \<Rightarrow> bool \<times> 's" where
  "st_turn nt k s =
     (let (n, bs, s1) = tcp_read nt k ECHO_BUF_SIZE s
      in if 0 < n then (True, snd (tcp_write_n nt k bs s1)) else (False, s1))"

partial_function (option) st_loop :: "'s net_os \<Rightarrow> sock \<Rightarrow> 's \<Rightarrow> 's option" where
  "st_loop nt k s = (let (go, s1) = st_turn nt k s in if go then st_loop nt k s1 else Some s1)"

text \<open>The outer loop: a socket whose \<open>accept\<close> failed ends it; at the end of a turn the socket is
  destroyed. The acceptor is destroyed when \<open>main\<close> returns.\<close>

partial_function (option) st_serve :: "'s net_os \<Rightarrow> acceptor \<Rightarrow> 's \<Rightarrow> 's option" where
  "st_serve nt a s =
     (let (k, s1) = ac_accept nt a s
      in if \<not> so_is_valid k then Some (so_dtor (nt_close nt) (k, s1))
         else do { s2 \<leftarrow> st_loop nt k s1; st_serve nt a (so_dtor (nt_close nt) (k, s2)) })"

definition st_main :: "bool \<Rightarrow> 's net_os \<Rightarrow> 's \<Rightarrow> (int \<times> 's) option" where
  "st_main le nt s =
     (let (a, s1) = ac_ctor_port le nt ECHO_TCP_PORT LISTEN_QUE_SIZE s
      in if \<not> so_is_open (ac_sock a) then Some (-1, so_dtor (nt_close nt) (ac_sock a, s1))
         else do { s2 \<leftarrow> st_serve nt a s1; Some (0, so_dtor (nt_close nt) (ac_sock a, s2)) })"

section \<open>MtEchoServer.cpp, the loop of a handler\<close>

text \<open>\<open>while (sock.read(buf.clear()) > 0) sock.write_n(buf.flip());\<close>\<close>

definition mt_turn :: "'s net_os \<Rightarrow> sock \<Rightarrow> bf \<Rightarrow> 's \<Rightarrow> byte mem \<Rightarrow> (bool \<times> bf \<times> 's \<times> byte mem) option" where
  "mt_turn nt k b s m =
     do { (n, b1, s1, m1) \<leftarrow> tcp_read_buf nt k (bf_clear b) s m;
          if 0 < n
          then do { (_, b2, s2) \<leftarrow> tcp_write_n_buf nt k (bf_flip b1) s1 m1; Some (True, b2, s2, m1) }
          else Some (False, b1, s1, m1) }"

partial_function (option) mt_loop ::
  "'s net_os \<Rightarrow> sock \<Rightarrow> bf \<Rightarrow> 's \<Rightarrow> byte mem \<Rightarrow> (bf \<times> 's \<times> byte mem) option" where
  "mt_loop nt k b s m =
     do { (go, b1, s1, m1) \<leftarrow> mt_turn nt k b s m;
          if go then mt_loop nt k b1 s1 m1 else Some (b1, s1, m1) }"

section \<open>tcpecho.cpp\<close>

definition CLIENT_BUF :: int where "CLIENT_BUF = 4096"

text \<open>From the open connection on, with the bytes of \<open>argv[2]\<close>. \<open>strcpy\<close> into \<open>buf\<close> and the final
  \<open>buf[n] = 0\<close> may leave the array, which is \<open>None\<close>. The results are the exit code and what is printed:
  the bytes up to the first zero.\<close>

definition c_string :: "byte list \<Rightarrow> byte list" where "c_string bs = takeWhile (\<lambda>x. x \<noteq> 0) bs"

definition tcpecho :: "'s net_os \<Rightarrow> sock \<Rightarrow> byte list \<Rightarrow> 's \<Rightarrow> (int \<times> byte list \<times> 's) option" where
  "tcpecho nt k msg s =
     (if CLIENT_BUF < int (length msg) + 1 then None
      else
        let (n, s1) = tcp_write nt k (msg @ [0]) s
        in if n < 0 then Some (1, [], s1)
           else
             let (n, bs, s2) = tcp_read nt k n s1
             in if n < 0 then Some (1, [], s2)
                else if CLIENT_BUF \<le> n then None
                else Some (0, c_string (take (nat n) bs), s2))"

section \<open>devfwd.cpp\<close>

text \<open>The standard output as a device, which is not owned: its destructor and \<open>close\<close> only forget it.\<close>

definition STD_OUT_FD :: int where "STD_OUT_FD = 1"
definition std_out_ctor :: "(int \<Rightarrow> 's \<Rightarrow> 's) \<Rightarrow> bool \<Rightarrow> 's \<Rightarrow> dev \<times> 's" where
  "std_out_ctor clf g s = dv_assign clf STD_OUT_FD False (dv_ctor g, s)"
definition std_out_close :: "dev \<Rightarrow> dev" where "std_out_close d = d\<lparr>dv_fd := -1\<rparr>"

text \<open>From the socket to the device: \<open>while (sock.read(buf.clear()) > 0)\<close> \<open>{ stddev.write(buf.flip());\<close>
  \<open>odev.write(buf.rewind()); }\<close>.\<close>

definition fwd_turn ::
  "'s net_os \<Rightarrow> 's sys_write \<Rightarrow> dev \<Rightarrow> dev \<Rightarrow> sock \<Rightarrow> bf \<Rightarrow> 's \<Rightarrow> byte mem \<Rightarrow> (bool \<times> bf \<times> 's \<times> byte mem) option" where
  "fwd_turn nt wrf std od k b s m =
     do { (n, b1, s1, m1) \<leftarrow> tcp_read_buf nt k (bf_clear b) s m;
          if 0 < n
          then do { (_, b2, s2) \<leftarrow> out_write_buf wrf std (bf_flip b1) s1 m1;
                    (_, b3, s3) \<leftarrow> out_write_buf wrf od (bf_rewind b2) s2 m1;
                    Some (True, b3, s3, m1) }
          else Some (False, b1, s1, m1) }"

partial_function (option) fwd_loop ::
  "'s net_os \<Rightarrow> 's sys_write \<Rightarrow> dev \<Rightarrow> dev \<Rightarrow> sock \<Rightarrow> bf \<Rightarrow> 's \<Rightarrow> byte mem \<Rightarrow> (bf \<times> 's \<times> byte mem) option" where
  "fwd_loop nt wrf std od k b s m =
     do { (go, b1, s1, m1) \<leftarrow> fwd_turn nt wrf std od k b s m;
          if go then fwd_loop nt wrf std od k b1 s1 m1 else Some (b1, s1, m1) }"

text \<open>And back: \<open>DevMonThread::run\<close> polls the device until another thread has set \<open>quit_\<close>, which it
  finds after \<open>n\<close> rounds. A round that reads nothing sleeps.\<close>

definition mon_turn ::
  "'s net_os \<Rightarrow> 's sys_read \<Rightarrow> dev \<Rightarrow> sock \<Rightarrow> bf \<Rightarrow> 's \<Rightarrow> byte mem \<Rightarrow> (bf \<times> 's \<times> byte mem) option" where
  "mon_turn nt rdf d k b s m =
     do { (n, b1, s1, m1) \<leftarrow> in_read_buf rdf d (bf_clear b) s m;
          if n < 0 then Some (b1, s1, m1)
          else do { (_, b2, s2) \<leftarrow> tcp_write_buf nt k (bf_flip b1) s1 m1; Some (b2, s2, m1) } }"

fun mon_loop ::
  "nat \<Rightarrow> 's net_os \<Rightarrow> 's sys_read \<Rightarrow> dev \<Rightarrow> sock \<Rightarrow> bf \<Rightarrow> 's \<Rightarrow> byte mem \<Rightarrow> (bf \<times> 's \<times> byte mem) option" where
  "mon_loop 0 nt rdf d k b s m = Some (b, s, m)"
| "mon_loop (Suc n) nt rdf d k b s m =
     do { (b1, s1, m1) \<leftarrow> mon_turn nt rdf d k b s m; mon_loop n nt rdf d k b1 s1 m1 }"

text \<open>The thread opens the device without blocking and closes it when it ends. \<open>main\<close> opens it for one
  connection, or gives up, and closes socket and device afterwards; what it gives back is whether it goes
  on to the next connection.\<close>

definition FWD_DEVICE :: string where "FWD_DEVICE = ''/dev/ttyS0''"
definition O_NONBLOCK :: int where "O_NONBLOCK = 2048"

definition mon_run ::
  "nat \<Rightarrow> (string \<Rightarrow> int \<Rightarrow> 's \<Rightarrow> int \<times> 's) \<Rightarrow> 's net_os \<Rightarrow> 's sys_read \<Rightarrow> bool \<Rightarrow> sock \<Rightarrow> bf \<Rightarrow> 's \<Rightarrow> byte mem \<Rightarrow> (int \<times> 's) option" where
  "mon_run n opf nt rdf g k b s m =
     (let (_, d, s1) = in_open opf (nt_close nt) FWD_DEVICE O_NONBLOCK (dv_ctor g, s)
      in if \<not> dv_is_open d then Some (-1, dv_dtor (nt_close nt) (d, s1))
         else do { (_, s2, _) \<leftarrow> mon_loop n nt rdf d k b s1 m; Some (0, dv_dtor (nt_close nt) (d, s2)) })"

definition fwd_conn ::
  "(string \<Rightarrow> int \<Rightarrow> 's \<Rightarrow> int \<times> 's) \<Rightarrow> 's net_os \<Rightarrow> 's sys_write \<Rightarrow> bool \<Rightarrow> sock \<Rightarrow> bf \<Rightarrow> 's \<Rightarrow> byte mem \<Rightarrow> (bool \<times> sock \<times> dev \<times> 's) option" where
  "fwd_conn opf nt wrf g k b s m =
     (let (_, od, s1) = out_open opf (nt_close nt) FWD_DEVICE 0 (dv_ctor g, s)
      in if \<not> dv_is_open od then Some (False, k, od, s1)
         else
           let (std, s2) = std_out_ctor (nt_close nt) g s1
           in do { (_, s3, _) \<leftarrow> fwd_loop nt wrf std od k b s2 m;
                   let (k, s4) = so_close (nt_close nt) (k, s3);
                   let (od, s5) = dv_close (nt_close nt) (od, s4);
                   Some (True, k, od, s5) })"

section \<open>Relays\<close>

text \<open>The contract of a turn: while there is something to read it moves some of it, in order, and the
  loop goes on; when there is nothing left it moves nothing and the loop ends. \<open>c\<close> is what the loop
  keeps between turns.\<close>

locale relay =
  fixes turn :: "'c \<Rightarrow> 's \<Rightarrow> (bool \<times> 'c \<times> 's) option"
    and loop :: "'c \<Rightarrow> 's \<Rightarrow> ('c \<times> 's) option"
    and ready :: "'c \<Rightarrow> bool"
    and content :: "'s \<Rightarrow> byte list"
    and sent :: "'s \<Rightarrow> byte list"
  assumes once: "loop c s = (case turn c s of None \<Rightarrow> None
      | Some (go, c', s') \<Rightarrow> if go then loop c' s' else Some (c', s'))"
    and moves: "ready c \<Longrightarrow> content s \<noteq> [] \<Longrightarrow> \<exists>j c' s'. turn c s = Some (True, c', s') \<and> ready c' \<and> 0 < j \<and>
      content s' = drop j (content s) \<and> sent s' = sent s @ take j (content s)"
    and stops: "ready c \<Longrightarrow> content s = [] \<Longrightarrow> \<exists>c' s'. turn c s = Some (False, c', s') \<and> ready c' \<and>
      content s' = [] \<and> sent s' = sent s"
begin

lemma relays_all:
  "ready c \<Longrightarrow> \<exists>c' s'. loop c s = Some (c', s') \<and> ready c' \<and> content s' = [] \<and> sent s' = sent s @ content s"
proof (induction "length (content s)" arbitrary: c s rule: less_induct)
  case less
  show ?case
  proof (cases "content s = []")
    case True
    then show ?thesis using stops [OF less.prems True] once [of c s] by auto
  next
    case False
    obtain j c1 s1 where t: "turn c s = Some (True, c1, s1)" "ready c1" "0 < j"
        "content s1 = drop j (content s)" "sent s1 = sent s @ take j (content s)"
      using moves [OF less.prems False] by blast
    have "length (content s1) < length (content s)" using t(3,4) False by simp
    then obtain c2 s2 where "loop c1 s1 = Some (c2, s2)" "ready c2" "content s2 = []"
        "sent s2 = sent s1 @ content s1"
      using less.hyps [OF _ t(2)] by blast
    then show ?thesis using t(1,4,5) once [of c s] by simp
  qed
qed

end

section \<open>Buffers of a relay\<close>

definition relay_buf :: "bf \<Rightarrow> byte mem \<Rightarrow> bool" where
  "relay_buf b m \<longleftrightarrow> bf_inv b m \<and> bf_end b - bf_base b = ECHO_BUF_SIZE"

text \<open>\<open>read(buf.clear())\<close> puts what it got at the front of the buffer; \<open>flip()\<close> makes it what is left to
  write, and so does \<open>rewind()\<close> afterwards.\<close>

lemma read_into_cleared:
  assumes r: "nt_recv nt (so_handle k) ECHO_BUF_SIZE s = (r, bs, s1)" "-1 \<le> r" "r \<le> ECHO_BUF_SIZE" "length bs = nat r"
    and b: "relay_buf b m"
  shows "\<exists>b1 m1. tcp_read_buf nt k (bf_clear b) s m = Some (r, b1, s1, m1) \<and> relay_buf b1 m1 \<and>
    relay_buf (bf_flip b1) m1 \<and> bf_rest (bf_flip b1) m1 = bs"
proof -
  have c: "bf_inv (bf_clear b) m" "bf_pos (bf_clear b) = bf_base b" "bf_end (bf_clear b) = bf_end b"
      "bf_base (bf_clear b) = bf_base b" "bf_lim (bf_clear b) = bf_end b"
    using b bf_inv_moves(3) [of b m] by (simp_all add: relay_buf_def) (simp_all add: bf_clear_def)
  have av: "bf_available (bf_clear b) = ECHO_BUF_SIZE" using bf_sizes(4) [OF c(1)] c b by (simp add: relay_buf_def)
  have t: "tcp_read nt k ECHO_BUF_SIZE s = (r, bs, s1)" using r by (simp add: tcp_read_def ECHO_BUF_SIZE_def)
  have le: "int (length bs) \<le> bf_end b - bf_base b" using r(3,4) b by (simp add: relay_buf_def ECHO_BUF_SIZE_def)
  have lv: "live_range m (bf_base b) (int (length bs))" using bf_live [OF c(1), of "bf_base b"] c le by simp
  define b1 where "b1 = (if 0 < r then bf_incr_position r (bf_clear b) else bf_clear b)"
  have "tcp_read_buf nt k (bf_clear b) s m = Some (r, b1, s1, put_at (bf_base b) bs m)"
    by (simp add: tcp_read_buf_def av t bf_position_ptr_def c(2) wr_list_put_at [OF lv] b1_def)
  moreover have b1: "bf_base b1 = bf_base b" "bf_end b1 = bf_end b" "bf_lim b1 = bf_end b" "bf_pos b1 = bf_base b + int (length bs)"
    using c r(4) by (simp_all add: b1_def bf_incr_position_def)
  moreover have "relay_buf b1 (put_at (bf_base b) bs m)" "relay_buf (bf_flip b1) (put_at (bf_base b) bs m)"
    using b b1 le by (auto simp: relay_buf_def bf_inv_def bf_flip_def)
  moreover have "bf_rest (bf_flip b1) (put_at (bf_base b) bs m) = bs"
    using b1 cells_put_at [of "bf_base b" bs m] by (simp add: bf_rest_def bf_flip_def)
  ultimately show ?thesis by blast
qed

text \<open>Whatever \<open>recv\<close> and \<open>send\<close> do, a turn on the buffer is a turn on the array.\<close>

lemma mt_turn_st_turn:
  assumes "sys_read_ok (nt_recv nt) (so_handle k)" "sys_write_ok (nt_send nt) (so_handle k)" "relay_buf b m"
  shows "\<exists>b' m'. mt_turn nt k b s m = Some (fst (st_turn nt k s), b', snd (st_turn nt k s), m') \<and> relay_buf b' m'"
proof -
  obtain r bs s1 where r: "nt_recv nt (so_handle k) ECHO_BUF_SIZE s = (r, bs, s1)" "-1 \<le> r" "r \<le> ECHO_BUF_SIZE"
      "length bs = nat r"
    using sys_read_okD [OF assms(1), of ECHO_BUF_SIZE s] by (auto simp: ECHO_BUF_SIZE_def)
  have t: "tcp_read nt k ECHO_BUF_SIZE s = (r, bs, s1)" using r by (simp add: tcp_read_def ECHO_BUF_SIZE_def)
  obtain b1 m1 where 1: "tcp_read_buf nt k (bf_clear b) s m = Some (r, b1, s1, m1)" "relay_buf b1 m1"
      "relay_buf (bf_flip b1) m1" "bf_rest (bf_flip b1) m1 = bs"
    using read_into_cleared [OF r assms(3)] by blast
  let ?b = "bf_flip b1"
  have inv: "bf_inv ?b m1" using 1(3) by (simp add: relay_buf_def)
  have len: "bf_lim ?b - bf_pos ?b = int (length bs)"
    using 1(4) bf_sizes(4,5) [OF inv] by simp
  have lt: "int (length bs) < 2147483648" using r(3,4) by (simp add: ECHO_BUF_SIZE_def)
  obtain w j t' where w: "wn_loop (nt_send nt) (so_handle k) bs 0 0 s1 = (w, t')" "0 \<le> j" "j \<le> int (length bs)"
      "tcp_wn_buf_loop nt k 0 0 ?b s1 m1 = Some (w, ?b\<lparr>bf_pos := bf_pos ?b + j\<rparr>, t')"
    using tcp_wn_buf_loop_eq [OF assms(2) inv, of 0 0 "[]" s1] len lt 1(4) by (simp, elim exE conjE) blast
  have "tcp_write_n nt k bs s1 = (w, t')"
    using tcp_wn_loop_eq [OF assms(2), of 0 bs 0 s1] w(1) r(3,4) by (simp add: tcp_write_n_def ECHO_BUF_SIZE_def)
  moreover have "relay_buf (?b\<lparr>bf_pos := bf_pos ?b + j\<rparr>) m1"
    using 1(3) w(2,3) len by (auto simp: relay_buf_def bf_inv_def)
  ultimately show ?thesis using 1(1,2) w(4) t
    by (auto simp: mt_turn_def st_turn_def tcp_write_n_buf_def)
qed

section \<open>Streams\<close>

text \<open>What a connection is to a relay: \<open>recv\<close> takes from \<open>content\<close>, \<open>send\<close> appends to \<open>sent\<close>, neither
  touches the other, and counts are as POSIX says.\<close>

definition duplex :: "'s net_os \<Rightarrow> int \<Rightarrow> ('s \<Rightarrow> byte list) \<Rightarrow> ('s \<Rightarrow> byte list) \<Rightarrow> bool" where
  "duplex nt h content sent \<longleftrightarrow> dev_source (nt_recv nt) h content \<and> dev_sink (nt_send nt) h sent \<and>
     sys_write_ok (nt_send nt) h \<and> (\<forall>n s. sent (snd (snd (nt_recv nt h n s))) = sent s) \<and>
     (\<forall>bs s. content (snd (nt_send nt h bs s)) = content s)"

lemma dev_source_ok: "dev_source rdf fd content \<Longrightarrow> sys_read_ok rdf fd"
  unfolding sys_read_ok_def
proof (intro allI impI)
  fix n s assume a: "dev_source rdf fd content" "0 < (n::int)"
  obtain j s' where "rdf fd n s = (int j, take j (content s), s')" "j \<le> length (content s)" "int j \<le> n"
    using dev_sourceD [OF a] by blast
  then show "\<exists>r bs s'. rdf fd n s = (r, bs, s') \<and> - 1 \<le> r \<and> r \<le> n \<and> length bs = nat r" by auto
qed

lemma wn_loop_keeps:
  "(\<And>bs s. f (snd (wrf fd bs s)) = f s) \<Longrightarrow> f (snd (wn_loop wrf fd bs nw nx s)) = f s"
proof (induction wrf fd bs nw nx s rule: wn_loop.induct)
  case (1 wrf fd bs nw nx s)
  obtain r s1 where r: "wrf fd (drop (nat nw) bs) s = (r, s1)" by fastforce
  then have "f s1 = f s" using 1(2) [of "drop (nat nw) bs" s] by simp
  then show ?case using 1 r by (subst wn_loop.simps) auto
qed

lemma duplex_write_n:
  assumes "duplex nt (so_handle k) content sent" "length bs < 2147483648"
  shows "\<exists>s'. tcp_write_n nt k bs s = (int (length bs), s') \<and> sent s' = sent s @ bs \<and> content s' = content s"
proof -
  have d: "dev_sink (nt_send nt) (so_handle k) sent" "sys_write_ok (nt_send nt) (so_handle k)"
      "\<And>bs s. content (snd (nt_send nt (so_handle k) bs s)) = content s"
    using assms(1) by (simp_all add: duplex_def)
  obtain s' where w: "wn_loop (nt_send nt) (so_handle k) bs 0 0 s = (int (length bs), s')" "sent s' = sent s @ bs"
    using wn_loop_stream [OF d(1), of 0 bs 0 s] assms(2) by auto
  moreover have "content s' = content s"
    using wn_loop_keeps [of content "nt_send nt" "so_handle k" bs 0 0 s, OF d(3)] w(1) by simp
  ultimately show ?thesis using tcp_wn_loop_eq [OF d(2), of 0 bs 0 s] assms(2) by (simp add: tcp_write_n_def)
qed

lemma st_turn_relays:
  assumes "duplex nt (so_handle k) content sent"
  shows "\<exists>j s'. st_turn nt k s = (content s \<noteq> [], s') \<and> (content s \<noteq> [] \<longrightarrow> 0 < j) \<and>
    content s' = drop j (content s) \<and> sent s' = sent s @ take j (content s)"
proof -
  obtain j s1 where r: "nt_recv nt (so_handle k) ECHO_BUF_SIZE s = (int j, take j (content s), s1)" "j \<le> length (content s)"
      "content s1 = drop j (content s)" "int j \<le> ECHO_BUF_SIZE" "j = 0 \<longrightarrow> content s = []"
    using dev_sourceD [of "nt_recv nt" "so_handle k" content ECHO_BUF_SIZE s] assms by (auto simp: duplex_def ECHO_BUF_SIZE_def)
  have s1: "sent s1 = sent s" using assms r(1) unfolding duplex_def by (metis snd_conv)
  have t: "tcp_read nt k ECHO_BUF_SIZE s = (int j, take j (content s), s1)"
    using r(1,4) by (simp add: tcp_read_def ECHO_BUF_SIZE_def)
  obtain s2 where w: "tcp_write_n nt k (take j (content s)) s1 = (int j, s2)" "sent s2 = sent s1 @ take j (content s)"
      "content s2 = content s1"
    using duplex_write_n [OF assms, of "take j (content s)" s1] r(2,4) by (auto simp: ECHO_BUF_SIZE_def)
  show ?thesis
  proof (cases "j = 0")
    case True
    then show ?thesis using t r(3,5) s1 by (intro exI [of _ 0] exI [of _ s1]) (simp add: st_turn_def)
  next
    case False
    then have "content s \<noteq> []" using r(2) by auto
    then show ?thesis using False t w r(3) s1 by (intro exI [of _ j] exI [of _ s2]) (simp add: st_turn_def)
  qed
qed

definition st_turn' :: "'s net_os \<Rightarrow> sock \<Rightarrow> unit \<Rightarrow> 's \<Rightarrow> (bool \<times> unit \<times> 's) option" where
  "st_turn' nt k u s = (let (go, s') = st_turn nt k s in Some (go, (), s'))"
definition st_loop' :: "'s net_os \<Rightarrow> sock \<Rightarrow> unit \<Rightarrow> 's \<Rightarrow> (unit \<times> 's) option" where
  "st_loop' nt k u s = map_option (Pair ()) (st_loop nt k s)"

interpretation st: relay "st_turn' nt k" "st_loop' nt k" "\<lambda>u. duplex nt (so_handle k) content sent" content sent
proof (unfold_locales, goal_cases)
  case (1 c s)
  show ?case by (cases "st_turn nt k s") (simp add: st_loop'_def st_turn'_def st_loop.simps [of nt k s])
next
  case (2 c s)
  then show ?case using st_turn_relays [OF 2(1), of s] by (fastforce simp: st_turn'_def)
next
  case (3 c s)
  then show ?case using st_turn_relays [OF 3(1), of s] by (fastforce simp: st_turn'_def)
qed

definition mt_turn' :: "'s net_os \<Rightarrow> sock \<Rightarrow> bf \<times> byte mem \<Rightarrow> 's \<Rightarrow> (bool \<times> (bf \<times> byte mem) \<times> 's) option" where
  "mt_turn' nt k c s = map_option (\<lambda>(go, b, s, m). (go, (b, m), s)) (mt_turn nt k (fst c) s (snd c))"
definition mt_loop' :: "'s net_os \<Rightarrow> sock \<Rightarrow> bf \<times> byte mem \<Rightarrow> 's \<Rightarrow> ((bf \<times> byte mem) \<times> 's) option" where
  "mt_loop' nt k c s = map_option (\<lambda>(b, s, m). ((b, m), s)) (mt_loop nt k (fst c) s (snd c))"

interpretation mt: relay "mt_turn' nt k" "mt_loop' nt k"
  "\<lambda>c. duplex nt (so_handle k) content sent \<and> relay_buf (fst c) (snd c)" content sent
proof (unfold_locales, goal_cases)
  case (1 c s)
  show ?case
    by (cases "mt_turn nt k (fst c) s (snd c)") (auto simp: mt_loop'_def mt_turn'_def mt_loop.simps [of nt k "fst c" s "snd c"])
next
  case (2 c s)
  then have d: "sys_read_ok (nt_recv nt) (so_handle k)" "sys_write_ok (nt_send nt) (so_handle k)"
    using dev_source_ok by (auto simp: duplex_def)
  then show ?case using mt_turn_st_turn [OF d, of "fst c" "snd c" s] st_turn_relays [of nt k content sent s] 2
    by (fastforce simp: mt_turn'_def)
next
  case (3 c s)
  then have d: "sys_read_ok (nt_recv nt) (so_handle k)" "sys_write_ok (nt_send nt) (so_handle k)"
    using dev_source_ok by (auto simp: duplex_def)
  then show ?case using mt_turn_st_turn [OF d, of "fst c" "snd c" s] st_turn_relays [of nt k content sent s] 3
    by (fastforce simp: mt_turn'_def)
qed

section \<open>The two echo loops\<close>

lemma st_loop_mt_loop:
  assumes "st_loop nt k s = Some s'" "sys_read_ok (nt_recv nt) (so_handle k)" "sys_write_ok (nt_send nt) (so_handle k)"
    and "relay_buf b m"
  shows "\<exists>b' m'. mt_loop nt k b s m = Some (b', s', m')"
proof -
  have "sys_read_ok (nt_recv nt) (so_handle k) \<longrightarrow> sys_write_ok (nt_send nt) (so_handle k) \<longrightarrow>
      (\<forall>b m. relay_buf b m \<longrightarrow> (\<exists>b' m'. mt_loop nt k b s m = Some (b', s', m')))"
  proof (rule st_loop.raw_induct [OF _ assms(1)], intro impI allI)
    fix f nt k s y b m
    assume ih: "\<And>nt k s y. f nt k s = Some y \<Longrightarrow> sys_read_ok (nt_recv nt) (so_handle k) \<longrightarrow>
        sys_write_ok (nt_send nt) (so_handle k) \<longrightarrow> (\<forall>b m. relay_buf b m \<longrightarrow> (\<exists>b' m'. mt_loop nt k b s m = Some (b', y, m')))"
      and y: "(let (go, s1) = st_turn nt k s in if go then f nt k s1 else Some s1) = Some y"
      and ok: "sys_read_ok (nt_recv nt) (so_handle k)" "sys_write_ok (nt_send nt) (so_handle k)" "relay_buf b m"
    obtain b1 m1 where t: "mt_turn nt k b s m = Some (fst (st_turn nt k s), b1, snd (st_turn nt k s), m1)" "relay_buf b1 m1"
      using mt_turn_st_turn [OF ok] by blast
    show "\<exists>b' m'. mt_loop nt k b s m = Some (b', y, m')"
    proof (cases "fst (st_turn nt k s)")
      case True
      then have "f nt k (snd (st_turn nt k s)) = Some y" using y by (simp add: split_beta Let_def)
      then obtain b2 m2 where "mt_loop nt k b1 (snd (st_turn nt k s)) m1 = Some (b2, y, m2)" using ih ok(1,2) t(2) by blast
      then show ?thesis using t(1) True by (simp add: mt_loop.simps [of nt k b])
    next
      case False
      then show ?thesis using t(1) y by (simp add: mt_loop.simps [of nt k b] split_beta Let_def)
    qed
  qed
  then show ?thesis using assms(2-4) by blast
qed

lemma mt_loop_st_loop:
  assumes "mt_loop nt k b s m = Some r" "sys_read_ok (nt_recv nt) (so_handle k)" "sys_write_ok (nt_send nt) (so_handle k)"
    and "relay_buf b m"
  shows "st_loop nt k s = Some (fst (snd r))"
proof -
  have "sys_read_ok (nt_recv nt) (so_handle k) \<longrightarrow> sys_write_ok (nt_send nt) (so_handle k) \<longrightarrow> relay_buf b m \<longrightarrow>
      st_loop nt k s = Some (fst (snd r))"
  proof (rule mt_loop.raw_induct [OF _ assms(1)], intro impI)
    fix f nt k b s m r
    assume ih: "\<And>nt k b s m r. f nt k b s m = Some r \<Longrightarrow> sys_read_ok (nt_recv nt) (so_handle k) \<longrightarrow>
        sys_write_ok (nt_send nt) (so_handle k) \<longrightarrow> relay_buf b m \<longrightarrow> st_loop nt k s = Some (fst (snd r))"
      and r: "do { (go, b1, s1, m1) \<leftarrow> mt_turn nt k b s m; if go then f nt k b1 s1 m1 else Some (b1, s1, m1) } = Some r"
      and ok: "sys_read_ok (nt_recv nt) (so_handle k)" "sys_write_ok (nt_send nt) (so_handle k)" "relay_buf b m"
    obtain b1 m1 where t: "mt_turn nt k b s m = Some (fst (st_turn nt k s), b1, snd (st_turn nt k s), m1)" "relay_buf b1 m1"
      using mt_turn_st_turn [OF ok] by blast
    show "st_loop nt k s = Some (fst (snd r))"
    proof (cases "fst (st_turn nt k s)")
      case True
      then have "f nt k b1 (snd (st_turn nt k s)) m1 = Some r" using r t(1) by simp
      then have "st_loop nt k (snd (st_turn nt k s)) = Some (fst (snd r))" using ih ok(1,2) t(2) by blast
      then show ?thesis using True by (simp add: st_loop.simps [of nt k s] split_beta Let_def)
    next
      case False
      then show ?thesis using t(1) r by (auto simp: st_loop.simps [of nt k s] split_beta Let_def)
    qed
  qed
  then show ?thesis using assms(2-4) by blast
qed

section \<open>Forwarding\<close>

text \<open>A device that takes all of every write, and one whose writes do not matter, the console.\<close>

definition whole_sink :: "'s sys_write \<Rightarrow> int \<Rightarrow> ('s \<Rightarrow> byte list) \<Rightarrow> ('s \<Rightarrow> byte list) \<Rightarrow> bool" where
  "whole_sink wrf fd out other \<longleftrightarrow> (\<forall>bs s. fst (wrf fd bs s) = int (length bs) \<and>
     out (snd (wrf fd bs s)) = out s @ bs \<and> other (snd (wrf fd bs s)) = other s)"

definition aside_sink :: "'s sys_write \<Rightarrow> int \<Rightarrow> ('s \<Rightarrow> byte list) \<Rightarrow> ('s \<Rightarrow> byte list) \<Rightarrow> bool" where
  "aside_sink wrf fd out other \<longleftrightarrow> (\<forall>bs s. -1 \<le> fst (wrf fd bs s) \<and> fst (wrf fd bs s) \<le> int (length bs) \<and>
     out (snd (wrf fd bs s)) = out s \<and> other (snd (wrf fd bs s)) = other s)"

definition fwd_ready ::
  "'s net_os \<Rightarrow> 's sys_write \<Rightarrow> dev \<Rightarrow> dev \<Rightarrow> sock \<Rightarrow> ('s \<Rightarrow> byte list) \<Rightarrow> ('s \<Rightarrow> byte list) \<Rightarrow> bf \<times> byte mem \<Rightarrow> bool" where
  "fwd_ready nt wrf std od k content out c \<longleftrightarrow> relay_buf (fst c) (snd c) \<and>
     dev_source (nt_recv nt) (so_handle k) content \<and>
     (\<forall>n s. out (snd (snd (nt_recv nt (so_handle k) n s))) = out s) \<and>
     aside_sink wrf (dv_fd std) out content \<and> whole_sink wrf (dv_fd od) out content"

lemma relay_buf_rd:
  assumes "relay_buf b m"
  shows "rd_list m (bf_pos b) (nat (bf_available b)) = Some (bf_rest b m)"
proof -
  have inv: "bf_inv b m" using assms by (simp add: relay_buf_def)
  then have "live_range m (bf_pos b) (int (nat (bf_available b)))"
    using bf_live [OF inv, of "bf_pos b" "bf_available b"] bf_sizes(4) [OF inv] by (simp add: bf_inv_def)
  from rd_list_cells [OF this] inv bf_sizes(4) [OF inv] show ?thesis by (simp add: bf_rest_def bf_inv_def)
qed

lemma write_some:
  assumes "relay_buf b m" "wrf (dv_fd d) (bf_rest b m) s = (n, s')" "-1 \<le> n" "n \<le> int (length (bf_rest b m))"
  shows "\<exists>b'. out_write_buf wrf d b s m = Some (n, b', s') \<and> relay_buf b' m \<and> bf_base b' = bf_base b \<and> bf_lim b' = bf_lim b"
proof -
  have inv: "bf_inv b m" and e: "bf_end b - bf_base b = ECHO_BUF_SIZE" using assms(1) by (simp_all add: relay_buf_def)
  have len: "int (length (bf_rest b m)) = bf_lim b - bf_pos b" using bf_sizes(4,5) [OF inv] by simp
  have small: "s32 n = n" using assms(3,4) len inv e by (simp add: bf_inv_def ECHO_BUF_SIZE_def)
  have "out_write_buf wrf d b s m = Some (n, if 0 < n then bf_incr_position n b else b, s')"
    using relay_buf_rd [OF assms(1)] assms(2) small by (simp add: out_write_buf_def dv_write_buf_def bf_position_ptr_def)
  moreover have "relay_buf (if 0 < n then bf_incr_position n b else b) m"
    using assms(1,4) len by (auto simp: relay_buf_def bf_inv_def bf_incr_position_def)
  ultimately show ?thesis by (auto simp: bf_incr_position_def)
qed

lemma fwd_turn_relays:
  assumes "fwd_ready nt wrf std od k content out (b, m)"
  shows "\<exists>j b' s' m'. fwd_turn nt wrf std od k b s m = Some (content s \<noteq> [], b', s', m') \<and> (content s \<noteq> [] \<longrightarrow> 0 < j) \<and>
    fwd_ready nt wrf std od k content out (b', m') \<and> content s' = drop j (content s) \<and> out s' = out s @ take j (content s)"
proof -
  note f = assms [unfolded fwd_ready_def fst_conv snd_conv]
  obtain j s1 where r: "nt_recv nt (so_handle k) ECHO_BUF_SIZE s = (int j, take j (content s), s1)" "j \<le> length (content s)"
      "content s1 = drop j (content s)" "int j \<le> ECHO_BUF_SIZE" "j = 0 \<longrightarrow> content s = []"
    using dev_sourceD [of "nt_recv nt" "so_handle k" content ECHO_BUF_SIZE s] f by (auto simp: ECHO_BUF_SIZE_def)
  have s1: "out s1 = out s" using f r(1) by (metis snd_conv)
  obtain b1 m1 where 1: "tcp_read_buf nt k (bf_clear b) s m = Some (int j, b1, s1, m1)" "relay_buf b1 m1"
      "relay_buf (bf_flip b1) m1" "bf_rest (bf_flip b1) m1 = take j (content s)"
    using read_into_cleared [OF r(1) _ r(4) _ conjunct1 [OF f]] r(2) by auto
  show ?thesis
  proof (cases "j = 0")
    case True
    then show ?thesis using 1(1,2) r(3,5) s1 f
      by (intro exI [of _ 0] exI [of _ b1] exI [of _ s1] exI [of _ m1]) (simp add: fwd_turn_def fwd_ready_def)
  next
    case False
    obtain n2 s2 where w: "wrf (dv_fd std) (take j (content s)) s1 = (n2, s2)" by fastforce
    have w2: "-1 \<le> n2" "n2 \<le> int j" "out s2 = out s1" "content s2 = content s1"
      using f w r(2) unfolding aside_sink_def by (metis fst_conv snd_conv length_take min.absorb2)+
    obtain b2 where 2: "out_write_buf wrf std (bf_flip b1) s1 m1 = Some (n2, b2, s2)" "relay_buf b2 m1"
        "bf_base b2 = bf_base (bf_flip b1)" "bf_lim b2 = bf_lim (bf_flip b1)"
      using write_some [OF 1(3), of wrf std s1 n2 s2] w w2(1,2) 1(4) r(2) by auto
    have rb: "relay_buf (bf_rewind b2) m1" using 2(2) by (auto simp: relay_buf_def bf_inv_def bf_rewind_def)
    have rest: "bf_rest (bf_rewind b2) m1 = take j (content s)"
      using 1(4) 2(3,4) by (simp add: bf_rest_def bf_rewind_def bf_flip_def)
    obtain n3 s3 where o: "wrf (dv_fd od) (take j (content s)) s2 = (n3, s3)" by fastforce
    have o3: "n3 = int j" "out s3 = out s2 @ take j (content s)" "content s3 = content s2"
      using f o r(2) unfolding whole_sink_def by (metis fst_conv snd_conv length_take min.absorb2)+
    obtain b3 where 3: "out_write_buf wrf od (bf_rewind b2) s2 m1 = Some (n3, b3, s3)" "relay_buf b3 m1"
      using write_some [OF rb, of wrf od s2 n3 s3] o o3(1) rest r(2) by auto
    have "content s \<noteq> []" using False r(2) by auto
    then show ?thesis using False 1(1) 2(1) 3 r(3) s1 w2(3,4) o3(2,3) f
      by (intro exI [of _ j] exI [of _ b3] exI [of _ s3] exI [of _ m1]) (simp add: fwd_turn_def fwd_ready_def)
  qed
qed

definition fwd_turn' ::
  "'s net_os \<Rightarrow> 's sys_write \<Rightarrow> dev \<Rightarrow> dev \<Rightarrow> sock \<Rightarrow> bf \<times> byte mem \<Rightarrow> 's \<Rightarrow> (bool \<times> (bf \<times> byte mem) \<times> 's) option" where
  "fwd_turn' nt wrf std od k c s = map_option (\<lambda>(go, b, s, m). (go, (b, m), s)) (fwd_turn nt wrf std od k (fst c) s (snd c))"
definition fwd_loop' ::
  "'s net_os \<Rightarrow> 's sys_write \<Rightarrow> dev \<Rightarrow> dev \<Rightarrow> sock \<Rightarrow> bf \<times> byte mem \<Rightarrow> 's \<Rightarrow> ((bf \<times> byte mem) \<times> 's) option" where
  "fwd_loop' nt wrf std od k c s = map_option (\<lambda>(b, s, m). ((b, m), s)) (fwd_loop nt wrf std od k (fst c) s (snd c))"

interpretation fwd: relay "fwd_turn' nt wrf std od k" "fwd_loop' nt wrf std od k" "fwd_ready nt wrf std od k content out" content out
proof (unfold_locales, goal_cases)
  case (1 c s)
  show ?case
    by (cases "fwd_turn nt wrf std od k (fst c) s (snd c)")
      (auto simp: fwd_loop'_def fwd_turn'_def fwd_loop.simps [of nt wrf std od k "fst c" s "snd c"])
next
  case (2 c s)
  then show ?case using fwd_turn_relays [of nt wrf std od k content out "fst c" "snd c" s] by (fastforce simp: fwd_turn'_def)
next
  case (3 c s)
  then show ?case using fwd_turn_relays [of nt wrf std od k content out "fst c" "snd c" s] by (fastforce simp: fwd_turn'_def)
qed

section \<open>A server and its clients\<close>

text \<open>The network as the server sees it: the clients that will connect, each with the bytes that it is
  going to send, the connection that is open, and what each earlier client was sent.\<close>

record net_view =
  nv_pending :: "byte list list"
  nv_in :: "byte list"
  nv_out :: "byte list"
  nv_log :: "byte list list"

definition echo_os :: "'s net_os \<Rightarrow> ('s \<Rightarrow> net_view) \<Rightarrow> int \<Rightarrow> int \<Rightarrow> bool" where
  "echo_os nt v h0 h \<longleftrightarrow> 0 \<le> h0 \<and> 0 \<le> h \<and> duplex nt h (\<lambda>s. nv_in (v s)) (\<lambda>s. nv_out (v s)) \<and>
     (\<forall>n s s'. s' = snd (snd (nt_recv nt h n s)) \<longrightarrow> nv_pending (v s') = nv_pending (v s) \<and> nv_log (v s') = nv_log (v s)) \<and>
     (\<forall>bs s s'. s' = snd (nt_send nt h bs s) \<longrightarrow> nv_pending (v s') = nv_pending (v s) \<and> nv_log (v s') = nv_log (v s)) \<and>
     (\<forall>ty pr s. fst (nt_socket nt ty pr s) = h0 \<and> v (snd (nt_socket nt ty pr s)) = v s) \<and>
     (\<forall>n x s. fst (nt_setsockopt nt h0 n x s) = 0 \<and> v (snd (nt_setsockopt nt h0 n x s)) = v s) \<and>
     (\<forall>a s. fst (nt_bind nt h0 a s) = 0 \<and> v (snd (nt_bind nt h0 a s)) = v s) \<and>
     (\<forall>n s. fst (nt_listen nt h0 n s) = 0 \<and> v (snd (nt_listen nt h0 n s)) = v s) \<and>
     (\<forall>s. case nv_pending (v s) of [] \<Rightarrow> fst (nt_accept nt h0 s) = -1 \<and> v (snd (nt_accept nt h0 s)) = v s
        | xs # xss \<Rightarrow> fst (nt_accept nt h0 s) = h \<and>
            v (snd (nt_accept nt h0 s)) = (v s)\<lparr>nv_pending := xss, nv_in := xs, nv_out := []\<rparr>) \<and>
     (\<forall>s. v (nt_close nt h s) = (v s)\<lparr>nv_log := nv_log (v s) @ [nv_out (v s)]\<rparr>) \<and>
     (\<forall>s. v (nt_close nt h0 s) = v s)"

text \<open>A turn calls only \<open>recv\<close> and \<open>send\<close>.\<close>

lemma st_turn_keeps:
  assumes "sys_read_ok (nt_recv nt) (so_handle k)" "sys_write_ok (nt_send nt) (so_handle k)"
    and f: "\<And>n s. f (snd (snd (nt_recv nt (so_handle k) n s))) = f s" "\<And>bs s. f (snd (nt_send nt (so_handle k) bs s)) = f s"
  shows "f (snd (st_turn nt k s)) = f s"
proof -
  obtain r bs s1 where r: "nt_recv nt (so_handle k) ECHO_BUF_SIZE s = (r, bs, s1)" "-1 \<le> r" "r \<le> ECHO_BUF_SIZE"
      "length bs = nat r"
    using sys_read_okD [OF assms(1), of ECHO_BUF_SIZE s] by (auto simp: ECHO_BUF_SIZE_def)
  have "f s1 = f s" using f(1) [of ECHO_BUF_SIZE s] r(1) by simp
  moreover have "f (snd (tcp_write_n nt k bs s1)) = f s1"
    using tcp_wn_loop_eq [OF assms(2), of 0 bs 0 s1] r(3,4) wn_loop_keeps [where f = f and wrf = "nt_send nt" and fd = "so_handle k", OF f(2)]
    by (simp add: tcp_write_n_def ECHO_BUF_SIZE_def)
  ultimately show ?thesis using r by (simp add: st_turn_def tcp_read_def Let_def split_beta)
qed

lemma st_loop_keeps:
  assumes "st_loop nt k s = Some s'"
    and keeps: "\<And>s. f (snd (st_turn nt k s)) = f s"
  shows "f s' = f s"
proof -
  have "(\<forall>s. f (snd (st_turn nt k s)) = f s) \<longrightarrow> f s' = f s"
  proof (rule st_loop.raw_induct [OF _ assms(1)], intro impI)
    fix g nt k s y
    assume ih: "\<And>nt k s y. g nt k s = Some y \<Longrightarrow> (\<forall>s. f (snd (st_turn nt k s)) = f s) \<longrightarrow> f y = f s"
      and y: "(let (go, s1) = st_turn nt k s in if go then g nt k s1 else Some s1) = Some y"
      and f: "\<forall>s. f (snd (st_turn nt k s)) = f s"
    show "f y = f s"
    proof (cases "fst (st_turn nt k s)")
      case True
      then have "g nt k (snd (st_turn nt k s)) = Some y" using y by (simp add: split_beta Let_def)
      then have "f y = f (snd (st_turn nt k s))" using ih f by blast
      then show ?thesis using f by simp
    next
      case False
      then have "y = snd (st_turn nt k s)" using y by (simp add: split_beta Let_def)
      then show ?thesis using f by simp
    qed
  qed
  then show ?thesis using keeps by blast
qed

lemma st_loop_serves:
  assumes "echo_os nt v h0 h" "so_handle k = h"
  shows "\<exists>s'. st_loop nt k s = Some s' \<and> nv_out (v s') = nv_out (v s) @ nv_in (v s) \<and>
    nv_pending (v s') = nv_pending (v s) \<and> nv_log (v s') = nv_log (v s)"
proof -
  have d: "duplex nt (so_handle k) (\<lambda>s. nv_in (v s)) (\<lambda>s. nv_out (v s))" using assms by (simp add: echo_os_def)
  then have ok: "sys_read_ok (nt_recv nt) (so_handle k)" "sys_write_ok (nt_send nt) (so_handle k)"
    using dev_source_ok by (auto simp: duplex_def)
  obtain s' where l: "st_loop nt k s = Some s'" "nv_out (v s') = nv_out (v s) @ nv_in (v s)"
    using st.relays_all [OF d, of "()" s] by (auto simp: st_loop'_def)
  have "(nv_pending (v (snd (st_turn nt k s))), nv_log (v (snd (st_turn nt k s)))) = (nv_pending (v s), nv_log (v s))" for s
    using st_turn_keeps [OF ok, of "\<lambda>s. (nv_pending (v s), nv_log (v s))"] assms by (simp add: echo_os_def)
  then have "(nv_pending (v s'), nv_log (v s')) = (nv_pending (v s), nv_log (v s))"
    by (rule st_loop_keeps [OF l(1), of "\<lambda>s. (nv_pending (v s), nv_log (v s))"])
  then show ?thesis using l by simp
qed

lemma echo_accept:
  assumes "echo_os nt v h0 h" and "nt_accept nt h0 s = (r, s1)"
  shows "case nv_pending (v s) of [] \<Rightarrow> r = -1 \<and> v s1 = v s
    | xs # xss \<Rightarrow> r = h \<and> v s1 = (v s)\<lparr>nv_pending := xss, nv_in := xs, nv_out := []\<rparr>"
proof -
  have "case nv_pending (v s) of [] \<Rightarrow> fst (nt_accept nt h0 s) = -1 \<and> v (snd (nt_accept nt h0 s)) = v s
        | xs # xss \<Rightarrow> fst (nt_accept nt h0 s) = h \<and>
            v (snd (nt_accept nt h0 s)) = (v s)\<lparr>nv_pending := xss, nv_in := xs, nv_out := []\<rparr>"
    using assms(1) unfolding echo_os_def by (elim conjE) (erule spec)
  then show ?thesis by (simp only: assms(2) fst_conv snd_conv)
qed

lemma st_serve_all:
  assumes os: "echo_os nt v h0 h" and a: "so_handle (ac_sock a) = h0"
  shows "\<exists>s'. st_serve nt a s = Some s' \<and> nv_log (v s') = nv_log (v s) @ nv_pending (v s) \<and> nv_pending (v s') = []"
proof (induction "nv_pending (v s)" arbitrary: s)
  case Nil
  obtain r s1 where acc: "nt_accept nt h0 s = (r, s1)" by fastforce
  have "r = -1" "v s1 = v s" using echo_accept [OF os acc] Nil [symmetric] by simp_all
  then show ?case using Nil [symmetric] a acc
    by (simp add: st_serve.simps [of nt a s] ac_accept_def split_beta Let_def tcp_ctor_handle_def so_ctor_handle_def
        so_is_valid_def so_dtor_def so_close_def INVALID_SOCKET_def)
next
  case (Cons xs xss)
  obtain r s1 where acc: "nt_accept nt h0 s = (r, s1)" by fastforce
  have r: "r = h" "nv_pending (v s1) = xss" "nv_in (v s1) = xs" "nv_out (v s1) = []" "nv_log (v s1) = nv_log (v s)"
    using echo_accept [OF os acc] Cons(2) [symmetric] by simp_all
  let ?k = "tcp_ctor_handle h"
  have k: "so_handle ?k = h" "so_is_valid ?k" "so_is_open ?k"
    using os by (simp_all add: echo_os_def tcp_ctor_handle_def so_ctor_handle_def so_handle_def so_is_valid_def so_is_open_def INVALID_SOCKET_def)
  obtain s2 where l: "st_loop nt ?k s1 = Some s2" "nv_out (v s2) = xs" "nv_pending (v s2) = xss" "nv_log (v s2) = nv_log (v s)"
    using st_loop_serves [OF os k(1), of s1] r by auto
  have d: "so_dtor (nt_close nt) (?k, s2) = nt_close nt h s2" using os k(1)
    by (simp add: echo_os_def so_dtor_def so_close_def so_release_def so_handle_def)
  have cl: "v (nt_close nt h s2) = (v s2)\<lparr>nv_log := nv_log (v s2) @ [nv_out (v s2)]\<rparr>" using os by (simp add: echo_os_def)
  then obtain s' where "st_serve nt a (nt_close nt h s2) = Some s'"
      "nv_log (v s') = nv_log (v (nt_close nt h s2)) @ nv_pending (v (nt_close nt h s2))" "nv_pending (v s') = []"
    using Cons(1) [of "nt_close nt h s2"] l(3) by auto
  then show ?case using l k(2) d cl acc r(1) a Cons(2) [symmetric]
    by (simp add: st_serve.simps [of nt a s] ac_accept_def)
qed

lemma st_acceptor_opens:
  assumes "echo_os nt v h0 h"
  shows "\<exists>a s1. ac_ctor_port le nt ECHO_TCP_PORT LISTEN_QUE_SIZE s = (a, s1) \<and> so_handle (ac_sock a) = h0 \<and> v s1 = v s"
proof -
  let ?addr = "ia_ctor_port le ECHO_TCP_PORT"
  have is_set: "ia_is_set le ?addr" by (simp add: ia_ctor_port_def ia_create_is_set)
  obtain s1 where 1: "nt_socket nt 1 6 s = (h0, s1)" "v s1 = v s" using assms unfolding echo_os_def by (metis prod.collapse)
  obtain s2 where 2: "nt_setsockopt nt h0 SO_REUSEADDR (1, 0) s1 = (0, s2)" "v s2 = v s1"
    using assms unfolding echo_os_def by (metis prod.collapse)
  obtain s3 where 3: "nt_bind nt h0 ?addr s2 = (0, s3)" "v s3 = v s2" using assms unfolding echo_os_def by (metis prod.collapse)
  obtain s4 where 4: "nt_listen nt h0 LISTEN_QUE_SIZE s3 = (0, s4)" "v s4 = v s3"
    using assms unfolding echo_os_def by (metis prod.collapse)
  have "ac_ctor_port le nt ECHO_TCP_PORT LISTEN_QUE_SIZE s = (\<lparr>ac_sock = \<lparr>sock_h = h0\<rparr>, ac_addr = ?addr\<rparr>, s4)"
    using is_set 1(1) 2(1) 3(1) 4(1) assms
    by (simp add: ac_ctor_port_def ac_open_port_def ac_open_def tcp_ctor_def so_ctor_def so_is_open_def INVALID_SOCKET_def
        tcp_create_def so_reset_def so_close_def so_is_valid_def so_handle_def ac_bind_def ac_listen_def echo_os_def Let_def)
  then show ?thesis using 1(2) 2(2) 3(2) 4(2) by (simp add: so_handle_def)
qed

section \<open>A network for examples\<close>

text \<open>Handle 3 listens, handle 4 is the connection; it moves at most two bytes at a time.\<close>

definition echo_demo :: "net_view net_os" where
  "echo_demo = \<lparr>nt_socket = (\<lambda>ty pr s. (3, s)),
     nt_close = (\<lambda>h s. if h = 4 then s\<lparr>nv_log := nv_log s @ [nv_out s]\<rparr> else s),
     nt_setsockopt = (\<lambda>h n x s. (0, s)), nt_bind = (\<lambda>h a s. (0, s)), nt_listen = (\<lambda>h n s. (0, s)),
     nt_accept = (\<lambda>h s. case nv_pending s of [] \<Rightarrow> (-1, s)
       | xs # xss \<Rightarrow> (4, s\<lparr>nv_pending := xss, nv_in := xs, nv_out := []\<rparr>)),
     nt_connect = (\<lambda>h a s. (-1, s)),
     nt_recv = (\<lambda>h n s. let j = min (min 2 (nat n)) (length (nv_in s))
       in (int j, take j (nv_in s), s\<lparr>nv_in := drop j (nv_in s)\<rparr>)),
     nt_send = (\<lambda>h bs s. let j = min 2 (length bs) in (int j, s\<lparr>nv_out := nv_out s @ take j bs\<rparr>)),
     nt_sendto = (\<lambda>h bs a s. (-1, s)), nt_recvfrom = (\<lambda>h n s. (-1, [], ia_zero, s))\<rparr>"

lemma echo_demo_ok: "echo_os echo_demo (\<lambda>s. s) 3 4"
  by (auto simp: echo_os_def echo_demo_def duplex_def dev_source_def dev_sink_def sys_write_ok_def Let_def min_def
      split: list.splits)

section \<open>Properties\<close>



text \<open>The handler of the multi-threaded server relays through a buffer, the single-threaded server
  through an array. For every behaviour of \<open>recv\<close> and \<open>send\<close>, errors and short counts included, one
  loop ends exactly when the other does, and the connection has seen the same calls.\<close>

theorem echo_loops_agree:
  assumes "sys_read_ok (nt_recv nt) (so_handle k)" and "sys_write_ok (nt_send nt) (so_handle k)" and "relay_buf b m"
  shows "map_option (\<lambda>(b, s, m). s) (mt_loop nt k b s m) = st_loop nt k s"
proof (cases "mt_loop nt k b s m")
  case None
  then have "st_loop nt k s = None" using st_loop_mt_loop [OF _ assms] by (cases "st_loop nt k s") fastforce+
  then show ?thesis using None by simp
next
  case (Some r)
  then show ?thesis using mt_loop_st_loop [OF Some assms] by (cases r) simp
qed

definition echo_demo_buf :: bf where
  "echo_demo_buf = \<lparr>bf_base = 1, bf_pos = 1, bf_lim = 4097, bf_end = 4097, bf_mark = 1, bf_own = False\<rparr>"

lemma echo_demo_buf_ok: "relay_buf echo_demo_buf (arena 0 4097)"
  by (simp add: relay_buf_def echo_demo_buf_def bf_inv_def ECHO_BUF_SIZE_def)

theorem echo_loops_agree_witness:
  "map_option (\<lambda>(b, s, m). s) (mt_loop slow_net so_ctor echo_demo_buf ([1, 2, 3], []) (arena 0 4097)) =
    st_loop slow_net so_ctor ([1, 2, 3], [])"
  using echo_loops_agree [OF slow_net_ok echo_demo_buf_ok, of so_ctor "([1, 2, 3], [])"] .

text \<open>The forwarder hands a device that takes all of every write the bytes that the connection carried,
  all of them and in order, whatever the console does with its copy.\<close>

theorem forwarder_delivers_everything:
  assumes "fwd_ready nt wrf std od k content out (b, m)"
  shows "\<exists>b' s' m'. fwd_loop nt wrf std od k b s m = Some (b', s', m') \<and> content s' = [] \<and> out s' = out s @ content s"
  using fwd.relays_all [OF assms, of s] by (auto simp: fwd_loop'_def)

definition fwd_demo_write :: "(byte list \<times> byte list) sys_write" where
  "fwd_demo_write fd bs s = (int (length bs), if fd = 5 then (fst s, snd s @ bs) else s)"

theorem forwarder_delivers_everything_witness:
  "\<exists>b' s' m'. fwd_loop slow_net fwd_demo_write (dv_ctor_fd 1 False) (dv_ctor_fd 5 True) so_ctor echo_demo_buf ([1, 2, 3], [9])
      (arena 0 4097) = Some (b', s', m') \<and> snd s' = [9, 1, 2, 3]"
proof -
  have "fwd_ready slow_net fwd_demo_write (dv_ctor_fd 1 False) (dv_ctor_fd 5 True) so_ctor fst snd (echo_demo_buf, arena 0 4097)"
    using echo_demo_buf_ok slow_source
    by (auto simp: fwd_ready_def slow_net_def slow_read_def aside_sink_def whole_sink_def fwd_demo_write_def dv_ctor_fd_def
        Let_def)
  from forwarder_delivers_everything [OF this, of "([1, 2, 3], [9])"] show ?thesis by auto
qed

text \<open>So does the service of a whole connection, which closes the socket and the device that it opened.\<close>

theorem forwarder_serves_a_connection:
  assumes "relay_buf b m" and "dev_source (nt_recv nt) (so_handle k) content"
    and "\<And>n s. out (snd (snd (nt_recv nt (so_handle k) n s))) = out s"
    and "aside_sink wrf STD_OUT_FD out content" and "whole_sink wrf fd out content" and "0 \<le> fd" and "0 \<le> so_handle k"
    and op: "\<And>name fl s. fst (opf name fl s) = fd \<and> content (snd (opf name fl s)) = content s \<and> out (snd (opf name fl s)) = out s"
    and cl: "\<And>h s. content (nt_close nt h s) = content s \<and> out (nt_close nt h s) = out s"
  shows "\<exists>k' d' s'. fwd_conn opf nt wrf g k b s m = Some (True, k', d', s') \<and> content s' = [] \<and> out s' = out s @ content s \<and>
    so_handle k' = -1 \<and> \<not> dv_is_open d'"
proof -
  let ?od = "\<lparr>dv_fd = fd, dv_own = True\<rparr>" and ?std = "\<lparr>dv_fd = STD_OUT_FD, dv_own = False\<rparr>"
  obtain s1 where 1: "out_open opf (nt_close nt) FWD_DEVICE 0 (dv_ctor g, s) = (fd, ?od, s1)" "content s1 = content s" "out s1 = out s"
    using op by (auto simp: out_open_def dv_open_def dv_ctor_def dv_close_def split_beta Let_def)
  have 2: "std_out_ctor (nt_close nt) g s1 = (?std, s1)" by (simp add: std_out_ctor_def dv_assign_def dv_ctor_def dv_close_def)
  have "fwd_ready nt wrf ?std ?od k content out (b, m)" using assms(1-5) by (simp add: fwd_ready_def)
  from fwd.relays_all [OF this, of s1] obtain b3 s3 m3 where 3: "fwd_loop nt wrf ?std ?od k b s1 m = Some (b3, s3, m3)"
      "content s3 = []" "out s3 = out s1 @ content s1"
    by (auto simp: fwd_loop'_def)
  have 4: "so_close (nt_close nt) (k, s3) = (\<lparr>sock_h = -1\<rparr>, nt_close nt (so_handle k) s3)"
    using assms(7) by (cases k) (simp add: so_close_def so_release_def so_handle_def INVALID_SOCKET_def)
  have 5: "dv_close (nt_close nt) (?od, x) = (\<lparr>dv_fd = -1, dv_own = False\<rparr>, nt_close nt fd x)" for x
    using assms(6) by (simp add: dv_close_def)
  have "fwd_conn opf nt wrf g k b s m = Some (True, \<lparr>sock_h = -1\<rparr>, \<lparr>dv_fd = -1, dv_own = False\<rparr>, nt_close nt fd (nt_close nt (so_handle k) s3))"
    using 1(1) 2 3(1) 4 5 assms(6) by (simp add: fwd_conn_def dv_is_open_def)
  then show ?thesis using 1(2,3) 3(2,3) cl by (simp add: so_handle_def dv_is_open_def)
qed

theorem forwarder_serves_a_connection_witness:
  "\<exists>k' d' s'. fwd_conn (\<lambda>name fl s. (5, s)) slow_net fwd_demo_write True \<lparr>sock_h = 4\<rparr> echo_demo_buf ([1, 2, 3], []) (arena 0 4097) =
    Some (True, k', d', s') \<and> snd s' = [1, 2, 3]"
proof -
  have "\<exists>k' d' s'. fwd_conn (\<lambda>name fl s. (5, s)) slow_net fwd_demo_write True \<lparr>sock_h = 4\<rparr> echo_demo_buf ([1, 2, 3], []) (arena 0 4097) =
    Some (True, k', d', s') \<and> fst s' = [] \<and> snd s' = snd ([1::byte, 2, 3], [] :: byte list) @ fst ([1::byte, 2, 3], [] :: byte list) \<and> so_handle k' = -1 \<and> \<not> dv_is_open d'"
    by (rule forwarder_serves_a_connection [where fd = 5])
      (use echo_demo_buf_ok slow_source in \<open>auto simp: slow_net_def slow_read_def aside_sink_def whole_sink_def fwd_demo_write_def
        STD_OUT_FD_def so_handle_def Let_def\<close>)
  then show ?thesis by auto
qed

text \<open>A write that takes only a part of the chunk loses the rest: \<open>write\<close> is tried once, and \<open>clear()\<close>
  then discards what is left. Here the connection carries three bytes at once and the device takes two.\<close>

definition whole_read :: "(byte list \<times> byte list) sys_read" where
  "whole_read fd n s = (let j = min (nat n) (length (fst s)) in (int j, take j (fst s), (drop j (fst s), snd s)))"

definition fwd_short_write :: "(byte list \<times> byte list) sys_write" where
  "fwd_short_write fd bs s = (if fd = 5 then slow_write fd bs s else (int (length bs), s))"

lemma fwd_loses_demo:
  assumes "nt_recv nt = whole_read" and "relay_buf b m" and "length xs \<le> 4096" and "xs \<noteq> []"
  shows "\<exists>b' m'. fwd_loop nt fwd_short_write (dv_ctor_fd 1 False) (dv_ctor_fd 5 True) k b (xs, []) m =
    Some (b', ([], take 2 xs), m')"
proof -
  let ?std = "dv_ctor_fd 1 False" and ?od = "dv_ctor_fd 5 True"
  have r: "nt_recv nt (so_handle k) ECHO_BUF_SIZE (xs, []) = (int (length xs), xs, ([], []))"
    using assms(1,3) by (simp add: whole_read_def ECHO_BUF_SIZE_def Let_def)
  obtain b1 m1 where 1: "tcp_read_buf nt k (bf_clear b) (xs, []) m = Some (int (length xs), b1, ([], []), m1)"
      "relay_buf (bf_flip b1) m1" "bf_rest (bf_flip b1) m1 = xs"
    using read_into_cleared [OF r _ _ _ assms(2)] assms(3) by (auto simp: ECHO_BUF_SIZE_def)
  have w: "fwd_short_write (dv_fd ?std) xs ([], []) = (int (length xs), ([], []))"
    by (simp add: fwd_short_write_def dv_ctor_fd_def)
  obtain b2 where 2: "out_write_buf fwd_short_write ?std (bf_flip b1) ([], []) m1 = Some (int (length xs), b2, ([], []))"
      "relay_buf b2 m1" "bf_base b2 = bf_base (bf_flip b1)" "bf_lim b2 = bf_lim (bf_flip b1)"
    using write_some [OF 1(2), of fwd_short_write ?std "([], [])"] w 1(3) by auto
  have rb: "relay_buf (bf_rewind b2) m1" using 2(2) by (auto simp: relay_buf_def bf_inv_def bf_rewind_def)
  have rest: "bf_rest (bf_rewind b2) m1 = xs" using 1(3) 2(3,4) by (simp add: bf_rest_def bf_rewind_def bf_flip_def)
  have w5: "fwd_short_write (dv_fd ?od) xs ([], []) = (int (min 2 (length xs)), ([], take 2 xs))"
    by (simp add: fwd_short_write_def dv_ctor_fd_def slow_write_def Let_def min_def)
  obtain b3 where 3: "out_write_buf fwd_short_write ?od (bf_rewind b2) ([], []) m1 =
      Some (int (min 2 (length xs)), b3, ([], take 2 xs))" "relay_buf b3 m1"
    using write_some [OF rb, of fwd_short_write ?od "([], [])"] w5 rest by auto
  have t1: "fwd_turn nt fwd_short_write ?std ?od k b (xs, []) m = Some (True, b3, ([], take 2 xs), m1)"
    using 1(1) 2(1) 3(1) assms(4) by (simp add: fwd_turn_def)
  have r2: "nt_recv nt (so_handle k) ECHO_BUF_SIZE ([], take 2 xs) = (0, [], ([], take 2 xs))"
    using assms(1) by (simp add: whole_read_def Let_def)
  obtain b4 m4 where "tcp_read_buf nt k (bf_clear b3) ([], take 2 xs) m1 = Some (0, b4, ([], take 2 xs), m4)"
    using read_into_cleared [OF r2 _ _ _ 3(2)] by (auto simp: ECHO_BUF_SIZE_def)
  then have "fwd_turn nt fwd_short_write ?std ?od k b3 ([], take 2 xs) m1 = Some (False, b4, ([], take 2 xs), m4)"
    by (simp add: fwd_turn_def)
  then show ?thesis using t1 by (simp add: fwd_loop.simps [of nt fwd_short_write ?std ?od k])
qed

theorem forwarder_loses_short_writes:
  "\<exists>b' m'. fwd_loop (slow_net\<lparr>nt_recv := whole_read\<rparr>) fwd_short_write (dv_ctor_fd 1 False) (dv_ctor_fd 5 True) so_ctor
      echo_demo_buf ([1, 2, 3], []) (arena 0 4097) = Some (b', ([], [1, 2]), m')"
  using fwd_loses_demo [OF _ echo_demo_buf_ok, of "slow_net\<lparr>nt_recv := whole_read\<rparr>" "[1, 2, 3]" so_ctor] by simp

text \<open>The other direction. A device that is opened without blocking has an error to report while there is
  nothing to read.\<close>

definition poll_source :: "'s sys_read \<Rightarrow> int \<Rightarrow> ('s \<Rightarrow> byte list) \<Rightarrow> bool" where
  "poll_source rdf fd content \<longleftrightarrow> (\<forall>n s. 0 < n \<longrightarrow> (\<exists>r j s'. rdf fd n s = (r, take j (content s), s') \<and>
     content s' = drop j (content s) \<and> j \<le> length (content s) \<and> int j \<le> n \<and> (r = int j \<or> r = -1 \<and> j = 0)))"

lemma mon_turn_relays:
  assumes src: "poll_source rdf (dv_fd d) content" "\<And>n s. sent (snd (snd (rdf (dv_fd d) n s))) = sent s"
    and snk: "whole_sink (nt_send nt) (so_handle k) sent content" and b: "relay_buf b m"
  shows "\<exists>b' s' m'. mon_turn nt rdf d k b s m = Some (b', s', m') \<and> relay_buf b' m' \<and>
    sent s' @ content s' = sent s @ content s"
proof -
  obtain r j s1 where r: "rdf (dv_fd d) ECHO_BUF_SIZE s = (r, take j (content s), s1)" "content s1 = drop j (content s)"
      "j \<le> length (content s)" "int j \<le> ECHO_BUF_SIZE" "r = int j \<or> r = -1 \<and> j = 0"
  proof -
    have "\<exists>r j s'. rdf (dv_fd d) ECHO_BUF_SIZE s = (r, take j (content s), s') \<and>
       content s' = drop j (content s) \<and> j \<le> length (content s) \<and> int j \<le> ECHO_BUF_SIZE \<and> (r = int j \<or> r = -1 \<and> j = 0)"
      using src(1) [unfolded poll_source_def, rule_format, of ECHO_BUF_SIZE s] by (simp add: ECHO_BUF_SIZE_def)
    then show thesis using that by blast
  qed
  have s1: "sent s1 = sent s" using src(2) [of ECHO_BUF_SIZE s] r(1) by simp
  define nt' where "nt' = nt\<lparr>nt_recv := rdf\<rparr>"
  have "nt_recv nt' (so_handle \<lparr>sock_h = dv_fd d\<rparr>) ECHO_BUF_SIZE s = (r, take j (content s), s1)"
    using r(1) by (simp add: nt'_def so_handle_def)
  then obtain b1 m1 where 1: "tcp_read_buf nt' \<lparr>sock_h = dv_fd d\<rparr> (bf_clear b) s m = Some (r, b1, s1, m1)" "relay_buf b1 m1"
      "relay_buf (bf_flip b1) m1" "bf_rest (bf_flip b1) m1 = take j (content s)"
    using read_into_cleared [of nt' "\<lparr>sock_h = dv_fd d\<rparr>" s r "take j (content s)" s1 b m] r b by (auto simp: ECHO_BUF_SIZE_def)
  have in1: "in_read_buf rdf d (bf_clear b) s m = Some (r, b1, s1, m1)"
    using 1(1) by (cases "rdf (dv_fd d) (bf_available (bf_clear b)) s")
      (simp add: in_read_buf_def dv_read_buf_def tcp_read_buf_def tcp_read_def nt'_def so_handle_def)
  show ?thesis
  proof (cases "r < 0")
    case True
    then show ?thesis using in1 1(2) r(2,5) s1 by (simp add: mon_turn_def)
  next
    case False
    obtain n s2 where w: "nt_send nt (so_handle k) (take j (content s)) s1 = (n, s2)" by fastforce
    have w2: "n = int j" "sent s2 = sent s1 @ take j (content s)" "content s2 = content s1"
      using snk w r(3) unfolding whole_sink_def by (metis fst_conv snd_conv length_take min.absorb2)+
    obtain b2 where 2: "out_write_buf (nt_send nt) (dv_ctor_fd (so_handle k) False) (bf_flip b1) s1 m1 = Some (n, b2, s2)"
        "relay_buf b2 m1"
      using write_some [OF 1(3), of "nt_send nt" "dv_ctor_fd (so_handle k) False" s1 n s2] w w2(1) 1(4) r(3)
      by (auto simp: dv_ctor_fd_def)
    have "tcp_write_buf nt k (bf_flip b1) s1 m1 = Some (n, b2, s2)"
      using 2(1) w 1(4) relay_buf_rd [OF 1(3)]
      by (auto simp: tcp_write_buf_def tcp_write_def out_write_buf_def dv_write_buf_def dv_ctor_fd_def bf_position_ptr_def)
    then show ?thesis using False in1 2(2) w2(2,3) s1 r(2) by (simp add: mon_turn_def)
  qed
qed

text \<open>While the socket takes all of every write, the monitor neither loses nor reorders what the device
  delivers, however often it polls.\<close>

theorem monitor_keeps_the_stream:
  assumes "poll_source rdf (dv_fd d) content" and "\<And>n s. sent (snd (snd (rdf (dv_fd d) n s))) = sent s"
    and "whole_sink (nt_send nt) (so_handle k) sent content" and "relay_buf b m"
  shows "\<exists>b' s' m'. mon_loop n nt rdf d k b s m = Some (b', s', m') \<and> sent s' @ content s' = sent s @ content s"
  using assms(4)
proof (induction n arbitrary: b s m)
  case 0
  then show ?case by simp
next
  case (Suc n)
  obtain b1 s1 m1 where 1: "mon_turn nt rdf d k b s m = Some (b1, s1, m1)" "relay_buf b1 m1"
      "sent s1 @ content s1 = sent s @ content s"
    using mon_turn_relays [OF assms(1-3) Suc.prems] by blast
  then show ?case using Suc.IH [OF 1(2), of s1] by auto
qed

theorem monitor_keeps_the_stream_witness:
  "\<exists>b' s' m'. mon_loop 2 (slow_net\<lparr>nt_send := (\<lambda>fd bs s. (int (length bs), (fst s, snd s @ bs)))\<rparr>) slow_read (dv_ctor_fd 5 True)
      so_ctor echo_demo_buf ([1, 2, 3], []) (arena 0 4097) = Some (b', s', m') \<and> snd s' @ fst s' = [1, 2, 3]"
proof -
  have "poll_source slow_read (dv_fd (dv_ctor_fd 5 True)) fst"
    by (auto simp: poll_source_def slow_read_def Let_def min_def)
  from monitor_keeps_the_stream [OF this, of snd "slow_net\<lparr>nt_send := (\<lambda>fd bs s. (int (length bs), (fst s, snd s @ bs)))\<rparr>"
      so_ctor echo_demo_buf "arena 0 4097" 2 "([1, 2, 3], [])"]
  show ?thesis using echo_demo_buf_ok by (auto simp: slow_read_def whole_sink_def Let_def)
qed

text \<open>The echo client prints as much of its message as one \<open>recv\<close> returns: all of it, or a part.\<close>

theorem echo_client_prints_what_came:
  assumes "0 \<notin> set msg" and "length msg < 4095"
    and "nt_send nt (so_handle k) (msg @ [0]) s = (int (length msg) + 1, s1)"
    and "nt_recv nt (so_handle k) (int (length msg) + 1) s1 = (int j, take j (msg @ [0]), s2)" and "j \<le> length msg + 1"
  shows "tcpecho nt k msg s = Some (0, take j msg, s2)"
proof -
  have "c_string (take j (msg @ [0])) = take j msg"
  proof (cases "j \<le> length msg")
    case True
    have "\<forall>x\<in>set (take j msg). x \<noteq> 0" using assms(1) by (auto dest: in_set_takeD)
    then show ?thesis using True by (simp add: c_string_def takeWhile_eq_all_conv [THEN iffD2])
  next
    case False
    then show ?thesis using assms(1,5) by (simp add: c_string_def takeWhile_append)
  qed
  then show ?thesis using assms by (simp add: tcpecho_def tcp_write_def tcp_read_def CLIENT_BUF_def del: take_append)
qed

theorem echo_client_prints_what_came_witness:
  "tcpecho \<lparr>nt_socket = (\<lambda>ty pr s. (3, s)), nt_close = (\<lambda>h s. s), nt_setsockopt = (\<lambda>h n v s. (0, s)), nt_bind = (\<lambda>h a s. (0, s)),
      nt_listen = (\<lambda>h n s. (0, s)), nt_accept = (\<lambda>h s. (4, s)), nt_connect = (\<lambda>h a s. (0, s)), nt_recv = whole_read,
      nt_send = (\<lambda>fd bs s. (int (length bs), (bs, snd s))), nt_sendto = (\<lambda>h bs a s. (-1, s)),
      nt_recvfrom = (\<lambda>h n s. (-1, [], ia_zero, s))\<rparr> so_ctor [72, 105] ([], []) = Some (0, [72, 105], ([], []))"
  by (subst echo_client_prints_what_came [where j = 3 and ?s1.0 = "([72, 105, 0], [])" and ?s2.0 = "([], [])"])
    (simp_all add: whole_read_def Let_def)

text \<open>A message of 4095 bytes fills \<open>buf\<close> with its zero; when all of it comes back, the program writes
  another zero behind the end of the array.\<close>

theorem echo_client_overruns_its_buffer:
  assumes "length msg = 4095" and "nt_send nt (so_handle k) (msg @ [0]) s = (4096, s1)"
    and "nt_recv nt (so_handle k) 4096 s1 = (4096, bs, s2)"
  shows "tcpecho nt k msg s = None"
  using assms by (simp add: tcpecho_def tcp_write_def tcp_read_def CLIENT_BUF_def)

theorem echo_client_overruns_its_buffer_witness:
  "tcpecho (slow_net\<lparr>nt_recv := whole_read, nt_send := (\<lambda>fd bs s. (int (length bs), (bs, snd s)))\<rparr>) so_ctor (replicate 4095 1)
    ([], []) = None"
  by (rule echo_client_overruns_its_buffer [where ?s1.0 = "(replicate 4095 1 @ [0], [])" and bs = "replicate 4095 1 @ [0]"
        and ?s2.0 = "([], [])"])
    (simp_all add: whole_read_def)

end
