(* ===== verification/Cfx_Interfaces.thy ===== *)
theory Cfx_Interfaces imports Cfx_Base begin

text \<open>
  The contracts of the bounded collections: a store with a fixed room, and the FIFO and
  LIFO disciplines on top of it. Each locale states what a client relies on; the container
  theories interpret them on the translated operations. A run of operations is compared
  with a list of items, the specification every bounded collection is measured against.
\<close>

datatype 'a coll_op = Put 'a | Get
datatype 'a coll_res = PutRes bool | GetRes "'a option"

text \<open>A run of the implementation: every operation in turn, \<open>None\<close> if one is undefined.\<close>

fun run_ops :: "('a \<Rightarrow> 's \<Rightarrow> (bool \<times> 's) option) \<Rightarrow> ('s \<Rightarrow> ('a option \<times> 's) option)
    \<Rightarrow> 'a coll_op list \<Rightarrow> 's \<Rightarrow> ('a coll_res list \<times> 's) option" where
  "run_ops put get [] s = Some ([], s)"
| "run_ops put get (Put v # ops) s =
     do { (b, s') \<leftarrow> put v s; (rs, s'') \<leftarrow> run_ops put get ops s'; Some (PutRes b # rs, s'') }"
| "run_ops put get (Get # ops) s =
     do { (r, s') \<leftarrow> get s; (rs, s'') \<leftarrow> run_ops put get ops s'; Some (GetRes r # rs, s'') }"

text \<open>The specification of a queue with room for \<open>n\<close> items.\<close>

fun fifo_spec :: "nat \<Rightarrow> 'a coll_op list \<Rightarrow> 'a list \<Rightarrow> 'a coll_res list \<times> 'a list" where
  "fifo_spec n [] xs = ([], xs)"
| "fifo_spec n (Put v # ops) xs =
     (if length xs < n then (let (rs, ys) = fifo_spec n ops (xs @ [v]) in (PutRes True # rs, ys))
      else (let (rs, ys) = fifo_spec n ops xs in (PutRes False # rs, ys)))"
| "fifo_spec n (Get # ops) [] =
     (let (rs, ys) = fifo_spec n ops [] in (GetRes None # rs, ys))"
| "fifo_spec n (Get # ops) (x # xs) =
     (let (rs, ys) = fifo_spec n ops xs in (GetRes (Some x) # rs, ys))"

text \<open>The specification of a stack with room for \<open>n\<close> items, the top last.\<close>

fun lifo_spec :: "nat \<Rightarrow> 'a coll_op list \<Rightarrow> 'a list \<Rightarrow> 'a coll_res list \<times> 'a list" where
  "lifo_spec n [] xs = ([], xs)"
| "lifo_spec n (Put v # ops) xs =
     (if length xs < n then (let (rs, ys) = lifo_spec n ops (xs @ [v]) in (PutRes True # rs, ys))
      else (let (rs, ys) = lifo_spec n ops xs in (PutRes False # rs, ys)))"
| "lifo_spec n (Get # ops) xs =
     (if xs = [] then (let (rs, ys) = lifo_spec n ops [] in (GetRes None # rs, ys))
      else (let (rs, ys) = lifo_spec n ops (butlast xs) in (GetRes (Some (last xs)) # rs, ys)))"

text \<open>The values a run accepted, and the values it delivered.\<close>

fun accepted :: "'a coll_op list \<Rightarrow> 'a coll_res list \<Rightarrow> 'a list" where
  "accepted (Put v # ops) (PutRes b # rs) = (if b then [v] else []) @ accepted ops rs"
| "accepted (_ # ops) (_ # rs) = accepted ops rs"
| "accepted _ _ = []"

fun delivered :: "'a coll_res list \<Rightarrow> 'a list" where
  "delivered (GetRes (Some v) # rs) = v # delivered rs"
| "delivered (_ # rs) = delivered rs"
| "delivered [] = []"

lemma fifo_spec_order:
  "fifo_spec n ops xs = (rs, ys) \<Longrightarrow> xs @ accepted ops rs = delivered rs @ ys"
  by (induction n ops xs arbitrary: rs rule: fifo_spec.induct)
    (auto simp: Let_def split: if_splits prod.splits)

lemma fifo_spec_room:
  "length xs \<le> n \<Longrightarrow> fifo_spec n ops xs = (rs, ys) \<Longrightarrow> length ys \<le> n"
  by (induction n ops xs arbitrary: rs rule: fifo_spec.induct)
    (auto simp: Let_def split: if_splits prod.splits)

locale bounded_coll =
  fixes put :: "'a \<Rightarrow> 's \<Rightarrow> (bool \<times> 's) option"
    and get :: "'s \<Rightarrow> ('a option \<times> 's) option"
    and items :: "'s \<Rightarrow> 'a list"
    and room :: "'s \<Rightarrow> nat"
    and inv :: "'s \<Rightarrow> bool"
  assumes within_room: "inv s \<Longrightarrow> length (items s) \<le> room s"
    and put_room: "inv s \<Longrightarrow> length (items s) < room s \<Longrightarrow>
      \<exists>s'. put v s = Some (True, s') \<and> inv s' \<and> room s' = room s \<and> items s' = items s @ [v]"
    and put_full: "inv s \<Longrightarrow> length (items s) = room s \<Longrightarrow> put v s = Some (False, s)"
    and get_empty: "inv s \<Longrightarrow> items s = [] \<Longrightarrow> get s = Some (None, s)"

locale bounded_fifo = bounded_coll +
  assumes get_first: "inv s \<Longrightarrow> items s = x # xs \<Longrightarrow>
    \<exists>s'. get s = Some (Some x, s') \<and> inv s' \<and> room s' = room s \<and> items s' = xs"
begin

lemma run_refines:
  assumes "inv s" and "fifo_spec (room s) ops (items s) = (rs, ys)"
  shows "\<exists>s'. run_ops put get ops s = Some (rs, s') \<and> inv s' \<and> room s' = room s \<and> items s' = ys"
  using assms
proof (induction "room s" ops "items s" arbitrary: s rs rule: fifo_spec.induct)
  case 1
  then show ?case by simp
next
  case (2 v ops)
  show ?case
  proof (cases "length (items s) < room s")
    case True
    obtain s' where s': "put v s = Some (True, s')" "inv s'" "room s' = room s"
        "items s' = items s @ [v]"
      using put_room [OF 2(3) True] by blast
    obtain rs' where "fifo_spec (room s) ops (items s @ [v]) = (rs', ys)" "rs = PutRes True # rs'"
      using 2(4) True by (auto simp: Let_def split: prod.splits)
    then show ?thesis using 2(1) [OF True, of s' rs'] s' by force
  next
    case False
    then have full: "put v s = Some (False, s)"
      using put_full [OF 2(3)] within_room [OF 2(3)] by simp
    obtain rs' where "fifo_spec (room s) ops (items s) = (rs', ys)" "rs = PutRes False # rs'"
      using 2(4) False by (auto simp: Let_def split: prod.splits)
    then show ?thesis using 2(2) [OF False, of s rs'] full 2(3) by force
  qed
next
  case (3 ops)
  obtain rs' where "fifo_spec (room s) ops [] = (rs', ys)" "rs = GetRes None # rs'"
    using 3 by (auto simp: Let_def split: prod.splits)
  then show ?case using 3(1) [of s rs'] 3(2,3) get_empty [of s] by force
next
  case (4 ops x xs)
  obtain s' where s': "get s = Some (Some x, s')" "inv s'" "room s' = room s" "items s' = xs"
    using get_first [of s x xs] 4(2,3) by metis
  obtain rs' where "fifo_spec (room s) ops xs = (rs', ys)" "rs = GetRes (Some x) # rs'"
    using 4(2,4) by (metis (no_types, lifting) Pair_inject case_prod_unfold fifo_spec.simps(4) prod.collapse)
  then show ?case using 4(1) [of s' rs'] s' by force
qed

lemma run_order:
  assumes "inv s"
  shows "\<exists>rs s'. run_ops put get ops s = Some (rs, s') \<and> inv s' \<and> room s' = room s
    \<and> items s @ accepted ops rs = delivered rs @ items s'"
proof -
  obtain rs ys where f: "fifo_spec (room s) ops (items s) = (rs, ys)" by fastforce
  show ?thesis using run_refines [OF assms f] fifo_spec_order [OF f] by blast
qed

end

locale bounded_lifo = bounded_coll +
  assumes get_last: "inv s \<Longrightarrow> items s = xs @ [x] \<Longrightarrow>
    \<exists>s'. get s = Some (Some x, s') \<and> inv s' \<and> room s' = room s \<and> items s' = xs"
begin

lemma run_refines:
  assumes "inv s" and "lifo_spec (room s) ops (items s) = (rs, ys)"
  shows "\<exists>s'. run_ops put get ops s = Some (rs, s') \<and> inv s' \<and> room s' = room s \<and> items s' = ys"
  using assms
proof (induction "room s" ops "items s" arbitrary: s rs rule: lifo_spec.induct)
  case 1
  then show ?case by simp
next
  case (2 v ops)
  show ?case
  proof (cases "length (items s) < room s")
    case True
    obtain s' where s': "put v s = Some (True, s')" "inv s'" "room s' = room s"
        "items s' = items s @ [v]"
      using put_room [OF 2(3) True] by blast
    obtain rs' where "lifo_spec (room s) ops (items s @ [v]) = (rs', ys)" "rs = PutRes True # rs'"
      using 2(4) True by (auto simp: Let_def split: prod.splits)
    then show ?thesis using 2(1) [OF True, of s' rs'] s' by force
  next
    case False
    then have full: "put v s = Some (False, s)"
      using put_full [OF 2(3)] within_room [OF 2(3)] by simp
    obtain rs' where "lifo_spec (room s) ops (items s) = (rs', ys)" "rs = PutRes False # rs'"
      using 2(4) False by (auto simp: Let_def split: prod.splits)
    then show ?thesis using 2(2) [OF False, of s rs'] full 2(3) by force
  qed
next
  case (3 ops)
  show ?case
  proof (cases "items s = []")
    case True
    obtain rs' where "lifo_spec (room s) ops [] = (rs', ys)" "rs = GetRes None # rs'"
      using 3(4) True by (auto simp: Let_def split: prod.splits)
    then show ?thesis using 3(1) [OF True, of s rs'] 3(3) True get_empty [of s] by force
  next
    case False
    then have split: "items s = butlast (items s) @ [last (items s)]" by simp
    obtain s' where s': "get s = Some (Some (last (items s)), s')" "inv s'" "room s' = room s"
        "items s' = butlast (items s)"
      using get_last [OF 3(3) split] by blast
    obtain rs' where "lifo_spec (room s) ops (butlast (items s)) = (rs', ys)"
        "rs = GetRes (Some (last (items s))) # rs'"
      using 3(4) False by (auto simp: Let_def split: prod.splits)
    then show ?thesis using 3(2) [OF False, of s' rs'] s' by force
  qed
qed

end

end
