(* ===== verification/Locks.thy ===== *)
theory Locks imports Cfx_Base begin

text \<open>
  \<open>os/posix/CtrlrFx/Mutex.h\<close>, \<open>NullLock.h\<close>, \<open>Guard.h\<close> and
  \<open>os/posix/CtrlrFx/Semaphore.h\<close>. A mutex is a default POSIX mutex: a second lock by its
  holder blocks for good, and an unlock by anyone else is undefined. A semaphore is its
  count. Threads are numbered.
\<close>

section \<open>Mutex\<close>

record mutex =
  mx_holder :: "nat option"
  mx_alive :: bool
  mx_own :: bool
  mx_err :: int

text \<open>\<open>pthread_mutex_init\<close> returns the error number \<open>e\<close>, which is never negative, so that
  the test of the constructor does not see it.\<close>

definition mutex_ctor :: "int \<Rightarrow> mutex" where
  "mutex_ctor e = \<lparr>mx_holder = None, mx_alive = (e = 0), mx_own = True, mx_err = (if e < 0 then e else 0)\<rparr>"

definition mutex_ctor_handle :: "nat option \<Rightarrow> bool \<Rightarrow> mutex" where
  "mutex_ctor_handle h own = \<lparr>mx_holder = h, mx_alive = True, mx_own = own, mx_err = 0\<rparr>"

text \<open>The "weak reference" copies the \<open>pthread_mutex_t\<close> itself.\<close>

definition mutex_ctor_ref :: "mutex \<Rightarrow> mutex" where
  "mutex_ctor_ref m = \<lparr>mx_holder = mx_holder m, mx_alive = mx_alive m, mx_own = False, mx_err = mx_err m\<rparr>"

definition mutex_dtor :: "mutex \<Rightarrow> mutex" where
  "mutex_dtor m = (if mx_own m \<and> mx_err m = 0 then m\<lparr>mx_alive := False\<rparr> else m)"

definition mutex_is_valid :: "mutex \<Rightarrow> bool" where
  "mutex_is_valid m \<longleftrightarrow> mx_err m = 0"

definition mutex_error :: "mutex \<Rightarrow> int" where
  "mutex_error m = mx_err m"

definition mutex_lock :: "nat \<Rightarrow> mutex \<Rightarrow> mutex run" where
  "mutex_lock t m =
     (if \<not> mx_alive m then Undef
      else if mx_holder m = None then Ret (m\<lparr>mx_holder := Some t\<rparr>) else Blocks)"

definition mutex_trylock :: "nat \<Rightarrow> mutex \<Rightarrow> (bool \<times> mutex) run" where
  "mutex_trylock t m =
     (if \<not> mx_alive m then Undef
      else if mx_holder m = None then Ret (True, m\<lparr>mx_holder := Some t\<rparr>) else Ret (False, m))"

definition mutex_unlock :: "nat \<Rightarrow> mutex \<Rightarrow> mutex run" where
  "mutex_unlock t m =
     (if mx_alive m \<and> mx_holder m = Some t then Ret (m\<lparr>mx_holder := None\<rparr>) else Undef)"

definition mutex_acquire :: "nat \<Rightarrow> mutex \<Rightarrow> mutex run" where
  "mutex_acquire t m = mutex_lock t m"

definition mutex_tryacquire :: "nat \<Rightarrow> mutex \<Rightarrow> (bool \<times> mutex) run" where
  "mutex_tryacquire t m = mutex_trylock t m"

definition mutex_release :: "nat \<Rightarrow> mutex \<Rightarrow> mutex run" where
  "mutex_release t m = mutex_unlock t m"

text \<open>A lock that locks nothing.\<close>

definition null_acquire :: "unit \<Rightarrow> unit run" where "null_acquire l = Ret l"
definition null_release :: "unit \<Rightarrow> unit run" where "null_release l = Ret l"

section \<open>What a lock type promises\<close>

text \<open>A lock type as the classes that take one see it: its two operations, for one thread.\<close>

record 'l locktype =
  lt_acquire :: "'l \<Rightarrow> 'l run"
  lt_release :: "'l \<Rightarrow> 'l run"

definition mutex_type :: "nat \<Rightarrow> mutex locktype" where
  "mutex_type t = \<lparr>lt_acquire = mutex_acquire t, lt_release = mutex_release t\<rparr>"

definition null_type :: "unit locktype" where
  "null_type = \<lparr>lt_acquire = null_acquire, lt_release = null_release\<rparr>"

text \<open>Acquiring a free lock succeeds, and releasing it restores it.\<close>

locale lockable =
  fixes acquire :: "'l \<Rightarrow> 'l run"
    and release :: "'l \<Rightarrow> 'l run"
    and free :: "'l \<Rightarrow> bool"
    and held :: "'l \<Rightarrow> bool"
  assumes acquire_free: "free l \<Longrightarrow> \<exists>l'. acquire l = Ret l' \<and> held l' \<and> release l' = Ret l"
    and release_held: "held l \<Longrightarrow> \<exists>l'. release l = Ret l' \<and> free l' \<and> acquire l' = Ret l"
begin

text \<open>A critical section is a no-op on the lock.\<close>

lemma section_restores: "free l \<Longrightarrow> run_then (acquire l) (\<lambda>l'. release l') = Ret l"
  using acquire_free [of l] by auto

lemma section_times: "free l \<Longrightarrow> run_times n (\<lambda>l. run_then (acquire l) release) l = Ret l"
  by (induction n) (use section_restores in auto)

end

definition mutex_free :: "mutex \<Rightarrow> bool" where
  "mutex_free m \<longleftrightarrow> mx_alive m \<and> mx_holder m = None"

definition mutex_held :: "nat \<Rightarrow> mutex \<Rightarrow> bool" where
  "mutex_held t m \<longleftrightarrow> mx_alive m \<and> mx_holder m = Some t"

interpretation mutex: lockable "mutex_acquire t" "mutex_release t" mutex_free "mutex_held t"
  by unfold_locales
    (auto simp: mutex_acquire_def mutex_release_def mutex_lock_def mutex_unlock_def mutex_free_def mutex_held_def)

interpretation nulllock: lockable null_acquire null_release "\<lambda>_. True" "\<lambda>_. True"
  by unfold_locales (auto simp: null_acquire_def null_release_def)

section \<open>Guard\<close>

text \<open>A guard is its flag \<open>own_\<close>; the lock it refers to is passed along.\<close>

definition guard_ctor :: "'l locktype \<Rightarrow> 'l \<Rightarrow> (bool \<times> 'l) run" where
  "guard_ctor L l = run_then (lt_acquire L l) (\<lambda>l'. Ret (True, l'))"

definition guard_acquire :: "'l locktype \<Rightarrow> bool \<times> 'l \<Rightarrow> (bool \<times> 'l) run" where
  "guard_acquire L g =
     (if \<not> fst g then run_then (lt_acquire L (snd g)) (\<lambda>l'. Ret (True, l')) else Ret g)"

definition guard_ctor_own :: "'l locktype \<Rightarrow> bool \<Rightarrow> 'l \<Rightarrow> (bool \<times> 'l) run" where
  "guard_ctor_own L own l = guard_acquire L (own, l)"

definition guard_release :: "'l locktype \<Rightarrow> bool \<times> 'l \<Rightarrow> (bool \<times> 'l) run" where
  "guard_release L g =
     (if fst g then run_then (lt_release L (snd g)) (\<lambda>l'. Ret (False, l')) else Ret g)"

definition guard_dtor :: "'l locktype \<Rightarrow> bool \<times> 'l \<Rightarrow> 'l run" where
  "guard_dtor L g = (if fst g then lt_release L (snd g) else Ret (snd g))"

text \<open>The life of a guard: constructed, then any calls of \<open>acquire\<close> (True) and
  \<open>release\<close> (False), then destroyed.\<close>

fun guard_calls :: "'l locktype \<Rightarrow> bool list \<Rightarrow> bool \<times> 'l \<Rightarrow> (bool \<times> 'l) run" where
  "guard_calls L [] g = Ret g"
| "guard_calls L (c # cs) g =
     run_then (if c then guard_acquire L g else guard_release L g) (guard_calls L cs)"

definition guard_life :: "'l locktype \<Rightarrow> bool list \<Rightarrow> 'l \<Rightarrow> 'l run" where
  "guard_life L cs l = run_then (guard_ctor L l) (\<lambda>g. run_then (guard_calls L cs g) (guard_dtor L))"

text \<open>A guard owns its lock exactly while its flag says so, and gives it back as it was.\<close>

context lockable
begin

definition guard_ok :: "'l \<Rightarrow> bool \<times> 'l \<Rightarrow> bool" where
  "guard_ok l g \<longleftrightarrow> free l \<and> (if fst g then held (snd g) \<and> release (snd g) = Ret l \<and> acquire l = Ret (snd g) else snd g = l)"

lemma guard_calls_ok:
  assumes L: "lt_acquire L = acquire" "lt_release L = release"
  shows "guard_ok l g \<Longrightarrow> \<exists>g'. guard_calls L cs g = Ret g' \<and> guard_ok l g'"
proof (induction cs arbitrary: g)
  case Nil
  then show ?case by simp
next
  case (Cons c cs)
  obtain l' where l': "acquire l = Ret l'" "held l'" "release l' = Ret l"
    using acquire_free [of l] Cons.prems by (auto simp: guard_ok_def)
  have "\<exists>g1. (if c then guard_acquire L g else guard_release L g) = Ret g1 \<and> guard_ok l g1"
    using Cons.prems l' L
    by (cases g) (auto simp: guard_ok_def guard_acquire_def guard_release_def split: if_splits)
  then show ?case using Cons.IH by auto
qed

lemma guard_life_restores:
  assumes L: "lt_acquire L = acquire" "lt_release L = release" and free: "free l"
  shows "guard_life L cs l = Ret l"
proof -
  obtain l' where l': "acquire l = Ret l'" "held l'" "release l' = Ret l"
    using acquire_free [OF free] by blast
  then have "guard_ctor L l = Ret (True, l')" "guard_ok l (True, l')"
    using L free by (simp_all add: guard_ctor_def guard_ok_def)
  moreover obtain g where "guard_calls L cs (True, l') = Ret g" "guard_ok l g"
    using guard_calls_ok [OF L \<open>guard_ok l (True, l')\<close>] by blast
  ultimately show ?thesis using L
    by (auto simp: guard_life_def guard_dtor_def guard_ok_def split: if_splits)
qed

lemma guard_adopts:
  assumes L: "lt_acquire L = acquire" "lt_release L = release" and held: "held l"
  shows "\<exists>l'. run_then (guard_ctor_own L True l) (guard_dtor L) = Ret l' \<and> free l'"
  using release_held [OF held] L by (auto simp: guard_ctor_own_def guard_acquire_def guard_dtor_def)

end

section \<open>Semaphore\<close>

record sema =
  sm_cnt :: int
  sm_err :: int

text \<open>\<open>sem_init\<close> accepts the counts up to \<open>SEM_VALUE_MAX\<close>; otherwise \<open>errno\<close> is
  \<open>EINVAL\<close>. Its parameter is unsigned. The constructors assert that it succeeded.\<close>

definition sem_init_err :: "int \<Rightarrow> int" where
  "sem_init_err cnt = (if u32 cnt \<le> 2147483647 then 0 else 22)"

definition sema_ctor :: sema where
  "sema_ctor = \<lparr>sm_cnt = 0, sm_err = 0\<rparr>"

definition sema_ctor_cnt :: "int \<Rightarrow> sema run" where
  "sema_ctor_cnt cnt = (if sem_init_err cnt = 0 then Ret \<lparr>sm_cnt = u32 cnt, sm_err = 0\<rparr> else Undef)"

definition sema_destroy :: "sema \<Rightarrow> sema" where
  "sema_destroy s = (if sm_err s = 0 then s\<lparr>sm_err := -1\<rparr> else s)"

definition sema_create :: "int \<Rightarrow> sema \<Rightarrow> (int \<times> sema) run" where
  "sema_create cnt s =
     (let s = (sema_destroy s)\<lparr>sm_err := sem_init_err cnt\<rparr>
      in if sm_err s = 0 then Ret (0, s\<lparr>sm_cnt := u32 cnt\<rparr>) else Undef)"

definition sema_is_valid :: "sema \<Rightarrow> bool" where
  "sema_is_valid s \<longleftrightarrow> sm_err s = 0"

definition sema_error :: "sema \<Rightarrow> int" where
  "sema_error s = sm_err s"

definition sema_wait :: "sema \<Rightarrow> sema run" where
  "sema_wait s =
     (if sm_err s \<noteq> 0 then Undef else if 0 < sm_cnt s then Ret (s\<lparr>sm_cnt := sm_cnt s - 1\<rparr>) else Blocks)"

text \<open>The timed waits return true with a token, or false once the time is up; while no
  other thread runs, that is when there is no token.\<close>

definition sema_wait_until :: "sema \<Rightarrow> (bool \<times> sema) run" where
  "sema_wait_until s =
     (if sm_err s \<noteq> 0 then Undef
      else if 0 < sm_cnt s then Ret (True, s\<lparr>sm_cnt := sm_cnt s - 1\<rparr>) else Ret (False, s))"

definition sema_wait_for :: "sema \<Rightarrow> (bool \<times> sema) run" where
  "sema_wait_for s = sema_wait_until s"

definition sema_trywait :: "sema \<Rightarrow> (bool \<times> sema) run" where
  "sema_trywait s =
     (if sm_err s \<noteq> 0 then Undef
      else if 0 < sm_cnt s then Ret (True, s\<lparr>sm_cnt := sm_cnt s - 1\<rparr>) else Ret (False, s))"

text \<open>\<open>sem_post\<close> fails at the largest count, and the return value is ignored.\<close>

definition sema_post :: "sema \<Rightarrow> sema run" where
  "sema_post s =
     (if sm_err s \<noteq> 0 then Undef
      else Ret (if sm_cnt s < 2147483647 then s\<lparr>sm_cnt := sm_cnt s + 1\<rparr> else s))"

definition sema_acquire :: "sema \<Rightarrow> sema run" where "sema_acquire s = sema_wait s"
definition sema_acquire_for :: "sema \<Rightarrow> (bool \<times> sema) run" where "sema_acquire_for s = sema_wait_for s"
definition sema_tryacquire :: "sema \<Rightarrow> (bool \<times> sema) run" where "sema_tryacquire s = sema_trywait s"
definition sema_release :: "sema \<Rightarrow> sema run" where "sema_release s = sema_post s"

text \<open>The state of a usable semaphore, and what it looks like with \<open>n\<close> tokens.\<close>

abbreviation tokens :: "int \<Rightarrow> sema" where
  "tokens n \<equiv> \<lparr>sm_cnt = n, sm_err = 0\<rparr>"

lemmas sema_defs = sema_wait_def sema_wait_until_def sema_wait_for_def sema_trywait_def sema_post_def
  sema_acquire_def sema_acquire_for_def sema_tryacquire_def sema_release_def

lemma sema_ops [simp]:
  "0 < n \<Longrightarrow> sema_acquire (tokens n) = Ret (tokens (n - 1))"
  "n \<le> 0 \<Longrightarrow> sema_acquire (tokens n) = Blocks"
  "0 < n \<Longrightarrow> sema_acquire_for (tokens n) = Ret (True, tokens (n - 1))"
  "n \<le> 0 \<Longrightarrow> sema_acquire_for (tokens n) = Ret (False, tokens n)"
  "0 < n \<Longrightarrow> sema_tryacquire (tokens n) = Ret (True, tokens (n - 1))"
  "n \<le> 0 \<Longrightarrow> sema_tryacquire (tokens n) = Ret (False, tokens n)"
  "n < 2147483647 \<Longrightarrow> sema_post (tokens n) = Ret (tokens (n + 1))"
  "n < 2147483647 \<Longrightarrow> sema_release (tokens n) = Ret (tokens (n + 1))"
  by (simp_all add: sema_defs)

text \<open>A semaphore hands out as many tokens as were put in, whatever the order: the count of a
  run of posts (True) and non-blocking waits (False).\<close>

fun sema_run :: "bool list \<Rightarrow> sema \<Rightarrow> (nat \<times> sema) run" where
  "sema_run [] s = Ret (0, s)"
| "sema_run (True # cs) s = run_then (sema_post s) (sema_run cs)"
| "sema_run (False # cs) s =
     run_then (sema_tryacquire s) (\<lambda>(b, s'). run_then (sema_run cs s') (\<lambda>(n, s''). Ret (n + (if b then 1 else 0), s'')))"

lemma sema_run_balance:
  "0 \<le> n \<Longrightarrow> n + int (length (filter (\<lambda>c. c) cs)) \<le> 2147483647 \<Longrightarrow>
   \<exists>k n'. sema_run cs (tokens n) = Ret (k, tokens n') \<and> 0 \<le> n' \<and>
     n + int (length (filter (\<lambda>c. c) cs)) = int k + n'"
proof (induction cs arbitrary: n)
  case Nil
  then show ?case by simp
next
  case (Cons c cs)
  show ?case
  proof (cases c)
    case True
    then obtain k n' where "sema_run cs (tokens (n + 1)) = Ret (k, tokens n')" "0 \<le> n'"
        "n + 1 + int (length (filter (\<lambda>c. c) cs)) = int k + n'"
      using Cons.IH [of "n + 1"] Cons.prems by auto
    then show ?thesis using True Cons.prems by simp
  next
    case False
    show ?thesis
    proof (cases "0 < n")
      case True
      then obtain k n' where "sema_run cs (tokens (n - 1)) = Ret (k, tokens n')" "0 \<le> n'"
          "n - 1 + int (length (filter (\<lambda>c. c) cs)) = int k + n'"
        using Cons.IH [of "n - 1"] Cons.prems False by auto
      then show ?thesis using False True by simp
    next
      case none: False
      then obtain k n' where "sema_run cs (tokens n) = Ret (k, tokens n')" "0 \<le> n'"
          "n + int (length (filter (\<lambda>c. c) cs)) = int k + n'"
        using Cons.IH [of n] Cons.prems False by auto
      then show ?thesis using False none by simp
    qed
  qed
qed

end
