(* ===== verification/MsgSlot.thy ===== *)
theory MsgSlot imports Cfx_Interfaces Locks begin

text \<open>
  \<open>CtrlrFx/MsgSlot.h\<close>: a place for one message, counted by the semaphores
  \<open>semEmpty_\<close> and \<open>semFull_\<close>. On POSIX their type \<open>BinarySemaphore\<close> is another name
  for the counting \<open>Semaphore\<close>. One thread at a time.
\<close>

record 'a slot =
  sl_lock :: mutex
  sl_val :: 'a
  sl_empty :: sema
  sl_full :: sema

text \<open>The value is default-initialised, \<open>zero\<close>.\<close>

definition sl_ctor :: "'a \<Rightarrow> 'a slot" where
  "sl_ctor zero = \<lparr>sl_lock = mutex_ctor 0, sl_val = zero, sl_empty = tokens 1, sl_full = sema_ctor\<rparr>"

definition sl_do_put :: "nat \<Rightarrow> 'a \<Rightarrow> 'a slot \<Rightarrow> (bool \<times> 'a slot) run" where
  "sl_do_put t v s =
     run_then (guard_ctor (mutex_type t) (sl_lock s)) (\<lambda>g.
       let s = s\<lparr>sl_val := v\<rparr>
       in run_then (guard_release (mutex_type t) g) (\<lambda>g.
          run_then (sema_release (sl_full s)) (\<lambda>f.
          run_then (guard_dtor (mutex_type t) g) (\<lambda>l.
            Ret (True, s\<lparr>sl_full := f, sl_lock := l\<rparr>)))))"

definition sl_do_get :: "nat \<Rightarrow> 'a slot \<Rightarrow> (bool \<times> 'a \<times> 'a slot) run" where
  "sl_do_get t s =
     run_then (guard_ctor (mutex_type t) (sl_lock s)) (\<lambda>g.
       let v = sl_val s
       in run_then (guard_release (mutex_type t) g) (\<lambda>g.
          run_then (sema_release (sl_empty s)) (\<lambda>e.
          run_then (guard_dtor (mutex_type t) g) (\<lambda>l.
            Ret (True, v, s\<lparr>sl_empty := e, sl_lock := l\<rparr>)))))"

definition sl_put :: "nat \<Rightarrow> 'a \<Rightarrow> 'a slot \<Rightarrow> 'a slot run" where
  "sl_put t v s =
     run_then (sema_acquire (sl_empty s)) (\<lambda>e.
     run_then (sl_do_put t v (s\<lparr>sl_empty := e\<rparr>)) (\<lambda>(_, s'). Ret s'))"

definition sl_put_for :: "nat \<Rightarrow> 'a \<Rightarrow> 'a slot \<Rightarrow> (bool \<times> 'a slot) run" where
  "sl_put_for t v s =
     run_then (sema_acquire_for (sl_empty s)) (\<lambda>(b, e).
       if \<not> b then Ret (False, s\<lparr>sl_empty := e\<rparr>) else sl_do_put t v (s\<lparr>sl_empty := e\<rparr>))"

definition sl_tryput :: "nat \<Rightarrow> 'a \<Rightarrow> 'a slot \<Rightarrow> (bool \<times> 'a slot) run" where
  "sl_tryput t v s =
     run_then (sema_tryacquire (sl_empty s)) (\<lambda>(b, e).
       if \<not> b then Ret (False, s\<lparr>sl_empty := e\<rparr>) else sl_do_put t v (s\<lparr>sl_empty := e\<rparr>))"

definition sl_signal :: "nat \<Rightarrow> 'a \<Rightarrow> 'a slot \<Rightarrow> 'a slot run" where
  "sl_signal t v s =
     run_then (sema_tryacquire (sl_empty s)) (\<lambda>(b, e).
     run_then (sl_do_put t v (s\<lparr>sl_empty := e\<rparr>)) (\<lambda>(_, s'). Ret s'))"

definition sl_reset :: "'a slot \<Rightarrow> 'a slot run" where
  "sl_reset s = run_then (sema_tryacquire (sl_full s)) (\<lambda>(b, f). Ret (s\<lparr>sl_full := f\<rparr>))"

definition sl_get :: "nat \<Rightarrow> 'a slot \<Rightarrow> ('a \<times> 'a slot) run" where
  "sl_get t s =
     run_then (sema_acquire (sl_full s)) (\<lambda>f.
     run_then (sl_do_get t (s\<lparr>sl_full := f\<rparr>)) (\<lambda>(_, v, s'). Ret (v, s')))"

definition sl_get_to :: "nat \<Rightarrow> 'a slot \<Rightarrow> ('a \<times> 'a slot) run" where
  "sl_get_to t s =
     run_then (sema_acquire (sl_full s)) (\<lambda>f.
     run_then (sl_do_get t (s\<lparr>sl_full := f\<rparr>)) (\<lambda>(_, v, s'). Ret (v, s')))"

definition sl_get_for :: "nat \<Rightarrow> 'a slot \<Rightarrow> ('a option \<times> 'a slot) run" where
  "sl_get_for t s =
     run_then (sema_acquire_for (sl_full s)) (\<lambda>(b, f).
       if \<not> b then Ret (None, s\<lparr>sl_full := f\<rparr>)
       else run_then (sl_do_get t (s\<lparr>sl_full := f\<rparr>)) (\<lambda>(_, v, s'). Ret (Some v, s')))"

definition sl_tryget :: "nat \<Rightarrow> 'a slot \<Rightarrow> ('a option \<times> 'a slot) run" where
  "sl_tryget t s =
     run_then (sema_tryacquire (sl_full s)) (\<lambda>(b, f).
       if \<not> b then Ret (None, s\<lparr>sl_full := f\<rparr>)
       else run_then (sl_do_get t (s\<lparr>sl_full := f\<rparr>)) (\<lambda>(_, v, s'). Ret (Some v, s')))"

section \<open>States\<close>

text \<open>A slot with \<open>e\<close> tokens for putters, \<open>f\<close> for getters and the message \<open>v\<close>.\<close>

definition sl_state :: "int \<Rightarrow> int \<Rightarrow> 'a \<Rightarrow> 'a slot" where
  "sl_state e f v = \<lparr>sl_lock = mutex_ctor 0, sl_val = v, sl_empty = tokens e, sl_full = tokens f\<rparr>"

lemma sl_do_put_state: "f < 2147483647 \<Longrightarrow> sl_do_put t v (sl_state e f w) = Ret (True, sl_state e (f + 1) v)"
  by (simp add: sl_do_put_def sl_state_def guard_ctor_def guard_release_def guard_dtor_def mutex_type_def
      mutex_acquire_def mutex_lock_def mutex_release_def mutex_unlock_def mutex_ctor_def Let_def)

lemma sl_do_get_state: "e < 2147483647 \<Longrightarrow> sl_do_get t (sl_state e f w) = Ret (True, w, sl_state (e + 1) f w)"
  by (simp add: sl_do_get_def sl_state_def guard_ctor_def guard_release_def guard_dtor_def mutex_type_def
      mutex_acquire_def mutex_lock_def mutex_release_def mutex_unlock_def mutex_ctor_def Let_def)

lemma sl_fields [simp]:
  "sl_empty (sl_state e f v) = tokens e" "sl_full (sl_state e f v) = tokens f" "sl_val (sl_state e f v) = v"
  "(sl_state e f v)\<lparr>sl_empty := tokens e'\<rparr> = sl_state e' f v"
  "(sl_state e f v)\<lparr>sl_full := tokens f'\<rparr> = sl_state e f' v"
  by (simp_all add: sl_state_def)

lemma sl_ctor_state: "sl_ctor zero = sl_state 1 0 zero"
  by (simp add: sl_ctor_def sl_state_def sema_ctor_def)

lemma sl_ops:
  "0 < e \<Longrightarrow> f < 2147483647 \<Longrightarrow> sl_put t v (sl_state e f w) = Ret (sl_state (e - 1) (f + 1) v)"
  "e \<le> 0 \<Longrightarrow> sl_put t v (sl_state e f w) = Blocks"
  "0 < e \<Longrightarrow> f < 2147483647 \<Longrightarrow> sl_tryput t v (sl_state e f w) = Ret (True, sl_state (e - 1) (f + 1) v)"
  "e \<le> 0 \<Longrightarrow> sl_tryput t v (sl_state e f w) = Ret (False, sl_state e f w)"
  "0 < f \<Longrightarrow> e < 2147483647 \<Longrightarrow> sl_get t (sl_state e f w) = Ret (w, sl_state (e + 1) (f - 1) w)"
  "f \<le> 0 \<Longrightarrow> sl_get t (sl_state e f w) = Blocks"
  "0 < f \<Longrightarrow> e < 2147483647 \<Longrightarrow> sl_tryget t (sl_state e f w) = Ret (Some w, sl_state (e + 1) (f - 1) w)"
  "f \<le> 0 \<Longrightarrow> sl_tryget t (sl_state e f w) = Ret (None, sl_state e f w)"
  "f < 2147483647 \<Longrightarrow> sl_signal t v (sl_state e f w) = Ret (sl_state (if 0 < e then e - 1 else e) (f + 1) v)"
  "sl_reset (sl_state e f w) = Ret (sl_state e (if 0 < f then f - 1 else f) w)"
  by (auto simp: sl_put_def sl_tryput_def sl_get_def sl_tryget_def sl_signal_def sl_reset_def
      sl_do_put_state sl_do_get_state not_less)

section \<open>A FIFO of one\<close>

definition sl_put_st :: "nat \<Rightarrow> 'a \<Rightarrow> 'a slot \<Rightarrow> (bool \<times> 'a slot) option" where
  "sl_put_st t v s = (case sl_tryput t v s of Ret r \<Rightarrow> Some r | _ \<Rightarrow> None)"

definition sl_get_st :: "nat \<Rightarrow> 'a slot \<Rightarrow> ('a option \<times> 'a slot) option" where
  "sl_get_st t s = (case sl_tryget t s of Ret r \<Rightarrow> Some r | _ \<Rightarrow> None)"

definition sl_inv :: "'a slot \<Rightarrow> bool" where
  "sl_inv s \<longleftrightarrow> (\<exists>v. s = sl_state 1 0 v \<or> s = sl_state 0 1 v)"

definition sl_items :: "'a slot \<Rightarrow> 'a list" where
  "sl_items s = (if 0 < sm_cnt (sl_full s) then [sl_val s] else [])"

interpretation slot: bounded_fifo "sl_put_st t" "sl_get_st t" sl_items "\<lambda>_. 1" sl_inv
  by unfold_locales (auto simp: sl_inv_def sl_items_def sl_put_st_def sl_get_st_def sl_ops)

section \<open>Properties\<close>

text \<open>without \<open>signal\<close> and \<open>reset\<close> the slot is a queue of one message: a put succeeds when
  it is empty, a get takes the message that was put, and each message is taken once.\<close>

theorem sl_refines_one_place_queue:
  assumes "fifo_spec 1 ops [] = (rs, ys)"
  shows "\<exists>s. run_ops (sl_put_st t) (sl_get_st t) ops (sl_ctor zero) = Some (rs, s) \<and> sl_items s = ys"
proof -
  have "sl_inv (sl_ctor zero)" "sl_items (sl_ctor zero) = []"
    by (auto simp: sl_ctor_state sl_inv_def sl_items_def)
  then show ?thesis using slot.run_refines [of "sl_ctor zero" ops rs ys t] assms by auto
qed

theorem sl_refines_one_place_queue_witness:
  "\<exists>s. run_ops (sl_put_st 0) (sl_get_st 0) [Put 5, Put 6, Get, Get] (sl_ctor (0::int))
     = Some ([PutRes True, PutRes False, GetRes (Some 5), GetRes None], s) \<and> sl_items s = []"
  by (rule sl_refines_one_place_queue) simp

text \<open>\<open>reset\<close> takes the message away without giving the place back: a slot that was filled and
  reset is empty, and yet every later \<open>put\<close> blocks and every \<open>tryput\<close> fails.\<close>

theorem sl_reset_loses_the_place:
  "\<exists>s1 s2. sl_put t v (sl_ctor zero) = Ret s1 \<and> sl_reset s1 = Ret s2 \<and> sl_items s2 = [] \<and>
     sl_put t w s2 = Blocks \<and> sl_tryput t w s2 = Ret (False, s2) \<and> sl_get t s2 = Blocks"
  by (simp add: sl_ctor_state sl_ops sl_items_def)

text \<open>\<open>signal\<close> on a full slot overwrites the message, as it should, but with a counting
  semaphore it also counts it twice: two gets then return the same message.\<close>

theorem sl_signal_delivers_twice:
  "\<exists>s1 s2 s3 s4. sl_signal t v (sl_ctor zero) = Ret s1 \<and> sl_signal t w s1 = Ret s2 \<and>
     sl_get t s2 = Ret (w, s3) \<and> sl_get t s3 = Ret (w, s4)"
  by (simp add: sl_ctor_state sl_ops)

end
