(* ===== verification/RdWrLock.thy ===== *)
theory RdWrLock imports Locks begin

text \<open>
  \<open>os/generic/CtrlrFx/RdWrLock.h\<close> and \<open>src/os/generic/RdWrLock.cpp\<close>: the
  reader/writer lock made of a condition variable, and its guards. Every method holds the
  mutex of \<open>cond_\<close> from its entry to its return except while it waits, so what happens
  between two waits is one step. A pass through a method ends by returning or by going to
  sleep, and may signal or broadcast.
\<close>

record rwlock =
  rw_wrlk :: bool
  rw_wrwt :: bool
  rw_nrd :: int

datatype wake = NoWake | Signal | Broadcast

definition rw_ctor :: rwlock where
  "rw_ctor = \<lparr>rw_wrlk = False, rw_wrwt = False, rw_nrd = 0\<rparr>"

section \<open>The methods, pass by pass\<close>

text \<open>\<open>None\<close>: the thread calls \<open>cond_.wait()\<close>, and makes another pass when it wakes up.\<close>

definition rd_lock_pass :: "rwlock \<Rightarrow> rwlock option" where
  "rd_lock_pass s = (if rw_wrlk s \<or> rw_wrwt s then None else Some (s\<lparr>rw_nrd := rw_nrd s + 1\<rparr>))"

definition rd_unlock :: "rwlock \<Rightarrow> bool \<times> wake \<times> rwlock" where
  "rd_unlock s =
     (if rw_nrd s = 0 then (False, NoWake, s)
      else let s' = s\<lparr>rw_nrd := rw_nrd s - 1\<rparr>
           in (True, if rw_nrd s' = 0 then Broadcast else NoWake, s'))"

text \<open>\<open>wr_lock\<close> waits in two places: while another writer waits, and while the lock is taken.\<close>

datatype wr_result = WaitTurn rwlock | WaitFree rwlock | Locked wake rwlock

definition wr_lock_free :: "rwlock \<Rightarrow> wr_result" where
  "wr_lock_free s =
     (if rw_wrlk s \<or> 0 < rw_nrd s then WaitFree s
      else Locked Signal (s\<lparr>rw_wrlk := True, rw_wrwt := False\<rparr>))"

definition wr_lock_turn :: "rwlock \<Rightarrow> wr_result" where
  "wr_lock_turn s = (if rw_wrwt s then WaitTurn s else wr_lock_free (s\<lparr>rw_wrwt := True\<rparr>))"

definition wr_unlock :: "rwlock \<Rightarrow> bool \<times> wake \<times> rwlock" where
  "wr_unlock s = (if \<not> rw_wrlk s then (False, NoWake, s) else (True, Broadcast, s\<lparr>rw_wrlk := False\<rparr>))"

definition wr_demote :: "rwlock \<Rightarrow> bool \<times> wake \<times> rwlock" where
  "wr_demote s =
     (if \<not> rw_wrlk s then (False, NoWake, s)
      else (True, Broadcast, s\<lparr>rw_wrlk := False, rw_nrd := rw_nrd s + 1\<rparr>))"

section \<open>One thread alone: the guards\<close>

definition rw_rd_acquire :: "rwlock \<Rightarrow> rwlock run" where
  "rw_rd_acquire s = (case rd_lock_pass s of None \<Rightarrow> Blocks | Some s' \<Rightarrow> Ret s')"

definition rw_rd_release :: "rwlock \<Rightarrow> rwlock run" where
  "rw_rd_release s = Ret (snd (snd (rd_unlock s)))"

definition rw_wr_acquire :: "rwlock \<Rightarrow> rwlock run" where
  "rw_wr_acquire s = (case wr_lock_turn s of Locked w s' \<Rightarrow> Ret s' | _ \<Rightarrow> Blocks)"

definition rw_wr_release :: "rwlock \<Rightarrow> rwlock run" where
  "rw_wr_release s = Ret (snd (snd (wr_unlock s)))"

definition rd_type :: "rwlock locktype" where
  "rd_type = \<lparr>lt_acquire = rw_rd_acquire, lt_release = rw_rd_release\<rparr>"

definition wr_type :: "rwlock locktype" where
  "wr_type = \<lparr>lt_acquire = rw_wr_acquire, lt_release = rw_wr_release\<rparr>"

definition rdguard_ctor :: "rwlock \<Rightarrow> (bool \<times> rwlock) run" where "rdguard_ctor = guard_ctor rd_type"
definition rdguard_ctor_own :: "bool \<Rightarrow> rwlock \<Rightarrow> (bool \<times> rwlock) run" where "rdguard_ctor_own = guard_ctor_own rd_type"
definition rdguard_acquire :: "bool \<times> rwlock \<Rightarrow> (bool \<times> rwlock) run" where "rdguard_acquire = guard_acquire rd_type"
definition rdguard_release :: "bool \<times> rwlock \<Rightarrow> (bool \<times> rwlock) run" where "rdguard_release = guard_release rd_type"
definition rdguard_dtor :: "bool \<times> rwlock \<Rightarrow> rwlock run" where "rdguard_dtor = guard_dtor rd_type"
definition wrguard_ctor :: "rwlock \<Rightarrow> (bool \<times> rwlock) run" where "wrguard_ctor = guard_ctor wr_type"
definition wrguard_ctor_own :: "bool \<Rightarrow> rwlock \<Rightarrow> (bool \<times> rwlock) run" where "wrguard_ctor_own = guard_ctor_own wr_type"
definition wrguard_acquire :: "bool \<times> rwlock \<Rightarrow> (bool \<times> rwlock) run" where "wrguard_acquire = guard_acquire wr_type"
definition wrguard_release :: "bool \<times> rwlock \<Rightarrow> (bool \<times> rwlock) run" where "wrguard_release = guard_release wr_type"
definition wrguard_dtor :: "bool \<times> rwlock \<Rightarrow> rwlock run" where "wrguard_dtor = guard_dtor wr_type"

definition rw_readable :: "rwlock \<Rightarrow> bool" where
  "rw_readable s \<longleftrightarrow> \<not> rw_wrlk s \<and> \<not> rw_wrwt s \<and> 0 \<le> rw_nrd s"

definition rw_reading :: "rwlock \<Rightarrow> bool" where
  "rw_reading s \<longleftrightarrow> \<not> rw_wrlk s \<and> \<not> rw_wrwt s \<and> 0 < rw_nrd s"

interpretation rd: lockable rw_rd_acquire rw_rd_release rw_readable rw_reading
  by unfold_locales
    (auto simp: rw_rd_acquire_def rd_lock_pass_def rw_rd_release_def rd_unlock_def rw_readable_def rw_reading_def Let_def)

definition rw_writable :: "rwlock \<Rightarrow> bool" where
  "rw_writable s \<longleftrightarrow> \<not> rw_wrlk s \<and> \<not> rw_wrwt s \<and> rw_nrd s = 0"

definition rw_writing :: "rwlock \<Rightarrow> bool" where
  "rw_writing s \<longleftrightarrow> rw_wrlk s \<and> \<not> rw_wrwt s \<and> rw_nrd s = 0"

interpretation wr: lockable rw_wr_acquire rw_wr_release rw_writable rw_writing
  by unfold_locales
    (auto simp: rw_wr_acquire_def wr_lock_turn_def wr_lock_free_def rw_wr_release_def wr_unlock_def
      rw_writable_def rw_writing_def)

section \<open>Threads\<close>

text \<open>Where a thread is: outside, asleep at one of the three waits, woken up from it, or in.\<close>

datatype rw_pc = Out | RdSleep | RdWoken | TurnSleep | TurnWoken | FreeSleep | FreeWoken | Reading | Writing

fun rw_wake :: "rw_pc \<Rightarrow> rw_pc" where
  "rw_wake RdSleep = RdWoken"
| "rw_wake TurnSleep = TurnWoken"
| "rw_wake FreeSleep = FreeWoken"
| "rw_wake pc = pc"

fun rw_asleep :: "rw_pc \<Rightarrow> bool" where
  "rw_asleep RdSleep = True"
| "rw_asleep TurnSleep = True"
| "rw_asleep FreeSleep = True"
| "rw_asleep pc = False"

datatype rw_act = ActRdLock | ActRdUnlock | ActWrLock | ActWrUnlock | ActDemote | ActResume

definition wr_pass :: "wr_result \<Rightarrow> rw_pc \<times> wake \<times> rwlock" where
  "wr_pass r = (case r of WaitTurn s \<Rightarrow> (TurnSleep, NoWake, s) | WaitFree s \<Rightarrow> (FreeSleep, NoWake, s)
     | Locked w s \<Rightarrow> (Writing, w, s))"

definition rd_pass :: "rwlock \<Rightarrow> rw_pc \<times> wake \<times> rwlock" where
  "rd_pass s = (case rd_lock_pass s of None \<Rightarrow> (RdSleep, NoWake, s) | Some s' \<Rightarrow> (Reading, NoWake, s'))"

text \<open>What a thread can do where it is. A thread gives back only the lock it has.\<close>

fun rw_thread :: "rw_act \<Rightarrow> rw_pc \<Rightarrow> rwlock \<Rightarrow> (rw_pc \<times> wake \<times> rwlock) option" where
  "rw_thread ActRdLock Out s = Some (rd_pass s)"
| "rw_thread ActResume RdWoken s = Some (rd_pass s)"
| "rw_thread ActWrLock Out s = Some (wr_pass (wr_lock_turn s))"
| "rw_thread ActResume TurnWoken s = Some (wr_pass (wr_lock_turn s))"
| "rw_thread ActResume FreeWoken s = Some (wr_pass (wr_lock_free s))"
| "rw_thread ActRdUnlock Reading s = (let (r, w, s') = rd_unlock s in Some (Out, w, s'))"
| "rw_thread ActWrUnlock Writing s = (let (r, w, s') = wr_unlock s in Some (Out, w, s'))"
| "rw_thread ActDemote Writing s = (let (r, w, s') = wr_demote s in Some (Reading, w, s'))"
| "rw_thread _ _ s = None"

text \<open>A signal wakes one sleeper if there is any; sleepers may also wake up by themselves.\<close>

inductive rw_step :: "rwlock \<times> rw_pc list \<Rightarrow> rwlock \<times> rw_pc list \<Rightarrow> bool" where
  rw_quiet: "t < length pcs \<Longrightarrow> rw_thread a (pcs ! t) s = Some (pc', NoWake, s') \<Longrightarrow>
     rw_step (s, pcs) (s', pcs[t := pc'])"
| rw_signal: "t < length pcs \<Longrightarrow> rw_thread a (pcs ! t) s = Some (pc', Signal, s') \<Longrightarrow>
     u < length pcs \<Longrightarrow> rw_asleep (pcs[t := pc'] ! u) \<or> (\<forall>pc\<in>set (pcs[t := pc']). \<not> rw_asleep pc) \<Longrightarrow>
     rw_step (s, pcs) (s', (pcs[t := pc'])[u := rw_wake (pcs[t := pc'] ! u)])"
| rw_broadcast: "t < length pcs \<Longrightarrow> rw_thread a (pcs ! t) s = Some (pc', Broadcast, s') \<Longrightarrow>
     rw_step (s, pcs) (s', map rw_wake (pcs[t := pc']))"
| rw_spurious: "t < length pcs \<Longrightarrow> rw_step (s, pcs) (s, pcs[t := rw_wake (pcs ! t)])"

inductive rw_reach :: "rwlock \<times> rw_pc list \<Rightarrow> rwlock \<times> rw_pc list \<Rightarrow> bool" where
  rw_refl: "rw_reach c c"
| rw_more: "rw_reach c c' \<Longrightarrow> rw_step c' c'' \<Longrightarrow> rw_reach c c''"

section \<open>Invariant\<close>

fun at_free :: "rw_pc \<Rightarrow> bool" where
  "at_free FreeSleep = True"
| "at_free FreeWoken = True"
| "at_free pc = False"

definition rw_inv :: "rwlock \<times> rw_pc list \<Rightarrow> bool" where
  "rw_inv c \<longleftrightarrow> (case c of (s, pcs) \<Rightarrow>
     cntp (\<lambda>pc. pc = Writing) pcs = ind (rw_wrlk s) \<and>
     cntp (\<lambda>pc. pc = Reading) pcs = rw_nrd s \<and>
     cntp at_free pcs = ind (rw_wrwt s) \<and>
     (rw_wrlk s \<longrightarrow> rw_nrd s = 0) \<and>
     (RdSleep \<in> set pcs \<or> TurnSleep \<in> set pcs \<longrightarrow> rw_wrlk s \<or> rw_wrwt s) \<and>
     (FreeSleep \<in> set pcs \<longrightarrow> rw_wrlk s \<or> 0 < rw_nrd s))"

lemma cntp_map: "(\<And>x. P (f x) = P x) \<Longrightarrow> cntp P (map f xs) = cntp P xs"
  by (simp add: cntp_def filter_map comp_def)

lemma rw_wake_same [simp]:
  "rw_wake pc = Writing \<longleftrightarrow> pc = Writing" "rw_wake pc = Reading \<longleftrightarrow> pc = Reading"
  "at_free (rw_wake pc) = at_free pc" "rw_wake pc \<noteq> RdSleep" "rw_wake pc \<noteq> TurnSleep" "rw_wake pc \<noteq> FreeSleep"
  by (cases pc; simp)+

lemma rw_wake_awake [simp]: "\<not> rw_asleep (rw_wake pc)"
  by (cases pc) simp_all

text \<open>Waking a thread keeps the counts and can only shrink the set of sleepers.\<close>

lemma rw_inv_wake_one: "rw_inv (s, pcs) \<Longrightarrow> t < length pcs \<Longrightarrow> rw_inv (s, pcs[t := rw_wake (pcs ! t)])"
proof -
  assume inv: "rw_inv (s, pcs)" and t: "t < length pcs"
  have "x \<in> set (pcs[t := rw_wake (pcs ! t)]) \<Longrightarrow> rw_asleep x \<Longrightarrow> x \<in> set pcs" for x
    using set_update_subset_insert [of pcs t "rw_wake (pcs ! t)"] by auto
  from this [of RdSleep] this [of TurnSleep] this [of FreeSleep]
  show ?thesis using inv t by (simp add: rw_inv_def cntp_upd)
qed


text \<open>The counts alone, which hold in the middle of a step too.\<close>

definition rw_counts :: "rwlock \<times> rw_pc list \<Rightarrow> bool" where
  "rw_counts c \<longleftrightarrow> (case c of (s, pcs) \<Rightarrow>
     cntp (\<lambda>pc. pc = Writing) pcs = ind (rw_wrlk s) \<and>
     cntp (\<lambda>pc. pc = Reading) pcs = rw_nrd s \<and>
     cntp at_free pcs = ind (rw_wrwt s) \<and> (rw_wrlk s \<longrightarrow> rw_nrd s = 0))"

lemmas rw_method_defs = rd_pass_def rd_lock_pass_def rd_unlock_def wr_pass_def wr_lock_turn_def
  wr_lock_free_def wr_unlock_def wr_demote_def Let_def

lemma rw_thread_counts:
  assumes "rw_counts (s, pcs)" and "t < length pcs" and "rw_thread a (pcs ! t) s = Some (pc', w, s')"
  shows "rw_counts (s', pcs[t := pc'])"
proof -
  have "0 \<le> rw_nrd s" using assms(1) cntp_nonneg [of "\<lambda>pc. pc = Reading" pcs] by (simp add: rw_counts_def)
  moreover have "at_free (pcs ! t) \<Longrightarrow> rw_wrwt s" "pcs ! t = Writing \<Longrightarrow> rw_wrlk s" "pcs ! t = Reading \<Longrightarrow> 1 \<le> rw_nrd s"
    using assms(1) cntp_pos [OF assms(2), of at_free] cntp_pos [OF assms(2), of "\<lambda>pc. pc = Writing"]
      cntp_pos [OF assms(2), of "\<lambda>pc. pc = Reading"]
    by (auto simp: rw_counts_def split: if_splits)
  ultimately show ?thesis
    using assms(1,3)
    by (cases a; cases "pcs ! t")
      (auto simp: rw_counts_def cntp_upd [OF assms(2)] rw_method_defs split: if_splits)
qed

lemma rw_sleepers_upd: "x \<in> set (pcs[t := pc']) \<Longrightarrow> x = pc' \<or> x \<in> set pcs"
  using set_update_subset_insert [of pcs t pc'] by auto

text \<open>A pass that does not broadcast makes no sleeper's condition false.\<close>

lemma rw_thread_waits:
  assumes "rw_thread a pc s = Some (pc', w, s')" and "w \<noteq> Broadcast"
    and "pc = Reading \<Longrightarrow> 1 \<le> rw_nrd s" and "pc = Writing \<Longrightarrow> rw_wrlk s" and "at_free pc \<Longrightarrow> rw_wrwt s"
  shows "rw_wrlk s \<or> rw_wrwt s \<Longrightarrow> rw_wrlk s' \<or> rw_wrwt s'"
    and "rw_wrlk s \<or> 0 < rw_nrd s \<Longrightarrow> rw_wrlk s' \<or> 0 < rw_nrd s'"
    and "pc' = RdSleep \<or> pc' = TurnSleep \<Longrightarrow> rw_wrlk s' \<or> rw_wrwt s'"
    and "pc' = FreeSleep \<Longrightarrow> rw_wrlk s' \<or> 0 < rw_nrd s'"
  using assms by (cases a; cases pc; auto simp: rw_method_defs split: if_splits)+

lemma rw_inv_counts: "rw_inv (s, pcs) \<Longrightarrow> rw_counts (s, pcs)"
  by (simp add: rw_inv_def rw_counts_def)

lemma rw_thread_inv:
  assumes inv: "rw_inv (s, pcs)" and t: "t < length pcs" and th: "rw_thread a (pcs ! t) s = Some (pc', w, s')"
    and w: "w \<noteq> Broadcast"
  shows "rw_inv (s', pcs[t := pc'])"
proof -
  have c: "rw_counts (s', pcs[t := pc'])" by (rule rw_thread_counts [OF rw_inv_counts [OF inv] t th])
  have p: "pcs ! t = Reading \<Longrightarrow> 1 \<le> rw_nrd s" "pcs ! t = Writing \<Longrightarrow> rw_wrlk s" "at_free (pcs ! t) \<Longrightarrow> rw_wrwt s"
    using inv cntp_pos [OF t, of at_free] cntp_pos [OF t, of "\<lambda>pc. pc = Writing"] cntp_pos [OF t, of "\<lambda>pc. pc = Reading"]
    by (auto simp: rw_inv_def split: if_splits)
  note waits = rw_thread_waits [OF th w p]
  have "RdSleep \<in> set (pcs[t := pc']) \<or> TurnSleep \<in> set (pcs[t := pc']) \<Longrightarrow> rw_wrlk s' \<or> rw_wrwt s'"
    using waits(1,3) inv rw_sleepers_upd [of RdSleep pcs t pc'] rw_sleepers_upd [of TurnSleep pcs t pc']
    unfolding rw_inv_def by blast
  moreover have "FreeSleep \<in> set (pcs[t := pc']) \<Longrightarrow> rw_wrlk s' \<or> 0 < rw_nrd s'"
    using waits(2,4) inv rw_sleepers_upd [of FreeSleep pcs t pc'] unfolding rw_inv_def by blast
  ultimately show ?thesis using c by (simp add: rw_inv_def rw_counts_def)
qed

lemma rw_broadcast_inv:
  assumes "rw_counts (s, pcs)" shows "rw_inv (s, map rw_wake pcs)"
proof -
  have "x \<notin> rw_wake ` A" if "rw_asleep x" for x and A :: "rw_pc set"
    using that by auto
  then show ?thesis using assms by (simp add: rw_inv_def rw_counts_def cntp_map)
qed

lemma rw_step_inv: "rw_step c c' \<Longrightarrow> rw_inv c \<Longrightarrow> rw_inv c'"
proof (induction rule: rw_step.induct)
  case (rw_quiet t pcs a s pc' s')
  then show ?case using rw_thread_inv by blast
next
  case (rw_signal t pcs a s pc' s' u)
  then have "rw_inv (s', pcs[t := pc'])" using rw_thread_inv by blast
  then show ?case using rw_signal(3) by (intro rw_inv_wake_one) simp_all
next
  case (rw_broadcast t pcs a s pc' s')
  then show ?case using rw_broadcast_inv [OF rw_thread_counts [OF rw_inv_counts]] by blast
next
  case (rw_spurious t pcs s)
  then show ?case by (rule rw_inv_wake_one [rotated])
qed

lemma rw_reach_inv: "rw_reach c c' \<Longrightarrow> rw_inv c \<Longrightarrow> rw_inv c'"
  by (induction rule: rw_reach.induct) (auto intro: rw_step_inv)

lemma rw_init_inv: "rw_inv (rw_ctor, replicate n Out)"
  by (simp add: rw_inv_def rw_ctor_def cntp_def)

lemma cntp_le_one:
  "cntp P xs \<le> 1 \<Longrightarrow> t < length xs \<Longrightarrow> u < length xs \<Longrightarrow> P (xs ! t) \<Longrightarrow> P (xs ! u) \<Longrightarrow> t = u"
proof (rule ccontr)
  assume a: "cntp P xs \<le> 1" "t < length xs" "u < length xs" "P (xs ! t)" "P (xs ! u)" "t \<noteq> u"
  then have "1 \<le> cntp P (xs[t := xs ! t])" by (simp add: cntp_pos)
  have "finite {i. i < length xs \<and> P (xs ! i)}" "{t, u} \<subseteq> {i. i < length xs \<and> P (xs ! i)}" using a by auto
  then have "card {t, u} \<le> card {i. i < length xs \<and> P (xs ! i)}" by (rule card_mono)
  then show False using a by (simp add: cntp_def length_filter_conv_card)
qed

section \<open>Properties\<close>

text \<open>C2: at most one thread has the write lock, and never while another has a read lock, however
  the threads interleave, wake each other, or wake up for no reason.\<close>

theorem rw_mutual_exclusion:
  assumes "rw_reach (rw_ctor, replicate n Out) (s, pcs)" and "t < length pcs" and "pcs ! t = Writing"
  shows "\<forall>u < length pcs. u \<noteq> t \<longrightarrow> pcs ! u \<noteq> Writing \<and> pcs ! u \<noteq> Reading"
proof (intro allI impI conjI)
  have inv: "rw_inv (s, pcs)" by (rule rw_reach_inv [OF assms(1) rw_init_inv])
  then have w: "cntp (\<lambda>pc. pc = Writing) pcs \<le> 1" by (simp add: rw_inv_def)
  have "rw_wrlk s" using inv cntp_pos [OF assms(2), of "\<lambda>pc. pc = Writing"] assms(3)
    by (simp add: rw_inv_def split: if_splits)
  then have r: "cntp (\<lambda>pc. pc = Reading) pcs = 0" using inv by (simp add: rw_inv_def)
  fix u assume u: "u < length pcs" "u \<noteq> t"
  show "pcs ! u \<noteq> Writing" using cntp_le_one [OF w assms(2) u(1)] assms(3) u(2) by auto
  show "pcs ! u \<noteq> Reading" using cntp_pos [OF u(1), of "\<lambda>pc. pc = Reading"] r by auto
qed

theorem rw_mutual_exclusion_witness:
  "\<exists>s. rw_reach (rw_ctor, replicate 2 Out) (s, [Writing, Out]) \<and> [Writing, Out] ! 1 \<noteq> Reading"
proof -
  have "rw_step (rw_ctor, replicate 2 Out) (rw_ctor\<lparr>rw_wrlk := True, rw_wrwt := False\<rparr>, ((replicate 2 Out)[0 := Writing])[0 := Writing])"
    using rw_signal [of 0 "replicate 2 Out" ActWrLock rw_ctor Writing "rw_ctor\<lparr>rw_wrlk := True, rw_wrwt := False\<rparr>" 0]
    by (simp add: rw_method_defs rw_ctor_def numeral_2_eq_2)
  then have r: "rw_reach (rw_ctor, replicate 2 Out) (rw_ctor\<lparr>rw_wrlk := True, rw_wrwt := False\<rparr>, [Writing, Out])"
    using rw_more [OF rw_refl] by (simp add: numeral_2_eq_2)
  then show ?thesis using rw_mutual_exclusion [OF r, of 0] by fastforce
qed

text \<open>C3: no wakeup is lost: as long as a thread sleeps in one of the methods, some thread has the
  lock or has been woken up and will make another pass; so threads never all sleep.\<close>

theorem rw_no_lost_wakeup:
  assumes "rw_reach (rw_ctor, replicate n Out) (s, pcs)" and "pc \<in> set pcs" and "rw_asleep pc"
  shows "\<exists>pc'\<in>set pcs. pc' = Reading \<or> pc' = Writing \<or> (pc' \<noteq> Out \<and> \<not> rw_asleep pc')"
proof (rule ccontr)
  assume "\<not> ?thesis"
  then have none: "\<forall>pc'\<in>set pcs. pc' = Out \<or> rw_asleep pc'" by auto
  have inv: "rw_inv (s, pcs)" by (rule rw_reach_inv [OF assms(1) rw_init_inv])
  have "cntp (\<lambda>pc. pc = Writing) pcs = 0" "cntp (\<lambda>pc. pc = Reading) pcs = 0"
    using none by (auto intro!: cntp_none)
  then have free: "\<not> rw_wrlk s" "rw_nrd s = 0" using inv by (simp_all add: rw_inv_def split: if_splits)
  then have "FreeSleep \<notin> set pcs" using inv by (auto simp: rw_inv_def)
  moreover from this have "\<not> at_free x" if "x \<in> set pcs" for x using none that by (cases x) auto
  then have "cntp at_free pcs = 0" by (rule cntp_none)
  then have "\<not> rw_wrwt s" using inv by (simp add: rw_inv_def split: if_splits)
  then have "RdSleep \<notin> set pcs" "TurnSleep \<notin> set pcs" using inv free by (auto simp: rw_inv_def)
  ultimately show False using assms(2,3) by (cases pc) auto
qed

theorem rw_no_lost_wakeup_witness:
  "\<exists>s. rw_reach (rw_ctor, replicate 2 Out) (s, [Writing, RdSleep]) \<and>
    (\<exists>pc'\<in>{Writing, RdSleep}. pc' = Reading \<or> pc' = Writing \<or> (pc' \<noteq> Out \<and> \<not> rw_asleep pc'))"
proof -
  let ?w = "rw_ctor\<lparr>rw_wrlk := True, rw_wrwt := False\<rparr>"
  have "rw_step (rw_ctor, replicate 2 Out) (?w, ((replicate 2 Out)[0 := Writing])[0 := Writing])"
    using rw_signal [of 0 "replicate 2 Out" ActWrLock rw_ctor Writing ?w 0]
    by (simp add: rw_method_defs rw_ctor_def numeral_2_eq_2)
  then have "rw_reach (rw_ctor, replicate 2 Out) (?w, [Writing, Out])"
    using rw_more [OF rw_refl] by (simp add: numeral_2_eq_2)
  moreover have "rw_step (?w, [Writing, Out]) (?w, [Writing, RdSleep])"
    using rw_quiet [of 1 "[Writing, Out]" ActRdLock ?w RdSleep ?w] by (simp add: rw_method_defs)
  ultimately have r: "rw_reach (rw_ctor, replicate 2 Out) (?w, [Writing, RdSleep])" by (rule rw_more)
  then show ?thesis using rw_no_lost_wakeup [OF r, of RdSleep] by auto
qed

end
