(* ===== verification/Monitor.thy ===== *)
theory Monitor imports RdWrLock begin

text \<open>
  Threads that share an object made of a condition variable. Every method holds the mutex of
  the variable from its entry to its return, except while it waits, so that what happens
  between two waits is one pass. A pass of thread \<open>t\<close> leads to the thread's new position, to
  what it does to the variable, and to the object's new state. A signal wakes one sleeper if
  there is one; sleepers may also wake up by themselves.
\<close>

type_synonym ('act, 'pc, 's) pass = "nat \<Rightarrow> 'act \<Rightarrow> 'pc \<Rightarrow> 's \<Rightarrow> ('pc \<times> wake \<times> 's) option"

inductive mon_step :: "('act, 'pc, 's) pass \<Rightarrow> ('pc \<Rightarrow> 'pc) \<Rightarrow> ('pc \<Rightarrow> bool) \<Rightarrow> 's \<times> 'pc list \<Rightarrow> 's \<times> 'pc list \<Rightarrow> bool"
  for pass :: "('act, 'pc, 's) pass" and wk :: "'pc \<Rightarrow> 'pc" and asl :: "'pc \<Rightarrow> bool" where
  mon_quiet: "t < length pcs \<Longrightarrow> pass t a (pcs ! t) s = Some (pc', NoWake, s') \<Longrightarrow>
     mon_step pass wk asl (s, pcs) (s', pcs[t := pc'])"
| mon_signal: "t < length pcs \<Longrightarrow> pass t a (pcs ! t) s = Some (pc', Signal, s') \<Longrightarrow>
     u < length pcs \<Longrightarrow> asl (pcs[t := pc'] ! u) \<or> (\<forall>pc\<in>set (pcs[t := pc']). \<not> asl pc) \<Longrightarrow>
     mon_step pass wk asl (s, pcs) (s', (pcs[t := pc'])[u := wk (pcs[t := pc'] ! u)])"
| mon_broadcast: "t < length pcs \<Longrightarrow> pass t a (pcs ! t) s = Some (pc', Broadcast, s') \<Longrightarrow>
     mon_step pass wk asl (s, pcs) (s', map wk (pcs[t := pc']))"
| mon_spurious: "t < length pcs \<Longrightarrow> mon_step pass wk asl (s, pcs) (s, pcs[t := wk (pcs ! t)])"

inductive mon_reach :: "('act, 'pc, 's) pass \<Rightarrow> ('pc \<Rightarrow> 'pc) \<Rightarrow> ('pc \<Rightarrow> bool) \<Rightarrow> 's \<times> 'pc list \<Rightarrow> 's \<times> 'pc list \<Rightarrow> bool"
  for pass :: "('act, 'pc, 's) pass" and wk :: "'pc \<Rightarrow> 'pc" and asl :: "'pc \<Rightarrow> bool" where
  mon_refl: "mon_reach pass wk asl c c"
| mon_more: "mon_reach pass wk asl c c' \<Longrightarrow> mon_step pass wk asl c' c'' \<Longrightarrow> mon_reach pass wk asl c c''"

inductive_cases mon_step_cases: "mon_step pass wk asl c c'"

text \<open>An invariant: every pass keeps it up to the wakeups it asks for, and so does waking any thread.\<close>

locale monitor_invariant =
  fixes pass :: "('act, 'pc, 's) pass" and wk :: "'pc \<Rightarrow> 'pc" and asl :: "'pc \<Rightarrow> bool"
    and inv :: "'s \<times> 'pc list \<Rightarrow> bool"
  assumes keeps_quiet: "inv (s, pcs) \<Longrightarrow> t < length pcs \<Longrightarrow> pass t a (pcs ! t) s = Some (pc', NoWake, s') \<Longrightarrow>
      inv (s', pcs[t := pc'])"
    and keeps_signal: "inv (s, pcs) \<Longrightarrow> t < length pcs \<Longrightarrow> pass t a (pcs ! t) s = Some (pc', Signal, s') \<Longrightarrow>
      u < length pcs \<Longrightarrow> asl (pcs[t := pc'] ! u) \<or> (\<forall>pc\<in>set (pcs[t := pc']). \<not> asl pc) \<Longrightarrow>
      inv (s', (pcs[t := pc'])[u := wk (pcs[t := pc'] ! u)])"
    and keeps_broadcast: "inv (s, pcs) \<Longrightarrow> t < length pcs \<Longrightarrow> pass t a (pcs ! t) s = Some (pc', Broadcast, s') \<Longrightarrow>
      inv (s', map wk (pcs[t := pc']))"
    and keeps_wakeup: "inv (s, pcs) \<Longrightarrow> t < length pcs \<Longrightarrow> inv (s, pcs[t := wk (pcs ! t)])"
begin

lemma step_inv: "mon_step pass wk asl c c' \<Longrightarrow> inv c \<Longrightarrow> inv c'"
  by (induction rule: mon_step.induct) (auto intro: keeps_quiet keeps_signal keeps_broadcast keeps_wakeup)

lemma reach_inv: "mon_reach pass wk asl c c' \<Longrightarrow> inv c \<Longrightarrow> inv c'"
  by (induction rule: mon_reach.induct) (auto intro: step_inv)

end

text \<open>An invariant of the object alone, whatever the threads do.\<close>

locale monitor_state =
  fixes pass :: "('act, 'pc, 's) pass" and wk :: "'pc \<Rightarrow> 'pc" and asl :: "'pc \<Rightarrow> bool"
    and P :: "'s \<Rightarrow> bool"
  assumes keeps: "P s \<Longrightarrow> pass t a pc s = Some (pc', w, s') \<Longrightarrow> P s'"

sublocale monitor_state \<subseteq> monitor_invariant pass wk asl "\<lambda>c. P (fst c)"
  by unfold_locales (auto intro: keeps)

end
