(* ===== verification/OSEvent.thy ===== *)
theory OSEvent imports Monitor begin

text \<open>
  \<open>os/generic/CtrlrFx/OSEvent.h\<close> and \<open>src/os/generic/OSEvent.cpp\<close>: events made of a condition
  variable, which stay signaled until they are reset (manual reset) or until they release
  one waiting thread (automatic reset).
\<close>

record osev =
  ev_manual :: bool
  ev_sig :: bool

definition EV_AUTO_RESET :: bool where "EV_AUTO_RESET = False"
definition EV_MANUAL_RESET :: bool where "EV_MANUAL_RESET = True"

definition ev_ctor :: "bool \<Rightarrow> bool \<Rightarrow> osev" where "ev_ctor manual sig = \<lparr>ev_manual = manual, ev_sig = sig\<rparr>"
definition ev_ctor_manual :: osev where "ev_ctor_manual = ev_ctor EV_MANUAL_RESET False"
definition ev_ctor_manual_sig :: "bool \<Rightarrow> osev" where "ev_ctor_manual_sig sig = ev_ctor EV_MANUAL_RESET sig"
definition ev_ctor_auto :: osev where "ev_ctor_auto = ev_ctor EV_AUTO_RESET False"
definition ev_ctor_auto_sig :: "bool \<Rightarrow> osev" where "ev_ctor_auto_sig sig = ev_ctor EV_AUTO_RESET sig"

section \<open>The methods, pass by pass\<close>

text \<open>\<open>None\<close>: the thread waits on the condition variable. The timed \<open>wait\<close> makes the same
  passes, and returns false when its wait on the variable times out.\<close>

definition ev_wait :: "osev \<Rightarrow> osev option" where
  "ev_wait s = (if \<not> ev_sig s then None else Some (if \<not> ev_manual s then s\<lparr>ev_sig := False\<rparr> else s))"

definition ev_wait_for :: "bool \<Rightarrow> osev \<Rightarrow> (bool \<times> osev) option" where
  "ev_wait_for timeout s =
     (if \<not> ev_sig s \<or> timeout then (if timeout then Some (False, s) else None)
      else Some (True, if \<not> ev_manual s then s\<lparr>ev_sig := False\<rparr> else s))"

definition ev_trywait :: "bool \<Rightarrow> osev \<Rightarrow> bool \<times> osev" where
  "ev_trywait busy s = (if busy then (False, s) else (let ret = ev_sig s in (ret, s\<lparr>ev_sig := False\<rparr>)))"

definition ev_signal :: "osev \<Rightarrow> wake \<times> osev" where
  "ev_signal s = (if ev_manual s then Broadcast else Signal, s\<lparr>ev_sig := True\<rparr>)"

definition ev_reset :: "osev \<Rightarrow> osev" where "ev_reset s = s\<lparr>ev_sig := False\<rparr>"

section \<open>Threads\<close>

text \<open>A thread runs, sleeps in one of the waits (\<open>True\<close>: a timed one), or has been woken up
  there. It counts its waits that succeeded and its calls of \<open>signal\<close>.\<close>

datatype ev_pc = EvRun nat nat | EvSleep bool nat nat | EvWoken bool nat nat

fun ev_waits :: "ev_pc \<Rightarrow> nat" where
  "ev_waits (EvRun w g) = w"
| "ev_waits (EvSleep b w g) = w"
| "ev_waits (EvWoken b w g) = w"

fun ev_signals :: "ev_pc \<Rightarrow> nat" where
  "ev_signals (EvRun w g) = g"
| "ev_signals (EvSleep b w g) = g"
| "ev_signals (EvWoken b w g) = g"

fun ev_wake :: "ev_pc \<Rightarrow> ev_pc" where
  "ev_wake (EvSleep b w g) = EvWoken b w g"
| "ev_wake pc = pc"

fun ev_asleep :: "ev_pc \<Rightarrow> bool" where
  "ev_asleep (EvSleep b w g) = True"
| "ev_asleep pc = False"

fun ev_woken :: "ev_pc \<Rightarrow> bool" where
  "ev_woken (EvWoken b w g) = True"
| "ev_woken pc = False"

datatype ev_act = EvWait | EvWaitFor | EvTry bool | EvSignal | EvReset | EvResume | EvTimeout

fun ev_thread :: "nat \<Rightarrow> ev_act \<Rightarrow> ev_pc \<Rightarrow> osev \<Rightarrow> (ev_pc \<times> wake \<times> osev) option" where
  "ev_thread t EvWait (EvRun w g) s =
     (case ev_wait s of None \<Rightarrow> Some (EvSleep False w g, NoWake, s) | Some s' \<Rightarrow> Some (EvRun (w + 1) g, NoWake, s'))"
| "ev_thread t EvResume (EvWoken False w g) s =
     (case ev_wait s of None \<Rightarrow> Some (EvSleep False w g, NoWake, s) | Some s' \<Rightarrow> Some (EvRun (w + 1) g, NoWake, s'))"
| "ev_thread t EvWaitFor (EvRun w g) s =
     (case ev_wait_for False s of None \<Rightarrow> Some (EvSleep True w g, NoWake, s)
      | Some (ok, s') \<Rightarrow> Some (EvRun (w + 1) g, NoWake, s'))"
| "ev_thread t EvResume (EvWoken True w g) s =
     (case ev_wait_for False s of None \<Rightarrow> Some (EvSleep True w g, NoWake, s)
      | Some (ok, s') \<Rightarrow> Some (EvRun (w + 1) g, NoWake, s'))"
| "ev_thread t EvTimeout (EvSleep True w g) s =
     (case ev_wait_for True s of None \<Rightarrow> None | Some (ok, s') \<Rightarrow> Some (EvRun w g, NoWake, s'))"
| "ev_thread t (EvTry busy) (EvRun w g) s =
     (let (ok, s') = ev_trywait busy s in Some (EvRun (if ok then w + 1 else w) g, NoWake, s'))"
| "ev_thread t EvSignal (EvRun w g) s = (let (k, s') = ev_signal s in Some (EvRun w (g + 1), k, s'))"
| "ev_thread t EvReset (EvRun w g) s = Some (EvRun w g, NoWake, ev_reset s)"
| "ev_thread t _ _ s = None"

abbreviation ev_reach :: "osev \<times> ev_pc list \<Rightarrow> osev \<times> ev_pc list \<Rightarrow> bool" where
  "ev_reach \<equiv> mon_reach ev_thread ev_wake ev_asleep"

section \<open>Invariant\<close>

definition ev_total :: "(ev_pc \<Rightarrow> nat) \<Rightarrow> ev_pc list \<Rightarrow> int" where
  "ev_total f pcs = sum_list (map (\<lambda>pc. int (f pc)) pcs)"

text \<open>An automatic event that was initially signaled (\<open>init\<close>) or not never releases more threads than it was
  signaled; while it is signaled, sleepers have a woken thread among them; a manual one has no sleepers then.\<close>

definition ev_inv :: "bool \<Rightarrow> bool \<Rightarrow> osev \<times> ev_pc list \<Rightarrow> bool" where
  "ev_inv manual init c \<longleftrightarrow> (case c of (s, pcs) \<Rightarrow> ev_manual s = manual \<and>
     (\<not> manual \<longrightarrow> ev_total ev_waits pcs + ind (ev_sig s) \<le> ev_total ev_signals pcs + ind init) \<and>
     (ev_sig s \<longrightarrow> (\<exists>pc\<in>set pcs. ev_asleep pc) \<longrightarrow> \<not> manual \<and> (\<exists>pc\<in>set pcs. ev_woken pc)))"

lemma ev_total_upd: "t < length pcs \<Longrightarrow> ev_total f (pcs[t := pc']) = ev_total f pcs + int (f pc') - int (f (pcs ! t))"
proof (induction pcs arbitrary: t)
  case (Cons x pcs)
  then show ?case by (cases t) (auto simp: ev_total_def)
qed simp

lemma ev_wake_simps [simp]:
  "ev_waits (ev_wake pc) = ev_waits pc" "ev_signals (ev_wake pc) = ev_signals pc" "\<not> ev_asleep (ev_wake pc)"
  "ev_woken pc \<Longrightarrow> ev_wake pc = pc" "ev_woken (ev_wake pc) \<longleftrightarrow> ev_woken pc \<or> ev_asleep pc"
  by (cases pc; simp)+

lemma ev_total_wake [simp]: "ev_total ev_waits (map ev_wake pcs) = ev_total ev_waits pcs"
  "ev_total ev_signals (map ev_wake pcs) = ev_total ev_signals pcs"
  by (simp_all add: ev_total_def comp_def)

text \<open>The passes of a thread.\<close>

lemma ev_thread_cases:
  assumes "ev_thread t a pc s = Some (pc', k, s')"
  obtains (Released) "k = NoWake" "ev_sig s" "\<not> ev_asleep pc" "\<not> ev_asleep pc'" "ev_waits pc' = ev_waits pc + 1"
      "ev_signals pc' = ev_signals pc" "s' = s \<and> ev_manual s \<or> s' = s\<lparr>ev_sig := False\<rparr>"
  | (Slept) "k = NoWake" "\<not> ev_sig s" "ev_waits pc' = ev_waits pc" "ev_signals pc' = ev_signals pc" "s' = s"
  | (Idle) "k = NoWake" "\<not> ev_woken pc" "\<not> ev_asleep pc'" "ev_waits pc' = ev_waits pc" "ev_signals pc' = ev_signals pc"
      "s' = s \<or> s' = s\<lparr>ev_sig := False\<rparr>"
  | (Signals) "k = (if ev_manual s then Broadcast else Signal)" "\<not> ev_asleep pc'"
      "ev_waits pc' = ev_waits pc" "ev_signals pc' = ev_signals pc + 1" "s' = s\<lparr>ev_sig := True\<rparr>"
proof -
  note d = ev_wait_def ev_wait_for_def ev_trywait_def ev_signal_def ev_reset_def Let_def
  show ?thesis
  proof (cases pc)
    case (EvRun w g)
    show ?thesis
    proof (cases a)
      case EvWait
      then show ?thesis using assms EvRun by (cases "ev_sig s") (auto simp: d intro: Released Slept split: if_splits)
    next
      case EvWaitFor
      then show ?thesis using assms EvRun by (cases "ev_sig s") (auto simp: d intro: Released Slept split: if_splits)
    next
      case (EvTry busy)
      then show ?thesis using assms EvRun
        by (cases busy; cases "ev_sig s") (auto simp: d intro: Released Idle split: if_splits)
    next
      case EvSignal
      then show ?thesis using assms EvRun by (intro Signals) (auto simp: d)
    next
      case EvReset
      then show ?thesis using assms EvRun by (intro Idle) (auto simp: d)
    qed (use assms EvRun in simp_all)
  next
    case (EvSleep b w g)
    then show ?thesis using assms by (cases a; cases b) (auto simp: d intro: Idle)
  next
    case (EvWoken b w g)
    then show ?thesis using assms
      by (cases a; cases b; cases "ev_sig s") (auto simp: d intro: Released Slept split: if_splits)
  qed
qed

lemma ev_inv_wake: "ev_inv manual init (s, pcs) \<Longrightarrow> t < length pcs \<Longrightarrow> ev_inv manual init (s, pcs[t := ev_wake (pcs ! t)])"
proof -
  assume inv: "ev_inv manual init (s, pcs)" and t: "t < length pcs"
  let ?pcs = "pcs[t := ev_wake (pcs ! t)]"
  have woken: "\<exists>pc\<in>set ?pcs. ev_woken pc" if w: "\<exists>pc\<in>set pcs. ev_woken pc"
  proof -
    obtain u where u: "u < length pcs" "ev_woken (pcs ! u)" using w by (auto simp: in_set_conv_nth)
    then have "ev_woken (?pcs ! u)" by (cases "u = t") auto
    then show ?thesis using u(1) by (metis length_list_update nth_mem)
  qed
  have "\<exists>pc\<in>set pcs. ev_asleep pc" if "\<exists>pc\<in>set ?pcs. ev_asleep pc"
    using that set_update_subset_insert [of pcs t "ev_wake (pcs ! t)"] by auto
  then show ?thesis using inv t woken by (auto simp: ev_inv_def ev_total_upd)
qed

text \<open>A pass that asks for no wakeup, and the first half of one that does.\<close>

lemma ev_inv_upd:
  assumes inv: "ev_inv manual init (s, pcs)" and t: "t < length pcs" and th: "ev_thread t a (pcs ! t) s = Some (pc', k, s')"
  shows "ev_manual s' = manual \<and> (\<not> manual \<longrightarrow>
      ev_total ev_waits (pcs[t := pc']) + ind (ev_sig s') \<le> ev_total ev_signals (pcs[t := pc']) + ind init) \<and>
    (k = NoWake \<longrightarrow> ev_inv manual init (s', pcs[t := pc']))"
proof -
  let ?pcs = "pcs[t := pc']"
  have m: "ev_manual s = manual"
    and counts: "\<not> manual \<Longrightarrow> ev_total ev_waits pcs + ind (ev_sig s) \<le> ev_total ev_signals pcs + ind init"
    and wait: "ev_sig s \<Longrightarrow> \<exists>pc\<in>set pcs. ev_asleep pc \<Longrightarrow> \<not> manual \<and> (\<exists>pc\<in>set pcs. ev_woken pc)"
    using inv unfolding ev_inv_def prod.case by blast+
  have sleepers: "\<exists>pc\<in>set pcs. ev_asleep pc" if "\<exists>pc\<in>set ?pcs. ev_asleep pc" "\<not> ev_asleep pc'"
    using that set_update_subset_insert [of pcs t pc'] by auto
  have woken: "\<exists>pc\<in>set ?pcs. ev_woken pc" if w: "\<exists>pc\<in>set pcs. ev_woken pc" and n: "\<not> ev_woken (pcs ! t)"
  proof -
    obtain u where u: "u < length pcs" "ev_woken (pcs ! u)" using w by (auto simp: in_set_conv_nth)
    then have "ev_woken (?pcs ! u)" using n by (cases "u = t") auto
    then show ?thesis using u(1) by (metis length_list_update nth_mem)
  qed
  from th show ?thesis
  proof (cases rule: ev_thread_cases)
    case Released
    have "manual \<Longrightarrow> \<not> (\<exists>pc\<in>set ?pcs. ev_asleep pc)" using wait Released(2,4) sleepers by blast
    then show ?thesis using Released m counts t by (auto simp: ev_inv_def ev_total_upd)
  next
    case Slept
    then show ?thesis using m counts t by (auto simp: ev_inv_def ev_total_upd)
  next
    case Idle
    then show ?thesis using m counts wait sleepers woken t by (auto simp: ev_inv_def ev_total_upd split: if_splits)
  next
    case Signals
    then show ?thesis using m counts t by (auto simp: ev_total_upd split: if_splits)
  qed
qed

interpretation event: monitor_invariant ev_thread ev_wake ev_asleep "ev_inv manual init"
proof unfold_locales
  fix s s' :: osev and pcs t a pc'
  assume "ev_inv manual init (s, pcs)" "t < length pcs" "ev_thread t a (pcs ! t) s = Some (pc', NoWake, s')"
  then show "ev_inv manual init (s', pcs[t := pc'])" using ev_inv_upd by blast
next
  fix s s' :: osev and pcs t a pc' u
  assume a: "ev_inv manual init (s, pcs)" "t < length pcs" "ev_thread t a (pcs ! t) s = Some (pc', Signal, s')" "u < length pcs"
    "ev_asleep (pcs[t := pc'] ! u) \<or> (\<forall>pc\<in>set (pcs[t := pc']). \<not> ev_asleep pc)"
  let ?pcs = "(pcs[t := pc'])[u := ev_wake (pcs[t := pc'] ! u)]"
  note up = ev_inv_upd [OF a(1-3)]
  have "\<not> manual" using a(1,3) by (cases rule: ev_thread_cases [OF a(3)]) (auto simp: ev_inv_def split: if_splits)
  moreover have "\<exists>pc\<in>set ?pcs. ev_woken pc" if "\<exists>pc\<in>set ?pcs. ev_asleep pc"
    using a(5)
  proof
    assume "ev_asleep (pcs[t := pc'] ! u)"
    then show ?thesis using a(4) by (metis ev_wake_simps(5) length_list_update set_update_memI)
  next
    assume "\<forall>pc\<in>set (pcs[t := pc']). \<not> ev_asleep pc"
    then show ?thesis using that set_update_subset_insert [of "pcs[t := pc']" u "ev_wake (pcs[t := pc'] ! u)"] by auto
  qed
  ultimately show "ev_inv manual init (s', ?pcs)" using up a(4) by (auto simp: ev_inv_def ev_total_upd)
next
  fix s s' :: osev and pcs t a pc'
  assume a: "ev_inv manual init (s, pcs)" "t < length pcs" "ev_thread t a (pcs ! t) s = Some (pc', Broadcast, s')"
  have "\<not> (\<exists>pc\<in>set (map ev_wake (pcs[t := pc'])). ev_asleep pc)" by auto
  then show "ev_inv manual init (s', map ev_wake (pcs[t := pc']))"
    using ev_inv_upd [OF a] unfolding ev_inv_def prod.case ev_total_wake by blast
next
  fix s :: osev and pcs t
  assume "ev_inv manual init (s, pcs)" "t < length pcs"
  then show "ev_inv manual init (s, pcs[t := ev_wake (pcs ! t)])" by (rule ev_inv_wake)
qed

lemma ev_init_inv: "ev_inv manual init (ev_ctor manual init, replicate n (EvRun 0 0))"
  by (auto simp: ev_inv_def ev_ctor_def ev_total_def)

section \<open>Properties\<close>

text \<open>C20: An automatic event releases no more waits than it was signaled, counting its initial state, and what is
  left is at most one; in every interleaving of waits, timed waits, \<open>trywait\<close>, \<open>signal\<close> and \<open>reset\<close>.\<close>

theorem auto_event_releases_once_per_signal:
  assumes "ev_reach (ev_ctor_auto_sig init, replicate n (EvRun 0 0)) (s, pcs)"
  shows "ev_total ev_waits pcs + ind (ev_sig s) \<le> ev_total ev_signals pcs + ind init"
  using event.reach_inv [OF assms, of False init] ev_init_inv [of False init n]
  by (simp add: ev_inv_def ev_ctor_auto_sig_def EV_AUTO_RESET_def)

text \<open>A signaled event does not leave a thread asleep: while an event of either kind is signaled and a thread
  sleeps in one of the waits, the event is automatic and a thread that was woken up is about to take the signal.\<close>

theorem event_no_lost_wakeup:
  assumes "ev_reach (ev_ctor manual init, replicate n (EvRun 0 0)) (s, pcs)" "ev_sig s" "pc \<in> set pcs" "ev_asleep pc"
  shows "\<not> manual \<and> (\<exists>pc'\<in>set pcs. ev_woken pc')"
  using event.reach_inv [OF assms(1) ev_init_inv] assms(2-4) by (auto simp: ev_inv_def)

text \<open>Three threads on an automatic event: two go to sleep, the third signals it once.\<close>

lemma ev_demo_reach:
  "ev_reach (ev_ctor False False, replicate 3 (EvRun 0 0))
     (\<lparr>ev_manual = False, ev_sig = True\<rparr>, [EvSleep False 0 0, EvWoken True 0 0, EvRun 0 1])"
proof -
  let ?s = "\<lparr>ev_manual = False, ev_sig = False\<rparr>"
  have "ev_reach (?s, [EvRun 0 0, EvRun 0 0, EvRun 0 0]) (?s, [EvRun 0 0, EvRun 0 0, EvRun 0 0])" by (rule mon_refl)
  from mon_more [OF this mon_quiet [of 0 _ _ EvWait _ "EvSleep False 0 0" ?s]]
  have "ev_reach (?s, [EvRun 0 0, EvRun 0 0, EvRun 0 0]) (?s, [EvSleep False 0 0, EvRun 0 0, EvRun 0 0])"
    by (simp add: ev_wait_def)
  from mon_more [OF this mon_quiet [of 1 _ _ EvWaitFor _ "EvSleep True 0 0" ?s]]
  have "ev_reach (?s, [EvRun 0 0, EvRun 0 0, EvRun 0 0]) (?s, [EvSleep False 0 0, EvSleep True 0 0, EvRun 0 0])"
    by (simp add: ev_wait_for_def)
  from mon_more [OF this mon_signal [of 2 _ _ EvSignal _ "EvRun 0 1" "?s\<lparr>ev_sig := True\<rparr>" 1]]
  show ?thesis by (simp add: ev_signal_def ev_ctor_def numeral_3_eq_3)
qed

theorem auto_event_releases_once_per_signal_witness:
  "ev_total ev_waits [EvSleep False 0 0, EvWoken True 0 0, EvRun 0 1] + 1
     \<le> ev_total ev_signals [EvSleep False 0 0, EvWoken True 0 0, EvRun 0 1]"
  using auto_event_releases_once_per_signal [of False 3 "\<lparr>ev_manual = False, ev_sig = True\<rparr>"
      "[EvSleep False 0 0, EvWoken True 0 0, EvRun 0 1]"] ev_demo_reach
  by (simp add: ev_ctor_auto_sig_def EV_AUTO_RESET_def)

theorem event_no_lost_wakeup_witness:
  "\<exists>pc'\<in>set [EvSleep False 0 0, EvWoken True 0 0, EvRun 0 1]. ev_woken pc'"
  using event_no_lost_wakeup [OF ev_demo_reach, of "EvSleep False 0 0"] by simp

text \<open>\<open>trywait\<close> resets a manual event too, unlike the waits.\<close>

theorem trywait_resets_manual_event:
  "ev_trywait False (ev_ctor_manual_sig True) = (True, ev_ctor_manual_sig False) \<and>
   ev_wait (ev_ctor_manual_sig True) = Some (ev_ctor_manual_sig True)"
  by (simp add: ev_trywait_def ev_wait_def ev_ctor_manual_sig_def ev_ctor_def EV_MANUAL_RESET_def Let_def)

end
