(* ===== verification/MsgQueue.thy ===== *)
theory MsgQueue imports Cfx_Memory Cfx_Interfaces Locks begin

text \<open>
  \<open>CtrlrFx/MsgQueue.h\<close> as one thread sees it while no other runs: the circular queue that
  is guarded by a lock of type \<open>L\<close> and counted by two semaphores. A call that would wait
  for another thread is \<open>Blocks\<close>. What the same operations do when threads interleave is
  the subject of \<open>MsgQueueSteps\<close>.
\<close>

record 'l mq =
  mq_lock :: 'l
  mq_sz :: int
  mq_buf :: int
  mq_putp :: int
  mq_getp :: int
  mq_end :: int
  mq_own :: bool
  mq_slot :: sema
  mq_data :: sema

definition mq_capacity :: "'l mq \<Rightarrow> int" where
  "mq_capacity q = u64 (mq_end q - mq_buf q)"

definition mq_next :: "'l mq \<Rightarrow> int \<Rightarrow> int" where
  "mq_next q p = (let p' = p + 1 in if p' = mq_end q then mq_buf q else p')"

section \<open>Lifetime\<close>

text \<open>\<open>while (sem.tryacquire());\<close>\<close>

function sema_drain :: "sema \<Rightarrow> sema run" where
  "sema_drain s =
     (case sema_tryacquire s of
        Ret (b, s') \<Rightarrow> if b then sema_drain s' else Ret s'
      | Blocks \<Rightarrow> Blocks | Undef \<Rightarrow> Undef)"
  by pat_completeness auto
termination
  by (relation "measure (\<lambda>s. nat (sm_cnt s))") (auto simp: sema_defs split: if_splits)

declare sema_drain.simps [simp del]

lemma sema_drain_tokens [simp]: "0 \<le> n \<Longrightarrow> sema_drain (tokens n) = Ret (tokens 0)"
proof (induction "nat n" arbitrary: n)
  case 0
  then show ?case by (simp add: sema_drain.simps)
next
  case (Suc k)
  then have "sema_drain (tokens (n - 1)) = Ret (tokens 0)" by simp
  then show ?case using Suc.hyps(2) by (simp add: sema_drain.simps [of "tokens n"])
qed

definition mq_destroy :: "'l mq \<Rightarrow> 'a mem \<Rightarrow> ('l mq \<times> 'a mem) run" where
  "mq_destroy q m =
     run_then (if mq_own q then run_opt (mem_delete (mq_buf q) m) else Ret m) (\<lambda>m'.
     run_then (sema_drain (mq_data q)) (\<lambda>d.
     run_then (sema_drain (mq_slot q)) (\<lambda>s.
       Ret (q\<lparr>mq_own := False, mq_data := d, mq_slot := s, mq_sz := 0,
              mq_buf := 0, mq_putp := 0, mq_getp := 0, mq_end := 0\<rparr>, m'))))"

definition mq_set_buffer :: "int \<Rightarrow> int \<Rightarrow> bool \<Rightarrow> 'l mq \<Rightarrow> 'a mem \<Rightarrow> ('l mq \<times> 'a mem) run" where
  "mq_set_buffer buf cap own q m =
     run_then (mq_destroy q m) (\<lambda>(q, m).
       if buf \<noteq> 0 \<and> cap \<noteq> 0 then
         run_then (run_times (nat cap) sema_post (mq_slot q)) (\<lambda>s.
           Ret (q\<lparr>mq_buf := buf, mq_putp := buf, mq_getp := buf, mq_end := buf + cap,
                  mq_own := own, mq_slot := s\<rparr>, m))
       else Ret (q, m))"

definition mq_resize :: "int \<Rightarrow> 'l mq \<Rightarrow> 'a mem \<Rightarrow> ('l mq \<times> 'a mem) run" where
  "mq_resize cap q m =
     (if 0 < cap then let (p, m') = mem_new cap m in mq_set_buffer p cap True q m'
      else mq_destroy q m)"

text \<open>
  The constructors leave the pointers unset (the default one) and construct the lock and
  the semaphores: \<open>l\<close> is the fresh lock and \<open>q\<close> the storage before.
\<close>

definition mq_ctor :: "'l \<Rightarrow> 'l mq \<Rightarrow> 'l mq" where
  "mq_ctor l q = q\<lparr>mq_lock := l, mq_sz := 0, mq_own := False, mq_slot := sema_ctor, mq_data := sema_ctor\<rparr>"

definition mq_ctor_cap :: "'l \<Rightarrow> int \<Rightarrow> 'l mq \<Rightarrow> 'a mem \<Rightarrow> ('l mq \<times> 'a mem) run" where
  "mq_ctor_cap l cap q m =
     mq_resize cap (q\<lparr>mq_lock := l, mq_own := False, mq_slot := sema_ctor, mq_data := sema_ctor\<rparr>) m"

definition mq_ctor_arr :: "'l \<Rightarrow> int \<Rightarrow> int \<Rightarrow> bool \<Rightarrow> 'l mq \<Rightarrow> 'a mem \<Rightarrow> ('l mq \<times> 'a mem) run" where
  "mq_ctor_arr l arr cap own q m =
     mq_set_buffer arr cap own (q\<lparr>mq_lock := l, mq_own := False, mq_slot := sema_ctor, mq_data := sema_ctor\<rparr>) m"

definition mq_dtor :: "'l mq \<Rightarrow> 'a mem \<Rightarrow> ('l mq \<times> 'a mem) run" where
  "mq_dtor q m = mq_destroy q m"

section \<open>Guarded sections\<close>

definition mq_do_put :: "'l locktype \<Rightarrow> 'a \<Rightarrow> 'l mq \<Rightarrow> 'a mem \<Rightarrow> (bool \<times> 'l mq \<times> 'a mem) run" where
  "mq_do_put L v q m =
     run_then (guard_ctor L (mq_lock q)) (\<lambda>g.
     run_then (run_opt (wr m (mq_putp q) v)) (\<lambda>m'.
       let q = q\<lparr>mq_putp := mq_next q (mq_putp q)\<rparr>;
           q = q\<lparr>mq_sz := u64 (mq_sz q + 1)\<rparr>
       in run_then (guard_release L g) (\<lambda>g.
          run_then (sema_post (mq_data q)) (\<lambda>d.
          run_then (guard_dtor L g) (\<lambda>l.
            Ret (True, q\<lparr>mq_data := d, mq_lock := l\<rparr>, m'))))))"

definition mq_do_get :: "'l locktype \<Rightarrow> 'l mq \<Rightarrow> 'a mem \<Rightarrow> (bool \<times> 'a \<times> 'l mq) run" where
  "mq_do_get L q m =
     run_then (guard_ctor L (mq_lock q)) (\<lambda>g.
     run_then (run_opt (rd m (mq_getp q))) (\<lambda>x.
       let q = q\<lparr>mq_getp := mq_next q (mq_getp q)\<rparr>;
           q = q\<lparr>mq_sz := u64 (mq_sz q - 1)\<rparr>
       in run_then (guard_release L g) (\<lambda>g.
          run_then (sema_post (mq_slot q)) (\<lambda>s.
          run_then (guard_dtor L g) (\<lambda>l.
            Ret (True, x, q\<lparr>mq_slot := s, mq_lock := l\<rparr>))))))"

text \<open>The queries hold the lock while they read.\<close>

definition mq_size :: "'l locktype \<Rightarrow> 'l mq \<Rightarrow> (int \<times> 'l mq) run" where
  "mq_size L q =
     run_then (guard_ctor L (mq_lock q)) (\<lambda>g. let sz = mq_sz q in
     run_then (guard_dtor L g) (\<lambda>l. Ret (sz, q\<lparr>mq_lock := l\<rparr>)))"

definition mq_available :: "'l locktype \<Rightarrow> 'l mq \<Rightarrow> (int \<times> 'l mq) run" where
  "mq_available L q =
     run_then (guard_ctor L (mq_lock q)) (\<lambda>g. let n = mq_sz q in
     run_then (guard_dtor L g) (\<lambda>l. Ret (n, q\<lparr>mq_lock := l\<rparr>)))"

definition mq_remaining :: "'l locktype \<Rightarrow> 'l mq \<Rightarrow> (int \<times> 'l mq) run" where
  "mq_remaining L q =
     run_then (guard_ctor L (mq_lock q)) (\<lambda>g. let n = u64 (mq_capacity q - mq_sz q) in
     run_then (guard_dtor L g) (\<lambda>l. Ret (n, q\<lparr>mq_lock := l\<rparr>)))"

definition mq_full :: "'l locktype \<Rightarrow> 'l mq \<Rightarrow> (bool \<times> 'l mq) run" where
  "mq_full L q = run_then (mq_size L q) (\<lambda>(n, q'). Ret (n = 0, q'))"

definition mq_empty :: "'l locktype \<Rightarrow> 'l mq \<Rightarrow> (bool \<times> 'l mq) run" where
  "mq_empty L q = run_then (mq_remaining L q) (\<lambda>(n, q'). Ret (n = 0, q'))"

section \<open>Operations\<close>

definition mq_put :: "'l locktype \<Rightarrow> 'a \<Rightarrow> 'l mq \<Rightarrow> 'a mem \<Rightarrow> ('l mq \<times> 'a mem) run" where
  "mq_put L v q m =
     run_then (sema_acquire (mq_slot q)) (\<lambda>s.
     run_then (mq_do_put L v (q\<lparr>mq_slot := s\<rparr>) m) (\<lambda>(_, q', m'). Ret (q', m')))"

definition mq_put_for :: "'l locktype \<Rightarrow> 'a \<Rightarrow> 'l mq \<Rightarrow> 'a mem \<Rightarrow> (bool \<times> 'l mq \<times> 'a mem) run" where
  "mq_put_for L v q m =
     run_then (sema_acquire_for (mq_slot q)) (\<lambda>(b, s).
       if \<not> b then Ret (False, q\<lparr>mq_slot := s\<rparr>, m) else mq_do_put L v (q\<lparr>mq_slot := s\<rparr>) m)"

definition mq_tryput :: "'l locktype \<Rightarrow> 'a \<Rightarrow> 'l mq \<Rightarrow> 'a mem \<Rightarrow> (bool \<times> 'l mq \<times> 'a mem) run" where
  "mq_tryput L v q m =
     run_then (sema_tryacquire (mq_slot q)) (\<lambda>(b, s).
       if \<not> b then Ret (False, q\<lparr>mq_slot := s\<rparr>, m) else mq_do_put L v (q\<lparr>mq_slot := s\<rparr>) m)"

text \<open>\<open>release()\<close> puts a default item, \<open>zero\<close>.\<close>

definition mq_release :: "'l locktype \<Rightarrow> 'a \<Rightarrow> 'l mq \<Rightarrow> 'a mem \<Rightarrow> ('l mq \<times> 'a mem) run" where
  "mq_release L zero q m = mq_put L zero q m"

definition mq_get :: "'l locktype \<Rightarrow> 'l mq \<Rightarrow> 'a mem \<Rightarrow> ('a \<times> 'l mq) run" where
  "mq_get L q m =
     run_then (sema_acquire (mq_data q)) (\<lambda>d.
     run_then (mq_do_get L (q\<lparr>mq_data := d\<rparr>) m) (\<lambda>(_, v, q'). Ret (v, q')))"

definition mq_get_to :: "'l locktype \<Rightarrow> 'l mq \<Rightarrow> 'a mem \<Rightarrow> ('a \<times> 'l mq) run" where
  "mq_get_to L q m =
     run_then (sema_acquire (mq_data q)) (\<lambda>d.
     run_then (mq_do_get L (q\<lparr>mq_data := d\<rparr>) m) (\<lambda>(_, v, q'). Ret (v, q')))"

definition mq_get_for :: "'l locktype \<Rightarrow> 'l mq \<Rightarrow> 'a mem \<Rightarrow> ('a option \<times> 'l mq) run" where
  "mq_get_for L q m =
     run_then (sema_acquire_for (mq_data q)) (\<lambda>(b, d).
       if \<not> b then Ret (None, q\<lparr>mq_data := d\<rparr>)
       else run_then (mq_do_get L (q\<lparr>mq_data := d\<rparr>) m) (\<lambda>(_, v, q'). Ret (Some v, q')))"

definition mq_tryget :: "'l locktype \<Rightarrow> 'l mq \<Rightarrow> 'a mem \<Rightarrow> ('a option \<times> 'l mq) run" where
  "mq_tryget L q m =
     run_then (sema_tryacquire (mq_data q)) (\<lambda>(b, d).
       if \<not> b then Ret (None, q\<lparr>mq_data := d\<rparr>)
       else run_then (mq_do_get L (q\<lparr>mq_data := d\<rparr>) m) (\<lambda>(_, v, q'). Ret (Some v, q')))"

definition mq_peek :: "'l locktype \<Rightarrow> 'l mq \<Rightarrow> 'a mem \<Rightarrow> ('a option \<times> 'l mq) run" where
  "mq_peek L q m =
     (if mq_sz q \<noteq> 0 then
        run_then (guard_ctor L (mq_lock q)) (\<lambda>g.
          run_then (if mq_sz q \<noteq> 0 then run_then (run_opt (rd m (mq_getp q))) (\<lambda>x. Ret (Some x)) else Ret None) (\<lambda>r.
          run_then (guard_dtor L g) (\<lambda>l. Ret (r, q\<lparr>mq_lock := l\<rparr>))))
      else Ret (None, q))"

section \<open>Invariant and abstraction\<close>

definition mq_inv :: "('l \<Rightarrow> bool) \<Rightarrow> 'l mq \<Rightarrow> 'a mem \<Rightarrow> bool" where
  "mq_inv free q m \<longleftrightarrow> free (mq_lock q) \<and> mq_buf q < mq_end q \<and>
     mq_buf q \<le> mq_getp q \<and> mq_getp q < mq_end q \<and> 0 \<le> mq_sz q \<and> mq_sz q \<le> mq_end q - mq_buf q \<and>
     mq_putp q = mq_buf q + (mq_getp q - mq_buf q + mq_sz q) mod (mq_end q - mq_buf q) \<and>
     mq_end q - mq_buf q \<le> 2147483647 \<and>
     mq_slot q = tokens (mq_end q - mq_buf q - mq_sz q) \<and> mq_data q = tokens (mq_sz q) \<and>
     live_range m (mq_buf q) (mq_end q - mq_buf q)"

definition mq_items :: "'l mq \<Rightarrow> 'a mem \<Rightarrow> 'a list" where
  "mq_items q m =
     map (\<lambda>i. m_val m (mq_buf q + (mq_getp q - mq_buf q + int i) mod (mq_end q - mq_buf q))) [0..<nat (mq_sz q)]"

definition mq_room :: "'l mq \<Rightarrow> nat" where
  "mq_room q = nat (mq_end q - mq_buf q)"

lemma mq_items_length: "mq_inv free q m \<Longrightarrow> int (length (mq_items q m)) = mq_sz q"
  by (simp add: mq_items_def mq_inv_def)

lemma mq_next_ring:
  "mq_buf q \<le> p \<Longrightarrow> p < mq_end q \<Longrightarrow> mq_next q p = mq_buf q + (p - mq_buf q + 1) mod (mq_end q - mq_buf q)"
  by (cases "p + 1 = mq_end q") (simp_all add: mq_next_def Let_def diff_add_eq)

lemma mq_put_cell:
  assumes "mq_inv free q m"
  shows "mq_buf q \<le> mq_putp q" "mq_putp q < mq_end q" "m_live m (mq_putp q)" "m_live m (mq_getp q)"
proof -
  define r where "r = (mq_getp q - mq_buf q + mq_sz q) mod (mq_end q - mq_buf q)"
  have n: "0 < mq_end q - mq_buf q" using assms by (simp add: mq_inv_def)
  have r: "0 \<le> r" "r < mq_end q - mq_buf q" using n by (simp_all add: r_def)
  have "mq_putp q = mq_buf q + r" using assms by (simp add: mq_inv_def r_def)
  then show "mq_buf q \<le> mq_putp q" "mq_putp q < mq_end q" using r by linarith+
  then show "m_live m (mq_putp q)" "m_live m (mq_getp q)"
    using assms live_range_nth [of m "mq_buf q" "mq_end q - mq_buf q"] by (simp_all add: mq_inv_def)
qed

context lockable
begin

lemma mq_do_put_ok:
  assumes L: "lt_acquire L = acquire" "lt_release L = release"
    and inv: "mq_inv free q m" and room: "mq_sz q < mq_end q - mq_buf q"
  shows "\<exists>q' m'. mq_do_put L v (q\<lparr>mq_slot := tokens (mq_end q - mq_buf q - mq_sz q - 1)\<rparr>) m = Ret (True, q', m') \<and>
    mq_inv free q' m' \<and> mq_items q' m' = mq_items q m @ [v] \<and> mq_room q' = mq_room q"
proof -
  define N where "N = mq_end q - mq_buf q"
  define g where "g = mq_getp q - mq_buf q"
  obtain l where l: "acquire (mq_lock q) = Ret l" "release l = Ret (mq_lock q)"
    using acquire_free inv by (auto simp: mq_inv_def)
  have sz: "0 \<le> mq_sz q" "mq_sz q < N" "N \<le> 2147483647" "mq_data q = tokens (mq_sz q)"
    using inv room by (simp_all add: mq_inv_def N_def)
  have live: "m_live m (mq_putp q)" by (rule mq_put_cell(3) [OF inv])
  define np where "np = mq_next q (mq_putp q)"
  define m' where "m' = m\<lparr>m_val := (m_val m)(mq_putp q := v)\<rparr>"
  define q' where "q' = q\<lparr>mq_slot := tokens (N - mq_sz q - 1), mq_putp := np,
              mq_sz := mq_sz q + 1, mq_data := tokens (mq_sz q + 1)\<rparr>"
  have "mq_next (q\<lparr>mq_slot := s\<rparr>) p = mq_next q p" for s p by (simp add: mq_next_def Let_def)
  then have run: "mq_do_put L v (q\<lparr>mq_slot := tokens (N - mq_sz q - 1)\<rparr>) m = Ret (True, q', m')"
    using l sz live
    by (simp add: mq_do_put_def guard_ctor_def guard_release_def guard_dtor_def wr_live L Let_def
        q'_def m'_def np_def)
  have putp: "mq_putp q = mq_buf q + (g + mq_sz q) mod N" using inv by (simp add: mq_inv_def N_def g_def)
  have np: "np = mq_buf q + (g + (mq_sz q + 1)) mod N"
    using mq_next_ring [OF mq_put_cell(1,2) [OF inv]] putp
    by (simp add: np_def N_def [symmetric] mod_simps add.assoc)
  have "mq_inv free q' m'"
    unfolding mq_inv_def q'_def m'_def using inv sz
    by (simp add: np live_range_def N_def [symmetric] g_def [symmetric]) (simp add: mq_inv_def N_def live_range_def)
  moreover have "mq_items q' m' = mq_items q m @ [v]"
  proof -
    have "(g + int i) mod N \<noteq> (g + mq_sz q) mod N" if "i < nat (mq_sz q)" for i
    proof -
      have "int i < mq_sz q" using that by linarith
      then show ?thesis using ring_mod_inj [of "int i" N "mq_sz q" g] sz by auto
    qed
    moreover have "nat (mq_sz q + 1) = Suc (nat (mq_sz q))" using sz by (simp add: nat_add_distrib)
    ultimately show ?thesis using sz
      by (simp add: mq_items_def q'_def m'_def putp N_def [symmetric] g_def [symmetric])
  qed
  moreover have "mq_room q' = mq_room q" by (simp add: mq_room_def q'_def)
  ultimately show ?thesis using run unfolding N_def by blast
qed

lemma mq_do_get_ok:
  assumes L: "lt_acquire L = acquire" "lt_release L = release"
    and inv: "mq_inv free q m" and items: "mq_items q m = x # xs"
  shows "\<exists>q'. mq_do_get L (q\<lparr>mq_data := tokens (mq_sz q - 1)\<rparr>) m = Ret (True, x, q') \<and>
    mq_inv free q' m \<and> mq_items q' m = xs \<and> mq_room q' = mq_room q"
proof -
  define N where "N = mq_end q - mq_buf q"
  define g where "g = mq_getp q - mq_buf q"
  obtain l where l: "acquire (mq_lock q) = Ret l" "release l = Ret (mq_lock q)"
    using acquire_free inv by (auto simp: mq_inv_def)
  have sz: "0 < mq_sz q" "mq_sz q \<le> N" "N \<le> 2147483647" "mq_slot q = tokens (N - mq_sz q)"
    using mq_items_length [OF inv] items inv by (simp_all add: mq_inv_def N_def)
  have gb: "0 \<le> g" "g < N" using inv by (simp_all add: g_def N_def mq_inv_def)
  have live: "m_live m (mq_getp q)" by (rule mq_put_cell(4) [OF inv])
  have split: "[0..<nat (mq_sz q)] = 0 # map Suc [0..<nat (mq_sz q - 1)]"
    using sz by (simp add: upt_conv_Cons map_Suc_upt nat_diff_distrib)
  have "x # xs = m_val m (mq_buf q + g mod N) #
      map (\<lambda>i. m_val m (mq_buf q + (g + int (Suc i)) mod N)) [0..<nat (mq_sz q - 1)]"
    using items by (simp add: mq_items_def split N_def [symmetric] g_def [symmetric] comp_def)
  then have x: "x = m_val m (mq_getp q)"
    and xs: "xs = map (\<lambda>i. m_val m (mq_buf q + (g + int (Suc i)) mod N)) [0..<nat (mq_sz q - 1)]"
    using gb by (simp_all add: g_def)
  define np where "np = mq_next q (mq_getp q)"
  define q' where "q' = q\<lparr>mq_data := tokens (mq_sz q - 1), mq_getp := np,
              mq_sz := mq_sz q - 1, mq_slot := tokens (N - (mq_sz q - 1))\<rparr>"
  have "mq_next (q\<lparr>mq_data := s\<rparr>) p = mq_next q p" for s p by (simp add: mq_next_def Let_def)
  then have run: "mq_do_get L (q\<lparr>mq_data := tokens (mq_sz q - 1)\<rparr>) m = Ret (True, x, q')"
    using l sz live
    by (simp add: mq_do_get_def guard_ctor_def guard_release_def guard_dtor_def rd_live L Let_def
        q'_def np_def x)
  define r where "r = (g + 1) mod N"
  have np: "np = mq_buf q + r"
    using mq_next_ring [of q "mq_getp q"] inv by (simp add: np_def r_def N_def g_def mq_inv_def)
  have rb: "0 \<le> r" "r < N" using gb by (simp_all add: r_def)
  have fwd: "(r + k) mod N = (g + 1 + k) mod N" for k by (simp add: r_def mod_simps)
  have putp: "mq_putp q = mq_buf q + (g + mq_sz q) mod N" using inv by (simp add: mq_inv_def N_def g_def)
  have "np < mq_end q" "mq_buf q \<le> np" using np rb by (simp_all add: N_def)
  moreover have "mq_putp q' = mq_buf q' + (mq_getp q' - mq_buf q' + mq_sz q') mod N"
    using putp fwd [of "mq_sz q - 1"] by (simp add: q'_def np)
  ultimately have "mq_inv free q' m"
    unfolding mq_inv_def using inv sz by (simp add: q'_def N_def) (simp add: mq_inv_def)
  moreover have "mq_items q' m = xs"
    by (simp add: mq_items_def xs q'_def np fwd N_def [symmetric] add.assoc)
  moreover have "mq_room q' = mq_room q" by (simp add: mq_room_def q'_def)
  ultimately show ?thesis using run by blast
qed

text \<open>Every public operation on a queue in a valid state, by how full it is.\<close>

lemma mq_puts_room:
  assumes L: "lt_acquire L = acquire" "lt_release L = release"
    and inv: "mq_inv free q m" and room: "length (mq_items q m) < mq_room q"
  shows "\<exists>q' m'. mq_put L v q m = Ret (q', m') \<and> mq_put_for L v q m = Ret (True, q', m') \<and>
    mq_tryput L v q m = Ret (True, q', m') \<and> mq_inv free q' m' \<and>
    mq_items q' m' = mq_items q m @ [v] \<and> mq_room q' = mq_room q"
proof -
  have sz: "mq_sz q < mq_end q - mq_buf q"
    using room mq_items_length [OF inv] by (simp add: mq_room_def)
  then have slot: "mq_slot q = tokens (mq_end q - mq_buf q - mq_sz q)" "0 < mq_end q - mq_buf q - mq_sz q"
    using inv by (simp_all add: mq_inv_def)
  obtain q' m' where p: "mq_do_put L v (q\<lparr>mq_slot := tokens (mq_end q - mq_buf q - mq_sz q - 1)\<rparr>) m = Ret (True, q', m')"
      "mq_inv free q' m'" "mq_items q' m' = mq_items q m @ [v]" "mq_room q' = mq_room q"
    using mq_do_put_ok [OF L inv sz] by blast
  show ?thesis
    using p slot by (intro exI [of _ q'] exI [of _ m']) (simp add: mq_put_def mq_put_for_def mq_tryput_def slot)
qed

lemma mq_puts_full:
  assumes inv: "mq_inv free q m" and full: "length (mq_items q m) = mq_room q"
  shows "mq_put L v q m = Blocks" "mq_put_for L v q m = Ret (False, q, m)" "mq_tryput L v q m = Ret (False, q, m)"
proof -
  have "mq_slot q = tokens 0" using full mq_items_length [OF inv] inv by (auto simp: mq_room_def mq_inv_def)
  moreover from this have "q\<lparr>mq_slot := tokens 0\<rparr> = q" by (metis mq.surjective mq.update_convs(8))
  ultimately show "mq_put L v q m = Blocks" "mq_put_for L v q m = Ret (False, q, m)"
    "mq_tryput L v q m = Ret (False, q, m)"
    by (simp_all add: mq_put_def mq_put_for_def mq_tryput_def)
qed

lemma mq_gets_first:
  assumes L: "lt_acquire L = acquire" "lt_release L = release"
    and inv: "mq_inv free q m" and items: "mq_items q m = x # xs"
  shows "\<exists>q'. mq_get L q m = Ret (x, q') \<and> mq_get_to L q m = Ret (x, q') \<and>
    mq_get_for L q m = Ret (Some x, q') \<and> mq_tryget L q m = Ret (Some x, q') \<and>
    mq_inv free q' m \<and> mq_items q' m = xs \<and> mq_room q' = mq_room q"
proof -
  have data: "mq_data q = tokens (mq_sz q)" "0 < mq_sz q"
    using mq_items_length [OF inv] items inv by (simp_all add: mq_inv_def)
  obtain q' where "mq_do_get L (q\<lparr>mq_data := tokens (mq_sz q - 1)\<rparr>) m = Ret (True, x, q')"
      "mq_inv free q' m" "mq_items q' m = xs" "mq_room q' = mq_room q"
    using mq_do_get_ok [OF L inv items] by blast
  then show ?thesis
    using data by (intro exI [of _ q']) (simp add: mq_get_def mq_get_to_def mq_get_for_def mq_tryget_def)
qed

lemma mq_gets_empty:
  assumes inv: "mq_inv free q m" and empty: "mq_items q m = []"
  shows "mq_get L q m = Blocks" "mq_get_to L q m = Blocks" "mq_get_for L q m = Ret (None, q)"
    "mq_tryget L q m = Ret (None, q)"
proof -
  have "mq_data q = tokens 0" using empty mq_items_length [OF inv] inv by (auto simp: mq_inv_def)
  moreover from this have "q\<lparr>mq_data := tokens 0\<rparr> = q" by (metis mq.surjective mq.update_convs(9))
  ultimately show "mq_get L q m = Blocks" "mq_get_to L q m = Blocks" "mq_get_for L q m = Ret (None, q)"
    "mq_tryget L q m = Ret (None, q)"
    by (simp_all add: mq_get_def mq_get_to_def mq_get_for_def mq_tryget_def)
qed

lemma mq_queries:
  assumes L: "lt_acquire L = acquire" "lt_release L = release" and inv: "mq_inv free q m"
  shows "mq_size L q = Ret (int (length (mq_items q m)), q)"
    "mq_available L q = Ret (int (length (mq_items q m)), q)"
    "mq_remaining L q = Ret (int (mq_room q) - int (length (mq_items q m)), q)"
    "mq_full L q = Ret (mq_items q m = [], q)"
    "mq_empty L q = Ret (length (mq_items q m) = mq_room q, q)"
    "mq_peek L q m = Ret (case mq_items q m of [] \<Rightarrow> None | x # xs \<Rightarrow> Some x, q)"
proof -
  obtain l where l: "acquire (mq_lock q) = Ret l" "release l = Ret (mq_lock q)"
    using acquire_free inv by (auto simp: mq_inv_def)
  have len: "int (length (mq_items q m)) = mq_sz q" by (rule mq_items_length [OF inv])
  have n: "0 \<le> mq_sz q" "mq_sz q \<le> mq_end q - mq_buf q" "mq_end q - mq_buf q \<le> 2147483647"
    using inv by (simp_all add: mq_inv_def)
  show sz: "mq_size L q = Ret (int (length (mq_items q m)), q)"
    "mq_available L q = Ret (int (length (mq_items q m)), q)"
    using l by (simp_all add: mq_size_def mq_available_def guard_ctor_def guard_dtor_def L len)
  show rem: "mq_remaining L q = Ret (int (mq_room q) - int (length (mq_items q m)), q)"
    using l n by (simp add: mq_remaining_def guard_ctor_def guard_dtor_def L len mq_capacity_def mq_room_def)
  show "mq_full L q = Ret (mq_items q m = [], q)" by (simp add: mq_full_def sz)
  show "mq_empty L q = Ret (length (mq_items q m) = mq_room q, q)"
    using n len by (auto simp: mq_empty_def rem)
  show "mq_peek L q m = Ret (case mq_items q m of [] \<Rightarrow> None | x # xs \<Rightarrow> Some x, q)"
  proof (cases "mq_items q m")
    case Nil
    then show ?thesis using len by (simp add: mq_peek_def)
  next
    case (Cons x xs)
    then have "0 < nat (mq_sz q)" using len by simp
    then have "x = m_val m (mq_getp q)"
      using Cons inv by (simp add: mq_items_def upt_conv_Cons mq_inv_def)
    then show ?thesis using Cons len l mq_put_cell(4) [OF inv]
      by (simp add: mq_peek_def guard_ctor_def guard_dtor_def L rd_live)
  qed
qed

end

section \<open>The FIFO contract\<close>

definition mq_put_st :: "'l locktype \<Rightarrow> 'a \<Rightarrow> 'l mq \<times> 'a mem \<Rightarrow> (bool \<times> 'l mq \<times> 'a mem) option" where
  "mq_put_st L v s = (case mq_tryput L v (fst s) (snd s) of Ret r \<Rightarrow> Some r | _ \<Rightarrow> None)"

definition mq_get_st :: "'l locktype \<Rightarrow> 'l mq \<times> 'a mem \<Rightarrow> ('a option \<times> 'l mq \<times> 'a mem) option" where
  "mq_get_st L s = (case mq_tryget L (fst s) (snd s) of Ret (r, q) \<Rightarrow> Some (r, q, snd s) | _ \<Rightarrow> None)"

context lockable
begin

lemma mq_is_fifo:
  assumes L: "lt_acquire L = acquire" "lt_release L = release"
  shows "bounded_fifo (mq_put_st L) (mq_get_st L) (\<lambda>s. mq_items (fst s) (snd s)) (\<lambda>s. mq_room (fst s))
    (\<lambda>s. mq_inv free (fst s) (snd s))"
proof (unfold_locales, goal_cases)
  case (1 s)
  have "mq_sz (fst s) \<le> mq_end (fst s) - mq_buf (fst s)" using 1 by (simp add: mq_inv_def)
  then show ?case using mq_items_length [OF 1] unfolding mq_room_def by linarith
next
  case (2 s v)
  then show ?case using mq_puts_room [OF L, of "fst s" "snd s" v] by (fastforce simp: mq_put_st_def)
next
  case (3 s v)
  then show ?case using mq_puts_full [of "fst s" "snd s"] by (simp add: mq_put_st_def)
next
  case (4 s)
  then show ?case using mq_gets_empty [of "fst s" "snd s"] by (simp add: mq_get_st_def)
next
  case (5 s x xs)
  then show ?case using mq_gets_first [OF L, of "fst s" "snd s" x xs] by (force simp: mq_get_st_def)
qed

end

interpretation mq: bounded_fifo "mq_put_st (mutex_type t)" "mq_get_st (mutex_type t)"
    "\<lambda>s. mq_items (fst s) (snd s)" "\<lambda>s. mq_room (fst s)" "\<lambda>s. mq_inv mutex_free (fst s) (snd s)"
  by (rule mutex.mq_is_fifo) (simp_all add: mutex_type_def)

interpretation mq_st: bounded_fifo "mq_put_st null_type" "mq_get_st null_type"
    "\<lambda>s. mq_items (fst s) (snd s)" "\<lambda>s. mq_room (fst s)" "\<lambda>s. mq_inv (\<lambda>_. True) (fst s) (snd s)"
  by (rule nulllock.mq_is_fifo) (simp_all add: null_type_def)

section \<open>Construction\<close>

lemma run_times_post:
  "0 \<le> n \<Longrightarrow> n + int k \<le> 2147483647 \<Longrightarrow> run_times k sema_post (tokens n) = Ret (tokens (n + int k))"
  by (induction k arbitrary: n) (simp_all add: add.assoc)

text \<open>A queue that owns its buffer, or has none to own.\<close>

definition mq_owns :: "'l mq \<Rightarrow> 'a mem \<Rightarrow> bool" where
  "mq_owns q m \<longleftrightarrow> (mq_own q \<longrightarrow> m_blocks m (mq_buf q) = Some (mq_end q - mq_buf q) \<and> mq_buf q \<noteq> 0)"

lemma mq_ctor_cap_ok:
  assumes wf: "mem_wf m" and cap: "0 < cap" "cap \<le> 2147483647" and l: "free l"
  shows "\<exists>q' m'. mq_ctor_cap l cap q m = Ret (q', m') \<and> mq_inv free q' m' \<and> mq_items q' m' = [] \<and>
    mq_room q' = nat cap \<and> mq_owns q' m' \<and> m_blocks m' = (m_blocks m)(m_brk m \<mapsto> cap)"
proof -
  obtain m1 where new: "mem_new cap m = (m_brk m, m1)" by (simp add: mem_new_def)
  have m1: "live_range m1 (m_brk m) cap" "m_blocks m1 = (m_blocks m)(m_brk m \<mapsto> cap)" "m_brk m \<noteq> 0"
    using new wf by (auto simp: mem_new_def live_range_def mem_wf_def)
  let ?q = "q\<lparr>mq_lock := l, mq_own := True, mq_slot := tokens cap, mq_data := tokens 0, mq_sz := 0,
              mq_buf := m_brk m, mq_putp := m_brk m, mq_getp := m_brk m, mq_end := m_brk m + cap\<rparr>"
  have "mq_ctor_cap l cap q m = Ret (?q, m1)"
    using cap new m1 run_times_post [of 0 "nat cap"]
    by (simp add: mq_ctor_cap_def mq_resize_def mq_set_buffer_def mq_destroy_def sema_ctor_def)
  moreover have "mq_inv free ?q m1" using l cap m1 by (simp add: mq_inv_def)
  ultimately show ?thesis using m1 by (simp add: mq_items_def mq_room_def mq_owns_def)
qed

text \<open>\<open>resize\<close> drops what the queue held and starts again with the new capacity.\<close>

lemma mq_destroy_ok:
  assumes inv: "mq_inv free q m" and owns: "mq_owns q m"
  shows "\<exists>m'. mq_destroy q m = Ret (q\<lparr>mq_own := False, mq_data := tokens 0, mq_slot := tokens 0, mq_sz := 0,
      mq_buf := 0, mq_putp := 0, mq_getp := 0, mq_end := 0\<rparr>, m') \<and>
    (if mq_own q then mem_delete (mq_buf q) m = Some m' else m' = m)"
  using assms by (auto simp: mq_destroy_def mq_inv_def mq_owns_def mem_delete_def)

section \<open>Properties\<close>

lemma mq_mutex_L: "lt_acquire (mutex_type t) = mutex_acquire t" "lt_release (mutex_type t) = mutex_release t"
  by (simp_all add: mutex_type_def)

text \<open>C7: a queue constructed with a capacity and a mutex answers any sequence of \<open>tryput\<close> and
  \<open>tryget\<close> calls as a list of at most \<open>capacity\<close> items does; unlike the circular queue it uses
  every slot of its buffer.\<close>

theorem mq_refines_list_queue:
  assumes "mem_wf m" and "0 < cap" and "cap \<le> 2147483647"
    and "fifo_spec (nat cap) ops [] = (rs, ys)"
  shows "\<exists>q1 m1 q2 m2. mq_ctor_cap (mutex_ctor 0) cap q m = Ret (q1, m1) \<and>
    run_ops (mq_put_st (mutex_type t)) (mq_get_st (mutex_type t)) ops (q1, m1) = Some (rs, q2, m2) \<and>
    mq_items q2 m2 = ys \<and> mq_inv mutex_free q2 m2"
proof -
  have "mutex_free (mutex_ctor 0)" by (simp add: mutex_free_def mutex_ctor_def)
  then obtain q1 m1 where c: "mq_ctor_cap (mutex_ctor 0) cap q m = Ret (q1, m1)" "mq_inv mutex_free q1 m1"
      "mq_items q1 m1 = []" "mq_room q1 = nat cap"
    using mq_ctor_cap_ok [OF assms(1-3), of mutex_free "mutex_ctor 0" q] by blast
  then show ?thesis using mq.run_refines [of "(q1, m1)" ops rs ys t] assms(4) by auto
qed

definition mq_demo :: "mutex mq" where
  "mq_demo = \<lparr>mq_lock = mutex_ctor 0, mq_sz = 0, mq_buf = 0, mq_putp = 0, mq_getp = 0, mq_end = 0,
    mq_own = False, mq_slot = sema_ctor, mq_data = sema_ctor\<rparr>"

theorem mq_refines_list_queue_witness:
  "\<exists>q1 m1 q2 m2. mq_ctor_cap (mutex_ctor 0) 2 mq_demo (arena (0::int) 9) = Ret (q1, m1) \<and>
    run_ops (mq_put_st (mutex_type 3)) (mq_get_st (mutex_type 3)) [Put 5, Put 6, Put 7, Get, Get, Get] (q1, m1)
      = Some ([PutRes True, PutRes True, PutRes False, GetRes (Some 5), GetRes (Some 6), GetRes None], q2, m2) \<and>
    mq_items q2 m2 = [] \<and> mq_inv mutex_free q2 m2"
  by (rule mq_refines_list_queue) simp_all

text \<open>the blocking operations block exactly when they have to: \<open>put\<close> on a full queue and
  \<open>get\<close> on an empty one; the timed ones fail there, and all agree otherwise.\<close>

theorem mq_blocks_iff:
  assumes "mq_inv mutex_free q m"
  shows "(mq_put (mutex_type t) v q m = Blocks \<longleftrightarrow> length (mq_items q m) = mq_room q) \<and>
    (mq_get (mutex_type t) q m = Blocks \<longleftrightarrow> mq_items q m = []) \<and>
    mq_tryput (mutex_type t) v q m = mq_put_for (mutex_type t) v q m \<and>
    mq_tryget (mutex_type t) q m = mq_get_for (mutex_type t) q m \<and>
    mq_peek (mutex_type t) q m = Ret (case mq_items q m of [] \<Rightarrow> None | x # xs \<Rightarrow> Some x, q)"
proof (intro conjI)
  have le: "length (mq_items q m) \<le> mq_room q" using mq.within_room [of "(q, m)"] assms by simp
  show "mq_put (mutex_type t) v q m = Blocks \<longleftrightarrow> length (mq_items q m) = mq_room q"
    using mutex.mq_puts_room [OF mq_mutex_L assms, of t v] mutex.mq_puts_full(1) [OF assms] le
    by (metis le_neq_implies_less run.distinct(1))
  show "mq_get (mutex_type t) q m = Blocks \<longleftrightarrow> mq_items q m = []"
    using mutex.mq_gets_first [OF mq_mutex_L assms] mutex.mq_gets_empty(1) [OF assms]
    by (metis neq_Nil_conv run.distinct(1))
  show "mq_tryput (mutex_type t) v q m = mq_put_for (mutex_type t) v q m"
    by (simp add: mq_tryput_def mq_put_for_def sema_tryacquire_def sema_trywait_def sema_acquire_for_def
        sema_wait_for_def sema_wait_until_def)
  show "mq_tryget (mutex_type t) q m = mq_get_for (mutex_type t) q m"
    by (simp add: mq_tryget_def mq_get_for_def sema_tryacquire_def sema_trywait_def sema_acquire_for_def
        sema_wait_for_def sema_wait_until_def)
  show "mq_peek (mutex_type t) q m = Ret (case mq_items q m of [] \<Rightarrow> None | x # xs \<Rightarrow> Some x, q)"
    by (rule mutex.mq_queries(6) [OF mq_mutex_L assms])
qed

lemma mq_demo_inv:
  "mq_inv mutex_free (mq_demo\<lparr>mq_buf := 1, mq_putp := 1, mq_getp := 1, mq_end := 5, mq_slot := tokens 4\<rparr>) (arena (0::int) 9)"
  by (simp add: mq_demo_def mq_inv_def mutex_free_def mutex_ctor_def sema_ctor_def)

theorem mq_blocks_iff_witness:
  "mq_get (mutex_type 0) (mq_demo\<lparr>mq_buf := 1, mq_putp := 1, mq_getp := 1, mq_end := 5, mq_slot := tokens 4\<rparr>)
     (arena (0::int) 9) = Blocks"
  using mq_blocks_iff [OF mq_demo_inv, of 0] by (simp add: mq_items_def mq_demo_def)

text \<open>\<open>full\<close> and \<open>empty\<close> are the wrong way round: \<open>full\<close> is true of a queue that holds
  nothing, and \<open>empty\<close> of one that has no slot left.\<close>

theorem mq_full_and_empty_swapped:
  assumes "mq_inv mutex_free q m"
  shows "mq_full (mutex_type t) q = Ret (mq_items q m = [], q) \<and>
    mq_empty (mutex_type t) q = Ret (length (mq_items q m) = mq_room q, q)"
  using mutex.mq_queries(4,5) [OF mq_mutex_L assms] by blast

theorem mq_full_and_empty_swapped_witness:
  "mq_full (mutex_type 0) (mq_demo\<lparr>mq_buf := 1, mq_putp := 1, mq_getp := 1, mq_end := 5, mq_slot := tokens 4\<rparr>)
     = Ret (True, mq_demo\<lparr>mq_buf := 1, mq_putp := 1, mq_getp := 1, mq_end := 5, mq_slot := tokens 4\<rparr>)"
  using mq_full_and_empty_swapped [OF mq_demo_inv, of 0] by (simp add: mq_items_def mq_demo_def)

end
