(* ===== verification/Pools.thy ===== *)
theory Pools imports MsgQueue BufferColl begin

text \<open>
  \<open>CtrlrFx/ObjPool.h\<close>, \<open>CtrlrFx/BufPool.h\<close>, \<open>os/generic/CtrlrFx/MemPool.h\<close> and
  \<open>CtrlrFx/AcqBufQueue.h\<close>: pools that pass pointers through message queues. The cells of
  a queue's buffer hold pointers (\<open>int mem\<close>); the objects they point to live in a heap
  of their own. One thread \<open>t\<close> at a time.
\<close>

section \<open>ObjPool\<close>

record opool =
  op_que :: "mutex mq"
  op_own :: bool

text \<open>\<open>while (n--) put(new T)\<close>, with an object of one cell, and \<open>while (n--) put(arr++)\<close>.\<close>

fun op_fill_new :: "nat \<Rightarrow> nat \<Rightarrow> mutex mq \<Rightarrow> int mem \<Rightarrow> 'o mem \<Rightarrow> (mutex mq \<times> int mem \<times> 'o mem) run" where
  "op_fill_new t 0 q qm om = Ret (q, qm, om)"
| "op_fill_new t (Suc n) q qm om =
     (let (p, om') = mem_new 1 om
      in run_then (mq_put (mutex_type t) p q qm) (\<lambda>(q', qm'). op_fill_new t n q' qm' om'))"

fun op_fill_arr :: "nat \<Rightarrow> nat \<Rightarrow> int \<Rightarrow> mutex mq \<Rightarrow> int mem \<Rightarrow> (mutex mq \<times> int mem) run" where
  "op_fill_arr t 0 arr q qm = Ret (q, qm)"
| "op_fill_arr t (Suc n) arr q qm =
     run_then (mq_put (mutex_type t) arr q qm) (\<lambda>(q', qm'). op_fill_arr t n (arr + 1) q' qm')"

definition op_ctor_n :: "nat \<Rightarrow> int \<Rightarrow> mutex mq \<Rightarrow> int mem \<Rightarrow> 'o mem \<Rightarrow> (opool \<times> int mem \<times> 'o mem) run" where
  "op_ctor_n t n q qm om =
     run_then (mq_ctor_cap (mutex_ctor 0) n q qm) (\<lambda>(q, qm).
     run_then (op_fill_new t (nat n) q qm om) (\<lambda>(q, qm, om).
       Ret (\<lparr>op_que = q, op_own = True\<rparr>, qm, om)))"

definition op_ctor_arr :: "nat \<Rightarrow> int \<Rightarrow> int \<Rightarrow> mutex mq \<Rightarrow> int mem \<Rightarrow> (opool \<times> int mem) run" where
  "op_ctor_arr t arr n q qm =
     run_then (mq_ctor_cap (mutex_ctor 0) n q qm) (\<lambda>(q, qm).
     run_then (op_fill_arr t (nat n) arr q qm) (\<lambda>(q, qm).
       Ret (\<lparr>op_que = q, op_own = False\<rparr>, qm)))"

definition op_ctor :: "mutex mq \<Rightarrow> opool" where
  "op_ctor q = \<lparr>op_que = mq_ctor (mutex_ctor 0) q, op_own = False\<rparr>"

lemma mq_tryget_data:
  "mq_tryget L q m = Ret (Some x, q') \<Longrightarrow> sm_cnt (mq_data q') = sm_cnt (mq_data q) - 1 \<and> 0 < sm_cnt (mq_data q)"
  by (auto simp: mq_tryget_def mq_do_get_def run_then_Ret_iff sema_defs Let_def split: if_splits)

text \<open>\<open>while (tryget(&p)) delete p;\<close>\<close>

function op_drain :: "nat \<Rightarrow> mutex mq \<Rightarrow> int mem \<Rightarrow> 'o mem \<Rightarrow> (mutex mq \<times> 'o mem) run" where
  "op_drain t q qm om =
     (case mq_tryget (mutex_type t) q qm of
        Ret (None, q') \<Rightarrow> Ret (q', om)
      | Ret (Some p, q') \<Rightarrow> (case mem_delete p om of None \<Rightarrow> Undef | Some om' \<Rightarrow> op_drain t q' qm om')
      | Blocks \<Rightarrow> Blocks | Undef \<Rightarrow> Undef)"
  by pat_completeness auto
termination
  by (relation "measure (\<lambda>(t, q, qm, om). nat (sm_cnt (mq_data q)))") (auto dest!: mq_tryget_data)

declare op_drain.simps [simp del]

definition op_dealloc :: "nat \<Rightarrow> opool \<Rightarrow> int mem \<Rightarrow> 'o mem \<Rightarrow> (opool \<times> 'o mem) run" where
  "op_dealloc t p qm om =
     (if op_own p then
        run_then (op_drain t (op_que p) qm om) (\<lambda>(q', om'). Ret (\<lparr>op_que = q', op_own = False\<rparr>, om'))
      else Ret (p, om))"

definition op_dtor :: "nat \<Rightarrow> opool \<Rightarrow> int mem \<Rightarrow> 'o mem \<Rightarrow> (int mem \<times> 'o mem) run" where
  "op_dtor t p qm om =
     run_then (op_dealloc t p qm om) (\<lambda>(p', om').
     run_then (mq_dtor (op_que p') qm) (\<lambda>(q', qm'). Ret (qm', om')))"

section \<open>BufPool\<close>

text \<open>The objects are buffers over a memory of items \<open>dm\<close>; a new one is default-constructed.\<close>

definition buf_new :: "bf mem \<Rightarrow> int \<times> bf mem" where
  "buf_new om = (let (p, om') = mem_new 1 om in (p, om'\<lparr>m_val := (m_val om')(p := bf_ctor)\<rparr>))"

fun bp_fill_new :: "nat \<Rightarrow> nat \<Rightarrow> mutex mq \<Rightarrow> int mem \<Rightarrow> bf mem \<Rightarrow> (mutex mq \<times> int mem \<times> bf mem) run" where
  "bp_fill_new t 0 q qm om = Ret (q, qm, om)"
| "bp_fill_new t (Suc n) q qm om =
     (let (p, om') = buf_new om
      in run_then (mq_put (mutex_type t) p q qm) (\<lambda>(q', qm'). bp_fill_new t n q' qm' om'))"

text \<open>One round of the loop of \<open>resize_buffers\<close>, and the loop.\<close>

definition bp_resize_one :: "nat \<Rightarrow> int \<Rightarrow> mutex mq \<times> int mem \<times> bf mem \<times> 'a mem \<Rightarrow> (mutex mq \<times> int mem \<times> bf mem \<times> 'a mem) run" where
  "bp_resize_one t sz st =
     (let (q, qm, om, dm) = st
      in run_then (mq_get (mutex_type t) q qm) (\<lambda>(p, q).
         run_then (run_opt (rd om p)) (\<lambda>b.
         run_then (run_opt (bf_resize sz b dm)) (\<lambda>(b', dm').
         run_then (run_opt (wr om p b')) (\<lambda>om'.
         run_then (mq_put (mutex_type t) p q qm) (\<lambda>(q', qm'). Ret (q', qm', om', dm')))))))"

definition bp_resize_buffers :: "nat \<Rightarrow> int \<Rightarrow> mutex mq \<times> int mem \<times> bf mem \<times> 'a mem \<Rightarrow> (mutex mq \<times> int mem \<times> bf mem \<times> 'a mem) run" where
  "bp_resize_buffers t sz st = run_times (nat (mq_capacity (fst st))) (bp_resize_one t sz) st"

definition bp_ctor_n :: "nat \<Rightarrow> int \<Rightarrow> int \<Rightarrow> mutex mq \<Rightarrow> int mem \<Rightarrow> bf mem \<Rightarrow> 'a mem \<Rightarrow> (mutex mq \<times> int mem \<times> bf mem \<times> 'a mem) run" where
  "bp_ctor_n t n sz q qm om dm =
     run_then (mq_ctor_cap (mutex_ctor 0) n q qm) (\<lambda>(q, qm).
     run_then (bp_fill_new t (nat n) q qm om) (\<lambda>(q, qm, om).
       bp_resize_buffers t sz (q, qm, om, dm)))"

definition bp_resize :: "nat \<Rightarrow> int \<Rightarrow> int \<Rightarrow> mutex mq \<times> int mem \<times> bf mem \<times> 'a mem \<Rightarrow> (mutex mq \<times> int mem \<times> bf mem \<times> 'a mem) run" where
  "bp_resize t n sz st =
     (let (q, qm, om, dm) = st
      in run_then (mq_resize n q qm) (\<lambda>(q', qm'). bp_resize_buffers t sz (q', qm', om, dm)))"

definition bp_release :: "nat \<Rightarrow> mutex mq \<Rightarrow> int mem \<Rightarrow> (mutex mq \<times> int mem) run" where
  "bp_release t q qm = run_then (mq_tryput (mutex_type t) 0 q qm) (\<lambda>(b, q', qm'). Ret (q', qm'))"

section \<open>MemPool\<close>

record mpool =
  mp_arr :: int
  mp_que :: "mutex mq"

fun mp_fill :: "nat \<Rightarrow> nat \<Rightarrow> int \<Rightarrow> int \<Rightarrow> mutex mq \<Rightarrow> int mem \<Rightarrow> (mutex mq \<times> int mem) run" where
  "mp_fill t 0 p sz q qm = Ret (q, qm)"
| "mp_fill t (Suc n) p sz q qm =
     run_then (mq_put (mutex_type t) p q qm) (\<lambda>(q', qm'). mp_fill t n (p + sz) sz q' qm')"

definition mp_ctor :: "nat \<Rightarrow> int \<Rightarrow> int \<Rightarrow> mutex mq \<Rightarrow> int mem \<Rightarrow> 'a mem \<Rightarrow> (mpool \<times> int mem \<times> 'a mem) run" where
  "mp_ctor t n sz q qm m =
     run_then (mq_ctor_cap (mutex_ctor 0) n q qm) (\<lambda>(q, qm).
       let (arr, m') = mem_new (n * sz) m
       in run_then (mp_fill t (nat n) arr sz q qm) (\<lambda>(q, qm). Ret (\<lparr>mp_arr = arr, mp_que = q\<rparr>, qm, m')))"

definition mp_dealloc :: "mpool \<Rightarrow> 'a mem \<Rightarrow> 'a mem run" where
  "mp_dealloc p m = run_opt (mem_delete (mp_arr p) m)"

text \<open>An array that is not owned is not kept, and the pointers are computed from \<open>arr_\<close>.\<close>

definition mp_assign :: "nat \<Rightarrow> int \<Rightarrow> int \<Rightarrow> int \<Rightarrow> bool \<Rightarrow> mpool \<Rightarrow> int mem \<Rightarrow> 'a mem \<Rightarrow> (mpool \<times> int mem \<times> 'a mem) run" where
  "mp_assign t arr n sz own p qm m =
     run_then (mp_dealloc p m) (\<lambda>m'.
       let p = p\<lparr>mp_arr := (if own then arr else 0)\<rparr>
       in run_then (mp_fill t (nat n) (mp_arr p) sz (mp_que p) qm) (\<lambda>(q, qm). Ret (p\<lparr>mp_que := q\<rparr>, qm, m')))"

definition mp_ctor_arr :: "nat \<Rightarrow> int \<Rightarrow> int \<Rightarrow> int \<Rightarrow> bool \<Rightarrow> mutex mq \<Rightarrow> int mem \<Rightarrow> 'a mem \<Rightarrow> (mpool \<times> int mem \<times> 'a mem) run" where
  "mp_ctor_arr t arr n sz own q qm m =
     run_then (mq_ctor_cap (mutex_ctor 0) n q qm) (\<lambda>(q, qm).
       mp_assign t arr n sz own \<lparr>mp_arr = 0, mp_que = q\<rparr> qm m)"

definition mp_dtor :: "mpool \<Rightarrow> 'a mem \<Rightarrow> 'a mem run" where
  "mp_dtor p m = mp_dealloc p m"

definition mp_get :: "nat \<Rightarrow> mpool \<Rightarrow> int mem \<Rightarrow> (int \<times> mpool) run" where
  "mp_get t p qm = run_then (mq_get (mutex_type t) (mp_que p) qm) (\<lambda>(x, q). Ret (x, p\<lparr>mp_que := q\<rparr>))"

definition mp_put :: "nat \<Rightarrow> int \<Rightarrow> mpool \<Rightarrow> int mem \<Rightarrow> (mpool \<times> int mem) run" where
  "mp_put t x p qm = run_then (mq_put (mutex_type t) x (mp_que p) qm) (\<lambda>(q, qm'). Ret (p\<lparr>mp_que := q\<rparr>, qm'))"

section \<open>AcqBufQueue\<close>

text \<open>\<open>que_\<close> is the array of queues. Each is resized; then the first may be filled with buffers.\<close>

fun aq_resize_each :: "int \<Rightarrow> mutex mq list \<Rightarrow> int mem \<Rightarrow> (mutex mq list \<times> int mem) run" where
  "aq_resize_each sz [] qm = Ret ([], qm)"
| "aq_resize_each sz (q # qs) qm =
     run_then (mq_resize sz q qm) (\<lambda>(q', qm').
     run_then (aq_resize_each sz qs qm') (\<lambda>(qs', qm''). Ret (q' # qs', qm'')))"

fun aq_destroy_each :: "mutex mq list \<Rightarrow> int mem \<Rightarrow> int mem run" where
  "aq_destroy_each [] qm = Ret qm"
| "aq_destroy_each (q # qs) qm = run_then (mq_dtor q qm) (\<lambda>(q', qm'). aq_destroy_each qs qm')"

definition aq_dealloc :: "mutex mq list \<Rightarrow> int mem \<Rightarrow> (mutex mq list \<times> int mem) run" where
  "aq_dealloc qs qm = run_then (aq_destroy_each qs qm) (\<lambda>qm'. Ret ([], qm'))"

definition aq_resize :: "nat \<Rightarrow> int \<Rightarrow> mutex mq \<Rightarrow> mutex mq list \<Rightarrow> int mem \<Rightarrow> (mutex mq list \<times> int mem) run" where
  "aq_resize nque que_sz q0 qs qm =
     run_then (aq_dealloc qs qm) (\<lambda>(qs, qm). aq_resize_each que_sz (replicate nque (mq_ctor (mutex_ctor 0) q0)) qm)"

fun aq_fill :: "nat \<Rightarrow> nat \<Rightarrow> int \<Rightarrow> mutex mq \<Rightarrow> int mem \<Rightarrow> bf mem \<Rightarrow> 'a mem \<Rightarrow> (mutex mq \<times> int mem \<times> bf mem \<times> 'a mem) run" where
  "aq_fill t 0 sz q qm om dm = Ret (q, qm, om, dm)"
| "aq_fill t (Suc n) sz q qm om dm =
     (let (p, om') = mem_new 1 om; (b, dm') = bf_ctor_cap sz dm;
          om'' = om'\<lparr>m_val := (m_val om')(p := b)\<rparr>
      in run_then (mq_put (mutex_type t) p q qm) (\<lambda>(q', qm'). aq_fill t n sz q' qm' om'' dm'))"

definition aq_resize_fill :: "nat \<Rightarrow> nat \<Rightarrow> int \<Rightarrow> int \<Rightarrow> mutex mq \<Rightarrow> mutex mq list \<Rightarrow> int mem \<Rightarrow> bf mem \<Rightarrow> 'a mem \<Rightarrow>
    (mutex mq list \<times> int mem \<times> bf mem \<times> 'a mem) run" where
  "aq_resize_fill t nque nbuf sz q0 qs qm om dm =
     run_then (aq_resize nque nbuf q0 qs qm) (\<lambda>(qs, qm).
       case qs of [] \<Rightarrow> (if 0 < nbuf then Undef else Ret ([], qm, om, dm))
       | q # qs \<Rightarrow> run_then (aq_fill t (nat nbuf) sz q qm om dm) (\<lambda>(q', qm', om', dm'). Ret (q' # qs, qm', om', dm')))"

definition aq_index :: "mutex mq list \<Rightarrow> int \<Rightarrow> mutex mq run" where
  "aq_index qs i = (if 0 \<le> i \<and> i < int (length qs) then Ret (qs ! nat i) else Undef)"

text \<open>
  \<open>for (size_t i=nque_-1; i>=0; --i) que_[i].release();\<close> The test is always true; after
  \<open>i = 0\<close> comes \<open>2 ^ 64 - 1\<close>. The first argument bounds the number of rounds made.
\<close>

fun aq_release_loop :: "nat \<Rightarrow> nat \<Rightarrow> int \<Rightarrow> mutex mq list \<Rightarrow> int mem \<Rightarrow> (mutex mq list \<times> int mem) run option" where
  "aq_release_loop t 0 i qs qm = None"
| "aq_release_loop t (Suc k) i qs qm =
     (if 0 \<le> i then
        (case aq_index qs i of
           Ret q \<Rightarrow> (case mq_release (mutex_type t) 0 q qm of
               Ret (q', qm') \<Rightarrow> aq_release_loop t k (u64 (i - 1)) (qs[nat i := q']) qm'
             | Blocks \<Rightarrow> Some Blocks | Undef \<Rightarrow> Some Undef)
         | Blocks \<Rightarrow> Some Blocks | Undef \<Rightarrow> Some Undef)
      else Some (Ret (qs, qm)))"

definition aq_release :: "nat \<Rightarrow> nat \<Rightarrow> mutex mq list \<Rightarrow> int mem \<Rightarrow> (mutex mq list \<times> int mem) run option" where
  "aq_release t fuel qs qm = aq_release_loop t fuel (u64 (int (length qs) - 1)) qs qm"

section \<open>Lemmas\<close>

lemma mq_put_frame:
  "mq_put L v q m = Ret (q', m') \<Longrightarrow> mq_own q' = mq_own q \<and> mq_buf q' = mq_buf q \<and> mq_end q' = mq_end q \<and>
     m_blocks m' = m_blocks m"
  by (auto simp: mq_put_def mq_do_put_def run_then_Ret_iff Let_def run_opt_def wr_def split: option.splits if_splits)

lemma mq_tryget_frame:
  "mq_tryget L q m = Ret (r, q') \<Longrightarrow> mq_own q' = mq_own q \<and> mq_buf q' = mq_buf q \<and> mq_end q' = mq_end q"
  by (auto simp: mq_tryget_def mq_do_get_def run_then_Ret_iff Let_def split: if_splits)

lemma mq_get_frame:
  "mq_get L q m = Ret (r, q') \<Longrightarrow> mq_own q' = mq_own q \<and> mq_buf q' = mq_buf q \<and> mq_end q' = mq_end q"
  by (auto simp: mq_get_def mq_do_get_def run_then_Ret_iff Let_def)

lemma mq_put_room_ex:
  assumes "mq_inv mutex_free q m" and "length (mq_items q m) < mq_room q"
  obtains q' m' where "mq_put (mutex_type t) v q m = Ret (q', m')" "mq_inv mutex_free q' m'"
    "mq_items q' m' = mq_items q m @ [v]" "mq_room q' = mq_room q"
  using mutex.mq_puts_room [OF mq_mutex_L assms, of t v] by blast

lemma op_fill_new_ok:
  assumes "mq_inv mutex_free q qm" and "mem_wf om" and "length (mq_items q qm) + n \<le> mq_room q"
  shows "\<exists>q' qm' om' ps. op_fill_new t n q qm om = Ret (q', qm', om') \<and> mq_inv mutex_free q' qm' \<and>
    mq_items q' qm' = mq_items q qm @ ps \<and> mq_room q' = mq_room q \<and> length ps = n \<and> distinct ps \<and>
    (\<forall>p\<in>set ps. m_brk om \<le> p) \<and> mem_wf om' \<and>
    m_blocks om' = (\<lambda>a. if a \<in> set ps then Some 1 else m_blocks om a) \<and>
    m_blocks qm' = m_blocks qm \<and> mq_own q' = mq_own q \<and> mq_buf q' = mq_buf q \<and> mq_end q' = mq_end q"
  using assms
proof (induction n arbitrary: q qm om)
  case 0
  then show ?case by (intro exI [of _ q] exI [of _ qm] exI [of _ om] exI [of _ "[]"]) simp
next
  case (Suc n)
  obtain om1 where new: "mem_new 1 om = (m_brk om, om1)" by (simp add: mem_new_def)
  have wf1: "mem_wf om1" by (rule mem_new_wf [OF Suc.prems(2) _ new]) simp
  have b1: "m_blocks om1 = (m_blocks om)(m_brk om \<mapsto> 1)" "m_brk om1 = m_brk om + 2"
    using new by (auto simp: mem_new_def)
  obtain q1 qm1 where put: "mq_put (mutex_type t) (m_brk om) q qm = Ret (q1, qm1)" "mq_inv mutex_free q1 qm1"
      "mq_items q1 qm1 = mq_items q qm @ [m_brk om]" "mq_room q1 = mq_room q"
    using mq_put_room_ex [OF Suc.prems(1)] Suc.prems(3) by (metis add_Suc_right le_simps(3) less_add_Suc1 order_less_le_trans)
  obtain q2 qm2 om2 ps where r: "op_fill_new t n q1 qm1 om1 = Ret (q2, qm2, om2)" "mq_inv mutex_free q2 qm2"
      "mq_items q2 qm2 = mq_items q1 qm1 @ ps" "mq_room q2 = mq_room q1" "length ps = n" "distinct ps"
      "\<forall>p\<in>set ps. m_brk om1 \<le> p" "mem_wf om2"
      "m_blocks om2 = (\<lambda>a. if a \<in> set ps then Some 1 else m_blocks om1 a)"
      "m_blocks qm2 = m_blocks qm1" "mq_own q2 = mq_own q1" "mq_buf q2 = mq_buf q1" "mq_end q2 = mq_end q1"
    using Suc.IH [OF put(2) wf1] put(3,4) Suc.prems(3) by auto
  have "m_brk om \<notin> set ps" using r(7) b1(2) by auto
  then show ?case
    using r put new b1 mq_put_frame [OF put(1)]
    by (intro exI [of _ q2] exI [of _ qm2] exI [of _ om2] exI [of _ "m_brk om # ps"]) (auto simp: Let_def)
qed

lemma op_drain_ok:
  assumes "mq_inv mutex_free q qm" and "mq_items q qm = ps" and "distinct ps"
    and "\<forall>p\<in>set ps. p \<noteq> 0 \<and> m_blocks om p = Some 1"
  shows "\<exists>q' om'. op_drain t q qm om = Ret (q', om') \<and> mq_inv mutex_free q' qm \<and>
    m_blocks om' = (\<lambda>a. if a \<in> set ps then None else m_blocks om a) \<and>
    mq_own q' = mq_own q \<and> mq_buf q' = mq_buf q \<and> mq_end q' = mq_end q"
  using assms
proof (induction ps arbitrary: q om)
  case Nil
  then show ?case using mutex.mq_gets_empty(4) [OF Nil.prems(1,2)] by (simp add: op_drain.simps [of t q])
next
  case (Cons p ps)
  obtain q1 where g: "mq_tryget (mutex_type t) q qm = Ret (Some p, q1)" "mq_inv mutex_free q1 qm" "mq_items q1 qm = ps"
    using mutex.mq_gets_first [OF mq_mutex_L Cons.prems(1,2)] by blast
  obtain om1 where d: "mem_delete p om = Some om1" "m_blocks om1 = (m_blocks om)(p := None)"
    using Cons.prems(4) by (auto simp: mem_delete_def)
  have "distinct ps" "\<forall>x\<in>set ps. x \<noteq> 0 \<and> m_blocks om1 x = Some 1" using Cons.prems(3,4) d(2) by auto
  then obtain q2 om2 where r: "op_drain t q1 qm om1 = Ret (q2, om2)" "mq_inv mutex_free q2 qm"
      "m_blocks om2 = (\<lambda>a. if a \<in> set ps then None else m_blocks om1 a)"
      "mq_own q2 = mq_own q1" "mq_buf q2 = mq_buf q1" "mq_end q2 = mq_end q1"
    using Cons.IH [OF g(2,3)] by blast
  have "op_drain t q qm om = Ret (q2, om2)" by (subst op_drain.simps) (simp add: g d r)
  moreover have "m_blocks om2 = (\<lambda>a. if a \<in> set (p # ps) then None else m_blocks om a)"
    by (rule ext) (simp add: r(3) d(2))
  ultimately show ?case using r(2,4-6) mq_tryget_frame [OF g(1)] by auto
qed

lemma mq_destroy_blocks:
  assumes "mq_inv free q m" and "mq_owns q m"
  shows "\<exists>q' m'. mq_dtor q m = Ret (q', m') \<and>
    m_blocks m' = (if mq_own q then (m_blocks m)(mq_buf q := None) else m_blocks m)"
  using mq_destroy_ok [OF assms] assms(2) by (auto simp: mq_dtor_def mq_owns_def mem_delete_def)

lemma brk_fresh: "mem_wf m \<Longrightarrow> m_blocks m (m_brk m) = None"
proof (rule ccontr)
  assume "mem_wf m" "m_blocks m (m_brk m) \<noteq> None"
  then obtain n where "m_blocks m (m_brk m) = Some n" by auto
  with \<open>mem_wf m\<close> show False unfolding mem_wf_def by fastforce
qed

lemma op_lifetime:
  assumes wf: "mem_wf qm" "mem_wf om" and n: "0 < n" "n \<le> 2147483647"
  shows "\<exists>p qm1 om1 ps qm2 om2. op_ctor_n t n q qm om = Ret (p, qm1, om1) \<and>
    mq_inv mutex_free (op_que p) qm1 \<and> mq_items (op_que p) qm1 = ps \<and> length ps = nat n \<and> distinct ps \<and>
    m_blocks om1 = (\<lambda>a. if a \<in> set ps then Some 1 else m_blocks om a) \<and>
    op_dtor t p qm1 om1 = Ret (qm2, om2) \<and> m_blocks om2 = m_blocks om \<and> m_blocks qm2 = m_blocks qm"
proof -
  have "mutex_free (mutex_ctor 0)" by (simp add: mutex_free_def mutex_ctor_def)
  then obtain q1 qm1 where c: "mq_ctor_cap (mutex_ctor 0) n q qm = Ret (q1, qm1)" "mq_inv mutex_free q1 qm1"
      "mq_items q1 qm1 = []" "mq_room q1 = nat n" "mq_owns q1 qm1" "m_blocks qm1 = (m_blocks qm)(m_brk qm \<mapsto> n)"
    using mq_ctor_cap_ok [OF wf(1) n, of mutex_free "mutex_ctor 0" q] by blast
  have buf: "mq_buf q1 = m_brk qm" "mq_own q1"
    using c(1) n wf(1)
    by (auto simp: mq_ctor_cap_def mq_resize_def mq_set_buffer_def mem_new_def run_then_Ret_iff mem_wf_def split: if_splits)
  obtain q2 qm2 om2 ps where f: "op_fill_new t (nat n) q1 qm1 om = Ret (q2, qm2, om2)" "mq_inv mutex_free q2 qm2"
      "mq_items q2 qm2 = ps" "length ps = nat n" "distinct ps" "\<forall>p\<in>set ps. m_brk om \<le> p" "mem_wf om2"
      "m_blocks om2 = (\<lambda>a. if a \<in> set ps then Some 1 else m_blocks om a)"
      "m_blocks qm2 = m_blocks qm1" "mq_own q2 = mq_own q1" "mq_buf q2 = mq_buf q1" "mq_end q2 = mq_end q1"
    using op_fill_new_ok [OF c(2) wf(2), of "nat n" t] c(3,4) by auto
  have "0 < m_brk om" using wf(2) by (simp add: mem_wf_def)
  then have "\<forall>p\<in>set ps. p \<noteq> 0 \<and> m_blocks om2 p = Some 1" using f(6,8) by auto
  then obtain q3 om3 where d: "op_drain t q2 qm2 om2 = Ret (q3, om3)" "mq_inv mutex_free q3 qm2"
      "m_blocks om3 = (\<lambda>a. if a \<in> set ps then None else m_blocks om2 a)"
      "mq_own q3 = mq_own q2" "mq_buf q3 = mq_buf q2" "mq_end q3 = mq_end q2"
    using op_drain_ok [OF f(2,3,5), of om2 t] by blast
  have "mq_owns q3 qm2" using c(5) f(9-12) d(4-6) by (simp add: mq_owns_def)
  then obtain q4 qm4 where e: "mq_dtor q3 qm2 = Ret (q4, qm4)" "m_blocks qm4 = (m_blocks qm2)(mq_buf q3 := None)"
    using mq_destroy_blocks [OF d(2)] d(4) f(10) buf(2) by auto
  have "m_blocks om a = None" if "a \<in> set ps" for a
  proof (rule ccontr)
    assume "m_blocks om a \<noteq> None"
    then obtain k where "m_blocks om a = Some k" by auto
    with wf(2) have "0 \<le> k" "a + k < m_brk om" unfolding mem_wf_def by blast+
    then show False using f(6) that by auto
  qed
  then have "m_blocks om3 = m_blocks om" by (auto simp: d(3) f(8))
  moreover have "m_blocks qm4 = m_blocks qm"
    using e(2) f(9,11) d(5) c(6) buf(1) brk_fresh [OF wf(1)] by (auto simp: fun_upd_idem)
  ultimately show ?thesis
    using c f d e by (intro exI [of _ "\<lparr>op_que = q2, op_own = True\<rparr>"] exI [of _ qm2] exI [of _ om2] exI [of _ ps]
        exI [of _ qm4] exI [of _ om3]) (simp add: op_ctor_n_def op_dtor_def op_dealloc_def)
qed

subsection \<open>Buffers in a pool\<close>

lemma bf_resize_unowned:
  assumes "\<not> bf_own b" and "0 \<le> sz" and "sz < 2 ^ 64"
  shows "\<exists>b' dm'. bf_resize sz b dm = Some (b', dm') \<and> bf_capacity b' = sz \<and> bf_own b'"
  using assms by (simp add: bf_resize_def bf_dealloc_def bf_alloc_def mem_new_def bf_capacity_def)

lemma bp_resize_rounds:
  assumes "mq_inv mutex_free q qm" and "mq_items q qm = xs @ ys" and "distinct xs"
    and "\<forall>p\<in>set xs. m_live om p \<and> \<not> bf_own (m_val om p)" and "0 \<le> sz" and "sz < 2 ^ 64"
  shows "\<exists>q' qm' om' dm'. run_times (length xs) (bp_resize_one t sz) (q, qm, om, dm) = Ret (q', qm', om', dm') \<and>
    mq_inv mutex_free q' qm' \<and> mq_items q' qm' = ys @ xs \<and> mq_room q' = mq_room q \<and>
    (\<forall>p\<in>set xs. bf_capacity (m_val om' p) = sz \<and> bf_own (m_val om' p)) \<and>
    (\<forall>p. p \<notin> set xs \<longrightarrow> m_val om' p = m_val om p)"
  using assms
proof (induction xs arbitrary: ys q qm om dm)
  case Nil
  then show ?case by auto
next
  case (Cons p xs)
  obtain q1 where g: "mq_get (mutex_type t) q qm = Ret (p, q1)" "mq_inv mutex_free q1 qm" "mq_items q1 qm = xs @ ys"
      "mq_room q1 = mq_room q"
    using mutex.mq_gets_first [OF mq_mutex_L Cons.prems(1), of p "xs @ ys" t] Cons.prems(2) by auto
  have live: "m_live om p" "\<not> bf_own (m_val om p)" using Cons.prems(4) by simp_all
  obtain b' dm1 where b: "bf_resize sz (m_val om p) dm = Some (b', dm1)" "bf_capacity b' = sz" "bf_own b'"
    using bf_resize_unowned [OF live(2) Cons.prems(5,6)] by blast
  let ?om = "om\<lparr>m_val := (m_val om)(p := b')\<rparr>"
  have "length (mq_items q qm) \<le> mq_room q" using mq.within_room [of "(q, qm)"] Cons.prems(1) by simp
  then have "length (mq_items q1 qm) < mq_room q1" using g(3,4) Cons.prems(2) by simp
  then obtain q2 qm2 where put: "mq_put (mutex_type t) p q1 qm = Ret (q2, qm2)" "mq_inv mutex_free q2 qm2"
      "mq_items q2 qm2 = xs @ ys @ [p]" "mq_room q2 = mq_room q1"
    using mq_put_room_ex [OF g(2)] g(3) by (metis append.assoc)
  have one: "bp_resize_one t sz (q, qm, om, dm) = Ret (q2, qm2, ?om, dm1)"
    using g(1) b(1) put(1) live(1) by (simp add: bp_resize_one_def rd_live wr_live)
  have "\<forall>x\<in>set xs. m_live ?om x \<and> \<not> bf_own (m_val ?om x)" using Cons.prems(3,4) by auto
  moreover have "distinct xs" using Cons.prems(3) by simp
  ultimately obtain q' qm' om' dm' where r:
      "run_times (length xs) (bp_resize_one t sz) (q2, qm2, ?om, dm1) = Ret (q', qm', om', dm')"
      "mq_inv mutex_free q' qm'" "mq_items q' qm' = (ys @ [p]) @ xs" "mq_room q' = mq_room q2"
      "\<forall>x\<in>set xs. bf_capacity (m_val om' x) = sz \<and> bf_own (m_val om' x)"
      "\<forall>x. x \<notin> set xs \<longrightarrow> m_val om' x = m_val ?om x"
    using Cons.IH [OF put(2,3), of ?om dm1] Cons.prems(5,6) by blast
  have "p \<notin> set xs" using Cons.prems(3) by simp
  then show ?case using r one b(2,3) put(4) g(4)
    by (intro exI [of _ q'] exI [of _ qm'] exI [of _ om'] exI [of _ dm']) auto
qed

lemma bp_fill_new_ok:
  assumes "mq_inv mutex_free q qm" and "mem_wf om" and "length (mq_items q qm) + n \<le> mq_room q"
  shows "\<exists>q' qm' om' ps. bp_fill_new t n q qm om = Ret (q', qm', om') \<and> mq_inv mutex_free q' qm' \<and>
    mq_items q' qm' = mq_items q qm @ ps \<and> mq_room q' = mq_room q \<and> length ps = n \<and> distinct ps \<and>
    (\<forall>p\<in>set ps. m_brk om \<le> p \<and> m_live om' p \<and> m_val om' p = bf_ctor) \<and>
    (\<forall>a. m_live om a \<longrightarrow> m_live om' a) \<and> (\<forall>a < m_brk om. m_val om' a = m_val om a) \<and>
    mq_capacity q' = mq_capacity q"
  using assms
proof (induction n arbitrary: q qm om)
  case 0
  then show ?case by (intro exI [of _ q] exI [of _ qm] exI [of _ om] exI [of _ "[]"]) simp
next
  case (Suc n)
  obtain om0 where new: "mem_new 1 om = (m_brk om, om0)" by (simp add: mem_new_def)
  define om1 where "om1 = om0\<lparr>m_val := (m_val om0)(m_brk om := bf_ctor)\<rparr>"
  have "mem_wf om0" by (rule mem_new_wf [OF Suc.prems(2) _ new]) simp
  then have wf1: "mem_wf om1" by (simp add: om1_def mem_wf_def live_range_def)
  have b1: "m_brk om1 = m_brk om + 2" "m_live om1 (m_brk om)" "m_val om1 (m_brk om) = bf_ctor"
      "\<And>a. m_live om a \<Longrightarrow> m_live om1 a" "\<And>a. a < m_brk om \<Longrightarrow> m_val om1 a = m_val om a"
    using new by (auto simp: om1_def mem_new_def)
  obtain q1 qm1 where put: "mq_put (mutex_type t) (m_brk om) q qm = Ret (q1, qm1)" "mq_inv mutex_free q1 qm1"
      "mq_items q1 qm1 = mq_items q qm @ [m_brk om]" "mq_room q1 = mq_room q"
    using mq_put_room_ex [OF Suc.prems(1)] Suc.prems(3) by (metis add_Suc_right le_simps(3) less_add_Suc1 order_less_le_trans)
  obtain q2 qm2 om2 ps where r: "bp_fill_new t n q1 qm1 om1 = Ret (q2, qm2, om2)" "mq_inv mutex_free q2 qm2"
      "mq_items q2 qm2 = mq_items q1 qm1 @ ps" "mq_room q2 = mq_room q1" "length ps = n" "distinct ps"
      "\<forall>p\<in>set ps. m_brk om1 \<le> p \<and> m_live om2 p \<and> m_val om2 p = bf_ctor"
      "\<forall>a. m_live om1 a \<longrightarrow> m_live om2 a" "\<forall>a < m_brk om1. m_val om2 a = m_val om1 a"
      "mq_capacity q2 = mq_capacity q1"
    using Suc.IH [OF put(2) wf1] put(3,4) Suc.prems(3) by auto
  have p: "m_brk om \<notin> set ps" "m_live om2 (m_brk om)" "m_val om2 (m_brk om) = bf_ctor"
    using r(7-9) b1 by auto
  have "bp_fill_new t (Suc n) q qm om = Ret (q2, qm2, om2)"
    using new put(1) r(1) by (simp add: buf_new_def om1_def Let_def)
  moreover have "mq_items q2 qm2 = mq_items q qm @ (m_brk om # ps)" using r(3) put(3) by simp
  moreover have "\<forall>a < m_brk om. m_val om2 a = m_val om a" using r(9) b1(1,5) by simp
  moreover have "mq_capacity q2 = mq_capacity q"
    using r(10) mq_put_frame [OF put(1)] by (simp add: mq_capacity_def)
  moreover have "\<forall>x\<in>set (m_brk om # ps). m_brk om \<le> x \<and> m_live om2 x \<and> m_val om2 x = bf_ctor"
    using r(7) p b1(1) by auto
  ultimately show ?case using r(2,4-6,8) put(4) p(1) b1(4)
    by (intro exI [of _ q2] exI [of _ qm2] exI [of _ om2] exI [of _ "m_brk om # ps"]) simp
qed

lemma mq_resize_ok:
  assumes wf: "mem_wf m" and inv: "mq_inv free q m" and owns: "mq_owns q m"
    and cap: "0 < cap" "cap \<le> 2147483647"
  shows "\<exists>q' m'. mq_resize cap q m = Ret (q', m') \<and> mq_inv free q' m' \<and> mq_items q' m' = [] \<and>
    mq_room q' = nat cap \<and> mq_capacity q' = cap"
proof -
  obtain m1 where new: "mem_new cap m = (m_brk m, m1)" by (simp add: mem_new_def)
  have m1: "live_range m1 (m_brk m) cap" "m_blocks m1 = (m_blocks m)(m_brk m \<mapsto> cap)" "m_brk m \<noteq> 0"
      "\<And>a. m_live m a \<Longrightarrow> m_live m1 a"
    using new wf by (auto simp: mem_new_def live_range_def mem_wf_def)
  have old: "mq_own q \<Longrightarrow> mq_end q < m_brk m \<and> mq_buf q \<noteq> m_brk m \<and> mq_buf q \<noteq> 0"
    using wf owns unfolding mem_wf_def mq_owns_def by fastforce
  have inv1: "mq_inv free q m1" using inv m1(4) by (simp add: mq_inv_def live_range_def)
  have owns1: "mq_owns q m1" using owns old m1 by (auto simp: mq_owns_def)
  obtain m2 where d: "mq_destroy q m1 = Ret (q\<lparr>mq_own := False, mq_data := tokens 0, mq_slot := tokens 0, mq_sz := 0,
      mq_buf := 0, mq_putp := 0, mq_getp := 0, mq_end := 0\<rparr>, m2)"
      "if mq_own q then mem_delete (mq_buf q) m1 = Some m2 else m2 = m1"
    using mq_destroy_ok [OF inv1 owns1] by blast
  have live: "live_range m2 (m_brk m) cap"
    using d(2) m1(1) old owns1 by (auto simp: live_range_def mem_delete_def mq_owns_def split: if_splits)
  let ?q = "q\<lparr>mq_own := True, mq_data := tokens 0, mq_slot := tokens cap, mq_sz := 0,
      mq_buf := m_brk m, mq_putp := m_brk m, mq_getp := m_brk m, mq_end := m_brk m + cap\<rparr>"
  have "mq_resize cap q m = Ret (?q, m2)"
    using cap new d(1) m1(3) run_times_post [of 0 "nat cap"] by (simp add: mq_resize_def mq_set_buffer_def)
  moreover have "mq_inv free ?q m2" using inv cap live by (simp add: mq_inv_def)
  ultimately show ?thesis using cap by (simp add: mq_items_def mq_room_def mq_capacity_def)
qed

subsection \<open>Blocks of memory in a pool\<close>

lemma mp_fill_ok:
  assumes "mq_inv mutex_free q qm" and "length (mq_items q qm) + n \<le> mq_room q"
  shows "\<exists>q' qm'. mp_fill t n p sz q qm = Ret (q', qm') \<and> mq_inv mutex_free q' qm' \<and>
    mq_items q' qm' = mq_items q qm @ map (\<lambda>i. p + int i * sz) [0..<n]"
  using assms
proof (induction n arbitrary: p q qm)
  case 0
  then show ?case by simp
next
  case (Suc n)
  obtain q1 qm1 where put: "mq_put (mutex_type t) p q qm = Ret (q1, qm1)" "mq_inv mutex_free q1 qm1"
      "mq_items q1 qm1 = mq_items q qm @ [p]" "mq_room q1 = mq_room q"
    using mq_put_room_ex [OF Suc.prems(1)] Suc.prems(2) by (metis add_Suc_right le_simps(3) less_add_Suc1 order_less_le_trans)
  obtain q2 qm2 where "mp_fill t n (p + sz) sz q1 qm1 = Ret (q2, qm2)" "mq_inv mutex_free q2 qm2"
      "mq_items q2 qm2 = mq_items q1 qm1 @ map (\<lambda>i. p + sz + int i * sz) [0..<n]"
    using Suc.IH [OF put(2), of "p + sz"] put(3,4) Suc.prems(2) by auto
  moreover have "[0..<Suc n] = 0 # map Suc [0..<n]" by (simp add: upt_conv_Cons map_Suc_upt)
  ultimately show ?case using put by (simp add: comp_def algebra_simps del: upt_Suc)
qed

subsection \<open>Releasing every queue\<close>

lemma mq_put_live: "mq_put L v q m = Ret (q', m') \<Longrightarrow> m_live m' = m_live m"
  by (auto simp: mq_put_def mq_do_put_def run_then_Ret_iff Let_def run_opt_def wr_def split: option.splits if_splits)

lemma mq_puts_full_blocks:
  assumes "mq_inv mutex_free q m" and "mq_put (mutex_type t) v q m = Ret r"
  shows "length (mq_items q m) < mq_room q"
proof -
  have "length (mq_items q m) \<le> mq_room q" using mq.within_room [of "(q, m)"] assms(1) by simp
  moreover have "length (mq_items q m) \<noteq> mq_room q"
    using mutex.mq_puts_full(1) [OF assms(1), of "mutex_type t" v] assms(2) by auto
  ultimately show ?thesis by simp
qed

lemma aq_release_loop_ends:
  assumes "\<forall>q\<in>set qs. mq_inv mutex_free q qm" and "i < length qs" and "length qs < 2 ^ 63" and "i + 1 < k"
  shows "aq_release_loop t k (int i) qs qm \<in> {Some Blocks, Some Undef}"
  using assms
proof (induction i arbitrary: k qs qm)
  case 0
  then obtain j where k: "k = Suc (Suc j)" by (metis One_nat_def add.left_neutral less_iff_Suc_add add_Suc)
  show ?case
  proof (cases "mq_put (mutex_type t) 0 (qs ! 0) qm")
    case (Ret r)
    moreover have "u64 (-1) = 18446744073709551615" using u64_neg [of 1] by simp
    ultimately show ?thesis using 0 k by (cases r) (simp add: aq_index_def mq_release_def)
  qed (use 0 k in \<open>simp_all add: aq_index_def mq_release_def\<close>)
next
  case (Suc i)
  then obtain j where k: "k = Suc j" "i + 1 < j" by (cases k) auto
  show ?case
  proof (cases "mq_put (mutex_type t) 0 (qs ! Suc i) qm")
    case (Ret r)
    obtain q' qm' where r: "r = (q', qm')" by (cases r)
    have room: "length (mq_items (qs ! Suc i) qm) < mq_room (qs ! Suc i)"
      using Ret mq_puts_full_blocks Suc.prems(1,2) by (metis nth_mem)
    have "mq_inv mutex_free q' qm'"
      using mutex.mq_puts_room [OF mq_mutex_L _ room, of t 0] Ret r Suc.prems(1,2) by auto
    moreover have "mq_inv mutex_free q qm'" if "q \<in> set qs" for q
      using that Suc.prems(1) mq_put_live [OF Ret [unfolded r]] by (simp add: mq_inv_def live_range_def)
    ultimately have "\<forall>q\<in>set (qs[Suc i := q']). mq_inv mutex_free q qm'"
      using set_update_subset_insert [of qs "Suc i" q'] by auto
    then have "aq_release_loop t j (int i) (qs[Suc i := q']) qm' \<in> {Some Blocks, Some Undef}"
      using Suc.IH [of "qs[Suc i := q']" qm' j] Suc.prems(2,3) k(2) by simp
    moreover have "u64 (int (Suc i) - 1) = int i" using Suc.prems(2,3) by simp
    ultimately show ?thesis
      using Suc.prems(2) Ret r k(1) by (simp add: aq_index_def mq_release_def nat_add_distrib)
  qed (use Suc.prems k in \<open>simp_all add: aq_index_def mq_release_def nat_add_distrib\<close>)
qed

lemma aq_release_never_returns: "0 \<le> i \<Longrightarrow> aq_release_loop t k i qs qm \<noteq> Some (Ret r)"
  by (induction k arbitrary: i qs qm) (auto split: run.splits simp: u64_bounds)

section \<open>Properties\<close>

text \<open>an object pool constructed with \<open>n\<close> objects holds \<open>n\<close> distinct objects, and
  its destructor frees each of them, and its queue, exactly once: both heaps are as before.\<close>

theorem object_pool_lifetime:
  assumes "mem_wf qm" and "mem_wf om" and "0 < n" and "n \<le> 2147483647"
  shows "\<exists>p qm1 om1 ps qm2 om2. op_ctor_n t n q qm om = Ret (p, qm1, om1) \<and>
    mq_items (op_que p) qm1 = ps \<and> length ps = nat n \<and> distinct ps \<and>
    m_blocks om1 = (\<lambda>a. if a \<in> set ps then Some 1 else m_blocks om a) \<and>
    op_dtor t p qm1 om1 = Ret (qm2, om2) \<and> m_blocks om2 = m_blocks om \<and> m_blocks qm2 = m_blocks qm"
  using op_lifetime [OF assms, of t q] by blast

theorem object_pool_lifetime_witness:
  "\<exists>p qm1 om1 qm2 om2. op_ctor_n 0 3 mq_demo (arena 0 9) (arena (0::int) 5) = Ret (p, qm1, om1) \<and>
    length (mq_items (op_que p) qm1) = 3 \<and> op_dtor 0 p qm1 om1 = Ret (qm2, om2)"
  using object_pool_lifetime [of "arena 0 9" "arena (0::int) 5" 3 0 mq_demo] by fastforce

text \<open>a buffer pool constructed with \<open>n\<close> buffers of \<open>sz\<close> items holds \<open>n\<close> distinct
  buffers, each with room for \<open>sz\<close> items. Resizing any pool to a positive number of buffers,
  though, never returns: the queue is emptied first, and the first \<open>get\<close> waits for a buffer.\<close>

theorem buffer_pool_sizes:
  assumes "mem_wf qm" and "mem_wf om" and "0 < n" and "n \<le> 2147483647" and "0 \<le> sz" and "sz < 2 ^ 64"
  shows "(\<exists>q' qm' om' dm'. bp_ctor_n t n sz q qm om dm = Ret (q', qm', om', dm') \<and>
    length (mq_items q' qm') = nat n \<and> distinct (mq_items q' qm') \<and>
    (\<forall>p\<in>set (mq_items q' qm'). bf_capacity (m_val om' p) = sz)) \<and>
    (mq_inv mutex_free q qm \<longrightarrow> mq_owns q qm \<longrightarrow> bp_resize t n sz (q, qm, om, dm) = Blocks)"
proof (intro conjI impI)
  have "mutex_free (mutex_ctor 0)" by (simp add: mutex_free_def mutex_ctor_def)
  then obtain q1 qm1 where c: "mq_ctor_cap (mutex_ctor 0) n q qm = Ret (q1, qm1)" "mq_inv mutex_free q1 qm1"
      "mq_items q1 qm1 = []" "mq_room q1 = nat n"
    using mq_ctor_cap_ok [OF assms(1,3,4), of mutex_free "mutex_ctor 0" q] by blast
  have cap1: "mq_capacity q1 = n" using c(2,4) assms(3) by (simp add: mq_capacity_def mq_room_def mq_inv_def eq_nat_nat_iff)
  obtain q2 qm2 om2 ps where f: "bp_fill_new t (nat n) q1 qm1 om = Ret (q2, qm2, om2)" "mq_inv mutex_free q2 qm2"
      "mq_items q2 qm2 = ps" "length ps = nat n" "distinct ps"
      "\<forall>p\<in>set ps. m_live om2 p \<and> m_val om2 p = bf_ctor" "mq_capacity q2 = n"
    using bp_fill_new_ok [OF c(2) assms(2), of "nat n" t] c(3,4) cap1 by auto
  have "\<forall>p\<in>set ps. m_live om2 p \<and> \<not> bf_own (m_val om2 p)" using f(6) by (simp add: bf_ctor_def)
  then obtain q3 qm3 om3 dm3 where r: "run_times (length ps) (bp_resize_one t sz) (q2, qm2, om2, dm) = Ret (q3, qm3, om3, dm3)"
      "mq_items q3 qm3 = ps" "\<forall>p\<in>set ps. bf_capacity (m_val om3 p) = sz"
    using bp_resize_rounds [OF f(2), of ps "[]" om2 sz t dm] f(3,5) assms(5,6) by auto
  have "bp_ctor_n t n sz q qm om dm = Ret (q3, qm3, om3, dm3)"
    using c(1) f(1,4,7) r(1) by (simp add: bp_ctor_n_def bp_resize_buffers_def)
  then show "\<exists>q' qm' om' dm'. bp_ctor_n t n sz q qm om dm = Ret (q', qm', om', dm') \<and>
    length (mq_items q' qm') = nat n \<and> distinct (mq_items q' qm') \<and>
    (\<forall>p\<in>set (mq_items q' qm'). bf_capacity (m_val om' p) = sz)"
    using r f(4,5) by auto
next
  assume "mq_inv mutex_free q qm" "mq_owns q qm"
  then obtain q1 qm1 where z: "mq_resize n q qm = Ret (q1, qm1)" "mq_inv mutex_free q1 qm1" "mq_items q1 qm1 = []"
      "mq_capacity q1 = n"
    using mq_resize_ok [OF assms(1) _ _ assms(3,4)] by blast
  have "mq_get (mutex_type t) q1 qm1 = Blocks" by (rule mutex.mq_gets_empty(1) [OF z(2,3)])
  moreover obtain k where "nat n = Suc k" using assms(3) by (cases "nat n") auto
  ultimately show "bp_resize t n sz (q, qm, om, dm) = Blocks"
    using z(1,4) by (simp add: bp_resize_def bp_resize_buffers_def bp_resize_one_def)
qed

theorem buffer_pool_sizes_witness:
  "\<exists>q' qm' om' dm'. bp_ctor_n 0 2 64 mq_demo (arena 0 9) (arena bf_ctor 5) (arena (0::int) 5) = Ret (q', qm', om', dm') \<and>
    length (mq_items q' qm') = 2"
  using buffer_pool_sizes [of "arena 0 9" "arena bf_ctor 5" 2 64 0 mq_demo "arena (0::int) 5"] by fastforce

text \<open>a memory pool hands out the \<open>n\<close> consecutive blocks of its array. Made over an array
  that it does not own, it hands out the same offsets from the null pointer instead.\<close>

theorem memory_pool_blocks:
  assumes "mem_wf qm" and "0 < n" and "n \<le> 2147483647"
  shows "(\<exists>p qm' m'. mp_ctor t n sz q qm m = Ret (p, qm', m') \<and> mp_arr p = m_brk m \<and>
      live_range m' (mp_arr p) (n * sz) \<and>
      mq_items (mp_que p) qm' = map (\<lambda>i. mp_arr p + int i * sz) [0..<nat n]) \<and>
    (\<exists>p qm'. mp_ctor_arr t arr n sz False q qm m = Ret (p, qm', m) \<and>
      mq_items (mp_que p) qm' = map (\<lambda>i. int i * sz) [0..<nat n])"
proof -
  have "mutex_free (mutex_ctor 0)" by (simp add: mutex_free_def mutex_ctor_def)
  then obtain q1 qm1 where c: "mq_ctor_cap (mutex_ctor 0) n q qm = Ret (q1, qm1)" "mq_inv mutex_free q1 qm1"
      "mq_items q1 qm1 = []" "mq_room q1 = nat n"
    using mq_ctor_cap_ok [OF assms, of mutex_free "mutex_ctor 0" q] by blast
  have fill: "\<exists>q' qm'. mp_fill t (nat n) p sz q1 qm1 = Ret (q', qm') \<and> mq_items q' qm' = map (\<lambda>i. p + int i * sz) [0..<nat n]" for p
    using mp_fill_ok [OF c(2), of "nat n" t p sz] c(3,4) by auto
  show ?thesis
    using fill [of "m_brk m"] fill [of 0] c(1)
    by (auto simp: mp_ctor_def mp_ctor_arr_def mp_assign_def mp_dealloc_def mem_delete_def mem_new_def live_range_def)
qed

theorem memory_pool_blocks_witness:
  "\<exists>p qm'. mp_ctor_arr 0 100 2 16 False mq_demo (arena 0 9) (arena (0::int) 200) = Ret (p, qm', arena 0 200) \<and>
    mq_items (mp_que p) qm' = [0, 16]"
  using memory_pool_blocks [of "arena 0 9" 2 0 16 mq_demo "arena (0::int) 200" 100] by (auto simp: upt_rec)

text \<open>C39: \<open>release\<close> of a buffer queue set never returns: its loop counts an unsigned index down
  past zero, and ends, after at most \<open>nque + 1\<close> rounds, by blocking on a full queue or by
  indexing the array out of bounds.\<close>

theorem buffer_queues_release_never_returns:
  assumes "\<forall>q\<in>set qs. mq_inv mutex_free q qm" and "qs \<noteq> []" and "length qs < 2 ^ 63" and "length qs < fuel"
  shows "aq_release t fuel qs qm \<in> {Some Blocks, Some Undef} \<and> (\<forall>fuel' r. aq_release t fuel' qs qm \<noteq> Some (Ret r))"
proof -
  obtain i where i: "length qs = Suc i" using assms(2) by (cases qs) auto
  then have "u64 (int (length qs) - 1) = int i" using assms(3) by simp
  then show ?thesis
    using aq_release_loop_ends [OF assms(1), of i fuel t] aq_release_never_returns [of "int i"] i assms(3,4)
    by (simp add: aq_release_def)
qed

theorem buffer_queues_release_never_returns_witness:
  "aq_release 0 2 [mq_demo\<lparr>mq_buf := 1, mq_putp := 1, mq_getp := 1, mq_end := 5, mq_slot := tokens 4\<rparr>] (arena 0 9)
     \<in> {Some Blocks, Some Undef}"
  by (rule buffer_queues_release_never_returns [THEN conjunct1]) (use mq_demo_inv in simp_all)

end
