(* ===== verification/Threads.thy ===== *)
theory Threads imports OSEvent Pools begin

text \<open>
  \<open>os/posix/CtrlrFx/Thread.h\<close> and \<open>src/os/posix/Thread.cpp\<close>: active objects over POSIX threads;
  \<open>os/generic/CtrlrFx/QueueThread.h\<close> and \<open>ThreadPool.h\<close>. What the operating system keeps of a
  thread is whether it was created, runs its function, has returned from it, and was joined;
  joining a thread a second time is undefined. Results of system calls are arguments.
\<close>

section \<open>Thread\<close>

datatype os_thread = NoThread | Running | Ended | Joined

text \<open>The life of a thread: later is greater.\<close>

fun os_rank :: "os_thread \<Rightarrow> nat" where
  "os_rank NoThread = 0"
| "os_rank Running = 1"
| "os_rank Ended = 2"
| "os_rank Joined = 3"

lemma os_rank_inj: "os_rank a = os_rank b \<Longrightarrow> a = b"
  by (cases a; cases b) simp_all

instantiation os_thread :: linorder
begin

definition less_eq_os_thread :: "os_thread \<Rightarrow> os_thread \<Rightarrow> bool" where
  "a \<le> b \<longleftrightarrow> os_rank a \<le> os_rank b"

definition less_os_thread :: "os_thread \<Rightarrow> os_thread \<Rightarrow> bool" where
  "a < b \<longleftrightarrow> os_rank a < os_rank b"

instance
  by intro_classes (auto simp: less_eq_os_thread_def less_os_thread_def intro: os_rank_inj)

end

lemma os_life [simp]: "NoThread \<le> a" "a \<le> Joined" "Joined \<le> a \<longleftrightarrow> a = Joined" "Running \<le> a \<longleftrightarrow> a \<noteq> NoThread"
  "Running \<le> Ended" "Running < Ended" "Ended < Joined"
  by (cases a; simp add: less_eq_os_thread_def less_os_thread_def)+

record thread =
  th_prio :: int
  th_done :: osev
  th_active :: bool
  th_quit :: bool
  th_os :: os_thread

definition PRIORITY_HIGHEST :: int where "PRIORITY_HIGHEST = 99"
definition PRIORITY_ABOVE_NORMAL :: int where "PRIORITY_ABOVE_NORMAL = 75"
definition PRIORITY_NORMAL :: int where "PRIORITY_NORMAL = 50"
definition PRIORITY_BELOW_NORMAL :: int where "PRIORITY_BELOW_NORMAL = 25"
definition PRIORITY_LOWEST :: int where "PRIORITY_LOWEST = 5"
definition PRIORITY_IDLE :: int where "PRIORITY_IDLE = 1"

definition th_ctor :: "int \<Rightarrow> thread" where
  "th_ctor prio = \<lparr>th_prio = prio, th_done = ev_ctor_manual, th_active = False, th_quit = False, th_os = NoThread\<rparr>"

text \<open>\<open>g\<close> is the result of \<open>pthread_attr_getschedparam\<close>, which the code asserts to be 0; \<open>r1\<close> and
  \<open>r2\<close> are those of \<open>pthread_create\<close> with and without the real-time attributes. A failed
  assertion is \<open>Undef\<close>.\<close>

definition th_activate :: "int \<Rightarrow> int \<Rightarrow> int \<Rightarrow> thread \<Rightarrow> (bool \<times> thread) run" where
  "th_activate g r1 r2 th =
     (if g \<noteq> 0 then Undef
      else
        let th = th\<lparr>th_active := (r1 = 0)\<rparr>;
            th = (if \<not> th_active th then th\<lparr>th_active := (r2 = 0)\<rparr> else th)
        in if th_active th then Ret (True, th\<lparr>th_os := Running\<rparr>) else Undef)"

text \<open>The end of \<open>startup\<close>, in the new thread: after \<open>run\<close> the event is signaled and \<open>close\<close> is
  called; then the thread returns.\<close>

definition th_startup_signal :: "thread \<Rightarrow> thread" where
  "th_startup_signal th = th\<lparr>th_done := snd (ev_signal (th_done th))\<rparr>"
definition th_startup_return :: "thread \<Rightarrow> thread" where "th_startup_return th = th\<lparr>th_os := Ended\<rparr>"

definition pthread_join :: "thread \<Rightarrow> thread run" where
  "pthread_join th =
     (case th_os th of Running \<Rightarrow> Blocks | Ended \<Rightarrow> Ret (th\<lparr>th_os := Joined\<rparr>) | _ \<Rightarrow> Undef)"

definition th_wait :: "thread \<Rightarrow> thread run" where
  "th_wait th =
     (if th_active th then run_then (pthread_join th) (\<lambda>th. Ret (th\<lparr>th_active := False\<rparr>)) else Ret th)"

text \<open>\<open>timeout\<close>: the time is over before the event is signaled.\<close>

definition th_wait_for :: "bool \<Rightarrow> thread \<Rightarrow> (bool \<times> thread) run" where
  "th_wait_for timeout th =
     (if \<not> th_active th then Ret (True, th)
      else case ev_wait_for timeout (th_done th) of
        None \<Rightarrow> Blocks
      | Some (b, e) \<Rightarrow>
          (let th = th\<lparr>th_done := e\<rparr>
           in if b then run_then (pthread_join th) (\<lambda>th. Ret (True, th\<lparr>th_active := False\<rparr>)) else Ret (False, th)))"

definition th_request_quit :: "thread \<Rightarrow> thread" where "th_request_quit th = th\<lparr>th_quit := True\<rparr>"

text \<open>\<open>r\<close> is the result of \<open>pthread_setschedparam\<close>, \<open>p\<close> the priority \<open>pthread_getschedparam\<close> gives.\<close>

definition th_set_priority :: "int \<Rightarrow> int \<Rightarrow> thread \<Rightarrow> bool \<times> thread" where
  "th_set_priority prio r th = (r = 0, th\<lparr>th_prio := prio\<rparr>)"
definition th_get_priority :: "int \<Rightarrow> thread \<Rightarrow> int \<times> thread" where
  "th_get_priority p th = (p, th\<lparr>th_prio := p\<rparr>)"
definition th_curr_priority_set :: "(int \<Rightarrow> int \<Rightarrow> int) \<Rightarrow> int \<Rightarrow> bool" where
  "th_curr_priority_set setsched prio \<longleftrightarrow> setsched 1 prio = 0"
definition th_curr_priority :: "int \<Rightarrow> int" where "th_curr_priority p = p"

text \<open>The life of a thread that its owner has activated: the thread signals its event and returns,
  and in between and afterwards the owner waits, with or without a limit, asks it to quit, and sets
  priorities.\<close>

inductive th_step :: "thread \<Rightarrow> thread \<Rightarrow> bool" where
  th_signals: "th_os th = Running \<Longrightarrow> th_step th (th_startup_signal th)"
| th_returns: "th_os th = Running \<Longrightarrow> ev_sig (th_done th) \<Longrightarrow> th_step th (th_startup_return th)"
| th_waits: "th_wait th = Ret th' \<Longrightarrow> th_step th th'"
| th_waits_for: "th_wait_for timeout th = Ret (b, th') \<Longrightarrow> th_step th th'"
| th_quits: "th_step th (th_request_quit th)"
| th_sets: "th_set_priority p r th = (b, th') \<Longrightarrow> th_step th th'"
| th_gets: "th_get_priority p th = (q, th') \<Longrightarrow> th_step th th'"

inductive th_reach :: "thread \<Rightarrow> thread \<Rightarrow> bool" where
  th_refl: "th_reach th th"
| th_more: "th_reach th th' \<Longrightarrow> th_step th' th'' \<Longrightarrow> th_reach th th''"

text \<open>The object is active exactly while its thread is there and was not joined, and the event is
  signaled before the thread ends.\<close>

definition th_inv :: "thread \<Rightarrow> bool" where
  "th_inv th \<longleftrightarrow> ev_manual (th_done th) \<and> (th_active th \<longleftrightarrow> th_os th = Running \<or> th_os th = Ended) \<and>
     th_os th \<noteq> NoThread \<and> (th_os th \<noteq> Running \<longrightarrow> ev_sig (th_done th))"

lemmas th_defs = th_startup_signal_def th_startup_return_def th_wait_def th_wait_for_def pthread_join_def
  th_request_quit_def th_set_priority_def th_get_priority_def ev_signal_def ev_wait_for_def

lemma th_step_inv: "th_step th th' \<Longrightarrow> th_inv th \<Longrightarrow> th_inv th'"
  by (induction rule: th_step.induct)
    (auto simp: th_inv_def th_defs run_then_Ret_iff Let_def split: if_splits option.splits os_thread.splits)

lemma th_reach_inv: "th_reach th th' \<Longrightarrow> th_inv th \<Longrightarrow> th_inv th'"
  by (induction rule: th_reach.induct) (auto intro: th_step_inv)

text \<open>A thread's life only advances.\<close>

lemma th_step_advances: "th_step th th' \<Longrightarrow> th_os th \<le> th_os th'"
  by (induction rule: th_step.induct)
    (auto simp: th_defs run_then_Ret_iff Let_def split: if_splits option.splits os_thread.splits)

lemma th_reach_advances: "th_reach th th' \<Longrightarrow> th_os th \<le> th_os th'"
  by (induction rule: th_reach.induct) (auto dest: th_step_advances)

lemma th_activate_inv: "th_activate g r1 r2 (th_ctor prio) = Ret (b, th) \<Longrightarrow> th_inv th"
  by (auto simp: th_activate_def th_ctor_def th_inv_def ev_ctor_manual_def ev_ctor_def EV_MANUAL_RESET_def
      Let_def split: if_splits)

section \<open>QueueThread\<close>

record 'l qthread =
  qt_thread :: thread
  qt_que :: "'l mq"

definition qt_ctor :: "int \<Rightarrow> int \<Rightarrow> mutex mq \<Rightarrow> 'a mem \<Rightarrow> (mutex qthread \<times> 'a mem) run" where
  "qt_ctor prio cap q m =
     run_then (mq_ctor_cap (mutex_ctor 0) cap q m) (\<lambda>(q, m). Ret (\<lparr>qt_thread = th_ctor prio, qt_que = q\<rparr>, m))"

definition qt_put :: "nat \<Rightarrow> 'a \<Rightarrow> mutex qthread \<Rightarrow> 'a mem \<Rightarrow> (mutex qthread \<times> 'a mem) run" where
  "qt_put t v qt m = run_then (mq_put (mutex_type t) v (qt_que qt) m) (\<lambda>(q, m). Ret (qt\<lparr>qt_que := q\<rparr>, m))"
definition qt_put_for :: "nat \<Rightarrow> 'a \<Rightarrow> mutex qthread \<Rightarrow> 'a mem \<Rightarrow> (bool \<times> mutex qthread \<times> 'a mem) run" where
  "qt_put_for t v qt m =
     run_then (mq_put_for (mutex_type t) v (qt_que qt) m) (\<lambda>(b, q, m). Ret (b, qt\<lparr>qt_que := q\<rparr>, m))"
definition qt_tryput :: "nat \<Rightarrow> 'a \<Rightarrow> mutex qthread \<Rightarrow> 'a mem \<Rightarrow> (bool \<times> mutex qthread \<times> 'a mem) run" where
  "qt_tryput t v qt m =
     run_then (mq_tryput (mutex_type t) v (qt_que qt) m) (\<lambda>(b, q, m). Ret (b, qt\<lparr>qt_que := q\<rparr>, m))"

text \<open>\<open>zero\<close> is the default item \<open>T()\<close>.\<close>

definition qt_quit :: "nat \<Rightarrow> 'a \<Rightarrow> mutex qthread \<Rightarrow> 'a mem \<Rightarrow> (mutex qthread \<times> 'a mem) run" where
  "qt_quit t zero qt m = qt_put t zero (qt\<lparr>qt_thread := th_request_quit (qt_thread qt)\<rparr>) m"

section \<open>ThreadPool\<close>

definition tp_ctor_n :: "nat \<Rightarrow> int \<Rightarrow> mutex mq \<Rightarrow> int mem \<Rightarrow> 'o mem \<Rightarrow> (opool \<times> int mem \<times> 'o mem) run" where
  "tp_ctor_n t n q qm om = op_ctor_n t n q qm om"
definition tp_ctor_arr :: "nat \<Rightarrow> int \<Rightarrow> int \<Rightarrow> mutex mq \<Rightarrow> int mem \<Rightarrow> (opool \<times> int mem) run" where
  "tp_ctor_arr t arr n q qm = op_ctor_arr t arr n q qm"

section \<open>Properties\<close>

text \<open>The owner of an activated thread may call \<open>wait\<close> in both forms, \<open>quit\<close> and the priorities in
  any order and number: the thread is joined at most once, \<open>wait\<close> returns only when the thread has
  ended, the timed \<open>wait\<close> is true only then, and when the object is no longer active both return at
  once. The thread's life only advances, from running to ended to joined.\<close>

theorem thread_is_joined_once:
  assumes "th_activate g r1 r2 (th_ctor prio) = Ret (b, th)" "th_reach th th'"
  shows "th_wait th' \<noteq> Undef \<and> th_wait_for timeout th' \<noteq> Undef \<and>
    (th_wait th' = Ret th'' \<or> th_wait_for timeout th' = Ret (True, th'') \<longrightarrow> th_os th'' = Joined \<and> \<not> th_active th'') \<and>
    (\<not> th_active th' \<longrightarrow> th_wait th' = Ret th' \<and> th_wait_for timeout th' = Ret (True, th')) \<and> th_os th \<le> th_os th'"
proof -
  have inv: "th_inv th'" by (rule th_reach_inv [OF assms(2) th_activate_inv [OF assms(1)]])
  have "th_wait th' \<noteq> Undef \<and> th_wait_for timeout th' \<noteq> Undef"
    using inv by (auto simp: th_inv_def th_defs Let_def split: os_thread.splits option.splits if_splits)
  moreover have "th_os th'' = Joined \<and> \<not> th_active th''"
    if "th_wait th' = Ret th'' \<or> th_wait_for timeout th' = Ret (True, th'')"
    using inv that by (cases "th_os th'") (auto simp: th_inv_def th_defs Let_def split: option.splits if_splits)
  ultimately show ?thesis using th_reach_advances [OF assms(2)] by (simp add: th_wait_def th_wait_for_def)
qed

theorem thread_is_joined_once_witness:
  "\<exists>th th'. th_activate 0 1 0 (th_ctor 50) = Ret (True, th) \<and> th_reach th th' \<and>
    th_wait_for False th' = Ret (True, th'\<lparr>th_active := False, th_os := Joined\<rparr>)"
proof -
  let ?e = "ev_ctor_manual"
  let ?th = "\<lparr>th_prio = 50, th_done = ?e, th_active = True, th_quit = False, th_os = Running\<rparr>"
  let ?th1 = "th_startup_signal ?th" and ?th2 = "th_startup_return (th_startup_signal ?th)"
  have a: "th_activate 0 1 0 (th_ctor 50) = Ret (True, ?th)" by (simp add: th_activate_def th_ctor_def)
  have 1: "th_step ?th ?th1" by (rule th_signals) simp
  have 2: "th_step ?th1 ?th2" by (rule th_returns) (simp_all add: th_startup_signal_def ev_signal_def)
  have r: "th_reach ?th ?th2" by (rule th_more [OF th_more [OF th_refl 1] 2])
  have w: "th_wait_for False ?th2 = Ret (True, ?th2\<lparr>th_active := False, th_os := Joined\<rparr>)"
    by (simp add: th_defs ev_ctor_manual_def ev_ctor_def EV_MANUAL_RESET_def)
  from thread_is_joined_once [OF a r, of False "?th2\<lparr>th_active := False, th_os := Joined\<rparr>"] w
  have "th_os (?th2\<lparr>th_active := False, th_os := Joined\<rparr>) = Joined" by blast
  then show ?thesis using a r w by blast
qed

text \<open>A quit request to a thread whose queue is full blocks until the thread takes an item.\<close>

theorem queue_thread_quit_may_block:
  "mq_slot (qt_que qt) = tokens 0 \<Longrightarrow> qt_quit t zero qt m = Blocks"
  by (simp add: qt_quit_def qt_put_def mq_put_def)

end
