(* ===== verification/EchoThreads.thy ===== *)
theory EchoThreads imports EchoLoops MsgSlot Threads "HOL-Library.Sublist" begin

text \<open>
  \<open>examples/net/echo/MtEchoServer/MtEchoServer.cpp\<close>: the main thread accepts connections and hands
  each to a thread of a pool, through the thread's message slot; the thread echoes until the client
  closes, goes back into the pool, and closes the socket. The program is the composition of
  \<open>ThreadPool\<close>, \<open>MsgSlot\<close>, \<open>Thread\<close>, \<open>TcpAcceptor\<close>, \<open>TcpSocket\<close> and \<open>FixedBuffer\<close>. A step is one operation on
  an object that threads share, or one turn of an echo loop; before each step the network may change
  its mind about what it does, within what POSIX allows.
\<close>

definition POOL_SIZE :: nat where "POOL_SIZE = 4"

section \<open>The network\<close>

text \<open>The table of handles, and for each handle the bytes it was received and sent since it was
  accepted, and whether a \<open>send\<close> on it has failed.\<close>

record netlog = fdtab +
  nl_in :: "int \<Rightarrow> byte list"
  nl_out :: "int \<Rightarrow> byte list"
  nl_broken :: "int set"

definition nl_close :: "int \<Rightarrow> netlog \<Rightarrow> netlog" where
  "nl_close h s = s\<lparr>ft_open := ft_open s - {h}, ft_bad := ft_bad s \<or> h \<notin> ft_open s\<rparr>"

text \<open>\<open>accept\<close> gives a handle that is not open, or -1; \<open>recv\<close> stores up to as many bytes as it is
  asked for; \<open>send\<close> takes some bytes, or fails, and a connection on which it failed stays broken.\<close>

definition nl_accepts :: "netlog net_os \<Rightarrow> bool" where
  "nl_accepts nt \<longleftrightarrow> (\<forall>h s. nt_accept nt h s = (-1, s) \<or>
     (\<exists>r. 0 \<le> r \<and> r \<notin> ft_open s \<and> nt_accept nt h s = (r, s\<lparr>ft_open := insert r (ft_open s),
        nl_in := (nl_in s)(r := []), nl_out := (nl_out s)(r := []), nl_broken := nl_broken s - {r}\<rparr>)))"

definition nl_recvs :: "netlog net_os \<Rightarrow> bool" where
  "nl_recvs nt \<longleftrightarrow> (\<forall>h n s. 0 < n \<longrightarrow> (\<exists>r bs. nt_recv nt h n s = (r, bs, s\<lparr>nl_in := (nl_in s)(h := nl_in s h @ bs)\<rparr>) \<and>
     -1 \<le> r \<and> r \<le> n \<and> length bs = nat r))"

definition nl_sends :: "netlog net_os \<Rightarrow> bool" where
  "nl_sends nt \<longleftrightarrow> (\<forall>h bs s.
     (\<exists>j. 0 < j \<and> j \<le> length bs \<and> h \<notin> nl_broken s \<and>
        nt_send nt h bs s = (int j, s\<lparr>nl_out := (nl_out s)(h := nl_out s h @ take j bs)\<rparr>)) \<or>
     (\<exists>r. (r = 0 \<or> r = -1) \<and> nt_send nt h bs s = (r, s\<lparr>nl_broken := insert h (nl_broken s)\<rparr>)))"

definition mt_net :: "netlog net_os \<Rightarrow> bool" where
  "mt_net nt \<longleftrightarrow> nt_close nt = nl_close \<and> nl_accepts nt \<and> nl_recvs nt \<and> nl_sends nt"

section \<open>The handlers\<close>

text \<open>Where \<open>run\<close> stands: at the test of the loop, in \<open>msg_.get()\<close>, in the echo loop, before \<open>threadPool.put(this)\<close>,
  before the end of the body, where the socket is destroyed, and after the loop.\<close>

datatype eh_pc = EhTop | EhGet | EhServe | EhPool | EhClose | EhEnd

record handler =
  eh_th :: thread
  eh_slot :: "int slot"
  eh_pc :: eh_pc
  eh_sock :: sock
  eh_buf :: bf
  eh_mem :: "byte mem"

datatype mt_pc = MtStart nat | MtAccept | MtPool | MtGive int | MtEnd

record mt =
  mt_hs :: "nat \<Rightarrow> handler"
  mt_arr :: int
  mt_pool :: opool
  mt_qm :: "int mem"
  mt_acc :: acceptor
  mt_pc :: mt_pc
  mt_sock :: sock
  mt_os :: netlog

definition eh_ctor :: "bf \<Rightarrow> byte mem \<Rightarrow> handler" where
  "eh_ctor b m = \<lparr>eh_th = th_ctor PRIORITY_NORMAL, eh_slot = sl_ctor 0, eh_pc = EhTop, eh_sock = tcp_ctor,
     eh_buf = b, eh_mem = m\<rparr>"

definition eh_upd :: "nat \<Rightarrow> (handler \<Rightarrow> handler) \<Rightarrow> mt \<Rightarrow> mt" where
  "eh_upd i f s = s\<lparr>mt_hs := (mt_hs s)(i := f (mt_hs s i))\<rparr>"

definition handle_conn :: "nat \<Rightarrow> int \<Rightarrow> handler \<Rightarrow> handler run" where
  "handle_conn t v h = run_then (sl_put t v (eh_slot h)) (\<lambda>sl. Ret (h\<lparr>eh_slot := sl\<rparr>))"

definition eh_run :: "netlog net_os \<Rightarrow> nat \<Rightarrow> mt \<Rightarrow> mt run" where
  "eh_run nt i s =
     (let h = mt_hs s i
      in case eh_pc h of
           EhTop \<Rightarrow> Ret (eh_upd i (\<lambda>h. h\<lparr>eh_pc := (if th_quit (eh_th h) then EhEnd else EhGet)\<rparr>) s)
         | EhGet \<Rightarrow> run_then (sl_get (Suc i) (eh_slot h)) (\<lambda>(v, sl).
             let k = tcp_ctor_handle v
             in if \<not> so_is_valid k \<or> th_quit (eh_th h)
                then Ret (eh_upd i (\<lambda>h. h\<lparr>eh_slot := sl, eh_pc := EhTop\<rparr>) (s\<lparr>mt_os := so_dtor (nt_close nt) (k, mt_os s)\<rparr>))
                else Ret (eh_upd i (\<lambda>h. h\<lparr>eh_slot := sl, eh_sock := k, eh_pc := EhServe\<rparr>) s))
         | EhServe \<Rightarrow> run_then (run_opt (mt_turn nt (eh_sock h) (eh_buf h) (mt_os s) (eh_mem h))) (\<lambda>(go, b, os, m).
             Ret (eh_upd i (\<lambda>h. h\<lparr>eh_buf := b, eh_mem := m, eh_pc := (if go then EhServe else EhPool)\<rparr>) (s\<lparr>mt_os := os\<rparr>)))
         | EhPool \<Rightarrow> run_then (mq_put (mutex_type (Suc i)) (mt_arr s + int i) (op_que (mt_pool s)) (mt_qm s)) (\<lambda>(q, qm).
             Ret (eh_upd i (\<lambda>h. h\<lparr>eh_pc := EhClose\<rparr>) (s\<lparr>mt_pool := (mt_pool s)\<lparr>op_que := q\<rparr>, mt_qm := qm\<rparr>)))
         | EhClose \<Rightarrow> Ret (eh_upd i (\<lambda>h. h\<lparr>eh_sock := tcp_ctor, eh_pc := EhTop\<rparr>)
             (s\<lparr>mt_os := so_dtor (nt_close nt) (eh_sock h, mt_os s)\<rparr>))
         | EhEnd \<Rightarrow> Ret (eh_upd i (\<lambda>h. h\<lparr>eh_th := th_startup_return (th_startup_signal (eh_th h))\<rparr>) s))"

section \<open>The main thread\<close>

text \<open>The loop that activates the threads, then \<open>accept\<close>, \<open>threadPool.get()\<close> and \<open>handle_conn(sock.release())\<close>
  in turn; a connection that is not valid ends the program. A pointer outside the array is undefined.\<close>

definition mt_main :: "netlog net_os \<Rightarrow> mt \<Rightarrow> mt run" where
  "mt_main nt s =
     (case mt_pc s of
        MtStart i \<Rightarrow>
          if i < POOL_SIZE
          then run_then (th_activate 0 0 0 (eh_th (mt_hs s i))) (\<lambda>(_, th).
            Ret (eh_upd i (\<lambda>h. h\<lparr>eh_th := th\<rparr>) (s\<lparr>mt_pc := MtStart (Suc i)\<rparr>)))
          else Ret (s\<lparr>mt_pc := MtAccept\<rparr>)
      | MtAccept \<Rightarrow>
          let (k, os) = ac_accept nt (mt_acc s) (mt_os s)
          in if \<not> so_is_valid k then Ret (s\<lparr>mt_pc := MtEnd, mt_os := so_dtor (nt_close nt) (k, os)\<rparr>)
             else Ret (s\<lparr>mt_pc := MtPool, mt_sock := k, mt_os := os\<rparr>)
      | MtPool \<Rightarrow> run_then (mq_get (mutex_type 0) (op_que (mt_pool s)) (mt_qm s)) (\<lambda>(p, q).
          Ret (s\<lparr>mt_pc := MtGive p, mt_pool := (mt_pool s)\<lparr>op_que := q\<rparr>\<rparr>))
      | MtGive p \<Rightarrow>
          if p < mt_arr s \<or> mt_arr s + int POOL_SIZE \<le> p then Undef
          else
            let i = nat (p - mt_arr s); (v, k) = so_release (mt_sock s)
            in run_then (handle_conn 0 v (mt_hs s i)) (\<lambda>h.
                 Ret (eh_upd i (\<lambda>_. h) (s\<lparr>mt_pc := MtAccept, mt_sock := tcp_ctor, mt_os := so_dtor (nt_close nt) (k, mt_os s)\<rparr>)))
      | MtEnd \<Rightarrow> Blocks)"

text \<open>The static objects and an acceptor that is open on the handle \<open>h0\<close>; every handler has a buffer of its own.\<close>

definition mt_init :: "int \<Rightarrow> acceptor \<Rightarrow> mutex mq \<Rightarrow> int mem \<Rightarrow> (nat \<Rightarrow> byte mem) \<Rightarrow> netlog \<Rightarrow> mt run" where
  "mt_init arr a q qm ms os =
     run_then (tp_ctor_arr 0 arr (int POOL_SIZE) q qm) (\<lambda>(pool, qm).
       Ret \<lparr>mt_hs = (\<lambda>i. eh_ctor (fb_ctor 1 ECHO_BUF_SIZE) (ms i)), mt_arr = arr, mt_pool = pool, mt_qm = qm,
            mt_acc = a, mt_pc = MtStart 0, mt_sock = tcp_ctor, mt_os = os\<rparr>)"

definition eh_runs :: "nat \<Rightarrow> mt \<Rightarrow> bool" where "eh_runs i s \<longleftrightarrow> th_os (eh_th (mt_hs s i)) = Running"

text \<open>When \<open>main\<close> has returned the process is over.\<close>

inductive mt_step :: "mt \<Rightarrow> mt \<Rightarrow> bool" where
  mt_main_steps: "mt_net nt \<Longrightarrow> mt_main nt s = Ret s' \<Longrightarrow> mt_step s s'"
| mt_handler_steps: "mt_net nt \<Longrightarrow> eh_runs i s \<Longrightarrow> mt_pc s \<noteq> MtEnd \<Longrightarrow> eh_run nt i s = Ret s' \<Longrightarrow> mt_step s s'"

inductive_cases mt_stepE: "mt_step s s'"

inductive mt_reach :: "mt \<Rightarrow> mt \<Rightarrow> bool" where
  mt_refl: "mt_reach s s"
| mt_more: "mt_reach s s' \<Longrightarrow> mt_step s' s'' \<Longrightarrow> mt_reach s s''"

section \<open>What a turn does to the network\<close>

text \<open>What was sent is a beginning of what was received, and all of it unless the connection broke.\<close>

definition echoed :: "int \<Rightarrow> netlog \<Rightarrow> bool" where
  "echoed h s \<longleftrightarrow> prefix (nl_out s h) (nl_in s h) \<and> (h \<notin> nl_broken s \<longrightarrow> nl_out s h = nl_in s h)"

text \<open>Only the connection \<open>h\<close> differs.\<close>

definition only_conn :: "int \<Rightarrow> netlog \<Rightarrow> netlog \<Rightarrow> bool" where
  "only_conn h s s' \<longleftrightarrow> ft_open s' = ft_open s \<and> ft_bad s' = ft_bad s \<and> (\<forall>g. g \<noteq> h \<longrightarrow>
     nl_in s' g = nl_in s g \<and> nl_out s' g = nl_out s g \<and> (g \<in> nl_broken s' \<longleftrightarrow> g \<in> nl_broken s))"

lemma only_conn_echoed: "only_conn h s s' \<Longrightarrow> g \<noteq> h \<Longrightarrow> echoed g s' = echoed g s"
  by (simp add: only_conn_def echoed_def)

lemma nl_conforms:
  assumes "mt_net nt"
  shows "sys_read_ok (nt_recv nt) h" "sys_write_ok (nt_send nt) h"
proof -
  show "sys_read_ok (nt_recv nt) h" using assms unfolding mt_net_def nl_recvs_def sys_read_ok_def by blast
  show "sys_write_ok (nt_send nt) h" unfolding sys_write_ok_def
  proof (intro allI)
    fix bs s
    have "(\<exists>j. 0 < j \<and> j \<le> length bs \<and> h \<notin> nl_broken s \<and>
        nt_send nt h bs s = (int j, s\<lparr>nl_out := (nl_out s)(h := nl_out s h @ take j bs)\<rparr>)) \<or>
     (\<exists>r. (r = 0 \<or> r = -1) \<and> nt_send nt h bs s = (r, s\<lparr>nl_broken := insert h (nl_broken s)\<rparr>))"
      using assms by (simp add: mt_net_def nl_sends_def)
    then show "- 1 \<le> fst (nt_send nt h bs s) \<and> fst (nt_send nt h bs s) \<le> int (length bs)" by auto
  qed
qed

lemma wn_loop_log:
  assumes "nl_sends nt" "0 \<le> nw" "nw \<le> int (length bs)"
  shows "\<exists>w s' j. wn_loop (nt_send nt) h bs nw nx s = (w, s') \<and> only_conn h s s' \<and> nl_in s' h = nl_in s h \<and>
    nl_out s' h = nl_out s h @ take j (drop (nat nw) bs) \<and> (h \<in> nl_broken s \<longrightarrow> h \<in> nl_broken s' \<and> nl_out s' h = nl_out s h) \<and>
    (h \<notin> nl_broken s' \<longrightarrow> nl_out s' h = nl_out s h @ drop (nat nw) bs)"
  using assms(2,3)
proof (induction "nat (int (length bs) - nw)" arbitrary: nw nx s rule: less_induct)
  case less
  show ?case
  proof (cases "nw < int (length bs)")
    case False
    then have "wn_loop (nt_send nt) h bs nw nx s = (if nw = 0 then nx else s32 nw, s)" by (subst wn_loop.simps) simp
    then show ?thesis using less.prems False
      by (intro exI [of _ "if nw = 0 then nx else s32 nw"] exI [of _ s] exI [of _ 0]) (simp add: only_conn_def)
  next
    case True
    let ?bs = "drop (nat nw) bs"
    have "(\<exists>j. 0 < j \<and> j \<le> length ?bs \<and> h \<notin> nl_broken s \<and>
        nt_send nt h ?bs s = (int j, s\<lparr>nl_out := (nl_out s)(h := nl_out s h @ take j ?bs)\<rparr>)) \<or>
     (\<exists>r. (r = 0 \<or> r = -1) \<and> nt_send nt h ?bs s = (r, s\<lparr>nl_broken := insert h (nl_broken s)\<rparr>))"
      using assms(1) unfolding nl_sends_def by blast
    then consider (takes) j where "0 < j" "j \<le> length ?bs" "h \<notin> nl_broken s"
        "nt_send nt h ?bs s = (int j, s\<lparr>nl_out := (nl_out s)(h := nl_out s h @ take j ?bs)\<rparr>)"
      | (fails) r where "r = 0 \<or> r = -1" "nt_send nt h ?bs s = (r, s\<lparr>nl_broken := insert h (nl_broken s)\<rparr>)"
      by blast
    then show ?thesis
    proof cases
      case j: takes
      let ?s = "s\<lparr>nl_out := (nl_out s)(h := nl_out s h @ take j ?bs)\<rparr>"
      have n: "nat (nw + int j) = nat nw + j" using less.prems by (simp add: nat_add_distrib)
      have d: "drop (nat (nw + int j)) bs = drop j ?bs" by (simp add: n add.commute)
      have "nat (int (length bs) - (nw + int j)) < nat (int (length bs) - nw)" "0 \<le> nw + int j" "nw + int j \<le> int (length bs)"
        using j(1,2) less.prems True by auto
      from less.hyps [OF this, of "int j" ?s] obtain w s' k where
        q: "wn_loop (nt_send nt) h bs (nw + int j) (int j) ?s = (w, s')" "only_conn h ?s s'" "nl_in s' h = nl_in ?s h"
        "nl_out s' h = nl_out ?s h @ take k (drop (nat (nw + int j)) bs)"
        "h \<notin> nl_broken s' \<longrightarrow> nl_out s' h = nl_out ?s h @ drop (nat (nw + int j)) bs"
        by blast
      have r: "wn_loop (nt_send nt) h bs (nw + int j) (int j) ?s = (w, s')" "only_conn h ?s s'" "nl_in s' h = nl_in s h"
        "nl_out s' h = nl_out s h @ take j ?bs @ take k (drop j ?bs)"
        "h \<notin> nl_broken s' \<longrightarrow> nl_out s' h = nl_out s h @ take j ?bs @ drop j ?bs"
        using q unfolding d by simp_all
      have "wn_loop (nt_send nt) h bs nw nx s = (w, s')" using True j(1,4) r(1) by (simp add: wn_loop.simps [of _ h bs nw])
      moreover have "only_conn h s s'" using r(2) by (simp add: only_conn_def)
      moreover have "take j ?bs @ take k (drop j ?bs) = take (j + k) ?bs" by (simp add: take_add)
      ultimately show ?thesis using r(3-5) j(3) by auto
    next
      case fails
      then show ?thesis using True
        by (intro exI [of _ "if nw = 0 then r else s32 nw"] exI [of _ "s\<lparr>nl_broken := insert h (nl_broken s)\<rparr>"] exI [of _ 0])
          (auto simp: wn_loop.simps [of _ h bs nw] only_conn_def)
    qed
  qed
qed

lemma st_turn_log:
  assumes nt: "mt_net nt" and e: "echoed (so_handle k) s" and t: "st_turn nt k s = (go, s')"
  shows "only_conn (so_handle k) s s' \<and> echoed (so_handle k) s'"
proof -
  let ?h = "so_handle k"
  obtain r bs where r: "nt_recv nt ?h ECHO_BUF_SIZE s = (r, bs, s\<lparr>nl_in := (nl_in s)(?h := nl_in s ?h @ bs)\<rparr>)"
      "-1 \<le> r" "r \<le> ECHO_BUF_SIZE" "length bs = nat r"
    using nt unfolding mt_net_def nl_recvs_def ECHO_BUF_SIZE_def by (metis zero_less_numeral)
  let ?s = "s\<lparr>nl_in := (nl_in s)(?h := nl_in s ?h @ bs)\<rparr>"
  have rd: "tcp_read nt k ECHO_BUF_SIZE s = (r, bs, ?s)" using r by (simp add: tcp_read_def ECHO_BUF_SIZE_def)
  show ?thesis
  proof (cases "0 < r")
    case False
    then have "bs = []" using r(4) by simp
    then show ?thesis using False t rd e by (auto simp: st_turn_def only_conn_def echoed_def)
  next
    case True
    have snds: "nl_sends nt" using nt by (simp add: mt_net_def)
    obtain w s2 j where w0: "wn_loop (nt_send nt) ?h bs 0 0 ?s = (w, s2)" "only_conn ?h ?s s2" "nl_in s2 ?h = nl_in ?s ?h"
        "nl_out s2 ?h = nl_out ?s ?h @ take j (drop (nat 0) bs)"
        "?h \<in> nl_broken ?s \<longrightarrow> ?h \<in> nl_broken s2 \<and> nl_out s2 ?h = nl_out ?s ?h"
        "?h \<notin> nl_broken s2 \<longrightarrow> nl_out s2 ?h = nl_out ?s ?h @ drop (nat 0) bs"
      using wn_loop_log [OF snds order_refl of_nat_0_le_iff, where bs = bs and h = ?h and nx = 0 and s = ?s] by blast
    have w: "wn_loop (nt_send nt) ?h bs 0 0 ?s = (w, s2)" "only_conn ?h ?s s2" "nl_in s2 ?h = nl_in s ?h @ bs"
        "nl_out s2 ?h = nl_out s ?h @ take j bs" "?h \<in> nl_broken s \<longrightarrow> ?h \<in> nl_broken s2 \<and> nl_out s2 ?h = nl_out s ?h"
        "?h \<notin> nl_broken s2 \<longrightarrow> nl_out s2 ?h = nl_out s ?h @ bs"
      using w0 by simp_all
    have "tcp_write_n nt k bs ?s = (w, s2)"
      using tcp_wn_loop_eq [OF nl_conforms(2) [OF nt], where k = k and nw = 0 and nx = 0 and bs = bs and s = ?s] w(1) r(3,4) by (simp add: tcp_write_n_def ECHO_BUF_SIZE_def)
    then have "s' = s2" using t rd True by (simp add: st_turn_def)
    moreover have "prefix (nl_out s2 ?h) (nl_in s2 ?h)"
    proof (cases "?h \<in> nl_broken s")
      case True
      then show ?thesis using w(3,5) e by (simp add: echoed_def)
    next
      case False
      then show ?thesis using w(3,4) e by (simp add: echoed_def take_is_prefix)
    qed
    moreover have "?h \<notin> nl_broken s2 \<longrightarrow> nl_out s2 ?h = nl_in s2 ?h"
      using w(3,5,6) e by (auto simp: echoed_def)
    ultimately show ?thesis using w(2) by (simp add: only_conn_def echoed_def)
  qed
qed

section \<open>The invariant\<close>

text \<open>Who holds a handle: the acceptor, the local socket of \<open>main\<close>, a slot that is full, the local
  socket of a handler.\<close>

datatype owner = TheAcceptor | TheMain | SlotOf nat | SockOf nat

definition slot_val :: "int slot \<Rightarrow> int" where
  "slot_val sl = (case sl_items sl of [] \<Rightarrow> -1 | v # _ \<Rightarrow> v)"

fun held :: "mt \<Rightarrow> owner \<Rightarrow> int" where
  "held s TheAcceptor = so_handle (ac_sock (mt_acc s))"
| "held s TheMain = so_handle (mt_sock s)"
| "held s (SlotOf i) = slot_val (eh_slot (mt_hs s i))"
| "held s (SockOf i) = so_handle (eh_sock (mt_hs s i))"

text \<open>A handler is busy from the moment its slot is filled until it has gone back into the pool. Each
  handler that is not busy is in the pool or in the hands of \<open>main\<close>, once.\<close>

definition busy :: "nat \<Rightarrow> mt \<Rightarrow> bool" where
  "busy i s \<longleftrightarrow> sl_items (eh_slot (mt_hs s i)) \<noteq> [] \<or> eh_pc (mt_hs s i) \<in> {EhServe, EhPool}"

definition in_hand :: "mt \<Rightarrow> int list" where "in_hand s = (case mt_pc s of MtGive p \<Rightarrow> [p] | _ \<Rightarrow> [])"
definition in_pool :: "mt \<Rightarrow> int list" where "in_pool s = mq_items (op_que (mt_pool s)) (mt_qm s)"

definition pool_ok :: "mt \<Rightarrow> bool" where
  "pool_ok s \<longleftrightarrow> mq_inv mutex_free (op_que (mt_pool s)) (mt_qm s) \<and> mq_room (op_que (mt_pool s)) = POOL_SIZE \<and>
     distinct (in_pool s @ in_hand s) \<and>
     set (in_pool s @ in_hand s) = (\<lambda>i. mt_arr s + int i) ` {i. i < POOL_SIZE \<and> \<not> busy i s}"

definition eh_ok :: "handler \<Rightarrow> bool" where
  "eh_ok h \<longleftrightarrow> sl_inv (eh_slot h) \<and> \<not> th_quit (eh_th h) \<and> eh_pc h \<noteq> EhEnd \<and> -1 \<notin> set (sl_items (eh_slot h)) \<and>
     (so_handle (eh_sock h) \<noteq> -1 \<longleftrightarrow> eh_pc h \<in> {EhServe, EhPool, EhClose}) \<and> relay_buf (eh_buf h) (eh_mem h) \<and>
     (sl_items (eh_slot h) \<noteq> [] \<longrightarrow> eh_pc h \<notin> {EhServe, EhPool})"

definition mt_started :: "mt \<Rightarrow> nat" where "mt_started s = (case mt_pc s of MtStart n \<Rightarrow> n | _ \<Rightarrow> POOL_SIZE)"

definition hs_ok :: "mt \<Rightarrow> bool" where
  "hs_ok s \<longleftrightarrow> mt_started s \<le> POOL_SIZE \<and> (\<forall>i. eh_ok (mt_hs s i) \<and> (POOL_SIZE \<le> i \<longrightarrow> \<not> busy i s) \<and>
     th_os (eh_th (mt_hs s i)) = (if i < mt_started s then Running else NoThread)) \<and>
     (so_handle (mt_sock s) \<noteq> -1 \<longleftrightarrow> mt_pc s = MtPool \<or> in_hand s \<noteq> [])"

definition own_inv :: "mt \<Rightarrow> bool" where
  "own_inv s \<longleftrightarrow> own_ok (held s) (ft_open (mt_os s)) {} \<and> \<not> ft_bad (mt_os s) \<and> (\<forall>h. echoed h (mt_os s))"

definition mt_inv :: "mt \<Rightarrow> bool" where "mt_inv s \<longleftrightarrow> hs_ok s \<and> pool_ok s \<and> own_inv s"

lemma eh_upd_simps [simp]:
  "mt_hs (eh_upd i f s) = (mt_hs s)(i := f (mt_hs s i))" "mt_arr (eh_upd i f s) = mt_arr s" "mt_pool (eh_upd i f s) = mt_pool s"
  "mt_qm (eh_upd i f s) = mt_qm s" "mt_acc (eh_upd i f s) = mt_acc s" "mt_pc (eh_upd i f s) = mt_pc s"
  "mt_sock (eh_upd i f s) = mt_sock s" "mt_os (eh_upd i f s) = mt_os s"
  "in_hand (eh_upd i f s) = in_hand s" "in_pool (eh_upd i f s) = in_pool s" "mt_started (eh_upd i f s) = mt_started s"
  by (simp_all add: eh_upd_def in_hand_def in_pool_def mt_started_def)

lemma held_upd:
  "held (eh_upd i f s) = (held s)(SlotOf i := slot_val (eh_slot (f (mt_hs s i))), SockOf i := so_handle (eh_sock (f (mt_hs s i))))"
proof
  fix w
  show "held (eh_upd i f s) w =
      ((held s)(SlotOf i := slot_val (eh_slot (f (mt_hs s i))), SockOf i := so_handle (eh_sock (f (mt_hs s i))))) w"
    by (cases w) auto
qed

lemma slot_val_simps [simp]: "slot_val (sl_state 1 0 v) = -1" "slot_val (sl_state 0 1 v) = v"
  by (simp_all add: slot_val_def sl_items_def)

lemma sl_items_simps [simp]: "sl_items (sl_state 1 0 v) = []" "sl_items (sl_state 0 1 v) = [v]"
  by (simp_all add: sl_items_def)

lemma sl_inv_simps [simp]: "sl_inv (sl_state 1 0 v)" "sl_inv (sl_state 0 1 v)"
  by (auto simp: sl_inv_def)

text \<open>A handle changes hands.\<close>

lemma own_pass:
  assumes "own_ok f S {}" "f i \<noteq> -1" "f j = -1"
  shows "own_ok (f(i := -1, j := f i)) S {}"
proof -
  have "i \<noteq> j" using assms(2,3) by auto
  then have "own_ok ((f(i := -1))(j := f i)) S ({f i} - {f i})"
    using own_take [OF own_give [OF assms(1,2)], of j "f i"] assms(3) by simp
  then show ?thesis by simp
qed

lemma held_nonneg: "own_ok f S {} \<Longrightarrow> f i \<noteq> -1 \<Longrightarrow> 0 \<le> f i \<and> f i \<in> S"
  using own_okD(1,5) by fast

text \<open>What a step of a handler has to keep: its own state, and for the pool whether it is busy.\<close>

lemma hs_ok_upd:
  assumes "hs_ok s" "eh_ok (f (mt_hs s i))" "eh_th (f (mt_hs s i)) = eh_th (mt_hs s i)"
    and "busy i (eh_upd i f s) \<Longrightarrow> busy i s"
    and "mt_hs s' = mt_hs (eh_upd i f s)" "mt_pc s' = mt_pc s" "mt_sock s' = mt_sock s"
  shows "hs_ok s'"
proof -
  have b: "busy j s' = busy j (eh_upd i f s)" for j using assms(5) by (simp add: busy_def)
  have "busy j (eh_upd i f s) \<Longrightarrow> busy j s" for j using assms(4) by (cases "j = i") (simp_all add: busy_def)
  then show ?thesis using assms(1-3,5-7) b by (auto simp: hs_ok_def mt_started_def in_hand_def)
qed

lemma pool_ok_same:
  assumes "pool_ok s" "mt_pool s' = mt_pool s" "mt_qm s' = mt_qm s" "in_hand s' = in_hand s" "mt_arr s' = mt_arr s"
    and "\<And>j. busy j s' = busy j s"
  shows "pool_ok s'"
  using assms by (simp add: pool_ok_def in_pool_def)

lemma own_inv_same:
  assumes "own_inv s" "held s' = held s" "mt_os s' = mt_os s"
  shows "own_inv s'"
  using assms by (simp add: own_inv_def)

lemma handler_slot:
  assumes "eh_ok h"
  obtains (empty) v where "eh_slot h = sl_state 1 0 v" | (full) v where "eh_slot h = sl_state 0 1 v" "v \<noteq> -1" "eh_pc h \<notin> {EhServe, EhPool}"
  using assms unfolding eh_ok_def sl_inv_def by (elim conjE exE disjE) auto

lemma mt_inv_serves:
  assumes inv: "mt_inv s" and nt: "mt_net nt" and pc: "eh_pc (mt_hs s i) = EhServe"
  shows "\<exists>s'. eh_run nt i s = Ret s' \<and> mt_inv s'"
proof -
  let ?h = "mt_hs s i"
  have ok: "eh_ok ?h" using inv by (simp add: mt_inv_def hs_ok_def)
  then have rb: "relay_buf (eh_buf ?h) (eh_mem ?h)" by (simp add: eh_ok_def)
  obtain b m where t: "mt_turn nt (eh_sock ?h) (eh_buf ?h) (mt_os s) (eh_mem ?h) =
      Some (fst (st_turn nt (eh_sock ?h) (mt_os s)), b, snd (st_turn nt (eh_sock ?h) (mt_os s)), m)" "relay_buf b m"
    using mt_turn_st_turn [OF nl_conforms [OF nt] rb] by blast
  obtain go os where st: "st_turn nt (eh_sock ?h) (mt_os s) = (go, os)" by fastforce
  let ?f = "\<lambda>h. h\<lparr>eh_buf := b, eh_mem := m, eh_pc := (if go then EhServe else EhPool)\<rparr>"
  let ?s = "eh_upd i ?f (s\<lparr>mt_os := os\<rparr>)"
  have r: "eh_run nt i s = Ret ?s" using t(1) st pc by (simp add: eh_run_def Let_def)
  have e: "echoed (so_handle (eh_sock ?h)) (mt_os s)" using inv by (simp add: mt_inv_def own_inv_def)
  note lg = st_turn_log [OF nt e st]
  have b: "busy j ?s = busy j s" for j using pc by (cases "j = i") (simp_all add: busy_def)
  have "hs_ok ?s"
    by (rule hs_ok_upd [of s ?f i]) (use inv ok pc t(2) in \<open>auto simp: mt_inv_def eh_ok_def busy_def\<close>)
  moreover have "pool_ok ?s"
    by (rule pool_ok_same [of s]) (use inv b in \<open>simp_all add: mt_inv_def in_hand_def\<close>)
  moreover have "own_inv ?s"
  proof -
    have hs: "held ?s = held s"
    proof
      fix w show "held ?s w = held s w" by (cases w) simp_all
    qed
    have "echoed h os" for h
      using lg only_conn_echoed [of "so_handle (eh_sock ?h)" "mt_os s" os h] inv
      by (cases "h = so_handle (eh_sock ?h)") (simp_all add: mt_inv_def own_inv_def)
    then show ?thesis using inv lg hs by (simp add: mt_inv_def own_inv_def only_conn_def)
  qed
  ultimately show ?thesis using r by (simp add: mt_inv_def)
qed

lemma mt_inv_takes:
  assumes inv: "mt_inv s" and pc: "eh_pc (mt_hs s i) = EhGet" and slot: "eh_slot (mt_hs s i) = sl_state 0 1 v" "v \<noteq> -1"
  shows "\<exists>s'. eh_run nt i s = Ret s' \<and> mt_inv s'"
proof -
  let ?h = "mt_hs s i"
  have ok: "eh_ok ?h" using inv by (simp add: mt_inv_def hs_ok_def)
  let ?f = "\<lambda>h. h\<lparr>eh_slot := sl_state 1 0 v, eh_sock := tcp_ctor_handle v, eh_pc := EhServe\<rparr>"
  let ?s = "eh_upd i ?f s"
  have v: "so_is_valid (tcp_ctor_handle v)" "so_handle (tcp_ctor_handle v) = v"
    using slot(2) by (simp_all add: so_is_valid_def so_handle_def tcp_ctor_handle_def so_ctor_handle_def INVALID_SOCKET_def)
  have q: "\<not> th_quit (eh_th ?h)" "so_handle (eh_sock ?h) = -1" using ok pc by (simp_all add: eh_ok_def)
  have r: "eh_run nt i s = Ret ?s" using pc slot(1) v(1) q(1) by (simp add: eh_run_def Let_def sl_ops)
  have b: "busy j ?s = busy j s" for j using slot(1) by (cases "j = i") (simp_all add: busy_def)
  have "hs_ok ?s"
    by (rule hs_ok_upd [of s ?f i]) (use inv ok pc slot v b in \<open>auto simp: mt_inv_def eh_ok_def\<close>)
  moreover have "pool_ok ?s"
    by (rule pool_ok_same [of s]) (use inv b in \<open>simp_all add: mt_inv_def in_hand_def\<close>)
  moreover have "own_inv ?s"
  proof -
    have own: "own_ok (held s) (ft_open (mt_os s)) {}" using inv by (simp add: mt_inv_def own_inv_def)
    have "own_ok ((held s)(SlotOf i := -1, SockOf i := held s (SlotOf i))) (ft_open (mt_os s)) {}"
      by (rule own_pass [OF own]) (use slot q(2) in simp_all)
    then show ?thesis using inv slot(1) v(2) by (simp add: mt_inv_def own_inv_def held_upd)
  qed
  ultimately show ?thesis using r by (simp add: mt_inv_def)
qed

lemma mt_inv_returns:
  assumes inv: "mt_inv s" and pc: "eh_pc (mt_hs s i) = EhPool"
  shows "\<exists>s'. eh_run nt i s = Ret s' \<and> mt_inv s'"
proof -
  let ?h = "mt_hs s i" and ?p = "mt_arr s + int i"
  have ok: "eh_ok ?h" using inv by (simp add: mt_inv_def hs_ok_def)
  have bi: "busy i s" using pc by (simp add: busy_def)
  then have i: "i < POOL_SIZE" using inv by (auto simp: mt_inv_def hs_ok_def not_less [symmetric])
  have sl: "sl_items (eh_slot ?h) = []" using ok pc by (simp add: eh_ok_def)
  note P = inv [unfolded mt_inv_def pool_ok_def]
  let ?free = "{i. i < POOL_SIZE \<and> \<not> busy i s}"
  have set: "set (in_pool s @ in_hand s) = (\<lambda>i. mt_arr s + int i) ` ?free" and dist: "distinct (in_pool s @ in_hand s)"
    using P by simp_all
  have "?p \<notin> set (in_pool s @ in_hand s)" using bi unfolding set by auto
  then have new: "?p \<notin> set (in_pool s)" "?p \<notin> set (in_hand s)" by simp_all
  have "?free \<subseteq> {..<POOL_SIZE} - {i}" using bi by auto
  then have "card ?free \<le> card ({..<POOL_SIZE} - {i})" by (rule card_mono [rotated]) simp
  moreover have "card ((\<lambda>i. mt_arr s + int i) ` ?free) = card ?free" by (rule card_image) (auto simp: inj_on_def)
  moreover have "length (in_pool s @ in_hand s) = card (set (in_pool s @ in_hand s))" using dist by (rule distinct_card [symmetric])
  ultimately have "length (in_pool s) < POOL_SIZE" using i unfolding set by simp
  then have "length (mq_items (op_que (mt_pool s)) (mt_qm s)) < mq_room (op_que (mt_pool s))" using P by (simp add: in_pool_def)
  then obtain q qm where put: "mq_put (mutex_type (Suc i)) ?p (op_que (mt_pool s)) (mt_qm s) = Ret (q, qm)" "mq_inv mutex_free q qm"
      "mq_items q qm = mq_items (op_que (mt_pool s)) (mt_qm s) @ [?p]" "mq_room q = mq_room (op_que (mt_pool s))"
    using mq_put_room_ex [of "op_que (mt_pool s)" "mt_qm s" "Suc i" ?p] P by blast
  let ?f = "\<lambda>h. h\<lparr>eh_pc := EhClose\<rparr>"
  let ?s = "eh_upd i ?f (s\<lparr>mt_pool := (mt_pool s)\<lparr>op_que := q\<rparr>, mt_qm := qm\<rparr>)"
  have r: "eh_run nt i s = Ret ?s" using pc put(1) by (simp add: eh_run_def Let_def)
  have b: "busy j ?s \<longleftrightarrow> j \<noteq> i \<and> busy j s" for j using sl by (cases "j = i") (simp_all add: busy_def)
  have "hs_ok ?s"
    by (rule hs_ok_upd [of s ?f i]) (use inv ok pc sl in \<open>auto simp: mt_inv_def eh_ok_def busy_def\<close>)
  moreover have "pool_ok ?s"
  proof -
    have pl: "in_pool ?s = in_pool s @ [?p]" "in_hand ?s = in_hand s" using put(3) by (simp_all add: in_pool_def in_hand_def)
    have "{i. i < POOL_SIZE \<and> \<not> busy i ?s} = insert i ?free" using i b by auto
    then have "set (in_pool ?s @ in_hand ?s) = (\<lambda>i. mt_arr s + int i) ` {i. i < POOL_SIZE \<and> \<not> busy i ?s}"
      using set pl by auto
    moreover have "distinct (in_pool ?s @ in_hand ?s)" using dist new pl by simp
    moreover have "mq_inv mutex_free q qm" "mq_room q = POOL_SIZE" using P put(2,4) by simp_all
    ultimately show ?thesis unfolding pool_ok_def by simp
  qed
  moreover have "own_inv ?s"
  proof -
    have hs: "held ?s = held s"
    proof
      fix w show "held ?s w = held s w" by (cases w) simp_all
    qed
    then show ?thesis by (rule own_inv_same [rotated]) (use inv in \<open>simp_all add: mt_inv_def\<close>)
  qed
  ultimately show ?thesis using r by (simp add: mt_inv_def)
qed

lemma nl_dtor:
  assumes "mt_net nt" "0 \<le> so_handle k"
  shows "so_dtor (nt_close nt) (k, os) = nl_close (so_handle k) os"
  using assms by (simp add: mt_net_def so_dtor_def so_close_def so_release_def so_handle_def)

lemma nl_close_simps [simp]:
  "ft_open (nl_close h s) = ft_open s - {h}" "ft_bad (nl_close h s) \<longleftrightarrow> ft_bad s \<or> h \<notin> ft_open s"
  "echoed g (nl_close h s) = echoed g s"
  by (simp_all add: nl_close_def echoed_def)

lemma nl_dtor_invalid: "so_handle k = -1 \<Longrightarrow> so_dtor f (k, os) = os"
  by (simp add: so_dtor_def so_close_def so_handle_def)

lemma no_sock: "so_handle tcp_ctor = -1"
  by (simp add: so_handle_def tcp_ctor_def so_ctor_def INVALID_SOCKET_def)

lemma mt_inv_closes:
  assumes inv: "mt_inv s" and nt: "mt_net nt" and pc: "eh_pc (mt_hs s i) = EhClose"
  shows "\<exists>s'. eh_run nt i s = Ret s' \<and> mt_inv s'"
proof -
  let ?h = "mt_hs s i"
  let ?g = "so_handle (eh_sock ?h)"
  have ok: "eh_ok ?h" using inv by (simp add: mt_inv_def hs_ok_def)
  have own: "own_ok (held s) (ft_open (mt_os s)) {}" using inv by (simp add: mt_inv_def own_inv_def)
  have g: "?g \<noteq> -1" using ok pc by (simp add: eh_ok_def)
  have g0: "0 \<le> ?g" "?g \<in> ft_open (mt_os s)" using held_nonneg [OF own, of "SockOf i"] g by simp_all
  let ?f = "\<lambda>h. h\<lparr>eh_sock := tcp_ctor, eh_pc := EhTop\<rparr>"
  let ?s = "eh_upd i ?f (s\<lparr>mt_os := nl_close ?g (mt_os s)\<rparr>)"
  have r: "eh_run nt i s = Ret ?s" using pc nl_dtor [OF nt g0(1)] by (simp add: eh_run_def Let_def)
  have b: "busy j ?s = busy j s" for j using pc by (cases "j = i") (simp_all add: busy_def)
  have "hs_ok ?s"
    by (rule hs_ok_upd [of s ?f i]) (use inv ok pc no_sock in \<open>auto simp: mt_inv_def eh_ok_def busy_def\<close>)
  moreover have "pool_ok ?s"
    by (rule pool_ok_same [of s]) (use inv b in \<open>simp_all add: mt_inv_def in_hand_def\<close>)
  moreover have "own_inv ?s"
  proof -
    have hs: "held ?s = (held s)(SockOf i := -1)"
    proof
      fix w show "held ?s w = ((held s)(SockOf i := -1)) w" by (cases w) (simp_all add: no_sock)
    qed
    have "own_ok ((held s)(SockOf i := -1)) (ft_open (mt_os s) - {held s (SockOf i)}) {}"
      by (rule own_drop [OF own]) (use g in simp)
    then show ?thesis using inv g0(2) hs by (simp add: mt_inv_def own_inv_def)
  qed
  ultimately show ?thesis using r by (simp add: mt_inv_def)
qed

text \<open>A handler that does not wait for a connection can always go on.\<close>

lemma handler_steps:
  assumes inv: "mt_inv s" and nt: "mt_net nt"
  shows "(\<exists>s'. eh_run nt i s = Ret s' \<and> mt_inv s') \<or>
    eh_run nt i s = Blocks \<and> eh_pc (mt_hs s i) = EhGet \<and> sl_items (eh_slot (mt_hs s i)) = []"
proof (cases "eh_pc (mt_hs s i)")
  case EhTop
  have ok: "eh_ok (mt_hs s i)" using inv by (simp add: mt_inv_def hs_ok_def)
  let ?f = "\<lambda>h. h\<lparr>eh_pc := EhGet\<rparr>"
  let ?s = "eh_upd i ?f s"
  have r: "eh_run nt i s = Ret ?s" using EhTop ok by (simp add: eh_run_def eh_ok_def Let_def eh_upd_def)
  have b: "busy j ?s = busy j s" for j using EhTop by (cases "j = i") (simp_all add: busy_def)
  have "hs_ok ?s"
    by (rule hs_ok_upd [of s ?f i]) (use inv ok EhTop in \<open>auto simp: mt_inv_def eh_ok_def busy_def\<close>)
  moreover have "pool_ok ?s"
    by (rule pool_ok_same [of s]) (use inv b in \<open>simp_all add: mt_inv_def in_hand_def\<close>)
  moreover have "held ?s = held s"
  proof
    fix w show "held ?s w = held s w" by (cases w) simp_all
  qed
  then have "own_inv ?s" by (rule own_inv_same [rotated]) (use inv in \<open>simp_all add: mt_inv_def\<close>)
  ultimately show ?thesis using r by (simp add: mt_inv_def)
next
  case EhGet
  have "eh_ok (mt_hs s i)" using inv by (simp add: mt_inv_def hs_ok_def)
  then show ?thesis
  proof (cases rule: handler_slot)
    case (empty v)
    then show ?thesis using EhGet by (simp add: eh_run_def sl_ops)
  next
    case (full v)
    then show ?thesis using mt_inv_takes [OF inv EhGet, of v nt] by blast
  qed
next
  case EhServe
  then show ?thesis using mt_inv_serves [OF inv nt] by blast
next
  case EhPool
  then show ?thesis using mt_inv_returns [OF inv] by blast
next
  case EhClose
  then show ?thesis using mt_inv_closes [OF inv nt] by blast
next
  case EhEnd
  then show ?thesis using inv by (auto simp: mt_inv_def hs_ok_def eh_ok_def)
qed

lemma starts_threads:
  assumes inv: "mt_inv s" and pc: "mt_pc s = MtStart n" and n: "n < POOL_SIZE"
  shows "\<exists>s'. mt_main nt s = Ret s' \<and> mt_inv s'"
proof -
  obtain b th where th: "th_activate 0 0 0 (eh_th (mt_hs s n)) = Ret (b, th)" "th_os th = Running"
      "th_quit th = th_quit (eh_th (mt_hs s n))"
    by (simp add: th_activate_def Let_def)
  let ?f = "\<lambda>h. h\<lparr>eh_th := th\<rparr>"
  let ?s = "eh_upd n ?f (s\<lparr>mt_pc := MtStart (Suc n)\<rparr>)"
  have r: "mt_main nt s = Ret ?s" using pc n th(1) by (simp add: mt_main_def)
  have b: "busy j ?s = busy j s" for j by (cases "j = n") (simp_all add: busy_def)
  have "hs_ok ?s"
    using inv pc n th(2,3) b by (auto simp: mt_inv_def hs_ok_def eh_ok_def mt_started_def in_hand_def)
  moreover have "pool_ok ?s"
    by (rule pool_ok_same [of s]) (use inv b pc in \<open>simp_all add: mt_inv_def in_hand_def\<close>)
  moreover have "held ?s = held s"
  proof
    fix w show "held ?s w = held s w" by (cases w) simp_all
  qed
  then have "own_inv ?s" by (rule own_inv_same [rotated]) (use inv in \<open>simp_all add: mt_inv_def\<close>)
  ultimately show ?thesis using r by (simp add: mt_inv_def)
qed

text \<open>Moves of \<open>main\<close> that touch neither handlers nor the pool.\<close>

lemma mt_main_moves:
  assumes inv: "mt_inv s" and s': "s' = s\<lparr>mt_pc := pc, mt_sock := k, mt_os := os\<rparr>"
    and "mt_started s = POOL_SIZE" "mt_started s' = POOL_SIZE" "in_hand s = []" "in_hand s' = []"
    and "so_handle k \<noteq> -1 \<longleftrightarrow> pc = MtPool" and "own_inv s'"
  shows "mt_inv s'"
proof -
  have b: "busy j s' = busy j s" for j by (simp add: busy_def s')
  have "hs_ok s'" using inv b assms(3-7) by (simp add: mt_inv_def hs_ok_def s')
  moreover have "pool_ok s'" by (rule pool_ok_same [of s]) (use inv b assms(5,6) in \<open>simp_all add: mt_inv_def s'\<close>)
  ultimately show ?thesis using assms(8) by (simp add: mt_inv_def)
qed

lemma accepts:
  assumes inv: "mt_inv s" and nt: "mt_net nt" and pc: "mt_pc s = MtAccept"
  shows "\<exists>s'. mt_main nt s = Ret s' \<and> mt_inv s'"
proof -
  have none: "so_handle (mt_sock s) = -1" using inv pc by (simp add: mt_inv_def hs_ok_def in_hand_def)
  have own: "own_ok (held s) (ft_open (mt_os s)) {}" using inv by (simp add: mt_inv_def own_inv_def)
  have "nl_accepts nt" using nt by (simp add: mt_net_def)
  then consider (fails) "nt_accept nt (so_handle (ac_sock (mt_acc s))) (mt_os s) = (-1, mt_os s)"
    | (new) r where "0 \<le> r" "r \<notin> ft_open (mt_os s)" "nt_accept nt (so_handle (ac_sock (mt_acc s))) (mt_os s) =
        (r, (mt_os s)\<lparr>ft_open := insert r (ft_open (mt_os s)), nl_in := (nl_in (mt_os s))(r := []),
          nl_out := (nl_out (mt_os s))(r := []), nl_broken := nl_broken (mt_os s) - {r}\<rparr>)"
    unfolding nl_accepts_def by blast
  then show ?thesis
  proof cases
    case fails
    let ?s = "s\<lparr>mt_pc := MtEnd, mt_sock := mt_sock s, mt_os := mt_os s\<rparr>"
    have "mt_main nt s = Ret ?s"
      using pc fails by (simp add: mt_main_def ac_accept_def tcp_ctor_handle_def so_ctor_handle_def so_is_valid_def INVALID_SOCKET_def
          so_dtor_def so_close_def)
    moreover have "held ?s = held s"
    proof
      fix w show "held ?s w = held s w" by (cases w) simp_all
    qed
    then have "own_inv ?s" by (rule own_inv_same [rotated]) (use inv in \<open>simp_all add: mt_inv_def\<close>)
    ultimately show ?thesis using mt_main_moves [OF inv refl, where pc = MtEnd and k = "mt_sock s" and os = "mt_os s"] pc none
      by (simp add: mt_started_def in_hand_def)
  next
    case new
    let ?k = "tcp_ctor_handle r"
    let ?os = "(mt_os s)\<lparr>ft_open := insert r (ft_open (mt_os s)), nl_in := (nl_in (mt_os s))(r := []),
          nl_out := (nl_out (mt_os s))(r := []), nl_broken := nl_broken (mt_os s) - {r}\<rparr>"
    let ?s = "s\<lparr>mt_pc := MtPool, mt_sock := ?k, mt_os := ?os\<rparr>"
    have k: "so_is_valid ?k" "so_handle ?k = r" "r \<noteq> -1"
      using new(1) by (simp_all add: so_is_valid_def so_handle_def tcp_ctor_handle_def so_ctor_handle_def INVALID_SOCKET_def)
    have "mt_main nt s = Ret ?s" using pc new(3) k(1) by (simp add: mt_main_def ac_accept_def)
    moreover have "held ?s = (held s)(TheMain := r)"
    proof
      fix w show "held ?s w = ((held s)(TheMain := r)) w" by (cases w) (simp_all add: k(2))
    qed
    moreover have "own_ok ((held s)(TheMain := r)) (insert r (ft_open (mt_os s))) {}"
      by (rule own_fresh [OF own]) (use none new in simp_all)
    moreover have "echoed h ?os" for h using inv by (cases "h = r") (simp_all add: mt_inv_def own_inv_def echoed_def)
    ultimately have "mt_main nt s = Ret ?s" "own_inv ?s" using inv by (simp_all add: mt_inv_def own_inv_def)
    then show ?thesis using mt_main_moves [OF inv refl, where pc = MtPool and k = ?k and os = ?os] pc k by (simp add: mt_started_def in_hand_def)
  qed
qed

lemma picks_thread:
  assumes inv: "mt_inv s" and pc: "mt_pc s = MtPool" and some: "in_pool s \<noteq> []"
  shows "\<exists>s'. mt_main nt s = Ret s' \<and> mt_inv s'"
proof -
  note P = inv [unfolded mt_inv_def pool_ok_def]
  obtain p ps where items: "mq_items (op_que (mt_pool s)) (mt_qm s) = p # ps" using some by (cases "in_pool s") (auto simp: in_pool_def)
  obtain q where g: "mq_get (mutex_type 0) (op_que (mt_pool s)) (mt_qm s) = Ret (p, q)" "mq_inv mutex_free q (mt_qm s)"
      "mq_items q (mt_qm s) = ps" "mq_room q = mq_room (op_que (mt_pool s))"
    using mutex.mq_gets_first [OF mq_mutex_L _ items] P by blast
  let ?s = "s\<lparr>mt_pc := MtGive p, mt_pool := (mt_pool s)\<lparr>op_que := q\<rparr>\<rparr>"
  have r: "mt_main nt s = Ret ?s" using pc g(1) by (simp add: mt_main_def)
  have b: "busy j ?s = busy j s" for j by (simp add: busy_def)
  have "hs_ok ?s" using inv pc b by (simp add: mt_inv_def hs_ok_def mt_started_def in_hand_def)
  moreover have "pool_ok ?s"
  proof -
    have pl: "in_pool s = p # in_pool ?s" "in_hand ?s = [p]" "in_hand s = []"
      using items g(3) pc by (simp_all add: in_pool_def in_hand_def)
    then have "distinct (in_pool ?s @ in_hand ?s)" "set (in_pool ?s @ in_hand ?s) = set (in_pool s @ in_hand s)" using P by auto
    then show ?thesis using P g(2,4) b unfolding pool_ok_def by simp
  qed
  moreover have "held ?s = held s"
  proof
    fix w show "held ?s w = held s w" by (cases w) simp_all
  qed
  then have "own_inv ?s" by (rule own_inv_same [rotated]) (use inv in \<open>simp_all add: mt_inv_def\<close>)
  ultimately show ?thesis using r by (simp add: mt_inv_def)
qed

lemma hands_over:
  assumes inv: "mt_inv s" and pc: "mt_pc s = MtGive p"
  shows "\<exists>s'. mt_main nt s = Ret s' \<and> mt_inv s'"
proof -
  note P = inv [unfolded mt_inv_def pool_ok_def]
  have hand: "in_hand s = [p]" using pc by (simp add: in_hand_def)
  then have "p \<in> (\<lambda>i. mt_arr s + int i) ` {i. i < POOL_SIZE \<and> \<not> busy i s}" using P by auto
  then obtain i where i: "p = mt_arr s + int i" "i < POOL_SIZE" "\<not> busy i s" by auto
  have ok: "eh_ok (mt_hs s i)" using inv by (simp add: mt_inv_def hs_ok_def)
  have k: "so_handle (mt_sock s) \<noteq> -1" using inv hand by (simp add: mt_inv_def hs_ok_def)
  let ?v = "so_handle (mt_sock s)"
  obtain w where sl: "eh_slot (mt_hs s i) = sl_state 1 0 w" using ok i(3) by (cases rule: handler_slot) (simp_all add: busy_def)
  have rel: "so_release (mt_sock s) = (?v, \<lparr>sock_h = -1\<rparr>)"
    by (cases "mt_sock s") (simp add: so_release_def so_handle_def INVALID_SOCKET_def)
  let ?f = "\<lambda>h. h\<lparr>eh_slot := sl_state 0 1 ?v\<rparr>"
  let ?s = "eh_upd i ?f (s\<lparr>mt_pc := MtAccept, mt_sock := tcp_ctor\<rparr>)"
  have "nat (p - mt_arr s) = i" using i(1) by simp
  moreover have "so_dtor (nt_close nt) (\<lparr>sock_h = -1\<rparr>, mt_os s) = mt_os s" by (rule nl_dtor_invalid) (simp add: so_handle_def)
  ultimately have r: "mt_main nt s = Ret ?s"
    using pc i rel sl by (simp add: mt_main_def handle_conn_def sl_ops Let_def eh_upd_def)
  have b: "busy j ?s \<longleftrightarrow> j = i \<or> busy j s" for j by (cases "j = i") (simp_all add: busy_def)
  have hk: "in_hand ?s = []" by (simp add: in_hand_def)
  have H: "hs_ok s" "mt_started s = POOL_SIZE" "mt_started ?s = POOL_SIZE" using inv pc by (simp_all add: mt_inv_def mt_started_def)
  have pcs: "eh_pc (mt_hs s i) \<notin> {EhServe, EhPool}" using i(3) by (simp add: busy_def)
  have "eh_ok (?f (mt_hs s i))" using ok k pcs by (auto simp: eh_ok_def)
  then have "eh_ok (mt_hs ?s j)" for j using H(1) by (simp add: hs_ok_def)
  moreover have "th_os (eh_th (mt_hs ?s j)) = th_os (eh_th (mt_hs s j))" for j by simp
  moreover have "POOL_SIZE \<le> j \<Longrightarrow> \<not> busy j ?s" for j using H(1) i(2) b by (auto simp: hs_ok_def)
  ultimately have "hs_ok ?s" using H hk no_sock unfolding hs_ok_def by simp
  moreover have "pool_ok ?s"
  proof -
    have pl: "in_pool ?s = in_pool s" by (simp add: in_pool_def)
    have "{j. j < POOL_SIZE \<and> \<not> busy j s} = insert i {j. j < POOL_SIZE \<and> \<not> busy j ?s}" using i b by auto
    then have eq: "insert p (set (in_pool s)) = insert p ((\<lambda>j. mt_arr s + int j) ` {j. j < POOL_SIZE \<and> \<not> busy j ?s})"
      using P hand i(1) by simp
    have "distinct (in_pool s @ [p])" using P hand by simp
    then have d: "p \<notin> set (in_pool s)" "distinct (in_pool s)" by simp_all
    have "p \<notin> (\<lambda>j. mt_arr s + int j) ` {j. j < POOL_SIZE \<and> \<not> busy j ?s}" using i(1) b by fastforce
    then have "set (in_pool s) = (\<lambda>j. mt_arr s + int j) ` {j. j < POOL_SIZE \<and> \<not> busy j ?s}"
      using insert_ident [OF d(1)] eq by blast
    then show ?thesis using P pl hk d(2) unfolding pool_ok_def by simp
  qed
  moreover have "own_inv ?s"
  proof -
    have own: "own_ok (held s) (ft_open (mt_os s)) {}" using inv by (simp add: mt_inv_def own_inv_def)
    have "held ?s = (held s)(TheMain := -1, SlotOf i := held s TheMain)"
    proof
      fix w show "held ?s w = ((held s)(TheMain := -1, SlotOf i := held s TheMain)) w" by (cases w) (simp_all add: no_sock)
    qed
    moreover have "own_ok ((held s)(TheMain := -1, SlotOf i := held s TheMain)) (ft_open (mt_os s)) {}"
      by (rule own_pass [OF own]) (use k sl in simp_all)
    ultimately show ?thesis using inv by (simp add: mt_inv_def own_inv_def)
  qed
  ultimately show ?thesis using r by (simp add: mt_inv_def)
qed

text \<open>The main thread waits only for a thread of the pool.\<close>

lemma main_steps_mt:
  assumes inv: "mt_inv s" and nt: "mt_net nt"
  shows "(\<exists>s'. mt_main nt s = Ret s' \<and> mt_inv s') \<or> mt_main nt s = Blocks \<and> (mt_pc s = MtEnd \<or> mt_pc s = MtPool \<and> in_pool s = [])"
proof (cases "mt_pc s")
  case (MtStart n)
  show ?thesis
  proof (cases "n < POOL_SIZE")
    case True
    then show ?thesis using starts_threads [OF inv MtStart] by blast
  next
    case False
    then have n: "n = POOL_SIZE" using inv MtStart by (simp add: mt_inv_def hs_ok_def mt_started_def)
    let ?s = "s\<lparr>mt_pc := MtAccept, mt_sock := mt_sock s, mt_os := mt_os s\<rparr>"
    have "held ?s = held s"
    proof
      fix w show "held ?s w = held s w" by (cases w) simp_all
    qed
    then have "own_inv ?s" by (rule own_inv_same [rotated]) (use inv in \<open>simp_all add: mt_inv_def\<close>)
    moreover have "so_handle (mt_sock s) = -1" using inv MtStart by (simp add: mt_inv_def hs_ok_def in_hand_def)
    ultimately show ?thesis using mt_main_moves [OF inv refl, where pc = MtAccept and k = "mt_sock s" and os = "mt_os s"] MtStart n
      by (simp add: mt_main_def mt_started_def in_hand_def)
  qed
next
  case MtAccept
  then show ?thesis using accepts [OF inv nt] by blast
next
  case MtPool
  show ?thesis
  proof (cases "in_pool s")
    case Nil
    have "mq_inv mutex_free (op_que (mt_pool s)) (mt_qm s)" using inv by (simp add: mt_inv_def pool_ok_def)
    from mutex.mq_gets_empty(1) [OF this, of "mutex_type 0"] Nil
    have "mq_get (mutex_type 0) (op_que (mt_pool s)) (mt_qm s) = Blocks" by (simp add: in_pool_def)
    then show ?thesis using MtPool Nil by (simp add: mt_main_def)
  next
    case Cons
    then show ?thesis using picks_thread [OF inv MtPool] by auto
  qed
next
  case (MtGive p)
  then show ?thesis using hands_over [OF inv] by blast
next
  case MtEnd
  then show ?thesis by (simp add: mt_main_def)
qed

section \<open>The start\<close>

lemma op_fill_arr_ok:
  assumes "mq_inv mutex_free q qm" and "length (mq_items q qm) + n \<le> mq_room q"
  shows "\<exists>q' qm'. op_fill_arr t n arr q qm = Ret (q', qm') \<and> mq_inv mutex_free q' qm' \<and> mq_room q' = mq_room q \<and>
    mq_items q' qm' = mq_items q qm @ map (\<lambda>i. arr + int i) [0..<n]"
  using assms
proof (induction n arbitrary: arr q qm)
  case (Suc n)
  have "length (mq_items q qm) < mq_room q" using Suc.prems(2) by simp
  from mq_put_room_ex [OF Suc.prems(1) this, of t arr] obtain q1 qm1 where put:
      "mq_put (mutex_type t) arr q qm = Ret (q1, qm1)" "mq_inv mutex_free q1 qm1" "mq_items q1 qm1 = mq_items q qm @ [arr]"
      "mq_room q1 = mq_room q"
    by blast
  have "length (mq_items q1 qm1) + n \<le> mq_room q1" using put(3,4) Suc.prems(2) by simp
  from Suc.IH [OF put(2) this, of "arr + 1"] obtain q2 qm2 where r: "op_fill_arr t n (arr + 1) q1 qm1 = Ret (q2, qm2)"
      "mq_inv mutex_free q2 qm2" "mq_room q2 = mq_room q1" "mq_items q2 qm2 = mq_items q1 qm1 @ map (\<lambda>i. arr + 1 + int i) [0..<n]"
    by blast
  have "map (\<lambda>i. arr + int i) [0..<Suc n] = arr # map (\<lambda>i. arr + 1 + int i) [0..<n]"
    by (subst upt_conv_Cons) (auto simp: map_Suc_upt [symmetric] simp del: upt_Suc)
  then show ?case using put r by (simp del: upt_Suc)
qed simp

text \<open>The network before the first connection: only the acceptor's handle is open.\<close>

definition quiet_net :: "int \<Rightarrow> netlog" where
  "quiet_net h0 = \<lparr>ft_open = {h0}, ft_bad = False, nl_in = (\<lambda>_. []), nl_out = (\<lambda>_. []), nl_broken = {}\<rparr>"

lemma mt_init_ok:
  assumes "mem_wf qm" and "so_handle (ac_sock a) = h0" and "0 \<le> h0" and "\<forall>i. live_range (ms i) 1 ECHO_BUF_SIZE"
  shows "\<exists>s0. mt_init arr a q qm ms (quiet_net h0) = Ret s0 \<and> mt_inv s0"
proof -
  have "mutex_free (mutex_ctor 0)" by (simp add: mutex_free_def mutex_ctor_def)
  then obtain q1 qm1 where c: "mq_ctor_cap (mutex_ctor 0) (int POOL_SIZE) q qm = Ret (q1, qm1)" "mq_inv mutex_free q1 qm1"
      "mq_items q1 qm1 = []" "mq_room q1 = POOL_SIZE"
    using mq_ctor_cap_ok [OF assms(1), of "int POOL_SIZE" mutex_free "mutex_ctor 0" q] by (auto simp: POOL_SIZE_def)
  have room: "length (mq_items q1 qm1) + POOL_SIZE \<le> mq_room q1" using c(3,4) by simp
  from op_fill_arr_ok [OF c(2) room, of 0 arr] obtain q2 qm2 where f:
      "op_fill_arr 0 POOL_SIZE arr q1 qm1 = Ret (q2, qm2)" "mq_inv mutex_free q2 qm2" "mq_room q2 = POOL_SIZE"
      "mq_items q2 qm2 = map (\<lambda>i. arr + int i) [0..<POOL_SIZE]"
    using c(3,4) by auto
  let ?s = "\<lparr>mt_hs = (\<lambda>i. eh_ctor (fb_ctor 1 ECHO_BUF_SIZE) (ms i)), mt_arr = arr, mt_pool = \<lparr>op_que = q2, op_own = False\<rparr>,
      mt_qm = qm2, mt_acc = a, mt_pc = MtStart 0, mt_sock = tcp_ctor, mt_os = quiet_net h0\<rparr>"
  have r: "mt_init arr a q qm ms (quiet_net h0) = Ret ?s"
    using c(1) f(1) by (simp add: mt_init_def tp_ctor_arr_def op_ctor_arr_def)
  have slot: "sl_items (sl_ctor (0::int)) = []" "sl_inv (sl_ctor (0::int))" "slot_val (sl_ctor 0) = -1"
    by (simp_all add: sl_ctor_state)
  have buf: "relay_buf (fb_ctor 1 ECHO_BUF_SIZE) (ms i)" for i
    using assms(4) by (simp add: relay_buf_def fb_ctor_def bf_ctor_arr_def bf_inv_def ECHO_BUF_SIZE_def)
  have idle: "\<not> busy i ?s" for i by (simp add: busy_def eh_ctor_def slot)
  have "eh_ok (eh_ctor (fb_ctor 1 ECHO_BUF_SIZE) (ms i))" for i
    using buf no_sock slot by (simp add: eh_ok_def eh_ctor_def th_ctor_def)
  then have "hs_ok ?s"
    using idle no_sock by (simp add: hs_ok_def mt_started_def in_hand_def) (simp add: eh_ctor_def th_ctor_def)
  moreover have "pool_ok ?s"
    using f idle by (simp add: pool_ok_def in_pool_def in_hand_def distinct_map inj_on_def) auto
  moreover have "own_inv ?s"
  proof -
    have "held ?s w = (if w = TheAcceptor then h0 else -1)" for w
      using assms(2) no_sock slot by (cases w) (simp_all add: eh_ctor_def)
    then have "own_ok (held ?s) {h0} {}" using assms(3) by (auto intro!: own_okI split: if_splits)
    then show ?thesis by (simp add: own_inv_def quiet_net_def echoed_def)
  qed
  ultimately show ?thesis using r by (simp add: mt_inv_def)
qed

lemma mt_step_inv:
  assumes "mt_step s s'" and "mt_inv s"
  shows "mt_inv s'"
proof (rule mt_stepE [OF assms(1)])
  show "mt_inv s'" if "mt_net nt" "mt_main nt s = Ret s'" for nt
    using main_steps_mt [OF assms(2) that(1)] that(2) by auto
  show "mt_inv s'" if "mt_net nt" "eh_run nt i s = Ret s'" for nt i
    using handler_steps [OF assms(2) that(1), of i] that(2) by auto
qed

lemma mt_reach_inv: "mt_reach s s' \<Longrightarrow> mt_inv s \<Longrightarrow> mt_inv s'"
  by (induction rule: mt_reach.induct) (auto intro: mt_step_inv)

section \<open>Properties\<close>

text \<open>C15: However main thread, handlers and network interleave, every open handle is held by exactly one
  of the acceptor, the socket in \<open>main\<close>, a message slot and the sockets of the handlers; each of these
  holds a handle that is open; and no handle is ever closed that is not open. So each connection is
  served by one thread and closed once.\<close>

theorem echo_threads_own_connections:
  assumes "mem_wf qm" and "so_handle (ac_sock a) = h0" and "0 \<le> h0" and "\<forall>i. live_range (ms i) 1 ECHO_BUF_SIZE"
  shows "\<exists>s0. mt_init arr a q qm ms (quiet_net h0) = Ret s0 \<and> (\<forall>s. mt_reach s0 s \<longrightarrow>
    \<not> ft_bad (mt_os s) \<and> (\<forall>h\<in>ft_open (mt_os s). \<exists>!w. held s w = h) \<and> (\<forall>w. held s w \<noteq> -1 \<longrightarrow> held s w \<in> ft_open (mt_os s)))"
proof -
  obtain s0 where i: "mt_init arr a q qm ms (quiet_net h0) = Ret s0" "mt_inv s0" using mt_init_ok [OF assms] by blast
  have "\<not> ft_bad (mt_os s) \<and> (\<forall>h\<in>ft_open (mt_os s). \<exists>!w. held s w = h) \<and> (\<forall>w. held s w \<noteq> -1 \<longrightarrow> held s w \<in> ft_open (mt_os s))"
    if r: "mt_reach s0 s" for s
  proof -
    have o: "own_ok (held s) (ft_open (mt_os s)) {}" "\<not> ft_bad (mt_os s)"
      using mt_reach_inv [OF r i(2)] by (simp_all add: mt_inv_def own_inv_def)
    have "\<exists>!w. held s w = h" if h: "h \<in> ft_open (mt_os s)" for h
    proof -
      obtain w where w: "held s w = h" using own_okD(6) [OF o(1) h] by blast
      have "h \<noteq> -1" using own_okD(5) [OF o(1) h] by simp
      then show ?thesis using w own_okD(3) [OF o(1)] by metis
    qed
    then show ?thesis using o own_okD(1) [OF o(1)] by blast
  qed
  then show ?thesis using i(1) by blast
qed

definition demo_acc :: acceptor where "demo_acc = \<lparr>ac_sock = \<lparr>sock_h = 3\<rparr>, ac_addr = ia_ctor\<rparr>"

lemma demo_acc_handle: "so_handle (ac_sock demo_acc) = 3" by (simp add: demo_acc_def so_handle_def)

lemma demo_live: "live_range (arena (0::byte) 4097) 1 ECHO_BUF_SIZE" by (simp add: ECHO_BUF_SIZE_def)

theorem echo_threads_own_connections_witness:
  "\<exists>s0. mt_init 1 demo_acc mq_demo (arena 0 9) (\<lambda>_. arena 0 4097) (quiet_net 3) = Ret s0 \<and>
    (\<forall>s. mt_reach s0 s \<longrightarrow> \<not> ft_bad (mt_os s) \<and> (\<forall>h\<in>ft_open (mt_os s). \<exists>!w. held s w = h))"
  using echo_threads_own_connections [of "arena 0 9" demo_acc 3 "\<lambda>_. arena 0 4097" 1 mq_demo] demo_live
  by (simp add: demo_acc_handle arena_wf) blast




definition nl_demo :: "netlog net_os" where
  "nl_demo = \<lparr>nt_socket = (\<lambda>ty pr s. (-1, s)), nt_close = nl_close, nt_setsockopt = (\<lambda>h n x s. (0, s)),
     nt_bind = (\<lambda>h a s. (0, s)), nt_listen = (\<lambda>h n s. (0, s)),
     nt_accept = (\<lambda>h s. if 4 \<in> ft_open s then (-1, s) else (4, s\<lparr>ft_open := insert 4 (ft_open s),
        nl_in := (nl_in s)(4 := []), nl_out := (nl_out s)(4 := []), nl_broken := nl_broken s - {4}\<rparr>)),
     nt_connect = (\<lambda>h a s. (-1, s)),
     nt_recv = (\<lambda>h n s. (1, [7], s\<lparr>nl_in := (nl_in s)(h := nl_in s h @ [7])\<rparr>)),
     nt_send = (\<lambda>h bs s. if h \<in> nl_broken s \<or> bs = [] then (-1, s\<lparr>nl_broken := insert h (nl_broken s)\<rparr>)
        else (1, s\<lparr>nl_out := (nl_out s)(h := nl_out s h @ take 1 bs)\<rparr>)),
     nt_sendto = (\<lambda>h bs a s. (-1, s)), nt_recvfrom = (\<lambda>h n s. (-1, [], ia_zero, s))\<rparr>"

lemma nl_demo_ok: "mt_net nl_demo"
proof -
  have "nl_sends nl_demo"
    unfolding nl_sends_def
  proof (intro allI)
    fix h and bs :: "byte list" and s
    show "(\<exists>j. 0 < j \<and> j \<le> length bs \<and> h \<notin> nl_broken s \<and>
        nt_send nl_demo h bs s = (int j, s\<lparr>nl_out := (nl_out s)(h := nl_out s h @ take j bs)\<rparr>)) \<or>
     (\<exists>r. (r = 0 \<or> r = -1) \<and> nt_send nl_demo h bs s = (r, s\<lparr>nl_broken := insert h (nl_broken s)\<rparr>))"
    proof (cases "h \<in> nl_broken s \<or> bs = []")
      case True
      then show ?thesis by (simp add: nl_demo_def)
    next
      case False
      then show ?thesis by (intro disjI1 exI [of _ 1]) (auto simp: nl_demo_def Suc_le_eq)
    qed
  qed
  moreover have "nl_accepts nl_demo" by (simp add: nl_accepts_def nl_demo_def)
  moreover have "nl_recvs nl_demo" by (simp add: nl_recvs_def nl_demo_def)
  ultimately show ?thesis by (simp add: mt_net_def) (simp add: nl_demo_def)
qed


end
