(* ===== verification/Counters.thy ===== *)
theory Counters imports Locks begin

text \<open>
  \<open>os/generic/CtrlrFx/AtomicCounter.h\<close>: a counter every operation of which holds the mutex of
  the object, and \<open>CtrlrFx/SeqLock.h\<close>: a sequence lock, with which one writer and any number
  of readers share data and only the writer changes the lock. Both are looked at one access
  to memory at a time, for any interleaving of the threads; memory is sequentially consistent.
\<close>

section \<open>AtomicCounter\<close>

text \<open>\<open>tr\<close> is the conversion of a number to the counter's type \<open>T\<close>. Every function is what the
  operation does between the guard's constructor and destructor: the result it returns (for the
  assignments, which return the object, the value assigned) and the value it leaves. The
  increments return an \<open>int\<close> whatever \<open>T\<close> is.\<close>

definition at_ctor :: int where "at_ctor = 0"
definition at_ctor_val :: "int \<Rightarrow> int" where "at_ctor_val n = n"
definition at_ctor_copy :: "int \<Rightarrow> int" where "at_ctor_copy src = src"

definition at_assign :: "int \<Rightarrow> int \<Rightarrow> int \<times> int" where "at_assign n cnt = (n, n)"
definition at_assign_copy :: "int \<Rightarrow> int \<Rightarrow> int \<times> int" where "at_assign_copy rhs cnt = (rhs, rhs)"
definition at_add :: "(int \<Rightarrow> int) \<Rightarrow> int \<Rightarrow> int \<Rightarrow> int \<times> int" where "at_add tr amt cnt = (tr (cnt + amt), tr (cnt + amt))"
definition at_load :: "int \<Rightarrow> int \<times> int" where "at_load cnt = (s32 cnt, cnt)"
definition at_load_int :: "int \<Rightarrow> int \<times> int" where "at_load_int cnt = (cnt, cnt)"
definition at_preinc :: "(int \<Rightarrow> int) \<Rightarrow> int \<Rightarrow> int \<times> int" where
  "at_preinc tr cnt = (let cnt = tr (cnt + 1) in (s32 cnt, cnt))"
definition at_postinc :: "(int \<Rightarrow> int) \<Rightarrow> int \<Rightarrow> int \<times> int" where
  "at_postinc tr cnt = (s32 cnt, tr (cnt + 1))"
definition at_predec :: "(int \<Rightarrow> int) \<Rightarrow> int \<Rightarrow> int \<times> int" where
  "at_predec tr cnt = (let cnt = tr (cnt - 1) in (s32 cnt, cnt))"
definition at_postdec :: "(int \<Rightarrow> int) \<Rightarrow> int \<Rightarrow> int \<times> int" where
  "at_postdec tr cnt = (s32 cnt, tr (cnt - 1))"

datatype at_op = AtAssign int | AtAssignCopy int | AtAdd int | AtLoad | AtLoadInt
  | AtPreInc | AtPostInc | AtPreDec | AtPostDec

fun at_do :: "(int \<Rightarrow> int) \<Rightarrow> at_op \<Rightarrow> int \<Rightarrow> int \<times> int" where
  "at_do tr (AtAssign n) = at_assign n"
| "at_do tr (AtAssignCopy n) = at_assign_copy n"
| "at_do tr (AtAdd n) = at_add tr n"
| "at_do tr AtLoad = at_load"
| "at_do tr AtLoadInt = at_load_int"
| "at_do tr AtPreInc = at_preinc tr"
| "at_do tr AtPostInc = at_postinc tr"
| "at_do tr AtPreDec = at_predec tr"
| "at_do tr AtPostDec = at_postdec tr"

text \<open>A thread between operations, waiting for the mutex, holding it, having read the counter,
  and having written it. Memory holds the counter and the mutex; \<open>at_log\<close> records the
  operations with their results in the order in which they took effect.\<close>

datatype at_pc = AtRun | AtWant at_op | AtIn at_op | AtRead at_op int | AtWrote

record at_cfg =
  at_cnt :: int
  at_lock :: mutex
  at_pcs :: "at_pc list"
  at_log :: "(at_op \<times> int) list"

text \<open>The specialisation of the load for \<open>int\<close> takes no lock (\<open>at_peek\<close>).\<close>

inductive at_step :: "(int \<Rightarrow> int) \<Rightarrow> at_cfg \<Rightarrow> at_cfg \<Rightarrow> bool" for tr :: "int \<Rightarrow> int" where
  at_call: "t < length (at_pcs c) \<Longrightarrow> at_pcs c ! t = AtRun \<Longrightarrow> p \<noteq> AtLoadInt \<Longrightarrow>
    at_step tr c (c\<lparr>at_pcs := (at_pcs c)[t := AtWant p]\<rparr>)"
| at_enter: "t < length (at_pcs c) \<Longrightarrow> at_pcs c ! t = AtWant p \<Longrightarrow> mutex_acquire t (at_lock c) = Ret l \<Longrightarrow>
    at_step tr c (c\<lparr>at_lock := l, at_pcs := (at_pcs c)[t := AtIn p]\<rparr>)"
| at_read: "t < length (at_pcs c) \<Longrightarrow> at_pcs c ! t = AtIn p \<Longrightarrow>
    at_step tr c (c\<lparr>at_pcs := (at_pcs c)[t := AtRead p (at_cnt c)]\<rparr>)"
| at_write: "t < length (at_pcs c) \<Longrightarrow> at_pcs c ! t = AtRead p v \<Longrightarrow> at_do tr p v = (r, v') \<Longrightarrow>
    at_step tr c (c\<lparr>at_cnt := v', at_pcs := (at_pcs c)[t := AtWrote], at_log := at_log c @ [(p, r)]\<rparr>)"
| at_leave: "t < length (at_pcs c) \<Longrightarrow> at_pcs c ! t = AtWrote \<Longrightarrow> mutex_release t (at_lock c) = Ret l \<Longrightarrow>
    at_step tr c (c\<lparr>at_lock := l, at_pcs := (at_pcs c)[t := AtRun]\<rparr>)"
| at_peek: "t < length (at_pcs c) \<Longrightarrow> at_pcs c ! t = AtRun \<Longrightarrow> at_load_int (at_cnt c) = (r, v) \<Longrightarrow>
    at_step tr c (c\<lparr>at_log := at_log c @ [(AtLoadInt, r)]\<rparr>)"

inductive at_reach :: "(int \<Rightarrow> int) \<Rightarrow> at_cfg \<Rightarrow> at_cfg \<Rightarrow> bool" for tr :: "int \<Rightarrow> int" where
  at_refl: "at_reach tr c c"
| at_more: "at_reach tr c c' \<Longrightarrow> at_step tr c' c'' \<Longrightarrow> at_reach tr c c''"

definition at_start :: "int \<Rightarrow> nat \<Rightarrow> at_cfg" where
  "at_start v n = \<lparr>at_cnt = v, at_lock = mutex_ctor 0, at_pcs = replicate n AtRun, at_log = []\<rparr>"

text \<open>The specification: one thread that performs the operations in turn.\<close>

fun at_spec :: "(int \<Rightarrow> int) \<Rightarrow> at_op list \<Rightarrow> int \<Rightarrow> int list \<times> int" where
  "at_spec tr [] v = ([], v)"
| "at_spec tr (p # ps) v =
     (let (r, v') = at_do tr p v; (rs, v'') = at_spec tr ps v' in (r # rs, v''))"

lemma at_spec_snoc:
  "at_spec tr ps v = (rs, v') \<Longrightarrow> at_do tr p v' = (r, v'') \<Longrightarrow> at_spec tr (ps @ [p]) v = (rs @ [r], v'')"
  by (induction ps arbitrary: v rs) (auto simp: Let_def split: prod.splits)

lemma at_spec_preincs:
  "\<forall>p\<in>set ps. p = AtPreInc \<Longrightarrow>
   at_spec s32 ps (s32 v) = (map (\<lambda>i. s32 (v + int i)) [1..<length ps + 1], s32 (v + int (length ps)))"
proof (induction ps rule: rev_induct)
  case (snoc p ps)
  let ?n = "length ps"
  have s: "s32 (s32 (v + int ?n) + 1) = s32 (v + int (?n + 1))"
    using s32_step [of "v + int ?n"] by (simp add: algebra_simps)
  have "s32 (s32 (v + int (?n + 1))) = s32 (v + int (?n + 1))" using s32_bounds [of "v + int (?n + 1)"] by simp
  moreover have "p = AtPreInc" using snoc.prems by simp
  ultimately have "at_do s32 p (s32 (v + int ?n)) = (s32 (v + int (?n + 1)), s32 (v + int (?n + 1)))"
    by (simp only: at_do.simps at_preinc_def Let_def s)
  then have "at_spec s32 (ps @ [p]) (s32 v) =
      (map (\<lambda>i. s32 (v + int i)) [1..<?n + 1] @ [s32 (v + int (?n + 1))], s32 (v + int (?n + 1)))"
    using snoc by (intro at_spec_snoc) auto
  then show ?case by simp
qed simp

fun at_inside :: "at_pc \<Rightarrow> bool" where
  "at_inside (AtIn p) = True"
| "at_inside (AtRead p v) = True"
| "at_inside AtWrote = True"
| "at_inside pc = False"

text \<open>The thread inside is the holder of the mutex; what it has read is still there; and the
  counter is what the specification makes of the log.\<close>

definition at_inv :: "(int \<Rightarrow> int) \<Rightarrow> int \<Rightarrow> at_cfg \<Rightarrow> bool" where
  "at_inv tr v0 c \<longleftrightarrow>
     (\<forall>t<length (at_pcs c). at_inside (at_pcs c ! t) \<longleftrightarrow> mx_holder (at_lock c) = Some t) \<and>
     (\<forall>t<length (at_pcs c). \<forall>p v. at_pcs c ! t = AtRead p v \<longrightarrow> v = at_cnt c) \<and>
     at_spec tr (map fst (at_log c)) v0 = (map snd (at_log c), at_cnt c)"

lemma mutex_ret_iff:
  "mutex_acquire t m = Ret l \<longleftrightarrow> mx_alive m \<and> mx_holder m = None \<and> l = m\<lparr>mx_holder := Some t\<rparr>"
  "mutex_release t m = Ret l \<longleftrightarrow> mx_alive m \<and> mx_holder m = Some t \<and> l = m\<lparr>mx_holder := None\<rparr>"
  by (auto simp: mutex_acquire_def mutex_lock_def mutex_release_def mutex_unlock_def)

lemma at_step_inv: "at_step tr c c' \<Longrightarrow> at_inv tr v0 c \<Longrightarrow> at_inv tr v0 c'"
proof (induction rule: at_step.induct)
  case (at_call t c p)
  then show ?case by (auto simp: at_inv_def nth_list_update)
next
  case (at_enter t c p l)
  then show ?case by (auto simp: at_inv_def nth_list_update mutex_ret_iff)
next
  case (at_read t c p)
  then have "mx_holder (at_lock c) = Some t" by (auto simp: at_inv_def)
  then show ?case using at_read by (auto simp: at_inv_def nth_list_update)
next
  case (at_write t c p v r v')
  then have h: "mx_holder (at_lock c) = Some t" "v = at_cnt c" by (auto simp: at_inv_def)
  have only: "u = t" if "u < length (at_pcs c)" "at_pcs c ! u = AtRead q w" for u q w
    using at_write(4) that h(1) by (auto simp: at_inv_def)
  have "at_spec tr (map fst (at_log c) @ [p]) v0 = (map snd (at_log c) @ [r], v')"
    using at_write(3,4) h(2) by (intro at_spec_snoc) (auto simp: at_inv_def)
  then show ?case using at_write(1,4) h(1) only by (auto simp: at_inv_def nth_list_update)
next
  case (at_leave t c l)
  then show ?case by (auto simp: at_inv_def nth_list_update mutex_ret_iff)
next
  case (at_peek t c r v)
  then have "at_spec tr (map fst (at_log c) @ [AtLoadInt]) v0 = (map snd (at_log c) @ [r], at_cnt c)"
    by (intro at_spec_snoc) (auto simp: at_inv_def at_load_int_def)
  then show ?case using at_peek by (auto simp: at_inv_def)
qed

lemma at_reach_inv: "at_reach tr c c' \<Longrightarrow> at_inv tr v0 c \<Longrightarrow> at_inv tr v0 c'"
  by (induction rule: at_reach.induct) (auto intro: at_step_inv)

lemma at_start_inv: "at_inv tr v (at_start v n)"
  by (simp add: at_inv_def at_start_def mutex_ctor_def)

section \<open>SeqLock\<close>

text \<open>The constructor leaves the counter as it finds it (\<open>g\<close>).\<close>

definition sq_ctor :: "int \<Rightarrow> int" where "sq_ctor g = g"
definition sq_write_lock :: "int \<Rightarrow> int" where "sq_write_lock ctr = s32 (ctr + 1)"
definition sq_write_unlock :: "int \<Rightarrow> int" where "sq_write_unlock ctr = s32 (ctr + 1)"
definition sq_acquire :: "int \<Rightarrow> int" where "sq_acquire ctr = sq_write_lock ctr"
definition sq_release :: "int \<Rightarrow> int" where "sq_release ctr = sq_write_unlock ctr"
definition sq_read_begin :: "int \<Rightarrow> int" where "sq_read_begin ctr = ctr"
definition sq_read_retry :: "int \<Rightarrow> int \<Rightarrow> bool" where
  "sq_read_retry c ctr \<longleftrightarrow> c mod 2 \<noteq> 0 \<or> c \<noteq> ctr"

text \<open>The shared data is a list of words. The writer changes words only between the two calls;
  a reader takes the words one at a time. \<open>sq_n\<close> counts the increments of the lock; a reader
  remembers the counter it began with, the number of increments then, and the words it has.\<close>

datatype 'v sq_reader = SqIdle | SqReading int nat "nat \<rightharpoonup> 'v"

record 'v sq_cfg =
  sq_ctr :: int
  sq_n :: nat
  sq_writing :: bool
  sq_data :: "'v list"
  sq_readers :: "'v sq_reader list"

inductive sq_step :: "'v sq_cfg \<Rightarrow> 'v sq_cfg \<Rightarrow> bool" where
  sq_lock: "\<not> sq_writing c \<Longrightarrow>
    sq_step c (c\<lparr>sq_ctr := sq_write_lock (sq_ctr c), sq_n := sq_n c + 1, sq_writing := True\<rparr>)"
| sq_store: "sq_writing c \<Longrightarrow> sq_step c (c\<lparr>sq_data := (sq_data c)[i := v]\<rparr>)"
| sq_unlock: "sq_writing c \<Longrightarrow>
    sq_step c (c\<lparr>sq_ctr := sq_write_unlock (sq_ctr c), sq_n := sq_n c + 1, sq_writing := False\<rparr>)"
| sq_begin: "r < length (sq_readers c) \<Longrightarrow>
    sq_step c (c\<lparr>sq_readers := (sq_readers c)[r := SqReading (sq_read_begin (sq_ctr c)) (sq_n c) Map.empty]\<rparr>)"
| sq_fetch: "r < length (sq_readers c) \<Longrightarrow> sq_readers c ! r = SqReading k n m \<Longrightarrow> i < length (sq_data c) \<Longrightarrow>
    sq_step c (c\<lparr>sq_readers := (sq_readers c)[r := SqReading k n (m(i \<mapsto> sq_data c ! i))]\<rparr>)"

inductive sq_reach :: "'v sq_cfg \<Rightarrow> 'v sq_cfg \<Rightarrow> bool" where
  sq_refl: "sq_reach c c"
| sq_more: "sq_reach c c' \<Longrightarrow> sq_step c' c'' \<Longrightarrow> sq_reach c c''"

definition sq_start :: "int \<Rightarrow> 'v list \<Rightarrow> nat \<Rightarrow> 'v sq_cfg" where
  "sq_start g xs k = \<lparr>sq_ctr = sq_ctor g, sq_n = 0, sq_writing = False, sq_data = xs, sq_readers = replicate k SqIdle\<rparr>"

text \<open>The counter is the number of increments, wrapped around; it is odd during a write. A reader
  in whose time there was no increment has words that are still there.\<close>

definition sq_inv :: "int \<Rightarrow> 'v sq_cfg \<Rightarrow> bool" where
  "sq_inv g c \<longleftrightarrow> sq_ctr c = s32 (g + int (sq_n c)) \<and> (sq_writing c \<longleftrightarrow> odd (sq_n c)) \<and>
     (\<forall>r\<in>set (sq_readers c). \<forall>k n m. r = SqReading k n m \<longrightarrow> k = s32 (g + int n) \<and> n \<le> sq_n c \<and>
        (n = sq_n c \<longrightarrow> even n \<longrightarrow> (\<forall>i v. m i = Some v \<longrightarrow> sq_data c ! i = v)))"

lemma sq_invI:
  assumes "sq_ctr c = s32 (g + int (sq_n c))" "sq_writing c \<longleftrightarrow> odd (sq_n c)"
    and "\<And>k n m. SqReading k n m \<in> set (sq_readers c) \<Longrightarrow> k = s32 (g + int n) \<and> n \<le> sq_n c \<and>
      (n = sq_n c \<longrightarrow> even n \<longrightarrow> (\<forall>i v. m i = Some v \<longrightarrow> sq_data c ! i = v))"
  shows "sq_inv g c"
  using assms unfolding sq_inv_def by blast

lemma sq_invD:
  assumes "sq_inv g c"
  shows "sq_ctr c = s32 (g + int (sq_n c))" "sq_writing c \<longleftrightarrow> odd (sq_n c)"
    and "SqReading k n m \<in> set (sq_readers c) \<Longrightarrow> k = s32 (g + int n)"
    and "SqReading k n m \<in> set (sq_readers c) \<Longrightarrow> n \<le> sq_n c"
    and "SqReading k n m \<in> set (sq_readers c) \<Longrightarrow> n = sq_n c \<Longrightarrow> even n \<Longrightarrow> m i = Some v \<Longrightarrow> sq_data c ! i = v"
  using assms unfolding sq_inv_def by blast+

lemma in_updated: "x \<in> set (xs[r := y]) \<Longrightarrow> x = y \<or> x \<in> set xs"
  using set_update_subset_insert [of xs r y] by blast

lemma sq_step_inv: "sq_step c c' \<Longrightarrow> sq_inv g c \<Longrightarrow> sq_inv g c'"
proof (induction rule: sq_step.induct)
  case (sq_lock c)
  note inv = sq_invD [OF sq_lock(2)]
  show ?case
  proof (rule sq_invI, goal_cases)
    case 1
    show ?case using s32_step [of "g + int (sq_n c)"] inv(1) by (simp add: sq_write_lock_def algebra_simps)
  next
    case 2
    show ?case using inv(2) sq_lock(1) by simp
  next
    case (3 k n m)
    then show ?case using inv(3,4) [of k n m] by simp
  qed
next
  case (sq_store c i v)
  note inv = sq_invD [OF sq_store(2)]
  show ?case
  proof (rule sq_invI, goal_cases)
    case (3 k n m)
    then show ?case using inv(2) inv(3,4) [of k n m] sq_store(1) by simp
  qed (use inv(1,2) in simp_all)
next
  case (sq_unlock c)
  note inv = sq_invD [OF sq_unlock(2)]
  show ?case
  proof (rule sq_invI, goal_cases)
    case 1
    show ?case using s32_step [of "g + int (sq_n c)"] inv(1) by (simp add: sq_write_unlock_def algebra_simps)
  next
    case 2
    show ?case using inv(2) sq_unlock(1) by simp
  next
    case (3 k n m)
    then show ?case using inv(3,4) [of k n m] by simp
  qed
next
  case (sq_begin r c)
  note inv = sq_invD [OF sq_begin(2)]
  show ?case
  proof (rule sq_invI, goal_cases)
    case (3 k n m)
    then have "k = sq_ctr c \<and> n = sq_n c \<and> m = Map.empty \<or> SqReading k n m \<in> set (sq_readers c)"
      using in_updated by (fastforce simp: sq_read_begin_def)
    then show ?case using inv(1) inv(3,4,5) [of k n m] by auto
  qed (use inv(1,2) in simp_all)
next
  case (sq_fetch r c k n m i)
  note inv = sq_invD [OF sq_fetch(4)]
  have old: "SqReading k n m \<in> set (sq_readers c)" using sq_fetch(1,2) by (metis nth_mem)
  show ?case
  proof (rule sq_invI, goal_cases)
    case (3 k' n' m')
    then have "k' = k \<and> n' = n \<and> m' = m(i \<mapsto> sq_data c ! i) \<or> SqReading k' n' m' \<in> set (sq_readers c)"
      using in_updated by fastforce
    then show ?case
    proof
      assume "SqReading k' n' m' \<in> set (sq_readers c)"
      then show ?case using inv(3,4,5) [of k' n' m'] by auto
    next
      assume "k' = k \<and> n' = n \<and> m' = m(i \<mapsto> sq_data c ! i)"
      then show ?case using inv(3,4,5) [OF old] by auto
    qed
  qed (use inv(1,2) in simp_all)
qed

lemma sq_reach_inv: "sq_reach c c' \<Longrightarrow> sq_inv g c \<Longrightarrow> sq_inv g c'"
  by (induction rule: sq_reach.induct) (auto intro: sq_step_inv)

lemma sq_start_inv: "-2147483648 \<le> g \<Longrightarrow> g < 2147483648 \<Longrightarrow> sq_inv g (sq_start g xs k)"
  by (auto simp: sq_inv_def sq_start_def sq_ctor_def)

section \<open>Properties\<close>


text \<open>C32: A reader that does not have to retry has read the data as it is at that moment, with no
  write in progress: the words it took are those of one version, not of two. It holds for a lock
  that started from an even counter and up to 2^32 increments during the read, after which the
  counter has come round.\<close>

theorem seqlock_reads_are_consistent:
  assumes "sq_reach (sq_start g xs k) c" "even g" "-2147483648 \<le> g" "g < 2147483648"
    and "SqReading ctr n m \<in> set (sq_readers c)" "\<not> sq_read_retry ctr (sq_ctr c)" "sq_n c - n < 2 ^ 32"
  shows "\<not> sq_writing c \<and> (\<forall>i v. m i = Some v \<longrightarrow> sq_data c ! i = v)"
proof -
  have inv: "sq_inv g c" by (rule sq_reach_inv [OF assms(1) sq_start_inv [OF assms(3,4)]])
  then have n: "ctr = s32 (g + int n)" "n \<le> sq_n c" using assms(5) by (auto simp: sq_inv_def)
  have r: "even ctr" "ctr = sq_ctr c" using assms(6) by (auto simp: sq_read_retry_def)
  have "s32 (g + int n) = s32 (g + int (sq_n c))" using inv n(1) r(2) by (simp add: sq_inv_def)
  then have "g + int n = g + int (sq_n c)" by (rule s32_inj_near) (use n(2) assms(7) in auto)
  then have same: "n = sq_n c" by simp
  have "even (g + int n)" using s32_even [of "g + int n"] r(1) n(1) by simp
  then have ev: "even n" using assms(2) by simp
  show ?thesis using inv assms(5) same ev by (auto simp: sq_inv_def)
qed


theorem seqlock_reads_are_consistent_witness:
  "\<exists>c. sq_reach (sq_start 0 [7, 8::nat] 1) c \<and> SqReading 0 0 [1 \<mapsto> 8] \<in> set (sq_readers c) \<and>
    \<not> sq_read_retry 0 (sq_ctr c) \<and> \<not> sq_writing c"
proof -
  let ?c = "\<lambda>m. \<lparr>sq_ctr = 0, sq_n = 0, sq_writing = False, sq_data = [7, 8], sq_readers = [SqReading 0 0 m]\<rparr>"
  have 1: "sq_step (sq_start 0 [7, 8] 1) (?c Map.empty)"
    using sq_begin [of 0 "sq_start 0 [7, 8] 1"] by (simp add: sq_start_def sq_ctor_def sq_read_begin_def)
  have 2: "sq_step (?c Map.empty) (?c [1 \<mapsto> 8])"
    using sq_fetch [of 0 "?c Map.empty" 0 0 Map.empty 1] by simp
  have r: "sq_reach (sq_start 0 [7, 8] 1) (?c [1 \<mapsto> 8])" by (rule sq_more [OF sq_more [OF sq_refl 1] 2])
  show ?thesis
    using r seqlock_reads_are_consistent [OF r, of 0 0 "[1 \<mapsto> 8]"]
    by (intro exI [of _ "?c [1 \<mapsto> 8]"]) (simp add: sq_read_retry_def)
qed

text \<open>The counter of a lock that is not initialised may be odd; then it is even during the writes,
  and readers are stopped at all times but then.\<close>

theorem seqlock_uninitialised_tears:
  "\<exists>c. sq_reach (sq_start 1 [0, 0::nat] 1) c \<and> SqReading 2 1 [0 \<mapsto> 9, 1 \<mapsto> 0] \<in> set (sq_readers c) \<and>
    \<not> sq_read_retry 2 (sq_ctr c) \<and> sq_writing c"
proof -
  let ?c = "\<lambda>xs r. \<lparr>sq_ctr = 2, sq_n = 1, sq_writing = True, sq_data = xs, sq_readers = [r]\<rparr>"
  have 1: "sq_step (sq_start 1 [0, 0] 1) (?c [0, 0] SqIdle)"
    using sq_lock [of "sq_start 1 [0, 0] 1"] by (simp add: sq_start_def sq_ctor_def sq_write_lock_def)
  have 2: "sq_step (?c [0, 0] SqIdle) (?c [9, 0] SqIdle)" using sq_store [of "?c [0, 0] SqIdle" 0 9] by simp
  have 3: "sq_step (?c [9, 0] SqIdle) (?c [9, 0] (SqReading 2 1 Map.empty))"
    using sq_begin [of 0 "?c [9, 0] SqIdle"] by (simp add: sq_read_begin_def)
  have 4: "sq_step (?c [9, 0] (SqReading 2 1 Map.empty)) (?c [9, 0] (SqReading 2 1 [0 \<mapsto> 9]))"
    using sq_fetch [of 0 "?c [9, 0] (SqReading 2 1 Map.empty)" 2 1 Map.empty 0] by simp
  have 5: "sq_step (?c [9, 0] (SqReading 2 1 [0 \<mapsto> 9])) (?c [9, 0] (SqReading 2 1 [0 \<mapsto> 9, 1 \<mapsto> 0]))"
    using sq_fetch [of 0 "?c [9, 0] (SqReading 2 1 [0 \<mapsto> 9])" 2 1 "[0 \<mapsto> 9]" 1] by simp
  have "sq_reach (sq_start 1 [0, 0] 1) (?c [9, 0] (SqReading 2 1 [0 \<mapsto> 9, 1 \<mapsto> 0]))"
    by (rule sq_more [OF sq_more [OF sq_more [OF sq_more [OF sq_more [OF sq_refl 1] 2] 3] 4] 5])
  then show ?thesis by (intro exI [of _ "?c [9, 0] (SqReading 2 1 [0 \<mapsto> 9, 1 \<mapsto> 0])"]) (simp add: sq_read_retry_def)
qed

text \<open>A counter of a wider type is read through an \<open>int\<close>.\<close>

theorem atomic_counter_load_truncates:
  "at_load 4294967296 = (0, 4294967296)" "at_preinc s64 4294967295 = (0, 4294967296)"
  by (simp_all add: at_load_def at_preinc_def s32_def)

end
