(* ===== verification/EvtProgram.thy ===== *)
theory EvtProgram imports Pools Threads Counters "HOL-Library.Multiset" begin

text \<open>
  \<open>test/memory/EvtTest/EvtTest.cpp\<close>: events of several classes whose \<open>operator new\<close> takes blocks from a
  memory pool and whose \<open>operator delete\<close> returns them. A thread makes events, several at a time, until a
  semaphore tells it to stop, and a second thread receives them through a message queue of five,
  prints them and deletes them; a null pointer ends it. Pool, queue, semaphore, counter and threads
  are the models of their components; a step is one operation on one of them.

  The program names \<open>AtomicCounter\<close> without a type, as the class of the Win32 port is; the generic
  class, taken at \<open>int\<close>, counts alike. \<open>rand()\<close> may be any number up to \<open>RAND_MAX\<close>.
\<close>

definition N_EVTS :: int where "N_EVTS = 12"
definition MAX_EVT_SIZE :: int where "MAX_EVT_SIZE = 256"
definition EVT_QUE_CAP :: int where "EVT_QUE_CAP = 5"
definition RAND_MAX :: int where "RAND_MAX = 2147483647"

section \<open>Events\<close>

datatype evt_class = StatusEvt int | WarningEvt | ErrorEvt

fun type_name :: "evt_class \<Rightarrow> string" where
  "type_name (StatusEvt typ) = ''Status Event''"
| "type_name WarningEvt = ''Warning Event''"
| "type_name ErrorEvt = ''Error Event''"

record event =
  evt_ninst :: int
  evt_what :: evt_class

text \<open>The \<open>switch\<close> over the index of the event, and \<open>rand() / (RAND_MAX >> 2) + 1\<close>.\<close>

definition evt_kind :: "int \<Rightarrow> evt_class" where
  "evt_kind i = (if i = 1 \<or> i = 2 then StatusEvt i else if i = 3 then WarningEvt else ErrorEvt)"

definition evt_burst :: "int \<Rightarrow> int" where
  "evt_burst rnd = rnd div (RAND_MAX div 4) + 1"

section \<open>The program\<close>

text \<open>
  Where the threads stand. The source waits, draws a number, and for each event of the burst takes a block,
  constructs the event in it and fires it; the destination gets a pointer, prints and deletes.
\<close>

datatype src_pc = SrcWait | SrcRand | SrcNew int int | SrcMake int int int | SrcFire int int int | SrcLast | SrcEnd
datatype dst_pc = DstGet | DstPrint int | DstDelete int | DstEnd
datatype et_main_pc = EtDst | EtSrc | EtKey | EtQuit | EtJoin | EtEnd

text \<open>\<open>et_objs\<close>: the events that are constructed, by address; \<open>et_out\<close>: what was printed.\<close>

record et =
  et_pool :: mpool
  et_pm :: "int mem"
  et_que :: "mutex mq"
  et_qm :: "int mem"
  et_objs :: "int \<rightharpoonup> event"
  et_ctr :: int
  et_sem :: sema
  et_client :: bool
  et_src :: src_pc
  et_dst :: dst_pc
  et_src_th :: thread
  et_dst_th :: thread
  et_out :: "(int \<times> string) list"
  et_main :: et_main_pc

definition evt_new :: "nat \<Rightarrow> et \<Rightarrow> (int \<times> et) run" where
  "evt_new t s = run_then (mp_get t (et_pool s) (et_pm s)) (\<lambda>(p, pool). Ret (p, s\<lparr>et_pool := pool\<rparr>))"

definition evt_delete :: "nat \<Rightarrow> int \<Rightarrow> et \<Rightarrow> et run" where
  "evt_delete t p s =
     (if et_objs s p = None then Undef
      else run_then (mp_put t p (et_pool s) (et_pm s)) (\<lambda>(pool, pm).
        Ret (s\<lparr>et_objs := (et_objs s)(p := None), et_pool := pool, et_pm := pm\<rparr>)))"

definition evt_ctor :: "int \<Rightarrow> evt_class \<Rightarrow> et \<Rightarrow> et" where
  "evt_ctor p k s =
     (let (n, c) = at_preinc s32 (et_ctr s)
      in s\<lparr>et_ctr := c, et_objs := (et_objs s)(p \<mapsto> \<lparr>evt_ninst = n, evt_what = k\<rparr>)\<rparr>)"

definition on_event :: "nat \<Rightarrow> int \<Rightarrow> et \<Rightarrow> et run" where
  "on_event t p s =
     run_then (mq_put (mutex_type t) p (et_que s) (et_qm s)) (\<lambda>(q, qm). Ret (s\<lparr>et_que := q, et_qm := qm\<rparr>))"

definition fire :: "int \<Rightarrow> et \<Rightarrow> et run" where
  "fire p s = (if et_client s then on_event 1 p s else Ret s)"

definition src_run :: "int \<Rightarrow> et \<Rightarrow> et run" where
  "src_run rnd s =
     (case et_src s of
        SrcWait \<Rightarrow> run_then (sema_wait_until (et_sem s)) (\<lambda>(b, sem).
          Ret (s\<lparr>et_sem := sem, et_src := (if b then SrcLast else SrcRand)\<rparr>))
      | SrcRand \<Rightarrow> Ret (s\<lparr>et_src := SrcNew 0 (evt_burst rnd)\<rparr>)
      | SrcNew i n \<Rightarrow>
          if i < n then run_then (evt_new 1 s) (\<lambda>(p, s). Ret (s\<lparr>et_src := SrcMake p i n\<rparr>))
          else Ret (s\<lparr>et_src := SrcWait\<rparr>)
      | SrcMake p i n \<Rightarrow> Ret ((evt_ctor p (evt_kind i) s)\<lparr>et_src := SrcFire p i n\<rparr>)
      | SrcFire p i n \<Rightarrow> run_then (fire p s) (\<lambda>s. Ret (s\<lparr>et_src := SrcNew (i + 1) n\<rparr>))
      | SrcLast \<Rightarrow> run_then (fire 0 s) (\<lambda>s. Ret (s\<lparr>et_src := SrcEnd\<rparr>))
      | SrcEnd \<Rightarrow> Ret (s\<lparr>et_src_th := th_startup_return (th_startup_signal (et_src_th s))\<rparr>))"

definition dst_run :: "et \<Rightarrow> et run" where
  "dst_run s =
     (case et_dst s of
        DstGet \<Rightarrow> run_then (mq_get (mutex_type 2) (et_que s) (et_qm s)) (\<lambda>(p, q).
          Ret (s\<lparr>et_que := q, et_dst := (if p = 0 then DstEnd else DstPrint p)\<rparr>))
      | DstPrint p \<Rightarrow> (case et_objs s p of
          None \<Rightarrow> Undef
        | Some e \<Rightarrow> Ret (s\<lparr>et_out := et_out s @ [(evt_ninst e, type_name (evt_what e))], et_dst := DstDelete p\<rparr>))
      | DstDelete p \<Rightarrow> run_then (evt_delete 2 p s) (\<lambda>s. Ret (s\<lparr>et_dst := DstGet\<rparr>))
      | DstEnd \<Rightarrow> Ret (s\<lparr>et_dst_th := th_startup_return (th_startup_signal (et_dst_th s))\<rparr>))"

text \<open>\<open>main\<close> after its declarations: both threads are activated, then it waits for a key, for ever if none comes.\<close>

definition et_main_run :: "et \<Rightarrow> et run" where
  "et_main_run s =
     (case et_main s of
        EtDst \<Rightarrow> run_then (th_activate 0 0 0 (et_dst_th s)) (\<lambda>(_, th). Ret (s\<lparr>et_dst_th := th, et_main := EtSrc\<rparr>))
      | EtSrc \<Rightarrow> run_then (th_activate 0 0 0 (et_src_th s)) (\<lambda>(_, th). Ret (s\<lparr>et_src_th := th, et_main := EtKey\<rparr>))
      | EtKey \<Rightarrow> Ret (s\<lparr>et_main := EtQuit\<rparr>)
      | EtQuit \<Rightarrow> run_then (sema_post (et_sem s)) (\<lambda>sem. Ret (s\<lparr>et_sem := sem, et_main := EtJoin\<rparr>))
      | EtJoin \<Rightarrow> run_then (th_wait (et_dst_th s)) (\<lambda>th. Ret (s\<lparr>et_dst_th := th, et_main := EtEnd\<rparr>))
      | EtEnd \<Rightarrow> Blocks)"

text \<open>The static objects and the local variables of \<open>main\<close>, with the client registered.\<close>

definition et_init :: "mutex mq \<Rightarrow> int mem \<Rightarrow> mutex mq \<Rightarrow> int mem \<Rightarrow> 'b mem \<Rightarrow> et run" where
  "et_init q0 pm q1 qm m =
     run_then (mp_ctor 0 N_EVTS MAX_EVT_SIZE q0 pm m) (\<lambda>(pool, pm, m).
     run_then (mq_ctor_cap (mutex_ctor 0) EVT_QUE_CAP q1 qm) (\<lambda>(que, qm).
       Ret \<lparr>et_pool = pool, et_pm = pm, et_que = que, et_qm = qm, et_objs = Map.empty, et_ctr = at_ctor,
            et_sem = sema_ctor, et_client = True, et_src = SrcWait, et_dst = DstGet,
            et_src_th = th_ctor PRIORITY_ABOVE_NORMAL, et_dst_th = th_ctor PRIORITY_BELOW_NORMAL,
            et_out = [], et_main = EtDst\<rparr>))"

text \<open>When \<open>main\<close> has returned the process is over.\<close>

inductive et_step :: "et \<Rightarrow> et \<Rightarrow> bool" where
  et_main_steps: "et_main_run s = Ret s' \<Longrightarrow> et_step s s'"
| et_src_steps: "et_main s \<noteq> EtEnd \<Longrightarrow> th_os (et_src_th s) = Running \<Longrightarrow> 0 \<le> rnd \<Longrightarrow> rnd \<le> RAND_MAX \<Longrightarrow>
    src_run rnd s = Ret s' \<Longrightarrow> et_step s s'"
| et_dst_steps: "et_main s \<noteq> EtEnd \<Longrightarrow> th_os (et_dst_th s) = Running \<Longrightarrow> dst_run s = Ret s' \<Longrightarrow> et_step s s'"

inductive_cases et_stepE: "et_step s s'"
inductive_simps et_step_iff: "et_step s s'"

inductive et_reach :: "et \<Rightarrow> et \<Rightarrow> bool" where
  et_refl: "et_reach s s"
| et_more: "et_reach s s' \<Longrightarrow> et_step s' s'' \<Longrightarrow> et_reach s s''"

section \<open>The invariant\<close>

definition pool_items :: "et \<Rightarrow> int list" where "pool_items s = mq_items (mp_que (et_pool s)) (et_pm s)"
definition que_items :: "et \<Rightarrow> int list" where "que_items s = mq_items (et_que s) (et_qm s)"
definition sent :: "et \<Rightarrow> int list" where "sent s = filter (\<lambda>p. p \<noteq> 0) (que_items s)"

text \<open>The block and the event in the hands of the source, those of the destination, and the latter if it is not yet printed.\<close>

fun src_block :: "src_pc \<Rightarrow> int list" where
  "src_block (SrcMake p i n) = [p]"
| "src_block (SrcFire p i n) = [p]"
| "src_block _ = []"

fun src_event :: "src_pc \<Rightarrow> int list" where
  "src_event (SrcFire p i n) = [p]"
| "src_event _ = []"

fun_cases src_event_ConsE: "src_event pc = p # ps"
  and src_block_NilE: "src_block pc = []"

lemma src_event_in_block: "set (src_event pc) \<subseteq> set (src_block pc)"
  by (cases "src_event pc") (auto elim: src_event_ConsE)

lemma src_no_block: "src_block pc = [] \<Longrightarrow> src_event pc = []"
  by (elim src_block_NilE) simp_all

fun dst_event :: "dst_pc \<Rightarrow> int list" where
  "dst_event (DstPrint p) = [p]"
| "dst_event (DstDelete p) = [p]"
| "dst_event _ = []"

fun dst_unprinted :: "dst_pc \<Rightarrow> int list" where
  "dst_unprinted (DstPrint p) = [p]"
| "dst_unprinted _ = []"

definition queues_ok :: "et \<Rightarrow> bool" where
  "queues_ok s \<longleftrightarrow> mq_inv mutex_free (mp_que (et_pool s)) (et_pm s) \<and> mq_room (mp_que (et_pool s)) = 12 \<and>
     mq_inv mutex_free (et_que s) (et_qm s) \<and> mq_room (et_que s) = 5 \<and> et_client s \<and> sm_err (et_sem s) = 0"

definition blocks_ok :: "int list \<Rightarrow> et \<Rightarrow> bool" where
  "blocks_ok bs s \<longleftrightarrow> mset (pool_items s @ dst_event (et_dst s) @ sent s @ src_block (et_src s)) = mset bs"

definition et_num :: "nat \<Rightarrow> int" where "et_num i = s32 (int i + 1)"
definition ninst :: "et \<Rightarrow> int \<Rightarrow> int" where "ninst s p = evt_ninst (the (et_objs s p))"

definition numbers :: "et \<Rightarrow> int list" where
  "numbers s = map fst (et_out s) @ map (ninst s) (dst_unprinted (et_dst s) @ sent s @ src_event (et_src s))"

definition events_ok :: "et \<Rightarrow> bool" where
  "events_ok s \<longleftrightarrow> dom (et_objs s) = set (dst_event (et_dst s) @ sent s @ src_event (et_src s)) \<and>
     (\<exists>n. et_ctr s = s32 (int n) \<and> numbers s = map et_num [0..<n])"

text \<open>The null pointer is the last that is sent, and ends the destination.\<close>

definition null_ok :: "et \<Rightarrow> bool" where
  "null_ok s \<longleftrightarrow>
     (if et_src s \<noteq> SrcEnd then 0 \<notin> set (que_items s) \<and> et_dst s \<noteq> DstEnd
      else if et_dst s = DstEnd then que_items s = [] else que_items s = sent s @ [0])"

definition threads_ok :: "et \<Rightarrow> bool" where
  "threads_ok s \<longleftrightarrow>
     (if et_main s \<in> {EtDst, EtSrc} then et_src_th s = th_ctor PRIORITY_ABOVE_NORMAL \<and> et_src s = SrcWait else th_inv (et_src_th s)) \<and>
     (if et_main s = EtDst then et_dst_th s = th_ctor PRIORITY_BELOW_NORMAL \<and> et_dst s = DstGet else th_inv (et_dst_th s)) \<and>
     (th_os (et_src_th s) = Ended \<longrightarrow> et_src s = SrcEnd) \<and> (th_os (et_dst_th s) \<in> {Ended, Joined} \<longrightarrow> et_dst s = DstEnd) \<and>
     th_os (et_src_th s) \<noteq> Joined \<and> (th_os (et_dst_th s) = Joined \<longleftrightarrow> et_main s = EtEnd)"

definition et_inv :: "int list \<Rightarrow> et \<Rightarrow> bool" where
  "et_inv bs s \<longleftrightarrow> queues_ok s \<and> blocks_ok bs s \<and> events_ok s \<and> null_ok s \<and> threads_ok s"

definition bs_ok :: "int list \<Rightarrow> bool" where
  "bs_ok bs \<longleftrightarrow> distinct bs \<and> 0 \<notin> set bs \<and> length bs = 12"

section \<open>The queues\<close>

lemma que_put:
  assumes "queues_ok s" "length (que_items s) < 5"
  shows "\<exists>q qm. on_event t p s = Ret (s\<lparr>et_que := q, et_qm := qm\<rparr>) \<and> queues_ok (s\<lparr>et_que := q, et_qm := qm\<rparr>) \<and>
    mq_items q qm = que_items s @ [p]"
proof -
  obtain q qm where "mq_put (mutex_type t) p (et_que s) (et_qm s) = Ret (q, qm)" "mq_inv mutex_free q qm"
      "mq_items q qm = que_items s @ [p]" "mq_room q = mq_room (et_que s)"
    using mq_put_room_ex [of "et_que s" "et_qm s" t p] assms by (auto simp: queues_ok_def que_items_def)
  then show ?thesis using assms(1) by (intro exI [of _ q] exI [of _ qm]) (simp add: on_event_def queues_ok_def)
qed

lemma que_full: "queues_ok s \<Longrightarrow> length (que_items s) = 5 \<Longrightarrow> on_event t p s = Blocks"
  using mutex.mq_puts_full(1) [of "et_que s" "et_qm s" "mutex_type t" p]
  by (simp add: on_event_def queues_ok_def que_items_def)

lemma que_room: "queues_ok s \<Longrightarrow> length (que_items s) \<le> 5"
  using mq.within_room [of "(et_que s, et_qm s)"] by (simp add: queues_ok_def que_items_def)

lemma que_get:
  assumes "queues_ok s" "que_items s = p # ps"
  shows "\<exists>q. mq_get (mutex_type t) (et_que s) (et_qm s) = Ret (p, q) \<and> queues_ok (s\<lparr>et_que := q\<rparr>) \<and> mq_items q (et_qm s) = ps"
  using mutex.mq_gets_first [OF mq_mutex_L, of "et_que s" "et_qm s" p ps] assms
  by (fastforce simp: queues_ok_def que_items_def)

lemma que_empty: "queues_ok s \<Longrightarrow> que_items s = [] \<Longrightarrow> mq_get (mutex_type t) (et_que s) (et_qm s) = Blocks"
  using mutex.mq_gets_empty(1) [of "et_que s" "et_qm s" "mutex_type t"] by (simp add: queues_ok_def que_items_def)

lemma pool_take:
  assumes "queues_ok s" "pool_items s = p # ps"
  shows "\<exists>pool. evt_new t s = Ret (p, s\<lparr>et_pool := pool\<rparr>) \<and> queues_ok (s\<lparr>et_pool := pool\<rparr>) \<and>
    mq_items (mp_que pool) (et_pm s) = ps"
proof -
  obtain q where "mq_get (mutex_type t) (mp_que (et_pool s)) (et_pm s) = Ret (p, q)" "mq_inv mutex_free q (et_pm s)"
      "mq_items q (et_pm s) = ps" "mq_room q = mq_room (mp_que (et_pool s))"
    using mutex.mq_gets_first [OF mq_mutex_L, of "mp_que (et_pool s)" "et_pm s" p ps] assms
    by (auto simp: queues_ok_def pool_items_def)
  then show ?thesis using assms(1)
    by (intro exI [of _ "(et_pool s)\<lparr>mp_que := q\<rparr>"]) (simp add: evt_new_def mp_get_def queues_ok_def)
qed

lemma pool_return:
  assumes "queues_ok s" "length (pool_items s) < 12" "et_objs s p \<noteq> None"
  shows "\<exists>pool pm. evt_delete t p s = Ret (s\<lparr>et_objs := (et_objs s)(p := None), et_pool := pool, et_pm := pm\<rparr>) \<and>
    queues_ok (s\<lparr>et_objs := (et_objs s)(p := None), et_pool := pool, et_pm := pm\<rparr>) \<and> mq_items (mp_que pool) pm = pool_items s @ [p]"
proof -
  obtain q pm where "mq_put (mutex_type t) p (mp_que (et_pool s)) (et_pm s) = Ret (q, pm)" "mq_inv mutex_free q pm"
      "mq_items q pm = pool_items s @ [p]" "mq_room q = mq_room (mp_que (et_pool s))"
    using mq_put_room_ex [of "mp_que (et_pool s)" "et_pm s" t p] assms by (auto simp: queues_ok_def pool_items_def)
  then show ?thesis using assms(1,3)
    by (intro exI [of _ "(et_pool s)\<lparr>mp_que := q\<rparr>"] exI [of _ pm]) (simp add: evt_delete_def mp_put_def queues_ok_def)
qed

section \<open>The steps keep the invariant\<close>

lemma blocks_distinct:
  assumes "blocks_ok bs s" "bs_ok bs"
  shows "distinct (pool_items s @ dst_event (et_dst s) @ sent s @ src_block (et_src s))"
    "set (pool_items s @ dst_event (et_dst s) @ sent s @ src_block (et_src s)) = set bs"
    "length (pool_items s @ dst_event (et_dst s) @ sent s @ src_block (et_src s)) = 12"
proof -
  let ?l = "pool_items s @ dst_event (et_dst s) @ sent s @ src_block (et_src s)"
  have m: "mset ?l = mset bs" using assms(1) by (simp only: blocks_ok_def)
  show "distinct ?l" using mset_eq_imp_distinct_iff [OF m] assms(2) unfolding bs_ok_def by blast
  show "set ?l = set bs" by (rule mset_eq_setD [OF m])
  show "length ?l = 12" using mset_eq_length [OF m] assms(2) unfolding bs_ok_def by simp
qed

lemma ninst_fun: "ninst s = (\<lambda>p. evt_ninst (the (et_objs s p)))"
  by (rule ext) (simp add: ninst_def)

text \<open>Steps that only move a program counter or a thread.\<close>

lemma et_inv_frame:
  assumes "et_inv bs s" "et_pool s' = et_pool s" "et_pm s' = et_pm s" "et_que s' = et_que s" "et_qm s' = et_qm s"
    "et_objs s' = et_objs s" "et_ctr s' = et_ctr s" "et_client s' = et_client s" "et_out s' = et_out s"
    "sm_err (et_sem s') = sm_err (et_sem s)" "et_dst s' = et_dst s"
    "src_block (et_src s') = src_block (et_src s)" "src_event (et_src s') = src_event (et_src s)"
    "et_src s' = SrcEnd \<longleftrightarrow> et_src s = SrcEnd" "threads_ok s'"
  shows "et_inv bs s'"
proof -
  have i: "pool_items s' = pool_items s" "que_items s' = que_items s" "sent s' = sent s" "ninst s' = ninst s"
    using assms by (simp_all add: pool_items_def que_items_def sent_def ninst_fun)
  then have "numbers s' = numbers s" using assms by (simp add: numbers_def)
  then show ?thesis using assms i
    by (simp add: et_inv_def queues_ok_def blocks_ok_def events_ok_def null_ok_def)
qed

lemma src_wait_step:
  assumes inv: "et_inv bs s" and pc: "et_src s = SrcWait" and run: "th_os (et_src_th s) = Running"
  shows "\<exists>s'. src_run rnd s = Ret s' \<and> et_inv bs s'"
proof -
  have "sm_err (et_sem s) = 0" using inv by (simp add: et_inv_def queues_ok_def)
  then obtain b sem where w: "sema_wait_until (et_sem s) = Ret (b, sem)" "sm_err sem = 0"
    by (cases "0 < sm_cnt (et_sem s)") (auto simp: sema_wait_until_def)
  let ?s = "s\<lparr>et_sem := sem, et_src := (if b then SrcLast else SrcRand)\<rparr>"
  have "threads_ok ?s" using inv pc run by (auto simp: et_inv_def threads_ok_def th_ctor_def)
  then have "et_inv bs ?s"
    by (intro et_inv_frame [OF inv]) (use pc inv w in \<open>auto simp: et_inv_def queues_ok_def\<close>)
  then show ?thesis using pc w(1) by (simp add: src_run_def)
qed

lemma src_rand_step:
  assumes inv: "et_inv bs s" and pc: "et_src s = SrcRand" and run: "th_os (et_src_th s) = Running"
  shows "\<exists>s'. src_run rnd s = Ret s' \<and> et_inv bs s'"
proof -
  let ?s = "s\<lparr>et_src := SrcNew 0 (evt_burst rnd)\<rparr>"
  have "threads_ok ?s" using inv pc run by (auto simp: et_inv_def threads_ok_def)
  then have "et_inv bs ?s" by (intro et_inv_frame [OF inv]) (use pc in auto)
  then show ?thesis using pc by (simp add: src_run_def)
qed

lemma src_new_step:
  assumes inv: "et_inv bs s" and bs: "bs_ok bs" and pc: "et_src s = SrcNew i n" and run: "th_os (et_src_th s) = Running"
  shows "\<exists>s'. src_run rnd s = Ret s' \<and> et_inv bs s' \<and> (i < n \<longrightarrow> 6 \<le> length (pool_items s))"
proof (cases "i < n")
  case False
  let ?s = "s\<lparr>et_src := SrcWait\<rparr>"
  have "threads_ok ?s" using inv pc run by (auto simp: et_inv_def threads_ok_def)
  then have "et_inv bs ?s" by (intro et_inv_frame [OF inv]) (use pc in auto)
  then show ?thesis using pc False by (simp add: src_run_def)
next
  case True
  have q: "queues_ok s" "blocks_ok bs s" using inv by (simp_all add: et_inv_def)
  have "length (sent s) \<le> 5" using que_room [OF q(1)] length_filter_le order_trans unfolding sent_def by blast
  moreover have "length (dst_event (et_dst s)) \<le> 1" by (cases "et_dst s") simp_all
  ultimately have six: "6 \<le> length (pool_items s)" using blocks_distinct(3) [OF q(2) bs] pc by simp
  then obtain p ps where items: "pool_items s = p # ps" by (cases "pool_items s") auto
  obtain pool where g: "evt_new 1 s = Ret (p, s\<lparr>et_pool := pool\<rparr>)" "queues_ok (s\<lparr>et_pool := pool\<rparr>)"
      "mq_items (mp_que pool) (et_pm s) = ps"
    using pool_take [OF q(1) items] by blast
  let ?s = "s\<lparr>et_pool := pool, et_src := SrcMake p i n\<rparr>"
  have v: "pool_items ?s = ps" "sent ?s = sent s" "que_items ?s = que_items s" "ninst ?s = ninst s"
    using g(3) by (simp_all add: pool_items_def sent_def que_items_def ninst_fun)
  have "queues_ok ?s" using g(2) by (simp add: queues_ok_def)
  moreover have "blocks_ok bs ?s" using q(2) items pc by (simp add: blocks_ok_def v)
  moreover have "events_ok ?s" using inv pc by (simp add: et_inv_def events_ok_def numbers_def v)
  moreover have "null_ok ?s" using inv pc by (simp add: et_inv_def null_ok_def v)
  moreover have "threads_ok ?s" using inv pc run by (auto simp: et_inv_def threads_ok_def)
  ultimately have "et_inv bs ?s" unfolding et_inv_def by blast
  then show ?thesis using pc True g(1) six by (simp add: src_run_def)
qed

lemma src_make_step:
  assumes inv: "et_inv bs s" and bs: "bs_ok bs" and pc: "et_src s = SrcMake p i n" and run: "th_os (et_src_th s) = Running"
  shows "\<exists>s'. src_run rnd s = Ret s' \<and> et_inv bs s'"
proof -
  have q: "queues_ok s" "blocks_ok bs s" using inv by (simp_all add: et_inv_def)
  obtain k where ctr: "et_ctr s = s32 (int k)" "numbers s = map et_num [0..<k]"
    using inv by (auto simp: et_inv_def events_ok_def)
  let ?e = "\<lparr>evt_ninst = s32 (int k + 1), evt_what = evt_kind i\<rparr>"
  let ?s = "s\<lparr>et_ctr := s32 (int k + 1), et_objs := (et_objs s)(p \<mapsto> ?e), et_src := SrcFire p i n\<rparr>"
  have s32s: "s32 (s32 x) = s32 x" for x using s32_bounds [of x] by simp
  have r: "src_run rnd s = Ret ?s" using pc ctr(1) by (simp add: src_run_def evt_ctor_def at_preinc_def s32_step s32s Let_def)
  have new: "p \<notin> set (dst_event (et_dst s) @ sent s)" using blocks_distinct(1) [OF q(2) bs] pc by auto
  then have new': "p \<notin> set (dst_unprinted (et_dst s) @ sent s)" by (cases "et_dst s") auto
  have v: "pool_items ?s = pool_items s" "sent ?s = sent s" "que_items ?s = que_items s"
    by (simp_all add: pool_items_def sent_def que_items_def)
  have "queues_ok ?s" using q(1) by (simp add: queues_ok_def)
  moreover have "blocks_ok bs ?s" using q(2) pc by (simp add: blocks_ok_def v)
  moreover have "events_ok ?s"
  proof -
    have "map (ninst ?s) (dst_unprinted (et_dst s) @ sent s) = map (ninst s) (dst_unprinted (et_dst s) @ sent s)"
      using new' by (intro map_cong) (auto simp: ninst_def)
    then have "numbers ?s = numbers s @ [s32 (int k + 1)]" using pc by (simp add: numbers_def v ninst_def)
    then have "numbers ?s = map et_num [0..<Suc k]" using ctr(2) by (simp add: et_num_def)
    moreover have "dom (et_objs ?s) = set (dst_event (et_dst ?s) @ sent ?s @ src_event (et_src ?s))"
      using inv pc by (simp add: et_inv_def events_ok_def v)
    moreover have "et_ctr ?s = s32 (int (Suc k))" by (simp add: add.commute)
    ultimately show ?thesis unfolding events_ok_def by blast
  qed
  moreover have "null_ok ?s" using inv pc by (simp add: et_inv_def null_ok_def v)
  moreover have "threads_ok ?s" using inv pc run by (auto simp: et_inv_def threads_ok_def)
  ultimately show ?thesis using r unfolding et_inv_def by blast
qed

lemma src_fire_step:
  assumes inv: "et_inv bs s" and bs: "bs_ok bs" and pc: "et_src s = SrcFire p i n" and run: "th_os (et_src_th s) = Running"
  shows "if length (que_items s) < 5 then \<exists>s'. src_run rnd s = Ret s' \<and> et_inv bs s' else src_run rnd s = Blocks"
proof (cases "length (que_items s) < 5")
  case False
  have q: "queues_ok s" using inv by (simp add: et_inv_def)
  then have "length (que_items s) = 5" using que_room [OF q] False by simp
  then show ?thesis using que_full [OF q] False pc q by (simp add: src_run_def fire_def queues_ok_def)
next
  case True
  have q: "queues_ok s" "blocks_ok bs s" "et_client s" using inv by (simp_all add: et_inv_def queues_ok_def)
  have p: "p \<noteq> 0" using blocks_distinct(2) [OF q(2) bs] bs pc by (auto simp: bs_ok_def)
  obtain qu qm where put: "on_event 1 p s = Ret (s\<lparr>et_que := qu, et_qm := qm\<rparr>)" "queues_ok (s\<lparr>et_que := qu, et_qm := qm\<rparr>)"
      "mq_items qu qm = que_items s @ [p]"
    using que_put [OF q(1) True] by blast
  let ?s = "s\<lparr>et_que := qu, et_qm := qm, et_src := SrcNew (i + 1) n\<rparr>"
  have v: "pool_items ?s = pool_items s" "que_items ?s = que_items s @ [p]" "sent ?s = sent s @ [p]" "ninst ?s = ninst s"
    using put(3) p by (simp_all add: pool_items_def que_items_def sent_def ninst_fun)
  have "queues_ok ?s" using put(2) by (simp add: queues_ok_def)
  moreover have "blocks_ok bs ?s" using q(2) pc by (simp add: blocks_ok_def v)
  moreover have "events_ok ?s" using inv pc by (simp add: et_inv_def events_ok_def numbers_def v)
  moreover have "null_ok ?s" using inv pc p by (simp add: et_inv_def null_ok_def v)
  moreover have "threads_ok ?s" using inv pc run by (auto simp: et_inv_def threads_ok_def)
  ultimately have "et_inv bs ?s" unfolding et_inv_def by blast
  then show ?thesis using pc put(1) True q(3) by (simp add: src_run_def fire_def)
qed

lemma src_last_step:
  assumes inv: "et_inv bs s" and pc: "et_src s = SrcLast" and run: "th_os (et_src_th s) = Running"
  shows "if length (que_items s) < 5 then \<exists>s'. src_run rnd s = Ret s' \<and> et_inv bs s' \<and> et_src s' = SrcEnd \<and>
    que_items s' = que_items s @ [0] \<and> et_dst s' = et_dst s \<and> et_dst_th s' = et_dst_th s \<and> et_src_th s' = et_src_th s \<and>
    et_main s' = et_main s else src_run rnd s = Blocks"
proof (cases "length (que_items s) < 5")
  case False
  have q: "queues_ok s" using inv by (simp add: et_inv_def)
  then have "length (que_items s) = 5" using que_room [OF q] False by simp
  then show ?thesis using que_full [OF q] False pc q by (simp add: src_run_def fire_def queues_ok_def)
next
  case True
  have q: "queues_ok s" "et_client s" using inv by (simp_all add: et_inv_def queues_ok_def)
  obtain qu qm where put: "on_event 1 0 s = Ret (s\<lparr>et_que := qu, et_qm := qm\<rparr>)" "queues_ok (s\<lparr>et_que := qu, et_qm := qm\<rparr>)"
      "mq_items qu qm = que_items s @ [0]"
    using que_put [OF q(1) True] by blast
  let ?s = "s\<lparr>et_que := qu, et_qm := qm, et_src := SrcEnd\<rparr>"
  have v: "pool_items ?s = pool_items s" "que_items ?s = que_items s @ [0]" "sent ?s = sent s" "ninst ?s = ninst s"
    using put(3) by (simp_all add: pool_items_def que_items_def sent_def ninst_fun)
  have n: "0 \<notin> set (que_items s)" "et_dst s \<noteq> DstEnd" using inv pc by (simp_all add: et_inv_def null_ok_def)
  then have f: "sent s = que_items s" unfolding sent_def by (intro filter_True) auto
  have "queues_ok ?s" using put(2) by (simp add: queues_ok_def)
  moreover have "blocks_ok bs ?s" using inv pc by (simp add: et_inv_def blocks_ok_def v)
  moreover have "events_ok ?s" using inv pc by (simp add: et_inv_def events_ok_def numbers_def v)
  moreover have "null_ok ?s" using n f by (simp add: null_ok_def v)
  moreover have "threads_ok ?s" using inv pc run by (auto simp: et_inv_def threads_ok_def th_ctor_def)
  ultimately have "et_inv bs ?s" unfolding et_inv_def by blast
  then show ?thesis using pc put(1) True q(2) v(2) by (simp add: src_run_def fire_def)
qed

lemma th_ends: "th_inv th \<Longrightarrow> th_os th = Running \<Longrightarrow>
  th_inv (th_startup_return (th_startup_signal th)) \<and> th_os (th_startup_return (th_startup_signal th)) = Ended"
  by (auto simp: th_inv_def th_defs)

lemma started: "threads_ok s \<Longrightarrow> th_os (et_src_th s) = Running \<Longrightarrow> th_inv (et_src_th s) \<and> et_main s \<notin> {EtDst, EtSrc}"
  "threads_ok s \<Longrightarrow> th_os (et_dst_th s) = Running \<Longrightarrow> th_inv (et_dst_th s) \<and> et_main s \<noteq> EtDst"
  by (auto simp: threads_ok_def th_ctor_def split: if_splits)

lemma src_end_step:
  assumes inv: "et_inv bs s" and pc: "et_src s = SrcEnd" and run: "th_os (et_src_th s) = Running"
  shows "\<exists>s'. src_run rnd s = Ret s' \<and> et_inv bs s'"
proof -
  have t: "threads_ok s" using inv by (simp add: et_inv_def)
  let ?s = "s\<lparr>et_src_th := th_startup_return (th_startup_signal (et_src_th s))\<rparr>"
  have "threads_ok ?s" using t started(1) [OF t run] th_ends [OF _ run] pc by (auto simp: threads_ok_def)
  then have "et_inv bs ?s" by (intro et_inv_frame [OF inv]) (use pc in auto)
  then show ?thesis using pc by (simp add: src_run_def)
qed

text \<open>The destination.\<close>

lemma dst_moves:
  assumes "threads_ok s" "th_os (et_dst_th s) = Running" "et_main s' = et_main s" "et_src_th s' = et_src_th s"
    "et_dst_th s' = et_dst_th s" "et_src s' = et_src s"
  shows "threads_ok s'"
  using assms started(2) [OF assms(1,2)] by (simp add: threads_ok_def)

lemma dst_get_step:
  assumes inv: "et_inv bs s" and pc: "et_dst s = DstGet" and run: "th_os (et_dst_th s) = Running"
  shows "if que_items s = [] then dst_run s = Blocks else \<exists>s'. dst_run s = Ret s' \<and> et_inv bs s' \<and>
    (hd (que_items s) = 0 \<longrightarrow> et_dst s' = DstEnd) \<and> et_dst_th s' = et_dst_th s \<and> et_src_th s' = et_src_th s \<and> et_main s' = et_main s"
proof (cases "que_items s")
  case Nil
  then show ?thesis using que_empty [of s 2] inv pc by (simp add: dst_run_def et_inv_def)
next
  case (Cons p ps)
  have q: "queues_ok s" "blocks_ok bs s" "null_ok s" using inv by (simp_all add: et_inv_def)
  obtain qu where g: "mq_get (mutex_type 2) (et_que s) (et_qm s) = Ret (p, qu)" "queues_ok (s\<lparr>et_que := qu\<rparr>)"
      "mq_items qu (et_qm s) = ps"
    using que_get [OF q(1) Cons] by blast
  let ?s = "s\<lparr>et_que := qu, et_dst := (if p = 0 then DstEnd else DstPrint p)\<rparr>"
  have v: "pool_items ?s = pool_items s" "que_items ?s = ps" "ninst ?s = ninst s"
    "sent s = (if p = 0 then sent ?s else p # sent ?s)"
    using g(3) Cons by (simp_all add: pool_items_def que_items_def sent_def ninst_fun)
  have e: "et_src s = SrcEnd" if "p = 0" using q(3) Cons that pc by (auto simp: null_ok_def split: if_splits)
  have "queues_ok ?s" using g(2) by (simp add: queues_ok_def)
  moreover have "blocks_ok bs ?s" using q(2) pc by (simp add: blocks_ok_def v ac_simps split: if_splits)
  moreover have "events_ok ?s" using inv pc by (simp add: et_inv_def events_ok_def numbers_def v split: if_splits)
  moreover have "null_ok ?s"
  proof (cases "p = 0")
    case True
    have "que_items s = sent s @ [0]" using q(3) e [OF True] pc by (simp add: null_ok_def)
    moreover have "sent s = []"
    proof (cases "sent s")
      case (Cons a list)
      then have "a = 0" using \<open>que_items s = sent s @ [0]\<close> \<open>que_items s = p # ps\<close> True by simp
      moreover have "a \<in> set (sent s)" using Cons by simp
      then have "a \<noteq> 0" by (simp add: sent_def)
      ultimately show ?thesis by simp
    qed simp
    ultimately have "ps = []" using Cons by simp
    then show ?thesis using True e v(2) by (simp add: null_ok_def)
  next
    case False
    then show ?thesis using q(3) pc Cons v(2,4) by (auto simp: null_ok_def)
  qed
  moreover have "threads_ok ?s" by (rule dst_moves [OF _ run]) (use inv pc in \<open>simp_all add: et_inv_def\<close>)
  ultimately have "et_inv bs ?s" unfolding et_inv_def by blast
  then show ?thesis using pc g(1) Cons by (simp add: dst_run_def)
qed

lemma dst_print_step:
  assumes inv: "et_inv bs s" and pc: "et_dst s = DstPrint p" and run: "th_os (et_dst_th s) = Running"
  shows "\<exists>s'. dst_run s = Ret s' \<and> et_inv bs s'"
proof -
  have ev: "events_ok s" using inv by (simp add: et_inv_def)
  have "p \<in> dom (et_objs s)" using ev pc by (simp add: events_ok_def)
  then obtain e where e: "et_objs s p = Some e" by blast
  let ?s = "s\<lparr>et_out := et_out s @ [(evt_ninst e, type_name (evt_what e))], et_dst := DstDelete p\<rparr>"
  have v: "pool_items ?s = pool_items s" "que_items ?s = que_items s" "sent ?s = sent s" "ninst ?s = ninst s"
    by (simp_all add: pool_items_def que_items_def sent_def ninst_fun)
  have "numbers ?s = numbers s" using pc e by (simp add: numbers_def v) (simp add: ninst_def)
  then have "events_ok ?s" using ev pc by (simp add: events_ok_def v)
  moreover have "queues_ok ?s" "blocks_ok bs ?s" "null_ok ?s"
    using inv pc by (simp_all add: et_inv_def queues_ok_def blocks_ok_def null_ok_def v)
  moreover have "threads_ok ?s" by (rule dst_moves [OF _ run]) (use inv pc in \<open>simp_all add: et_inv_def\<close>)
  ultimately have "et_inv bs ?s" unfolding et_inv_def by blast
  then show ?thesis using pc e by (simp add: dst_run_def)
qed

lemma dst_delete_step:
  assumes inv: "et_inv bs s" and bs: "bs_ok bs" and pc: "et_dst s = DstDelete p" and run: "th_os (et_dst_th s) = Running"
  shows "\<exists>s'. dst_run s = Ret s' \<and> et_inv bs s'"
proof -
  have q: "queues_ok s" "blocks_ok bs s" and ev: "events_ok s" using inv by (simp_all add: et_inv_def)
  have dom: "dom (et_objs s) = set (p # sent s @ src_event (et_src s))" using ev pc by (simp add: events_ok_def)
  then have some: "et_objs s p \<noteq> None" by (metis domIff list.set_intros(1))
  have "length (pool_items s) < 12" using blocks_distinct(3) [OF q(2) bs] pc by simp
  then obtain pool pm where d: "evt_delete 2 p s = Ret (s\<lparr>et_objs := (et_objs s)(p := None), et_pool := pool, et_pm := pm\<rparr>)"
      "queues_ok (s\<lparr>et_objs := (et_objs s)(p := None), et_pool := pool, et_pm := pm\<rparr>)" "mq_items (mp_que pool) pm = pool_items s @ [p]"
    using pool_return [OF q(1) _ some] by blast
  let ?s = "s\<lparr>et_objs := (et_objs s)(p := None), et_pool := pool, et_pm := pm, et_dst := DstGet\<rparr>"
  have v: "pool_items ?s = pool_items s @ [p]" "que_items ?s = que_items s" "sent ?s = sent s"
    using d(3) by (simp_all add: pool_items_def que_items_def sent_def)
  have new: "p \<notin> set (sent s @ src_event (et_src s))"
    using blocks_distinct(1) [OF q(2) bs] pc src_event_in_block [of "et_src s"] by auto
  have "queues_ok ?s" using d(2) by (simp add: queues_ok_def)
  moreover have "blocks_ok bs ?s" using q(2) pc by (simp add: blocks_ok_def v)
  moreover have "events_ok ?s"
  proof -
    have "map (ninst ?s) (sent s @ src_event (et_src s)) = map (ninst s) (sent s @ src_event (et_src s))"
      using new by (intro map_cong) (auto simp: ninst_def)
    then have "numbers ?s = numbers s" using pc by (simp add: numbers_def v)
    moreover have "dom (et_objs ?s) = dom (et_objs s) - {p}" by auto
    then have "dom (et_objs ?s) = set (dst_event (et_dst ?s) @ sent ?s @ src_event (et_src ?s))"
      using dom new by (simp add: v)
    ultimately show ?thesis using ev by (simp add: events_ok_def)
  qed
  moreover have "null_ok ?s" using inv pc by (simp add: et_inv_def null_ok_def v)
  moreover have "threads_ok ?s" by (rule dst_moves [OF _ run]) (use inv pc in \<open>simp_all add: et_inv_def\<close>)
  ultimately have "et_inv bs ?s" unfolding et_inv_def by blast
  then show ?thesis using pc d(1) by (simp add: dst_run_def)
qed

lemma et_inv_threads:
  assumes "et_inv bs s" "threads_ok (s\<lparr>et_src_th := a, et_dst_th := b, et_sem := c, et_main := d\<rparr>)" "sm_err c = 0"
  shows "et_inv bs (s\<lparr>et_src_th := a, et_dst_th := b, et_sem := c, et_main := d\<rparr>)"
  by (intro et_inv_frame [OF assms(1)]) (use assms in \<open>auto simp: et_inv_def queues_ok_def\<close>)

lemma dst_end_step:
  assumes inv: "et_inv bs s" and pc: "et_dst s = DstEnd" and run: "th_os (et_dst_th s) = Running"
  shows "\<exists>s'. dst_run s = Ret s' \<and> et_inv bs s' \<and> th_os (et_dst_th s') = Ended \<and> et_src_th s' = et_src_th s \<and> et_main s' = et_main s"
proof -
  have t: "threads_ok s" using inv by (simp add: et_inv_def)
  let ?th = "th_startup_return (th_startup_signal (et_dst_th s))"
  have "et_main s \<noteq> EtEnd" using t run by (auto simp: threads_ok_def)
  then have "threads_ok (s\<lparr>et_src_th := et_src_th s, et_dst_th := ?th, et_sem := et_sem s, et_main := et_main s\<rparr>)"
    using t started(2) [OF t run] th_ends [OF _ run] pc by (auto simp: threads_ok_def)
  from et_inv_threads [OF inv this] have "et_inv bs (s\<lparr>et_dst_th := ?th\<rparr>)" using inv by (simp add: et_inv_def queues_ok_def)
  then show ?thesis using pc started(2) [OF t run] th_ends [OF _ run] by (simp add: dst_run_def)
qed

section \<open>The main thread\<close>

lemma th_ctor_os: "th_os (th_ctor prio) = NoThread"
  by (simp add: th_ctor_def)

lemma th_activates: "\<exists>th. th_activate 0 0 0 (th_ctor prio) = Ret (True, th) \<and> th_inv th \<and> th_os th = Running"
  by (simp add: th_activate_def th_ctor_def th_inv_def ev_ctor_manual_def ev_ctor_def EV_MANUAL_RESET_def Let_def)

lemma et_main_step:
  assumes inv: "et_inv bs s"
  shows "if et_main s = EtEnd \<or> et_main s = EtJoin \<and> th_os (et_dst_th s) = Running then et_main_run s = Blocks
    else \<exists>s'. et_main_run s = Ret s' \<and> et_inv bs s'"
proof -
  have t: "threads_ok s" using inv by (simp add: et_inv_def)
  have sem: "sm_err (et_sem s) = 0" using inv by (simp add: et_inv_def queues_ok_def)
  show ?thesis
  proof (cases "et_main s")
    case EtDst
    obtain th where th: "th_activate 0 0 0 (et_dst_th s) = Ret (True, th)" "th_inv th" "th_os th = Running"
      using th_activates t EtDst by (auto simp: threads_ok_def)
    have "threads_ok (s\<lparr>et_src_th := et_src_th s, et_dst_th := th, et_sem := et_sem s, et_main := EtSrc\<rparr>)"
      using t EtDst th by (simp add: threads_ok_def th_ctor_os)
    from et_inv_threads [OF inv this sem] show ?thesis using EtDst th(1) by (simp add: et_main_run_def)
  next
    case EtSrc
    obtain th where th: "th_activate 0 0 0 (et_src_th s) = Ret (True, th)" "th_inv th" "th_os th = Running"
      using th_activates t EtSrc by (auto simp: threads_ok_def)
    have "threads_ok (s\<lparr>et_src_th := th, et_dst_th := et_dst_th s, et_sem := et_sem s, et_main := EtKey\<rparr>)"
      using t EtSrc th by (simp add: threads_ok_def)
    from et_inv_threads [OF inv this sem] show ?thesis using EtSrc th(1) by (simp add: et_main_run_def)
  next
    case EtKey
    have "threads_ok (s\<lparr>et_src_th := et_src_th s, et_dst_th := et_dst_th s, et_sem := et_sem s, et_main := EtQuit\<rparr>)"
      using t EtKey by (simp add: threads_ok_def)
    from et_inv_threads [OF inv this sem] show ?thesis using EtKey by (simp add: et_main_run_def)
  next
    case EtQuit
    obtain se where se: "sema_post (et_sem s) = Ret se" "sm_err se = 0" using sem by (simp add: sema_post_def)
    have "threads_ok (s\<lparr>et_src_th := et_src_th s, et_dst_th := et_dst_th s, et_sem := se, et_main := EtJoin\<rparr>)"
      using t EtQuit by (simp add: threads_ok_def)
    from et_inv_threads [OF inv this se(2)] show ?thesis using EtQuit se(1) by (simp add: et_main_run_def)
  next
    case EtJoin
    have i: "th_inv (et_dst_th s)" "th_os (et_dst_th s) \<noteq> Joined" using t EtJoin by (simp_all add: threads_ok_def)
    show ?thesis
    proof (cases "th_os (et_dst_th s) = Running")
      case True
      then show ?thesis using EtJoin i by (simp add: et_main_run_def th_wait_def pthread_join_def th_inv_def)
    next
      case False
      then have e: "th_os (et_dst_th s) = Ended" using i by (cases "th_os (et_dst_th s)") (auto simp: th_inv_def)
      then obtain th where th: "th_wait (et_dst_th s) = Ret th" "th_inv th" "th_os th = Joined"
        using i by (auto simp: th_wait_def pthread_join_def th_inv_def)
      have "threads_ok (s\<lparr>et_src_th := et_src_th s, et_dst_th := th, et_sem := et_sem s, et_main := EtEnd\<rparr>)"
        using t EtJoin th e by (simp add: threads_ok_def)
      from et_inv_threads [OF inv this sem] show ?thesis using EtJoin th(1) e by (simp add: et_main_run_def)
    qed
  next
    case EtEnd
    then show ?thesis by (simp add: et_main_run_def)
  qed
qed

section \<open>Whole runs\<close>

lemma src_steps:
  assumes inv: "et_inv bs s" and bs: "bs_ok bs" and run: "th_os (et_src_th s) = Running"
  shows "(\<exists>s'. src_run rnd s = Ret s' \<and> et_inv bs s') \<or> src_run rnd s = Blocks \<and> length (que_items s) = 5"
proof (cases "et_src s")
  case SrcWait
  then show ?thesis using src_wait_step [OF inv SrcWait run] by blast
next
  case SrcRand
  then show ?thesis using src_rand_step [OF inv SrcRand run] by blast
next
  case (SrcNew i n)
  then show ?thesis using src_new_step [OF inv bs SrcNew run] by blast
next
  case (SrcMake p i n)
  then show ?thesis using src_make_step [OF inv bs SrcMake run] by blast
next
  case (SrcFire p i n)
  have "length (que_items s) \<le> 5" using que_room inv by (simp add: et_inv_def)
  then show ?thesis using src_fire_step [OF inv bs SrcFire run, of rnd] by (cases "length (que_items s) < 5") auto
next
  case SrcLast
  have "length (que_items s) \<le> 5" using que_room inv by (simp add: et_inv_def)
  then show ?thesis using src_last_step [OF inv SrcLast run, of rnd] by (cases "length (que_items s) < 5") auto
next
  case SrcEnd
  then show ?thesis using src_end_step [OF inv SrcEnd run] by blast
qed

lemma dst_steps:
  assumes inv: "et_inv bs s" and bs: "bs_ok bs" and run: "th_os (et_dst_th s) = Running"
  shows "(\<exists>s'. dst_run s = Ret s' \<and> et_inv bs s') \<or> dst_run s = Blocks \<and> que_items s = []"
proof (cases "et_dst s")
  case DstGet
  then show ?thesis using dst_get_step [OF inv DstGet run] by (cases "que_items s = []") auto
next
  case (DstPrint p)
  then show ?thesis using dst_print_step [OF inv DstPrint run] by blast
next
  case (DstDelete p)
  then show ?thesis using dst_delete_step [OF inv bs DstDelete run] by blast
next
  case DstEnd
  then show ?thesis using dst_end_step [OF inv DstEnd run] by blast
qed

lemma et_step_inv: "et_step s s' \<Longrightarrow> et_inv bs s \<Longrightarrow> bs_ok bs \<Longrightarrow> et_inv bs s'"
proof (erule et_stepE)
  assume "et_inv bs s" "et_main_run s = Ret s'"
  then show "et_inv bs s'" using et_main_step [of bs s] by (auto split: if_splits)
next
  fix rnd
  assume "et_inv bs s" "bs_ok bs" "th_os (et_src_th s) = Running" "src_run rnd s = Ret s'"
  then show "et_inv bs s'" using src_steps [of bs s rnd] by auto
next
  assume "et_inv bs s" "bs_ok bs" "th_os (et_dst_th s) = Running" "dst_run s = Ret s'"
  then show "et_inv bs s'" using dst_steps [of bs s] by auto
qed

text \<open>When \<open>main\<close> has returned nothing moves any more.\<close>

lemma et_end_final: "et_main s = EtEnd \<Longrightarrow> \<not> et_step s s'"
  by (simp add: et_step_iff et_main_run_def)

lemma et_reach_inv: "et_reach s s' \<Longrightarrow> et_inv bs s \<Longrightarrow> bs_ok bs \<Longrightarrow> et_inv bs s'"
  by (induction rule: et_reach.induct) (auto intro: et_step_inv)

lemma et_init_ok:
  assumes "mem_wf pm" "mem_wf qm" "mem_wf (m :: 'b mem)"
  shows "\<exists>s bs. et_init q0 pm q1 qm m = Ret s \<and> et_inv bs s \<and> bs_ok bs \<and> et_main s = EtDst \<and> que_items s = [] \<and> et_src s = SrcWait \<and>
    et_sem s = tokens 0"
proof -
  have free: "mutex_free (mutex_ctor 0)" by (simp add: mutex_free_def mutex_ctor_def)
  obtain q pm1 where c: "mq_ctor_cap (mutex_ctor 0) 12 q0 pm = Ret (q, pm1)" "mq_inv mutex_free q pm1"
      "mq_items q pm1 = []" "mq_room q = 12"
    using mq_ctor_cap_ok [OF assms(1), of 12 mutex_free "mutex_ctor 0" q0] free by auto
  have fits: "length (mq_items q pm1) + 12 \<le> mq_room q" using c(3,4) by simp
  let ?bs = "map (\<lambda>i. m_brk m + int i * 256) [0..<12]"
  obtain q2 pm2 where f: "mp_fill 0 12 (m_brk m) 256 q pm1 = Ret (q2, pm2)" "mq_inv mutex_free q2 pm2" "mq_items q2 pm2 = ?bs"
    using mp_fill_ok [OF c(2) fits, of 0 "m_brk m" 256] c(3) by auto
  have rm: "mp_fill t n p sz q qm = Ret (q', qm') \<Longrightarrow> mq_room q' = mq_room q" for t n p sz q qm q' qm'
  proof (induction t n p sz q qm rule: mp_fill.induct)
    case (2 t n p sz q qm)
    then obtain q1 qm1 where "mq_put (mutex_type t) p q qm = Ret (q1, qm1)" "mp_fill t n (p + sz) sz q1 qm1 = Ret (q', qm')"
      by (auto simp: run_then_Ret_iff)
    then show ?case using 2 mq_put_frame [of "mutex_type t" p q qm q1 qm1] by (simp add: mq_room_def)
  qed simp
  obtain que qm1 where d: "mq_ctor_cap (mutex_ctor 0) 5 q1 qm = Ret (que, qm1)" "mq_inv mutex_free que qm1"
      "mq_items que qm1 = []" "mq_room que = 5"
    using mq_ctor_cap_ok [OF assms(2), of 5 mutex_free "mutex_ctor 0" q1] free by auto
  let ?s = "\<lparr>et_pool = \<lparr>mp_arr = m_brk m, mp_que = q2\<rparr>, et_pm = pm2, et_que = que, et_qm = qm1, et_objs = Map.empty, et_ctr = 0,
            et_sem = sema_ctor, et_client = True, et_src = SrcWait, et_dst = DstGet,
            et_src_th = th_ctor PRIORITY_ABOVE_NORMAL, et_dst_th = th_ctor PRIORITY_BELOW_NORMAL,
            et_out = [], et_main = EtDst\<rparr>"
  have "et_init q0 pm q1 qm m = Ret ?s"
    using c(1) f(1) d(1) by (simp add: et_init_def mp_ctor_def N_EVTS_def MAX_EVT_SIZE_def EVT_QUE_CAP_def mem_new_def at_ctor_def)
  moreover have "et_inv ?bs ?s"
    using f(2,3) rm [OF f(1)] c(4) d(2-4)
    by (simp add: et_inv_def queues_ok_def blocks_ok_def events_ok_def null_ok_def threads_ok_def numbers_def pool_items_def
        que_items_def sent_def sema_ctor_def th_ctor_os)
  moreover have "0 < m_brk m" using assms(3) by (simp add: mem_wf_def)
  then have "bs_ok ?bs" by (auto simp: bs_ok_def distinct_map inj_on_def)
  ultimately show ?thesis using d(3) by (intro exI [of _ ?s] exI [of _ ?bs]) (simp add: que_items_def sema_ctor_def)
qed

lemma numbers_prefix:
  assumes "map fst xs @ ys = map et_num [0..<n]"
  shows "map fst xs = map et_num [0..<length xs]"
proof -
  have "length xs \<le> n" using arg_cong [OF assms, of length] by simp
  moreover have "map fst xs = take (length xs) (map et_num [0..<n])" by (simp add: assms [symmetric])
  ultimately show ?thesis by (simp add: take_map)
qed

text \<open>C0:
  From the first step to the last, no thread of the event program touches an event that is not there or a
  queue wrongly, and the events are printed in the order in which they were made: the numbers printed
  are 1, 2, 3 and so on, with none left out or repeated, whatever the burst sizes and the interleaving.
\<close>

theorem events_are_printed_in_order:
  assumes "mem_wf pm" "mem_wf qm" "mem_wf m"
  shows "\<exists>s0. et_init q0 pm q1 qm m = Ret s0 \<and> (\<forall>s. et_reach s0 s \<longrightarrow>
    map fst (et_out s) = map et_num [0..<length (et_out s)] \<and> et_main_run s \<noteq> Undef \<and>
    (th_os (et_src_th s) = Running \<longrightarrow> src_run rnd s \<noteq> Undef) \<and> (th_os (et_dst_th s) = Running \<longrightarrow> dst_run s \<noteq> Undef))"
proof -
  obtain s0 bs where s0: "et_init q0 pm q1 qm m = Ret s0" "et_inv bs s0" "bs_ok bs"
    using et_init_ok [OF assms] by blast
  have "map fst (et_out s) = map et_num [0..<length (et_out s)] \<and> et_main_run s \<noteq> Undef \<and>
    (th_os (et_src_th s) = Running \<longrightarrow> src_run rnd s \<noteq> Undef) \<and> (th_os (et_dst_th s) = Running \<longrightarrow> dst_run s \<noteq> Undef)"
    if r: "et_reach s0 s" for s
  proof -
    have inv: "et_inv bs s" using et_reach_inv [OF r s0(2,3)] .
    then obtain n where "numbers s = map et_num [0..<n]" by (auto simp: et_inv_def events_ok_def)
    then have "map fst (et_out s) = map et_num [0..<length (et_out s)]"
      unfolding numbers_def by (rule numbers_prefix)
    moreover have "et_main_run s \<noteq> Undef" using et_main_step [OF inv] by (auto split: if_splits)
    ultimately show ?thesis using src_steps [OF inv s0(3), of rnd] dst_steps [OF inv s0(3)] by auto
  qed
  then show ?thesis using s0(1) by blast
qed

theorem events_are_printed_in_order_witness:
  "\<exists>s0. et_init mq_demo (arena 0 1) mq_demo (arena 0 1) (arena (0::int) 1) = Ret s0 \<and> (\<forall>s. et_reach s0 s \<longrightarrow>
    map fst (et_out s) = map et_num [0..<length (et_out s)] \<and> et_main_run s \<noteq> Undef \<and>
    (th_os (et_src_th s) = Running \<longrightarrow> src_run 7 s \<noteq> Undef) \<and> (th_os (et_dst_th s) = Running \<longrightarrow> dst_run s \<noteq> Undef))"
  by (rule events_are_printed_in_order) simp_all

text \<open>C0:
  The blocking \<open>operator new\<close> never blocks in this program: of the twelve blocks at least six are free
  whenever an event is made. And the threads never wait for each other: once both are started, until the
  destination has ended, one of them can make a step.
\<close>

theorem event_threads_never_stuck:
  assumes "mem_wf pm" "mem_wf qm" "mem_wf m"
  shows "\<exists>s0. et_init q0 pm q1 qm m = Ret s0 \<and> (\<forall>s. et_reach s0 s \<longrightarrow>
    (\<forall>i n. et_src s = SrcNew i n \<longrightarrow> i < n \<longrightarrow> th_os (et_src_th s) = Running \<longrightarrow>
       6 \<le> length (pool_items s) \<and> (\<exists>s'. src_run rnd s = Ret s')) \<and>
    (et_main s \<in> {EtKey, EtQuit, EtJoin} \<longrightarrow> th_os (et_dst_th s) = Running \<longrightarrow>
       (\<exists>s'. dst_run s = Ret s') \<or> (th_os (et_src_th s) = Running \<and> (\<exists>s'. src_run rnd s = Ret s'))))"
proof -
  obtain s0 bs where s0: "et_init q0 pm q1 qm m = Ret s0" "et_inv bs s0" "bs_ok bs"
    using et_init_ok [OF assms] by blast
  have "\<exists>s'. src_run rnd s = Ret s'" "6 \<le> length (pool_items s)"
    if "et_reach s0 s" "et_src s = SrcNew i n" "i < n" "th_os (et_src_th s) = Running" for s i n
    using src_new_step [OF et_reach_inv [OF that(1) s0(2,3)] s0(3) that(2,4), of rnd] that(3) by auto
  moreover have "(\<exists>s'. dst_run s = Ret s') \<or> (th_os (et_src_th s) = Running \<and> (\<exists>s'. src_run rnd s = Ret s'))"
    if r: "et_reach s0 s" and m: "et_main s \<in> {EtKey, EtQuit, EtJoin}" and d: "th_os (et_dst_th s) = Running" for s
  proof (cases "\<exists>s'. dst_run s = Ret s'")
    case False
    have inv: "et_inv bs s" using et_reach_inv [OF r s0(2,3)] .
    then have q: "que_items s = []" "dst_run s = Blocks" using False dst_steps [OF inv s0(3) d] by auto
    then have "et_dst s \<noteq> DstEnd" using dst_end_step [OF inv _ d] False by blast
    then have "et_src s \<noteq> SrcEnd" using inv q(1) by (auto simp: et_inv_def null_ok_def)
    then have "th_os (et_src_th s) = Running"
      using inv m by (cases "th_os (et_src_th s)") (auto simp: et_inv_def threads_ok_def th_inv_def)
    then show ?thesis using src_steps [OF inv s0(3), of rnd] q(1) by auto
  qed simp
  ultimately show ?thesis using s0(1) by (intro exI [of _ s0]) blast
qed

theorem event_threads_never_stuck_witness:
  "\<exists>s0. et_init mq_demo (arena 0 1) mq_demo (arena 0 1) (arena (0::int) 1) = Ret s0 \<and> (\<forall>s. et_reach s0 s \<longrightarrow>
    (\<forall>i n. et_src s = SrcNew i n \<longrightarrow> i < n \<longrightarrow> th_os (et_src_th s) = Running \<longrightarrow>
       6 \<le> length (pool_items s) \<and> (\<exists>s'. src_run 7 s = Ret s')) \<and>
    (et_main s \<in> {EtKey, EtQuit, EtJoin} \<longrightarrow> th_os (et_dst_th s) = Running \<longrightarrow>
       (\<exists>s'. dst_run s = Ret s') \<or> (th_os (et_src_th s) = Running \<and> (\<exists>s'. src_run 7 s = Ret s'))))"
  by (rule event_threads_never_stuck) simp_all

text \<open>C0:
  When \<open>main\<close> returns, every event that was made has been printed and deleted: no event is left, and the
  pool has its twelve blocks back, each once. Nothing moves after that.
\<close>

theorem event_program_ends_clean:
  assumes "mem_wf pm" "mem_wf qm" "mem_wf m"
  shows "\<exists>s0. et_init q0 pm q1 qm m = Ret s0 \<and> (\<forall>s. et_reach s0 s \<longrightarrow> et_main s = EtEnd \<longrightarrow>
    et_objs s = Map.empty \<and> mset (pool_items s) = mset (pool_items s0) \<and> distinct (pool_items s) \<and>
    length (pool_items s) = 12 \<and> et_ctr s = s32 (int (length (et_out s))) \<and> (\<forall>s'. \<not> et_step s s'))"
proof -
  obtain s0 bs where s0: "et_init q0 pm q1 qm m = Ret s0" "et_inv bs s0" "bs_ok bs" "et_main s0 = EtDst"
      "que_items s0 = []" "et_src s0 = SrcWait"
    using et_init_ok [OF assms, of q0 q1] by blast
  have d0: "et_dst s0 = DstGet" using s0(2,4) by (simp add: et_inv_def threads_ok_def)
  have p0: "mset (pool_items s0) = mset bs"
    using s0(2,5,6) d0 by (simp add: et_inv_def blocks_ok_def sent_def)
  have "et_objs s = Map.empty \<and> mset (pool_items s) = mset (pool_items s0) \<and> distinct (pool_items s) \<and>
    length (pool_items s) = 12 \<and> et_ctr s = s32 (int (length (et_out s)))"
    if r: "et_reach s0 s" and e: "et_main s = EtEnd" for s
  proof -
    have inv: "et_inv bs s" using et_reach_inv [OF r s0(2,3)] .
    have d: "et_dst s = DstEnd" using inv e by (auto simp: et_inv_def threads_ok_def)
    have sr: "et_src s = SrcEnd" using inv d by (auto simp: et_inv_def null_ok_def split: if_splits)
    then have q: "que_items s = []" using inv d by (simp add: et_inv_def null_ok_def)
    then have st: "sent s = []" by (simp add: sent_def)
    have b: "blocks_ok bs s" and ev: "events_ok s" using inv by (simp_all add: et_inv_def)
    have "mset (pool_items s) = mset bs" using b d sr st by (simp add: blocks_ok_def)
    moreover have "distinct (pool_items s)" "length (pool_items s) = 12"
      using blocks_distinct(1,3) [OF b s0(3)] d sr st by simp_all
    moreover have "et_objs s = Map.empty" using ev d sr st by (simp add: events_ok_def)
    moreover have "et_ctr s = s32 (int (length (et_out s)))"
    proof -
      obtain n where n: "et_ctr s = s32 (int n)" "map fst (et_out s) = map et_num [0..<n]"
        using ev d sr st by (auto simp: events_ok_def numbers_def)
      have "length (et_out s) = n" using arg_cong [OF n(2), of length] by simp
      then show ?thesis using n(1) by simp
    qed
    ultimately show ?thesis using p0 by simp
  qed
  then show ?thesis using s0(1) et_end_final by blast
qed

theorem event_program_ends_clean_witness:
  "\<exists>s0. et_init mq_demo (arena 0 1) mq_demo (arena 0 1) (arena (0::int) 1) = Ret s0 \<and> (\<forall>s. et_reach s0 s \<longrightarrow> et_main s = EtEnd \<longrightarrow>
    et_objs s = Map.empty \<and> mset (pool_items s) = mset (pool_items s0) \<and> distinct (pool_items s) \<and>
    length (pool_items s) = 12 \<and> et_ctr s = s32 (int (length (et_out s))) \<and> (\<forall>s'. \<not> et_step s s'))"
  by (rule event_program_ends_clean) simp_all

text \<open>The shortest run: the key is pressed before anything else happens.\<close>

lemma quick_start:
  assumes inv: "et_inv bs s0" and main: "et_main s0 = EtDst" and sem: "et_sem s0 = tokens 0" and src: "et_src s0 = SrcWait"
  shows "\<exists>s. et_reach s0 s \<and> et_src s = SrcLast \<and> et_dst s = DstGet \<and> th_os (et_src_th s) = Running \<and>
    th_os (et_dst_th s) = Running \<and> et_main s = EtJoin \<and> que_items s = que_items s0"
proof -
  have t: "et_dst_th s0 = th_ctor PRIORITY_BELOW_NORMAL" "et_src_th s0 = th_ctor PRIORITY_ABOVE_NORMAL" "et_dst s0 = DstGet"
    using inv main by (simp_all add: et_inv_def threads_ok_def)
  obtain d where d: "th_activate 0 0 0 (et_dst_th s0) = Ret (True, d)" "th_os d = Running"
    using th_activates t(1) by auto
  obtain r where r: "th_activate 0 0 0 (et_src_th s0) = Ret (True, r)" "th_os r = Running"
    using th_activates t(2) by auto
  define s1 where "s1 = s0\<lparr>et_dst_th := d, et_main := EtSrc\<rparr>"
  define s2 where "s2 = s1\<lparr>et_src_th := r, et_main := EtKey\<rparr>"
  define s3 where "s3 = s2\<lparr>et_main := EtQuit\<rparr>"
  define s4 where "s4 = s3\<lparr>et_sem := tokens 1, et_main := EtJoin\<rparr>"
  define s5 where "s5 = s4\<lparr>et_sem := tokens 0, et_src := SrcLast\<rparr>"
  note defs = s5_def s4_def s3_def s2_def s1_def
  have "et_step s0 s1" by (rule et_main_steps) (simp add: et_main_run_def main d(1) s1_def)
  moreover have "et_step s1 s2" by (rule et_main_steps) (simp add: et_main_run_def r(1) s1_def s2_def)
  moreover have "et_step s2 s3" by (rule et_main_steps) (simp add: et_main_run_def s2_def s3_def)
  moreover have "et_step s3 s4" by (rule et_main_steps) (simp add: et_main_run_def s1_def s2_def s3_def s4_def sem sema_post_def)
  moreover have "src_run 0 s4 = Ret s5" by (simp add: src_run_def defs src sema_wait_until_def)
  then have "et_step s4 s5" by (intro et_src_steps [of s4 0]) (simp_all add: defs r(2) RAND_MAX_def)
  ultimately have "et_reach s0 s5" by (meson et_refl et_more)
  then show ?thesis using d(2) r(2) t(3) by (intro exI [of _ s5]) (simp add: defs que_items_def)
qed

text \<open>C0:
  \<open>main\<close> does not wait for the source: it can return, and with it the source's object can go, while the
  thread of the source still runs.
\<close>

theorem event_source_may_outlive_main:
  assumes "mem_wf pm" "mem_wf qm" "mem_wf m"
  shows "\<exists>s0 s. et_init q0 pm q1 qm m = Ret s0 \<and> et_reach s0 s \<and> et_main s = EtEnd \<and> th_os (et_src_th s) = Running"
proof -
  obtain s0 bs where s0: "et_init q0 pm q1 qm m = Ret s0" "et_inv bs s0" "bs_ok bs" "et_main s0 = EtDst"
      "que_items s0 = []" "et_src s0 = SrcWait" "et_sem s0 = tokens 0"
    using et_init_ok [OF assms, of q0 q1] by blast
  obtain s5 where s5: "et_reach s0 s5" "et_src s5 = SrcLast" "et_dst s5 = DstGet" "th_os (et_src_th s5) = Running"
      "th_os (et_dst_th s5) = Running" "et_main s5 = EtJoin" "que_items s5 = []"
    using quick_start [OF s0(2,4,7,6)] s0(5) by auto
  obtain s6 where s6: "src_run 0 s5 = Ret s6" "et_inv bs s6" "que_items s6 = [0]" "et_dst s6 = DstGet"
      "et_dst_th s6 = et_dst_th s5" "et_src_th s6 = et_src_th s5" "et_main s6 = EtJoin"
    using src_last_step [OF et_reach_inv [OF s5(1) s0(2,3)] s5(2,4), of 0] s5(3,6,7) by auto
  obtain s7 where s7: "dst_run s6 = Ret s7" "et_inv bs s7" "et_dst s7 = DstEnd" "et_dst_th s7 = et_dst_th s5"
      "et_src_th s7 = et_src_th s5" "et_main s7 = EtJoin"
    using dst_get_step [OF s6(2,4)] s6(3,5,6,7) s5(5) by auto
  obtain s8 where s8: "dst_run s7 = Ret s8" "et_inv bs s8" "th_os (et_dst_th s8) = Ended" "et_src_th s8 = et_src_th s5"
      "et_main s8 = EtJoin"
    using dst_end_step [OF s7(2,3)] s7(4,5,6) s5(5) by auto
  have "th_active (et_dst_th s8)" using s8(2,3,5) by (simp add: et_inv_def threads_ok_def th_inv_def)
  then obtain s9 where s9: "et_main_run s8 = Ret s9" "et_main s9 = EtEnd" "et_src_th s9 = et_src_th s5"
    using s8(3,4,5) by (simp add: et_main_run_def th_wait_def pthread_join_def)
  have "et_step s5 s6" by (rule et_src_steps [of s5 0]) (simp_all add: s5 s6 RAND_MAX_def)
  moreover have "et_step s6 s7" by (rule et_dst_steps) (simp_all add: s5 s6 s7(1))
  moreover have "et_step s7 s8" by (rule et_dst_steps) (simp_all add: s5 s7 s8(1))
  moreover have "et_step s8 s9" by (rule et_main_steps) (rule s9(1))
  ultimately have "et_reach s0 s9" using s5(1) by (meson et_more)
  then show ?thesis using s0(1) s9(2,3) s5(4) by auto
qed

theorem event_source_may_outlive_main_witness:
  "\<exists>s0 s. et_init mq_demo (arena 0 1) mq_demo (arena 0 1) (arena (0::int) 1) = Ret s0 \<and> et_reach s0 s \<and>
    et_main s = EtEnd \<and> th_os (et_src_th s) = Running"
  by (rule event_source_may_outlive_main) simp_all

end
