(* ===== verification/CircQueue.thy ===== *)
theory CircQueue imports Cfx_Memory Cfx_Interfaces begin

text \<open>
  \<open>CtrlrFx/CircQueue.h\<close>: the circular FIFO over a block of memory. The record holds the
  object's members; pointers are addresses of the shared memory. Element output
  parameters (\<open>T *p\<close>) are results; arrays passed by the caller are addresses.
\<close>

record cq =
  cq_base :: int
  cq_put :: int
  cq_get :: int
  cq_end :: int
  cq_own :: bool

definition cq_next :: "cq \<Rightarrow> int \<Rightarrow> int" where
  "cq_next q p = (let p' = p + 1 in if p' = cq_end q then cq_base q else p')"

definition cq_c_array :: "cq \<Rightarrow> int" where
  "cq_c_array q = cq_base q"

definition cq_capacity :: "cq \<Rightarrow> int" where
  "cq_capacity q = u64 (cq_end q - cq_base q)"

text \<open>\<open>int sz = put_ - get_\<close> narrows the pointer difference to 32 bits.\<close>

definition cq_size :: "cq \<Rightarrow> int" where
  "cq_size q =
     (let sz = s32 (cq_put q - cq_get q);
          sz = (if sz < 0 then s32 (u64 (sz + cq_capacity q)) else sz)
      in u64 sz)"

definition cq_full :: "cq \<Rightarrow> bool" where
  "cq_full q \<longleftrightarrow> cq_next q (cq_put q) = cq_get q"

definition cq_empty :: "cq \<Rightarrow> bool" where
  "cq_empty q \<longleftrightarrow> cq_put q = cq_get q"

definition cq_available :: "cq \<Rightarrow> int" where
  "cq_available q = cq_size q"

definition cq_remaining :: "cq \<Rightarrow> int" where
  "cq_remaining q = u64 (cq_capacity q - cq_size q - 1)"

section \<open>Lifetime of the underlying memory\<close>

definition cq_dealloc :: "cq \<Rightarrow> 'a mem \<Rightarrow> (cq \<times> 'a mem) option" where
  "cq_dealloc q m =
     (if cq_own q then
        do { m' \<leftarrow> mem_delete (cq_base q) m; Some (q\<lparr>cq_base := 0, cq_own := False\<rparr>, m') }
      else Some (q, m))"

definition cq_destroy :: "cq \<Rightarrow> 'a mem \<Rightarrow> (cq \<times> 'a mem) option" where
  "cq_destroy q m =
     do { (q', m') \<leftarrow> cq_dealloc q m;
          Some (q'\<lparr>cq_base := 0, cq_put := 0, cq_get := 0, cq_end := 0\<rparr>, m') }"

definition cq_set :: "int \<Rightarrow> int \<Rightarrow> bool \<Rightarrow> cq \<Rightarrow> 'a mem \<Rightarrow> (cq \<times> 'a mem) option" where
  "cq_set buf cap own q m =
     (if cap = 0 then cq_destroy q m
      else do { (q', m') \<leftarrow> cq_dealloc q m;
                Some (q'\<lparr>cq_base := buf, cq_put := buf, cq_get := buf,
                         cq_end := buf + cap, cq_own := own\<rparr>, m') })"

definition cq_resize :: "int \<Rightarrow> cq \<Rightarrow> 'a mem \<Rightarrow> (cq \<times> 'a mem) option" where
  "cq_resize cap q m =
     (if cap = 0 then cq_destroy q m
      else let (p, m') = mem_new cap m in cq_set p cap True q m')"

text \<open>The constructors start from whatever the members held, with \<open>own_\<close> cleared.\<close>

definition cq_ctor :: "cq \<Rightarrow> 'a mem \<Rightarrow> (cq \<times> 'a mem) option" where
  "cq_ctor q m = cq_destroy (q\<lparr>cq_own := False\<rparr>) m"

definition cq_ctor_cap :: "int \<Rightarrow> cq \<Rightarrow> 'a mem \<Rightarrow> (cq \<times> 'a mem) option" where
  "cq_ctor_cap cap q m = cq_resize cap (q\<lparr>cq_own := False\<rparr>) m"

definition cq_ctor_arr :: "int \<Rightarrow> int \<Rightarrow> bool \<Rightarrow> cq \<Rightarrow> 'a mem \<Rightarrow> (cq \<times> 'a mem) option" where
  "cq_ctor_arr buf cap own q m = cq_set buf cap own (q\<lparr>cq_own := False\<rparr>) m"

definition cq_dtor :: "cq \<Rightarrow> 'a mem \<Rightarrow> 'a mem option" where
  "cq_dtor q m = (if cq_own q then mem_delete (cq_base q) m else Some m)"

section \<open>Transfers\<close>

definition cq_put1 :: "'a \<Rightarrow> cq \<Rightarrow> 'a mem \<Rightarrow> (bool \<times> cq \<times> 'a mem) option" where
  "cq_put1 v q m =
     (if cq_full q then Some (False, q, m)
      else do { m' \<leftarrow> wr m (cq_put q) v;
                Some (True, q\<lparr>cq_put := cq_next q (cq_put q)\<rparr>, m') })"

definition cq_putn :: "int \<Rightarrow> int \<Rightarrow> cq \<Rightarrow> 'a mem \<Rightarrow> (int \<times> cq \<times> 'a mem) option" where
  "cq_putn buf n q m =
     (let n = min n (cq_remaining q);
          nwrap = u64 (cq_end q - cq_put q)
      in if n < nwrap then
           do { m' \<leftarrow> copy_elem (cq_put q) buf (nat n) m;
                Some (n, q\<lparr>cq_put := cq_put q + n\<rparr>, m') }
         else
           let nrem = u64 (n - nwrap)
           in do { m' \<leftarrow> copy_elem (cq_put q) buf (nat nwrap) m;
                   m'' \<leftarrow> copy_elem (cq_base q) (buf + nwrap) (nat nrem) m';
                   Some (n, q\<lparr>cq_put := cq_base q + nrem\<rparr>, m'') })"

text \<open>
  The byte specialisation of the array \<open>put\<close>, with \<open>memcpy\<close> for the element loop and
  the exact fit as a case of its own. (It names the type \<open>T\<close>, which is not in scope
  there; \<open>byte\<close> is meant.)
\<close>

definition cq_putn_bytes :: "int \<Rightarrow> int \<Rightarrow> cq \<Rightarrow> 'a mem \<Rightarrow> (int \<times> cq \<times> 'a mem) option" where
  "cq_putn_bytes buf n q m =
     (let n = min n (cq_remaining q);
          nwrap = u64 (cq_end q - cq_put q)
      in if n < nwrap then
           do { m' \<leftarrow> mem_cpy (cq_put q) buf n m; Some (n, q\<lparr>cq_put := cq_put q + n\<rparr>, m') }
         else if n = nwrap then
           do { m' \<leftarrow> mem_cpy (cq_put q) buf n m; Some (n, q\<lparr>cq_put := cq_base q\<rparr>, m') }
         else
           let nrem = u64 (n - nwrap)
           in do { m' \<leftarrow> mem_cpy (cq_put q) buf nwrap m;
                   m'' \<leftarrow> mem_cpy (cq_base q) (buf + nwrap) nrem m';
                   Some (n, q\<lparr>cq_put := cq_base q + nrem\<rparr>, m'') })"

text \<open>\<open>T get()\<close> delivers \<open>T(0)\<close>, the argument \<open>zero\<close>, from an empty queue.\<close>

definition cq_get1 :: "'a \<Rightarrow> cq \<Rightarrow> 'a mem \<Rightarrow> ('a \<times> cq) option" where
  "cq_get1 zero q m =
     (if cq_empty q then Some (zero, q)
      else do { v \<leftarrow> rd m (cq_get q); Some (v, q\<lparr>cq_get := cq_next q (cq_get q)\<rparr>) })"

definition cq_getp :: "cq \<Rightarrow> 'a mem \<Rightarrow> ('a option \<times> cq) option" where
  "cq_getp q m =
     (if cq_empty q then Some (None, q)
      else do { v \<leftarrow> rd m (cq_get q); Some (Some v, q\<lparr>cq_get := cq_next q (cq_get q)\<rparr>) })"

definition cq_getn :: "int \<Rightarrow> int \<Rightarrow> cq \<Rightarrow> 'a mem \<Rightarrow> (int \<times> cq \<times> 'a mem) option" where
  "cq_getn buf n q m =
     (if cq_empty q then Some (0, q, m)
      else
        let n = min n (cq_size q);
            nwrap = u64 (cq_end q - cq_get q)
        in if n < nwrap then
             do { m' \<leftarrow> copy_elem buf (cq_get q) (nat n) m;
                  Some (n, q\<lparr>cq_get := cq_get q + n\<rparr>, m') }
           else
             let nrem = u64 (n - nwrap)
             in do { m' \<leftarrow> copy_elem buf (cq_get q) (nat nwrap) m;
                     m'' \<leftarrow> copy_elem (buf + nwrap) (cq_base q) (nat nrem) m';
                     Some (n, q\<lparr>cq_get := cq_base q + nrem\<rparr>, m'') })"

definition cq_tryput :: "'a \<Rightarrow> cq \<Rightarrow> 'a mem \<Rightarrow> (bool \<times> cq \<times> 'a mem) option" where
  "cq_tryput v q m = cq_put1 v q m"

definition cq_tryget :: "cq \<Rightarrow> 'a mem \<Rightarrow> ('a option \<times> cq) option" where
  "cq_tryget q m = cq_getp q m"

section \<open>Invariant and abstraction\<close>

definition cq_inv :: "cq \<Rightarrow> 'a mem \<Rightarrow> bool" where
  "cq_inv q m \<longleftrightarrow> cq_base q \<le> cq_put q \<and> cq_put q < cq_end q \<and>
     cq_base q \<le> cq_get q \<and> cq_get q < cq_end q \<and>
     cq_end q - cq_base q < 2147483648 \<and>
     live_range m (cq_base q) (cq_end q - cq_base q)"

definition cq_items :: "cq \<Rightarrow> 'a mem \<Rightarrow> 'a list" where
  "cq_items q m =
     (if cq_get q \<le> cq_put q then cells m (cq_get q) (cq_put q - cq_get q)
      else cells m (cq_get q) (cq_end q - cq_get q) @
           cells m (cq_base q) (cq_put q - cq_base q))"

definition cq_room :: "cq \<Rightarrow> nat" where
  "cq_room q = nat (cq_end q - cq_base q - 1)"

lemma cq_capacity_inv [simp]: "cq_inv q m \<Longrightarrow> cq_capacity q = cq_end q - cq_base q"
  by (simp add: cq_inv_def cq_capacity_def)

lemma cq_size_cases:
  "cq_inv q m \<Longrightarrow> cq_size q = (if cq_get q \<le> cq_put q then cq_put q - cq_get q
     else cq_put q - cq_get q + (cq_end q - cq_base q))"
  by (simp add: cq_inv_def cq_size_def cq_capacity_def)

lemma cq_size_items: "cq_inv q m \<Longrightarrow> cq_size q = int (length (cq_items q m))"
  by (auto simp: cq_size_cases cq_items_def) (auto simp: cq_inv_def)

lemma cq_items_room: "cq_inv q m \<Longrightarrow> length (cq_items q m) \<le> cq_room q"
  by (auto simp: cq_items_def cq_room_def cq_inv_def)

lemma cq_remaining_room:
  "cq_inv q m \<Longrightarrow> cq_remaining q = int (cq_room q) - int (length (cq_items q m))"
  using cq_items_room [of q m]
  by (simp add: cq_remaining_def cq_size_items) (auto simp: cq_room_def cq_inv_def)

lemma cq_full_iff: "cq_inv q m \<Longrightarrow> cq_full q \<longleftrightarrow> length (cq_items q m) = cq_room q"
  by (auto simp: cq_full_def cq_next_def cq_items_def cq_room_def cq_inv_def Let_def)

lemma cq_empty_iff: "cq_inv q m \<Longrightarrow> cq_empty q \<longleftrightarrow> cq_items q m = []"
  by (auto simp: cq_empty_def cq_items_def cq_inv_def cells_def)


lemma live_put: "cq_inv q m \<Longrightarrow> m_live m (cq_put q)"
  unfolding cq_inv_def by (rule live_range_nth) auto

lemma live_get: "cq_inv q m \<Longrightarrow> m_live m (cq_get q)"
  unfolding cq_inv_def by (rule live_range_nth) auto

section \<open>Single transfers\<close>

lemma cq_put1_room:
  assumes inv: "cq_inv q m" and room: "length (cq_items q m) < cq_room q"
  shows "\<exists>q' m'. cq_put1 v q m = Some (True, q', m') \<and> cq_inv q' m' \<and>
    cq_room q' = cq_room q \<and> cq_items q' m' = cq_items q m @ [v]"
proof -
  let ?m = "m\<lparr>m_val := (m_val m)(cq_put q := v)\<rparr>"
  let ?q = "q\<lparr>cq_put := cq_next q (cq_put q)\<rparr>"
  have nf: "\<not> cq_full q" using inv room by (simp add: cq_full_iff)
  have put: "cq_put1 v q m = Some (True, ?q, ?m)"
    using nf live_put [OF inv] by (simp add: cq_put1_def wr_live)
  have inv': "cq_inv ?q ?m"
    using inv nf by (auto simp: cq_inv_def cq_full_def cq_next_def Let_def live_range_def)
  have items: "cq_items ?q ?m = cq_items q m @ [v]"
  proof (cases "cq_get q \<le> cq_put q")
    case True
    have "cells ?m (cq_get q) (cq_put q - cq_get q + 1) = cells m (cq_get q) (cq_put q - cq_get q) @ [v]"
      using True by (simp add: cells_snoc cells_upd_other)
    then show ?thesis
      using True inv nf
      by (auto simp: cq_items_def cq_next_def cq_full_def cq_inv_def Let_def algebra_simps)
  next
    case False
    have "cells ?m (cq_base q) (cq_put q - cq_base q + 1) = cells m (cq_base q) (cq_put q - cq_base q) @ [v]"
      using inv by (simp add: cells_snoc cells_upd_other cq_inv_def)
    moreover have "cells ?m (cq_get q) (cq_end q - cq_get q) = cells m (cq_get q) (cq_end q - cq_get q)"
      using False by (simp add: cells_upd_other)
    ultimately show ?thesis
      using False inv nf
      by (auto simp: cq_items_def cq_next_def cq_full_def cq_inv_def Let_def algebra_simps)
  qed
  show ?thesis using put inv' items by (auto simp: cq_room_def)
qed

lemma cq_put1_full:
  "cq_inv q m \<Longrightarrow> length (cq_items q m) = cq_room q \<Longrightarrow> cq_put1 v q m = Some (False, q, m)"
  by (simp add: cq_put1_def cq_full_iff)

lemma cq_getp_empty: "cq_inv q m \<Longrightarrow> cq_items q m = [] \<Longrightarrow> cq_getp q m = Some (None, q)"
  by (simp add: cq_getp_def cq_empty_iff)

lemma cq_items_Cons:
  assumes inv: "cq_inv q m" and items: "cq_items q m = x # xs"
  shows "m_val m (cq_get q) = x \<and> cq_inv (q\<lparr>cq_get := cq_next q (cq_get q)\<rparr>) m \<and>
    cq_items (q\<lparr>cq_get := cq_next q (cq_get q)\<rparr>) m = xs"
proof -
  have ne: "cq_put q \<noteq> cq_get q" using inv items by (auto simp: cq_items_def cq_inv_def)
  have inv': "cq_inv (q\<lparr>cq_get := cq_next q (cq_get q)\<rparr>) m"
    using inv by (auto simp: cq_inv_def cq_next_def Let_def)
  show ?thesis
  proof (cases "cq_get q \<le> cq_put q")
    case True
    then show ?thesis using inv inv' items ne
      by (auto simp: cq_items_def cells_Suc cq_next_def cq_inv_def Let_def algebra_simps)
  next
    case False
    then show ?thesis using inv inv' items ne
      by (auto simp: cq_items_def cells_Suc [of "cq_end q - cq_get q"] cq_next_def cq_inv_def
          Let_def algebra_simps)
  qed
qed

lemma cq_getp_first:
  assumes "cq_inv q m" and "cq_items q m = x # xs"
  shows "\<exists>q'. cq_getp q m = Some (Some x, q') \<and> cq_inv q' m \<and> cq_room q' = cq_room q \<and>
    cq_items q' m = xs"
proof -
  have "\<not> cq_empty q" using assms by (simp add: cq_empty_iff)
  then show ?thesis using cq_items_Cons [OF assms] live_get [OF assms(1)]
    by (auto simp: cq_getp_def rd_live cq_room_def)
qed

lemma cq_get1_getp:
  "cq_get1 zero q m = map_option (\<lambda>(r, q'). (case r of Some v \<Rightarrow> v | None \<Rightarrow> zero, q')) (cq_getp q m)"
  by (auto simp: cq_get1_def cq_getp_def rd_def)

text \<open>The queue with its memory as one state, for the FIFO contract.\<close>

definition cq_put_st :: "'a \<Rightarrow> cq \<times> 'a mem \<Rightarrow> (bool \<times> cq \<times> 'a mem) option" where
  "cq_put_st v s = cq_tryput v (fst s) (snd s)"

definition cq_get_st :: "cq \<times> 'a mem \<Rightarrow> ('a option \<times> cq \<times> 'a mem) option" where
  "cq_get_st s = map_option (\<lambda>(r, q). (r, q, snd s)) (cq_tryget (fst s) (snd s))"

interpretation cq: bounded_fifo cq_put_st cq_get_st
    "\<lambda>s. cq_items (fst s) (snd s)" "\<lambda>s. cq_room (fst s)" "\<lambda>s. cq_inv (fst s) (snd s)"
proof (unfold_locales, goal_cases)
  case (1 s)
  then show ?case by (simp add: cq_items_room)
next
  case (2 s v)
  then show ?case using cq_put1_room [of "fst s" "snd s" v]
    by (fastforce simp: cq_put_st_def cq_tryput_def)
next
  case (3 s v)
  then show ?case by (simp add: cq_put_st_def cq_tryput_def cq_put1_full)
next
  case (4 s)
  then show ?case by (simp add: cq_get_st_def cq_tryget_def cq_getp_empty)
next
  case (5 s x xs)
  then show ?case using cq_getp_first [of "fst s" "snd s" x xs]
    by (force simp: cq_get_st_def cq_tryget_def)
qed

section \<open>Block transfers\<close>

text \<open>A caller's array lies clear of the queue's block.\<close>

definition cq_apart :: "cq \<Rightarrow> int \<Rightarrow> int \<Rightarrow> bool" where
  "cq_apart q buf n \<longleftrightarrow> buf + n \<le> cq_base q \<or> cq_end q \<le> buf"

lemma blit_live_range [simp]: "live_range (blit d s k m) p n = live_range m p n"
  by (simp add: live_range_def)

lemma cells_blit_append:
  assumes "0 \<le> a" and "0 \<le> n"
  shows "d = p + a \<Longrightarrow> cells (blit d s n m) p (a + n) = cells m p a @ cells m s n"
  using assms
  by (subst cells_append [of a]) (auto simp: cells_blit_same cells_blit_other)

lemma cq_putn_spec:
  assumes inv: "cq_inv q m" and n: "0 \<le> n" "live_range m buf n" and apart: "cq_apart q buf n"
  defines "k \<equiv> min n (int (cq_room q) - int (length (cq_items q m)))"
  shows "\<exists>q' m'. cq_putn buf n q m = Some (k, q', m') \<and> cq_inv q' m' \<and> cq_room q' = cq_room q \<and>
    cq_items q' m' = cq_items q m @ cells m buf k"
proof -
  have k: "min n (cq_remaining q) = k" using inv by (simp add: cq_remaining_room k_def)
  have kb: "0 \<le> k" "k \<le> n" using n cq_items_room [OF inv] by (auto simp: k_def)
  have krem: "k \<le> int (cq_room q) - int (length (cq_items q m))" by (simp add: k_def)
  have w: "u64 (cq_end q - cq_put q) = cq_end q - cq_put q" using inv by (simp add: cq_inv_def)
  note q = inv [unfolded cq_inv_def]
  have lr: "live_range m (cq_base q) (cq_end q - cq_base q)" using q by simp
  show ?thesis
  proof (cases "k < cq_end q - cq_put q")
    case True
    have c: "copy_elem (cq_put q) buf (nat k) m = Some (blit (cq_put q) buf k m)"
      using copy_elem_blit [of m "cq_put q" "nat k" buf] kb apart q True
        live_range_sub [OF n(2), of buf k] live_range_sub [OF lr, of "cq_put q" k]
      by (auto simp: cq_apart_def no_clobber_def)
    let ?q = "q\<lparr>cq_put := cq_put q + k\<rparr>" and ?m = "blit (cq_put q) buf k m"
    have "cq_putn buf n q m = Some (k, ?q, ?m)"
      using c True by (simp add: cq_putn_def k w Let_def)
    moreover have "cq_inv ?q ?m" using q kb True by (simp add: cq_inv_def)
    moreover have "cq_items ?q ?m = cq_items q m @ cells m buf k"
    proof (cases "cq_get q \<le> cq_put q")
      case g: True
      then show ?thesis using kb q
        cells_blit_append [of "cq_put q - cq_get q" k "cq_put q" "cq_get q" buf m]
        by (simp add: cq_items_def algebra_simps)
    next
      case g: False
      have lt: "cq_put q + k < cq_get q"
        using krem g q by (auto simp: cq_items_def cq_room_def)
      then show ?thesis using kb q g
        cells_blit_append [of "cq_put q - cq_base q" k "cq_put q" "cq_base q" buf m]
        by (simp add: cq_items_def algebra_simps cells_blit_other)
    qed
    ultimately show ?thesis by (auto simp: cq_room_def)
  next
    case False
    let ?w = "cq_end q - cq_put q"
    let ?r = "k - ?w"
    have g: "cq_get q \<le> cq_put q" using False krem q
      by (auto simp: cq_items_def cq_room_def split: if_splits)
    have rlt: "cq_base q + ?r < cq_get q" and r0: "0 \<le> ?r"
      using g False krem q by (auto simp: cq_items_def cq_room_def)
    have w0: "0 < ?w" using q by simp
    have c1: "copy_elem (cq_put q) buf (nat ?w) m = Some (blit (cq_put q) buf ?w m)"
      using copy_elem_blit [of m "cq_put q" "nat ?w" buf] kb apart q False
        live_range_sub [OF n(2), of buf ?w] live_range_sub [OF lr, of "cq_put q" ?w]
      by (auto simp: cq_apart_def no_clobber_def)
    let ?m1 = "blit (cq_put q) buf ?w m"
    have c2: "copy_elem (cq_base q) (buf + ?w) (nat ?r) ?m1 = Some (blit (cq_base q) (buf + ?w) ?r ?m1)"
      using copy_elem_blit [of ?m1 "cq_base q" "nat ?r" "buf + ?w"] kb apart q r0 rlt w0
        live_range_sub [OF n(2), of "buf + ?w" ?r] live_range_sub [OF lr, of "cq_base q" ?r]
      by (auto simp: cq_apart_def no_clobber_def)
    let ?q = "q\<lparr>cq_put := cq_base q + ?r\<rparr>" and ?m = "blit (cq_base q) (buf + ?w) ?r ?m1"
    have u: "u64 ?r = ?r" using r0 rlt q by simp
    have "cq_putn buf n q m = Some (k, ?q, ?m)"
      using c1 c2 False u by (simp add: cq_putn_def k w Let_def)
    moreover have "cq_inv ?q ?m" using q r0 rlt by (simp add: cq_inv_def)
    moreover have "cq_items ?q ?m = cq_items q m @ cells m buf k"
    proof -
      have "cells ?m (cq_get q) (cq_end q - cq_get q) = cells ?m1 (cq_get q) (cq_end q - cq_get q)"
        using rlt by (simp add: cells_blit_other)
      also have "\<dots> = cells m (cq_get q) (cq_put q - cq_get q) @ cells m buf ?w"
        using cells_blit_append [of "cq_put q - cq_get q" ?w "cq_put q" "cq_get q" buf m] g w0 by simp
      finally have a: "cells ?m (cq_get q) (cq_end q - cq_get q)
          = cells m (cq_get q) (cq_put q - cq_get q) @ cells m buf ?w" .
      have "cells ?m (cq_base q) ?r = cells m (buf + ?w) ?r"
        using cells_blit_same [of "cq_base q" "buf + ?w" ?r ?m1] apart q kb w0
        by (auto simp: cells_blit_other cq_apart_def)
      moreover have "cells m buf k = cells m buf ?w @ cells m (buf + ?w) ?r"
        using cells_append [of ?w k m buf] w0 r0 by simp
      ultimately show ?thesis using a g rlt by (simp add: cq_items_def)
    qed
    ultimately show ?thesis by (auto simp: cq_room_def)
  qed
qed


lemma cq_getn_spec:
  assumes inv: "cq_inv q m" and n: "0 \<le> n" "live_range m buf n" and apart: "cq_apart q buf n"
  defines "k \<equiv> min n (int (length (cq_items q m)))"
  shows "\<exists>q' m'. cq_getn buf n q m = Some (k, q', m') \<and> cq_inv q' m' \<and> cq_room q' = cq_room q \<and>
    cells m' buf k = take (nat k) (cq_items q m) \<and> cq_items q' m' = drop (nat k) (cq_items q m) \<and>
    (\<forall>a. a < buf \<or> buf + n \<le> a \<longrightarrow> m_val m' a = m_val m a)"
proof (cases "cq_items q m = []")
  case True
  then have "k = 0" using n by (simp add: k_def)
  then show ?thesis using True inv by (simp add: cq_getn_def cq_empty_iff)
next
  case ne: False
  have k: "min n (cq_size q) = k" using inv by (simp add: cq_size_items k_def)
  have kb: "0 \<le> k" "k \<le> n" using n by (auto simp: k_def)
  have klen: "k \<le> int (length (cq_items q m))" by (simp add: k_def)
  have w: "u64 (cq_end q - cq_get q) = cq_end q - cq_get q" using inv by (simp add: cq_inv_def)
  note q = inv [unfolded cq_inv_def]
  have lr: "live_range m (cq_base q) (cq_end q - cq_base q)" using q by simp
  have nonempty: "\<not> cq_empty q" using inv ne by (simp add: cq_empty_iff)
  have other: "cells (blit d s j m') p i = cells m' p i"
    if "buf \<le> d" "d + j \<le> buf + n" "cq_base q \<le> p" "p + i \<le> cq_end q" "0 \<le> i" "0 \<le> j"
    for d s j p i and m' :: "'a mem"
    using that apart by (intro cells_blit_other) (auto simp: cq_apart_def)
  show ?thesis
  proof (cases "k < cq_end q - cq_get q")
    case True
    let ?m = "blit buf (cq_get q) k m" and ?q = "q\<lparr>cq_get := cq_get q + k\<rparr>"
    have c: "copy_elem buf (cq_get q) (nat k) m = Some ?m"
      using copy_elem_blit [of m buf "nat k" "cq_get q"] kb apart q True
        live_range_sub [OF n(2), of buf k] live_range_sub [OF lr, of "cq_get q" k]
      by (auto simp: cq_apart_def no_clobber_def)
    have "cq_getn buf n q m = Some (k, ?q, ?m)"
      using c True nonempty by (simp add: cq_getn_def k w Let_def)
    moreover have "cq_inv ?q ?m" using q kb True by (simp add: cq_inv_def)
    moreover have "take (nat k) (cq_items q m) = cells m (cq_get q) k \<and>
        cq_items ?q ?m = drop (nat k) (cq_items q m)"
    proof (cases "cq_get q \<le> cq_put q")
      case g: True
      then have "k \<le> cq_put q - cq_get q" using klen by (simp add: cq_items_def)
      then show ?thesis using g q kb cells_append [of k "cq_put q - cq_get q" m "cq_get q"]
        by (simp add: cq_items_def other algebra_simps)
    next
      case g: False
      then show ?thesis using q kb True cells_append [of k "cq_end q - cq_get q" m "cq_get q"]
        by (simp add: cq_items_def other algebra_simps)
    qed
    moreover have "\<forall>a. a < buf \<or> buf + n \<le> a \<longrightarrow> m_val ?m a = m_val m a"
      using kb by (auto simp: blit_def)
    ultimately show ?thesis by (auto simp: cq_room_def cells_blit_same)
  next
    case False
    let ?w = "cq_end q - cq_get q"
    let ?r = "k - ?w"
    have w0: "0 < ?w" and r0: "0 \<le> ?r" using q False by simp_all
    have g: "cq_put q < cq_get q" and rle: "cq_base q + ?r \<le> cq_put q"
      using False klen q by (auto simp: cq_items_def split: if_splits)
    let ?m1 = "blit buf (cq_get q) ?w m"
    let ?m = "blit (buf + ?w) (cq_base q) ?r ?m1" and ?q = "q\<lparr>cq_get := cq_base q + ?r\<rparr>"
    have c1: "copy_elem buf (cq_get q) (nat ?w) m = Some ?m1"
      using copy_elem_blit [of m buf "nat ?w" "cq_get q"] kb apart q False
        live_range_sub [OF n(2), of buf ?w] live_range_sub [OF lr, of "cq_get q" ?w]
      by (auto simp: cq_apart_def no_clobber_def)
    have c2: "copy_elem (buf + ?w) (cq_base q) (nat ?r) ?m1 = Some ?m"
      using copy_elem_blit [of ?m1 "buf + ?w" "nat ?r" "cq_base q"] kb apart q r0 rle w0
        live_range_sub [OF n(2), of "buf + ?w" ?r] live_range_sub [OF lr, of "cq_base q" ?r]
      by (auto simp: cq_apart_def no_clobber_def)
    have u: "u64 ?r = ?r" using r0 rle q by simp
    have kk: "nat k = nat ?w + nat ?r" using w0 r0 by simp
    have "cq_getn buf n q m = Some (k, ?q, ?m)"
      using c1 c2 False u nonempty by (simp add: cq_getn_def k w Let_def)
    moreover have "cq_inv ?q ?m" using q r0 rle by (simp add: cq_inv_def)
    moreover have "cells ?m buf k = take (nat k) (cq_items q m)"
    proof -
      have "cells ?m buf k = cells ?m1 buf ?w @ cells ?m1 (cq_base q) ?r"
        using cells_blit_append [of ?w ?r "buf + ?w" buf "cq_base q" ?m1] w0 r0 by simp
      also have "\<dots> = cells m (cq_get q) ?w @ cells m (cq_base q) ?r"
        using q rle r0 w0 g kb by (simp add: cells_blit_same other)
      also have "\<dots> = take (nat k) (cq_items q m)"
        using g w0 r0 rle cells_append [of ?r "cq_put q - cq_base q" m "cq_base q"]
        unfolding kk by (simp add: cq_items_def)
      finally show ?thesis .
    qed
    moreover have "cq_items ?q ?m = drop (nat k) (cq_items q m)"
    proof -
      have "drop (nat k) (cq_items q m) = cells m (cq_base q + ?r) (cq_put q - cq_base q - ?r)"
        using g w0 r0 rle cells_append [of ?r "cq_put q - cq_base q" m "cq_base q"]
        unfolding kk by (simp add: cq_items_def)
      moreover have "cq_items ?q ?m = cells ?m (cq_base q + ?r) (cq_put q - (cq_base q + ?r))"
        using rle by (simp add: cq_items_def)
      moreover have "cells ?m (cq_base q + ?r) (cq_put q - (cq_base q + ?r))
          = cells m (cq_base q + ?r) (cq_put q - (cq_base q + ?r))"
        using rle r0 w0 q kb by (simp add: other)
      ultimately show ?thesis by (simp add: diff_diff_eq)
    qed
    moreover have "\<forall>a. a < buf \<or> buf + n \<le> a \<longrightarrow> m_val ?m a = m_val m a"
      using kb w0 r0 by (auto simp: blit_def)
    ultimately show ?thesis by (auto simp: cq_room_def)
  qed
qed

text \<open>On an array clear of the queue's block, \<open>memcpy\<close> does what the element loop does.\<close>

lemma cq_putn_bytes_eq:
  assumes inv: "cq_inv q m" and n: "0 \<le> n" "n < 2 ^ 64" and apart: "cq_apart q buf n"
  shows "cq_putn_bytes buf n q m = cq_putn buf n q m"
proof -
  define k where "k = min n (cq_remaining q)"
  have w: "u64 (cq_end q - cq_put q) = cq_end q - cq_put q" using inv by (simp add: cq_inv_def)
  have k: "0 \<le> k" "k \<le> n" "k < cq_end q - cq_base q"
    using n cq_items_room [OF inv] inv
    by (auto simp: k_def cq_remaining_room [OF inv] cq_inv_def cq_room_def)
  have r: "u64 (k - (cq_end q - cq_put q)) = k - (cq_end q - cq_put q)" if "cq_end q - cq_put q \<le> k"
    using that k inv by (simp add: cq_inv_def)
  have c: "mem_cpy d s i m' = copy_elem d s (nat i) m'"
    if "cq_base q \<le> d" "d + i \<le> cq_end q" "buf \<le> s" "s + i \<le> buf + n" for d s i and m' :: "'a mem"
    using that apart by (auto simp: mem_cpy_def cq_apart_def)
  show ?thesis
    using k r inv
    by (auto simp: cq_putn_bytes_def cq_putn_def Let_def k_def [symmetric] w c cq_inv_def)
qed

section \<open>Ownership\<close>

text \<open>
  An owning queue holds a block that came from \<open>new[]\<close>; freeing it is then defined and
  leaves the rest of the heap alone.
\<close>

definition cq_owns :: "cq \<Rightarrow> 'a mem \<Rightarrow> bool" where
  "cq_owns q m \<longleftrightarrow> (cq_own q \<longrightarrow> m_blocks m (cq_base q) = Some (cq_end q - cq_base q) \<and> cq_base q \<noteq> 0)"

lemma cq_dtor_frees:
  "cq_owns q m \<Longrightarrow> \<exists>m'. cq_dtor q m = Some m' \<and>
     m_blocks m' = (if cq_own q then (m_blocks m)(cq_base q := None) else m_blocks m)"
  by (auto simp: cq_owns_def cq_dtor_def mem_delete_def)

lemma cq_dealloc_frees:
  "cq_owns q m \<Longrightarrow> \<exists>q' m'. cq_dealloc q m = Some (q', m') \<and> \<not> cq_own q' \<and>
     m_blocks m' = (if cq_own q then (m_blocks m)(cq_base q := None) else m_blocks m) \<and>
     (\<forall>a. m_live m a \<and> (cq_own q \<longrightarrow> a < cq_base q \<or> cq_end q \<le> a) \<longrightarrow> m_live m' a) \<and>
     m_val m' = m_val m"
  by (auto simp: cq_owns_def cq_dealloc_def mem_delete_def)

lemma cq_resize_fresh:
  assumes wf: "mem_wf m" and owns: "cq_owns q m" and cap: "0 < cap" "cap < 2147483648"
  shows "\<exists>q' m'. cq_resize cap q m = Some (q', m') \<and> cq_inv q' m' \<and> cq_items q' m' = [] \<and>
    cq_room q' = nat (cap - 1) \<and> cq_own q' \<and> cq_owns q' m' \<and> cq_base q' = m_brk m \<and>
    m_blocks m' = (if cq_own q then (m_blocks m)(cq_base q := None) else m_blocks m)(m_brk m \<mapsto> cap)"
proof -
  obtain m1 where new: "mem_new cap m = (m_brk m, m1)" by (simp add: mem_new_def)
  have m1: "m_blocks m1 = (m_blocks m)(m_brk m \<mapsto> cap)" "m_brk m > 0"
      "live_range m1 (m_brk m) cap"
    using new wf by (auto simp: mem_new_def mem_wf_def live_range_def)
  have old: "cq_own q \<Longrightarrow> cq_end q < m_brk m \<and> cq_base q \<noteq> m_brk m"
    using wf owns unfolding mem_wf_def cq_owns_def by fastforce
  have "cq_owns q m1" using owns old m1 by (auto simp: cq_owns_def)
  then obtain q2 m2 where d: "cq_dealloc q m1 = Some (q2, m2)" "\<not> cq_own q2"
      "m_blocks m2 = (if cq_own q then (m_blocks m1)(cq_base q := None) else m_blocks m1)"
      "\<And>a. m_live m1 a \<Longrightarrow> (cq_own q \<Longrightarrow> a < cq_base q \<or> cq_end q \<le> a) \<Longrightarrow> m_live m2 a"
    using cq_dealloc_frees [of q m1] by blast
  have live: "live_range m2 (m_brk m) cap"
    using m1(3) old d(4) by (fastforce simp: live_range_def)
  let ?q = "q2\<lparr>cq_base := m_brk m, cq_put := m_brk m, cq_get := m_brk m,
              cq_end := m_brk m + cap, cq_own := True\<rparr>"
  have "cq_resize cap q m = Some (?q, m2)"
    using cap new d(1) by (simp add: cq_resize_def cq_set_def)
  moreover have "cq_inv ?q m2" using cap live by (simp add: cq_inv_def)
  moreover have "m_blocks m2 = (if cq_own q then (m_blocks m)(cq_base q := None) else m_blocks m)(m_brk m \<mapsto> cap)"
    using d(3) m1 old by (auto simp: fun_upd_twist)
  ultimately show ?thesis using m1 old by (auto simp: cq_items_def cq_room_def cq_owns_def)
qed

lemma cq_ctor_cap_fresh:
  assumes "mem_wf m" and "0 < cap" and "cap < 2147483648"
  shows "\<exists>q' m'. cq_ctor_cap cap q m = Some (q', m') \<and> cq_inv q' m' \<and> cq_items q' m' = [] \<and>
    cq_room q' = nat (cap - 1) \<and> cq_owns q' m' \<and> m_blocks m' = (m_blocks m)(m_brk m \<mapsto> cap)"
  using cq_resize_fresh [OF assms(1) _ assms(2,3), of "q\<lparr>cq_own := False\<rparr>"]
  by (auto simp: cq_ctor_cap_def cq_owns_def)

lemma cq_put1_owns: "cq_put1 v q m = Some (b, q', m') \<Longrightarrow> cq_owns q' m' = cq_owns q m"
  by (auto simp: cq_put1_def cq_owns_def wr_def split: if_splits)

lemma cq_getp_owns: "cq_getp q m = Some (r, q') \<Longrightarrow> cq_owns q' m = cq_owns q m"
  by (auto simp: cq_getp_def cq_owns_def rd_def split: if_splits)

lemma cq_run_owns:
  "run_ops cq_put_st cq_get_st ops s = Some (rs, s') \<Longrightarrow>
   cq_owns (fst s') (snd s') = cq_owns (fst s) (snd s) \<and> m_blocks (snd s') = m_blocks (snd s)
   \<and> cq_own (fst s') = cq_own (fst s) \<and> cq_base (fst s') = cq_base (fst s)"
proof (induction ops arbitrary: s rs)
  case Nil
  then show ?case by simp
next
  case (Cons x ops)
  show ?case
  proof (cases x)
    case (Put v)
    then obtain b q1 m1 rs' where p: "cq_put1 v (fst s) (snd s) = Some (b, q1, m1)"
        "run_ops cq_put_st cq_get_st ops (q1, m1) = Some (rs', s')"
      using Cons.prems by (auto simp: cq_put_st_def [of v s] cq_tryput_def bind_Some_iff)
    then show ?thesis using Cons.IH [OF p(2)] cq_put1_owns [OF p(1)]
      by (auto simp: cq_put1_def wr_def split: if_splits)
  next
    case Get
    then obtain r q1 rs' where p: "cq_getp (fst s) (snd s) = Some (r, q1)"
        "run_ops cq_put_st cq_get_st ops (q1, snd s) = Some (rs', s')"
      using Cons.prems by (auto simp: cq_get_st_def [of s] cq_tryget_def bind_Some_iff)
    then show ?thesis using Cons.IH [OF p(2)] cq_getp_owns [OF p(1)]
      by (auto simp: cq_getp_def rd_def split: if_splits)
  qed
qed

text \<open>
  Construct, use, destroy: every run of operations on a freshly constructed queue returns
  the results of the list queue, and the destructor then gives the heap back its blocks.
\<close>

lemma cq_lifetime:
  assumes wf: "mem_wf m" and cap: "0 < cap" "cap < 2147483648"
    and spec: "fifo_spec (nat (cap - 1)) ops [] = (rs, ys)"
  shows "\<exists>q1 m1 q2 m2 m3. cq_ctor_cap cap q m = Some (q1, m1) \<and>
    run_ops cq_put_st cq_get_st ops (q1, m1) = Some (rs, q2, m2) \<and> cq_items q2 m2 = ys \<and>
    cq_dtor q2 m2 = Some m3 \<and> m_blocks m3 = m_blocks m"
proof -
  obtain q1 m1 where c: "cq_ctor_cap cap q m = Some (q1, m1)" "cq_inv q1 m1" "cq_items q1 m1 = []"
      "cq_room q1 = nat (cap - 1)" "cq_owns q1 m1" "m_blocks m1 = (m_blocks m)(m_brk m \<mapsto> cap)"
    using cq_ctor_cap_fresh [OF wf cap] by blast
  obtain q2 m2 where r: "run_ops cq_put_st cq_get_st ops (q1, m1) = Some (rs, q2, m2)"
      "cq_items q2 m2 = ys"
    using cq.run_refines [of "(q1, m1)" ops rs ys] c spec by auto
  have base: "cq_base q1 = m_brk m" "cq_own q1"
    using c(1) cap by (auto simp: cq_ctor_cap_def cq_resize_def cq_set_def mem_new_def cq_dealloc_def)
  have fresh: "m_blocks m (m_brk m) = None"
    using wf unfolding mem_wf_def by (metis add.right_neutral add_less_same_cancel1 le_less_trans not_None_eq order_less_irrefl order_less_le_trans add_increasing2)
  have "cq_owns q2 m2" "m_blocks m2 = m_blocks m1" "cq_base q2 = m_brk m" "cq_own q2"
    using cq_run_owns [OF r(1)] c(5) base by simp_all
  then obtain m3 where "cq_dtor q2 m2 = Some m3" "m_blocks m3 = m_blocks m"
    using cq_dtor_frees [of q2 m2] c(6) fresh by (auto simp: fun_upd_idem)
  then show ?thesis using c(1) r by blast
qed

section \<open>Properties\<close>

text \<open>A queue of four cells at address 1, for the instances below.\<close>

definition cq_demo :: "int \<Rightarrow> int \<Rightarrow> cq" where
  "cq_demo p g = \<lparr>cq_base = 1, cq_put = p, cq_get = g, cq_end = 5, cq_own = False\<rparr>"

lemma cq_demo:
  "cq_inv (cq_demo 3 2) (arena v 20)" "cq_inv (cq_demo 2 4) (arena v 20)" "cq_inv (cq_demo 3 3) (arena v 20)"
  "cq_items (cq_demo 3 2) (arena v 20) = [v]" "cq_items (cq_demo 2 4) (arena v 20) = [v, v]"
  "cq_items (cq_demo 3 3) (arena v 20) = []" "cq_room (cq_demo p g) = 3"
  "cq_apart (cq_demo p g) 10 5"
  by (simp_all add: cq_demo_def cq_inv_def cq_items_def cq_room_def cq_apart_def cells_def)



text \<open>whatever the calls, the items put in and accepted come out in the order they went in,
  none lost and none duplicated: contents before plus accepted equals delivered plus contents after.\<close>

theorem cq_fifo_order:
  assumes "cq_inv q m"
  shows "\<exists>rs q' m'. run_ops cq_put_st cq_get_st ops (q, m) = Some (rs, q', m') \<and> cq_inv q' m' \<and>
    cq_items q m @ accepted ops rs = delivered rs @ cq_items q' m'"
  using cq.run_order [of "(q, m)" ops] assms by auto

theorem cq_fifo_order_witness:
  "\<exists>rs q' m'. run_ops cq_put_st cq_get_st [Put 5, Get] (cq_demo 2 4, arena (0::int) 20) = Some (rs, q', m') \<and>
    [0, 0] @ accepted [Put 5, Get] rs = delivered rs @ cq_items q' m'"
  using cq_fifo_order [OF cq_demo(2) [of "0::int"], of "[Put 5, Get]"] unfolding cq_demo(5) by blast

text \<open>the array \<open>put\<close> appends as many leading items of the array as there is room for,
  across the wrap of the block, and returns their number.\<close>

theorem cq_put_array:
  assumes "cq_inv q m" and "0 \<le> n" and "live_range m buf n" and "cq_apart q buf n"
  shows "\<exists>k q' m'. k = min n (int (cq_room q) - int (length (cq_items q m))) \<and>
    cq_putn buf n q m = Some (k, q', m') \<and> cq_inv q' m' \<and> cq_room q' = cq_room q \<and>
    cq_items q' m' = cq_items q m @ cells m buf k"
  using cq_putn_spec [OF assms] by blast

theorem cq_put_array_witness:
  "\<exists>q' m'. cq_putn 10 5 (cq_demo 3 2) (arena (7::int) 20) = Some (2, q', m') \<and> cq_items q' m' = [7, 7, 7]"
proof -
  have "live_range (arena (7::int) 20) 10 5" by simp
  from cq_put_array [OF cq_demo(1) _ this cq_demo(8)] show ?thesis
    by (auto simp: cq_demo(4,7) cells_def upt_rec)
qed

text \<open>the array \<open>get\<close> moves the oldest items, at most \<open>n\<close>, to the caller's array in
  order, leaves the others queued, and writes nothing outside that array.\<close>

theorem cq_get_array:
  assumes "cq_inv q m" and "0 \<le> n" and "live_range m buf n" and "cq_apart q buf n"
  shows "\<exists>k q' m'. k = min n (int (length (cq_items q m))) \<and>
    cq_getn buf n q m = Some (k, q', m') \<and> cq_inv q' m' \<and> cq_room q' = cq_room q \<and>
    cells m' buf k = take (nat k) (cq_items q m) \<and> cq_items q' m' = drop (nat k) (cq_items q m) \<and>
    (\<forall>a. a \<notin> {buf..<buf + n} \<longrightarrow> m_val m' a = m_val m a)"
  using cq_getn_spec [OF assms] by (metis atLeastLessThan_iff linorder_not_less)

theorem cq_get_array_witness:
  "\<exists>q' m'. cq_getn 10 5 (cq_demo 2 4) (arena (7::int) 20) = Some (2, q', m') \<and>
    cells m' 10 2 = [7, 7] \<and> cq_items q' m' = []"
proof -
  have "live_range (arena (7::int) 20) 10 5" by simp
  from cq_get_array [OF cq_demo(2) _ this cq_demo(8)] show ?thesis by (auto simp: cq_demo(5))
qed

text \<open>a queue constructed with a capacity, used in any way and destroyed returns the
  list queue's results and gives back to the heap exactly the block it took.\<close>

theorem cq_construct_use_destroy:
  assumes "mem_wf m" and "0 < cap" and "cap < 2147483648"
    and "fifo_spec (nat (cap - 1)) ops [] = (rs, ys)"
  shows "\<exists>q1 m1 q2 m2 m3. cq_ctor_cap cap q m = Some (q1, m1) \<and>
    run_ops cq_put_st cq_get_st ops (q1, m1) = Some (rs, q2, m2) \<and> cq_items q2 m2 = ys \<and>
    cq_dtor q2 m2 = Some m3 \<and> m_blocks m3 = m_blocks m"
  using cq_lifetime [OF assms] .

theorem cq_construct_use_destroy_witness:
  "\<exists>q1 m1 q2 m2 m3. cq_ctor_cap 2 (cq_demo 3 3) (arena (0::int) 30) = Some (q1, m1) \<and>
    run_ops cq_put_st cq_get_st [Put 4, Put 5, Get] (q1, m1)
      = Some ([PutRes True, PutRes False, GetRes (Some 4)], q2, m2) \<and> cq_items q2 m2 = [] \<and>
    cq_dtor q2 m2 = Some m3 \<and> m_blocks m3 = m_blocks (arena (0::int) 30)"
  by (rule cq_construct_use_destroy) simp_all

end
