(* ===== verification/StackColl.thy ===== *)
theory StackColl imports Cfx_Memory Cfx_Interfaces begin

text \<open>
  \<open>CtrlrFx/Stack.h\<close>: the LIFO collection. The top of the stack is the cell
  \<open>base_[sz_ - 1]\<close>; pushing and popping move \<open>sz_\<close>.
\<close>

record stk =
  sk_sz :: int
  sk_cap :: int
  sk_base :: int
  sk_own :: bool

definition sk_size :: "stk \<Rightarrow> int" where "sk_size s = sk_sz s"
definition sk_capacity :: "stk \<Rightarrow> int" where "sk_capacity s = sk_cap s"
definition sk_full :: "stk \<Rightarrow> bool" where "sk_full s \<longleftrightarrow> sk_sz s = sk_cap s"
definition sk_empty :: "stk \<Rightarrow> bool" where "sk_empty s \<longleftrightarrow> sk_sz s = 0"
definition sk_remaining :: "stk \<Rightarrow> int" where "sk_remaining s = u64 (sk_cap s - sk_sz s)"
definition sk_available :: "stk \<Rightarrow> int" where "sk_available s = sk_sz s"

section \<open>Lifetime\<close>

definition sk_ctor :: stk where
  "sk_ctor = \<lparr>sk_sz = 0, sk_cap = 0, sk_base = 0, sk_own = False\<rparr>"

definition sk_ctor_cap :: "int \<Rightarrow> 'a mem \<Rightarrow> stk \<times> 'a mem" where
  "sk_ctor_cap cap m =
     (let (p, m') = mem_new cap m
      in (\<lparr>sk_sz = 0, sk_cap = cap, sk_base = p, sk_own = True\<rparr>, m'))"

text \<open>The code initialises \<open>own_\<close> with \<open>false\<close>, whatever the caller passed.\<close>

definition sk_ctor_arr :: "int \<Rightarrow> int \<Rightarrow> bool \<Rightarrow> stk" where
  "sk_ctor_arr buf cap own = \<lparr>sk_sz = 0, sk_cap = cap, sk_base = buf, sk_own = False\<rparr>"

definition sk_dealloc :: "stk \<Rightarrow> 'a mem \<Rightarrow> (stk \<times> 'a mem) option" where
  "sk_dealloc s m =
     (if sk_own s then
        do { m' \<leftarrow> mem_delete (sk_base s) m; Some (s\<lparr>sk_base := 0, sk_own := False\<rparr>, m') }
      else Some (s, m))"

definition sk_dtor :: "stk \<Rightarrow> 'a mem \<Rightarrow> 'a mem option" where
  "sk_dtor s m = map_option snd (sk_dealloc s m)"

definition sk_set :: "int \<Rightarrow> int \<Rightarrow> bool \<Rightarrow> stk \<Rightarrow> 'a mem \<Rightarrow> (stk \<times> 'a mem) option" where
  "sk_set buf cap own s m =
     do { (s', m') \<leftarrow> sk_dealloc s m;
          Some (s'\<lparr>sk_sz := 0, sk_base := buf, sk_cap := cap, sk_own := own\<rparr>, m') }"

definition sk_resize :: "int \<Rightarrow> stk \<Rightarrow> 'a mem \<Rightarrow> (stk \<times> 'a mem) option" where
  "sk_resize cap s m = (let (p, m') = mem_new cap m in sk_set p cap True s m')"

section \<open>Transfers\<close>

definition sk_push1 :: "'a \<Rightarrow> stk \<Rightarrow> 'a mem \<Rightarrow> (bool \<times> stk \<times> 'a mem) option" where
  "sk_push1 v s m =
     (if sk_sz s = sk_cap s then Some (False, s, m)
      else do { m' \<leftarrow> wr m (sk_base s + sk_sz s) v; Some (True, s\<lparr>sk_sz := sk_sz s + 1\<rparr>, m') })"

text \<open>\<open>for (size_t i=0; i<n; i++) base_[sz_++] = buf[i];\<close> with \<open>k\<close> rounds left.\<close>

fun sk_push_loop :: "nat \<Rightarrow> int \<Rightarrow> int \<Rightarrow> stk \<Rightarrow> 'a mem \<Rightarrow> (stk \<times> 'a mem) option" where
  "sk_push_loop 0 buf i s m = Some (s, m)"
| "sk_push_loop (Suc k) buf i s m =
     do { v \<leftarrow> rd m (buf + i);
          m' \<leftarrow> wr m (sk_base s + sk_sz s) v;
          sk_push_loop k buf (i + 1) (s\<lparr>sk_sz := sk_sz s + 1\<rparr>) m' }"

definition sk_pushn :: "int \<Rightarrow> int \<Rightarrow> stk \<Rightarrow> 'a mem \<Rightarrow> (int \<times> stk \<times> 'a mem) option" where
  "sk_pushn buf n s m =
     (let n = min n (sk_remaining s)
      in do { (s', m') \<leftarrow> sk_push_loop (nat n) buf 0 s m; Some (n, s', m') })"

definition sk_pop1 :: "'a \<Rightarrow> stk \<Rightarrow> 'a mem \<Rightarrow> ('a \<times> stk) option" where
  "sk_pop1 zero s m =
     (if sk_sz s > 0 then
        do { v \<leftarrow> rd m (sk_base s + (sk_sz s - 1)); Some (v, s\<lparr>sk_sz := sk_sz s - 1\<rparr>) }
      else Some (zero, s))"

definition sk_popp :: "stk \<Rightarrow> 'a mem \<Rightarrow> ('a option \<times> stk) option" where
  "sk_popp s m =
     (if sk_sz s = 0 then Some (None, s)
      else do { v \<leftarrow> rd m (sk_base s + (sk_sz s - 1)); Some (Some v, s\<lparr>sk_sz := sk_sz s - 1\<rparr>) })"

text \<open>\<open>while (nx--) *buf-- = base_[--sz_];\<close>\<close>

fun sk_pop_loop :: "nat \<Rightarrow> int \<Rightarrow> stk \<Rightarrow> 'a mem \<Rightarrow> (stk \<times> 'a mem) option" where
  "sk_pop_loop 0 buf s m = Some (s, m)"
| "sk_pop_loop (Suc nx) buf s m =
     do { v \<leftarrow> rd m (sk_base s + (sk_sz s - 1));
          m' \<leftarrow> wr m buf v;
          sk_pop_loop nx (buf - 1) (s\<lparr>sk_sz := sk_sz s - 1\<rparr>) m' }"

definition sk_popn :: "int \<Rightarrow> int \<Rightarrow> stk \<Rightarrow> 'a mem \<Rightarrow> (int \<times> stk \<times> 'a mem) option" where
  "sk_popn buf n s m =
     (let n = min n (sk_available s)
      in do { (s', m') \<leftarrow> sk_pop_loop (nat n) (buf + n - 1) s m; Some (n, s', m') })"

section \<open>Invariant and abstraction\<close>

definition sk_inv :: "stk \<Rightarrow> 'a mem \<Rightarrow> bool" where
  "sk_inv s m \<longleftrightarrow> 0 \<le> sk_sz s \<and> sk_sz s \<le> sk_cap s \<and> sk_cap s < 2 ^ 64 \<and>
     live_range m (sk_base s) (sk_cap s)"

definition sk_items :: "stk \<Rightarrow> 'a mem \<Rightarrow> 'a list" where
  "sk_items s m = cells m (sk_base s) (sk_sz s)"

definition sk_apart :: "stk \<Rightarrow> int \<Rightarrow> int \<Rightarrow> bool" where
  "sk_apart s buf n \<longleftrightarrow> buf + n \<le> sk_base s \<or> sk_base s + sk_cap s \<le> buf"

lemma sk_len: "sk_inv s m \<Longrightarrow> length (sk_items s m) = nat (sk_sz s)"
  by (simp add: sk_items_def)

lemma sk_remaining_inv: "sk_inv s m \<Longrightarrow> sk_remaining s = sk_cap s - sk_sz s"
  by (simp add: sk_inv_def sk_remaining_def)

lemma sk_live: "sk_inv s m \<Longrightarrow> 0 \<le> i \<Longrightarrow> i < sk_cap s \<Longrightarrow> m_live m (sk_base s + i)"
  unfolding sk_inv_def by (rule live_range_nth) auto

lemma sk_push1_room:
  assumes "sk_inv s m" and "sk_sz s < sk_cap s"
  shows "\<exists>s' m'. sk_push1 v s m = Some (True, s', m') \<and> sk_inv s' m' \<and> sk_cap s' = sk_cap s \<and>
    sk_items s' m' = sk_items s m @ [v]"
  using assms sk_live [OF assms(1), of "sk_sz s"]
  by (simp add: sk_push1_def wr_live sk_inv_def sk_items_def cells_snoc cells_upd_other live_range_def)

lemma sk_popp_last:
  assumes inv: "sk_inv s m" and items: "sk_items s m = xs @ [x]"
  shows "\<exists>s'. sk_popp s m = Some (Some x, s') \<and> sk_inv s' m \<and> sk_cap s' = sk_cap s \<and>
    sk_items s' m = xs"
proof -
  have len: "sk_sz s = int (length xs) + 1"
    using sk_len [OF inv] items inv by (simp add: sk_inv_def)
  then have "cells m (sk_base s) (int (length xs) + 1) = xs @ [x]"
    using items by (simp add: sk_items_def)
  then have "cells m (sk_base s) (int (length xs)) = xs \<and> m_val m (sk_base s + int (length xs)) = x"
    by (subst (asm) cells_snoc) auto
  then show ?thesis using inv len sk_live [OF inv, of "int (length xs)"]
    by (auto simp: sk_popp_def rd_live sk_inv_def sk_items_def)
qed

definition sk_put_st :: "'a \<Rightarrow> stk \<times> 'a mem \<Rightarrow> (bool \<times> stk \<times> 'a mem) option" where
  "sk_put_st v s = sk_push1 v (fst s) (snd s)"

definition sk_get_st :: "stk \<times> 'a mem \<Rightarrow> ('a option \<times> stk \<times> 'a mem) option" where
  "sk_get_st s = map_option (\<lambda>(r, s'). (r, s', snd s)) (sk_popp (fst s) (snd s))"

interpretation sk: bounded_lifo sk_put_st sk_get_st
    "\<lambda>s. sk_items (fst s) (snd s)" "\<lambda>s. nat (sk_cap (fst s))" "\<lambda>s. sk_inv (fst s) (snd s)"
proof (unfold_locales, goal_cases)
  case (1 s)
  then show ?case by (simp add: sk_len) (simp add: sk_inv_def nat_mono)
next
  case (2 s v)
  then have "sk_sz (fst s) < sk_cap (fst s)" by (simp add: sk_len)
  then show ?case using sk_push1_room [of "fst s" "snd s" v] 2 by (fastforce simp: sk_put_st_def)
next
  case (3 s v)
  then have "sk_sz (fst s) = sk_cap (fst s)" by (auto simp: sk_len) (auto simp: sk_inv_def)
  then show ?case by (simp add: sk_put_st_def sk_push1_def)
next
  case (4 s)
  then have "sk_sz (fst s) = 0" by (auto simp: sk_items_def cells_def sk_inv_def)
  then show ?case by (simp add: sk_get_st_def sk_popp_def)
next
  case (5 s xs x)
  then show ?case using sk_popp_last [of "fst s" "snd s" xs x] by (force simp: sk_get_st_def)
qed

section \<open>Block transfers\<close>

lemma sk_push_loop_copy:
  "sk_push_loop k buf i s m =
   map_option (\<lambda>m'. (s\<lparr>sk_sz := sk_sz s + int k\<rparr>, m'))
     (copy_elem (sk_base s + sk_sz s) (buf + i) k m)"
proof (induction k arbitrary: i s m)
  case 0
  then show ?case by simp
next
  case (Suc k)
  show ?case
    by (cases "rd m (buf + i)"; simp; cases "wr m (sk_base s + sk_sz s) (the (rd m (buf + i)))")
      (simp_all add: Suc.IH algebra_simps)
qed

lemma sk_pushn_spec:
  assumes inv: "sk_inv s m" and n: "0 \<le> n" "live_range m buf n" and apart: "sk_apart s buf n"
  defines "k \<equiv> min n (sk_cap s - sk_sz s)"
  shows "sk_pushn buf n s m =
      Some (k, s\<lparr>sk_sz := sk_sz s + k\<rparr>, blit (sk_base s + sk_sz s) buf k m) \<and>
    sk_inv (s\<lparr>sk_sz := sk_sz s + k\<rparr>) (blit (sk_base s + sk_sz s) buf k m) \<and>
    sk_items (s\<lparr>sk_sz := sk_sz s + k\<rparr>) (blit (sk_base s + sk_sz s) buf k m)
      = sk_items s m @ cells m buf k"
proof -
  have kb: "0 \<le> k" "k \<le> n" "sk_sz s + k \<le> sk_cap s"
    using n inv by (auto simp: k_def sk_inv_def)
  have "copy_elem (sk_base s + sk_sz s) buf (nat k) m = Some (blit (sk_base s + sk_sz s) buf k m)"
    using copy_elem_blit [of m "sk_base s + sk_sz s" "nat k" buf] kb apart inv
      live_range_sub [OF n(2), of buf k] live_range_sub [of m "sk_base s" "sk_cap s" "sk_base s + sk_sz s" k]
    by (auto simp: sk_apart_def no_clobber_def sk_inv_def)
  moreover have "sk_items (s\<lparr>sk_sz := sk_sz s + k\<rparr>) (blit (sk_base s + sk_sz s) buf k m)
      = sk_items s m @ cells m buf k"
    using cells_append [of "sk_sz s" "sk_sz s + k" "blit (sk_base s + sk_sz s) buf k m" "sk_base s"]
      kb inv by (simp add: sk_items_def cells_blit_same cells_blit_other sk_inv_def)
  ultimately show ?thesis using inv kb
    by (simp add: sk_pushn_def sk_remaining_inv k_def [symmetric] sk_push_loop_copy)
      (simp add: sk_inv_def live_range_def)
qed

text \<open>The pop loop fills the caller's array from its last cell down.\<close>

lemma sk_pop_loop_blit:
  assumes "live_range m (sk_base s + sk_sz s - int k) (int k)" and "live_range m (buf - int k) (int k)"
    and "buf \<le> sk_base s + sk_sz s - int k \<or> sk_base s + sk_sz s \<le> buf - int k"
  shows "sk_pop_loop k (buf - 1) s m =
    Some (s\<lparr>sk_sz := sk_sz s - int k\<rparr>, blit (buf - int k) (sk_base s + sk_sz s - int k) (int k) m)"
  using assms
proof (induction k arbitrary: buf s m)
  case 0
  then show ?case by simp
next
  case (Suc k)
  let ?t = "sk_base s + sk_sz s"
  let ?s = "s\<lparr>sk_sz := sk_sz s - 1\<rparr>"
  let ?m = "m\<lparr>m_val := (m_val m)(buf - 1 := m_val m (?t - 1))\<rparr>"
  have live: "m_live m (?t - 1)" "m_live m (buf - 1)"
    using Suc.prems(1,2) by (auto intro: live_range_nth)
  have "sk_pop_loop (Suc k) (buf - 1) s m = sk_pop_loop k (buf - 1 - 1) ?s ?m"
    using live by (simp add: rd_live wr_live add_diff_eq)
  also have "\<dots> = Some (?s\<lparr>sk_sz := sk_sz ?s - int k\<rparr>,
      blit (buf - 1 - int k) (sk_base ?s + sk_sz ?s - int k) (int k) ?m)"
    using Suc.prems by (intro Suc.IH) (auto simp: live_range_def)
  also have "blit (buf - 1 - int k) (sk_base ?s + sk_sz ?s - int k) (int k) ?m
      = blit (buf - int (Suc k)) (?t - int (Suc k)) (int (Suc k)) m" (is "?l = ?r")
  proof -
    have "m_val ?l a = m_val ?r a" for a
      using Suc.prems(3) by (cases "a = buf - 1") (auto simp: blit_def algebra_simps)
    then have "m_val ?l = m_val ?r" by (rule ext)
    then show ?thesis by (simp add: blit_def)
  qed
  finally show ?case by (simp add: algebra_simps)
qed

lemma sk_popn_spec:
  assumes inv: "sk_inv s m" and n: "0 \<le> n" "live_range m buf n" and apart: "sk_apart s buf n"
  defines "k \<equiv> min n (sk_sz s)"
  shows "\<exists>m'. sk_popn buf n s m = Some (k, s\<lparr>sk_sz := sk_sz s - k\<rparr>, m') \<and>
    sk_inv (s\<lparr>sk_sz := sk_sz s - k\<rparr>) m' \<and>
    sk_items s m = sk_items (s\<lparr>sk_sz := sk_sz s - k\<rparr>) m' @ cells m' buf k \<and>
    (\<forall>a. a < buf \<or> buf + n \<le> a \<longrightarrow> m_val m' a = m_val m a)"
proof -
  have kb: "0 \<le> k" "k \<le> n" "k \<le> sk_sz s" using n inv by (auto simp: k_def sk_inv_def)
  let ?m = "blit buf (sk_base s + sk_sz s - k) k m"
  have "sk_pop_loop (nat k) (buf + k - 1) s m = Some (s\<lparr>sk_sz := sk_sz s - k\<rparr>, ?m)"
    using sk_pop_loop_blit [of m s "nat k" "buf + k"] kb apart inv
      live_range_sub [OF n(2), of buf k]
      live_range_sub [of m "sk_base s" "sk_cap s" "sk_base s + sk_sz s - k" k]
    by (auto simp: sk_apart_def sk_inv_def)
  moreover have "sk_items s m = sk_items (s\<lparr>sk_sz := sk_sz s - k\<rparr>) ?m @ cells ?m buf k"
  proof -
    have "sk_items (s\<lparr>sk_sz := sk_sz s - k\<rparr>) ?m = cells m (sk_base s) (sk_sz s - k)"
      using apart kb inv by (auto simp: sk_items_def cells_blit_other sk_apart_def sk_inv_def)
    then show ?thesis using kb cells_append [of "sk_sz s - k" "sk_sz s" m "sk_base s"]
      by (simp add: cells_blit_same sk_items_def add_diff_eq)
  qed
  moreover have "\<forall>a. a < buf \<or> buf + n \<le> a \<longrightarrow> m_val ?m a = m_val m a"
    using kb by (auto simp: blit_def)
  ultimately show ?thesis using inv kb
    by (simp add: sk_popn_def sk_available_def k_def [symmetric]) (auto simp: sk_inv_def live_range_def)
qed

text \<open>"When you push an array, then pop it, you get the same array back (in the same order)."\<close>

lemma sk_push_pop_array:
  assumes inv: "sk_inv s m" and n: "0 \<le> n" "n \<le> sk_cap s - sk_sz s"
    and src: "live_range m src n" "sk_apart s src n"
    and dst: "live_range m dst n" "sk_apart s dst n"
  shows "\<exists>s1 m1 s2 m2. sk_pushn src n s m = Some (n, s1, m1) \<and> sk_popn dst n s1 m1 = Some (n, s2, m2) \<and>
    cells m2 dst n = cells m src n \<and> sk_items s2 m2 = sk_items s m \<and> s2 = s"
proof -
  let ?s = "s\<lparr>sk_sz := sk_sz s + n\<rparr>" and ?m = "blit (sk_base s + sk_sz s) src n m"
  have p: "sk_pushn src n s m = Some (n, ?s, ?m)" "sk_inv ?s ?m"
      "sk_items ?s ?m = sk_items s m @ cells m src n"
    using sk_pushn_spec [OF inv n(1) src] n by (simp_all add: min_absorb1)
  have "min n (sk_sz ?s) = n" using inv by (simp add: sk_inv_def)
  then obtain m2 where q: "sk_popn dst n ?s ?m = Some (n, s, m2)"
      "sk_items ?s ?m = sk_items s m2 @ cells m2 dst n"
    using sk_popn_spec [OF p(2) n(1), of dst] dst by (auto simp: live_range_def sk_apart_def)
  then show ?thesis using p by simp
qed

section \<open>Ownership\<close>

definition sk_owns :: "stk \<Rightarrow> 'a mem \<Rightarrow> bool" where
  "sk_owns s m \<longleftrightarrow> (sk_own s \<longrightarrow> m_blocks m (sk_base s) = Some (sk_cap s) \<and> sk_base s \<noteq> 0)"

lemma sk_dtor_frees:
  "sk_owns s m \<Longrightarrow> \<exists>m'. sk_dtor s m = Some m' \<and>
     m_blocks m' = (if sk_own s then (m_blocks m)(sk_base s := None) else m_blocks m)"
  by (auto simp: sk_owns_def sk_dtor_def sk_dealloc_def mem_delete_def)

text \<open>The array constructor never takes ownership, so the array it was given leaks.\<close>

lemma sk_ctor_arr_leaks: "sk_dtor (sk_ctor_arr buf cap own) m = Some m"
  by (simp add: sk_ctor_arr_def sk_dtor_def sk_dealloc_def)

lemma sk_set_frees:
  "m_blocks m buf = Some n \<Longrightarrow> buf \<noteq> 0 \<Longrightarrow> \<not> sk_own s \<Longrightarrow>
   \<exists>s' m'. sk_set buf cap True s m = Some (s', m) \<and> sk_dtor s' m = Some m' \<and> m_blocks m' buf = None"
  by (simp add: sk_set_def sk_dealloc_def sk_dtor_def mem_delete_def)

section \<open>Properties\<close>

definition sk_demo :: stk where
  "sk_demo = \<lparr>sk_sz = 1, sk_cap = 4, sk_base = 1, sk_own = False\<rparr>"

lemma sk_demo:
  "sk_inv sk_demo (arena v 20)" "sk_items sk_demo (arena v 20) = [v]" "sk_cap sk_demo = 4"
  "sk_sz sk_demo = 1" "sk_apart sk_demo 6 3" "sk_apart sk_demo 10 3"
  by (simp_all add: sk_demo_def sk_inv_def sk_items_def sk_apart_def cells_def)

text \<open>any sequence of \<open>push\<close> and \<open>pop\<close> calls on a stack in a valid state returns what a
  list of at most \<open>capacity\<close> items returns when items are taken from its end.\<close>

theorem sk_refines_list_stack:
  assumes "sk_inv s m" and "lifo_spec (nat (sk_cap s)) ops (sk_items s m) = (rs, ys)"
  shows "\<exists>s' m'. run_ops sk_put_st sk_get_st ops (s, m) = Some (rs, s', m') \<and> sk_inv s' m' \<and>
    sk_items s' m' = ys"
  using sk.run_refines [of "(s, m)" ops rs ys] assms by auto

theorem sk_refines_list_stack_witness:
  "\<exists>s' m'. run_ops sk_put_st sk_get_st [Put 5, Put 6, Get, Put 7, Put 8, Put 9, Get] (sk_demo, arena (0::int) 20)
    = Some ([PutRes True, PutRes True, GetRes (Some 6), PutRes True, PutRes True, PutRes False,
             GetRes (Some 8)], s', m') \<and> sk_items s' m' = [0, 5, 7]"
  using sk_refines_list_stack [OF sk_demo(1), where ops = "[Put 5, Put 6, Get, Put 7, Put 8, Put 9, Get]"]
  by (fastforce simp: sk_demo(2,3))

text \<open>an array that is pushed and popped again comes back whole and in the same order, and
  the stack is left as it was.\<close>

theorem sk_array_roundtrip:
  assumes "sk_inv s m" and "0 \<le> n" and "n \<le> sk_cap s - sk_sz s"
    and "live_range m src n" and "sk_apart s src n" and "live_range m dst n" and "sk_apart s dst n"
  shows "\<exists>s1 m1 m2. sk_pushn src n s m = Some (n, s1, m1) \<and> sk_popn dst n s1 m1 = Some (n, s, m2) \<and>
    cells m2 dst n = cells m src n \<and> sk_items s m2 = sk_items s m"
  using sk_push_pop_array [OF assms] by blast

theorem sk_array_roundtrip_witness:
  "\<exists>s1 m1 m2. sk_pushn 6 3 sk_demo (arena (7::int) 20) = Some (3, s1, m1) \<and>
    sk_popn 10 3 s1 m1 = Some (3, sk_demo, m2) \<and> cells m2 10 3 = cells (arena 7 20) 6 3 \<and>
    sk_items sk_demo m2 = sk_items sk_demo (arena 7 20)"
  by (rule sk_array_roundtrip [OF sk_demo(1)]) (simp_all add: sk_demo)

text \<open>the constructor that is given an array ignores \<open>own\<close>: the destructor of the stack it
  makes frees nothing, while one that was given the same array by \<open>set\<close> frees it.\<close>

theorem sk_array_ctor_never_owns:
  assumes "m_blocks m buf = Some n" and "buf \<noteq> 0"
  shows "sk_dtor (sk_ctor_arr buf cap own) m = Some m \<and>
    (\<exists>s m'. sk_set buf cap True sk_ctor m = Some (s, m) \<and> sk_dtor s m = Some m' \<and> m_blocks m' buf = None)"
  using sk_ctor_arr_leaks [of buf cap own m] sk_set_frees [OF assms, of sk_ctor cap]
  by (auto simp: sk_ctor_def)

theorem sk_array_ctor_never_owns_witness:
  "sk_dtor (sk_ctor_arr 1 4 True) (snd (mem_new 4 (arena (0::int) 1))) = Some (snd (mem_new 4 (arena 0 1)))"
  by (rule sk_array_ctor_never_owns [THEN conjunct1, of _ 1 4]) (simp_all add: mem_new_def)

end
