(* ===== verification/UnitTests.thy ===== *)
theory UnitTests imports CircQueue StackColl Encoders begin

text \<open>
  \<open>src/UnitTests/data/\<close>: the CppUnit tests of the containers and of the codecs, as programs
  over the models of those classes. A test has a verdict: it passes, an assertion fails on a
  line of its file, or it does something undefined; \<open>Unfinished\<close> says that a loop has used up
  the rounds it was given. A failed assertion throws, so nothing after it runs. Characters are
  their codes. A test starts on any memory, with any values in the members a constructor
  does not set; the arrays of a test are local variables.
\<close>

datatype verdict = Passed | Failed nat | Undefined | Unfinished

text \<open>\<open>CPPUNIT_ASSERT\<close> on a line, and a call that may be undefined.\<close>

definition expect :: "nat \<Rightarrow> bool \<Rightarrow> verdict \<Rightarrow> verdict" where
  "expect line b rest = (if b then rest else Failed line)"

definition call :: "'r option \<Rightarrow> ('r \<Rightarrow> verdict) \<Rightarrow> verdict" where
  "call x rest = (case x of None \<Rightarrow> Undefined | Some r \<Rightarrow> rest r)"

text \<open>
  An array variable, without and with an initialiser. Unlike an array from \<open>new\<close> it cannot be
  deleted.
\<close>

definition local_var :: "int \<Rightarrow> 'a mem \<Rightarrow> int \<times> 'a mem" where
  "local_var n m = (let (p, m') = mem_new n m in (p, m'\<lparr>m_blocks := m_blocks m\<rparr>))"

definition local_arr :: "'a list \<Rightarrow> 'a mem \<Rightarrow> int \<times> 'a mem" where
  "local_arr xs m = (let (p, m') = local_var (int (length xs)) m in (p, put_at p xs m'))"

section \<open>CircQueueTest\<close>

definition cqt_constructors :: "cq \<Rightarrow> int mem \<Rightarrow> verdict" where
  "cqt_constructors u m =
     call (cq_ctor u m) (\<lambda>(eque, m).
     expect 43 (cq_size eque = 0) (
     expect 44 (cq_capacity eque = 0) (
     call (cq_ctor_cap 4 u m) (\<lambda>(dque, m).
     expect 48 (cq_size dque = 0) (
     expect 49 (cq_capacity dque = 4) (
     (let (arr5, m) = local_var 5 m in
     call (cq_ctor_arr arr5 5 False u m) (\<lambda>(cque, m).
     expect 54 (cq_size cque = 0) (
     expect 55 (cq_capacity cque = 5) (
     call (cq_dtor cque m) (\<lambda>m.
     call (cq_dtor dque m) (\<lambda>m.
     call (cq_dtor eque m) (\<lambda>m.
     Passed)))))))))))))"

definition cqt_resize :: "cq \<Rightarrow> int mem \<Rightarrow> verdict" where
  "cqt_resize u m =
     call (cq_ctor_cap 4 u m) (\<lambda>(que, m).
     call (cq_put1 9 que m) (\<lambda>(r, que, m).
     expect 62 (cq_size que = 1) (
     expect 63 (cq_capacity que = 4) (
     call (cq_resize 10 que m) (\<lambda>(que, m).
     expect 66 (cq_size que = 0) (
     expect 67 (cq_capacity que = 10) (
     call (cq_destroy que m) (\<lambda>(que, m).
     expect 70 (cq_size que = 0) (
     expect 71 (cq_capacity que = 0) (
     expect 72 (cq_empty que) (
     expect 73 (cq_full que) (
     call (cq_dtor que m) (\<lambda>m.
     Passed)))))))))))))"

definition cqt_size :: "cq \<Rightarrow> int mem \<Rightarrow> verdict" where
  "cqt_size u m =
     call (cq_ctor_cap 4 u m) (\<lambda>(que, m).
     expect 79 (cq_size que = 0) (
     expect 80 (cq_remaining que = 4) (
     expect 81 (cq_empty que) (
     expect 82 (\<not> cq_full que) (
     call (cq_put1 1 que m) (\<lambda>(r, que, m).
     expect 84 (r) (
     expect 85 (cq_size que = 1) (
     expect 86 (cq_remaining que = 3) (
     expect 87 (\<not> cq_empty que) (
     expect 88 (\<not> cq_full que) (
     call (cq_put1 2 que m) (\<lambda>(r, que, m).
     expect 90 (r) (
     expect 91 (cq_size que = 2) (
     expect 92 (cq_remaining que = 2) (
     call (cq_put1 3 que m) (\<lambda>(r, que, m).
     expect 94 (r) (
     expect 95 (cq_size que = 3) (
     expect 96 (cq_remaining que = 1) (
     call (cq_put1 4 que m) (\<lambda>(r, que, m).
     expect 98 (r) (
     expect 99 (cq_size que = 4) (
     expect 100 (cq_remaining que = 0) (
     expect 101 (cq_full que) (
     call (cq_put1 5 que m) (\<lambda>(r, que, m).
     expect 103 (\<not> r) (
     expect 104 (cq_size que = 4) (
     expect 105 (cq_remaining que = 0) (
     expect 106 (cq_full que) (
     call (cq_dtor que m) (\<lambda>m.
     Passed))))))))))))))))))))))))))))))"

definition cqt_putget :: "cq \<Rightarrow> int mem \<Rightarrow> verdict" where
  "cqt_putget u m =
     call (cq_ctor_cap 8 u m) (\<lambda>(que, m).
     call (cq_put1 97 que m) (\<lambda>(r, que, m).
     expect 112 (r) (
     call (cq_put1 98 que m) (\<lambda>(r, que, m).
     expect 113 (r) (
     call (cq_put1 99 que m) (\<lambda>(r, que, m).
     expect 114 (r) (
     call (cq_get1 0 que m) (\<lambda>(c, que).
     expect 116 (c = 97) (
     call (cq_get1 0 que m) (\<lambda>(c, que).
     expect 117 (c = 98) (
     call (cq_getp que m) (\<lambda>(c, que).
     expect 120 (c \<noteq> None) (
     expect 121 (c = Some 99) (
     call (cq_dtor que m) (\<lambda>m.
     Passed)))))))))))))))"

definition cqt_wrap :: "cq \<Rightarrow> int mem \<Rightarrow> verdict" where
  "cqt_wrap u m =
     call (cq_ctor_cap 4 u m) (\<lambda>(que, m).
     call (cq_put1 97 que m) (\<lambda>(r, que, m).
     call (cq_put1 98 que m) (\<lambda>(r, que, m).
     call (cq_get1 0 que m) (\<lambda>(c, que).
     call (cq_get1 0 que m) (\<lambda>(c, que).
     call (cq_put1 99 que m) (\<lambda>(r, que, m).
     call (cq_put1 100 que m) (\<lambda>(r, que, m).
     call (cq_put1 101 que m) (\<lambda>(r, que, m).
     expect 136 (cq_size que = 3) (
     call (cq_get1 0 que m) (\<lambda>(c, que).
     expect 137 (c = 99) (
     call (cq_get1 0 que m) (\<lambda>(c, que).
     expect 138 (c = 100) (
     call (cq_get1 0 que m) (\<lambda>(c, que).
     expect 139 (c = 101) (
     call (cq_dtor que m) (\<lambda>m.
     Passed))))))))))))))))"

definition cqt_arr :: "cq \<Rightarrow> int mem \<Rightarrow> verdict" where
  "cqt_arr u m =
     call (cq_ctor_cap (2 * 3 + 2) u m) (\<lambda>(que, m).
     (let (in_arr, m) = local_arr [5, 7, 9] m in
     (let (out_arr, m) = local_arr [0, 0, 0] m in
     call (cq_putn in_arr 3 que m) (\<lambda>(n, que, m).
     expect 151 (cq_size que = 3) (
     call (cq_get1 0 que m) (\<lambda>(c, que).
     expect 152 (c = 5) (
     call (cq_get1 0 que m) (\<lambda>(c, que).
     expect 153 (c = 7) (
     call (cq_get1 0 que m) (\<lambda>(c, que).
     expect 154 (c = 9) (
     call (cq_putn in_arr 3 que m) (\<lambda>(n, que, m).
     expect 157 (cq_size que = 3) (
     call (cq_getn out_arr 3 que m) (\<lambda>(n, que, m).
     expect 160 (cq_empty que) (
     call (rd m (out_arr + 0)) (\<lambda>x.
     expect 162 (x = 5) (
     call (rd m (out_arr + 1)) (\<lambda>x.
     expect 163 (x = 7) (
     call (rd m (out_arr + 2)) (\<lambda>x.
     expect 164 (x = 9) (
     call (cq_dtor que m) (\<lambda>m.
     Passed))))))))))))))))))))))"

definition cqt_arr_wrap :: "cq \<Rightarrow> int mem \<Rightarrow> verdict" where
  "cqt_arr_wrap u m =
     call (cq_ctor_cap 4 u m) (\<lambda>(que, m).
     call (cq_put1 97 que m) (\<lambda>(r, que, m).
     call (cq_put1 98 que m) (\<lambda>(r, que, m).
     call (cq_get1 0 que m) (\<lambda>(c, que).
     call (cq_get1 0 que m) (\<lambda>(c, que).
     (let (in_arr, m) = local_arr [99, 100, 101] m in
     (let (out_arr, m) = local_arr [32, 32, 32] m in
     call (cq_putn in_arr 3 que m) (\<lambda>(n, que, m).
     expect 181 (cq_size que = 3) (
     call (cq_get1 0 que m) (\<lambda>(c, que).
     expect 182 (c = 99) (
     call (cq_get1 0 que m) (\<lambda>(c, que).
     expect 183 (c = 100) (
     call (cq_get1 0 que m) (\<lambda>(c, que).
     expect 184 (c = 101) (
     call (cq_put1 102 que m) (\<lambda>(r, que, m).
     call (cq_get1 0 que m) (\<lambda>(c, que).
     call (cq_putn in_arr 3 que m) (\<lambda>(n, que, m).
     expect 190 (cq_size que = 3) (
     call (cq_getn out_arr 3 que m) (\<lambda>(n, que, m).
     expect 193 (cq_empty que) (
     call (rd m (out_arr + 0)) (\<lambda>x.
     expect 195 (x = 99) (
     call (rd m (out_arr + 1)) (\<lambda>x.
     expect 196 (x = 100) (
     call (rd m (out_arr + 2)) (\<lambda>x.
     expect 197 (x = 101) (
     call (cq_dtor que m) (\<lambda>m.
     Passed))))))))))))))))))))))))))))"

section \<open>StackTest\<close>

definition skt_constructors :: "int mem \<Rightarrow> verdict" where
  "skt_constructors m =
     (let est = sk_ctor in
     expect 41 (sk_size est = 0) (
     expect 42 (sk_capacity est = 0) (
     (let (dst, m) = sk_ctor_cap 4 m in
     expect 46 (sk_size dst = 0) (
     expect 47 (sk_capacity dst = 4) (
     (let (arr5, m) = local_var 5 m in
     (let cst = sk_ctor_arr arr5 5 False in
     expect 52 (sk_size cst = 0) (
     expect 53 (sk_capacity cst = 5) (
     call (sk_dtor cst m) (\<lambda>m.
     call (sk_dtor dst m) (\<lambda>m.
     call (sk_dtor est m) (\<lambda>m.
     Passed)))))))))))))"

definition skt_resize :: "int mem \<Rightarrow> verdict" where
  "skt_resize m =
     (let (st, m) = sk_ctor_cap 4 m in
     call (sk_push1 9 st m) (\<lambda>(r, st, m).
     expect 60 (sk_size st = 1) (
     expect 61 (sk_capacity st = 4) (
     call (sk_resize 10 st m) (\<lambda>(st, m).
     expect 64 (sk_size st = 0) (
     expect 65 (sk_capacity st = 10) (
     call (sk_dtor st m) (\<lambda>m.
     Passed))))))))"

definition skt_size :: "int mem \<Rightarrow> verdict" where
  "skt_size m =
     (let (st, m) = sk_ctor_cap 4 m in
     expect 79 (sk_size st = 0) (
     expect 80 (sk_remaining st = 4) (
     expect 81 (sk_empty st) (
     expect 82 (\<not> sk_full st) (
     call (sk_push1 1 st m) (\<lambda>(r, st, m).
     expect 84 (r) (
     expect 85 (sk_size st = 1) (
     expect 86 (sk_remaining st = 3) (
     expect 87 (\<not> sk_empty st) (
     expect 88 (\<not> sk_full st) (
     call (sk_push1 2 st m) (\<lambda>(r, st, m).
     expect 90 (r) (
     expect 91 (sk_size st = 2) (
     expect 92 (sk_remaining st = 2) (
     call (sk_push1 3 st m) (\<lambda>(r, st, m).
     expect 94 (r) (
     expect 95 (sk_size st = 3) (
     expect 96 (sk_remaining st = 1) (
     call (sk_push1 4 st m) (\<lambda>(r, st, m).
     expect 98 (r) (
     expect 99 (sk_size st = 4) (
     expect 100 (sk_remaining st = 0) (
     expect 101 (sk_full st) (
     call (sk_push1 5 st m) (\<lambda>(r, st, m).
     expect 103 (\<not> r) (
     expect 104 (sk_size st = 4) (
     expect 105 (sk_remaining st = 0) (
     expect 106 (sk_full st) (
     call (sk_dtor st m) (\<lambda>m.
     Passed))))))))))))))))))))))))))))))"

definition skt_pushpop :: "int mem \<Rightarrow> verdict" where
  "skt_pushpop m =
     (let (st, m) = sk_ctor_cap 8 m in
     call (sk_push1 97 st m) (\<lambda>(r, st, m).
     expect 112 (r) (
     call (sk_push1 98 st m) (\<lambda>(r, st, m).
     expect 113 (r) (
     call (sk_push1 99 st m) (\<lambda>(r, st, m).
     expect 114 (r) (
     call (sk_pop1 0 st m) (\<lambda>(c, st).
     expect 116 (c = 99) (
     call (sk_pop1 0 st m) (\<lambda>(c, st).
     expect 117 (c = 98) (
     call (sk_popp st m) (\<lambda>(c, st).
     expect 120 (c \<noteq> None) (
     expect 121 (c = Some 97) (
     call (sk_dtor st m) (\<lambda>m.
     Passed)))))))))))))))"

definition skt_arr :: "int mem \<Rightarrow> verdict" where
  "skt_arr m =
     (let (st, m) = sk_ctor_cap (2 * 3 + 2) m in
     (let (in_arr, m) = local_arr [5, 7, 9] m in
     (let (out_arr, m) = local_arr [0, 0, 0] m in
     call (sk_pushn in_arr 3 st m) (\<lambda>(n, st, m).
     expect 133 (sk_size st = 3) (
     call (sk_pop1 0 st m) (\<lambda>(c, st).
     expect 134 (c = 9) (
     call (sk_pop1 0 st m) (\<lambda>(c, st).
     expect 135 (c = 7) (
     call (sk_pop1 0 st m) (\<lambda>(c, st).
     expect 136 (c = 5) (
     call (sk_pushn in_arr 3 st m) (\<lambda>(n, st, m).
     expect 139 (sk_size st = 3) (
     call (sk_popn out_arr 3 st m) (\<lambda>(n, st, m).
     expect 142 (sk_empty st) (
     call (rd m (out_arr + 0)) (\<lambda>x.
     expect 144 (x = 5) (
     call (rd m (out_arr + 1)) (\<lambda>x.
     expect 145 (x = 7) (
     call (rd m (out_arr + 2)) (\<lambda>x.
     expect 146 (x = 9) (
     call (sk_dtor st m) (\<lambda>m.
     Passed))))))))))))))))))))))"

section \<open>BufferTest\<close>

definition bft_constructors :: "int mem \<Rightarrow> verdict" where
  "bft_constructors m =
     (let ebuf = bf_ctor in
     expect 39 (bf_position ebuf = 0) (
     expect 40 (bf_size ebuf = 0) (
     expect 41 (bf_capacity ebuf = 0) (
     (let (arr5, m) = local_var 5 m in
     (let cbuf = bf_ctor_arr arr5 5 False in
     expect 46 (bf_position cbuf = 0) (
     expect 47 (bf_size cbuf = 5) (
     expect 48 (bf_capacity cbuf = 5) (
     (let (arr10, m) = local_var 10 m in
     (let fbuf = bf_ctor_data arr10 4 10 False in
     expect 53 (bf_position fbuf = 4) (
     expect 54 (bf_available fbuf = 6) (
     expect 55 (bf_size fbuf = 10) (
     expect 56 (bf_capacity fbuf = 10) (
     call (bf_dtor fbuf m) (\<lambda>m.
     call (bf_dtor cbuf m) (\<lambda>m.
     call (bf_dtor ebuf m) (\<lambda>m.
     Passed))))))))))))))))))"

definition bft_resize :: "int mem \<Rightarrow> verdict" where
  "bft_resize m =
     (let (buf, m) = bf_ctor_cap 10 m in
     call (bf_put1 97 buf m) (\<lambda>(r, buf, m).
     expect 64 (bf_position buf = 1) (
     expect 65 (bf_capacity buf = 10) (
     call (bf_resize 20 buf m) (\<lambda>(buf, m).
     expect 68 (bf_position buf = 0) (
     expect 69 (bf_size buf = 20) (
     expect 70 (bf_capacity buf = 20) (
     call (bf_put1 97 buf m) (\<lambda>(r, buf, m).
     (let buf = bf_clear_size 10 buf in
     expect 74 (bf_position buf = 0) (
     expect 75 (bf_size buf = 10) (
     expect 76 (bf_capacity buf = 20) (
     call (bf_destroy buf m) (\<lambda>(buf, m).
     expect 79 (bf_position buf = 0) (
     expect 80 (bf_size buf = 0) (
     expect 81 (bf_capacity buf = 0) (
     call (bf_dtor buf m) (\<lambda>m.
     Passed))))))))))))))))))"

text \<open>The loops of \<open>test_putget\<close>, with the rounds they may take. \<open>char(...)\<close> narrows to 8 bits.\<close>

definition to_char :: "int \<Rightarrow> int" where
  "to_char x = (x + 128) mod 256 - 128"

fun bft_put_loop :: "nat \<Rightarrow> bf \<Rightarrow> int \<Rightarrow> int \<Rightarrow> int mem \<Rightarrow> (bf \<Rightarrow> int \<Rightarrow> int mem \<Rightarrow> verdict) \<Rightarrow> verdict" where
  "bft_put_loop 0 buf n ch m rest = Unfinished"
| "bft_put_loop (Suc k) buf n ch m rest =
     (if bf_full buf then rest buf n m
      else call (bf_put1 ch buf m) (\<lambda>(r, buf, m).
           let n = u64 (n + 1) in
           expect 97 (n = bf_position buf) (bft_put_loop k buf n (to_char (ch + 1)) m rest)))"

fun bft_getp_loop :: "nat \<Rightarrow> bf \<Rightarrow> int \<Rightarrow> int mem \<Rightarrow> (bf \<Rightarrow> verdict) \<Rightarrow> verdict" where
  "bft_getp_loop 0 buf n m rest = Unfinished"
| "bft_getp_loop (Suc k) buf n m rest =
     (if bf_empty buf then rest buf
      else call (bf_getp buf m) (\<lambda>(c, buf).
           expect 111 (c \<noteq> None) (
           expect 112 (c = Some (to_char (97 + n))) (bft_getp_loop k buf (u64 (n + 1)) m rest))))"

fun bft_get_loop :: "nat \<Rightarrow> bf \<Rightarrow> int \<Rightarrow> int mem \<Rightarrow> (bf \<Rightarrow> verdict) \<Rightarrow> verdict" where
  "bft_get_loop 0 buf n m rest = Unfinished"
| "bft_get_loop (Suc k) buf n m rest =
     (if bf_empty buf then rest buf
      else call (bf_get1 buf m) (\<lambda>(c, buf).
           expect 124 (c = to_char (97 + n)) (bft_get_loop k buf (u64 (n + 1)) m rest)))"

definition bft_putget :: "nat \<Rightarrow> int mem \<Rightarrow> verdict" where
  "bft_putget k m =
     (let (buf, m) = bf_ctor_cap 4 m in
     (let buf = bf_clear buf in
     expect 89 (bf_position buf = 0) (
     expect 90 (bf_capacity buf = bf_size buf) (
     bft_put_loop k buf 0 97 m (\<lambda>buf n m.
     expect 100 (bf_capacity buf = n) (
     expect 101 (bf_capacity buf = bf_position buf) (
     (let buf = bf_flip buf in
     expect 104 (bf_position buf = 0) (
     expect 105 (bf_capacity buf = bf_available buf) (
     bft_getp_loop k buf 0 m (\<lambda>buf.
     expect 115 (bf_available buf = 0) (
     (let buf = bf_rewind buf in
     expect 121 (bf_position buf = 0) (
     bft_get_loop k buf 0 m (\<lambda>buf.
     call (bf_dtor buf m) (\<lambda>m.
     Passed))))))))))))))))"

text \<open>The counted loops of \<open>test_arr\<close> and \<open>test_compact\<close>, with \<open>k\<close> rounds left.\<close>

fun bft_init_loop :: "nat \<Rightarrow> int \<Rightarrow> int \<Rightarrow> int \<Rightarrow> int mem \<Rightarrow> int mem option" where
  "bft_init_loop 0 i in_arr out_arr m = Some m"
| "bft_init_loop (Suc k) i in_arr out_arr m =
     do { m1 \<leftarrow> wr m (in_arr + i) ((i + 1) * 2);
          m2 \<leftarrow> wr m1 (out_arr + i) 0;
          bft_init_loop k (i + 1) in_arr out_arr m2 }"

fun bft_cmp_loop :: "nat \<Rightarrow> int \<Rightarrow> int \<Rightarrow> int mem \<Rightarrow> verdict \<Rightarrow> verdict" where
  "bft_cmp_loop 0 i out_arr m rest = rest"
| "bft_cmp_loop (Suc k) i out_arr m rest =
     call (rd m (out_arr + i)) (\<lambda>x. expect 152 (x = (i + 1) * 2) (bft_cmp_loop k (i + 1) out_arr m rest))"

fun bft_fill_loop :: "nat \<Rightarrow> int \<Rightarrow> bf \<Rightarrow> int mem \<Rightarrow> (bf \<times> int mem) option" where
  "bft_fill_loop 0 i buf m = Some (buf, m)"
| "bft_fill_loop (Suc k) i buf m =
     do { (r, buf, m) \<leftarrow> bf_put1 (i * 2) buf m; bft_fill_loop k (i + 1) buf m }"

definition bft_arr :: "int mem \<Rightarrow> verdict" where
  "bft_arr m =
     (let (buf, m) = bf_ctor_cap 3 m in
     (let (in_arr, m) = local_var 3 m in
     (let (out_arr, m) = local_var 3 m in
     call (bft_init_loop 3 0 in_arr out_arr m) (\<lambda>m.
     call (bf_putn in_arr 3 buf m) (\<lambda>(n, buf, m).
     expect 143 (bf_available buf = 0) (
     (let buf = bf_flip buf in
     expect 146 (3 = bf_available buf) (
     call (bf_getn out_arr 3 buf m) (\<lambda>(n, buf, m).
     expect 149 (bf_available buf = 0) (
     bft_cmp_loop 3 0 out_arr m (
     call (bf_dtor buf m) (\<lambda>m.
     Passed))))))))))))"

definition bft_compact :: "int mem \<Rightarrow> verdict" where
  "bft_compact m =
     (let (buf, m) = bf_ctor_cap 5 m in
     call (bft_fill_loop 5 1 buf m) (\<lambda>(buf, m).
     (let buf = bf_flip buf in
     call (bf_get1 buf m) (\<lambda>(c, buf).
     call (bf_get1 buf m) (\<lambda>(c, buf).
     expect 167 (bf_position buf = 2) (
     expect 168 (bf_available buf = 3) (
     call (bf_compact buf m) (\<lambda>(buf, m).
     expect 171 (bf_position buf = 0) (
     expect 172 (bf_available buf = 3) (
     call (bf_get1 buf m) (\<lambda>(c, buf).
     expect 174 (c = 6) (
     call (bf_get1 buf m) (\<lambda>(c, buf).
     expect 175 (c = 8) (
     call (bf_get1 buf m) (\<lambda>(c, buf).
     expect 176 (c = 10) (
     call (bf_dtor buf m) (\<lambda>m.
     Passed)))))))))))))))))"

section \<open>BufCodecTest\<close>

text \<open>
  The fixture's buffer is sized by \<open>setUp\<close>. An encoder refers to it, so the buffer is read
  back from the codec. \<open>4.0F\<close> and \<open>8.0\<close> are their IEEE 754 patterns.
\<close>

definition bct_setUp :: "byte mem \<Rightarrow> (bf \<times> byte mem) option" where
  "bct_setUp m = bf_resize 256 bf_ctor m"

definition bct_float :: int where "bct_float = 0x40800000"
definition bct_double :: int where "bct_double = 0x4020000000000000"

definition bct_put :: "bool \<Rightarrow> byte mem \<Rightarrow> verdict" where
  "bct_put le m =
     call (bct_setUp m) (\<lambda>(buf, m).
     (let enc = cd_ctor (bf_clear buf) in
     call (enc_put_byte le 1 enc m) (\<lambda>(r, enc, m).
     expect 53 (r = 1) (
     call (enc_put_int16 le 2 enc m) (\<lambda>(r, enc, m).
     expect 54 (r = 2) (
     call (enc_put_int32 le 4 enc m) (\<lambda>(r, enc, m).
     expect 55 (r = 4) (
     call (enc_put le 4 bct_float enc m) (\<lambda>(r, enc, m).
     expect 56 (r = 4) (
     call (enc_put le 8 bct_double enc m) (\<lambda>(r, enc, m).
     expect 57 (r = 8) (
     expect 60 (bf_position (cd_buf enc) = 24) (
     call (bf_dtor (cd_buf enc) m) (\<lambda>m.
     Passed))))))))))))))"

definition bct_putget :: "bool \<Rightarrow> byte mem \<Rightarrow> verdict" where
  "bct_putget le m =
     call (bct_setUp m) (\<lambda>(buf, m).
     (let enc = cd_ctor (bf_clear buf) in
     call (enc_put_byte le 1 enc m) (\<lambda>(r, enc, m).
     expect 72 (r = 1) (
     call (enc_put_int16 le 2 enc m) (\<lambda>(r, enc, m).
     expect 73 (r = 2) (
     call (enc_put_int32 le 4 enc m) (\<lambda>(r, enc, m).
     expect 74 (r = 4) (
     call (enc_put le 4 bct_float enc m) (\<lambda>(r, enc, m).
     expect 75 (r = 4) (
     call (enc_put le 8 bct_double enc m) (\<lambda>(r, enc, m).
     expect 76 (r = 8) (
     expect 79 (bf_position (cd_buf enc) = 24) (
     (let dec = cd_ctor (bf_flip (cd_buf enc)) in
     call (dec_get_byte le dec m) (\<lambda>(r, by, dec).
     expect 89 (r = 1) (
     call (dec_get_int16 le dec m) (\<lambda>(r, n16, dec).
     expect 90 (r = 2) (
     call (dec_get_int32 le dec m) (\<lambda>(r, n32, dec).
     expect 91 (r = 4) (
     call (dec_get le 4 dec m) (\<lambda>(r, f, dec).
     expect 92 (r = 4) (
     call (dec_get le 8 dec m) (\<lambda>(r, d, dec).
     expect 93 (r = 8) (
     expect 95 (by = Some 1) (
     expect 96 (n16 = Some 2) (
     expect 97 (n32 = Some 4) (
     expect 98 (f = Some bct_float) (
     expect 99 (d = Some bct_double) (
     call (bf_dtor (cd_buf dec) m) (\<lambda>m.
     Passed))))))))))))))))))))))))))))))"

text \<open>The loops of \<open>test_full\<close> and \<open>test_insert\<close>; the first is counted.\<close>

fun bct_put_loop :: "bool \<Rightarrow> nat \<Rightarrow> codec \<Rightarrow> byte mem \<Rightarrow> (codec \<Rightarrow> byte mem \<Rightarrow> verdict) \<Rightarrow> verdict" where
  "bct_put_loop le 0 enc m rest = rest enc m"
| "bct_put_loop le (Suc k) enc m rest =
     call (enc_put_int32 le 42 enc m) (\<lambda>(r, enc, m). expect 111 (r = 4) (bct_put_loop le k enc m rest))"

fun bct_get_loop :: "bool \<Rightarrow> nat \<Rightarrow> codec \<Rightarrow> int \<Rightarrow> byte mem \<Rightarrow> (codec \<Rightarrow> int \<Rightarrow> verdict) \<Rightarrow> verdict" where
  "bct_get_loop le 0 dec i m rest = Unfinished"
| "bct_get_loop le (Suc k) dec i m rest =
     call (dec_get_int32 le dec m) (\<lambda>(r, n32, dec).
     if r = 4 then expect 121 (n32 = Some 42) (bct_get_loop le k dec (u64 (i + 1)) m rest)
     else rest dec i)"

fun bct_insert_loop :: "bool \<Rightarrow> nat \<Rightarrow> codec \<Rightarrow> int \<Rightarrow> byte mem \<Rightarrow> (codec \<Rightarrow> int \<Rightarrow> byte mem \<Rightarrow> verdict) \<Rightarrow> verdict" where
  "bct_insert_loop le 0 enc i m rest = Unfinished"
| "bct_insert_loop le (Suc k) enc i m rest =
     call (enc_shl le 4 42 enc m) (\<lambda>(enc, m).
     if cd_good enc then bct_insert_loop le k enc (u64 (i + 1)) m rest
     else rest enc i m)"

definition bct_full :: "bool \<Rightarrow> nat \<Rightarrow> byte mem \<Rightarrow> verdict" where
  "bct_full le k m =
     call (bct_setUp m) (\<lambda>(buf, m).
     (let n = 256 div 4 in
     (let enc = cd_ctor (bf_clear buf) in
     bct_put_loop le (nat n) enc m (\<lambda>enc m.
     call (enc_put_int32 le 42 enc m) (\<lambda>(r, enc, m).
     expect 114 (r = 0) (
     (let dec = cd_ctor (bf_flip (cd_buf enc)) in
     bct_get_loop le k dec 0 m (\<lambda>dec i.
     expect 126 (n = i) (
     call (bf_dtor (cd_buf dec) m) (\<lambda>m.
     Passed))))))))))"

definition bct_insert :: "bool \<Rightarrow> nat \<Rightarrow> byte mem \<Rightarrow> verdict" where
  "bct_insert le k m =
     call (bct_setUp m) (\<lambda>(buf, m).
     (let n = 256 div 4 in
     (let enc = cd_ctor (bf_clear buf) in
     bct_insert_loop le k enc 0 m (\<lambda>enc i m.
     expect 143 (n = i) (
     (let dec = cd_ctor (bf_rewind (cd_buf enc)) in
     call (dec_get_int32 le dec m) (\<lambda>(r, n32, dec).
     expect 149 (cd_good dec) (
     expect 150 (n32 = Some 42) (
     call (bf_dtor (cd_buf dec) m) (\<lambda>m.
     Passed))))))))))"

section \<open>The programs\<close>

text \<open>
  A test program runs its tests and ends with 0 when CppUnit's \<open>runner.run()\<close>, the argument
  \<open>run\<close>, says that they went well. The memory a test finds is any memory, so all tests of a suite
  are given the same one.
\<close>

definition cqt_suite :: "cq \<Rightarrow> int mem \<Rightarrow> verdict list" where
  "cqt_suite u m = [cqt_constructors u m, cqt_resize u m, cqt_size u m, cqt_putget u m, cqt_wrap u m,
     cqt_arr u m, cqt_arr_wrap u m]"

definition skt_suite :: "int mem \<Rightarrow> verdict list" where
  "skt_suite m = [skt_constructors m, skt_resize m, skt_size m, skt_pushpop m, skt_arr m]"

definition bft_suite :: "nat \<Rightarrow> int mem \<Rightarrow> verdict list" where
  "bft_suite k m = [bft_constructors m, bft_resize m, bft_putget k m, bft_arr m, bft_compact m]"

text \<open>\<open>test_constructors\<close> and \<open>test_arr\<close> of the codecs are empty.\<close>

definition bct_suite :: "bool \<Rightarrow> nat \<Rightarrow> byte mem \<Rightarrow> verdict list" where
  "bct_suite le k m = [Passed, bct_put le m, bct_putget le m, bct_full le k m, Passed, bct_insert le k m]"

definition cqt_main :: "(verdict list \<Rightarrow> bool) \<Rightarrow> cq \<Rightarrow> int mem \<Rightarrow> int" where
  "cqt_main run u m = (if run (cqt_suite u m) then 0 else 1)"

definition skt_main :: "(verdict list \<Rightarrow> bool) \<Rightarrow> int mem \<Rightarrow> int" where
  "skt_main run m = (if run (skt_suite m) then 0 else 1)"

definition bft_main :: "(verdict list \<Rightarrow> bool) \<Rightarrow> nat \<Rightarrow> int mem \<Rightarrow> int" where
  "bft_main run k m = (if run (bft_suite k m) then 0 else 1)"

definition bct_main :: "(verdict list \<Rightarrow> bool) \<Rightarrow> bool \<Rightarrow> nat \<Rightarrow> byte mem \<Rightarrow> int" where
  "bct_main run le k m = (if run (bct_suite le k m) then 0 else 1)"

section \<open>Running the tests of the containers\<close>

text \<open>
  The tests are short programs on a symbolic memory; the simplifier runs them. The tests of
  the circular queue expect it to hold as many items as its capacity, and to be full when it has
  none; it holds one less, and is then not full.
\<close>

lemmas test_eval = expect_def call_def local_var_def local_arr_def mem_new_def mem_delete_def rd_def wr_def put_at_def Let_def

lemmas cq_eval = cq_ctor_def cq_destroy_def cq_dealloc_def cq_ctor_cap_def cq_resize_def cq_set_def
  cq_size_def cq_capacity_def cq_ctor_arr_def cq_dtor_def cq_put1_def cq_full_def cq_next_def cq_empty_def
  cq_remaining_def cq_get1_def cq_getp_def cq_putn_def cq_getn_def

lemmas sk_eval = sk_ctor_def sk_ctor_cap_def sk_ctor_arr_def sk_size_def sk_capacity_def sk_full_def
  sk_empty_def sk_remaining_def sk_available_def sk_dealloc_def sk_dtor_def sk_set_def sk_resize_def
  sk_push1_def sk_pushn_def sk_pop1_def sk_popp_def sk_popn_def

lemmas bf_eval = bf_ctor_def bf_ctor_arr_def bf_ctor_data_def bf_ctor_cap_def bf_position_def bf_size_def
  bf_capacity_def bf_available_def bf_full_def bf_empty_def bf_clear_def bf_clear_size_def bf_flip_def bf_rewind_def
  bf_dtor_def bf_dealloc_def bf_destroy_def bf_resize_def bf_alloc_def bf_put1_def bf_get1_def bf_getp_def bf_putn_def
  bf_getn_def bf_compact_def

lemma cqt_suite_result:
  "cqt_suite u m = [Passed, Failed 73, Failed 80, Passed, Passed, Passed, Passed]"
proof -
  have "cqt_constructors u m = Passed" "cqt_resize u m = Failed 73" "cqt_size u m = Failed 80"
    by (simp_all add: cqt_constructors_def cqt_resize_def cqt_size_def test_eval cq_eval)
  moreover have "cqt_putget u m = Passed" "cqt_wrap u m = Passed"
    by (simp_all add: cqt_putget_def cqt_wrap_def test_eval cq_eval)
  moreover have "cqt_arr u m = Passed" "cqt_arr_wrap u m = Passed"
    by (simp_all add: cqt_arr_def cqt_arr_wrap_def test_eval cq_eval eval_nat_numeral)
  ultimately show ?thesis by (simp add: cqt_suite_def)
qed

lemma skt_suite_result: "skt_suite m = replicate 5 Passed"
proof -
  have "skt_constructors m = Passed" "skt_resize m = Passed" "skt_size m = Passed" "skt_pushpop m = Passed"
    by (simp_all add: skt_constructors_def skt_resize_def skt_size_def skt_pushpop_def test_eval sk_eval)
  moreover have "skt_arr m = Passed"
    by (simp add: skt_arr_def test_eval sk_eval eval_nat_numeral)
  ultimately show ?thesis by (simp add: skt_suite_def eval_nat_numeral)
qed

lemma bft_putget_passes: "bft_putget (5 + k) m = Passed"
  by (simp add: bft_putget_def test_eval bf_eval eval_nat_numeral to_char_def)

lemma bft_suite_result: "4 < k \<Longrightarrow> bft_suite k m = replicate 5 Passed"
proof -
  assume "4 < k"
  then have "bft_putget k m = Passed" using bft_putget_passes [of "k - 5"] by simp
  moreover have "bft_constructors m = Passed" "bft_resize m = Passed"
    by (simp_all add: bft_constructors_def bft_resize_def test_eval bf_eval)
  moreover have "bft_arr m = Passed" "bft_compact m = Passed"
    by (simp_all add: bft_arr_def bft_compact_def test_eval bf_eval eval_nat_numeral)
  ultimately show ?thesis by (simp add: bft_suite_def eval_nat_numeral)
qed

section \<open>Running the tests of the codecs\<close>

lemma cells_put_at_n: "n = int (length xs) \<Longrightarrow> cells (put_at p xs m) p n = xs"
  by (simp add: cells_put_at)

lemma cells_put_at_k: "length xs = k \<Longrightarrow> cells (put_at p xs m) p (int k) = xs"
  using cells_put_at by fastforce

lemma cells_put_at_other: "q + n \<le> p \<or> p + int (length xs) \<le> q \<Longrightarrow> cells (put_at p xs m) q n = cells m q n"
  by (rule cells_cong) (auto simp: put_at_outside)

text \<open>What the fixture sets up, and a buffer whose first fields hold 42.\<close>

lemma bct_setUp_ok:
  "bct_setUp m = Some (\<lparr>bf_base = m_brk m, bf_pos = m_brk m, bf_lim = m_brk m + 256, bf_end = m_brk m + 256,
     bf_mark = m_brk m, bf_own = True\<rparr>, snd (mem_new 256 m))"
  by (simp add: bct_setUp_def bf_resize_def bf_dealloc_def bf_alloc_def bf_ctor_def mem_new_def)

definition bct_holds :: "bool \<Rightarrow> int \<Rightarrow> int \<Rightarrow> byte mem \<Rightarrow> bool" where
  "bct_holds le base n m \<longleftrightarrow> live_range m base 256 \<and> m_blocks m base = Some 256 \<and>
     (\<forall>i. 0 \<le> i \<longrightarrow> i < n \<longrightarrow> cells m (base + 4 * i) 4 = host_bytes le 4 42)"

definition bct_buf :: "int \<Rightarrow> int \<Rightarrow> int \<Rightarrow> bf" where
  "bct_buf base pos lim = \<lparr>bf_base = base, bf_pos = pos, bf_lim = lim,
     bf_end = base + 256, bf_mark = base, bf_own = True\<rparr>"

lemma field_off_4: "field_off 4 (4 * n) = 4 * n"
  by (simp add: field_off_def)

lemma bct_inv: "live_range m base 256 \<Longrightarrow> 0 \<le> n \<Longrightarrow> n \<le> 64 \<Longrightarrow> bf_inv (bct_buf base (base + 4 * n) (base + 256)) m"
  by (simp add: bf_inv_def bct_buf_def)

lemma bct_put_one:
  assumes h: "bct_holds le base n m" and n: "0 \<le> n" "n < 64"
  shows "\<exists>m'. enc_put le 4 42 \<lparr>cd_buf = bct_buf base (base + 4 * n) (base + 256), cd_good = True\<rparr> m =
      Some (4, \<lparr>cd_buf = bct_buf base (base + 4 * (n + 1)) (base + 256), cd_good = True\<rparr>, m') \<and>
    bct_holds le base (n + 1) m'"
proof -
  let ?b = "bct_buf base (base + 4 * n) (base + 256)"
  let ?m = "put_at (base + 4 * n) (host_bytes le 4 42) m"
  have "bf_inv ?b m" using h n by (simp add: bct_inv bct_holds_def)
  then have e: "enc_put le 4 42 \<lparr>cd_buf = ?b, cd_good = True\<rparr> m =
      Some (4, \<lparr>cd_buf = bct_buf base (base + 4 * (n + 1)) (base + 256), cd_good = True\<rparr>, ?m)"
    using enc_put_fits [of ?b m 4 le 42] n by (simp add: bct_buf_def field_off_4)
  have "cells ?m (base + 4 * i) 4 = host_bytes le 4 42" if "0 \<le> i" "i < n + 1" for i
  proof (cases "i = n")
    case True
    then show ?thesis using cells_put_at_k [of "host_bytes le 4 42" 4 "base + 4 * n" m] by simp
  next
    case False
    then show ?thesis using that h by (simp add: cells_put_at_other bct_holds_def)
  qed
  then have "bct_holds le base (n + 1) ?m" using h by (simp add: bct_holds_def)
  then show ?thesis using e by blast
qed

lemma bct_put_loop_ok:
  "bct_holds le base n m \<Longrightarrow> 0 \<le> n \<Longrightarrow> n + int k \<le> 64 \<Longrightarrow>
   \<exists>m'. (\<forall>rest. bct_put_loop le k \<lparr>cd_buf = bct_buf base (base + 4 * n) (base + 256), cd_good = True\<rparr> m rest =
       rest \<lparr>cd_buf = bct_buf base (base + 4 * (n + int k)) (base + 256), cd_good = True\<rparr> m') \<and>
     bct_holds le base (n + int k) m'"
proof (induction k arbitrary: n m)
  case (Suc k)
  obtain m1 where m1: "enc_put le 4 42 \<lparr>cd_buf = bct_buf base (base + 4 * n) (base + 256), cd_good = True\<rparr> m =
      Some (4, \<lparr>cd_buf = bct_buf base (base + 4 * (n + 1)) (base + 256), cd_good = True\<rparr>, m1)"
    "bct_holds le base (n + 1) m1"
    using bct_put_one [OF Suc.prems(1,2)] Suc.prems(3) by auto
  have nk: "n + 1 + int k = n + int (Suc k)" "n + 1 + int k \<le> 64" using Suc.prems(3) by simp_all
  have n1: "0 \<le> n + 1" using Suc.prems(2) by simp
  obtain m2 where "\<forall>rest. bct_put_loop le k \<lparr>cd_buf = bct_buf base (base + 4 * (n + 1)) (base + 256), cd_good = True\<rparr> m1 rest =
       rest \<lparr>cd_buf = bct_buf base (base + 4 * (n + int (Suc k))) (base + 256), cd_good = True\<rparr> m2"
     "bct_holds le base (n + int (Suc k)) m2"
    using Suc.IH [OF m1(2) n1 nk(2)] unfolding nk(1) by blast
  then show ?case using m1(1) by (intro exI [of _ m2]) (simp add: call_def expect_def enc_put_int32_def)
qed auto

text \<open>The buffer is full after 64 fields, and empty for the decoder after as many.\<close>

lemma bct_put_last:
  "enc_put le 4 42 \<lparr>cd_buf = bct_buf base (base + 256) (base + 256), cd_good = True\<rparr> m =
     Some (0, \<lparr>cd_buf = bct_buf base (base + 256) (base + 256), cd_good = False\<rparr>, m)"
  by (simp add: enc_put_def bct_buf_def bf_align_def bf_put_local_def c_mod_nonneg)

lemma bct_get_one:
  assumes h: "bct_holds le base 64 m" and n: "0 \<le> n" "n < 64"
  shows "dec_get_int32 le \<lparr>cd_buf = bct_buf base (base + 4 * n) (base + 256), cd_good = True\<rparr> m =
      Some (4, Some 42, \<lparr>cd_buf = bct_buf base (base + 4 * (n + 1)) (base + 256), cd_good = True\<rparr>)"
proof -
  let ?b = "bct_buf base (base + 4 * n) (base + 256)"
  have "bf_inv ?b m" using h n by (simp add: bct_inv bct_holds_def)
  moreover have "cells m (base + 4 * n) 4 = host_bytes le 4 42" using h n by (simp add: bct_holds_def)
  then have "host_val le (cells m (base + 4 * n) 4) = 42" by (simp add: native.of_to_b)
  ultimately show ?thesis using dec_get_fits [of ?b m 4 le] n
    by (simp add: bct_buf_def field_off_4 dec_get_int32_def signed_val_def)
qed

lemma bct_get_last:
  "dec_get_int32 le \<lparr>cd_buf = bct_buf base (base + 256) (base + 256), cd_good = True\<rparr> m =
     Some (0, None, \<lparr>cd_buf = bct_buf base (base + 256) (base + 256), cd_good = False\<rparr>)"
  by (simp add: dec_get_int32_def dec_get_def bct_buf_def bf_align_def bf_get_local_def c_mod_nonneg)

lemma bct_get_loop_ok:
  "bct_holds le base 64 m \<Longrightarrow> 0 \<le> n \<Longrightarrow> n \<le> 64 \<Longrightarrow> 64 < n + int k \<Longrightarrow>
   bct_get_loop le k \<lparr>cd_buf = bct_buf base (base + 4 * n) (base + 256), cd_good = True\<rparr> n m rest =
     rest \<lparr>cd_buf = bct_buf base (base + 256) (base + 256), cd_good = False\<rparr> 64"
proof (induction k arbitrary: n)
  case (Suc k)
  show ?case
  proof (cases "n = 64")
    case True
    then show ?thesis by (simp add: call_def bct_get_last)
  next
    case False
    then have "bct_get_loop le k \<lparr>cd_buf = bct_buf base (base + 4 * (n + 1)) (base + 256), cd_good = True\<rparr> (n + 1) m rest =
       rest \<lparr>cd_buf = bct_buf base (base + 256) (base + 256), cd_good = False\<rparr> 64"
      using Suc.IH [of "n + 1"] Suc.prems by auto
    then show ?thesis using bct_get_one [OF Suc.prems(1,2)] False Suc.prems(2,3)
      by (simp add: call_def expect_def)
  qed
qed simp

lemma bct_insert_loop_ok:
  "bct_holds le base n m \<Longrightarrow> 0 \<le> n \<Longrightarrow> n \<le> 64 \<Longrightarrow> 64 < n + int k \<Longrightarrow>
   \<exists>m'. (\<forall>rest. bct_insert_loop le k \<lparr>cd_buf = bct_buf base (base + 4 * n) (base + 256), cd_good = True\<rparr> n m rest =
       rest \<lparr>cd_buf = bct_buf base (base + 256) (base + 256), cd_good = False\<rparr> 64 m') \<and>
     bct_holds le base 64 m'"
proof (induction k arbitrary: n m)
  case (Suc k)
  show ?case
  proof (cases "n = 64")
    case True
    then show ?thesis using Suc.prems(1) by (intro exI [of _ m]) (simp add: call_def enc_shl_def bct_put_last)
  next
    case False
    then obtain m1 where m1: "enc_put le 4 42 \<lparr>cd_buf = bct_buf base (base + 4 * n) (base + 256), cd_good = True\<rparr> m =
        Some (4, \<lparr>cd_buf = bct_buf base (base + 4 * (n + 1)) (base + 256), cd_good = True\<rparr>, m1)"
      "bct_holds le base (n + 1) m1"
      using bct_put_one [OF Suc.prems(1,2)] Suc.prems(3) by auto
    obtain m2 where "\<forall>rest. bct_insert_loop le k \<lparr>cd_buf = bct_buf base (base + 4 * (n + 1)) (base + 256), cd_good = True\<rparr> (n + 1) m1 rest =
         rest \<lparr>cd_buf = bct_buf base (base + 256) (base + 256), cd_good = False\<rparr> 64 m2"
       "bct_holds le base 64 m2"
      using Suc.IH [OF m1(2)] Suc.prems False by auto
    then show ?thesis using m1(1) False Suc.prems(2,3)
      by (intro exI [of _ m2]) (simp add: call_def enc_shl_def)
  qed
qed simp

lemma bct_start:
  "cd_ctor (bf_clear \<lparr>bf_base = m_brk m, bf_pos = m_brk m, bf_lim = m_brk m + 256, bf_end = m_brk m + 256,
     bf_mark = m_brk m, bf_own = True\<rparr>) =
   \<lparr>cd_buf = bct_buf (m_brk m) (m_brk m + 4 * 0) (m_brk m + 256), cd_good = True\<rparr>"
  "bct_holds le (m_brk m) 0 (snd (mem_new 256 m))"
  by (simp_all add: cd_ctor_def bf_clear_def bct_buf_def bct_holds_def mem_new_def live_range_def)

lemma bct_again:
  "cd_ctor (bf_flip (bct_buf base (base + 256) (base + 256))) =
     \<lparr>cd_buf = bct_buf base (base + 4 * 0) (base + 256), cd_good = True\<rparr>"
  "cd_ctor (bf_rewind (bct_buf base (base + 256) (base + 256))) =
     \<lparr>cd_buf = bct_buf base (base + 4 * 0) (base + 256), cd_good = True\<rparr>"
  by (simp_all add: cd_ctor_def bf_flip_def bf_rewind_def bct_buf_def)

lemma bct_dtor: "m_blocks m base = Some 256 \<Longrightarrow> \<exists>m'. bf_dtor (bct_buf base pos lim) m = Some m'"
  by (simp add: bf_dtor_def bf_dealloc_def bct_buf_def mem_delete_def)

lemma bct_holds_block: "bct_holds le base n m \<Longrightarrow> m_blocks m base = Some 256"
  by (simp add: bct_holds_def)

lemma bct_full_passes: "64 < k \<Longrightarrow> bct_full le k m = Passed"
proof -
  assume k: "64 < k"
  let ?base = "m_brk m"
  obtain m' where m': "\<forall>rest. bct_put_loop le 64 \<lparr>cd_buf = bct_buf ?base (?base + 4 * 0) (?base + 256), cd_good = True\<rparr>
      (snd (mem_new 256 m)) rest = rest \<lparr>cd_buf = bct_buf ?base (?base + 256) (?base + 256), cd_good = True\<rparr> m'"
    and h: "bct_holds le ?base 64 m'"
    using bct_put_loop_ok [OF bct_start(2), of 64 le m] by auto
  obtain m'' where d: "bf_dtor (bct_buf ?base (?base + 256) (?base + 256)) m' = Some m''"
    using bct_dtor [OF bct_holds_block [OF h]] by blast
  have "nat (256 div 4) = 64" by simp
  then show ?thesis using k m' d bct_get_loop_ok [OF h, of 0 k]
    by (simp add: bct_full_def call_def expect_def bct_setUp_ok bct_start(1) enc_put_int32_def bct_put_last bct_again
        del: nat_numeral mult_zero_right)
qed

lemma bct_insert_passes: "64 < k \<Longrightarrow> bct_insert le k m = Passed"
proof -
  assume k: "64 < k"
  let ?base = "m_brk m"
  obtain m' where m': "\<forall>rest. bct_insert_loop le k \<lparr>cd_buf = bct_buf ?base (?base + 4 * 0) (?base + 256), cd_good = True\<rparr>
      0 (snd (mem_new 256 m)) rest = rest \<lparr>cd_buf = bct_buf ?base (?base + 256) (?base + 256), cd_good = False\<rparr> 64 m'"
    and h: "bct_holds le ?base 64 m'"
    using bct_insert_loop_ok [OF bct_start(2), of k le m] k by auto
  obtain m'' where d: "bf_dtor (bct_buf ?base (?base + 4 * (0 + 1)) (?base + 256)) m' = Some m''"
    using bct_dtor [OF bct_holds_block [OF h]] by blast
  show ?thesis using m' d bct_get_one [OF h, of 0]
    by (simp add: bct_insert_def call_def expect_def bct_setUp_ok bct_start(1) bct_again)
qed



text \<open>One field of any size, at an offset of the buffer.\<close>

lemma bct_enc:
  assumes "live_range m base 256" and "0 < k" and "0 \<le> off" and "field_off k off + int k \<le> 256"
  shows "enc_put le k v \<lparr>cd_buf = bct_buf base (base + off) (base + 256), cd_good = True\<rparr> m =
    Some (int k, \<lparr>cd_buf = bct_buf base (base + (field_off k off + int k)) (base + 256), cd_good = True\<rparr>,
      put_at (base + field_off k off) (host_bytes le k v) m)"
proof -
  have "off \<le> 256" using field_off_bounds [OF assms(2), of off] assms(4) by simp
  then have "bf_inv (bct_buf base (base + off) (base + 256)) m" using assms(1,3) by (simp add: bf_inv_def bct_buf_def)
  then show ?thesis using enc_put_fits [of "bct_buf base (base + off) (base + 256)" m k le v] assms
    by (simp add: bct_buf_def add.assoc)
qed

lemma bct_dec:
  assumes "live_range m base 256" and "0 < k" and "0 \<le> off" and "field_off k off + int k \<le> lim" and "lim \<le> 256"
    and "cells m (base + field_off k off) (int k) = host_bytes le k v"
  shows "dec_get le k \<lparr>cd_buf = bct_buf base (base + off) (base + lim), cd_good = True\<rparr> m =
    Some (int k, Some (v mod 256 ^ k), \<lparr>cd_buf = bct_buf base (base + (field_off k off + int k)) (base + lim), cd_good = True\<rparr>)"
proof -
  have "off \<le> lim" using field_off_bounds [OF assms(2), of off] assms(4) by simp
  then have "bf_inv (bct_buf base (base + off) (base + lim)) m" using assms(1,3,5)
    by (auto simp: bf_inv_def bct_buf_def)
  then show ?thesis using dec_get_fits [of "bct_buf base (base + off) (base + lim)" m k le] assms
    by (simp add: bct_buf_def add.assoc native.of_to_b)
qed

lemma bct_flip: "cd_ctor (bf_flip (bct_buf base (base + n) lim)) =
  \<lparr>cd_buf = bct_buf base (base + 0) (base + n), cd_good = True\<rparr>"
  by (simp add: cd_ctor_def bf_flip_def bct_buf_def)

lemma bct_pos: "bf_position (bct_buf base (base + n) lim) = u64 n"
  by (simp add: bf_position_def bct_buf_def)

lemma bct_offs:
  "field_off 1 0 = 0" "field_off 2 1 = 2" "field_off 4 4 = 4" "field_off 4 8 = 8" "field_off 8 12 = 16"
  "field_off (Suc 0) 0 = 0"
  by (simp_all add: field_off_def)

definition bct_image :: "bool \<Rightarrow> int \<Rightarrow> byte mem \<Rightarrow> byte mem" where
  "bct_image le base m =
     put_at (base + 16) (host_bytes le 8 bct_double) (put_at (base + 8) (host_bytes le 4 bct_float)
       (put_at (base + 4) (host_bytes le 4 4) (put_at (base + 2) (host_bytes le 2 2)
         (put_at (base + 0) (host_bytes le 1 1) m))))"

lemma bct_image_cells:
  "cells (bct_image le base m) base 1 = host_bytes le (Suc 0) 1"
  "cells (bct_image le base m) (base + 2) 2 = host_bytes le 2 2"
  "cells (bct_image le base m) (base + 4) 4 = host_bytes le 4 4"
  "cells (bct_image le base m) (base + 8) 4 = host_bytes le 4 bct_float"
  "cells (bct_image le base m) (base + 16) 8 = host_bytes le 8 bct_double"
  by (simp_all add: bct_image_def cells_put_at_other cells_put_at_n)

lemma bct_image_frame:
  "m_live (bct_image le base m) = m_live m" "m_blocks (bct_image le base m) = m_blocks m"
  "live_range (bct_image le base m) p n = live_range m p n"
  by (simp_all add: bct_image_def)

text \<open>The five puts of \<open>test_put\<close>, which \<open>test_putget\<close> repeats.\<close>

lemma bct_five_puts:
  fixes le :: bool and m :: "byte mem"
  assumes "live_range m base 256"
  defines "p1 \<equiv> put_at (base + 0) (host_bytes le 1 1) m"
  defines "p2 \<equiv> put_at (base + 2) (host_bytes le 2 2) p1"
  defines "p3 \<equiv> put_at (base + 4) (host_bytes le 4 4) p2"
  defines "p4 \<equiv> put_at (base + 8) (host_bytes le 4 bct_float) p3"
  defines "p5 \<equiv> put_at (base + 16) (host_bytes le 8 bct_double) p4"
  shows "enc_put le 1 1 \<lparr>cd_buf = bct_buf base (base + 4 * 0) (base + 256), cd_good = True\<rparr> m =
      Some (1, \<lparr>cd_buf = bct_buf base (base + 1) (base + 256), cd_good = True\<rparr>, p1)"
    "enc_put le 2 2 \<lparr>cd_buf = bct_buf base (base + 1) (base + 256), cd_good = True\<rparr> p1 =
      Some (2, \<lparr>cd_buf = bct_buf base (base + 4) (base + 256), cd_good = True\<rparr>, p2)"
    "enc_put le 4 4 \<lparr>cd_buf = bct_buf base (base + 4) (base + 256), cd_good = True\<rparr> p2 =
      Some (4, \<lparr>cd_buf = bct_buf base (base + 8) (base + 256), cd_good = True\<rparr>, p3)"
    "enc_put le 4 bct_float \<lparr>cd_buf = bct_buf base (base + 8) (base + 256), cd_good = True\<rparr> p3 =
      Some (4, \<lparr>cd_buf = bct_buf base (base + 12) (base + 256), cd_good = True\<rparr>, p4)"
    "enc_put le 8 bct_double \<lparr>cd_buf = bct_buf base (base + 12) (base + 256), cd_good = True\<rparr> p4 =
      Some (8, \<lparr>cd_buf = bct_buf base (base + 24) (base + 256), cd_good = True\<rparr>, bct_image le base m)"
proof -
  have lr: "live_range p1 base 256" "live_range p2 base 256" "live_range p3 base 256" "live_range p4 base 256"
    using assms(1) by (simp_all add: p1_def p2_def p3_def p4_def)
  have i: "bct_image le base m = p5"
    by (simp only: bct_image_def p1_def p2_def p3_def p4_def p5_def)
  show "enc_put le 1 1 \<lparr>cd_buf = bct_buf base (base + 4 * 0) (base + 256), cd_good = True\<rparr> m =
      Some (1, \<lparr>cd_buf = bct_buf base (base + 1) (base + 256), cd_good = True\<rparr>, p1)"
    using bct_enc [OF assms(1), of 1 0 le 1] by (simp add: bct_offs p1_def)
  show "enc_put le 2 2 \<lparr>cd_buf = bct_buf base (base + 1) (base + 256), cd_good = True\<rparr> p1 =
      Some (2, \<lparr>cd_buf = bct_buf base (base + 4) (base + 256), cd_good = True\<rparr>, p2)"
    using bct_enc [OF lr(1), of 2 1 le 2] by (simp add: bct_offs p2_def)
  show "enc_put le 4 4 \<lparr>cd_buf = bct_buf base (base + 4) (base + 256), cd_good = True\<rparr> p2 =
      Some (4, \<lparr>cd_buf = bct_buf base (base + 8) (base + 256), cd_good = True\<rparr>, p3)"
    using bct_enc [OF lr(2), of 4 4 le 4] by (simp add: bct_offs p3_def)
  show "enc_put le 4 bct_float \<lparr>cd_buf = bct_buf base (base + 8) (base + 256), cd_good = True\<rparr> p3 =
      Some (4, \<lparr>cd_buf = bct_buf base (base + 12) (base + 256), cd_good = True\<rparr>, p4)"
    using bct_enc [OF lr(3), of 4 8 le bct_float] by (simp add: bct_offs p4_def)
  show "enc_put le 8 bct_double \<lparr>cd_buf = bct_buf base (base + 12) (base + 256), cd_good = True\<rparr> p4 =
      Some (8, \<lparr>cd_buf = bct_buf base (base + 24) (base + 256), cd_good = True\<rparr>, bct_image le base m)"
    using bct_enc [OF lr(4), of 8 12 le bct_double] unfolding i by (simp add: bct_offs p5_def)
qed

lemmas bct_run = call_def expect_def bct_setUp_ok bct_start(1) Let_def option.case prod.case
  enc_put_byte_def enc_put_int16_def enc_put_int32_def if_True simp_thms codec.select_convs

lemma bct_put_passes: "bct_put le m = Passed"
proof -
  let ?m = "snd (mem_new 256 m)" and ?base = "m_brk m"
  have lr: "live_range ?m ?base 256" and b: "m_blocks (bct_image le ?base ?m) ?base = Some 256"
    using bct_start(2) [of le m] by (simp_all add: bct_holds_def bct_image_frame)
  obtain m' where d: "bf_dtor (bct_buf ?base (?base + 24) (?base + 256)) (bct_image le ?base ?m) = Some m'"
    using bct_dtor [OF b] by blast
  show ?thesis
    by (simp only: bct_put_def bct_run bct_five_puts [OF lr] bct_pos d) simp
qed

lemma bct_putget_passes: "bct_putget le m = Passed"
proof -
  let ?base = "m_brk m"
  let ?m = "snd (mem_new 256 m)"
  let ?i = "bct_image le ?base ?m"
  have lr: "live_range ?m ?base 256" "live_range ?i ?base 256" and b: "m_blocks ?i ?base = Some 256"
    using bct_start(2) [of le m] by (simp_all add: bct_holds_def bct_image_frame)
  have c: "cells ?i ?base 1 = host_bytes le (Suc 0) 1"
    "cells ?i (?base + 2) 2 = host_bytes le 2 2" "cells ?i (?base + 4) 4 = host_bytes le 4 4"
    "cells ?i (?base + 8) 4 = host_bytes le 4 bct_float" "cells ?i (?base + 16) 8 = host_bytes le 8 bct_double"
    by (rule bct_image_cells)+
  have g: "dec_get le (Suc 0) \<lparr>cd_buf = bct_buf ?base ?base (?base + 24), cd_good = True\<rparr> ?i =
      Some (1, Some 1, \<lparr>cd_buf = bct_buf ?base (?base + 1) (?base + 24), cd_good = True\<rparr>)"
    "dec_get le 2 \<lparr>cd_buf = bct_buf ?base (?base + 1) (?base + 24), cd_good = True\<rparr> ?i =
      Some (2, Some 2, \<lparr>cd_buf = bct_buf ?base (?base + 4) (?base + 24), cd_good = True\<rparr>)"
    "dec_get le 4 \<lparr>cd_buf = bct_buf ?base (?base + 4) (?base + 24), cd_good = True\<rparr> ?i =
      Some (4, Some 4, \<lparr>cd_buf = bct_buf ?base (?base + 8) (?base + 24), cd_good = True\<rparr>)"
    "dec_get le 4 \<lparr>cd_buf = bct_buf ?base (?base + 8) (?base + 24), cd_good = True\<rparr> ?i =
      Some (4, Some bct_float, \<lparr>cd_buf = bct_buf ?base (?base + 12) (?base + 24), cd_good = True\<rparr>)"
    "dec_get le 8 \<lparr>cd_buf = bct_buf ?base (?base + 12) (?base + 24), cd_good = True\<rparr> ?i =
      Some (8, Some bct_double, \<lparr>cd_buf = bct_buf ?base (?base + 24) (?base + 24), cd_good = True\<rparr>)"
    using bct_dec [of ?i ?base 1 0 24 le 1] bct_dec [of ?i ?base 2 1 24 le 2] bct_dec [of ?i ?base 4 4 24 le 4]
      bct_dec [of ?i ?base 4 8 24 le bct_float] bct_dec [of ?i ?base 8 12 24 le bct_double]
    by (simp_all add: lr(2) c bct_offs bct_float_def bct_double_def)
  obtain m' where "bf_dtor (bct_buf ?base (?base + 24) (?base + 24)) ?i = Some m'"
    using bct_dtor [OF b] by blast
  then show ?thesis
    by (simp only: bct_putget_def bct_run bct_five_puts [OF lr(1)] bct_pos bct_flip) (simp add: bct_run g dec_get_byte_def dec_get_int16_def dec_get_int32_def signed_val_def)
qed

lemma bct_suite_result: "64 < k \<Longrightarrow> bct_suite le k m = replicate 6 Passed"
  by (simp add: bct_suite_def bct_put_passes bct_putget_passes bct_full_passes bct_insert_passes eval_nat_numeral)

section \<open>The verdicts\<close>

text \<open>C0:
  The repository's tests, run on the models of the classes they test, whatever memory they start
  on and on a host of either byte order: all tests of the stack, of the buffer and of the codecs
  pass, and their loops end. Two tests of the circular queue fail, on lines 73 and 80 of the file,
  so that this program alone ends with 1, if CppUnit reports success when every test has passed.
\<close>

theorem unit_tests_report:
  assumes "\<And>vs. run vs = list_all (\<lambda>v. v = Passed) vs" and "4 < k" and "64 < j"
  shows "cqt_suite u m = [Passed, Failed 73, Failed 80, Passed, Passed, Passed, Passed] \<and>
    cqt_main run u m = 1 \<and> skt_main run m = 0 \<and> bft_main run k m = 0 \<and> bct_main run le j mb = 0"
  using assms
  by (simp add: cqt_suite_result cqt_main_def skt_main_def bft_main_def bct_main_def skt_suite_result
      bft_suite_result bct_suite_result list_all_iff)

theorem unit_tests_report_witness:
  "cqt_suite (cq_demo 3 2) (arena 7 20) = [Passed, Failed 73, Failed 80, Passed, Passed, Passed, Passed] \<and>
    cqt_main (list_all (\<lambda>v. v = Passed)) (cq_demo 3 2) (arena 7 20) = 1 \<and>
    skt_main (list_all (\<lambda>v. v = Passed)) (arena 7 20) = 0 \<and>
    bft_main (list_all (\<lambda>v. v = Passed)) 5 (arena 7 20) = 0 \<and>
    bct_main (list_all (\<lambda>v. v = Passed)) True 65 (arena 0 20) = 0"
  by (rule unit_tests_report) simp_all

end
