(* ===== verification/KeyArray.thy ===== *)
theory KeyArray imports Encoders begin

text \<open>
  \<open>CtrlrFx/Array.h\<close> and \<open>CtrlrFx/KeyArray.h\<close>: the fixed-size array and the array of key and
  value pairs with linear search. Both work on the shared memory; a cell of a \<open>KeyArray\<close>
  is a pair. \<open>e\<close> is \<open>EMPTY_SLOT\<close>, the default-constructed key.
\<close>

section \<open>Array\<close>

record ar =
  ar_base :: int
  ar_lim :: int
  ar_end :: int
  ar_own :: bool

definition ar_ctor :: ar where "ar_ctor = \<lparr>ar_base = 0, ar_lim = 0, ar_end = 0, ar_own = False\<rparr>"
definition ar_ctor_cap :: "int \<Rightarrow> 'a mem \<Rightarrow> ar \<times> 'a mem" where
  "ar_ctor_cap cap m =
     (let (p, m') = mem_new cap m in (\<lparr>ar_base = p, ar_lim = p + cap, ar_end = p + cap, ar_own = True\<rparr>, m'))"
definition ar_ctor_arr :: "int \<Rightarrow> int \<Rightarrow> bool \<Rightarrow> ar" where
  "ar_ctor_arr arr cap own = \<lparr>ar_base = arr, ar_lim = arr + cap, ar_end = arr + cap, ar_own = own\<rparr>"
definition ar_ctor_data :: "int \<Rightarrow> int \<Rightarrow> int \<Rightarrow> bool \<Rightarrow> ar" where
  "ar_ctor_data arr sz cap own = \<lparr>ar_base = arr, ar_lim = arr + sz, ar_end = arr + cap, ar_own = own\<rparr>"
definition ar_dtor :: "ar \<Rightarrow> 'a mem \<Rightarrow> 'a mem option" where
  "ar_dtor a m = (if ar_own a then mem_delete (ar_base a) m else Some m)"

definition ar_capacity :: "ar \<Rightarrow> int" where "ar_capacity a = u64 (ar_end a - ar_base a)"
definition ar_size :: "ar \<Rightarrow> int" where "ar_size a = u64 (ar_lim a - ar_base a)"
definition ar_set_size :: "int \<Rightarrow> ar \<Rightarrow> ar" where "ar_set_size sz a = a\<lparr>ar_lim := ar_base a + sz\<rparr>"
definition ar_data :: "ar \<Rightarrow> int" where "ar_data a = ar_base a"
definition ar_c_array :: "ar \<Rightarrow> int" where "ar_c_array a = ar_base a"
definition ar_get :: "ar \<Rightarrow> int \<Rightarrow> 'a mem \<Rightarrow> 'a option" where "ar_get a i m = rd m (ar_base a + i)"
definition ar_put :: "ar \<Rightarrow> int \<Rightarrow> 'a \<Rightarrow> 'a mem \<Rightarrow> 'a mem option" where "ar_put a i v m = wr m (ar_base a + i) v"

definition ar_deep_copy :: "ar \<Rightarrow> ar \<Rightarrow> 'a mem \<Rightarrow> (bool \<times> ar \<times> 'a mem) option" where
  "ar_deep_copy src a m =
     (if ar_size src > ar_capacity a then Some (False, a, m)
      else do { m' \<leftarrow> copy_elem (ar_base a) (ar_base src) (nat (ar_size src)) m;
                Some (True, a\<lparr>ar_lim := ar_base a + ar_size src\<rparr>, m') })"

text \<open>\<open>while (pos < lim_) *pos++ = v;\<close>\<close>

function ar_fill_loop :: "'a \<Rightarrow> int \<Rightarrow> int \<Rightarrow> 'a mem \<Rightarrow> 'a mem option" where
  "ar_fill_loop v pos lim m =
     (if pos < lim then do { m' \<leftarrow> wr m pos v; ar_fill_loop v (pos + 1) lim m' } else Some m)"
  by pat_completeness auto
termination by (relation "measure (\<lambda>(v, pos, lim, m). nat (lim - pos))") auto

declare ar_fill_loop.simps [simp del]

definition ar_fill :: "'a \<Rightarrow> ar \<Rightarrow> 'a mem \<Rightarrow> 'a mem option" where
  "ar_fill v a m = ar_fill_loop v (ar_base a) (ar_lim a) m"

text \<open>\<open>FixedArray\<close>: the array is a member, at \<open>arr\<close>.\<close>

definition fa_ctor :: "int \<Rightarrow> int \<Rightarrow> ar" where "fa_ctor arr N = ar_ctor_arr arr N False"
definition fa_ctor_copy :: "int \<Rightarrow> int \<Rightarrow> ar \<Rightarrow> 'a mem \<Rightarrow> (ar \<times> 'a mem) option" where
  "fa_ctor_copy arr N src m = do { (r, a, m') \<leftarrow> ar_deep_copy src (ar_ctor_arr arr N False) m; Some (a, m') }"
definition fa_op_assign :: "ar \<Rightarrow> ar \<Rightarrow> 'a mem \<Rightarrow> (ar \<times> 'a mem) option" where
  "fa_op_assign rhs a m = do { (r, a', m') \<leftarrow> ar_deep_copy rhs a m; Some (a', m') }"

section \<open>KeyArray\<close>

text \<open>\<open>arr_[i].key = key\<close> and \<open>arr_[i].val = val\<close>.\<close>

definition ka_set_key :: "ar \<Rightarrow> int \<Rightarrow> 'k \<Rightarrow> ('k \<times> 'v) mem \<Rightarrow> ('k \<times> 'v) mem option" where
  "ka_set_key a i key m = do { p \<leftarrow> ar_get a i m; ar_put a i (key, snd p) m }"
definition ka_set_val :: "ar \<Rightarrow> int \<Rightarrow> 'v \<Rightarrow> ('k \<times> 'v) mem \<Rightarrow> ('k \<times> 'v) mem option" where
  "ka_set_val a i val m = do { p \<leftarrow> ar_get a i m; ar_put a i (fst p, val) m }"

definition ka_size :: "ar \<Rightarrow> int" where "ka_size a = ar_size a"

text \<open>The loops over the slots, with \<open>k\<close> slots to go from \<open>i\<close>.\<close>

fun ka_clear_loop :: "'k \<Rightarrow> ar \<Rightarrow> nat \<Rightarrow> int \<Rightarrow> ('k \<times> 'v) mem \<Rightarrow> ('k \<times> 'v) mem option" where
  "ka_clear_loop e a 0 i m = Some m"
| "ka_clear_loop e a (Suc k) i m = do { m' \<leftarrow> ka_set_key a i e m; ka_clear_loop e a k (i + 1) m' }"

definition ka_clear :: "'k \<Rightarrow> ar \<Rightarrow> ('k \<times> 'v) mem \<Rightarrow> ('k \<times> 'v) mem option" where
  "ka_clear e a m = ka_clear_loop e a (nat (ar_size a)) 0 m"

definition ka_ctor_cap :: "'k \<Rightarrow> int \<Rightarrow> ('k \<times> 'v) mem \<Rightarrow> (ar \<times> ('k \<times> 'v) mem) option" where
  "ka_ctor_cap e cap m = (let (a, m1) = ar_ctor_cap cap m in do { m2 \<leftarrow> ka_clear e a m1; Some (a, m2) })"

definition ka_is_empty_at :: "'k \<Rightarrow> ar \<Rightarrow> int \<Rightarrow> ('k \<times> 'v) mem \<Rightarrow> bool option" where
  "ka_is_empty_at e a i m =
     (if i < 0 \<or> u64 i \<ge> ka_size a then Some False else do { p \<leftarrow> ar_get a i m; Some (fst p = e) })"

fun ka_find_loop :: "'k \<Rightarrow> ar \<Rightarrow> nat \<Rightarrow> int \<Rightarrow> ('k \<times> 'v) mem \<Rightarrow> int option" where
  "ka_find_loop key a 0 i m = Some (-1)"
| "ka_find_loop key a (Suc k) i m =
     do { p \<leftarrow> ar_get a i m; if fst p = key then Some (s32 i) else ka_find_loop key a k (i + 1) m }"

definition ka_find :: "'k \<Rightarrow> ar \<Rightarrow> ('k \<times> 'v) mem \<Rightarrow> int option" where
  "ka_find key a m = ka_find_loop key a (nat (ka_size a)) 0 m"

definition ka_put :: "'k \<Rightarrow> 'k \<Rightarrow> 'v \<Rightarrow> ar \<Rightarrow> ('k \<times> 'v) mem \<Rightarrow> (int \<times> ('k \<times> 'v) mem) option" where
  "ka_put e key val a m =
     do { i \<leftarrow> ka_find e a m;
          if 0 \<le> i then do { m1 \<leftarrow> ka_set_key a i key m; m2 \<leftarrow> ka_set_val a i val m1; Some (i, m2) }
          else Some (i, m) }"

text \<open>The value stored through \<open>val\<close> is \<open>None\<close> when nothing is stored. The index is only compared with 0.\<close>

definition ka_get_at :: "'k \<Rightarrow> int \<Rightarrow> ar \<Rightarrow> ('k \<times> 'v) mem \<Rightarrow> (bool \<times> 'v option \<times> ('k \<times> 'v) mem) option" where
  "ka_get_at e i a m =
     (if 0 \<le> i then do { p \<leftarrow> ar_get a i m; m' \<leftarrow> ka_set_key a i e m; Some (True, Some (snd p), m') }
      else Some (False, None, m))"

definition ka_get :: "'k \<Rightarrow> 'k \<Rightarrow> ar \<Rightarrow> ('k \<times> 'v) mem \<Rightarrow> (bool \<times> 'v option \<times> ('k \<times> 'v) mem) option" where
  "ka_get e key a m = do { i \<leftarrow> ka_find key a m; ka_get_at e i a m }"

definition ka_remove_at :: "'k \<Rightarrow> int \<Rightarrow> ar \<Rightarrow> ('k \<times> 'v) mem \<Rightarrow> (bool \<times> ('k \<times> 'v) mem) option" where
  "ka_remove_at e i a m =
     (if 0 \<le> i \<and> u64 i < ar_size a then do { m' \<leftarrow> ka_set_key a i e m; Some (True, m') } else Some (False, m))"

definition ka_remove :: "'k \<Rightarrow> 'k \<Rightarrow> ar \<Rightarrow> ('k \<times> 'v) mem \<Rightarrow> (bool \<times> ('k \<times> 'v) mem) option" where
  "ka_remove e key a m = do { i \<leftarrow> ka_find key a m; ka_remove_at e i a m }"

definition ka_val_at :: "ar \<Rightarrow> int \<Rightarrow> ('k \<times> 'v) mem \<Rightarrow> 'v option" where
  "ka_val_at a i m = map_option snd (ar_get a i m)"
definition ka_set_val_at :: "ar \<Rightarrow> int \<Rightarrow> 'v \<Rightarrow> ('k \<times> 'v) mem \<Rightarrow> ('k \<times> 'v) mem option" where
  "ka_set_val_at a i v m = ka_set_val a i v m"

section \<open>A bounded map as an interface\<close>

text \<open>What a store of at most \<open>cap\<close> keyed values promises: \<open>view\<close> is the map it holds. Keys are put
  only when they are absent.\<close>

datatype ('k, 'v) kop = KPut 'k 'v | KGet 'k | KRemove 'k
datatype 'v kres = KPlaced bool | KGot "'v option" | KRemoved bool

fun kspec :: "nat \<Rightarrow> ('k, 'v) kop list \<Rightarrow> ('k \<rightharpoonup> 'v) \<Rightarrow> 'v kres list" where
  "kspec cap [] m = []"
| "kspec cap (KPut k v # ops) m =
     (if card (dom m) < cap then KPlaced True # kspec cap ops (m(k \<mapsto> v)) else KPlaced False # kspec cap ops m)"
| "kspec cap (KGet k # ops) m = KGot (m k) # kspec cap ops (m(k := None))"
| "kspec cap (KRemove k # ops) m = KRemoved (m k \<noteq> None) # kspec cap ops (m(k := None))"

text \<open>The client's discipline: real keys only, and a key is put only when it is absent.\<close>

fun kclient_ok :: "('k \<Rightarrow> bool) \<Rightarrow> nat \<Rightarrow> ('k, 'v) kop list \<Rightarrow> ('k \<rightharpoonup> 'v) \<Rightarrow> bool" where
  "kclient_ok real cap [] m = True"
| "kclient_ok real cap (KPut k v # ops) m =
     (real k \<and> m k = None \<and> kclient_ok real cap ops (if card (dom m) < cap then m(k \<mapsto> v) else m))"
| "kclient_ok real cap (KGet k # ops) m = (real k \<and> kclient_ok real cap ops (m(k := None)))"
| "kclient_ok real cap (KRemove k # ops) m = (real k \<and> kclient_ok real cap ops (m(k := None)))"

fun kops_run ::
  "('k \<Rightarrow> 'v \<Rightarrow> 's \<Rightarrow> (int \<times> 's) option) \<Rightarrow> ('k \<Rightarrow> 's \<Rightarrow> (bool \<times> 'v option \<times> 's) option) \<Rightarrow> ('k \<Rightarrow> 's \<Rightarrow> (bool \<times> 's) option) \<Rightarrow>
   ('k, 'v) kop list \<Rightarrow> 's \<Rightarrow> ('v kres list \<times> 's) option" where
  "kops_run put get rem [] s = Some ([], s)"
| "kops_run put get rem (KPut k v # ops) s =
     do { (i, s1) \<leftarrow> put k v s; (rs, s2) \<leftarrow> kops_run put get rem ops s1; Some (KPlaced (0 \<le> i) # rs, s2) }"
| "kops_run put get rem (KGet k # ops) s =
     do { (r, v, s1) \<leftarrow> get k s; (rs, s2) \<leftarrow> kops_run put get rem ops s1; Some (KGot (if r then v else None) # rs, s2) }"
| "kops_run put get rem (KRemove k # ops) s =
     do { (r, s1) \<leftarrow> rem k s; (rs, s2) \<leftarrow> kops_run put get rem ops s1; Some (KRemoved r # rs, s2) }"

locale keyed_store =
  fixes put :: "'k \<Rightarrow> 'v \<Rightarrow> 's \<Rightarrow> (int \<times> 's) option"
    and get :: "'k \<Rightarrow> 's \<Rightarrow> (bool \<times> 'v option \<times> 's) option"
    and rem :: "'k \<Rightarrow> 's \<Rightarrow> (bool \<times> 's) option"
    and inv :: "'s \<Rightarrow> bool" and view :: "'s \<Rightarrow> 'k \<rightharpoonup> 'v" and real :: "'k \<Rightarrow> bool" and cap :: nat
  assumes put_law: "inv s \<Longrightarrow> real k \<Longrightarrow> view s k = None \<Longrightarrow>
      \<exists>i s'. put k v s = Some (i, s') \<and> inv s' \<and> (0 \<le> i \<longleftrightarrow> card (dom (view s)) < cap) \<and>
        view s' = (if card (dom (view s)) < cap then (view s)(k \<mapsto> v) else view s)"
    and get_law: "inv s \<Longrightarrow> real k \<Longrightarrow>
      \<exists>r v s'. get k s = Some (r, v, s') \<and> inv s' \<and> (r \<longleftrightarrow> view s k \<noteq> None) \<and> (r \<longrightarrow> v = view s k) \<and> view s' = (view s)(k := None)"
    and rem_law: "inv s \<Longrightarrow> real k \<Longrightarrow>
      \<exists>s'. rem k s = Some (view s k \<noteq> None, s') \<and> inv s' \<and> view s' = (view s)(k := None)"
begin

text \<open>A client that keeps to the discipline cannot tell the store from a map.\<close>

lemma refines_map:
  "inv s \<Longrightarrow> kclient_ok real cap ops (view s) \<Longrightarrow>
    \<exists>s'. kops_run put get rem ops s = Some (kspec cap ops (view s), s') \<and> inv s'"
proof (induction ops arbitrary: s)
  case (Cons x ops)
  show ?case
  proof (cases x)
    case (KPut k v)
    then have ok: "real k" "view s k = None" using Cons.prems(2) by simp_all
    obtain i s1 where p: "put k v s = Some (i, s1)" "inv s1" "0 \<le> i \<longleftrightarrow> card (dom (view s)) < cap"
        "view s1 = (if card (dom (view s)) < cap then (view s)(k \<mapsto> v) else view s)"
      using put_law [OF Cons.prems(1) ok, of v] by blast
    have "kclient_ok real cap ops (view s1)" using Cons.prems(2) KPut p(4) by simp
    from Cons.IH [OF p(2) this] obtain s2 where
      s2: "kops_run put get rem ops s1 = Some (kspec cap ops (view s1), s2)" "inv s2" by blast
    have "kspec cap (x # ops) (view s) = KPlaced (0 \<le> i) # kspec cap ops (view s1)"
      by (simp only: KPut p(3,4) kspec.simps split: if_splits) simp
    then show ?thesis using p(1) s2 by (simp add: KPut)
  next
    case (KGet k)
    then have ok: "real k" using Cons.prems(2) by simp
    obtain r v s1 where p: "get k s = Some (r, v, s1)" "inv s1" "r \<longleftrightarrow> view s k \<noteq> None" "r \<longrightarrow> v = view s k"
        "view s1 = (view s)(k := None)"
      using get_law [OF Cons.prems(1) ok] by blast
    have "kclient_ok real cap ops (view s1)" using Cons.prems(2) KGet p(5) by simp
    from Cons.IH [OF p(2) this] obtain s2 where
      s2: "kops_run put get rem ops s1 = Some (kspec cap ops (view s1), s2)" "inv s2" by blast
    have "(if r then v else None) = view s k" using p(3,4) by auto
    then have "kspec cap (x # ops) (view s) = KGot (if r then v else None) # kspec cap ops (view s1)"
      by (simp only: KGet p(5) kspec.simps)
    then show ?thesis using p(1) s2 by (simp add: KGet)
  next
    case (KRemove k)
    then have ok: "real k" using Cons.prems(2) by simp
    obtain s1 where p: "rem k s = Some (view s k \<noteq> None, s1)" "inv s1" "view s1 = (view s)(k := None)"
      using rem_law [OF Cons.prems(1) ok] by blast
    have "kclient_ok real cap ops (view s1)" using Cons.prems(2) KRemove p(3) by simp
    from Cons.IH [OF p(2) this] obtain s2 where
      s2: "kops_run put get rem ops s1 = Some (kspec cap ops (view s1), s2)" "inv s2" by blast
    have "kspec cap (x # ops) (view s) = KRemoved (view s k \<noteq> None) # kspec cap ops (view s1)"
      by (simp only: KRemove p(3) kspec.simps)
    then show ?thesis using p(1) s2 by (simp add: KRemove)
  qed
qed simp

end

section \<open>The array as a map\<close>

text \<open>The slots, the position of the first one with a given key, and the map they represent.\<close>

definition ka_slots :: "ar \<Rightarrow> ('k \<times> 'v) mem \<Rightarrow> ('k \<times> 'v) list" where
  "ka_slots a m = cells m (ar_base a) (ar_lim a - ar_base a)"

fun slot_of :: "'k \<Rightarrow> ('k \<times> 'v) list \<Rightarrow> nat option" where
  "slot_of key [] = None"
| "slot_of key (p # ps) = (if fst p = key then Some 0 else map_option Suc (slot_of key ps))"

definition slot_map :: "'k \<Rightarrow> ('k \<times> 'v) list \<Rightarrow> 'k \<rightharpoonup> 'v" where
  "slot_map e ps k = (if k = e then None else map_of ps k)"

definition slots_ok :: "'k \<Rightarrow> ('k \<times> 'v) list \<Rightarrow> bool" where
  "slots_ok e ps \<longleftrightarrow> distinct (filter (\<lambda>k. k \<noteq> e) (map fst ps))"

lemma slot_of_None: "slot_of key ps = None \<longleftrightarrow> key \<notin> fst ` set ps"
  by (induction ps) auto

lemma slot_of_Some: "slot_of key ps = Some i \<Longrightarrow> i < length ps \<and> fst (ps ! i) = key \<and> map_of ps key = Some (snd (ps ! i))"
  by (induction ps arbitrary: i) (auto split: if_splits)

lemma slot_of_map: "slot_of key ps = None \<longleftrightarrow> map_of ps key = None"
  by (simp add: slot_of_None map_of_eq_None_iff)

lemma map_of_fill:
  "slot_of e ps = Some i \<Longrightarrow> k \<noteq> e \<Longrightarrow> map_of ps k = None \<Longrightarrow> k' \<noteq> e \<Longrightarrow>
    map_of (ps[i := (k, v)]) k' = (if k' = k then Some v else map_of ps k')"
  by (induction ps arbitrary: i) (auto split: if_splits)

lemma map_of_clear:
  "slot_of k ps = Some i \<Longrightarrow> k \<noteq> e \<Longrightarrow> slots_ok e ps \<Longrightarrow> k' \<noteq> e \<Longrightarrow>
    map_of (ps[i := (e, w)]) k' = (if k' = k then None else map_of ps k')"
proof (induction ps arbitrary: i)
  case (Cons p ps)
  show ?case
  proof (cases "fst p = k")
    case True
    then have "k \<notin> fst ` set ps" using Cons.prems(2,3) by (auto simp: slots_ok_def)
    then have "map_of ps k = None" by (simp add: map_of_eq_None_iff)
    then show ?thesis using True Cons.prems(1,4) by (cases p) auto
  next
    case False
    then obtain j where j: "i = Suc j" "slot_of k ps = Some j" using Cons.prems(1) by auto
    have "slots_ok e ps" using Cons.prems(3) by (auto simp: slots_ok_def split: if_splits)
    then show ?thesis using Cons.IH [OF j(2) Cons.prems(2) _ Cons.prems(4)] j(1) False by (cases p) auto
  qed
qed simp

lemma slots_ok_fill:
  "slot_of e ps = Some i \<Longrightarrow> k \<noteq> e \<Longrightarrow> map_of ps k = None \<Longrightarrow> slots_ok e ps \<Longrightarrow>
    slots_ok e (ps[i := (k, v)]) \<and> fst ` set (ps[i := (k, v)]) \<subseteq> insert k (fst ` set ps)"
proof (induction ps arbitrary: i)
  case (Cons p ps)
  show ?case
  proof (cases "fst p = e")
    case True
    then have "k \<notin> fst ` set ps" using Cons.prems(2,3) by (cases p) (auto simp: map_of_eq_None_iff split: if_splits)
    then show ?thesis using True Cons.prems by (auto simp: slots_ok_def)
  next
    case False
    then obtain j where j: "i = Suc j" "slot_of e ps = Some j" using Cons.prems(1) by auto
    have prem: "map_of ps k = None" "slots_ok e ps" "fst p \<noteq> k" "fst p \<notin> fst ` set ps"
      using Cons.prems(3,4) False by (cases p; auto simp: slots_ok_def split: if_splits)+
    from Cons.IH [OF j(2) Cons.prems(2) prem(1,2)] show ?thesis
      using prem(3,4) False j(1) by (auto simp: slots_ok_def)
  qed
qed simp

lemma slots_ok_clear:
  "i < length ps \<Longrightarrow> slots_ok e ps \<Longrightarrow> slots_ok e (ps[i := (e, w)]) \<and> fst ` set (ps[i := (e, w)]) \<subseteq> insert e (fst ` set ps)"
proof (induction ps arbitrary: i)
  case (Cons p ps)
  show ?case
  proof (cases i)
    case 0
    then show ?thesis using Cons.prems by (auto simp: slots_ok_def split: if_splits)
  next
    case (Suc j)
    have prem: "slots_ok e ps" "fst p \<noteq> e \<Longrightarrow> fst p \<notin> fst ` set ps"
      using Cons.prems(2) by (auto simp: slots_ok_def split: if_splits)
    from Cons.IH [of j, OF _ prem(1)] show ?thesis
      using prem(2) Suc Cons.prems(1) by (auto simp: slots_ok_def)
  qed
qed simp

text \<open>The map is full exactly when no slot is empty.\<close>

lemma slot_map_dom: "dom (slot_map e ps) = set (filter (\<lambda>k. k \<noteq> e) (map fst ps))"
proof (rule set_eqI)
  fix x
  have "(\<exists>y. map_of ps x = Some y) \<longleftrightarrow> x \<in> fst ` set ps"
    using map_of_eq_None_iff [of ps x] by (cases "map_of ps x") simp_all
  then show "x \<in> dom (slot_map e ps) \<longleftrightarrow> x \<in> set (filter (\<lambda>k. k \<noteq> e) (map fst ps))"
    by (simp add: domIff slot_map_def conj_commute)
qed

lemma filter_shorter: "length (filter P xs) < length xs \<longleftrightarrow> (\<exists>x\<in>set xs. \<not> P x)"
  by (induction xs) (auto simp: less_Suc_eq_le)

lemma slot_map_full:
  assumes "slots_ok e ps"
  shows "slot_of e ps \<noteq> None \<longleftrightarrow> card (dom (slot_map e ps)) < length ps"
proof -
  have "card (dom (slot_map e ps)) = length (filter (\<lambda>k. k \<noteq> e) (map fst ps))"
    unfolding slot_map_dom using assms by (intro distinct_card) (simp add: slots_ok_def)
  moreover have "length (filter (\<lambda>k. k \<noteq> e) (map fst ps)) < length (map fst ps) \<longleftrightarrow> (\<exists>k\<in>set (map fst ps). \<not> k \<noteq> e)"
    by (rule filter_shorter)
  ultimately show ?thesis by (auto simp: slot_of_None)
qed

section \<open>What the operations do to the slots\<close>

text \<open>An array of \<open>N\<close> slots in live memory.\<close>

definition ka_inv :: "'k \<Rightarrow> nat \<Rightarrow> ar \<Rightarrow> ('k \<times> 'v) mem \<Rightarrow> bool" where
  "ka_inv e N a m \<longleftrightarrow> ar_lim a = ar_base a + int N \<and> int N < 2147483648 \<and>
     live_range m (ar_base a) (int N) \<and> slots_ok e (ka_slots a m)"

lemma ka_inv_size: "ka_inv e N a m \<Longrightarrow> ar_size a = int N"
  by (simp add: ka_inv_def ar_size_def)

lemma ka_slots_length: "ka_inv e N a m \<Longrightarrow> length (ka_slots a m) = N"
  by (simp add: ka_inv_def ka_slots_def)

lemma ka_slots_nth: "ka_inv e N a m \<Longrightarrow> i < N \<Longrightarrow> ar_get a (int i) m = Some (ka_slots a m ! i)"
  by (auto simp: ka_inv_def ka_slots_def ar_get_def nth_cells intro!: rd_live live_range_nth)

lemma ar_put_slots:
  assumes "ar_lim a = ar_base a + int N" "live_range m (ar_base a) (int N)" "i < N"
  shows "\<exists>m'. ar_put a (int i) p m = Some m' \<and> ka_slots a m' = (ka_slots a m)[i := p] \<and> m_live m' = m_live m"
proof -
  have "m_live m (ar_base a + int i)" using assms(2,3) by (auto intro: live_range_nth)
  then have w: "ar_put a (int i) p m = Some (m\<lparr>m_val := (m_val m)(ar_base a + int i := p)\<rparr>)"
    by (simp add: ar_put_def wr_live)
  have "ka_slots a (m\<lparr>m_val := (m_val m)(ar_base a + int i := p)\<rparr>) = (ka_slots a m)[i := p]"
    by (rule nth_equalityI) (use assms in \<open>auto simp: ka_slots_def nth_cells nth_list_update\<close>)
  then show ?thesis using w by simp
qed

lemma ka_find_slots:
  assumes inv: "ka_inv e N a m"
  shows "ka_find key a m = Some (case slot_of key (ka_slots a m) of None \<Rightarrow> -1 | Some i \<Rightarrow> int i)"
proof -
  have "ka_find_loop key a k (int j) m =
      Some (case slot_of key (drop j (ka_slots a m)) of None \<Rightarrow> -1 | Some i \<Rightarrow> int (j + i))" if "j + k = N" for j k
    using that
  proof (induction k arbitrary: j)
    case 0
    then show ?case using ka_slots_length [OF inv] by simp
  next
    case (Suc k)
    then have j: "j < N" by simp
    have "int j < 2147483648" using j inv by (simp add: ka_inv_def)
    then have s: "s32 (int j) = int j" by (intro s32_id) simp_all
    have "drop j (ka_slots a m) = ka_slots a m ! j # drop (Suc j) (ka_slots a m)"
      using j ka_slots_length [OF inv] by (simp add: Cons_nth_drop_Suc)
    moreover have "ka_find_loop key a k (int j + 1) m =
        Some (case slot_of key (drop (Suc j) (ka_slots a m)) of None \<Rightarrow> -1 | Some i \<Rightarrow> int (Suc j + i))"
      using Suc.IH [of "Suc j"] Suc.prems by (simp add: add.commute)
    ultimately show ?case using ka_slots_nth [OF inv j] s by (auto split: option.split)
  qed
  from this [of 0 N] show ?thesis using ka_inv_size [OF inv]
    by (cases "slot_of key (ka_slots a m)") (simp_all add: ka_find_def ka_size_def)
qed

lemma ka_set_key_slots:
  assumes "ka_inv e N a m" "i < N"
  shows "\<exists>m'. ka_set_key a (int i) k m = Some m' \<and> m_live m' = m_live m \<and>
    ka_slots a m' = (ka_slots a m)[i := (k, snd (ka_slots a m ! i))]"
  using ar_put_slots [of a N m i "(k, snd (ka_slots a m ! i))"] assms ka_slots_nth [OF assms]
  by (auto simp: ka_set_key_def ka_inv_def)

lemma ka_inv_upd:
  assumes "ka_inv e N a m" "m_live m' = m_live m" "slots_ok e (ka_slots a m')"
  shows "ka_inv e N a m'"
proof -
  have "live_range m' p n = live_range m p n" for p n by (rule live_range_cong [OF assms(2)])
  then show ?thesis using assms(1,3) by (simp add: ka_inv_def)
qed

lemma ka_put_law:
  assumes inv: "ka_inv e N a m" and k: "k \<noteq> e" "slot_map e (ka_slots a m) k = None"
  shows "\<exists>i m'. ka_put e k v a m = Some (i, m') \<and> ka_inv e N a m' \<and>
    (0 \<le> i \<longleftrightarrow> card (dom (slot_map e (ka_slots a m))) < N) \<and>
    slot_map e (ka_slots a m') =
      (if card (dom (slot_map e (ka_slots a m))) < N then (slot_map e (ka_slots a m))(k \<mapsto> v) else slot_map e (ka_slots a m))"
proof -
  let ?xs = "ka_slots a m"
  have len: "length ?xs = N" by (rule ka_slots_length [OF inv])
  have ok: "slots_ok e ?xs" using inv by (simp add: ka_inv_def)
  have full: "slot_of e ?xs \<noteq> None \<longleftrightarrow> card (dom (slot_map e ?xs)) < N" using slot_map_full [OF ok] len by simp
  have km: "map_of ?xs k = None" using k by (simp add: slot_map_def)
  show ?thesis
  proof (cases "slot_of e ?xs")
    case None
    then have "ka_put e k v a m = Some (-1, m)" using ka_find_slots [OF inv, of e] by (simp add: ka_put_def)
    then show ?thesis using full None inv by simp
  next
    case (Some i)
    then have i: "i < N" using slot_of_Some [of e ?xs] len by simp
    obtain m1 where m1: "ka_set_key a (int i) k m = Some m1" "m_live m1 = m_live m"
        "ka_slots a m1 = ?xs[i := (k, snd (?xs ! i))]"
      using ka_set_key_slots [OF inv i] by blast
    have l1: "ar_lim a = ar_base a + int N" "live_range m1 (ar_base a) (int N)"
      using inv live_range_cong [OF m1(2)] by (simp_all add: ka_inv_def)
    obtain m2 where m2: "ar_put a (int i) (k, v) m1 = Some m2" "ka_slots a m2 = (ka_slots a m1)[i := (k, v)]" "m_live m2 = m_live m1"
      using ar_put_slots [OF l1 i] by blast
    have "m_live m1 (ar_base a + int i)" using l1(2) i by (auto intro: live_range_nth)
    moreover have "ka_slots a m1 ! i = m_val m1 (ar_base a + int i)" using i l1(1) by (simp add: ka_slots_def nth_cells)
    ultimately have "ar_get a (int i) m1 = Some (ka_slots a m1 ! i)" by (simp add: ar_get_def rd_live)
    then have "ka_set_val a (int i) v m1 = Some m2" using m1(3) m2(1) i len by (simp add: ka_set_val_def)
    then have put: "ka_put e k v a m = Some (int i, m2)"
      using ka_find_slots [OF inv, of e] Some m1(1) by (simp add: ka_put_def)
    have xs2: "ka_slots a m2 = ?xs[i := (k, v)]" using m1(3) m2(2) by simp
    have "slots_ok e (ka_slots a m2)" unfolding xs2 using slots_ok_fill [OF Some k(1) km ok] by blast
    then have inv2: "ka_inv e N a m2" using m1(2) m2(3) by (intro ka_inv_upd [OF inv]) simp_all
    have "slot_map e (ka_slots a m2) = (slot_map e ?xs)(k \<mapsto> v)"
      by (rule ext) (use k(1) map_of_fill [OF Some k(1) km] in \<open>auto simp: slot_map_def xs2\<close>)
    then show ?thesis using put inv2 full Some by simp
  qed
qed

text \<open>Clearing the slot of a key removes the key from the map.\<close>

lemma ka_clear_slot:
  assumes inv: "ka_inv e N a m" and k: "k \<noteq> e" and i: "slot_of k (ka_slots a m) = Some i"
  shows "\<exists>m'. ka_set_key a (int i) e m = Some m' \<and> ka_inv e N a m' \<and>
    slot_map e (ka_slots a m') = (slot_map e (ka_slots a m))(k := None)"
proof -
  let ?xs = "ka_slots a m"
  have ok: "slots_ok e ?xs" using inv by (simp add: ka_inv_def)
  have lt: "i < N" using slot_of_Some [OF i] ka_slots_length [OF inv] by simp
  obtain m1 where m1: "ka_set_key a (int i) e m = Some m1" "m_live m1 = m_live m" "ka_slots a m1 = ?xs[i := (e, snd (?xs ! i))]"
    using ka_set_key_slots [OF inv lt] by blast
  have "slots_ok e (ka_slots a m1)" unfolding m1(3) using slots_ok_clear [OF _ ok, of i] lt ka_slots_length [OF inv] by blast
  then have "ka_inv e N a m1" by (rule ka_inv_upd [OF inv m1(2)])
  moreover have "slot_map e (ka_slots a m1) = (slot_map e ?xs)(k := None)"
    by (rule ext) (use map_of_clear [OF i k ok] in \<open>auto simp: slot_map_def m1(3)\<close>)
  ultimately show ?thesis using m1(1) by blast
qed

lemma ka_get_law:
  assumes inv: "ka_inv e N a m" and k: "k \<noteq> e"
  shows "\<exists>r v m'. ka_get e k a m = Some (r, v, m') \<and> ka_inv e N a m' \<and> (r \<longleftrightarrow> slot_map e (ka_slots a m) k \<noteq> None) \<and>
    (r \<longrightarrow> v = slot_map e (ka_slots a m) k) \<and> slot_map e (ka_slots a m') = (slot_map e (ka_slots a m))(k := None)"
proof (cases "slot_of k (ka_slots a m)")
  case None
  then have "slot_map e (ka_slots a m) k = None" by (simp add: slot_map_def slot_of_map)
  then show ?thesis using None inv ka_find_slots [OF inv, of k]
    by (auto simp: ka_get_def ka_get_at_def fun_upd_idem)
next
  case (Some i)
  obtain m1 where m1: "ka_set_key a (int i) e m = Some m1" "ka_inv e N a m1"
      "slot_map e (ka_slots a m1) = (slot_map e (ka_slots a m))(k := None)"
    using ka_clear_slot [OF inv k Some] by blast
  have v: "slot_map e (ka_slots a m) k = Some (snd (ka_slots a m ! i))" and "i < N"
    using slot_of_Some [OF Some] k ka_slots_length [OF inv] by (simp_all add: slot_map_def)
  then have "ka_get e k a m = Some (True, Some (snd (ka_slots a m ! i)), m1)"
    using Some ka_find_slots [OF inv, of k] ka_slots_nth [OF inv] m1(1) by (simp add: ka_get_def ka_get_at_def)
  then show ?thesis using m1(2,3) v by auto
qed

lemma ka_rem_law:
  assumes inv: "ka_inv e N a m" and k: "k \<noteq> e"
  shows "\<exists>m'. ka_remove e k a m = Some (slot_map e (ka_slots a m) k \<noteq> None, m') \<and> ka_inv e N a m' \<and>
    slot_map e (ka_slots a m') = (slot_map e (ka_slots a m))(k := None)"
proof (cases "slot_of k (ka_slots a m)")
  case None
  then have "slot_map e (ka_slots a m) k = None" by (simp add: slot_map_def slot_of_map)
  then show ?thesis using None inv ka_find_slots [OF inv, of k]
    by (simp add: ka_remove_def ka_remove_at_def fun_upd_idem)
next
  case (Some i)
  obtain m1 where m1: "ka_set_key a (int i) e m = Some m1" "ka_inv e N a m1"
      "slot_map e (ka_slots a m1) = (slot_map e (ka_slots a m))(k := None)"
    using ka_clear_slot [OF inv k Some] by blast
  have i: "slot_map e (ka_slots a m) k \<noteq> None" "i < N"
    using slot_of_Some [OF Some] k ka_slots_length [OF inv] by (simp_all add: slot_map_def)
  then have "int i < 18446744073709551616" using inv by (simp add: ka_inv_def)
  then have "u64 (int i) < ar_size a" using i(2) ka_inv_size [OF inv] by simp
  then have "ka_remove e k a m = Some (True, m1)"
    using Some ka_find_slots [OF inv, of k] m1(1) by (simp add: ka_remove_def ka_remove_at_def)
  then show ?thesis using m1(2,3) i(1) by simp
qed

text \<open>After \<open>clear\<close>, which every constructor ends with, the map is empty.\<close>

lemma ka_clear_ok:
  assumes "ar_lim a = ar_base a + int N" "int N < 2147483648" "live_range m (ar_base a) (int N)"
  shows "\<exists>m'. ka_clear e a m = Some m' \<and> ka_inv e N a m' \<and> slot_map e (ka_slots a m') = Map.empty"
proof -
  have "\<exists>m'. ka_clear_loop e a k (int j) m = Some m' \<and> m_live m' = m_live m \<and>
      ka_slots a m' = take j (ka_slots a m) @ map (\<lambda>p. (e, snd p)) (drop j (ka_slots a m))"
    if "j + k = N" "live_range m (ar_base a) (int N)" for j k and m :: "('a \<times> 'b) mem"
    using that
  proof (induction k arbitrary: j m)
    case 0
    then have "length (ka_slots a m) = j" using assms(1) by (simp add: ka_slots_def)
    then show ?case by simp
  next
    case (Suc k)
    then have j: "j < N" by simp
    let ?xs = "ka_slots a m"
    have len: "length ?xs = N" using assms(1) by (simp add: ka_slots_def)
    have "m_live m (ar_base a + int j)" using Suc.prems(2) j by (auto intro: live_range_nth)
    then have g: "ar_get a (int j) m = Some (?xs ! j)"
      using j assms(1) by (simp add: ar_get_def rd_live ka_slots_def nth_cells)
    obtain m1 where m1: "ar_put a (int j) (e, snd (?xs ! j)) m = Some m1" "ka_slots a m1 = ?xs[j := (e, snd (?xs ! j))]"
        "m_live m1 = m_live m"
      using ar_put_slots [OF assms(1) Suc.prems(2) j] by blast
    have "live_range m1 (ar_base a) (int N)" using Suc.prems(2) live_range_cong [OF m1(3)] by simp
    then obtain m2 where m2: "ka_clear_loop e a k (int (Suc j)) m1 = Some m2" "m_live m2 = m_live m1"
        "ka_slots a m2 = take (Suc j) (ka_slots a m1) @ map (\<lambda>p. (e, snd p)) (drop (Suc j) (ka_slots a m1))"
      using Suc.IH [of "Suc j" m1] Suc.prems(1) by auto
    have "drop j ?xs = ?xs ! j # drop (Suc j) ?xs" using j len by (simp add: Cons_nth_drop_Suc)
    then have "ka_slots a m2 = take j ?xs @ map (\<lambda>p. (e, snd p)) (drop j ?xs)"
      using m2(3) m1(2) j len by (simp add: take_Suc_conv_app_nth)
    moreover have "ka_clear_loop e a (Suc k) (int j) m = Some m2"
      using g m1(1) m2(1) by (simp add: ka_set_key_def add.commute)
    ultimately show ?case using m2(2) m1(3) by auto
  qed
  from this [of 0 N m] assms(3) obtain m' where m': "ka_clear_loop e a N 0 m = Some m'" "m_live m' = m_live m"
      "ka_slots a m' = map (\<lambda>p. (e, snd p)) (ka_slots a m)" by auto
  have sz: "ar_size a = int N" using assms(1,2) by (simp add: ar_size_def)
  have "filter (\<lambda>k. k \<noteq> e) (map fst (map (\<lambda>p. (e, snd p)) xs)) = []" for xs :: "('a \<times> 'b) list" by (induction xs) auto
  then have ok: "slots_ok e (ka_slots a m')" "dom (slot_map e (ka_slots a m')) = {}"
    unfolding slots_ok_def slot_map_dom m'(3) by simp_all
  have "live_range m' (ar_base a) (int N)" using assms(3) live_range_cong [OF m'(2)] by simp
  then have "ka_inv e N a m'" using assms(1,2) ok(1) by (simp add: ka_inv_def)
  then show ?thesis using m'(1) sz ok(2) by (simp add: ka_clear_def)
qed

text \<open>The store of the interface: an array and the memory.\<close>

definition kst_put :: "'k \<Rightarrow> 'k \<Rightarrow> 'v \<Rightarrow> ar \<times> ('k \<times> 'v) mem \<Rightarrow> (int \<times> ar \<times> ('k \<times> 'v) mem) option" where
  "kst_put e k v s = map_option (\<lambda>(i, m). (i, fst s, m)) (ka_put e k v (fst s) (snd s))"
definition kst_get :: "'k \<Rightarrow> 'k \<Rightarrow> ar \<times> ('k \<times> 'v) mem \<Rightarrow> (bool \<times> 'v option \<times> ar \<times> ('k \<times> 'v) mem) option" where
  "kst_get e k s = map_option (\<lambda>(r, v, m). (r, v, fst s, m)) (ka_get e k (fst s) (snd s))"
definition kst_rem :: "'k \<Rightarrow> 'k \<Rightarrow> ar \<times> ('k \<times> 'v) mem \<Rightarrow> (bool \<times> ar \<times> ('k \<times> 'v) mem) option" where
  "kst_rem e k s = map_option (\<lambda>(r, m). (r, fst s, m)) (ka_remove e k (fst s) (snd s))"

interpretation ka: keyed_store "kst_put e" "kst_get e" "kst_rem e" "\<lambda>s. ka_inv e N (fst s) (snd s)"
  "\<lambda>s. slot_map e (ka_slots (fst s) (snd s))" "\<lambda>k. k \<noteq> e" N
proof unfold_locales
  fix s :: "ar \<times> ('a \<times> 'b) mem" and k v
  assume "ka_inv e N (fst s) (snd s)" "k \<noteq> e" "slot_map e (ka_slots (fst s) (snd s)) k = None"
  from ka_put_law [OF this, of v]
  show "\<exists>i s'. kst_put e k v s = Some (i, s') \<and> ka_inv e N (fst s') (snd s') \<and>
      (0 \<le> i \<longleftrightarrow> card (dom (slot_map e (ka_slots (fst s) (snd s)))) < N) \<and>
      slot_map e (ka_slots (fst s') (snd s')) = (if card (dom (slot_map e (ka_slots (fst s) (snd s)))) < N
        then (slot_map e (ka_slots (fst s) (snd s)))(k \<mapsto> v) else slot_map e (ka_slots (fst s) (snd s)))"
    by (fastforce simp: kst_put_def)
next
  fix s :: "ar \<times> ('a \<times> 'b) mem" and k
  assume "ka_inv e N (fst s) (snd s)" "k \<noteq> e"
  from ka_get_law [OF this]
  show "\<exists>r v s'. kst_get e k s = Some (r, v, s') \<and> ka_inv e N (fst s') (snd s') \<and>
      (r \<longleftrightarrow> slot_map e (ka_slots (fst s) (snd s)) k \<noteq> None) \<and> (r \<longrightarrow> v = slot_map e (ka_slots (fst s) (snd s)) k) \<and>
      slot_map e (ka_slots (fst s') (snd s')) = (slot_map e (ka_slots (fst s) (snd s)))(k := None)"
    by (fastforce simp: kst_get_def)
next
  fix s :: "ar \<times> ('a \<times> 'b) mem" and k
  assume "ka_inv e N (fst s) (snd s)" "k \<noteq> e"
  from ka_rem_law [OF this]
  show "\<exists>s'. kst_rem e k s = Some (slot_map e (ka_slots (fst s) (snd s)) k \<noteq> None, s') \<and> ka_inv e N (fst s') (snd s') \<and>
      slot_map e (ka_slots (fst s') (snd s')) = (slot_map e (ka_slots (fst s) (snd s)))(k := None)"
    by (fastforce simp: kst_rem_def)
qed

section \<open>Properties\<close>

text \<open>C27: A \<open>KeyArray\<close> is a map with room for \<open>N\<close> keys: a client of a new array that never puts the empty key, or a
  key that is there already, gets from any sequence of \<open>put\<close>, \<open>get\<close> and \<open>remove\<close> the results of a map, where a put
  fails exactly when the map is full, and a \<open>get\<close> removes the key; slots are reused and no slot outside is touched.\<close>

theorem key_array_is_bounded_map:
  assumes "mem_new (int N) m0 = (p, m1)" "int N < 2147483648" "kclient_ok (\<lambda>k. k \<noteq> e) N ops Map.empty"
  shows "\<exists>a m s. ka_ctor_cap e (int N) m0 = Some (a, m) \<and>
    kops_run (kst_put e) (kst_get e) (kst_rem e) ops (a, m) = Some (kspec N ops Map.empty, s)"
proof -
  let ?a = "\<lparr>ar_base = p, ar_lim = p + int N, ar_end = p + int N, ar_own = True\<rparr>"
  have "live_range m1 p (int N)" by (rule mem_new_live [OF assms(1)])
  then obtain m where m: "ka_clear e ?a m1 = Some m" "ka_inv e N ?a m" "slot_map e (ka_slots ?a m) = Map.empty"
    using ka_clear_ok [of ?a N m1 e] assms(2) by auto
  have "ka_ctor_cap e (int N) m0 = Some (?a, m)" using assms(1) m(1) by (simp add: ka_ctor_cap_def ar_ctor_cap_def)
  moreover obtain s where "kops_run (kst_put e) (kst_get e) (kst_rem e) ops (?a, m) = Some (kspec N ops Map.empty, s)"
    using ka.refines_map [of e N "(?a, m)" ops] m(2,3) assms(3) by auto
  ultimately show ?thesis by blast
qed

theorem key_array_is_bounded_map_witness:
  "\<exists>a m s. ka_ctor_cap (0::int) 2 (arena (0, ''x'') 5) = Some (a, m) \<and>
    kops_run (kst_put 0) (kst_get 0) (kst_rem 0)
      [KPut 7 ''a'', KPut 8 ''b'', KPut 9 ''c'', KGet 7, KPut 9 ''d'', KRemove 7, KGet 9] (a, m) =
      Some ([KPlaced True, KPlaced True, KPlaced False, KGot (Some ''a''), KPlaced True, KRemoved False, KGot (Some ''d'')], s)"
proof -
  let ?ops = "[KPut 7 ''a'', KPut 8 ''b'', KPut 9 ''c'', KGet 7, KPut 9 ''d'', KRemove 7, KGet (9::int)]"
  have d: "dom ((Map.empty::int \<rightharpoonup> string)(7 \<mapsto> ''a'', 8 \<mapsto> ''b'', 7 := None)) = {8}" by (auto split: if_splits)
  show ?thesis
    using key_array_is_bounded_map [of 2 "arena (0::int, ''x'') 5" 5 "snd (mem_new 2 (arena (0, ''x'') 5))" 0 ?ops] d
    by (simp add: mem_new_def)
qed

text \<open>\<open>get\<close> with the empty key returns a stale value of an empty slot; \<open>get_at\<close> beyond the end is undefined,
  where \<open>remove_at\<close> returns false.\<close>

theorem key_array_get_empty_key:
  "(case ka_ctor_cap (0::int) 2 (arena (5, ''x'') 5) of None \<Rightarrow> False | Some (a, m) \<Rightarrow>
     map_option (\<lambda>(r, v, m). (r, v)) (ka_get 0 0 a m) = Some (True, Some ''x'') \<and> ka_get_at 0 2 a m = None \<and>
     map_option fst (ka_remove_at 0 2 a m) = Some False)"
  by code_simp

end
