(* ===== verification/SmallPrograms.thy ===== *)
theory SmallPrograms imports KeyArray PosixTime begin

text \<open>
  Three small programs of \<open>src/examples/\<close>: \<open>data/ArrayDemo/ArrayDemo.cpp\<close>, which fills and
  prints arrays, the beginning of \<open>data/buf_example.cpp\<close>, and the periodic threads of
  \<open>os/PeriodicThread/PeriodicThread.cpp\<close>, over the models of \<open>Array\<close>, \<open>Buffer\<close> and \<open>Time\<close>.
\<close>

section \<open>ArrayDemo\<close>

text \<open>The loops, with \<open>k\<close> items to go from \<open>i\<close>.\<close>

fun fill_array_loop :: "nat \<Rightarrow> int \<Rightarrow> int \<Rightarrow> ar \<Rightarrow> int mem \<Rightarrow> int mem option" where
  "fill_array_loop 0 i sz arr m = Some m"
| "fill_array_loop (Suc k) i sz arr m =
     do { m' \<leftarrow> ar_put arr i (s32 (u64 (u64 (i + 1) * sz))) m; fill_array_loop k (i + 1) sz arr m' }"

definition fill_array :: "ar \<Rightarrow> int mem \<Rightarrow> int mem option" where
  "fill_array arr m = (let sz = ar_size arr in fill_array_loop (nat sz) 0 sz arr m)"

fun dump_array_loop :: "nat \<Rightarrow> int \<Rightarrow> ar \<Rightarrow> int mem \<Rightarrow> int list option" where
  "dump_array_loop 0 i arr m = Some []"
| "dump_array_loop (Suc k) i arr m =
     do { v \<leftarrow> ar_get arr i m; vs \<leftarrow> dump_array_loop k (i + 1) arr m; Some (v # vs) }"

text \<open>A printed line is the number of items and the items.\<close>

definition dump_array :: "ar \<Rightarrow> int mem \<Rightarrow> (int \<times> int list) option" where
  "dump_array arr m =
     do { vs \<leftarrow> dump_array_loop (nat (ar_size arr)) 0 arr m; Some (u32 (ar_size arr), vs) }"

text \<open>The \<open>arr_\<close> of the \<open>FixedArray\<close> is at \<open>farr\<close>.\<close>

definition ad_main :: "int \<Rightarrow> int mem \<Rightarrow> ((int \<times> int list) list \<times> int) option" where
  "ad_main farr m =
     do { let (arr, m) = ar_ctor_cap 20 m;
          let arr = ar_set_size 5 arr;
          m \<leftarrow> fill_array arr m;
          l1 \<leftarrow> dump_array arr m;
          let arr = ar_set_size 10 arr;
          m \<leftarrow> fill_array arr m;
          l2 \<leftarrow> dump_array arr m;
          let f = ar_set_size 5 (fa_ctor farr 20);
          m \<leftarrow> fill_array f m;
          l3 \<leftarrow> dump_array f m;
          m \<leftarrow> ar_dtor arr m;
          Some ([l1, l2, l3], 0) }"

text \<open>Filling an array that lies in live memory, and printing it afterwards.\<close>

lemma fill_array_loop_ok:
  assumes "live_range m (ar_base arr + i) (int k)" and "0 \<le> i" and "0 \<le> sz" and "(i + int k) * sz < 2147483648"
    and "i + int k < 2147483648"
  shows "\<exists>m'. fill_array_loop k i sz arr m = Some m' \<and> m_live m' = m_live m \<and> m_blocks m' = m_blocks m \<and>
    (\<forall>a. a < ar_base arr + i \<longrightarrow> m_val m' a = m_val m a) \<and>
    (\<forall>j. i \<le> j \<longrightarrow> j < i + int k \<longrightarrow> m_val m' (ar_base arr + j) = (j + 1) * sz)"
  using assms
proof (induction k arbitrary: i m)
  case (Suc k)
  let ?p = "ar_base arr + i"
  have live: "m_live m ?p" using Suc.prems(1) by (simp add: live_range_def)
  have b: "(i + 1) * sz \<le> (i + int (Suc k)) * sz" using Suc.prems(3) by (intro mult_right_mono) simp_all
  have p: "0 \<le> (i + 1) * sz" using Suc.prems(2,3) by simp
  have lt: "(i + 1) * sz < 2147483648" using b Suc.prems(4) by (rule le_less_trans)
  have "u64 (i + 1) = i + 1" using Suc.prems(2,5) by simp
  moreover have "u64 ((i + 1) * sz) = (i + 1) * sz" using p lt by (intro u64_id) linarith+
  moreover have "s32 ((i + 1) * sz) = (i + 1) * sz" using p lt by (intro s32_id) linarith+
  ultimately have v: "s32 (u64 (u64 (i + 1) * sz)) = (i + 1) * sz" by simp
  let ?m = "m\<lparr>m_val := (m_val m)(?p := (i + 1) * sz)\<rparr>"
  have "live_range ?m (ar_base arr + (i + 1)) (int k)" using Suc.prems(1) by (auto simp: live_range_def)
  then obtain m' where m': "fill_array_loop k (i + 1) sz arr ?m = Some m'" "m_live m' = m_live m" "m_blocks m' = m_blocks m"
    "\<forall>a. a < ar_base arr + (i + 1) \<longrightarrow> m_val m' a = m_val ?m a"
    "\<forall>j. i + 1 \<le> j \<longrightarrow> j < i + 1 + int k \<longrightarrow> m_val m' (ar_base arr + j) = (j + 1) * sz"
    using Suc.IH [of ?m "i + 1"] Suc.prems by (auto simp: add.assoc)
  have "m_val m' (ar_base arr + j) = (j + 1) * sz" if "i \<le> j" "j < i + int (Suc k)" for j
    using that m'(4,5) by (cases "j = i") auto
  moreover have "\<forall>a. a < ar_base arr + i \<longrightarrow> m_val m' a = m_val m a" using m'(4) by auto
  moreover have "fill_array_loop (Suc k) i sz arr m = Some m'" using m'(1) live v by (simp add: ar_put_def wr_live)
  ultimately show ?case using m'(2,3) by blast
qed simp

lemma dump_array_loop_ok:
  "live_range m (ar_base arr + i) (int k) \<Longrightarrow>
   dump_array_loop k i arr m = Some (map (\<lambda>j. m_val m (ar_base arr + i + int j)) [0..<k])"
proof (induction k arbitrary: i)
  case (Suc k)
  have "m_live m (ar_base arr + i)" using Suc.prems by (simp add: live_range_def)
  moreover have "live_range m (ar_base arr + (i + 1)) (int k)" using Suc.prems by (auto simp: live_range_def)
  moreover have "map f [0..<Suc k] = f 0 # map (\<lambda>j. f (Suc j)) [0..<k]" for f :: "nat \<Rightarrow> int"
    by (simp add: map_upt_shift upt_rec [of 0 "Suc k"] map_Suc_upt [symmetric] del: upt_Suc)
  ultimately show ?case using Suc.IH [of "i + 1"]
    by (simp add: ar_get_def rd_live add.assoc del: upt_Suc)
qed simp

text \<open>C0:
  An array of \<open>n\<close> items that \<open>fill_array\<close> has filled is printed by \<open>dump_array\<close> as its
  size and the first \<open>n\<close> multiples of the size, whatever its capacity and its memory
  held before; nothing is undefined, and no other cell before the array changes.
\<close>

theorem filled_arrays_print_multiples:
  assumes "0 \<le> n" and "n < 46000" and "live_range m (ar_base arr) n"
  shows "\<exists>m'. fill_array (ar_set_size n arr) m = Some m' \<and>
    dump_array (ar_set_size n arr) m' = Some (n, map (\<lambda>i. (int i + 1) * n) [0..<nat n])"
proof -
  have sz: "ar_size (ar_set_size n arr) = n" using assms by (simp add: ar_size_def ar_set_size_def)
  have base: "ar_base (ar_set_size n arr) = ar_base arr" by (simp add: ar_set_size_def)
  have "n * n \<le> 46000 * 46000" using assms by (intro mult_mono) simp_all
  then obtain m' where m': "fill_array_loop (nat n) 0 n (ar_set_size n arr) m = Some m'" "m_live m' = m_live m"
    "\<forall>j. 0 \<le> j \<longrightarrow> j < n \<longrightarrow> m_val m' (ar_base arr + j) = (j + 1) * n"
    using fill_array_loop_ok [of m "ar_set_size n arr" 0 "nat n" n] assms base by auto
  have "live_range m' (ar_base arr) n" using assms(3) m'(2) by (simp add: live_range_def)
  then have "dump_array_loop (nat n) 0 (ar_set_size n arr) m' = Some (map (\<lambda>j. m_val m' (ar_base arr + int j)) [0..<nat n])"
    using dump_array_loop_ok [of m' "ar_set_size n arr" 0 "nat n"] assms(1) base by simp
  moreover have "map (\<lambda>j. m_val m' (ar_base arr + int j)) [0..<nat n] = map (\<lambda>i. (int i + 1) * n) [0..<nat n]"
    using m'(3) by (intro map_cong) auto
  ultimately show ?thesis using m'(1) assms sz by (simp add: fill_array_def dump_array_def)
qed

theorem filled_arrays_print_multiples_witness:
  "\<exists>m'. fill_array (ar_set_size 5 (fa_ctor 1 20)) (arena 7 30) = Some m' \<and>
    dump_array (ar_set_size 5 (fa_ctor 1 20)) m' = Some (5, map (\<lambda>i. (int i + 1) * 5) [0..<nat 5])"
  by (rule filled_arrays_print_multiples) (simp_all add: fa_ctor_def ar_ctor_arr_def arena_def live_range_def)

text \<open>C0:
  The array demonstration prints five items, ten items and five items, the multiples of the sizes,
  and ends with 0, wherever its fixed array lies.
\<close>

theorem array_demo_prints:
  assumes "mem_wf m" and "live_range m farr 20"
  shows "ad_main farr m = Some ([(5, [5, 10, 15, 20, 25]),
    (10, [10, 20, 30, 40, 50, 60, 70, 80, 90, 100]), (5, [5, 10, 15, 20, 25])], 0)"
proof -
  have "m_live m (farr + j)" if "0 \<le> j" "j < 5" for j
    using assms(2) that by (simp add: live_range_def)
  from this [of 0] this [of 1] this [of 2] this [of 3] this [of 4]
  have l: "m_live m farr" "m_live m (farr + 1)" "m_live m (farr + 2)" "m_live m (farr + 3)" "m_live m (farr + 4)"
    by simp_all
  show ?thesis
    by (simp add: ad_main_def ar_ctor_cap_def mem_new_def ar_set_size_def fill_array_def dump_array_def ar_size_def
        ar_put_def ar_get_def wr_def rd_def fa_ctor_def ar_ctor_arr_def ar_dtor_def mem_delete_def eval_nat_numeral l Let_def)
qed

theorem array_demo_prints_witness:
  "ad_main 1 (arena 7 30) = Some ([(5, [5, 10, 15, 20, 25]),
    (10, [10, 20, 30, 40, 50, 60, 70, 80, 90, 100]), (5, [5, 10, 15, 20, 25])], 0)"
  by (rule array_demo_prints) (simp_all add: arena_def live_range_def mem_wf_def)

section \<open>Buffer example\<close>

text \<open>
  The beginning of \<open>main\<close>, up to the first output. The string literals are arrays with a
  terminating zero. Its loop stores the characters of \<open>"Who goes"\<close>, with \<open>k\<close> to go.
\<close>

fun bx_store_loop :: "nat \<Rightarrow> int \<Rightarrow> int \<Rightarrow> bf \<Rightarrow> int mem \<Rightarrow> int mem option" where
  "bx_store_loop 0 i arr buf m = Some m"
| "bx_store_loop (Suc k) i arr buf m =
     do { c \<leftarrow> rd m (arr + i); m' \<leftarrow> wr m (bf_base buf + i) (u8 c); bx_store_loop k (i + 1) arr buf m' }"

definition literal :: "int list \<Rightarrow> int mem \<Rightarrow> int \<times> int mem" where
  "literal cs m = (let (p, m') = mem_new (int (length cs) + 1) m in (p, put_at p (cs @ [0]) m'))"

definition bx_start :: "int mem \<Rightarrow> (bf \<times> int \<times> int mem) option" where
  "bx_start m =
     do { let (there, m) = literal [32, 116, 104, 101, 114, 101] m;
          let (hello, m) = literal [72, 101, 108, 108, 111] m;
          let (who, m) = literal [87, 104, 111, 32, 103, 111, 101, 115] m;
          let (buf, m) = bf_ctor_cap 256 m;
          (buf, m) \<leftarrow> bf_fill 0 buf m;
          let buf = bf_rewind buf;
          (r, buf, m) \<leftarrow> bf_putn hello 5 buf m;
          let buf = bf_clear buf;
          let n = 8;
          m \<leftarrow> bx_store_loop (nat n) 0 who buf m;
          let buf = bf_set_position n buf;
          (buf2, m) \<leftarrow> bf_ctor_copy buf bf_ctor m;
          Some (buf, there, m) }"

definition bx_main :: "int mem \<Rightarrow> (int \<times> bf \<times> int mem) option" where
  "bx_main m = do { (buf, there, m) \<leftarrow> bx_start m; bf_putn there 8 buf m }"

text \<open>Whether a run is defined depends on which cells are live, not on what they hold.\<close>

definition same_heap :: "'a mem \<Rightarrow> 'a mem \<Rightarrow> bool" where
  "same_heap m m' \<longleftrightarrow> m_live m' = m_live m \<and> m_brk m' = m_brk m"

lemma wr_same_heap: "m_live m p \<Longrightarrow> \<exists>m'. wr m p v = Some m' \<and> same_heap m m'"
  by (simp add: wr_def same_heap_def)

lemma copy_elem_defined:
  "live_range m d (int n) \<Longrightarrow> live_range m s (int n) \<Longrightarrow> \<exists>m'. copy_elem d s n m = Some m' \<and> same_heap m m'"
proof (induction n arbitrary: d s m)
  case (Suc n)
  have l: "m_live m d" "m_live m s" using Suc.prems by (simp_all add: live_range_def)
  let ?m = "m\<lparr>m_val := (m_val m)(d := m_val m s)\<rparr>"
  have "live_range ?m (d + 1) (int n)" "live_range ?m (s + 1) (int n)"
    using Suc.prems by (auto simp: live_range_def)
  then show ?case using Suc.IH [of ?m "d + 1" "s + 1"] l by (simp add: rd_live wr_live same_heap_def)
qed (simp add: same_heap_def)

lemma copy_elem_undefined:
  fixes m :: "'a mem"
  shows "j < n \<Longrightarrow> \<not> m_live m (s + int j) \<Longrightarrow> copy_elem d s n m = None"
proof (induction n arbitrary: d s m j)
  case (Suc n)
  show ?case
  proof (cases j)
    case 0
    then show ?thesis using Suc.prems by (simp add: rd_def)
  next
    case (Suc j')
    then have "copy_elem (d + 1) (s + 1) n m' = None" if "m_live m' = m_live m" for m' :: "'a mem"
      using Suc.IH [of j' m' "s + 1" "d + 1"] Suc.prems that by (simp add: add.assoc)
    then show ?thesis by (auto simp: wr_def bind_eq_None_conv)
  qed
qed simp

lemma bx_store_loop_defined:
  "live_range m (arr + i) (int k) \<Longrightarrow> live_range m (bf_base buf + i) (int k) \<Longrightarrow>
   \<exists>m'. bx_store_loop k i arr buf m = Some m' \<and> same_heap m m'"
proof (induction k arbitrary: i m)
  case (Suc k)
  have l: "m_live m (arr + i)" "m_live m (bf_base buf + i)" using Suc.prems by (simp_all add: live_range_def)
  let ?m = "m\<lparr>m_val := (m_val m)(bf_base buf + i := u8 (m_val m (arr + i)))\<rparr>"
  have "live_range ?m (arr + (i + 1)) (int k)" "live_range ?m (bf_base buf + (i + 1)) (int k)"
    using Suc.prems by (auto simp: live_range_def)
  then show ?case using Suc.IH [of ?m "i + 1"] l by (simp add: rd_live wr_live same_heap_def)
qed (simp add: same_heap_def)

lemma bf_fill_same_heap: "bf_fill v b m = Some (b', m') \<Longrightarrow> same_heap m m'"
proof (induction v b m arbitrary: b' m' rule: bf_fill.induct)
  case (1 v b m)
  show ?case
  proof (cases "bf_pos b < bf_lim b")
    case True
    then obtain m1 where w: "wr m (bf_pos b) v = Some m1"
        "bf_fill v (b\<lparr>bf_pos := bf_pos b + 1\<rparr>) m1 = Some (b', m')"
      using "1.prems" by (auto simp: bf_fill.simps [of v b m] split: option.splits)
    then show ?thesis using "1.IH" [OF True w(1) w(2)] wr_frame [OF w(1)] by (simp add: same_heap_def)
  next
    case False
    then show ?thesis using "1.prems" by (simp add: bf_fill.simps [of v b m] same_heap_def)
  qed
qed

text \<open>The memory in which the buffer has been constructed, and a buffer in it.\<close>

definition bx_live :: "int \<Rightarrow> int mem \<Rightarrow> bool" where
  "bx_live p m \<longleftrightarrow> m_brk m = p + 282 \<and> live_range m p 7 \<and> \<not> m_live m (p + 7) \<and> live_range m (p + 8) 6 \<and>
     live_range m (p + 15) 9 \<and> live_range m (p + 25) 256"

definition bx_buf :: "int \<Rightarrow> int \<Rightarrow> bf" where
  "bx_buf p n = \<lparr>bf_base = p + 25, bf_pos = p + 25 + n, bf_lim = p + 25 + 256, bf_end = p + 25 + 256,
     bf_mark = p + 25, bf_own = True\<rparr>"

lemma bx_live_same: "bx_live p m \<Longrightarrow> same_heap m m' \<Longrightarrow> bx_live p m'"
  by (simp add: bx_live_def same_heap_def live_range_def)

lemma bx_setup:
  assumes "mem_wf m"
  shows "\<exists>m1 m2 m3 m4. literal [32, 116, 104, 101, 114, 101] m = (m_brk m, m1) \<and>
    literal [72, 101, 108, 108, 111] m1 = (m_brk m + 8, m2) \<and>
    literal [87, 104, 111, 32, 103, 111, 101, 115] m2 = (m_brk m + 15, m3) \<and>
    bf_ctor_cap 256 m3 = (bx_buf (m_brk m) 0, m4) \<and> bx_live (m_brk m) m4"
proof -
  have "\<not> m_live m (m_brk m + 7)" using assms unfolding mem_wf_def by fastforce
  then show ?thesis
    by (simp add: literal_def mem_new_def bf_ctor_cap_def bx_buf_def bx_live_def live_range_def put_at_def)
qed

lemma bx_steps:
  assumes "bx_live p m"
  shows "\<exists>m'. bf_fill 0 (bx_buf p 0) m = Some (bx_buf p 256, m') \<and> bx_live p m'"
    and "\<exists>r m'. bf_putn (p + 8) 5 (bx_buf p 0) m = Some (r, bx_buf p 5, m') \<and> bx_live p m'"
    and "\<exists>m'. bx_store_loop 8 0 (p + 15) (bx_buf p 0) m = Some m' \<and> bx_live p m'"
    and "\<exists>b m'. bf_ctor_copy (bx_buf p 8) bf_ctor m = Some (b, m') \<and> \<not> m_live m' (p + 7)"
    and "\<not> m_live m' (p + 7) \<Longrightarrow> bf_putn p 8 (bx_buf p 8) m' = None"
proof -
  have "bf_inv (bx_buf p 0) m" using assms by (simp add: bf_inv_def bx_buf_def bx_live_def)
  then obtain m1 where m1: "bf_fill 0 (bx_buf p 0) m = Some ((bx_buf p 0)\<lparr>bf_pos := bf_lim (bx_buf p 0)\<rparr>, m1)"
    using bf_fill_spec [of "bx_buf p 0" m 0] by blast
  then show "\<exists>m'. bf_fill 0 (bx_buf p 0) m = Some (bx_buf p 256, m') \<and> bx_live p m'"
    using bx_live_same [OF assms bf_fill_same_heap [OF m1]] by (simp add: bx_buf_def)
  have "live_range m (p + 25) (int 5)" "live_range m (p + 8) (int 5)"
    using assms by (auto simp: bx_live_def intro: live_range_sub)
  from copy_elem_defined [OF this] obtain m2 where "copy_elem (p + 25) (p + 8) 5 m = Some m2" "same_heap m m2" by blast
  then show "\<exists>r m'. bf_putn (p + 8) 5 (bx_buf p 0) m = Some (r, bx_buf p 5, m') \<and> bx_live p m'"
    using bx_live_same [OF assms] by (simp add: bf_putn_def bx_buf_def)
  have "live_range m (p + 15 + 0) (int 8)" "live_range m (bf_base (bx_buf p 0) + 0) (int 8)"
    using assms by (auto simp: bx_live_def bx_buf_def intro: live_range_sub)
  from bx_store_loop_defined [OF this]
  show "\<exists>m'. bx_store_loop 8 0 (p + 15) (bx_buf p 0) m = Some m' \<and> bx_live p m'"
    using bx_live_same [OF assms] by blast
  let ?n = "snd (mem_new 256 m)"
  have "live_range ?n (p + 282) (int 256)" "live_range ?n (p + 25) (int 256)"
    using assms by (auto simp: bx_live_def mem_new_def live_range_def)
  from copy_elem_defined [OF this] obtain m3 where c: "copy_elem (p + 282) (p + 25) 256 ?n = Some m3" "same_heap ?n m3" by blast
  have "\<not> m_live m3 (p + 7)" using assms c(2) by (simp add: same_heap_def mem_new_def bx_live_def)
  then show "\<exists>b m'. bf_ctor_copy (bx_buf p 8) bf_ctor m = Some (b, m') \<and> \<not> m_live m' (p + 7)"
    using c(1) assms
    by (simp add: bf_ctor_copy_def bf_alloc_def bf_deep_copy_def bf_size_def bf_capacity_def bx_buf_def mem_new_def
        bx_live_def)
  show "bf_putn p 8 (bx_buf p 8) m' = None" if "\<not> m_live m' (p + 7)"
    using copy_elem_undefined [of 7 8 m' p] that by (simp add: bf_putn_def bx_buf_def)
qed

text \<open>C0:
  The buffer example runs without undefined behaviour up to its second \<open>put\<close>, which asks for
  8 bytes of the 7-byte literal \<open>" there"\<close>: there it reads past the end.
\<close>

theorem buffer_example_reads_past_the_literal:
  assumes "mem_wf m"
  shows "(\<exists>r. bx_start m = Some r) \<and> bx_main m = None"
proof -
  let ?p = "m_brk m"
  obtain m1 m2 m3 m4 where l: "literal [32, 116, 104, 101, 114, 101] m = (?p, m1)"
    "literal [72, 101, 108, 108, 111] m1 = (?p + 8, m2)"
    "literal [87, 104, 111, 32, 103, 111, 101, 115] m2 = (?p + 15, m3)"
    "bf_ctor_cap 256 m3 = (bx_buf ?p 0, m4)" and v4: "bx_live ?p m4"
    using bx_setup [OF assms] by blast
  obtain m5 where f: "bf_fill 0 (bx_buf ?p 0) m4 = Some (bx_buf ?p 256, m5)" and v5: "bx_live ?p m5"
    using bx_steps(1) [OF v4] by blast
  obtain r m6 where h: "bf_putn (?p + 8) 5 (bx_buf ?p 0) m5 = Some (r, bx_buf ?p 5, m6)" and v6: "bx_live ?p m6"
    using bx_steps(2) [OF v5] by blast
  obtain m7 where w: "bx_store_loop 8 0 (?p + 15) (bx_buf ?p 0) m6 = Some m7" and v7: "bx_live ?p m7"
    using bx_steps(3) [OF v6] by blast
  obtain b m8 where c: "bf_ctor_copy (bx_buf ?p 8) bf_ctor m7 = Some (b, m8)" and d: "\<not> m_live m8 (?p + 7)"
    using bx_steps(4) [OF v7] by blast
  have p: "bf_rewind (bx_buf ?p 256) = bx_buf ?p 0" "bf_clear (bx_buf ?p 5) = bx_buf ?p 0"
    "bf_set_position 8 (bx_buf ?p 0) = bx_buf ?p 8"
    by (simp_all add: bf_rewind_def bf_clear_def bf_set_position_def bx_buf_def)
  have "bx_start m = Some (bx_buf ?p 8, ?p, m8)"
    using f h w c by (simp add: bx_start_def l p)
  then show ?thesis using bx_steps(5) [OF v7 d] by (simp add: bx_main_def)
qed

theorem buffer_example_reads_past_the_literal_witness:
  "(\<exists>r. bx_start (arena 0 1) = Some r) \<and> bx_main (arena 0 1) = None"
  by (rule buffer_example_reads_past_the_literal) simp

section \<open>Periodic threads\<close>

text \<open>
  \<open>PeriodicThread::run\<close> on a clock and a period. What each wait for the quit semaphore returns
  is an argument; the result lists the times waited for and the clicks, and says whether the
  thread has ended. When the results run out it is still waiting.
\<close>

datatype pt_event = PtWait timespec | PtClick int

fun pt_loop :: "timespec \<Rightarrow> bool list \<Rightarrow> int \<Rightarrow> timespec \<Rightarrow> (pt_event list \<times> bool) option" where
  "pt_loop period [] n t = Some ([PtWait t], False)"
| "pt_loop period (w # ws) n t =
     (if w then Some ([PtWait t], True)
      else do { let n = u32 (n + 1);
                t' \<leftarrow> tm_add_assign t period;
                (es, q) \<leftarrow> pt_loop period ws n t';
                Some (PtWait t # PtClick n # es, q) })"

definition pt_run :: "timespec \<Rightarrow> timespec \<Rightarrow> bool list \<Rightarrow> (pt_event list \<times> bool) option" where
  "pt_run clock period ws = do { t \<leftarrow> tm_from_now clock period; pt_loop period ws 0 t }"

text \<open>\<open>pt_schedule\<close>: what is to be seen of \<open>k\<close> periods of \<open>p\<close> seconds from round \<open>i\<close> on.\<close>

fun pt_schedule :: "int \<Rightarrow> int \<Rightarrow> int \<Rightarrow> nat \<Rightarrow> int \<Rightarrow> pt_event list" where
  "pt_schedule s ns p 0 i = [PtWait (ts (s + (i + 1) * p) ns)]"
| "pt_schedule s ns p (Suc k) i = PtWait (ts (s + (i + 1) * p) ns) # PtClick (i + 1) # pt_schedule s ns p k (i + 1)"

lemma whole_seconds_add:
  assumes "0 \<le> s" and "0 \<le> p" and "s + p < 9223372036854775808" and "0 \<le> ns" and "ns < ns_per_sec"
  shows "tm_add (ts s ns) (du_sec p) = Some (ts (s + p) ns)"
proof -
  have "ts_norm (ts (s + p) ns)" using assms by (simp add: ts_norm_def)
  then show ?thesis using assms
    by (simp add: tm_add_def tm_normalize_def ts_offset_def du_sec_def du_from_sec_def ck64_def normalize_idle)
qed

lemma pt_loop_schedule:
  assumes "0 \<le> s" and "0 \<le> p" and "0 \<le> i" and "0 \<le> ns" and "ns < ns_per_sec"
    and "s + (i + 1 + int k) * p < 9223372036854775808" and "i + int k < 4294967296"
  shows "pt_loop (du_sec p) (replicate k False @ [True]) i (ts (s + (i + 1) * p) ns) =
    Some (pt_schedule s ns p k i, True)"
  using assms
proof (induction k arbitrary: i)
  case (Suc k)
  have m: "0 \<le> (i + 1) * p" "(i + 1) * p + p = (i + 1 + 1) * p"
    "(i + 1 + 1) * p \<le> (i + 1 + int (Suc k)) * p"
    using Suc.prems(2,3) by (simp_all add: distrib_right mult_right_mono)
  have "tm_add (ts (s + (i + 1) * p) ns) (du_sec p) = Some (ts (s + (i + 1) * p + p) ns)"
    using m Suc.prems by (intro whole_seconds_add) linarith+
  also have "s + (i + 1) * p + p = s + (i + 1 + 1) * p" using m(2) by simp
  finally have t: "tm_add (ts (s + (i + 1) * p) ns) (du_sec p) = Some (ts (s + (i + 1 + 1) * p) ns)" .
  have nk: "i + 1 + 1 + int k = i + 1 + int (Suc k)" by simp
  then have "s + (i + 1 + 1 + int k) * p < 9223372036854775808" using Suc.prems(6) by (simp only: nk)
  then have "pt_loop (du_sec p) (replicate k False @ [True]) (i + 1) (ts (s + (i + 1 + 1) * p) ns) =
      Some (pt_schedule s ns p k (i + 1), True)"
    using Suc.prems by (intro Suc.IH) simp_all
  then show ?case using t Suc.prems(3,7) by (simp add: du_same_as_tm Let_def)
qed simp

text \<open>C0:
  A periodic thread with a period of whole seconds does not drift: it waits for the clock's time
  plus one, two, three periods and so on, however long its own work takes, each a valid
  \<open>timespec\<close>, clicks after each wait that times out, counting from 1, and ends after the
  first wait that gets the semaphore.
\<close>

theorem periodic_thread_does_not_drift:
  assumes "0 \<le> s" and "0 \<le> p" and "0 \<le> ns" and "ns < 1000000000"
    and "s + (1 + int k) * p < 9223372036854775808" and "int k < 4294967296"
  shows "pt_run (ts s ns) (du_sec p) (replicate k False @ [True]) = Some (pt_schedule s ns p k 0, True)"
proof -
  have "p \<le> (1 + int k) * p" using assms(2) by (simp add: distrib_right)
  then have "tm_add (ts s ns) (du_sec p) = Some (ts (s + p) ns)" using assms by (intro whole_seconds_add) linarith+
  then show ?thesis using pt_loop_schedule [of s p 0 ns k] assms by (simp add: pt_run_def du_same_as_tm)
qed

theorem periodic_thread_does_not_drift_witness:
  "pt_run (ts 1139000000 999999999) (du_sec 5) [False, False, True] =
    Some ([PtWait (ts 1139000005 999999999), PtClick 1, PtWait (ts 1139000010 999999999), PtClick 2,
           PtWait (ts 1139000015 999999999)], True)"
  using periodic_thread_does_not_drift [of 1139000000 5 999999999 2] by (simp add: eval_nat_numeral)

end
