(* ===== verification/AcqQueues.thy ===== *)
theory AcqQueues imports Pools "HOL-Library.Multiset" begin

text \<open>
  \<open>CtrlrFx/AcqBufQueue.h\<close> as its users see it: \<open>bufQue[i].put(p)\<close> and \<open>bufQue[i].get()\<close> on the
  array of message queues. The queues share one memory but not their buffers, so together they
  are a row of bounded FIFO lists: that is the contract \<open>queue_row\<close>, which the model of the code
  meets. \<open>resize(nque, nbuf, sz)\<close> makes such a row, all empty but the first, which holds \<open>nbuf\<close>
  distinct buffers with separate data. What an operation does when other threads are inside the
  same queue is the subject of \<open>MsgQueueSteps\<close>.
\<close>

definition aq_put :: "nat \<Rightarrow> int \<Rightarrow> int \<Rightarrow> mutex mq list \<Rightarrow> int mem \<Rightarrow> (mutex mq list \<times> int mem) run" where
  "aq_put t i p qs qm =
     run_then (aq_index qs i) (\<lambda>q.
     run_then (mq_put (mutex_type t) p q qm) (\<lambda>(q', qm'). Ret (qs[nat i := q'], qm')))"

definition aq_get :: "nat \<Rightarrow> int \<Rightarrow> mutex mq list \<Rightarrow> int mem \<Rightarrow> (int \<times> mutex mq list) run" where
  "aq_get t i qs qm =
     run_then (aq_index qs i) (\<lambda>q.
     run_then (mq_get (mutex_type t) q qm) (\<lambda>(p, q'). Ret (p, qs[nat i := q'])))"

section \<open>The contract\<close>

text \<open>\<open>view\<close> is what each queue of the row holds, \<open>room\<close> how much each can hold.\<close>

locale queue_row =
  fixes put :: "nat \<Rightarrow> int \<Rightarrow> 's \<Rightarrow> 's run"
    and get :: "nat \<Rightarrow> 's \<Rightarrow> (int \<times> 's) run"
    and view :: "'s \<Rightarrow> int list list"
    and room :: nat
    and inv :: "'s \<Rightarrow> bool"
  assumes fits: "inv s \<Longrightarrow> i < length (view s) \<Longrightarrow> length (view s ! i) \<le> room"
    and put_room: "inv s \<Longrightarrow> i < length (view s) \<Longrightarrow> length (view s ! i) < room \<Longrightarrow>
      \<exists>s'. put i p s = Ret s' \<and> inv s' \<and> view s' = (view s)[i := view s ! i @ [p]]"
    and put_full: "inv s \<Longrightarrow> i < length (view s) \<Longrightarrow> length (view s ! i) = room \<Longrightarrow> put i p s = Blocks"
    and get_first: "inv s \<Longrightarrow> i < length (view s) \<Longrightarrow> view s ! i = p # ps \<Longrightarrow>
      \<exists>s'. get i s = Ret (p, s') \<and> inv s' \<and> view s' = (view s)[i := ps]"
    and get_empty: "inv s \<Longrightarrow> i < length (view s) \<Longrightarrow> view s ! i = [] \<Longrightarrow> get i s = Blocks"
begin

lemma put_Ret:
  assumes "inv s" "i < length (view s)" "put i p s = Ret s'"
  shows "length (view s ! i) < room \<and> inv s' \<and> view s' = (view s)[i := view s ! i @ [p]]"
proof -
  have "length (view s ! i) \<noteq> room" using put_full [OF assms(1,2)] assms(3) by auto
  then have "length (view s ! i) < room" using fits [OF assms(1,2)] by simp
  then show ?thesis using put_room [OF assms(1,2), of p] assms(3) by auto
qed

lemma get_Ret:
  assumes "inv s" "i < length (view s)" "get i s = Ret (p, s')"
  shows "\<exists>ps. view s ! i = p # ps \<and> inv s' \<and> view s' = (view s)[i := ps]"
proof (cases "view s ! i")
  case Nil
  then show ?thesis using get_empty [OF assms(1,2)] assms(3) by simp
next
  case (Cons x xs)
  then show ?thesis using get_first [OF assms(1,2) Cons] assms(3) by auto
qed

lemma put_defined: "inv s \<Longrightarrow> i < length (view s) \<Longrightarrow> put i p s \<noteq> Undef"
  using fits [of s i] put_room [of s i p] put_full [of s i p] by (cases "length (view s ! i) < room") auto

lemma get_defined: "inv s \<Longrightarrow> i < length (view s) \<Longrightarrow> get i s \<noteq> Undef"
  using get_first [of s i] get_empty [of s i] by (cases "view s ! i") auto

text \<open>Passing the first item of one queue on to another neither loses nor copies anything.\<close>

lemma pass_on:
  assumes "inv s" "i < length (view s)" "j < length (view s)" "i \<noteq> j"
    and "get i s = Ret (p, s1)" "put j p s1 = Ret s2"
  shows "inv s2 \<and> mset (concat (view s2)) = mset (concat (view s))"
proof -
  have upd: "mset (concat (xs[k := ys])) + mset (xs ! k) = mset (concat xs) + mset ys"
    if "k < length xs" for xs :: "int list list" and k ys
    using that by (induction xs arbitrary: k) (auto simp: less_Suc_eq_0_disj)
  obtain ps where g: "view s ! i = p # ps" "inv s1" "view s1 = (view s)[i := ps]"
    using get_Ret [OF assms(1,2,5)] by blast
  have q: "inv s2" "view s2 = (view s1)[j := view s1 ! j @ [p]]"
    using put_Ret [OF g(2) _ assms(6)] assms(3) g(3) by simp_all
  have "mset (concat (view s1)) + {#p#} = mset (concat (view s))"
    using upd [OF assms(2), of ps] g(1,3) by simp
  moreover have "mset (concat (view s2)) = mset (concat (view s1)) + {#p#}"
    using upd [of j "view s1" "view s1 ! j @ [p]"] assms(3) g(3) q(2) by simp
  ultimately show ?thesis using q(1) by simp
qed

end

section \<open>The queues meet the contract\<close>

definition aq_view :: "mutex mq list \<times> int mem \<Rightarrow> int list list" where
  "aq_view s = map (\<lambda>q. mq_items q (snd s)) (fst s)"

definition apart :: "'l mq \<Rightarrow> 'l mq \<Rightarrow> bool" where
  "apart q q' \<longleftrightarrow> mq_end q \<le> mq_buf q' \<or> mq_end q' \<le> mq_buf q"

definition aq_inv :: "nat \<Rightarrow> mutex mq list \<times> int mem \<Rightarrow> bool" where
  "aq_inv n s \<longleftrightarrow> (\<forall>q\<in>set (fst s). mq_inv mutex_free q (snd s) \<and> mq_room q = n) \<and>
     (\<forall>i<length (fst s). \<forall>j<length (fst s). i \<noteq> j \<longrightarrow> apart (fst s ! i) (fst s ! j))"

lemma rows_apart:
  assumes "aq_inv n (qs, qm)" and "mq_buf q' = mq_buf (qs ! i)" and "mq_end q' = mq_end (qs ! i)"
    and "j < length qs" and "k < length qs" and "j \<noteq> k"
  shows "apart (qs[i := q'] ! j) (qs[i := q'] ! k)"
proof -
  have "mq_buf (qs[i := q'] ! l) = mq_buf (qs ! l) \<and> mq_end (qs[i := q'] ! l) = mq_end (qs ! l)" if "l < length qs" for l
    using assms(2,3) that by (cases "i = l") simp_all
  then show ?thesis using assms by (simp add: aq_inv_def apart_def)
qed

lemma mq_put_writes:
  "mq_put L v q m = Ret (q', m') \<Longrightarrow> m' = m\<lparr>m_val := (m_val m)(mq_putp q := v)\<rparr>"
  by (auto simp: mq_put_def mq_do_put_def run_then_Ret_iff Let_def run_opt_def wr_def split: option.splits if_splits)

lemma mq_items_apart:
  assumes "mq_inv free q m" and "\<forall>a. mq_buf q \<le> a \<and> a < mq_end q \<longrightarrow> m_val m' a = m_val m a"
  shows "mq_items q m' = mq_items q m"
proof -
  have n: "0 < mq_end q - mq_buf q" using assms(1) by (simp add: mq_inv_def)
  have "m_val m' (mq_buf q + k mod (mq_end q - mq_buf q)) = m_val m (mq_buf q + k mod (mq_end q - mq_buf q))" for k
    using assms(2) pos_mod_sign [OF n, of k] pos_mod_bound [OF n, of k] by simp
  then show ?thesis by (simp add: mq_items_def)
qed

lemma aq_put_room:
  assumes inv: "aq_inv n (qs, qm)" and i: "i < length qs" and room: "length (mq_items (qs ! i) qm) < n"
  shows "\<exists>qs' qm'. aq_put t (int i) p qs qm = Ret (qs', qm') \<and> aq_inv n (qs', qm') \<and>
    aq_view (qs', qm') = (aq_view (qs, qm))[i := mq_items (qs ! i) qm @ [p]] \<and> m_blocks qm' = m_blocks qm"
proof -
  have all: "mq_inv mutex_free (qs ! j) qm" "mq_room (qs ! j) = n" if "j < length qs" for j
    using inv that by (auto simp: aq_inv_def)
  obtain q' qm' where p: "mq_put (mutex_type t) p (qs ! i) qm = Ret (q', qm')" "mq_inv mutex_free q' qm'"
      "mq_items q' qm' = mq_items (qs ! i) qm @ [p]" "mq_room q' = mq_room (qs ! i)"
    using mq_put_room_ex [OF all(1) [OF i]] all(2) [OF i] room by metis
  note fr = mq_put_frame [OF p(1)] and wr = mq_put_writes [OF p(1)] and lv = mq_put_live [OF p(1)]
  have ap: "apart (qs ! j) (qs ! k)" if "j < length qs" "k < length qs" "j \<noteq> k" for j k
    using inv that by (simp add: aq_inv_def)
  have items: "mq_items (qs ! j) qm' = mq_items (qs ! j) qm" if "j < length qs" "j \<noteq> i" for j
    using mq_items_apart [OF all(1) [OF that(1)], of qm'] ap [OF that(1) i that(2)]
      mq_put_cell(1,2) [OF all(1) [OF i]] by (auto simp: wr apart_def)
  have "mq_inv mutex_free q qm'" if "mq_inv mutex_free q qm" for q
    using that lv by (simp add: mq_inv_def live_range_def)
  then have "\<forall>q\<in>set (qs[i := q']). mq_inv mutex_free q qm' \<and> mq_room q = n"
    using inv p(2,4) all(2) [OF i] set_update_subset_insert [of qs i q'] by (auto simp: aq_inv_def)
  moreover have "apart (qs[i := q'] ! j) (qs[i := q'] ! k)" if "j < length qs" "k < length qs" "j \<noteq> k" for j k
    using rows_apart [OF inv, of q' i] fr that by simp
  moreover have "aq_view (qs[i := q'], qm') = (aq_view (qs, qm))[i := mq_items (qs ! i) qm @ [p]]"
    by (rule nth_equalityI) (use i in \<open>auto simp: aq_view_def nth_list_update items p(3)\<close>)
  ultimately show ?thesis using p(1) i fr by (auto simp: aq_put_def aq_index_def aq_inv_def)
qed

lemma aq_get_first:
  assumes inv: "aq_inv n (qs, qm)" and i: "i < length qs" and items: "mq_items (qs ! i) qm = p # ps"
  shows "\<exists>qs'. aq_get t (int i) qs qm = Ret (p, qs') \<and> aq_inv n (qs', qm) \<and>
    aq_view (qs', qm) = (aq_view (qs, qm))[i := ps]"
proof -
  have all: "mq_inv mutex_free (qs ! i) qm" "mq_room (qs ! i) = n" using inv i by (auto simp: aq_inv_def)
  obtain q' where g: "mq_get (mutex_type t) (qs ! i) qm = Ret (p, q')" "mq_inv mutex_free q' qm"
      "mq_items q' qm = ps" "mq_room q' = mq_room (qs ! i)"
    using mutex.mq_gets_first [OF mq_mutex_L all(1) items] by blast
  have "\<forall>q\<in>set (qs[i := q']). mq_inv mutex_free q qm \<and> mq_room q = n"
    using inv g(2,4) all(2) set_update_subset_insert [of qs i q'] by (auto simp: aq_inv_def)
  moreover have "apart (qs[i := q'] ! j) (qs[i := q'] ! k)" if "j < length qs" "k < length qs" "j \<noteq> k" for j k
    using rows_apart [OF inv, of q' i] mq_get_frame [OF g(1)] that by simp
  moreover have "aq_view (qs[i := q'], qm) = (aq_view (qs, qm))[i := ps]"
    by (rule nth_equalityI) (use i in \<open>auto simp: aq_view_def nth_list_update g(3)\<close>)
  ultimately show ?thesis using g(1) i by (auto simp: aq_get_def aq_index_def aq_inv_def)
qed

definition aq_put_st :: "nat \<Rightarrow> nat \<Rightarrow> int \<Rightarrow> mutex mq list \<times> int mem \<Rightarrow> (mutex mq list \<times> int mem) run" where
  "aq_put_st t i p s = aq_put t (int i) p (fst s) (snd s)"

definition aq_get_st :: "nat \<Rightarrow> nat \<Rightarrow> mutex mq list \<times> int mem \<Rightarrow> (int \<times> mutex mq list \<times> int mem) run" where
  "aq_get_st t i s = run_then (aq_get t (int i) (fst s) (snd s)) (\<lambda>(p, qs). Ret (p, qs, snd s))"

interpretation aqs: queue_row "aq_put_st t" "aq_get_st t" aq_view n "aq_inv n"
proof (unfold_locales, goal_cases)
  case (1 s i)
  then have "mq_inv mutex_free (fst s ! i) (snd s)" "mq_room (fst s ! i) = n"
    by (auto simp: aq_inv_def aq_view_def)
  then show ?case using 1(2) mq.within_room [of "(fst s ! i, snd s)"] by (simp add: aq_view_def)
next
  case (2 s i p)
  then show ?case using aq_put_room [of n "fst s" "snd s" i t p]
    by (fastforce simp: aq_put_st_def aq_view_def)
next
  case (3 s i p)
  then have "mq_inv mutex_free (fst s ! i) (snd s)" "mq_room (fst s ! i) = n"
    by (auto simp: aq_inv_def aq_view_def)
  then show ?case using 3(2,3) mutex.mq_puts_full(1) [of "fst s ! i" "snd s" "mutex_type t" p]
    by (simp add: aq_put_st_def aq_put_def aq_index_def aq_view_def)
next
  case (4 s i p ps)
  then show ?case using aq_get_first [of n "fst s" "snd s" i p ps t]
    by (fastforce simp: aq_get_st_def aq_view_def)
next
  case (5 s i)
  then have "mq_inv mutex_free (fst s ! i) (snd s)" by (auto simp: aq_inv_def aq_view_def)
  then show ?case using 5(2,3) mutex.mq_gets_empty(1) [of "fst s ! i" "snd s" "mutex_type t"]
    by (simp add: aq_get_st_def aq_get_def aq_index_def aq_view_def)
qed

section \<open>Making the row\<close>

lemma mem_grow:
  assumes "mem_wf m" and "0 \<le> n" and "mem_new n m = (p, m')"
  shows "p = m_brk m \<and> 0 < p \<and> mem_wf m' \<and> m_brk m' = m_brk m + n + 1 \<and> live_range m' p n \<and>
    (\<forall>a. m_live m a \<longrightarrow> m_live m' a) \<and> m_val m' = m_val m"
  using mem_new_wf [OF assms] assms by (auto simp: mem_new_def mem_wf_def live_range_def)

lemma mq_fresh_resize:
  assumes wf: "mem_wf m" and cap: "0 < cap" "cap \<le> 2147483647"
  shows "\<exists>q' m'. mq_resize cap (mq_ctor (mutex_ctor 0) q) m = Ret (q', m') \<and> mq_inv mutex_free q' m' \<and> mq_sz q' = 0 \<and>
    mq_room q' = nat cap \<and> mq_buf q' = m_brk m \<and> mq_end q' = m_brk m + cap \<and>
    mem_wf m' \<and> m_brk m' = m_brk m + cap + 1 \<and> (\<forall>a. m_live m a \<longrightarrow> m_live m' a)"
proof -
  obtain m1 where new: "mem_new cap m = (m_brk m, m1)" by (simp add: mem_new_def)
  have g: "0 < m_brk m" "mem_wf m1" "m_brk m1 = m_brk m + cap + 1" "live_range m1 (m_brk m) cap"
      "\<forall>a. m_live m a \<longrightarrow> m_live m1 a"
    using mem_grow [OF wf _ new] cap(1) by auto
  have free: "mutex_free (mutex_ctor 0)" by (simp add: mutex_free_def mutex_ctor_def)
  let ?q = "q\<lparr>mq_lock := mutex_ctor 0, mq_own := True, mq_slot := tokens cap, mq_data := tokens 0, mq_sz := 0,
              mq_buf := m_brk m, mq_putp := m_brk m, mq_getp := m_brk m, mq_end := m_brk m + cap\<rparr>"
  have "mq_resize cap (mq_ctor (mutex_ctor 0) q) m = Ret (?q, m1)"
    using cap new g(1) run_times_post [of 0 "nat cap"]
    by (simp add: mq_resize_def mq_ctor_def mq_set_buffer_def mq_destroy_def sema_ctor_def)
  moreover have "mq_inv mutex_free ?q m1" using free cap g(4) by (simp add: mq_inv_def)
  ultimately show ?thesis using g by (simp add: mq_room_def)
qed

lemma aq_resize_each_ok:
  assumes "mem_wf m" and cap: "0 < cap" "cap \<le> 2147483647"
  shows "\<exists>qs m'. aq_resize_each cap (replicate k (mq_ctor (mutex_ctor 0) q0)) m = Ret (qs, m') \<and> length qs = k \<and>
    aq_inv (nat cap) (qs, m') \<and> aq_view (qs, m') = replicate k [] \<and> mem_wf m' \<and>
    (\<forall>q\<in>set qs. m_brk m \<le> mq_buf q) \<and> (\<forall>a. m_live m a \<longrightarrow> m_live m' a)"
  using assms(1)
proof (induction k arbitrary: m)
  case 0
  then show ?case by (simp add: aq_inv_def aq_view_def)
next
  case (Suc k)
  obtain q1 m1 where f: "mq_resize cap (mq_ctor (mutex_ctor 0) q0) m = Ret (q1, m1)" "mq_inv mutex_free q1 m1" "mq_sz q1 = 0"
      "mq_room q1 = nat cap" "mq_buf q1 = m_brk m" "mq_end q1 = m_brk m + cap" "mem_wf m1"
      "m_brk m1 = m_brk m + cap + 1" "\<forall>a. m_live m a \<longrightarrow> m_live m1 a"
    using mq_fresh_resize [OF Suc.prems cap] by blast
  obtain qs m2 where r: "aq_resize_each cap (replicate k (mq_ctor (mutex_ctor 0) q0)) m1 = Ret (qs, m2)" "length qs = k"
      "aq_inv (nat cap) (qs, m2)" "aq_view (qs, m2) = replicate k []" "mem_wf m2"
      "\<forall>q\<in>set qs. m_brk m1 \<le> mq_buf q" "\<forall>a. m_live m1 a \<longrightarrow> m_live m2 a"
    using Suc.IH [OF f(7)] by blast
  have "mq_inv mutex_free q1 m2" using f(2) r(7) by (simp add: mq_inv_def live_range_def)
  moreover have "apart q1 (qs ! j)" "apart (qs ! j) q1" if "j < length qs" for j
    using bspec [OF r(6) nth_mem [OF that]] f(6,8) by (simp_all add: apart_def)
  ultimately have "aq_inv (nat cap) (q1 # qs, m2)"
    using r(3) f(4) by (auto simp: aq_inv_def nth_Cons split: nat.splits)
  moreover have "mq_items q1 m2 = []" using f(3) by (simp add: mq_items_def)
  moreover have "m_brk m \<le> mq_buf q" if "q \<in> set qs" for q using r(6) that f(8) cap(1) by force
  ultimately show ?case using f(1,5,9) r(1,2,4,5,7) by (auto simp: aq_view_def)
qed

text \<open>Buffers of \<open>sz\<close> items at distinct addresses, over separate blocks of data.\<close>

definition bufs_ok :: "int \<Rightarrow> int list \<Rightarrow> bf mem \<Rightarrow> 'a mem \<Rightarrow> bool" where
  "bufs_ok sz ps om dm \<longleftrightarrow> distinct ps \<and> 0 \<notin> set ps \<and>
     (\<forall>p\<in>set ps. m_live om p \<and> bf_end (m_val om p) = bf_base (m_val om p) + sz \<and>
        live_range dm (bf_base (m_val om p)) sz) \<and>
     (\<forall>p\<in>set ps. \<forall>q\<in>set ps. p \<noteq> q \<longrightarrow>
        bf_base (m_val om p) + sz \<le> bf_base (m_val om q) \<or> bf_base (m_val om q) + sz \<le> bf_base (m_val om p))"

lemma aq_fill_ok:
  assumes "aq_inv n (q # qs, qm)" and "length (mq_items q qm) + k \<le> n" and "mem_wf om" and "mem_wf dm" and "0 \<le> sz"
  shows "\<exists>q' qm' om' dm' ps. aq_fill t k sz q qm om dm = Ret (q', qm', om', dm') \<and> aq_inv n (q' # qs, qm') \<and>
    aq_view (q' # qs, qm') = (mq_items q qm @ ps) # aq_view (qs, qm) \<and> length ps = k \<and> bufs_ok sz ps om' dm' \<and>
    (\<forall>p\<in>set ps. m_brk om \<le> p \<and> m_brk dm \<le> bf_base (m_val om' p)) \<and>
    (\<forall>a<m_brk om. m_val om' a = m_val om a) \<and> (\<forall>a. m_live om a \<longrightarrow> m_live om' a) \<and> (\<forall>a. m_live dm a \<longrightarrow> m_live dm' a)"
  using assms(1-4)
proof (induction k arbitrary: q qm om dm)
  case 0
  show ?case
    by (intro exI [of _ q] exI [of _ qm] exI [of _ om] exI [of _ dm] exI [of _ "[]"])
      (use 0 in \<open>simp add: bufs_ok_def aq_view_def\<close>)
next
  case (Suc k)
  obtain om0 where on: "mem_new 1 om = (m_brk om, om0)" by (simp add: mem_new_def)
  obtain dm1 where dn: "mem_new sz dm = (m_brk dm, dm1)" by (simp add: mem_new_def)
  define p where "p = m_brk om"
  define b where "b = fst (bf_ctor_cap sz dm)"
  define om1 where "om1 = om0\<lparr>m_val := (m_val om0)(p := b)\<rparr>"
  note og = mem_grow [OF Suc.prems(3) _ on] and dg = mem_grow [OF Suc.prems(4) assms(5) dn]
  have b: "bf_base b = m_brk dm" "bf_end b = m_brk dm + sz" "bf_ctor_cap sz dm = (b, dm1)"
    using dn by (simp_all add: b_def bf_ctor_cap_def)
  have o1: "mem_wf om1" "m_brk om1 = p + 2" "m_live om1 p" "m_val om1 p = b" "0 < p"
      "\<forall>a<p. m_val om1 a = m_val om a" "\<forall>a. m_live om a \<longrightarrow> m_live om1 a"
    using og by (auto simp: om1_def p_def mem_wf_def live_range_def)
  obtain qs1 qm1 where "aq_put t (int 0) p (q # qs) qm = Ret (qs1, qm1)" "aq_inv n (qs1, qm1)"
      "aq_view (qs1, qm1) = (aq_view (q # qs, qm))[0 := mq_items q qm @ [p]]"
    using aq_put_room [OF Suc.prems(1), of 0 t p] Suc.prems(2) by auto
  then obtain q1 where put: "mq_put (mutex_type t) p q qm = Ret (q1, qm1)" "aq_inv n (q1 # qs, qm1)"
      "aq_view (q1 # qs, qm1) = (mq_items q qm @ [p]) # aq_view (qs, qm)"
    by (auto simp: aq_put_def aq_index_def aq_view_def run_then_Ret_iff)
  then have items: "mq_items q1 qm1 = mq_items q qm @ [p]" "aq_view (qs, qm1) = aq_view (qs, qm)"
    by (simp_all add: aq_view_def)
  obtain q2 qm2 om2 dm2 ps where r: "aq_fill t k sz q1 qm1 om1 dm1 = Ret (q2, qm2, om2, dm2)" "aq_inv n (q2 # qs, qm2)"
      "aq_view (q2 # qs, qm2) = (mq_items q1 qm1 @ ps) # aq_view (qs, qm1)" "length ps = k" "bufs_ok sz ps om2 dm2"
      "\<forall>x\<in>set ps. m_brk om1 \<le> x \<and> m_brk dm1 \<le> bf_base (m_val om2 x)"
      "\<forall>a<m_brk om1. m_val om2 a = m_val om1 a" "\<forall>a. m_live om1 a \<longrightarrow> m_live om2 a" "\<forall>a. m_live dm1 a \<longrightarrow> m_live dm2 a"
    using Suc.IH [OF put(2) _ o1(1), of dm1] dg items(1) Suc.prems(2) by fastforce
  have "aq_fill t (Suc k) sz q qm om dm = Ret (q2, qm2, om2, dm2)"
    using on b(3) put(1) r(1) by (simp add: om1_def p_def Let_def)
  moreover have "m_val om2 p = b" using r(7) o1(2,4) by simp
  moreover have "live_range dm2 (m_brk dm) sz" using dg r(9) by (simp add: live_range_def)
  moreover have "m_brk dm + sz < m_brk dm1" using dg by simp
  ultimately have "bufs_ok sz (p # ps) om2 dm2" "aq_fill t (Suc k) sz q qm om dm = Ret (q2, qm2, om2, dm2)"
      "\<forall>x\<in>set (p # ps). m_brk om \<le> x \<and> m_brk dm \<le> bf_base (m_val om2 x)"
    using r(5,6,8) o1(2,3,5) b(1,2) assms(5) by (force simp: bufs_ok_def p_def)+
  then show ?case using r(2-4,7-9) items o1(2,6,7) dg by (force simp: p_def)
qed

text \<open>The row that \<open>resize\<close> makes: the first queue is full, the others are empty.\<close>

lemma aq_resize_fill_ok:
  assumes "mem_wf qm" and "mem_wf om" and "mem_wf dm" and "0 < nque" and "0 < nbuf" and "nbuf \<le> 2147483647" and "0 \<le> sz"
  shows "\<exists>qs qm' om' dm' ps. aq_resize_fill t nque nbuf sz q0 [] qm om dm = Ret (qs, qm', om', dm') \<and>
    aq_inv (nat nbuf) (qs, qm') \<and> aq_view (qs, qm') = ps # replicate (nque - 1) [] \<and>
    length ps = nat nbuf \<and> bufs_ok sz ps om' dm'"
proof -
  obtain k where k: "nque = Suc k" using assms(4) by (cases nque) auto
  obtain qs qm1 where z: "aq_resize_each nbuf (replicate nque (mq_ctor (mutex_ctor 0) q0)) qm = Ret (qs, qm1)" "length qs = nque"
      "aq_inv (nat nbuf) (qs, qm1)" "aq_view (qs, qm1) = replicate nque []"
    using aq_resize_each_ok [OF assms(1,5,6), of nque q0] by blast
  obtain q qs' where qs: "qs = q # qs'" using z(2) k by (cases qs) auto
  have e: "mq_items q qm1 = []" "aq_view (qs', qm1) = replicate k []" using z(4) qs k by (simp_all add: aq_view_def)
  obtain q2 qm2 om2 dm2 ps where "aq_fill t (nat nbuf) sz q qm1 om dm = Ret (q2, qm2, om2, dm2)" "aq_inv (nat nbuf) (q2 # qs', qm2)"
      "aq_view (q2 # qs', qm2) = ps # replicate k []" "length ps = nat nbuf" "bufs_ok sz ps om2 dm2"
    using aq_fill_ok [of "nat nbuf" q qs' qm1 "nat nbuf" om dm sz t] z(3) qs e assms(2,3,7) by auto
  moreover have "aq_resize nque nbuf q0 [] qm = Ret (q # qs', qm1)"
    using z(1) qs by (simp add: aq_resize_def aq_dealloc_def)
  ultimately show ?thesis using k by (auto simp: aq_resize_fill_def)
qed

end
