(* ===== verification/AcqPipeline.thy ===== *)
theory AcqPipeline imports AcqQueues Threads begin

text \<open>
  \<open>examples/data/AcqDemo/AcqDemo.cpp\<close>: the program that puts the components together. Three
  threads pass buffers around a ring of message queues: one fills empty buffers with a running
  count, one doubles every number in place, one checks the result and returns the buffer. The main
  thread creates them, waits, and shuts them down one after the other.

  Queues, buffers and threads are the models of their own components; a step is one operation on a
  queue, or one thread's work on the buffer that it holds, which no other thread can reach.
  Messages to the console and \<open>sleep\<close> have no part in it.
\<close>

definition BUF_SIZE :: int where "BUF_SIZE = 50"
definition N_BUF :: int where "N_BUF = 4"
definition EMPTY_QUE :: int where "EMPTY_QUE = 0"
definition RAW_QUE :: int where "RAW_QUE = 1"
definition FINISHED_QUE :: int where "FINISHED_QUE = 2"
definition N_QUE :: nat where "N_QUE = 3"

section \<open>What each thread does with a buffer\<close>

text \<open>\<open>for (size_t i=0; i<n; i++) buf[i] = ctr++;\<close> with \<open>k\<close> rounds left.\<close>

fun acq_fill_loop :: "nat \<Rightarrow> int \<Rightarrow> int \<Rightarrow> bf \<Rightarrow> int mem \<Rightarrow> (int \<times> int mem) option" where
  "acq_fill_loop 0 i ctr b m = Some (ctr, m)"
| "acq_fill_loop (Suc k) i ctr b m =
     do { m' \<leftarrow> wr m (bf_base b + i) ctr; acq_fill_loop k (i + 1) (u16 (ctr + 1)) b m' }"

definition acq_fill :: "int \<Rightarrow> int \<Rightarrow> bf mem \<Rightarrow> int mem \<Rightarrow> (int \<times> bf mem \<times> int mem) option" where
  "acq_fill p ctr om dm =
     do { b \<leftarrow> rd om p;
          let b = bf_clear b;
          let n = bf_capacity b;
          (ctr', dm') \<leftarrow> acq_fill_loop (nat n) 0 ctr b dm;
          om' \<leftarrow> wr om p (bf_set_position n b);
          Some (ctr', om', dm') }"

fun proc_loop :: "nat \<Rightarrow> int \<Rightarrow> bf \<Rightarrow> int mem \<Rightarrow> int mem option" where
  "proc_loop 0 i b m = Some m"
| "proc_loop (Suc k) i b m =
     do { v \<leftarrow> bf_index b i m; m' \<leftarrow> wr m (bf_base b + i) (u16 (v * 2)); proc_loop k (i + 1) b m' }"

definition proc_work :: "int \<Rightarrow> bf mem \<Rightarrow> int mem \<Rightarrow> int mem option" where
  "proc_work p om dm = do { b \<leftarrow> rd om p; proc_loop (nat (bf_size b)) 0 b dm }"

text \<open>The check of a buffer: whether every item was the expected one, the next expected value, and
  the buffer.\<close>

lemma bf_get1_available:
  assumes "bf_available b \<noteq> 0" and "bf_get1 b m = Some (v, b')"
  shows "nat (bf_available b') < nat (bf_available b)"
proof -
  have "bf_lim b' - bf_pos b' = bf_lim b - bf_pos b - 1"
    using assms(2) by (cases "rd m (bf_pos b)") (auto simp: bf_get1_def)
  moreover have "u64 (x - 1) = u64 x - 1" if "u64 x \<noteq> 0" for x
  proof -
    have "u64 (x - 1) = (x mod 2 ^ 64 - 1) mod 2 ^ 64" unfolding u64_def by (simp only: mod_diff_left_eq)
    moreover have "0 \<le> x mod 2 ^ 64 - 1" "x mod 2 ^ 64 - 1 < 2 ^ 64"
      using that pos_mod_sign [of "2 ^ 64" x] pos_mod_bound [of "2 ^ 64" x] by (simp_all add: u64_def)
    ultimately show ?thesis by (simp add: u64_def)
  qed
  ultimately show ?thesis using assms(1) u64_bounds [of "bf_lim b - bf_pos b"] by (simp add: bf_available_def)
qed

function comm_check :: "int \<Rightarrow> bf \<Rightarrow> int mem \<Rightarrow> (bool \<times> int \<times> bf) option" where
  "comm_check ctr b m =
     (if bf_available b \<noteq> 0 then
        case bf_get1 b m of
          None \<Rightarrow> None
        | Some (v, b') \<Rightarrow> if ctr \<noteq> v then Some (False, ctr, b') else comm_check (u16 (ctr + 2)) b' m
      else Some (True, ctr, b))"
  by pat_completeness auto
termination
  by (relation "measure (\<lambda>(ctr, b, m). nat (bf_available b))") (auto dest: bf_get1_available)

declare comm_check.simps [simp del]

definition comm_work :: "int \<Rightarrow> int \<Rightarrow> int \<Rightarrow> bf mem \<Rightarrow> int mem \<Rightarrow> (bool \<times> int \<times> int \<times> bf mem) option" where
  "comm_work p n ctr om dm =
     do { b \<leftarrow> rd om p;
          (good, ctr', b1) \<leftarrow> comm_check ctr (bf_flip b) dm;
          _ \<leftarrow> (if n mod 5 = 0 then bf_index b1 0 dm else Some 0);
          om' \<leftarrow> wr om p (bf_clear b1);
          Some (good, u32 (n + 1), ctr', om') }"

section \<open>The threads\<close>

datatype who = AcqT | ProcT | CommT
datatype pl_pc = AtTop | AtGet | HasBuf int | ToPut int | ToRelease | AtEnd
datatype main_act = Start who | AwaitKey | Quit who | Join who

text \<open>The global \<open>bufQue\<close> and the memory behind it, the three thread objects and where their \<open>run\<close>
  stands, its local variables, the number of errors reported, and what \<open>main\<close> has still to do.\<close>

record pl =
  pl_ques :: "mutex mq list"
  pl_qm :: "int mem"
  pl_om :: "bf mem"
  pl_dm :: "int mem"
  pl_th :: "who \<Rightarrow> thread"
  pl_pc :: "who \<Rightarrow> pl_pc"
  pl_acq_ctr :: int
  pl_comm_n :: int
  pl_comm_ctr :: int
  pl_errs :: nat
  pl_main :: "main_act list"

fun tid :: "who \<Rightarrow> nat" where
  "tid AcqT = 1" | "tid ProcT = 2" | "tid CommT = 3"

definition quits :: "who \<Rightarrow> pl \<Rightarrow> bool" where "quits w s = th_quit (pl_th s w)"
definition goto :: "who \<Rightarrow> pl_pc \<Rightarrow> pl \<Rightarrow> pl" where "goto w pc s = s\<lparr>pl_pc := (pl_pc s)(w := pc)\<rparr>"

definition pl_get :: "who \<Rightarrow> int \<Rightarrow> pl \<Rightarrow> pl run" where
  "pl_get w i s =
     run_then (aq_get (tid w) i (pl_ques s) (pl_qm s)) (\<lambda>(p, qs). Ret (goto w (HasBuf p) (s\<lparr>pl_ques := qs\<rparr>)))"
definition pl_put :: "who \<Rightarrow> int \<Rightarrow> int \<Rightarrow> pl_pc \<Rightarrow> pl \<Rightarrow> pl run" where
  "pl_put w i p pc s =
     run_then (aq_put (tid w) i p (pl_ques s) (pl_qm s)) (\<lambda>(qs, qm). Ret (goto w pc (s\<lparr>pl_ques := qs, pl_qm := qm\<rparr>)))"

text \<open>After \<open>run\<close>, the end of the thread; a thread that has ended makes no step.\<close>

definition pl_end :: "who \<Rightarrow> pl \<Rightarrow> pl run" where
  "pl_end w s = Ret (s\<lparr>pl_th := (pl_th s)(w := th_startup_return (th_startup_signal (pl_th s w)))\<rparr>)"

fun acq_run :: "pl_pc \<Rightarrow> pl \<Rightarrow> pl run" where
  "acq_run AtTop s = Ret (goto AcqT (if quits AcqT s then ToRelease else AtGet) s)"
| "acq_run AtGet s = pl_get AcqT EMPTY_QUE s"
| "acq_run (HasBuf p) s =
     (if quits AcqT s then Ret (goto AcqT ToRelease s)
      else run_then (run_opt (acq_fill p (pl_acq_ctr s) (pl_om s) (pl_dm s))) (\<lambda>(ctr, om, dm).
        Ret (goto AcqT (ToPut p) (s\<lparr>pl_acq_ctr := ctr, pl_om := om, pl_dm := dm\<rparr>))))"
| "acq_run (ToPut p) s = pl_put AcqT RAW_QUE p AtTop s"
| "acq_run ToRelease s = pl_put AcqT RAW_QUE 0 AtEnd s"
| "acq_run AtEnd s = pl_end AcqT s"

fun proc_run :: "pl_pc \<Rightarrow> pl \<Rightarrow> pl run" where
  "proc_run AtTop s = Ret (goto ProcT (if quits ProcT s then ToRelease else AtGet) s)"
| "proc_run AtGet s = pl_get ProcT RAW_QUE s"
| "proc_run (HasBuf p) s =
     (if quits ProcT s then Ret (goto ProcT ToRelease s)
      else run_then (run_opt (proc_work p (pl_om s) (pl_dm s))) (\<lambda>dm.
        Ret (goto ProcT (ToPut p) (s\<lparr>pl_dm := dm\<rparr>))))"
| "proc_run (ToPut p) s = pl_put ProcT FINISHED_QUE p AtTop s"
| "proc_run ToRelease s = pl_put ProcT FINISHED_QUE 0 AtEnd s"
| "proc_run AtEnd s = pl_end ProcT s"

fun comm_run :: "pl_pc \<Rightarrow> pl \<Rightarrow> pl run" where
  "comm_run AtTop s = Ret (goto CommT (if quits CommT s then AtEnd else AtGet) s)"
| "comm_run AtGet s = pl_get CommT FINISHED_QUE s"
| "comm_run (HasBuf p) s =
     (if quits CommT s then Ret (goto CommT AtEnd s)
      else run_then (run_opt (comm_work p (pl_comm_n s) (pl_comm_ctr s) (pl_om s) (pl_dm s))) (\<lambda>(good, n, ctr, om).
        Ret (goto CommT (ToPut p)
          (s\<lparr>pl_comm_n := n, pl_comm_ctr := ctr, pl_om := om, pl_errs := (if good then pl_errs s else Suc (pl_errs s))\<rparr>))))"
| "comm_run (ToPut p) s = pl_put CommT EMPTY_QUE p AtTop s"
| "comm_run ToRelease s = Ret (goto CommT AtEnd s)"
| "comm_run AtEnd s = pl_end CommT s"

fun worker_run :: "who \<Rightarrow> pl \<Rightarrow> pl run" where
  "worker_run AcqT s = acq_run (pl_pc s AcqT) s"
| "worker_run ProcT s = proc_run (pl_pc s ProcT) s"
| "worker_run CommT s = comm_run (pl_pc s CommT) s"

section \<open>The main thread\<close>

fun main_run :: "main_act list \<Rightarrow> pl \<Rightarrow> pl run" where
  "main_run [] s = Blocks"
| "main_run (Start w # as) s =
     run_then (th_activate 0 0 0 (pl_th s w)) (\<lambda>(_, th). Ret (s\<lparr>pl_th := (pl_th s)(w := th), pl_main := as\<rparr>))"
| "main_run (AwaitKey # as) s = Ret (s\<lparr>pl_main := as\<rparr>)"
| "main_run (Quit w # as) s = Ret (s\<lparr>pl_th := (pl_th s)(w := th_request_quit (pl_th s w)), pl_main := as\<rparr>)"
| "main_run (Join w # as) s =
     run_then (th_wait (pl_th s w)) (\<lambda>th. Ret (s\<lparr>pl_th := (pl_th s)(w := th), pl_main := as\<rparr>))"

definition pl_prog :: "main_act list" where
  "pl_prog = [Start CommT, Start ProcT, Start AcqT, AwaitKey,
     Quit CommT, Join CommT, Quit ProcT, Join ProcT, Quit AcqT, Join AcqT]"

fun pl_prio :: "who \<Rightarrow> int" where
  "pl_prio CommT = PRIORITY_NORMAL - 1"
| "pl_prio ProcT = PRIORITY_BELOW_NORMAL"
| "pl_prio AcqT = PRIORITY_ABOVE_NORMAL"

definition pl_init :: "mutex mq \<Rightarrow> int mem \<Rightarrow> bf mem \<Rightarrow> int mem \<Rightarrow> pl run" where
  "pl_init q0 qm om dm =
     run_then (aq_resize_fill 0 N_QUE N_BUF BUF_SIZE q0 [] qm om dm) (\<lambda>(qs, qm, om, dm). Ret
       \<lparr>pl_ques = qs, pl_qm = qm, pl_om = om, pl_dm = dm, pl_th = (\<lambda>w. th_ctor (pl_prio w)), pl_pc = (\<lambda>w. AtTop),
        pl_acq_ctr = 0, pl_comm_n = 0, pl_comm_ctr = 0, pl_errs = 0, pl_main = pl_prog\<rparr>)"

definition runs :: "who \<Rightarrow> pl \<Rightarrow> bool" where "runs w s \<longleftrightarrow> th_os (pl_th s w) = Running"

inductive pl_step :: "pl \<Rightarrow> pl \<Rightarrow> bool" where
  main_steps: "main_run (pl_main s) s = Ret s' \<Longrightarrow> pl_step s s'"
| worker_steps: "runs w s \<Longrightarrow> worker_run w s = Ret s' \<Longrightarrow> pl_step s s'"

inductive_cases pl_stepE: "pl_step s s'"

inductive pl_reach :: "pl \<Rightarrow> pl \<Rightarrow> bool" where
  pl_refl: "pl_reach s s"
| pl_more: "pl_reach s s' \<Longrightarrow> pl_step s' s'' \<Longrightarrow> pl_reach s s''"

section \<open>The data of a buffer\<close>

text \<open>A full buffer whose items are \<open>f B\<close>, \<open>f (B + 1)\<close>, ...; and a row of such buffers that count on.\<close>

definition ready :: "(int \<Rightarrow> int) \<Rightarrow> bf mem \<Rightarrow> int mem \<Rightarrow> int \<Rightarrow> int \<Rightarrow> bool" where
  "ready f om dm B p \<longleftrightarrow> (let b = m_val om p in bf_pos b = bf_end b \<and> bf_lim b = bf_end b \<and>
     (\<forall>j. 0 \<le> j \<and> j < BUF_SIZE \<longrightarrow> m_val dm (bf_base b + j) = f (B + j)))"

fun chain :: "(int \<Rightarrow> int) \<Rightarrow> bf mem \<Rightarrow> int mem \<Rightarrow> int \<Rightarrow> int list \<Rightarrow> bool" where
  "chain f om dm B [] = True"
| "chain f om dm B (p # ps) \<longleftrightarrow> ready f om dm B p \<and> chain f om dm (B + BUF_SIZE) ps"

definition dbl :: "int \<Rightarrow> int" where "dbl x = u16 (2 * x)"

text \<open>Work on one buffer leaves every other as it was.\<close>

definition same_buf :: "bf mem \<Rightarrow> int mem \<Rightarrow> bf mem \<Rightarrow> int mem \<Rightarrow> int \<Rightarrow> bool" where
  "same_buf om dm om' dm' q \<longleftrightarrow> m_val om' q = m_val om q \<and>
     (\<forall>j. 0 \<le> j \<and> j < BUF_SIZE \<longrightarrow> m_val dm' (bf_base (m_val om q) + j) = m_val dm (bf_base (m_val om q) + j))"

lemma chain_append [simp]:
  "chain f om dm B (ps @ qs) \<longleftrightarrow> chain f om dm B ps \<and> chain f om dm (B + BUF_SIZE * int (length ps)) qs"
  by (induction ps arbitrary: B) (auto simp: algebra_simps)

lemma chain_same:
  "chain f om dm B ps \<Longrightarrow> \<forall>q\<in>set ps. same_buf om dm om' dm' q \<Longrightarrow> chain f om' dm' B ps"
  by (induction ps arbitrary: B) (auto simp: ready_def same_buf_def Let_def)

lemma u16_u16 [simp]: "u16 (u16 x) = u16 x"
  by (simp add: u16_def)

lemma u16_arith:
  "u16 (u16 x + y) = u16 (x + y)" "u16 (u16 x * y) = u16 (x * y)" "dbl (u16 x + y) = dbl (x + y)"
  by (simp_all add: u16_def dbl_def mod_simps distrib_left) (metis mod_add_left_eq mod_mult_right_eq)

lemma u16_arith': "u16 (y + u16 x) = u16 (y + x)"
  by (simp add: u16_def mod_simps)

lemma dbl_step: "u16 (dbl x + 2) = dbl (x + 1)"
  by (simp add: dbl_def u16_arith)

lemma ready_u16: "ready u16 om dm B p \<Longrightarrow> u16 B = u16 C \<Longrightarrow> ready u16 om dm C p"
  unfolding ready_def Let_def by (metis u16_arith(1))

lemma acq_fill_loop_ok:
  assumes "live_range m (bf_base b + i) (int k)"
  shows "\<exists>m'. acq_fill_loop k i (u16 c) b m = Some (u16 (c + int k), m') \<and> m_live m' = m_live m \<and>
    m_val m' = (\<lambda>a. if bf_base b + i \<le> a \<and> a < bf_base b + i + int k then u16 (c + (a - (bf_base b + i))) else m_val m a)"
  using assms
proof (induction k arbitrary: i c m)
  case 0
  then show ?case by auto
next
  case (Suc k)
  let ?m = "m\<lparr>m_val := (m_val m)(bf_base b + i := u16 c)\<rparr>"
  have w: "wr m (bf_base b + i) (u16 c) = Some ?m"
    using live_range_nth [OF Suc.prems, of "bf_base b + i"] by (simp add: wr_live)
  have "live_range ?m (bf_base b + (i + 1)) (int k)" using Suc.prems by (auto simp: live_range_def)
  from Suc.IH [OF this, of "c + 1"] obtain m' where
      "acq_fill_loop k (i + 1) (u16 (c + 1)) b ?m = Some (u16 (c + 1 + int k), m')" "m_live m' = m_live m"
      "m_val m' = (\<lambda>a. if bf_base b + (i + 1) \<le> a \<and> a < bf_base b + (i + 1) + int k
         then u16 (c + 1 + (a - (bf_base b + (i + 1)))) else m_val ?m a)"
    by auto
  then show ?case using w by (intro exI [of _ m']) (auto simp: u16_arith intro!: ext arg_cong [of _ _ u16])
qed

lemma proc_loop_ok:
  assumes "live_range m (bf_base b + i) (int k)"
  shows "\<exists>m'. proc_loop k i b m = Some m' \<and> m_live m' = m_live m \<and>
    m_val m' = (\<lambda>a. if bf_base b + i \<le> a \<and> a < bf_base b + i + int k then u16 (2 * m_val m a) else m_val m a)"
  using assms
proof (induction k arbitrary: i m)
  case 0
  then show ?case by auto
next
  case (Suc k)
  let ?a = "bf_base b + i"
  let ?m = "m\<lparr>m_val := (m_val m)(?a := u16 (2 * m_val m ?a))\<rparr>"
  have "m_live m ?a" using live_range_nth [OF Suc.prems, of ?a] by simp
  then have w: "bf_index b i m = Some (m_val m ?a)" "wr m ?a (u16 (m_val m ?a * 2)) = Some ?m"
    by (simp_all add: wr_live rd_live bf_index_def mult.commute)
  have "live_range ?m (bf_base b + (i + 1)) (int k)" using Suc.prems by (auto simp: live_range_def)
  from Suc.IH [OF this] obtain m' where "proc_loop k (i + 1) b ?m = Some m'" "m_live m' = m_live m"
      "m_val m' = (\<lambda>a. if bf_base b + (i + 1) \<le> a \<and> a < bf_base b + (i + 1) + int k
         then u16 (2 * m_val ?m a) else m_val ?m a)"
    by auto
  then show ?case using w by (intro exI [of _ m']) (auto intro!: ext)
qed

lemma comm_check_ok:
  assumes "bf_lim b = bf_pos b + int k" and "int k < 2 ^ 64" and "live_range m (bf_pos b) (int k)"
    and "\<forall>j. 0 \<le> j \<and> j < int k \<longrightarrow> m_val m (bf_pos b + j) = dbl (B + j)"
  shows "comm_check (dbl B) b m = Some (True, dbl (B + int k), b\<lparr>bf_pos := bf_lim b\<rparr>)"
  using assms
proof (induction k arbitrary: b B)
  case 0
  then show ?case by (simp add: comm_check.simps [of "dbl B" b] bf_available_def)
next
  case (Suc k)
  let ?b = "b\<lparr>bf_pos := bf_pos b + 1\<rparr>"
  have "m_live m (bf_pos b)" using live_range_nth [OF Suc.prems(3), of "bf_pos b"] by simp
  moreover have "m_val m (bf_pos b) = dbl B" using spec [OF Suc.prems(4), of 0] by simp
  ultimately have g: "bf_get1 b m = Some (dbl B, ?b)" by (simp add: bf_get1_def rd_live)
  have "bf_available b \<noteq> 0" using Suc.prems(1,2) by (simp add: bf_available_def)
  then have "comm_check (dbl B) b m = comm_check (dbl (B + 1)) ?b m"
    using g by (simp add: comm_check.simps [of "dbl B" b] dbl_step)
  moreover have "m_val m (bf_pos ?b + j) = dbl (B + 1 + j)" if "0 \<le> j" "j < int k" for j
    using spec [OF Suc.prems(4), of "1 + j"] that by (simp add: add.assoc)
  moreover have "live_range m (bf_pos ?b) (int k)" using Suc.prems(3) by (auto simp: live_range_def)
  ultimately show ?case using Suc.IH [of ?b "B + 1"] Suc.prems(1,2) by (simp add: algebra_simps)
qed

text \<open>Each thread's work on a buffer \<open>p\<close> of the set.\<close>

lemma bufs_ok_apart:
  assumes "bufs_ok BUF_SIZE ps om dm" "p \<in> set ps" "q \<in> set ps" "q \<noteq> p" "0 \<le> j" "j < BUF_SIZE"
  shows "\<not> (bf_base (m_val om p) \<le> bf_base (m_val om q) + j \<and> bf_base (m_val om q) + j < bf_base (m_val om p) + BUF_SIZE)"
  using assms by (force simp: bufs_ok_def)

lemma bufs_ok_update:
  assumes "bufs_ok sz ps om dm" and "\<forall>q. m_live om' q = m_live om q" and "m_live dm' = m_live dm"
    and "\<forall>q. bf_base (m_val om' q) = bf_base (m_val om q) \<and> bf_end (m_val om' q) = bf_end (m_val om q)"
  shows "bufs_ok sz ps om' dm'"
  using assms by (simp add: bufs_ok_def live_range_def)

lemma acq_fill_ok:
  assumes "bufs_ok BUF_SIZE ps om dm" and "p \<in> set ps"
  shows "\<exists>om' dm'. acq_fill p (u16 c) om dm = Some (u16 (c + BUF_SIZE), om', dm') \<and> bufs_ok BUF_SIZE ps om' dm' \<and>
    ready u16 om' dm' c p \<and> (\<forall>q\<in>set ps. q \<noteq> p \<longrightarrow> same_buf om dm om' dm' q)"
proof -
  define b where "b = bf_clear (m_val om p)"
  have b: "m_live om p" "bf_base b = bf_base (m_val om p)" "bf_end b = bf_base b + BUF_SIZE" "bf_lim b = bf_end b"
      "live_range dm (bf_base b + 0) (int (nat BUF_SIZE))" "bf_end b = bf_end (m_val om p)"
    using assms by (auto simp: bufs_ok_def b_def bf_clear_def BUF_SIZE_def)
  have cap: "bf_capacity b = BUF_SIZE" using b(3) by (simp add: bf_capacity_def BUF_SIZE_def)
  obtain dm' where l: "acq_fill_loop (nat BUF_SIZE) 0 (u16 c) b dm = Some (u16 (c + BUF_SIZE), dm')" "m_live dm' = m_live dm"
      "m_val dm' = (\<lambda>a. if bf_base b \<le> a \<and> a < bf_base b + BUF_SIZE then u16 (c + (a - bf_base b)) else m_val dm a)"
    using acq_fill_loop_ok [OF b(5), of c] by (auto simp: BUF_SIZE_def cong: if_cong)
  define om' where "om' = om\<lparr>m_val := (m_val om)(p := bf_set_position BUF_SIZE b)\<rparr>"
  have run: "acq_fill p (u16 c) om dm = Some (u16 (c + BUF_SIZE), om', dm')"
    using b(1) l(1) by (simp add: acq_fill_def rd_live wr_live b_def [symmetric] cap om'_def Let_def)
  have "bufs_ok BUF_SIZE ps om' dm'"
    by (rule bufs_ok_update [OF assms(1)]) (use l(2) b in \<open>simp_all add: om'_def bf_set_position_def\<close>)
  moreover have "ready u16 om' dm' c p"
    using b l(3) by (simp add: ready_def om'_def bf_set_position_def Let_def)
  moreover have "same_buf om dm om' dm' q" if "q \<in> set ps" "q \<noteq> p" for q
    using bufs_ok_apart [OF assms that] that(2) b(2) l(3) by (auto simp: same_buf_def om'_def)
  ultimately show ?thesis using run by blast
qed

lemma proc_work_ok:
  assumes "bufs_ok BUF_SIZE ps om dm" and "p \<in> set ps" and "ready u16 om dm B p"
  shows "\<exists>dm'. proc_work p om dm = Some dm' \<and> bufs_ok BUF_SIZE ps om dm' \<and> ready dbl om dm' B p \<and>
    (\<forall>q\<in>set ps. q \<noteq> p \<longrightarrow> same_buf om dm om dm' q)"
proof -
  define b where "b = m_val om p"
  have b: "m_live om p" "bf_size b = BUF_SIZE" "live_range dm (bf_base b + 0) (int (nat BUF_SIZE))"
    using assms by (auto simp: bufs_ok_def ready_def b_def Let_def BUF_SIZE_def bf_size_def)
  obtain dm' where l: "proc_loop (nat BUF_SIZE) 0 b dm = Some dm'" "m_live dm' = m_live dm"
      "m_val dm' = (\<lambda>a. if bf_base b \<le> a \<and> a < bf_base b + BUF_SIZE then u16 (2 * m_val dm a) else m_val dm a)"
    using proc_loop_ok [OF b(3)] by (auto simp: BUF_SIZE_def)
  have run: "proc_work p om dm = Some dm'" using b(1,2) l(1) by (simp add: proc_work_def rd_live b_def)
  have "bufs_ok BUF_SIZE ps om dm'" by (rule bufs_ok_update [OF assms(1)]) (use l(2) in simp_all)
  moreover have "u16 (2 * u16 x) = dbl x" for x using u16_arith(2) [of x 2] by (simp add: dbl_def mult.commute)
  then have "ready dbl om dm' B p" using assms(3) l(3) by (simp add: ready_def Let_def b_def)
  moreover have "same_buf om dm om dm' q" if "q \<in> set ps" "q \<noteq> p" for q
    using bufs_ok_apart [OF assms(1,2) that] l(3) by (auto simp: same_buf_def b_def)
  ultimately show ?thesis using run by blast
qed

lemma comm_work_ok:
  assumes "bufs_ok BUF_SIZE ps om dm" and "p \<in> set ps" and "ready dbl om dm B p"
  shows "\<exists>om'. comm_work p n (dbl B) om dm = Some (True, u32 (n + 1), dbl (B + BUF_SIZE), om') \<and> bufs_ok BUF_SIZE ps om' dm \<and>
    (\<forall>q\<in>set ps. q \<noteq> p \<longrightarrow> same_buf om dm om' dm q)"
proof -
  define b where "b = bf_flip (m_val om p)"
  have b: "m_live om p" "bf_base b = bf_base (m_val om p)" "bf_end b = bf_end (m_val om p)" "bf_pos b = bf_base b"
      "bf_lim b = bf_pos b + int (nat BUF_SIZE)" "live_range dm (bf_pos b) (int (nat BUF_SIZE))"
    using assms by (auto simp: bufs_ok_def ready_def b_def bf_flip_def Let_def BUF_SIZE_def)
  have val: "\<forall>j. 0 \<le> j \<and> j < int (nat BUF_SIZE) \<longrightarrow> m_val dm (bf_pos b + j) = dbl (B + j)"
    using assms(3) b(2,4) by (simp add: ready_def Let_def BUF_SIZE_def)
  have c: "comm_check (dbl B) b dm = Some (True, dbl (B + BUF_SIZE), b\<lparr>bf_pos := bf_lim b\<rparr>)"
    using comm_check_ok [OF b(5) _ b(6) val] by (simp add: BUF_SIZE_def)
  have "m_live dm (bf_base b)" using live_range_nth [OF b(6), of "bf_base b"] b(4) by (simp add: BUF_SIZE_def)
  then have i: "bf_index (b\<lparr>bf_pos := bf_lim b\<rparr>) 0 dm = Some (m_val dm (bf_base b))" by (simp add: bf_index_def rd_live)
  define om' where "om' = om\<lparr>m_val := (m_val om)(p := bf_clear (b\<lparr>bf_pos := bf_lim b\<rparr>))\<rparr>"
  have run: "comm_work p n (dbl B) om dm = Some (True, u32 (n + 1), dbl (B + BUF_SIZE), om')"
    using b(1) c i by (simp add: comm_work_def rd_live wr_live b_def [symmetric] om'_def)
  have "bufs_ok BUF_SIZE ps om' dm"
    by (rule bufs_ok_update [OF assms(1)]) (use b in \<open>simp_all add: om'_def bf_clear_def\<close>)
  then show ?thesis using run by (auto simp: same_buf_def om'_def)
qed

end
