(* ===== verification/AcqRing.thy ===== *)
theory AcqRing imports AcqPipeline begin

text \<open>
  What the pipeline of \<open>AcqPipeline\<close> keeps in every interleaving: who holds which buffer, what is in
  it, and how far the shutdown has come. From that: no undefined behaviour and no corrupted data, no
  buffer lost, no deadlock while the demonstration runs, and the interleaving in which its shutdown
  waits for ever.
\<close>

section \<open>Invariant\<close>

subsection \<open>The threads and the program of the main thread\<close>

definition gone :: "who \<Rightarrow> pl \<Rightarrow> bool" where "gone w s \<longleftrightarrow> pl_pc s w \<in> {ToRelease, AtEnd}"

definition thr_ok :: "pl \<Rightarrow> who \<Rightarrow> bool" where
  "thr_ok s w \<longleftrightarrow>
     (if Start w \<in> set (pl_main s) then pl_th s w = th_ctor (pl_prio w) \<and> pl_pc s w = AtTop else th_inv (pl_th s w)) \<and>
     (quits w s \<longleftrightarrow> Quit w \<notin> set (pl_main s)) \<and>
     (Join w \<notin> set (pl_main s) \<longrightarrow> th_os (pl_th s w) = Joined) \<and>
     (th_os (pl_th s w) \<in> {Ended, Joined} \<longrightarrow> pl_pc s w = AtEnd) \<and>
     (gone w s \<longrightarrow> quits w s)"

definition pl_threads :: "pl \<Rightarrow> bool" where
  "pl_threads s \<longleftrightarrow> (\<exists>k\<le>10. pl_main s = drop k pl_prog) \<and> (\<forall>w. thr_ok s w)"

lemma prog_cases:
  assumes "k \<le> 10" "pl_main s = drop k pl_prog"
  obtains "pl_main s = pl_prog" | "pl_main s = tl pl_prog"
  | "pl_main s = [Start AcqT, AwaitKey, Quit CommT, Join CommT, Quit ProcT, Join ProcT, Quit AcqT, Join AcqT]"
  | "pl_main s = [AwaitKey, Quit CommT, Join CommT, Quit ProcT, Join ProcT, Quit AcqT, Join AcqT]"
  | "pl_main s = [Quit CommT, Join CommT, Quit ProcT, Join ProcT, Quit AcqT, Join AcqT]"
  | "pl_main s = [Join CommT, Quit ProcT, Join ProcT, Quit AcqT, Join AcqT]"
  | "pl_main s = [Quit ProcT, Join ProcT, Quit AcqT, Join AcqT]"
  | "pl_main s = [Join ProcT, Quit AcqT, Join AcqT]"
  | "pl_main s = [Quit AcqT, Join AcqT]" | "pl_main s = [Join AcqT]" | "pl_main s = []"
proof -
  have "k \<in> {0, 1, 2, 3, 4, 5, 6, 7, 8, 9, 10}" using assms(1) by (simp; arith)
  then show thesis using that assms(2) by (elim insertE emptyE) (simp_all add: pl_prog_def)
qed

text \<open>The communication thread is gone before the processing thread is asked to quit, and that one
  before the acquisition thread is.\<close>

lemma shutdown_order:
  assumes "pl_threads s"
  shows "quits ProcT s \<Longrightarrow> gone CommT s" "quits AcqT s \<Longrightarrow> gone ProcT s"
    "gone ProcT s \<Longrightarrow> gone CommT s" "gone AcqT s \<Longrightarrow> gone ProcT s" "gone w s \<Longrightarrow> quits CommT s"
proof -
  obtain k where k: "k \<le> 10" "pl_main s = drop k pl_prog" using assms by (auto simp: pl_threads_def)
  have ok: "thr_ok s w" for w using assms by (simp add: pl_threads_def)
  have "Quit ProcT \<notin> set (pl_main s) \<longrightarrow> Join CommT \<notin> set (pl_main s)"
      "Quit AcqT \<notin> set (pl_main s) \<longrightarrow> Join ProcT \<notin> set (pl_main s)"
    by (rule prog_cases [OF k]; simp add: pl_prog_def)+
  then show 1: "quits ProcT s \<Longrightarrow> gone CommT s" and 2: "quits AcqT s \<Longrightarrow> gone ProcT s"
    using ok by (auto simp: thr_ok_def gone_def)
  show 3: "gone ProcT s \<Longrightarrow> gone CommT s" and 4: "gone AcqT s \<Longrightarrow> gone ProcT s"
    using 1 2 ok by (auto simp: thr_ok_def)
  show "gone w s \<Longrightarrow> quits CommT s" using 3 4 ok [of CommT] by (cases w) (auto simp: thr_ok_def)
qed

lemma worker_moves:
  assumes "worker_run w s = Ret s'"
  shows "pl_main s' = pl_main s \<and>
    (if pl_pc s w = AtEnd then pl_end w s = Ret s'
     else pl_th s' = pl_th s \<and> (\<exists>pc. pl_pc s' = (pl_pc s)(w := pc) \<and> (pc \<in> {ToRelease, AtEnd} \<longrightarrow> quits w s \<or> gone w s)))"
  using assms
  by (cases w; cases "pl_pc s w")
    (auto simp: goto_def pl_get_def pl_put_def pl_end_def gone_def run_then_Ret_iff split: if_splits)

lemma worker_threads:
  assumes "pl_threads s" "runs w s" "worker_run w s = Ret s'"
  shows "pl_threads s'"
proof -
  note mv = worker_moves [OF assms(3)]
  have ok: "thr_ok s v" for v using assms(1) by (simp add: pl_threads_def)
  have started: "Start w \<notin> set (pl_main s)" "th_inv (pl_th s w)"
    using ok [of w] assms(2) by (auto simp: thr_ok_def runs_def th_ctor_def split: if_splits)
  have "thr_ok s' v" for v
  proof (cases "pl_pc s w = AtEnd")
    case True
    then have s': "s' = s\<lparr>pl_th := (pl_th s)(w := th_startup_return (th_startup_signal (pl_th s w)))\<rparr>"
      using mv by (simp add: pl_end_def)
    have "th_inv (th_startup_return (th_startup_signal (pl_th s w)))"
      using started(2) assms(2) by (auto simp: th_inv_def th_defs runs_def)
    moreover have "th_quit (th_startup_return (th_startup_signal (pl_th s w))) = th_quit (pl_th s w)"
        "th_os (th_startup_return (th_startup_signal (pl_th s w))) = Ended"
      by (simp_all add: th_defs)
    ultimately show ?thesis using ok [of v] ok [of w] started True assms(2) s'
      by (cases "v = w") (auto simp: thr_ok_def quits_def gone_def runs_def)
  next
    case False
    then obtain pc where pc: "pl_th s' = pl_th s" "pl_main s' = pl_main s" "pl_pc s' = (pl_pc s)(w := pc)"
        "pc \<in> {ToRelease, AtEnd} \<longrightarrow> quits w s \<or> gone w s"
      using mv by auto
    have "th_os (pl_th s w) \<notin> {Ended, Joined}" using assms(2) by (simp add: runs_def)
    then show ?thesis using pc ok [of v] ok [of w] started
      by (cases "v = w") (auto simp: thr_ok_def quits_def gone_def)
  qed
  then show ?thesis using assms(1) mv by (simp add: pl_threads_def)
qed

lemma main_moves:
  assumes "main_run (pl_main s) s = Ret s'"
  shows "pl_ques s' = pl_ques s \<and> pl_qm s' = pl_qm s \<and> pl_om s' = pl_om s \<and> pl_dm s' = pl_dm s \<and> pl_pc s' = pl_pc s \<and>
    pl_acq_ctr s' = pl_acq_ctr s \<and> pl_comm_n s' = pl_comm_n s \<and> pl_comm_ctr s' = pl_comm_ctr s \<and> pl_errs s' = pl_errs s \<and>
    pl_main s \<noteq> [] \<and> pl_main s' = tl (pl_main s)"
  using assms by (cases "(pl_main s, s)" rule: main_run.cases) (auto simp: run_then_Ret_iff)

lemma prog_next:
  assumes "k \<le> 10" "pl_main s = drop k pl_prog" "pl_main s = a # as"
  shows "Suc k \<le> 10 \<and> as = drop (Suc k) pl_prog \<and> a \<notin> set as \<and> (a \<in> {Quit w, Join w} \<longrightarrow> Start w \<notin> set (pl_main s))"
proof -
  have "k \<noteq> 10" using assms by (auto simp: pl_prog_def)
  moreover have "as = drop (Suc k) pl_prog" using assms(2,3) by (metis drop_Suc list.sel(3) tl_drop)
  moreover have "a \<notin> set as \<and> (a \<in> {Quit w, Join w} \<longrightarrow> Start w \<notin> set (pl_main s))"
    by (rule prog_cases [OF assms(1,2)]) (use assms(3) in \<open>auto simp: pl_prog_def\<close>)
  ultimately show ?thesis using assms(1) by simp
qed

lemma th_wait_joins:
  "th_inv th \<Longrightarrow> th_wait th = Ret th' \<Longrightarrow> th_inv th' \<and> th_os th' = Joined \<and> th_quit th' = th_quit th \<and> th_os th \<in> {Ended, Joined}"
  by (cases "th_os th") (auto simp: th_inv_def th_wait_def pthread_join_def)

lemma main_threads:
  assumes "pl_threads s" "main_run (pl_main s) s = Ret s'"
  shows "pl_threads s'"
proof -
  obtain k where k: "k \<le> 10" "pl_main s = drop k pl_prog" using assms(1) by (auto simp: pl_threads_def)
  have ok: "thr_ok s w" for w using assms(1) by (simp add: pl_threads_def)
  note mv = main_moves [OF assms(2)]
  then obtain a as where m: "pl_main s = a # as" "pl_main s' = as" by (cases "pl_main s") auto
  note nx = prog_next [OF k m(1)]
  have "thr_ok s' w" for w
  proof (cases a)
    case (Start v)
    then have "pl_th s v = th_ctor (pl_prio v)" using ok [of v] m(1) by (simp add: thr_ok_def)
    moreover define T where "T = (th_ctor (pl_prio v))\<lparr>th_active := True, th_os := Running\<rparr>"
    ultimately have th: "pl_th s' = (pl_th s)(v := T)"
      using assms(2) m(1) Start by (simp add: th_activate_def run_then_Ret_iff Let_def) (auto simp: th_ctor_def T_def)
    have T: "th_inv T" "\<not> th_quit T" "th_os T = Running"
      by (simp_all add: T_def th_ctor_def th_inv_def ev_ctor_manual_def ev_ctor_def EV_MANUAL_RESET_def)
    have c: "\<not> th_quit (th_ctor x)" "th_os (th_ctor x) = NoThread" for x by (simp_all add: th_ctor_def)
    have "Start v \<notin> set as" "pl_pc s' = pl_pc s" using nx mv Start by blast+
    then show ?thesis using ok [of w] m Start th T c
      by (cases "w = v") (auto simp: thr_ok_def quits_def gone_def)
  next
    case AwaitKey
    then have "pl_th s' = pl_th s" using assms(2) m(1) by auto
    then show ?thesis using ok [of w] mv m AwaitKey by (auto simp: thr_ok_def quits_def gone_def)
  next
    case (Quit v)
    then have "pl_th s' = (pl_th s)(v := th_request_quit (pl_th s v))" using assms(2) m(1) by auto
    moreover have "Quit v \<notin> set as" "Start v \<notin> set as" "pl_pc s' = pl_pc s" using nx [of v] mv m(1) Quit by auto
    ultimately show ?thesis using ok [of w] m Quit
      by (cases "w = v") (auto simp: thr_ok_def quits_def gone_def th_request_quit_def th_inv_def)
  next
    case (Join v)
    then obtain th where th: "th_wait (pl_th s v) = Ret th" "pl_th s' = (pl_th s)(v := th)"
      using assms(2) m(1) by (auto simp: run_then_Ret_iff)
    have "th_inv (pl_th s v)" using ok [of v] nx [of v] Join by (simp add: thr_ok_def)
    note j = th_wait_joins [OF this th(1)]
    have "Join v \<notin> set as" "Start v \<notin> set as" "pl_pc s' = pl_pc s" using nx [of v] mv m(1) Join by auto
    then show ?thesis using ok [of w] m j Join th(2)
      by (cases "w = v") (auto simp: thr_ok_def quits_def gone_def)
  qed
  moreover have "Suc k \<le> 10" "as = drop (Suc k) pl_prog" using nx by blast+
  ultimately show ?thesis using m(2) unfolding pl_threads_def by blast
qed

subsection \<open>Where the buffers are and what is in them\<close>

fun got :: "pl_pc \<Rightarrow> int list" where
  "got (HasBuf p) = [p]" | "got _ = []"
fun giving :: "pl_pc \<Rightarrow> int list" where
  "giving (ToPut p) = [p]" | "giving _ = []"

definition nz :: "int list \<Rightarrow> int list" where "nz ps = filter (\<lambda>p. p \<noteq> 0) ps"

text \<open>The buffers in use, those in the hands of a thread included; \<open>release\<close> puts null pointers, which
  are none.\<close>

definition places :: "pl \<Rightarrow> int list list \<Rightarrow> int list" where
  "places s vs = vs ! 0 @ got (pl_pc s AcqT) @ giving (pl_pc s AcqT) @ nz (vs ! 1) @
     got (pl_pc s ProcT) @ giving (pl_pc s ProcT) @ nz (vs ! 2) @ got (pl_pc s CommT) @ giving (pl_pc s CommT)"

definition pl_owned :: "int list \<Rightarrow> pl \<Rightarrow> int list list \<Rightarrow> bool" where
  "pl_owned ps s vs \<longleftrightarrow> distinct (places s vs) \<and> set (places s vs) \<subseteq> set ps \<and>
     (\<not> quits CommT s \<longrightarrow> length (places s vs) = length ps) \<and>
     (0 \<in> set (vs ! 1) \<longrightarrow> gone ProcT s) \<and> (0 \<in> set (vs ! 2) \<longrightarrow> gone CommT s)"

text \<open>Filled buffers on their way to the processing thread, and processed ones on their way to the
  communication thread, oldest first.\<close>

definition raw_row :: "pl \<Rightarrow> int list list \<Rightarrow> int list" where
  "raw_row s vs = got (pl_pc s ProcT) @ vs ! 1 @ giving (pl_pc s AcqT)"
definition fin_row :: "pl \<Rightarrow> int list list \<Rightarrow> int list" where
  "fin_row s vs = got (pl_pc s CommT) @ vs ! 2 @ giving (pl_pc s ProcT)"

text \<open>Item \<open>B\<close> is the first that is not yet processed.\<close>

definition pl_data :: "pl \<Rightarrow> int list list \<Rightarrow> int \<Rightarrow> bool" where
  "pl_data s vs B \<longleftrightarrow>
     (\<not> gone ProcT s \<longrightarrow> chain u16 (pl_om s) (pl_dm s) B (raw_row s vs) \<and>
        pl_acq_ctr s = u16 (B + BUF_SIZE * int (length (raw_row s vs)))) \<and>
     (\<not> gone CommT s \<longrightarrow> (let A = B - BUF_SIZE * int (length (fin_row s vs))
        in chain dbl (pl_om s) (pl_dm s) A (fin_row s vs) \<and> pl_comm_ctr s = dbl A)) \<and>
     pl_acq_ctr s = u16 (pl_acq_ctr s) \<and> pl_errs s = 0"

definition pl_inv :: "int list \<Rightarrow> pl \<Rightarrow> bool" where
  "pl_inv ps s \<longleftrightarrow> pl_threads s \<and> bufs_ok BUF_SIZE ps (pl_om s) (pl_dm s) \<and> length ps = 4 \<and>
     aq_inv 4 (pl_ques s, pl_qm s) \<and>
     (\<exists>es rs fs B. aq_view (pl_ques s, pl_qm s) = [es, rs, fs] \<and> pl_owned ps s [es, rs, fs] \<and> pl_data s [es, rs, fs] B)"

lemma nz_simps [simp]: "nz [] = []" "nz (p # ps) = (if p = 0 then nz ps else p # nz ps)" "nz (ps @ qs) = nz ps @ nz qs"
    "set (nz ps) = set ps - {0}" "0 \<notin> set ps \<Longrightarrow> nz ps = ps"
  by (auto simp: nz_def filter_id_conv)

lemma row3 [simp]:
  "[a, b, c] ! Suc 0 = b" "[a, b, c] ! 2 = c" "[a, b, c][Suc 0 := x] = [a, x, c]" "[a, b, c][2 := x] = [a, b, x]"
  by (simp_all add: numeral_2_eq_2)

lemma goto_sel [simp]:
  "pl_ques (goto w pc s) = pl_ques s" "pl_qm (goto w pc s) = pl_qm s" "pl_om (goto w pc s) = pl_om s"
  "pl_dm (goto w pc s) = pl_dm s" "pl_th (goto w pc s) = pl_th s" "pl_pc (goto w pc s) = (pl_pc s)(w := pc)"
  "pl_acq_ctr (goto w pc s) = pl_acq_ctr s" "pl_comm_n (goto w pc s) = pl_comm_n s"
  "pl_comm_ctr (goto w pc s) = pl_comm_ctr s" "pl_errs (goto w pc s) = pl_errs s" "pl_main (goto w pc s) = pl_main s"
  by (simp_all add: goto_def)

text \<open>Queue operations of a thread, from the contract of the row of queues.\<close>

lemma pl_get_ok:
  assumes "aq_inv 4 (pl_ques s, pl_qm s)" "aq_view (pl_ques s, pl_qm s) = vs" "i < length vs"
  shows "pl_get w (int i) s \<noteq> Undef" "vs ! i = [] \<Longrightarrow> pl_get w (int i) s = Blocks"
    "vs ! i = p # ps \<Longrightarrow> \<exists>qs. pl_get w (int i) s = Ret (goto w (HasBuf p) (s\<lparr>pl_ques := qs\<rparr>)) \<and>
       aq_inv 4 (qs, pl_qm s) \<and> aq_view (qs, pl_qm s) = vs[i := ps]"
proof -
  have i: "i < length (aq_view (pl_ques s, pl_qm s))" using assms by simp
  show e: "pl_get w (int i) s = Blocks" if "vs ! i = []"
  proof -
    have "aq_get_st (tid w) i (pl_ques s, pl_qm s) = Blocks" using aqs.get_empty [OF assms(1) i] that assms(2) by simp
    then show ?thesis
      by (cases "aq_get (tid w) (int i) (pl_ques s) (pl_qm s)") (auto simp: aq_get_st_def pl_get_def)
  qed
  show g: "\<exists>qs. pl_get w (int i) s = Ret (goto w (HasBuf p) (s\<lparr>pl_ques := qs\<rparr>)) \<and>
      aq_inv 4 (qs, pl_qm s) \<and> aq_view (qs, pl_qm s) = vs[i := ps]" if v: "vs ! i = p # ps" for p ps
  proof -
    obtain s1 where "aq_get_st (tid w) i (pl_ques s, pl_qm s) = Ret (p, s1)" "aq_inv 4 s1" "aq_view s1 = vs[i := ps]"
      using aqs.get_first [OF assms(1) i, of p ps "tid w"] v assms(2) by auto
    then show ?thesis by (auto simp: aq_get_st_def pl_get_def run_then_Ret_iff)
  qed
  show "pl_get w (int i) s \<noteq> Undef" using e g by (cases "vs ! i") fastforce+
qed

lemma pl_put_ok:
  assumes "aq_inv 4 (pl_ques s, pl_qm s)" "aq_view (pl_ques s, pl_qm s) = vs" "i < length vs"
  shows "pl_put w (int i) p pc s \<noteq> Undef" "length (vs ! i) = 4 \<Longrightarrow> pl_put w (int i) p pc s = Blocks"
    "length (vs ! i) < 4 \<Longrightarrow> \<exists>qs qm. pl_put w (int i) p pc s = Ret (goto w pc (s\<lparr>pl_ques := qs, pl_qm := qm\<rparr>)) \<and>
       aq_inv 4 (qs, qm) \<and> aq_view (qs, qm) = vs[i := vs ! i @ [p]]"
proof -
  have i: "i < length (aq_view (pl_ques s, pl_qm s))" using assms by simp
  show e: "pl_put w (int i) p pc s = Blocks" if "length (vs ! i) = 4"
    using aqs.put_full [OF assms(1) i, of "tid w" p] that assms(2) by (simp add: aq_put_st_def pl_put_def)
  show g: "\<exists>qs qm. pl_put w (int i) p pc s = Ret (goto w pc (s\<lparr>pl_ques := qs, pl_qm := qm\<rparr>)) \<and>
      aq_inv 4 (qs, qm) \<and> aq_view (qs, qm) = vs[i := vs ! i @ [p]]" if room: "length (vs ! i) < 4"
  proof -
    obtain qs qm where "aq_put_st (tid w) i p (pl_ques s, pl_qm s) = Ret (qs, qm)" "aq_inv 4 (qs, qm)"
        "aq_view (qs, qm) = vs[i := vs ! i @ [p]]"
      using aqs.put_room [OF assms(1) i, of "tid w" p] room assms(2) by auto
    then show ?thesis by (intro exI [of _ qs] exI [of _ qm]) (simp add: aq_put_st_def pl_put_def)
  qed
  have "length (vs ! i) \<le> 4" using aqs.fits [OF assms(1) i] assms(2) by simp
  then show "pl_put w (int i) p pc s \<noteq> Undef" using e g by (cases "length (vs ! i) = 4") fastforce+
qed

lemma pl_get_Ret:
  assumes "aq_inv 4 (pl_ques s, pl_qm s)" "aq_view (pl_ques s, pl_qm s) = vs" "i < length vs" "pl_get w (int i) s = Ret s'"
  obtains p ps qs where "vs ! i = p # ps" "s' = goto w (HasBuf p) (s\<lparr>pl_ques := qs\<rparr>)" "aq_inv 4 (qs, pl_qm s)"
    "aq_view (qs, pl_qm s) = vs[i := ps]"
  using pl_get_ok(2) [OF assms(1-3), of w] pl_get_ok(3) [OF assms(1-3), of _ _ w] assms(4)
  by (cases "vs ! i") fastforce+

lemma pl_put_Ret:
  assumes "aq_inv 4 (pl_ques s, pl_qm s)" "aq_view (pl_ques s, pl_qm s) = vs" "i < length vs" "pl_put w (int i) p pc s = Ret s'"
  obtains qs qm where "s' = goto w pc (s\<lparr>pl_ques := qs, pl_qm := qm\<rparr>)" "aq_inv 4 (qs, qm)"
    "aq_view (qs, qm) = vs[i := vs ! i @ [p]]" "length (vs ! i) < 4"
proof -
  have "length (vs ! i) \<le> 4" using aqs.fits [OF assms(1), of i] assms(2,3) by simp
  moreover have "length (vs ! i) \<noteq> 4" using pl_put_ok(2) [OF assms(1-3), of w p pc] assms(4) by auto
  ultimately show thesis using pl_put_ok(3) [OF assms(1-3), of w p pc] assms(4) that by fastforce
qed

subsection \<open>Every step keeps the invariant\<close>

lemmas pl_part_defs = pl_owned_def pl_data_def places_def raw_row_def fin_row_def quits_def gone_def

lemma pl_invE:
  assumes "pl_inv ps s"
  obtains es rs fs B where "pl_threads s" "bufs_ok BUF_SIZE ps (pl_om s) (pl_dm s)" "length ps = 4"
    "aq_inv 4 (pl_ques s, pl_qm s)" "aq_view (pl_ques s, pl_qm s) = [es, rs, fs]"
    "pl_owned ps s [es, rs, fs]" "pl_data s [es, rs, fs] B"
  using assms by (auto simp: pl_inv_def)

lemma pl_invI:
  "pl_threads s \<Longrightarrow> bufs_ok BUF_SIZE ps (pl_om s) (pl_dm s) \<Longrightarrow> length ps = 4 \<Longrightarrow> aq_inv 4 (pl_ques s, pl_qm s) \<Longrightarrow>
    aq_view (pl_ques s, pl_qm s) = [es, rs, fs] \<Longrightarrow> pl_owned ps s [es, rs, fs] \<Longrightarrow> pl_data s [es, rs, fs] B \<Longrightarrow> pl_inv ps s"
  by (auto simp: pl_inv_def)

text \<open>Buffers change hands, and may be dropped once the communication thread has been asked to quit.\<close>

lemma distinct_submset: "mset ys \<subseteq># mset xs \<Longrightarrow> distinct xs \<Longrightarrow> distinct ys"
  unfolding distinct_count_atmost_1
  by (metis count_mset_0_iff le_zero_eq less_one linorder_not_less mset_subset_eq_count order_le_less)

lemma owned_move:
  assumes "pl_owned ps s vs" and "mset (places s' vs') \<subseteq># mset (places s vs)"
    and "\<not> quits CommT s' \<Longrightarrow> \<not> quits CommT s \<and> mset (places s' vs') = mset (places s vs)"
    and "0 \<in> set (vs' ! 1) \<Longrightarrow> gone ProcT s'" and "0 \<in> set (vs' ! 2) \<Longrightarrow> gone CommT s'"
  shows "pl_owned ps s' vs'"
proof -
  have "distinct (places s' vs')" using assms(1,2) distinct_submset by (auto simp: pl_owned_def)
  moreover have "set (places s' vs') \<subseteq> set (places s vs)" using set_mset_mono [OF assms(2)] by simp
  moreover have "length (places s' vs') = length ps" if "\<not> quits CommT s'"
    using assms(1) assms(3) [OF that] mset_eq_length [of "places s' vs'" "places s vs"] by (simp add: pl_owned_def)
  ultimately show ?thesis using assms(1,4,5) by (auto simp: pl_owned_def)
qed

lemma data_move:
  assumes "pl_data s vs B"
    and "\<not> gone ProcT s' \<Longrightarrow> \<not> gone ProcT s \<and> raw_row s' vs' = raw_row s vs"
    and "\<not> gone CommT s' \<Longrightarrow> \<not> gone CommT s \<and> fin_row s' vs' = fin_row s vs"
    and "pl_om s' = pl_om s" "pl_dm s' = pl_dm s" "pl_acq_ctr s' = pl_acq_ctr s" "pl_comm_ctr s' = pl_comm_ctr s"
    and "pl_errs s' = pl_errs s"
  shows "pl_data s' vs' B"
  using assms(1-3) unfolding pl_data_def assms(4-8) by metis

text \<open>A buffer that a thread works on is in neither row, except as the first of the processing
  thread's or the communication thread's own.\<close>

lemma rows_distinct:
  assumes "pl_owned ps s vs" "0 \<notin> set ps"
  shows "distinct (vs ! 0 @ got (pl_pc s AcqT) @ nz (raw_row s vs) @ nz (fin_row s vs) @ giving (pl_pc s CommT))" (is "distinct ?l")
    and "set (nz (raw_row s vs)) \<subseteq> set ps" "set (nz (fin_row s vs)) \<subseteq> set ps"
    and "\<not> gone ProcT s \<Longrightarrow> nz (raw_row s vs) = raw_row s vs" "\<not> gone CommT s \<Longrightarrow> nz (fin_row s vs) = fin_row s vs"
proof -
  have o: "distinct (places s vs)" "set (places s vs) \<subseteq> set ps" using assms(1) by (simp_all add: pl_owned_def)
  then have z: "0 \<notin> set (got (pl_pc s w))" "0 \<notin> set (giving (pl_pc s w))" for w
    using assms(2) by (cases w; auto simp: places_def)+
  then show "\<not> gone ProcT s \<Longrightarrow> nz (raw_row s vs) = raw_row s vs" "\<not> gone CommT s \<Longrightarrow> nz (fin_row s vs) = fin_row s vs"
    using assms(1) by (auto simp: pl_owned_def raw_row_def fin_row_def)
  from z have "mset ?l = mset (places s vs)" by (simp add: places_def raw_row_def fin_row_def ac_simps)
  then show "distinct ?l" using o(1) mset_eq_imp_distinct_iff by blast
  show "set (nz (raw_row s vs)) \<subseteq> set ps" "set (nz (fin_row s vs)) \<subseteq> set ps"
    using o(2) by (auto simp: places_def raw_row_def fin_row_def)
qed

text \<open>A step that leaves memory and counters alone.\<close>

lemma pl_move:
  assumes "pl_inv ps s" "aq_view (pl_ques s, pl_qm s) = vs"
    and "pl_threads s'" "aq_inv 4 (pl_ques s', pl_qm s')" "aq_view (pl_ques s', pl_qm s') = [es, rs, fs]"
    and "mset (places s' [es, rs, fs]) \<subseteq># mset (places s vs)"
    and "\<not> quits CommT s' \<Longrightarrow> \<not> quits CommT s \<and> mset (places s' [es, rs, fs]) = mset (places s vs)"
    and "0 \<in> set rs \<Longrightarrow> gone ProcT s'" and "0 \<in> set fs \<Longrightarrow> gone CommT s'"
    and "\<not> gone ProcT s' \<Longrightarrow> \<not> gone ProcT s \<and> raw_row s' [es, rs, fs] = raw_row s vs"
    and "\<not> gone CommT s' \<Longrightarrow> \<not> gone CommT s \<and> fin_row s' [es, rs, fs] = fin_row s vs"
    and "pl_om s' = pl_om s" "pl_dm s' = pl_dm s" "pl_acq_ctr s' = pl_acq_ctr s" "pl_comm_ctr s' = pl_comm_ctr s"
    and "pl_errs s' = pl_errs s"
  shows "pl_inv ps s'"
proof -
  obtain B where v: "bufs_ok BUF_SIZE ps (pl_om s) (pl_dm s)" "length ps = 4" "pl_owned ps s vs" "pl_data s vs B"
    using assms(1,2) by (auto elim!: pl_invE)
  have "pl_owned ps s' [es, rs, fs]" by (rule owned_move [OF v(3) assms(6,7)]) (simp_all add: assms(8,9))
  moreover have "pl_data s' [es, rs, fs] B" by (rule data_move [OF v(4) assms(10,11)]) (simp_all add: assms(12-16))
  ultimately show ?thesis using v(1,2) assms(3-5,12,13) by (auto simp: pl_inv_def)
qed

lemma pl_end_inv:
  assumes "pl_inv ps s" "pl_end w s = Ret s'" "pl_threads s'"
  shows "pl_inv ps s'"
proof -
  obtain es rs fs where v: "aq_inv 4 (pl_ques s, pl_qm s)" "aq_view (pl_ques s, pl_qm s) = [es, rs, fs]" "pl_owned ps s [es, rs, fs]"
    using assms(1) by (auto elim!: pl_invE)
  have s': "s' = s\<lparr>pl_th := (pl_th s)(w := th_startup_return (th_startup_signal (pl_th s w)))\<rparr>"
    using assms(2) by (simp add: pl_end_def)
  have "\<not> quits CommT s' \<longrightarrow> \<not> quits CommT s" by (simp add: s' quits_def th_startup_return_def th_startup_signal_def)
  then show ?thesis using v assms(3)
    by (intro pl_move [OF assms(1) v(2) assms(3), of es rs fs]) (simp_all add: s' places_def raw_row_def fin_row_def gone_def pl_owned_def)
qed

lemma acq_step_inv:
  assumes inv: "pl_inv ps s" and run: "runs AcqT s"
  shows "worker_run AcqT s \<noteq> Undef \<and> (\<forall>s'. worker_run AcqT s = Ret s' \<longrightarrow> pl_inv ps s')"
proof -
  from pl_invE [OF inv] obtain es rs fs B where v: "pl_threads s" "bufs_ok BUF_SIZE ps (pl_om s) (pl_dm s)" "length ps = 4"
    "aq_inv 4 (pl_ques s, pl_qm s)" "aq_view (pl_ques s, pl_qm s) = [es, rs, fs]"
    "pl_owned ps s [es, rs, fs]" "pl_data s [es, rs, fs] B" by metis
  note od = shutdown_order [OF v(1)]
  have thr: "pl_threads s'" if "worker_run AcqT s = Ret s'" for s' using worker_threads [OF v(1) run that] .
  have o: "set (places s [es, rs, fs]) \<subseteq> set ps" "0 \<notin> set ps" "0 \<in> set rs \<longrightarrow> gone ProcT s" "0 \<in> set fs \<longrightarrow> gone CommT s"
    using v(2,6) by (simp_all add: bufs_ok_def pl_owned_def)
  have g: "gone w (goto AcqT pc s2) = gone w s2" "quits w (goto AcqT pc s2) = quits w s2" if "w \<noteq> AcqT" for w pc s2
    using that by (auto simp: gone_def quits_def)
  note move = pl_move [OF inv v(5)]
  show ?thesis
  proof (cases "pl_pc s AcqT")
    case AtTop
    have "pl_inv ps (goto AcqT pc s)" if "pl_threads (goto AcqT pc s)" "pc \<in> {AtGet, ToRelease}" for pc
      by (rule move [OF that(1), of es rs fs]) (use v(4,5) o that(2) AtTop in \<open>auto simp: g places_def raw_row_def fin_row_def\<close>)
    then show ?thesis using AtTop thr by auto
  next
    case AtGet
    have i: "0 < length [es, rs, fs]" by simp
    have "pl_inv ps s'" if r: "pl_get AcqT (int 0) s = Ret s'" "pl_threads s'" for s'
      using pl_get_Ret [OF v(4,5) i r(1)]
    proof cases
      case (1 p es' qs)
      show ?thesis by (rule move [OF r(2), of es' rs fs])
        (use 1 o AtGet in \<open>auto simp: gone_def quits_def places_def raw_row_def fin_row_def\<close>)
    qed
    then show ?thesis using AtGet thr pl_get_ok(1) [OF v(4,5) i, of AcqT] by (simp add: EMPTY_QUE_def)
  next
    case (HasBuf p)
    have p: "p \<in> set ps" using o(1) HasBuf by (auto simp: places_def)
    show ?thesis
    proof (cases "quits AcqT s")
      case True
      then have q: "gone ProcT s" "gone CommT s" "quits CommT s" using od by blast+
      have "pl_inv ps (goto AcqT ToRelease s)" if "pl_threads (goto AcqT ToRelease s)"
        by (rule move [OF that, of es rs fs]) (use v(4,5) q HasBuf in \<open>auto simp: g places_def\<close>)
      then show ?thesis using HasBuf True thr by auto
    next
      case False
      obtain om dm where f: "acq_fill p (pl_acq_ctr s) (pl_om s) (pl_dm s) = Some (u16 (pl_acq_ctr s + BUF_SIZE), om, dm)"
          "bufs_ok BUF_SIZE ps om dm" "ready u16 om dm (pl_acq_ctr s) p"
          "\<forall>q\<in>set ps. q \<noteq> p \<longrightarrow> same_buf (pl_om s) (pl_dm s) om dm q"
        using acq_fill_ok [OF v(2) p, of "pl_acq_ctr s"] v(7) by (auto simp: pl_data_def)
      let ?s = "goto AcqT (ToPut p) (s\<lparr>pl_acq_ctr := u16 (pl_acq_ctr s + BUF_SIZE), pl_om := om, pl_dm := dm\<rparr>)"
      have r: "worker_run AcqT s = Ret ?s" using HasBuf False f(1) by simp
      have own: "pl_owned ps ?s [es, rs, fs]"
        by (rule owned_move [OF v(6)]) (use o(3,4) HasBuf in \<open>auto simp: gone_def quits_def places_def\<close>)
      note rd = rows_distinct [OF v(6) o(2)]
      have "\<forall>q\<in>set (nz (raw_row s [es, rs, fs])) \<union> set (nz (fin_row s [es, rs, fs])). same_buf (pl_om s) (pl_dm s) om dm q"
        using rd(1-3) f(4) HasBuf by (force simp del: nz_simps(4))
      then have sm: "\<not> gone ProcT s \<Longrightarrow> \<forall>q\<in>set (raw_row s [es, rs, fs]). same_buf (pl_om s) (pl_dm s) om dm q"
           "\<not> gone CommT s \<Longrightarrow> \<forall>q\<in>set (fin_row s [es, rs, fs]). same_buf (pl_om s) (pl_dm s) om dm q"
        using rd(4,5) by (metis UnI1, metis UnI2)
      have rows: "raw_row ?s [es, rs, fs] = raw_row s [es, rs, fs] @ [p]" "fin_row ?s [es, rs, fs] = fin_row s [es, rs, fs]"
          "gone ProcT ?s = gone ProcT s" "gone CommT ?s = gone CommT s"
        using HasBuf by (simp_all add: raw_row_def fin_row_def gone_def)
      have "pl_data ?s [es, rs, fs] B"
        using v(7) chain_same [OF _ sm(1), of u16 B] chain_same [OF _ sm(2), of dbl] f(3)
        unfolding pl_data_def rows by (auto simp: Let_def u16_arith u16_arith' algebra_simps intro: ready_u16)
      then have "pl_inv ps ?s" using v f(2) own thr [OF r] by (intro pl_invI [of ?s ps es rs fs B]) simp_all
      then show ?thesis using r by simp
    qed
  next
    case (ToPut p)
    then have p: "p \<noteq> 0" using o by (auto simp: places_def)
    have i: "1 < length [es, rs, fs]" by simp
    have "pl_inv ps s'" if r: "pl_put AcqT (int 1) p AtTop s = Ret s'" "pl_threads s'" for s'
      using pl_put_Ret [OF v(4,5) i r(1)]
    proof cases
      case (1 qs qm)
      show ?thesis by (rule move [OF r(2), of es "rs @ [p]" fs])
        (use 1 o p ToPut in \<open>auto simp: gone_def quits_def places_def raw_row_def fin_row_def\<close>)
    qed
    then show ?thesis using ToPut thr pl_put_ok(1) [OF v(4,5) i, of AcqT p AtTop] by (simp add: RAW_QUE_def)
  next
    case ToRelease
    have q: "gone ProcT s" "gone CommT s" using od(3,4) ToRelease by (auto simp: gone_def)
    have i: "1 < length [es, rs, fs]" by simp
    have "pl_inv ps s'" if r: "pl_put AcqT (int 1) 0 AtEnd s = Ret s'" "pl_threads s'" for s'
      using pl_put_Ret [OF v(4,5) i r(1)]
    proof cases
      case (1 qs qm)
      show ?thesis by (rule move [OF r(2), of es "rs @ [0]" fs])
        (use 1 q ToRelease in \<open>auto simp: gone_def quits_def places_def\<close>)
    qed
    then show ?thesis using ToRelease thr pl_put_ok(1) [OF v(4,5) i, of AcqT 0 AtEnd] by (simp add: RAW_QUE_def)
  next
    case AtEnd
    have e: "worker_run AcqT s = pl_end AcqT s" using AtEnd by simp
    then have "pl_inv ps s'" if "worker_run AcqT s = Ret s'" for s'
      using pl_end_inv [OF inv _ thr [OF that]] that by simp
    moreover have "pl_end AcqT s \<noteq> Undef" by (simp add: pl_end_def)
    ultimately show ?thesis using e by auto
  qed
qed

lemma proc_step_inv:
  assumes inv: "pl_inv ps s" and run: "runs ProcT s"
  shows "worker_run ProcT s \<noteq> Undef \<and> (\<forall>s'. worker_run ProcT s = Ret s' \<longrightarrow> pl_inv ps s')"
proof -
  from pl_invE [OF inv] obtain es rs fs B where v: "pl_threads s" "bufs_ok BUF_SIZE ps (pl_om s) (pl_dm s)" "length ps = 4"
    "aq_inv 4 (pl_ques s, pl_qm s)" "aq_view (pl_ques s, pl_qm s) = [es, rs, fs]"
    "pl_owned ps s [es, rs, fs]" "pl_data s [es, rs, fs] B" by metis
  note od = shutdown_order [OF v(1)]
  have thr: "pl_threads s'" if "worker_run ProcT s = Ret s'" for s' using worker_threads [OF v(1) run that] .
  have o: "set (places s [es, rs, fs]) \<subseteq> set ps" "0 \<notin> set ps" "0 \<in> set rs \<longrightarrow> gone ProcT s" "0 \<in> set fs \<longrightarrow> gone CommT s"
    using v(2,6) by (simp_all add: bufs_ok_def pl_owned_def)
  note move = pl_move [OF inv v(5)]
  show ?thesis
  proof (cases "pl_pc s ProcT")
    case AtTop
    have "pl_inv ps (goto ProcT pc s)" if "pl_threads (goto ProcT pc s)" "pc = AtGet \<or> pc = ToRelease" for pc
      by (rule move [OF that(1), of es rs fs])
        (use v(4,5) o that(2) AtTop in \<open>auto simp: gone_def quits_def places_def raw_row_def fin_row_def\<close>)
    then show ?thesis using AtTop thr by auto
  next
    case AtGet
    have i: "1 < length [es, rs, fs]" by simp
    have "pl_inv ps s'" if r: "pl_get ProcT (int 1) s = Ret s'" "pl_threads s'" for s'
      using pl_get_Ret [OF v(4,5) i r(1)]
    proof cases
      case (1 p rs' qs)
      then have "p \<noteq> 0" using o(3) AtGet by (auto simp: gone_def)
      then show ?thesis by (intro move [OF r(2), of es rs' fs])
        (use 1 o AtGet in \<open>auto simp: gone_def quits_def places_def raw_row_def fin_row_def\<close>)
    qed
    then show ?thesis using AtGet thr pl_get_ok(1) [OF v(4,5) i, of ProcT] by (simp add: RAW_QUE_def)
  next
    case (HasBuf p)
    have p: "p \<in> set ps" "p \<noteq> 0" "\<not> gone ProcT s" using o(1,2) HasBuf by (auto simp: places_def gone_def)
    show ?thesis
    proof (cases "quits ProcT s")
      case True
      then have q: "gone CommT s" "quits CommT s" using od by blast+
      have "pl_inv ps (goto ProcT ToRelease s)" if "pl_threads (goto ProcT ToRelease s)"
        by (rule move [OF that, of es rs fs]) (use v(4,5) q HasBuf in \<open>auto simp: gone_def quits_def places_def\<close>)
      then show ?thesis using HasBuf True thr by auto
    next
      case False
      define rest where "rest = rs @ giving (pl_pc s AcqT)"
      have row: "raw_row s [es, rs, fs] = p # rest" using HasBuf by (simp add: raw_row_def rest_def)
      have d: "ready u16 (pl_om s) (pl_dm s) B p" "chain u16 (pl_om s) (pl_dm s) (B + BUF_SIZE) rest"
          "pl_acq_ctr s = u16 (B + BUF_SIZE + BUF_SIZE * int (length rest))"
        using v(7) p(3) by (simp_all add: pl_data_def row algebra_simps)
      obtain dm where f: "proc_work p (pl_om s) (pl_dm s) = Some dm" "bufs_ok BUF_SIZE ps (pl_om s) dm"
          "ready dbl (pl_om s) dm B p" "\<forall>q\<in>set ps. q \<noteq> p \<longrightarrow> same_buf (pl_om s) (pl_dm s) (pl_om s) dm q"
        using proc_work_ok [OF v(2) p(1) d(1)] by auto
      let ?s = "goto ProcT (ToPut p) (s\<lparr>pl_dm := dm\<rparr>)"
      have r: "worker_run ProcT s = Ret ?s" using HasBuf False f(1) by simp
      have own: "pl_owned ps ?s [es, rs, fs]"
        by (rule owned_move [OF v(6)]) (use o(3,4) HasBuf in \<open>auto simp: gone_def quits_def places_def\<close>)
      note rd = rows_distinct [OF v(6) o(2)]
      have "nz (raw_row s [es, rs, fs]) = p # rest" using rd(4) p(3) row by simp
      then have "\<forall>q\<in>set rest \<union> set (nz (fin_row s [es, rs, fs])). same_buf (pl_om s) (pl_dm s) (pl_om s) dm q"
        using rd(1-3) f(4) by (force simp del: nz_simps(4))
      then have sm: "\<forall>q\<in>set rest. same_buf (pl_om s) (pl_dm s) (pl_om s) dm q"
           "\<not> gone CommT s \<Longrightarrow> \<forall>q\<in>set (fin_row s [es, rs, fs]). same_buf (pl_om s) (pl_dm s) (pl_om s) dm q"
        using rd(5) by (metis UnI1, metis UnI2)
      have rows: "raw_row ?s [es, rs, fs] = rest" "fin_row ?s [es, rs, fs] = fin_row s [es, rs, fs] @ [p]"
          "\<not> gone ProcT ?s" "gone CommT ?s = gone CommT s"
        using HasBuf by (simp_all add: raw_row_def fin_row_def gone_def rest_def)
      have "pl_data ?s [es, rs, fs] (B + BUF_SIZE)"
        using v(7) chain_same [OF d(2) sm(1)] chain_same [OF _ sm(2), of dbl] f(3) d(3)
        unfolding pl_data_def rows by (auto simp: Let_def algebra_simps)
      then have "pl_inv ps ?s" using v f(2) own thr [OF r] by (intro pl_invI [of ?s ps es rs fs "B + BUF_SIZE"]) simp_all
      then show ?thesis using r by simp
    qed
  next
    case (ToPut p)
    then have p: "p \<noteq> 0" using o by (auto simp: places_def)
    have i: "2 < length [es, rs, fs]" by simp
    have "pl_inv ps s'" if r: "pl_put ProcT (int 2) p AtTop s = Ret s'" "pl_threads s'" for s'
      using pl_put_Ret [OF v(4,5) i r(1)]
    proof cases
      case (1 qs qm)
      show ?thesis by (rule move [OF r(2), of es rs "fs @ [p]"])
        (use 1 o p ToPut in \<open>auto simp: gone_def quits_def places_def raw_row_def fin_row_def\<close>)
    qed
    then show ?thesis using ToPut thr pl_put_ok(1) [OF v(4,5) i, of ProcT p AtTop] by (simp add: FINISHED_QUE_def)
  next
    case ToRelease
    have q: "gone CommT s" "gone ProcT s" using od(3) ToRelease by (auto simp: gone_def)
    have i: "2 < length [es, rs, fs]" by simp
    have "pl_inv ps s'" if r: "pl_put ProcT (int 2) 0 AtEnd s = Ret s'" "pl_threads s'" for s'
      using pl_put_Ret [OF v(4,5) i r(1)]
    proof cases
      case (1 qs qm)
      show ?thesis by (rule move [OF r(2), of es rs "fs @ [0]"])
        (use 1 q ToRelease in \<open>auto simp: gone_def quits_def places_def\<close>)
    qed
    then show ?thesis using ToRelease thr pl_put_ok(1) [OF v(4,5) i, of ProcT 0 AtEnd] by (simp add: FINISHED_QUE_def)
  next
    case AtEnd
    have e: "worker_run ProcT s = pl_end ProcT s" using AtEnd by simp
    then have "pl_inv ps s'" if "worker_run ProcT s = Ret s'" for s'
      using pl_end_inv [OF inv _ thr [OF that]] that by simp
    moreover have "pl_end ProcT s \<noteq> Undef" by (simp add: pl_end_def)
    ultimately show ?thesis using e by auto
  qed
qed

lemma comm_step_inv:
  assumes inv: "pl_inv ps s" and run: "runs CommT s"
  shows "worker_run CommT s \<noteq> Undef \<and> (\<forall>s'. worker_run CommT s = Ret s' \<longrightarrow> pl_inv ps s')"
proof -
  from pl_invE [OF inv] obtain es rs fs B where v: "pl_threads s" "bufs_ok BUF_SIZE ps (pl_om s) (pl_dm s)" "length ps = 4"
    "aq_inv 4 (pl_ques s, pl_qm s)" "aq_view (pl_ques s, pl_qm s) = [es, rs, fs]"
    "pl_owned ps s [es, rs, fs]" "pl_data s [es, rs, fs] B" by metis
  have thr: "pl_threads s'" if "worker_run CommT s = Ret s'" for s' using worker_threads [OF v(1) run that] .
  have o: "set (places s [es, rs, fs]) \<subseteq> set ps" "0 \<notin> set ps" "0 \<in> set rs \<longrightarrow> gone ProcT s" "0 \<in> set fs \<longrightarrow> gone CommT s"
    using v(2,6) by (simp_all add: bufs_ok_def pl_owned_def)
  note move = pl_move [OF inv v(5)]
  show ?thesis
  proof (cases "pl_pc s CommT")
    case AtTop
    have "pl_inv ps (goto CommT pc s)" if "pl_threads (goto CommT pc s)" "pc = AtGet \<or> pc = AtEnd" for pc
      by (rule move [OF that(1), of es rs fs])
        (use v(4,5) o that(2) AtTop in \<open>auto simp: gone_def quits_def places_def raw_row_def fin_row_def\<close>)
    then show ?thesis using AtTop thr by auto
  next
    case AtGet
    have i: "2 < length [es, rs, fs]" by simp
    have "pl_inv ps s'" if r: "pl_get CommT (int 2) s = Ret s'" "pl_threads s'" for s'
      using pl_get_Ret [OF v(4,5) i r(1)]
    proof cases
      case (1 p fs' qs)
      then have "p \<noteq> 0" using o(4) AtGet by (auto simp: gone_def)
      then show ?thesis by (intro move [OF r(2), of es rs fs'])
        (use 1 o AtGet in \<open>auto simp: gone_def quits_def places_def raw_row_def fin_row_def\<close>)
    qed
    then show ?thesis using AtGet thr pl_get_ok(1) [OF v(4,5) i, of CommT] by (simp add: FINISHED_QUE_def)
  next
    case (HasBuf p)
    have p: "p \<in> set ps" "p \<noteq> 0" "\<not> gone CommT s" using o(1,2) HasBuf by (auto simp: places_def gone_def)
    show ?thesis
    proof (cases "quits CommT s")
      case True
      have "pl_inv ps (goto CommT AtEnd s)" if "pl_threads (goto CommT AtEnd s)"
        by (rule move [OF that, of es rs fs])
          (use v(4,5) o True HasBuf in \<open>auto simp: gone_def quits_def places_def raw_row_def\<close>)
      then show ?thesis using HasBuf True thr by auto
    next
      case False
      define rest where "rest = fs @ giving (pl_pc s ProcT)"
      define A where "A = B - BUF_SIZE * (int (length rest) + 1)"
      have row: "fin_row s [es, rs, fs] = p # rest" using HasBuf by (simp add: fin_row_def rest_def)
      have d: "ready dbl (pl_om s) (pl_dm s) A p" "chain dbl (pl_om s) (pl_dm s) (A + BUF_SIZE) rest" "pl_comm_ctr s = dbl A"
        using v(7) p(3) by (simp_all add: pl_data_def row A_def Let_def algebra_simps)
      obtain om where f: "comm_work p (pl_comm_n s) (pl_comm_ctr s) (pl_om s) (pl_dm s) =
            Some (True, u32 (pl_comm_n s + 1), dbl (A + BUF_SIZE), om)" "bufs_ok BUF_SIZE ps om (pl_dm s)"
          "\<forall>q\<in>set ps. q \<noteq> p \<longrightarrow> same_buf (pl_om s) (pl_dm s) om (pl_dm s) q"
        using comm_work_ok [OF v(2) p(1) d(1), of "pl_comm_n s"] d(3) by auto
      let ?s = "goto CommT (ToPut p) (s\<lparr>pl_comm_n := u32 (pl_comm_n s + 1), pl_comm_ctr := dbl (A + BUF_SIZE), pl_om := om\<rparr>)"
      have r: "worker_run CommT s = Ret ?s" using HasBuf False f(1) by simp
      have own: "pl_owned ps ?s [es, rs, fs]"
        by (rule owned_move [OF v(6)]) (use o(3,4) HasBuf in \<open>auto simp: gone_def quits_def places_def\<close>)
      note rd = rows_distinct [OF v(6) o(2)]
      have "nz (fin_row s [es, rs, fs]) = p # rest" using rd(5) p(3) row by simp
      then have "\<forall>q\<in>set (nz (raw_row s [es, rs, fs])) \<union> set rest. same_buf (pl_om s) (pl_dm s) om (pl_dm s) q"
        using rd(1-3) f(3) by (force simp del: nz_simps(4))
      then have sm: "\<not> gone ProcT s \<Longrightarrow> \<forall>q\<in>set (raw_row s [es, rs, fs]). same_buf (pl_om s) (pl_dm s) om (pl_dm s) q"
           "\<forall>q\<in>set rest. same_buf (pl_om s) (pl_dm s) om (pl_dm s) q"
        using rd(4) by (metis UnI1, metis UnI2)
      have rows: "raw_row ?s [es, rs, fs] = raw_row s [es, rs, fs]" "fin_row ?s [es, rs, fs] = rest"
          "gone ProcT ?s = gone ProcT s" "\<not> gone CommT ?s"
        using HasBuf by (simp_all add: raw_row_def fin_row_def gone_def rest_def)
      have "A + BUF_SIZE = B - BUF_SIZE * int (length rest)" by (simp add: A_def algebra_simps)
      then have "pl_data ?s [es, rs, fs] B"
        using v(7) chain_same [OF _ sm(1), of u16 B] chain_same [OF d(2) sm(2)]
        unfolding pl_data_def rows by (auto simp: Let_def)
      then have "pl_inv ps ?s" using v f(2) own thr [OF r] by (intro pl_invI [of ?s ps es rs fs B]) simp_all
      then show ?thesis using r by simp
    qed
  next
    case (ToPut p)
    then have p: "p \<noteq> 0" using o by (auto simp: places_def)
    have i: "0 < length [es, rs, fs]" by simp
    have "pl_inv ps s'" if r: "pl_put CommT (int 0) p AtTop s = Ret s'" "pl_threads s'" for s'
      using pl_put_Ret [OF v(4,5) i r(1)]
    proof cases
      case (1 qs qm)
      show ?thesis by (rule move [OF r(2), of "es @ [p]" rs fs])
        (use 1 o p ToPut in \<open>auto simp: gone_def quits_def places_def raw_row_def fin_row_def\<close>)
    qed
    then show ?thesis using ToPut thr pl_put_ok(1) [OF v(4,5) i, of CommT p AtTop] by (simp add: EMPTY_QUE_def)
  next
    case ToRelease
    have "pl_inv ps (goto CommT AtEnd s)" if "pl_threads (goto CommT AtEnd s)"
      by (rule move [OF that, of es rs fs]) (use v(4,5) o ToRelease in \<open>auto simp: gone_def quits_def places_def raw_row_def\<close>)
    then show ?thesis using ToRelease thr by auto
  next
    case AtEnd
    have e: "worker_run CommT s = pl_end CommT s" using AtEnd by simp
    then have "pl_inv ps s'" if "worker_run CommT s = Ret s'" for s'
      using pl_end_inv [OF inv _ thr [OF that]] that by simp
    moreover have "pl_end CommT s \<noteq> Undef" by (simp add: pl_end_def)
    ultimately show ?thesis using e by auto
  qed
qed

lemma main_step_inv:
  assumes "pl_inv ps s" "main_run (pl_main s) s = Ret s'"
  shows "pl_inv ps s'"
proof -
  from pl_invE [OF assms(1)] obtain es rs fs B where v: "pl_threads s" "bufs_ok BUF_SIZE ps (pl_om s) (pl_dm s)" "length ps = 4"
    "aq_inv 4 (pl_ques s, pl_qm s)" "aq_view (pl_ques s, pl_qm s) = [es, rs, fs]"
    "pl_owned ps s [es, rs, fs]" "pl_data s [es, rs, fs] B" by metis
  note mv = main_moves [OF assms(2)] and thr = main_threads [OF v(1) assms(2)]
  have "Quit CommT \<notin> set (pl_main s) \<longrightarrow> Quit CommT \<notin> set (pl_main s')" using mv by (cases "pl_main s") auto
  then have "\<not> quits CommT s' \<longrightarrow> \<not> quits CommT s" using v(1) thr by (auto simp: pl_threads_def thr_ok_def)
  then show ?thesis using mv v
    by (intro pl_move [OF assms(1) v(5) thr, of es rs fs])
      (simp_all add: places_def raw_row_def fin_row_def gone_def pl_owned_def)
qed

lemma pl_step_inv: "pl_step s s' \<Longrightarrow> pl_inv ps s \<Longrightarrow> pl_inv ps s'"
proof (elim pl_stepE)
  fix w
  assume "pl_inv ps s" "runs w s" "worker_run w s = Ret s'"
  then show ?thesis using acq_step_inv proc_step_inv comm_step_inv by (cases w) blast+
qed (rule main_step_inv)

lemma pl_reach_inv: "pl_reach s s' \<Longrightarrow> pl_inv ps s \<Longrightarrow> pl_inv ps s'"
  by (induction rule: pl_reach.induct) (auto intro: pl_step_inv)

lemma worker_step_inv:
  "pl_inv ps s \<Longrightarrow> runs w s \<Longrightarrow> worker_run w s \<noteq> Undef \<and> (\<forall>s'. worker_run w s = Ret s' \<longrightarrow> pl_inv ps s')"
  using acq_step_inv proc_step_inv comm_step_inv by (cases w) blast+

section \<open>Progress\<close>

fun src :: "who \<Rightarrow> nat" where "src AcqT = 0" | "src ProcT = 1" | "src CommT = 2"
fun dst :: "who \<Rightarrow> nat" where "dst AcqT = 1" | "dst ProcT = 2" | "dst CommT = 0"

text \<open>The thread's loop, for all three.\<close>

lemma worker_loop:
  shows "pl_pc s w = AtTop \<Longrightarrow> \<not> quits w s \<Longrightarrow> worker_run w s = Ret (goto w AtGet s)"
    and "pl_pc s w = AtGet \<Longrightarrow> worker_run w s = pl_get w (int (src w)) s"
    and "pl_pc s w = ToPut p \<Longrightarrow> worker_run w s = pl_put w (int (dst w)) p AtTop s"
  by (cases w; simp add: EMPTY_QUE_def RAW_QUE_def FINISHED_QUE_def)+

lemma worker_works:
  assumes "pl_pc s w = HasBuf p" "\<not> quits w s" "worker_run w s \<noteq> Undef"
  shows "\<exists>s'. worker_run w s = Ret s' \<and> pl_pc s' = (pl_pc s)(w := ToPut p) \<and> pl_ques s' = pl_ques s \<and> pl_qm s' = pl_qm s \<and>
    pl_th s' = pl_th s \<and> pl_main s' = pl_main s"
  using assms by (cases w) (auto simp: run_opt_def split: option.splits prod.splits)

text \<open>Once started and until asked to quit, a thread runs.\<close>

lemma started_runs:
  assumes "pl_threads s" "Start w \<notin> set (pl_main s)" "\<not> quits w s"
  shows "runs w s"
proof -
  have "thr_ok s w" using assms(1) by (simp add: pl_threads_def)
  then have "th_inv (pl_th s w)" "th_os (pl_th s w) \<notin> {Ended, Joined}" using assms(2,3) by (auto simp: thr_ok_def gone_def)
  then show ?thesis by (cases "th_os (pl_th s w)") (auto simp: th_inv_def runs_def)
qed

lemma pl_trans: "pl_reach s' s'' \<Longrightarrow> pl_reach s s' \<Longrightarrow> pl_reach s s''"
  by (induction rule: pl_reach.induct) (auto intro: pl_reach.intros)

lemma pl_one: "runs w s \<Longrightarrow> worker_run w s = Ret s' \<Longrightarrow> pl_reach s s'"
  by (auto intro: pl_more [OF pl_refl] worker_steps)

lemma pl_main_one: "main_run (pl_main s) s = Ret s' \<Longrightarrow> pl_reach s s'"
  by (auto intro: pl_more [OF pl_refl] main_steps)

text \<open>One pass of a thread takes the first buffer of its queue to the end of the next queue.\<close>

lemma worker_pass:
  assumes inv: "pl_inv ps s" and w: "runs w s" "\<not> quits w s" "pl_pc s w = AtTop"
    and v: "aq_view (pl_ques s, pl_qm s) = vs" "vs ! src w = p # qs" "length (vs ! dst w) < 4"
  shows "\<exists>s'. pl_reach s s' \<and> pl_pc s' = pl_pc s \<and> pl_th s' = pl_th s \<and> pl_main s' = pl_main s \<and>
    aq_view (pl_ques s', pl_qm s') = vs[src w := qs, dst w := vs ! dst w @ [p]]"
proof -
  have l: "src w < length vs" "dst w < length vs" "src w \<noteq> dst w" using inv v(1) by (cases w; auto simp: pl_inv_def)+
  let ?s1 = "goto w AtGet s"
  have r1: "pl_reach s ?s1" by (rule pl_one [OF w(1) worker_loop(1) [OF w(3,2)]])
  have i1: "aq_inv 4 (pl_ques ?s1, pl_qm ?s1)" using inv by (simp add: pl_inv_def)
  obtain Q where g: "pl_get w (int (src w)) ?s1 = Ret (goto w (HasBuf p) (?s1\<lparr>pl_ques := Q\<rparr>))"
      "aq_view (Q, pl_qm s) = vs[src w := qs]"
    using pl_get_ok(3) [OF i1 _ l(1) v(2), of w] v(1) by auto
  let ?s2 = "goto w (HasBuf p) (?s1\<lparr>pl_ques := Q\<rparr>)"
  have r2: "pl_reach ?s1 ?s2" using pl_one [of w ?s1] worker_loop(2) [of ?s1 w] g(1) w(1) by (simp add: runs_def)
  have run2: "runs w ?s2" "\<not> quits w ?s2" "pl_pc ?s2 w = HasBuf p" using w by (simp_all add: runs_def quits_def)
  have inv2: "pl_inv ps ?s2" by (rule pl_reach_inv [OF pl_trans [OF r2 r1] inv])
  obtain s3 where s3: "worker_run w ?s2 = Ret s3" "pl_pc s3 = (pl_pc ?s2)(w := ToPut p)" "pl_ques s3 = Q" "pl_qm s3 = pl_qm s"
      "pl_th s3 = pl_th s" "pl_main s3 = pl_main s"
    using worker_works [OF run2(3,2)] worker_step_inv [OF inv2 run2(1)] by auto
  have r3: "pl_reach s s3" by (rule pl_trans [OF pl_one [OF run2(1) s3(1)] pl_trans [OF r2 r1]])
  have i3: "aq_inv 4 (pl_ques s3, pl_qm s3)" "aq_view (pl_ques s3, pl_qm s3) = vs[src w := qs]" "runs w s3"
    using pl_reach_inv [OF r3 inv] g(2) s3 w(1) by (simp_all add: pl_inv_def runs_def)
  obtain Q' M where p: "pl_put w (int (dst w)) p AtTop s3 = Ret (goto w AtTop (s3\<lparr>pl_ques := Q', pl_qm := M\<rparr>))"
      "aq_view (Q', M) = vs[src w := qs, dst w := vs ! dst w @ [p]]"
    using pl_put_ok(3) [OF i3(1,2), of "dst w" w p AtTop] l v(3) by auto
  let ?s4 = "goto w AtTop (s3\<lparr>pl_ques := Q', pl_qm := M\<rparr>)"
  have "pl_reach s3 ?s4" using pl_one [OF i3(3)] worker_loop(3) [of s3 w p] s3(2) p(1) by simp
  then have "pl_reach s ?s4" by (rule pl_trans [OF _ r3])
  moreover have "pl_pc ?s4 = pl_pc s" using s3(2) w(3) by (auto simp: fun_upd_idem_iff)
  ultimately show ?thesis using p(2) s3(5,6) by (intro exI [of _ ?s4]) simp
qed

lemma pl_init_ok:
  assumes "mem_wf qm" and "mem_wf om" and "mem_wf dm"
  shows "\<exists>s ps. pl_init q0 qm om dm = Ret s \<and> pl_inv ps s \<and> aq_view (pl_ques s, pl_qm s) = [ps, [], []] \<and>
    pl_main s = pl_prog \<and> pl_pc s = (\<lambda>w. AtTop)"
proof -
  obtain qs qm' om' dm' ps where r: "aq_resize_fill 0 N_QUE N_BUF BUF_SIZE q0 [] qm om dm = Ret (qs, qm', om', dm')"
      "aq_inv (nat N_BUF) (qs, qm')" "aq_view (qs, qm') = ps # replicate (N_QUE - 1) []" "length ps = nat N_BUF"
      "bufs_ok BUF_SIZE ps om' dm'"
    using aq_resize_fill_ok [OF assms, of N_QUE N_BUF BUF_SIZE 0 q0] by (auto simp: N_QUE_def N_BUF_def BUF_SIZE_def)
  define s where "s = \<lparr>pl_ques = qs, pl_qm = qm', pl_om = om', pl_dm = dm', pl_th = (\<lambda>w. th_ctor (pl_prio w)),
      pl_pc = (\<lambda>w. AtTop), pl_acq_ctr = 0, pl_comm_n = 0, pl_comm_ctr = 0, pl_errs = 0, pl_main = pl_prog\<rparr>"
  have s: "pl_init q0 qm om dm = Ret s" using r(1) by (simp add: pl_init_def s_def)
  have view: "aq_view (pl_ques s, pl_qm s) = [ps, [], []]"
    using r(3) by (simp add: s_def N_QUE_def numeral_2_eq_2)
  have prog: "Start w \<in> set pl_prog" "Quit w \<in> set pl_prog" "Join w \<in> set pl_prog" for w
    by (cases w; simp add: pl_prog_def)+
  have "thr_ok s w" for w using prog [of w] by (simp add: thr_ok_def s_def quits_def gone_def th_ctor_def)
  then have "pl_threads s" by (auto simp: pl_threads_def s_def intro!: exI [of _ "0::nat"])
  moreover have "pl_owned ps s [ps, [], []]" using r(5) by (simp add: pl_owned_def places_def s_def bufs_ok_def)
  moreover have "pl_data s [ps, [], []] 0" by (simp add: pl_data_def raw_row_def fin_row_def s_def dbl_def)
  ultimately have "pl_inv ps s" using r(2,4,5) view by (intro pl_invI [of s ps ps "[]" "[]" 0]) (simp_all add: s_def N_BUF_def)
  then show ?thesis using s view by (auto simp: s_def)
qed

text \<open>A thread waits only for a buffer, or for room that only a row of four can fail to have.\<close>

lemma worker_blocks:
  assumes "pl_inv ps s" "runs w s" "worker_run w s = Blocks" "aq_view (pl_ques s, pl_qm s) = vs"
  shows "(pl_pc s w = AtGet \<and> vs ! src w = []) \<or> (\<exists>p. pl_pc s w = ToPut p \<and> length (vs ! dst w) = 4) \<or>
    (pl_pc s w = ToRelease \<and> length (vs ! dst w) = 4)"
proof -
  have i: "aq_inv 4 (pl_ques s, pl_qm s)" and l: "src w < length vs" "dst w < length vs"
    using assms(1,4) by (cases w; auto simp: pl_inv_def)+
  have le: "length (vs ! dst w) \<le> 4" using aqs.fits [OF i, of "dst w"] assms(4) l by simp
  have rel: "pl_pc s w = ToRelease \<Longrightarrow> worker_run w s = pl_put w (int (dst w)) 0 AtEnd s \<or> worker_run w s \<noteq> Blocks"
    by (cases w) (simp_all add: RAW_QUE_def FINISHED_QUE_def)
  show ?thesis
  proof (cases "pl_pc s w")
    case AtGet
    then show ?thesis using assms(3) worker_loop(2) [OF AtGet] pl_get_ok(3) [OF i assms(4) l(1), of _ _ w]
      by (cases "vs ! src w") fastforce+
  next
    case (ToPut p)
    then show ?thesis using assms(3) worker_loop(3) [OF ToPut] pl_put_ok(3) [OF i assms(4) l(2), of w p AtTop] le by fastforce
  next
    case ToRelease
    then show ?thesis using assms(3) rel pl_put_ok(3) [OF i assms(4) l(2), of w 0 AtEnd] le by fastforce
  next
    case AtTop
    then show ?thesis using assms(3) by (cases w) auto
  next
    case (HasBuf p)
    then show ?thesis using assms(3) by (cases w) (auto simp: run_opt_def split: option.splits if_splits prod.splits)
  next
    case AtEnd
    then show ?thesis using assms(3) by (cases w) (auto simp: pl_end_def)
  qed
qed

text \<open>While nobody has been asked to quit, the four buffers keep one of the threads going.\<close>

lemma ring_goes_on:
  assumes inv: "pl_inv ps s" and q: "\<not> quits CommT s" and run: "\<forall>w. runs w s"
  shows "\<exists>w s'. worker_run w s = Ret s'"
proof (rule ccontr)
  assume "\<nexists>w s'. worker_run w s = Ret s'"
  then have stuck: "worker_run w s = Blocks" for w
    using worker_step_inv [OF inv] run by (metis run.exhaust)
  from pl_invE [OF inv] obtain es rs fs B where v: "pl_threads s" "length ps = 4"
    "aq_view (pl_ques s, pl_qm s) = [es, rs, fs]" "pl_owned ps s [es, rs, fs]" by metis
  have ng: "\<not> gone w s" for w using shutdown_order(5) [OF v(1)] q by blast
  then have nz: "nz rs = rs" "nz fs = fs" using v(4) by (simp_all add: pl_owned_def)
  have four: "length (places s [es, rs, fs]) = 4" using v(2,4) q by (simp add: pl_owned_def)
  have "pl_pc s w = AtGet \<and> [es, rs, fs] ! src w = []" for w
  proof -
    have "length ([es, rs, fs] ! dst w) \<noteq> 4" if "pl_pc s w = ToPut p" for p
      using four that nz by (cases w) (auto simp: places_def)
    moreover have "pl_pc s w \<noteq> ToRelease" using ng [of w] by (simp add: gone_def)
    ultimately show ?thesis using worker_blocks [OF inv _ stuck v(3)] run by blast
  qed
  from this [of AcqT] this [of ProcT] this [of CommT] have "places s [es, rs, fs] = []" by (simp add: places_def)
  then show False using four by simp
qed

text \<open>Until then every buffer is somewhere in the ring, and each queue has room for one that is in the
  hands of a thread.\<close>

lemma ring_keeps_all:
  assumes inv: "pl_inv ps s" and q: "\<not> quits CommT s"
  shows "mset (places s (aq_view (pl_ques s, pl_qm s))) = mset ps \<and>
    (\<forall>w p. runs w s \<longrightarrow> pl_pc s w = ToPut p \<longrightarrow> worker_run w s \<noteq> Blocks)"
proof -
  from pl_invE [OF inv] obtain es rs fs B where v: "pl_threads s" "bufs_ok BUF_SIZE ps (pl_om s) (pl_dm s)" "length ps = 4"
    "aq_view (pl_ques s, pl_qm s) = [es, rs, fs]" "pl_owned ps s [es, rs, fs]" by metis
  have o: "distinct (places s [es, rs, fs])" "set (places s [es, rs, fs]) \<subseteq> set ps" "length (places s [es, rs, fs]) = length ps"
    using v(5) q by (simp_all add: pl_owned_def)
  have d: "distinct ps" using v(2) by (simp add: bufs_ok_def)
  have "set (places s [es, rs, fs]) = set ps"
    using card_subset_eq [OF _ o(2)] distinct_card [OF o(1)] distinct_card [OF d] o(3) by simp
  then have m: "mset (places s [es, rs, fs]) = mset ps" using set_eq_iff_mset_eq_distinct [OF o(1) d] by blast
  have "\<not> gone w s" for w using shutdown_order(5) [OF v(1)] q by blast
  then have nz: "nz rs = rs" "nz fs = fs" using v(5) by (simp_all add: pl_owned_def)
  have "length ([es, rs, fs] ! dst w) \<noteq> 4" if "pl_pc s w = ToPut p" for w p
    using o(3) v(3) that nz by (cases w) (auto simp: places_def)
  then show ?thesis using m v(4) worker_blocks [OF inv _ _ v(4)] by force
qed

lemma main_defined:
  assumes "pl_inv ps s"
  shows "main_run (pl_main s) s \<noteq> Undef"
proof (cases "pl_main s")
  case (Cons a as)
  obtain k where k: "k \<le> 10" "pl_main s = drop k pl_prog" using assms by (auto simp: pl_inv_def pl_threads_def)
  have ok: "thr_ok s w" for w using assms by (simp add: pl_inv_def pl_threads_def)
  show ?thesis
  proof (cases a)
    case (Join w)
    then have "th_inv (pl_th s w)" using ok [of w] prog_next [OF k Cons, of w] by (simp add: thr_ok_def)
    then have "th_wait (pl_th s w) \<noteq> Undef"
      by (cases "th_os (pl_th s w)") (auto simp: th_inv_def th_wait_def pthread_join_def)
    then show ?thesis using Cons Join by (cases "th_wait (pl_th s w)") simp_all
  qed (use Cons in \<open>simp_all add: th_activate_def Let_def\<close>)
qed simp

section \<open>A shutdown that does not end\<close>

lemma main_goes_on:
  assumes "pl_main s = a # as" and "\<And>w. a = Join w \<Longrightarrow> th_os (pl_th s w) = Ended"
  shows "\<exists>s'. main_run (pl_main s) s = Ret s' \<and> pl_reach s s' \<and> pl_main s' = as \<and> pl_pc s' = pl_pc s \<and>
    pl_ques s' = pl_ques s \<and> pl_qm s' = pl_qm s"
proof -
  have "\<exists>s'. main_run (a # as) s = Ret s'"
  proof (cases a)
    case (Join w)
    then show ?thesis using assms(2) by (cases "th_active (pl_th s w)") (simp_all add: th_wait_def pthread_join_def)
  qed (simp_all add: th_activate_def Let_def)
  then obtain s' where "main_run (pl_main s) s = Ret s'" using assms(1) by auto
  then show ?thesis using main_moves [of s s'] pl_main_one [of s s'] assms(1) by auto
qed

lemma runs_unless_ended:
  assumes "pl_inv ps s" "Start w \<notin> set (pl_main s)" "pl_pc s w \<noteq> AtEnd"
  shows "runs w s"
proof -
  have "thr_ok s w" using assms(1) by (simp add: pl_inv_def pl_threads_def)
  then have "th_inv (pl_th s w)" "th_os (pl_th s w) \<notin> {Ended, Joined}" using assms(2,3) by (auto simp: thr_ok_def)
  then show ?thesis by (cases "th_os (pl_th s w)") (auto simp: th_inv_def runs_def)
qed

lemma quits_by_main: "pl_inv ps s \<Longrightarrow> quits w s \<longleftrightarrow> Quit w \<notin> set (pl_main s)"
  by (simp add: pl_inv_def pl_threads_def thr_ok_def)

text \<open>The communication thread has been joined, the processing thread has not been asked to quit.\<close>

definition half_down :: "int list \<Rightarrow> int list \<Rightarrow> int list \<Rightarrow> pl \<Rightarrow> bool" where
  "half_down ps es fs s \<longleftrightarrow> pl_inv ps s \<and> aq_view (pl_ques s, pl_qm s) = [es, [], fs] \<and>
     pl_pc s AcqT = AtTop \<and> pl_pc s ProcT = AtTop \<and> pl_main s = [Quit ProcT, Join ProcT, Quit AcqT, Join AcqT]"

lemma half_down_threads:
  assumes "half_down ps es fs s" and "w = AcqT \<or> w = ProcT"
  shows "runs w s \<and> \<not> quits w s \<and> pl_pc s w = AtTop"
  using assms runs_unless_ended [of ps s w] quits_by_main [of ps s w] by (auto simp: half_down_def)

lemma half_down_round:
  assumes "half_down ps (p # es) fs s" "length fs < 4"
  shows "\<exists>s'. pl_reach s s' \<and> half_down ps es (fs @ [p]) s'"
proof -
  have h: "pl_inv ps s" "aq_view (pl_ques s, pl_qm s) = [p # es, [], fs]" using assms(1) by (simp_all add: half_down_def)
  obtain s1 where 1: "pl_reach s s1" "pl_pc s1 = pl_pc s" "pl_th s1 = pl_th s" "pl_main s1 = pl_main s"
      "aq_view (pl_ques s1, pl_qm s1) = [es, [p], fs]"
    using worker_pass [OF h(1) _ _ _ h(2), of AcqT p es] half_down_threads [OF assms(1), of AcqT] by auto
  have i1: "pl_inv ps s1" by (rule pl_reach_inv [OF 1(1) h(1)])
  have t1: "runs ProcT s1" "\<not> quits ProcT s1" "pl_pc s1 ProcT = AtTop"
    using half_down_threads [OF assms(1), of ProcT] 1(2,3) by (simp_all add: runs_def quits_def)
  obtain s2 where 2: "pl_reach s1 s2" "pl_pc s2 = pl_pc s1" "pl_main s2 = pl_main s1"
      "aq_view (pl_ques s2, pl_qm s2) = [es, [], fs @ [p]]"
    using worker_pass [OF i1 t1 1(5), of p "[]"] assms(2) by auto
  have "half_down ps es (fs @ [p]) s2"
    using pl_reach_inv [OF 2(1) i1] 2 1(2,4) assms(1) by (simp add: half_down_def)
  then show ?thesis using pl_trans [OF 2(1) 1(1)] by blast
qed

lemma half_down_drains:
  "half_down ps es fs s \<Longrightarrow> length es + length fs \<le> 4 \<Longrightarrow> \<exists>s' fs'. pl_reach s s' \<and> half_down ps [] fs' s'"
proof (induction es arbitrary: fs s)
  case Nil
  then show ?case using pl_refl by blast
next
  case (Cons p es)
  have "length fs < 4" using Cons.prems(2) by simp
  from half_down_round [OF Cons.prems(1) this] obtain s1 where 1: "pl_reach s s1" "half_down ps es (fs @ [p]) s1" by blast
  obtain s2 fs' where "pl_reach s1 s2" "half_down ps [] fs' s2" using Cons.IH [OF 1(2)] Cons.prems(2) by auto
  then show ?case using pl_trans [OF _ 1(1)] by blast
qed

lemma goes_half_down:
  assumes inv: "pl_inv ps s" and v: "aq_view (pl_ques s, pl_qm s) = [ps, [], []]" and m: "pl_main s = pl_prog"
    and pc: "pl_pc s = (\<lambda>w. AtTop)"
  shows "\<exists>s'. pl_reach s s' \<and> half_down ps ps [] s'"
proof -
  obtain s1 where 1: "pl_reach s s1" "pl_main s1 = tl pl_prog" "pl_pc s1 = pl_pc s" "pl_ques s1 = pl_ques s" "pl_qm s1 = pl_qm s"
    using main_goes_on [of s "Start CommT"] m by (auto simp: pl_prog_def)
  obtain s2 where 2: "pl_reach s1 s2" "pl_main s2 = drop 2 pl_prog" "pl_pc s2 = pl_pc s" "pl_ques s2 = pl_ques s" "pl_qm s2 = pl_qm s"
    using main_goes_on [of s1 "Start ProcT"] 1 by (auto simp: pl_prog_def)
  obtain s3 where 3: "pl_reach s2 s3" "pl_main s3 = drop 3 pl_prog" "pl_pc s3 = pl_pc s" "pl_ques s3 = pl_ques s" "pl_qm s3 = pl_qm s"
    using main_goes_on [of s2 "Start AcqT"] 2 by (auto simp: pl_prog_def)
  obtain s4 where 4: "pl_reach s3 s4" "pl_main s4 = drop 4 pl_prog" "pl_pc s4 = pl_pc s" "pl_ques s4 = pl_ques s" "pl_qm s4 = pl_qm s"
    using main_goes_on [of s3 AwaitKey] 3 by (auto simp: pl_prog_def)
  obtain s5 where 5: "pl_reach s4 s5" "pl_main s5 = drop 5 pl_prog" "pl_pc s5 = pl_pc s" "pl_ques s5 = pl_ques s" "pl_qm s5 = pl_qm s"
    using main_goes_on [of s4 "Quit CommT"] 4 by (auto simp: pl_prog_def)
  have r5: "pl_reach s s5" using 1(1) 2(1) 3(1) 4(1) 5(1) pl_trans by metis
  have i5: "pl_inv ps s5" by (rule pl_reach_inv [OF r5 inv])
  have q5: "quits CommT s5" "runs CommT s5"
    using quits_by_main [OF i5] runs_unless_ended [OF i5, of CommT] 5(2,3) pc by (auto simp: pl_prog_def)
  let ?s6 = "goto CommT AtEnd s5"
  have r6: "pl_reach s5 ?s6" using pl_one [OF q5(2), of ?s6] q5(1) 5(3) pc by simp
  have run6: "runs CommT ?s6" using q5(2) by (simp add: runs_def)
  let ?s7 = "?s6\<lparr>pl_th := (pl_th ?s6)(CommT := th_startup_return (th_startup_signal (pl_th ?s6 CommT)))\<rparr>"
  have r7: "pl_reach ?s6 ?s7" by (rule pl_one [OF run6]) (simp add: pl_end_def)
  obtain s8 where 8: "pl_reach ?s7 s8" "pl_main s8 = drop 6 pl_prog" "pl_pc s8 = pl_pc ?s7" "pl_ques s8 = pl_ques s" "pl_qm s8 = pl_qm s"
    using main_goes_on [of ?s7 "Join CommT" "drop 6 pl_prog"] 5 by (auto simp: pl_prog_def th_startup_return_def)
  have r8: "pl_reach s s8" using r5 r6 r7 8(1) pl_trans by metis
  have "half_down ps ps [] s8"
    using pl_reach_inv [OF r8 inv] 8 5(3) pc v by (simp add: half_down_def pl_prog_def)
  then show ?thesis using r8 by blast
qed

lemma half_down_hangs:
  assumes "half_down ps [] fs s"
  shows "\<exists>s'. pl_reach s s' \<and> pl_main s' = [Join ProcT, Quit AcqT, Join AcqT] \<and> (\<forall>s''. \<not> pl_step s' s'')"
proof -
  have h: "pl_inv ps s" "aq_view (pl_ques s, pl_qm s) = [[], [], fs]" "pl_main s = [Quit ProcT, Join ProcT, Quit AcqT, Join AcqT]"
    using assms by (simp_all add: half_down_def)
  note t = half_down_threads [OF assms]
  let ?s1 = "goto AcqT AtGet s"
  have r1: "pl_reach s ?s1" using pl_one [of AcqT s] worker_loop(1) [of s AcqT] t by blast
  have t1: "runs ProcT ?s1" "pl_pc ?s1 ProcT = AtTop" "\<not> quits ProcT ?s1" using t [of ProcT] by (simp_all add: runs_def quits_def)
  let ?s2 = "goto ProcT AtGet ?s1"
  have r2: "pl_reach ?s1 ?s2" by (rule pl_one [OF t1(1) worker_loop(1) [OF t1(2,3)]])
  obtain s3 where 3: "pl_reach ?s2 s3" "pl_main s3 = [Join ProcT, Quit AcqT, Join AcqT]" "pl_pc s3 = pl_pc ?s2"
      "pl_ques s3 = pl_ques s" "pl_qm s3 = pl_qm s"
    using main_goes_on [of ?s2 "Quit ProcT"] h(3) by auto
  have r3: "pl_reach s s3" by (rule pl_trans [OF 3(1) pl_trans [OF r2 r1]])
  have i3: "pl_inv ps s3" by (rule pl_reach_inv [OF r3 h(1)])
  have a3: "aq_inv 4 (pl_ques s3, pl_qm s3)" "aq_view (pl_ques s3, pl_qm s3) = [[], [], fs]"
    using i3 h(2) 3(4,5) by (simp_all add: pl_inv_def)
  have pc3: "pl_pc s3 AcqT = AtGet" "pl_pc s3 ProcT = AtGet" using 3(3) by simp_all
  have th3: "thr_ok s3 w" for w using i3 by (simp add: pl_inv_def pl_threads_def)
  have comm: "\<not> runs CommT s3" using th3 [of CommT] 3(2) by (auto simp: thr_ok_def runs_def)
  have "th_inv (pl_th s3 ProcT)" using th3 [of ProcT] 3(2) by (simp add: thr_ok_def)
  then have "th_wait (pl_th s3 ProcT) = Blocks"
    using runs_unless_ended [OF i3, of ProcT] 3(2) pc3 by (simp add: runs_def th_inv_def th_wait_def pthread_join_def)
  then have main: "main_run (pl_main s3) s3 = Blocks" using 3(2) by simp
  have work: "worker_run w s3 = Blocks" if "w = AcqT \<or> w = ProcT" for w
    using that pc3 worker_loop(2) [of s3 w] pl_get_ok(2) [OF a3, of "src w" w] by auto
  have "\<not> pl_step s3 s''" for s''
  proof
    assume "pl_step s3 s''"
    then show False
    proof (rule pl_stepE)
      fix w
      assume w: "runs w s3" "worker_run w s3 = Ret s''"
      then have "w = AcqT \<or> w = ProcT" using comm by (cases w) auto
      from work [OF this] w(2) show False by simp
    qed (simp add: main)
  qed
  then show ?thesis using r3 3(2) by blast
qed

section \<open>Properties\<close>

text \<open>C11: However the three threads of the demonstration interleave with the main thread, from the
  first step to the last, no thread reaches undefined behaviour, not even with the null pointers that
  \<open>release\<close> puts into the queues, and the communication thread finds no error: every number that it
  reads is the double of the next number that the acquisition thread counted.\<close>

theorem pipeline_data_intact:
  assumes "mem_wf qm" and "mem_wf om" and "mem_wf dm"
  shows "\<exists>s0. pl_init q0 qm om dm = Ret s0 \<and> (\<forall>s. pl_reach s0 s \<longrightarrow>
    pl_errs s = 0 \<and> main_run (pl_main s) s \<noteq> Undef \<and> (\<forall>w. runs w s \<longrightarrow> worker_run w s \<noteq> Undef))"
proof -
  obtain s0 ps where i: "pl_init q0 qm om dm = Ret s0" "pl_inv ps s0" using pl_init_ok [OF assms, of q0] by blast
  have "pl_errs s = 0 \<and> main_run (pl_main s) s \<noteq> Undef \<and> (\<forall>w. runs w s \<longrightarrow> worker_run w s \<noteq> Undef)" if r: "pl_reach s0 s" for s
  proof -
    have inv: "pl_inv ps s" by (rule pl_reach_inv [OF r i(2)])
    then have "pl_errs s = 0" by (auto simp: pl_inv_def pl_data_def)
    then show ?thesis using worker_step_inv [OF inv] main_defined [OF inv] by blast
  qed
  then show ?thesis using i(1) by blast
qed

theorem pipeline_data_intact_witness:
  "\<exists>s0. pl_init mq_demo (arena 0 9) (arena bf_ctor 5) (arena 0 5) = Ret s0 \<and> (\<forall>s. pl_reach s0 s \<longrightarrow> pl_errs s = 0)"
  using pipeline_data_intact [of "arena 0 9" "arena bf_ctor 5" "arena 0 5" mq_demo] by (fastforce simp: arena_wf)

text \<open>C13: Until the communication thread is asked to quit, each of the four buffers is in exactly one
  place, a queue or the hands of one thread, and a thread never waits to put one back.\<close>

theorem pipeline_conserves_buffers:
  assumes "mem_wf qm" and "mem_wf om" and "mem_wf dm" and "pl_init q0 qm om dm = Ret s0"
  shows "\<exists>ps. length ps = 4 \<and> distinct ps \<and> (\<forall>s. pl_reach s0 s \<longrightarrow> \<not> quits CommT s \<longrightarrow>
    mset (places s (aq_view (pl_ques s, pl_qm s))) = mset ps \<and>
    (\<forall>w p. runs w s \<longrightarrow> pl_pc s w = ToPut p \<longrightarrow> worker_run w s \<noteq> Blocks))"
proof -
  obtain ps where i: "pl_inv ps s0" using pl_init_ok [OF assms(1-3), of q0] assms(4) by auto
  have "mset (places s (aq_view (pl_ques s, pl_qm s))) = mset ps \<and>
      (\<forall>w p. runs w s \<longrightarrow> pl_pc s w = ToPut p \<longrightarrow> worker_run w s \<noteq> Blocks)"
    if r: "pl_reach s0 s" and q: "\<not> quits CommT s" for s
    using ring_keeps_all [OF pl_reach_inv [OF r i] q] .
  moreover have "length ps = 4" "distinct ps" using i by (auto simp: pl_inv_def bufs_ok_def)
  ultimately show ?thesis by blast
qed

theorem pipeline_conserves_buffers_witness:
  "\<exists>s0 ps. pl_init mq_demo (arena 0 9) (arena bf_ctor 5) (arena 0 5) = Ret s0 \<and> length ps = 4 \<and>
    mset (places s0 (aq_view (pl_ques s0, pl_qm s0))) = mset ps"
proof -
  obtain s0 ps where i: "pl_init mq_demo (arena 0 9) (arena bf_ctor 5) (arena 0 5) = Ret s0" "pl_inv ps s0" "pl_main s0 = pl_prog"
    using pl_init_ok [of "arena 0 9" "arena bf_ctor 5" "arena 0 5" mq_demo] by (auto simp: arena_wf)
  have "\<not> quits CommT s0" using quits_by_main [OF i(2)] i(3) by (simp add: pl_prog_def)
  then show ?thesis
    using pipeline_conserves_buffers [of "arena 0 9" "arena bf_ctor 5" "arena 0 5" mq_demo s0] i(1) pl_refl [of s0]
    by (auto simp: arena_wf)
qed

text \<open>C12: While the main thread waits for the user, one of the three threads can always make a step: the
  ring of queues does not deadlock.\<close>

theorem pipeline_never_stalls:
  assumes "mem_wf qm" and "mem_wf om" and "mem_wf dm" and "pl_init q0 qm om dm = Ret s0"
    and "pl_reach s0 s" and "pl_main s = AwaitKey # as"
  shows "\<exists>w s'. runs w s \<and> worker_run w s = Ret s'"
proof -
  obtain ps where i: "pl_inv ps s0" using pl_init_ok [OF assms(1-3), of q0] assms(4) by auto
  have inv: "pl_inv ps s" by (rule pl_reach_inv [OF assms(5) i])
  then obtain k where k: "k \<le> 10" "pl_main s = drop k pl_prog" by (auto simp: pl_inv_def pl_threads_def)
  have m: "Start w \<notin> set (pl_main s) \<and> Quit w \<in> set (pl_main s)" for w
    by (rule prog_cases [OF k]; cases w) (use assms(6) in \<open>auto simp: pl_prog_def\<close>)
  have run: "runs w s" for w
    using started_runs [of s w] m [of w] quits_by_main [OF inv, of w] inv by (simp add: pl_inv_def)
  have "\<not> quits CommT s" using m [of CommT] quits_by_main [OF inv] by simp
  from ring_goes_on [OF inv this] run show ?thesis by blast
qed

theorem pipeline_never_stalls_witness:
  "\<exists>s0 s w s'. pl_init mq_demo (arena 0 9) (arena bf_ctor 5) (arena 0 5) = Ret s0 \<and> pl_reach s0 s \<and>
    pl_main s = drop 3 pl_prog \<and> runs w s \<and> worker_run w s = Ret s'"
proof -
  obtain s0 ps where i: "pl_init mq_demo (arena 0 9) (arena bf_ctor 5) (arena 0 5) = Ret s0" "pl_inv ps s0" "pl_main s0 = pl_prog"
    using pl_init_ok [of "arena 0 9" "arena bf_ctor 5" "arena 0 5" mq_demo] by (auto simp: arena_wf)
  obtain s1 where 1: "pl_reach s0 s1" "pl_main s1 = tl pl_prog"
    using main_goes_on [of s0 "Start CommT"] i(3) by (auto simp: pl_prog_def)
  obtain s2 where 2: "pl_reach s1 s2" "pl_main s2 = drop 2 pl_prog"
    using main_goes_on [of s1 "Start ProcT"] 1 by (auto simp: pl_prog_def)
  obtain s3 where 3: "pl_reach s2 s3" "pl_main s3 = drop 3 pl_prog"
    using main_goes_on [of s2 "Start AcqT"] 2 by (auto simp: pl_prog_def)
  have r: "pl_reach s0 s3" using 1(1) 2(1) 3(1) pl_trans by metis
  then have "\<exists>w s'. runs w s3 \<and> worker_run w s3 = Ret s'"
    using pipeline_never_stalls [OF _ _ _ i(1) r] 3(2) by (auto simp: arena_wf pl_prog_def)
  then show ?thesis using i(1) r 3(2) by blast
qed

text \<open>The shutdown can wait for ever: there is an interleaving after which the main thread waits for
  the processing thread, that thread waits for a raw buffer, the acquisition thread waits for an empty
  one, and every buffer is in the queue that the communication thread no longer reads.\<close>

theorem pipeline_shutdown_can_hang:
  assumes "mem_wf qm" and "mem_wf om" and "mem_wf dm"
  shows "\<exists>s0 s. pl_init q0 qm om dm = Ret s0 \<and> pl_reach s0 s \<and> pl_main s = [Join ProcT, Quit AcqT, Join AcqT] \<and>
    (\<forall>s'. \<not> pl_step s s')"
proof -
  obtain s0 ps where i: "pl_init q0 qm om dm = Ret s0" "pl_inv ps s0" "aq_view (pl_ques s0, pl_qm s0) = [ps, [], []]"
      "pl_main s0 = pl_prog" "pl_pc s0 = (\<lambda>w. AtTop)"
    using pl_init_ok [OF assms, of q0] by blast
  obtain s1 where 1: "pl_reach s0 s1" "half_down ps ps [] s1" using goes_half_down [OF i(2-5)] by blast
  obtain s2 fs where 2: "pl_reach s1 s2" "half_down ps [] fs s2"
    using half_down_drains [OF 1(2)] i(2) by (auto simp: pl_inv_def)
  obtain s3 where 3: "pl_reach s2 s3" "pl_main s3 = [Join ProcT, Quit AcqT, Join AcqT]" "\<forall>s'. \<not> pl_step s3 s'"
    using half_down_hangs [OF 2(2)] by blast
  have "pl_reach s0 s3" using 1(1) 2(1) 3(1) pl_trans by metis
  then show ?thesis using i(1) 3(2,3) by blast
qed

theorem pipeline_shutdown_can_hang_witness:
  "\<exists>s0 s. pl_init mq_demo (arena 0 9) (arena bf_ctor 5) (arena 0 5) = Ret s0 \<and> pl_reach s0 s \<and> (\<forall>s'. \<not> pl_step s s')"
  using pipeline_shutdown_can_hang [of "arena 0 9" "arena bf_ctor 5" "arena 0 5" mq_demo] by (auto simp: arena_wf)

end
