(* ===== verification/BinStreams.thy ===== *)
theory BinStreams imports Device begin

text \<open>
  The binary streams: \<open>CtrlrFx/BinStreamBase.h\<close>, \<open>CtrlrFx/BinStreamBuf.h\<close>,
  \<open>CtrlrFx/BinStream.h\<close>, their sources under \<open>src/io/BinStream\<close>, and the streams over
  memory (\<open>MemBinStream\<close>). A stream buffer is its six pointers, the memory they point into
  and the state \<open>'s\<close> of a derived class. The virtual functions that derived classes
  override are a record of functions; \<open>uflow\<close>, \<open>pbackfail\<close>, \<open>showmanyc\<close>, \<open>xsgetn\<close>
  and \<open>xsputn\<close> are overridden nowhere (the \<open>xsgetn\<close> and \<open>xsputn\<close> of the derived classes
  have other parameter types). What is copied between the buffer and the caller's own
  variables is a byte list; counts are natural numbers. \<open>long\<close> has 64 bits and \<open>int\<close> 32.
\<close>

unbundle bit_operations_syntax

section \<open>Stream buffers\<close>

record 's sbuf =
  pbegin :: int
  pnext :: int
  pend :: int
  gbegin :: int
  gnext :: int
  gend :: int
  sb_mem :: "byte mem"
  sb_dev :: 's

record 's sbuf_vt =
  v_underflow :: "'s sbuf \<Rightarrow> (int \<times> 's sbuf) option"
  v_overflow :: "int \<Rightarrow> 's sbuf \<Rightarrow> (int \<times> 's sbuf) option"
  v_sync :: "'s sbuf \<Rightarrow> (int \<times> 's sbuf) option"
  v_seekoff :: "int \<Rightarrow> int \<Rightarrow> int \<Rightarrow> 's sbuf \<Rightarrow> int \<times> 's sbuf"
  v_seekpos :: "int \<Rightarrow> int \<Rightarrow> 's sbuf \<Rightarrow> int \<times> 's sbuf"

definition sb_ctor :: "byte mem \<Rightarrow> 's \<Rightarrow> 's sbuf" where
  "sb_ctor m d = \<lparr>pbegin = 0, pnext = 0, pend = 0, gbegin = 0, gnext = 0, gend = 0, sb_mem = m, sb_dev = d\<rparr>"

definition sb_gbump :: "int \<Rightarrow> 's sbuf \<Rightarrow> 's sbuf" where "sb_gbump n b = b\<lparr>gnext := gnext b + n\<rparr>"
definition sb_pbump :: "int \<Rightarrow> 's sbuf \<Rightarrow> 's sbuf" where "sb_pbump n b = b\<lparr>pnext := pnext b + n\<rparr>"
definition sb_setg :: "int \<Rightarrow> int \<Rightarrow> int \<Rightarrow> 's sbuf \<Rightarrow> 's sbuf" where
  "sb_setg gbeg gnex gen b = b\<lparr>gbegin := gbeg, gnext := gnex, gend := gen\<rparr>"
definition sb_setp :: "int \<Rightarrow> int \<Rightarrow> 's sbuf \<Rightarrow> 's sbuf" where
  "sb_setp pbeg pen b = b\<lparr>pbegin := pbeg, pnext := pbeg, pend := pen\<rparr>"
definition sb_setp_at :: "int \<Rightarrow> int \<Rightarrow> int \<Rightarrow> 's sbuf \<Rightarrow> 's sbuf" where
  "sb_setp_at pbeg pnex pen b = b\<lparr>pbegin := pbeg, pnext := pnex, pend := pen\<rparr>"

text \<open>The base class's versions of the virtual functions.\<close>

definition sb_showmanyc :: int where "sb_showmanyc = 0"
definition sb_pbackfail :: "'s sbuf \<Rightarrow> (int \<times> 's sbuf) option" where "sb_pbackfail b = Some (-1, b)"
definition sb_underflow :: "'s sbuf \<Rightarrow> (int \<times> 's sbuf) option" where "sb_underflow b = Some (-1, b)"
definition sb_overflow :: "int \<Rightarrow> 's sbuf \<Rightarrow> (int \<times> 's sbuf) option" where "sb_overflow c b = Some (-1, b)"
definition sb_sync :: "'s sbuf \<Rightarrow> (int \<times> 's sbuf) option" where "sb_sync b = Some (0, b)"
definition sb_seekoff :: "int \<Rightarrow> int \<Rightarrow> int \<Rightarrow> 's sbuf \<Rightarrow> int \<times> 's sbuf" where "sb_seekoff off dir mode b = (-1, b)"
definition sb_seekpos :: "int \<Rightarrow> int \<Rightarrow> 's sbuf \<Rightarrow> int \<times> 's sbuf" where "sb_seekpos pos mode b = (-1, b)"
definition sb_setbuf :: "int \<Rightarrow> int \<Rightarrow> 's sbuf \<Rightarrow> 's sbuf" where "sb_setbuf p n b = b"

definition sb_vt :: "'s sbuf_vt" where
  "sb_vt = \<lparr>v_underflow = sb_underflow, v_overflow = sb_overflow, v_sync = sb_sync,
     v_seekoff = sb_seekoff, v_seekpos = sb_seekpos\<rparr>"

subsection \<open>Get area\<close>

definition sb_uflow :: "'s sbuf_vt \<Rightarrow> 's sbuf \<Rightarrow> (int \<times> 's sbuf) option" where
  "sb_uflow vt b =
     do { (c, b') \<leftarrow> v_underflow vt b;
          Some (c, if 0 \<le> c \<and> gnext b' \<noteq> 0 then b'\<lparr>gnext := gnext b' + 1\<rparr> else b') }"

definition sb_in_avail :: "'s sbuf \<Rightarrow> int" where
  "sb_in_avail b = (if gnext b \<noteq> 0 then gend b - gnext b else sb_showmanyc)"

definition sb_sbumpc :: "'s sbuf_vt \<Rightarrow> 's sbuf \<Rightarrow> (int \<times> 's sbuf) option" where
  "sb_sbumpc vt b =
     (if gnext b \<noteq> 0 \<and> gnext b < gend b
      then do { x \<leftarrow> rd (sb_mem b) (gnext b); Some (uint x, b\<lparr>gnext := gnext b + 1\<rparr>) }
      else sb_uflow vt b)"

definition sb_sgetc :: "'s sbuf_vt \<Rightarrow> 's sbuf \<Rightarrow> (int \<times> 's sbuf) option" where
  "sb_sgetc vt b =
     (if gnext b \<noteq> 0 \<and> gnext b < gend b then do { x \<leftarrow> rd (sb_mem b) (gnext b); Some (uint x, b) }
      else v_underflow vt b)"

definition sb_snextc :: "'s sbuf_vt \<Rightarrow> 's sbuf \<Rightarrow> (int \<times> 's sbuf) option" where
  "sb_snextc vt b = do { (c, b') \<leftarrow> sb_sbumpc vt b; if c < 0 then Some (-1, b') else sb_sgetc vt b' }"

text \<open>\<open>while (n--) sbumpc();\<close>\<close>

fun sb_skip :: "'s sbuf_vt \<Rightarrow> nat \<Rightarrow> 's sbuf \<Rightarrow> 's sbuf option" where
  "sb_skip vt 0 b = Some b"
| "sb_skip vt (Suc n) b = do { (c, b') \<leftarrow> sb_sbumpc vt b; sb_skip vt n b' }"

definition sb_galign :: "'s sbuf_vt \<Rightarrow> int \<Rightarrow> 's sbuf \<Rightarrow> 's sbuf option" where
  "sb_galign vt n b =
     (let rem = c_mod (gnext b - gbegin b) n
      in if rem \<noteq> 0 then sb_skip vt (nat (s32 (n - rem))) b else Some b)"

text \<open>The loop of \<open>xsgetn\<close>: \<open>cnt\<close> bytes are still wanted, \<open>acc\<close> were stored. It returns the
  final \<open>cnt\<close>.\<close>

function sb_xsgetn_loop :: "'s sbuf_vt \<Rightarrow> nat \<Rightarrow> byte list \<Rightarrow> 's sbuf \<Rightarrow> (nat \<times> byte list \<times> 's sbuf) option" where
  "sb_xsgetn_loop vt cnt acc b =
     (if cnt = 0 then Some (0, acc, b)
      else if gnext b \<noteq> 0 \<and> gnext b < gend b then
        let k = min cnt (nat (gend b - gnext b))
        in do { xs \<leftarrow> rd_list (sb_mem b) (gnext b) k;
                sb_xsgetn_loop vt (cnt - k) (acc @ xs) (sb_gbump (s32 (int k)) b) }
      else do { (c, b') \<leftarrow> sb_uflow vt b;
                if c < 0 then Some (cnt, acc, b')
                else sb_xsgetn_loop vt (cnt - 1) (acc @ [word_of_int c]) b' })"
  by pat_completeness auto
termination by (relation "measure (\<lambda>(vt, cnt, acc, b). cnt)") auto

declare sb_xsgetn_loop.simps [simp del]

definition sb_sgetn :: "'s sbuf_vt \<Rightarrow> nat \<Rightarrow> 's sbuf \<Rightarrow> (int \<times> byte list \<times> 's sbuf) option" where
  "sb_sgetn vt n b = do { (cnt, xs, b') \<leftarrow> sb_xsgetn_loop vt n [] b; Some (int n - int cnt, xs, b') }"

definition sb_sputbackc :: "byte \<Rightarrow> 's sbuf \<Rightarrow> (int \<times> 's sbuf) option" where
  "sb_sputbackc by b =
     (if gnext b \<noteq> 0 \<and> gbegin b < gnext b
      then do { x \<leftarrow> rd (sb_mem b) (gnext b - 1);
                if x = by then Some (uint x, b\<lparr>gnext := gnext b - 1\<rparr>) else sb_pbackfail b }
      else sb_pbackfail b)"

definition sb_sungetc :: "'s sbuf \<Rightarrow> (int \<times> 's sbuf) option" where
  "sb_sungetc b =
     (if gnext b \<noteq> 0 \<and> gbegin b < gnext b
      then do { x \<leftarrow> rd (sb_mem b) (gnext b - 1); Some (uint x, b\<lparr>gnext := gnext b - 1\<rparr>) }
      else sb_pbackfail b)"

subsection \<open>Put area\<close>

definition sb_sputc :: "(int \<Rightarrow> 's sbuf \<Rightarrow> (int \<times> 's sbuf) option) \<Rightarrow> byte \<Rightarrow> 's sbuf \<Rightarrow> (int \<times> 's sbuf) option" where
  "sb_sputc ovf by b =
     (if pnext b \<noteq> 0 \<and> pnext b < pend b
      then do { m \<leftarrow> wr (sb_mem b) (pnext b) by; Some (uint by, b\<lparr>pnext := pnext b + 1, sb_mem := m\<rparr>) }
      else ovf (uint by) b)"

fun sb_zeros :: "'s sbuf_vt \<Rightarrow> nat \<Rightarrow> 's sbuf \<Rightarrow> 's sbuf option" where
  "sb_zeros vt 0 b = Some b"
| "sb_zeros vt (Suc n) b = do { (c, b') \<leftarrow> sb_sputc (v_overflow vt) 0 b; sb_zeros vt n b' }"

definition sb_palign :: "'s sbuf_vt \<Rightarrow> int \<Rightarrow> 's sbuf \<Rightarrow> 's sbuf option" where
  "sb_palign vt n b =
     (let rem = c_mod (pnext b - pbegin b) n
      in if rem \<noteq> 0 then sb_zeros vt (nat (s32 (n - rem))) b else Some b)"

text \<open>The loop of \<open>xsputn\<close>, on the bytes still to be put; it returns how many were not.\<close>

function sb_xsputn_loop :: "'s sbuf_vt \<Rightarrow> byte list \<Rightarrow> 's sbuf \<Rightarrow> (nat \<times> 's sbuf) option" where
  "sb_xsputn_loop vt bs b =
     (if bs = [] then Some (0, b)
      else if pnext b \<noteq> 0 \<and> pnext b < pend b then
        let k = min (length bs) (nat (pend b - pnext b))
        in do { m \<leftarrow> wr_list (sb_mem b) (pnext b) (take k bs);
                sb_xsputn_loop vt (drop k bs) (sb_pbump (s32 (int k)) (b\<lparr>sb_mem := m\<rparr>)) }
      else do { (c, b') \<leftarrow> v_overflow vt (uint (hd bs)) b;
                if c < 0 then Some (length bs, b') else sb_xsputn_loop vt (tl bs) b' })"
  by pat_completeness auto
termination by (relation "measure (\<lambda>(vt, bs, b). length bs)") auto

declare sb_xsputn_loop.simps [simp del]

definition sb_sputn :: "'s sbuf_vt \<Rightarrow> byte list \<Rightarrow> 's sbuf \<Rightarrow> (int \<times> 's sbuf) option" where
  "sb_sputn vt bs b = do { (cnt, b') \<leftarrow> sb_xsputn_loop vt bs b; Some (int (length bs) - int cnt, b') }"

definition sb_pubsync :: "'s sbuf_vt \<Rightarrow> 's sbuf \<Rightarrow> (int \<times> 's sbuf) option" where "sb_pubsync vt b = v_sync vt b"
definition sb_pubseekoff :: "'s sbuf_vt \<Rightarrow> int \<Rightarrow> int \<Rightarrow> int \<Rightarrow> 's sbuf \<Rightarrow> int \<times> 's sbuf" where
  "sb_pubseekoff vt off dir mode b = v_seekoff vt off dir mode b"
definition sb_pubseekpos :: "'s sbuf_vt \<Rightarrow> int \<Rightarrow> int \<Rightarrow> 's sbuf \<Rightarrow> int \<times> 's sbuf" where
  "sb_pubseekpos vt pos mode b = v_seekpos vt pos mode b"

section \<open>Stream state and byte order\<close>

record 's strm =
  sm_state :: int
  sm_swap :: bool
  sm_align :: bool
  sm_buf :: "'s sbuf"

definition goodbit :: int where "goodbit = 0"
definition eofbit :: int where "eofbit = 1"
definition failbit :: int where "failbit = 2"
definition badbit :: int where "badbit = 4"

text \<open>Open modes \<open>in\<close> and \<open>out\<close>, and the seek origins \<open>beg\<close>, \<open>cur\<close> and \<open>end\<close>.\<close>

definition mode_in :: int where "mode_in = 1"
definition mode_out :: int where "mode_out = 2"
definition dir_beg :: int where "dir_beg = 0"
definition dir_cur :: int where "dir_cur = 1"
definition dir_end :: int where "dir_end = 2"

datatype byte_order = LittleEndian | BigEndian

definition sm_ctor :: "'s sbuf \<Rightarrow> 's strm" where
  "sm_ctor b = \<lparr>sm_state = goodbit, sm_swap = False, sm_align = False, sm_buf = b\<rparr>"

definition host_byte_order :: "bool \<Rightarrow> byte_order" where
  "host_byte_order le = (if hd (host_bytes le 4 1) = 1 then LittleEndian else BigEndian)"
definition swapped_byte_order :: "bool \<Rightarrow> byte_order" where
  "swapped_byte_order le = (if hd (host_bytes le 4 1) = 1 then BigEndian else LittleEndian)"
definition sm_byte_order :: "bool \<Rightarrow> 's strm \<Rightarrow> byte_order" where
  "sm_byte_order le s = (if sm_swap s then host_byte_order le else swapped_byte_order le)"
definition sm_set_byte_order :: "bool \<Rightarrow> byte_order \<Rightarrow> 's strm \<Rightarrow> 's strm" where
  "sm_set_byte_order le ord s = s\<lparr>sm_swap := (ord = swapped_byte_order le)\<rparr>"
definition sm_byte_swap :: "'s strm \<Rightarrow> bool" where "sm_byte_swap s = sm_swap s"
definition sm_is_align :: "'s strm \<Rightarrow> bool" where "sm_is_align s = sm_align s"
definition sm_set_align :: "bool \<Rightarrow> 's strm \<Rightarrow> 's strm" where "sm_set_align on s = s\<lparr>sm_align := on\<rparr>"

definition sm_rdstate :: "'s strm \<Rightarrow> int" where "sm_rdstate s = sm_state s"
definition sm_clear :: "int \<Rightarrow> 's strm \<Rightarrow> 's strm" where "sm_clear st s = s\<lparr>sm_state := st\<rparr>"
definition sm_setstate :: "int \<Rightarrow> 's strm \<Rightarrow> 's strm" where "sm_setstate st s = s\<lparr>sm_state := st\<rparr>"
definition sm_good :: "'s strm \<Rightarrow> bool" where "sm_good s \<longleftrightarrow> sm_state s = goodbit"
definition sm_eof :: "'s strm \<Rightarrow> bool" where "sm_eof s \<longleftrightarrow> sm_state s AND eofbit \<noteq> 0"
definition sm_fail :: "'s strm \<Rightarrow> bool" where "sm_fail s \<longleftrightarrow> sm_state s AND failbit \<noteq> 0"
definition sm_bad :: "'s strm \<Rightarrow> bool" where "sm_bad s \<longleftrightarrow> sm_state s AND badbit \<noteq> 0"
definition sm_ok :: "'s strm \<Rightarrow> bool" where "sm_ok s \<longleftrightarrow> \<not> sm_fail s"
definition sm_not :: "'s strm \<Rightarrow> bool" where "sm_not s = sm_fail s"
definition sm_reset :: "'s strm \<Rightarrow> bool" where "sm_reset s \<longleftrightarrow> sm_state s = goodbit"

section \<open>Input streams\<close>

text \<open>\<open>state_ = goodbit; if (failed) state_ |= bits;\<close>\<close>

definition sm_result :: "bool \<Rightarrow> int \<Rightarrow> 's strm \<Rightarrow> 's sbuf \<Rightarrow> 's strm" where
  "sm_result failed bits s b =
     s\<lparr>sm_state := (if failed then goodbit OR bits else goodbit), sm_buf := b\<rparr>"

definition in_get :: "'s sbuf_vt \<Rightarrow> 's strm \<Rightarrow> (int \<times> 's strm) option" where
  "in_get vt s =
     do { (c, b) \<leftarrow> sb_sbumpc vt (sm_buf s); Some (c, sm_result (c < 0) (eofbit OR failbit) s b) }"

definition in_get_byte :: "'s sbuf_vt \<Rightarrow> byte \<Rightarrow> 's strm \<Rightarrow> (byte \<times> 's strm) option" where
  "in_get_byte vt by s =
     do { (c, b) \<leftarrow> sb_sbumpc vt (sm_buf s);
          Some (if 0 \<le> c then word_of_int c else by, sm_result (c < 0) (eofbit OR failbit) s b) }"

definition in_get_n :: "'s sbuf_vt \<Rightarrow> nat \<Rightarrow> 's strm \<Rightarrow> (byte list \<times> 's strm) option" where
  "in_get_n vt n s =
     do { (r, xs, b) \<leftarrow> sb_sgetn vt n (sm_buf s);
          Some (xs, sm_result (r < int n) (eofbit OR failbit) s b) }"

definition strm_read :: "'s sbuf_vt \<Rightarrow> nat \<Rightarrow> 's strm \<Rightarrow> (byte list \<times> 's strm) option" where
  "strm_read vt n s = in_get_n vt n s"
definition in_gcount :: "'s strm \<Rightarrow> int" where "in_gcount s = u32 (sb_in_avail (sm_buf s))"

definition in_putback :: "byte \<Rightarrow> 's strm \<Rightarrow> 's strm option" where
  "in_putback by s = do { (r, b) \<leftarrow> sb_sputbackc by (sm_buf s); Some (sm_result (r < 0) failbit s b) }"
definition in_unget :: "'s strm \<Rightarrow> 's strm option" where
  "in_unget s = do { (r, b) \<leftarrow> sb_sungetc (sm_buf s); Some (sm_result (r < 0) failbit s b) }"
definition in_sync :: "'s sbuf_vt \<Rightarrow> 's strm \<Rightarrow> (int \<times> 's strm) option" where
  "in_sync vt s = do { (r, b) \<leftarrow> sb_pubsync vt (sm_buf s); Some (r, s\<lparr>sm_buf := b\<rparr>) }"

definition in_tellg :: "'s sbuf_vt \<Rightarrow> 's strm \<Rightarrow> int \<times> 's strm" where
  "in_tellg vt s =
     (if sm_fail s then (-1, s)
      else let (r, b) = sb_pubseekoff vt 0 dir_cur mode_in (sm_buf s) in (r, s\<lparr>sm_buf := b\<rparr>))"
definition in_seekg :: "'s sbuf_vt \<Rightarrow> int \<Rightarrow> 's strm \<Rightarrow> 's strm" where
  "in_seekg vt pos s = (let (r, b) = sb_pubseekpos vt pos mode_in (sm_buf s) in sm_result (r < 0) failbit s b)"
definition in_seekg_off :: "'s sbuf_vt \<Rightarrow> int \<Rightarrow> int \<Rightarrow> 's strm \<Rightarrow> 's strm" where
  "in_seekg_off vt off dir s =
     (let (r, b) = sb_pubseekoff vt off dir mode_in (sm_buf s) in sm_result (r < 0) failbit s b)"

text \<open>\<open>extract(T& v)\<close> for an integer type of \<open>k\<close> bytes. The value before the call is \<open>v\<close>: when
  the stream runs short only its first bytes are overwritten. \<open>signed_val\<close> reads the result as
  a signed one.\<close>

definition in_extract :: "'s sbuf_vt \<Rightarrow> bool \<Rightarrow> nat \<Rightarrow> int \<Rightarrow> 's strm \<Rightarrow> (int \<times> 's strm) option" where
  "in_extract vt le k v s =
     do { b \<leftarrow> (if sm_align s then sb_galign vt (int k) (sm_buf s) else Some (sm_buf s));
          (xs, s') \<leftarrow> in_get_n vt k (s\<lparr>sm_buf := b\<rparr>);
          let raw = xs @ drop (length xs) (host_bytes le k v) in
          Some (host_val le (if sm_swap s' then swap_bytes raw else raw), s') }"

definition in_bool :: "'s sbuf_vt \<Rightarrow> 's strm \<Rightarrow> (bool \<times> 's strm) option" where
  "in_bool vt s = do { (c, s') \<leftarrow> in_get vt s; Some (0 < c, s') }"
definition in_byte :: "'s sbuf_vt \<Rightarrow> 's strm \<Rightarrow> (byte \<times> 's strm) option" where
  "in_byte vt s = do { (c, s') \<leftarrow> in_get vt s; Some (word_of_int c, s') }"
definition in_schar :: "'s sbuf_vt \<Rightarrow> 's strm \<Rightarrow> (int \<times> 's strm) option" where
  "in_schar vt s = do { (c, s') \<leftarrow> in_get vt s; Some (signed_val 1 (u8 c), s') }"
definition in_int16 :: "'s sbuf_vt \<Rightarrow> bool \<Rightarrow> int \<Rightarrow> 's strm \<Rightarrow> (int \<times> 's strm) option" where
  "in_int16 vt le v s = do { (x, s') \<leftarrow> in_extract vt le 2 v s; Some (signed_val 2 x, s') }"
definition in_uint16 :: "'s sbuf_vt \<Rightarrow> bool \<Rightarrow> int \<Rightarrow> 's strm \<Rightarrow> (int \<times> 's strm) option" where
  "in_uint16 vt le v s = in_extract vt le 2 v s"
definition in_int32 :: "'s sbuf_vt \<Rightarrow> bool \<Rightarrow> int \<Rightarrow> 's strm \<Rightarrow> (int \<times> 's strm) option" where
  "in_int32 vt le v s = do { (x, s') \<leftarrow> in_extract vt le 4 v s; Some (signed_val 4 x, s') }"
definition in_uint32 :: "'s sbuf_vt \<Rightarrow> bool \<Rightarrow> int \<Rightarrow> 's strm \<Rightarrow> (int \<times> 's strm) option" where
  "in_uint32 vt le v s = in_extract vt le 4 v s"

text \<open>A floating-point value is its object representation, which is not swapped or aligned;
  \<open>long double\<close> takes 16 bytes.\<close>

definition in_float :: "'s sbuf_vt \<Rightarrow> 's strm \<Rightarrow> (byte list \<times> 's strm) option" where
  "in_float vt s = in_get_n vt 4 s"
definition in_double :: "'s sbuf_vt \<Rightarrow> 's strm \<Rightarrow> (byte list \<times> 's strm) option" where
  "in_double vt s = in_get_n vt 8 s"
definition in_long_double :: "'s sbuf_vt \<Rightarrow> 's strm \<Rightarrow> (byte list \<times> 's strm) option" where
  "in_long_double vt s = in_get_n vt 16 s"

text \<open>A counted \<open>ByteBuffer\<close>; \<open>len\<close> starts with the arbitrary value \<open>g\<close>, and there is no check
  that it fits the buffer. The buffer's memory does not overlap the stream's.\<close>

definition in_buffer :: "'s sbuf_vt \<Rightarrow> bool \<Rightarrow> int \<Rightarrow> bf \<Rightarrow> 's strm \<Rightarrow> (bf \<times> 's strm) option" where
  "in_buffer vt le g buf s =
     do { (len, s1) \<leftarrow> in_uint16 vt le g s;
          (xs, s2) \<leftarrow> in_get_n vt (nat len) s1;
          m \<leftarrow> wr_list (sb_mem (sm_buf s2)) (bf_base buf) xs;
          Some (bf_set_size len buf, s2\<lparr>sm_buf := (sm_buf s2)\<lparr>sb_mem := m\<rparr>\<rparr>) }"

section \<open>Output streams\<close>

definition out_put :: "'s sbuf_vt \<Rightarrow> byte \<Rightarrow> 's strm \<Rightarrow> 's strm option" where
  "out_put vt by s =
     do { (r, b) \<leftarrow> sb_sputc (v_overflow vt) by (sm_buf s); Some (sm_result (r < 0) failbit s b) }"
definition strm_write :: "'s sbuf_vt \<Rightarrow> byte list \<Rightarrow> 's strm \<Rightarrow> 's strm option" where
  "strm_write vt bs s =
     do { (r, b) \<leftarrow> sb_sputn vt bs (sm_buf s); Some (sm_result (r < int (length bs)) failbit s b) }"
definition out_flush :: "'s sbuf_vt \<Rightarrow> 's strm \<Rightarrow> 's strm option" where
  "out_flush vt s = do { (r, b) \<leftarrow> sb_pubsync vt (sm_buf s); Some (sm_result (r < 0) failbit s b) }"
definition out_tellp :: "'s sbuf_vt \<Rightarrow> 's strm \<Rightarrow> int \<times> 's strm" where
  "out_tellp vt s =
     (if sm_fail s then (-1, s)
      else let (r, b) = sb_pubseekoff vt 0 dir_cur mode_out (sm_buf s) in (r, s\<lparr>sm_buf := b\<rparr>))"
definition out_seekp :: "'s sbuf_vt \<Rightarrow> int \<Rightarrow> 's strm \<Rightarrow> 's strm" where
  "out_seekp vt pos s = (let (r, b) = sb_pubseekpos vt pos mode_out (sm_buf s) in sm_result (r < 0) failbit s b)"
definition out_seekp_off :: "'s sbuf_vt \<Rightarrow> int \<Rightarrow> int \<Rightarrow> 's strm \<Rightarrow> 's strm" where
  "out_seekp_off vt off dir s =
     (let (r, b) = sb_pubseekoff vt off dir mode_out (sm_buf s) in sm_result (r < 0) failbit s b)"

definition out_insert :: "'s sbuf_vt \<Rightarrow> bool \<Rightarrow> nat \<Rightarrow> int \<Rightarrow> 's strm \<Rightarrow> 's strm option" where
  "out_insert vt le k v s =
     do { b \<leftarrow> (if sm_align s then sb_palign vt (int k) (sm_buf s) else Some (sm_buf s));
          let raw = (if sm_swap s then swap_bytes (host_bytes le k v) else host_bytes le k v) in
          strm_write vt raw (s\<lparr>sm_buf := b\<rparr>) }"

definition out_bool :: "'s sbuf_vt \<Rightarrow> bool \<Rightarrow> 's strm \<Rightarrow> 's strm option" where
  "out_bool vt x s = out_put vt (if x then 1 else 0) s"
definition out_byte :: "'s sbuf_vt \<Rightarrow> byte \<Rightarrow> 's strm \<Rightarrow> 's strm option" where
  "out_byte vt by s = out_put vt by s"
definition out_schar :: "'s sbuf_vt \<Rightarrow> int \<Rightarrow> 's strm \<Rightarrow> 's strm option" where
  "out_schar vt ch s = out_put vt (word_of_int ch) s"
definition out_int16 :: "'s sbuf_vt \<Rightarrow> bool \<Rightarrow> int \<Rightarrow> 's strm \<Rightarrow> 's strm option" where
  "out_int16 vt le n s = out_insert vt le 2 n s"
definition out_uint16 :: "'s sbuf_vt \<Rightarrow> bool \<Rightarrow> int \<Rightarrow> 's strm \<Rightarrow> 's strm option" where
  "out_uint16 vt le w s = out_insert vt le 2 w s"
definition out_int32 :: "'s sbuf_vt \<Rightarrow> bool \<Rightarrow> int \<Rightarrow> 's strm \<Rightarrow> 's strm option" where
  "out_int32 vt le n s = out_insert vt le 4 n s"
definition out_uint32 :: "'s sbuf_vt \<Rightarrow> bool \<Rightarrow> int \<Rightarrow> 's strm \<Rightarrow> 's strm option" where
  "out_uint32 vt le dw s = out_insert vt le 4 dw s"
definition out_float :: "'s sbuf_vt \<Rightarrow> byte list \<Rightarrow> 's strm \<Rightarrow> 's strm option" where
  "out_float vt f s = strm_write vt (take 4 f) s"
definition out_double :: "'s sbuf_vt \<Rightarrow> byte list \<Rightarrow> 's strm \<Rightarrow> 's strm option" where
  "out_double vt d s = strm_write vt (take 8 d) s"
definition out_long_double :: "'s sbuf_vt \<Rightarrow> byte list \<Rightarrow> 's strm \<Rightarrow> 's strm option" where
  "out_long_double vt ld s = strm_write vt (take 16 ld) s"

definition out_buffer :: "'s sbuf_vt \<Rightarrow> bool \<Rightarrow> bf \<Rightarrow> 's strm \<Rightarrow> 's strm option" where
  "out_buffer vt le buf s =
     do { s1 \<leftarrow> out_uint16 vt le (u16 (bf_size buf)) s;
          xs \<leftarrow> rd_list (sb_mem (sm_buf s1)) (bf_data buf) (nat (bf_size buf));
          strm_write vt xs s1 }"

text \<open>A manipulator is applied to the stream; \<open>os << flush\<close> is \<open>os.flush()\<close>.\<close>

definition out_apply :: "('s strm \<Rightarrow> 's strm option) \<Rightarrow> 's strm \<Rightarrow> 's strm option" where
  "out_apply pf s = pf s"
definition out_manip_flush :: "'s sbuf_vt \<Rightarrow> 's strm \<Rightarrow> 's strm option" where
  "out_manip_flush vt s = out_flush vt s"

section \<open>Streams over memory\<close>

definition mb_setbuf :: "int \<Rightarrow> int \<Rightarrow> 's sbuf \<Rightarrow> 's sbuf" where
  "mb_setbuf p n b = sb_setp p (p + n) (sb_setg p p (p + n) b)"
definition mb_ctor :: "int \<Rightarrow> int \<Rightarrow> byte mem \<Rightarrow> unit sbuf" where
  "mb_ctor p n m = mb_setbuf p n (sb_ctor m ())"
definition mb_reset :: "int \<Rightarrow> 's sbuf \<Rightarrow> 's sbuf" where
  "mb_reset mode b =
     (let b = (if mode AND mode_in \<noteq> 0 then sb_gbump (s32 (gbegin b - gnext b)) b else b)
      in if mode AND mode_out \<noteq> 0 then sb_pbump (s32 (pbegin b - pnext b)) b else b)"

text \<open>The local pointer \<open>p\<close> starts null and keeps its value when \<open>dir\<close> is none of the three.\<close>

definition mb_seekoff :: "int \<Rightarrow> int \<Rightarrow> int \<Rightarrow> 's sbuf \<Rightarrow> int \<times> 's sbuf" where
  "mb_seekoff off dir mode b =
     (let pick = (\<lambda>p beg cur en. if dir = dir_beg then beg + s32 off else if dir = dir_cur then cur + s32 off
                                 else if dir = dir_end then en + s32 off else p);
          (n, p, b) = (if mode AND mode_in \<noteq> 0 then
              let p = pick 0 (gbegin b) (gnext b) (gend b)
              in if gbegin b \<le> p \<and> p \<le> gend b then (p - gbegin b, p, sb_gbump (s32 (p - gnext b)) b)
                 else (-1, p, b)
            else (-1, 0, b))
      in if mode AND mode_out \<noteq> 0 then
           let p = pick p (pbegin b) (pnext b) (pend b)
           in if pbegin b \<le> p \<and> p \<le> pend b then (p - pbegin b, sb_pbump (s32 (p - pnext b)) b)
              else (-1, b)
         else (n, b))"

text \<open>\<open>posMax\<close> is \<open>(long) unsigned(-1)\<close>. The position is not compared with the size.\<close>

definition mb_seekpos :: "int \<Rightarrow> int \<Rightarrow> 's sbuf \<Rightarrow> int \<times> 's sbuf" where
  "mb_seekpos pos mode b =
     (if 0 \<le> pos \<and> pos \<le> 4294967295 then
        let (n, b) = (if mode AND mode_in \<noteq> 0 then (pos, sb_gbump (s32 (pos + (gbegin b - gnext b))) b) else (-1, b))
        in if mode AND mode_out \<noteq> 0 then (pos, sb_pbump (s32 (pos + (pbegin b - pnext b))) b) else (n, b)
      else (-1, b))"

definition mb_vt :: "'s sbuf_vt" where
  "mb_vt = sb_vt\<lparr>v_seekoff := mb_seekoff, v_seekpos := mb_seekpos\<rparr>"

definition im_ctor :: "int \<Rightarrow> int \<Rightarrow> byte mem \<Rightarrow> unit strm" where
  "im_ctor p n m = sm_ctor (mb_setbuf p n (sb_ctor m ()))"
definition im_reset :: "'s strm \<Rightarrow> 's strm" where
  "im_reset s = s\<lparr>sm_state := goodbit, sm_buf := mb_reset mode_in (sm_buf s)\<rparr>"
definition om_ctor :: "int \<Rightarrow> int \<Rightarrow> byte mem \<Rightarrow> unit strm" where
  "om_ctor p n m = sm_ctor (mb_setbuf p n (sb_ctor m ()))"
definition om_reset :: "'s strm \<Rightarrow> 's strm" where
  "om_reset s = s\<lparr>sm_state := goodbit, sm_buf := mb_reset mode_out (sm_buf s)\<rparr>"

section \<open>Operations on memory streams\<close>

text \<open>A put area over live memory of less than 2 GB, and a get area.\<close>

definition put_area :: "'s sbuf \<Rightarrow> bool" where
  "put_area b \<longleftrightarrow> 0 < pbegin b \<and> pbegin b \<le> pnext b \<and> pnext b \<le> pend b \<and> pend b - pbegin b < 2147483648 \<and>
     live_range (sb_mem b) (pbegin b) (pend b - pbegin b)"

definition get_area :: "'s sbuf \<Rightarrow> bool" where
  "get_area b \<longleftrightarrow> 0 < gbegin b \<and> gbegin b \<le> gnext b \<and> gnext b \<le> gend b \<and> gend b - gbegin b < 2147483648 \<and>
     live_range (sb_mem b) (gbegin b) (gend b - gbegin b)"

lemma put_area_live:
  "put_area b \<Longrightarrow> pbegin b \<le> q \<Longrightarrow> q + k \<le> pend b \<Longrightarrow> live_range (sb_mem b) q k"
  by (auto simp: put_area_def intro: live_range_sub)

lemma get_area_live:
  "get_area b \<Longrightarrow> gbegin b \<le> q \<Longrightarrow> q + k \<le> gend b \<Longrightarrow> live_range (sb_mem b) q k"
  by (auto simp: get_area_def intro: live_range_sub)

subsection \<open>Putting\<close>

text \<open>The state after \<open>bs\<close> was copied to the put pointer.\<close>

definition put_here :: "byte list \<Rightarrow> 's sbuf \<Rightarrow> 's sbuf" where
  "put_here bs b = b\<lparr>pnext := pnext b + int (length bs), sb_mem := put_at (pnext b) bs (sb_mem b)\<rparr>"

lemma put_here_simps [simp]:
  "pbegin (put_here bs b) = pbegin b" "pend (put_here bs b) = pend b"
  "pnext (put_here bs b) = pnext b + int (length bs)"
  "gbegin (put_here bs b) = gbegin b" "gnext (put_here bs b) = gnext b" "gend (put_here bs b) = gend b"
  "sb_mem (put_here bs b) = put_at (pnext b) bs (sb_mem b)" "sb_dev (put_here bs b) = sb_dev b"
  by (simp_all add: put_here_def)

lemma put_here_Nil [simp]: "put_here [] b = b"
  by (simp add: put_here_def)

lemma put_area_put_here:
  "put_area b \<Longrightarrow> pnext b + int (length bs) \<le> pend b \<Longrightarrow> put_area (put_here bs b)"
  by (auto simp: put_area_def)

lemma put_here_append: "put_here ys (put_here xs b) = put_here (xs @ ys) b"
  by (simp add: put_here_def put_at_append add.assoc)

lemma sputc_room:
  assumes "put_area b" "pnext b < pend b"
  shows "sb_sputc ovf x b = Some (uint x, put_here [x] b)"
proof -
  have "live_range (sb_mem b) (pnext b) 1"
    using assms by (intro put_area_live) (auto simp: put_area_def)
  then have "m_live (sb_mem b) (pnext b)" by (auto intro: live_range_nth)
  then show ?thesis using assms put_at_Cons [of "pnext b" "[]" "sb_mem b" x]
    by (simp add: sb_sputc_def wr_live put_here_def put_area_def)
qed

lemma sputc_full: "pend b \<le> pnext b \<Longrightarrow> sb_sputc ovf x b = ovf (uint x) b"
  by (simp add: sb_sputc_def)

lemma zeros_room:
  "put_area b \<Longrightarrow> pnext b + int n \<le> pend b \<Longrightarrow> sb_zeros vt n b = Some (put_here (replicate n 0) b)"
proof (induction n arbitrary: b)
  case (Suc n)
  have "put_area (put_here [0] b)" "pnext (put_here [0] b) + int n \<le> pend (put_here [0] b)"
    using Suc.prems by (auto intro: put_area_put_here)
  from Suc.IH [OF this] show ?case using Suc.prems by (simp add: sputc_room put_here_append)
qed simp

text \<open>One \<open>memcpy\<close> puts as much as there is room for; what is left goes to \<open>overflow\<close>.\<close>

lemma xsputn_step:
  assumes "put_area b"
  shows "sb_xsputn_loop vt bs b =
    (if int (length bs) \<le> pend b - pnext b then Some (0, put_here bs b)
     else let k = nat (pend b - pnext b); b' = put_here (take k bs) b; bs' = drop k bs
       in do { (c, b'') \<leftarrow> v_overflow vt (uint (hd bs')) b';
               if c < 0 then Some (length bs', b'') else sb_xsputn_loop vt (tl bs') b'' })"
proof (cases "bs = []")
  case True
  then show ?thesis using assms by (subst sb_xsputn_loop.simps) (simp add: put_area_def)
next
  case False
  note area = assms [unfolded put_area_def]
  show ?thesis
  proof (cases "pnext b < pend b")
    case False
    then have "pend b = pnext b" using area by simp
    then show ?thesis using \<open>bs \<noteq> []\<close> by (subst sb_xsputn_loop.simps) (simp add: put_here_def)
  next
    case True
    define k where "k = min (length bs) (nat (pend b - pnext b))"
    have k: "0 < k" "int k \<le> pend b - pnext b" "k \<le> length bs" "int k < 2147483648"
      using True \<open>bs \<noteq> []\<close> area by (auto simp: k_def)
    have lk: "length (take k bs) = k" using k by simp
    have "live_range (sb_mem b) (pnext b) (int (length (take k bs)))"
      using area k by (intro put_area_live [OF assms]) auto
    then have wr: "wr_list (sb_mem b) (pnext b) (take k bs) = Some (put_at (pnext b) (take k bs) (sb_mem b))"
      by (rule wr_list_put_at)
    have "sb_pbump (s32 (int k)) (b\<lparr>sb_mem := put_at (pnext b) (take k bs) (sb_mem b)\<rparr>) = put_here (take k bs) b"
      using k lk by (simp add: sb_pbump_def put_here_def)
    then have one: "sb_xsputn_loop vt bs b = sb_xsputn_loop vt (drop k bs) (put_here (take k bs) b)"
      using True \<open>bs \<noteq> []\<close> area wr by (subst sb_xsputn_loop.simps) (simp add: k_def Let_def)
    show ?thesis
    proof (cases "int (length bs) \<le> pend b - pnext b")
      case True
      then have "k = length bs" by (simp add: k_def)
      then show ?thesis using one True by (subst (asm) (2) sb_xsputn_loop.simps) simp
    next
      case False
      then have keq: "k = nat (pend b - pnext b)" by (simp add: k_def)
      then have "drop k bs \<noteq> []" "pnext (put_here (take k bs) b) = pend (put_here (take k bs) b)"
        using False True lk by auto
      then have "sb_xsputn_loop vt (drop k bs) (put_here (take k bs) b) =
          do { (c, b'') \<leftarrow> v_overflow vt (uint (hd (drop k bs))) (put_here (take k bs) b);
               if c < 0 then Some (length (drop k bs), b'') else sb_xsputn_loop vt (tl (drop k bs)) b'' }"
        by (subst sb_xsputn_loop.simps) simp
      then show ?thesis using one False unfolding keq by (simp add: Let_def)
    qed
  qed
qed

lemma xsputn_fits:
  "put_area b \<Longrightarrow> pnext b + int (length bs) \<le> pend b \<Longrightarrow> sb_xsputn_loop vt bs b = Some (0, put_here bs b)"
  by (subst xsputn_step) auto

lemma out_write_fits:
  "put_area (sm_buf s) \<Longrightarrow> pnext (sm_buf s) + int (length bs) \<le> pend (sm_buf s) \<Longrightarrow>
    strm_write vt bs s = Some (s\<lparr>sm_state := goodbit, sm_buf := put_here bs (sm_buf s)\<rparr>)"
  by (simp add: strm_write_def sb_sputn_def xsputn_fits sm_result_def)

lemma out_put_fits:
  "put_area (sm_buf s) \<Longrightarrow> pnext (sm_buf s) < pend (sm_buf s) \<Longrightarrow>
    out_put vt x s = Some (s\<lparr>sm_state := goodbit, sm_buf := put_here [x] (sm_buf s)\<rparr>)"
  by (simp add: out_put_def sputc_room sm_result_def)

text \<open>A memory stream that is full takes what fits and fails.\<close>

lemma xsputn_short:
  assumes "put_area b" "v_overflow vt = sb_overflow" "pend b < pnext b + int (length bs)"
  shows "sb_xsputn_loop vt bs b =
    Some (length bs - nat (pend b - pnext b), put_here (take (nat (pend b - pnext b)) bs) b)"
  using assms(2,3) by (subst xsputn_step [OF assms(1)]) (simp add: sb_overflow_def Let_def)

lemma out_write_short:
  assumes "put_area (sm_buf s)" "v_overflow vt = sb_overflow"
    and "pend (sm_buf s) < pnext (sm_buf s) + int (length bs)"
  shows "strm_write vt bs s =
    Some (s\<lparr>sm_state := failbit, sm_buf := put_here (take (nat (pend (sm_buf s) - pnext (sm_buf s))) bs) (sm_buf s)\<rparr>)"
proof -
  have le: "pnext (sm_buf s) \<le> pend (sm_buf s)" using assms(1) by (simp add: put_area_def)
  then have "\<not> length bs \<le> nat (pend (sm_buf s) - pnext (sm_buf s))" using assms(3) by linarith
  then show ?thesis
    by (auto simp: strm_write_def sb_sputn_def xsputn_short [OF assms] sm_result_def goodbit_def le)
qed

subsection \<open>Getting\<close>

definition get_here :: "nat \<Rightarrow> 's sbuf \<Rightarrow> 's sbuf" where
  "get_here n b = b\<lparr>gnext := gnext b + int n\<rparr>"

lemma get_here_simps [simp]:
  "pbegin (get_here n b) = pbegin b" "pend (get_here n b) = pend b" "pnext (get_here n b) = pnext b"
  "gbegin (get_here n b) = gbegin b" "gnext (get_here n b) = gnext b + int n" "gend (get_here n b) = gend b"
  "sb_mem (get_here n b) = sb_mem b" "sb_dev (get_here n b) = sb_dev b"
  by (simp_all add: get_here_def)

lemma get_here_0 [simp]: "get_here 0 b = b"
  by (simp add: get_here_def)

lemma get_here_add: "get_here n (get_here k b) = get_here (k + n) b"
  by (simp add: get_here_def add.assoc)

lemma get_area_get_here:
  "get_area b \<Longrightarrow> gnext b + int n \<le> gend b \<Longrightarrow> get_area (get_here n b)"
  by (auto simp: get_area_def)

lemma sbumpc_room:
  assumes "get_area b" "gnext b < gend b"
  shows "sb_sbumpc vt b = Some (uint (m_val (sb_mem b) (gnext b)), get_here 1 b)"
proof -
  have "live_range (sb_mem b) (gnext b) 1"
    using assms by (intro get_area_live) (auto simp: get_area_def)
  then have "m_live (sb_mem b) (gnext b)" by (auto intro: live_range_nth)
  then show ?thesis using assms by (simp add: sb_sbumpc_def rd_live get_here_def get_area_def)
qed

lemma skip_room:
  "get_area b \<Longrightarrow> gnext b + int n \<le> gend b \<Longrightarrow> sb_skip vt n b = Some (get_here n b)"
proof (induction n arbitrary: b)
  case (Suc n)
  have "get_area (get_here 1 b)" "gnext (get_here 1 b) + int n \<le> gend (get_here 1 b)"
    using Suc.prems by (auto intro: get_area_get_here)
  from Suc.IH [OF this] show ?case using Suc.prems by (simp add: sbumpc_room get_here_add)
qed simp

lemma cells_take: "int k \<le> n \<Longrightarrow> take k (cells m p n) = cells m p (int k)"
  by (rule nth_equalityI) (auto simp: nth_cells)

text \<open>One \<open>memcpy\<close> takes what the get area has; the rest comes from \<open>uflow\<close>.\<close>

lemma xsgetn_step:
  assumes "get_area b"
  shows "sb_xsgetn_loop vt cnt acc b =
    (if int cnt \<le> gend b - gnext b then Some (0, acc @ cells (sb_mem b) (gnext b) (int cnt), get_here cnt b)
     else let k = nat (gend b - gnext b); acc' = acc @ cells (sb_mem b) (gnext b) (gend b - gnext b)
       in do { (c, b'') \<leftarrow> sb_uflow vt (get_here k b);
               if c < 0 then Some (cnt - k, acc', b'')
               else sb_xsgetn_loop vt (cnt - k - 1) (acc' @ [word_of_int c]) b'' })"
proof (cases "cnt = 0")
  case True
  then show ?thesis using assms by (subst sb_xsgetn_loop.simps) (simp add: get_area_def)
next
  case False
  note area = assms [unfolded get_area_def]
  show ?thesis
  proof (cases "gnext b < gend b")
    case False
    then have "gend b = gnext b" using area by simp
    then show ?thesis using \<open>cnt \<noteq> 0\<close> by - (subst sb_xsgetn_loop.simps, simp add: Let_def, unfold diff_zero, rule refl)
  next
    case True
    define k where "k = min cnt (nat (gend b - gnext b))"
    have k: "0 < k" "int k \<le> gend b - gnext b" "k \<le> cnt" "int k < 2147483648"
      using True \<open>cnt \<noteq> 0\<close> area by (auto simp: k_def)
    have "live_range (sb_mem b) (gnext b) (int k)"
      using area k by (intro get_area_live [OF assms]) auto
    then have rd: "rd_list (sb_mem b) (gnext b) k = Some (cells (sb_mem b) (gnext b) (int k))"
      by (rule rd_list_cells)
    have "sb_gbump (s32 (int k)) b = get_here k b" using k by (simp add: sb_gbump_def get_here_def)
    then have one: "sb_xsgetn_loop vt cnt acc b =
        sb_xsgetn_loop vt (cnt - k) (acc @ cells (sb_mem b) (gnext b) (int k)) (get_here k b)"
      using True \<open>cnt \<noteq> 0\<close> area rd by (subst sb_xsgetn_loop.simps) (simp add: k_def Let_def)
    show ?thesis
    proof (cases "int cnt \<le> gend b - gnext b")
      case True
      then have "k = cnt" by (simp add: k_def)
      then show ?thesis using one True by (subst (asm) (2) sb_xsgetn_loop.simps) simp
    next
      case False
      then have keq: "k = nat (gend b - gnext b)" and ki: "int k = gend b - gnext b"
        using True by (auto simp: k_def)
      then have "cnt - k \<noteq> 0" "gnext (get_here k b) = gend (get_here k b)"
        using False True by auto
      then have "sb_xsgetn_loop vt (cnt - k) acc' (get_here k b) =
          do { (c, b'') \<leftarrow> sb_uflow vt (get_here k b);
               if c < 0 then Some (cnt - k, acc', b'')
               else sb_xsgetn_loop vt (cnt - k - 1) (acc' @ [word_of_int c]) b'' }" for acc'
        by (subst sb_xsgetn_loop.simps) simp
      then show ?thesis using one False ki unfolding keq by (simp add: Let_def)
    qed
  qed
qed

lemma in_get_n_fits:
  assumes "get_area (sm_buf s)" "gnext (sm_buf s) + int n \<le> gend (sm_buf s)"
  shows "in_get_n vt n s = Some (cells (sb_mem (sm_buf s)) (gnext (sm_buf s)) (int n),
    s\<lparr>sm_state := goodbit, sm_buf := get_here n (sm_buf s)\<rparr>)"
proof -
  have "sb_xsgetn_loop vt n [] (sm_buf s) =
      Some (0, cells (sb_mem (sm_buf s)) (gnext (sm_buf s)) (int n), get_here n (sm_buf s))"
    using assms(2) by (subst xsgetn_step [OF assms(1)]) simp
  then show ?thesis by (simp add: in_get_n_def sb_sgetn_def sm_result_def)
qed

text \<open>At the end of a memory stream the caller gets what is left, and the stream fails.\<close>

lemma in_get_n_short:
  assumes "get_area (sm_buf s)" "v_underflow vt = sb_underflow"
    and "gend (sm_buf s) < gnext (sm_buf s) + int n"
  shows "in_get_n vt n s =
    Some (cells (sb_mem (sm_buf s)) (gnext (sm_buf s)) (gend (sm_buf s) - gnext (sm_buf s)),
      s\<lparr>sm_state := 3, sm_buf := get_here (nat (gend (sm_buf s) - gnext (sm_buf s))) (sm_buf s)\<rparr>)"
proof -
  let ?b = "sm_buf s" let ?k = "nat (gend ?b - gnext ?b)"
  have le: "gnext ?b \<le> gend ?b" using assms(1) by (simp add: get_area_def)
  have "sb_uflow vt b = Some (-1, b)" for b by (simp add: sb_uflow_def assms(2) sb_underflow_def)
  then have "sb_xsgetn_loop vt n [] ?b = Some (n - ?k, cells (sb_mem ?b) (gnext ?b) (gend ?b - gnext ?b), get_here ?k ?b)"
    using assms(3) by (subst xsgetn_step [OF assms(1)]) (simp add: Let_def)
  moreover have "int n - int (n - ?k) < int n" "?k \<le> n" using assms(3) le by auto
  ultimately show ?thesis
    by (simp add: in_get_n_def sb_sgetn_def sm_result_def goodbit_def eofbit_def failbit_def)
qed

lemma in_get_room:
  "get_area (sm_buf s) \<Longrightarrow> gnext (sm_buf s) < gend (sm_buf s) \<Longrightarrow>
    in_get vt s = Some (uint (m_val (sb_mem (sm_buf s)) (gnext (sm_buf s))),
      s\<lparr>sm_state := goodbit, sm_buf := get_here 1 (sm_buf s)\<rparr>)"
  by (simp add: in_get_def sbumpc_room sm_result_def)

section \<open>Sequences of values on a stream\<close>

text \<open>What a program writes and reads in a row: integers of \<open>k\<close> bytes (\<open><<\<close> and \<open>>>\<close>),
  single bytes, and raw arrays (\<open>write\<close> and \<open>get\<close>). A reader's items hold the values its
  variables have before.\<close>

datatype item = Word nat int | Byte byte | Raw "byte list"

fun out_item :: "'s sbuf_vt \<Rightarrow> bool \<Rightarrow> item \<Rightarrow> 's strm \<Rightarrow> 's strm option" where
  "out_item vt le (Word k v) s = out_insert vt le k v s"
| "out_item vt le (Byte x) s = out_put vt x s"
| "out_item vt le (Raw bs) s = strm_write vt bs s"

fun out_items :: "'s sbuf_vt \<Rightarrow> bool \<Rightarrow> item list \<Rightarrow> 's strm \<Rightarrow> 's strm option" where
  "out_items vt le [] s = Some s"
| "out_items vt le (it # its) s = do { s' \<leftarrow> out_item vt le it s; out_items vt le its s' }"

fun in_item :: "'s sbuf_vt \<Rightarrow> bool \<Rightarrow> item \<Rightarrow> 's strm \<Rightarrow> (item \<times> 's strm) option" where
  "in_item vt le (Word k v) s = map_option (map_prod (Word k) id) (in_extract vt le k v s)"
| "in_item vt le (Byte x) s = map_option (map_prod Byte id) (in_get_byte vt x s)"
| "in_item vt le (Raw bs) s = map_option (map_prod (\<lambda>xs. Raw (xs @ drop (length xs) bs)) id) (in_get_n vt (length bs) s)"

fun in_items :: "'s sbuf_vt \<Rightarrow> bool \<Rightarrow> item list \<Rightarrow> 's strm \<Rightarrow> (item list \<times> 's strm) option" where
  "in_items vt le [] s = Some ([], s)"
| "in_items vt le (it # its) s =
     do { (x, s1) \<leftarrow> in_item vt le it s; (xs, s2) \<leftarrow> in_items vt le its s1; Some (x # xs, s2) }"

text \<open>The bytes of a sequence that starts at offset \<open>off\<close>: \<open>w\<close> for little endian, \<open>al\<close> for
  integers aligned to their size.\<close>

fun item_bytes :: "bool \<Rightarrow> item \<Rightarrow> byte list" where
  "item_bytes w (Word k v) = host_bytes w k v"
| "item_bytes w (Byte x) = [x]"
| "item_bytes w (Raw bs) = bs"

fun item_pad :: "bool \<Rightarrow> nat \<Rightarrow> item \<Rightarrow> nat" where
  "item_pad al off (Word k v) = (if al \<and> off mod k \<noteq> 0 then k - off mod k else 0)"
| "item_pad al off it = 0"

definition wire_item :: "bool \<Rightarrow> bool \<Rightarrow> nat \<Rightarrow> item \<Rightarrow> byte list" where
  "wire_item al w off it = replicate (item_pad al off it) 0 @ item_bytes w it"

fun wire :: "bool \<Rightarrow> bool \<Rightarrow> nat \<Rightarrow> item list \<Rightarrow> byte list" where
  "wire al w off [] = []"
| "wire al w off (it # its) =
     wire_item al w off it @ wire al w (off + length (wire_item al w off it)) its"

text \<open>The word sizes the streams handle, equal shapes, and the value a word has on the wire.\<close>

fun item_ok :: "item \<Rightarrow> bool" where
  "item_ok (Word k v) = (0 < k \<and> k \<le> 8)"
| "item_ok it = True"

fun same_shape :: "item \<Rightarrow> item \<Rightarrow> bool" where
  "same_shape (Word k v) (Word k' v') = (k = k')"
| "same_shape (Byte x) (Byte y) = True"
| "same_shape (Raw xs) (Raw ys) = (length xs = length ys)"
| "same_shape a b = False"

fun item_val :: "item \<Rightarrow> item" where
  "item_val (Word k v) = Word k (v mod 256 ^ k)"
| "item_val it = it"

lemma c_mod_off: "0 < k \<Longrightarrow> c_mod (int off) (int k) = int (off mod k)"
  by (simp add: zmod_int)

lemma pad_int: "(k :: nat) \<le> 8 \<Longrightarrow> 0 < k \<Longrightarrow> nat (s32 (int k - int (off mod k))) = k - off mod k"
proof -
  assume k: "k \<le> 8" "0 < k"
  then have m: "off mod k < k" by simp
  have e: "int k - int (off mod k) = int (k - off mod k)" using m by (simp only: of_nat_diff less_imp_le)
  have "int (k - off mod k) < 2147483648" using k by linarith
  then have "s32 (int (k - off mod k)) = int (k - off mod k)" by (intro s32_id) linarith+
  then show ?thesis by (simp only: e nat_int)
qed

lemma palign_off:
  assumes "put_area b" "pnext b = pbegin b + int off" "0 < k" "k \<le> 8"
    and "pnext b + int (item_pad True off (Word k v)) \<le> pend b"
  shows "sb_palign vt (int k) b = Some (put_here (replicate (item_pad True off (Word k v)) 0) b)"
proof -
  have "pnext b - pbegin b = int off" using assms(2) by simp
  then have rem: "c_mod (pnext b - pbegin b) (int k) = int (off mod k)" by (simp only: c_mod_off [OF assms(3)])
  show ?thesis unfolding sb_palign_def rem Let_def using assms(5) pad_int [OF assms(4,3), of off]
    by (auto simp: zeros_room [OF assms(1)])
qed

lemma galign_off:
  assumes "get_area b" "gnext b = gbegin b + int off" "0 < k" "k \<le> 8"
    and "gnext b + int (item_pad True off (Word k v)) \<le> gend b"
  shows "sb_galign vt (int k) b = Some (get_here (item_pad True off (Word k v)) b)"
proof -
  have "gnext b - gbegin b = int off" using assms(2) by simp
  then have rem: "c_mod (gnext b - gbegin b) (int k) = int (off mod k)" by (simp only: c_mod_off [OF assms(3)])
  show ?thesis unfolding sb_galign_def rem Let_def using assms(5) pad_int [OF assms(4,3), of off]
    by (auto simp: skip_room [OF assms(1)])
qed

lemma swap_wire: "(if sw then swap_bytes (host_bytes le k v) else host_bytes le k v) = host_bytes (le \<noteq> sw) k v"
  by (simp add: swap_bytes_rev rev_host_bytes)

lemma out_item_fits:
  assumes area: "put_area (sm_buf s)" and off: "pnext (sm_buf s) = pbegin (sm_buf s) + int off" and ok: "item_ok it"
    and room: "pnext (sm_buf s) + int (length (wire_item (sm_align s) (le \<noteq> sm_swap s) off it)) \<le> pend (sm_buf s)"
  shows "out_item vt le it s =
    Some (s\<lparr>sm_state := goodbit, sm_buf := put_here (wire_item (sm_align s) (le \<noteq> sm_swap s) off it) (sm_buf s)\<rparr>)"
proof (cases it)
  case (Word k v)
  let ?b = "sm_buf s" let ?pad = "item_pad (sm_align s) off (Word k v)"
  have k: "0 < k" "k \<le> 8" using ok Word by simp_all
  have r: "pnext ?b + int ?pad + int k \<le> pend ?b" using room by (simp add: Word wire_item_def)
  have al: "(if sm_align s then sb_palign vt (int k) ?b else Some ?b) = Some (put_here (replicate ?pad 0) ?b)"
    using palign_off [OF area off k, of v vt] r by auto
  have area': "put_area (put_here (replicate ?pad 0) ?b)" using r by (intro put_area_put_here [OF area]) simp
  show ?thesis using al area' r
    by (simp add: Word out_insert_def swap_wire out_write_fits wire_item_def put_here_append del: item_pad.simps)
qed (use assms in \<open>simp_all add: wire_item_def out_put_fits out_write_fits\<close>)

lemma out_items_fits:
  assumes "put_area (sm_buf s)" "pnext (sm_buf s) = pbegin (sm_buf s) + int off" "list_all item_ok its"
    and "pnext (sm_buf s) + int (length (wire (sm_align s) (le \<noteq> sm_swap s) off its)) \<le> pend (sm_buf s)"
    and "sm_state s = goodbit"
  shows "out_items vt le its s = Some (s\<lparr>sm_buf := put_here (wire (sm_align s) (le \<noteq> sm_swap s) off its) (sm_buf s)\<rparr>)"
  using assms
proof (induction its arbitrary: s off)
  case (Cons it its)
  let ?w = "wire_item (sm_align s) (le \<noteq> sm_swap s) off it"
  let ?s = "s\<lparr>sm_state := goodbit, sm_buf := put_here ?w (sm_buf s)\<rparr>"
  have "out_item vt le it s = Some ?s" using Cons.prems by (intro out_item_fits) auto
  moreover have "out_items vt le its ?s =
      Some (?s\<lparr>sm_buf := put_here (wire (sm_align ?s) (le \<noteq> sm_swap ?s) (off + length ?w) its) (sm_buf ?s)\<rparr>)"
    using Cons.prems by (intro Cons.IH) (auto intro: put_area_put_here)
  ultimately show ?case using Cons.prems(5) by (simp add: put_here_append)
qed simp

lemma in_word_fits:
  assumes area: "get_area (sm_buf s)" and off: "gnext (sm_buf s) = gbegin (sm_buf s) + int off"
    and k: "0 < k" "k \<le> 8" and pad: "pad = item_pad (sm_align s) off (Word k u)"
    and room: "gnext (sm_buf s) + int (pad + k) \<le> gend (sm_buf s)"
    and bytes: "cells (sb_mem (sm_buf s)) (gnext (sm_buf s) + int pad) (int k) = host_bytes (le \<noteq> sm_swap s) k v"
  shows "in_extract vt le k u s = Some (v mod 256 ^ k, s\<lparr>sm_state := goodbit, sm_buf := get_here (pad + k) (sm_buf s)\<rparr>)"
proof -
  let ?b = "sm_buf s"
  have al: "(if sm_align s then sb_galign vt (int k) ?b else Some ?b) = Some (get_here pad ?b)"
    using galign_off [OF area off k, of u vt] room unfolding pad by auto
  have area': "get_area (get_here pad ?b)" using room by (intro get_area_get_here [OF area]) simp
  have "in_extract vt le k u s =
      do { b \<leftarrow> Some (get_here pad ?b); (xs, s') \<leftarrow> in_get_n vt k (s\<lparr>sm_buf := b\<rparr>);
           let raw = xs @ drop (length xs) (host_bytes le k u) in
           Some (host_val le (if sm_swap s' then swap_bytes raw else raw), s') }"
    by (simp only: in_extract_def al)
  then show ?thesis using area' room bytes
    by (cases "sm_swap s")
      (simp_all add: in_get_n_fits get_here_add native.of_to_b swap_bytes_rev rev_host_bytes Let_def)
qed

lemma in_item_fits:
  assumes area: "get_area (sm_buf s)" and off: "gnext (sm_buf s) = gbegin (sm_buf s) + int off"
    and ok: "item_ok it" and shape: "same_shape it it'"
    and w: "w = wire_item (sm_align s) (le \<noteq> sm_swap s) off it"
    and room: "gnext (sm_buf s) + int (length w) \<le> gend (sm_buf s)"
    and bytes: "cells (sb_mem (sm_buf s)) (gnext (sm_buf s)) (int (length w)) = w"
  shows "in_item vt le it' s =
    Some (item_val it, s\<lparr>sm_state := goodbit, sm_buf := get_here (length w) (sm_buf s)\<rparr>)"
proof (cases it)
  case (Word k v)
  then obtain u where it': "it' = Word k u" using shape by (cases it') auto
  let ?pad = "item_pad (sm_align s) off (Word k u)"
  have pads: "item_pad (sm_align s) off (Word k v) = ?pad" by simp
  have wl: "w = replicate ?pad 0 @ host_bytes (le \<noteq> sm_swap s) k v" unfolding w Word wire_item_def pads by simp
  have len: "length w = ?pad + k" by (simp add: wl del: item_pad.simps)
  have "cells (sb_mem (sm_buf s)) (gnext (sm_buf s)) (int (length w)) =
      cells (sb_mem (sm_buf s)) (gnext (sm_buf s)) (int ?pad) @
      cells (sb_mem (sm_buf s)) (gnext (sm_buf s) + int ?pad) (int (length w) - int ?pad)"
    by (rule cells_append) (simp_all add: len del: item_pad.simps)
  also have "int (length w) - int ?pad = int k" by (simp add: len del: item_pad.simps)
  finally have "replicate ?pad 0 @ host_bytes (le \<noteq> sm_swap s) k v =
      cells (sb_mem (sm_buf s)) (gnext (sm_buf s)) (int ?pad) @ cells (sb_mem (sm_buf s)) (gnext (sm_buf s) + int ?pad) (int k)"
    by (simp only: bytes wl [symmetric])
  then have hb: "cells (sb_mem (sm_buf s)) (gnext (sm_buf s) + int ?pad) (int k) = host_bytes (le \<noteq> sm_swap s) k v"
    by (simp add: append_eq_append_conv del: item_pad.simps)
  have "0 < k" "k \<le> 8" using ok Word by simp_all
  then have "in_extract vt le k u s = Some (v mod 256 ^ k, s\<lparr>sm_state := goodbit, sm_buf := get_here (?pad + k) (sm_buf s)\<rparr>)"
    using room hb unfolding len by (intro in_word_fits [OF area off _ _ refl]) simp_all
  then show ?thesis by (simp add: Word it' len del: item_pad.simps)
next
  case (Byte x)
  then obtain y where "it' = Byte y" using shape by (cases it') auto
  moreover have "w = [x]" by (simp add: w Byte wire_item_def)
  ultimately show ?thesis using area room bytes
    by (simp add: Byte in_get_byte_def sbumpc_room sm_result_def cells_Suc)
next
  case (Raw bs)
  then obtain cs where "it' = Raw cs" "length cs = length bs" using shape by (cases it') auto
  moreover have "w = bs" by (simp add: w Raw wire_item_def)
  ultimately show ?thesis using area room bytes by (simp add: Raw in_get_n_fits)
qed

lemma in_items_fits:
  assumes "get_area (sm_buf s)" "gnext (sm_buf s) = gbegin (sm_buf s) + int off"
    and "list_all item_ok its" "list_all2 same_shape its its'"
    and "gnext (sm_buf s) + int (length (wire (sm_align s) (le \<noteq> sm_swap s) off its)) \<le> gend (sm_buf s)"
    and "cells (sb_mem (sm_buf s)) (gnext (sm_buf s)) (int (length (wire (sm_align s) (le \<noteq> sm_swap s) off its))) =
        wire (sm_align s) (le \<noteq> sm_swap s) off its"
    and "sm_state s = goodbit"
  shows "in_items vt le its' s = Some (map item_val its,
      s\<lparr>sm_buf := get_here (length (wire (sm_align s) (le \<noteq> sm_swap s) off its)) (sm_buf s)\<rparr>)"
  using assms
proof (induction its arbitrary: its' s off)
  case Nil
  then show ?case by simp
next
  case (Cons it its)
  obtain it' rest where its': "its' = it' # rest" "same_shape it it'" "list_all2 same_shape its rest"
    using Cons.prems(4) by (auto simp: list_all2_Cons1)
  let ?b = "sm_buf s"
  define w where "w = wire_item (sm_align s) (le \<noteq> sm_swap s) off it"
  define ws where "ws = wire (sm_align s) (le \<noteq> sm_swap s) (off + length w) its"
  have whole: "wire (sm_align s) (le \<noteq> sm_swap s) off (it # its) = w @ ws" by (simp add: w_def ws_def)
  have "cells (sb_mem ?b) (gnext ?b) (int (length (w @ ws))) =
      cells (sb_mem ?b) (gnext ?b) (int (length w)) @
      cells (sb_mem ?b) (gnext ?b + int (length w)) (int (length (w @ ws)) - int (length w))"
    by (rule cells_append) auto
  also have "int (length (w @ ws)) - int (length w) = int (length ws)" by simp
  finally have "w @ ws = cells (sb_mem ?b) (gnext ?b) (int (length w)) @
      cells (sb_mem ?b) (gnext ?b + int (length w)) (int (length ws))"
    using Cons.prems(6) unfolding whole by simp
  then have parts: "cells (sb_mem ?b) (gnext ?b) (int (length w)) = w"
      "cells (sb_mem ?b) (gnext ?b + int (length w)) (int (length ws)) = ws"
    by (simp_all add: append_eq_append_conv)
  let ?s = "s\<lparr>sm_state := goodbit, sm_buf := get_here (length w) ?b\<rparr>"
  have room: "gnext ?b + int (length w) + int (length ws) \<le> gend ?b"
    using Cons.prems(5) unfolding whole by simp
  have "in_item vt le it' s = Some (item_val it, ?s)"
    using Cons.prems its'(2) parts(1) room by (intro in_item_fits) (auto simp: w_def)
  moreover have "in_items vt le rest ?s = Some (map item_val its,
      ?s\<lparr>sm_buf := get_here (length (wire (sm_align ?s) (le \<noteq> sm_swap ?s) (off + length w) its)) (sm_buf ?s)\<rparr>)"
    using Cons.prems its'(3) parts(2) room unfolding ws_def
    by (intro Cons.IH) (auto intro: get_area_get_here)
  ultimately show ?case using Cons.prems(7) unfolding whole its' by (simp add: get_here_add ws_def)
qed

lemma setbuf_areas:
  "0 < p \<Longrightarrow> 0 \<le> n \<Longrightarrow> n < 2147483648 \<Longrightarrow> live_range m p n \<Longrightarrow>
    put_area (mb_setbuf p n (sb_ctor m d)) \<and> get_area (mb_setbuf p n (sb_ctor m d))"
  by (simp add: put_area_def get_area_def mb_setbuf_def sb_setp_def sb_setg_def sb_ctor_def)

lemma setbuf_simps [simp]:
  "pbegin (mb_setbuf p n b) = p" "pnext (mb_setbuf p n b) = p" "pend (mb_setbuf p n b) = p + n"
  "gbegin (mb_setbuf p n b) = p" "gnext (mb_setbuf p n b) = p" "gend (mb_setbuf p n b) = p + n"
  "sb_mem (mb_setbuf p n b) = sb_mem b"
  by (simp_all add: mb_setbuf_def sb_setp_def sb_setg_def)

lemma byte_order_wire: "(le = (ord \<noteq> swapped_byte_order le)) = (ord = LittleEndian)"
proof -
  have "host_bytes True 4 1 = [1, 0, 0, 0]" "host_bytes False 4 1 = [0, 0, 0, 1]" by code_simp+
  then show ?thesis by (cases le; cases ord) (simp_all add: swapped_byte_order_def)
qed

section \<open>The invariant of a memory stream\<close>

text \<open>A stream over the \<open>n\<close> cells from \<open>p\<close>: both areas are those cells, both pointers stay in
  them, and memory outside is what it was (\<open>m\<close>).\<close>

definition mbuf :: "int \<Rightarrow> int \<Rightarrow> byte mem \<Rightarrow> 's sbuf \<Rightarrow> bool" where
  "mbuf p n m b \<longleftrightarrow> put_area b \<and> get_area b \<and> pbegin b = p \<and> pend b = p + n \<and> gbegin b = p \<and> gend b = p + n \<and>
     m_live (sb_mem b) = m_live m \<and> (\<forall>a. a < p \<or> p + n \<le> a \<longrightarrow> m_val (sb_mem b) a = m_val m a)"

definition mstrm :: "int \<Rightarrow> int \<Rightarrow> byte mem \<Rightarrow> 's strm \<Rightarrow> bool" where
  "mstrm p n m s \<longleftrightarrow> mbuf p n m (sm_buf s) \<and> sm_state s \<in> {goodbit, failbit, eofbit OR failbit}"

text \<open>The calls a client makes on a stream that reads and writes the same memory.\<close>

datatype mop =
    MPut byte | MWrite "byte list" | MInsert nat int | MGet | MRead nat | MExtract nat int
  | MUnget | MPutback byte | MSeekgOff int int | MSeekpOff int int | MSeekg int | MSeekp int
  | MTellg | MTellp | MFlush | MRewindGet | MRewindPut | MClear

fun mop_run :: "bool \<Rightarrow> mop \<Rightarrow> unit strm \<Rightarrow> unit strm option" where
  "mop_run le (MPut x) s = out_put mb_vt x s"
| "mop_run le (MWrite bs) s = strm_write mb_vt bs s"
| "mop_run le (MInsert k v) s = out_insert mb_vt le k v s"
| "mop_run le MGet s = map_option snd (in_get mb_vt s)"
| "mop_run le (MRead k) s = map_option snd (in_get_n mb_vt k s)"
| "mop_run le (MExtract k v) s = map_option snd (in_extract mb_vt le k v s)"
| "mop_run le MUnget s = in_unget s"
| "mop_run le (MPutback x) s = in_putback x s"
| "mop_run le (MSeekgOff off dir) s = Some (in_seekg_off mb_vt off dir s)"
| "mop_run le (MSeekpOff off dir) s = Some (out_seekp_off mb_vt off dir s)"
| "mop_run le (MSeekg pos) s = Some (in_seekg mb_vt pos s)"
| "mop_run le (MSeekp pos) s = Some (out_seekp mb_vt pos s)"
| "mop_run le MTellg s = Some (snd (in_tellg mb_vt s))"
| "mop_run le MTellp s = Some (snd (out_tellp mb_vt s))"
| "mop_run le MFlush s = out_flush mb_vt s"
| "mop_run le MRewindGet s = Some (im_reset s)"
| "mop_run le MRewindPut s = Some (om_reset s)"
| "mop_run le MClear s = Some (sm_clear goodbit s)"

fun mops_run :: "bool \<Rightarrow> mop list \<Rightarrow> unit strm \<Rightarrow> unit strm option" where
  "mops_run le [] s = Some s"
| "mops_run le (x # xs) s = do { s' \<leftarrow> mop_run le x s; mops_run le xs s' }"

text \<open>Words of 1 to 8 bytes, and absolute positions inside the array: \<open>seekpos\<close> does not check.\<close>

fun mop_ok :: "int \<Rightarrow> mop \<Rightarrow> bool" where
  "mop_ok n (MInsert k v) = (0 < k \<and> k \<le> 8)"
| "mop_ok n (MExtract k v) = (0 < k \<and> k \<le> 8)"
| "mop_ok n (MSeekg pos) = (pos \<le> n)"
| "mop_ok n (MSeekp pos) = (pos \<le> n)"
| "mop_ok n x = True"

lemma mb_vt_simps [simp]:
  "v_overflow mb_vt = sb_overflow" "v_underflow mb_vt = sb_underflow" "v_sync mb_vt = sb_sync"
  "v_seekoff mb_vt = mb_seekoff" "v_seekpos mb_vt = mb_seekpos"
  by (simp_all add: mb_vt_def sb_vt_def)

lemma mbuf_put_here:
  assumes "mbuf p n m b" "pnext b + int (length bs) \<le> pend b"
  shows "mbuf p n m (put_here bs b)"
proof -
  have b: "put_area b" "get_area b" using assms(1) by (simp_all add: mbuf_def)
  have "m_val (put_at (pnext b) bs (sb_mem b)) a = m_val (sb_mem b) a" if "a < p \<or> p + n \<le> a" for a
    using that assms b(1) by (intro put_at_outside) (auto simp: mbuf_def put_area_def)
  moreover have "get_area (put_here bs b)" using b(2) by (simp add: get_area_def)
  ultimately show ?thesis using assms put_area_put_here [OF b(1) assms(2)] by (simp add: mbuf_def)
qed

lemma mbuf_get_here:
  "mbuf p n m b \<Longrightarrow> gnext b + int k \<le> gend b \<Longrightarrow> mbuf p n m (get_here k b)"
  by (auto simp: mbuf_def get_area_def put_area_def)

text \<open>Placing a pointer anywhere in the array, in the two ways the code does.\<close>

lemma mbuf_gbump:
  "mbuf p n m b \<Longrightarrow> p \<le> gnext b + d \<Longrightarrow> gnext b + d \<le> p + n \<Longrightarrow> mbuf p n m (sb_gbump (s32 d) b)"
  by (subst s32_id) (auto simp: mbuf_def get_area_def put_area_def sb_gbump_def)

lemma mbuf_pbump:
  "mbuf p n m b \<Longrightarrow> p \<le> pnext b + d \<Longrightarrow> pnext b + d \<le> p + n \<Longrightarrow> mbuf p n m (sb_pbump (s32 d) b)"
  by (subst s32_id) (auto simp: mbuf_def get_area_def put_area_def sb_pbump_def)

lemma mode_bits [simp]:
  "mode_in \<noteq> 0" "mode_out \<noteq> 0" "mode_in AND mode_out = 0" "mode_out AND mode_in = 0"
  by (simp_all add: mode_in_def mode_out_def)

lemma mbuf_seekoff:
  assumes "mbuf p n m b" "mode = mode_in \<or> mode = mode_out"
  shows "mbuf p n m (snd (mb_seekoff off dir mode b))"
  using assms(2)
proof
  assume "mode = mode_in"
  then show ?thesis using assms(1) mbuf_gbump [OF assms(1)]
    by (auto simp: mb_seekoff_def Let_def mbuf_def [of p n m b])
next
  assume "mode = mode_out"
  then show ?thesis using assms(1) mbuf_pbump [OF assms(1)]
    by (auto simp: mb_seekoff_def Let_def mbuf_def [of p n m b])
qed

lemma mbuf_seekpos:
  assumes "mbuf p n m b" "mode = mode_in \<or> mode = mode_out" "pos \<le> n"
  shows "mbuf p n m (snd (mb_seekpos pos mode b))"
proof -
  have b: "gbegin b = p" "pbegin b = p" using assms(1) by (simp_all add: mbuf_def)
  have "0 \<le> pos \<Longrightarrow> mbuf p n m (sb_gbump (s32 (pos + (p - gnext b))) b)"
    using assms(3) by (intro mbuf_gbump [OF assms(1)]) auto
  moreover have "0 \<le> pos \<Longrightarrow> mbuf p n m (sb_pbump (s32 (pos + (p - pnext b))) b)"
    using assms(3) by (intro mbuf_pbump [OF assms(1)]) auto
  ultimately show ?thesis using assms(1,2) by (auto simp: mb_seekpos_def Let_def b)
qed

lemma mbuf_sputc:
  assumes "mbuf p n m b"
  shows "\<exists>c b'. sb_sputc sb_overflow x b = Some (c, b') \<and> mbuf p n m b'"
proof (cases "pnext b < pend b")
  case True
  then show ?thesis using assms sputc_room [of b sb_overflow x] mbuf_put_here [OF assms, of "[x]"]
    by (simp add: mbuf_def [of p n m b])
next
  case False
  then show ?thesis using assms by (simp add: sputc_full sb_overflow_def)
qed

lemma mbuf_zeros: "mbuf p n m b \<Longrightarrow> \<exists>b'. sb_zeros mb_vt k b = Some b' \<and> mbuf p n m b'"
proof (induction k arbitrary: b)
  case (Suc k)
  obtain c b1 where "sb_sputc sb_overflow 0 b = Some (c, b1)" "mbuf p n m b1"
    using mbuf_sputc [OF Suc.prems] by blast
  then show ?case using Suc.IH by simp
qed simp

lemma mbuf_sbumpc:
  assumes "mbuf p n m b"
  shows "\<exists>c b'. sb_sbumpc mb_vt b = Some (c, b') \<and> mbuf p n m b'"
proof (cases "gnext b < gend b")
  case True
  then show ?thesis using assms sbumpc_room [of b mb_vt] mbuf_get_here [OF assms, of 1]
    by (simp add: mbuf_def [of p n m b])
next
  case False
  then show ?thesis using assms by (simp add: sb_sbumpc_def sb_uflow_def sb_underflow_def)
qed

lemma mbuf_skip: "mbuf p n m b \<Longrightarrow> \<exists>b'. sb_skip mb_vt k b = Some b' \<and> mbuf p n m b'"
proof (induction k arbitrary: b)
  case (Suc k)
  obtain c b1 where "sb_sbumpc mb_vt b = Some (c, b1)" "mbuf p n m b1"
    using mbuf_sbumpc [OF Suc.prems] by blast
  then show ?case using Suc.IH by simp
qed simp

lemma mbuf_unget:
  assumes "mbuf p n m b"
  shows "\<exists>c b'. sb_sungetc b = Some (c, b') \<and> mbuf p n m b'"
    "\<exists>c b'. sb_sputbackc x b = Some (c, b') \<and> mbuf p n m b'"
proof -
  have b: "put_area b" "get_area b" "gbegin b = p" "gend b = p + n" using assms by (simp_all add: mbuf_def)
  have bk: "mbuf p n m (b\<lparr>gnext := gnext b - 1\<rparr>)" "m_live (sb_mem b) (gnext b - 1)" if "gbegin b < gnext b"
  proof -
    show "mbuf p n m (b\<lparr>gnext := gnext b - 1\<rparr>)"
      using assms that by (auto simp: mbuf_def get_area_def put_area_def)
    have "live_range (sb_mem b) (gnext b - 1) 1"
      using that b(2) by (intro get_area_live) (auto simp: get_area_def)
    then show "m_live (sb_mem b) (gnext b - 1)" by (auto intro: live_range_nth)
  qed
  show "\<exists>c b'. sb_sungetc b = Some (c, b') \<and> mbuf p n m b'"
    using bk assms by (auto simp: sb_sungetc_def sb_pbackfail_def rd_live)
  show "\<exists>c b'. sb_sputbackc x b = Some (c, b') \<and> mbuf p n m b'"
    using bk assms by (auto simp: sb_sputbackc_def sb_pbackfail_def rd_live)
qed

lemma mstrm_result:
  "mbuf p n m b \<Longrightarrow> bits = failbit \<or> bits = eofbit OR failbit \<Longrightarrow> mstrm p n m (sm_result f bits s b)"
  by (auto simp: mstrm_def sm_result_def goodbit_def)

lemma mstrm_write:
  assumes "mbuf p n m (sm_buf s)"
  shows "\<exists>s'. strm_write mb_vt bs s = Some s' \<and> mstrm p n m s'"
proof -
  have area: "put_area (sm_buf s)" using assms by (simp add: mbuf_def)
  show ?thesis
  proof (cases "pnext (sm_buf s) + int (length bs) \<le> pend (sm_buf s)")
    case True
    then show ?thesis using mbuf_put_here [OF assms True]
      by (simp add: out_write_fits [OF area] mstrm_def)
  next
    case False
    then have "mbuf p n m (put_here (take (nat (pend (sm_buf s) - pnext (sm_buf s))) bs) (sm_buf s))"
      using area by (intro mbuf_put_here [OF assms]) (auto simp: put_area_def)
    then show ?thesis using False by (simp add: out_write_short [OF area] mstrm_def)
  qed
qed

lemma mstrm_read:
  assumes "mbuf p n m (sm_buf s)"
  shows "\<exists>xs s'. in_get_n mb_vt k s = Some (xs, s') \<and> mstrm p n m s'"
proof -
  have area: "get_area (sm_buf s)" using assms by (simp add: mbuf_def)
  show ?thesis
  proof (cases "gnext (sm_buf s) + int k \<le> gend (sm_buf s)")
    case True
    then show ?thesis using mbuf_get_here [OF assms True]
      by (simp add: in_get_n_fits [OF area] mstrm_def)
  next
    case False
    then have "mbuf p n m (get_here (nat (gend (sm_buf s) - gnext (sm_buf s))) (sm_buf s))"
      using area by (intro mbuf_get_here [OF assms]) (auto simp: get_area_def)
    then show ?thesis using False by (simp add: in_get_n_short [OF area] mstrm_def eofbit_def failbit_def)
  qed
qed

lemma mop_run_keeps:
  assumes "mstrm p n m s" "mop_ok n x"
  shows "\<exists>s'. mop_run le x s = Some s' \<and> mstrm p n m s'"
proof -
  have b: "mbuf p n m (sm_buf s)" using assms(1) by (simp add: mstrm_def)
  note one [intro!] = mstrm_result
  have pa: "\<exists>b'. sb_palign mb_vt k (sm_buf s) = Some b' \<and> mbuf p n m b'" for k
    using b mbuf_zeros [OF b] by (simp add: sb_palign_def Let_def)
  have ga: "\<exists>b'. sb_galign mb_vt k (sm_buf s) = Some b' \<and> mbuf p n m b'" for k
    using b mbuf_skip [OF b] by (simp add: sb_galign_def Let_def)
  show ?thesis
  proof (cases x)
    case (MPut y)
    then show ?thesis using mbuf_sputc [OF b, of y] by (auto simp: out_put_def)
  next
    case (MWrite bs)
    then show ?thesis using mstrm_write [OF b] by simp
  next
    case (MInsert k v)
    obtain b' where "(if sm_align s then sb_palign mb_vt (int k) (sm_buf s) else Some (sm_buf s)) = Some b'" "mbuf p n m b'"
      using pa b by (cases "sm_align s") auto
    then show ?thesis using mstrm_write [of p n m "s\<lparr>sm_buf := b'\<rparr>"] by (simp add: MInsert out_insert_def)
  next
    case MGet
    then show ?thesis using mbuf_sbumpc [OF b] by (auto simp: in_get_def)
  next
    case (MRead k)
    then show ?thesis using mstrm_read [OF b, of k] by auto
  next
    case (MExtract k v)
    obtain b' where "(if sm_align s then sb_galign mb_vt (int k) (sm_buf s) else Some (sm_buf s)) = Some b'" "mbuf p n m b'"
      using ga b by (cases "sm_align s") auto
    then show ?thesis using mstrm_read [of p n m "s\<lparr>sm_buf := b'\<rparr>" k] by (auto simp: MExtract in_extract_def Let_def)
  next
    case MUnget
    then show ?thesis using mbuf_unget(1) [OF b] by (auto simp: in_unget_def)
  next
    case (MPutback y)
    then show ?thesis using mbuf_unget(2) [OF b, of y] by (auto simp: in_putback_def)
  next
    case (MSeekgOff off dir)
    then show ?thesis using mbuf_seekoff [OF b, of mode_in off dir]
      by (auto simp: in_seekg_off_def sb_pubseekoff_def split: prod.split)
  next
    case (MSeekpOff off dir)
    then show ?thesis using mbuf_seekoff [OF b, of mode_out off dir]
      by (auto simp: out_seekp_off_def sb_pubseekoff_def split: prod.split)
  next
    case (MSeekg pos)
    then show ?thesis using mbuf_seekpos [OF b, of mode_in pos] assms(2)
      by (auto simp: in_seekg_def sb_pubseekpos_def split: prod.split)
  next
    case (MSeekp pos)
    then show ?thesis using mbuf_seekpos [OF b, of mode_out pos] assms(2)
      by (auto simp: out_seekp_def sb_pubseekpos_def split: prod.split)
  next
    case MTellg
    then show ?thesis using mbuf_seekoff [OF b, of mode_in 0 dir_cur] assms(1)
      by (auto simp: in_tellg_def sb_pubseekoff_def mstrm_def split: prod.split)
  next
    case MTellp
    then show ?thesis using mbuf_seekoff [OF b, of mode_out 0 dir_cur] assms(1)
      by (auto simp: out_tellp_def sb_pubseekoff_def mstrm_def split: prod.split)
  next
    case MFlush
    then show ?thesis using b by (auto simp: out_flush_def sb_pubsync_def sb_sync_def)
  next
    case MRewindGet
    have "mbuf p n m (sb_gbump (s32 (gbegin (sm_buf s) - gnext (sm_buf s))) (sm_buf s))"
      using b by (intro mbuf_gbump [OF b]) (auto simp: mbuf_def put_area_def)
    then show ?thesis by (simp add: MRewindGet im_reset_def mb_reset_def mstrm_def Let_def)
  next
    case MRewindPut
    have "mbuf p n m (sb_pbump (s32 (pbegin (sm_buf s) - pnext (sm_buf s))) (sm_buf s))"
      using b by (intro mbuf_pbump [OF b]) (auto simp: mbuf_def put_area_def)
    then show ?thesis by (simp add: MRewindPut om_reset_def mb_reset_def mstrm_def Let_def)
  next
    case MClear
    then show ?thesis using b by (simp add: sm_clear_def mstrm_def)
  qed
qed

lemma mops_run_keeps:
  "mstrm p n m s \<Longrightarrow> list_all (mop_ok n) xs \<Longrightarrow> \<exists>s'. mops_run le xs s = Some s' \<and> mstrm p n m s'"
proof (induction xs arbitrary: s)
  case (Cons x xs)
  then obtain s1 where "mop_run le x s = Some s1" "mstrm p n m s1" using mop_run_keeps [of p n m s x le] by auto
  then show ?case using Cons.IH [of s1] Cons.prems(2) by simp
qed simp

lemma setup_simps [simp]:
  "sm_buf (sm_set_align al s) = sm_buf s" "sm_swap (sm_set_align al s) = sm_swap s"
  "sm_align (sm_set_align al s) = al" "sm_state (sm_set_align al s) = sm_state s"
  "sm_buf (sm_set_byte_order le ord s) = sm_buf s" "sm_swap (sm_set_byte_order le ord s) = (ord = swapped_byte_order le)"
  "sm_align (sm_set_byte_order le ord s) = sm_align s" "sm_state (sm_set_byte_order le ord s) = sm_state s"
  "sm_buf (om_ctor p n m) = mb_setbuf p n (sb_ctor m ())" "sm_buf (im_ctor p n m) = mb_setbuf p n (sb_ctor m ())"
  "sm_state (om_ctor p n m) = goodbit" "sm_state (im_ctor p n m) = goodbit"
  "sb_mem (sb_ctor m d) = m"
  by (simp_all add: sm_set_align_def sm_set_byte_order_def om_ctor_def im_ctor_def sm_ctor_def sb_ctor_def)

section \<open>Properties\<close>

text \<open>C28: What is written to a memory stream comes back: integers of any width, bytes and arrays written in
  a row and then read by a program, on a host of the same or the other byte order, that sets the same byte order
  and alignment, have the values they had (words modulo their width). Both streams stay good and \<open>tellp\<close> is the
  number of bytes of the layout.\<close>

theorem mem_stream_roundtrip:
  assumes "0 < p" "live_range m p n" "n < 2147483648" "list_all item_ok its" "list_all2 same_shape its vars"
    and "int (length (wire al (ord = LittleEndian) 0 its)) \<le> n"
  shows "\<exists>s s'. out_items mb_vt le its (sm_set_align al (sm_set_byte_order le ord (om_ctor p n m))) = Some s \<and>
    sm_good s \<and> fst (out_tellp mb_vt s) = int (length (wire al (ord = LittleEndian) 0 its)) \<and>
    in_items mb_vt le' vars (sm_set_align al (sm_set_byte_order le' ord (im_ctor p n (sb_mem (sm_buf s))))) =
      Some (map item_val its, s') \<and> sm_good s'"
proof -
  let ?w = "wire al (ord = LittleEndian) 0 its"
  let ?o = "sm_set_align al (sm_set_byte_order le ord (om_ctor p n m))"
  have n0: "0 \<le> n" using assms(6) by linarith
  have areas: "put_area (mb_setbuf p n (sb_ctor m ()))" "get_area (mb_setbuf p n (sb_ctor m ()))"
    using setbuf_areas [OF assms(1) n0 assms(3,2), of "()"] by auto
  define s where "s = ?o\<lparr>sm_buf := put_here ?w (sm_buf ?o)\<rparr>"
  have out: "out_items mb_vt le its ?o = Some s"
    using out_items_fits [of ?o 0 its le mb_vt] assms(4,6) areas by (simp add: byte_order_wire s_def)
  have good: "sm_good s" "\<not> sm_fail s" by (simp_all add: s_def sm_good_def sm_fail_def goodbit_def)
  have tell: "fst (out_tellp mb_vt s) = int (length ?w)"
    using good assms(6) n0 by (simp add: out_tellp_def sb_pubseekoff_def mb_seekoff_def s_def dir_cur_def dir_beg_def Let_def)
  let ?m = "sb_mem (sm_buf s)"
  let ?i = "sm_set_align al (sm_set_byte_order le' ord (im_ctor p n ?m))"
  have m: "?m = put_at p ?w m" by (simp add: s_def)
  have "live_range ?m p n" using assms(2) by (simp add: m)
  then have area: "get_area (mb_setbuf p n (sb_ctor ?m ()))" using setbuf_areas [OF assms(1) n0 assms(3), of ?m "()"] by auto
  have wire': "wire (sm_align ?i) (le' \<noteq> sm_swap ?i) 0 its = ?w" by (simp add: byte_order_wire)
  have "in_items mb_vt le' vars ?i = Some (map item_val its,
      ?i\<lparr>sm_buf := get_here (length (wire (sm_align ?i) (le' \<noteq> sm_swap ?i) 0 its)) (sm_buf ?i)\<rparr>)"
  proof (rule in_items_fits)
    show "cells (sb_mem (sm_buf ?i)) (gnext (sm_buf ?i)) (int (length (wire (sm_align ?i) (le' \<noteq> sm_swap ?i) 0 its))) =
        wire (sm_align ?i) (le' \<noteq> sm_swap ?i) 0 its"
      unfolding wire' using cells_put_at [of p ?w m] by (simp add: m)
    show "gnext (sm_buf ?i) + int (length (wire (sm_align ?i) (le' \<noteq> sm_swap ?i) 0 its)) \<le> gend (sm_buf ?i)"
      unfolding wire' using assms(6) by simp
  qed (use area assms(4,5) in simp_all)
  then show ?thesis using out good(1) tell by (auto simp: sm_good_def)
qed

theorem mem_stream_roundtrip_witness:
  "\<exists>s s'. out_items mb_vt True [Byte 7, Word 4 305419896, Raw [1, 2, 3], Word 2 (-2)]
      (sm_set_align True (sm_set_byte_order True BigEndian (om_ctor 5 20 (arena 0 30)))) = Some s \<and> sm_good s \<and>
    fst (out_tellp mb_vt s) = 14 \<and>
    in_items mb_vt False [Byte 0, Word 4 0, Raw [0, 0, 0], Word 2 0]
      (sm_set_align True (sm_set_byte_order False BigEndian (im_ctor 5 20 (sb_mem (sm_buf s))))) =
      Some ([Byte 7, Word 4 305419896, Raw [1, 2, 3], Word 2 65534], s') \<and> sm_good s'"
proof -
  let ?its = "[Byte 7, Word 4 305419896, Raw [1, 2, 3], Word 2 (-2)]"
  have "length (wire True (BigEndian = LittleEndian) 0 ?its) = 14" by (simp add: wire_item_def)
  then show ?thesis
    using mem_stream_roundtrip [of 5 "arena 0 30" 20 ?its "[Byte 0, Word 4 0, Raw [0, 0, 0], Word 2 0]" True BigEndian True False]
    by simp
qed

text \<open>C29: Whatever a program does with a memory stream that reads and writes the same array (\<open>put\<close>,
  \<open>write\<close>, insertion and extraction of words with or without alignment, \<open>get\<close>, \<open>unget\<close>, \<open>putback\<close>,
  relative seeks to anywhere, absolute seeks inside the array, rewinding), its behaviour is defined, both pointers
  stay in the array, no byte outside the array changes, and \<open>badbit\<close> is never set.\<close>

theorem mem_stream_stays_in_bounds:
  assumes "0 < p" "0 \<le> n" "n < 2147483648" "live_range m p n" "list_all (mop_ok n) ops"
  shows "\<exists>s. mops_run le ops (sm_set_align al (sm_set_byte_order le ord (sm_ctor (mb_ctor p n m)))) = Some s \<and>
    mstrm p n m s \<and> \<not> sm_bad s"
proof -
  have "mbuf p n m (mb_ctor p n m)"
    using setbuf_areas [OF assms(1-4), of "()"] by (simp add: mbuf_def mb_ctor_def)
  then have "mstrm p n m (sm_set_align al (sm_set_byte_order le ord (sm_ctor (mb_ctor p n m))))"
    by (simp add: mstrm_def sm_set_align_def sm_set_byte_order_def sm_ctor_def)
  from mops_run_keeps [OF this assms(5), of le] show ?thesis
    by (auto simp: mstrm_def sm_bad_def goodbit_def failbit_def eofbit_def badbit_def)
qed

theorem mem_stream_stays_in_bounds_witness:
  "\<exists>s. mops_run True [MWrite [1, 2, 3, 4, 5, 6], MSeekgOff (-9) 2, MUnget, MInsert 4 7, MSeekp 4, MExtract 8 0, MRead 9]
      (sm_set_align True (sm_set_byte_order True BigEndian (sm_ctor (mb_ctor 3 4 (arena 0 20))))) = Some s \<and>
    mstrm 3 4 (arena 0 20) s \<and> \<not> sm_bad s"
  using mem_stream_stays_in_bounds [of 3 4 "arena 0 20"
      "[MWrite [1, 2, 3, 4, 5, 6], MSeekgOff (-9) 2, MUnget, MInsert 4 7, MSeekp 4, MExtract 8 0, MRead 9]" True True BigEndian]
  by simp

text \<open>A write to a memory stream stores the longest prefix of the data that fits and sets the state to good or
  fail accordingly, and a read gives the longest prefix of what is left and sets the state to good or to end of
  file and fail; neither looks at the state it found, so that a failure is forgotten by the next call.\<close>

theorem mem_stream_partial_transfers:
  assumes "put_area (sm_buf s)" "get_area (sm_buf s)"
  shows "(\<exists>s1. strm_write mb_vt bs s = Some s1 \<and>
      sm_buf s1 = put_here (take (nat (pend (sm_buf s) - pnext (sm_buf s))) bs) (sm_buf s) \<and>
      (sm_state s1 = (if int (length bs) \<le> pend (sm_buf s) - pnext (sm_buf s) then goodbit else failbit))) \<and>
    (\<exists>s2. in_get_n mb_vt k s =
        Some (take k (cells (sb_mem (sm_buf s)) (gnext (sm_buf s)) (gend (sm_buf s) - gnext (sm_buf s))), s2) \<and>
      sm_buf s2 = get_here (min k (nat (gend (sm_buf s) - gnext (sm_buf s)))) (sm_buf s) \<and>
      sm_state s2 = (if int k \<le> gend (sm_buf s) - gnext (sm_buf s) then goodbit else (eofbit OR failbit)))"
proof
  let ?b = "sm_buf s"
  have le: "pnext ?b \<le> pend ?b" "gnext ?b \<le> gend ?b" using assms by (simp_all add: put_area_def get_area_def)
  show "\<exists>s1. strm_write mb_vt bs s = Some s1 \<and> sm_buf s1 = put_here (take (nat (pend ?b - pnext ?b)) bs) ?b \<and>
      (sm_state s1 = (if int (length bs) \<le> pend ?b - pnext ?b then goodbit else failbit))"
  proof (cases "pnext ?b + int (length bs) \<le> pend ?b")
    case True
    then show ?thesis by (simp add: out_write_fits [OF assms(1)])
  next
    case False
    then show ?thesis by (simp add: out_write_short [OF assms(1)])
  qed
  show "\<exists>s2. in_get_n mb_vt k s = Some (take k (cells (sb_mem ?b) (gnext ?b) (gend ?b - gnext ?b)), s2) \<and>
      sm_buf s2 = get_here (min k (nat (gend ?b - gnext ?b))) ?b \<and>
      sm_state s2 = (if int k \<le> gend ?b - gnext ?b then goodbit else (eofbit OR failbit))"
  proof (cases "gnext ?b + int k \<le> gend ?b")
    case True
    then show ?thesis using le by (simp add: in_get_n_fits [OF assms(2)] cells_take min_def)
  next
    case False
    then have "nat (gend ?b - gnext ?b) \<le> k" by linarith
    then show ?thesis using False le
      by (simp add: in_get_n_short [OF assms(2)] eofbit_def failbit_def min_def)
  qed
qed

theorem mem_stream_partial_transfers_witness:
  "(\<exists>s1. strm_write mb_vt [1, 2, 3, 4, 5] (sm_ctor (mb_ctor 3 4 (arena 9 20))) = Some s1 \<and>
      sm_buf s1 = put_here [1, 2, 3, 4] (mb_ctor 3 4 (arena 9 20)) \<and> sm_state s1 = failbit) \<and>
    (\<exists>s2. in_get_n mb_vt 2 (sm_ctor (mb_ctor 3 4 (arena 9 20))) = Some ([9, 9], s2) \<and>
      sm_buf s2 = get_here 2 (mb_ctor 3 4 (arena 9 20)) \<and> sm_state s2 = goodbit)"
  using mem_stream_partial_transfers [of "sm_ctor (mb_ctor 3 4 (arena 9 20))" "[1, 2, 3, 4, 5]" 2]
    setbuf_areas [of 3 4 "arena 9 20" "()"]
  by (simp add: sm_ctor_def mb_ctor_def cells_Suc)

section \<open>Defects\<close>

text \<open>\<open>byte_order()\<close> gives the opposite of the byte order that was set.\<close>

theorem byte_order_getter_inverted: "sm_byte_order le (sm_set_byte_order le ord s) \<noteq> ord"
  by (cases ord) (auto simp: sm_byte_order_def sm_set_byte_order_def host_byte_order_def swapped_byte_order_def)

text \<open>An absolute seek beyond the end succeeds, and one near the largest accepted position moves the put pointer
  before the array, so that the next byte overwrites foreign memory.\<close>

theorem seekp_escapes_the_array:
  "\<exists>s. out_put mb_vt 66 (out_seekp mb_vt 4294967295 (om_ctor 5 4 (arena 0 30))) = Some s \<and> sm_good s \<and>
    m_val (sb_mem (sm_buf s)) 4 = 66"
  by (simp add: out_put_def out_seekp_def sb_pubseekpos_def mb_seekpos_def om_ctor_def mb_setbuf_def sb_setg_def
      sb_setp_def sb_ctor_def sm_ctor_def sm_result_def sb_pbump_def sb_sputc_def s32_def wr_def arena_def sm_good_def)

end
