(* ===== verification/DevStreams.thy ===== *)
theory DevStreams imports BinStreams begin

text \<open>
  \<open>CtrlrFx/DevBinStream.h\<close> and \<open>src/io/BinStream/DevBinStream.cpp\<close>: binary streams over a
  file descriptor, with a buffer of their own. The system calls are arguments, as in
  \<open>Device\<close>. The buffer \<open>m_buf\<close> is an array of the memory the stream buffer points into,
  whose address is part of the state. The reading buffer has four bytes before the data for
  putting back.
\<close>

section \<open>Input\<close>

record 's idev =
  id_rd :: int
  id_buf :: int
  id_sys :: 's

definition ID_BUF_SIZE :: int where "ID_BUF_SIZE = 128"
definition ID_BACK_BUF_SIZE :: int where "ID_BACK_BUF_SIZE = 4"

definition id_ctor :: "int \<Rightarrow> byte mem \<Rightarrow> 's \<Rightarrow> 's idev sbuf" where
  "id_ctor p m s = sb_setg 0 0 0 (sb_ctor m \<lparr>id_rd = -1, id_buf = p, id_sys = s\<rparr>)"

definition id_is_open :: "'s idev sbuf \<Rightarrow> bool" where "id_is_open b \<longleftrightarrow> 0 \<le> id_rd (sb_dev b)"

text \<open>The test is on \<open>m_rd\<close> itself, so that \<open>-1\<close> is closed and descriptor 0 is not.\<close>

definition id_close :: "(int \<Rightarrow> 's \<Rightarrow> 's) \<Rightarrow> 's idev sbuf \<Rightarrow> 's idev sbuf" where
  "id_close clf b =
     (let d = sb_dev b
      in if id_rd d \<noteq> 0 then b\<lparr>sb_dev := d\<lparr>id_sys := clf (id_rd d) (id_sys d), id_rd := 0\<rparr>\<rparr> else b)"

definition id_dtor :: "(int \<Rightarrow> 's \<Rightarrow> 's) \<Rightarrow> 's idev sbuf \<Rightarrow> 's idev sbuf" where "id_dtor clf b = id_close clf b"

definition id_open :: "(string \<Rightarrow> int \<Rightarrow> 's \<Rightarrow> int \<times> 's) \<Rightarrow> (int \<Rightarrow> 's \<Rightarrow> 's) \<Rightarrow> string \<Rightarrow> 's idev sbuf \<Rightarrow> bool \<times> 's idev sbuf" where
  "id_open opf clf name b =
     (let b = id_close clf b; (fd, s) = opf name 0 (id_sys (sb_dev b));
          b = b\<lparr>sb_dev := (sb_dev b)\<lparr>id_rd := fd, id_sys := s\<rparr>\<rparr>
      in (id_is_open b, b))"

definition id_fill_buf :: "'s sys_read \<Rightarrow> 's idev sbuf \<Rightarrow> (int \<times> 's idev sbuf) option" where
  "id_fill_buf rdf b =
     (let d = sb_dev b; nb = u32 (min (gnext b - gbegin b) ID_BACK_BUF_SIZE);
          (r, bs, s) = rdf (id_rd d) ID_BUF_SIZE (id_sys d); n = s32 r
      in do { m1 \<leftarrow> (if 0 < nb then mem_cpy (id_buf d + ID_BACK_BUF_SIZE - nb) (gnext b - nb) nb (sb_mem b)
                     else Some (sb_mem b));
              m2 \<leftarrow> wr_list m1 (id_buf d + ID_BACK_BUF_SIZE) bs;
              let b = b\<lparr>sb_mem := m2, sb_dev := d\<lparr>id_sys := s\<rparr>\<rparr> in
              if n < 0 then Some (-1, sb_setg 0 0 0 b)
              else let p = id_buf d + ID_BACK_BUF_SIZE in Some (n, sb_setg (p - nb) p (p + n) b) })"

definition id_underflow :: "'s sys_read \<Rightarrow> 's idev sbuf \<Rightarrow> (int \<times> 's idev sbuf) option" where
  "id_underflow rdf b =
     do { (r, b) \<leftarrow> (if gnext b = gend b then id_fill_buf rdf b else Some (0, b));
          if r < 0 then Some (-1, b)
          else do { x \<leftarrow> rd (sb_mem b) (gnext b); Some (uint x, b) } }"

definition id_vt :: "'s sys_read \<Rightarrow> 's idev sbuf_vt" where
  "id_vt rdf = sb_vt\<lparr>v_underflow := id_underflow rdf\<rparr>"

definition id_mode :: "string \<Rightarrow> 's idev sbuf \<Rightarrow> bool" where "id_mode cfg b = False"
definition id_timeout :: "int \<Rightarrow> 's idev sbuf \<Rightarrow> bool" where "id_timeout ms b = False"

text \<open>The stream classes; the buffer is made with \<open>new\<close>, its array at \<open>p\<close>.\<close>

definition ids_ctor :: "int \<Rightarrow> byte mem \<Rightarrow> 's \<Rightarrow> 's idev strm" where
  "ids_ctor p m s = sm_ctor (id_ctor p m s)"
definition ids_open :: "(string \<Rightarrow> int \<Rightarrow> 's \<Rightarrow> int \<times> 's) \<Rightarrow> (int \<Rightarrow> 's \<Rightarrow> 's) \<Rightarrow> string \<Rightarrow> 's idev strm \<Rightarrow> 's idev strm" where
  "ids_open opf clf name s = (let (ok, b) = id_open opf clf name (sm_buf s) in sm_result (\<not> ok) failbit s b)"
definition ids_ctor_name ::
  "(string \<Rightarrow> int \<Rightarrow> 's \<Rightarrow> int \<times> 's) \<Rightarrow> (int \<Rightarrow> 's \<Rightarrow> 's) \<Rightarrow> int \<Rightarrow> byte mem \<Rightarrow> string \<Rightarrow> 's \<Rightarrow> 's idev strm" where
  "ids_ctor_name opf clf p m name s =
     (let st = sm_ctor (id_ctor p m s); (ok, b) = id_open opf clf name (sm_buf st)
      in sm_result (\<not> ok) failbit st b)"
definition ids_is_open :: "'s idev strm \<Rightarrow> bool" where "ids_is_open s = id_is_open (sm_buf s)"
definition ids_close :: "(int \<Rightarrow> 's \<Rightarrow> 's) \<Rightarrow> 's idev strm \<Rightarrow> 's idev strm" where
  "ids_close clf s = s\<lparr>sm_buf := id_close clf (sm_buf s)\<rparr>"
definition ids_mode :: "string \<Rightarrow> 's idev strm \<Rightarrow> 's idev strm" where
  "ids_mode cfg s = sm_result (\<not> id_mode cfg (sm_buf s)) failbit s (sm_buf s)"
definition ids_timeout :: "int \<Rightarrow> 's idev strm \<Rightarrow> 's idev strm" where
  "ids_timeout ms s = sm_result (\<not> id_timeout ms (sm_buf s)) failbit s (sm_buf s)"

section \<open>Output\<close>

record 's odev =
  od_wr :: int
  od_buf :: int
  od_sys :: 's

definition OD_BUF_SIZE :: int where "OD_BUF_SIZE = 512"

definition od_ctor :: "int \<Rightarrow> byte mem \<Rightarrow> 's \<Rightarrow> 's odev sbuf" where
  "od_ctor p m s = sb_setp p (p + OD_BUF_SIZE) (sb_ctor m \<lparr>od_wr = -1, od_buf = p, od_sys = s\<rparr>)"

definition od_is_open :: "'s odev sbuf \<Rightarrow> bool" where "od_is_open b \<longleftrightarrow> 0 \<le> od_wr (sb_dev b)"

definition od_sync :: "'s sys_write \<Rightarrow> 's odev sbuf \<Rightarrow> (int \<times> 's odev sbuf) option" where
  "od_sync wrf b =
     (let d = sb_dev b; nbuf = s32 (pnext b - pbegin b)
      in do { bs \<leftarrow> rd_list (sb_mem b) (pbegin b) (nat nbuf);
              let (r, s) = wrf (od_wr d) bs (od_sys d); n = s32 r; b = b\<lparr>sb_dev := d\<lparr>od_sys := s\<rparr>\<rparr> in
              if 0 \<le> n then Some (0, sb_pbump (- n) b) else Some (-1, b) })"

text \<open>\<open>overflow\<close> ends with \<open>sputc\<close>, which calls \<open>overflow\<close> again when the buffer is still full.\<close>

lemma sputc_mono [partial_function_mono]:
  "(\<And>c b. mono_option (\<lambda>f. ovf f c b)) \<Longrightarrow> mono_option (\<lambda>f. sb_sputc (ovf f) x b)"
  by (cases "pnext b \<noteq> 0 \<and> pnext b < pend b") (auto simp: sb_sputc_def intro: option.const_mono)

partial_function (option) od_overflow :: "'s sys_write \<Rightarrow> int \<Rightarrow> 's odev sbuf \<Rightarrow> (int \<times> 's odev sbuf) option" where
  "od_overflow wrf c b =
     do { (r, b) \<leftarrow> od_sync wrf b;
          if r < 0 then Some (-1, b) else if c < 0 then Some (0, b)
          else sb_sputc (\<lambda>c b. od_overflow wrf c b) (word_of_int c) b }"

definition od_vt :: "'s sys_write \<Rightarrow> 's odev sbuf_vt" where
  "od_vt wrf = sb_vt\<lparr>v_overflow := od_overflow wrf, v_sync := od_sync wrf\<rparr>"

definition od_close :: "'s sys_write \<Rightarrow> (int \<Rightarrow> 's \<Rightarrow> 's) \<Rightarrow> 's odev sbuf \<Rightarrow> 's odev sbuf option" where
  "od_close wrf clf b =
     (if 0 \<le> od_wr (sb_dev b) then
        do { (r, b) \<leftarrow> od_sync wrf b;
             let d = sb_dev b in Some (b\<lparr>sb_dev := d\<lparr>od_sys := clf (od_wr d) (od_sys d), od_wr := -1\<rparr>\<rparr>) }
      else Some b)"

definition od_dtor :: "'s sys_write \<Rightarrow> (int \<Rightarrow> 's \<Rightarrow> 's) \<Rightarrow> 's odev sbuf \<Rightarrow> 's odev sbuf option" where
  "od_dtor wrf clf b = od_close wrf clf b"

text \<open>\<open>O_WRONLY\<close> is 1.\<close>

definition od_open ::
  "'s sys_write \<Rightarrow> (string \<Rightarrow> int \<Rightarrow> 's \<Rightarrow> int \<times> 's) \<Rightarrow> (int \<Rightarrow> 's \<Rightarrow> 's) \<Rightarrow> string \<Rightarrow> 's odev sbuf \<Rightarrow> (bool \<times> 's odev sbuf) option" where
  "od_open wrf opf clf name b =
     do { b \<leftarrow> od_close wrf clf b;
          let (fd, s) = opf name 1 (od_sys (sb_dev b)) in
          Some (\<not> fd < 0, b\<lparr>sb_dev := (sb_dev b)\<lparr>od_wr := fd, od_sys := s\<rparr>\<rparr>) }"

definition od_mode :: "string \<Rightarrow> 's odev sbuf \<Rightarrow> bool" where "od_mode cfg b = False"
definition od_timeout :: "int \<Rightarrow> 's odev sbuf \<Rightarrow> bool" where "od_timeout ms b = False"

definition ods_ctor :: "int \<Rightarrow> byte mem \<Rightarrow> 's \<Rightarrow> 's odev strm" where
  "ods_ctor p m s = sm_ctor (od_ctor p m s)"
definition ods_open ::
  "'s sys_write \<Rightarrow> (string \<Rightarrow> int \<Rightarrow> 's \<Rightarrow> int \<times> 's) \<Rightarrow> (int \<Rightarrow> 's \<Rightarrow> 's) \<Rightarrow> string \<Rightarrow> 's odev strm \<Rightarrow> 's odev strm option" where
  "ods_open wrf opf clf name s =
     do { (ok, b) \<leftarrow> od_open wrf opf clf name (sm_buf s); Some (sm_result (\<not> ok) failbit s b) }"
definition ods_ctor_name ::
  "'s sys_write \<Rightarrow> (string \<Rightarrow> int \<Rightarrow> 's \<Rightarrow> int \<times> 's) \<Rightarrow> (int \<Rightarrow> 's \<Rightarrow> 's) \<Rightarrow> int \<Rightarrow> byte mem \<Rightarrow> string \<Rightarrow> 's \<Rightarrow> 's odev strm option" where
  "ods_ctor_name wrf opf clf p m name s =
     (let st = sm_ctor (od_ctor p m s)
      in do { (ok, b) \<leftarrow> od_open wrf opf clf name (sm_buf st); Some (sm_result (\<not> ok) failbit st b) })"
definition ods_is_open :: "'s odev strm \<Rightarrow> bool" where "ods_is_open s = od_is_open (sm_buf s)"
definition ods_close :: "'s sys_write \<Rightarrow> (int \<Rightarrow> 's \<Rightarrow> 's) \<Rightarrow> 's odev strm \<Rightarrow> 's odev strm option" where
  "ods_close wrf clf s = do { b \<leftarrow> od_close wrf clf (sm_buf s); Some (s\<lparr>sm_buf := b\<rparr>) }"
definition ods_mode :: "string \<Rightarrow> 's odev strm \<Rightarrow> 's odev strm" where
  "ods_mode cfg s = sm_result (\<not> od_mode cfg (sm_buf s)) failbit s (sm_buf s)"
definition ods_timeout :: "int \<Rightarrow> 's odev strm \<Rightarrow> 's odev strm" where
  "ods_timeout ms s = sm_result (\<not> od_timeout ms (sm_buf s)) failbit s (sm_buf s)"

section \<open>Writing\<close>

text \<open>A device that takes every write whole.\<close>

definition whole_sink :: "'s sys_write \<Rightarrow> int \<Rightarrow> ('s \<Rightarrow> byte list) \<Rightarrow> bool" where
  "whole_sink wrf fd sent \<longleftrightarrow>
     (\<forall>bs s. \<exists>s'. wrf fd bs s = (int (length bs), s') \<and> sent s' = sent s @ bs)"

lemma whole_sinkD:
  "whole_sink wrf fd sent \<Longrightarrow> \<exists>s'. wrf fd bs s = (int (length bs), s') \<and> sent s' = sent s @ bs"
  by (simp add: whole_sink_def)

text \<open>The buffer is in place and open; what was put so far is what was sent and what is buffered.\<close>

definition od_inv :: "int \<Rightarrow> 's odev sbuf \<Rightarrow> bool" where
  "od_inv fd b \<longleftrightarrow> put_area b \<and> pbegin b = od_buf (sb_dev b) \<and> pend b = pbegin b + OD_BUF_SIZE \<and> od_wr (sb_dev b) = fd"

definition od_out :: "('s \<Rightarrow> byte list) \<Rightarrow> 's odev sbuf \<Rightarrow> byte list" where
  "od_out sent b = sent (od_sys (sb_dev b)) @ cells (sb_mem b) (pbegin b) (pnext b - pbegin b)"

lemma od_vt_simps [simp]:
  "v_overflow (od_vt wrf) = od_overflow wrf" "v_sync (od_vt wrf) = od_sync wrf"
  by (simp_all add: od_vt_def)

lemma cells_put_here:
  assumes "put_area b"
  shows "cells (sb_mem (put_here bs b)) (pbegin b) (pnext b + int (length bs) - pbegin b) =
    cells (sb_mem b) (pbegin b) (pnext b - pbegin b) @ bs"
proof -
  have le: "pbegin b \<le> pnext b" using assms by (simp add: put_area_def)
  have "cells (sb_mem (put_here bs b)) (pbegin b) (pnext b + int (length bs) - pbegin b) =
      cells (sb_mem (put_here bs b)) (pbegin b) (pnext b - pbegin b) @
      cells (sb_mem (put_here bs b)) (pbegin b + (pnext b - pbegin b))
        (pnext b + int (length bs) - pbegin b - (pnext b - pbegin b))"
    by (rule cells_append) (use le in simp_all)
  also have "cells (sb_mem (put_here bs b)) (pbegin b) (pnext b - pbegin b) = cells (sb_mem b) (pbegin b) (pnext b - pbegin b)"
    by (rule cells_cong) (simp add: put_at_outside)
  finally show ?thesis using cells_put_at [of "pnext b" bs "sb_mem b"] by simp
qed

lemma od_put_here:
  "od_inv fd b \<Longrightarrow> pnext b + int (length bs) \<le> pend b \<Longrightarrow>
    od_inv fd (put_here bs b) \<and> od_out sent (put_here bs b) = od_out sent b @ bs"
  using put_area_put_here [of b bs] cells_put_here [of b bs] by (simp add: od_inv_def od_out_def)

lemma od_sync_whole:
  assumes "whole_sink wrf fd sent" "od_inv fd b"
  shows "\<exists>b'. od_sync wrf b = Some (0, b') \<and> od_inv fd b' \<and> od_out sent b' = od_out sent b \<and> pnext b' = pbegin b'"
proof -
  have area: "put_area b" and sz: "pend b = pbegin b + 512" "od_wr (sb_dev b) = fd"
    using assms(2) by (simp_all add: od_inv_def OD_BUF_SIZE_def)
  define k where "k = nat (pnext b - pbegin b)"
  have k: "int k = pnext b - pbegin b" "k \<le> 512" using area sz by (auto simp: k_def put_area_def)
  let ?bs = "cells (sb_mem b) (pbegin b) (int k)"
  have "live_range (sb_mem b) (pbegin b) (int k)" using area k sz by (intro put_area_live) auto
  then have rd: "rd_list (sb_mem b) (pbegin b) k = Some ?bs" by (rule rd_list_cells)
  obtain s' where s': "wrf fd ?bs (od_sys (sb_dev b)) = (int k, s')" "sent s' = sent (od_sys (sb_dev b)) @ ?bs"
    using whole_sinkD [OF assms(1), of ?bs "od_sys (sb_dev b)"] by auto
  have i: "s32 (pnext b - pbegin b) = int k" using k by (subst s32_id) simp_all
  let ?b = "b\<lparr>sb_dev := (sb_dev b)\<lparr>od_sys := s'\<rparr>, pnext := pbegin b\<rparr>"
  have nx: "pnext b - int k = pbegin b" using k by simp
  have "od_sync wrf b = Some (0, ?b)"
    using rd s'(1) sz(2) k(2) nx by (simp add: od_sync_def i Let_def sb_pbump_def)
  moreover have "od_inv fd ?b" using assms(2) by (auto simp: od_inv_def put_area_def)
  moreover have "od_out sent ?b = od_out sent b" using s'(2) k(1) by (simp add: od_out_def)
  ultimately show ?thesis by fastforce
qed

lemma od_overflow_whole:
  assumes "whole_sink wrf fd sent" "od_inv fd b"
  shows "\<exists>b'. od_overflow wrf (uint x) b = Some (uint x, b') \<and> od_inv fd b' \<and> od_out sent b' = od_out sent b @ [x]"
proof -
  obtain b1 where b1: "od_sync wrf b = Some (0, b1)" "od_inv fd b1" "od_out sent b1 = od_out sent b" "pnext b1 = pbegin b1"
    using od_sync_whole [OF assms] by blast
  then have room: "put_area b1" "pnext b1 < pend b1" by (simp_all add: od_inv_def OD_BUF_SIZE_def)
  have "od_overflow wrf (uint x) b = Some (uint x, put_here [x] b1)"
    by (subst od_overflow.simps) (simp add: b1(1) sputc_room [OF room])
  moreover have "od_inv fd (put_here [x] b1) \<and> od_out sent (put_here [x] b1) = od_out sent b1 @ [x]"
    using room(2) by (intro od_put_here [OF b1(2)]) simp
  ultimately show ?thesis using b1(3) by simp
qed

lemma od_xsputn_whole:
  assumes sink: "whole_sink wrf fd sent"
  shows "od_inv fd b \<Longrightarrow>
    \<exists>b'. sb_xsputn_loop (od_vt wrf) bs b = Some (0, b') \<and> od_inv fd b' \<and> od_out sent b' = od_out sent b @ bs"
proof (induction "length bs" arbitrary: bs b rule: less_induct)
  case less
  have area: "put_area b" using less.prems by (simp add: od_inv_def)
  show ?case
  proof (cases "int (length bs) \<le> pend b - pnext b")
    case True
    then have "sb_xsputn_loop (od_vt wrf) bs b = Some (0, put_here bs b)" by (intro xsputn_fits [OF area]) simp
    then show ?thesis using od_put_here [OF less.prems, of bs sent] True by simp
  next
    case False
    define k where "k = nat (pend b - pnext b)"
    have k: "int k = pend b - pnext b" "k < length bs" using False area by (auto simp: k_def put_area_def)
    obtain x rest where xr: "drop k bs = x # rest" using k(2) by (cases "drop k bs") auto
    have lk: "length (take k bs) = k" using k(2) by simp
    have b1: "od_inv fd (put_here (take k bs) b)" "od_out sent (put_here (take k bs) b) = od_out sent b @ take k bs"
      using od_put_here [OF less.prems, of "take k bs" sent] k(1) lk by simp_all
    obtain b2 where b2: "od_overflow wrf (uint x) (put_here (take k bs) b) = Some (uint x, b2)" "od_inv fd b2"
        "od_out sent b2 = od_out sent b @ take k bs @ [x]"
      using od_overflow_whole [OF sink b1(1), of x] b1(2) by auto
    have "length rest < length bs" using arg_cong [OF xr, of length] k(2) by simp
    from less.hyps [OF this b2(2)] obtain b3 where b3: "sb_xsputn_loop (od_vt wrf) rest b2 = Some (0, b3)" "od_inv fd b3"
        "od_out sent b3 = od_out sent b2 @ rest" by blast
    have "sb_xsputn_loop (od_vt wrf) bs b = Some (0, b3)"
      using False b2(1) b3(1) xr by (subst xsputn_step [OF area]) (simp add: Let_def k_def [symmetric])
    moreover have "take k bs @ x # rest = bs" using append_take_drop_id [of k bs] xr by simp
    ultimately show ?thesis using b2(3) b3(2,3) by (metis append.assoc append_Cons append_Nil)
  qed
qed

lemma od_write_whole:
  assumes "whole_sink wrf fd sent" "od_inv fd (sm_buf s)"
  shows "\<exists>s'. strm_write (od_vt wrf) bs s = Some s' \<and> od_inv fd (sm_buf s') \<and> sm_good s' \<and>
    od_out sent (sm_buf s') = od_out sent (sm_buf s) @ bs"
  using od_xsputn_whole [OF assms, of bs] by (auto simp: strm_write_def sb_sputn_def sm_result_def sm_good_def)

text \<open>Several writes in a row.\<close>

fun write_all :: "'s sbuf_vt \<Rightarrow> byte list list \<Rightarrow> 's strm \<Rightarrow> 's strm option" where
  "write_all vt [] s = Some s"
| "write_all vt (bs # bss) s = do { s' \<leftarrow> strm_write vt bs s; write_all vt bss s' }"

lemma od_write_all:
  assumes "whole_sink wrf fd sent"
  shows "od_inv fd (sm_buf s) \<Longrightarrow> \<exists>s'. write_all (od_vt wrf) bss s = Some s' \<and> od_inv fd (sm_buf s') \<and>
    (bss \<noteq> [] \<longrightarrow> sm_good s') \<and> od_out sent (sm_buf s') = od_out sent (sm_buf s) @ concat bss"
proof (induction bss arbitrary: s)
  case (Cons bs bss)
  obtain s1 where s1: "strm_write (od_vt wrf) bs s = Some s1" "od_inv fd (sm_buf s1)" "sm_good s1"
      "od_out sent (sm_buf s1) = od_out sent (sm_buf s) @ bs"
    using od_write_whole [OF assms Cons.prems] by blast
  obtain s2 where "write_all (od_vt wrf) bss s1 = Some s2" "od_inv fd (sm_buf s2)" "bss \<noteq> [] \<longrightarrow> sm_good s2"
      "od_out sent (sm_buf s2) = od_out sent (sm_buf s1) @ concat bss"
    using Cons.IH [OF s1(2)] by blast
  then show ?case using s1 by (cases bss) auto
qed simp

section \<open>Reading\<close>

text \<open>A regular file: a read gives as many bytes as were asked for, or all that are left.\<close>

definition file_source :: "'s sys_read \<Rightarrow> int \<Rightarrow> ('s \<Rightarrow> byte list) \<Rightarrow> bool" where
  "file_source rdf fd content \<longleftrightarrow>
     (\<forall>n s. 0 < n \<longrightarrow> (\<exists>s'. rdf fd n s = (int (min (nat n) (length (content s))), take (nat n) (content s), s') \<and>
        content s' = drop (nat n) (content s)))"

lemma file_sourceD:
  "file_source rdf fd content \<Longrightarrow> 0 < n \<Longrightarrow>
    \<exists>s'. rdf fd n s = (int (min (nat n) (length (content s))), take (nat n) (content s), s') \<and>
      content s' = drop (nat n) (content s)"
  by (simp add: file_source_def)

text \<open>Nothing was read yet, or the get area lies in the buffer, and was filled to the end unless
  the file is at its end. \<open>id_rest\<close> is what is left: the buffered bytes, then the file's.\<close>

definition id_inv :: "int \<Rightarrow> ('s \<Rightarrow> byte list) \<Rightarrow> 's idev sbuf \<Rightarrow> bool" where
  "id_inv fd content b \<longleftrightarrow> (let p = id_buf (sb_dev b) in
     0 < p \<and> live_range (sb_mem b) p 132 \<and> id_rd (sb_dev b) = fd \<and>
     ((gbegin b = 0 \<and> gnext b = 0 \<and> gend b = 0) \<or>
      (get_area b \<and> p \<le> gbegin b \<and> gbegin b \<le> p + 4 \<and> p + 4 \<le> gend b \<and> gend b \<le> p + 132 \<and>
       (content (id_sys (sb_dev b)) \<noteq> [] \<longrightarrow> gend b = p + 132))))"

definition id_rest :: "('s \<Rightarrow> byte list) \<Rightarrow> 's idev sbuf \<Rightarrow> byte list" where
  "id_rest content b = cells (sb_mem b) (gnext b) (gend b - gnext b) @ content (id_sys (sb_dev b))"

lemma id_vt_simps [simp]: "v_underflow (id_vt rdf) = id_underflow rdf"
  by (simp add: id_vt_def)

lemma id_inv_area: "id_inv fd content b \<Longrightarrow> gnext b \<noteq> 0 \<Longrightarrow> get_area b"
  by (auto simp: id_inv_def Let_def get_area_def)

lemma id_get_here:
  assumes "id_inv fd content b" "gnext b \<noteq> 0" "gnext b + int n \<le> gend b"
  shows "id_inv fd content (get_here n b) \<and> id_rest content (get_here n b) = drop n (id_rest content b)"
proof -
  have area: "get_area b" by (rule id_inv_area [OF assms(1,2)])
  have nz: "gbegin b \<noteq> 0" "gend b \<noteq> 0" using area by (auto simp: get_area_def)
  have "id_inv fd content (get_here n b)"
    using assms(1,3) nz get_area_get_here [OF area assms(3)] unfolding id_inv_def Let_def by simp
  moreover have "cells (sb_mem b) (gnext b) (gend b - gnext b) =
      cells (sb_mem b) (gnext b) (int n) @ cells (sb_mem b) (gnext b + int n) (gend b - gnext b - int n)"
    using assms(3) by (intro cells_append) auto
  then have "id_rest content (get_here n b) = drop n (id_rest content b)"
    by (simp add: id_rest_def algebra_simps)
  ultimately show ?thesis ..
qed

text \<open>A refill when the buffer is used up and the file is not.\<close>

lemma id_fill_ok:
  assumes src: "file_source rdf fd content" and inv: "id_inv fd content b" and used: "gnext b = gend b"
    and more: "content (id_sys (sb_dev b)) \<noteq> []"
  shows "\<exists>n b'. id_fill_buf rdf b = Some (int n, b') \<and> 0 < n \<and> id_inv fd content b' \<and> gnext b' \<noteq> 0 \<and>
    gnext b' < gend b' \<and> id_rest content b' = content (id_sys (sb_dev b))"
proof -
  let ?d = "sb_dev b" let ?p = "id_buf ?d" let ?c = "content (id_sys ?d)"
  have p: "0 < ?p" "live_range (sb_mem b) ?p 132" "id_rd ?d = fd"
    using inv by (simp_all add: id_inv_def Let_def)
  obtain s' where r: "rdf fd 128 (id_sys ?d) = (int (min 128 (length ?c)), take 128 ?c, s')" "content s' = drop 128 ?c"
    using file_sourceD [OF src, of 128 "id_sys ?d"] by auto
  define k where "k = min 128 (length ?c)"
  have k: "0 < k" "k \<le> 128" "length (take 128 ?c) = k" "s32 (int k) = int k"
    using more by (auto simp: k_def)
  obtain nb m1 where nb: "u32 (min (gnext b - gbegin b) 4) = nb" "0 \<le> nb" "nb \<le> 4"
      "(if 0 < nb then mem_cpy (?p + 4 - nb) (gnext b - nb) nb (sb_mem b) else Some (sb_mem b)) = Some m1"
      "m_live m1 = m_live (sb_mem b)"
  proof (cases "gnext b = 0")
    case True
    then have "gbegin b = 0" using inv by (auto simp: id_inv_def Let_def get_area_def)
    then show ?thesis using True that [of 0] by simp
  next
    case False
    then have g: "get_area b" "?p \<le> gbegin b" "gbegin b \<le> ?p + 4" "gend b = ?p + 132"
      using inv more by (auto simp: id_inv_def Let_def)
    have e: "u32 (min (gnext b - gbegin b) 4) = 4" using g used by simp
    have "live_range (sb_mem b) ?p (int 4)" "live_range (sb_mem b) (gnext b - 4) (int 4)"
      using g used by (intro live_range_sub [OF p(2)]; simp)+
    then have "copy_elem ?p (gnext b - 4) 4 (sb_mem b) = Some (blit ?p (gnext b - 4) (int 4) (sb_mem b))"
      using g used by (intro copy_elem_blit) (auto simp: no_clobber_def)
    then have "mem_cpy (?p + 4 - 4) (gnext b - 4) 4 (sb_mem b) = Some (blit ?p (gnext b - 4) 4 (sb_mem b))"
      using g used by (simp add: mem_cpy_def)
    then show ?thesis using that [OF e] by simp
  qed
  have "live_range m1 (?p + 4) (int (length (take 128 ?c)))"
    unfolding live_range_cong [OF nb(5)] using k by (intro live_range_sub [OF p(2)]) linarith+
  then have wr: "wr_list m1 (?p + 4) (take 128 ?c) = Some (put_at (?p + 4) (take 128 ?c) m1)" by (rule wr_list_put_at)
  let ?m = "put_at (?p + 4) (take 128 ?c) m1"
  let ?b = "b\<lparr>sb_mem := ?m, sb_dev := ?d\<lparr>id_sys := s'\<rparr>, gbegin := ?p + 4 - nb, gnext := ?p + 4, gend := ?p + 4 + int k\<rparr>"
  have fill: "id_fill_buf rdf b = Some (int k, ?b)"
    using p(3) r(1) k(4) nb(4) wr unfolding id_fill_buf_def ID_BUF_SIZE_def ID_BACK_BUF_SIZE_def
    by (simp add: Let_def nb(1) k_def [symmetric] sb_setg_def)
  have live: "live_range ?m ?p 132" using p(2) live_range_cong [OF nb(5)] by simp
  have "live_range ?m (?p + 4 - nb) (int k + nb)" using nb(2,3) k(2) by (intro live_range_sub [OF live]) simp_all
  then have area: "get_area ?b" using p(1) nb(2,3) k(2) by (simp add: get_area_def algebra_simps)
  have "content s' \<noteq> [] \<Longrightarrow> int k = 128" using r(2) by (auto simp: k_def)
  then have inv': "id_inv fd content ?b" using area live p nb(2,3) k(2) by (simp add: id_inv_def Let_def)
  have "cells ?m (?p + 4) (int k) = take 128 ?c" using cells_put_at [of "?p + 4" "take 128 ?c" m1] k(3) by simp
  then have "id_rest content ?b = ?c" using r(2) by (simp add: id_rest_def)
  then show ?thesis using fill k(1) p(1) inv' by fastforce
qed

lemma id_uflow_ok:
  assumes src: "file_source rdf fd content" and inv: "id_inv fd content b" and used: "gnext b = gend b"
    and more: "content (id_sys (sb_dev b)) \<noteq> []"
  shows "\<exists>b'. sb_uflow (id_vt rdf) b = Some (uint (hd (content (id_sys (sb_dev b)))), b') \<and> id_inv fd content b' \<and>
    id_rest content b' = tl (content (id_sys (sb_dev b)))"
proof -
  let ?c = "content (id_sys (sb_dev b))"
  obtain n b1 where b1: "id_fill_buf rdf b = Some (int n, b1)" "id_inv fd content b1" "gnext b1 \<noteq> 0" "gnext b1 < gend b1"
      "id_rest content b1 = ?c"
    using id_fill_ok [OF assms] by blast
  have area: "get_area b1" by (rule id_inv_area [OF b1(2,3)])
  have "live_range (sb_mem b1) (gnext b1) 1" using area b1(4) by (intro get_area_live [OF area]) (auto simp: get_area_def)
  then have lv: "m_live (sb_mem b1) (gnext b1)" by (auto intro: live_range_nth)
  have hd: "m_val (sb_mem b1) (gnext b1) = hd ?c"
    using b1(4,5) by (simp add: id_rest_def cells_Suc flip: b1(5))
  have "sb_uflow (id_vt rdf) b = Some (uint (hd ?c), get_here 1 b1)"
    using used b1(1,3) lv hd by (simp add: sb_uflow_def id_underflow_def rd_live get_here_def)
  moreover have "id_inv fd content (get_here 1 b1) \<and> id_rest content (get_here 1 b1) = drop 1 (id_rest content b1)"
    using b1(4) by (intro id_get_here [OF b1(2,3)]) simp
  ultimately show ?thesis using b1(5) by (simp add: drop_Suc)
qed

lemma id_xsgetn_ok:
  assumes src: "file_source rdf fd content"
  shows "id_inv fd content b \<Longrightarrow> cnt \<le> length (id_rest content b) \<Longrightarrow>
    \<exists>b'. sb_xsgetn_loop (id_vt rdf) cnt acc b = Some (0, acc @ take cnt (id_rest content b), b') \<and>
      id_inv fd content b' \<and> id_rest content b' = drop cnt (id_rest content b)"
proof (induction cnt arbitrary: acc b rule: less_induct)
  case (less cnt)
  let ?have = "gend b - gnext b"
  have rest: "id_rest content b = cells (sb_mem b) (gnext b) ?have @ content (id_sys (sb_dev b))"
    by (simp add: id_rest_def)
  show ?case
  proof (cases "gnext b \<noteq> 0 \<and> int cnt \<le> ?have")
    case True
    then have area: "get_area b" by (intro id_inv_area [OF less.prems(1)]) simp
    have "sb_xsgetn_loop (id_vt rdf) cnt acc b = Some (0, acc @ cells (sb_mem b) (gnext b) (int cnt), get_here cnt b)"
      using True by (subst xsgetn_step [OF area]) simp
    moreover have "cells (sb_mem b) (gnext b) (int cnt) = take cnt (id_rest content b)"
      using True nat_mono [of "int cnt" ?have] by (simp add: rest cells_take)
    ultimately show ?thesis using id_get_here [OF less.prems(1), of cnt] True by simp
  next
    case False
    show ?thesis
    proof (cases "cnt = 0")
      case True
      then show ?thesis using less.prems(1) by (subst sb_xsgetn_loop.simps) simp
    next
      case nz: False
      define k where "k = nat ?have"
      have null: "gnext b = 0 \<Longrightarrow> gend b = 0" using less.prems(1) by (auto simp: id_inv_def Let_def get_area_def)
      have k: "int k = ?have" "k < cnt" "id_inv fd content (get_here k b)"
          "id_rest content (get_here k b) = drop k (id_rest content b)"
      proof -
        have "0 \<le> ?have" using less.prems(1) null by (auto simp: id_inv_def Let_def get_area_def)
        then show i: "int k = ?have" by (simp add: k_def)
        then show "k < cnt" using False nz null by (cases "gnext b = 0") auto
        have "id_inv fd content (get_here k b) \<and> id_rest content (get_here k b) = drop k (id_rest content b)"
        proof (cases "gnext b = 0")
          case True
          then have "k = 0" using i null by simp
          then show ?thesis using less.prems(1) by simp
        qed (use i in \<open>intro id_get_here [OF less.prems(1)], auto\<close>)
        then show "id_inv fd content (get_here k b)" "id_rest content (get_here k b) = drop k (id_rest content b)" by simp_all
      qed
      have lenk: "length (cells (sb_mem b) (gnext b) ?have) = k" by (simp add: k_def)
      have taken: "cells (sb_mem b) (gnext b) ?have = take k (id_rest content b)" and
        unread: "drop k (id_rest content b) = content (id_sys (sb_dev b))" by (simp_all add: rest k_def)
      have more: "content (id_sys (sb_dev b)) \<noteq> []" using less.prems(2) k(2) lenk by (auto simp: rest)
      then obtain x xs where c: "content (id_sys (sb_dev b)) = x # xs" by (cases "content (id_sys (sb_dev b))") auto
      have "\<exists>b'. sb_uflow (id_vt rdf) (get_here k b) = Some (uint (hd (content (id_sys (sb_dev (get_here k b))))), b') \<and>
          id_inv fd content b' \<and> id_rest content b' = tl (content (id_sys (sb_dev (get_here k b))))"
        using more k(1) by (intro id_uflow_ok [OF src k(3)]) simp_all
      then obtain b1 where b1: "sb_uflow (id_vt rdf) (get_here k b) = Some (uint x, b1)" "id_inv fd content b1" "id_rest content b1 = xs"
        by (auto simp: c)
      let ?acc = "acc @ take k (id_rest content b) @ [x]"
      have "cnt - k - 1 < cnt" "cnt - k - 1 \<le> length (id_rest content b1)"
        using k(2) less.prems(2) c by (simp_all add: b1(3) rest k_def [symmetric])
      from less.IH [OF this(1) b1(2) this(2)] obtain b2 where
        b2: "sb_xsgetn_loop (id_vt rdf) (cnt - k - 1) ?acc b1 = Some (0, ?acc @ take (cnt - k - 1) xs, b2)"
          "id_inv fd content b2" "id_rest content b2 = drop (cnt - k - 1) xs" unfolding b1(3) by blast
      have step: "sb_xsgetn_loop (id_vt rdf) cnt acc b = sb_xsgetn_loop (id_vt rdf) (cnt - k - 1) ?acc b1"
      proof (cases "gnext b = 0")
        case True
        then have "k = 0" using null by (simp add: k_def)
        then show ?thesis using True nz b1(1) by (subst sb_xsgetn_loop.simps) simp
      next
        case g: False
        have area: "get_area b" by (rule id_inv_area [OF less.prems(1) g])
        show ?thesis using False g b1(1) taken
          by (subst xsgetn_step [OF area]) (simp add: Let_def k_def [symmetric])
      qed
      have whole: "id_rest content b = take k (id_rest content b) @ x # xs" using unread c by (metis append_take_drop_id)
      have lt: "length (take k (id_rest content b)) = k" using lenk taken by simp
      have "take cnt (id_rest content b) = take k (id_rest content b) @ x # take (cnt - k - 1) xs"
        using k(2) lt by (subst whole) (simp add: take_Cons')
      moreover have "drop cnt (id_rest content b) = drop (cnt - k - 1) xs"
        using k(2) lt by (subst whole) (simp add: drop_Cons')
      ultimately show ?thesis using step b2 by simp
    qed
  qed
qed

lemma id_read_ok:
  assumes "file_source rdf fd content" "id_inv fd content (sm_buf s)" "n \<le> length (id_rest content (sm_buf s))"
  shows "\<exists>s'. in_get_n (id_vt rdf) n s = Some (take n (id_rest content (sm_buf s)), s') \<and> id_inv fd content (sm_buf s') \<and>
    sm_good s' \<and> id_rest content (sm_buf s') = drop n (id_rest content (sm_buf s))"
  using id_xsgetn_ok [OF assms, of "[]"] by (auto simp: in_get_n_def sb_sgetn_def sm_result_def sm_good_def)

fun read_all :: "'s sbuf_vt \<Rightarrow> nat list \<Rightarrow> 's strm \<Rightarrow> (byte list list \<times> 's strm) option" where
  "read_all vt [] s = Some ([], s)"
| "read_all vt (n # ns) s = do { (xs, s1) \<leftarrow> in_get_n vt n s; (xss, s2) \<leftarrow> read_all vt ns s1; Some (xs # xss, s2) }"

fun slices :: "nat list \<Rightarrow> 'a list \<Rightarrow> 'a list list" where
  "slices [] xs = []"
| "slices (n # ns) xs = take n xs # slices ns (drop n xs)"

lemma id_read_all:
  assumes "file_source rdf fd content"
  shows "id_inv fd content (sm_buf s) \<Longrightarrow> sum_list ns \<le> length (id_rest content (sm_buf s)) \<Longrightarrow> sm_good s \<Longrightarrow>
    \<exists>s'. read_all (id_vt rdf) ns s = Some (slices ns (id_rest content (sm_buf s)), s') \<and> sm_good s'"
proof (induction ns arbitrary: s)
  case (Cons n ns)
  obtain s1 where s1: "in_get_n (id_vt rdf) n s = Some (take n (id_rest content (sm_buf s)), s1)" "id_inv fd content (sm_buf s1)"
      "sm_good s1" "id_rest content (sm_buf s1) = drop n (id_rest content (sm_buf s))"
    using id_read_ok [OF assms Cons.prems(1), of n] Cons.prems(2) by auto
  have "sum_list ns \<le> length (id_rest content (sm_buf s1))" using s1(4) Cons.prems(2) by simp
  from Cons.IH [OF s1(2) this s1(3)] obtain s2 where
    "read_all (id_vt rdf) ns s1 = Some (slices ns (id_rest content (sm_buf s1)), s2)" "sm_good s2" by blast
  then show ?case using s1 by simp
qed simp

section \<open>Properties\<close>

text \<open>A file in memory, on which the properties are instantiated.\<close>

definition file_rd :: "byte list sys_read" where
  "file_rd fd n s = (int (min (nat n) (length s)), take (nat n) s, drop (nat n) s)"
definition file_wr :: "byte list sys_write" where
  "file_wr fd bs s = (int (length bs), s @ bs)"

lemma file_rd_source: "file_source file_rd fd (\<lambda>s. s)"
  by (simp add: file_source_def file_rd_def)

lemma file_wr_sink: "whole_sink file_wr fd (\<lambda>s. s)"
  by (simp add: whole_sink_def file_wr_def)

text \<open>C30: A program that opens an \<open>InDevBinStream\<close> on a file and reads any number of blocks of any sizes, not beyond
  the end of the file, gets the consecutive slices of the file, and the stream stays good; the 128-byte buffer and its
  refills do not show.\<close>

theorem dev_stream_reads_file:
  assumes "file_source rdf fd content" "opf name 0 (clf (-1) s) = (fd, s')" "0 \<le> fd"
    and "0 < p" "live_range m p 132" "sum_list ns \<le> length (content s')"
  shows "\<exists>st. read_all (id_vt rdf) ns (ids_ctor_name opf clf p m name s) = Some (slices ns (content s'), st) \<and> sm_good st"
proof -
  let ?s = "ids_ctor_name opf clf p m name s"
  have "id_inv fd content (sm_buf ?s)" "id_rest content (sm_buf ?s) = content s'" "sm_good ?s"
    using assms(2-5) by (simp_all add: ids_ctor_name_def id_ctor_def id_open_def id_close_def id_is_open_def sm_ctor_def
        sb_setg_def sb_ctor_def sm_result_def sm_good_def id_inv_def id_rest_def)
  then show ?thesis using id_read_all [OF assms(1), of ?s ns] assms(6) by simp
qed

theorem dev_stream_reads_file_witness:
  "\<exists>st. read_all (id_vt file_rd) [2, 130, 0, 1]
      (ids_ctor_name (\<lambda>name flags s. (3, s)) (\<lambda>fd s. s) 5 (arena 0 140) ''log'' (map of_nat [0..<140])) =
      Some (slices [2, 130, 0, 1] (map of_nat [0..<140]), st) \<and> sm_good st"
  using dev_stream_reads_file [OF file_rd_source [of 3], of "\<lambda>name flags s. (3, s)" "''log''" "\<lambda>fd s. s" "map of_nat [0..<140]"
      "map of_nat [0..<140]" 5 "arena 0 140" "[2, 130, 0, 1]"] by simp

text \<open>C31: A program that opens an \<open>OutDevBinStream\<close> on a device which takes every write whole, writes any blocks and
  flushes has sent exactly the concatenation of the blocks, in order; every call returns and the stream is good.\<close>

theorem dev_stream_delivers_writes:
  assumes "whole_sink wrf fd sent" "opf name 1 s = (fd, s')" "0 \<le> fd" "0 < p" "live_range m p 512"
  shows "\<exists>st st1 st2. ods_ctor_name wrf opf clf p m name s = Some st \<and> sm_good st \<and>
    write_all (od_vt wrf) bss st = Some st1 \<and> sm_good st1 \<and> out_flush (od_vt wrf) st1 = Some st2 \<and> sm_good st2 \<and>
    sent (od_sys (sb_dev (sm_buf st2))) = sent s' @ concat bss"
proof -
  obtain st where st: "ods_ctor_name wrf opf clf p m name s = Some st" "sm_good st" "od_inv fd (sm_buf st)"
      "od_out sent (sm_buf st) = sent s'"
    using assms(2-5) by (simp add: ods_ctor_name_def od_ctor_def od_open_def od_close_def sm_ctor_def sb_setp_def sb_ctor_def
        sm_result_def sm_good_def od_inv_def od_out_def put_area_def OD_BUF_SIZE_def)
  obtain st1 where st1: "write_all (od_vt wrf) bss st = Some st1" "od_inv fd (sm_buf st1)" "bss \<noteq> [] \<longrightarrow> sm_good st1"
      "od_out sent (sm_buf st1) = sent s' @ concat bss"
    using od_write_all [OF assms(1) st(3), of bss] st(4) by auto
  have good: "sm_good st1" using st1(1,3) st(2) by (cases "bss = []") auto
  obtain b where b: "od_sync wrf (sm_buf st1) = Some (0, b)" "od_out sent b = od_out sent (sm_buf st1)" "pnext b = pbegin b"
    using od_sync_whole [OF assms(1) st1(2)] by blast
  have "sent (od_sys (sb_dev b)) = sent s' @ concat bss" using b(2,3) st1(4) by (simp add: od_out_def [of sent b])
  then show ?thesis using st(1,2) st1(1) good b(1)
    by (simp add: out_flush_def sb_pubsync_def sm_result_def sm_good_def)
qed

theorem dev_stream_delivers_writes_witness:
  "\<exists>st st1 st2. ods_ctor_name file_wr (\<lambda>name flags s. (3, s)) (\<lambda>fd s. s) 5 (arena 0 600) ''log'' [9] = Some st \<and> sm_good st \<and>
    write_all (od_vt file_wr) [[1, 2], replicate 600 7, [3]] st = Some st1 \<and> sm_good st1 \<and>
    out_flush (od_vt file_wr) st1 = Some st2 \<and> sm_good st2 \<and>
    od_sys (sb_dev (sm_buf st2)) = [9] @ concat [[1, 2], replicate 600 7, [3]]"
  using dev_stream_delivers_writes [OF file_wr_sink [of 3], of "\<lambda>name flags s. (3, s)" "''log''" "[9]" "[9]" 5 "arena 0 600"
      "\<lambda>fd s. s" "[[1, 2], replicate 600 7, [3]]"] by simp

section \<open>Defects\<close>

text \<open>At the end of the file the refill gets no byte and \<open>underflow\<close> returns the byte the get pointer is at, so
  that reading goes on with stale bytes and the stream is never at its end.\<close>

theorem dev_stream_misses_end_of_file:
  assumes src: "file_source rdf fd content" and inv: "id_inv fd content (sm_buf s)"
    and over: "id_rest content (sm_buf s) = []" and get: "in_get (id_vt rdf) s = Some (c, s')"
  shows "0 \<le> c \<and> sm_good s'"
proof -
  let ?b = "sm_buf s"
  have empty: "content (id_sys (sb_dev ?b)) = []" and used: "\<not> gnext ?b < gend ?b"
    using over by (auto simp: id_rest_def cells_Suc)
  have eq: "gnext ?b = gend ?b" using inv used by (auto simp: id_inv_def Let_def get_area_def)
  have fd: "id_rd (sb_dev ?b) = fd" using inv by (simp add: id_inv_def Let_def)
  obtain t where t: "rdf fd 128 (id_sys (sb_dev ?b)) = (0, [], t)"
    using file_sourceD [OF src, of 128 "id_sys (sb_dev ?b)"] empty by auto
  have r: "r = 0" if "id_fill_buf rdf ?b = Some (r, b')" for r b'
    using that t fd by (auto simp: id_fill_buf_def ID_BUF_SIZE_def Let_def bind_Some_iff split: if_splits)
  have "0 \<le> c"
    using get eq r by (auto simp: in_get_def sb_sbumpc_def sb_uflow_def id_underflow_def bind_Some_iff split: if_splits)
  then show ?thesis using get by (auto simp: in_get_def sm_result_def sm_good_def bind_Some_iff)
qed

theorem dev_stream_end_of_file_example:
  "(case read_all (id_vt file_rd) [5] (ids_ctor_name (\<lambda>name flags s. (3, s)) (\<lambda>fd s. s) 5 (arena 0 140) ''log'' [1, 2, 3, 4, 5])
    of None \<Rightarrow> False | Some (xss, s) \<Rightarrow> (case in_get (id_vt file_rd) s of None \<Rightarrow> False | Some (c, s') \<Rightarrow> c = 1 \<and> sm_good s'))"
  by code_simp

text \<open>When the device takes only part of the buffer, \<open>sync\<close> keeps the first bytes instead of those that
  were not taken: here a device that takes two bytes per call receives 1, 2, 1 for 1, 2, 3.\<close>

definition slow_wr :: "byte list sys_write" where
  "slow_wr fd bs s = (int (min 2 (length bs)), s @ take 2 bs)"

theorem dev_stream_partial_sync_corrupts:
  "(case do { s0 \<leftarrow> ods_ctor_name slow_wr (\<lambda>name flags s. (3, s)) (\<lambda>fd s. s) 5 (arena 0 600) ''dev'' [];
              s1 \<leftarrow> strm_write (od_vt slow_wr) [1, 2, 3] s0; s2 \<leftarrow> out_flush (od_vt slow_wr) s1;
              s3 \<leftarrow> out_flush (od_vt slow_wr) s2; Some s3 }
    of None \<Rightarrow> False | Some s \<Rightarrow> od_sys (sb_dev (sm_buf s)) = [1, 2, 1] \<and> sm_good s)"
  by code_simp

text \<open>A device that accepts nothing, without an error, makes a write into a full buffer recurse for ever.\<close>

lemma od_sync_stuck:
  assumes inv: "od_inv fd b" and full: "pnext b = pend b" and none: "\<And>bs s. fst (wrf fd bs s) = 0"
  shows "\<exists>b'. od_sync wrf b = Some (0, b') \<and> od_inv fd b' \<and> pnext b' = pend b'"
proof -
  have area: "put_area b" and sz: "pend b = pbegin b + 512" "od_wr (sb_dev b) = fd"
    using inv by (simp_all add: od_inv_def OD_BUF_SIZE_def)
  let ?bs = "cells (sb_mem b) (pbegin b) (int 512)"
  have "live_range (sb_mem b) (pbegin b) (int 512)" using sz by (intro put_area_live [OF area]) auto
  then have rd: "rd_list (sb_mem b) (pbegin b) 512 = Some ?bs" by (rule rd_list_cells)
  obtain s' where "wrf fd ?bs (od_sys (sb_dev b)) = (0, s')"
    using none [of ?bs "od_sys (sb_dev b)"] by (cases "wrf fd ?bs (od_sys (sb_dev b))") simp
  then have "od_sync wrf b = Some (0, b\<lparr>sb_dev := (sb_dev b)\<lparr>od_sys := s'\<rparr>\<rparr>)"
    using rd full sz by (simp add: od_sync_def Let_def sb_pbump_def)
  then show ?thesis using inv full by (auto simp: od_inv_def put_area_def)
qed

theorem dev_stream_overflow_may_not_return:
  assumes none: "\<And>bs s. fst (wrf fd bs s) = 0" and "od_inv fd b" "pnext b = pend b" "0 \<le> c"
  shows "od_overflow wrf c b = None"
proof (rule ccontr)
  assume "od_overflow wrf c b \<noteq> None"
  then obtain r where r: "od_overflow wrf c b = Some r" by auto
  let ?P = "\<lambda>wrf c b r. \<not> (od_inv fd b \<and> pnext b = pend b \<and> 0 \<le> c \<and> (\<forall>bs s. fst (wrf fd bs s) = 0))"
  have "?P wrf c b r"
  proof (rule od_overflow.raw_induct [where P = ?P, OF _ r])
    fix ovf :: "'a sys_write \<Rightarrow> int \<Rightarrow> 'a odev sbuf \<Rightarrow> (int \<times> 'a odev sbuf) option" and wrf c b r
    assume ih: "\<And>wrf c b r. ovf wrf c b = Some r \<Longrightarrow> ?P wrf c b r"
      and body: "do { (r, b) \<leftarrow> od_sync wrf b; if r < 0 then Some (-1, b) else if c < 0 then Some (0, b)
          else sb_sputc (\<lambda>c b. ovf wrf c b) (word_of_int c) b } = Some r"
    show "?P wrf c b r"
    proof
      assume a: "od_inv fd b \<and> pnext b = pend b \<and> 0 \<le> c \<and> (\<forall>bs s. fst (wrf fd bs s) = 0)"
      then obtain b' where b': "od_sync wrf b = Some (0, b')" "od_inv fd b'" "pnext b' = pend b'"
        using od_sync_stuck [of fd b wrf] by blast
      then have "ovf wrf (uint (word_of_int c :: byte)) b' = Some r"
        using body a by (simp add: sputc_full)
      then show False using ih b' a uint_ge_0 by blast
    qed
  qed
  then show False using assms by blast
qed

end
