(* ===== verification/DevBlocks.thy ===== *)
theory DevBlocks imports DevStreams begin

text \<open>
  The block transfers of \<open>src/io/BinStream/DevBinStream.cpp\<close>, \<open>InDevBinStreamBuf::xsgetn\<close> and
  \<open>OutDevBinStreamBuf::xsputn\<close>. Their parameter types are not those of the virtual functions of the base
  class, so that streams call the base class's loops instead; the two do the same. A loop that goes on
  for ever, because the device gives or takes nothing, is \<open>None\<close>.
\<close>

text \<open>\<open>acc\<close> is what was received so far; its length is \<open>nrx\<close>.\<close>

partial_function (option) id_xsgetn :: "'s sys_read \<Rightarrow> nat \<Rightarrow> byte list \<Rightarrow> 's idev sbuf \<Rightarrow> (byte list \<times> 's idev sbuf) option" where
  "id_xsgetn rdf n acc b =
     (if length acc < n then
        let nbuf = u32 (sb_in_avail b) in
        if nbuf = 0 then
          do { (r, b) \<leftarrow> id_underflow rdf b;
               if r < 0 then Some (acc, b) else id_xsgetn rdf n acc b }
        else let ncpy = min (n - length acc) (nat nbuf) in
          do { xs \<leftarrow> rd_list (sb_mem b) (gnext b) ncpy;
               id_xsgetn rdf n (acc @ xs) (sb_gbump (s32 (int ncpy)) b) }
      else Some (acc, b))"

text \<open>\<open>ntx\<close> bytes of \<open>bs\<close> were sent so far.\<close>

partial_function (option) od_xsputn :: "'s sys_write \<Rightarrow> byte list \<Rightarrow> nat \<Rightarrow> 's odev sbuf \<Rightarrow> (nat \<times> 's odev sbuf) option" where
  "od_xsputn wrf bs ntx b =
     (if ntx < length bs then
        let nbuf = u32 (pend b - pnext b) in
        if nbuf = 0 then
          do { (r, b) \<leftarrow> od_sync wrf b;
               if r < 0 then Some (ntx, b) else od_xsputn wrf bs ntx b }
        else let ncpy = min (length bs - ntx) (nat nbuf) in
          do { m \<leftarrow> wr_list (sb_mem b) (pnext b) (take ncpy (drop ntx bs));
               od_xsputn wrf bs (ntx + ncpy) (sb_pbump (s32 (int ncpy)) (b\<lparr>sb_mem := m\<rparr>)) }
      else Some (length bs, b))"

section \<open>Sending\<close>

lemma od_room:
  assumes "od_inv fd b"
  shows "0 \<le> pend b - pnext b" "pend b - pnext b \<le> 512" "u32 (pend b - pnext b) = pend b - pnext b"
  using assms by (auto simp: od_inv_def put_area_def OD_BUF_SIZE_def)

lemma od_xsputn_step:
  assumes "od_inv fd b" and "pnext b < pend b" and "ntx < length bs"
  shows "\<exists>k. 0 < k \<and> k \<le> length bs - ntx \<and> od_inv fd (put_here (take k (drop ntx bs)) b) \<and>
    od_xsputn wrf bs ntx b = od_xsputn wrf bs (ntx + k) (put_here (take k (drop ntx bs)) b) \<and>
    od_out sent (put_here (take k (drop ntx bs)) b) = od_out sent b @ take k (drop ntx bs)"
proof -
  define k where "k = min (length bs - ntx) (nat (pend b - pnext b))"
  let ?xs = "take k (drop ntx bs)"
  note room = od_room [OF assms(1)]
  have k: "0 < k" "k \<le> length bs - ntx" "int k \<le> pend b - pnext b" "length ?xs = k" "s32 (int k) = int k"
    using assms(2,3) room(1,2) by (auto simp: k_def)
  have area: "put_area b" using assms(1) by (simp add: od_inv_def)
  have "live_range (sb_mem b) (pnext b) (int (length ?xs))" using k area by (intro put_area_live) (auto simp: put_area_def)
  then have "wr_list (sb_mem b) (pnext b) ?xs = Some (put_at (pnext b) ?xs (sb_mem b))" by (rule wr_list_put_at)
  moreover have "sb_pbump (int k) (b\<lparr>sb_mem := put_at (pnext b) ?xs (sb_mem b)\<rparr>) = put_here ?xs b"
    using k(4) by (cases b) (simp add: sb_pbump_def put_here_def)
  ultimately have "od_xsputn wrf bs ntx b = od_xsputn wrf bs (ntx + k) (put_here ?xs b)"
    using assms(2,3) room(3) k(5) by (subst od_xsputn.simps) (simp add: Let_def k_def [symmetric])
  with k od_put_here [OF assms(1), of ?xs sent] show ?thesis by (intro exI [of _ k]) simp
qed

lemma od_block_whole:
  assumes sink: "whole_sink wrf fd sent"
  shows "od_inv fd b \<Longrightarrow> ntx \<le> length bs \<Longrightarrow>
    \<exists>b'. od_xsputn wrf bs ntx b = Some (length bs, b') \<and> od_inv fd b' \<and> od_out sent b' = od_out sent b @ drop ntx bs"
proof (induction "length bs - ntx" arbitrary: ntx b rule: less_induct)
  case less
  show ?case
  proof (cases "ntx < length bs")
    case False
    then show ?thesis using less.prems by (subst od_xsputn.simps) simp
  next
    case True
    have go: "\<exists>b'. od_xsputn wrf bs ntx b1 = Some (length bs, b') \<and> od_inv fd b' \<and> od_out sent b' = od_out sent b1 @ drop ntx bs"
      if b1: "od_inv fd b1" "pnext b1 < pend b1" for b1
    proof -
      obtain k where k: "0 < k" "k \<le> length bs - ntx" "od_inv fd (put_here (take k (drop ntx bs)) b1)"
        "od_xsputn wrf bs ntx b1 = od_xsputn wrf bs (ntx + k) (put_here (take k (drop ntx bs)) b1)"
        "od_out sent (put_here (take k (drop ntx bs)) b1) = od_out sent b1 @ take k (drop ntx bs)"
        using od_xsputn_step [OF b1 True] by blast
      have "length bs - (ntx + k) < length bs - ntx" "ntx + k \<le> length bs" using k(1,2) True by auto
      from less.hyps [OF this(1) k(3) this(2)] k(4,5) show ?thesis
        using append_take_drop_id [of k "drop ntx bs"] by (auto simp: add.commute)
    qed
    show ?thesis
    proof (cases "pnext b < pend b")
      case True
      then show ?thesis using go [OF less.prems(1)] by simp
    next
      case full: False
      then have "pend b - pnext b = 0" using od_room(1) [OF less.prems(1)] by simp
      moreover obtain b1 where b1: "od_sync wrf b = Some (0, b1)" "od_inv fd b1" "od_out sent b1 = od_out sent b" "pnext b1 = pbegin b1"
        using od_sync_whole [OF sink less.prems(1)] by blast
      moreover have "pnext b1 < pend b1" using b1(2,4) by (simp add: od_inv_def OD_BUF_SIZE_def)
      ultimately show ?thesis using go [OF b1(2)] True by (subst od_xsputn.simps) simp
    qed
  qed
qed

section \<open>Receiving\<close>

lemma id_avail:
  assumes "id_inv fd content b"
  shows "u32 (sb_in_avail b) = (if gnext b = 0 then 0 else gend b - gnext b)" "gnext b = 0 \<Longrightarrow> gend b = 0"
    "0 \<le> gend b - gnext b" "gend b - gnext b \<le> 136"
proof -
  show "gnext b = 0 \<Longrightarrow> gend b = 0" "0 \<le> gend b - gnext b" "gend b - gnext b \<le> 136"
    using assms by (auto simp: id_inv_def Let_def get_area_def)
  then show "u32 (sb_in_avail b) = (if gnext b = 0 then 0 else gend b - gnext b)"
    by (auto simp: sb_in_avail_def sb_showmanyc_def)
qed

lemma id_underflow_ok:
  assumes "file_source rdf fd content" and "id_inv fd content b" and "gnext b = gend b" and "content (id_sys (sb_dev b)) \<noteq> []"
  shows "\<exists>c b'. id_underflow rdf b = Some (c, b') \<and> 0 \<le> c \<and> id_inv fd content b' \<and> gnext b' \<noteq> 0 \<and> gnext b' < gend b' \<and>
    id_rest content b' = id_rest content b"
proof -
  obtain n b1 where b1: "id_fill_buf rdf b = Some (int n, b1)" "id_inv fd content b1" "gnext b1 \<noteq> 0" "gnext b1 < gend b1"
      "id_rest content b1 = content (id_sys (sb_dev b))"
    using id_fill_ok [OF assms] by blast
  have area: "get_area b1" by (rule id_inv_area [OF b1(2,3)])
  have "live_range (sb_mem b1) (gnext b1) 1" using area b1(4) by (intro get_area_live [OF area]) (auto simp: get_area_def)
  then have "m_live (sb_mem b1) (gnext b1)" by (auto intro: live_range_nth)
  then show ?thesis using assms(3) b1 by (simp add: id_underflow_def rd_live id_rest_def)
qed

lemma id_xsgetn_step:
  assumes "id_inv fd content b" and "gnext b \<noteq> 0" and "gnext b < gend b" and "length acc < n"
  shows "\<exists>k. 0 < k \<and> k \<le> n - length acc \<and> k \<le> length (id_rest content b) \<and> id_inv fd content (get_here k b) \<and>
    id_xsgetn rdf n acc b = id_xsgetn rdf n (acc @ take k (id_rest content b)) (get_here k b) \<and>
    id_rest content (get_here k b) = drop k (id_rest content b)"
proof -
  let ?have = "gend b - gnext b"
  define k where "k = min (n - length acc) (nat ?have)"
  have k: "0 < k" "k \<le> n - length acc" "int k \<le> ?have" "s32 (int k) = int k"
    using assms(3,4) id_avail(4) [OF assms(1)] by (auto simp: k_def)
  have area: "get_area b" by (rule id_inv_area [OF assms(1,2)])
  have "live_range (sb_mem b) (gnext b) (int k)" using k(3) area by (intro get_area_live [OF area]) (auto simp: get_area_def)
  then have "rd_list (sb_mem b) (gnext b) k = Some (cells (sb_mem b) (gnext b) (int k))" by (rule rd_list_cells)
  moreover have "cells (sb_mem b) (gnext b) (int k) = take k (id_rest content b)"
    using k(3) nat_mono [of "int k" ?have] by (simp add: id_rest_def cells_take)
  ultimately have "id_xsgetn rdf n acc b = id_xsgetn rdf n (acc @ take k (id_rest content b)) (get_here k b)"
    using assms(2-4) id_avail(1) [OF assms(1)] k(4)
    by (subst id_xsgetn.simps) (simp add: Let_def k_def [symmetric] sb_gbump_def get_here_def)
  moreover have "k \<le> length (id_rest content b)" using k(3) nat_mono [of "int k" ?have] by (simp add: id_rest_def)
  ultimately show ?thesis using k id_get_here [OF assms(1,2), of k] by (intro exI [of _ k]) simp
qed

lemma id_xsgetn_file:
  assumes src: "file_source rdf fd content"
  shows "id_inv fd content b \<Longrightarrow> length acc \<le> n \<Longrightarrow> n - length acc \<le> length (id_rest content b) \<Longrightarrow>
    \<exists>b'. id_xsgetn rdf n acc b = Some (acc @ take (n - length acc) (id_rest content b), b') \<and> id_inv fd content b' \<and>
      id_rest content b' = drop (n - length acc) (id_rest content b)"
proof (induction "n - length acc" arbitrary: acc b rule: less_induct)
  case less
  show ?case
  proof (cases "length acc < n")
    case False
    then show ?thesis using less.prems by (subst id_xsgetn.simps) simp
  next
    case True
    have go: "\<exists>b'. id_xsgetn rdf n acc b1 = Some (acc @ take (n - length acc) (id_rest content b1), b') \<and> id_inv fd content b' \<and>
        id_rest content b' = drop (n - length acc) (id_rest content b1)"
      if b1: "id_inv fd content b1" "gnext b1 \<noteq> 0" "gnext b1 < gend b1" "n - length acc \<le> length (id_rest content b1)" for b1
    proof -
      obtain k where k: "0 < k" "k \<le> n - length acc" "k \<le> length (id_rest content b1)" "id_inv fd content (get_here k b1)"
        "id_xsgetn rdf n acc b1 = id_xsgetn rdf n (acc @ take k (id_rest content b1)) (get_here k b1)"
        "id_rest content (get_here k b1) = drop k (id_rest content b1)"
        using id_xsgetn_step [OF b1(1-3) True] by blast
      let ?acc = "acc @ take k (id_rest content b1)"
      have len: "length ?acc = length acc + k" using k(3) by simp
      have "n - length ?acc < n - length acc" "length ?acc \<le> n" "n - length ?acc \<le> length (id_rest content (get_here k b1))"
        using k(1,2,6) b1(4) True len by auto
      from less.hyps [OF this(1) k(4) this(2,3)] obtain b2 where
        "id_xsgetn rdf n ?acc (get_here k b1) = Some (?acc @ take (n - length acc - k) (drop k (id_rest content b1)), b2)"
        "id_inv fd content b2" "id_rest content b2 = drop (n - length acc - k) (drop k (id_rest content b1))"
        unfolding k(6) len by auto
      moreover have "take k (id_rest content b1) @ take (n - length acc - k) (drop k (id_rest content b1)) = take (n - length acc) (id_rest content b1)"
        using k(2) by (metis add_diff_inverse_nat not_less take_add)
      moreover have "n - length acc - k + k = n - length acc" using k(2) by simp
      ultimately show ?thesis using k(5) by simp
    qed
    show ?thesis
    proof (cases "gnext b \<noteq> 0 \<and> gnext b < gend b")
      case True
      then show ?thesis using go [OF less.prems(1)] less.prems(3) by simp
    next
      case False
      then have empty: "gnext b = gend b" "u32 (sb_in_avail b) = 0" using id_avail [OF less.prems(1)] by auto
      then have "content (id_sys (sb_dev b)) \<noteq> []" using less.prems(3) True by (auto simp: id_rest_def)
      from id_underflow_ok [OF src less.prems(1) empty(1) this] obtain c b1 where
        b1: "id_underflow rdf b = Some (c, b1)" "0 \<le> c" "id_inv fd content b1" "gnext b1 \<noteq> 0" "gnext b1 < gend b1"
          "id_rest content b1 = id_rest content b" by blast
      then show ?thesis using go [OF b1(3-5)] less.prems(3) True empty(2) by (subst id_xsgetn.simps) simp
    qed
  qed
qed

section \<open>Properties\<close>

text \<open>the block transfers that the device streams define for themselves do what the base class's loops
  do: from a file they deliver the same bytes and leave the same to be read, and to a device that takes
  every write whole they pass on the same bytes.\<close>

theorem block_transfers_are_the_base_loops:
  assumes "file_source rdf fd content" and "id_inv fd content b" and "n \<le> length (id_rest content b)"
    and "whole_sink wrf fe sent" and "od_inv fe e"
  shows "\<exists>b1 b2 e1 e2. id_xsgetn rdf n [] b = Some (take n (id_rest content b), b1) \<and>
    sb_xsgetn_loop (id_vt rdf) n [] b = Some (0, take n (id_rest content b), b2) \<and> id_rest content b1 = id_rest content b2 \<and>
    od_xsputn wrf bs 0 e = Some (length bs, e1) \<and> sb_xsputn_loop (od_vt wrf) bs e = Some (0, e2) \<and>
    od_out sent e1 = od_out sent e2"
  using id_xsgetn_file [OF assms(1,2), of "[]" n] id_xsgetn_ok [OF assms(1,2,3), of "[]"] assms(3)
    od_block_whole [OF assms(4,5), of 0 bs]
    od_xsputn_whole [OF assms(4,5), of bs] by auto

theorem block_transfers_are_the_base_loops_witness:
  "\<exists>b1. id_xsgetn file_rd 3 [] (sm_buf (ids_ctor_name (\<lambda>name flags s. (3, s)) (\<lambda>fd s. s) 5 (arena 0 140) ''f'' [1, 2, 3, 4])) =
    Some ([1, 2, 3], b1)"
proof -
  let ?b = "sm_buf (ids_ctor_name (\<lambda>name flags s. (3, s)) (\<lambda>fd s. s) 5 (arena 0 140) ''f'' [1, 2, 3, 4])"
  let ?e = "od_ctor 5 (arena 0 600) []\<lparr>sb_dev := \<lparr>od_wr = 3, od_buf = 5, od_sys = []\<rparr>\<rparr>"
  have i: "id_inv 3 (\<lambda>s. s) ?b" and r: "id_rest (\<lambda>s. s) ?b = [1, 2, 3, 4]"
    by (simp_all add: ids_ctor_name_def id_ctor_def id_open_def id_close_def id_is_open_def sm_ctor_def sb_setg_def sb_ctor_def
        sm_result_def id_inv_def id_rest_def)
  have e: "od_inv 3 ?e" by (simp add: od_ctor_def sb_setp_def sb_ctor_def od_inv_def put_area_def OD_BUF_SIZE_def)
  have "3 \<le> length (id_rest (\<lambda>s. s) ?b)" unfolding r by simp
  from block_transfers_are_the_base_loops [OF file_rd_source i this file_wr_sink e, of "[]"]
  show ?thesis unfolding r by auto
qed

end
