(* ===== verification/SyncContracts.thy ===== *)
theory SyncContracts imports Locks OSEvent begin

text \<open>
  What the library expects of a semaphore, whatever system it is built for: a counter that
  \<open>post\<close> raises and the waits lower, and that waits block on at zero. The ports' classes are
  compared with it call by call, as one thread makes the calls; here those of POSIX and the
  generic event with automatic reset.
\<close>

section \<open>Calls and what they answer\<close>

datatype sem_call = SPost | STry | SWait

fun sem_calls :: "('s \<Rightarrow> 's run) \<Rightarrow> ('s \<Rightarrow> 's run) \<Rightarrow> ('s \<Rightarrow> (bool \<times> 's) run) \<Rightarrow> sem_call list \<Rightarrow> 's \<Rightarrow> (bool list \<times> 's) run" where
  "sem_calls post wait attempt [] s = Ret ([], s)"
| "sem_calls post wait attempt (SPost # cs) s = run_then (post s) (sem_calls post wait attempt cs)"
| "sem_calls post wait attempt (SWait # cs) s = run_then (wait s) (sem_calls post wait attempt cs)"
| "sem_calls post wait attempt (STry # cs) s =
     run_then (attempt s) (\<lambda>(b, s). run_then (sem_calls post wait attempt cs s) (\<lambda>(bs, s). Ret (b # bs, s)))"

text \<open>The abstract semaphore: a number of tokens, at most \<open>cap\<close>.\<close>

definition ct_post :: "int \<Rightarrow> int \<Rightarrow> int run" where "ct_post cap n = Ret (min cap (n + 1))"
definition ct_wait :: "int \<Rightarrow> int run" where "ct_wait n = (if n = 0 then Blocks else Ret (n - 1))"
definition ct_try :: "int \<Rightarrow> (bool \<times> int) run" where "ct_try n = Ret (if n = 0 then (False, n) else (True, n - 1))"

abbreviation ct_calls :: "int \<Rightarrow> sem_call list \<Rightarrow> int \<Rightarrow> (bool list \<times> int) run" where
  "ct_calls cap \<equiv> sem_calls (ct_post cap) ct_wait ct_try"

lemmas ct_defs = ct_post_def ct_wait_def ct_try_def

text \<open>The answers of a run, and whether it blocks.\<close>

definition answers :: "('b \<times> 's) run \<Rightarrow> 'b run" where
  "answers r = run_then r (\<lambda>(bs, s). Ret bs)"

lemma answers_simps [simp]: "answers (Ret (bs, s)) = Ret bs" "answers Blocks = Blocks" "answers Undef = Undef"
  by (simp_all add: answers_def)

definition posts :: "sem_call list \<Rightarrow> int" where "posts cs = int (length (filter (\<lambda>c. c = SPost) cs))"

lemma posts_simps [simp]:
  "posts [] = 0" "posts (SPost # cs) = 1 + posts cs" "posts (STry # cs) = posts cs" "posts (SWait # cs) = posts cs"
  by (simp_all add: posts_def)

lemma posts_nonneg [simp]: "0 \<le> posts cs" by (simp add: posts_def)

lemma answers_cons:
  "answers (run_then r (\<lambda>(bs, s). Ret (b # bs, s))) = run_then (answers r) (\<lambda>bs. Ret (b # bs))"
  by (cases r) (auto simp: answers_def)

section \<open>The contract\<close>

text \<open>\<open>has n s\<close>: the semaphore holds \<open>n\<close> tokens. Nothing is said of a post at \<open>cap\<close>.\<close>

locale counting =
  fixes post wait :: "'s \<Rightarrow> 's run" and attempt :: "'s \<Rightarrow> (bool \<times> 's) run"
    and has :: "int \<Rightarrow> 's \<Rightarrow> bool" and cap :: int
  assumes post_adds: "has n s \<Longrightarrow> 0 \<le> n \<Longrightarrow> n < cap \<Longrightarrow> \<exists>s'. post s = Ret s' \<and> has (n + 1) s'"
    and wait_takes: "has n s \<Longrightarrow> 0 < n \<Longrightarrow> n \<le> cap \<Longrightarrow> \<exists>s'. wait s = Ret s' \<and> has (n - 1) s'"
    and wait_blocks: "has 0 s \<Longrightarrow> wait s = Blocks"
    and try_takes: "has n s \<Longrightarrow> 0 < n \<Longrightarrow> n \<le> cap \<Longrightarrow> \<exists>s'. attempt s = Ret (True, s') \<and> has (n - 1) s'"
    and try_fails: "has 0 s \<Longrightarrow> \<exists>s'. attempt s = Ret (False, s') \<and> has 0 s'"
begin

text \<open>Call by call the semaphore and the counter answer the same: as long as the posts leave room, or if
  a post at \<open>cap\<close> changes nothing (\<open>full\<close>).\<close>

lemma calls_agree:
  assumes full: "full \<Longrightarrow> \<forall>s. has cap s \<longrightarrow> (\<exists>s'. post s = Ret s' \<and> has cap s')"
  shows "has n s \<Longrightarrow> 0 \<le> n \<Longrightarrow> n \<le> cap \<Longrightarrow> full \<or> n + posts cs \<le> cap \<Longrightarrow>
    answers (sem_calls post wait attempt cs s) = answers (ct_calls cap cs n)"
proof (induction cs arbitrary: n s)
  case (Cons c cs)
  show ?case
  proof (cases c)
    case SPost
    have "\<exists>s'. post s = Ret s' \<and> has (min cap (n + 1)) s'"
    proof (cases "n < cap")
      case True
      with post_adds [of n s] Cons.prems show ?thesis by simp
    next
      case False
      with Cons.prems SPost posts_nonneg [of cs] have "full" "n = cap" by auto
      with full Cons.prems show ?thesis by auto
    qed
    then obtain s' where "post s = Ret s'" "has (min cap (n + 1)) s'" by blast
    moreover have "full \<or> min cap (n + 1) + posts cs \<le> cap" using Cons.prems SPost by auto
    ultimately show ?thesis using SPost Cons.IH [of "min cap (n + 1)" s'] Cons.prems
      by (auto simp: ct_post_def [of cap n])
  next
    case SWait
    with Cons wait_takes [of n s] wait_blocks [of s] show ?thesis 
      by (cases "n = 0") (auto simp: ct_wait_def [of n] ct_wait_def [of 0])
  next
    case STry
    define n' where "n' = (if n = 0 then n else n - 1)"
    have "\<exists>s'. attempt s = Ret (n \<noteq> 0, s') \<and> has n' s'"
      using try_takes [of n s] try_fails [of s] Cons.prems by (cases "n = 0") (auto simp: n'_def)
    then obtain s' where "attempt s = Ret (n \<noteq> 0, s')" "has n' s'" by blast
    moreover have "ct_try n = Ret (n \<noteq> 0, n')" by (simp add: ct_defs n'_def)
    ultimately show ?thesis
      using STry Cons.IH [of n' s'] Cons.prems by (auto simp: answers_cons n'_def split: if_splits)
  qed
qed simp

lemma calls_count:
  assumes "has n s" "0 \<le> n" "n + posts cs \<le> cap"
  shows "answers (sem_calls post wait attempt cs s) = answers (ct_calls cap cs n)"
  by (rule calls_agree [of False]) (use assms posts_nonneg [of cs] in \<open>auto simp del: posts_nonneg\<close>)

end

text \<open>A post at \<open>cap\<close> is lost.\<close>

locale saturating = counting +
  assumes post_full: "has cap s \<Longrightarrow> \<exists>s'. post s = Ret s' \<and> has cap s'"
begin

lemma calls_saturate:
  "has n s \<Longrightarrow> 0 \<le> n \<Longrightarrow> n \<le> cap \<Longrightarrow>
   answers (sem_calls post wait attempt cs s) = answers (ct_calls cap cs n)"
  by (rule calls_agree [of True]) (use post_full in auto)

end

text \<open>Below its bound the counter's answers do not depend on the bound.\<close>

lemma ct_calls_bound:
  "0 \<le> n \<Longrightarrow> n + posts cs \<le> cap \<Longrightarrow> n + posts cs \<le> cap' \<Longrightarrow> ct_calls cap cs n = ct_calls cap' cs n"
proof (induction cs arbitrary: n)
  case (Cons c cs)
  have "min cap (n + 1) = n + 1 \<and> min cap' (n + 1) = n + 1" if "c = SPost"
    using Cons.prems that posts_nonneg [of cs] by (simp del: posts_nonneg)
  with Cons show ?case
    by (cases c) (auto simp: ct_post_def [of cap n] ct_post_def [of cap' n] ct_wait_def [of n] ct_try_def [of n])
qed simp

section \<open>POSIX and the generic event\<close>

interpretation posix_sem: saturating sema_post sema_wait sema_trywait "\<lambda>n s. s = tokens n" 2147483647
  by unfold_locales (auto simp: sema_defs)

text \<open>One thread alone: no other thread is inside a method, and a wait for a signal never returns.\<close>

definition ev_post_alone :: "osev \<Rightarrow> osev run" where "ev_post_alone s = Ret (snd (ev_signal s))"
definition ev_wait_alone :: "osev \<Rightarrow> osev run" where
  "ev_wait_alone s = (case ev_wait s of None \<Rightarrow> Blocks | Some s' \<Rightarrow> Ret s')"
definition ev_try_alone :: "osev \<Rightarrow> (bool \<times> osev) run" where "ev_try_alone s = Ret (ev_trywait False s)"

interpretation auto_event: saturating ev_post_alone ev_wait_alone ev_try_alone
    "\<lambda>n s. \<not> ev_manual s \<and> n = ind (ev_sig s)" 1
  by unfold_locales
    (auto simp: ev_post_alone_def ev_wait_alone_def ev_try_alone_def ev_signal_def ev_wait_def ev_trywait_def
      split: if_splits)

end
