(* ===== verification/TickTimes.thy ===== *)
theory TickTimes imports PosixTime begin

text \<open>
  Durations and times of the ports that count ticks: \<open>os/ecos/CtrlrFx/Time.h\<close> with
  \<open>src/os/ecos/Time.cpp\<close> (64-bit unsigned ticks of the system clock), \<open>os/vdk/CtrlrFx/Time.h\<close> (32-bit
  unsigned ticks) and \<open>os/Win32/CtrlrFx/Time.h\<close> (64-bit signed), in the configuration without
  floating point. A time or a duration is its number of ticks, within the width of the type. As in
  \<open>PosixTime\<close>, signed arithmetic that leaves its type is \<open>None\<close>, and so is reading a member that has not
  been given a value. The rates of the clocks and what they read are arguments.
\<close>

section \<open>eCos\<close>

text \<open>\<open>num\<close> nanoseconds are \<open>den\<close> ticks.\<close>

record ec_clock =
  ec_dividend :: int
  ec_divisor :: int

definition ec_clock_create :: "(ec_clock \<Rightarrow> ec_clock) \<Rightarrow> int \<Rightarrow> int \<Rightarrow> ec_clock" where
  "ec_clock_create os a b = os \<lparr>ec_dividend = a, ec_divisor = b\<rparr>"
definition ec_clock_ctor2 :: "(ec_clock \<Rightarrow> ec_clock) \<Rightarrow> int \<Rightarrow> int \<Rightarrow> ec_clock" where
  "ec_clock_ctor2 os a b = ec_clock_create os a b"
definition ec_clock_ctor :: "(ec_clock \<Rightarrow> ec_clock) \<Rightarrow> int \<Rightarrow> ec_clock" where
  "ec_clock_ctor os r = ec_clock_create os r 1"

definition ec_scale_ns :: "int \<Rightarrow> int \<Rightarrow> int \<Rightarrow> int option" where
  "ec_scale_ns num den t = (if den = 0 then None else Some (s64 (u64 (t * num) div den)))"
definition ec_scale_ticks :: "int \<Rightarrow> int \<Rightarrow> int \<Rightarrow> int option" where
  "ec_scale_ticks num den ns = do { p \<leftarrow> ck64 (ns * den); if num = 0 then None else Some (u64 (c_div p num)) }"

definition ec_clock_ns :: "ec_clock \<Rightarrow> int \<Rightarrow> int option" where
  "ec_clock_ns c t = ec_scale_ns (ec_dividend c) (ec_divisor c) t"
definition ec_clock_ticks :: "ec_clock \<Rightarrow> int \<Rightarrow> int option" where
  "ec_clock_ticks c ns = ec_scale_ticks (ec_dividend c) (ec_divisor c) ns"

definition ec_sys_now :: "int \<Rightarrow> int" where "ec_sys_now clock = u64 clock"
definition ec_ticks_to_ns :: "int \<Rightarrow> int \<Rightarrow> int \<Rightarrow> int option" where "ec_ticks_to_ns num den t = ec_scale_ns num den t"
definition ec_ns_to_ticks :: "int \<Rightarrow> int \<Rightarrow> int \<Rightarrow> int option" where "ec_ns_to_ticks num den ns = ec_scale_ticks num den ns"

definition ec_tb_ctor :: int where "ec_tb_ctor = 0"
definition ec_tb_ticks :: "int \<Rightarrow> int" where "ec_tb_ticks t = t"
definition ec_tb_ns :: "int \<Rightarrow> int \<Rightarrow> int \<Rightarrow> int option" where "ec_tb_ns num den t = ec_ticks_to_ns num den t"
definition ec_tb_eq :: "int \<Rightarrow> int \<Rightarrow> bool" where "ec_tb_eq a b \<longleftrightarrow> a = b"
definition ec_tb_ne :: "int \<Rightarrow> int \<Rightarrow> bool" where "ec_tb_ne a b \<longleftrightarrow> a \<noteq> b"
definition ec_tb_lt :: "int \<Rightarrow> int \<Rightarrow> bool" where "ec_tb_lt a b \<longleftrightarrow> a < b"
definition ec_tb_le :: "int \<Rightarrow> int \<Rightarrow> bool" where "ec_tb_le a b \<longleftrightarrow> a \<le> b"
definition ec_tb_gt :: "int \<Rightarrow> int \<Rightarrow> bool" where "ec_tb_gt a b \<longleftrightarrow> a > b"
definition ec_tb_ge :: "int \<Rightarrow> int \<Rightarrow> bool" where "ec_tb_ge a b \<longleftrightarrow> a \<ge> b"

text \<open>The products with \<open>ONE_T\<close>, \<open>ONE_M\<close> and \<open>ONE_B\<close> are of the unsigned type \<open>tick_t\<close> and become an
  \<open>nsec_t\<close> when they are passed on.\<close>

definition ec_to_ticks :: "int \<Rightarrow> int \<Rightarrow> int \<Rightarrow> int option" where "ec_to_ticks num den ns = ec_ns_to_ticks num den ns"
definition ec_du_nsec :: "int \<Rightarrow> int \<Rightarrow> int \<Rightarrow> int option" where "ec_du_nsec num den ns = ec_to_ticks num den ns"
definition ec_du_usec :: "int \<Rightarrow> int \<Rightarrow> int \<Rightarrow> int option" where
  "ec_du_usec num den us = ec_to_ticks num den (s64 (u64 (1000 * us)))"
definition ec_du_msec :: "int \<Rightarrow> int \<Rightarrow> int \<Rightarrow> int option" where
  "ec_du_msec num den ms = ec_to_ticks num den (s64 (u64 (1000000 * ms)))"
definition ec_du_sec :: "int \<Rightarrow> int \<Rightarrow> int \<Rightarrow> int option" where
  "ec_du_sec num den s = ec_to_ticks num den (s64 (u64 (1000000000 * s)))"
definition ec_du_int :: "int \<Rightarrow> int \<Rightarrow> int \<Rightarrow> int option" where
  "ec_du_int num den ms = ec_to_ticks num den (s64 (u64 (1000000 * ms)))"
definition ec_du_uint32 :: "int \<Rightarrow> int \<Rightarrow> int \<Rightarrow> int option" where
  "ec_du_uint32 num den ms = ec_to_ticks num den (s64 (u64 (1000000 * ms)))"
definition ec_du_parts :: "int \<Rightarrow> int \<Rightarrow> int \<Rightarrow> int \<Rightarrow> int option" where
  "ec_du_parts num den s ns = ec_to_ticks num den (s64 (u64 (1000000000 * s + ns)))"

text \<open>The initialiser is \<open>TimeBase(ticks_)\<close>, not \<open>TimeBase(ticks)\<close>: the member is read before it has a value.\<close>

definition ec_du_ticks :: "int \<Rightarrow> int option" where "ec_du_ticks ticks = None"
definition ec_du_base :: "int \<Rightarrow> int" where "ec_du_base t = t"

definition ec_to_nsec :: "int \<Rightarrow> int \<Rightarrow> int \<Rightarrow> int option" where "ec_to_nsec num den t = ec_tb_ns num den t"
definition ec_to_usec :: "int \<Rightarrow> int \<Rightarrow> int \<Rightarrow> int option" where
  "ec_to_usec num den t = map_option (\<lambda>ns. s32 (u64 ns div 1000)) (ec_tb_ns num den t)"
definition ec_to_msec :: "int \<Rightarrow> int \<Rightarrow> int \<Rightarrow> int option" where
  "ec_to_msec num den t = map_option (\<lambda>ns. s32 (u64 ns div 1000000)) (ec_tb_ns num den t)"
definition ec_to_sec :: "int \<Rightarrow> int \<Rightarrow> int \<Rightarrow> int option" where
  "ec_to_sec num den t = map_option (\<lambda>ns. s32 (u64 ns div 1000000000)) (ec_tb_ns num den t)"

definition ec_du_add_assign :: "int \<Rightarrow> int \<Rightarrow> int" where "ec_du_add_assign t d = u64 (t + d)"
definition ec_du_sub_assign :: "int \<Rightarrow> int \<Rightarrow> int" where "ec_du_sub_assign t d = u64 (t - d)"

definition ec_tm_now :: "int \<Rightarrow> int" where "ec_tm_now clock = ec_sys_now clock"
definition ec_tm_from_now :: "int \<Rightarrow> int \<Rightarrow> int" where "ec_tm_from_now clock d = u64 (ec_sys_now clock + d)"
definition ec_tm_assign :: "int \<Rightarrow> int" where "ec_tm_assign t = t"
definition ec_tm_add_assign :: "int \<Rightarrow> int \<Rightarrow> int" where "ec_tm_add_assign t d = u64 (t + d)"
definition ec_tm_sub_assign :: "int \<Rightarrow> int \<Rightarrow> int" where "ec_tm_sub_assign t d = u64 (t - d)"
definition ec_tm_add :: "int \<Rightarrow> int \<Rightarrow> int" where "ec_tm_add t d = u64 (t + d)"
definition ec_tm_sub :: "int \<Rightarrow> int \<Rightarrow> int" where "ec_tm_sub t d = u64 (t - d)"
definition ec_tm_diff :: "int \<Rightarrow> int \<Rightarrow> int option" where "ec_tm_diff a b = ec_du_ticks (u64 (a - b))"

section \<open>VDK\<close>

text \<open>\<open>upk\<close> is \<open>USEC_PER_TICK\<close>. The type \<open>long\<close> has 32 bits, like \<open>int\<close>.\<close>

definition USEC_PER_TICK :: int where "USEC_PER_TICK = 100"

definition vk_tb_ctor :: "int \<Rightarrow> int" where "vk_tb_ctor t = t"
definition vk_tb_ticks :: "int \<Rightarrow> int" where "vk_tb_ticks t = t"
definition vk_tb_eq :: "int \<Rightarrow> int \<Rightarrow> bool" where "vk_tb_eq a b \<longleftrightarrow> a = b"
definition vk_tb_ne :: "int \<Rightarrow> int \<Rightarrow> bool" where "vk_tb_ne a b \<longleftrightarrow> a \<noteq> b"
definition vk_tb_lt :: "int \<Rightarrow> int \<Rightarrow> bool" where "vk_tb_lt a b \<longleftrightarrow> a < b"
definition vk_tb_le :: "int \<Rightarrow> int \<Rightarrow> bool" where "vk_tb_le a b \<longleftrightarrow> a \<le> b"
definition vk_tb_gt :: "int \<Rightarrow> int \<Rightarrow> bool" where "vk_tb_gt a b \<longleftrightarrow> a > b"
definition vk_tb_ge :: "int \<Rightarrow> int \<Rightarrow> bool" where "vk_tb_ge a b \<longleftrightarrow> a \<ge> b"

definition vk_du_nsec :: "int \<Rightarrow> int \<Rightarrow> int option" where
  "vk_du_nsec upk ns = (if u32 (upk * 1000) = 0 then None else Some (u32 (c_div ns (u32 (upk * 1000)))))"
definition vk_udiv :: "int \<Rightarrow> int \<Rightarrow> int option" where
  "vk_udiv a b = (if b = 0 then None else Some (u32 a div b))"
definition vk_du_usec :: "int \<Rightarrow> int \<Rightarrow> int option" where "vk_du_usec upk us = vk_udiv us upk"
definition vk_du_msec :: "int \<Rightarrow> int \<Rightarrow> int option" where "vk_du_msec upk ms = do { p \<leftarrow> ck32 (1000 * ms); vk_udiv p upk }"
definition vk_du_msec_t :: "int \<Rightarrow> int \<Rightarrow> int option" where "vk_du_msec_t upk ms = do { p \<leftarrow> ck32 (1000 * ms); vk_udiv p upk }"
definition vk_du_sec :: "int \<Rightarrow> int \<Rightarrow> int option" where "vk_du_sec upk s = do { p \<leftarrow> ck32 (1000000 * s); vk_udiv p upk }"
definition vk_du_parts :: "int \<Rightarrow> int \<Rightarrow> int \<Rightarrow> int option" where
  "vk_du_parts upk s ns = do { p \<leftarrow> ck32 (s * 1000000); us \<leftarrow> ck32 (p + c_div ns 1000); vk_udiv us upk }"
definition vk_du_base :: "int \<Rightarrow> int" where "vk_du_base t = t"

definition vk_to_nsec :: "int \<Rightarrow> int \<Rightarrow> int option" where "vk_to_nsec upk t = do { p \<leftarrow> ck64 (t * upk); ck64 (p * 1000) }"
definition vk_to_usec :: "int \<Rightarrow> int \<Rightarrow> int" where "vk_to_usec upk t = s32 (u32 (s32 t * upk))"
definition vk_to_msec :: "int \<Rightarrow> int \<Rightarrow> int" where "vk_to_msec upk t = s32 (u32 (s32 t * upk) div 1000)"
definition vk_to_sec :: "int \<Rightarrow> int \<Rightarrow> int" where "vk_to_sec upk t = s32 (u32 (s32 t * upk) div 1000000)"

definition vk_du_assign :: "int \<Rightarrow> int" where "vk_du_assign d = d"
definition vk_du_mul_assign :: "int \<Rightarrow> int \<Rightarrow> int" where "vk_du_mul_assign t k = u32 (t * k)"
definition vk_du_div_assign :: "int \<Rightarrow> int \<Rightarrow> int option" where "vk_du_div_assign t k = vk_udiv t (u32 k)"
definition vk_du_add_assign :: "int \<Rightarrow> int \<Rightarrow> int" where "vk_du_add_assign t d = u32 (t + d)"
definition vk_du_sub_assign :: "int \<Rightarrow> int \<Rightarrow> int" where "vk_du_sub_assign t d = u32 (t - d)"
definition vk_du_add :: "int \<Rightarrow> int \<Rightarrow> int" where "vk_du_add a b = u32 (a + b)"
definition vk_du_sub :: "int \<Rightarrow> int \<Rightarrow> int" where "vk_du_sub a b = u32 (a - b)"

definition vk_tm_now :: "int \<Rightarrow> int" where "vk_tm_now uptime = uptime"
definition vk_tm_from_now :: "int \<Rightarrow> int \<Rightarrow> int" where "vk_tm_from_now uptime d = u32 (uptime + d)"
definition vk_tm_assign :: "int \<Rightarrow> int" where "vk_tm_assign t = t"
definition vk_tm_add_assign :: "int \<Rightarrow> int \<Rightarrow> int" where "vk_tm_add_assign t d = u32 (t + d)"
definition vk_tm_sub_assign :: "int \<Rightarrow> int \<Rightarrow> int" where "vk_tm_sub_assign t d = u32 (t - d)"
definition vk_tm_add :: "int \<Rightarrow> int \<Rightarrow> int" where "vk_tm_add t d = u32 (t + d)"
definition vk_tm_add_left :: "int \<Rightarrow> int \<Rightarrow> int" where "vk_tm_add_left d t = vk_tm_add t d"
definition vk_tm_sub :: "int \<Rightarrow> int \<Rightarrow> int" where "vk_tm_sub t d = u32 (t - d)"
definition vk_tm_diff :: "int \<Rightarrow> int \<Rightarrow> int" where "vk_tm_diff a b = u32 (a - b)"

section \<open>Win32\<close>

text \<open>A \<open>Duration\<close> counts nanoseconds; a \<open>Time\<close> holds a \<open>FILETIME\<close>, which counts units of 100 ns.\<close>

definition wn_du_nsec :: "int \<Rightarrow> int" where "wn_du_nsec ns = ns"
definition wn_du_usec :: "int \<Rightarrow> int" where "wn_du_usec us = 1000 * us"
definition wn_du_msec :: "int \<Rightarrow> int" where "wn_du_msec ms = 1000000 * ms"
definition wn_du_sec :: "int \<Rightarrow> int" where "wn_du_sec s = 1000000000 * s"
definition wn_du_uint32 :: "int \<Rightarrow> int" where "wn_du_uint32 ms = 1000000 * ms"
definition wn_du_int :: "int \<Rightarrow> int" where "wn_du_int ms = 1000000 * ms"

text \<open>Again the member initialises itself.\<close>

definition wn_du_ticks :: "int \<Rightarrow> int option" where "wn_du_ticks ticks = None"
definition wn_ticks :: "int \<Rightarrow> int" where "wn_ticks d = d"
definition wn_to_nsec :: "int \<Rightarrow> int" where "wn_to_nsec d = d"
definition wn_to_usec :: "int \<Rightarrow> int" where "wn_to_usec d = s32 (c_div d 1000)"
definition wn_to_msec :: "int \<Rightarrow> int" where "wn_to_msec d = s32 (c_div d 1000000)"

definition wn_tm_ctor :: int where "wn_tm_ctor = 0"
definition wn_tm_now :: "int \<Rightarrow> int" where "wn_tm_now filetime = filetime"
definition wn_tm_from_now :: "int \<Rightarrow> int \<Rightarrow> int option" where "wn_tm_from_now filetime d = ck64 (filetime + d)"
definition wn_tm_assign :: "int \<Rightarrow> int" where "wn_tm_assign t = t"
definition wn_tm_add_assign :: "int \<Rightarrow> int \<Rightarrow> int option" where "wn_tm_add_assign t d = ck64 (t + d)"
definition wn_tm_sub_assign :: "int \<Rightarrow> int \<Rightarrow> int option" where "wn_tm_sub_assign t d = ck64 (t - d)"
definition wn_tm_add :: "int \<Rightarrow> int \<Rightarrow> int option" where "wn_tm_add t d = ck64 (t + d)"
definition wn_tm_sub :: "int \<Rightarrow> int \<Rightarrow> int option" where "wn_tm_sub t d = ck64 (t - d)"
definition wn_tm_diff :: "int \<Rightarrow> int \<Rightarrow> int option" where "wn_tm_diff a b = do { d \<leftarrow> ck64 (a - b); wn_du_ticks d }"

section \<open>Adding and taking back\<close>

fun chain :: "('t \<Rightarrow> 'd \<Rightarrow> 't option) \<Rightarrow> 'd list \<Rightarrow> 't \<Rightarrow> 't option" where
  "chain f [] t = Some t"
| "chain f (d # ds) t = do { u \<leftarrow> f t d; chain f ds u }"

lemma chain_snoc: "chain f (ds @ [d]) t = do { u \<leftarrow> chain f ds t; f u d }"
  by (induction ds arbitrary: t) (auto split: Option.bind_splits)

text \<open>What the ports' times promise: a duration that was added can be subtracted again.\<close>

locale tick_time =
  fixes tadd tsub :: "'t \<Rightarrow> 'd \<Rightarrow> 't option" and okt :: "'t \<Rightarrow> bool" and okd :: "'d \<Rightarrow> bool"
  assumes add_sub: "okt t \<Longrightarrow> okd d \<Longrightarrow> tadd t d = Some u \<Longrightarrow> okt u \<and> tsub u d = Some t"
begin

lemma chain_undo:
  "okt t \<Longrightarrow> list_all okd ds \<Longrightarrow> chain tadd ds t = Some u \<Longrightarrow> okt u \<and> chain tsub (rev ds) u = Some t"
proof (induction ds arbitrary: t)
  case (Cons d ds)
  then obtain v where v: "tadd t d = Some v" "chain tadd ds v = Some u" by (auto simp: bind_eq_Some_conv)
  with add_sub [OF Cons.prems(1) _ v(1)] Cons show ?case by (auto simp: chain_snoc)
qed simp

end

text \<open>The difference of two times is the duration between them.\<close>

locale deadline_time = tick_time tadd tsub okt okd
  for tadd tsub :: "'t \<Rightarrow> 'd \<Rightarrow> 't option" and okt okd +
  fixes tdiff :: "'t \<Rightarrow> 't \<Rightarrow> 'd option"
  assumes add_diff: "okt t \<Longrightarrow> okd d \<Longrightarrow> tadd t d = Some u \<Longrightarrow> tdiff u t = Some d"
begin

text \<open>A deadline one duration ahead of the last one is that duration away from it, however many came before.\<close>

lemma next_deadline:
  "okt t \<Longrightarrow> list_all okd (ds @ [d]) \<Longrightarrow> chain tadd (ds @ [d]) t = Some u \<Longrightarrow>
   \<exists>v. chain tadd ds t = Some v \<and> tdiff u v = Some d"
  using chain_undo [of t ds] by (auto simp: chain_snoc bind_eq_Some_conv intro: add_diff)

end

definition in_u32 :: "int \<Rightarrow> bool" where "in_u32 x \<longleftrightarrow> 0 \<le> x \<and> x < 2 ^ 32"
definition in_u64 :: "int \<Rightarrow> bool" where "in_u64 x \<longleftrightarrow> 0 \<le> x \<and> x < 2 ^ 64"
definition in_s64 :: "int \<Rightarrow> bool" where "in_s64 x \<longleftrightarrow> - (2 ^ 63) \<le> x \<and> x < 2 ^ 63"

lemma wrap_back:
  assumes "0 \<le> (t::int)" "t < m"
  shows "((t + d) mod m - d) mod m = t"
proof -
  have "((t + d) mod m - d) mod m = (t + d - d) mod m" by (rule mod_diff_left_eq)
  with assms show ?thesis by simp
qed

lemma wrap_between:
  assumes "0 \<le> (d::int)" "d < m"
  shows "((t + d) mod m - t) mod m = d"
  using wrap_back [OF assms, of t] by (simp add: add.commute)

interpretation ecos: tick_time "\<lambda>t d. Some (ec_tm_add t d)" "\<lambda>t d. Some (ec_tm_sub t d)" in_u64 in_u64
  by unfold_locales (auto simp: ec_tm_add_def ec_tm_sub_def u64_def in_u64_def wrap_back)

interpretation vdk: deadline_time "\<lambda>t d. Some (vk_tm_add t d)" "\<lambda>t d. Some (vk_tm_sub t d)" in_u32 in_u32
    "\<lambda>a b. Some (vk_tm_diff a b)"
  by unfold_locales
    (auto simp: vk_tm_add_def vk_tm_sub_def vk_tm_diff_def u32_def in_u32_def wrap_back wrap_between)

interpretation win32: tick_time wn_tm_add wn_tm_sub in_s64 in_s64
  by unfold_locales (auto simp: wn_tm_add_def wn_tm_sub_def in_s64_def ck64_def split: if_splits)

section \<open>Properties\<close>

text \<open>on the ports that count ticks, durations added to a time one after the other and subtracted
  again in the opposite order give back the time, also when the counter wraps around in between;
  on Win32, whose ticks are signed, as long as no sum leaves the range of the type.\<close>

theorem tick_times_add_and_subtract:
  assumes "list_all in_u64 ds" and "list_all in_u32 es" and "list_all in_s64 fs"
    and "in_u64 t" and "in_u32 v" and "in_s64 x" and "chain wn_tm_add fs x = Some y"
  shows "(\<exists>u. chain (\<lambda>t d. Some (ec_tm_add t d)) ds t = Some u \<and>
      chain (\<lambda>t d. Some (ec_tm_sub t d)) (rev ds) u = Some t) \<and>
    (\<exists>u. chain (\<lambda>t d. Some (vk_tm_add t d)) es v = Some u \<and>
      chain (\<lambda>t d. Some (vk_tm_sub t d)) (rev es) u = Some v) \<and>
    chain wn_tm_sub (rev fs) y = Some x"
proof -
  have total: "\<exists>u. chain (\<lambda>t d. Some (f t d)) ds t = Some u" for f :: "int \<Rightarrow> int \<Rightarrow> int" and ds t
    by (induction ds arbitrary: t) auto
  show ?thesis
    using total [of ec_tm_add ds t] total [of vk_tm_add es v] ecos.chain_undo [OF assms(4,1)]
      vdk.chain_undo [OF assms(5,2)] win32.chain_undo [OF assms(6,3,7)] by blast
qed

theorem tick_times_add_and_subtract_witness:
  "\<exists>u. chain (\<lambda>t d. Some (vk_tm_add t d)) [4294967295, 7] 5 = Some u \<and>
     chain (\<lambda>t d. Some (vk_tm_sub t d)) [7, 4294967295] u = Some 5"
  using tick_times_add_and_subtract [of "[]" "[4294967295, 7]" "[]" 0 5 0 0]
  by (simp add: in_u64_def in_u32_def in_s64_def)

text \<open>on VDK the difference of a deadline and the one before it is the duration that was added, also
  across a wrap of the counter.\<close>

theorem vdk_deadlines_keep_their_distance:
  assumes "in_u32 t" and "list_all in_u32 (ds @ [d])"
    and "chain (\<lambda>t d. Some (vk_tm_add t d)) (ds @ [d]) t = Some u"
  shows "\<exists>v. chain (\<lambda>t d. Some (vk_tm_add t d)) ds t = Some v \<and> vk_tm_diff u v = d"
  using vdk.next_deadline [OF assms] by simp

theorem vdk_deadlines_keep_their_distance_witness:
  "\<exists>v. chain (\<lambda>t d. Some (vk_tm_add t d)) [10] 4294967290 = Some v \<and> vk_tm_diff 14 v = 10"
  using vdk_deadlines_keep_their_distance [of 4294967290 "[10]" 10 14]
  by (simp add: in_u32_def vk_tm_add_def u32_def)

text \<open>on eCos a duration given in nanoseconds is rounded down to whole ticks: read back it is at most
  what was given, and less than a tick and a nanosecond short of it.\<close>

theorem ecos_durations_round_down:
  assumes "0 < num" and "0 < den" and "0 \<le> ns" and "ns * den < 2 ^ 63" and "ec_du_nsec num den ns = Some t"
  shows "\<exists>ns'. ec_to_nsec num den t = Some ns' \<and> ns' \<le> ns \<and> (ns - ns') * den < num + den"
proof -
  let ?p = "ns * den"
  have p: "0 \<le> ?p" using assms by simp
  have t: "t = u64 (c_div ?p num)"
    using assms by (auto simp: ec_du_nsec_def ec_to_ticks_def ec_ns_to_ticks_def ec_scale_ticks_def bind_eq_Some_conv)
  define q where "q = ?p div num"
  have q: "0 \<le> q" "q * num \<le> ?p" "q \<le> ?p" using div_le_self [OF p assms(1)] by (auto simp: q_def)
  have q2: "?p < q * num + num"
    unfolding q_def using div_mult_mod_eq [of ?p num] pos_mod_bound [OF assms(1), of ?p] by linarith
  have tq: "t = q" using t q assms p by (simp add: q_def)
  define r where "r = q * num div den"
  have qn: "0 \<le> q * num" using q assms by simp
  have r: "0 \<le> r" "r * den \<le> q * num" "r \<le> q * num" using div_le_self [OF qn assms(2)] by (auto simp: r_def)
  have r2: "q * num < r * den + den"
    unfolding r_def using div_mult_mod_eq [of "q * num" den] pos_mod_bound [OF assms(2), of "q * num"] by linarith
  have "ec_to_nsec num den t = Some r"
    using assms q r tq by (simp add: ec_to_nsec_def ec_tb_ns_def ec_ticks_to_ns_def ec_scale_ns_def r_def)
  moreover have "r * den \<le> ns * den" using r q by linarith
  then have "r \<le> ns" using assms(2) by simp
  moreover have "(ns - r) * den < num + den" using q2 r2 by (simp add: left_diff_distrib)
  ultimately show ?thesis by blast
qed

theorem ecos_durations_round_down_witness:
  "\<exists>ns'. ec_to_nsec 1000000000 100 1 = Some ns' \<and> ns' \<le> 12345678 \<and> (12345678 - ns') * 100 < 1000000100"
  using ecos_durations_round_down [of 1000000000 100 12345678 1]
  by (simp add: ec_du_nsec_def ec_to_ticks_def ec_ns_to_ticks_def ec_scale_ticks_def ck64_def)

text \<open>on VDK a duration of more than 2147 seconds overflows, although the ticks could hold some five
  days at the default rate.\<close>

theorem vdk_seconds_overflow:
  assumes "2147 < s" and "s < 429497"
  shows "vk_du_sec USEC_PER_TICK s = None \<and> in_u32 (s * 1000000 div USEC_PER_TICK)"
  using assms by (auto simp: vk_du_sec_def ck32_def in_u32_def USEC_PER_TICK_def)

theorem vdk_seconds_overflow_witness: "vk_du_sec USEC_PER_TICK 3600 = None"
  using vdk_seconds_overflow [of 3600] by simp

end
