(* ===== verification/VdkSync.thy ===== *)
theory VdkSync imports SyncContracts TickTimes begin

text \<open>
  The port to VDK: \<open>os/vdk/CtrlrFx/Semaphore.h\<close>, \<open>Mutex.h\<close> and \<open>OSEvent.h\<close>. The kernel keeps a
  table of counting semaphores, some of which it posts periodically, and the objects of the library
  are numbers of entries. A call with the number of no semaphore is an error of the kernel (\<open>Undef\<close>),
  and so is a wait that times out without the flag \<open>kNoTimeoutError\<close>. One thread makes the calls.
\<close>

section \<open>The kernel's semaphores\<close>

record ksem =
  ks_cnt :: int
  ks_max :: int
  ks_periodic :: "(int \<times> int) option"

type_synonym ksems = "int \<Rightarrow> ksem option"

definition VDK_INVALID :: int where "VDK_INVALID = 4294967295"
definition VDK_DFLT_MAX :: int where "VDK_DFLT_MAX = 4294967294"

text \<open>\<open>CreateSemaphore\<close> returns \<open>i\<close>: a number that is free, or \<open>VDK_INVALID\<close> when it fails. The
  period 0 makes a semaphore that is not periodic.\<close>

definition ks_create :: "int \<Rightarrow> int \<Rightarrow> int \<Rightarrow> int \<Rightarrow> int \<Rightarrow> ksems \<Rightarrow> ksems" where
  "ks_create i cnt mx delay period k =
     (if i = VDK_INVALID then k
      else k(i \<mapsto> \<lparr>ks_cnt = u32 cnt, ks_max = u32 mx, ks_periodic = (if period = 0 then None else Some (delay, period))\<rparr>))"
definition ks_fresh :: "int \<Rightarrow> ksems \<Rightarrow> bool" where "ks_fresh i k \<longleftrightarrow> i = VDK_INVALID \<or> k i = None"

definition ks_destroy :: "int \<Rightarrow> ksems \<Rightarrow> ksems run" where
  "ks_destroy i k = (if k i = None then Undef else Ret (k(i := None)))"
definition ks_pend :: "int \<Rightarrow> int \<Rightarrow> bool \<Rightarrow> ksems \<Rightarrow> (bool \<times> ksems) run" where
  "ks_pend i ticks noerr k =
     (case k i of
        None \<Rightarrow> Undef
      | Some s \<Rightarrow> if 0 < ks_cnt s then Ret (True, k(i \<mapsto> s\<lparr>ks_cnt := ks_cnt s - 1\<rparr>))
          else if ticks = 0 then Blocks else if noerr then Ret (False, k) else Undef)"
definition ks_post :: "int \<Rightarrow> ksems \<Rightarrow> ksems run" where
  "ks_post i k =
     (case k i of
        None \<Rightarrow> Undef
      | Some s \<Rightarrow> Ret (if ks_cnt s < ks_max s then k(i \<mapsto> s\<lparr>ks_cnt := ks_cnt s + 1\<rparr>) else k))"
definition ks_value :: "int \<Rightarrow> ksems \<Rightarrow> int run" where
  "ks_value i k = (case k i of None \<Rightarrow> Undef | Some s \<Rightarrow> Ret (ks_cnt s))"
definition ks_set_periodic :: "int \<Rightarrow> (int \<times> int) option \<Rightarrow> ksems \<Rightarrow> ksems run" where
  "ks_set_periodic i p k = (case k i of None \<Rightarrow> Undef | Some s \<Rightarrow> Ret (k(i \<mapsto> s\<lparr>ks_periodic := p\<rparr>)))"

section \<open>Semaphore\<close>

text \<open>An object and the kernel: the member \<open>id_\<close> and the table.\<close>

type_synonym vsema = "int \<times> ksems"

definition vs_ctor :: "int \<Rightarrow> ksems \<Rightarrow> vsema" where "vs_ctor i k = (i, ks_create i 0 VDK_DFLT_MAX 0 0 k)"
definition vs_ctor_cnt :: "int \<Rightarrow> int \<Rightarrow> ksems \<Rightarrow> vsema" where
  "vs_ctor_cnt i cnt k = (i, ks_create i cnt VDK_DFLT_MAX 0 0 k)"
definition vs_ctor_id :: "int \<Rightarrow> ksems \<Rightarrow> vsema" where "vs_ctor_id i k = (i, k)"
definition vs_ctor_max :: "int \<Rightarrow> int \<Rightarrow> int \<Rightarrow> ksems \<Rightarrow> vsema" where
  "vs_ctor_max i cnt mx k = (i, ks_create i cnt mx 0 0 k)"

definition vs_is_valid :: "vsema \<Rightarrow> bool" where "vs_is_valid s \<longleftrightarrow> fst s \<noteq> VDK_INVALID"
definition vs_error :: "vsema \<Rightarrow> int" where "vs_error s = (if vs_is_valid s then 0 else -1)"

definition vs_destroy :: "vsema \<Rightarrow> vsema run" where
  "vs_destroy s =
     (if fst s \<noteq> VDK_INVALID then run_then (ks_destroy (fst s) (snd s)) (\<lambda>k. Ret (VDK_INVALID, k)) else Ret s)"
definition vs_dtor :: "vsema \<Rightarrow> vsema run" where "vs_dtor s = vs_destroy s"
definition vs_create :: "int \<Rightarrow> int \<Rightarrow> int \<Rightarrow> vsema \<Rightarrow> vsema run" where
  "vs_create i cnt mx s = run_then (vs_destroy s) (\<lambda>s. Ret (i, ks_create i cnt mx 0 0 (snd s)))"

definition vs_wait :: "vsema \<Rightarrow> vsema run" where
  "vs_wait s = run_then (ks_pend (fst s) 0 False (snd s)) (\<lambda>(b, k). Ret (fst s, k))"

text \<open>A limit of no ticks would be no limit.\<close>

definition vs_wait_for :: "int \<Rightarrow> vsema \<Rightarrow> (bool \<times> vsema) run" where
  "vs_wait_for d s =
     (let ticks = vk_tb_ticks d; ticks = (if ticks = 0 then ticks + 1 else ticks)
      in run_then (ks_pend (fst s) ticks True (snd s)) (\<lambda>(b, k). Ret (b, fst s, k)))"
definition vs_trywait :: "vsema \<Rightarrow> (bool \<times> vsema) run" where
  "vs_trywait s = run_then (ks_value (fst s) (snd s)) (\<lambda>n.
     if n \<noteq> 0 then run_then (ks_pend (fst s) 1 True (snd s)) (\<lambda>(b, k). Ret (b, fst s, k)) else Ret (False, s))"
definition vs_post :: "vsema \<Rightarrow> vsema run" where
  "vs_post s = run_then (ks_post (fst s) (snd s)) (\<lambda>k. Ret (fst s, k))"

definition vs_acquire :: "vsema \<Rightarrow> vsema run" where "vs_acquire s = vs_wait s"
definition vs_acquire_for :: "int \<Rightarrow> vsema \<Rightarrow> (bool \<times> vsema) run" where "vs_acquire_for d s = vs_wait_for d s"
definition vs_tryacquire :: "vsema \<Rightarrow> (bool \<times> vsema) run" where "vs_tryacquire s = vs_trywait s"
definition vs_release :: "vsema \<Rightarrow> vsema run" where "vs_release s = vs_post s"

text \<open>Binary semaphores have at most one token.\<close>

definition vb_ctor :: "int \<Rightarrow> ksems \<Rightarrow> vsema" where "vb_ctor i k = vs_ctor_max i 0 1 k"
definition vb_ctor_init :: "int \<Rightarrow> bool \<Rightarrow> ksems \<Rightarrow> vsema" where
  "vb_ctor_init i ini k = vs_ctor_max i (if ini then 1 else 0) 1 k"

definition vs_has :: "int \<Rightarrow> int \<Rightarrow> vsema \<Rightarrow> bool" where
  "vs_has mx n s \<longleftrightarrow> (case snd s (fst s) of None \<Rightarrow> False | Some ks \<Rightarrow> ks_cnt ks = n \<and> ks_max ks = mx)"

lemmas vs_defs = vs_wait_def vs_trywait_def vs_post_def vs_has_def ks_pend_def ks_post_def ks_value_def

definition vs_set :: "int \<Rightarrow> vsema \<Rightarrow> vsema" where
  "vs_set n s = (fst s, (snd s)(fst s \<mapsto> (the (snd s (fst s)))\<lparr>ks_cnt := n\<rparr>))"

lemma vs_has_set [simp]: "vs_has mx n s \<Longrightarrow> vs_has mx m (vs_set m s)"
  by (auto simp: vs_has_def vs_set_def split: option.splits)

lemma vs_set_back [simp]: "vs_has mx n s \<Longrightarrow> vs_set n (vs_set m s) = s"
  by (cases s) (auto simp: vs_has_def vs_set_def split: option.splits)

lemma vs_ops:
  "vs_has mx n s \<Longrightarrow> n < mx \<Longrightarrow> vs_post s = Ret (vs_set (n + 1) s)"
  "vs_has mx mx s \<Longrightarrow> vs_post s = Ret s"
  "vs_has mx n s \<Longrightarrow> 0 < n \<Longrightarrow> vs_wait s = Ret (vs_set (n - 1) s)"
  "vs_has mx 0 s \<Longrightarrow> vs_wait s = Blocks"
  "vs_has mx n s \<Longrightarrow> 0 < n \<Longrightarrow> vs_trywait s = Ret (True, vs_set (n - 1) s)"
  "vs_has mx 0 s \<Longrightarrow> vs_trywait s = Ret (False, s)"
  by (cases s; auto simp: vs_defs vs_set_def split: option.splits)+

interpretation vdk_sem: saturating vs_post vs_wait vs_trywait "vs_has mx" mx
  by unfold_locales (simp_all add: vs_ops)

text \<open>A wait with a limit does not block, and answers like one that does not wait.\<close>

lemma vs_wait_for_try: "vs_has mx n s \<Longrightarrow> 0 \<le> n \<Longrightarrow> vs_wait_for d s = vs_trywait s"
  by (cases s) (auto simp: vs_defs vs_wait_for_def Let_def split: option.splits)

section \<open>Objects give back what they take\<close>

datatype vs_call = VsCreate int int int | VsDestroy | VsPost | VsWait | VsTry | VsWaitFor int

fun vs_do :: "vs_call \<Rightarrow> vsema \<Rightarrow> vsema run" where
  "vs_do (VsCreate i cnt mx) s = vs_create i cnt mx s"
| "vs_do VsDestroy s = vs_destroy s"
| "vs_do VsPost s = vs_post s"
| "vs_do VsWait s = vs_wait s"
| "vs_do VsTry s = run_then (vs_trywait s) (\<lambda>(b, s). Ret s)"
| "vs_do (VsWaitFor d) s = run_then (vs_wait_for d s) (\<lambda>(b, s). Ret s)"

text \<open>The calls on one object; semaphores are created with numbers the kernel has free then.\<close>

fun vs_life :: "vs_call list \<Rightarrow> vsema \<Rightarrow> vsema run" where
  "vs_life [] s = vs_dtor s"
| "vs_life (c # cs) s = run_then (vs_do c s) (vs_life cs)"

fun vs_fresh :: "vs_call list \<Rightarrow> ksems \<Rightarrow> bool" where
  "vs_fresh [] k = True"
| "vs_fresh (VsCreate i cnt mx # cs) k = (ks_fresh i k \<and> vs_fresh cs k)"
| "vs_fresh (c # cs) k = vs_fresh cs k"

text \<open>The object has one entry of its own, or none; the others are those there were before.\<close>

definition vs_owns :: "ksems \<Rightarrow> vsema \<Rightarrow> bool" where
  "vs_owns k0 s \<longleftrightarrow> ks_fresh (fst s) k0 \<and> (snd s)(fst s := k0 (fst s)) = k0 \<and>
     k0 VDK_INVALID = None \<and> (fst s = VDK_INVALID \<longrightarrow> snd s = k0) \<and> (fst s \<noteq> VDK_INVALID \<longrightarrow> snd s (fst s) \<noteq> None)"

lemma vs_owns_cases:
  assumes "vs_owns k0 s"
  obtains "s = (VDK_INVALID, k0)" "k0 VDK_INVALID = None"
  | i ks where "s = (i, k0(i \<mapsto> ks))" "i \<noteq> VDK_INVALID" "k0 i = None" "k0 VDK_INVALID = None"
proof (cases "fst s = VDK_INVALID")
  case True
  then show ?thesis using assms that(1) by (cases s) (auto simp: vs_owns_def)
next
  case False
  then obtain ks where ks: "snd s (fst s) = Some ks" "k0 (fst s) = None" "(snd s)(fst s := None) = k0" "k0 VDK_INVALID = None"
    using assms by (auto simp: vs_owns_def ks_fresh_def)
  then have "snd s = k0(fst s \<mapsto> ks)" by (metis fun_upd_triv fun_upd_upd)
  then show ?thesis using that(2) [of "fst s" ks] False ks(2,4) by (cases s) auto
qed

lemma vs_owns_intros:
  "k0 VDK_INVALID = None \<Longrightarrow> vs_owns k0 (VDK_INVALID, k0)"
  "k0 VDK_INVALID = None \<Longrightarrow> i \<noteq> VDK_INVALID \<Longrightarrow> k0 i = None \<Longrightarrow> vs_owns k0 (i, k0(i \<mapsto> ks))"
  by (auto simp: vs_owns_def ks_fresh_def fun_eq_iff)

lemma vs_destroy_owned: "vs_owns k0 s \<Longrightarrow> vs_destroy s = Ret (VDK_INVALID, k0)"
  by (erule vs_owns_cases) (auto simp: vs_destroy_def ks_destroy_def fun_upd_idem)

lemma vs_create_owned: "vs_owns k0 s \<Longrightarrow> ks_fresh i k0 \<Longrightarrow> \<exists>s'. vs_create i cnt mx s = Ret s' \<and> vs_owns k0 s'"
  by (erule vs_owns_cases)
    (auto simp: vs_create_def vs_destroy_def ks_destroy_def ks_create_def ks_fresh_def fun_upd_idem intro: vs_owns_intros)

lemmas vs_owned_simps = vs_defs vs_wait_for_def run_then_Ret_iff Let_def

lemma vs_do_owned:
  assumes "vs_owns k0 s" and "vs_do c s = Ret s'" and "\<And>i cnt mx. c = VsCreate i cnt mx \<Longrightarrow> ks_fresh i k0"
  shows "vs_owns k0 s'"
proof (cases c)
  case (VsCreate i cnt mx)
  with assms vs_create_owned [of k0 s i cnt mx] show ?thesis by auto
next
  case VsDestroy
  with vs_destroy_owned [OF assms(1)] assms(2) have "s' = (VDK_INVALID, k0)" by simp
  moreover have "k0 VDK_INVALID = None" using assms(1) by (simp add: vs_owns_def)
  ultimately show ?thesis by (auto intro: vs_owns_intros)
next
  case VsPost
  with assms(1,2) show ?thesis
    by (elim vs_owns_cases) (auto simp: vs_owned_simps intro: vs_owns_intros split: if_splits)
next
  case VsWait
  with assms(1,2) show ?thesis
    by (elim vs_owns_cases) (auto simp: vs_owned_simps intro: vs_owns_intros split: if_splits)
next
  case VsTry
  with assms(1,2) show ?thesis
    by (elim vs_owns_cases) (auto simp: vs_owned_simps intro: vs_owns_intros split: if_splits)
next
  case (VsWaitFor d)
  with assms(1,2) show ?thesis
    by (elim vs_owns_cases) (auto simp: vs_owned_simps intro: vs_owns_intros split: if_splits)
qed

lemma vs_life_owned: "vs_owns k0 s \<Longrightarrow> vs_fresh cs k0 \<Longrightarrow> vs_life cs s = Ret s' \<Longrightarrow> s' = (VDK_INVALID, k0)"
proof (induction cs arbitrary: s)
  case Nil
  then show ?case by (simp add: vs_dtor_def vs_destroy_owned)
next
  case (Cons c cs)
  then obtain u where "vs_do c s = Ret u" "vs_life cs u = Ret s'" by (auto simp: run_then_Ret_iff)
  moreover have "\<And>i cnt mx. c = VsCreate i cnt mx \<Longrightarrow> ks_fresh i k0" "vs_fresh cs k0"
    using Cons.prems(2) by (cases c; simp)+
  ultimately show ?case using Cons.IH [of u] vs_do_owned [OF Cons.prems(1)] by blast
qed

section \<open>PeriodicSemaphore\<close>

record vperiodic =
  vp_sem :: vsema
  vp_delay :: int
  vp_period :: int

definition vp_ctor :: "int \<Rightarrow> ksems \<Rightarrow> vperiodic" where
  "vp_ctor i k = \<lparr>vp_sem = (i, ks_create i 0 VDK_DFLT_MAX 0 0 k), vp_delay = 0, vp_period = 0\<rparr>"
definition vp_ctor_period :: "int \<Rightarrow> int \<Rightarrow> ksems \<Rightarrow> vperiodic" where
  "vp_ctor_period i period k =
     \<lparr>vp_sem = (i, ks_create i 0 VDK_DFLT_MAX (vk_tb_ticks period) (vk_tb_ticks period) k),
      vp_delay = vk_tb_ticks period, vp_period = vk_tb_ticks period\<rparr>"
definition vp_ctor_delay :: "int \<Rightarrow> int \<Rightarrow> int \<Rightarrow> ksems \<Rightarrow> vperiodic" where
  "vp_ctor_delay i delay period k =
     \<lparr>vp_sem = (i, ks_create i 0 VDK_DFLT_MAX (vk_tb_ticks delay) (vk_tb_ticks period) k),
      vp_delay = vk_tb_ticks period, vp_period = vk_tb_ticks period\<rparr>"
definition vp_ctor_max :: "int \<Rightarrow> int \<Rightarrow> int \<Rightarrow> int \<Rightarrow> int \<Rightarrow> ksems \<Rightarrow> vperiodic" where
  "vp_ctor_max i cnt mx delay period k =
     \<lparr>vp_sem = (i, ks_create i cnt mx (vk_tb_ticks delay) (vk_tb_ticks period) k),
      vp_delay = vk_tb_ticks period, vp_period = vk_tb_ticks period\<rparr>"

definition vp_program :: "int \<Rightarrow> int \<Rightarrow> vperiodic \<Rightarrow> vperiodic run" where
  "vp_program delay period p =
     run_then (ks_set_periodic (fst (vp_sem p)) (Some (delay, period)) (snd (vp_sem p))) (\<lambda>k.
       Ret (p\<lparr>vp_sem := (fst (vp_sem p), k)\<rparr>))"
definition vp_enable :: "vperiodic \<Rightarrow> vperiodic run" where
  "vp_enable p =
     (if vp_delay p \<noteq> 0 \<and> vp_period p \<noteq> 0 then vp_program (vp_delay p) (vp_period p) p else Ret p)"
definition vp_enable_delay :: "int \<Rightarrow> int \<Rightarrow> vperiodic \<Rightarrow> vperiodic run" where
  "vp_enable_delay delay period p =
     (let p = p\<lparr>vp_delay := vk_tb_ticks delay, vp_period := vk_tb_ticks period\<rparr>
      in vp_program (vp_delay p) (vp_period p) p)"
definition vp_enable_period :: "int \<Rightarrow> vperiodic \<Rightarrow> vperiodic run" where
  "vp_enable_period period p = vp_enable_delay period period p"
definition vp_disable :: "vperiodic \<Rightarrow> vperiodic run" where
  "vp_disable p =
     run_then (ks_set_periodic (fst (vp_sem p)) None (snd (vp_sem p))) (\<lambda>k. Ret (p\<lparr>vp_sem := (fst (vp_sem p), k)\<rparr>))"

section \<open>Mutex\<close>

text \<open>A semaphore of one token, which any thread may put back.\<close>

definition vm_ctor :: "int \<Rightarrow> ksems \<Rightarrow> vsema" where "vm_ctor i k = (i, ks_create i 1 1 0 0 k)"
definition vm_dtor :: "vsema \<Rightarrow> ksems run" where "vm_dtor m = ks_destroy (fst m) (snd m)"
definition vm_is_valid :: "vsema \<Rightarrow> bool" where "vm_is_valid m \<longleftrightarrow> fst m \<noteq> 4294967295"
definition vm_error :: "vsema \<Rightarrow> int" where "vm_error m = (if vm_is_valid m then 0 else -1)"
definition vm_lock :: "vsema \<Rightarrow> vsema run" where
  "vm_lock m = run_then (ks_pend (fst m) 0 False (snd m)) (\<lambda>(b, k). Ret (fst m, k))"
definition vm_trylock :: "vsema \<Rightarrow> (bool \<times> vsema) run" where
  "vm_trylock m = run_then (ks_pend (fst m) 1 True (snd m)) (\<lambda>(b, k). Ret (b, fst m, k))"
definition vm_unlock :: "vsema \<Rightarrow> vsema run" where
  "vm_unlock m = run_then (ks_post (fst m) (snd m)) (\<lambda>k. Ret (fst m, k))"
definition vm_acquire :: "vsema \<Rightarrow> vsema run" where "vm_acquire m = vm_lock m"
definition vm_tryacquire :: "vsema \<Rightarrow> (bool \<times> vsema) run" where "vm_tryacquire m = vm_trylock m"
definition vm_release :: "vsema \<Rightarrow> vsema run" where "vm_release m = vm_unlock m"

lemma vm_simps:
  "vm_acquire m = vs_wait m" "vm_release m = vs_post m"
  "vs_has 1 1 m \<Longrightarrow> vs_wait m = Ret (vs_set 0 m)" "vs_has 1 0 m \<Longrightarrow> vs_post m = Ret (vs_set 1 m)"
  using vs_ops(3) [of 1 1 m] vs_ops(1) [of 1 0 m]
  by (simp_all add: vm_acquire_def vm_release_def vm_lock_def vm_unlock_def vs_wait_def vs_post_def)

interpretation vdk_mutex: lockable vm_acquire vm_release "vs_has 1 1" "vs_has 1 0"
proof unfold_locales
  fix m :: vsema
  show "vs_has 1 1 m \<Longrightarrow> \<exists>m'. vm_acquire m = Ret m' \<and> vs_has 1 0 m' \<and> vm_release m' = Ret m"
    by (rule exI [of _ "vs_set 0 m"]) (auto simp: vm_simps)
  show "vs_has 1 0 m \<Longrightarrow> \<exists>m'. vm_release m = Ret m' \<and> vs_has 1 1 m' \<and> vm_acquire m' = Ret m"
    by (rule exI [of _ "vs_set 1 m"]) (auto simp: vm_simps)
qed

section \<open>Events\<close>

definition va_ctor :: "int \<Rightarrow> ksems \<Rightarrow> vsema" where "va_ctor i k = vb_ctor i k"
definition va_signal :: "vsema \<Rightarrow> vsema run" where "va_signal e = vs_post e"
definition va_reset :: "vsema \<Rightarrow> vsema run" where "va_reset e = run_then (vs_trywait e) (\<lambda>(b, e). Ret e)"

interpretation vdk_event: saturating va_signal vs_wait vs_trywait "vs_has 1" 1
  by unfold_locales (simp_all add: va_signal_def vs_ops)

definition vpe_ctor :: "int \<Rightarrow> int \<Rightarrow> ksems \<Rightarrow> vperiodic" where "vpe_ctor i period k = vp_ctor_max i 0 1 period period k"
definition vpe_ctor_delay :: "int \<Rightarrow> int \<Rightarrow> int \<Rightarrow> ksems \<Rightarrow> vperiodic" where
  "vpe_ctor_delay i delay period k = vp_ctor_max i 0 1 delay period k"
definition vpe_signal :: "vperiodic \<Rightarrow> vperiodic run" where
  "vpe_signal e = run_then (vs_post (vp_sem e)) (\<lambda>s. Ret (e\<lparr>vp_sem := s\<rparr>))"
definition vpe_reset :: "vperiodic \<Rightarrow> vperiodic run" where
  "vpe_reset e = run_then (vs_trywait (vp_sem e)) (\<lambda>(b, s). Ret (e\<lparr>vp_sem := s\<rparr>))"

section \<open>Properties\<close>

text \<open>whatever is called on a VDK semaphore, and however often it is created again or destroyed in
  between, when the object is gone the kernel's table is as it was before the object was constructed.\<close>

theorem vdk_semaphores_are_given_back:
  assumes "k VDK_INVALID = None" and "ks_fresh i k" and "vs_fresh cs k" and "vs_life cs (vs_ctor_max i cnt mx k) = Ret s"
  shows "s = (VDK_INVALID, k)"
proof -
  have "vs_owns k (vs_ctor_max i cnt mx k)"
    using assms(1,2) by (auto simp: vs_ctor_max_def ks_create_def ks_fresh_def intro: vs_owns_intros)
  from vs_life_owned [OF this assms(3,4)] show ?thesis .
qed

theorem vdk_semaphores_are_given_back_witness:
  "vs_life [VsPost, VsWait, VsCreate 5 1 1, VsTry, VsDestroy, VsCreate 3 2 9] (vs_ctor_max 3 0 2 Map.empty) = Ret (VDK_INVALID, Map.empty)"
proof -
  let ?l = "vs_life [VsPost, VsWait, VsCreate 5 1 1, VsTry, VsDestroy, VsCreate 3 2 9] (vs_ctor_max 3 0 2 Map.empty)"
  have "\<exists>s. ?l = Ret s"
    by (simp add: vs_ctor_max_def ks_create_def vs_create_def vs_destroy_def vs_dtor_def ks_destroy_def vs_defs
        VDK_INVALID_def)
  then obtain s where "?l = Ret s" by blast
  moreover from vdk_semaphores_are_given_back [OF _ _ _ this] have "s = (VDK_INVALID, Map.empty)"
    by (simp add: ks_fresh_def)
  ultimately show ?thesis by simp
qed

text \<open>a periodic semaphore constructed with an initial delay other than its period does not have
  the delay when it is disabled and enabled again: \<open>delay_\<close> is given the period.\<close>

theorem periodic_semaphore_forgets_delay:
  assumes "i \<noteq> VDK_INVALID" and "period \<noteq> 0"
  shows "run_then (vp_disable (vp_ctor_delay i delay period k)) (\<lambda>p. run_then (vp_enable p) (\<lambda>p.
      Ret (map_option ks_periodic (snd (vp_sem p) i)))) = Ret (Some (Some (period, period)))"
  using assms by (simp add: vp_disable_def vp_enable_def vp_program_def vp_ctor_delay_def ks_set_periodic_def
      ks_create_def vk_tb_ticks_def)

theorem periodic_semaphore_forgets_delay_witness:
  "run_then (vp_disable (vp_ctor_delay 4 500 10 Map.empty)) (\<lambda>p. run_then (vp_enable p) (\<lambda>p.
      Ret (map_option ks_periodic (snd (vp_sem p) 4)))) = Ret (Some (Some (10, 10)))"
  using periodic_semaphore_forgets_delay [of 4 10 500 Map.empty] by (simp add: VDK_INVALID_def)

end
