(* ===== verification/EcosSync.thy ===== *)
theory EcosSync imports SyncContracts TickTimes begin

text \<open>
  The port to eCos: \<open>os/ecos/CtrlrFx/Semaphore.h\<close> with \<open>src/os/ecos/Semaphore.cpp\<close>, \<open>Mutex.h\<close> and
  \<open>ConditionVar.h\<close>. The kernel's objects are members of the library's: a counting semaphore is its
  count, a binary one whether it is posted, a mutex its holder. Using an object that was destroyed,
  locking a mutex one holds, unlocking one that one does not hold, and a count of more than 31 bits are
  left undefined by the kernel. Threads are numbered.
\<close>

section \<open>Semaphore\<close>

record esema =
  es_cnt :: int
  es_alive :: bool

definition es_init :: "int \<Rightarrow> esema run" where
  "es_init cnt = (if u32 cnt \<le> 2147483647 then Ret \<lparr>es_cnt = u32 cnt, es_alive = True\<rparr> else Undef)"

definition es_ctor :: "esema run" where "es_ctor = es_init 0"
definition es_ctor_cnt :: "int \<Rightarrow> esema run" where "es_ctor_cnt cnt = es_init cnt"
definition es_dtor :: "esema \<Rightarrow> esema run" where
  "es_dtor s = (if es_alive s then Ret (s\<lparr>es_alive := False\<rparr>) else Undef)"
definition es_create :: "int \<Rightarrow> esema \<Rightarrow> esema run" where
  "es_create cnt s = run_then (es_dtor s) (\<lambda>s. es_init cnt)"

definition es_is_valid :: "esema \<Rightarrow> bool" where "es_is_valid s = True"
definition es_error :: "esema \<Rightarrow> int" where "es_error s = 0"

definition es_wait :: "esema \<Rightarrow> esema run" where
  "es_wait s =
     (if \<not> es_alive s then Undef else if 0 < es_cnt s then Ret (s\<lparr>es_cnt := es_cnt s - 1\<rparr>) else Blocks)"
definition es_trywait :: "esema \<Rightarrow> (bool \<times> esema) run" where
  "es_trywait s =
     (if \<not> es_alive s then Undef
      else if 0 < es_cnt s then Ret (True, s\<lparr>es_cnt := es_cnt s - 1\<rparr>) else Ret (False, s))"
definition es_post :: "esema \<Rightarrow> esema run" where
  "es_post s =
     (if es_alive s \<and> es_cnt s < 2147483647 then Ret (s\<lparr>es_cnt := es_cnt s + 1\<rparr>) else Undef)"

text \<open>\<open>cyg_semaphore_timed_wait\<close> waits up to a time; while no other thread runs, it takes a token that
  is there or returns false.\<close>

definition es_wait_until :: "int \<Rightarrow> esema \<Rightarrow> (bool \<times> esema) run" where
  "es_wait_until t s =
     (if \<not> es_alive s then Undef
      else if 0 < es_cnt s then Ret (True, s\<lparr>es_cnt := es_cnt s - 1\<rparr>) else Ret (False, s))"
definition es_wait_for :: "int \<Rightarrow> int \<Rightarrow> esema \<Rightarrow> (bool \<times> esema) run" where
  "es_wait_for clock d s = es_wait_until (ec_tb_ticks (ec_tm_from_now clock d)) s"

definition es_acquire :: "esema \<Rightarrow> esema run" where "es_acquire s = es_wait s"
definition es_acquire_for :: "int \<Rightarrow> int \<Rightarrow> esema \<Rightarrow> (bool \<times> esema) run" where
  "es_acquire_for clock d s = es_wait_for clock d s"
definition es_tryacquire :: "esema \<Rightarrow> (bool \<times> esema) run" where "es_tryacquire s = es_trywait s"
definition es_release :: "esema \<Rightarrow> esema run" where "es_release s = es_post s"

definition es_value :: "esema \<Rightarrow> int run" where
  "es_value s = (if es_alive s then Ret (es_cnt s) else Undef)"
definition es_available :: "esema \<Rightarrow> bool run" where
  "es_available s = (if es_alive s then Ret (es_cnt s \<noteq> 0) else Undef)"

interpretation ecos_sem: counting es_post es_wait es_trywait "\<lambda>n s. es_cnt s = n \<and> es_alive s" 2147483647
  by unfold_locales (auto simp: es_post_def es_wait_def es_trywait_def)

section \<open>BinarySemaphore\<close>

definition eb_ctor :: bool where "eb_ctor = False"
definition eb_ctor_init :: "bool \<Rightarrow> bool" where "eb_ctor_init ini = ini"
definition eb_wait :: "bool \<Rightarrow> bool run" where "eb_wait b = (if b then Ret False else Blocks)"
definition eb_trywait :: "bool \<Rightarrow> (bool \<times> bool) run" where "eb_trywait b = Ret (b, False)"
definition eb_post :: "bool \<Rightarrow> bool run" where "eb_post b = Ret True"

text \<open>The kernel has no timed wait for these.\<close>

definition eb_wait_for :: "int \<Rightarrow> bool \<Rightarrow> (bool \<times> bool) run" where
  "eb_wait_for d b =
     (if ec_tb_ticks d = 0 then eb_trywait b else run_then (eb_wait b) (\<lambda>b. Ret (True, b)))"
definition eb_acquire :: "bool \<Rightarrow> bool run" where "eb_acquire b = eb_wait b"
definition eb_acquire_for :: "int \<Rightarrow> bool \<Rightarrow> (bool \<times> bool) run" where "eb_acquire_for d b = eb_wait_for d b"
definition eb_tryacquire :: "bool \<Rightarrow> (bool \<times> bool) run" where "eb_tryacquire b = eb_trywait b"
definition eb_release :: "bool \<Rightarrow> bool run" where "eb_release b = eb_post b"
definition eb_value :: "bool \<Rightarrow> int" where "eb_value b = (if b then 1 else 0)"
definition eb_available :: "bool \<Rightarrow> bool" where "eb_available b = b"

interpretation ecos_bin: saturating eb_post eb_wait eb_trywait "\<lambda>n b. n = eb_value b" 1
  by unfold_locales (auto simp: eb_post_def eb_wait_def eb_trywait_def eb_value_def split: if_splits)

section \<open>Mutex\<close>

record emutex =
  em_holder :: "nat option"
  em_alive :: bool
  em_own :: bool

definition em_ctor :: emutex where "em_ctor = \<lparr>em_holder = None, em_alive = True, em_own = True\<rparr>"

text \<open>The constructor on a handle copies the kernel's mutex, in the state it is in.\<close>

definition em_ctor_handle :: "nat option \<Rightarrow> bool \<Rightarrow> emutex" where
  "em_ctor_handle h own = \<lparr>em_holder = h, em_alive = True, em_own = own\<rparr>"
definition em_dtor :: "emutex \<Rightarrow> emutex" where
  "em_dtor m = (if em_own m then m\<lparr>em_alive := False\<rparr> else m)"

definition em_lock :: "nat \<Rightarrow> emutex \<Rightarrow> emutex run" where
  "em_lock t m =
     (if \<not> em_alive m then Undef
      else case em_holder m of None \<Rightarrow> Ret (m\<lparr>em_holder := Some t\<rparr>) | Some u \<Rightarrow> if u = t then Undef else Blocks)"
definition em_trylock :: "nat \<Rightarrow> emutex \<Rightarrow> (bool \<times> emutex) run" where
  "em_trylock t m =
     (if \<not> em_alive m then Undef
      else if em_holder m = None then Ret (True, m\<lparr>em_holder := Some t\<rparr>) else Ret (False, m))"
definition em_unlock :: "nat \<Rightarrow> emutex \<Rightarrow> emutex run" where
  "em_unlock t m = (if em_alive m \<and> em_holder m = Some t then Ret (m\<lparr>em_holder := None\<rparr>) else Undef)"
definition em_acquire :: "nat \<Rightarrow> emutex \<Rightarrow> emutex run" where "em_acquire t m = em_lock t m"
definition em_tryacquire :: "nat \<Rightarrow> emutex \<Rightarrow> (bool \<times> emutex) run" where "em_tryacquire t m = em_trylock t m"
definition em_release :: "nat \<Rightarrow> emutex \<Rightarrow> emutex run" where "em_release t m = em_unlock t m"

lemmas em_defs = em_acquire_def em_release_def em_lock_def em_unlock_def em_trylock_def

interpretation ecos_mutex: lockable "em_acquire t" "em_release t"
    "\<lambda>m. em_alive m \<and> em_holder m = None" "\<lambda>m. em_alive m \<and> em_holder m = Some t"
  by unfold_locales (auto simp: em_defs)

section \<open>ConditionVar\<close>

text \<open>The kernel's variable refers to the member \<open>mutex_\<close>. A wait is in two parts, as in \<open>ConditionData\<close>: it
  gives the mutex up and sleeps; woken up, or when its time is over, it takes the mutex again.\<close>

record econdvar =
  ecv_mutex :: emutex
  ecv_sleepers :: "nat set"

definition ecv_ctor :: econdvar where "ecv_ctor = \<lparr>ecv_mutex = em_ctor, ecv_sleepers = {}\<rparr>"
definition ecv_ctor_mutex :: "emutex \<Rightarrow> econdvar" where
  "ecv_ctor_mutex m = \<lparr>ecv_mutex = em_ctor_handle (em_holder m) False, ecv_sleepers = {}\<rparr>"
definition ecv_lock :: "nat \<Rightarrow> econdvar \<Rightarrow> econdvar run" where
  "ecv_lock t cv = run_then (em_lock t (ecv_mutex cv)) (\<lambda>m. Ret (cv\<lparr>ecv_mutex := m\<rparr>))"
definition ecv_trylock :: "nat \<Rightarrow> econdvar \<Rightarrow> (bool \<times> econdvar) run" where
  "ecv_trylock t cv = run_then (em_trylock t (ecv_mutex cv)) (\<lambda>(b, m). Ret (b, cv\<lparr>ecv_mutex := m\<rparr>))"
definition ecv_unlock :: "nat \<Rightarrow> econdvar \<Rightarrow> econdvar run" where
  "ecv_unlock t cv = run_then (em_unlock t (ecv_mutex cv)) (\<lambda>m. Ret (cv\<lparr>ecv_mutex := m\<rparr>))"
definition ecv_acquire :: "nat \<Rightarrow> econdvar \<Rightarrow> econdvar run" where "ecv_acquire t cv = ecv_lock t cv"
definition ecv_tryacquire :: "nat \<Rightarrow> econdvar \<Rightarrow> (bool \<times> econdvar) run" where "ecv_tryacquire t cv = ecv_trylock t cv"
definition ecv_release :: "nat \<Rightarrow> econdvar \<Rightarrow> econdvar run" where "ecv_release t cv = ecv_unlock t cv"

definition ecv_wait :: "nat \<Rightarrow> econdvar \<Rightarrow> econdvar run" where
  "ecv_wait t cv = run_then (ecv_unlock t cv) (\<lambda>cv. Ret (cv\<lparr>ecv_sleepers := insert t (ecv_sleepers cv)\<rparr>))"
definition ecv_wait_over :: "nat \<Rightarrow> econdvar \<Rightarrow> econdvar run" where
  "ecv_wait_over t cv = (if t \<in> ecv_sleepers cv then Blocks else ecv_lock t cv)"

text \<open>\<open>cyg_cond_timed_wait\<close> returns false when the clock (\<open>now\<close>) has reached the deadline while the thread
  sleeps.\<close>

definition ecv_wait_until_over :: "int \<Rightarrow> int \<Rightarrow> nat \<Rightarrow> econdvar \<Rightarrow> (bool \<times> econdvar) run" where
  "ecv_wait_until_over tm now t cv =
     (if t \<in> ecv_sleepers cv \<and> now < ec_tb_ticks tm then Blocks
      else run_then (ecv_lock t cv) (\<lambda>cv'. Ret (t \<notin> ecv_sleepers cv, cv'\<lparr>ecv_sleepers := ecv_sleepers cv' - {t}\<rparr>)))"
definition ecv_wait_for_over :: "int \<Rightarrow> int \<Rightarrow> int \<Rightarrow> nat \<Rightarrow> econdvar \<Rightarrow> (bool \<times> econdvar) run" where
  "ecv_wait_for_over clock d now t cv = ecv_wait_until_over (ec_tm_from_now clock d) now t cv"

definition ecv_signal :: "nat \<Rightarrow> econdvar \<Rightarrow> econdvar" where
  "ecv_signal u cv = cv\<lparr>ecv_sleepers := ecv_sleepers cv - {u}\<rparr>"
definition ecv_broadcast :: "econdvar \<Rightarrow> econdvar" where "ecv_broadcast cv = cv\<lparr>ecv_sleepers := {}\<rparr>"

lemmas ecv_defs = ecv_lock_def ecv_unlock_def ecv_acquire_def ecv_release_def ecv_wait_def ecv_wait_over_def
  ecv_wait_until_over_def ecv_signal_def ecv_broadcast_def

interpretation ecos_condvar: lockable "ecv_acquire t" "ecv_release t"
  "\<lambda>cv. em_alive (ecv_mutex cv) \<and> em_holder (ecv_mutex cv) = None"
  "\<lambda>cv. em_alive (ecv_mutex cv) \<and> em_holder (ecv_mutex cv) = Some t"
  by unfold_locales (auto simp: ecv_defs em_defs)

section \<open>Properties\<close>

text \<open>a timed wait on a condition variable of eCos, woken by a broadcast or out of time, comes back
  with the mutex held as before and off the list of sleepers, and says which of the two it was.\<close>

theorem ecos_timed_wait_restores:
  assumes "em_alive (ecv_mutex cv)" and "em_holder (ecv_mutex cv) = Some t" and "t \<notin> ecv_sleepers cv"
    and "woken \<or> ec_tb_ticks (ec_tm_from_now clock d) \<le> now"
  shows "run_then (ecv_wait t cv) (\<lambda>cv. ecv_wait_for_over clock d now t (if woken then ecv_signal t cv else cv)) =
    Ret (woken, cv)"
  using assms by (auto simp: ecv_defs ecv_wait_for_over_def em_defs)

theorem ecos_timed_wait_restores_witness:
  "run_then (ecv_wait 2 (ecv_ctor\<lparr>ecv_mutex := em_ctor\<lparr>em_holder := Some 2\<rparr>\<rparr>)) (\<lambda>cv. ecv_wait_for_over 100 20 120 2 cv) =
   Ret (False, ecv_ctor\<lparr>ecv_mutex := em_ctor\<lparr>em_holder := Some 2\<rparr>\<rparr>)"
  using ecos_timed_wait_restores [of "ecv_ctor\<lparr>ecv_mutex := em_ctor\<lparr>em_holder := Some 2\<rparr>\<rparr>" 2 False 100 20 120]
  by (simp add: ecv_ctor_def em_ctor_def ec_tb_ticks_def ec_tm_from_now_def ec_sys_now_def)

text \<open>a wait with a limit on a binary semaphore of eCos that is not posted blocks for good, unless the
  limit is zero; the counting semaphore's returns false.\<close>

theorem ecos_binary_wait_ignores_the_limit:
  "d \<noteq> 0 \<Longrightarrow> eb_wait_for d False = Blocks \<and> es_wait_for clock d \<lparr>es_cnt = 0, es_alive = True\<rparr> =
     Ret (False, \<lparr>es_cnt = 0, es_alive = True\<rparr>)"
  by (simp add: eb_wait_for_def eb_wait_def ec_tb_ticks_def es_wait_for_def es_wait_until_def)

theorem ecos_binary_wait_ignores_the_limit_witness: "eb_wait_for 1 eb_ctor = Blocks"
  using ecos_binary_wait_ignores_the_limit [of 1 0] by (simp add: eb_ctor_def)

text \<open>a condition variable constructed on a caller's free mutex has a mutex of its own: one thread may
  lock the caller's while another holds the variable's.\<close>

theorem ecos_condition_has_its_own_mutex:
  assumes "em_alive m" and "em_holder m = None"
  shows "\<exists>m' cv. em_lock t m = Ret m' \<and> ecv_lock u (ecv_ctor_mutex m) = Ret cv \<and>
    em_holder m' = Some t \<and> em_holder (ecv_mutex cv) = Some u"
  using assms by (auto simp: ecv_defs em_defs ecv_ctor_mutex_def em_ctor_handle_def)

theorem ecos_condition_has_its_own_mutex_witness:
  "\<exists>m' cv. em_lock 1 em_ctor = Ret m' \<and> ecv_lock 2 (ecv_ctor_mutex em_ctor) = Ret cv \<and>
    em_holder m' = Some 1 \<and> em_holder (ecv_mutex cv) = Some 2"
  using ecos_condition_has_its_own_mutex [of em_ctor 1 2] by (simp add: em_ctor_def)

end
