(* ===== verification/RecMutex.thy ===== *)
theory RecMutex imports Monitor begin

text \<open>
  \<open>os/generic/CtrlrFx/RecursiveMutex.h\<close> and \<open>src/os/generic/RecursiveMutex.cpp\<close>: the recursive
  mutex made of a condition variable. Threads are numbers; \<open>owner_\<close> is not initialised by the
  constructor. Nesting deeper than \<open>INT_MAX\<close> overflows \<open>level_\<close>, which is undefined (\<open>None\<close>).
\<close>

record rmutex =
  rm_owner :: nat
  rm_level :: int

definition rm_ctor :: "nat \<Rightarrow> rmutex" where "rm_ctor g = \<lparr>rm_owner = g, rm_level = 0\<rparr>"

section \<open>The methods, pass by pass\<close>

datatype rm_result = RmWait | RmGot rmutex

definition rm_enter :: "rmutex \<Rightarrow> rm_result option" where
  "rm_enter s = (if rm_level s = 2147483647 then None else Some (RmGot (s\<lparr>rm_level := rm_level s + 1\<rparr>)))"

text \<open>\<open>lock\<close> up to its first wait, and from one wait to the next.\<close>

definition rm_lock_again :: "nat \<Rightarrow> rmutex \<Rightarrow> rm_result option" where
  "rm_lock_again t s = (if 0 < rm_level s then Some RmWait else rm_enter (s\<lparr>rm_owner := t\<rparr>))"

definition rm_lock :: "nat \<Rightarrow> rmutex \<Rightarrow> rm_result option" where
  "rm_lock t s =
     (if rm_level s = 0 then rm_enter (s\<lparr>rm_owner := t\<rparr>)
      else if rm_owner s \<noteq> t then rm_lock_again t s
      else rm_enter s)"

text \<open>\<open>trylock\<close> fails at once while another thread is inside a method (\<open>busy\<close>).\<close>

definition rm_trylock :: "bool \<Rightarrow> nat \<Rightarrow> rmutex \<Rightarrow> (bool \<times> rmutex) option" where
  "rm_trylock busy t s =
     (if busy then Some (False, s)
      else if rm_level s \<noteq> 0 \<and> rm_owner s \<noteq> t then Some (False, s)
      else let s = (if rm_level s = 0 then s\<lparr>rm_owner := t\<rparr> else s)
           in case rm_enter s of None \<Rightarrow> None | Some RmWait \<Rightarrow> None | Some (RmGot s') \<Rightarrow> Some (True, s'))"

definition rm_unlock :: "nat \<Rightarrow> rmutex \<Rightarrow> wake \<times> rmutex" where
  "rm_unlock t s =
     (if 0 < rm_level s \<and> rm_owner s = t
      then let s' = s\<lparr>rm_level := rm_level s - 1\<rparr> in (if rm_level s' = 0 then Signal else NoWake, s')
      else (NoWake, s))"

text \<open>The three synonyms of the acquire/release nomenclature.\<close>

definition rm_acquire :: "nat \<Rightarrow> rmutex \<Rightarrow> rm_result option" where "rm_acquire t s = rm_lock t s"
definition rm_tryacquire :: "bool \<Rightarrow> nat \<Rightarrow> rmutex \<Rightarrow> (bool \<times> rmutex) option" where
  "rm_tryacquire busy t s = rm_trylock busy t s"
definition rm_release :: "nat \<Rightarrow> rmutex \<Rightarrow> wake \<times> rmutex" where "rm_release t s = rm_unlock t s"

section \<open>One thread alone: a lock for guards\<close>

definition rm_lt_acquire :: "nat \<Rightarrow> rmutex \<Rightarrow> rmutex run" where
  "rm_lt_acquire t s = (case rm_acquire t s of None \<Rightarrow> Undef | Some RmWait \<Rightarrow> Blocks | Some (RmGot s') \<Rightarrow> Ret s')"
definition rm_lt_release :: "nat \<Rightarrow> rmutex \<Rightarrow> rmutex run" where
  "rm_lt_release t s = Ret (snd (rm_release t s))"

definition rm_can_lock :: "nat \<Rightarrow> rmutex \<Rightarrow> bool" where
  "rm_can_lock t s \<longleftrightarrow> rm_owner s = t \<and> 0 \<le> rm_level s \<and> rm_level s < 2147483647"
definition rm_has_lock :: "nat \<Rightarrow> rmutex \<Rightarrow> bool" where
  "rm_has_lock t s \<longleftrightarrow> rm_owner s = t \<and> 0 < rm_level s \<and> rm_level s \<le> 2147483647"

interpretation rm: lockable "rm_lt_acquire t" "rm_lt_release t" "rm_can_lock t" "rm_has_lock t"
  by unfold_locales
    (auto simp: rm_lt_acquire_def rm_acquire_def rm_lock_def rm_enter_def rm_lt_release_def rm_release_def
      rm_unlock_def rm_can_lock_def rm_has_lock_def Let_def)

section \<open>Threads\<close>

text \<open>A thread runs, sleeps in \<open>lock\<close>, or has been woken up there. The number counts the calls of
  \<open>lock\<close> and \<open>trylock\<close> that succeeded and were not undone by \<open>unlock\<close>.\<close>

datatype rm_pc = RmRun nat | RmSleep nat | RmWoken nat

fun rm_held :: "rm_pc \<Rightarrow> nat" where
  "rm_held (RmRun k) = k"
| "rm_held (RmSleep k) = k"
| "rm_held (RmWoken k) = k"

fun rm_wake :: "rm_pc \<Rightarrow> rm_pc" where
  "rm_wake (RmSleep k) = RmWoken k"
| "rm_wake pc = pc"

fun rm_asleep :: "rm_pc \<Rightarrow> bool" where
  "rm_asleep (RmSleep k) = True"
| "rm_asleep pc = False"

datatype rm_act = RmLock | RmTry bool | RmUnlock | RmResume

definition rm_after :: "nat \<Rightarrow> rmutex \<Rightarrow> rm_result option \<Rightarrow> (rm_pc \<times> wake \<times> rmutex) option" where
  "rm_after k s r = (case r of None \<Rightarrow> None | Some RmWait \<Rightarrow> Some (RmSleep k, NoWake, s)
     | Some (RmGot s') \<Rightarrow> Some (RmRun (k + 1), NoWake, s'))"

fun rm_thread :: "nat \<Rightarrow> rm_act \<Rightarrow> rm_pc \<Rightarrow> rmutex \<Rightarrow> (rm_pc \<times> wake \<times> rmutex) option" where
  "rm_thread t RmLock (RmRun k) s = rm_after k s (rm_lock t s)"
| "rm_thread t RmResume (RmWoken k) s = rm_after k s (rm_lock_again t s)"
| "rm_thread t (RmTry busy) (RmRun k) s =
     (case rm_trylock busy t s of None \<Rightarrow> None | Some (ok, s') \<Rightarrow> Some (RmRun (if ok then k + 1 else k), NoWake, s'))"
| "rm_thread t RmUnlock (RmRun k) s = (let (w, s') = rm_unlock t s in Some (RmRun (k - 1), w, s'))"
| "rm_thread t _ _ s = None"

abbreviation rm_reach :: "rmutex \<times> rm_pc list \<Rightarrow> rmutex \<times> rm_pc list \<Rightarrow> bool" where
  "rm_reach \<equiv> mon_reach rm_thread rm_wake rm_asleep"

section \<open>Invariant\<close>

text \<open>Who has a count is the owner, the level is the owner's count, and while the mutex is free no
  thread sleeps unless another has been woken up.\<close>

definition rm_counts :: "rmutex \<times> rm_pc list \<Rightarrow> bool" where
  "rm_counts c \<longleftrightarrow> (case c of (s, pcs) \<Rightarrow> 0 \<le> rm_level s \<and>
     (\<forall>t<length pcs. 0 < rm_held (pcs ! t) \<longrightarrow> rm_owner s = t \<and> rm_level s = int (rm_held (pcs ! t))) \<and>
     (0 < rm_level s \<longrightarrow> rm_owner s < length pcs \<and> rm_level s = int (rm_held (pcs ! rm_owner s))) \<and>
     (\<forall>t<length pcs. (\<forall>k. pcs ! t \<noteq> RmRun k) \<longrightarrow> rm_held (pcs ! t) = 0))"

definition rm_awake :: "rmutex \<times> rm_pc list \<Rightarrow> bool" where
  "rm_awake c \<longleftrightarrow> (case c of (s, pcs) \<Rightarrow>
     (\<exists>pc\<in>set pcs. rm_asleep pc) \<longrightarrow> 0 < rm_level s \<or> (\<exists>k. RmWoken k \<in> set pcs))"

definition rm_inv :: "rmutex \<times> rm_pc list \<Rightarrow> bool" where
  "rm_inv c \<longleftrightarrow> rm_counts c \<and> rm_awake c"

lemma rm_wake_simps [simp]:
  "rm_held (rm_wake pc) = rm_held pc" "rm_wake pc = RmRun k \<longleftrightarrow> pc = RmRun k" "\<not> rm_asleep (rm_wake pc)"
  by (cases pc; simp)+

lemma rm_counts_wake: "rm_counts (s, pcs) \<Longrightarrow> t < length pcs \<Longrightarrow> rm_counts (s, pcs[t := rm_wake (pcs ! t)])"
proof -
  assume c: "rm_counts (s, pcs)" and t: "t < length pcs"
  have "rm_held (pcs[t := rm_wake (pcs ! t)] ! u) = rm_held (pcs ! u)"
    "pcs[t := rm_wake (pcs ! t)] ! u = RmRun k \<longleftrightarrow> pcs ! u = RmRun k" if "u < length pcs" for u k
    using that t by (cases "u = t"; simp)+
  then show ?thesis using c by (auto simp: rm_counts_def)
qed

lemma rm_awake_wake: "rm_awake (s, pcs) \<Longrightarrow> t < length pcs \<Longrightarrow> rm_awake (s, pcs[t := rm_wake (pcs ! t)])"
proof -
  assume a: "rm_awake (s, pcs)" and t: "t < length pcs"
  let ?pcs = "pcs[t := rm_wake (pcs ! t)]"
  have "\<exists>k. RmWoken k \<in> set ?pcs" if woken: "RmWoken k \<in> set pcs" for k
  proof -
    obtain u where u: "u < length pcs" "pcs ! u = RmWoken k" using woken by (auto simp: in_set_conv_nth)
    then have "?pcs ! u = RmWoken k" "u < length ?pcs" by (cases "u = t"; simp)+
    then show ?thesis by (metis nth_mem)
  qed
  moreover have "\<exists>pc\<in>set pcs. rm_asleep pc" if "\<exists>pc\<in>set ?pcs. rm_asleep pc"
    using that set_update_subset_insert [of pcs t "rm_wake (pcs ! t)"] by auto
  ultimately show ?thesis using a by (auto simp: rm_awake_def)
qed

lemmas rm_method_defs = rm_after_def rm_lock_def rm_lock_again_def rm_enter_def rm_trylock_def rm_unlock_def Let_def

text \<open>The passes: getting the lock (once more), going to sleep, failing to get it, giving back what
  the thread does not have, and giving back a level.\<close>

lemma rm_thread_cases:
  assumes "rm_thread t a pc s = Some (pc', w, s')" "0 \<le> rm_level s"
  obtains (Got) k where "pc = RmRun k \<or> pc = RmWoken k \<and> rm_level s = 0" "pc' = RmRun (k + 1)" "w = NoWake"
      "s' = s\<lparr>rm_owner := t, rm_level := rm_level s + 1\<rparr>" "rm_level s = 0 \<or> rm_owner s = t"
  | (Slept) k where "pc = RmRun k \<and> rm_owner s \<noteq> t \<or> pc = RmWoken k" "pc' = RmSleep k" "w = NoWake" "s' = s" "0 < rm_level s"
  | (Failed) k where "pc = RmRun k" "pc' = RmRun k" "w = NoWake" "s' = s"
  | (NotMine) k where "pc = RmRun k" "pc' = RmRun (k - 1)" "w = NoWake" "s' = s" "\<not> (0 < rm_level s \<and> rm_owner s = t)"
  | (Gave) k where "pc = RmRun k" "pc' = RmRun (k - 1)" "w = (if rm_level s = 1 then Signal else NoWake)"
      "s' = s\<lparr>rm_level := rm_level s - 1\<rparr>" "0 < rm_level s" "rm_owner s = t"
proof (cases a)
  case RmLock
  obtain k where pc: "pc = RmRun k" using assms(1) RmLock by (cases pc) auto
  have f: "rm_after k s (rm_lock t s) = Some (pc', w, s')" using assms(1) RmLock pc by simp
  show ?thesis
  proof (cases "rm_level s = 0 \<or> rm_owner s = t")
    case True
    then have "rm_lock t s = rm_enter (s\<lparr>rm_owner := t\<rparr>)" by (auto simp: rm_lock_def)
    then show ?thesis using f True pc by (intro Got [of k]) (auto simp: rm_after_def rm_enter_def split: if_splits)
  next
    case False
    then have "rm_lock t s = Some RmWait" using assms(2) by (simp add: rm_lock_def rm_lock_again_def)
    then show ?thesis using f False pc assms(2) by (intro Slept [of k]) (auto simp: rm_after_def)
  qed
next
  case RmResume
  obtain k where pc: "pc = RmWoken k" using assms(1) RmResume by (cases pc) auto
  have f: "rm_after k s (rm_lock_again t s) = Some (pc', w, s')" using assms(1) RmResume pc by simp
  show ?thesis
  proof (cases "0 < rm_level s")
    case True
    then show ?thesis using f pc by (intro Slept [of k]) (auto simp: rm_after_def rm_lock_again_def)
  next
    case False
    then show ?thesis using f pc assms(2)
      by (intro Got [of k]) (auto simp: rm_after_def rm_lock_again_def rm_enter_def split: if_splits)
  qed
next
  case (RmTry busy)
  obtain k where pc: "pc = RmRun k" using assms(1) RmTry by (cases pc) auto
  show ?thesis
  proof (cases "busy \<or> rm_level s \<noteq> 0 \<and> rm_owner s \<noteq> t")
    case True
    then have "rm_trylock busy t s = Some (False, s)" by (auto simp: rm_trylock_def)
    then show ?thesis using assms(1) RmTry pc by (intro Failed [of k]) auto
  next
    case False
    then have "(if rm_level s = 0 then s\<lparr>rm_owner := t\<rparr> else s) = s\<lparr>rm_owner := t\<rparr>" by auto
    then have "rm_trylock busy t s = (if rm_level s = 2147483647 then None
        else Some (True, s\<lparr>rm_owner := t, rm_level := rm_level s + 1\<rparr>))"
      using False by (auto simp add: rm_trylock_def rm_enter_def Let_def)
    then show ?thesis using assms(1) RmTry pc False by (intro Got [of k]) (auto split: if_splits)
  qed
next
  case RmUnlock
  obtain k where pc: "pc = RmRun k" using assms(1) RmUnlock by (cases pc) auto
  show ?thesis
  proof (cases "0 < rm_level s \<and> rm_owner s = t")
    case True
    then show ?thesis using assms(1) RmUnlock pc by (intro Gave [of k]) (auto simp: rm_unlock_def Let_def)
  next
    case False
    then have "rm_unlock t s = (NoWake, s)" by (auto simp: rm_unlock_def)
    then show ?thesis using assms(1) RmUnlock pc False by (intro NotMine [of k]) auto
  qed
qed

lemma rm_counts_run:
  assumes inv: "rm_counts (s, pcs)" and t: "t < length pcs" and th: "rm_thread t a (pcs ! t) s = Some (pc', w, s')"
  shows "rm_counts (s', pcs[t := pc'])"
proof -
  have lv: "0 \<le> rm_level s" using inv by (simp add: rm_counts_def)
  note c = inv [unfolded rm_counts_def prod.case]
  have others: "\<And>u. u < length pcs \<Longrightarrow> 0 < rm_held (pcs ! u) \<Longrightarrow> rm_owner s = u \<and> rm_level s = int (rm_held (pcs ! u))"
    and owner: "0 < rm_level s \<Longrightarrow> rm_owner s < length pcs \<and> rm_level s = int (rm_held (pcs ! rm_owner s))"
    and out: "\<And>u. u < length pcs \<Longrightarrow> (\<forall>k. pcs ! u \<noteq> RmRun k) \<Longrightarrow> rm_held (pcs ! u) = 0"
    using c by blast+
  have mine: "0 < rm_held (pcs ! t) \<Longrightarrow> rm_owner s = t \<and> rm_level s = int (rm_held (pcs ! t))"
    and owned: "0 < rm_level s \<Longrightarrow> rm_owner s = t \<Longrightarrow> rm_level s = int (rm_held (pcs ! t))"
    and waits: "\<forall>k. pcs ! t \<noteq> RmRun k \<Longrightarrow> rm_held (pcs ! t) = 0"
    using others [OF t] owner by (blast, blast, intro out [OF t])
  from th lv show ?thesis
  proof (cases rule: rm_thread_cases)
    case (Got k)
    have kl: "int k = rm_level s" using Got(1,5) mine owned lv by (cases "k = 0"; cases "rm_level s = 0") auto
    have "rm_held (pcs ! u) = 0" if "u < length pcs" "u \<noteq> t" for u
      using others [OF that(1)] that(2) Got(5) by (cases "rm_held (pcs ! u) = 0") auto
    then show ?thesis using Got(2,4) kl t out by (auto simp: rm_counts_def nth_list_update)
  next
    case (Slept k)
    have "k = 0" using Slept(1) mine waits by (cases "k = 0") auto
    moreover have "rm_owner s \<noteq> t" using Slept(1,5) owned \<open>k = 0\<close> by auto
    ultimately show ?thesis using Slept(2,4,5) t others out owner by (auto simp: rm_counts_def nth_list_update)
  next
    case (Failed k)
    then show ?thesis using inv t list_update_id [of pcs t] by metis
  next
    case (NotMine k)
    have "k = 0" using NotMine(1,5) mine by (cases "k = 0") auto
    then show ?thesis using NotMine(1,2,4) inv list_update_id [of pcs t] by (metis diff_0_eq_0)
  next
    case (Gave k)
    have kl: "int k = rm_level s" using Gave(1,5,6) owned by simp
    have "rm_held (pcs ! u) = 0" if "u < length pcs" "u \<noteq> t" for u
      using others [OF that(1)] that(2) Gave(6) by (cases "rm_held (pcs ! u) = 0") auto
    moreover have "int (k - 1) = rm_level s - 1" using kl Gave(5) by simp
    ultimately show ?thesis using Gave(2,4,5,6) t out by (auto simp: rm_counts_def nth_list_update)
  qed
qed

lemma rm_awake_quiet:
  assumes inv: "rm_inv (s, pcs)" and t: "t < length pcs" and th: "rm_thread t a (pcs ! t) s = Some (pc', NoWake, s')"
  shows "rm_awake (s', pcs[t := pc'])"
proof -
  have lv: "0 \<le> rm_level s" and awake: "rm_awake (s, pcs)" using inv by (simp_all add: rm_inv_def rm_counts_def)
  have same: "rm_awake (s, pcs[t := RmRun j])" if run: "pcs ! t = RmRun k" for j k
  proof -
    have "RmWoken i \<in> set (pcs[t := RmRun j])" if woken: "RmWoken i \<in> set pcs" for i
    proof -
      obtain u where u: "u < length pcs" "pcs ! u = RmWoken i" using woken by (auto simp: in_set_conv_nth)
      then have "pcs[t := RmRun j] ! u = RmWoken i" using run by (cases "u = t") auto
      then show ?thesis using u(1) by (metis length_list_update nth_mem)
    qed
    moreover have "\<exists>pc\<in>set pcs. rm_asleep pc" if "\<exists>pc\<in>set (pcs[t := RmRun j]). rm_asleep pc"
      using that set_update_subset_insert [of pcs t "RmRun j"] by auto
    ultimately show ?thesis using awake by (auto simp: rm_awake_def)
  qed
  from th lv show ?thesis
  proof (cases rule: rm_thread_cases)
    case (Got k)
    then show ?thesis using lv by (simp add: rm_awake_def)
  next
    case (Slept k)
    then show ?thesis by (simp add: rm_awake_def)
  next
    case (Failed k)
    then show ?thesis using same by simp
  next
    case (NotMine k)
    then show ?thesis using same by simp
  next
    case (Gave k)
    then show ?thesis by (auto simp: rm_awake_def split: if_splits)
  qed
qed

interpretation rec_mutex: monitor_invariant rm_thread rm_wake rm_asleep rm_inv
proof unfold_locales
  fix s s' :: rmutex and pcs t a pc'
  assume "rm_inv (s, pcs)" "t < length pcs" "rm_thread t a (pcs ! t) s = Some (pc', NoWake, s')"
  then show "rm_inv (s', pcs[t := pc'])"
    using rm_counts_run [of s pcs t a pc' NoWake s'] rm_awake_quiet by (simp add: rm_inv_def)
next
  fix s s' :: rmutex and pcs t a pc' u
  assume a: "rm_inv (s, pcs)" "t < length pcs" "rm_thread t a (pcs ! t) s = Some (pc', Signal, s')" "u < length pcs"
    "rm_asleep (pcs[t := pc'] ! u) \<or> (\<forall>pc\<in>set (pcs[t := pc']). \<not> rm_asleep pc)"
  let ?pcs = "(pcs[t := pc'])[u := rm_wake (pcs[t := pc'] ! u)]"
  have "rm_counts (s', pcs[t := pc'])" using a rm_counts_run [of s pcs t a pc' Signal s'] by (simp add: rm_inv_def)
  then have "rm_counts (s', ?pcs)" using a(4) by (intro rm_counts_wake) simp_all
  moreover have "rm_awake (s', ?pcs)"
    using a(5)
  proof
    assume "rm_asleep (pcs[t := pc'] ! u)"
    then obtain k where "pcs[t := pc'] ! u = RmSleep k" by (cases "pcs[t := pc'] ! u") auto
    then have "RmWoken k \<in> set ?pcs" using a(4) by (simp add: set_update_memI)
    then show ?thesis by (auto simp: rm_awake_def)
  next
    assume none: "\<forall>pc\<in>set (pcs[t := pc']). \<not> rm_asleep pc"
    then have "\<forall>pc\<in>set ?pcs. \<not> rm_asleep pc"
      using set_update_subset_insert [of "pcs[t := pc']" u "rm_wake (pcs[t := pc'] ! u)"] by auto
    then show ?thesis by (simp add: rm_awake_def)
  qed
  ultimately show "rm_inv (s', ?pcs)" by (simp add: rm_inv_def)
next
  fix s s' :: rmutex and pcs t a pc'
  assume a: "rm_inv (s, pcs)" "t < length pcs" "rm_thread t a (pcs ! t) s = Some (pc', Broadcast, s')"
  have "0 \<le> rm_level s" using a(1) by (simp add: rm_inv_def rm_counts_def)
  from a(3) this show "rm_inv (s', map rm_wake (pcs[t := pc']))"
    by (cases rule: rm_thread_cases) (auto split: if_splits)
next
  fix s :: rmutex and pcs t
  assume "rm_inv (s, pcs)" "t < length pcs"
  then show "rm_inv (s, pcs[t := rm_wake (pcs ! t)])"
    by (simp add: rm_inv_def rm_counts_wake rm_awake_wake)
qed

lemma rm_init_inv: "rm_inv (rm_ctor g, replicate n (RmRun 0))"
  by (simp add: rm_inv_def rm_counts_def rm_awake_def rm_ctor_def)

section \<open>Properties\<close>


text \<open>No thread waits for the recursive mutex in vain: while one sleeps in \<open>lock\<close>, some thread has the mutex or
  has been woken up and will try again, although an unlock wakes up one thread only and newcomers may get ahead of it.\<close>

theorem recursive_mutex_no_lost_wakeup:
  assumes "rm_reach (rm_ctor g, replicate n (RmRun 0)) (s, pcs)" "RmSleep k \<in> set pcs"
  shows "(\<exists>t<length pcs. 0 < rm_held (pcs ! t) \<and> (\<exists>j. pcs ! t = RmRun j)) \<or> (\<exists>j. RmWoken j \<in> set pcs)"
proof -
  have inv: "rm_inv (s, pcs)" by (rule rec_mutex.reach_inv [OF assms(1) rm_init_inv])
  have "\<exists>pc\<in>set pcs. rm_asleep pc" using assms(2) by force
  then have "0 < rm_level s \<or> (\<exists>j. RmWoken j \<in> set pcs)" using inv by (simp add: rm_inv_def rm_awake_def)
  moreover have "rm_owner s < length pcs \<and> 0 < rm_held (pcs ! rm_owner s) \<and> (\<exists>j. pcs ! rm_owner s = RmRun j)" if "0 < rm_level s"
  proof -
    have o: "rm_owner s < length pcs" "rm_level s = int (rm_held (pcs ! rm_owner s))"
      using inv that unfolding rm_inv_def rm_counts_def prod.case by blast+
    then have "0 < rm_held (pcs ! rm_owner s)" using that by simp
    moreover have "(\<forall>k. pcs ! rm_owner s \<noteq> RmRun k) \<longrightarrow> rm_held (pcs ! rm_owner s) = 0"
      using inv o(1) unfolding rm_inv_def rm_counts_def prod.case by blast
    ultimately show ?thesis using o(1) by auto
  qed
  ultimately show ?thesis by blast
qed

text \<open>Two threads: the first locks twice, the second goes to sleep.\<close>

lemma rm_demo_reach:
  "rm_reach (rm_ctor 9, replicate 2 (RmRun 0)) (\<lparr>rm_owner = 0, rm_level = 2\<rparr>, [RmRun 2, RmSleep 0])"
proof -
  have "rm_reach (rm_ctor 9, [RmRun 0, RmRun 0]) (rm_ctor 9, [RmRun 0, RmRun 0])" by (rule mon_refl)
  from mon_more [OF this mon_quiet [of 0 _ _ RmLock _ "RmRun 1" "\<lparr>rm_owner = 0, rm_level = 1\<rparr>"]]
  have "rm_reach (rm_ctor 9, [RmRun 0, RmRun 0]) (\<lparr>rm_owner = 0, rm_level = 1\<rparr>, [RmRun 1, RmRun 0])"
    by (simp add: rm_method_defs rm_ctor_def)
  from mon_more [OF this mon_quiet [of 0 _ _ RmLock _ "RmRun 2" "\<lparr>rm_owner = 0, rm_level = 2\<rparr>"]]
  have "rm_reach (rm_ctor 9, [RmRun 0, RmRun 0]) (\<lparr>rm_owner = 0, rm_level = 2\<rparr>, [RmRun 2, RmRun 0])"
    by (simp add: rm_method_defs)
  from mon_more [OF this mon_quiet [of 1 _ _ RmLock _ "RmSleep 0" "\<lparr>rm_owner = 0, rm_level = 2\<rparr>"]]
  show ?thesis by (simp add: rm_method_defs numeral_2_eq_2)
qed


theorem recursive_mutex_no_lost_wakeup_witness:
  "(\<exists>t<2. 0 < rm_held ([RmRun 2, RmSleep 0] ! t) \<and> (\<exists>j. [RmRun 2, RmSleep 0] ! t = RmRun j)) \<or>
    (\<exists>j. RmWoken j \<in> set [RmRun 2, RmSleep 0])"
  using recursive_mutex_no_lost_wakeup [OF rm_demo_reach, of 0] by (simp add: numeral_2_eq_2)

end
