(* ===== verification/WinSync.thy ===== *)
theory WinSync imports SyncContracts TickTimes RecMutex Counters begin

text \<open>
  The port to Win32: \<open>os/Win32/CtrlrFx/Win32WaitHandle.h\<close>, \<open>Semaphore.h\<close>, \<open>OSEvent.h\<close>, \<open>Mutex.h\<close>,
  \<open>RecursiveMutex.h\<close> and \<open>AtomicCounter.h\<close>. The system keeps a table of objects by handle: semaphores,
  events, mutexes and threads, which are signaled or not; waiting for a signaled object takes what it gives. A
  call with a handle of no object fails, which the library does not look at. Threads are numbered.
\<close>

section \<open>The system's objects\<close>

datatype wthread = WSuspended | WRunning | WEnded

datatype wobj = WSem int int | WEvent bool bool | WMutex "nat option" nat | WThread wthread int

type_synonym whandles = "int \<Rightarrow> wobj option"

definition WAIT_OBJECT_0 :: int where "WAIT_OBJECT_0 = 0"
definition WAIT_TIMEOUT :: int where "WAIT_TIMEOUT = 258"
definition WAIT_FAILED :: int where "WAIT_FAILED = 4294967295"
definition WIN_INFINITE :: int where "WIN_INFINITE = 4294967295"
definition INVALID_HANDLE_VALUE :: int where "INVALID_HANDLE_VALUE = -1"

text \<open>What is left of an object that thread \<open>t\<close> waited for, if it is signaled for that thread.\<close>

fun wk_take :: "nat \<Rightarrow> wobj \<Rightarrow> wobj option" where
  "wk_take t (WSem n mx) = (if 0 < n then Some (WSem (n - 1) mx) else None)"
| "wk_take t (WEvent manual sig) = (if sig then Some (WEvent manual manual) else None)"
| "wk_take t (WMutex owner n) = (if owner = None \<or> owner = Some t then Some (WMutex (Some t) (n + 1)) else None)"
| "wk_take t (WThread st prio) = (if st = WEnded then Some (WThread st prio) else None)"

definition wk_wait :: "nat \<Rightarrow> int \<Rightarrow> int \<Rightarrow> whandles \<Rightarrow> (int \<times> whandles) run" where
  "wk_wait t h ms k =
     (case k h of
        None \<Rightarrow> Ret (WAIT_FAILED, k)
      | Some ob \<Rightarrow> (case wk_take t ob of
            Some ob' \<Rightarrow> Ret (WAIT_OBJECT_0, k(h \<mapsto> ob'))
          | None \<Rightarrow> if ms = WIN_INFINITE then Blocks else Ret (WAIT_TIMEOUT, k)))"
definition wk_close :: "int \<Rightarrow> whandles \<Rightarrow> whandles" where "wk_close h k = k(h := None)"

text \<open>The calls that create an object return \<open>h\<close>, a handle that is in use by no other object, or the null
  handle when they fail.\<close>

definition wk_create :: "int \<Rightarrow> wobj \<Rightarrow> whandles \<Rightarrow> int \<times> whandles" where "wk_create h ob k = (h, k(h \<mapsto> ob))"
definition wk_create_sem :: "int \<Rightarrow> int \<Rightarrow> int \<Rightarrow> whandles \<Rightarrow> int \<times> whandles" where
  "wk_create_sem h cnt mx k =
     (if 0 \<le> cnt \<and> 0 < mx \<and> cnt \<le> mx then wk_create h (WSem cnt mx) k else (0, k))"
definition wk_release_sem :: "int \<Rightarrow> whandles \<Rightarrow> whandles" where
  "wk_release_sem h k =
     (case k h of Some (WSem n mx) \<Rightarrow> if n < mx then k(h \<mapsto> WSem (n + 1) mx) else k | _ \<Rightarrow> k)"
definition wk_set_event :: "bool \<Rightarrow> int \<Rightarrow> whandles \<Rightarrow> whandles" where
  "wk_set_event sig h k = (case k h of Some (WEvent manual s) \<Rightarrow> k(h \<mapsto> WEvent manual sig) | _ \<Rightarrow> k)"
definition wk_release_mutex :: "nat \<Rightarrow> int \<Rightarrow> whandles \<Rightarrow> whandles" where
  "wk_release_mutex t h k =
     (case k h of
        Some (WMutex owner n) \<Rightarrow>
          if owner = Some t then k(h \<mapsto> (if n = 1 then WMutex None 0 else WMutex owner (n - 1))) else k
      | _ \<Rightarrow> k)"

section \<open>Win32WaitHandle\<close>

text \<open>The member \<open>handle_\<close> and the table.\<close>

type_synonym whandle = "int \<times> whandles"

definition wh_ctor :: "whandles \<Rightarrow> whandle" where "wh_ctor k = (INVALID_HANDLE_VALUE, k)"
definition wh_ctor_handle :: "int \<Rightarrow> whandles \<Rightarrow> whandle" where "wh_ctor_handle h k = (h, k)"
definition wh_dtor :: "whandle \<Rightarrow> whandles" where "wh_dtor w = wk_close (fst w) (snd w)"
definition wh_close :: "whandle \<Rightarrow> whandle" where "wh_close w = (fst w, wk_close (fst w) (snd w))"
definition wh_attach :: "int \<times> whandles \<Rightarrow> whandle \<Rightarrow> whandle" where "wh_attach hk w = hk"
definition wh_handle :: "whandle \<Rightarrow> int" where "wh_handle w = fst w"
definition wh_is_valid :: "whandle \<Rightarrow> bool" where "wh_is_valid w \<longleftrightarrow> fst w \<noteq> INVALID_HANDLE_VALUE"
definition wh_error :: "whandle \<Rightarrow> int" where "wh_error w = -1"

definition wh_wait :: "nat \<Rightarrow> whandle \<Rightarrow> whandle run" where
  "wh_wait t w = run_then (wk_wait t (fst w) WIN_INFINITE (snd w)) (\<lambda>(r, k). Ret (fst w, k))"
definition wh_wait_for :: "nat \<Rightarrow> int \<Rightarrow> whandle \<Rightarrow> (bool \<times> whandle) run" where
  "wh_wait_for t d w =
     run_then (wk_wait t (fst w) (u32 (wn_to_msec d)) (snd w)) (\<lambda>(r, k). Ret (r = WAIT_OBJECT_0, fst w, k))"
definition wh_trywait :: "nat \<Rightarrow> whandle \<Rightarrow> (bool \<times> whandle) run" where
  "wh_trywait t w = run_then (wk_wait t (fst w) 0 (snd w)) (\<lambda>(r, k). Ret (r = WAIT_OBJECT_0, fst w, k))"
definition wh_acquire :: "nat \<Rightarrow> whandle \<Rightarrow> whandle run" where "wh_acquire t w = wh_wait t w"
definition wh_acquire_for :: "nat \<Rightarrow> int \<Rightarrow> whandle \<Rightarrow> (bool \<times> whandle) run" where "wh_acquire_for t d w = wh_wait_for t d w"
definition wh_tryacquire :: "nat \<Rightarrow> whandle \<Rightarrow> (bool \<times> whandle) run" where "wh_tryacquire t w = wh_trywait t w"

lemmas wh_defs = wh_wait_def wh_trywait_def wk_wait_def WAIT_OBJECT_0_def WAIT_TIMEOUT_def WAIT_FAILED_def WIN_INFINITE_def

section \<open>Semaphore and events\<close>

text \<open>\<open>h\<close> is the handle that the system would give the new object.\<close>

definition ws_ctor :: "int \<Rightarrow> whandles \<Rightarrow> whandle" where
  "ws_ctor h k = wh_attach (wk_create_sem h 0 2147483647 k) (wh_ctor k)"
definition ws_ctor_cnt :: "int \<Rightarrow> int \<Rightarrow> whandles \<Rightarrow> whandle" where
  "ws_ctor_cnt h cnt k = wh_attach (wk_create_sem h cnt 2147483647 k) (wh_ctor k)"
definition ws_ctor_max :: "int \<Rightarrow> int \<Rightarrow> int \<Rightarrow> whandles \<Rightarrow> whandle" where
  "ws_ctor_max h cnt mx k = wh_attach (wk_create_sem h cnt mx k) (wh_ctor k)"
definition ws_create :: "int \<Rightarrow> int \<Rightarrow> whandle \<Rightarrow> whandle" where
  "ws_create h cnt w = (let w = wh_close w in wh_attach (wk_create_sem h cnt 2147483647 (snd w)) w)"
definition ws_create_max :: "int \<Rightarrow> int \<Rightarrow> int \<Rightarrow> whandle \<Rightarrow> whandle" where
  "ws_create_max h cnt mx w = (let w = wh_close w in wh_attach (wk_create_sem h cnt mx (snd w)) w)"
definition ws_release :: "whandle \<Rightarrow> whandle run" where "ws_release w = Ret (fst w, wk_release_sem (fst w) (snd w))"
definition ws_post :: "whandle \<Rightarrow> whandle run" where "ws_post w = ws_release w"

definition wb_ctor :: "int \<Rightarrow> whandles \<Rightarrow> whandle" where "wb_ctor h k = ws_ctor_max h 0 1 k"
definition wb_ctor_init :: "int \<Rightarrow> bool \<Rightarrow> whandles \<Rightarrow> whandle" where
  "wb_ctor_init h ini k = ws_ctor_max h (if ini then 1 else 0) 1 k"

definition WE_AUTO_RESET :: bool where "WE_AUTO_RESET = False"
definition WE_MANUAL_RESET :: bool where "WE_MANUAL_RESET = True"
definition we_ctor :: "int \<Rightarrow> bool \<Rightarrow> bool \<Rightarrow> whandles \<Rightarrow> whandle" where
  "we_ctor h manual sig k = wh_attach (wk_create h (WEvent manual sig) k) (wh_ctor k)"
definition we_signal :: "whandle \<Rightarrow> whandle run" where "we_signal w = Ret (fst w, wk_set_event True (fst w) (snd w))"
definition we_reset :: "whandle \<Rightarrow> whandle run" where "we_reset w = Ret (fst w, wk_set_event False (fst w) (snd w))"
definition we_manual :: "int \<Rightarrow> whandles \<Rightarrow> whandle" where "we_manual h k = we_ctor h WE_MANUAL_RESET False k"
definition we_manual_sig :: "int \<Rightarrow> bool \<Rightarrow> whandles \<Rightarrow> whandle" where "we_manual_sig h sig k = we_ctor h WE_MANUAL_RESET sig k"
definition we_auto :: "int \<Rightarrow> whandles \<Rightarrow> whandle" where "we_auto h k = we_ctor h WE_AUTO_RESET False k"
definition we_auto_sig :: "int \<Rightarrow> bool \<Rightarrow> whandles \<Rightarrow> whandle" where "we_auto_sig h sig k = we_ctor h WE_AUTO_RESET sig k"

definition wh_set :: "wobj \<Rightarrow> whandle \<Rightarrow> whandle" where "wh_set ob w = (fst w, (snd w)(fst w \<mapsto> ob))"
definition wh_is :: "wobj \<Rightarrow> whandle \<Rightarrow> bool" where "wh_is ob w \<longleftrightarrow> snd w (fst w) = Some ob"

lemma wh_is_set [simp]: "wh_is ob' (wh_set ob w) \<longleftrightarrow> ob' = ob"
  by (auto simp: wh_is_def wh_set_def)

lemma wh_ops:
  "wh_is ob w \<Longrightarrow> wk_take t ob = Some ob' \<Longrightarrow> wh_wait t w = Ret (wh_set ob' w)"
  "wh_is ob w \<Longrightarrow> wk_take t ob = None \<Longrightarrow> wh_wait t w = Blocks"
  "wh_is ob w \<Longrightarrow> wk_take t ob = Some ob' \<Longrightarrow> wh_trywait t w = Ret (True, wh_set ob' w)"
  "wh_is ob w \<Longrightarrow> wk_take t ob = None \<Longrightarrow> wh_trywait t w = Ret (False, w)"
  "wh_is (WSem n mx) w \<Longrightarrow> n < mx \<Longrightarrow> ws_post w = Ret (wh_set (WSem (n + 1) mx) w)"
  "wh_is (WSem n mx) w \<Longrightarrow> mx \<le> n \<Longrightarrow> ws_post w = Ret w"
  "wh_is (WEvent manual sig) w \<Longrightarrow> we_signal w = Ret (wh_set (WEvent manual True) w)"
  by (auto simp: wh_is_def wh_set_def wh_defs ws_post_def ws_release_def wk_release_sem_def we_signal_def wk_set_event_def)

interpretation win_sem: saturating ws_post "wh_wait t" "wh_trywait t" "\<lambda>n w. wh_is (WSem n mx) w" mx
  by unfold_locales (simp_all add: wh_ops)

interpretation win_event: saturating we_signal "wh_wait t" "wh_trywait t"
    "\<lambda>n w. \<exists>sig. wh_is (WEvent False sig) w \<and> n = ind sig" 1
  by unfold_locales (auto simp: wh_ops simp del: split_paired_Ex split: if_splits)

text \<open>A wait with a limit answers as one that does not wait, except that the limit of \<open>INFINITE\<close>
  milliseconds is none.\<close>

lemma wh_wait_for_try:
  "wh_is ob w \<Longrightarrow> u32 (wn_to_msec d) \<noteq> WIN_INFINITE \<Longrightarrow> wh_wait_for t d w = wh_trywait t w"
  by (simp add: wh_wait_for_def wh_trywait_def wk_wait_def wh_is_def WIN_INFINITE_def split: option.split)

section \<open>Mutexes\<close>

text \<open>A critical section: its owner, and how often it entered. Leaving one that one is not in is undefined.\<close>

record wmutex =
  wm_owner :: "nat option"
  wm_count :: nat

definition wm_ctor :: wmutex where "wm_ctor = \<lparr>wm_owner = None, wm_count = 0\<rparr>"
definition wm_trylock :: "nat \<Rightarrow> wmutex \<Rightarrow> (bool \<times> wmutex) run" where
  "wm_trylock t m =
     (if wm_owner m = None \<or> wm_owner m = Some t then Ret (True, \<lparr>wm_owner = Some t, wm_count = wm_count m + 1\<rparr>)
      else Ret (False, m))"
definition wm_lock :: "nat \<Rightarrow> wmutex \<Rightarrow> wmutex run" where
  "wm_lock t m =
     (if wm_owner m = None \<or> wm_owner m = Some t then Ret \<lparr>wm_owner = Some t, wm_count = wm_count m + 1\<rparr> else Blocks)"
definition wm_unlock :: "nat \<Rightarrow> wmutex \<Rightarrow> wmutex run" where
  "wm_unlock t m =
     (if wm_owner m = Some t
      then Ret (if wm_count m = 1 then wm_ctor else m\<lparr>wm_count := wm_count m - 1\<rparr>) else Undef)"
definition wm_acquire :: "nat \<Rightarrow> wmutex \<Rightarrow> wmutex run" where "wm_acquire t m = wm_lock t m"
definition wm_release :: "nat \<Rightarrow> wmutex \<Rightarrow> wmutex run" where "wm_release t m = wm_unlock t m"
definition wm_tryacquire :: "nat \<Rightarrow> wmutex \<Rightarrow> (bool \<times> wmutex) run" where "wm_tryacquire t m = wm_trylock t m"

lemmas wm_defs = wm_acquire_def wm_release_def wm_lock_def wm_unlock_def wm_ctor_def wm_trylock_def

definition wm_can_lock :: "nat \<Rightarrow> wmutex \<Rightarrow> bool" where
  "wm_can_lock t m \<longleftrightarrow> m = wm_ctor \<or> (wm_owner m = Some t \<and> 0 < wm_count m)"

interpretation win_mutex: lockable "wm_acquire t" "wm_release t" "wm_can_lock t" "\<lambda>m. wm_owner m = Some t \<and> 0 < wm_count m"
  by unfold_locales (auto simp: wm_defs wm_can_lock_def)

definition wx_ctor :: "int \<Rightarrow> whandles \<Rightarrow> whandle" where "wx_ctor h k = wh_attach (wk_create h (WMutex None 0) k) (wh_ctor k)"
definition wx_release :: "nat \<Rightarrow> whandle \<Rightarrow> whandle run" where
  "wx_release t w = Ret (fst w, wk_release_mutex t (fst w) (snd w))"

lemma wx_ops:
  "wh_is (WMutex owner n) w \<Longrightarrow> wx_release t w =
     Ret (if owner = Some t then wh_set (if n = 1 then WMutex None 0 else WMutex owner (n - 1)) w else w)"
  by (simp add: wx_release_def wh_is_def wh_set_def wk_release_mutex_def)

lemma wh_set_set [simp]: "wh_is ob w \<Longrightarrow> wh_set ob (wh_set ob' w) = w"
  by (cases w) (auto simp: wh_is_def wh_set_def)

interpretation win_xmutex: lockable "wh_acquire t" "wx_release t"
  "\<lambda>w. wh_is (WMutex None 0) w \<or> (\<exists>n. wh_is (WMutex (Some t) (Suc n)) w)" "\<lambda>w. \<exists>n. wh_is (WMutex (Some t) (Suc n)) w"
  by unfold_locales (auto simp: wh_acquire_def wh_ops wx_ops gr0_conv_Suc simp del: split_paired_Ex)

section \<open>AtomicCounter\<close>

text \<open>Every operation is one interlocked call on a \<open>long\<close>, which wraps around and returns the new value,
  or the old one when a number is added. The result of \<open>-1\<close> and \<open>+1\<close> on what it returns is \<open>None\<close> where
  it overflows.\<close>

definition wa_ctor :: int where "wa_ctor = 0"
definition wa_ctor_val :: "int \<Rightarrow> int" where "wa_ctor_val v = v"
definition wa_ctor_copy :: "int \<Rightarrow> int" where "wa_ctor_copy ctr = ctr"
definition wa_load :: "int \<Rightarrow> (int \<times> int) option" where "wa_load v = Some (v, v)"
definition wa_preinc :: "int \<Rightarrow> (int \<times> int) option" where "wa_preinc v = (let v = s32 (v + 1) in Some (v, v))"
definition wa_postinc :: "int \<Rightarrow> (int \<times> int) option" where
  "wa_postinc v = (let v = s32 (v + 1) in map_option (\<lambda>r. (r, v)) (ck32 (v - 1)))"
definition wa_predec :: "int \<Rightarrow> (int \<times> int) option" where "wa_predec v = (let v = s32 (v - 1) in Some (v, v))"
definition wa_postdec :: "int \<Rightarrow> (int \<times> int) option" where
  "wa_postdec v = (let v = s32 (v - 1) in map_option (\<lambda>r. (r, v)) (ck32 (v + 1)))"
definition wa_assign :: "int \<Rightarrow> int \<Rightarrow> (int \<times> int) option" where "wa_assign n v = Some (n, n)"
definition wa_assign_copy :: "int \<Rightarrow> int \<Rightarrow> (int \<times> int) option" where "wa_assign_copy ctr v = Some (ctr, ctr)"
definition wa_add :: "int \<Rightarrow> int \<Rightarrow> (int \<times> int) option" where
  "wa_add n v = (let v = s32 (v + n) in Some (v, v))"
definition wa_add_copy :: "int \<Rightarrow> int \<Rightarrow> (int \<times> int) option" where
  "wa_add_copy ctr v = (let v = s32 (v + ctr) in Some (v, v))"

fun wa_do :: "at_op \<Rightarrow> int \<Rightarrow> (int \<times> int) option" where
  "wa_do (AtAssign n) = wa_assign n"
| "wa_do (AtAssignCopy n) = wa_assign_copy n"
| "wa_do (AtAdd n) = wa_add n"
| "wa_do AtLoad = wa_load"
| "wa_do AtLoadInt = wa_load"
| "wa_do AtPreInc = wa_preinc"
| "wa_do AtPostInc = wa_postinc"
| "wa_do AtPreDec = wa_predec"
| "wa_do AtPostDec = wa_postdec"

lemmas wa_defs = wa_assign_def wa_assign_copy_def wa_add_def wa_load_def wa_preinc_def wa_postinc_def wa_predec_def
  wa_postdec_def at_assign_def at_assign_copy_def at_add_def at_load_def at_load_int_def at_preinc_def at_postinc_def
  at_predec_def at_postdec_def

definition in_s32 :: "int \<Rightarrow> bool" where "in_s32 x \<longleftrightarrow> - 2147483648 \<le> x \<and> x < 2147483648"

fun at_arg_ok :: "at_op \<Rightarrow> bool" where
  "at_arg_ok (AtAssign n) = in_s32 n"
| "at_arg_ok (AtAssignCopy n) = in_s32 n"
| "at_arg_ok p = True"

lemma s32_in: "in_s32 x \<Longrightarrow> s32 x = x" "in_s32 (s32 x)"
  using s32_bounds [of x] by (auto simp: in_s32_def)

lemma s32_at_bounds: "s32 2147483648 = - 2147483648" "s32 (- 2147483649) = 2147483647"
  by (simp_all add: s32_def)

lemma s32_there_and_back:
  assumes "in_s32 v"
  shows "ck32 (s32 (v + 1) - 1) = Some r \<Longrightarrow> r = v" and "ck32 (s32 (v - 1) + 1) = Some r \<Longrightarrow> r = v"
proof -
  show "r = v" if "ck32 (s32 (v + 1) - 1) = Some r"
  proof (cases "v = 2147483647")
    case True
    with that s32_at_bounds(1) show ?thesis by (simp add: ck32_def)
  qed (use that assms in \<open>auto simp: ck32_def in_s32_def split: if_splits\<close>)
  show "r = v" if "ck32 (s32 (v - 1) + 1) = Some r"
  proof (cases "v = - 2147483648")
    case True
    with that s32_at_bounds(2) show ?thesis by (simp add: ck32_def)
  qed (use that assms in \<open>auto simp: ck32_def in_s32_def split: if_splits\<close>)
qed

text \<open>One operation: the same as the generic counter's where it is defined at all.\<close>

lemma wa_do_generic:
  assumes "wa_do p v = Some (r, v')" and "in_s32 v" and "at_arg_ok p"
  shows "at_do s32 p v = (r, v') \<and> in_s32 v'"
  using assms s32_there_and_back [OF assms(2), of r]
  by (cases p) (auto simp: wa_defs s32_in Let_def)

fun wa_run :: "at_op list \<Rightarrow> int \<Rightarrow> (int list \<times> int) option" where
  "wa_run [] v = Some ([], v)"
| "wa_run (p # ps) v = do { (r, v) \<leftarrow> wa_do p v; (rs, v) \<leftarrow> wa_run ps v; Some (r # rs, v) }"

section \<open>Recursive mutexes\<close>

text \<open>On Win32 the recursive mutex is the mutex. Calls of any threads, one after the other.\<close>

datatype rec_call = RLock nat | RTry nat | RUnlock nat

fun rec_calls :: "(nat \<Rightarrow> 's \<Rightarrow> 's run) \<Rightarrow> (nat \<Rightarrow> 's \<Rightarrow> (bool \<times> 's) run) \<Rightarrow> (nat \<Rightarrow> 's \<Rightarrow> 's run) \<Rightarrow>
    rec_call list \<Rightarrow> 's \<Rightarrow> (bool list \<times> 's) run" where
  "rec_calls lk tr ul [] s = Ret ([], s)"
| "rec_calls lk tr ul (RLock t # cs) s = run_then (lk t s) (rec_calls lk tr ul cs)"
| "rec_calls lk tr ul (RUnlock t # cs) s = run_then (ul t s) (rec_calls lk tr ul cs)"
| "rec_calls lk tr ul (RTry t # cs) s =
     run_then (tr t s) (\<lambda>(b, s). run_then (rec_calls lk tr ul cs s) (\<lambda>(bs, s). Ret (b # bs, s)))"

definition rm_try_alone :: "nat \<Rightarrow> rmutex \<Rightarrow> (bool \<times> rmutex) run" where
  "rm_try_alone t s = run_opt (rm_trylock False t s)"

definition wm_rm :: "wmutex \<Rightarrow> rmutex \<Rightarrow> bool" where
  "wm_rm m s \<longleftrightarrow> int (wm_count m) = rm_level s \<and> (if wm_count m = 0 then wm_owner m = None else wm_owner m = Some (rm_owner s))"

lemmas rm_alone_defs = rm_lt_acquire_def rm_acquire_def rm_lock_def rm_lock_again_def rm_enter_def rm_lt_release_def
  rm_release_def rm_unlock_def rm_try_alone_def rm_trylock_def

lemma rm_follows_wm:
  assumes "wm_rm m s" and "rm_level s < 2147483647"
  shows "wm_lock t m = Ret m' \<Longrightarrow> \<exists>s'. rm_lt_acquire t s = Ret s' \<and> wm_rm m' s' \<and> rm_level s' \<le> rm_level s + 1"
    and "wm_lock t m = Blocks \<Longrightarrow> rm_lt_acquire t s = Blocks"
    and "wm_trylock t m = Ret (b, m') \<Longrightarrow>
      \<exists>s'. rm_try_alone t s = Ret (b, s') \<and> wm_rm m' s' \<and> rm_level s' \<le> rm_level s + 1"
    and "wm_unlock t m = Ret m' \<Longrightarrow> \<exists>s'. rm_lt_release t s = Ret s' \<and> wm_rm m' s' \<and> rm_level s' \<le> rm_level s + 1"
proof -
  obtain ow n where m: "m = \<lparr>wm_owner = ow, wm_count = n\<rparr>" by (cases m)
  obtain g l where s: "s = \<lparr>rm_owner = g, rm_level = l\<rparr>" by (cases s)
  have r: "l = int n" "ow = (if n = 0 then None else Some g)" "l \<noteq> 2147483647"
    using assms by (auto simp: wm_rm_def m s split: if_splits)
  show "wm_lock t m = Ret m' \<Longrightarrow> \<exists>s'. rm_lt_acquire t s = Ret s' \<and> wm_rm m' s' \<and> rm_level s' \<le> rm_level s + 1"
    using r by (auto simp: wm_defs wm_rm_def rm_alone_defs m s split: if_splits)
  show "wm_lock t m = Blocks \<Longrightarrow> rm_lt_acquire t s = Blocks"
    using r by (auto simp: wm_defs rm_alone_defs m s split: if_splits)
  show "wm_trylock t m = Ret (b, m') \<Longrightarrow>
      \<exists>s'. rm_try_alone t s = Ret (b, s') \<and> wm_rm m' s' \<and> rm_level s' \<le> rm_level s + 1"
    using r by (auto simp: wm_defs wm_rm_def rm_alone_defs m s Let_def split: if_splits)
  show "wm_unlock t m = Ret m' \<Longrightarrow> \<exists>s'. rm_lt_release t s = Ret s' \<and> wm_rm m' s' \<and> rm_level s' \<le> rm_level s + 1"
    using r by (auto simp: wm_defs wm_rm_def rm_alone_defs m s Let_def split: if_splits)
qed

lemma wm_calls_generic:
  "wm_rm m s \<Longrightarrow> rm_level s + int (length cs) \<le> 2147483647 \<Longrightarrow>
   answers (rec_calls wm_lock wm_trylock wm_unlock cs m) \<noteq> Undef \<Longrightarrow>
   answers (rec_calls rm_lt_acquire rm_try_alone rm_lt_release cs s) = answers (rec_calls wm_lock wm_trylock wm_unlock cs m)"
proof (induction cs arbitrary: m s)
  case (Cons c cs)
  then have lt: "rm_level s < 2147483647" by simp
  have IH: "answers (rec_calls rm_lt_acquire rm_try_alone rm_lt_release cs s') = answers (rec_calls wm_lock wm_trylock wm_unlock cs m')"
    if "wm_rm m' s'" "rm_level s' \<le> rm_level s + 1" "answers (rec_calls wm_lock wm_trylock wm_unlock cs m') \<noteq> Undef" for m' s'
    using Cons.IH [OF that(1) _ that(3)] Cons.prems(2) that(2) by simp
  show ?case
  proof (cases c)
    case (RLock t)
    show ?thesis
    proof (cases "wm_lock t m")
      case (Ret m')
      with rm_follows_wm(1) [OF Cons.prems(1) lt] IH RLock Cons.prems(3) show ?thesis by fastforce
    next
      case Blocks
      with rm_follows_wm(2) [OF Cons.prems(1) lt] RLock show ?thesis by simp
    qed (use RLock Cons.prems(3) in simp)
  next
    case (RUnlock t)
    show ?thesis
    proof (cases "wm_unlock t m")
      case (Ret m')
      with rm_follows_wm(4) [OF Cons.prems(1) lt] IH RUnlock Cons.prems(3) show ?thesis by fastforce
    qed (use RUnlock Cons.prems(3) in \<open>auto simp: wm_unlock_def split: if_splits\<close>)
  next
    case (RTry t)
    obtain b m' where m': "wm_trylock t m = Ret (b, m')"
      by (cases "wm_owner m = None \<or> wm_owner m = Some t") (auto simp: wm_trylock_def)
    obtain s' where s': "rm_try_alone t s = Ret (b, s')" "wm_rm m' s'" "rm_level s' \<le> rm_level s + 1"
      using rm_follows_wm(3) [OF Cons.prems(1) lt m'] by blast
    have "answers (rec_calls wm_lock wm_trylock wm_unlock cs m') \<noteq> Undef"
      using Cons.prems(3) RTry m' by (auto simp: answers_cons)
    with IH [OF s'(2,3)] RTry m' s'(1) show ?thesis by (simp add: answers_cons)
  qed
qed simp

section \<open>Properties\<close>

text \<open>calls of any threads on a recursive mutex, made one after the other, answer on POSIX what they
  answer on Win32, or block where they block there, as long as no thread unlocks what it has not locked.\<close>

theorem recursive_mutexes_agree:
  assumes "length cs \<le> 2147483647" and "answers (rec_calls wm_lock wm_trylock wm_unlock cs wm_ctor) \<noteq> Undef"
  shows "answers (rec_calls rm_lt_acquire rm_try_alone rm_lt_release cs (rm_ctor g)) =
    answers (rec_calls wm_lock wm_trylock wm_unlock cs wm_ctor)"
  by (rule wm_calls_generic) (use assms in \<open>auto simp: wm_rm_def wm_ctor_def rm_ctor_def\<close>)

theorem recursive_mutexes_agree_witness:
  "answers (rec_calls rm_lt_acquire rm_try_alone rm_lt_release
     [RLock 1, RTry 1, RTry 2, RUnlock 1, RUnlock 1, RTry 2] (rm_ctor 7)) = Ret [True, False, True]"
  using recursive_mutexes_agree [of "[RLock 1, RTry 1, RTry 2, RUnlock 1, RUnlock 1, RTry 2]" 7]
  by (simp add: wm_defs)

text \<open>any operations of a Win32 counter, as long as none of its results overflows, give the results
  and the value of the generic counter's.\<close>

theorem atomic_counters_agree:
  "wa_run ps v = Some (rs, v') \<Longrightarrow> in_s32 v \<Longrightarrow> list_all at_arg_ok ps \<Longrightarrow> at_spec s32 ps v = (rs, v')"
proof (induction ps arbitrary: v rs)
  case (Cons p ps)
  then obtain r u qs where u: "wa_do p v = Some (r, u)" "wa_run ps u = Some (qs, v')" "rs = r # qs"
    by (auto simp: bind_eq_Some_conv)
  with wa_do_generic [OF u(1)] Cons show ?case by auto
qed simp

theorem atomic_counters_agree_witness:
  "at_spec s32 [AtPreInc, AtPostDec, AtAdd 7, AtLoad] 4 = ([5, 5, 11, 11], 11)"
  by (rule atomic_counters_agree) (simp_all add: wa_defs in_s32_def Let_def ck32_def)

text \<open>when the system cannot create a semaphore, its constructor leaves the null handle, which
  passes for a valid one, and a wait on it returns at once.\<close>

theorem failed_semaphore_looks_valid:
  assumes "cnt < 0 \<or> mx \<le> 0 \<or> mx < cnt" and "k 0 = None"
  shows "wh_is_valid (ws_ctor_max h cnt mx k) \<and> wh_wait t (ws_ctor_max h cnt mx k) = Ret (ws_ctor_max h cnt mx k)"
  using assms by (auto simp: ws_ctor_max_def wk_create_sem_def wh_attach_def wh_is_valid_def wh_defs INVALID_HANDLE_VALUE_def)

theorem failed_semaphore_looks_valid_witness:
  "wh_wait 1 (ws_ctor_max 8 2 1 Map.empty) = Ret (ws_ctor_max 8 2 1 Map.empty)"
  using failed_semaphore_looks_valid [of 2 1 Map.empty 8 1] by simp

text \<open>\<open>close\<close> keeps the handle: when another object has been given its number since, the destructor
  closes that one.\<close>

theorem closed_handle_is_closed_again:
  "(case wk_create (wh_handle w) ob (snd (wh_close w)) of (h, k) \<Rightarrow> k h = Some ob \<and> wh_dtor (fst (wh_close w), k) h = None)"
  by (simp add: wk_create_def wh_handle_def wh_close_def wh_dtor_def wk_close_def)

end
