(* ===== verification/ConditionData.thy ===== *)
theory ConditionData imports Monitor begin

text \<open>
  \<open>os/posix/CtrlrFx/ConditionVar.h\<close>: a condition variable with its mutex, and
  \<open>CtrlrFx/ConditionData.h\<close>: a value guarded by a condition variable, on which threads wait for
  the value to be, or to stop being, a given one.
\<close>

section \<open>ConditionVar\<close>

text \<open>The mutex, the error of the constructor, and the threads asleep on the variable.\<close>

record condvar =
  cv_err :: int
  cv_mutex :: mutex
  cv_sleepers :: "nat set"

text \<open>\<open>em\<close> and \<open>ec\<close> are the results of the initialisation calls, \<open>eno\<close> is \<open>errno\<close>. The
  constructors assert that the error is 0.\<close>

definition cv_ctor :: "int \<Rightarrow> int \<Rightarrow> int \<Rightarrow> condvar run" where
  "cv_ctor em ec eno =
     (let mu = mutex_ctor em; e = mutex_error mu; e = (if e = 0 \<and> ec < 0 then eno else e)
      in if e = 0 then Ret \<lparr>cv_err = e, cv_mutex = mu, cv_sleepers = {}\<rparr> else Undef)"

text \<open>The constructor on a caller's mutex makes a new one of a copy of its handle.\<close>

definition cv_ctor_mutex :: "mutex \<Rightarrow> int \<Rightarrow> int \<Rightarrow> condvar run" where
  "cv_ctor_mutex mu ec eno =
     (let e = (if ec < 0 then eno else 0)
      in if e = 0 then Ret \<lparr>cv_err = e, cv_mutex = mutex_ctor_handle (mx_holder mu) False, cv_sleepers = {}\<rparr> else Undef)"

definition cv_is_valid :: "condvar \<Rightarrow> bool" where "cv_is_valid cv \<longleftrightarrow> cv_err cv = 0"
definition cv_error :: "condvar \<Rightarrow> int" where "cv_error cv = cv_err cv"

definition cv_lock :: "nat \<Rightarrow> condvar \<Rightarrow> condvar run" where
  "cv_lock t cv = run_then (mutex_lock t (cv_mutex cv)) (\<lambda>mu. Ret (cv\<lparr>cv_mutex := mu\<rparr>))"
definition cv_trylock :: "nat \<Rightarrow> condvar \<Rightarrow> (bool \<times> condvar) run" where
  "cv_trylock t cv = run_then (mutex_trylock t (cv_mutex cv)) (\<lambda>(b, mu). Ret (b, cv\<lparr>cv_mutex := mu\<rparr>))"
definition cv_unlock :: "nat \<Rightarrow> condvar \<Rightarrow> condvar run" where
  "cv_unlock t cv = run_then (mutex_unlock t (cv_mutex cv)) (\<lambda>mu. Ret (cv\<lparr>cv_mutex := mu\<rparr>))"
definition cv_acquire :: "nat \<Rightarrow> condvar \<Rightarrow> condvar run" where "cv_acquire t cv = cv_lock t cv"
definition cv_tryacquire :: "nat \<Rightarrow> condvar \<Rightarrow> (bool \<times> condvar) run" where "cv_tryacquire t cv = cv_trylock t cv"
definition cv_release :: "nat \<Rightarrow> condvar \<Rightarrow> condvar run" where "cv_release t cv = cv_unlock t cv"

text \<open>A wait in two parts: it gives the mutex up and puts the thread to sleep at once; when the
  thread has been woken up, or its time is over, it takes the mutex again before it returns. The
  timed waits return whether the time was not over.\<close>

definition cv_wait :: "nat \<Rightarrow> condvar \<Rightarrow> condvar run" where
  "cv_wait t cv = run_then (cv_unlock t cv) (\<lambda>cv. Ret (cv\<lparr>cv_sleepers := insert t (cv_sleepers cv)\<rparr>))"
definition cv_wait_over :: "nat \<Rightarrow> condvar \<Rightarrow> condvar run" where
  "cv_wait_over t cv = (if t \<in> cv_sleepers cv then Blocks else cv_lock t cv)"
definition cv_wait_until_over :: "bool \<Rightarrow> nat \<Rightarrow> condvar \<Rightarrow> (bool \<times> condvar) run" where
  "cv_wait_until_over timeout t cv =
     (if t \<in> cv_sleepers cv \<and> \<not> timeout then Blocks
      else run_then (cv_lock t cv) (\<lambda>cv. Ret (\<not> timeout, cv\<lparr>cv_sleepers := cv_sleepers cv - {t}\<rparr>)))"

text \<open>\<open>u\<close> is the thread that the system chooses to wake up, if there is one.\<close>

definition cv_signal :: "nat \<Rightarrow> condvar \<Rightarrow> condvar" where
  "cv_signal u cv = cv\<lparr>cv_sleepers := cv_sleepers cv - {u}\<rparr>"
definition cv_broadcast :: "condvar \<Rightarrow> condvar" where "cv_broadcast cv = cv\<lparr>cv_sleepers := {}\<rparr>"

lemmas cv_defs = cv_lock_def cv_trylock_def cv_unlock_def cv_acquire_def cv_tryacquire_def cv_release_def
  cv_wait_def cv_wait_over_def cv_signal_def cv_broadcast_def mutex_lock_def mutex_unlock_def

text \<open>A condition variable is a lock, as \<open>Guard\<close> uses one.\<close>

interpretation condvar: lockable "cv_acquire t" "cv_release t"
  "\<lambda>cv. mutex_free (cv_mutex cv)" "\<lambda>cv. mutex_held t (cv_mutex cv)"
  by unfold_locales (auto simp: cv_defs mutex_free_def mutex_held_def)

text \<open>A thread that waits and is woken up holds the mutex again, as it did before.\<close>

lemma cv_wait_restores:
  "mutex_held t (cv_mutex cv) \<Longrightarrow> t \<notin> cv_sleepers cv \<Longrightarrow>
   run_then (cv_wait t cv) (\<lambda>cv. cv_wait_over t (cv_signal t cv)) = Ret cv"
  by (auto simp: cv_defs mutex_held_def)

section \<open>ConditionData\<close>

text \<open>The value; the constructors without one leave it as they find it (\<open>g\<close>).\<close>

record 'v cdata =
  cda_val :: 'v

definition cda_ctor :: "'v \<Rightarrow> 'v cdata" where "cda_ctor g = \<lparr>cda_val = g\<rparr>"
definition cda_ctor_val :: "'v \<Rightarrow> 'v cdata" where "cda_ctor_val v = \<lparr>cda_val = v\<rparr>"
definition cda_value :: "'v cdata \<Rightarrow> 'v" where "cda_value s = cda_val s"

text \<open>The methods pass by pass, as a thread that holds the lock makes them: on entry and after
  every wakeup. \<open>None\<close>: the thread waits on the condition variable. A wait that has timed out
  returns false without another look at the value.\<close>

definition cda_wait :: "'v \<Rightarrow> 'v cdata \<Rightarrow> 'v cdata option" where
  "cda_wait v s = (if cda_val s \<noteq> v then None else Some s)"
definition cda_wait_not :: "'v \<Rightarrow> 'v cdata \<Rightarrow> 'v cdata option" where
  "cda_wait_not v s = (if cda_val s = v then None else Some s)"
definition cda_wait_for :: "bool \<Rightarrow> 'v \<Rightarrow> 'v cdata \<Rightarrow> (bool \<times> 'v cdata) option" where
  "cda_wait_for timeout v s =
     (if timeout then Some (False, s) else if cda_val s \<noteq> v then None else Some (True, s))"
definition cda_wait_not_for :: "bool \<Rightarrow> 'v \<Rightarrow> 'v cdata \<Rightarrow> (bool \<times> 'v cdata) option" where
  "cda_wait_not_for timeout v s =
     (if timeout then Some (False, s) else if cda_val s = v then None else Some (True, s))"
definition cda_signal :: "'v \<Rightarrow> 'v cdata \<Rightarrow> wake \<times> 'v cdata" where
  "cda_signal v s = (Signal, s\<lparr>cda_val := v\<rparr>)"
definition cda_broadcast :: "'v \<Rightarrow> 'v cdata \<Rightarrow> wake \<times> 'v cdata" where
  "cda_broadcast v s = (Broadcast, s\<lparr>cda_val := v\<rparr>)"
definition cda_wait_and_signal :: "'v \<Rightarrow> 'v \<Rightarrow> 'v cdata \<Rightarrow> (wake \<times> 'v cdata) option" where
  "cda_wait_and_signal m n s = (if cda_val s \<noteq> m then None else Some (Signal, s\<lparr>cda_val := n\<rparr>))"
definition cda_wait_and_broadcast :: "'v \<Rightarrow> 'v \<Rightarrow> 'v cdata \<Rightarrow> (wake \<times> 'v cdata) option" where
  "cda_wait_and_broadcast m n s = (if cda_val s \<noteq> m then None else Some (Broadcast, s\<lparr>cda_val := n\<rparr>))"
definition cda_wait_not_and_signal :: "'v \<Rightarrow> 'v \<Rightarrow> 'v cdata \<Rightarrow> (wake \<times> 'v cdata) option" where
  "cda_wait_not_and_signal m n s = (if cda_val s = m then None else Some (Signal, s\<lparr>cda_val := n\<rparr>))"
definition cda_wait_not_and_broadcast :: "'v \<Rightarrow> 'v \<Rightarrow> 'v cdata \<Rightarrow> (wake \<times> 'v cdata) option" where
  "cda_wait_not_and_broadcast m n s = (if cda_val s = m then None else Some (Broadcast, s\<lparr>cda_val := n\<rparr>))"

text \<open>The methods that lock the object themselves: a guard around the others.\<close>

definition cda_lock_wait :: "'v \<Rightarrow> 'v cdata \<Rightarrow> 'v cdata option" where "cda_lock_wait v s = cda_wait v s"
definition cda_lock_wait_not :: "'v \<Rightarrow> 'v cdata \<Rightarrow> 'v cdata option" where "cda_lock_wait_not v s = cda_wait_not v s"
definition cda_lock_wait_for :: "bool \<Rightarrow> 'v \<Rightarrow> 'v cdata \<Rightarrow> (bool \<times> 'v cdata) option" where
  "cda_lock_wait_for timeout v s = cda_wait_for timeout v s"
definition cda_lock_wait_not_for :: "bool \<Rightarrow> 'v \<Rightarrow> 'v cdata \<Rightarrow> (bool \<times> 'v cdata) option" where
  "cda_lock_wait_not_for timeout v s = cda_wait_not_for timeout v s"
definition cda_lock_signal :: "'v \<Rightarrow> 'v cdata \<Rightarrow> wake \<times> 'v cdata" where "cda_lock_signal v s = cda_signal v s"
definition cda_lock_broadcast :: "'v \<Rightarrow> 'v cdata \<Rightarrow> wake \<times> 'v cdata" where "cda_lock_broadcast v s = cda_broadcast v s"

section \<open>Threads\<close>

datatype 'v cda_call = CWait 'v | CWaitNot 'v | CWaitFor 'v | CWaitNotFor 'v
  | CWaitSignal 'v 'v | CWaitBroadcast 'v 'v | CWaitNotSignal 'v 'v | CWaitNotBroadcast 'v 'v

fun cda_pass :: "'v cda_call \<Rightarrow> 'v cdata \<Rightarrow> (wake \<times> 'v cdata) option" where
  "cda_pass (CWait v) s = map_option (Pair NoWake) (cda_lock_wait v s)"
| "cda_pass (CWaitNot v) s = map_option (Pair NoWake) (cda_lock_wait_not v s)"
| "cda_pass (CWaitFor v) s = map_option (\<lambda>(r, s). (NoWake, s)) (cda_lock_wait_for False v s)"
| "cda_pass (CWaitNotFor v) s = map_option (\<lambda>(r, s). (NoWake, s)) (cda_lock_wait_not_for False v s)"
| "cda_pass (CWaitSignal m n) s = cda_wait_and_signal m n s"
| "cda_pass (CWaitBroadcast m n) s = cda_wait_and_broadcast m n s"
| "cda_pass (CWaitNotSignal m n) s = cda_wait_not_and_signal m n s"
| "cda_pass (CWaitNotBroadcast m n) s = cda_wait_not_and_broadcast m n s"

text \<open>A thread runs, sleeps in one of the waits, or has been woken up there.\<close>

datatype 'v cda_pc = CdRun | CdSleep "'v cda_call" | CdWoken "'v cda_call"

fun cda_wake :: "'v cda_pc \<Rightarrow> 'v cda_pc" where
  "cda_wake (CdSleep k) = CdWoken k"
| "cda_wake pc = pc"

fun cda_asleep :: "'v cda_pc \<Rightarrow> bool" where
  "cda_asleep (CdSleep k) = True"
| "cda_asleep pc = False"

datatype 'v cda_act = CdCall "'v cda_call" | CdResume | CdTimeout | CdSignal 'v | CdBroadcast 'v
  | CdPlainSignal | CdPlainBroadcast

definition cda_enter :: "'v cda_call \<Rightarrow> 'v cdata \<Rightarrow> ('v cda_pc \<times> wake \<times> 'v cdata) option" where
  "cda_enter k s = (case cda_pass k s of None \<Rightarrow> Some (CdSleep k, NoWake, s) | Some (w, s') \<Rightarrow> Some (CdRun, w, s'))"

fun cda_thread :: "nat \<Rightarrow> 'v cda_act \<Rightarrow> 'v cda_pc \<Rightarrow> 'v cdata \<Rightarrow> ('v cda_pc \<times> wake \<times> 'v cdata) option" where
  "cda_thread t (CdCall k) CdRun s = cda_enter k s"
| "cda_thread t CdResume (CdWoken k) s = cda_enter k s"
| "cda_thread t CdTimeout (CdSleep (CWaitFor v)) s = map_option (\<lambda>(r, s). (CdRun, NoWake, s)) (cda_lock_wait_for True v s)"
| "cda_thread t CdTimeout (CdSleep (CWaitNotFor v)) s = map_option (\<lambda>(r, s). (CdRun, NoWake, s)) (cda_lock_wait_not_for True v s)"
| "cda_thread t (CdSignal v) CdRun s = Some (CdRun, cda_lock_signal v s)"
| "cda_thread t (CdBroadcast v) CdRun s = Some (CdRun, cda_lock_broadcast v s)"
| "cda_thread t CdPlainSignal CdRun s = Some (CdRun, Signal, s)"
| "cda_thread t CdPlainBroadcast CdRun s = Some (CdRun, Broadcast, s)"
| "cda_thread t _ _ s = None"

text \<open>The discipline: the value is changed only by the methods that broadcast.\<close>

fun cda_call_broadcasts :: "'v cda_call \<Rightarrow> bool" where
  "cda_call_broadcasts (CWaitSignal m n) = False"
| "cda_call_broadcasts (CWaitNotSignal m n) = False"
| "cda_call_broadcasts k = True"

fun cda_act_broadcasts :: "'v cda_act \<Rightarrow> bool" where
  "cda_act_broadcasts (CdCall k) = cda_call_broadcasts k"
| "cda_act_broadcasts (CdSignal v) = False"
| "cda_act_broadcasts a = True"

definition cda_thread_bc :: "nat \<Rightarrow> 'v cda_act \<Rightarrow> 'v cda_pc \<Rightarrow> 'v cdata \<Rightarrow> ('v cda_pc \<times> wake \<times> 'v cdata) option" where
  "cda_thread_bc t a pc s = (if cda_act_broadcasts a then cda_thread t a pc s else None)"

text \<open>What a call waits for.\<close>

fun cda_met :: "'v cda_call \<Rightarrow> 'v \<Rightarrow> bool" where
  "cda_met (CWait v) x \<longleftrightarrow> x = v"
| "cda_met (CWaitNot v) x \<longleftrightarrow> x \<noteq> v"
| "cda_met (CWaitFor v) x \<longleftrightarrow> x = v"
| "cda_met (CWaitNotFor v) x \<longleftrightarrow> x \<noteq> v"
| "cda_met (CWaitSignal m n) x \<longleftrightarrow> x = m"
| "cda_met (CWaitBroadcast m n) x \<longleftrightarrow> x = m"
| "cda_met (CWaitNotSignal m n) x \<longleftrightarrow> x \<noteq> m"
| "cda_met (CWaitNotBroadcast m n) x \<longleftrightarrow> x \<noteq> m"

lemmas cda_defs = cda_wait_def cda_wait_not_def cda_wait_for_def cda_wait_not_for_def cda_signal_def cda_broadcast_def
  cda_wait_and_signal_def cda_wait_and_broadcast_def cda_wait_not_and_signal_def cda_wait_not_and_broadcast_def
  cda_lock_wait_def cda_lock_wait_not_def cda_lock_wait_for_def cda_lock_wait_not_for_def cda_lock_signal_def
  cda_lock_broadcast_def

lemma cda_pass_met: "cda_pass k s = None \<longleftrightarrow> \<not> cda_met k (cda_val s)"
  by (cases k) (auto simp: cda_defs)

lemma cda_pass_wake:
  "cda_call_broadcasts k \<Longrightarrow> cda_pass k s = Some (w, s') \<Longrightarrow> w = Broadcast \<or> w = NoWake \<and> s' = s"
  by (cases k) (auto simp: cda_defs split: if_splits)

text \<open>No thread sleeps on a condition that holds.\<close>

fun cda_pc_ok :: "'v cdata \<Rightarrow> 'v cda_pc \<Rightarrow> bool" where
  "cda_pc_ok s (CdSleep k) \<longleftrightarrow> cda_call_broadcasts k \<and> \<not> cda_met k (cda_val s)"
| "cda_pc_ok s (CdWoken k) \<longleftrightarrow> cda_call_broadcasts k"
| "cda_pc_ok s CdRun \<longleftrightarrow> True"

definition cda_inv :: "'v cdata \<times> 'v cda_pc list \<Rightarrow> bool" where
  "cda_inv c \<longleftrightarrow> (\<forall>pc\<in>set (snd c). cda_pc_ok (fst c) pc)"

lemma cda_pc_ok_wake: "cda_pc_ok s pc \<Longrightarrow> cda_pc_ok s' (cda_wake pc)"
  by (cases pc) auto

lemma cda_enter_ok:
  "cda_call_broadcasts k \<Longrightarrow> cda_enter k s = Some (pc, w, s') \<Longrightarrow> cda_pc_ok s' pc \<and> (w = Broadcast \<or> w = NoWake \<and> s' = s)"
  using cda_pass_met [of k s] cda_pass_wake [of k s] by (auto simp: cda_enter_def split: option.splits)

lemma cda_thread_bc_ok:
  assumes "cda_thread_bc t a pc s = Some (pc', w, s')" "cda_pc_ok s pc"
  shows "cda_pc_ok s' pc' \<and> (w = Broadcast \<or> s' = s)"
proof -
  have th: "cda_thread t a pc s = Some (pc', w, s')" and bc: "cda_act_broadcasts a"
    using assms(1) by (auto simp: cda_thread_bc_def split: if_splits)
  show ?thesis
  proof (cases "\<exists>k. cda_call_broadcasts k \<and> cda_enter k s = Some (pc', w, s')")
    case True
    then show ?thesis using cda_enter_ok by blast
  next
    case False
    then show ?thesis using th bc assms(2)
      by (cases "(t, a, pc, s)" rule: cda_thread.cases) (auto simp: cda_defs)
  qed
qed

lemma cda_inv_upd:
  assumes "cda_inv (s, pcs)" "t < length pcs" "cda_thread_bc t a (pcs ! t) s = Some (pc', w, s')"
  shows "w \<noteq> Broadcast \<Longrightarrow> cda_inv (s', pcs[t := pc'])" "cda_inv (s', map cda_wake (pcs[t := pc']))"
proof -
  have ok: "cda_pc_ok s (pcs ! t)" and all: "\<forall>pc\<in>set pcs. cda_pc_ok s pc" using assms(1,2) by (auto simp: cda_inv_def)
  note step = cda_thread_bc_ok [OF assms(3) ok]
  have new: "\<forall>pc\<in>set (pcs[t := pc']). cda_pc_ok s' pc \<or> pc \<in> set pcs"
    using step set_update_subset_insert [of pcs t pc'] by auto
  show "w \<noteq> Broadcast \<Longrightarrow> cda_inv (s', pcs[t := pc'])" using new step all by (auto simp: cda_inv_def)
  show "cda_inv (s', map cda_wake (pcs[t := pc']))" using new all by (auto simp: cda_inv_def intro: cda_pc_ok_wake)
qed

lemma cda_inv_wake:
  assumes inv: "cda_inv (s, pcs)"
  shows "cda_inv (s, pcs[u := cda_wake (pcs ! u)])"
proof (cases "u < length pcs")
  case True
  then have "cda_pc_ok s (cda_wake (pcs ! u))" using inv by (auto simp: cda_inv_def intro: cda_pc_ok_wake)
  then show ?thesis using inv set_update_subset_insert [of pcs u "cda_wake (pcs ! u)"] by (auto simp: cda_inv_def)
qed (use inv in \<open>simp add: list_update_beyond\<close>)

interpretation cond_data: monitor_invariant cda_thread_bc cda_wake cda_asleep cda_inv
  by unfold_locales (auto intro: cda_inv_upd cda_inv_wake)

abbreviation cda_reach :: "'v cdata \<times> 'v cda_pc list \<Rightarrow> 'v cdata \<times> 'v cda_pc list \<Rightarrow> bool" where
  "cda_reach \<equiv> mon_reach cda_thread_bc cda_wake cda_asleep"

section \<open>Properties\<close>

text \<open>While the value is changed only by the methods that broadcast, no thread sleeps on a
  condition that holds: whatever the threads wait for, and in every interleaving of waits, timed
  waits, spurious wakeups, plain signals and changes, the condition of every sleeping thread is
  false.\<close>

theorem condition_data_broadcast_wakes_everyone:
  assumes "cda_reach (cda_ctor_val v, replicate n CdRun) (s, pcs)" "CdSleep k \<in> set pcs"
  shows "\<not> cda_met k (cda_val s)"
proof -
  have "cda_inv (cda_ctor_val v, replicate n CdRun)" by (simp add: cda_inv_def)
  then have "cda_inv (s, pcs)" by (rule cond_data.reach_inv [OF assms(1)])
  then show ?thesis using assms(2) by (force simp: cda_inv_def)
qed

theorem condition_data_broadcast_wakes_everyone_witness:
  "cda_reach (cda_ctor_val 0, replicate 2 CdRun) (cda_ctor_val (2::nat), [CdSleep (CWait 1), CdRun]) \<and>
   \<not> cda_met (CWait 1) (2::nat)"
proof -
  let ?s = "cda_ctor_val (0::nat)" and ?s2 = "cda_ctor_val (2::nat)"
  have "cda_reach (?s, [CdRun, CdRun]) (?s, [CdRun, CdRun])" by (rule mon_refl)
  from mon_more [OF this mon_quiet [of 0 _ _ "CdCall (CWait 1)" _ "CdSleep (CWait 1)" ?s]]
  have "cda_reach (?s, [CdRun, CdRun]) (?s, [CdSleep (CWait 1), CdRun])"
    by (simp add: cda_thread_bc_def cda_enter_def cda_defs cda_ctor_val_def)
  from mon_more [OF this mon_broadcast [of 1 _ _ "CdBroadcast 2" _ CdRun ?s2]]
  have "cda_reach (?s, [CdRun, CdRun]) (?s2, [CdWoken (CWait 1), CdRun])"
    by (simp add: cda_thread_bc_def cda_defs cda_ctor_val_def)
  from mon_more [OF this mon_quiet [of 0 _ _ CdResume _ "CdSleep (CWait 1)" ?s2]]
  have r: "cda_reach (?s, replicate 2 CdRun) (?s2, [CdSleep (CWait 1), CdRun])"
    by (simp add: cda_thread_bc_def cda_enter_def cda_defs cda_ctor_val_def numeral_2_eq_2)
  show ?thesis
    using r condition_data_broadcast_wakes_everyone [OF r, of "CWait 1"] by (simp add: cda_ctor_val_def)
qed

text \<open>With \<open>signal\<close> the one thread that is woken up may be waiting for another value: here the
  value is 1, the thread that waits for 1 sleeps, and no wakeup is on its way.\<close>

theorem condition_data_signal_wakes_the_wrong_thread:
  "mon_reach cda_thread cda_wake cda_asleep (cda_ctor_val (0::nat), [CdRun, CdRun, CdRun])
     (cda_ctor_val 1, [CdSleep (CWait 1), CdSleep (CWait 2), CdRun])"
proof -
  let ?s = "cda_ctor_val (0::nat)" and ?s1 = "cda_ctor_val (1::nat)"
  let ?reach = "mon_reach cda_thread cda_wake cda_asleep (?s, [CdRun, CdRun, CdRun])"
  note d = cda_enter_def cda_defs cda_ctor_val_def
  have "?reach (?s, [CdRun, CdRun, CdRun])" by (rule mon_refl)
  from mon_more [OF this mon_quiet [of 0 _ _ "CdCall (CWait 1)" _ "CdSleep (CWait 1)" ?s]]
  have "?reach (?s, [CdSleep (CWait 1), CdRun, CdRun])" by (simp add: d)
  from mon_more [OF this mon_quiet [of 1 _ _ "CdCall (CWait 2)" _ "CdSleep (CWait 2)" ?s]]
  have "?reach (?s, [CdSleep (CWait 1), CdSleep (CWait 2), CdRun])" by (simp add: d)
  from mon_more [OF this mon_signal [of 2 _ _ "CdSignal 1" _ CdRun ?s1 1]]
  have "?reach (?s1, [CdSleep (CWait 1), CdWoken (CWait 2), CdRun])" by (simp add: d)
  from mon_more [OF this mon_quiet [of 1 _ _ CdResume _ "CdSleep (CWait 2)" ?s1]]
  show ?thesis by (simp add: d)
qed

end
