(* ===== verification/PortsAgree.thy ===== *)
theory PortsAgree imports VdkSync EcosSync WinSync ConditionData begin

text \<open>
  The classes that every port has, side by side: what a client of \<open>Semaphore\<close>, \<open>BinarySemaphore\<close>,
  \<open>AutoResetEvent\<close>, \<open>Mutex\<close> and \<open>ConditionVar\<close> sees is the same on POSIX, VDK, eCos and Win32.
\<close>



text \<open>binary semaphores and events with automatic reset answer any calls as a counter that stops at
  one: on VDK, eCos and Win32, and the event made of a condition variable.\<close>

theorem binary_semaphores_agree:
  assumes "i \<noteq> VDK_INVALID"
  shows "\<forall>r\<in>{answers (sem_calls vs_post vs_wait vs_trywait cs (vb_ctor_init i ini k)),
       answers (sem_calls eb_post eb_wait eb_trywait cs (eb_ctor_init ini)),
       answers (sem_calls ws_post (wh_wait t) (wh_trywait t) cs (wb_ctor_init h ini w)),
       answers (sem_calls we_signal (wh_wait t) (wh_trywait t) cs (we_auto_sig h ini w)),
       answers (sem_calls ev_post_alone ev_wait_alone ev_try_alone cs (ev_ctor_auto_sig ini))}.
     r = answers (ct_calls 1 cs (ind ini))"
proof -
  have "answers (sem_calls vs_post vs_wait vs_trywait cs (vb_ctor_init i ini k)) = answers (ct_calls 1 cs (ind ini))"
    using assms by (intro vdk_sem.calls_saturate) (auto simp: vb_ctor_init_def vs_ctor_max_def ks_create_def vs_has_def)
  moreover have "answers (sem_calls eb_post eb_wait eb_trywait cs (eb_ctor_init ini)) = answers (ct_calls 1 cs (ind ini))"
    by (intro ecos_bin.calls_saturate) (auto simp: eb_ctor_init_def eb_value_def)
  moreover have "answers (sem_calls ws_post (wh_wait t) (wh_trywait t) cs (wb_ctor_init h ini w)) = answers (ct_calls 1 cs (ind ini))"
    by (intro win_sem.calls_saturate)
      (auto simp: wb_ctor_init_def ws_ctor_max_def wk_create_sem_def wk_create_def wh_attach_def wh_is_def)
  moreover have "answers (sem_calls we_signal (wh_wait t) (wh_trywait t) cs (we_auto_sig h ini w)) = answers (ct_calls 1 cs (ind ini))"
    by (intro win_event.calls_saturate)
      (auto simp: we_auto_sig_def we_ctor_def WE_AUTO_RESET_def wk_create_def wh_attach_def wh_is_def)
  moreover have "answers (sem_calls ev_post_alone ev_wait_alone ev_try_alone cs (ev_ctor_auto_sig ini)) = answers (ct_calls 1 cs (ind ini))"
    by (intro auto_event.calls_saturate) (auto simp: ev_ctor_auto_sig_def ev_ctor_def EV_AUTO_RESET_def)
  ultimately show ?thesis by simp
qed

theorem binary_semaphores_agree_witness:
  "answers (sem_calls ws_post (wh_wait 0) (wh_trywait 0) [SPost, SPost, STry, STry] (wb_ctor_init 8 False Map.empty)) = Ret [True, False]"
  using binary_semaphores_agree [of 3 "[SPost, SPost, STry, STry]" False Map.empty 0 8 Map.empty]
  by (simp add: ct_defs VDK_INVALID_def)

text \<open>a guard, however often it releases and acquires again in its life, leaves its lock as it was:
  the mutexes of the four systems, the mutex object of Win32, and condition variables.\<close>

theorem guards_restore_every_lock:
  assumes "mutex_free m" and "vs_has 1 1 v" and "em_alive e" and "em_holder e = None" and "wm_can_lock t x"
    and "wh_is (WMutex None 0) h" and "mutex_free (cv_mutex c)" and "em_alive (ecv_mutex d)" and "em_holder (ecv_mutex d) = None"
  shows "guard_life \<lparr>lt_acquire = mutex_acquire t, lt_release = mutex_release t\<rparr> cs m = Ret m \<and>
    guard_life \<lparr>lt_acquire = vm_acquire, lt_release = vm_release\<rparr> cs v = Ret v \<and>
    guard_life \<lparr>lt_acquire = em_acquire t, lt_release = em_release t\<rparr> cs e = Ret e \<and>
    guard_life \<lparr>lt_acquire = wm_acquire t, lt_release = wm_release t\<rparr> cs x = Ret x \<and>
    guard_life \<lparr>lt_acquire = wh_acquire t, lt_release = wx_release t\<rparr> cs h = Ret h \<and>
    guard_life \<lparr>lt_acquire = cv_acquire t, lt_release = cv_release t\<rparr> cs c = Ret c \<and>
    guard_life \<lparr>lt_acquire = ecv_acquire t, lt_release = ecv_release t\<rparr> cs d = Ret d"
  using assms
  by (intro conjI) (simp_all add: mutex.guard_life_restores [of _ t] vdk_mutex.guard_life_restores
    ecos_mutex.guard_life_restores [of _ t] win_mutex.guard_life_restores [of _ t] win_xmutex.guard_life_restores [of _ t]
    condvar.guard_life_restores [of _ t] ecos_condvar.guard_life_restores [of _ t])

theorem guards_restore_every_lock_witness:
  "guard_life \<lparr>lt_acquire = vm_acquire, lt_release = vm_release\<rparr> [False, True, False, False] (vm_ctor 3 Map.empty) = Ret (vm_ctor 3 Map.empty)"
proof -
  obtain c where c: "cv_ctor 0 0 0 = Ret c" by (simp add: cv_ctor_def mutex_ctor_def mutex_error_def)
  have "vs_has 1 1 (vm_ctor 3 Map.empty)" by (simp add: vm_ctor_def ks_create_def vs_has_def VDK_INVALID_def)
  with c show ?thesis
    using guards_restore_every_lock [of "mutex_ctor 0" "vm_ctor 3 Map.empty" em_ctor 1 wm_ctor "wx_ctor 8 Map.empty" c ecv_ctor
        "[False, True, False, False]"]
    by (auto simp: mutex_free_def mutex_ctor_def em_ctor_def wm_can_lock_def wx_ctor_def wk_create_def wh_attach_def wh_is_def
        ecv_ctor_def cv_ctor_def mutex_error_def)
qed

end
