(* ===== verification/PortThreads.thy ===== *)
theory PortThreads imports EcosSync WinSync Threads begin

text \<open>
  Active objects and timers of the ports: \<open>os/ecos/CtrlrFx/Thread.h\<close> with \<open>src/os/ecos/Thread.cpp\<close>,
  \<open>os/ecos/CtrlrFx/Timer.h\<close> with \<open>src/os/ecos/Timer.cpp\<close>, and \<open>os/Win32/CtrlrFx/Thread.h\<close> with
  \<open>src/os/Win32/Thread.cpp\<close>. What the systems keep of a thread and of an alarm is part of the state;
  results of system calls and what the clients' code returns are arguments.
\<close>

section \<open>Threads on eCos\<close>

text \<open>A thread is created suspended; it runs \<open>run\<close>, then, with the event signaled, \<open>close\<close>, and exits. The
  object has the array that is the thread's stack.\<close>

datatype eth_os = ESuspended | ERunning | EClosing | EExited

record eth =
  eth_prio :: int
  eth_quit :: bool
  eth_done :: osev
  eth_os :: eth_os
  eth_stack :: "int option"

definition ETH_DFLT_STACK_SIZE :: int where "ETH_DFLT_STACK_SIZE = 2048"
definition ETH_HIGHEST :: int where "ETH_HIGHEST = 1"
definition ETH_NORMAL :: int where "ETH_NORMAL = 16"
definition ETH_LOWEST :: int where "ETH_LOWEST = 30"

definition eth_create :: "int \<Rightarrow> int \<Rightarrow> eth \<Rightarrow> eth" where
  "eth_create prio stackSize th = th\<lparr>eth_stack := Some stackSize, eth_prio := prio, eth_os := ESuspended\<rparr>"

text \<open>\<open>g\<close> is the object before its constructor has run; its event has been constructed.\<close>

definition eth_ctor :: "eth \<Rightarrow> int \<Rightarrow> eth" where
  "eth_ctor g prio = eth_create prio ETH_DFLT_STACK_SIZE (g\<lparr>eth_done := ev_ctor_manual, eth_quit := False\<rparr>)"
definition eth_ctor_stack :: "eth \<Rightarrow> int \<Rightarrow> int \<Rightarrow> eth" where
  "eth_ctor_stack g prio n = eth_create prio n (g\<lparr>eth_done := ev_ctor_manual, eth_quit := False\<rparr>)"
definition eth_ctor_name :: "eth \<Rightarrow> int \<Rightarrow> int \<Rightarrow> string \<Rightarrow> eth" where
  "eth_ctor_name g prio n name = eth_create prio n (g\<lparr>eth_done := ev_ctor_manual, eth_quit := False\<rparr>)"

text \<open>Freeing the stack of a thread that still runs is undefined, unless \<open>cyg_thread_delete\<close> has stopped
  the thread (\<open>stopped\<close>).\<close>

definition eth_dtor :: "bool \<Rightarrow> eth \<Rightarrow> eth run" where
  "eth_dtor stopped th =
     (if stopped \<or> eth_os th = ESuspended \<or> eth_os th = EExited then Ret (th\<lparr>eth_os := EExited, eth_stack := None\<rparr>) else Undef)"

definition eth_activate :: "eth \<Rightarrow> bool \<times> eth" where
  "eth_activate th = (True, if eth_os th = ESuspended then th\<lparr>eth_os := ERunning\<rparr> else th)"

text \<open>\<open>startup\<close>: \<open>run\<close> has returned and the event is signaled; \<open>close\<close> has returned.\<close>

definition eth_startup_signal :: "eth \<Rightarrow> eth" where
  "eth_startup_signal th = th\<lparr>eth_done := snd (ev_signal (eth_done th)), eth_os := EClosing\<rparr>"
definition eth_startup_return :: "eth \<Rightarrow> eth" where "eth_startup_return th = th\<lparr>eth_os := EExited\<rparr>"

definition eth_wait :: "eth \<Rightarrow> eth run" where
  "eth_wait th = (case ev_wait (eth_done th) of None \<Rightarrow> Blocks | Some e \<Rightarrow> Ret (th\<lparr>eth_done := e\<rparr>))"
definition eth_wait_for :: "bool \<Rightarrow> eth \<Rightarrow> (bool \<times> eth) run" where
  "eth_wait_for timeout th =
     (case ev_wait_for timeout (eth_done th) of None \<Rightarrow> Blocks | Some (b, e) \<Rightarrow> Ret (b, th\<lparr>eth_done := e\<rparr>))"

definition eth_request_quit :: "eth \<Rightarrow> eth" where "eth_request_quit th = th\<lparr>eth_quit := True\<rparr>"
definition eth_set_priority :: "int \<Rightarrow> eth \<Rightarrow> bool \<times> eth" where
  "eth_set_priority prio th =
     (if prio < ETH_HIGHEST \<or> prio > ETH_LOWEST then (False, th) else (True, th\<lparr>eth_prio := prio\<rparr>))"
definition eth_priority :: "eth \<Rightarrow> int" where "eth_priority th = eth_prio th"

text \<open>The static functions work on the running thread, of which \<open>cur\<close> is the priority.\<close>

definition eth_curr_set :: "int \<Rightarrow> int \<Rightarrow> bool \<times> int" where
  "eth_curr_set prio cur = (if prio < ETH_HIGHEST \<or> prio > ETH_LOWEST then (False, cur) else (True, prio))"
definition eth_curr :: "int \<Rightarrow> int" where "eth_curr cur = cur"
definition eth_sleep :: "int \<Rightarrow> int" where "eth_sleep d = ec_tb_ticks d"
definition eth_main :: "(int \<Rightarrow> int) \<Rightarrow> int \<Rightarrow> int" where
  "eth_main app cur = (case eth_curr_set ETH_NORMAL cur of (ok, cur) \<Rightarrow> app cur)"

inductive eth_step :: "eth \<Rightarrow> eth \<Rightarrow> bool" where
  eth_activates: "eth_activate th = (b, th') \<Longrightarrow> eth_step th th'"
| eth_signals: "eth_os th = ERunning \<Longrightarrow> eth_step th (eth_startup_signal th)"
| eth_returns: "eth_os th = EClosing \<Longrightarrow> eth_step th (eth_startup_return th)"
| eth_waits: "eth_wait th = Ret th' \<Longrightarrow> eth_step th th'"
| eth_waits_for: "eth_wait_for timeout th = Ret (b, th') \<Longrightarrow> eth_step th th'"
| eth_quits: "eth_step th (eth_request_quit th)"
| eth_sets: "eth_set_priority p th = (b, th') \<Longrightarrow> eth_step th th'"

inductive eth_reach :: "eth \<Rightarrow> eth \<Rightarrow> bool" where
  eth_refl: "eth_reach th th"
| eth_more: "eth_reach th th' \<Longrightarrow> eth_step th' th'' \<Longrightarrow> eth_reach th th''"

definition eth_inv :: "eth \<Rightarrow> bool" where
  "eth_inv th \<longleftrightarrow> ev_manual (eth_done th) \<and> (ev_sig (eth_done th) \<longleftrightarrow> eth_os th = EClosing \<or> eth_os th = EExited) \<and>
     eth_stack th \<noteq> None"

lemmas eth_defs = eth_activate_def eth_startup_signal_def eth_startup_return_def eth_wait_def eth_wait_for_def
  eth_request_quit_def eth_set_priority_def ev_signal_def ev_wait_def ev_wait_for_def

lemma eth_step_inv: "eth_step th th' \<Longrightarrow> eth_inv th \<Longrightarrow> eth_inv th'"
  by (induction rule: eth_step.induct) (auto simp: eth_inv_def eth_defs split: if_splits option.splits)

lemma eth_reach_inv: "eth_reach th th' \<Longrightarrow> eth_inv th \<Longrightarrow> eth_inv th'"
  by (induction rule: eth_reach.induct) (auto intro: eth_step_inv)

lemma eth_ctor_inv: "eth_inv (eth_ctor g prio)"
  by (simp add: eth_inv_def eth_ctor_def eth_create_def ev_ctor_manual_def ev_ctor_def EV_MANUAL_RESET_def)

section \<open>Threads on Win32\<close>

text \<open>A thread is an object of the system, of which the library has the handle.\<close>

record wth =
  wth_handle :: whandle
  wth_quit :: bool

definition WTH_DFLT_STACK_SIZE :: int where "WTH_DFLT_STACK_SIZE = 4096"

text \<open>\<open>_beginthreadex\<close> gives the handle \<open>h\<close>, with a thread that is suspended, or the null handle
  (\<open>fails\<close>). \<open>SetThreadPriority\<close> fails for a handle that is no thread's and where \<open>levels\<close> does not have
  the priority.\<close>

definition wk_begin_thread :: "bool \<Rightarrow> int \<Rightarrow> whandles \<Rightarrow> int \<times> whandles" where
  "wk_begin_thread fails h k = (if fails then (0, k) else wk_create h (WThread WSuspended 0) k)"
definition wk_set_prio :: "int set \<Rightarrow> int \<Rightarrow> int \<Rightarrow> whandles \<Rightarrow> bool \<times> whandles" where
  "wk_set_prio levels h prio k =
     (case k h of
        Some (WThread st p) \<Rightarrow> if prio \<in> levels then (True, k(h \<mapsto> WThread st prio)) else (False, k)
      | _ \<Rightarrow> (False, k))"
definition wk_resume :: "int \<Rightarrow> whandles \<Rightarrow> int \<times> whandles" where
  "wk_resume h k =
     (case k h of
        Some (WThread st p) \<Rightarrow> if st = WSuspended then (1, k(h \<mapsto> WThread WRunning p)) else (0, k)
      | _ \<Rightarrow> (4294967295, k))"

definition wth_create :: "bool \<Rightarrow> int \<Rightarrow> int \<Rightarrow> wth \<Rightarrow> wth" where
  "wth_create fails h stackSize th =
     th\<lparr>wth_handle := wh_attach (wk_begin_thread fails h (snd (wth_handle th))) (wth_handle th)\<rparr>"
definition wth_set_priority :: "int set \<Rightarrow> int \<Rightarrow> wth \<Rightarrow> bool \<times> wth" where
  "wth_set_priority levels prio th =
     (case wk_set_prio levels (fst (wth_handle th)) prio (snd (wth_handle th)) of (ok, k) \<Rightarrow>
        (ok, th\<lparr>wth_handle := (fst (wth_handle th), k)\<rparr>))"
definition wth_ctor :: "int set \<Rightarrow> bool \<Rightarrow> int \<Rightarrow> int \<Rightarrow> whandles \<Rightarrow> wth" where
  "wth_ctor levels fails h prio k =
     snd (wth_set_priority levels prio (wth_create fails h WTH_DFLT_STACK_SIZE \<lparr>wth_handle = wh_ctor k, wth_quit = False\<rparr>))"
definition wth_ctor_stack :: "int set \<Rightarrow> bool \<Rightarrow> int \<Rightarrow> int \<Rightarrow> int \<Rightarrow> whandles \<Rightarrow> wth" where
  "wth_ctor_stack levels fails h prio n k =
     snd (wth_set_priority levels prio (wth_create fails h n \<lparr>wth_handle = wh_ctor k, wth_quit = False\<rparr>))"
definition wth_ctor_name :: "int set \<Rightarrow> bool \<Rightarrow> int \<Rightarrow> int \<Rightarrow> int \<Rightarrow> string \<Rightarrow> whandles \<Rightarrow> wth" where
  "wth_ctor_name levels fails h prio n name k =
     snd (wth_set_priority levels prio (wth_create fails h n \<lparr>wth_handle = wh_ctor k, wth_quit = False\<rparr>))"

definition wth_activate :: "wth \<Rightarrow> bool \<times> wth" where
  "wth_activate th =
     (case wk_resume (fst (wth_handle th)) (snd (wth_handle th)) of (r, k) \<Rightarrow>
        (r \<noteq> u32 (-1), th\<lparr>wth_handle := (fst (wth_handle th), k)\<rparr>))"
definition wth_priority :: "wth \<Rightarrow> int option" where
  "wth_priority th = (case snd (wth_handle th) (fst (wth_handle th)) of Some (WThread st p) \<Rightarrow> Some p | _ \<Rightarrow> None)"
definition wth_request_quit :: "wth \<Rightarrow> wth" where "wth_request_quit th = th\<lparr>wth_quit := True\<rparr>"
definition wth_curr_set :: "int set \<Rightarrow> int \<Rightarrow> int \<Rightarrow> bool \<times> int" where
  "wth_curr_set levels prio cur = (if prio \<in> levels then (True, prio) else (False, cur))"
definition wth_curr :: "int \<Rightarrow> int" where "wth_curr cur = cur"
definition wth_sleep :: "int \<Rightarrow> int" where "wth_sleep d = u32 (wn_to_msec d)"

text \<open>\<open>startup\<close>, in the new thread, ends it with what \<open>run\<close> returned when \<open>close\<close> has returned.\<close>

definition wth_startup_return :: "int \<Rightarrow> wth \<Rightarrow> int \<times> wth" where
  "wth_startup_return ret th =
     (ret, case snd (wth_handle th) (fst (wth_handle th)) of
        Some (WThread st p) \<Rightarrow> th\<lparr>wth_handle := wh_set (WThread WEnded p) (wth_handle th)\<rparr>
      | _ \<Rightarrow> th)"

text \<open>The waits are those of the handle. \<open>me\<close> is the calling thread.\<close>

definition wth_wait :: "nat \<Rightarrow> wth \<Rightarrow> wth run" where
  "wth_wait me th = run_then (wh_wait me (wth_handle th)) (\<lambda>w. Ret (th\<lparr>wth_handle := w\<rparr>))"
definition wth_wait_for :: "nat \<Rightarrow> int \<Rightarrow> wth \<Rightarrow> (bool \<times> wth) run" where
  "wth_wait_for me d th = run_then (wh_wait_for me d (wth_handle th)) (\<lambda>(b, w). Ret (b, th\<lparr>wth_handle := w\<rparr>))"

definition wth_is :: "wthread \<Rightarrow> wth \<Rightarrow> bool" where "wth_is st th \<longleftrightarrow> (\<exists>p. wh_is (WThread st p) (wth_handle th))"

inductive wth_step :: "wth \<Rightarrow> wth \<Rightarrow> bool" where
  wth_activates: "wth_activate th = (b, th') \<Longrightarrow> wth_step th th'"
| wth_returns: "wth_is WRunning th \<Longrightarrow> wth_startup_return ret th = (r, th') \<Longrightarrow> wth_step th th'"
| wth_waits: "wth_wait me th = Ret th' \<Longrightarrow> wth_step th th'"
| wth_waits_for: "wth_wait_for me d th = Ret (b, th') \<Longrightarrow> wth_step th th'"
| wth_quits: "wth_step th (wth_request_quit th)"
| wth_sets: "wth_set_priority levels p th = (b, th') \<Longrightarrow> wth_step th th'"

inductive wth_reach :: "wth \<Rightarrow> wth \<Rightarrow> bool" where
  wth_refl: "wth_reach th th"
| wth_more: "wth_reach th th' \<Longrightarrow> wth_step th' th'' \<Longrightarrow> wth_reach th th''"

definition wth_inv :: "wth \<Rightarrow> bool" where "wth_inv th \<longleftrightarrow> (\<exists>st. wth_is st th)"

lemmas wth_defs = wth_is_def wh_is_def wth_activate_def wth_startup_return_def wth_wait_def wth_wait_for_def
  wth_request_quit_def wth_set_priority_def wk_set_prio_def wk_resume_def wh_wait_def wh_wait_for_def wk_wait_def wh_set_def

lemma wth_step_inv: "wth_step th th' \<Longrightarrow> wth_inv th \<Longrightarrow> wth_inv th'"
  by (induction rule: wth_step.induct)
    (auto simp: wth_inv_def wth_defs run_then_Ret_iff split: option.splits if_splits prod.splits)

lemma wth_reach_inv: "wth_reach th th' \<Longrightarrow> wth_inv th \<Longrightarrow> wth_inv th'"
  by (induction rule: wth_reach.induct) (auto intro: wth_step_inv)

lemma wth_ctor_inv: "wth_inv (wth_ctor levels False h prio k)"
  by (auto simp: wth_inv_def wth_ctor_def wth_create_def wk_begin_thread_def wk_create_def wh_attach_def wth_defs split: prod.splits)

lemma wth_wait_ended: "wth_inv th \<Longrightarrow> wth_wait me th = Ret th' \<Longrightarrow> wth_is WEnded th \<and> th' = th"
  by (auto simp: wth_inv_def wth_defs run_then_Ret_iff fun_upd_idem split: option.splits if_splits)

lemma wth_wait_for_ended: "wth_inv th \<Longrightarrow> wth_wait_for me d th = Ret (True, th') \<Longrightarrow> wth_is WEnded th \<and> th' = th"
  by (auto simp: wth_inv_def wth_defs run_then_Ret_iff fun_upd_idem WAIT_OBJECT_0_def WAIT_TIMEOUT_def
      split: option.splits if_splits)

section \<open>Properties\<close>

text \<open>whatever the owner has called before, a wait for a thread returns only when \<open>run\<close> has returned:
  on Win32 the thread has then ended, on eCos it is in \<open>close\<close> or has exited; and the wait changes nothing,
  so that it can be repeated.\<close>

theorem port_threads_wait_for_run:
  assumes "eth_reach (eth_ctor g prio) e" and "eth_wait e = Ret e' \<or> eth_wait_for timeout e = Ret (True, e')"
    and "wth_reach (wth_ctor levels False h q k) w" and "wth_wait me w = Ret w' \<or> wth_wait_for me d w = Ret (True, w')"
  shows "eth_os e \<in> {EClosing, EExited} \<and> e' = e \<and> wth_is WEnded w \<and> w' = w"
proof -
  have "eth_inv e" by (rule eth_reach_inv [OF assms(1) eth_ctor_inv])
  then have "eth_os e \<in> {EClosing, EExited} \<and> e' = e"
    using assms(2) by (cases e) (auto simp: eth_inv_def eth_defs split: if_splits option.splits)
  moreover have "wth_inv w" by (rule wth_reach_inv [OF assms(3) wth_ctor_inv])
  ultimately show ?thesis using assms(4) wth_wait_ended wth_wait_for_ended by blast
qed

theorem port_threads_wait_for_run_witness:
  "\<exists>e w. eth_wait e = Ret e \<and> wth_wait 0 w = Ret w \<and> wth_is WEnded w"
proof -
  let ?g = "\<lparr>eth_prio = 0, eth_quit = True, eth_done = ev_ctor_manual, eth_os = EExited, eth_stack = None\<rparr>"
  let ?e0 = "eth_ctor ?g 16" and ?w0 = "wth_ctor {0} False 8 0 Map.empty"
  let ?e1 = "snd (eth_activate ?e0)" and ?w1 = "snd (wth_activate ?w0)"
  let ?e2 = "eth_startup_signal ?e1" and ?w2 = "snd (wth_startup_return 5 ?w1)"
  have w0: "wth_is WSuspended ?w0"
    by (simp add: wth_ctor_def wth_create_def wk_begin_thread_def wk_create_def wh_attach_def wth_defs)
  then have w1: "wth_is WRunning ?w1" by (auto simp: wth_defs)
  then have w2: "wth_is WEnded ?w2" by (auto simp: wth_defs)
  have "eth_step ?e0 ?e1" by (rule eth_activates [of _ True]) (simp add: eth_activate_def)
  moreover have "eth_step ?e1 ?e2" by (rule eth_signals) (simp add: eth_activate_def eth_ctor_def eth_create_def)
  ultimately have e: "eth_reach ?e0 ?e2" by (blast intro: eth_refl eth_more)
  have "wth_step ?w0 ?w1" by (rule wth_activates [of _ "fst (wth_activate ?w0)"]) simp
  moreover have "wth_step ?w1 ?w2" using w1 by (rule wth_returns [of _ 5 5]) (simp add: wth_startup_return_def)
  ultimately have w: "wth_reach ?w0 ?w2" by (blast intro: wth_refl wth_more)
  have "\<exists>e'. eth_wait ?e2 = Ret e'"
    by (simp add: eth_defs eth_ctor_def eth_create_def ev_ctor_manual_def ev_ctor_def EV_MANUAL_RESET_def)
  then obtain e' where e': "eth_wait ?e2 = Ret e'" by blast
  have "\<exists>w'. wth_wait 0 ?w2 = Ret w'" using w2 by (auto simp: wth_defs)
  then obtain w' where w': "wth_wait 0 ?w2 = Ret w'" by blast
  have "eth_wait ?e2 = Ret e' \<or> eth_wait_for False ?e2 = Ret (True, e')" using e' by simp
  moreover have "wth_wait 0 ?w2 = Ret w' \<or> wth_wait_for 0 0 ?w2 = Ret (True, w')" using w' by simp
  ultimately show ?thesis using port_threads_wait_for_run [OF e _ w] e' w' by blast
qed

text \<open>on eCos a wait may return while the thread still runs \<open>close\<close> of the object; the owner who then
  destroys the object takes the stack away from under it.\<close>

theorem ecos_wait_returns_too_early:
  "\<exists>th. eth_reach (eth_ctor g prio) th \<and> eth_wait th = Ret th \<and> eth_os th = EClosing \<and> eth_dtor False th = Undef"
proof -
  let ?e1 = "snd (eth_activate (eth_ctor g prio))" and ?e2 = "eth_startup_signal (snd (eth_activate (eth_ctor g prio)))"
  have "eth_step (eth_ctor g prio) ?e1" by (rule eth_activates [of _ True]) (simp add: eth_activate_def)
  moreover have "eth_step ?e1 ?e2" by (rule eth_signals) (simp add: eth_activate_def eth_ctor_def eth_create_def)
  ultimately have "eth_reach (eth_ctor g prio) ?e2" by (blast intro: eth_refl eth_more)
  moreover have "eth_wait ?e2 = Ret ?e2 \<and> eth_os ?e2 = EClosing \<and> eth_dtor False ?e2 = Undef"
    by (simp add: eth_defs eth_ctor_def eth_create_def eth_dtor_def ev_ctor_manual_def ev_ctor_def EV_MANUAL_RESET_def)
  ultimately show ?thesis by blast
qed

end
