(* ===== verification/EcosTimer.thy ===== *)
theory EcosTimer imports TickTimes begin

text \<open>
  \<open>os/ecos/CtrlrFx/Timer.h\<close> and \<open>src/os/ecos/Timer.cpp\<close>: timers made of the alarms of eCos. The kernel
  keeps for an alarm whether it has been initialised and is enabled, the time of its next trigger and its
  interval; at every tick of the clock it calls the handler of the alarms whose time has come. Clients are
  numbers, and the calls to them a log with the times.
\<close>

section \<open>Alarms\<close>

record alarm =
  al_init :: bool
  al_on :: bool
  al_trig :: int
  al_int :: int

definition al_create :: "alarm \<Rightarrow> alarm" where "al_create g = g\<lparr>al_init := False, al_on := False\<rparr>"
definition al_initialize :: "int \<Rightarrow> int \<Rightarrow> alarm \<Rightarrow> alarm" where
  "al_initialize trig interval a = \<lparr>al_init = True, al_on = True, al_trig = trig, al_int = interval\<rparr>"

text \<open>Enabling an alarm again resumes it at the trigger \<open>resync\<close> that the kernel computes.\<close>

definition al_enable :: "(alarm \<Rightarrow> int) \<Rightarrow> alarm \<Rightarrow> alarm run" where
  "al_enable resync a = (if al_init a then Ret (if al_on a then a else a\<lparr>al_on := True, al_trig := resync a\<rparr>) else Undef)"
definition al_disable :: "alarm \<Rightarrow> alarm" where "al_disable a = a\<lparr>al_on := False\<rparr>"

definition al_tick :: "int \<Rightarrow> alarm \<Rightarrow> bool \<times> alarm" where
  "al_tick now a =
     (if al_on a \<and> al_trig a \<le> now
      then (True, if al_int a = 0 then a\<lparr>al_on := False\<rparr> else a\<lparr>al_trig := u64 (al_trig a + al_int a)\<rparr>)
      else (False, a))"

section \<open>Timer and OneShot\<close>

record etimer =
  etm_client :: "nat option"
  etm_alarm :: alarm

definition etm_create :: "nat option \<Rightarrow> etimer \<Rightarrow> etimer" where
  "etm_create client tm = tm\<lparr>etm_alarm := al_create (etm_alarm tm), etm_client := client\<rparr>"
definition etm_ctor :: "etimer \<Rightarrow> etimer" where "etm_ctor g = etm_create None g"
definition etm_ctor_client :: "etimer \<Rightarrow> nat \<Rightarrow> etimer" where "etm_ctor_client g client = etm_create (Some client) g"

text \<open>\<open>clock\<close> is the current time in ticks. A delay and a period are durations.\<close>

definition etm_program :: "int \<Rightarrow> int \<Rightarrow> etimer \<Rightarrow> etimer" where
  "etm_program trig interval tm = tm\<lparr>etm_alarm := al_initialize trig interval (etm_alarm tm)\<rparr>"
definition etm_ctor_period :: "int \<Rightarrow> etimer \<Rightarrow> nat \<Rightarrow> int \<Rightarrow> etimer" where
  "etm_ctor_period clock g client period =
     (let tm = etm_create (Some client) g; t = ec_tm_from_now clock period
      in etm_program (ec_tb_ticks t) (ec_tb_ticks period) tm)"
definition etm_ctor_delay :: "int \<Rightarrow> etimer \<Rightarrow> nat \<Rightarrow> int \<Rightarrow> int \<Rightarrow> etimer" where
  "etm_ctor_delay clock g client initDelay period =
     (let tm = etm_create (Some client) g; t = ec_tm_from_now clock initDelay
      in etm_program (ec_tb_ticks t) (ec_tb_ticks period) tm)"

text \<open>The handler calls the client; a timer without one dereferences a null pointer.\<close>

definition etm_handler :: "etimer \<Rightarrow> nat run" where
  "etm_handler tm = (case etm_client tm of None \<Rightarrow> Undef | Some c \<Rightarrow> Ret c)"

definition etm_register_client :: "nat \<Rightarrow> etimer \<Rightarrow> int \<times> etimer" where
  "etm_register_client client tm = (1, tm\<lparr>etm_client := Some client\<rparr>)"
definition etm_start :: "(alarm \<Rightarrow> int) \<Rightarrow> etimer \<Rightarrow> etimer run" where
  "etm_start resync tm = run_then (al_enable resync (etm_alarm tm)) (\<lambda>a. Ret (tm\<lparr>etm_alarm := a\<rparr>))"
definition etm_start_period :: "int \<Rightarrow> int \<Rightarrow> etimer \<Rightarrow> etimer" where
  "etm_start_period clock period tm =
     (let t = ec_tm_from_now clock period in etm_program (ec_tb_ticks t) (ec_tb_ticks period) tm)"
definition etm_start_delay :: "int \<Rightarrow> int \<Rightarrow> int \<Rightarrow> etimer \<Rightarrow> etimer" where
  "etm_start_delay clock initDelay period tm =
     (let t = ec_tm_from_now clock initDelay in etm_program (ec_tb_ticks t) (ec_tb_ticks period) tm)"
definition etm_one_shot :: "int \<Rightarrow> int \<Rightarrow> etimer \<Rightarrow> etimer" where
  "etm_one_shot clock timeout tm = (let t = ec_tm_from_now clock timeout in etm_program (ec_tb_ticks t) 0 tm)"
definition etm_stop :: "etimer \<Rightarrow> etimer" where "etm_stop tm = tm\<lparr>etm_alarm := al_disable (etm_alarm tm)\<rparr>"

definition eos_ctor :: "etimer \<Rightarrow> etimer" where "eos_ctor g = etm_ctor g"
definition eos_ctor_client :: "int \<Rightarrow> int \<Rightarrow> int \<Rightarrow> etimer \<Rightarrow> nat \<Rightarrow> int \<Rightarrow> etimer option" where
  "eos_ctor_client num den clock g client timeout = map_option (etm_ctor_delay clock g client timeout) (ec_du_int num den 0)"
definition eos_start :: "(alarm \<Rightarrow> int) \<Rightarrow> etimer \<Rightarrow> etimer run" where "eos_start resync tm = etm_start resync tm"
definition eos_start_timeout :: "int \<Rightarrow> int \<Rightarrow> etimer \<Rightarrow> etimer" where "eos_start_timeout clock timeout tm = etm_one_shot clock timeout tm"

text \<open>The kernel for \<open>n\<close> ticks after the time \<open>now\<close>, while nobody calls the timer.\<close>

fun etm_run :: "nat \<Rightarrow> int \<Rightarrow> etimer \<Rightarrow> ((int \<times> nat) list \<times> etimer) run" where
  "etm_run 0 now tm = Ret ([], tm)"
| "etm_run (Suc n) now tm =
     (case al_tick (now + 1) (etm_alarm tm) of
        (False, a) \<Rightarrow> etm_run n (now + 1) (tm\<lparr>etm_alarm := a\<rparr>)
      | (True, a) \<Rightarrow> run_then (etm_handler tm) (\<lambda>c. run_then (etm_run n (now + 1) (tm\<lparr>etm_alarm := a\<rparr>))
          (\<lambda>(l, tm). Ret ((now + 1, c) # l, tm))))"

definition etm_log :: "nat \<Rightarrow> int \<Rightarrow> etimer \<Rightarrow> (int \<times> nat) list run" where
  "etm_log n now tm = run_then (etm_run n now tm) (\<lambda>(l, tm). Ret l)"

lemma etm_log_Suc:
  "etm_log 0 now tm = Ret []"
  "etm_log (Suc n) now tm =
     (case al_tick (now + 1) (etm_alarm tm) of
        (False, a) \<Rightarrow> etm_log n (now + 1) (tm\<lparr>etm_alarm := a\<rparr>)
      | (True, a) \<Rightarrow> run_then (etm_handler tm) (\<lambda>c. run_then (etm_log n (now + 1) (tm\<lparr>etm_alarm := a\<rparr>)) (\<lambda>l. Ret ((now + 1, c) # l))))"
  by (auto simp: etm_log_def run_then_assoc split_def split: prod.split bool.split)

lemma etm_log_off: "\<not> al_on (etm_alarm tm) \<Longrightarrow> etm_log n now tm = Ret []"
  by (induction n arbitrary: now tm) (simp_all add: etm_log_Suc al_tick_def)

text \<open>The times after \<open>now\<close> at which an alarm is due.\<close>

definition due :: "nat \<Rightarrow> int \<Rightarrow> int \<Rightarrow> int \<Rightarrow> int list" where
  "due n now trig p = filter (\<lambda>t. trig \<le> t \<and> (t - trig) mod p = 0) [now + 1..now + int n]"

lemma due_Suc:
  "due 0 now trig p = []"
  "now + 1 < trig \<Longrightarrow> due (Suc n) now trig p = due n (now + 1) trig p"
  "0 < p \<Longrightarrow> due (Suc n) now (now + 1) p = (now + 1) # due n (now + 1) (now + 1 + p) p"
proof -
  have up: "[now + 1..now + int (Suc n)] = (now + 1) # [now + 1 + 1..now + 1 + int n]" by (simp add: upto_rec1 algebra_simps)
  show "due 0 now trig p = []" by (simp add: due_def)
  show "now + 1 < trig \<Longrightarrow> due (Suc n) now trig p = due n (now + 1) trig p" unfolding due_def up by simp
  assume p: "0 < p"
  have "now + 1 \<le> t \<and> (t - (now + 1)) mod p = 0 \<longleftrightarrow> now + 1 + p \<le> t \<and> (t - (now + 1 + p)) mod p = 0"
    if t: "t \<in> set [now + 1 + 1..now + 1 + int n]" for t
  proof -
    have "(t - (now + 1 + p)) mod p = (t - (now + 1)) mod p"
      using mod_add_self2 [of "t - (now + 1 + p)" p] by (simp add: algebra_simps)
    moreover have "p \<le> t - (now + 1)" if "(t - (now + 1)) mod p = 0"
      using zdvd_imp_le [of p "t - (now + 1)"] that t by (simp add: mod_eq_0_iff_dvd)
    ultimately show ?thesis using t p by auto
  qed
  then have "filter (\<lambda>t. now + 1 \<le> t \<and> (t - (now + 1)) mod p = 0) [now + 1 + 1..now + 1 + int n] =
      due n (now + 1) (now + 1 + p) p"
    unfolding due_def by (rule filter_cong [OF refl])
  then show "due (Suc n) now (now + 1) p = (now + 1) # due n (now + 1) (now + 1 + p) p"
    unfolding due_def [of "Suc n"] up by simp
qed

lemma etm_log_periodic:
  "0 < p \<Longrightarrow> now < trig \<Longrightarrow> 0 \<le> now \<Longrightarrow> now + int n + p < 2 ^ 64 \<Longrightarrow> etm_client tm = Some c \<Longrightarrow>
   etm_alarm tm = \<lparr>al_init = True, al_on = True, al_trig = trig, al_int = p\<rparr> \<Longrightarrow>
   etm_log n now tm = Ret (map (\<lambda>t. (t, c)) (due n now trig p))"
proof (induction n arbitrary: now trig tm)
  case (Suc n)
  show ?case
  proof (cases "trig = now + 1")
    case True
    let ?tm = "tm\<lparr>etm_alarm := \<lparr>al_init = True, al_on = True, al_trig = trig + p, al_int = p\<rparr>\<rparr>"
    have "etm_log n (now + 1) ?tm = Ret (map (\<lambda>t. (t, c)) (due n (now + 1) (trig + p) p))"
      using Suc.prems True by (intro Suc.IH) auto
    then show ?thesis using Suc.prems True by (simp add: etm_log_Suc al_tick_def etm_handler_def due_Suc)
  next
    case False
    then have "etm_log n (now + 1) tm = Ret (map (\<lambda>t. (t, c)) (due n (now + 1) trig p))"
      using Suc.prems by (intro Suc.IH) auto
    moreover have "al_tick (now + 1) (etm_alarm tm) = (False, etm_alarm tm)"
      using Suc.prems False by (simp add: al_tick_def)
    ultimately show ?thesis using Suc.prems(2) False by (simp add: etm_log_Suc due_Suc)
  qed
qed (simp add: etm_log_Suc due_Suc)

lemma etm_log_once:
  "now < trig \<Longrightarrow> etm_client tm = Some c \<Longrightarrow> etm_alarm tm = \<lparr>al_init = True, al_on = True, al_trig = trig, al_int = 0\<rparr> \<Longrightarrow>
   etm_log n now tm = Ret (if trig \<le> now + int n then [(trig, c)] else [])"
proof (induction n arbitrary: now tm)
  case (Suc n)
  show ?case
  proof (cases "trig = now + 1")
    case True
    then show ?thesis using Suc.prems by (simp add: etm_log_Suc al_tick_def etm_handler_def etm_log_off)
  next
    case False
    then have "etm_log n (now + 1) tm = Ret (if trig \<le> now + 1 + int n then [(trig, c)] else [])"
      using Suc.prems by (intro Suc.IH) auto
    moreover have "al_tick (now + 1) (etm_alarm tm) = (False, etm_alarm tm)"
      using Suc.prems False by (simp add: al_tick_def)
    ultimately show ?thesis by (simp add: etm_log_Suc algebra_simps)
  qed
qed (simp add: etm_log_Suc)

section \<open>Properties\<close>

text \<open>a periodic timer of eCos calls its client at the initial delay after it was started and then once
  every period, on the tick and without drift, and at no other time; a one-shot timer calls it once; a
  timer that was stopped never.\<close>

theorem ecos_timer_keeps_its_period:
  assumes "0 < d" and "0 < p" and "0 \<le> clock" and "clock + d + int n + p < 2 ^ 64" and "etm_client tm = Some c"
  shows "etm_log n clock (etm_start_delay clock d p tm) = Ret (map (\<lambda>t. (t, c)) (due n clock (clock + d) p)) \<and>
    etm_log n clock (etm_one_shot clock d tm) = Ret (if d \<le> int n then [(clock + d, c)] else []) \<and>
    etm_log n clock (etm_stop tm) = Ret []"
proof -
  have t: "ec_tm_from_now clock d = clock + d" using assms by (simp add: ec_tm_from_now_def ec_sys_now_def)
  have "etm_log n clock (etm_start_delay clock d p tm) = Ret (map (\<lambda>t. (t, c)) (due n clock (clock + d) p))"
    using assms t by (intro etm_log_periodic)
      (auto simp: etm_start_delay_def etm_program_def al_initialize_def ec_tb_ticks_def)
  moreover have "etm_log n clock (etm_one_shot clock d tm) = Ret (if clock + d \<le> clock + int n then [(clock + d, c)] else [])"
    using assms t by (intro etm_log_once) (auto simp: etm_one_shot_def etm_program_def al_initialize_def ec_tb_ticks_def)
  moreover have "etm_log n clock (etm_stop tm) = Ret []" by (rule etm_log_off) (simp add: etm_stop_def al_disable_def)
  ultimately show ?thesis by simp
qed

theorem ecos_timer_keeps_its_period_witness:
  "etm_log 20 100 (etm_start_delay 100 5 7 (snd (etm_register_client 3 (etm_ctor \<lparr>etm_client = None, etm_alarm = alarm.make False False 0 0\<rparr>)))) =
   Ret [(105, 3), (112, 3), (119, 3)]"
  using ecos_timer_keeps_its_period [of 5 7 100 20 "snd (etm_register_client 3 (etm_ctor \<lparr>etm_client = None, etm_alarm = alarm.make False False 0 0\<rparr>))" 3]
  by (simp add: etm_register_client_def due_def upto_rec1)

text \<open>a timer that was constructed without a client and started calls a null pointer when it is due.\<close>

theorem ecos_timer_without_client:
  assumes "0 < d" and "0 \<le> clock" and "clock + d < 2 ^ 64" and "d \<le> int n"
  shows "etm_log n clock (etm_start_period clock d (etm_ctor g)) = Undef"
proof -
  have null: "now < trig \<Longrightarrow> trig \<le> now + int n \<Longrightarrow> etm_client tm = None \<Longrightarrow> al_on (etm_alarm tm) \<Longrightarrow>
      al_trig (etm_alarm tm) = trig \<Longrightarrow> etm_log n now tm = Undef" for now trig tm
    by (induction n arbitrary: now) (auto simp: etm_log_Suc al_tick_def etm_handler_def)
  show ?thesis
    by (rule null [of clock "clock + d"])
      (use assms in \<open>simp_all add: etm_start_period_def etm_program_def al_initialize_def ec_tb_ticks_def ec_tm_from_now_def
        ec_sys_now_def etm_ctor_def etm_create_def\<close>)
qed

theorem ecos_timer_without_client_witness:
  "etm_log 9 0 (etm_start_period 0 4 (etm_ctor \<lparr>etm_client = Some 1, etm_alarm = alarm.make False False 0 0\<rparr>)) = Undef"
  by (rule ecos_timer_without_client) simp_all

text \<open>a timer constructed with a client only cannot be started by \<open>start()\<close>: the delay and the period
  it is said to use are never set, and its alarm was never initialised.\<close>

theorem ecos_timer_start_needs_a_period: "etm_start resync (etm_ctor_client g client) = Undef"
  by (simp add: etm_start_def al_enable_def etm_ctor_client_def etm_create_def al_create_def)

end
