(* ===== verification/WinCond.thy ===== *)
theory WinCond imports WinSync begin

text \<open>
  \<open>os/Win32/CtrlrFx/ConditionVar.h\<close> and \<open>src/os/Win32/ConditionVar.cpp\<close>: a condition variable made of
  an event with manual reset for broadcasts, one with automatic reset for signals, and a count of the
  waiting threads. Any number of threads make its methods' accesses to memory and calls one at a time;
  \<open>++\<close> and \<open>--\<close> are a load and a store. A thread that holds the mutex holds it once, and signals only then.
\<close>

record wcond =
  wc_bc :: bool
  wc_sig :: bool
  wc_n :: int
  wc_mx :: wmutex

definition wc_ctor :: wcond where "wc_ctor = \<lparr>wc_bc = False, wc_sig = False, wc_n = 0, wc_mx = wm_ctor\<rparr>"

text \<open>The constructor on a caller's mutex refers to that mutex.\<close>

definition wc_ctor_mutex :: "wmutex \<Rightarrow> wcond" where
  "wc_ctor_mutex m = \<lparr>wc_bc = False, wc_sig = False, wc_n = 0, wc_mx = m\<rparr>"

definition wc_lock :: "nat \<Rightarrow> wcond \<Rightarrow> wcond run" where
  "wc_lock t s = run_then (wm_lock t (wc_mx s)) (\<lambda>m. Ret (s\<lparr>wc_mx := m\<rparr>))"
definition wc_trylock :: "nat \<Rightarrow> wcond \<Rightarrow> (bool \<times> wcond) run" where
  "wc_trylock t s = run_then (wm_trylock t (wc_mx s)) (\<lambda>(b, m). Ret (b, s\<lparr>wc_mx := m\<rparr>))"
definition wc_unlock :: "nat \<Rightarrow> wcond \<Rightarrow> wcond run" where
  "wc_unlock t s = run_then (wm_unlock t (wc_mx s)) (\<lambda>m. Ret (s\<lparr>wc_mx := m\<rparr>))"
definition wc_acquire :: "nat \<Rightarrow> wcond \<Rightarrow> wcond run" where "wc_acquire t s = wc_lock t s"
definition wc_tryacquire :: "nat \<Rightarrow> wcond \<Rightarrow> (bool \<times> wcond) run" where "wc_tryacquire t s = wc_trylock t s"
definition wc_release :: "nat \<Rightarrow> wcond \<Rightarrow> wcond run" where "wc_release t s = wc_unlock t s"

text \<open>\<open>wait()\<close> passes \<open>INFINITE\<close> as a duration in milliseconds, of which \<open>to_msec\<close> makes the limit.\<close>

definition wc_limit :: "int \<Rightarrow> int" where "wc_limit d = u32 (wn_to_msec d)"
definition wc_wait_limit :: int where "wc_wait_limit = wc_limit (wn_du_uint32 WIN_INFINITE)"

lemma wc_wait_no_limit: "wc_wait_limit = WIN_INFINITE"
  by (simp add: wc_wait_limit_def wc_limit_def wn_to_msec_def wn_du_uint32_def WIN_INFINITE_def s32_def u32_def)

section \<open>The methods, step by step\<close>

text \<open>A thread is outside or holds the mutex; it is about to store \<open>++nthread_\<close>, to release the mutex; it
  waits for the events (marked when a broadcast was called meanwhile), has returned from that (for the
  broadcast event or not), is about to store \<open>--nthread_\<close>, to test whether it was the last, to reset
  the event, to acquire the mutex; or it is about to set an event. The first argument of the waits
  says whether they have a limit.\<close>

datatype wc_pc = WcOut | WcHeld | WcInc bool int | WcRel bool | WcWait bool bool | WcWoke bool | WcDec bool int
  | WcTest bool | WcReset | WcBack | WcSig | WcBc

datatype wc_act = WcLock | WcUnlock | WcCallWait int | WcCallSignal | WcCallBroadcast | WcGo | WcTimeout

definition wc_to :: "wc_pc \<Rightarrow> wcond run \<Rightarrow> (wc_pc \<times> wcond) option" where
  "wc_to pc r = (case r of Ret s \<Rightarrow> Some (pc, s) | _ \<Rightarrow> None)"

definition wc_held :: "nat \<Rightarrow> wc_act \<Rightarrow> wcond \<Rightarrow> (wc_pc \<times> wcond) option" where
  "wc_held t a s =
     (case a of
        WcUnlock \<Rightarrow> wc_to WcOut (wc_unlock t s)
      | WcCallWait d \<Rightarrow> Some (WcInc (wc_limit d \<noteq> WIN_INFINITE) (wc_n s), s)
      | WcCallSignal \<Rightarrow> Some (if wc_n s \<noteq> 0 then WcSig else WcHeld, s)
      | WcCallBroadcast \<Rightarrow> Some (if wc_n s \<noteq> 0 then WcBc else WcHeld, s)
      | _ \<Rightarrow> None)"

definition wc_waiting :: "bool \<Rightarrow> wc_act \<Rightarrow> wcond \<Rightarrow> (wc_pc \<times> wcond) option" where
  "wc_waiting lim a s =
     (case a of
        WcGo \<Rightarrow>
          if wc_sig s then Some (WcWoke False, s\<lparr>wc_sig := False\<rparr>)
          else if wc_bc s then Some (WcWoke True, s) else None
      | WcTimeout \<Rightarrow> if lim \<and> \<not> wc_sig s \<and> \<not> wc_bc s then Some (WcBack, s) else None
      | _ \<Rightarrow> None)"

fun wc_go :: "nat \<Rightarrow> wc_pc \<Rightarrow> wcond \<Rightarrow> (wc_pc \<times> wcond) option" where
  "wc_go t (WcInc lim v) s = Some (WcRel lim, s\<lparr>wc_n := u32 (v + 1)\<rparr>)"
| "wc_go t (WcRel lim) s = wc_to (WcWait lim False) (wc_release t s)"
| "wc_go t (WcWoke bc) s = Some (WcDec bc (wc_n s), s)"
| "wc_go t (WcDec bc v) s = Some (WcTest bc, s\<lparr>wc_n := u32 (v - 1)\<rparr>)"
| "wc_go t (WcTest bc) s = Some (if bc \<and> wc_n s = 0 then WcReset else WcBack, s)"
| "wc_go t WcReset s = Some (WcBack, s\<lparr>wc_bc := False\<rparr>)"
| "wc_go t WcBack s = wc_to WcHeld (wc_acquire t s)"
| "wc_go t WcSig s = Some (WcHeld, s\<lparr>wc_sig := True\<rparr>)"
| "wc_go t WcBc s = Some (WcHeld, s\<lparr>wc_bc := True\<rparr>)"
| "wc_go t pc s = None"

fun wc_thread :: "nat \<Rightarrow> wc_act \<Rightarrow> wc_pc \<Rightarrow> wcond \<Rightarrow> (wc_pc \<times> wcond) option" where
  "wc_thread t a WcOut s = (if a = WcLock then wc_to WcHeld (wc_lock t s) else None)"
| "wc_thread t a WcHeld s = wc_held t a s"
| "wc_thread t a (WcWait lim m) s = wc_waiting lim a s"
| "wc_thread t a pc s = (if a = WcGo then wc_go t pc s else None)"

fun wc_mark :: "wc_pc \<Rightarrow> wc_pc" where
  "wc_mark (WcWait lim m) = WcWait lim True"
| "wc_mark pc = pc"

definition wc_step :: "nat \<times> wc_act \<Rightarrow> wcond \<times> wc_pc list \<Rightarrow> (wcond \<times> wc_pc list) option" where
  "wc_step ta c =
     (case (ta, c) of ((t, a), (s, pcs)) \<Rightarrow>
        if t < length pcs then map_option (\<lambda>(pc, s). (s, (if a = WcCallBroadcast then map wc_mark pcs else pcs)[t := pc]))
          (wc_thread t a (pcs ! t) s)
        else None)"

fun wc_exec :: "(nat \<times> wc_act) list \<Rightarrow> wcond \<times> wc_pc list \<Rightarrow> (wcond \<times> wc_pc list) option" where
  "wc_exec [] c = Some c"
| "wc_exec (x # xs) c = do { c' \<leftarrow> wc_step x c; wc_exec xs c' }"

definition wc_start :: "nat \<Rightarrow> wcond \<times> wc_pc list" where "wc_start n = (wc_ctor, replicate n WcOut)"

lemma wc_exec_snoc: "wc_exec (xs @ [x]) c = do { c' \<leftarrow> wc_exec xs c; wc_step x c' }"
  by (induction xs arbitrary: c) (auto split: Option.bind_splits)

lemma wc_step_cases:
  assumes "wc_step (t, a) (s, pcs) = Some c"
  obtains pc s' where "t < length pcs" "wc_thread t a (pcs ! t) s = Some (pc, s')"
    "c = (s', (if a = WcCallBroadcast then map wc_mark pcs else pcs)[t := pc])"
  using assms by (auto simp: wc_step_def split: if_splits prod.splits)

lemma wc_to_iff: "wc_to pc r = Some (pc', s') \<longleftrightarrow> pc' = pc \<and> r = Ret s'"
  by (cases r) (auto simp: wc_to_def)

section \<open>The mutex\<close>

fun wc_inside :: "wc_pc \<Rightarrow> bool" where
  "wc_inside WcHeld = True"
| "wc_inside (WcInc lim v) = True"
| "wc_inside (WcRel lim) = True"
| "wc_inside WcSig = True"
| "wc_inside WcBc = True"
| "wc_inside pc = False"

lemma wc_inside_mark [simp]: "wc_inside (wc_mark pc) = wc_inside pc"
  by (cases pc) simp_all

definition wc_excl :: "wcond \<times> wc_pc list \<Rightarrow> bool" where
  "wc_excl c \<longleftrightarrow> (case c of (s, pcs) \<Rightarrow>
     (wm_owner (wc_mx s) = None \<longrightarrow> wc_mx s = wm_ctor) \<and> (wm_owner (wc_mx s) \<noteq> None \<longrightarrow> wm_count (wc_mx s) = 1) \<and>
     (\<forall>u<length pcs. wc_inside (pcs ! u) \<longleftrightarrow> wm_owner (wc_mx s) = Some u))"

lemmas wc_mutex_defs = wc_lock_def wc_unlock_def wc_acquire_def wc_release_def wm_lock_def wm_unlock_def wm_ctor_def

text \<open>One method step of a thread leaves the mutex as it is, takes it free, or gives it up.\<close>

lemma wc_thread_mutex:
  assumes "wc_thread t a pc s = Some (pc', s')"
  shows "(wc_mx s' = wc_mx s \<and> wc_inside pc' = wc_inside pc) \<or>
    (\<not> wc_inside pc \<and> wc_inside pc' \<and> Ret (wc_mx s') = wm_lock t (wc_mx s)) \<or>
    (wc_inside pc \<and> \<not> wc_inside pc' \<and> Ret (wc_mx s') = wm_unlock t (wc_mx s))"
  using assms
  by (cases pc; cases a)
    (auto simp: wc_held_def wc_waiting_def wc_to_iff wc_lock_def wc_unlock_def wc_acquire_def wc_release_def run_then_Ret_iff split: if_splits)

lemma wc_step_excl:
  assumes "wc_step (t, a) c = Some c'" and "wc_excl c"
  shows "wc_excl c'"
proof -
  obtain s pcs where c: "c = (s, pcs)" by (cases c)
  from assms(1) [unfolded c] obtain pc s' where st: "t < length pcs" "wc_thread t a (pcs ! t) s = Some (pc, s')"
    "c' = (s', (if a = WcCallBroadcast then map wc_mark pcs else pcs)[t := pc])" by (rule wc_step_cases)
  have same: "wc_inside (snd c' ! u) = (if u = t then wc_inside pc else wc_inside (pcs ! u))" if "u < length pcs" for u
    using st that by (auto simp: nth_list_update)
  have len: "length (snd c') = length pcs" using st by simp
  show ?thesis
    using wc_thread_mutex [OF st(2)] same len assms(2) st(1) unfolding wc_excl_def c
    by (auto simp: st(3) wm_lock_def wm_unlock_def wm_ctor_def split: if_splits)
qed

lemma wc_exec_excl: "wc_exec xs (wc_start n) = Some c \<Longrightarrow> wc_excl c"
proof (induction xs arbitrary: c rule: rev_induct)
  case Nil
  then show ?case by (auto simp: wc_start_def wc_ctor_def wc_excl_def wm_ctor_def)
next
  case (snoc x xs)
  then show ?case by (cases x) (auto simp: wc_exec_snoc bind_eq_Some_conv intro: wc_step_excl)
qed

section \<open>One waiting thread\<close>

text \<open>Only thread 0 waits. Its counter is right but for the waits that timed out, at most one for every step
  of the run.\<close>

fun wc_counted :: "wc_pc \<Rightarrow> bool" where
  "wc_counted (WcRel lim) = True"
| "wc_counted (WcWait lim m) = True"
| "wc_counted (WcWoke bc) = True"
| "wc_counted (WcDec bc v) = True"
| "wc_counted pc = False"

fun wc_loaded :: "wcond \<Rightarrow> wc_pc \<Rightarrow> bool" where
  "wc_loaded s (WcInc lim v) = (v = wc_n s)"
| "wc_loaded s (WcDec bc v) = (v = wc_n s)"
| "wc_loaded s pc = True"

fun wc_marked :: "wc_pc \<Rightarrow> bool" where
  "wc_marked (WcWait lim m) = m"
| "wc_marked pc = False"

definition wc_idle :: "wc_pc \<Rightarrow> bool" where "wc_idle pc \<longleftrightarrow> pc \<in> {WcOut, WcHeld, WcSig, WcBc}"

definition wc_one :: "int \<Rightarrow> wcond \<times> wc_pc list \<Rightarrow> bool" where
  "wc_one b c \<longleftrightarrow> (case c of (s, pcs) \<Rightarrow> pcs \<noteq> [] \<and>
     (\<exists>l. 0 \<le> l \<and> l \<le> b \<and> wc_n s = l + ind (wc_counted (pcs ! 0))) \<and> wc_loaded s (pcs ! 0) \<and>
     (\<forall>u<length pcs. u \<noteq> 0 \<longrightarrow> wc_idle (pcs ! u)) \<and>
     (wc_marked (pcs ! 0) \<longrightarrow> wc_bc s \<or> (\<exists>u<length pcs. pcs ! u = WcBc)))"

definition wc_waits_only_0 :: "(nat \<times> wc_act) list \<Rightarrow> bool" where
  "wc_waits_only_0 xs \<longleftrightarrow> list_all (\<lambda>(t, a). t = 0 \<or> (\<forall>d. a \<noteq> WcCallWait d)) xs"

lemmas wc_thread_simps = wc_held_def wc_waiting_def wc_to_iff wc_lock_def wc_unlock_def wc_acquire_def wc_release_def
  run_then_Ret_iff

lemma wc_idle_step:
  assumes "wc_idle pc" and "wc_thread t a pc s = Some (pc', s')" and "\<And>d. a \<noteq> WcCallWait d"
  shows "wc_idle pc' \<and> wc_n s' = wc_n s \<and> (wc_bc s \<or> pc = WcBc \<longrightarrow> wc_bc s' \<or> pc' = WcBc) \<and>
    (a = WcCallBroadcast \<and> wc_n s \<noteq> 0 \<longrightarrow> pc' = WcBc)"
  using assms
  by (cases pc; cases a) (auto simp: wc_idle_def wc_thread_simps split: if_splits)

lemma wc_zero_step:
  assumes "wc_thread 0 a pc s = Some (pc', s')" and "wc_loaded s pc" and "0 \<le> l" and "l \<le> b" and "b + 1 < 2 ^ 32"
    and "wc_n s = l + ind (wc_counted pc)"
  shows "(\<exists>l. 0 \<le> l \<and> l \<le> b + 1 \<and> wc_n s' = l + ind (wc_counted pc')) \<and> wc_loaded s' pc' \<and> \<not> wc_marked pc' \<and>
    (a = WcCallBroadcast \<longrightarrow> \<not> wc_marked (wc_mark pc))"
proof (cases "a = WcTimeout")
  case True
  with assms show ?thesis
    by (cases pc) (auto simp: wc_thread_simps split: if_splits intro!: exI [of _ "l + 1"])
next
  case False
  with assms show ?thesis
    by (cases pc; cases a) (auto simp: wc_thread_simps split: if_splits intro!: exI [of _ l])
qed

lemma wc_mark_simps [simp]:
  "wc_counted (wc_mark pc) = wc_counted pc" "wc_loaded s (wc_mark pc) = wc_loaded s pc"
  "wc_idle pc \<Longrightarrow> wc_mark pc = pc" "wc_mark pc = WcBc \<longleftrightarrow> pc = WcBc"
  "wc_marked (wc_mark pc) \<Longrightarrow> wc_counted pc"
  by (cases pc; simp add: wc_idle_def)+

lemma wc_one_step:
  assumes "wc_step (t, a) c = Some c'" and "wc_one b c" and "b + 1 < 2 ^ 32" and "0 \<le> b" and "t = 0 \<or> (\<forall>d. a \<noteq> WcCallWait d)"
  shows "wc_one (b + 1) c'"
proof -
  obtain s pcs where c: "c = (s, pcs)" by (cases c)
  from assms(1) [unfolded c] obtain pc s' where st: "t < length pcs" "wc_thread t a (pcs ! t) s = Some (pc, s')"
    "c' = (s', (if a = WcCallBroadcast then map wc_mark pcs else pcs)[t := pc])" by (rule wc_step_cases)
  obtain l where inv: "pcs \<noteq> []" "0 \<le> l" "l \<le> b" "wc_n s = l + ind (wc_counted (pcs ! 0))" "wc_loaded s (pcs ! 0)"
    "\<forall>u<length pcs. u \<noteq> 0 \<longrightarrow> wc_idle (pcs ! u)"
    "wc_marked (pcs ! 0) \<longrightarrow> wc_bc s \<or> (\<exists>u<length pcs. pcs ! u = WcBc)"
    using assms(2) by (auto simp: wc_one_def c)
  have at: "snd c' ! u = (if u = t then pc else if a = WcCallBroadcast then wc_mark (pcs ! u) else pcs ! u)"
    if "u < length pcs" for u using that st by (auto simp: nth_list_update)
  have len: "length (snd c') = length pcs" using st by simp
  show ?thesis
  proof (cases "t = 0")
    case True
    have "(\<exists>l. 0 \<le> l \<and> l \<le> b + 1 \<and> wc_n s' = l + ind (wc_counted pc)) \<and> wc_loaded s' pc \<and> \<not> wc_marked pc"
      using wc_zero_step [OF st(2) [unfolded True] inv(5,2,3) assms(3) inv(4)] by blast
    with True inv st len at show ?thesis unfolding wc_one_def by auto
  next
    case False
    then have id: "wc_idle (pcs ! t)" "0 < length pcs" using inv st by auto
    from wc_idle_step [OF id(1) st(2)] assms(5) False
    have step: "wc_idle pc" "wc_n s' = wc_n s" "wc_bc s \<or> pcs ! t = WcBc \<longrightarrow> wc_bc s' \<or> pc = WcBc"
      "a = WcCallBroadcast \<and> wc_n s \<noteq> 0 \<longrightarrow> pc = WcBc" by auto
    have p0: "snd c' ! 0 = (if a = WcCallBroadcast then wc_mark (pcs ! 0) else pcs ! 0)" using at id False by simp
    have "wc_bc s' \<or> (\<exists>u<length pcs. snd c' ! u = WcBc)" if m: "wc_marked (snd c' ! 0)"
    proof (cases "a = WcCallBroadcast")
      case True
      then have "wc_n s \<noteq> 0" using m p0 inv(2,4) by (auto dest: wc_mark_simps(5))
      with True step(4) at st(1) show ?thesis by auto
    next
      case no: False
      then have "wc_bc s \<or> (\<exists>u<length pcs. pcs ! u = WcBc)" using m p0 inv(7) by simp
      then show ?thesis using step(3) at st(1) no by (metis (full_types))
    qed
    moreover have "wc_loaded s' (snd c' ! 0)" using inv(5) step(2) p0 by (cases "pcs ! 0") auto
    moreover have "wc_n s' = l + ind (wc_counted (snd c' ! 0))" using inv(4) step(2) p0 by simp
    moreover have "\<forall>u<length pcs. u \<noteq> 0 \<longrightarrow> wc_idle (snd c' ! u)" using at inv(6) step(1) by auto
    moreover have "snd c' \<noteq> []" using len inv(1) by auto
    ultimately show ?thesis using inv(2,3) len st(3) unfolding wc_one_def by fastforce
  qed
qed

lemma wc_exec_one:
  "wc_exec xs (wc_start n) = Some c \<Longrightarrow> 0 < n \<Longrightarrow> wc_waits_only_0 xs \<Longrightarrow> int (length xs) < 2 ^ 32 \<Longrightarrow> wc_one (int (length xs)) c"
proof (induction xs arbitrary: c rule: rev_induct)
  case Nil
  then show ?case by (auto simp: wc_start_def wc_ctor_def wc_one_def wc_idle_def)
next
  case (snoc x xs)
  obtain t a where x: "x = (t, a)" by (cases x)
  from snoc.prems(1) obtain c1 where c1: "wc_exec xs (wc_start n) = Some c1" "wc_step (t, a) c1 = Some c"
    by (auto simp: wc_exec_snoc x bind_eq_Some_conv)
  have "wc_one (int (length xs)) c1" using snoc c1 by (simp add: wc_waits_only_0_def)
  from wc_one_step [OF c1(2) this] snoc.prems show ?case by (simp add: wc_waits_only_0_def x add.commute)
qed

section \<open>Properties\<close>

text \<open>on Win32, whatever threads lock, wait on, signal and broadcast a condition variable and in
  whatever order their steps come, at most one is between taking the mutex and giving it up, and it is the
  one the mutex says; in particular a wait returns with the mutex held.\<close>

theorem win32_condition_excludes:
  assumes "wc_exec xs (wc_start n) = Some (s, pcs)" and "t < length pcs" and "wc_inside (pcs ! t)"
  shows "wm_owner (wc_mx s) = Some t \<and> wm_count (wc_mx s) = 1 \<and> (\<forall>u<length pcs. wc_inside (pcs ! u) \<longrightarrow> u = t)"
  using wc_exec_excl [OF assms(1)] assms(2,3) by (auto simp: wc_excl_def)

lemmas wc_run_simps = wc_start_def wc_ctor_def wc_step_def wc_thread_simps wm_lock_def wm_unlock_def wm_ctor_def
  wc_to_def numeral_2_eq_2 wc_limit_def wn_to_msec_def wn_du_msec_def WIN_INFINITE_def

theorem win32_condition_excludes_witness:
  "\<exists>s pcs. wc_exec [(0, WcLock), (0, WcCallWait (wn_du_msec 5)), (0, WcGo), (0, WcGo), (1, WcLock)] (wc_start 2) = Some (s, pcs) \<and>
    wm_owner (wc_mx s) = Some 1"
proof -
  have "\<exists>c. wc_exec [(0, WcLock), (0, WcCallWait (wn_du_msec 5)), (0, WcGo), (0, WcGo), (1, WcLock)] (wc_start 2) = Some c \<and>
      length (snd c) = 2 \<and> snd c ! 1 = WcHeld"
    by (simp add: wc_run_simps)
  then obtain s pcs where "wc_exec [(0, WcLock), (0, WcCallWait (wn_du_msec 5)), (0, WcGo), (0, WcGo), (1, WcLock)] (wc_start 2) = Some (s, pcs)"
    "length pcs = 2" "pcs ! 1 = WcHeld" by auto
  with win32_condition_excludes [OF this(1), of 1] show ?thesis by simp
qed

text \<open>if only one thread ever waits on a Win32 condition variable, no broadcast is lost: while the
  thread waits after one was called, the event is set or the caller is about to set it; so long as the
  32-bit count of the threads, which keeps the waits that timed out, has not wrapped around.\<close>

theorem win32_broadcast_reaches_one_waiter:
  assumes "wc_exec xs (wc_start n) = Some (s, pcs)" and "0 < n" and "wc_waits_only_0 xs" and "int (length xs) < 2 ^ 32"
    and "pcs ! 0 = WcWait lim True"
  shows "wc_bc s \<or> (\<exists>u<length pcs. pcs ! u = WcBc)"
  using wc_exec_one [OF assms(1-4)] assms(5) by (simp add: wc_one_def)

definition wc_go_to_sleep :: "nat \<Rightarrow> int \<Rightarrow> (nat \<times> wc_act) list" where
  "wc_go_to_sleep t d = [(t, WcLock), (t, WcCallWait d), (t, WcGo), (t, WcGo)]"
definition wc_do_broadcast :: "nat \<Rightarrow> (nat \<times> wc_act) list" where
  "wc_do_broadcast t = [(t, WcLock), (t, WcCallBroadcast), (t, WcGo), (t, WcUnlock)]"

lemmas wc_trace_simps = wc_run_simps wc_go_to_sleep_def wc_do_broadcast_def

theorem win32_broadcast_reaches_one_waiter_witness:
  "\<exists>s pcs. wc_exec (wc_go_to_sleep 0 (wn_du_msec 5) @ wc_do_broadcast 1) (wc_start 2) = Some (s, pcs) \<and>
    pcs ! 0 = WcWait True True \<and> (wc_bc s \<or> (\<exists>u<length pcs. pcs ! u = WcBc))"
proof -
  have "\<exists>c. wc_exec (wc_go_to_sleep 0 (wn_du_msec 5) @ wc_do_broadcast 1) (wc_start 2) = Some c \<and> snd c ! 0 = WcWait True True"
    by (simp add: wc_trace_simps)
  then obtain s pcs where "wc_exec (wc_go_to_sleep 0 (wn_du_msec 5) @ wc_do_broadcast 1) (wc_start 2) = Some (s, pcs)"
    "pcs ! 0 = WcWait True True" by auto
  with win32_broadcast_reaches_one_waiter [OF this(1) _ _ _ this(2)] show ?thesis
    by (simp add: wc_waits_only_0_def wc_go_to_sleep_def wc_do_broadcast_def)
qed

text \<open>with two waiting threads a broadcast can be lost: the last thread of an earlier broadcast resets the
  event after a second thread has begun to wait and a second broadcast was called, and the second
  thread sleeps on with no event set.\<close>

theorem win32_broadcast_can_be_lost:
  "\<exists>xs s pcs. wc_exec xs (wc_start 3) = Some (s, pcs) \<and> pcs ! 1 = WcWait False True \<and>
    \<not> wc_bc s \<and> \<not> wc_sig s \<and> (\<forall>pc\<in>set pcs. pc \<noteq> WcBc \<and> pc \<noteq> WcSig)"
proof -
  let ?xs = "wc_go_to_sleep 0 (-1) @ wc_do_broadcast 2 @ [(0, WcGo), (0, WcGo), (0, WcGo), (0, WcGo)] @
    wc_go_to_sleep 1 (wn_du_uint32 WIN_INFINITE) @ wc_do_broadcast 2 @ [(0, WcGo)]"
  have "\<exists>c. wc_exec ?xs (wc_start 3) = Some c \<and> snd c ! 1 = WcWait False True \<and> \<not> wc_bc (fst c) \<and> \<not> wc_sig (fst c) \<and>
      (\<forall>pc\<in>set (snd c). pc \<noteq> WcBc \<and> pc \<noteq> WcSig)"
    by (simp add: wc_trace_simps numeral_3_eq_3 wn_du_uint32_def s32_def u32_def c_div_def)
  then show ?thesis by (metis prod.collapse)
qed

text \<open>\<open>--nthread_\<close> is made without the mutex: a thread that leaves a wait can overwrite the count of one
  that begins to wait, which then sleeps while the count is 0, so that neither \<open>signal\<close> nor
  \<open>broadcast\<close> does anything for it.\<close>

theorem win32_waiter_can_be_uncounted:
  "\<exists>xs s pcs. wc_exec xs (wc_start 3) = Some (s, pcs) \<and> pcs ! 1 = WcWait False False \<and> wc_n s = 0 \<and>
    wc_thread t WcCallSignal WcHeld s = Some (WcHeld, s) \<and> wc_thread t WcCallBroadcast WcHeld s = Some (WcHeld, s)"
proof -
  let ?xs = "wc_go_to_sleep 0 (-1) @ [(2, WcLock), (2, WcCallSignal), (2, WcGo), (2, WcUnlock), (0, WcGo), (0, WcGo)] @
    wc_go_to_sleep 1 (wn_du_uint32 WIN_INFINITE) @ [(0, WcGo)]"
  have "\<exists>c. wc_exec ?xs (wc_start 3) = Some c \<and> snd c ! 1 = WcWait False False \<and> wc_n (fst c) = 0"
    by (simp add: wc_trace_simps numeral_3_eq_3 wn_du_uint32_def s32_def u32_def c_div_def)
  then obtain s pcs where "wc_exec ?xs (wc_start 3) = Some (s, pcs)" "pcs ! 1 = WcWait False False" "wc_n s = 0" by auto
  then show ?thesis by (intro exI [of _ ?xs] exI [of _ s] exI [of _ pcs]) (simp add: wc_held_def)
qed

text \<open>after a wait that timed out the count is too high, and a broadcast then leaves the event set for
  good: a thread that waits from then on returns at once, without any signal or broadcast, and everything
  is as before.\<close>

theorem win32_broadcast_can_stay:
  "\<exists>xs c. wc_exec xs (wc_start 2) = Some c \<and> (\<forall>pc\<in>set (snd c). pc = WcOut) \<and> wc_bc (fst c) \<and>
    wc_exec (wc_go_to_sleep 0 (-1) @ [(0, WcGo), (0, WcGo), (0, WcGo), (0, WcGo), (0, WcGo), (0, WcUnlock)]) c = Some c"
proof -
  let ?xs = "wc_go_to_sleep 0 (wn_du_msec 5) @ [(0, WcTimeout), (0, WcGo), (0, WcUnlock)] @ wc_do_broadcast 1"
  have "\<exists>c. wc_exec ?xs (wc_start 2) = Some c \<and> (\<forall>pc\<in>set (snd c). pc = WcOut) \<and> wc_bc (fst c) \<and>
    wc_exec (wc_go_to_sleep 0 (-1) @ [(0, WcGo), (0, WcGo), (0, WcGo), (0, WcGo), (0, WcGo), (0, WcUnlock)]) c = Some c"
    by (simp add: wc_trace_simps u32_def s32_def c_div_def)
  then show ?thesis by blast
qed

end
