(* ===== verification/StdioStreams.thy ===== *)
theory StdioStreams imports BinStreams begin

text \<open>
  \<open>CtrlrFx/StdioBinStream.h\<close> and \<open>src/io/BinStream/StdioBinStream.cpp\<close>: streams over two files of the C
  library, one opened for reading and one for writing. The library's functions are an argument; files
  are numbers, of which 0 is the null pointer. The stream buffer has no get area and no put area, so that
  every byte goes through \<open>getc\<close> or \<open>putc\<close>, for which a null pointer is undefined.
\<close>

record 's stdio =
  c_fopen :: "string \<Rightarrow> string \<Rightarrow> 's \<Rightarrow> int \<times> 's"
  c_fclose :: "int \<Rightarrow> 's \<Rightarrow> 's"
  c_getc :: "int \<Rightarrow> 's \<Rightarrow> int \<times> 's"
  c_putc :: "int \<Rightarrow> int \<Rightarrow> 's \<Rightarrow> int \<times> 's"
  c_fflush :: "int \<Rightarrow> 's \<Rightarrow> int \<times> 's"
  c_fread :: "nat \<Rightarrow> int \<Rightarrow> 's \<Rightarrow> nat \<times> byte list \<times> 's"
  c_fwrite :: "byte list \<Rightarrow> int \<Rightarrow> 's \<Rightarrow> nat \<times> 's"

record 's sdev =
  sd_byte :: int
  sd_rd :: int
  sd_wr :: int
  sd_sys :: 's

section \<open>StdioBinStreamBuf\<close>

definition sd_ctor :: "byte mem \<Rightarrow> 's \<Rightarrow> 's sdev sbuf" where
  "sd_ctor m s = sb_ctor m \<lparr>sd_byte = -1, sd_rd = 0, sd_wr = 0, sd_sys = s\<rparr>"
definition sd_is_open :: "'s sdev sbuf \<Rightarrow> bool" where
  "sd_is_open b \<longleftrightarrow> sd_rd (sb_dev b) \<noteq> 0 \<and> sd_wr (sb_dev b) \<noteq> 0"

definition sd_close :: "'s stdio \<Rightarrow> 's sdev sbuf \<Rightarrow> 's sdev sbuf" where
  "sd_close io b =
     (let d = sb_dev b;
          d = (if sd_rd d \<noteq> 0 then d\<lparr>sd_sys := c_fclose io (sd_rd d) (sd_sys d), sd_rd := 0\<rparr> else d);
          d = (if sd_wr d \<noteq> 0 then d\<lparr>sd_sys := c_fclose io (sd_wr d) (sd_sys d), sd_wr := 0\<rparr> else d)
      in b\<lparr>sb_dev := d\<rparr>)"
definition sd_dtor :: "'s stdio \<Rightarrow> 's sdev sbuf \<Rightarrow> 's sdev sbuf" where "sd_dtor io b = sd_close io b"

definition sd_open :: "'s stdio \<Rightarrow> string \<Rightarrow> 's sdev sbuf \<Rightarrow> bool \<times> 's sdev sbuf" where
  "sd_open io name b =
     (let b = sd_close io b; (r, s) = c_fopen io name ''r'' (sd_sys (sb_dev b)); (w, s) = c_fopen io name ''w'' s;
          b = b\<lparr>sb_dev := (sb_dev b)\<lparr>sd_rd := r, sd_wr := w, sd_sys := s\<rparr>\<rparr>
      in (sd_is_open b, b))"

definition sd_mode :: "string \<Rightarrow> 's sdev sbuf \<Rightarrow> bool" where "sd_mode cfg b = False"
definition sd_timeout :: "int \<Rightarrow> 's sdev sbuf \<Rightarrow> bool" where "sd_timeout ms b = False"

text \<open>The two transfers have other parameter types than the base class's, which are the ones that are called.\<close>

definition sd_xsgetn :: "'s stdio \<Rightarrow> nat \<Rightarrow> 's sdev sbuf \<Rightarrow> nat \<times> byte list \<times> 's sdev sbuf" where
  "sd_xsgetn io n b =
     (let d = sb_dev b; (k, xs, s) = c_fread io n (sd_rd d) (sd_sys d) in (k, xs, b\<lparr>sb_dev := d\<lparr>sd_sys := s\<rparr>\<rparr>))"
definition sd_xsputn :: "'s stdio \<Rightarrow> byte list \<Rightarrow> 's sdev sbuf \<Rightarrow> nat \<times> 's sdev sbuf" where
  "sd_xsputn io bs b =
     (let d = sb_dev b; (k, s) = c_fwrite io bs (sd_wr d) (sd_sys d) in (k, b\<lparr>sb_dev := d\<lparr>sd_sys := s\<rparr>\<rparr>))"

definition sd_underflow :: "'s stdio \<Rightarrow> 's sdev sbuf \<Rightarrow> (int \<times> 's sdev sbuf) option" where
  "sd_underflow io b =
     (let d = sb_dev b
      in if sd_rd d = 0 then None
         else let (c, s) = c_getc io (sd_rd d) (sd_sys d) in Some (c, b\<lparr>sb_dev := d\<lparr>sd_sys := s\<rparr>\<rparr>))"
definition sd_overflow :: "'s stdio \<Rightarrow> int \<Rightarrow> 's sdev sbuf \<Rightarrow> (int \<times> 's sdev sbuf) option" where
  "sd_overflow io c b =
     (let d = sb_dev b
      in if sd_wr d = 0 then None
         else let (r, s) = c_putc io c (sd_wr d) (sd_sys d) in Some (r, b\<lparr>sb_dev := d\<lparr>sd_sys := s\<rparr>\<rparr>))"

text \<open>Flushing the null pointer flushes all files.\<close>

definition sd_sync :: "'s stdio \<Rightarrow> 's sdev sbuf \<Rightarrow> (int \<times> 's sdev sbuf) option" where
  "sd_sync io b =
     (let d = sb_dev b; (r, s) = c_fflush io (sd_wr d) (sd_sys d) in Some (r, b\<lparr>sb_dev := d\<lparr>sd_sys := s\<rparr>\<rparr>))"

definition sd_vt :: "'s stdio \<Rightarrow> 's sdev sbuf_vt" where
  "sd_vt io = sb_vt\<lparr>v_underflow := sd_underflow io, v_overflow := sd_overflow io, v_sync := sd_sync io\<rparr>"

section \<open>StdioBinStream\<close>

definition sds_ctor :: "byte mem \<Rightarrow> 's \<Rightarrow> 's sdev strm" where "sds_ctor m s = sm_ctor (sd_ctor m s)"
definition sds_open :: "'s stdio \<Rightarrow> string \<Rightarrow> 's sdev strm \<Rightarrow> 's sdev strm" where
  "sds_open io name s = (let (ok, b) = sd_open io name (sm_buf s) in sm_result (\<not> ok) failbit s b)"
definition sds_ctor_name :: "'s stdio \<Rightarrow> byte mem \<Rightarrow> string \<Rightarrow> 's \<Rightarrow> 's sdev strm" where
  "sds_ctor_name io m name s =
     (let st = sm_ctor (sd_ctor m s); (ok, b) = sd_open io name (sm_buf st) in sm_result (\<not> ok) failbit st b)"
definition sds_is_open :: "'s sdev strm \<Rightarrow> bool" where "sds_is_open s = sd_is_open (sm_buf s)"
definition sds_close :: "'s stdio \<Rightarrow> 's sdev strm \<Rightarrow> 's sdev strm" where
  "sds_close io s = s\<lparr>sm_buf := sd_close io (sm_buf s)\<rparr>"
definition sds_dtor :: "'s stdio \<Rightarrow> 's sdev strm \<Rightarrow> 's" where
  "sds_dtor io s = sd_sys (sb_dev (sd_dtor io (sm_buf s)))"
definition sds_mode :: "string \<Rightarrow> 's sdev strm \<Rightarrow> 's sdev strm" where
  "sds_mode cfg s = sm_result (\<not> sd_mode cfg (sm_buf s)) failbit s (sm_buf s)"
definition sds_timeout :: "int \<Rightarrow> 's sdev strm \<Rightarrow> 's sdev strm" where
  "sds_timeout ms s = sm_result (\<not> sd_timeout ms (sm_buf s)) failbit s (sm_buf s)"

section \<open>Transfers\<close>

text \<open>What the C library documents: \<open>getc\<close> gives the next byte of what is left of a file, or \<open>EOF\<close>; \<open>putc\<close>
  appends a byte and returns it.\<close>

definition getc_source :: "'s stdio \<Rightarrow> int \<Rightarrow> ('s \<Rightarrow> byte list) \<Rightarrow> bool" where
  "getc_source io r left \<longleftrightarrow>
     (\<forall>s. case left s of [] \<Rightarrow> fst (c_getc io r s) = -1 \<and> left (snd (c_getc io r s)) = []
       | x # xs \<Rightarrow> fst (c_getc io r s) = uint x \<and> left (snd (c_getc io r s)) = xs)"
definition putc_sink :: "'s stdio \<Rightarrow> int \<Rightarrow> ('s \<Rightarrow> byte list) \<Rightarrow> bool" where
  "putc_sink io w sent \<longleftrightarrow>
     (\<forall>x s. fst (c_putc io (uint x) w s) = uint (x :: byte) \<and> sent (snd (c_putc io (uint x) w s)) = sent s @ [x])"

text \<open>A buffer without areas, with its files open.\<close>

definition sd_inv :: "int \<Rightarrow> int \<Rightarrow> 's sdev sbuf \<Rightarrow> bool" where
  "sd_inv r w b \<longleftrightarrow> gnext b = 0 \<and> pnext b = 0 \<and> gbegin b = 0 \<and> pbegin b = 0 \<and>
     sd_rd (sb_dev b) = r \<and> sd_wr (sb_dev b) = w \<and> r \<noteq> 0 \<and> w \<noteq> 0"

abbreviation sd_state :: "'s sdev sbuf \<Rightarrow> 's" where "sd_state b \<equiv> sd_sys (sb_dev b)"

lemma sd_vt_simps [simp]:
  "v_underflow (sd_vt io) = sd_underflow io" "v_overflow (sd_vt io) = sd_overflow io" "v_sync (sd_vt io) = sd_sync io"
  by (simp_all add: sd_vt_def)

lemma sd_uflow:
  assumes "sd_inv r w b"
  shows "sb_uflow (sd_vt io) b = Some (fst (c_getc io r (sd_state b)),
    b\<lparr>sb_dev := (sb_dev b)\<lparr>sd_sys := snd (c_getc io r (sd_state b))\<rparr>\<rparr>)"
  using assms by (simp add: sb_uflow_def sd_underflow_def sd_inv_def split_def Let_def)

lemma sd_xsgetn_loop:
  assumes "getc_source io r left"
  shows "sd_inv r w b \<Longrightarrow> \<exists>b'. sb_xsgetn_loop (sd_vt io) n acc b =
      Some (n - length (left (sd_state b)), acc @ take n (left (sd_state b)), b') \<and>
    sd_inv r w b' \<and> left (sd_state b') = drop n (left (sd_state b))"
proof (induction n arbitrary: acc b)
  case 0
  then show ?case by (auto simp: sb_xsgetn_loop.simps)
next
  case (Suc n)
  let ?s = "snd (c_getc io r (sd_state b))"
  let ?b = "b\<lparr>sb_dev := (sb_dev b)\<lparr>sd_sys := ?s\<rparr>\<rparr>"
  have inv: "sd_inv r w ?b" "gnext b = 0" using Suc.prems by (simp_all add: sd_inv_def)
  note src = assms [unfolded getc_source_def, rule_format, of "sd_state b"]
  show ?case
  proof (cases "left (sd_state b)")
    case Nil
    with src inv show ?thesis by (subst sb_xsgetn_loop.simps) (simp add: sd_uflow [OF Suc.prems])
  next
    case (Cons x xs)
    then have "left (sd_state ?b) = xs" using src by simp
    with Suc.IH [OF inv(1), of "acc @ [x]"] Cons src inv(2) show ?thesis
      by (subst sb_xsgetn_loop.simps) (simp add: sd_uflow [OF Suc.prems])
  qed
qed

lemma sd_xsputn_loop:
  assumes "putc_sink io w sent"
  shows "sd_inv r w b \<Longrightarrow> \<exists>b'. sb_xsputn_loop (sd_vt io) bs b = Some (0, b') \<and> sd_inv r w b' \<and>
    sent (sd_state b') = sent (sd_state b) @ bs"
proof (induction bs arbitrary: b)
  case Nil
  then show ?case by (auto simp: sb_xsputn_loop.simps)
next
  case (Cons x bs)
  let ?s = "snd (c_putc io (uint x) w (sd_state b))"
  let ?b = "b\<lparr>sb_dev := (sb_dev b)\<lparr>sd_sys := ?s\<rparr>\<rparr>"
  note snk = assms [unfolded putc_sink_def, rule_format, of x "sd_state b"]
  have inv: "sd_inv r w ?b" "pnext b = 0" using Cons.prems by (simp_all add: sd_inv_def)
  have "sd_overflow io (uint x) b = Some (uint x, ?b)"
    using Cons.prems snk by (simp add: sd_overflow_def sd_inv_def split_def Let_def)
  with Cons.IH [OF inv(1)] snk inv(2) show ?case by (subst sb_xsputn_loop.simps) simp
qed

section \<open>Properties\<close>

text \<open>a stdio stream whose files are open delivers, to a read of \<open>n\<close> bytes, the next \<open>n\<close> bytes of the file, or
  all there are and the end of the file is reported; and a write appends all its bytes.\<close>

theorem stdio_streams_transfer:
  assumes "sd_inv r w (sm_buf s)" and "getc_source io r left" and "putc_sink io w sent"
  shows "(\<exists>s'. in_get_n (sd_vt io) n s = Some (take n (left (sd_state (sm_buf s))), s') \<and> sd_inv r w (sm_buf s') \<and>
      left (sd_state (sm_buf s')) = drop n (left (sd_state (sm_buf s))) \<and>
      sm_state s' = (if n \<le> length (left (sd_state (sm_buf s))) then goodbit else eofbit OR failbit)) \<and>
    (\<exists>s'. strm_write (sd_vt io) bs s = Some s' \<and> sd_inv r w (sm_buf s') \<and> sm_good s' \<and>
      sent (sd_state (sm_buf s')) = sent (sd_state (sm_buf s)) @ bs)"
proof -
  obtain b where b: "sb_xsgetn_loop (sd_vt io) n [] (sm_buf s) =
      Some (n - length (left (sd_state (sm_buf s))), take n (left (sd_state (sm_buf s))), b)"
    "sd_inv r w b" "left (sd_state b) = drop n (left (sd_state (sm_buf s)))"
    using sd_xsgetn_loop [OF assms(2,1), of n "[]"] by auto
  obtain c where c: "sb_xsputn_loop (sd_vt io) bs (sm_buf s) = Some (0, c)" "sd_inv r w c"
    "sent (sd_state c) = sent (sd_state (sm_buf s)) @ bs"
    using sd_xsputn_loop [OF assms(3,1)] by blast
  show ?thesis using b c
    by (auto simp: in_get_n_def sb_sgetn_def strm_write_def sb_sputn_def sm_result_def sm_good_def goodbit_def of_nat_diff)
qed

text \<open>A library with one file, whose bytes still to be read and whose bytes written are the state.\<close>

definition one_file :: "(byte list \<times> byte list) stdio" where
  "one_file = \<lparr>c_fopen = (\<lambda>name md s. if md = ''w'' then (2, fst s, []) else (1, s)), c_fclose = (\<lambda>f s. s),
     c_getc = (\<lambda>f s. case fst s of [] \<Rightarrow> (-1, s) | x # xs \<Rightarrow> (uint x, xs, snd s)),
     c_putc = (\<lambda>c f s. (c, fst s, snd s @ [word_of_int c])), c_fflush = (\<lambda>f s. (0, s)),
     c_fread = (\<lambda>n f s. (length (take n (fst s)), take n (fst s), drop n (fst s), snd s)),
     c_fwrite = (\<lambda>bs f s. (length bs, fst s, snd s @ bs))\<rparr>"

definition no_mem :: "byte mem" where "no_mem = \<lparr>m_val = (\<lambda>_. 0), m_live = (\<lambda>_. False), m_blocks = Map.empty, m_brk = 1\<rparr>"

theorem stdio_streams_transfer_witness:
  "\<exists>s'. in_get_n (sd_vt one_file) 2 (sds_ctor_name one_file no_mem ''f'' ([7, 8, 9], [])) = Some ([7, 8], s')"
proof -
  let ?s = "sds_ctor_name one_file no_mem ''f'' ([7, 8, 9], [])"
  have "sd_inv 1 2 (sm_buf ?s)" and l: "fst (sd_state (sm_buf ?s)) = [7, 8, 9]"
    by (simp_all add: sds_ctor_name_def sd_ctor_def sd_open_def sd_close_def one_file_def sm_ctor_def sb_ctor_def sm_result_def
        sd_inv_def Let_def)
  moreover have "getc_source one_file 1 fst" "putc_sink one_file 2 snd"
    by (simp_all add: getc_source_def putc_sink_def one_file_def split: list.split)
  ultimately show ?thesis using stdio_streams_transfer [of 1 2 ?s one_file fst snd 2 "[]"] by auto
qed

text \<open>opening a stream on a file empties the file: what was in it can never be read.\<close>

theorem stdio_open_empties_the_file:
  assumes "\<And>s w s'. c_fopen io name ''w'' s = (w, s') \<Longrightarrow> w \<noteq> 0 \<Longrightarrow> content s' = []"
    and "sm_good (sds_open io name s)"
  shows "content (sd_state (sm_buf (sds_open io name s))) = []"
  using assms by (auto simp: sds_open_def sd_open_def sd_is_open_def sm_good_def sm_result_def goodbit_def failbit_def Let_def
      split: prod.splits if_splits)

theorem stdio_open_empties_the_file_witness:
  "snd (sd_state (sm_buf (sds_open one_file ''f'' (sds_ctor no_mem ([], [1, 2]))))) = []"
  by (rule stdio_open_empties_the_file)
    (auto simp: one_file_def sds_open_def sd_open_def sd_is_open_def sm_good_def sm_result_def goodbit_def failbit_def Let_def
      sds_ctor_def sd_ctor_def sd_close_def sm_ctor_def sb_ctor_def)

text \<open>when the file to open is not there, the stream fails but keeps the file that the second \<open>fopen\<close> has
  created open for writing, and reading a byte goes through a null pointer.\<close>

theorem stdio_failed_open_creates_the_file:
  assumes "\<And>s. fst (c_fopen io name ''r'' s) = 0" and "\<And>s. fst (c_fopen io name ''w'' s) \<noteq> 0"
  shows "sm_fail (sds_ctor_name io m name s) \<and> sd_wr (sb_dev (sm_buf (sds_ctor_name io m name s))) \<noteq> 0 \<and>
    sb_sbumpc (sd_vt io) (sm_buf (sds_ctor_name io m name s)) = None"
proof -
  obtain s1 where s1: "c_fopen io name ''r'' s = (0, s1)" using assms(1) [of s] by (cases "c_fopen io name ''r'' s") auto
  obtain w s2 where s2: "c_fopen io name ''w'' s1 = (w, s2)" "w \<noteq> 0"
    using assms(2) [of s1] by (cases "c_fopen io name ''w'' s1") auto
  show ?thesis using s1 s2
    by (simp add: sds_ctor_name_def sd_ctor_def sd_open_def sd_close_def sd_is_open_def sm_ctor_def sb_ctor_def sm_result_def
        sm_fail_def goodbit_def failbit_def sb_sbumpc_def sb_uflow_def sd_underflow_def Let_def)
qed

theorem stdio_failed_open_creates_the_file_witness:
  "sm_fail (sds_ctor_name (one_file\<lparr>c_fopen := \<lambda>name md s. if md = ''w'' then (2, s) else (0, s)\<rparr>) m ''f'' s)"
  using stdio_failed_open_creates_the_file [of "one_file\<lparr>c_fopen := \<lambda>name md s. if md = ''w'' then (2, s) else (0, s)\<rparr>" "''f''" m s]
  by simp

text \<open>looking at the next byte takes it out of the file: the second \<open>sgetc\<close> in a row gives the second
  byte.\<close>

theorem stdio_peek_consumes:
  assumes "sd_inv r w b" and "getc_source io r left" and "left (sd_state b) = x # y # rest"
  shows "do { (c, b) \<leftarrow> sb_sgetc (sd_vt io) b; (d, b) \<leftarrow> sb_sgetc (sd_vt io) b; Some (c, d) } = Some (uint x, uint y)"
proof -
  let ?s = "snd (c_getc io r (sd_state b))"
  have x: "fst (c_getc io r (sd_state b)) = uint x" "left ?s = y # rest"
    using assms(2) [unfolded getc_source_def, rule_format, of "sd_state b"] assms(3) by simp_all
  have y: "fst (c_getc io r ?s) = uint y"
    using assms(2) [unfolded getc_source_def, rule_format, of ?s] x(2) by simp
  show ?thesis using assms(1) x(1) y by (simp add: sb_sgetc_def sd_underflow_def sd_inv_def split_def Let_def)
qed

theorem stdio_peek_consumes_witness:
  "do { (c, b) \<leftarrow> sb_sgetc (sd_vt one_file) (snd (sd_open one_file ''f'' (sd_ctor no_mem ([7, 8, 9], []))));
        (d, b) \<leftarrow> sb_sgetc (sd_vt one_file) b; Some (c, d) } = Some (7, 8)"
proof -
  let ?b = "snd (sd_open one_file ''f'' (sd_ctor no_mem ([7, 8, 9], [])))"
  have "sd_inv 1 2 ?b" "fst (sd_state ?b) = [7, 8, 9]"
    by (simp_all add: sd_ctor_def sd_open_def sd_close_def one_file_def sb_ctor_def sd_inv_def Let_def)
  moreover have "getc_source one_file 1 fst" by (simp add: getc_source_def one_file_def split: list.split)
  ultimately show ?thesis using stdio_peek_consumes [of 1 2 ?b one_file fst 7 8 "[9]"] by simp
qed

end
