(* ===== verification/IdlModel.thy ===== *)
theory IdlModel imports Cfx_Base begin

text \<open>
  The data of the interface compiler \<open>tools/cfxidl\<close> and the parts of C++ text it prints from
  them: values, parameters and functions (\<open>cfxidl.h\<close>, \<open>cfxidl.cpp\<close>, \<open>Func.h\<close>, \<open>Func.cpp\<close>). What
  the code writes to an output stream is the string the function returns; \<open>endl\<close> writes the
  newline \<open>nl\<close>. A type or a name is the text the compiler's lexer hands to the parser.
\<close>

section \<open>Characters\<close>

definition nl :: string where "nl = [CHR 0x0A]"
definition tab :: string where "tab = [CHR 0x09]"
definition dquote :: string where "dquote = [CHR 0x22]"

definition c_toupper :: "char \<Rightarrow> char" where
  "c_toupper c = (let n = (of_char c :: nat) in if 97 \<le> n \<and> n \<le> 122 then char_of (n - 32) else c)"

definition c_replace :: "char \<Rightarrow> char \<Rightarrow> string \<Rightarrow> string" where
  "c_replace x y s = map (\<lambda>c. if c = x then y else c) s"

section \<open>Values\<close>

record idl_value =
  vl_type :: string
  vl_name :: string

definition prim_list :: "string option list" where
  "prim_list = map Some [''char'', ''byte'', ''int8'', ''int8_t'', ''uint8'', ''uint8_t'',
    ''short'', ''int16'', ''int16_t'', ''uint16'', ''uint16_t'',
    ''int'', ''int32'', ''int32_t'', ''uint32'', ''uint32_t'',
    ''long'', ''int64'', ''int64_t'', ''uint64'', ''uint64_t'',
    ''float'', ''double''] @ [None]"

text \<open>The constructor walks the array up to the null pointer; \<open>None\<close> is a run off its end.\<close>

fun prims_ctor :: "string option list \<Rightarrow> string list \<Rightarrow> string list option" where
  "prims_ctor [] S = None"
| "prims_ctor (None # p) S = Some S"
| "prims_ctor (Some t # p) S = prims_ctor p (List.insert t S)"

text \<open>The instance is created by the first call.\<close>

definition prims_instance :: "string list option \<Rightarrow> string list option" where
  "prims_instance i = (case i of None \<Rightarrow> prims_ctor prim_list [] | Some S \<Rightarrow> Some S)"

definition prims_contains :: "string \<Rightarrow> bool" where
  "prims_contains t = (case prims_instance None of Some S \<Rightarrow> t \<in> set S | None \<Rightarrow> False)"

definition is_primitive :: "('a) idl_value_scheme \<Rightarrow> bool" where
  "is_primitive v = prims_contains (vl_type v)"

definition err_val :: "('a) idl_value_scheme \<Rightarrow> string" where
  "err_val v =
     (if vl_type v = ''void'' then ''''
      else if vl_type v = ''bool'' then ''false''
      else vl_type v @ (if is_primitive v then ''(0)'' else ''()''))"

definition value_text :: "('a) idl_value_scheme \<Rightarrow> string" where
  "value_text v = ''Type: '' @ vl_type v @ '', Name: '' @ vl_name v"

section \<open>Parameters\<close>

datatype idl_dir = DIN | DOUT | DINOUT

record idl_param = idl_value +
  pm_dir :: idl_dir

definition pm_ctor :: "idl_dir \<Rightarrow> string \<Rightarrow> string \<Rightarrow> idl_param" where
  "pm_ctor d t n = \<lparr>vl_type = t, vl_name = n, pm_dir = d\<rparr>"

definition param_text :: "idl_param \<Rightarrow> string" where
  "param_text p =
     (if pm_dir p = DIN then
        (if is_primitive p then vl_type p @ '' '' @ vl_name p
         else ''const '' @ vl_type p @ ''& '' @ vl_name p)
      else vl_type p @ ''* '' @ vl_name p)"

definition params_text :: "idl_param list \<Rightarrow> string" where
  "params_text pl =
     (if pl \<noteq> [] then concat (map (\<lambda>p. param_text p @ '', '') (butlast pl)) @ param_text (last pl)
      else '''')"

section \<open>Functions\<close>

record idl_func = idl_value +
  fn_params :: "idl_param list"

definition fn_ctor :: "string \<Rightarrow> string \<Rightarrow> idl_func" where
  "fn_ctor t n = \<lparr>vl_type = t, vl_name = n, fn_params = []\<rparr>"

text \<open>\<open>swap\<close> exchanges the parameters with the caller's list.\<close>

definition fn_swap :: "idl_func \<Rightarrow> idl_param list \<Rightarrow> idl_func \<times> idl_param list" where
  "fn_swap f pl = (f\<lparr>fn_params := pl\<rparr>, fn_params f)"

definition cmd_const_name :: "idl_func \<Rightarrow> string" where
  "cmd_const_name f = map c_toupper (vl_name f) @ ''_CMD''"

definition cmd_func_name :: "idl_func \<Rightarrow> string" where
  "cmd_func_name f = vl_name f @ ''_cmd''"

definition func_text :: "idl_func \<Rightarrow> string" where
  "func_text f = ''virtual '' @ vl_type f @ '' '' @ vl_name f @ ''('' @ params_text (fn_params f) @ '')''"

definition write_decl :: "idl_func \<Rightarrow> string \<Rightarrow> string" where
  "write_decl f cls =
     (if cls = '''' then func_text f
      else vl_type f @ '' '' @ cls @ ''::'' @ vl_name f @ ''('' @ params_text (fn_params f) @ '')'')"

definition funcs_text :: "idl_func list \<Rightarrow> string" where
  "funcs_text fl = concat (map (\<lambda>f. func_text f @ nl) fl)"

section \<open>Lemmas\<close>

lemma prims_ctor_Some: "prims_ctor (map Some ts @ [None]) S = Some (fold List.insert ts S)"
  by (induction ts arbitrary: S) auto

lemma prims_instance_once: "prims_instance (prims_instance None) = prims_instance None"
  by (simp add: prims_instance_def prim_list_def)

lemma set_fold_insert: "set (fold List.insert ts S) = set ts \<union> set S"
  by (induction ts arbitrary: S) auto

lemma prims_contains_iff: "prims_contains t \<longleftrightarrow> Some t \<in> set prim_list"
  unfolding prims_contains_def prims_instance_def prim_list_def option.case prims_ctor_Some
    set_fold_insert by auto

lemma params_text_Cons:
  "params_text (p # pl) = param_text p @ concat (map (\<lambda>q. '', '' @ param_text q) pl)"
proof (induction pl arbitrary: p)
  case Nil show ?case by (simp add: params_text_def)
next
  case (Cons q pl)
  have "params_text (p # q # pl) = param_text p @ '', '' @ params_text (q # pl)"
    by (simp add: params_text_def)
  then show ?case by (simp add: Cons.IH)
qed

lemma params_text_Nil [simp]: "params_text [] = ''''"
  by (simp add: params_text_def)

end
