(* ===== verification/IdlFiles.thy ===== *)
theory IdlFiles imports IdlModel begin

text \<open>
  The files \<open>tools/cfxidl\<close> generates for an interface (\<open>Iface.h\<close>, \<open>Iface.cpp\<close>). Each \<open>..._file\<close> is
  the text one \<open>create_...\<close> method writes, statement by statement; the method itself opens the file,
  throws when that fails, and returns the state of the stream. The file system maps names to
  contents; what the operating system answers when a file is opened or written is an argument.
\<close>

section \<open>Interfaces\<close>

record idl_iface =
  if_name :: string
  if_funcs :: "idl_func list"

definition if_ctor :: "string \<Rightarrow> idl_iface" where
  "if_ctor n = \<lparr>if_name = n, if_funcs = []\<rparr>"

definition if_swap :: "idl_iface \<Rightarrow> idl_func list \<Rightarrow> idl_iface \<times> idl_func list" where
  "if_swap I fl = (I\<lparr>if_funcs := fl\<rparr>, if_funcs I)"

definition if_add :: "idl_iface list \<Rightarrow> idl_iface \<Rightarrow> idl_iface list" where
  "if_add l I = l @ [I]"

definition iface_name :: "idl_iface \<Rightarrow> string" where
  "iface_name I = ''I'' @ if_name I"

definition HDR_EXT :: string where "HDR_EXT = ''.h''"
definition SRC_EXT :: string where "SRC_EXT = ''.cpp''"

definition write_func_sep :: string where
  "write_func_sep = ''// '' @ replicate 74 CHR ''-'' @ nl @ nl"

definition write_class_sep :: string where
  "write_class_sep = replicate 77 CHR ''/'' @ nl @ nl"

text \<open>The include guard of a header: the code's \<open>fdef\<close>.\<close>

definition hdr_guard :: "string \<Rightarrow> string" where
  "hdr_guard fname = c_replace CHR ''.'' CHR ''_'' (''__'' @ fname)"

section \<open>The interface header\<close>

definition iface_hdr :: "idl_iface \<Rightarrow> string" where
  "iface_hdr I = iface_name I @ HDR_EXT"

definition iface_file :: "idl_iface \<Rightarrow> string" where
  "iface_file I =
     (let ifaceName = iface_name I; filename = iface_hdr I; fdef = hdr_guard filename in
      ''// '' @ filename @ nl @
      ''// Implementation for interface '' @ if_name I @ nl @
      ''// Generated by cfxidl compiler.'' @ nl @ nl @
      ''#ifndef '' @ fdef @ nl @
      ''#define '' @ fdef @ nl @ nl @
      ''class '' @ ifaceName @ nl @ ''{'' @ nl @
      ''protected:'' @ nl @
      tab @ ''// TODO: Assign a class number'' @ nl @
      tab @ ''static const uint16_t OBJ_CLASS = 0;'' @ nl @ nl @
      (if if_funcs I \<noteq> [] then
         tab @ ''enum { '' @ concat (map (\<lambda>f. cmd_const_name f @ '', '') (if_funcs I)) @
         ''N_CMD };'' @ nl @
         nl @ ''public:'' @ nl @
         concat (map (\<lambda>f. tab @ func_text f @ '' =0;'' @ nl) (if_funcs I))
       else '''') @
      nl @ tab @ ''virtual ~'' @ ifaceName @ ''() {}'' @ nl @
      ''};'' @ nl @
      nl @ ''#endif'' @ tab @ tab @ ''// '' @ fdef @ nl)"

section \<open>The stub\<close>

definition stub_name :: "idl_iface \<Rightarrow> string" where
  "stub_name I = if_name I @ ''_stub''"

definition stub_hdr :: "idl_iface \<Rightarrow> string" where
  "stub_hdr I = stub_name I @ HDR_EXT"

definition stub_src :: "idl_iface \<Rightarrow> string" where
  "stub_src I = stub_name I @ SRC_EXT"

definition stub_hdr_file :: "idl_iface \<Rightarrow> string" where
  "stub_hdr_file I =
     (let stubName = stub_name I; filename = stub_hdr I; fdef = hdr_guard filename in
      ''// '' @ filename @ nl @
      ''// Stub for interface '' @ if_name I @ nl @
      ''// Generated by cfxidl compiler.'' @ nl @ nl @
      ''#ifndef '' @ fdef @ nl @
      ''#define '' @ fdef @ nl @ nl @
      ''#include '' @ dquote @ iface_name I @ HDR_EXT @ dquote @ nl @ nl @
      ''class '' @ stubName @ '' : virtual public '' @ iface_name I @ nl @ ''{'' @ nl @
      tab @ ''typedef CtrlrFx::BinNativeEncoder Encoder;'' @ nl @
      tab @ ''typedef CtrlrFx::BinNativeDecoder Decoder;'' @ nl @
      tab @ ''typedef CtrlrFx::FixedBuffer<byte, CtrlrFx::DistObjSrvr::DFLT_CMD_RSP_SIZE> CmdBuffer;'' @ nl @
      tab @ ''typedef CtrlrFx::IDistObj::op_t op_t;'' @ nl @
      nl @
      tab @ ''CtrlrFx::DistObjSrvr* objSrvr_;'' @ nl @
      nl @
      tab @ ''void put_cmd_hdr(CtrlrFx::BufEncoder& enc, op_t cmd) const;'' @ nl @
      nl @ ''public:'' @ nl @
      tab @ ''CtrlrFx::DistObjSrvr* obj_srvr() const { return objSrvr_; }'' @ nl @
      tab @ ''void obj_srvr(CtrlrFx::DistObjSrvr* srvr) { objSrvr_ = srvr; }'' @ nl @
      nl @
      concat (map (\<lambda>f. tab @ func_text f @ '';'' @ nl) (if_funcs I)) @
      ''};'' @ nl @
      nl @ ''#endif'' @ tab @ tab @ ''// '' @ fdef @ nl)"

text \<open>The two counters of the loops over the parameters, \<open>nin\<close> and \<open>nout\<close>.\<close>

definition pm_in :: "idl_param \<Rightarrow> bool" where
  "pm_in p \<longleftrightarrow> pm_dir p = DIN \<or> pm_dir p = DINOUT"

definition pm_out :: "idl_param \<Rightarrow> bool" where
  "pm_out p \<longleftrightarrow> pm_dir p = DOUT \<or> pm_dir p = DINOUT"

fun count_dirs :: "idl_param list \<Rightarrow> nat \<Rightarrow> nat \<Rightarrow> nat \<times> nat" where
  "count_dirs [] nin nout = (nin, nout)"
| "count_dirs (p # pl) nin nout =
     count_dirs pl (if pm_in p then nin + 1 else nin) (if pm_out p then nout + 1 else nout)"

definition stub_in_args :: "idl_param list \<Rightarrow> string" where
  "stub_in_args pl = concat (map (\<lambda>p.
     if pm_dir p = DIN then '' << '' @ vl_name p
     else if pm_dir p = DINOUT then '' << *'' @ vl_name p
     else '''') pl)"

definition stub_out_args :: "idl_param list \<Rightarrow> string" where
  "stub_out_args pl = concat (map (\<lambda>p. if pm_out p then '' >> *'' @ vl_name p else '''') pl)"

definition stub_func :: "idl_iface \<Rightarrow> idl_func \<Rightarrow> string" where
  "stub_func I f =
     (let pl = fn_params f; (nin, nout) = count_dirs pl 0 0 in
      write_func_sep @
      write_decl f (stub_name I) @
      nl @ ''{'' @ nl @
      tab @ ''CmdBuffer cmd, rsp;'' @ nl @
      tab @ ''Encoder cmdEnc(cmd);'' @ nl @
      nl @
      tab @ ''put_cmd_hdr(cmdEnc, '' @ cmd_const_name f @ '');'' @ nl @
      nl @
      (if nin > 0 then tab @ ''cmdEnc'' @ stub_in_args pl @ '';'' @ nl @ nl else '''') @
      (if vl_type f = ''void'' \<and> nout = 0 then
         tab @ ''objSrvr_->send(BIN_MSG_TYPE_CMD, cmd.flip(), rsp);'' @ nl
       else
         tab @ ''int _n = objSrvr_->send(BIN_MSG_TYPE_CMD, cmd.flip(), rsp);'' @ nl @
         tab @ ''if (_n < 0)'' @ nl @ tab @ tab @
         ''return '' @ err_val f @ '';'' @ nl @ nl @
         (if vl_type f \<noteq> ''void'' then tab @ vl_type f @ '' _ret;'' @ nl else '''') @
         tab @ ''Decoder rspDec(rsp);'' @ nl @
         tab @ ''rspDec'' @
         stub_out_args pl @
         (if vl_type f \<noteq> ''void'' then
            '' >> _ret;'' @ nl @
            tab @ ''return (rspDec) ? _ret : '' @ err_val f
          else '''') @
         '';'' @ nl) @
      ''}'' @ nl @ nl)"

definition stub_put_cmd_hdr :: "idl_iface \<Rightarrow> string" where
  "stub_put_cmd_hdr I =
     ''void '' @ stub_name I @ ''::put_cmd_hdr(BufEncoder& enc, op_t cmd) const'' @ nl @ ''{'' @ nl @
     tab @ ''enc.put_uint32(objSrvr_->next_msg_id());'' @ nl @
     tab @ ''enc.put_uint32(tgt_obj(OBJ_CLASS, uint16_t(0)));'' @ nl @
     tab @ ''enc.put_uint32(cmd);'' @ nl @
     ''}'' @ nl @ nl"

definition stub_src_file :: "idl_iface \<Rightarrow> string" where
  "stub_src_file I =
     (let filename = stub_src I; hdrname = stub_hdr I in
      ''// '' @ filename @ nl @
      ''// Stub for interface '' @ if_name I @ nl @
      ''// Generated by cfxidl compiler.'' @ nl @ nl @
      ''#include '' @ dquote @ ''CtrlrFx/CtrlrFx.h'' @ dquote @ nl @
      ''#include '' @ dquote @ ''CtrlrFx/DistObjSrvr.h'' @ dquote @ nl @
      ''#include '' @ dquote @ ''CtrlrFx/BufCodec.h'' @ dquote @ nl @
      ''#include '' @ dquote @ ''CtrlrFx/FixedBuffer.h'' @ dquote @ nl @
      ''#include '' @ dquote @ hdrname @ dquote @ nl @ nl @
      ''using namespace CtrlrFx;'' @ nl @ nl @
      write_func_sep @
      stub_put_cmd_hdr I @
      concat (map (stub_func I) (if_funcs I)))"

section \<open>The skeleton\<close>

definition skel_name :: "idl_iface \<Rightarrow> string" where
  "skel_name I = if_name I @ ''_skel''"

definition skel_hdr :: "idl_iface \<Rightarrow> string" where
  "skel_hdr I = skel_name I @ HDR_EXT"

definition skel_src :: "idl_iface \<Rightarrow> string" where
  "skel_src I = skel_name I @ SRC_EXT"

definition skel_hdr_file :: "idl_iface \<Rightarrow> string" where
  "skel_hdr_file I =
     (let skelName = skel_name I; filename = skel_hdr I; fdef = hdr_guard filename in
      ''// '' @ filename @ nl @
      ''// Skel for interface '' @ if_name I @ nl @
      ''// Generated by cfxidl compiler.'' @ nl @ nl @
      ''#ifndef '' @ fdef @ nl @
      ''#define '' @ fdef @ nl @ nl @
      ''#include '' @ dquote @ iface_name I @ HDR_EXT @ dquote @ nl @
      ''#include '' @ dquote @ ''CtrlrFx/DistObj.h'' @ dquote @ nl @
      nl @
      write_class_sep @
      ''class '' @ skelName @ '' : virtual public '' @ iface_name I @
      '','' @ nl @ tab @ tab @ tab @ ''virtual public CtrlrFx::IDistObj'' @ nl @ ''{'' @ nl @
      tab @ ''typedef CtrlrFx::BinNativeEncoder Encoder;'' @ nl @
      tab @ ''typedef CtrlrFx::BinNativeDecoder Decoder;'' @ nl @
      tab @ ''typedef CtrlrFx::IDistObj::op_t op_t;'' @ nl @
      nl @
      tab @ ''typedef int ('' @ skelName @ ''::* CmdPtr)(Decoder& param, Encoder& rsp);'' @ nl @
      nl @ tab @ ''static const CmdPtr cmdTbl_[];'' @ nl @
      nl @
      tab @ ''// ----- Distributed callback methods -----'' @ nl @
      concat (map (\<lambda>f. tab @ ''int '' @ cmd_func_name f @ ''(Decoder& param, Encoder& rsp);'' @ nl)
        (if_funcs I)) @
      nl @ ''public:'' @ nl @
      tab @ ''virtual int invoke(op_t op, Decoder& param, Encoder& rsp);'' @ nl @
      ''};'' @ nl @
      nl @ ''#endif'' @ tab @ tab @ ''// '' @ fdef @ nl)"

definition skel_table :: "idl_iface \<Rightarrow> string" where
  "skel_table I =
     ''const '' @ skel_name I @ ''::CmdPtr '' @ skel_name I @ ''::cmdTbl_[] = {'' @ nl @
     concat (map (\<lambda>f. tab @ ''&'' @ skel_name I @ ''::'' @ cmd_func_name f @ '','' @ nl)
       (if_funcs I)) @
     tab @ ''0'' @ nl @ ''};'' @ nl @ nl"

definition skel_in_args :: "idl_param list \<Rightarrow> string" where
  "skel_in_args pl = concat (map (\<lambda>p. if pm_in p then '' >> '' @ vl_name p else '''') pl)"

definition skel_out_args :: "idl_param list \<Rightarrow> string" where
  "skel_out_args pl = concat (map (\<lambda>p. if pm_out p then '' << '' @ vl_name p else '''') pl)"

text \<open>The loop that prints the arguments of the call compares its iterator with the last place.\<close>

definition skel_call_args :: "idl_param list \<Rightarrow> string" where
  "skel_call_args pl = concat (map (\<lambda>i.
     (if pm_out (pl ! i) then ''&'' else '''') @ vl_name (pl ! i) @
     (if int i \<noteq> int (length pl) - 1 then '', '' else '''')) [0..<length pl])"

definition skel_func :: "idl_iface \<Rightarrow> idl_func \<Rightarrow> string" where
  "skel_func I f =
     (let pl = fn_params f; (nin, nout) = count_dirs pl 0 0;
          anyIn = (nin \<noteq> 0); anyRsp = (nout > 0 \<or> vl_type f \<noteq> ''void'') in
      write_func_sep @
      ''int '' @ skel_name I @ ''::'' @ cmd_func_name f @
      ''(Decoder& param, Encoder& rsp)'' @ nl @ ''{'' @ nl @
      concat (map (\<lambda>p. tab @ vl_type p @ '' '' @ vl_name p @ '';'' @ nl) pl) @
      (if anyIn then tab @ ''param'' @ skel_in_args pl @ '';'' @ nl else '''') @
      tab @
      (if vl_type f \<noteq> ''void'' then vl_type f @ '' _ret = '' else '''') @
      vl_name f @ ''('' @ skel_call_args pl @ '');'' @ nl @
      (if anyRsp then
         tab @ ''rsp'' @ skel_out_args pl @
         (if vl_type f \<noteq> ''void'' then '' << _ret'' else '''') @
         '';'' @ nl
       else '''') @
      tab @ ''return 0;'' @ nl @
      ''}'' @ nl @ nl)"

definition skel_invoke :: "idl_iface \<Rightarrow> string" where
  "skel_invoke I =
     ''int '' @ skel_name I @ ''::invoke(op_t op, Decoder& param, Encoder& rsp)'' @ nl @ ''{'' @ nl @
     tab @ ''if (unsigned(op) > N_CMD)'' @ nl @ tab @ tab @ ''return -1;'' @ nl @ nl @
     tab @ ''CmdPtr p = cmdTbl_[unsigned(op)];'' @ nl @
     tab @ ''return (p == 0) ? -1 : ((this->*p)(param, rsp));'' @ nl @ ''}''"

definition skel_src_file :: "idl_iface \<Rightarrow> string" where
  "skel_src_file I =
     (let filename = skel_src I; hdrname = skel_hdr I in
      ''// '' @ filename @ nl @
      ''// Skel for interface '' @ if_name I @ nl @
      ''// Generated by cfxidl compiler.'' @ nl @ nl @
      ''#include '' @ dquote @ ''CtrlrFx/CtrlrFx.h'' @ dquote @ nl @
      ''#include '' @ dquote @ hdrname @ dquote @ nl @ nl @
      ''using namespace CtrlrFx;'' @ nl @ nl @
      write_class_sep @
      skel_table I @
      concat (map (skel_func I) (if_funcs I)) @
      write_func_sep @
      skel_invoke I @
      nl)"

section \<open>The implementation\<close>

definition impl_hdr :: "idl_iface \<Rightarrow> string" where
  "impl_hdr I = if_name I @ HDR_EXT"

definition impl_src :: "idl_iface \<Rightarrow> string" where
  "impl_src I = if_name I @ SRC_EXT"

definition write_impl_hdr :: "idl_iface \<Rightarrow> string" where
  "write_impl_hdr I =
     ''class '' @ if_name I @ nl @ ''{'' @ nl @ ''public:'' @ nl @
     concat (map (\<lambda>f. tab @ func_text f @ '';'' @ nl) (if_funcs I)) @
     ''};'' @ nl"

definition impl_hdr_file :: "idl_iface \<Rightarrow> string" where
  "impl_hdr_file I =
     (let filename = impl_hdr I; fdef = hdr_guard filename in
      ''// '' @ filename @ nl @
      ''// Implementation for interface '' @ if_name I @ nl @
      ''// Generated by cfxidl compiler.'' @ nl @ nl @
      ''#ifndef '' @ fdef @ nl @
      ''#define '' @ fdef @ nl @ nl @
      write_impl_hdr I @
      nl @ ''#endif'' @ tab @ tab @ ''// '' @ fdef @ nl)"

definition impl_func :: "idl_iface \<Rightarrow> idl_func \<Rightarrow> string" where
  "impl_func I f =
     write_func_sep @
     write_decl f (if_name I) @
     nl @ ''{'' @ nl @ tab @ ''// TODO: Implement this'' @ nl @
     (if vl_type f \<noteq> ''void'' then tab @ ''return 0'' @ nl else '''') @
     ''}'' @ nl @ nl"

definition impl_src_file :: "idl_iface \<Rightarrow> string" where
  "impl_src_file I =
     (let filename = impl_src I in
      ''// '' @ filename @ nl @
      ''// Implementation for interface '' @ if_name I @ nl @
      ''// Generated by cfxidl compiler.'' @ nl @ nl @
      ''#include '' @ dquote @ ''CtrlrFx/CtrlrFx.h'' @ dquote @ nl @
      ''#include '' @ dquote @ if_name I @ ''.h'' @ dquote @ nl @ nl @
      concat (map (impl_func I) (if_funcs I)))"

section \<open>Creating the files\<close>

type_synonym fsys = "string \<Rightarrow> string option"

text \<open>
  What the operating system does: whether a file can be opened for writing, and, for the text written
  to it, what the file holds afterwards and whether the stream is still good when it is tested.
\<close>

record os_env =
  os_open :: "string \<Rightarrow> bool"
  os_write :: "string \<Rightarrow> string \<Rightarrow> string \<times> bool"

text \<open>The result of a method: the message of the exception it throws, or its value.\<close>

definition write_file ::
  "os_env \<Rightarrow> string \<Rightarrow> string \<Rightarrow> string \<Rightarrow> fsys \<Rightarrow> (string + bool) \<times> fsys" where
  "write_file e fname msg txt fs =
     (if \<not> os_open e fname then (Inl msg, fs)
      else let (held, good) = os_write e fname txt in (Inr good, fs(fname \<mapsto> held)))"

definition io_then ::
  "('a \<Rightarrow> (string + 'b) \<times> 'a) \<Rightarrow> ('b \<Rightarrow> 'a \<Rightarrow> (string + 'c) \<times> 'a) \<Rightarrow> 'a \<Rightarrow> (string + 'c) \<times> 'a" where
  "io_then m k s = (case m s of (Inl e, s') \<Rightarrow> (Inl e, s') | (Inr x, s') \<Rightarrow> k x s')"

definition create_iface :: "os_env \<Rightarrow> idl_iface \<Rightarrow> fsys \<Rightarrow> (string + bool) \<times> fsys" where
  "create_iface e I = write_file e (iface_hdr I) ''Unable to open interface header.'' (iface_file I)"

definition create_stub_hdr :: "os_env \<Rightarrow> idl_iface \<Rightarrow> fsys \<Rightarrow> (string + bool) \<times> fsys" where
  "create_stub_hdr e I = write_file e (stub_hdr I) ''Unable to open stub header'' (stub_hdr_file I)"

definition create_stub_src :: "os_env \<Rightarrow> idl_iface \<Rightarrow> fsys \<Rightarrow> (string + bool) \<times> fsys" where
  "create_stub_src e I = write_file e (stub_src I) ''Unable to open stub source'' (stub_src_file I)"

definition create_skel_hdr :: "os_env \<Rightarrow> idl_iface \<Rightarrow> fsys \<Rightarrow> (string + bool) \<times> fsys" where
  "create_skel_hdr e I = write_file e (skel_hdr I) ''Unable to open skel header'' (skel_hdr_file I)"

definition create_skel_src :: "os_env \<Rightarrow> idl_iface \<Rightarrow> fsys \<Rightarrow> (string + bool) \<times> fsys" where
  "create_skel_src e I = write_file e (skel_src I) ''Unable to open skel source'' (skel_src_file I)"

definition create_impl_hdr :: "os_env \<Rightarrow> idl_iface \<Rightarrow> fsys \<Rightarrow> (string + bool) \<times> fsys" where
  "create_impl_hdr e I =
     write_file e (impl_hdr I) ''Unable to open implementation header'' (impl_hdr_file I)"

definition create_impl_src :: "os_env \<Rightarrow> idl_iface \<Rightarrow> fsys \<Rightarrow> (string + bool) \<times> fsys" where
  "create_impl_src e I =
     write_file e (impl_src I) ''Unable to open implementation source'' (impl_src_file I)"

definition io_and ::
  "('a \<Rightarrow> (string + bool) \<times> 'a) \<Rightarrow> ('a \<Rightarrow> (string + bool) \<times> 'a) \<Rightarrow> 'a \<Rightarrow> (string + bool) \<times> 'a" where
  "io_and m k = io_then m (\<lambda>b. if b then k else (\<lambda>s. (Inr False, s)))"

definition create_stub :: "os_env \<Rightarrow> idl_iface \<Rightarrow> fsys \<Rightarrow> (string + bool) \<times> fsys" where
  "create_stub e I = io_and (create_stub_hdr e I) (create_stub_src e I)"

definition create_skel :: "os_env \<Rightarrow> idl_iface \<Rightarrow> fsys \<Rightarrow> (string + bool) \<times> fsys" where
  "create_skel e I = io_and (create_skel_hdr e I) (create_skel_src e I)"

definition create_impl :: "os_env \<Rightarrow> idl_iface \<Rightarrow> fsys \<Rightarrow> (string + bool) \<times> fsys" where
  "create_impl e I = io_and (create_impl_hdr e I) (create_impl_src e I)"

definition create_files :: "os_env \<Rightarrow> idl_iface \<Rightarrow> fsys \<Rightarrow> (string + unit) \<times> fsys" where
  "create_files e I =
     io_then (create_iface e I) (\<lambda>_.
     io_then (create_stub e I) (\<lambda>_.
     io_then (create_skel e I) (\<lambda>_.
     io_then (create_impl e I) (\<lambda>_ fs. (Inr (), fs)))))"

fun create_all :: "os_env \<Rightarrow> idl_iface list \<Rightarrow> fsys \<Rightarrow> (string + unit) \<times> fsys" where
  "create_all e [] fs = (Inr (), fs)"
| "create_all e (I # Is) fs = io_then (create_files e I) (\<lambda>_. create_all e Is) fs"

section \<open>Printing what was parsed\<close>

definition iface_text :: "idl_iface \<Rightarrow> string" where
  "iface_text I = if_name I @ nl @ funcs_text (if_funcs I)"

definition iface_list_text :: "idl_iface list \<Rightarrow> string" where
  "iface_list_text l = concat (map (\<lambda>I. iface_text I @ nl) l)"

end
