(* ===== verification/IdlText.thy ===== *)
theory IdlText imports IdlFiles begin

text \<open>
  Reading the generated C++ text back. \<open>cxx\<close> splits a text into identifiers, numbers and single
  punctuation characters and drops blanks and line comments; \<open>brk\<close> matches brackets. The lemmas
  compute both for the text of every generated function, for any interface whose types and names
  are identifiers, which is what the compiler's lexer accepts as a \<open>NAME\<close>. Apart from
  \<open>idc\<close> and \<open>digitc\<close>, the character classes of that lexer, the definitions here are not code of the
  program: they are the specification the generated text is compared with.
\<close>

section \<open>A reader of C++ text\<close>

definition idc :: "char \<Rightarrow> bool" where
  "idc c = (let n = (of_char c :: nat) in
     48 \<le> n \<and> n \<le> 57 \<or> 65 \<le> n \<and> n \<le> 90 \<or> n = 95 \<or> 97 \<le> n \<and> n \<le> 122)"

definition digitc :: "char \<Rightarrow> bool" where
  "digitc c = (let n = (of_char c :: nat) in 48 \<le> n \<and> n \<le> 57)"

definition idl_word :: "string \<Rightarrow> bool" where
  "idl_word s \<longleftrightarrow> s \<noteq> [] \<and> list_all idc s \<and> \<not> digitc (s ! 0)"

definition blankc :: "char \<Rightarrow> bool" where
  "blankc c \<longleftrightarrow> c = CHR '' '' \<or> c = CHR 0x09 \<or> c = CHR 0x0A"

definition push_word :: "string \<Rightarrow> string list \<Rightarrow> string list" where
  "push_word w ts = (if w = [] then ts else w # ts)"

text \<open>\<open>cxx k w s\<close>: \<open>k\<close> tells that the text starts inside a comment, \<open>w\<close> is the word being read.\<close>

fun cxx :: "bool \<Rightarrow> string \<Rightarrow> string \<Rightarrow> string list" where
  "cxx k w [] = push_word w []"
| "cxx True w (c # s) = cxx (c \<noteq> CHR 0x0A) [] s"
| "cxx False w (c # s) =
     (if idc c then cxx False (w @ [c]) s
      else push_word w
        (if c = CHR ''/'' \<and> take 1 s = ''/'' then cxx True [] s
         else if blankc c then cxx False [] s
         else [c] # cxx False [] s))"

abbreviation cxx_toks :: "string \<Rightarrow> string list" where
  "cxx_toks \<equiv> cxx False []"

lemma push_word_simps [simp]:
  "push_word [] ts = ts" "push_word (c # w) ts = (c # w) # ts" "push_word (w @ [c]) ts = (w @ [c]) # ts"
  by (simp_all add: push_word_def)

lemma push_word_ne: "w \<noteq> [] \<Longrightarrow> push_word w ts = w # ts"
  by (simp add: push_word_def)

lemma push_word_app: "push_word w (ts @ us) = push_word w ts @ us"
  by (simp add: push_word_def)

lemma cxx_word: "list_all idc n \<Longrightarrow> cxx False w (n @ s) = cxx False (w @ n) s"
  by (induction n arbitrary: w) auto

lemma cxx_comment: "CHR 0x0A \<notin> set s \<Longrightarrow> cxx True w (s @ CHR 0x0A # r) = cxx False [] r"
  by (induction s arbitrary: w) auto

lemma idc_not_nl: "list_all idc n \<Longrightarrow> CHR 0x0A \<notin> set n"
  by (auto simp: list_all_iff idc_def)

text \<open>A text that is a whole number of tokens and leaves no word or comment open.\<close>

definition cxx_chunk :: "string \<Rightarrow> string list \<Rightarrow> bool" where
  "cxx_chunk s ts \<longleftrightarrow> (\<forall>r. cxx_toks (s @ r) = ts @ cxx_toks r)"

lemma cxx_chunkD: "cxx_chunk s ts \<Longrightarrow> cxx_toks (s @ r) = ts @ cxx_toks r"
  by (simp add: cxx_chunk_def)

lemma cxx_chunk_Nil: "cxx_chunk [] []"
  by (simp add: cxx_chunk_def)

lemma cxx_chunk_append: "cxx_chunk s ts \<Longrightarrow> cxx_chunk t us \<Longrightarrow> cxx_chunk (s @ t) (ts @ us)"
  by (simp add: cxx_chunk_def)

lemma cxx_chunk_concat:
  "(\<And>x. x \<in> set xs \<Longrightarrow> cxx_chunk (f x) (g x)) \<Longrightarrow>
   cxx_chunk (concat (map f xs)) (concat (map g xs))"
  by (induction xs) (simp_all add: cxx_chunk_Nil cxx_chunk_append)

lemma cxx_chunk_toks: "cxx_chunk s ts \<Longrightarrow> cxx_toks s = ts"
  using cxx_chunkD [of s ts "[]"] by simp

section \<open>Well-formed interfaces\<close>

definition idl_value_ok :: "('a) idl_value_scheme \<Rightarrow> bool" where
  "idl_value_ok v \<longleftrightarrow> idl_word (vl_type v) \<and> idl_word (vl_name v)"

definition idl_func_ok :: "idl_func \<Rightarrow> bool" where
  "idl_func_ok f \<longleftrightarrow> idl_value_ok f \<and> list_all idl_value_ok (fn_params f)"

definition idl_ok :: "idl_iface \<Rightarrow> bool" where
  "idl_ok I \<longleftrightarrow> idl_word (if_name I) \<and> list_all idl_func_ok (if_funcs I)"

lemma idl_wordD: "idl_word s \<Longrightarrow> s \<noteq> [] \<and> list_all idc s"
  by (simp add: idl_word_def)

lemma c_toupper_idc: "idc c \<Longrightarrow> idc (c_toupper c)"
  by (auto simp: idc_def c_toupper_def Let_def split: if_splits)

lemma toupper_word: "list_all idc s \<Longrightarrow> list_all idc (map c_toupper s)"
  by (auto simp: list_all_iff c_toupper_idc)

section \<open>Words\<close>

lemma cxx_word_end:
  "idl_word n \<Longrightarrow> \<not> idc c \<Longrightarrow> cxx_toks (n @ c # r) = n # cxx_toks (c # r)"
  by (simp add: cxx_word idl_wordD push_word_ne)

lemma idl_word_append: "idl_word n \<Longrightarrow> list_all idc s \<Longrightarrow> idl_word (n @ s)"
  by (auto simp: idl_word_def nth_append)

lemma literal_words:
  "list_all idc ''_stub''" "list_all idc ''_skel''" "list_all idc ''_CMD''" "list_all idc ''_cmd''"
  by (simp_all add: idc_def)

lemma stub_name_word: "idl_word (if_name I) \<Longrightarrow> idl_word (stub_name I)"
  unfolding stub_name_def by (intro idl_word_append literal_words)

lemma skel_name_word: "idl_word (if_name I) \<Longrightarrow> idl_word (skel_name I)"
  unfolding skel_name_def by (intro idl_word_append literal_words)

lemma cmd_func_name_word: "idl_word (vl_name f) \<Longrightarrow> idl_word (cmd_func_name f)"
  unfolding cmd_func_name_def by (intro idl_word_append literal_words)

lemma toupper_digitc: "idc c \<Longrightarrow> digitc (c_toupper c) \<longleftrightarrow> digitc c"
  by (auto simp: idc_def digitc_def c_toupper_def Let_def split: if_splits)

lemma cmd_const_name_word: "idl_word (vl_name f) \<Longrightarrow> idl_word (cmd_const_name f)"
  unfolding cmd_const_name_def
  by (intro idl_word_append literal_words)
     (auto simp: idl_word_def toupper_word toupper_digitc c_toupper_idc list_all_length)

lemma iface_name_word: "idl_word (if_name I) \<Longrightarrow> idl_word (iface_name I)"
  by (simp add: iface_name_def idl_word_def idc_def digitc_def)

text \<open>Decoding the characters of literals.\<close>

lemmas cxx_literal = cxx.simps idc_def blankc_def

lemma cxx_flush: "\<not> idc c \<Longrightarrow> cxx False w (c # r) = push_word w (cxx_toks (c # r))"
  by simp

section \<open>Declarations\<close>

definition param_toks :: "idl_param \<Rightarrow> string list" where
  "param_toks p =
     (if pm_dir p = DIN then
        (if is_primitive p then [vl_type p, vl_name p] else [''const'', vl_type p, ''&'', vl_name p])
      else [vl_type p, ''*'', vl_name p])"

definition params_toks :: "idl_param list \<Rightarrow> string list" where
  "params_toks pl = (case pl of [] \<Rightarrow> []
     | p # ps \<Rightarrow> param_toks p @ concat (map (\<lambda>q. '','' # param_toks q) ps))"

lemma cxx_param:
  "idl_value_ok p \<Longrightarrow> \<not> idc c \<Longrightarrow> cxx_toks (param_text p @ c # r) = param_toks p @ cxx_toks (c # r)"
  by (simp add: param_text_def param_toks_def idl_value_ok_def cxx_word_end cxx_literal
      del: cxx.simps(3)) (simp add: cxx_word_end cxx_literal)

lemma cxx_params_tail:
  "list_all idl_value_ok pl \<Longrightarrow> \<not> idc c \<Longrightarrow>
   cxx_toks (concat (map (\<lambda>q. '', '' @ param_text q) pl) @ c # r) =
   concat (map (\<lambda>q. '','' # param_toks q) pl) @ cxx_toks (c # r)"
proof (induction pl)
  case Nil show ?case by simp
next
  case (Cons q pl)
  obtain d t where dt: "concat (map (\<lambda>q. '', '' @ param_text q) pl) @ c # r = d # t" "\<not> idc d"
    using Cons.prems by (cases pl) (auto simp: idc_def)
  have "cxx_toks (param_text q @ d # t) = param_toks q @ cxx_toks (d # t)"
    using Cons.prems dt by (intro cxx_param) auto
  then show ?case using Cons dt(1) by (simp add: cxx_literal)
qed

lemma cxx_params:
  "list_all idl_value_ok pl \<Longrightarrow> \<not> idc c \<Longrightarrow>
   cxx_toks (params_text pl @ c # r) = params_toks pl @ cxx_toks (c # r)"
proof (cases pl)
  case (Cons p ps)
  assume ok: "list_all idl_value_ok pl" "\<not> idc c"
  obtain d t where dt: "concat (map (\<lambda>q. '', '' @ param_text q) ps) @ c # r = d # t" "\<not> idc d"
    using ok by (cases ps) (auto simp: idc_def)
  have "cxx_toks (param_text p @ d # t) = param_toks p @ cxx_toks (d # t)"
    using ok Cons dt by (intro cxx_param) auto
  then show ?thesis
    using cxx_params_tail [of ps c r] ok Cons dt(1) by (simp add: params_text_Cons params_toks_def)
qed (simp add: params_toks_def)

lemma cxx_decl:
  assumes "idl_func_ok f" "idl_word cls" "\<not> idc c"
  shows "cxx_toks (write_decl f cls @ c # r) =
    vl_type f # cls # '':'' # '':'' # vl_name f # ''('' # params_toks (fn_params f) @ '')'' #
    cxx_toks (c # r)"
proof -
  have "cls \<noteq> ''''" using assms by (auto dest: idl_wordD)
  moreover have "cxx_toks (params_text (fn_params f) @ CHR '')'' # c # r) =
      params_toks (fn_params f) @ '')'' # cxx_toks (c # r)"
    using assms by (subst cxx_params) (simp_all add: idl_func_ok_def cxx_literal)
  ultimately show ?thesis
    using assms
    by (simp add: write_decl_def idl_func_ok_def idl_value_ok_def cxx_word_end cxx_literal)
qed

section \<open>Statements\<close>

definition stub_in_toks :: "idl_param list \<Rightarrow> string list" where
  "stub_in_toks pl = concat (map (\<lambda>p. if pm_dir p = DIN then [''<'', ''<'', vl_name p]
     else if pm_dir p = DINOUT then [''<'', ''<'', ''*'', vl_name p] else []) pl)"

definition stub_out_toks :: "idl_param list \<Rightarrow> string list" where
  "stub_out_toks pl = concat (map (\<lambda>p. if pm_out p then [''>'', ''>'', ''*'', vl_name p] else []) pl)"

definition skel_in_toks :: "idl_param list \<Rightarrow> string list" where
  "skel_in_toks pl = concat (map (\<lambda>p. if pm_in p then [''>'', ''>'', vl_name p] else []) pl)"

definition skel_out_toks :: "idl_param list \<Rightarrow> string list" where
  "skel_out_toks pl = concat (map (\<lambda>p. if pm_out p then [''<'', ''<'', vl_name p] else []) pl)"

lemma cxx_name:
  "idl_value_ok p \<Longrightarrow> cxx False [] (vl_name p @ s) = cxx False (vl_name p) s"
  by (simp add: idl_value_ok_def cxx_word idl_wordD)

lemma push_name: "idl_value_ok p \<Longrightarrow> push_word (vl_name p) ts = vl_name p # ts"
  by (simp add: idl_value_ok_def push_word_ne idl_wordD)

lemma cxx_stub_in:
  "list_all idl_value_ok pl \<Longrightarrow> \<not> idc c \<Longrightarrow>
   cxx False w (stub_in_args pl @ c # r) = push_word w (stub_in_toks pl @ cxx_toks (c # r))"
  by (induction pl arbitrary: w)
     (simp_all add: stub_in_args_def stub_in_toks_def cxx_flush cxx_name push_name
        idc_def blankc_def)

lemma cxx_stub_out:
  "list_all idl_value_ok pl \<Longrightarrow> \<not> idc c \<Longrightarrow>
   cxx False w (stub_out_args pl @ c # r) = push_word w (stub_out_toks pl @ cxx_toks (c # r))"
  by (induction pl arbitrary: w)
     (simp_all add: stub_out_args_def stub_out_toks_def cxx_flush cxx_name push_name
        idc_def blankc_def)

lemma cxx_skel_in:
  "list_all idl_value_ok pl \<Longrightarrow> \<not> idc c \<Longrightarrow>
   cxx False w (skel_in_args pl @ c # r) = push_word w (skel_in_toks pl @ cxx_toks (c # r))"
  by (induction pl arbitrary: w)
     (simp_all add: skel_in_args_def skel_in_toks_def cxx_flush cxx_name push_name
        idc_def blankc_def)

lemma cxx_skel_out:
  "list_all idl_value_ok pl \<Longrightarrow> \<not> idc c \<Longrightarrow>
   cxx False w (skel_out_args pl @ c # r) = push_word w (skel_out_toks pl @ cxx_toks (c # r))"
  by (induction pl arbitrary: w)
     (simp_all add: skel_out_args_def skel_out_toks_def cxx_flush cxx_name push_name
        idc_def blankc_def)

fun sep_by :: "'a list \<Rightarrow> ('b \<Rightarrow> 'a list) \<Rightarrow> 'b list \<Rightarrow> 'a list" where
  "sep_by sep g [] = []"
| "sep_by sep g [x] = g x"
| "sep_by sep g (x # y # ys) = g x @ sep @ sep_by sep g (y # ys)"

lemma sep_by_loop:
  "concat (map (\<lambda>i. g (xs ! i) @ (if int i \<noteq> int (length xs) - 1 then sep else [])) [0..<length xs]) =
   sep_by sep g xs"
proof (induction xs)
  case (Cons x xs)
  have "[0..<length (x # xs)] = 0 # map Suc [0..<length xs]"
    by (simp add: map_Suc_upt upt_conv_Cons del: upt_Suc)
  then show ?case using Cons.IH by (cases xs) (simp_all add: o_def del: upt_Suc)
qed simp

lemma skel_call_args_sep:
  "skel_call_args pl = sep_by '', '' (\<lambda>p. (if pm_out p then ''&'' else '''') @ vl_name p) pl"
  unfolding skel_call_args_def
  using sep_by_loop [of "\<lambda>p. (if pm_out p then ''&'' else '''') @ vl_name p" pl "'', ''"] by simp

definition skel_call_toks :: "idl_param list \<Rightarrow> string list" where
  "skel_call_toks = sep_by ['',''] (\<lambda>p. (if pm_out p then [''&''] else []) @ [vl_name p])"

lemma cxx_skel_call:
  "list_all idl_value_ok pl \<Longrightarrow> \<not> idc c \<Longrightarrow>
   cxx_toks (skel_call_args pl @ c # r) = skel_call_toks pl @ cxx_toks (c # r)"
  unfolding skel_call_args_sep skel_call_toks_def
  by (induction pl rule: induct_list012)
     (simp_all add: cxx_name push_name cxx_flush idc_def blankc_def)

lemma cxx_locals:
  "list_all idl_value_ok pl \<Longrightarrow>
   cxx_toks (concat (map (\<lambda>p. CHR 0x09 # vl_type p @ CHR '' '' # vl_name p @ [CHR '';'', CHR 0x0A]) pl) @ r) =
   concat (map (\<lambda>p. [vl_type p, vl_name p, '';'']) pl) @ cxx_toks r"
  by (induction pl) (simp_all add: idl_value_ok_def cxx_word_end cxx_literal)

section \<open>Whole functions\<close>

definition err_toks :: "idl_func \<Rightarrow> string list" where
  "err_toks f = (if vl_type f = ''void'' then [] else if vl_type f = ''bool'' then [''false'']
     else if is_primitive f then [vl_type f, ''('', ''0'', '')''] else [vl_type f, ''('', '')''])"

lemma cxx_err_val:
  "idl_word (vl_type f) \<Longrightarrow> cxx_toks (err_val f @ CHR '';'' # r) = err_toks f @ '';'' # cxx_toks r"
  by (simp add: err_val_def err_toks_def cxx_word_end cxx_literal)

lemma cxx_func_sep: "cxx_toks (write_func_sep @ r) = cxx_toks r"
proof -
  have "cxx_toks (write_func_sep @ r) =
      cxx True [] ((CHR '' '' # replicate 74 CHR ''-'') @ CHR 0x0A # CHR 0x0A # r)"
    by (simp add: write_func_sep_def nl_def idc_def)
  also have "\<dots> = cxx_toks (CHR 0x0A # r)" by (rule cxx_comment) simp
  finally show ?thesis by (simp add: cxx_literal)
qed

lemma cxx_class_sep: "cxx_toks (write_class_sep @ r) = cxx_toks r"
proof -
  have "cxx_toks (write_class_sep @ r) =
      cxx True [] (replicate 76 CHR ''/'' @ CHR 0x0A # CHR 0x0A # r)"
    by (simp add: write_class_sep_def nl_def idc_def numeral_eq_Suc)
  also have "\<dots> = cxx_toks (CHR 0x0A # r)" by (rule cxx_comment) simp
  finally show ?thesis by (simp add: cxx_literal)
qed

lemma count_dirs_len:
  "count_dirs pl a b = (a + length (filter pm_in pl), b + length (filter pm_out pl))"
  by (induction pl arbitrary: a b) auto

definition stub_func_toks :: "idl_iface \<Rightarrow> idl_func \<Rightarrow> string list" where
  "stub_func_toks I f =
     [vl_type f, stub_name I, '':'', '':'', vl_name f, ''(''] @ params_toks (fn_params f) @
     ['')'', ''{'', ''CmdBuffer'', ''cmd'', '','', ''rsp'', '';'', ''Encoder'', ''cmdEnc'',
       ''('', ''cmd'', '')'', '';'', ''put_cmd_hdr'', ''('', ''cmdEnc'', '',''] @
     [cmd_const_name f, '')'', '';''] @
     (if filter pm_in (fn_params f) = [] then []
      else ''cmdEnc'' # stub_in_toks (fn_params f) @ ['';'']) @
     (if vl_type f = ''void'' \<and> filter pm_out (fn_params f) = [] then
       [''objSrvr_'', ''-'', ''>'', ''send'', ''('', ''BIN_MSG_TYPE_CMD'', '','', ''cmd'',
         ''.'', ''flip'', ''('', '')'', '','', ''rsp'', '')'', '';'']
      else
       [''int'', ''_n'', ''='', ''objSrvr_'', ''-'', ''>'', ''send'', ''('',
         ''BIN_MSG_TYPE_CMD'', '','', ''cmd'', ''.'', ''flip'', ''('', '')'', '','', ''rsp'',
         '')'', '';'', ''if'', ''('', ''_n'', ''<'', ''0'', '')'', ''return''] @
       err_toks f @ ['';''] @
       (if vl_type f = ''void'' then [] else [vl_type f, ''_ret'', '';'']) @
       [''Decoder'', ''rspDec'', ''('', ''rsp'', '')'', '';'', ''rspDec''] @ stub_out_toks (fn_params f) @
       (if vl_type f = ''void'' then []
        else [''>'', ''>'', ''_ret'', '';'', ''return'', ''('', ''rspDec'', '')'', ''?'', ''_ret'', '':''] @
          err_toks f) @ ['';'']) @
     [''}'']"

definition skel_func_toks :: "idl_iface \<Rightarrow> idl_func \<Rightarrow> string list" where
  "skel_func_toks I f =
     [''int'', skel_name I, '':'', '':'', cmd_func_name f] @
     [''('', ''Decoder'', ''&'', ''param'', '','', ''Encoder'', ''&'', ''rsp'', '')'', ''{''] @
     concat (map (\<lambda>p. [vl_type p, vl_name p, '';'']) (fn_params f)) @
     (if filter pm_in (fn_params f) = [] then []
      else ''param'' # skel_in_toks (fn_params f) @ ['';'']) @
     (if vl_type f = ''void'' then [] else [vl_type f, ''_ret'', ''='']) @
     [vl_name f, ''(''] @ skel_call_toks (fn_params f) @ ['')'', '';''] @
     (if vl_type f = ''void'' \<and> filter pm_out (fn_params f) = [] then []
      else ''rsp'' # skel_out_toks (fn_params f) @
        (if vl_type f = ''void'' then [] else [''<'', ''<'', ''_ret'']) @ ['';'']) @
     [''return'', ''0'', '';'', ''}'']"

lemma cxx_stub_func:
  assumes "idl_func_ok f" "idl_word (if_name I)"
  shows "cxx_chunk (stub_func I f) (stub_func_toks I f)"
  unfolding cxx_chunk_def stub_func_def stub_func_toks_def Let_def count_dirs_len split nl_def tab_def
    append_assoc cxx_func_sep
  using assms
  by (cases "filter pm_in (fn_params f) = []"; cases "filter pm_out (fn_params f) = []";
      cases "vl_type f = ''void''")
    (simp_all add: cxx_decl stub_name_word cxx_word_end cmd_const_name_word idl_func_ok_def
      idl_value_ok_def cxx_stub_in cxx_stub_out cxx_err_val cxx_flush idc_def blankc_def)

lemma cxx_skel_func:
  assumes "idl_func_ok f" "idl_word (if_name I)"
  shows "cxx_chunk (skel_func I f) (skel_func_toks I f)"
  unfolding cxx_chunk_def skel_func_def skel_func_toks_def Let_def count_dirs_len split nl_def tab_def
    append_assoc cxx_func_sep
  using assms
  by (cases "filter pm_in (fn_params f) = []"; cases "filter pm_out (fn_params f) = []";
      cases "vl_type f = ''void''")
    (simp_all add: cxx_locals skel_name_word cxx_word_end cmd_func_name_word idl_func_ok_def
      idl_value_ok_def cxx_skel_in cxx_skel_out cxx_skel_call cxx_flush idc_def blankc_def)

section \<open>Include guards\<close>

lemma hdr_guard_word:
  assumes "list_all idc n"
  shows "hdr_guard (n @ HDR_EXT) = ''__'' @ n @ ''_h''"
proof -
  have "map (\<lambda>c. if c = CHR ''.'' then CHR ''_'' else c) n = n"
    using assms by (intro map_idI) (auto simp: list_all_iff idc_def)
  then show ?thesis by (simp add: hdr_guard_def c_replace_def HDR_EXT_def)
qed

lemma hdr_guard_is_word:
  assumes "list_all idc n"
  shows "idl_word (hdr_guard (n @ HDR_EXT))"
  using assms by (simp add: hdr_guard_word idl_word_def idc_def digitc_def)

end
