(* ===== verification/IdlRpc.thy ===== *)
theory IdlRpc imports IdlText begin

text \<open>
  What the generated files promise each other. The stub of a function and its skeleton are read
  back from their texts: the operands they put into a message are those the other side takes out
  of it, in the same order, and the number the stub sends selects the skeleton's function.
\<close>

section \<open>Readers of statements\<close>

text \<open>\<open>operands d ts\<close>: what follows in \<open>d d x d d *y ...\<close>, for the token \<open>d\<close> of a stream operator.\<close>

fun operands :: "string \<Rightarrow> string list \<Rightarrow> string list" where
  "operands d (a # b # x # ts) =
     (if a = d \<and> b = d then
        (if x = ''*'' then (case ts of y # us \<Rightarrow> y # operands d us | [] \<Rightarrow> []) else x # operands d ts)
      else [])"
| "operands d ts = []"

text \<open>The operands of the first stream statement on the object \<open>h\<close>.\<close>

fun stmt_ops :: "string \<Rightarrow> string \<Rightarrow> string list \<Rightarrow> string list" where
  "stmt_ops h d [] = []"
| "stmt_ops h d (t # ts) = (if t = h \<and> take 2 ts = [d, d] then operands d ts else stmt_ops h d ts)"

lemma stmt_ops_skip:
  "d \<notin> set ts \<Longrightarrow> take 1 us \<noteq> [d] \<Longrightarrow> stmt_ops h d (ts @ us) = stmt_ops h d us"
proof (induction ts)
  case (Cons t ts)
  have "take 2 (ts @ us) \<noteq> [d, d]"
    using Cons.prems by (cases ts; cases us) (auto simp: numeral_2_eq_2)
  then show ?case using Cons by simp
qed simp

lemma word_not_sym:
  "idl_word n \<Longrightarrow> \<not> idc c \<Longrightarrow> n \<noteq> [c]" "idl_word n \<Longrightarrow> \<not> idc c \<Longrightarrow> [c] \<noteq> n"
  by (auto simp: idl_word_def)

lemma operands_stop: "take 1 ts \<noteq> [d] \<Longrightarrow> operands d ts = []"
  by (cases "(d, ts)" rule: operands.cases) auto

lemma name_not_star: "idl_value_ok p \<Longrightarrow> vl_name p \<noteq> ''*''"
  by (auto simp: idl_value_ok_def idl_word_def idc_def)

lemmas stream_toks_defs = stub_in_toks_def stub_out_toks_def skel_in_toks_def skel_out_toks_def

lemma operands_stub_in:
  "list_all idl_value_ok pl \<Longrightarrow>
   operands ''<'' (stub_in_toks pl @ ts) = map vl_name (filter pm_in pl) @ operands ''<'' ts"
  by (induction pl) (auto simp: stream_toks_defs pm_in_def name_not_star)

lemma operands_stub_out:
  "list_all idl_value_ok pl \<Longrightarrow>
   operands ''>'' (stub_out_toks pl @ ts) = map vl_name (filter pm_out pl) @ operands ''>'' ts"
  by (induction pl) (auto simp: stream_toks_defs name_not_star)

lemma operands_skel_in:
  "list_all idl_value_ok pl \<Longrightarrow>
   operands ''>'' (skel_in_toks pl @ ts) = map vl_name (filter pm_in pl) @ operands ''>'' ts"
  by (induction pl) (auto simp: stream_toks_defs name_not_star)

lemma operands_skel_out:
  "list_all idl_value_ok pl \<Longrightarrow>
   operands ''<'' (skel_out_toks pl @ ts) = map vl_name (filter pm_out pl) @ operands ''<'' ts"
  by (induction pl) (auto simp: stream_toks_defs name_not_star)

text \<open>Tokens that are not stream operators, and how a list of stream tokens starts.\<close>

definition quiet :: "string list \<Rightarrow> bool" where
  "quiet ts \<longleftrightarrow> ''<'' \<notin> set ts \<and> ''>'' \<notin> set ts"

lemma quiet_simps [simp]:
  "quiet []" "quiet (t # ts) \<longleftrightarrow> t \<noteq> ''<'' \<and> t \<noteq> ''>'' \<and> quiet ts"
  "quiet (ts @ us) \<longleftrightarrow> quiet ts \<and> quiet us"
  by (auto simp: quiet_def)

lemma word_quiet: "idl_word n \<Longrightarrow> n \<noteq> ''<'' \<and> n \<noteq> ''>''"
  by (auto simp: idl_word_def idc_def)

lemma quiet_concat: "(\<And>x. x \<in> set xs \<Longrightarrow> quiet (g x)) \<Longrightarrow> quiet (concat (map g xs))"
  by (induction xs) auto

lemma quiet_params: "list_all idl_value_ok pl \<Longrightarrow> quiet (params_toks pl)"
  by (auto simp: params_toks_def param_toks_def list_all_iff idl_value_ok_def word_quiet
      split: list.splits intro!: quiet_concat)

lemma quiet_err: "idl_word (vl_type f) \<Longrightarrow> quiet (err_toks f)"
  by (simp add: err_toks_def word_quiet)

lemma quiet_locals:
  "list_all idl_value_ok pl \<Longrightarrow> quiet (concat (map (\<lambda>p. [vl_type p, vl_name p, '';'']) pl))"
  by (rule quiet_concat) (auto simp: list_all_iff idl_value_ok_def word_quiet)

lemma quiet_call: "list_all idl_value_ok pl \<Longrightarrow> quiet (skel_call_toks pl)"
  unfolding skel_call_toks_def
  by (induction pl rule: induct_list012) (auto simp: idl_value_ok_def word_quiet)

lemma stmt_ops_quiet:
  "quiet ts \<Longrightarrow> d = ''<'' \<or> d = ''>'' \<Longrightarrow> take 1 us \<noteq> [d] \<Longrightarrow>
   stmt_ops h d (ts @ us) = stmt_ops h d us"
  by (rule stmt_ops_skip) (auto simp: quiet_def)

lemma stub_in_take: "stub_in_toks pl = [] \<or> take 2 (stub_in_toks pl @ ts) = [''<'', ''<'']"
  by (induction pl) (auto simp: stream_toks_defs)

lemma stub_out_take: "stub_out_toks pl = [] \<or> take 2 (stub_out_toks pl @ ts) = [''>'', ''>'']"
  by (induction pl) (auto simp: stream_toks_defs)

lemma skel_in_take: "skel_in_toks pl = [] \<or> take 2 (skel_in_toks pl @ ts) = [''>'', ''>'']"
  by (induction pl) (auto simp: stream_toks_defs)

lemma skel_out_take: "skel_out_toks pl = [] \<or> take 2 (skel_out_toks pl @ ts) = [''<'', ''<'']"
  by (induction pl) (auto simp: stream_toks_defs)

lemmas stmt_ops_quiets = stmt_ops_quiet [where d = "''<''"] stmt_ops_quiet [where d = "''>''"]

lemma in_toks_ne:
  "filter pm_in pl \<noteq> [] \<Longrightarrow> stub_in_toks pl \<noteq> []" "filter pm_in pl \<noteq> [] \<Longrightarrow> skel_in_toks pl \<noteq> []"
  by (induction pl) (auto simp: stream_toks_defs pm_in_def)

lemma out_toks_ne:
  "filter pm_out pl \<noteq> [] \<Longrightarrow> stub_out_toks pl \<noteq> []" "filter pm_out pl \<noteq> [] \<Longrightarrow> skel_out_toks pl \<noteq> []"
  by (induction pl) (auto simp: stream_toks_defs)

lemma toks_empty:
  "filter pm_in pl = [] \<Longrightarrow> skel_in_toks pl = []"
  "filter pm_out pl = [] \<Longrightarrow> stub_out_toks pl = []" "filter pm_out pl = [] \<Longrightarrow> skel_out_toks pl = []"
  by (auto simp: stream_toks_defs filter_empty_conv)

lemma stmt_ops_found:
  "take 2 ts = [d, d] \<Longrightarrow> stmt_ops h d (h # ts) = operands d ts"
  by simp

lemma stmt_ops_next:
  "t \<noteq> h \<Longrightarrow> stmt_ops h d (t # ts) = stmt_ops h d ts"
  "take 2 ts \<noteq> [d, d] \<Longrightarrow> stmt_ops h d (t # ts) = stmt_ops h d ts"
  by simp_all

lemma word_quiets:
  "idl_word n \<Longrightarrow> n \<noteq> ''<''" "idl_word n \<Longrightarrow> n \<noteq> ''>''"
  by (auto dest: word_quiet)

text \<open>The statement found, for each of the four kinds of stream tokens.\<close>

lemma stmt_ops_hits:
  "filter pm_in pl \<noteq> [] \<Longrightarrow>
     stmt_ops h ''<'' (h # stub_in_toks pl @ us) = operands ''<'' (stub_in_toks pl @ us)"
  "filter pm_in pl \<noteq> [] \<Longrightarrow>
     stmt_ops h ''>'' (h # skel_in_toks pl @ us) = operands ''>'' (skel_in_toks pl @ us)"
  "filter pm_out pl \<noteq> [] \<Longrightarrow>
     stmt_ops h ''>'' (h # stub_out_toks pl @ us) = operands ''>'' (stub_out_toks pl @ us)"
  "filter pm_out pl \<noteq> [] \<Longrightarrow>
     stmt_ops h ''<'' (h # skel_out_toks pl @ us) = operands ''<'' (skel_out_toks pl @ us)"
  using stub_in_take [of pl us] skel_in_take [of pl us] stub_out_take [of pl us] skel_out_take [of pl us]
    in_toks_ne [of pl] out_toks_ne [of pl]
  by (metis stmt_ops_found)+

text \<open>Statements of the other direction are skipped.\<close>

lemma name_quiet:
  "idl_value_ok p \<Longrightarrow> vl_name p \<noteq> ''<''" "idl_value_ok p \<Longrightarrow> vl_name p \<noteq> ''>''"
  "idl_value_ok p \<Longrightarrow> ''<'' \<noteq> vl_name p" "idl_value_ok p \<Longrightarrow> ''>'' \<noteq> vl_name p"
  by (auto simp: idl_value_ok_def dest: word_quiet)

lemma other_direction:
  "list_all idl_value_ok pl \<Longrightarrow> ''>'' \<notin> set (stub_in_toks pl)"
  "list_all idl_value_ok pl \<Longrightarrow> ''<'' \<notin> set (skel_in_toks pl)"
  "list_all idl_value_ok pl \<Longrightarrow> ''<'' \<notin> set (stub_out_toks pl)"
  "list_all idl_value_ok pl \<Longrightarrow> ''>'' \<notin> set (skel_out_toks pl)"
  by (induction pl) (simp_all add: stream_toks_defs name_quiet)

lemma stmt_ops_misses:
  "list_all idl_value_ok pl \<Longrightarrow> take 1 us \<noteq> [''>''] \<Longrightarrow>
     stmt_ops h ''>'' (stub_in_toks pl @ us) = stmt_ops h ''>'' us"
  "list_all idl_value_ok pl \<Longrightarrow> take 1 us \<noteq> [''<''] \<Longrightarrow>
     stmt_ops h ''<'' (skel_in_toks pl @ us) = stmt_ops h ''<'' us"
  "list_all idl_value_ok pl \<Longrightarrow> take 1 us \<noteq> [''<''] \<Longrightarrow>
     stmt_ops h ''<'' (stub_out_toks pl @ us) = stmt_ops h ''<'' us"
  "list_all idl_value_ok pl \<Longrightarrow> take 1 us \<noteq> [''>''] \<Longrightarrow>
     stmt_ops h ''>'' (skel_out_toks pl @ us) = stmt_ops h ''>'' us"
  by (auto intro!: stmt_ops_skip simp: other_direction)

lemmas stream_operands =
  operands_stub_in operands_stub_out operands_skel_in operands_skel_out operands_stop

lemmas func_ops = idl_func_ok_def idl_value_ok_def quiet_params quiet_err quiet_locals quiet_call
  stmt_ops_quiets stmt_ops_hits stmt_ops_misses stream_operands toks_empty stmt_ops_found stmt_ops_next word_quiets

lemma stub_in_ops:
  assumes "idl_func_ok f"
  shows "stmt_ops ''cmdEnc'' ''<'' (stub_func_toks I f) = map vl_name (filter pm_in (fn_params f))"
  unfolding stub_func_toks_def using assms
  by (cases "filter pm_in (fn_params f) = []"; cases "vl_type f = ''void''";
      cases "filter pm_out (fn_params f) = []")
    (simp_all add: func_ops del: stmt_ops.simps(2))

lemma skel_in_ops:
  assumes "idl_func_ok f"
  shows "stmt_ops ''param'' ''>'' (skel_func_toks I f) = map vl_name (filter pm_in (fn_params f))"
  unfolding skel_func_toks_def using assms
  by (cases "filter pm_in (fn_params f) = []"; cases "vl_type f = ''void''";
      cases "filter pm_out (fn_params f) = []")
    (simp_all add: func_ops del: stmt_ops.simps(2))

lemma stub_out_ops:
  assumes "idl_func_ok f"
  shows "stmt_ops ''rspDec'' ''>'' (stub_func_toks I f) =
    map vl_name (filter pm_out (fn_params f)) @ (if vl_type f = ''void'' then [] else [''_ret''])"
  unfolding stub_func_toks_def using assms
  by (cases "filter pm_in (fn_params f) = []"; cases "vl_type f = ''void''";
      cases "filter pm_out (fn_params f) = []")
    (simp_all add: func_ops del: stmt_ops.simps(2))

lemma skel_out_ops:
  assumes "idl_func_ok f"
  shows "stmt_ops ''rsp'' ''<'' (skel_func_toks I f) =
    map vl_name (filter pm_out (fn_params f)) @ (if vl_type f = ''void'' then [] else [''_ret''])"
  unfolding skel_func_toks_def using assms
  by (cases "filter pm_in (fn_params f) = []"; cases "vl_type f = ''void''";
      cases "filter pm_out (fn_params f) = []")
    (simp_all add: func_ops del: stmt_ops.simps(2))

section \<open>Preambles\<close>

lemma cxx_comment_word: "list_all idc n \<Longrightarrow> cxx True [] (n @ s) = cxx True [] s"
proof (induction n)
  case (Cons c n)
  then have "c \<noteq> CHR 0x0A" by (auto simp: idc_def)
  with Cons show ?case by simp
qed simp

lemma comment_words:
  assumes "idl_word (if_name I)"
  shows "cxx True [] (if_name I @ s) = cxx True [] s" "cxx True [] (iface_name I @ s) = cxx True [] s"
    "cxx True [] (stub_name I @ s) = cxx True [] s" "cxx True [] (skel_name I @ s) = cxx True [] s"
  using assms by (simp_all add: cxx_comment_word idl_wordD iface_name_word stub_name_word skel_name_word)

section \<open>Command numbers\<close>

text \<open>What follows the first occurrence of some tokens, and the last token before each comma.\<close>

fun after :: "string list \<Rightarrow> string list \<Rightarrow> string list" where
  "after pat [] = []"
| "after pat (t # ts) =
     (if take (length pat) (t # ts) = pat then drop (length pat) (t # ts) else after pat ts)"

fun entries :: "string list \<Rightarrow> string list" where
  "entries [] = []"
| "entries [t] = [t]"
| "entries (t # u # ts) = (if u = '','' then t # entries ts else entries (u # ts))"

definition enum_names :: "string list \<Rightarrow> string list" where
  "enum_names ts = entries (takeWhile (\<lambda>t. t \<noteq> ''}'') (after [''enum'', ''{''] ts))"

definition table_names :: "string list \<Rightarrow> string list" where
  "table_names ts =
     entries (takeWhile (\<lambda>t. t \<noteq> ''}'') (after [''cmdTbl_'', ''['', '']'', ''='', ''{''] ts))"

text \<open>The constant a stub sends; the name of the function a text defines.\<close>

definition sent_cmd :: "string list \<Rightarrow> string" where
  "sent_cmd ts = (case after [''put_cmd_hdr'', ''('', ''cmdEnc'', '',''] ts of t # us \<Rightarrow> t | [] \<Rightarrow> [])"

definition defined_name :: "string list \<Rightarrow> string" where
  "defined_name ts = (case after ['':'', '':''] ts of t # us \<Rightarrow> t | [] \<Rightarrow> [])"

lemma word_seps:
  "idl_word n \<Longrightarrow> n \<noteq> '',''" "idl_word n \<Longrightarrow> n \<noteq> ''}''" "idl_word n \<Longrightarrow> n \<noteq> '':''"
  "idl_word n \<Longrightarrow> '','' \<noteq> n" "idl_word n \<Longrightarrow> ''}'' \<noteq> n" "idl_word n \<Longrightarrow> '':'' \<noteq> n"
  by (auto simp: idl_word_def idc_def)

lemma cxx_enum:
  "list_all idl_func_ok fs \<Longrightarrow>
   cxx_toks (concat (map (\<lambda>f. cmd_const_name f @ [CHR '','', CHR '' '']) fs) @ r) =
   concat (map (\<lambda>f. [cmd_const_name f, '','']) fs) @ cxx_toks r"
  by (induction fs)
     (simp_all add: idl_func_ok_def idl_value_ok_def cxx_word_end cmd_const_name_word cxx_literal)

lemma enum_entries:
  "list_all idl_func_ok fs \<Longrightarrow>
   entries (takeWhile (\<lambda>t. t \<noteq> ''}'') (concat (map (\<lambda>f. [cmd_const_name f, '','']) fs) @ ''N_CMD'' # ''}'' # r)) =
   map cmd_const_name fs @ [''N_CMD'']"
  by (induction fs)
     (simp_all add: idl_func_ok_def idl_value_ok_def word_seps cmd_const_name_word)

lemma iface_enum:
  assumes "idl_ok I" "if_funcs I \<noteq> []"
  shows "enum_names (cxx_toks (iface_file I)) = map cmd_const_name (if_funcs I) @ [''N_CMD'']"
proof -
  have w: "idl_word (if_name I)" "list_all idl_func_ok (if_funcs I)"
    using assms by (simp_all add: idl_ok_def)
  have g: "idl_word (hdr_guard (iface_hdr I))"
    unfolding iface_hdr_def using w(1) by (intro hdr_guard_is_word) (simp add: iface_name_word idl_wordD)
  have "iface_name I \<noteq> ''enum''" by (simp add: iface_name_def)
  then show ?thesis
    unfolding enum_names_def iface_file_def Let_def nl_def tab_def
    using assms(2) w g
    by (simp add: iface_hdr_def HDR_EXT_def comment_words cxx_word_end iface_name_word cxx_enum
        enum_entries cxx_literal)
qed

lemma cxx_table:
  "list_all idl_func_ok fs \<Longrightarrow> idl_word (if_name I) \<Longrightarrow>
   cxx_toks (concat (map (\<lambda>f. CHR 0x09 # CHR ''&'' # skel_name I @ CHR '':'' # CHR '':'' #
     cmd_func_name f @ [CHR '','', CHR 0x0A]) fs) @ r) =
   concat (map (\<lambda>f. [''&'', skel_name I, '':'', '':'', cmd_func_name f, '','']) fs) @ cxx_toks r"
  by (induction fs)
     (simp_all add: idl_func_ok_def idl_value_ok_def cxx_word_end cmd_func_name_word skel_name_word
        cxx_literal)

lemma table_entries:
  "list_all idl_func_ok fs \<Longrightarrow> idl_word (if_name I) \<Longrightarrow>
   entries (takeWhile (\<lambda>t. t \<noteq> ''}'') (concat (map (\<lambda>f.
     [''&'', skel_name I, '':'', '':'', cmd_func_name f, '','']) fs) @ ''0'' # ''}'' # r)) =
   map cmd_func_name fs @ [''0'']"
  by (induction fs)
     (simp_all add: idl_func_ok_def idl_value_ok_def word_seps cmd_func_name_word skel_name_word)

lemma skel_name_ne: "skel_name I \<noteq> ''cmdTbl_''"
proof
  assume "skel_name I = ''cmdTbl_''"
  then have "last (skel_name I) = last ''cmdTbl_''" by simp
  then show False by (simp add: skel_name_def)
qed

lemma cxx_dquote: "cxx False w (dquote @ r) = push_word w ([CHR 0x22] # cxx_toks r)"
  by (simp add: dquote_def idc_def blankc_def)

lemma skel_entries:
  assumes "idl_ok I"
  shows "table_names (cxx_toks (skel_src_file I)) = map cmd_func_name (if_funcs I) @ [''0'']"
proof -
  have w: "idl_word (if_name I)" "list_all idl_func_ok (if_funcs I)"
    using assms by (simp_all add: idl_ok_def)
  show ?thesis
    unfolding table_names_def skel_src_file_def Let_def nl_def tab_def skel_table_def append_assoc
    using w
    by (simp add: skel_src_def skel_hdr_def SRC_EXT_def HDR_EXT_def comment_words cxx_dquote
        cxx_word_end skel_name_word cxx_class_sep cxx_table table_entries cxx_literal skel_name_ne)
qed

lemma after_next: "take (length pat) (t # ts) \<noteq> pat \<Longrightarrow> after pat (t # ts) = after pat ts"
  by simp

lemma after_skip:
  assumes "pat = a # b # pat'"
  shows "b \<notin> set ts \<Longrightarrow> take 1 us \<noteq> [b] \<Longrightarrow> after pat (ts @ us) = after pat us"
proof (induction ts)
  case (Cons t ts)
  have "take (length pat) (t # ts @ us) \<noteq> pat"
    using Cons.prems assms by (cases ts; cases us) auto
  then have "after pat ((t # ts) @ us) = after pat (ts @ us)"
    unfolding append_Cons by (rule after_next)
  also have "\<dots> = after pat us" using Cons by auto
  finally show ?case .
qed simp

lemma params_no_paren: "list_all idl_value_ok pl \<Longrightarrow> ''('' \<notin> set (params_toks pl)"
proof -
  assume ok: "list_all idl_value_ok pl"
  have p: "''('' \<noteq> vl_type p \<and> ''('' \<noteq> vl_name p" if "idl_value_ok p" for p :: idl_param
    using that by (simp add: idl_value_ok_def word_not_sym idc_def)
  show ?thesis
    using ok by (auto simp: params_toks_def param_toks_def list_all_iff p split: list.splits)
qed

lemma params_first:
  "list_all idl_value_ok pl \<Longrightarrow>
   take (Suc (Suc 0)) (params_toks pl @ '')'' # r) \<noteq> [''cmdEnc'', '','']"
  by (cases pl) (auto simp: params_toks_def param_toks_def idl_value_ok_def word_seps)

lemma sent_cmd_stub:
  assumes "idl_func_ok f"
  shows "sent_cmd (stub_func_toks I f) = cmd_const_name f"
proof -
  let ?pat = "[''put_cmd_hdr'', ''('', ''cmdEnc'', '','']"
  let ?mid = "[ '')'', ''{'', ''CmdBuffer'', ''cmd'', '','', ''rsp'', '';'', ''Encoder'', ''cmdEnc'',
    ''('', ''cmd'', '')'', '';'']"
  have pl: "list_all idl_value_ok (fn_params f)" using assms by (simp add: idl_func_ok_def)
  obtain r where r: "stub_func_toks I f =
      [vl_type f, stub_name I, '':'', '':''] @ vl_name f # ''('' # params_toks (fn_params f) @
      ?mid @ ?pat @ cmd_const_name f # r"
    unfolding stub_func_toks_def by simp
  have "take (length ?pat) (vl_name f # ''('' # params_toks (fn_params f) @ '')'' # s) \<noteq> ?pat" for s
    using params_first [OF pl, of s] by (simp del: take_append)
  then have "after ?pat (vl_name f # ''('' # params_toks (fn_params f) @ ?mid @ ?pat @ cmd_const_name f # r) =
      after ?pat (''('' # params_toks (fn_params f) @ ?mid @ ?pat @ cmd_const_name f # r)"
    by (intro after_next) (simp del: take_append)
  also have "\<dots> = after ?pat (params_toks (fn_params f) @ ?mid @ ?pat @ cmd_const_name f # r)" by simp
  also have "\<dots> = after ?pat (?mid @ ?pat @ cmd_const_name f # r)"
    by (rule after_skip [OF refl params_no_paren [OF pl]]) simp
  finally show ?thesis unfolding sent_cmd_def r by simp
qed

lemma defined_name_skel:
  assumes "idl_word (if_name I)"
  shows "defined_name (skel_func_toks I f) = cmd_func_name f"
  using skel_name_word [OF assms]
  by (simp add: defined_name_def skel_func_toks_def word_seps)

section \<open>Properties\<close>

definition demo_iface :: idl_iface where
  "demo_iface = \<lparr>if_name = ''MyIface'', if_funcs =
     [\<lparr>vl_type = ''int'', vl_name = ''add'', fn_params = [pm_ctor DIN ''int'' ''a'', pm_ctor DINOUT ''Num'' ''b'']\<rparr>,
      \<lparr>vl_type = ''void'', vl_name = ''test'', fn_params = []\<rparr>]\<rparr>"

lemma demo_iface_ok: "idl_ok demo_iface"
  by (simp add: demo_iface_def idl_ok_def idl_func_ok_def idl_value_ok_def idl_word_def idc_def
      digitc_def pm_ctor_def)

text \<open>C22: in the files generated for an interface, what the stub of a function writes into the
  command is, name by name and in the same order, what the function's skeleton reads from it (the
  parameters that go in), and what the skeleton writes into the response is what the stub reads
  (the parameters that come out, then the returned value unless the type is \<open>void\<close>).\<close>

theorem stub_and_skeleton_agree:
  assumes "idl_ok I" and "f \<in> set (if_funcs I)"
  shows "stmt_ops ''cmdEnc'' ''<'' (cxx_toks (stub_func I f)) = map vl_name (filter pm_in (fn_params f)) \<and>
    stmt_ops ''param'' ''>'' (cxx_toks (skel_func I f)) = map vl_name (filter pm_in (fn_params f)) \<and>
    stmt_ops ''rsp'' ''<'' (cxx_toks (skel_func I f)) =
      map vl_name (filter pm_out (fn_params f)) @ (if vl_type f = ''void'' then [] else [''_ret'']) \<and>
    stmt_ops ''rspDec'' ''>'' (cxx_toks (stub_func I f)) =
      map vl_name (filter pm_out (fn_params f)) @ (if vl_type f = ''void'' then [] else [''_ret''])"
proof -
  have "idl_func_ok f" "idl_word (if_name I)" using assms by (auto simp: idl_ok_def list_all_iff)
  then show ?thesis
    by (simp add: cxx_chunk_toks [OF cxx_stub_func] cxx_chunk_toks [OF cxx_skel_func]
        stub_in_ops stub_out_ops skel_in_ops skel_out_ops)
qed

theorem stub_and_skeleton_agree_witness:
  "stmt_ops ''cmdEnc'' ''<'' (cxx_toks (stub_func demo_iface (if_funcs demo_iface ! 0))) = [''a'', ''b''] \<and>
   stmt_ops ''param'' ''>'' (cxx_toks (skel_func demo_iface (if_funcs demo_iface ! 0))) = [''a'', ''b''] \<and>
   stmt_ops ''rsp'' ''<'' (cxx_toks (skel_func demo_iface (if_funcs demo_iface ! 0))) = [''b'', ''_ret''] \<and>
   stmt_ops ''rspDec'' ''>'' (cxx_toks (stub_func demo_iface (if_funcs demo_iface ! 0))) = [''b'', ''_ret'']"
proof -
  have "if_funcs demo_iface ! 0 \<in> set (if_funcs demo_iface)" by (simp add: demo_iface_def)
  from stub_and_skeleton_agree [OF demo_iface_ok this] show ?thesis
    by (simp add: demo_iface_def pm_ctor_def pm_in_def pm_out_def)
qed



text \<open>two functions whose names differ only in the case of their letters get the same constant,
  so the generated enumeration declares one name twice.\<close>

theorem command_names_collide:
  assumes "idl_ok I" and "i < j" and "j < length (if_funcs I)"
    and "map c_toupper (vl_name (if_funcs I ! i)) = map c_toupper (vl_name (if_funcs I ! j))"
  shows "\<not> distinct (enum_names (cxx_toks (iface_file I)))"
proof -
  let ?es = "enum_names (cxx_toks (iface_file I))"
  have "if_funcs I \<noteq> []" using assms(3) by auto
  from iface_enum [OF assms(1) this] have "?es ! i = ?es ! j" "j < length ?es"
    using assms(2-4) by (simp_all add: nth_append cmd_const_name_def)
  then show ?thesis using assms(2) by (metis distinct_conv_nth less_trans nat_neq_iff)
qed

theorem command_names_collide_witness:
  "\<not> distinct (enum_names (cxx_toks (iface_file
      \<lparr>if_name = ''T'', if_funcs = [fn_ctor ''int'' ''add'', fn_ctor ''int'' ''Add'']\<rparr>)))"
proof -
  have "map c_toupper ''add'' = map c_toupper ''Add''" by code_simp
  then show ?thesis
    by (intro command_names_collide [of _ 0 1])
       (simp_all add: idl_ok_def idl_func_ok_def idl_value_ok_def idl_word_def idc_def digitc_def fn_ctor_def)
qed

end
