(* ===== verification/IdlWire.thy ===== *)
theory IdlWire imports IdlRpc Encoders begin

text \<open>
  A generated call over the codec of \<open>BufCodec.h\<close>: the operands of the stub's stream statement are
  encoded by the native encoder the stub declares, those of the skeleton's statement decoded by
  the decoder the skeleton is given.
\<close>

text \<open>\<open>w\<close> and \<open>v\<close> give the width of each parameter's type and the value passed for it.\<close>



end
