(* ===== verification/IdlShape.thy ===== *)
theory IdlShape imports IdlText begin

text \<open>
  The shape of the generated files: brackets match in each of the seven files of an interface, and
  the include guards are identifiers, different for the four headers.
\<close>

section \<open>Matching brackets\<close>

definition closer :: "char \<Rightarrow> char option" where
  "closer c = (if c = CHR ''('' then Some CHR '')'' else if c = CHR ''{'' then Some CHR ''}''
     else if c = CHR ''['' then Some CHR '']'' else None)"

definition is_closer :: "char \<Rightarrow> bool" where
  "is_closer c \<longleftrightarrow> c = CHR '')'' \<or> c = CHR ''}'' \<or> c = CHR '']''"

text \<open>\<open>brk st s\<close>: the closing brackets still expected after \<open>s\<close>, from those expected before it.\<close>

fun brk :: "string \<Rightarrow> string \<Rightarrow> string option" where
  "brk st [] = Some st"
| "brk st (c # s) =
     (case closer c of Some d \<Rightarrow> brk (d # st) s
      | None \<Rightarrow> if is_closer c then (case st of [] \<Rightarrow> None | d # r \<Rightarrow> if c = d then brk r s else None)
                else brk st s)"

text \<open>A text whose brackets match in themselves changes nothing, wherever it stands.\<close>

definition brk_ok :: "string \<Rightarrow> bool" where
  "brk_ok s \<longleftrightarrow> (\<forall>st r. brk st (s @ r) = brk st r)"

lemma brk_okD: "brk_ok s \<Longrightarrow> brk st (s @ r) = brk st r"
  by (simp add: brk_ok_def)

lemma brk_ok_balanced: "brk_ok s \<Longrightarrow> brk [] s = Some []"
  using brk_okD [of s "[]" "[]"] by simp

lemma brk_ok_Nil: "brk_ok []"
  by (simp add: brk_ok_def)

lemma brk_ok_concat: "(\<And>x. x \<in> set xs \<Longrightarrow> brk_ok (f x)) \<Longrightarrow> brk_ok (concat (map f xs))"
  by (induction xs) (simp_all add: brk_ok_def)

lemma brk_ok_word: "list_all idc n \<Longrightarrow> brk_ok n"
proof (induction n)
  case (Cons c n)
  then have "closer c = None" "\<not> is_closer c" by (auto simp: closer_def is_closer_def idc_def)
  with Cons show ?case by (simp add: brk_ok_def)
qed (simp add: brk_ok_Nil)

lemma brk_ok_replicate: "closer c = None \<Longrightarrow> \<not> is_closer c \<Longrightarrow> brk_ok (replicate n c)"
  by (induction n) (simp_all add: brk_ok_def)

lemma brk_ok_seps: "brk_ok write_func_sep" "brk_ok write_class_sep"
  using brk_ok_replicate [of "CHR ''-''" 74] brk_ok_replicate [of "CHR ''/''" 77]
  by (simp_all add: brk_ok_def write_func_sep_def write_class_sep_def nl_def closer_def is_closer_def
      del: replicate.simps)

text \<open>The characters that occur in the literals of the generator, one rule each.\<close>

lemma brk_chars:
  shows "brk st (CHR '' '' # s) = brk st s" "brk st (CHR ''#'' # s) = brk st s"
  "brk st (CHR ''&'' # s) = brk st s" "brk st (CHR ''*'' # s) = brk st s"
  "brk st (CHR '','' # s) = brk st s" "brk st (CHR ''-'' # s) = brk st s"
  "brk st (CHR ''.'' # s) = brk st s" "brk st (CHR ''/'' # s) = brk st s"
  "brk st (CHR ''0'' # s) = brk st s" "brk st (CHR ''1'' # s) = brk st s"
  "brk st (CHR ''2'' # s) = brk st s" "brk st (CHR ''3'' # s) = brk st s"
  "brk st (CHR ''4'' # s) = brk st s" "brk st (CHR ''6'' # s) = brk st s"
  "brk st (CHR ''8'' # s) = brk st s" "brk st (CHR '':'' # s) = brk st s"
  "brk st (CHR '';'' # s) = brk st s" "brk st (CHR ''<'' # s) = brk st s"
  "brk st (CHR ''='' # s) = brk st s" "brk st (CHR ''>'' # s) = brk st s"
  "brk st (CHR ''?'' # s) = brk st s" "brk st (CHR ''A'' # s) = brk st s"
  "brk st (CHR ''B'' # s) = brk st s" "brk st (CHR ''C'' # s) = brk st s"
  "brk st (CHR ''D'' # s) = brk st s" "brk st (CHR ''E'' # s) = brk st s"
  "brk st (CHR ''F'' # s) = brk st s" "brk st (CHR ''G'' # s) = brk st s"
  "brk st (CHR ''I'' # s) = brk st s" "brk st (CHR ''J'' # s) = brk st s"
  "brk st (CHR ''L'' # s) = brk st s" "brk st (CHR ''M'' # s) = brk st s"
  "brk st (CHR ''N'' # s) = brk st s" "brk st (CHR ''O'' # s) = brk st s"
  "brk st (CHR ''P'' # s) = brk st s" "brk st (CHR ''R'' # s) = brk st s"
  "brk st (CHR ''S'' # s) = brk st s" "brk st (CHR ''T'' # s) = brk st s"
  "brk st (CHR ''U'' # s) = brk st s" "brk st (CHR ''Y'' # s) = brk st s"
  "brk st (CHR ''Z'' # s) = brk st s" "brk st (CHR ''_'' # s) = brk st s"
  "brk st (CHR ''a'' # s) = brk st s" "brk st (CHR ''b'' # s) = brk st s"
  "brk st (CHR ''c'' # s) = brk st s" "brk st (CHR ''d'' # s) = brk st s"
  "brk st (CHR ''e'' # s) = brk st s" "brk st (CHR ''f'' # s) = brk st s"
  "brk st (CHR ''g'' # s) = brk st s" "brk st (CHR ''h'' # s) = brk st s"
  "brk st (CHR ''i'' # s) = brk st s" "brk st (CHR ''j'' # s) = brk st s"
  "brk st (CHR ''k'' # s) = brk st s" "brk st (CHR ''l'' # s) = brk st s"
  "brk st (CHR ''m'' # s) = brk st s" "brk st (CHR ''n'' # s) = brk st s"
  "brk st (CHR ''o'' # s) = brk st s" "brk st (CHR ''p'' # s) = brk st s"
  "brk st (CHR ''r'' # s) = brk st s" "brk st (CHR ''s'' # s) = brk st s"
  "brk st (CHR ''t'' # s) = brk st s" "brk st (CHR ''u'' # s) = brk st s"
  "brk st (CHR ''v'' # s) = brk st s" "brk st (CHR ''x'' # s) = brk st s"
  "brk st (CHR ''y'' # s) = brk st s" "brk st (CHR ''~'' # s) = brk st s"
  "brk st (CHR 0x09 # s) = brk st s" "brk st (CHR 0x0A # s) = brk st s"
  "brk st (CHR 0x22 # s) = brk st s"
  by (simp_all add: closer_def is_closer_def)

lemma brk_brackets:
  "brk st (CHR ''('' # s) = brk (CHR '')'' # st) s" "brk (CHR '')'' # st) (CHR '')'' # s) = brk st s"
  "brk st (CHR ''{'' # s) = brk (CHR ''}'' # st) s" "brk (CHR ''}'' # st) (CHR ''}'' # s) = brk st s"
  "brk st (CHR ''['' # s) = brk (CHR '']'' # st) s" "brk (CHR '']'' # st) (CHR '']'' # s) = brk st s"
  by (simp_all add: closer_def is_closer_def)

declare brk.simps(2) [simp del]

lemmas brk_literal = brk_chars brk_brackets

section \<open>Functions\<close>

lemma brk_ok_value:
  assumes "idl_value_ok v"
  shows "brk_ok (vl_type v)" "brk_ok (vl_name v)"
  using assms by (simp_all add: idl_value_ok_def brk_ok_word idl_wordD)

lemma brk_ok_param: "idl_value_ok p \<Longrightarrow> brk_ok (param_text p)"
  using brk_ok_value [of p] by (simp add: param_text_def brk_ok_def brk_literal)

lemma brk_ok_params:
  assumes "list_all idl_value_ok pl"
  shows "brk_ok (params_text pl)"
proof (cases pl)
  case (Cons p ps)
  have "brk_ok (concat (map (\<lambda>q. '', '' @ param_text q) ps))"
    using assms Cons
    by (intro brk_ok_concat) (auto simp: brk_ok_def brk_literal list_all_iff brk_okD [OF brk_ok_param])
  with Cons assms show ?thesis
    by (simp add: params_text_Cons brk_ok_def brk_okD [OF brk_ok_param])
qed (simp add: brk_ok_Nil)

lemma brk_ok_decl:
  assumes "idl_func_ok f" "brk_ok cls"
  shows "brk_ok (func_text f)" "brk_ok (write_decl f cls)"
proof -
  have ok: "brk_ok (params_text (fn_params f))" "brk_ok (vl_type f)" "brk_ok (vl_name f)"
    using assms by (simp_all add: idl_func_ok_def brk_ok_params brk_ok_value)
  show 1: "brk_ok (func_text f)"
    unfolding brk_ok_def func_text_def by (simp add: brk_literal ok [THEN brk_okD])
  show "brk_ok (write_decl f cls)"
    using 1 unfolding brk_ok_def write_decl_def
    by (simp add: brk_literal ok [THEN brk_okD] brk_okD [OF assms(2)])
qed

lemma brk_ok_args:
  assumes "list_all idl_value_ok pl"
  shows "brk_ok (stub_in_args pl)" "brk_ok (stub_out_args pl)" "brk_ok (skel_in_args pl)"
    "brk_ok (skel_out_args pl)" "brk_ok (skel_call_args pl)"
proof -
  have n: "brk_ok (vl_name p)" "brk_ok (vl_type p)" if "p \<in> set pl" for p
    using assms that by (auto simp: list_all_iff brk_ok_value)
  show "brk_ok (stub_in_args pl)" "brk_ok (stub_out_args pl)" "brk_ok (skel_in_args pl)"
      "brk_ok (skel_out_args pl)"
    unfolding stub_in_args_def stub_out_args_def skel_in_args_def skel_out_args_def
    by (intro brk_ok_concat, simp add: brk_ok_def brk_literal n [THEN brk_okD])+
  show "brk_ok (skel_call_args pl)"
    unfolding skel_call_args_def
    by (intro brk_ok_concat) (simp add: brk_ok_def brk_literal n [THEN brk_okD])
qed

lemma brk_ok_err: "brk_ok (vl_type f) \<Longrightarrow> brk_ok (err_val f)"
  by (simp add: err_val_def brk_ok_def brk_literal)

lemma brk_ok_names:
  assumes "idl_word (if_name I)"
  shows "brk_ok (if_name I)" "brk_ok (iface_name I)" "brk_ok (stub_name I)" "brk_ok (skel_name I)"
  using assms
  by (simp_all add: brk_ok_word idl_wordD iface_name_word stub_name_word skel_name_word)

lemma brk_ok_cmds:
  assumes "idl_func_ok f"
  shows "brk_ok (cmd_const_name f)" "brk_ok (cmd_func_name f)"
  using assms by (simp_all add: brk_ok_word idl_wordD cmd_const_name_word cmd_func_name_word
      idl_func_ok_def idl_value_ok_def)

lemma brk_ok_funcs:
  assumes "idl_func_ok f" "idl_word (if_name I)"
  shows "brk_ok (stub_func I f)" "brk_ok (skel_func I f)" "brk_ok (impl_func I f)"
proof -
  have pl: "list_all idl_value_ok (fn_params f)" and v: "idl_value_ok f"
    using assms by (simp_all add: idl_func_ok_def)
  note n = brk_ok_value [OF v] brk_ok_names [OF assms(2)] brk_ok_cmds [OF assms(1)] brk_ok_args [OF pl]
    brk_ok_seps brk_ok_err [OF brk_ok_value(1) [OF v]]
  note d = brk_ok_decl(2) [OF assms(1) brk_ok_names(1) [OF assms(2)]]
    brk_ok_decl(2) [OF assms(1) brk_ok_names(3) [OF assms(2)]]
  have l: "brk_ok (concat (map (\<lambda>p. CHR 0x09 # vl_type p @ CHR '' '' # vl_name p @ [CHR '';'', CHR 0x0A]) (fn_params f)))"
    using pl by (intro brk_ok_concat)
      (auto simp: brk_ok_def brk_literal list_all_iff brk_ok_value [THEN brk_okD])
  show "brk_ok (stub_func I f)"
    unfolding brk_ok_def stub_func_def Let_def count_dirs_len split append_assoc
    by (simp add: brk_literal nl_def tab_def n [THEN brk_okD] d [THEN brk_okD])
  show "brk_ok (skel_func I f)"
    unfolding brk_ok_def skel_func_def Let_def count_dirs_len split append_assoc
    by (simp add: brk_literal nl_def tab_def n [THEN brk_okD] brk_okD [OF l])
  show "brk_ok (impl_func I f)"
    unfolding brk_ok_def impl_func_def append_assoc
    by (simp add: brk_literal nl_def tab_def n [THEN brk_okD] d [THEN brk_okD])
qed

section \<open>Files\<close>

lemma brk_ok_guards:
  assumes "idl_word (if_name I)"
  shows "brk_ok (hdr_guard (iface_hdr I))" "brk_ok (hdr_guard (stub_hdr I))"
    "brk_ok (hdr_guard (skel_hdr I))" "brk_ok (hdr_guard (impl_hdr I))"
  using assms unfolding iface_hdr_def stub_hdr_def skel_hdr_def impl_hdr_def
  by (auto intro!: brk_ok_word conjunct2 [OF idl_wordD] hdr_guard_is_word
      simp: idl_wordD iface_name_word stub_name_word skel_name_word)

lemma brk_ok_lists:
  assumes "list_all idl_func_ok fs" "idl_word (if_name I)"
  shows "brk_ok (concat (map (\<lambda>f. cmd_const_name f @ [CHR '','', CHR '' '']) fs))"
    "brk_ok (concat (map (\<lambda>f. CHR 0x09 # func_text f @ [CHR '' '', CHR ''='', CHR ''0'', CHR '';'', CHR 0x0A]) fs))"
    "brk_ok (concat (map (\<lambda>f. CHR 0x09 # func_text f @ [CHR '';'', CHR 0x0A]) fs))"
    "brk_ok (concat (map (\<lambda>f. CHR 0x09 # CHR ''i'' # CHR ''n'' # CHR ''t'' # CHR '' '' # cmd_func_name f @
       ''(Decoder& param, Encoder& rsp);\<newline>'') fs))"
    "brk_ok (concat (map (\<lambda>f. CHR 0x09 # CHR ''&'' # skel_name I @ CHR '':'' # CHR '':'' #
       cmd_func_name f @ [CHR '','', CHR 0x0A]) fs))"
    "brk_ok (concat (map (stub_func I) fs))" "brk_ok (concat (map (skel_func I) fs))"
    "brk_ok (concat (map (impl_func I) fs))"
proof -
  have f: "idl_func_ok f" if "f \<in> set fs" for f using assms that by (simp add: list_all_iff)
  note n = brk_ok_cmds [OF f, THEN brk_okD] brk_ok_decl(1) [OF f brk_ok_Nil, THEN brk_okD]
    brk_ok_names(4) [OF assms(2), THEN brk_okD]
  show "brk_ok (concat (map (\<lambda>f. cmd_const_name f @ [CHR '','', CHR '' '']) fs))"
    "brk_ok (concat (map (\<lambda>f. CHR 0x09 # func_text f @ [CHR '' '', CHR ''='', CHR ''0'', CHR '';'', CHR 0x0A]) fs))"
    "brk_ok (concat (map (\<lambda>f. CHR 0x09 # func_text f @ [CHR '';'', CHR 0x0A]) fs))"
    "brk_ok (concat (map (\<lambda>f. CHR 0x09 # CHR ''i'' # CHR ''n'' # CHR ''t'' # CHR '' '' # cmd_func_name f @
       ''(Decoder& param, Encoder& rsp);\<newline>'') fs))"
    "brk_ok (concat (map (\<lambda>f. CHR 0x09 # CHR ''&'' # skel_name I @ CHR '':'' # CHR '':'' #
       cmd_func_name f @ [CHR '','', CHR 0x0A]) fs))"
    by (intro brk_ok_concat, simp add: brk_ok_def brk_literal n)+
  show "brk_ok (concat (map (stub_func I) fs))" "brk_ok (concat (map (skel_func I) fs))"
    "brk_ok (concat (map (impl_func I) fs))"
    by (intro brk_ok_concat brk_ok_funcs [OF f assms(2)]; assumption)+
qed

lemma brk_ok_files:
  assumes "idl_ok I"
  shows "brk_ok (iface_file I)" "brk_ok (stub_hdr_file I)" "brk_ok (stub_src_file I)"
    "brk_ok (skel_hdr_file I)" "brk_ok (skel_src_file I)" "brk_ok (impl_hdr_file I)"
    "brk_ok (impl_src_file I)"
proof -
  have w: "idl_word (if_name I)" "list_all idl_func_ok (if_funcs I)"
    using assms by (simp_all add: idl_ok_def)
  note n = brk_ok_names [OF w(1), THEN brk_okD] brk_ok_guards [OF w(1), THEN brk_okD] brk_ok_seps [THEN brk_okD]
  note l = brk_ok_lists [OF w(2,1), THEN brk_okD]
  note defs = iface_hdr_def stub_hdr_def stub_src_def skel_hdr_def skel_src_def impl_hdr_def impl_src_def
    HDR_EXT_def SRC_EXT_def
  note g = n [unfolded defs] n l
  note c = nl_def tab_def dquote_def
  show "brk_ok (iface_file I)"
    unfolding brk_ok_def iface_file_def Let_def append_assoc defs by (simp add: brk_literal c g)
  show "brk_ok (stub_hdr_file I)"
    unfolding brk_ok_def stub_hdr_file_def Let_def append_assoc defs by (simp add: brk_literal c g)
  show "brk_ok (stub_src_file I)"
    unfolding brk_ok_def stub_src_file_def stub_put_cmd_hdr_def Let_def append_assoc defs
    by (simp add: brk_literal c g)
  show "brk_ok (skel_hdr_file I)"
    unfolding brk_ok_def skel_hdr_file_def Let_def append_assoc defs by (simp add: brk_literal c g)
  show "brk_ok (skel_src_file I)"
    unfolding brk_ok_def skel_src_file_def skel_table_def skel_invoke_def Let_def append_assoc defs
    by (simp add: brk_literal c g)
  show "brk_ok (impl_hdr_file I)"
    unfolding brk_ok_def impl_hdr_file_def write_impl_hdr_def Let_def append_assoc defs
    by (simp add: brk_literal c g)
  show "brk_ok (impl_src_file I)"
    unfolding brk_ok_def impl_src_file_def Let_def append_assoc defs by (simp add: brk_literal c g)
qed

section \<open>Properties\<close>

text \<open>brackets match in every file generated for an interface: each opening bracket is closed by
  its own kind, in the right order, and none is left over.\<close>

theorem generated_brackets_match:
  assumes "idl_ok I"
  shows "list_all (\<lambda>txt. brk [] txt = Some [])
    [iface_file I, stub_hdr_file I, stub_src_file I, skel_hdr_file I, skel_src_file I,
     impl_hdr_file I, impl_src_file I]"
  using brk_ok_files [OF assms, THEN brk_ok_balanced] by simp

theorem generated_brackets_match_witness:
  "brk [] (skel_src_file (if_ctor ''Empty'')) = Some []"
  using generated_brackets_match [of "if_ctor ''Empty''"]
  by (simp add: idl_ok_def idl_word_def if_ctor_def idc_def digitc_def)

text \<open>the include guards of an interface's four headers are identifiers and pairwise different.\<close>

theorem include_guards_differ:
  assumes "idl_ok I"
  shows "list_all idl_word (map hdr_guard [iface_hdr I, stub_hdr I, skel_hdr I, impl_hdr I]) \<and>
    distinct (map hdr_guard [iface_hdr I, stub_hdr I, skel_hdr I, impl_hdr I])"
proof -
  have w: "idl_word (if_name I)" using assms by (simp add: idl_ok_def)
  note n = w iface_name_word [OF w] stub_name_word [OF w] skel_name_word [OF w]
  have i: "list_all idc (if_name I)" "list_all idc (iface_name I)" "list_all idc (stub_name I)"
      "list_all idc (skel_name I)"
    using n by (auto dest: idl_wordD)
  have l: "length (iface_name I) = length (if_name I) + 1" "length (stub_name I) = length (if_name I) + 5"
      "length (skel_name I) = length (if_name I) + 5" "stub_name I \<noteq> skel_name I"
    by (simp_all add: iface_name_def stub_name_def skel_name_def)
  have "distinct (map length [if_name I, iface_name I, stub_name I])"
      "distinct (map length [if_name I, iface_name I, skel_name I])"
    using l by simp_all
  then have "if_name I \<noteq> iface_name I" "if_name I \<noteq> stub_name I" "if_name I \<noteq> skel_name I"
      "iface_name I \<noteq> stub_name I" "iface_name I \<noteq> skel_name I"
    by auto
  with l show ?thesis
    by (simp add: iface_hdr_def stub_hdr_def skel_hdr_def impl_hdr_def hdr_guard_is_word i
        del: hdr_guard_def) (auto simp: hdr_guard_word i)
qed

theorem include_guards_differ_witness:
  "distinct (map hdr_guard [iface_hdr (if_ctor ''A''), stub_hdr (if_ctor ''A''), skel_hdr (if_ctor ''A''),
     impl_hdr (if_ctor ''A'')])"
  using include_guards_differ [of "if_ctor ''A''"]
  by (simp add: idl_ok_def idl_word_def if_ctor_def idc_def digitc_def)

end
