(* ===== verification/IdlMain.thy ===== *)
theory IdlMain imports IdlText begin

text \<open>
  The front end of \<open>tools/cfxidl\<close> and its main program: the lexer's rules (\<open>cfxidl.l\<close>), the grammar
  with its actions on the three global lists (\<open>cfxidl.y\<close>), and \<open>main\<close> (\<open>cfxidl.cpp\<close>). The grammar
  has one rule of an inductive definition per production; a derivation carries the globals before
  and after the actions, in the order in which the productions are reduced. The parser that bison
  builds from the grammar is not under the repository: \<open>main\<close> has it as an argument.
\<close>

section \<open>The lexer\<close>

datatype idl_tok = TInterface | TName string | TDir idl_dir | TNumber string | TChar char

definition digits :: "string \<Rightarrow> nat" where
  "digits s = length (takeWhile digitc s)"

text \<open>How much of a text the rule for numbers matches, and the exponent of that rule.\<close>

definition exp_len :: "string \<Rightarrow> nat" where
  "exp_len s = (case s of [] \<Rightarrow> 0
     | c # t \<Rightarrow>
       if c = CHR ''e'' \<or> c = CHR ''E'' then
         (let k = (case t of [] \<Rightarrow> 0 | d # _ \<Rightarrow> if d = CHR ''-'' \<or> d = CHR ''+'' then 1 else 0);
              n = digits (drop k t)
          in if n = 0 then 0 else 1 + k + n)
       else 0)"

definition num_len :: "string \<Rightarrow> nat" where
  "num_len s =
     (let n = digits s; r = drop n s in
      case r of [] \<Rightarrow> n
      | c # t \<Rightarrow>
        if c = CHR ''.'' \<and> digits t > 0
        then (let k = n + 1 + digits t in k + exp_len (drop k s))
        else n)"

definition word_tok :: "string \<Rightarrow> idl_tok" where
  "word_tok w =
     (if w = ''interface'' then TInterface
      else if w = ''in'' then TDir DIN
      else if w = ''out'' then TDir DOUT
      else if w = ''inout'' then TDir DINOUT
      else TName w)"

definition lex_blank :: "char \<Rightarrow> bool" where
  "lex_blank c \<longleftrightarrow> c = CHR '' '' \<or> c = CHR 0x09 \<or> c = CHR 0x0D \<or> c = CHR 0x0A"

function idl_lex :: "string \<Rightarrow> idl_tok list" where
  "idl_lex [] = []"
| "idl_lex (c # s) =
     (if idc c \<and> \<not> digitc c then
        word_tok (takeWhile idc (c # s)) # idl_lex (dropWhile idc s)
      else if 0 < num_len (c # s) then
        TNumber (take (num_len (c # s)) (c # s)) # idl_lex (drop (num_len (c # s) - 1) s)
      else if lex_blank c then idl_lex s
      else TChar c # idl_lex s)"
  by pat_completeness auto
termination
  by (relation "measure length") (auto simp: less_Suc_eq_le length_dropWhile_le)

section \<open>The grammar\<close>

record idl_globals =
  gl_params :: "idl_param list"
  gl_funcs :: "idl_func list"
  gl_ifaces :: "idl_iface list"

definition act_param :: "idl_dir \<Rightarrow> string \<Rightarrow> string \<Rightarrow> idl_globals \<Rightarrow> idl_globals" where
  "act_param d t n g = g\<lparr>gl_params := gl_params g @ [pm_ctor d t n]\<rparr>"

definition act_func :: "string \<Rightarrow> string \<Rightarrow> idl_globals \<Rightarrow> idl_globals" where
  "act_func t n g = g\<lparr>gl_funcs := gl_funcs g @ [fn_ctor t n]\<rparr>"

definition act_func_params :: "string \<Rightarrow> string \<Rightarrow> idl_globals \<Rightarrow> idl_globals" where
  "act_func_params t n g =
     (let (f, pl) = fn_swap (fn_ctor t n) (gl_params g) in
      g\<lparr>gl_params := pl, gl_funcs := gl_funcs g @ [f]\<rparr>)"

definition act_interface :: "string \<Rightarrow> idl_globals \<Rightarrow> idl_globals" where
  "act_interface n g =
     (let (I, fl) = if_swap (if_ctor n) (gl_funcs g) in
      g\<lparr>gl_funcs := fl, gl_ifaces := if_add (gl_ifaces g) I\<rparr>)"

inductive gr_param :: "idl_tok list \<Rightarrow> idl_globals \<Rightarrow> idl_globals \<Rightarrow> bool" where
  gr_param_dir: "gr_param [TDir d, TName t, TName n] g (act_param d t n g)"
| gr_param_in: "gr_param [TName t, TName n] g (act_param DIN t n g)"

inductive gr_param_list :: "idl_tok list \<Rightarrow> idl_globals \<Rightarrow> idl_globals \<Rightarrow> bool" where
  gr_param_one: "gr_param ts g g' \<Longrightarrow> gr_param_list ts g g'"
| gr_param_more: "gr_param_list ts g g' \<Longrightarrow> gr_param us g' g'' \<Longrightarrow>
    gr_param_list (ts @ TChar CHR '','' # us) g g''"

inductive gr_func_decl :: "idl_tok list \<Rightarrow> idl_globals \<Rightarrow> idl_globals \<Rightarrow> bool" where
  gr_func_none: "gr_func_decl [TName t, TName n, TChar CHR ''('', TChar CHR '')'', TChar CHR '';''] g
    (act_func t n g)"
| gr_func_params: "gr_param_list ts g g' \<Longrightarrow>
    gr_func_decl (TName t # TName n # TChar CHR ''('' # ts @ [TChar CHR '')'', TChar CHR '';'']) g
      (act_func_params t n g')"

inductive gr_func_decl_list :: "idl_tok list \<Rightarrow> idl_globals \<Rightarrow> idl_globals \<Rightarrow> bool" where
  gr_func_one: "gr_func_decl ts g g' \<Longrightarrow> gr_func_decl_list ts g g'"
| gr_func_more: "gr_func_decl_list ts g g' \<Longrightarrow> gr_func_decl us g' g'' \<Longrightarrow>
    gr_func_decl_list (ts @ us) g g''"

inductive gr_interface :: "idl_tok list \<Rightarrow> idl_globals \<Rightarrow> idl_globals \<Rightarrow> bool" where
  gr_interface_intro: "gr_func_decl_list ts g g' \<Longrightarrow>
    gr_interface (TInterface # TName n # TChar CHR ''{'' # ts @ [TChar CHR ''}'']) g (act_interface n g')"

inductive_cases gr_paramE: "gr_param ts g g'"
inductive_cases gr_func_declE: "gr_func_decl ts g g'"
inductive_cases gr_interfaceE: "gr_interface ts g g'"

section \<open>The main program\<close>

datatype idl_exit = Exits int | Uncaught string

text \<open>
  \<open>parse\<close> is what the loop around \<open>yyparse\<close> does to the globals for the contents of a file. \<open>None\<close>:
  a file could not be opened.
\<close>

fun parse_files ::
  "(string \<Rightarrow> idl_globals \<Rightarrow> idl_globals) \<Rightarrow> fsys \<Rightarrow> string list \<Rightarrow> idl_globals \<Rightarrow> idl_globals option" where
  "parse_files parse fs [] g = Some g"
| "parse_files parse fs (a # as) g =
     (case fs a of None \<Rightarrow> None | Some txt \<Rightarrow> parse_files parse fs as (parse txt g))"

definition gl_start :: idl_globals where
  "gl_start = \<lparr>gl_params = [], gl_funcs = [], gl_ifaces = []\<rparr>"

definition idl_main ::
  "(string \<Rightarrow> idl_globals \<Rightarrow> idl_globals) \<Rightarrow> os_env \<Rightarrow> string \<Rightarrow> string list \<Rightarrow> fsys \<Rightarrow> idl_exit \<times> fsys" where
  "idl_main parse e stdin_text args fs =
     (case (if args = [] then Some (parse stdin_text gl_start) else parse_files parse fs args gl_start) of
        None \<Rightarrow> (Exits 1, fs)
      | Some g \<Rightarrow>
        (case create_all e (gl_ifaces g) fs of
           (Inl msg, fs') \<Rightarrow> (Uncaught msg, fs')
         | (Inr _, fs') \<Rightarrow> (Exits 0, fs')))"

section \<open>What a derivation does\<close>

text \<open>The syntax of a parameter and of a function, and its tokens.\<close>

type_synonym pm_syn = "idl_dir option \<times> string \<times> string"
type_synonym fn_syn = "string \<times> string \<times> pm_syn list"

fun pm_of :: "pm_syn \<Rightarrow> idl_param" where
  "pm_of (d, t, n) = pm_ctor (case d of None \<Rightarrow> DIN | Some d \<Rightarrow> d) t n"

fun pm_toks :: "pm_syn \<Rightarrow> idl_tok list" where
  "pm_toks (None, t, n) = [TName t, TName n]"
| "pm_toks (Some d, t, n) = [TDir d, TName t, TName n]"

fun pms_toks :: "pm_syn list \<Rightarrow> idl_tok list" where
  "pms_toks [] = []"
| "pms_toks [p] = pm_toks p"
| "pms_toks (p # q # ps) = pm_toks p @ TChar CHR '','' # pms_toks (q # ps)"

fun fn_toks :: "fn_syn \<Rightarrow> idl_tok list" where
  "fn_toks (t, n, ps) = TName t # TName n # TChar CHR ''('' # pms_toks ps @ [TChar CHR '')'', TChar CHR '';'']"

fun fn_act :: "fn_syn \<Rightarrow> idl_globals \<Rightarrow> idl_globals" where
  "fn_act (t, n, ps) g =
     (if ps = [] then g\<lparr>gl_funcs := gl_funcs g @ [fn_ctor t n]\<rparr>
      else g\<lparr>gl_params := [],
        gl_funcs := gl_funcs g @ [\<lparr>vl_type = t, vl_name = n, fn_params = gl_params g @ map pm_of ps\<rparr>]\<rparr>)"

lemma pms_toks_snoc:
  "ps \<noteq> [] \<Longrightarrow> pms_toks (ps @ [p]) = pms_toks ps @ TChar CHR '','' # pm_toks p"
  by (induction ps rule: pms_toks.induct) auto

lemma gr_param_iff: "gr_param ts g g' \<longleftrightarrow>
  (\<exists>p. ts = pm_toks p \<and> g' = g\<lparr>gl_params := gl_params g @ [pm_of p]\<rparr>)"
proof
  assume "gr_param ts g g'"
  then show "\<exists>p. ts = pm_toks p \<and> g' = g\<lparr>gl_params := gl_params g @ [pm_of p]\<rparr>"
  proof cases
    case (gr_param_dir d t n)
    then show ?thesis by (intro exI [of _ "(Some d, t, n)"]) (simp add: act_param_def)
  next
    case (gr_param_in t n)
    then show ?thesis by (intro exI [of _ "(None, t, n)"]) (simp add: act_param_def)
  qed
next
  assume "\<exists>p. ts = pm_toks p \<and> g' = g\<lparr>gl_params := gl_params g @ [pm_of p]\<rparr>"
  then obtain p where p: "ts = pm_toks p" "g' = g\<lparr>gl_params := gl_params g @ [pm_of p]\<rparr>" by blast
  then show "gr_param ts g g'"
    using gr_param_dir [where g = g] gr_param_in [where g = g]
    by (cases p rule: pm_toks.cases) (simp_all add: act_param_def)
qed

lemma gr_param_I: "gr_param (pm_toks p) g (g\<lparr>gl_params := gl_params g @ [pm_of p]\<rparr>)"
  unfolding gr_param_iff by blast

lemma gr_param_list_D:
  "gr_param_list ts g g' \<Longrightarrow>
   \<exists>ps. ps \<noteq> [] \<and> ts = pms_toks ps \<and> g' = g\<lparr>gl_params := gl_params g @ map pm_of ps\<rparr>"
proof (induction rule: gr_param_list.induct)
  case (gr_param_one ts g g')
  then obtain p where "ts = pm_toks p" "g' = g\<lparr>gl_params := gl_params g @ [pm_of p]\<rparr>"
    by (auto simp: gr_param_iff)
  then show ?case by (intro exI [of _ "[p]"]) simp
next
  case (gr_param_more ts g g' us g'')
  then obtain ps p where "ps \<noteq> []" "ts = pms_toks ps" "g' = g\<lparr>gl_params := gl_params g @ map pm_of ps\<rparr>"
      "us = pm_toks p" "g'' = g'\<lparr>gl_params := gl_params g' @ [pm_of p]\<rparr>"
    by (auto simp: gr_param_iff)
  then show ?case by (intro exI [of _ "ps @ [p]"]) (simp add: pms_toks_snoc)
qed

lemma gr_param_list_I:
  "ps \<noteq> [] \<Longrightarrow> gr_param_list (pms_toks ps) g (g\<lparr>gl_params := gl_params g @ map pm_of ps\<rparr>)"
proof (induction ps rule: rev_nonempty_induct)
  case (single p)
  show ?case using gr_param_one [OF gr_param_I, of p g] by simp
next
  case (snoc p ps)
  let ?g' = "g\<lparr>gl_params := gl_params g @ map pm_of ps\<rparr>"
  have "gr_param (pm_toks p) ?g' (?g'\<lparr>gl_params := gl_params ?g' @ [pm_of p]\<rparr>)"
    by (rule gr_param_I)
  from gr_param_more [OF snoc.IH this] show ?case
    using snoc.hyps by (simp add: pms_toks_snoc)
qed

lemma gr_func_decl_iff:
  "gr_func_decl ts g g' \<longleftrightarrow> (\<exists>f. ts = fn_toks f \<and> g' = fn_act f g)"
proof
  assume "gr_func_decl ts g g'"
  then show "\<exists>f. ts = fn_toks f \<and> g' = fn_act f g"
  proof cases
    case (gr_func_none t n)
    then show ?thesis by (intro exI [of _ "(t, n, [])"]) (simp add: act_func_def)
  next
    case (gr_func_params us g1 t n)
    then obtain ps where "ps \<noteq> []" "us = pms_toks ps" "g1 = g\<lparr>gl_params := gl_params g @ map pm_of ps\<rparr>"
      by (auto dest: gr_param_list_D)
    with gr_func_params show ?thesis
      by (intro exI [of _ "(t, n, ps)"]) (simp add: act_func_params_def fn_swap_def fn_ctor_def)
  qed
next
  assume "\<exists>f. ts = fn_toks f \<and> g' = fn_act f g"
  then obtain t n ps where f: "ts = fn_toks (t, n, ps)" "g' = fn_act (t, n, ps) g"
    by (metis prod_cases3)
  show "gr_func_decl ts g g'"
  proof (cases "ps = []")
    case True
    with f show ?thesis using gr_func_none [of t n g] by (simp add: act_func_def)
  next
    case False
    from gr_func_params [OF gr_param_list_I [OF False], of t n g] show ?thesis
      using f False by (simp add: act_func_params_def fn_swap_def fn_ctor_def)
  qed
qed

lemma gr_func_decl_I: "gr_func_decl (fn_toks f) g (fn_act f g)"
  unfolding gr_func_decl_iff by blast

lemma gr_func_decl_list_iff:
  "gr_func_decl_list ts g g' \<longleftrightarrow> (\<exists>fs. fs \<noteq> [] \<and> ts = concat (map fn_toks fs) \<and> g' = fold fn_act fs g)"
proof
  show "gr_func_decl_list ts g g' \<Longrightarrow> \<exists>fs. fs \<noteq> [] \<and> ts = concat (map fn_toks fs) \<and> g' = fold fn_act fs g"
  proof (induction rule: gr_func_decl_list.induct)
    case (gr_func_one ts g g')
    then obtain f where "ts = fn_toks f" "g' = fn_act f g" by (auto simp: gr_func_decl_iff)
    then show ?case by (intro exI [of _ "[f]"]) simp
  next
    case (gr_func_more ts g g' us g'')
    then obtain fs f where "fs \<noteq> []" "ts = concat (map fn_toks fs)" "g' = fold fn_act fs g"
        "us = fn_toks f" "g'' = fn_act f g'"
      by (auto simp: gr_func_decl_iff)
    then show ?case by (intro exI [of _ "fs @ [f]"]) simp
  qed
next
  have "gr_func_decl_list (concat (map fn_toks fs)) g (fold fn_act fs g)" if "fs \<noteq> []" for fs
    using that
  proof (induction fs rule: rev_nonempty_induct)
    case (single f)
    show ?case using gr_func_one [OF gr_func_decl_I, of f g] by simp
  next
    case (snoc f fs)
    from gr_func_more [OF snoc.IH gr_func_decl_I] show ?case by simp
  qed
  then show "\<exists>fs. fs \<noteq> [] \<and> ts = concat (map fn_toks fs) \<and> g' = fold fn_act fs g \<Longrightarrow> gr_func_decl_list ts g g'"
    by blast
qed

definition iface_toks :: "string \<Rightarrow> fn_syn list \<Rightarrow> idl_tok list" where
  "iface_toks n fs = TInterface # TName n # TChar CHR ''{'' # concat (map fn_toks fs) @ [TChar CHR ''}'']"

lemma gr_interface_iff:
  "gr_interface ts g g' \<longleftrightarrow>
   (\<exists>n fs. fs \<noteq> [] \<and> ts = iface_toks n fs \<and> g' = act_interface n (fold fn_act fs g))"
  unfolding gr_interface.simps gr_func_decl_list_iff iface_toks_def by blast

section \<open>The grammar is unambiguous\<close>

lemma pm_toks_inj:
  "pm_toks p @ TChar x # r = pm_toks q @ TChar y # s \<Longrightarrow> p = q \<and> x = y \<and> r = s"
  by (cases p rule: pm_toks.cases; cases q rule: pm_toks.cases) auto

lemma pms_toks_inj:
  "pms_toks ps @ TChar CHR '')'' # r = pms_toks qs @ TChar CHR '')'' # s \<Longrightarrow> ps = qs \<and> r = s"
proof (induction ps arbitrary: qs rule: pms_toks.induct)
  case 1
  then show ?case by (cases qs rule: pms_toks.cases; cases "hd qs" rule: pm_toks.cases) auto
next
  case (2 p)
  then show ?case
  proof (cases qs rule: pms_toks.cases)
    case 1
    with 2 show ?thesis by (cases p rule: pm_toks.cases) auto
  next
    case (2 p')
    with "2.prems" show ?thesis using pm_toks_inj [of p _ r p' _ s] by simp
  next
    case (3 p' q' ps')
    with "2.prems" show ?thesis by (auto dest!: pm_toks_inj)
  qed
next
  case (3 p q ps)
  then show ?case
  proof (cases qs rule: pms_toks.cases)
    case 1
    with 3 show ?thesis by (cases p rule: pm_toks.cases) auto
  next
    case (2 p')
    with "3.prems" show ?thesis by (auto dest!: pm_toks_inj)
  next
    case (3 p' q' ps')
    with "3.prems" have "pm_toks p @ TChar CHR '','' # pms_toks (q # ps) @ TChar CHR '')'' # r =
        pm_toks p' @ TChar CHR '','' # pms_toks (q' # ps') @ TChar CHR '')'' # s"
      by simp
    then have "p = p'" "pms_toks (q # ps) @ TChar CHR '')'' # r = pms_toks (q' # ps') @ TChar CHR '')'' # s"
      by (blast dest: pm_toks_inj)+
    with "3.IH" \<open>qs = p' # q' # ps'\<close> show ?thesis by blast
  qed
qed

lemma fn_toks_inj: "fn_toks f @ r = fn_toks f' @ s \<Longrightarrow> f = f' \<and> r = s"
  by (cases f; cases f') (auto dest: pms_toks_inj)

lemma fns_toks_inj: "concat (map fn_toks fs) = concat (map fn_toks fs') \<Longrightarrow> fs = fs'"
proof (induction fs arbitrary: fs')
  case Nil
  then show ?case by (cases fs'; cases "hd fs'") auto
next
  case (Cons f fs)
  show ?case
  proof (cases fs')
    case Nil
    with Cons.prems show ?thesis by (cases f) auto
  next
    case (Cons f' gs)
    with Cons.prems fn_toks_inj [of f _ f'] Cons.IH [of gs] show ?thesis by simp
  qed
qed

lemma gr_interface_unique: "gr_interface ts g g1 \<Longrightarrow> gr_interface ts g g2 \<Longrightarrow> g1 = g2"
  unfolding gr_interface_iff iface_toks_def by (auto dest: fns_toks_inj)

section \<open>Reading an interface back\<close>

fun dir_src :: "idl_dir \<Rightarrow> string" where
  "dir_src DIN = ''in''" | "dir_src DOUT = ''out''" | "dir_src DINOUT = ''inout''"

definition pm_src :: "idl_param \<Rightarrow> string" where
  "pm_src p = dir_src (pm_dir p) @ '' '' @ vl_type p @ '' '' @ vl_name p"

fun pms_src :: "idl_param list \<Rightarrow> string" where
  "pms_src [] = []"
| "pms_src [p] = pm_src p"
| "pms_src (p # q # ps) = pm_src p @ '', '' @ pms_src (q # ps)"

definition fn_src :: "idl_func \<Rightarrow> string" where
  "fn_src f = tab @ vl_type f @ '' '' @ vl_name f @ ''('' @ pms_src (fn_params f) @ '');'' @ nl"

definition idl_source :: "idl_iface \<Rightarrow> string" where
  "idl_source I = ''interface '' @ if_name I @ nl @ ''{'' @ nl @ concat (map fn_src (if_funcs I)) @ ''}'' @ nl"

definition idl_name :: "string \<Rightarrow> bool" where
  "idl_name n \<longleftrightarrow> idl_word n \<and> n \<notin> {''interface'', ''in'', ''out'', ''inout''}"

definition idl_names_ok :: "idl_iface \<Rightarrow> bool" where
  "idl_names_ok I \<longleftrightarrow> idl_name (if_name I) \<and>
     list_all (\<lambda>f. idl_name (vl_type f) \<and> idl_name (vl_name f) \<and>
       list_all (\<lambda>p. idl_name (vl_type p) \<and> idl_name (vl_name p)) (fn_params f)) (if_funcs I)"

declare idl_lex.simps(2) [simp del]

lemma idl_lex_word:
  assumes "idl_word n" "\<not> idc c"
  shows "idl_lex (n @ c # r) = word_tok n # idl_lex (c # r)"
proof -
  obtain x xs where n: "n = x # xs" "idc x" "\<not> digitc x" "list_all idc xs"
    using assms(1) by (cases n) (auto simp: idl_word_def)
  have "takeWhile idc (xs @ c # r) = xs" "dropWhile idc (xs @ c # r) = c # r"
    using n(4) assms(2) by (induction xs) auto
  with n show ?thesis by (simp add: idl_lex.simps(2))
qed

lemma idl_lex_name:
  "idl_name n \<Longrightarrow> \<not> idc c \<Longrightarrow> idl_lex (n @ c # r) = TName n # idl_lex (c # r)"
  by (simp add: idl_name_def idl_lex_word word_tok_def)

lemma idl_lex_sym:
  assumes "\<not> idc c" "c \<noteq> CHR ''.''"
  shows "idl_lex (c # s) = (if lex_blank c then idl_lex s else TChar c # idl_lex s)"
proof -
  have "\<not> digitc c" using assms(1) by (auto simp: idc_def digitc_def Let_def)
  then have "num_len (c # s) = 0" using assms(2) by (simp add: num_len_def digits_def)
  with assms(1) show ?thesis by (simp add: idl_lex.simps(2))
qed

lemma idl_lex_dir: "idl_lex (dir_src d @ CHR '' '' # r) = TDir d # idl_lex r"
proof -
  have "idl_word (dir_src d)" by (cases d) (simp_all add: idl_word_def idc_def digitc_def)
  moreover have "word_tok (dir_src d) = TDir d" by (cases d) (simp_all add: word_tok_def)
  ultimately show ?thesis
    by (subst idl_lex_word) (simp_all add: idl_lex_sym lex_blank_def idc_def)
qed

lemma idl_lex_interface: "idl_lex (''interface'' @ CHR '' '' # r) = TInterface # idl_lex r"
  by (subst idl_lex_word)
     (simp_all add: idl_lex_sym lex_blank_def idc_def idl_word_def digitc_def word_tok_def)

definition pm_syn_of :: "idl_param \<Rightarrow> pm_syn" where
  "pm_syn_of p = (Some (pm_dir p), vl_type p, vl_name p)"

definition fn_syn_of :: "idl_func \<Rightarrow> fn_syn" where
  "fn_syn_of f = (vl_type f, vl_name f, map pm_syn_of (fn_params f))"

lemma idl_lex_pm:
  "idl_name (vl_type p) \<Longrightarrow> idl_name (vl_name p) \<Longrightarrow> \<not> idc c \<Longrightarrow>
   idl_lex (pm_src p @ c # r) = pm_toks (pm_syn_of p) @ idl_lex (c # r)"
  by (simp add: pm_src_def pm_syn_of_def idl_lex_dir idl_lex_name idl_lex_sym idc_def lex_blank_def)

lemma idl_lex_pms:
  "list_all (\<lambda>p. idl_name (vl_type p) \<and> idl_name (vl_name p)) pl \<Longrightarrow> \<not> idc c \<Longrightarrow>
   idl_lex (pms_src pl @ c # r) = pms_toks (map pm_syn_of pl) @ idl_lex (c # r)"
  by (induction pl rule: pms_src.induct)
     (simp_all add: idl_lex_pm idl_lex_sym idc_def lex_blank_def)

lemma idl_lex_fns:
  "list_all (\<lambda>f. idl_name (vl_type f) \<and> idl_name (vl_name f) \<and>
     list_all (\<lambda>p. idl_name (vl_type p) \<and> idl_name (vl_name p)) (fn_params f)) fs \<Longrightarrow>
   idl_lex (concat (map fn_src fs) @ r) = concat (map fn_toks (map fn_syn_of fs)) @ idl_lex r"
  by (induction fs)
     (simp_all add: fn_src_def fn_syn_of_def tab_def nl_def idl_lex_pms idl_lex_name idl_lex_sym idc_def
        lex_blank_def)

lemma idl_lex_source:
  assumes "idl_names_ok I"
  shows "idl_lex (idl_source I) = iface_toks (if_name I) (map fn_syn_of (if_funcs I))"
  using assms idl_lex_fns [of "if_funcs I" "''}'' @ nl"]
  unfolding idl_source_def iface_toks_def idl_names_ok_def
  by (simp add: idl_lex_interface [simplified] nl_def idl_lex_name idl_lex_sym idc_def lex_blank_def)

lemma fold_fn_act:
  "gl_params g = [] \<Longrightarrow> fold fn_act (map fn_syn_of fs) g = g\<lparr>gl_funcs := gl_funcs g @ fs\<rparr>"
proof (induction fs arbitrary: g)
  case (Cons f fs)
  have pm: "pm_of (pm_syn_of p) = p" for p by (simp add: pm_syn_of_def pm_ctor_def)
  have "fn_act (fn_syn_of f) g = g\<lparr>gl_funcs := gl_funcs g @ [f]\<rparr>"
    using Cons.prems by (cases f) (auto simp: fn_syn_of_def fn_ctor_def pm o_def)
  then show ?case using Cons by simp
qed simp

section \<open>A parser for the grammar\<close>

text \<open>
  A recursive-descent parser, one call per token at most. It is not the one bison generates; it
  shows that a parser with the property \<open>yyparse_ok\<close> exists.
\<close>

fun rd_pm :: "idl_tok list \<Rightarrow> (pm_syn \<times> idl_tok list) option" where
  "rd_pm (TDir d # TName t # TName n # r) = Some ((Some d, t, n), r)"
| "rd_pm (TName t # TName n # r) = Some ((None, t, n), r)"
| "rd_pm _ = None"

fun rd_pms :: "nat \<Rightarrow> idl_tok list \<Rightarrow> (pm_syn list \<times> idl_tok list) option" where
  "rd_pms 0 ts = None"
| "rd_pms (Suc k) ts =
     (case rd_pm ts of
        Some (p, TChar c # r) \<Rightarrow>
          if c = CHR '','' then (case rd_pms k r of Some (ps, r') \<Rightarrow> Some (p # ps, r') | None \<Rightarrow> None)
          else if c = CHR '')'' then Some ([p], r) else None
      | _ \<Rightarrow> None)"

definition rd_args :: "nat \<Rightarrow> idl_tok list \<Rightarrow> (pm_syn list \<times> idl_tok list) option" where
  "rd_args k ts =
     (if take 1 ts = [TChar CHR '')''] then Some ([], tl ts) else rd_pms k ts)"

fun rd_fns :: "nat \<Rightarrow> idl_tok list \<Rightarrow> fn_syn list option" where
  "rd_fns 0 ts = None"
| "rd_fns (Suc k) (TName t # TName n # TChar a # r) =
     (case rd_args k r of
        Some (ps, TChar c # r') \<Rightarrow>
          if a = CHR ''('' \<and> c = CHR '';'' then
            (case rd_fns k r' of Some fs \<Rightarrow> Some ((t, n, ps) # fs) | None \<Rightarrow> None)
          else None
      | _ \<Rightarrow> None)"
| "rd_fns (Suc k) [TChar c] = (if c = CHR ''}'' then Some [] else None)"
| "rd_fns (Suc k) _ = None"

definition rd_parse :: "string \<Rightarrow> idl_globals \<Rightarrow> idl_globals" where
  "rd_parse txt g =
     (case idl_lex txt of
        TInterface # TName n # TChar c # r \<Rightarrow>
          (case rd_fns (length r) r of Some fs \<Rightarrow> act_interface n (fold fn_act fs g) | None \<Rightarrow> g)
      | _ \<Rightarrow> g)"

lemma rd_pm_toks: "rd_pm (pm_toks p @ TChar c # r) = Some (p, TChar c # r)"
  by (cases p rule: pm_toks.cases) auto

lemma pms_toks_length: "length ps \<le> length (pms_toks ps)"
proof (induction ps rule: pms_toks.induct)
  case (2 p)
  show ?case by (cases p rule: pm_toks.cases) auto
qed auto

lemma rd_pms_toks:
  "ps \<noteq> [] \<Longrightarrow> length ps \<le> k \<Longrightarrow> rd_pms k (pms_toks ps @ TChar CHR '')'' # r) = Some (ps, r)"
proof (induction ps arbitrary: k rule: pms_toks.induct)
  case (2 p)
  then show ?case by (cases k) (simp_all add: rd_pm_toks)
next
  case (3 p q ps)
  then show ?case by (cases k) (simp_all add: rd_pm_toks)
qed simp

lemma rd_args_toks: "length ps \<le> k \<Longrightarrow> rd_args k (pms_toks ps @ TChar CHR '')'' # r) = Some (ps, r)"
proof (cases ps)
  case (Cons p qs)
  have "take 1 (pms_toks ps @ TChar CHR '')'' # r) \<noteq> [TChar CHR '')'']"
    using Cons by (cases p rule: pm_toks.cases; cases qs) auto
  moreover assume "length ps \<le> k"
  ultimately show ?thesis using Cons rd_pms_toks [of ps k r] by (simp only: rd_args_def if_False) simp
qed (simp add: rd_args_def)

lemma rd_fns_toks:
  "length (concat (map fn_toks fs)) < k \<Longrightarrow>
   rd_fns k (concat (map fn_toks fs) @ [TChar CHR ''}'']) = Some fs"
proof (induction fs arbitrary: k)
  case Nil
  then show ?case by (cases k) auto
next
  case (Cons f fs)
  obtain t n ps where f: "f = (t, n, ps)" by (cases f)
  obtain k' where k: "k = Suc k'" using Cons.prems by (cases k) auto
  let ?r = "concat (map fn_toks fs) @ [TChar CHR ''}'']"
  have IH: "rd_fns k' ?r = Some fs" using Cons.prems k by (intro Cons.IH) (cases f, auto)
  have "length ps \<le> k'" using Cons.prems k f pms_toks_length [of ps] by simp
  from rd_args_toks [OF this] IH show ?case by (simp add: f k)
qed

definition yyparse_ok :: "(string \<Rightarrow> idl_globals \<Rightarrow> idl_globals) \<Rightarrow> bool" where
  "yyparse_ok parse \<longleftrightarrow> (\<forall>txt g g'. gr_interface (idl_lex txt) g g' \<longrightarrow> parse txt g = g')"

lemma rd_parse_ok: "yyparse_ok rd_parse"
proof -
  have "rd_parse inp g = act_interface n (fold fn_act fs g)"
    if "idl_lex inp = iface_toks n fs" for inp g n fs
    using that rd_fns_toks [of fs "length (concat (map fn_toks fs)) + 1"]
    by (simp add: rd_parse_def iface_toks_def)
  then show ?thesis unfolding yyparse_ok_def gr_interface_iff by blast
qed

section \<open>Files\<close>

text \<open>The files of an interface in the order in which they are created, each with the message of its
  exception and its text.\<close>

definition idl_outputs :: "idl_iface \<Rightarrow> (string \<times> string \<times> string) list" where
  "idl_outputs I =
     [(iface_hdr I, ''Unable to open interface header.'', iface_file I),
      (stub_hdr I, ''Unable to open stub header'', stub_hdr_file I),
      (stub_src I, ''Unable to open stub source'', stub_src_file I),
      (skel_hdr I, ''Unable to open skel header'', skel_hdr_file I),
      (skel_src I, ''Unable to open skel source'', skel_src_file I),
      (impl_hdr I, ''Unable to open implementation header'', impl_hdr_file I),
      (impl_src I, ''Unable to open implementation source'', impl_src_file I)]"

definition put_outputs :: "(string \<times> string \<times> string) list \<Rightarrow> fsys \<Rightarrow> fsys" where
  "put_outputs os fs = fold (\<lambda>(n, _, t) fs. fs(n \<mapsto> t)) os fs"

definition os_writes_all :: "os_env \<Rightarrow> bool" where
  "os_writes_all e \<longleftrightarrow> (\<forall>n t. os_write e n t = (t, True))"

lemma put_outputs_distinct:
  "distinct (map fst os) \<Longrightarrow> (n, m, t) \<in> set os \<Longrightarrow> put_outputs os fs n = Some t"
proof (induction os arbitrary: fs)
  case (Cons a os)
  have other: "n' \<notin> set (map fst os) \<Longrightarrow> put_outputs os fs n' = fs n'" for n' os fs
    by (induction os arbitrary: fs) (auto simp: put_outputs_def)
  from Cons show ?case by (cases a) (auto simp: put_outputs_def other [unfolded put_outputs_def])
qed simp

lemma put_outputs_other: "n \<notin> set (map fst os) \<Longrightarrow> put_outputs os fs n = fs n"
  by (induction os arbitrary: fs) (auto simp: put_outputs_def)

lemma idl_outputs_distinct: "distinct (map fst (idl_outputs I))"
proof -
  have "length (iface_hdr I) = length (if_name I) + 3" "length (stub_hdr I) = length (if_name I) + 7"
      "length (stub_src I) = length (if_name I) + 9" "length (skel_hdr I) = length (if_name I) + 7"
      "length (skel_src I) = length (if_name I) + 9" "length (impl_hdr I) = length (if_name I) + 2"
      "length (impl_src I) = length (if_name I) + 4" "stub_hdr I \<noteq> skel_hdr I" "stub_src I \<noteq> skel_src I"
    by (simp_all add: iface_hdr_def stub_hdr_def stub_src_def skel_hdr_def skel_src_def impl_hdr_def
        impl_src_def iface_name_def stub_name_def skel_name_def HDR_EXT_def SRC_EXT_def)
  then show ?thesis by (auto simp: idl_outputs_def dest: arg_cong [where f = length])
qed

lemmas create_defs = create_files_def create_iface_def create_stub_def create_stub_hdr_def
  create_stub_src_def create_skel_def create_skel_hdr_def create_skel_src_def create_impl_def
  create_impl_hdr_def create_impl_src_def io_then_def io_and_def write_file_def

lemma create_files_eq:
  assumes "os_writes_all e"
  shows "create_files e I fs =
    (let ok = takeWhile (\<lambda>(n, _, _). os_open e n) (idl_outputs I) in
     ((if length ok = length (idl_outputs I) then Inr () else Inl (fst (snd (idl_outputs I ! length ok)))),
      put_outputs ok fs))"
  using assms
  by (cases "os_open e (iface_hdr I)"; cases "os_open e (stub_hdr I)"; cases "os_open e (stub_src I)";
      cases "os_open e (skel_hdr I)"; cases "os_open e (skel_src I)"; cases "os_open e (impl_hdr I)";
      cases "os_open e (impl_src I)")
     (simp_all add: create_defs idl_outputs_def put_outputs_def os_writes_all_def)

lemma gr_interface_source:
  assumes "idl_names_ok I" and "if_funcs I \<noteq> []" and "gl_params g = []" and "gl_funcs g = []"
  shows "gr_interface (idl_lex (idl_source I)) g (g\<lparr>gl_ifaces := gl_ifaces g @ [I]\<rparr>)"
proof -
  let ?fs = "map fn_syn_of (if_funcs I)"
  have "act_interface (if_name I) (fold fn_act ?fs g) = g\<lparr>gl_ifaces := gl_ifaces g @ [I]\<rparr>"
    using assms(3,4) by (simp add: fold_fn_act act_interface_def if_swap_def if_ctor_def if_add_def)
  then show ?thesis
    unfolding gr_interface_iff idl_lex_source [OF assms(1)] using assms(2)
    by (metis list.map_disc_iff)
qed

section \<open>Properties\<close>

text \<open>C26: the files of an interface are created in a fixed order, seven different names; when all of
  them can be opened and written each holds its text, and when one cannot be opened its exception
  is thrown, the files before it are complete and no later one is touched.\<close>

theorem files_are_created_in_order:
  assumes "os_writes_all e"
  shows "distinct (map fst (idl_outputs I)) \<and>
    create_files e I fs =
      (let ok = takeWhile (\<lambda>(n, _, _). os_open e n) (idl_outputs I) in
       ((if length ok = 7 then Inr () else Inl (fst (snd (idl_outputs I ! length ok)))),
        put_outputs ok fs))"
  using create_files_eq [OF assms, of I fs] idl_outputs_distinct [of I]
  by (simp add: idl_outputs_def)

definition demo_env :: os_env where
  "demo_env = \<lparr>os_open = (\<lambda>n. n \<noteq> ''T_skel.h''), os_write = (\<lambda>n t. (t, True))\<rparr>"

theorem files_are_created_in_order_witness:
  "fst (create_files demo_env (if_ctor ''T'') Map.empty) = Inl ''Unable to open skel header'' \<and>
   snd (create_files demo_env (if_ctor ''T'') Map.empty) ''T_skel.cpp'' = None \<and>
   snd (create_files demo_env (if_ctor ''T'') Map.empty) ''T_stub.cpp'' = Some (stub_src_file (if_ctor ''T''))"
proof -
  have "os_writes_all demo_env" by (simp add: os_writes_all_def demo_env_def)
  from files_are_created_in_order [OF this, of "if_ctor ''T''" Map.empty] show ?thesis
    by (simp add: idl_outputs_def demo_env_def put_outputs_def if_ctor_def iface_hdr_def iface_name_def
        stub_hdr_def stub_src_def stub_name_def skel_hdr_def skel_src_def skel_name_def impl_hdr_def
        impl_src_def HDR_EXT_def SRC_EXT_def)
qed

text \<open>C24: reading the source text of an interface with the lexer's rules and deriving it with the
  grammar, starting with no parameters and functions pending, appends exactly that interface to
  the list, with every function and every parameter in place, and leaves nothing pending.\<close>

theorem interface_parses_exactly:
  assumes "idl_names_ok I" and "if_funcs I \<noteq> []" and "gl_params g = []" and "gl_funcs g = []"
  shows "gr_interface (idl_lex (idl_source I)) g g' \<longleftrightarrow> g' = g\<lparr>gl_ifaces := gl_ifaces g @ [I]\<rparr>"
  using gr_interface_source [OF assms] gr_interface_unique by blast

definition demo_idl :: idl_iface where
  "demo_idl = \<lparr>if_name = ''MyIface'', if_funcs =
     [\<lparr>vl_type = ''int'', vl_name = ''add'', fn_params = [pm_ctor DIN ''int'' ''a'', pm_ctor DINOUT ''Num'' ''b'']\<rparr>,
      \<lparr>vl_type = ''void'', vl_name = ''test'', fn_params = []\<rparr>]\<rparr>"

lemma demo_idl_ok: "idl_names_ok demo_idl"
  by (simp add: demo_idl_def idl_names_ok_def idl_name_def idl_word_def idc_def digitc_def pm_ctor_def)

theorem interface_parses_exactly_witness:
  "gr_interface (idl_lex (idl_source demo_idl)) gl_start (gl_start\<lparr>gl_ifaces := [demo_idl]\<rparr>)"
  using interface_parses_exactly [OF demo_idl_ok, of gl_start "gl_start\<lparr>gl_ifaces := [demo_idl]\<rparr>"]
  by (simp add: demo_idl_def gl_start_def)



section \<open>Limits\<close>

text \<open>when the files can be opened, \<open>create_files\<close> reports success whatever happens to the
  writes: the results of the \<open>create_...\<close> methods are not looked at.\<close>

theorem write_failures_go_unreported:
  assumes "\<forall>n. os_open e n"
  shows "fst (create_files e I fs) = Inr ()"
  using assms by (simp add: create_defs split: prod.splits sum.splits if_splits)

theorem write_failures_go_unreported_witness:
  "fst (create_files \<lparr>os_open = (\<lambda>n. True), os_write = (\<lambda>n t. ('''', False))\<rparr> (if_ctor ''T'') Map.empty) = Inr ()"
  by (rule write_failures_go_unreported) simp

text \<open>when one interface is called \<open>X\<close> and the next one \<open>IX\<close>, the implementation header of the
  second replaces the interface header of the first.\<close>

theorem interface_header_overwritten:
  assumes "os_writes_all e" and "\<forall>n. os_open e n" and "if_name J = iface_name I"
  shows "snd (create_all e [I, J] fs) (iface_hdr I) = Some (impl_hdr_file J)"
proof -
  have tw: "takeWhile (\<lambda>(n, _, _). os_open e n) (idl_outputs K) = idl_outputs K" for K
    using assms(2) by (auto simp: takeWhile_eq_all_conv)
  have c: "create_files e K fs = (Inr (), put_outputs (idl_outputs K) fs)" for K fs
    unfolding create_files_eq [OF assms(1)] Let_def tw by simp
  have "(iface_hdr I, ''Unable to open implementation header'', impl_hdr_file J) \<in> set (idl_outputs J)"
    by (simp add: idl_outputs_def iface_hdr_def impl_hdr_def assms(3))
  from put_outputs_distinct [OF idl_outputs_distinct this] show ?thesis
    by (simp add: io_then_def c)
qed

theorem interface_header_overwritten_witness:
  "snd (create_all \<lparr>os_open = (\<lambda>n. True), os_write = (\<lambda>n t. (t, True))\<rparr>
      [if_ctor ''X'', if_ctor ''IX''] Map.empty) ''IX.h'' = Some (impl_hdr_file (if_ctor ''IX''))"
  using interface_header_overwritten [of "\<lparr>os_open = (\<lambda>n. True), os_write = (\<lambda>n t. (t, True))\<rparr>"
      "if_ctor ''IX''" "if_ctor ''X''" Map.empty]
  by (simp add: os_writes_all_def if_ctor_def iface_name_def iface_hdr_def HDR_EXT_def)

text \<open>parameters that an earlier parse left behind (the lists are not cleared after a syntax
  error) become the first parameters of the next function that has any.\<close>

theorem leftover_parameters_are_adopted:
  assumes "gr_param_list ts g g'"
  shows "\<exists>ps g2. gr_func_decl (TName t # TName n # TChar CHR ''('' # ts @ [TChar CHR '')'', TChar CHR '';'']) g g2 \<and>
    gl_params g' = gl_params g @ ps \<and>
    gl_funcs g2 = gl_funcs g' @ [\<lparr>vl_type = t, vl_name = n, fn_params = gl_params g @ ps\<rparr>]"
  using gr_func_params [OF assms, of t n] gr_param_list_D [OF assms]
  by (fastforce simp: act_func_params_def fn_swap_def fn_ctor_def)

theorem leftover_parameters_are_adopted_witness:
  "\<exists>ps g2. gr_func_decl [TName ''int'', TName ''f'', TChar CHR ''('', TName ''int'', TName ''b'',
       TChar CHR '')'', TChar CHR '';''] (gl_start\<lparr>gl_params := [pm_ctor DIN ''int'' ''a'']\<rparr>) g2 \<and>
     gl_funcs g2 = [\<lparr>vl_type = ''int'', vl_name = ''f'', fn_params = pm_ctor DIN ''int'' ''a'' # ps\<rparr>]"
proof -
  let ?g = "gl_start\<lparr>gl_params := [pm_ctor DIN ''int'' ''a'']\<rparr>"
  have "gr_param [TName ''int'', TName ''b''] ?g (act_param DIN ''int'' ''b'' ?g)" by (rule gr_param_in)
  from leftover_parameters_are_adopted [OF gr_param_one [OF this], of "''int''" "''f''"] show ?thesis
    by (fastforce simp: gl_start_def act_param_def)
qed

text \<open>two interfaces in a row are not a sentence of the grammar, so a parse ends after the first.\<close>

theorem one_interface_per_parse:
  assumes "gr_interface ts g g1" and "gr_interface us h h1"
  shows "\<not> gr_interface (ts @ us) g g2"
proof -
  have pm: "TInterface \<notin> set (pm_toks p)" for p by (cases p rule: pm_toks.cases) auto
  have pms: "TInterface \<notin> set (pms_toks ps)" for ps
    by (induction ps rule: pms_toks.induct) (auto simp: pm)
  have fn: "TInterface \<notin> set (fn_toks f)" for f by (cases f) (simp add: pms)
  have once: "TInterface \<notin> set (tl xs)" "xs \<noteq> []" "TInterface \<in> set xs" if "gr_interface xs k k'" for xs k k'
    using that fn by (auto simp: gr_interface_iff iface_toks_def)
  have "TInterface \<in> set (tl (ts @ us))" using once(2) [OF assms(1)] once(3) [OF assms(2)] by simp
  then show ?thesis using once(1) by blast
qed

theorem one_interface_per_parse_witness:
  "\<not> gr_interface (idl_lex (idl_source demo_idl) @ idl_lex (idl_source demo_idl)) gl_start g"
  using one_interface_per_parse [OF gr_interface_source gr_interface_source, OF demo_idl_ok _ _ _ demo_idl_ok,
      of gl_start gl_start g]
  by (simp add: demo_idl_def gl_start_def)

end
