(* ===== verification/ThreadTimer.thy ===== *)
theory ThreadTimer imports ConditionData Threads PosixTime begin

text \<open>
  \<open>os/generic/CtrlrFx/ThreadTimer.h\<close> and \<open>src/os/generic/ThreadTimer.cpp\<close>: a timer that is a
  thread of its own, which waits on a condition variable for the timer to be started, for the
  initial delay and for each period, and calls its client's handler in between. The other
  threads start and stop it under the variable's mutex.
\<close>

text \<open>The timer has the client it was given (a client is a number), the durations and the two
  flags. \<open>tt_log\<close> records the calls of \<open>on_timer\<close>: the client, and what the clock showed.\<close>

record timer =
  tt_client :: nat
  tt_init :: timespec
  tt_period :: timespec
  tt_run :: bool
  tt_quit :: bool
  tt_log :: "(nat \<times> timespec) list"

definition tt_ctor :: "nat \<Rightarrow> timer" where
  "tt_ctor client = \<lparr>tt_client = client, tt_init = du_ctor, tt_period = du_ctor, tt_run = False,
     tt_quit = False, tt_log = []\<rparr>"

section \<open>The methods\<close>

definition tt_register_client :: "nat \<Rightarrow> timer \<Rightarrow> int \<times> timer" where
  "tt_register_client client s = (1, s\<lparr>tt_client := client\<rparr>)"

definition tt_do_start :: "timer \<Rightarrow> wake \<times> timer" where
  "tt_do_start s = (if \<not> tt_run s then (Signal, s\<lparr>tt_run := True\<rparr>) else (NoWake, s))"

definition tt_start :: "timer \<Rightarrow> wake \<times> timer" where "tt_start s = tt_do_start s"

definition tt_start_period :: "timespec \<Rightarrow> timer \<Rightarrow> wake \<times> timer" where
  "tt_start_period period s = tt_do_start (s\<lparr>tt_init := period, tt_period := period\<rparr>)"

definition tt_start_delay :: "timespec \<Rightarrow> timespec \<Rightarrow> timer \<Rightarrow> wake \<times> timer" where
  "tt_start_delay delay period s = tt_do_start (s\<lparr>tt_init := delay, tt_period := period\<rparr>)"

definition tt_stop :: "timer \<Rightarrow> wake \<times> timer" where "tt_stop s = (Signal, s\<lparr>tt_run := False\<rparr>)"

definition tt_one_shot :: "timespec \<Rightarrow> timer \<Rightarrow> wake \<times> timer" where
  "tt_one_shot timeout s =
     (if \<not> tt_run s then (Signal, s\<lparr>tt_init := timeout, tt_period := ts 0 0, tt_run := True\<rparr>) else (NoWake, s))"

definition tt_do_quit :: "timer \<Rightarrow> wake \<times> timer" where
  "tt_do_quit s = (Signal, s\<lparr>tt_quit := True, tt_run := False\<rparr>)"

text \<open>Destruction asks the thread to quit, wakes it up and joins it.\<close>

definition tt_destroy :: "timer \<times> thread \<Rightarrow> (wake \<times> timer \<times> thread) run" where
  "tt_destroy st =
     (let (w, s) = tt_do_quit (fst st) in run_then (th_wait (snd st)) (\<lambda>th. Ret (w, s, th)))"

section \<open>The timer's thread\<close>

text \<open>Before \<open>run\<close>; asleep in \<open>cond_.wait()\<close> or in \<open>cond_.wait_until(t)\<close>, or woken up there;
  and after \<open>run\<close>. The other threads are \<open>TtClient\<close>. The result of \<open>wait_until\<close> is not looked
  at, so a wakeup there may be a timeout, a signal or neither.\<close>

datatype tt_pc = TtBegin | TtIdle | TtIdleWoken | TtTimed timespec | TtTimedWoken timespec | TtDone | TtClient

text \<open>The head of the outer loop while the timer does not run.\<close>

definition tt_rest :: "timer \<Rightarrow> tt_pc" where
  "tt_rest s = (if tt_quit s then TtDone else TtIdle)"

text \<open>The inner loop from its head, with the time \<open>t\<close>, up to the next wait.\<close>

definition tt_inner :: "timespec \<Rightarrow> timespec \<Rightarrow> timer \<Rightarrow> (tt_pc \<times> timer) option" where
  "tt_inner now t s =
     (if tt_run s \<and> \<not> tt_quit s then
        let s = s\<lparr>tt_log := tt_log s @ [(tt_client s, now)]\<rparr>
        in if tb_eq (tt_period s) (ts 0 0) then (let s = s\<lparr>tt_run := False\<rparr> in Some (tt_rest s, s))
           else do { t \<leftarrow> tm_add_assign t (tt_period s); Some (TtTimed t, s) }
      else Some (tt_rest s, s))"

text \<open>The outer loop from its head, up to the next wait.\<close>

definition tt_outer :: "timespec \<Rightarrow> timer \<Rightarrow> (tt_pc \<times> timer) option" where
  "tt_outer now s =
     (if tt_quit s then Some (TtDone, s)
      else if \<not> tt_run s then Some (TtIdle, s)
      else if tb_ne (tt_init s) (ts 0 0) then do { t \<leftarrow> tm_add_assign (tm_now now) (tt_init s); Some (TtTimed t, s) }
      else tt_inner now (tm_now now) s)"

section \<open>Threads\<close>

datatype tt_act = TtStart | TtStartPeriod timespec | TtStartDelay timespec timespec | TtStop
  | TtOneShot timespec | TtQuit | TtRegister nat | TtGo timespec

fun tt_thread :: "nat \<Rightarrow> tt_act \<Rightarrow> tt_pc \<Rightarrow> timer \<Rightarrow> (tt_pc \<times> wake \<times> timer) option" where
  "tt_thread i TtStart TtClient s = Some (TtClient, tt_start s)"
| "tt_thread i (TtStartPeriod p) TtClient s = Some (TtClient, tt_start_period p s)"
| "tt_thread i (TtStartDelay d p) TtClient s = Some (TtClient, tt_start_delay d p s)"
| "tt_thread i TtStop TtClient s = Some (TtClient, tt_stop s)"
| "tt_thread i (TtOneShot d) TtClient s = Some (TtClient, tt_one_shot d s)"
| "tt_thread i TtQuit TtClient s = Some (TtClient, tt_do_quit s)"
| "tt_thread i (TtRegister c) TtClient s = Some (TtClient, NoWake, snd (tt_register_client c s))"
| "tt_thread i (TtGo now) TtBegin s = map_option (\<lambda>(pc, s). (pc, NoWake, s)) (tt_outer now s)"
| "tt_thread i (TtGo now) TtIdleWoken s = map_option (\<lambda>(pc, s). (pc, NoWake, s)) (tt_outer now s)"
| "tt_thread i (TtGo now) (TtTimedWoken t) s = map_option (\<lambda>(pc, s). (pc, NoWake, s)) (tt_inner now t s)"
| "tt_thread i _ _ s = None"

fun tt_wake :: "tt_pc \<Rightarrow> tt_pc" where
  "tt_wake TtIdle = TtIdleWoken"
| "tt_wake (TtTimed t) = TtTimedWoken t"
| "tt_wake pc = pc"

fun tt_asleep :: "tt_pc \<Rightarrow> bool" where
  "tt_asleep TtIdle = True"
| "tt_asleep (TtTimed t) = True"
| "tt_asleep pc = False"

abbreviation tt_reach :: "timer \<times> tt_pc list \<Rightarrow> timer \<times> tt_pc list \<Rightarrow> bool" where
  "tt_reach \<equiv> mon_reach tt_thread tt_wake tt_asleep"

text \<open>The timer's thread is the first of the list, the others are clients.\<close>

definition tt_start_cfg :: "nat \<Rightarrow> nat \<Rightarrow> timer \<times> tt_pc list" where
  "tt_start_cfg client n = (tt_ctor client, TtBegin # replicate n TtClient)"

section \<open>Invariant\<close>

text \<open>The thread sleeps without a time only while there is nothing to do, and with a time only
  while the timer runs.\<close>

fun tt_pc_ok :: "timer \<Rightarrow> tt_pc \<Rightarrow> bool" where
  "tt_pc_ok s TtIdle \<longleftrightarrow> \<not> tt_run s \<and> \<not> tt_quit s"
| "tt_pc_ok s (TtTimed t) \<longleftrightarrow> tt_run s \<and> \<not> tt_quit s"
| "tt_pc_ok s TtDone \<longleftrightarrow> tt_quit s"
| "tt_pc_ok s TtClient \<longleftrightarrow> False"
| "tt_pc_ok s pc \<longleftrightarrow> True"

definition tt_inv :: "timer \<times> tt_pc list \<Rightarrow> bool" where
  "tt_inv c \<longleftrightarrow> (case c of (s, pcs) \<Rightarrow>
     \<exists>pc n. pcs = pc # replicate n TtClient \<and> tt_pc_ok s pc)"

lemmas tt_method_defs = tt_start_def tt_start_period_def tt_start_delay_def tt_do_start_def tt_stop_def
  tt_one_shot_def tt_do_quit_def tt_register_client_def

lemma replicate_update_same [simp]: "(replicate n x)[j := x] = replicate n x"
  by (induction n arbitrary: j) (auto split: nat.split)

text \<open>What a client's call does.\<close>

lemma tt_client_cases:
  assumes "tt_thread i a TtClient s = Some (pc', w, s')"
  obtains "pc' = TtClient" "w = Signal" "tt_quit s \<longrightarrow> tt_quit s'"
  | "pc' = TtClient" "w = NoWake" "tt_run s' = tt_run s" "tt_quit s' = tt_quit s"
  using assms by (cases a) (auto simp: tt_method_defs split: if_splits)

lemma tt_thread_cases:
  assumes "tt_thread i a pc s = Some (pc', w, s')" "pc \<noteq> TtClient"
  obtains "w = NoWake" "tt_pc_ok s' pc'" "\<not> tt_asleep pc" "pc \<noteq> TtDone"
proof -
  have "w = NoWake \<and> tt_pc_ok s' pc' \<and> \<not> tt_asleep pc \<and> pc \<noteq> TtDone"
    using assms by (cases "(i, a, pc, s)" rule: tt_thread.cases)
      (auto simp: tt_outer_def tt_inner_def tt_rest_def Let_def bind_Some_iff split: if_splits)
  then show ?thesis using that by blast
qed

lemma tt_pc_ok_wake: "tt_pc_ok s pc \<Longrightarrow> (tt_quit s \<Longrightarrow> tt_quit s') \<Longrightarrow> tt_pc_ok s' (tt_wake pc)"
  by (cases pc) auto

lemma tt_pc_ok_cong: "tt_pc_ok s pc \<Longrightarrow> tt_run s' = tt_run s \<Longrightarrow> tt_quit s' = tt_quit s \<Longrightarrow> tt_pc_ok s' pc"
  by (cases pc) auto

lemma tt_inv_upd:
  assumes "tt_inv (s, pcs)" "t < length pcs" "tt_thread t a (pcs ! t) s = Some (pc', w, s')"
  shows "w = NoWake \<Longrightarrow> tt_inv (s', pcs[t := pc'])"
    and "w = Signal \<Longrightarrow> u < length pcs \<Longrightarrow> tt_asleep (pcs[t := pc'] ! u) \<or> (\<forall>pc\<in>set (pcs[t := pc']). \<not> tt_asleep pc) \<Longrightarrow>
      tt_inv (s', (pcs[t := pc'])[u := tt_wake (pcs[t := pc'] ! u)])"
    and "w \<noteq> Broadcast"
proof -
  obtain pc n where pcs: "pcs = pc # replicate n TtClient" and ok: "tt_pc_ok s pc" using assms(1) by (auto simp: tt_inv_def)
  show "tt_inv (s', pcs[t := pc'])" if w: "w = NoWake"
  proof (cases t)
    case 0
    then have th: "tt_thread t a pc s = Some (pc', w, s')" using assms(3) pcs by simp
    have "pc \<noteq> TtClient" using ok by auto
    then show ?thesis using tt_thread_cases [OF th] 0 pcs by (auto simp: tt_inv_def)
  next
    case (Suc k)
    then have th: "tt_thread t a TtClient s = Some (pc', w, s')" using assms(2,3) pcs by simp
    from th show ?thesis by (rule tt_client_cases) (use Suc pcs ok w tt_pc_ok_cong in \<open>auto simp: tt_inv_def\<close>)
  qed
  show "tt_inv (s', (pcs[t := pc'])[u := tt_wake (pcs[t := pc'] ! u)])"
    if w: "w = Signal" and u: "u < length pcs" "tt_asleep (pcs[t := pc'] ! u) \<or> (\<forall>pc\<in>set (pcs[t := pc']). \<not> tt_asleep pc)"
  proof (cases t)
    case 0
    then have th: "tt_thread t a pc s = Some (pc', w, s')" using assms(3) pcs by simp
    have "pc \<noteq> TtClient" using ok by auto
    then show ?thesis using tt_thread_cases [OF th] w by auto
  next
    case (Suc k)
    then have th: "tt_thread t a TtClient s = Some (pc', w, s')" using assms(2,3) pcs by simp
    have c: "pc' = TtClient" "tt_quit s \<longrightarrow> tt_quit s'" using tt_client_cases [OF th] w by auto
    then have new: "pcs[t := pc'] = pc # replicate n TtClient" using Suc pcs by simp
    show ?thesis
    proof (cases u)
      case 0
      have "tt_pc_ok s' (tt_wake pc)" using ok c(2) by (blast intro: tt_pc_ok_wake)
      then show ?thesis using new 0 by (auto simp: tt_inv_def)
    next
      case (Suc j)
      then have "\<not> tt_asleep (pcs[t := pc'] ! u)" using new u(1) pcs by simp
      then have "\<not> tt_asleep pc" using u(2) new by simp
      then have "tt_wake pc = pc" by (cases pc) auto
      then have "tt_pc_ok s' pc" using tt_pc_ok_wake [OF ok, of s'] c(2) by simp
      then show ?thesis using new Suc u(1) pcs by (auto simp: tt_inv_def)
    qed
  qed
  show "w \<noteq> Broadcast" using assms(3)
    by (cases "(t, a, pcs ! t, s)" rule: tt_thread.cases) (auto simp: tt_method_defs split: if_splits)
qed

lemma tt_inv_wake:
  assumes "tt_inv (s, pcs)" "t < length pcs"
  shows "tt_inv (s, pcs[t := tt_wake (pcs ! t)])"
proof -
  obtain pc n where pcs: "pcs = pc # replicate n TtClient" "tt_pc_ok s pc" using assms(1) by (auto simp: tt_inv_def)
  show ?thesis using assms(2) pcs tt_pc_ok_wake [OF pcs(2)] by (cases t) (auto simp: tt_inv_def)
qed

interpretation timer: monitor_invariant tt_thread tt_wake tt_asleep tt_inv
  by unfold_locales (auto dest: tt_inv_upd tt_inv_wake)

text \<open>Threads of which none starts the timer.\<close>

fun tt_starts :: "tt_act \<Rightarrow> bool" where
  "tt_starts TtStart = True"
| "tt_starts (TtStartPeriod p) = True"
| "tt_starts (TtStartDelay d p) = True"
| "tt_starts (TtOneShot d) = True"
| "tt_starts a = False"

definition tt_thread_ns :: "nat \<Rightarrow> tt_act \<Rightarrow> tt_pc \<Rightarrow> timer \<Rightarrow> (tt_pc \<times> wake \<times> timer) option" where
  "tt_thread_ns i a pc s = (if tt_starts a then None else tt_thread i a pc s)"

text \<open>Without a start, a stopped timer stays as it is, and one that runs with a period of zero
  fires at most once.\<close>

definition tt_silent :: "(nat \<times> timespec) list \<Rightarrow> timer \<Rightarrow> bool" where
  "tt_silent L s \<longleftrightarrow> \<not> tt_run s \<and> tt_log s = L"

definition tt_once :: "(nat \<times> timespec) list \<Rightarrow> timer \<Rightarrow> bool" where
  "tt_once L s \<longleftrightarrow> tt_period s = ts 0 0 \<and> (tt_log s = L \<or> \<not> tt_run s \<and> (\<exists>e. tt_log s = L @ [e]))"

lemma tt_silent_keeps: "tt_silent L s \<Longrightarrow> tt_thread_ns i a pc s = Some (pc', w, s') \<Longrightarrow> tt_silent L s'"
  by (cases a; cases pc)
    (auto simp: tt_thread_ns_def tt_silent_def tt_method_defs tt_outer_def tt_inner_def split: if_splits)

lemma tt_once_keeps: "tt_once L s \<Longrightarrow> tt_thread_ns i a pc s = Some (pc', w, s') \<Longrightarrow> tt_once L s'"
  by (cases a; cases pc)
    (auto simp: tt_thread_ns_def tt_once_def tt_method_defs tt_outer_def tt_inner_def tb_eq_def Let_def
      bind_Some_iff split: if_splits)

interpretation silent: monitor_state tt_thread_ns tt_wake tt_asleep "tt_silent L"
  by unfold_locales (rule tt_silent_keeps)

interpretation once: monitor_state tt_thread_ns tt_wake tt_asleep "tt_once L"
  by unfold_locales (rule tt_once_keeps)

section \<open>Periods\<close>

text \<open>The thread woken up after each period by the time, with what the clock shows each time.\<close>

fun tt_ticks :: "timespec list \<Rightarrow> timespec \<Rightarrow> timer \<Rightarrow> (tt_pc \<times> timer) option" where
  "tt_ticks [] t s = Some (TtTimed t, s)"
| "tt_ticks (now # nows) t s =
     do { (pc, s') \<leftarrow> tt_inner now t s;
          case pc of TtTimed t' \<Rightarrow> tt_ticks nows t' s' | _ \<Rightarrow> None }"

lemma tm_add_assign_ns: "tm_add_assign t d = Some t' \<Longrightarrow> ts_ns t' = ts_ns t + ts_ns d"
  using ts_offset_ns by (auto simp: tm_add_assign_def tm_normalize_def normalize_ok) (simp add: ts_ns_def)

lemma tt_ticks_deadline:
  "tt_run s \<Longrightarrow> \<not> tt_quit s \<Longrightarrow> tt_period s \<noteq> ts 0 0 \<Longrightarrow> tt_ticks nows t s = Some (pc, s') \<Longrightarrow>
   \<exists>t'. pc = TtTimed t' \<and> ts_ns t' = ts_ns t + int (length nows) * ts_ns (tt_period s) \<and>
     s' = s\<lparr>tt_log := tt_log s @ map (Pair (tt_client s)) nows\<rparr>"
proof (induction nows t s rule: tt_ticks.induct)
  case (2 now nows t s)
  let ?s = "s\<lparr>tt_log := tt_log s @ [(tt_client s, now)]\<rparr>"
  have "\<not> tb_eq (tt_period s) (ts 0 0)" using 2(4) by (cases "tt_period s") (auto simp: tb_eq_def ts_def)
  then obtain t1 where t1: "tm_add_assign t (tt_period s) = Some t1" "tt_inner now t s = Some (TtTimed t1, ?s)"
      "tt_ticks nows t1 ?s = Some (pc, s')"
    using 2(2,3,5) by (auto simp: tt_inner_def bind_Some_iff)
  have "\<exists>t'. pc = TtTimed t' \<and> ts_ns t' = ts_ns t1 + int (length nows) * ts_ns (tt_period ?s) \<and>
      s' = ?s\<lparr>tt_log := tt_log ?s @ map (Pair (tt_client ?s)) nows\<rparr>"
    using 2(1) [OF t1(2) refl refl _ _ _ t1(3)] 2(2-4) by simp
  then show ?case using tm_add_assign_ns [OF t1(1)] by (auto simp: algebra_simps)
qed (auto simp: ts_def)

section \<open>Properties\<close>

text \<open>C34: The timer's thread never sleeps through a request: whenever it sleeps without a time there
  is nothing to do, and whenever it sleeps until a time the timer is running, in every interleaving
  of the clients' calls, timeouts and spurious wakeups. Once it has been asked to quit it is awake, and
  leaves at its next step without calling the client again.\<close>

theorem timer_thread_never_sleeps_through:
  assumes "tt_reach (tt_start_cfg client n) (s, pcs)"
  shows "(pcs ! 0 = TtIdle \<longrightarrow> \<not> tt_run s \<and> \<not> tt_quit s) \<and> (pcs ! 0 = TtTimed t \<longrightarrow> tt_run s \<and> \<not> tt_quit s) \<and>
    (tt_quit s \<longrightarrow> pcs ! 0 = TtDone \<or> tt_thread 0 (TtGo now) (pcs ! 0) s = Some (TtDone, NoWake, s))"
proof -
  have "tt_inv (tt_start_cfg client n)" by (auto simp: tt_inv_def tt_start_cfg_def)
  from timer.reach_inv [OF assms this] have ok: "tt_pc_ok s (pcs ! 0)" by (auto simp: tt_inv_def)
  then show ?thesis by (cases "pcs ! 0") (auto simp: tt_outer_def tt_inner_def tt_rest_def)
qed

text \<open>When \<open>stop\<close> has returned, the client is not called again, and after \<open>one_shot\<close> on a stopped
  timer it is called at most once, whatever the threads do, until one of them starts the timer.\<close>

theorem timer_stops_and_fires_once:
  assumes "mon_reach tt_thread_ns tt_wake tt_asleep (s1, pcs) (s', pcs')"
  shows "(tt_stop s = (w, s1) \<longrightarrow> tt_log s' = tt_log s) \<and>
    (\<not> tt_run s \<and> tt_one_shot d s = (w, s1) \<longrightarrow> tt_log s' = tt_log s \<or> (\<exists>e. tt_log s' = tt_log s @ [e]))"
  using silent.reach_inv [OF assms, of "tt_log s"] once.reach_inv [OF assms, of "tt_log s"]
  by (auto simp: tt_silent_def tt_stop_def tt_once_def tt_one_shot_def)

text \<open>A periodic timer does not drift: with the clock at \<open>t0\<close> when the thread sees the start, the
  time it waits for after the \<open>k\<close>-th call of the client is \<open>t0\<close> plus the initial delay plus \<open>k\<close>
  periods, however late the individual wakeups are, and the client is called once each time.\<close>

theorem timer_deadlines_do_not_drift:
  assumes "tt_run s" "\<not> tt_quit s" "tb_ne (tt_init s) (ts 0 0)" "tt_period s \<noteq> ts 0 0"
    and "tt_outer t0 s = Some (pc, s1)" "pc = TtTimed t" "tt_ticks nows t s1 = Some (pc2, s2)"
  shows "\<exists>t'. pc2 = TtTimed t' \<and>
      ts_ns t' = ts_ns t0 + ts_ns (tt_init s) + int (length nows) * ts_ns (tt_period s) \<and>
      tt_log s2 = tt_log s @ map (Pair (tt_client s)) nows"
proof -
  have "s1 = s" "tm_add_assign t0 (tt_init s) = Some t"
    using assms(1-3,5,6) by (auto simp: tt_outer_def tm_now_def bind_Some_iff)
  then show ?thesis
    using tt_ticks_deadline [OF assms(1,2,4), of nows t pc2 s2] assms(7) tm_add_assign_ns [of t0 "tt_init s" t] by auto
qed

lemma tt_demo_add: "tm_add_assign (ts 0 0) (ts 10 0) = Some (ts 10 0)" "tm_add_assign (ts 10 0) (ts 1 0) = Some (ts 11 0)"
  by (simp_all add: tm_add_assign_def ts_offset_def ck64_def tm_normalize_def normalize_timespec_def norm_idle norm_sign_def)

text \<open>A timer whose thread waits for the initial delay.\<close>

lemma tt_demo_reach:
  "tt_reach (tt_start_cfg 7 1)
     (\<lparr>tt_client = 7, tt_init = ts 10 0, tt_period = ts 1 0, tt_run = True, tt_quit = False, tt_log = []\<rparr>,
      [TtTimed (ts 10 0), TtClient])"
proof -
  let ?s = "tt_ctor 7"
  let ?s1 = "\<lparr>tt_client = 7, tt_init = ts 10 0, tt_period = ts 1 0, tt_run = True, tt_quit = False, tt_log = []\<rparr>"
  note d = tt_ctor_def tt_method_defs tt_outer_def tt_start_cfg_def
  have "tt_reach (tt_start_cfg 7 1) (?s, [TtBegin, TtClient])" by (simp add: tt_start_cfg_def mon_refl)
  from mon_more [OF this mon_quiet [of 0 _ _ "TtGo (ts 0 0)" _ TtIdle ?s]]
  have "tt_reach (tt_start_cfg 7 1) (?s, [TtIdle, TtClient])" by (simp add: d)
  from mon_more [OF this mon_signal [of 1 _ _ "TtStartDelay (ts 10 0) (ts 1 0)" _ TtClient ?s1 0]]
  have "tt_reach (tt_start_cfg 7 1) (?s1, [TtIdleWoken, TtClient])" by (simp add: d)
  from mon_more [OF this mon_quiet [of 0 _ _ "TtGo (ts 0 0)" _ "TtTimed (ts 10 0)" ?s1]]
  show ?thesis by (simp add: tt_outer_def tb_ne_def tm_now_def tt_demo_add)
qed

theorem timer_thread_never_sleeps_through_witness:
  "\<exists>s pcs. tt_reach (tt_start_cfg 7 1) (s, pcs) \<and> pcs ! 0 = TtTimed (ts 10 0) \<and> tt_run s"
  using tt_demo_reach timer_thread_never_sleeps_through [OF tt_demo_reach, of "ts 10 0"] by fastforce

theorem timer_stops_and_fires_once_witness:
  "tt_log (snd (tt_stop ((tt_ctor 7)\<lparr>tt_run := True\<rparr>))) = [] \<and>
   (\<exists>s'. mon_reach tt_thread_ns tt_wake tt_asleep (snd (tt_one_shot (ts 0 0) (tt_ctor 7)), [TtIdleWoken]) (s', [TtIdle]) \<and>
     tt_log s' = [(7, ts 5 0)])"
proof -
  let ?s = "(tt_ctor 7)\<lparr>tt_run := True\<rparr>"
  have 1: "tt_log (snd (tt_stop ?s)) = []" by (simp add: tt_stop_def tt_ctor_def)
  let ?s1 = "snd (tt_one_shot (ts 0 0) (tt_ctor 7))" and ?s2 = "(tt_ctor 7)\<lparr>tt_init := ts 0 0, tt_period := ts 0 0, tt_log := [(7, ts 5 0)]\<rparr>"
  have "mon_reach tt_thread_ns tt_wake tt_asleep (?s1, [TtIdleWoken]) (?s1, [TtIdleWoken])" by (rule mon_refl)
  from mon_more [OF this mon_quiet [of 0 _ _ "TtGo (ts 5 0)" _ TtIdle ?s2]]
  have r: "mon_reach tt_thread_ns tt_wake tt_asleep (?s1, [TtIdleWoken]) (?s2, [TtIdle])"
    by (simp add: tt_thread_ns_def tt_one_shot_def tt_ctor_def tt_outer_def tt_inner_def tt_rest_def tb_ne_def tb_eq_def)
  have "tt_log ?s2 = tt_log (tt_ctor 7) \<or> (\<exists>e. tt_log ?s2 = tt_log (tt_ctor 7) @ [e])"
    using timer_stops_and_fires_once [OF r, of "tt_ctor 7" Signal "ts 0 0"] by (simp add: tt_ctor_def tt_one_shot_def)
  then show ?thesis using 1 r by (intro conjI exI [of _ ?s2]) auto
qed

theorem timer_deadlines_do_not_drift_witness:
  "let s = (tt_ctor 7)\<lparr>tt_run := True, tt_init := ts 10 0, tt_period := ts 1 0\<rparr> in
    \<exists>t' s2. tt_ticks [ts 10 500] (ts 10 0) s = Some (TtTimed t', s2) \<and> ts_ns t' = 11000000000 \<and> tt_log s2 = [(7, ts 10 500)]"
proof -
  let ?s = "(tt_ctor 7)\<lparr>tt_run := True, tt_init := ts 10 0, tt_period := ts 1 0\<rparr>"
  have 1: "tt_outer (ts 0 0) ?s = Some (TtTimed (ts 10 0), ?s)"
    by (simp add: tt_outer_def tt_ctor_def tb_ne_def tm_now_def tt_demo_add)
  obtain pc s2 where 2: "tt_ticks [ts 10 500] (ts 10 0) ?s = Some (pc, s2)"
    by (simp add: tt_inner_def tt_ctor_def tb_eq_def tt_demo_add)
  show ?thesis
    using timer_deadlines_do_not_drift [of ?s, OF _ _ _ _ 1 refl 2] 2
    by (auto simp: tt_ctor_def tb_ne_def ts_ns_def ts_def)
qed

text \<open>The thread does not look at why \<open>wait_until\<close> returned: when a timer is stopped and started again
  before the thread has run, it calls the client at once, here ten seconds early.\<close>

theorem timer_restart_fires_early:
  "\<exists>s. tt_reach (tt_start_cfg 7 1) (s, [TtTimed (ts 11 0), TtClient]) \<and> tt_log s = [(7, ts 0 0)] \<and> tt_init s = ts 10 0"
proof -
  let ?s = "\<lambda>r l. \<lparr>tt_client = 7, tt_init = ts 10 0, tt_period = ts 1 0, tt_run = r, tt_quit = False, tt_log = l\<rparr>"
  have "tt_reach (tt_start_cfg 7 1) (?s True [], [TtTimed (ts 10 0), TtClient])" by (rule tt_demo_reach)
  from mon_more [OF this mon_signal [of 1 _ _ TtStop _ TtClient "?s False []" 0]]
  have "tt_reach (tt_start_cfg 7 1) (?s False [], [TtTimedWoken (ts 10 0), TtClient])" by (simp add: tt_method_defs)
  from mon_more [OF this mon_signal [of 1 _ _ TtStart _ TtClient "?s True []" 1]]
  have "tt_reach (tt_start_cfg 7 1) (?s True [], [TtTimedWoken (ts 10 0), TtClient])" by (simp add: tt_method_defs)
  from mon_more [OF this mon_quiet [of 0 _ _ "TtGo (ts 0 0)" _ "TtTimed (ts 11 0)" "?s True [(7, ts 0 0)]"]]
  have "tt_reach (tt_start_cfg 7 1) (?s True [(7, ts 0 0)], [TtTimed (ts 11 0), TtClient])"
    by (simp add: tt_inner_def tb_eq_def tt_demo_add)
  then show ?thesis by fastforce
qed

text \<open>The client's handler is called with the mutex held, so a handler that calls one of the timer's
  methods blocks for good.\<close>

theorem timer_handler_cannot_use_the_timer:
  "mutex_held t (cv_mutex cv) \<Longrightarrow> guard_ctor \<lparr>lt_acquire = cv_acquire t, lt_release = cv_release t\<rparr> cv = Blocks"
  by (simp add: guard_ctor_def mutex_held_def cv_defs)

end
