(* ===== verification/StateMachine.thy ===== *)
theory StateMachine imports Cfx_Base begin

text \<open>
  \<open>CtrlrFx/StateMachine.h\<close>: hierarchical state machines. A state is its handler, a method
  that takes an event and returns the handler of the super state if it leaves the event to it,
  or null if it is done. The handlers are the client's: \<open>hnd s e m\<close> is what the handler \<open>s\<close>
  makes of event \<open>e\<close> in the object \<open>m\<close>. Handlers may change the object, its current state
  included, and may not return (\<open>None\<close>).
\<close>

record ('st, 'd) machine =
  sm_state :: "'st option"
  sm_obj :: 'd

type_synonym ('st, 'd, 'e) handlers =
  "'st \<Rightarrow> 'e \<Rightarrow> ('st, 'd) machine \<Rightarrow> ('st option \<times> ('st, 'd) machine) option"

definition SIG_ENTER :: int where "SIG_ENTER = -2"
definition SIG_EXIT :: int where "SIG_EXIT = -1"

definition sm_initialize :: "'st option \<Rightarrow> ('st, 'd) machine \<Rightarrow> ('st, 'd) machine" where
  "sm_initialize st m = m\<lparr>sm_state := st\<rparr>"

text \<open>The loop of \<open>dispatch\<close>, from the handler \<open>st\<close> on. A loop that does not end is \<open>None\<close>.\<close>

partial_function (option) sm_loop ::
  "('st, 'd, 'e) handlers \<Rightarrow> 'e \<Rightarrow> 'st option \<Rightarrow> ('st, 'd) machine \<Rightarrow> ('st, 'd) machine option" where
  "sm_loop hnd evt st m =
     (case st of None \<Rightarrow> Some m
      | Some s \<Rightarrow> do { (st', m') \<leftarrow> hnd s evt m; sm_loop hnd evt st' m' })"

definition sm_dispatch :: "('st, 'd, 'e) handlers \<Rightarrow> 'e \<Rightarrow> ('st, 'd) machine \<Rightarrow> ('st, 'd) machine option" where
  "sm_dispatch hnd evt m = sm_loop hnd evt (sm_state m) m"

text \<open>\<open>mk\<close> makes an event of a signal number.\<close>

definition sm_transition ::
  "(int \<Rightarrow> 'e) \<Rightarrow> ('st, 'd, 'e) handlers \<Rightarrow> 'st option \<Rightarrow> ('st, 'd) machine \<Rightarrow> ('st, 'd) machine option" where
  "sm_transition mk hnd st m =
     do { m1 \<leftarrow> sm_dispatch hnd (mk SIG_EXIT) m;
          sm_dispatch hnd (mk SIG_ENTER) (m1\<lparr>sm_state := st\<rparr>) }"

section \<open>Hierarchies\<close>

text \<open>The handlers from \<open>st\<close> up to the top of the hierarchy, one below the other.\<close>

fun sm_chain :: "('st \<Rightarrow> 'st option) \<Rightarrow> 'st option \<Rightarrow> 'st list \<Rightarrow> bool" where
  "sm_chain up st [] \<longleftrightarrow> st = None"
| "sm_chain up st (s # ss) \<longleftrightarrow> st = Some s \<and> sm_chain up (up s) ss"

text \<open>Handlers that belong to a hierarchy: a handler that has an action for the event performs it,
  and one that has none leaves the object alone and names the super state.\<close>

definition sm_handlers ::
  "('st \<Rightarrow> 'st option) \<Rightarrow> ('st \<Rightarrow> 'e \<Rightarrow> (('st, 'd) machine \<Rightarrow> ('st, 'd) machine option) option) \<Rightarrow> ('st, 'd, 'e) handlers" where
  "sm_handlers up act s evt m =
     (case act s evt of None \<Rightarrow> Some (up s, m) | Some f \<Rightarrow> map_option (\<lambda>m'. (None, m')) (f m))"

text \<open>The specification: the action of the nearest state that has one.\<close>

definition sm_nearest ::
  "('st \<Rightarrow> 'e \<Rightarrow> (('st, 'd) machine \<Rightarrow> ('st, 'd) machine option) option) \<Rightarrow> 'st list \<Rightarrow> 'e
    \<Rightarrow> ('st, 'd) machine \<Rightarrow> ('st, 'd) machine option" where
  "sm_nearest act ss evt m =
     (case filter (\<lambda>s. act s evt \<noteq> None) ss of [] \<Rightarrow> Some m | s # _ \<Rightarrow> the (act s evt) m)"

lemma sm_loop_simps [simp]:
  "sm_loop hnd evt None m = Some m"
  "sm_loop hnd evt (Some s) m = do { (st', m') \<leftarrow> hnd s evt m; sm_loop hnd evt st' m' }"
  by (subst sm_loop.simps; simp)+

lemma sm_loop_nearest:
  "sm_chain up st ss \<Longrightarrow> sm_loop (sm_handlers up act) evt st m = sm_nearest act ss evt m"
proof (induction ss arbitrary: st)
  case Nil
  then show ?case by (simp add: sm_nearest_def)
next
  case (Cons s ss)
  have st: "st = Some s" and up: "sm_chain up (up s) ss" using Cons.prems by auto
  show ?case
  proof (cases "act s evt")
    case None
    then have "sm_nearest act (s # ss) evt m = sm_nearest act ss evt m" by (simp add: sm_nearest_def)
    then show ?thesis using None Cons.IH [OF up] by (simp add: st sm_handlers_def)
  next
    case (Some f)
    then show ?thesis by (cases "f m") (simp_all add: st sm_handlers_def sm_nearest_def)
  qed
qed

section \<open>Properties\<close>

text \<open>C38: In a hierarchy of states an event is handled once, by the nearest state from the current one
  upwards that has an action for it, and by none if there is no such state; dispatching ends. A
  transition does this first with the exit signal in the old state, then with the enter signal in
  the new one, which is the current state while its handlers run.\<close>

theorem events_reach_the_nearest_handler:
  assumes "sm_chain up (sm_state m) ss" "sm_chain up st ts"
  shows "sm_dispatch (sm_handlers up act) evt m = sm_nearest act ss evt m \<and>
    sm_transition mk (sm_handlers up act) st m =
      do { m1 \<leftarrow> sm_nearest act ss (mk SIG_EXIT) m; sm_nearest act ts (mk SIG_ENTER) (m1\<lparr>sm_state := st\<rparr>) }"
  using assms by (simp_all add: sm_dispatch_def sm_transition_def sm_loop_nearest cong: Option.bind_cong)

text \<open>Two states, 1 below 0: the exit signal is handled by 1, the enter signal by 0 and event 7 by 0. The
  object records what was handled.\<close>

definition sm_demo_act :: "nat \<Rightarrow> int \<Rightarrow> ((nat, (nat \<times> int) list) machine \<Rightarrow> (nat, (nat \<times> int) list) machine option) option" where
  "sm_demo_act s evt =
     (if s = 1 \<and> evt = SIG_EXIT \<or> s = 0 \<and> evt \<in> {SIG_ENTER, 7}
      then Some (\<lambda>m. Some (m\<lparr>sm_obj := sm_obj m @ [(s, evt)]\<rparr>)) else None)"

theorem events_reach_the_nearest_handler_witness:
  "sm_dispatch (sm_handlers (\<lambda>s. if s = 1 then Some 0 else None) sm_demo_act) 7 \<lparr>sm_state = Some 1, sm_obj = []\<rparr> =
     Some \<lparr>sm_state = Some 1, sm_obj = [(0, 7)]\<rparr> \<and>
   sm_transition id (sm_handlers (\<lambda>s. if s = 1 then Some 0 else None) sm_demo_act) (Some 0) \<lparr>sm_state = Some 1, sm_obj = []\<rparr> =
     Some \<lparr>sm_state = Some 0, sm_obj = [(1, SIG_EXIT), (0, SIG_ENTER)]\<rparr>"
proof -
  let ?up = "\<lambda>s::nat. if s = 1 then Some (0::nat) else None"
  let ?m = "\<lparr>sm_state = Some 1, sm_obj = []\<rparr> :: (nat, (nat \<times> int) list) machine"
  have c: "sm_chain ?up (sm_state ?m) [1, 0]" "sm_chain ?up (Some 0) [0]" by simp_all
  show ?thesis
    using events_reach_the_nearest_handler [OF c, of sm_demo_act 7 id]
    by (simp add: sm_nearest_def sm_demo_act_def SIG_EXIT_def SIG_ENTER_def)
qed

text \<open>A handler that names itself as the super state keeps \<open>dispatch\<close> from returning.\<close>

lemma sm_loop_cycle:
  assumes "\<And>evt m. hnd s evt m = Some (Some s, m)"
  shows "sm_loop hnd evt (Some s) m = None"
proof (rule ccontr)
  assume "sm_loop hnd evt (Some s) m \<noteq> None"
  then obtain r where r: "sm_loop hnd evt (Some s) m = Some r" by blast
  let ?P = "\<lambda>hnd evt st m r. \<not> (st = Some s \<and> (\<forall>evt m. hnd s evt m = Some (Some s, m)))"
  have "?P hnd evt (Some s) m r"
  proof (rule sm_loop.raw_induct [where P = ?P, OF _ r], goal_cases)
    case (1 loop hnd evt st m r)
    show ?case
    proof
      assume a: "st = Some s \<and> (\<forall>evt m. hnd s evt m = Some (Some s, m))"
      then have "loop hnd evt (Some s) m = Some r" using 1(2) by simp
      then show False using 1(1) a by blast
    qed
  qed
  then show False using assms by blast
qed

theorem dispatch_cycle_never_returns:
  "sm_dispatch (\<lambda>s evt m. Some (Some s, m)) evt \<lparr>sm_state = Some s, sm_obj = d\<rparr> = None"
  by (simp add: sm_dispatch_def sm_loop_cycle del: sm_loop_simps)

end
