(* ===== verification/MsgQueueSteps.thy ===== *)
theory MsgQueueSteps imports MsgQueue begin

text \<open>
  \<open>CtrlrFx/MsgQueue.h\<close> with any number of threads. Each thread is at a point of one of the
  operations; a step executes one statement of one thread: an operation on a semaphore or on
  the lock, or one access to the members or to the buffer. The two histories record the items
  in the order they are stored and read.
\<close>

section \<open>Program points\<close>

datatype 'a mq_result = RPut bool | RGot "'a option" | RNum int

datatype 'a mq_pc =
    PcIdle
  | PutAcq 'a | PutAcqFor 'a | PutTryAcq 'a
  | PutLock 'a | PutStore 'a | PutNext | PutIncr | PutUnlock | PutPost
  | GetAcq | GetAcqFor | GetTryAcq
  | GetLock | GetRead | GetNext 'a | GetDecr 'a | GetUnlock 'a | GetPost 'a
  | PeekTest | PeekLock | PeekTest2 | PeekRead | PeekUnlock "'a option"
  | SizeLock | SizeRead | SizeUnlock int
  | PcDone "'a mq_result"

datatype 'a mq_call =
    CallPut 'a | CallPutFor 'a | CallTryput 'a
  | CallGet | CallGetFor | CallTryget | CallPeek | CallSize

fun mq_entry :: "'a mq_call \<Rightarrow> 'a mq_pc" where
  "mq_entry (CallPut v) = PutAcq v"
| "mq_entry (CallPutFor v) = PutAcqFor v"
| "mq_entry (CallTryput v) = PutTryAcq v"
| "mq_entry CallGet = GetAcq"
| "mq_entry CallGetFor = GetAcqFor"
| "mq_entry CallTryget = GetTryAcq"
| "mq_entry CallPeek = PeekTest"
| "mq_entry CallSize = SizeLock"

text \<open>One statement of thread \<open>t\<close>. A timed wait may time out whenever there is no token.\<close>

fun mq_thread :: "nat \<Rightarrow> 'a mq_pc \<Rightarrow> mutex mq \<Rightarrow> 'a mem \<Rightarrow> ('a mq_pc \<times> mutex mq \<times> 'a mem) run" where
  "mq_thread t (PutAcq v) q m =
     run_then (sema_acquire (mq_slot q)) (\<lambda>s. Ret (PutLock v, q\<lparr>mq_slot := s\<rparr>, m))"
| "mq_thread t (PutAcqFor v) q m =
     run_then (sema_acquire_for (mq_slot q)) (\<lambda>(b, s).
       Ret (if b then PutLock v else PcDone (RPut False), q\<lparr>mq_slot := s\<rparr>, m))"
| "mq_thread t (PutTryAcq v) q m =
     run_then (sema_tryacquire (mq_slot q)) (\<lambda>(b, s).
       Ret (if b then PutLock v else PcDone (RPut False), q\<lparr>mq_slot := s\<rparr>, m))"
| "mq_thread t (PutLock v) q m =
     run_then (mutex_acquire t (mq_lock q)) (\<lambda>l. Ret (PutStore v, q\<lparr>mq_lock := l\<rparr>, m))"
| "mq_thread t (PutStore v) q m =
     run_then (run_opt (wr m (mq_putp q) v)) (\<lambda>m'. Ret (PutNext, q, m'))"
| "mq_thread t PutNext q m = Ret (PutIncr, q\<lparr>mq_putp := mq_next q (mq_putp q)\<rparr>, m)"
| "mq_thread t PutIncr q m = Ret (PutUnlock, q\<lparr>mq_sz := u64 (mq_sz q + 1)\<rparr>, m)"
| "mq_thread t PutUnlock q m =
     run_then (mutex_release t (mq_lock q)) (\<lambda>l. Ret (PutPost, q\<lparr>mq_lock := l\<rparr>, m))"
| "mq_thread t PutPost q m =
     run_then (sema_post (mq_data q)) (\<lambda>d. Ret (PcDone (RPut True), q\<lparr>mq_data := d\<rparr>, m))"
| "mq_thread t GetAcq q m =
     run_then (sema_acquire (mq_data q)) (\<lambda>d. Ret (GetLock, q\<lparr>mq_data := d\<rparr>, m))"
| "mq_thread t GetAcqFor q m =
     run_then (sema_acquire_for (mq_data q)) (\<lambda>(b, d).
       Ret (if b then GetLock else PcDone (RGot None), q\<lparr>mq_data := d\<rparr>, m))"
| "mq_thread t GetTryAcq q m =
     run_then (sema_tryacquire (mq_data q)) (\<lambda>(b, d).
       Ret (if b then GetLock else PcDone (RGot None), q\<lparr>mq_data := d\<rparr>, m))"
| "mq_thread t GetLock q m =
     run_then (mutex_acquire t (mq_lock q)) (\<lambda>l. Ret (GetRead, q\<lparr>mq_lock := l\<rparr>, m))"
| "mq_thread t GetRead q m = run_then (run_opt (rd m (mq_getp q))) (\<lambda>x. Ret (GetNext x, q, m))"
| "mq_thread t (GetNext x) q m = Ret (GetDecr x, q\<lparr>mq_getp := mq_next q (mq_getp q)\<rparr>, m)"
| "mq_thread t (GetDecr x) q m = Ret (GetUnlock x, q\<lparr>mq_sz := u64 (mq_sz q - 1)\<rparr>, m)"
| "mq_thread t (GetUnlock x) q m =
     run_then (mutex_release t (mq_lock q)) (\<lambda>l. Ret (GetPost x, q\<lparr>mq_lock := l\<rparr>, m))"
| "mq_thread t (GetPost x) q m =
     run_then (sema_post (mq_slot q)) (\<lambda>s. Ret (PcDone (RGot (Some x)), q\<lparr>mq_slot := s\<rparr>, m))"
| "mq_thread t PeekTest q m = Ret (if mq_sz q \<noteq> 0 then PeekLock else PcDone (RGot None), q, m)"
| "mq_thread t PeekLock q m =
     run_then (mutex_acquire t (mq_lock q)) (\<lambda>l. Ret (PeekTest2, q\<lparr>mq_lock := l\<rparr>, m))"
| "mq_thread t PeekTest2 q m = Ret (if mq_sz q \<noteq> 0 then PeekRead else PeekUnlock None, q, m)"
| "mq_thread t PeekRead q m = run_then (run_opt (rd m (mq_getp q))) (\<lambda>x. Ret (PeekUnlock (Some x), q, m))"
| "mq_thread t (PeekUnlock r) q m =
     run_then (mutex_release t (mq_lock q)) (\<lambda>l. Ret (PcDone (RGot r), q\<lparr>mq_lock := l\<rparr>, m))"
| "mq_thread t SizeLock q m =
     run_then (mutex_acquire t (mq_lock q)) (\<lambda>l. Ret (SizeRead, q\<lparr>mq_lock := l\<rparr>, m))"
| "mq_thread t SizeRead q m = Ret (SizeUnlock (mq_sz q), q, m)"
| "mq_thread t (SizeUnlock n) q m =
     run_then (mutex_release t (mq_lock q)) (\<lambda>l. Ret (PcDone (RNum n), q\<lparr>mq_lock := l\<rparr>, m))"
| "mq_thread t PcIdle q m = Blocks"
| "mq_thread t (PcDone r) q m = Blocks"

section \<open>Interleaving\<close>

record 'a mqs =
  qs_q :: "mutex mq"
  qs_mem :: "'a mem"
  qs_pcs :: "'a mq_pc list"
  qs_in :: "'a list"
  qs_out :: "'a list"

fun stored :: "'a mq_pc \<Rightarrow> 'a list" where
  "stored (PutStore v) = [v]"
| "stored _ = []"

fun taken :: "'a mq_pc \<Rightarrow> 'a list" where
  "taken (GetNext x) = [x]"
| "taken _ = []"

fun at_rest :: "'a mq_pc \<Rightarrow> bool" where
  "at_rest PcIdle = True"
| "at_rest (PcDone r) = True"
| "at_rest _ = False"

definition mq_thread_st :: "nat \<Rightarrow> 'a mqs \<Rightarrow> 'a mqs run" where
  "mq_thread_st t s =
     run_then (mq_thread t (qs_pcs s ! t) (qs_q s) (qs_mem s)) (\<lambda>(pc', q', m').
       Ret \<lparr>qs_q = q', qs_mem = m', qs_pcs = (qs_pcs s)[t := pc'],
            qs_in = qs_in s @ stored (qs_pcs s ! t), qs_out = qs_out s @ taken pc'\<rparr>)"

inductive mq_step :: "'a mqs \<Rightarrow> 'a mqs \<Rightarrow> bool" where
  step_call: "t < length (qs_pcs s) \<Longrightarrow> at_rest (qs_pcs s ! t) \<Longrightarrow>
     mq_step s (s\<lparr>qs_pcs := (qs_pcs s)[t := mq_entry c]\<rparr>)"
| step_run: "t < length (qs_pcs s) \<Longrightarrow> mq_thread_st t s = Ret s' \<Longrightarrow> mq_step s s'"

inductive mq_reach :: "'a mqs \<Rightarrow> 'a mqs \<Rightarrow> bool" where
  reach_refl: "mq_reach s s"
| reach_step: "mq_reach s s' \<Longrightarrow> mq_step s' s'' \<Longrightarrow> mq_reach s s''"

text \<open>\<open>n\<close> threads at rest on an empty queue.\<close>

definition mqs_init :: "mutex mq \<Rightarrow> 'a mem \<Rightarrow> nat \<Rightarrow> 'a mqs" where
  "mqs_init q m n = \<lparr>qs_q = q, qs_mem = m, qs_pcs = replicate n PcIdle, qs_in = [], qs_out = []\<rparr>"

section \<open>Where threads are\<close>

fun in_section :: "'a mq_pc \<Rightarrow> bool" where
  "in_section (PutStore v) = True"
| "in_section PutNext = True"
| "in_section PutIncr = True"
| "in_section PutUnlock = True"
| "in_section GetRead = True"
| "in_section (GetNext x) = True"
| "in_section (GetDecr x) = True"
| "in_section (GetUnlock x) = True"
| "in_section PeekTest2 = True"
| "in_section PeekRead = True"
| "in_section (PeekUnlock r) = True"
| "in_section SizeRead = True"
| "in_section (SizeUnlock n) = True"
| "in_section _ = False"

text \<open>Holding a slot token without having stored; having read without having given it back.\<close>

fun has_slot :: "'a mq_pc \<Rightarrow> bool" where
  "has_slot (PutLock v) = True"
| "has_slot (PutStore v) = True"
| "has_slot _ = False"

fun owes_slot :: "'a mq_pc \<Rightarrow> bool" where
  "owes_slot (GetNext x) = True"
| "owes_slot (GetDecr x) = True"
| "owes_slot (GetUnlock x) = True"
| "owes_slot (GetPost x) = True"
| "owes_slot _ = False"

fun has_data :: "'a mq_pc \<Rightarrow> bool" where
  "has_data GetLock = True"
| "has_data GetRead = True"
| "has_data _ = False"

fun owes_data :: "'a mq_pc \<Rightarrow> bool" where
  "owes_data PutNext = True"
| "owes_data PutIncr = True"
| "owes_data PutUnlock = True"
| "owes_data PutPost = True"
| "owes_data _ = False"

text \<open>Where the members lag behind the histories.\<close>

fun at_put_next :: "'a mq_pc \<Rightarrow> bool" where
  "at_put_next PutNext = True"
| "at_put_next _ = False"

fun at_get_next :: "'a mq_pc \<Rightarrow> bool" where
  "at_get_next (GetNext x) = True"
| "at_get_next _ = False"

fun owes_incr :: "'a mq_pc \<Rightarrow> bool" where
  "owes_incr PutNext = True"
| "owes_incr PutIncr = True"
| "owes_incr _ = False"

fun owes_decr :: "'a mq_pc \<Rightarrow> bool" where
  "owes_decr (GetNext x) = True"
| "owes_decr (GetDecr x) = True"
| "owes_decr _ = False"

section \<open>Invariant\<close>

text \<open>The number of cells, and the items stored and taken so far.\<close>

abbreviation qs_cap :: "'a mqs \<Rightarrow> int" where "qs_cap s \<equiv> mq_end (qs_q s) - mq_buf (qs_q s)"
abbreviation qs_n_in :: "'a mqs \<Rightarrow> int" where "qs_n_in s \<equiv> int (length (qs_in s))"
abbreviation qs_n_out :: "'a mqs \<Rightarrow> int" where "qs_n_out s \<equiv> int (length (qs_out s))"

definition lock_inv :: "'a mqs \<Rightarrow> bool" where
  "lock_inv s \<longleftrightarrow> mx_alive (mq_lock (qs_q s)) \<and>
     cntp in_section (qs_pcs s) = ind (mx_holder (mq_lock (qs_q s)) \<noteq> None) \<and>
     (\<forall>t < length (qs_pcs s). in_section (qs_pcs s ! t) \<longrightarrow> mx_holder (mq_lock (qs_q s)) = Some t)"

definition token_inv :: "'a mqs \<Rightarrow> bool" where
  "token_inv s \<longleftrightarrow> sm_err (mq_slot (qs_q s)) = 0 \<and> sm_err (mq_data (qs_q s)) = 0 \<and>
     0 \<le> sm_cnt (mq_slot (qs_q s)) \<and> 0 \<le> sm_cnt (mq_data (qs_q s)) \<and>
     sm_cnt (mq_slot (qs_q s)) + cntp has_slot (qs_pcs s) + cntp owes_slot (qs_pcs s)
       + (qs_n_in s - qs_n_out s) = qs_cap s \<and>
     sm_cnt (mq_data (qs_q s)) + cntp has_data (qs_pcs s) + cntp owes_data (qs_pcs s) = qs_n_in s - qs_n_out s"

definition ring_inv :: "'a mqs \<Rightarrow> bool" where
  "ring_inv s \<longleftrightarrow> 0 < qs_cap s \<and> qs_cap s \<le> 2147483647 \<and>
     live_range (qs_mem s) (mq_buf (qs_q s)) (qs_cap s) \<and>
     mq_putp (qs_q s) = mq_buf (qs_q s) + (qs_n_in s - cntp at_put_next (qs_pcs s)) mod qs_cap s \<and>
     mq_getp (qs_q s) = mq_buf (qs_q s) + (qs_n_out s - cntp at_get_next (qs_pcs s)) mod qs_cap s \<and>
     mq_sz (qs_q s) = qs_n_in s - qs_n_out s - cntp owes_incr (qs_pcs s) + cntp owes_decr (qs_pcs s)"

definition fifo_inv :: "'a mqs \<Rightarrow> bool" where
  "fifo_inv s \<longleftrightarrow> qs_out s = take (length (qs_out s)) (qs_in s) \<and>
     (\<forall>i. length (qs_out s) \<le> i \<and> i < length (qs_in s) \<longrightarrow>
        m_val (qs_mem s) (mq_buf (qs_q s) + int i mod qs_cap s) = qs_in s ! i)"

definition mqs_inv :: "'a mqs \<Rightarrow> bool" where
  "mqs_inv s \<longleftrightarrow> lock_inv s \<and> token_inv s \<and> ring_inv s \<and> fifo_inv s"

section \<open>Every step preserves the invariant\<close>

lemma run_then_Ret_E:
  assumes "run_then r f = Ret y"
  obtains x where "r = Ret x" "f x = Ret y"
  using assms by (cases r) auto

lemmas mutex_ops_defs = mutex_acquire_def mutex_lock_def mutex_release_def mutex_unlock_def

text \<open>What one statement does, class by class: these are the books the invariant keeps.\<close>

lemma mq_thread_frame:
  "mq_thread t pc q m = Ret (pc', q', m') \<Longrightarrow> mq_buf q' = mq_buf q \<and> mq_end q' = mq_end q \<and> m_live m' = m_live m"
  by (cases pc) (auto simp: run_then_Ret_iff wr_def run_opt_def split: option.splits if_splits)

lemma mq_next_mod:
  assumes "p = mq_buf q + x mod (mq_end q - mq_buf q)" and "mq_buf q < mq_end q"
  shows "mq_next q p = mq_buf q + (x + 1) mod (mq_end q - mq_buf q)"
proof -
  define r where "r = x mod (mq_end q - mq_buf q)"
  have "0 \<le> r" "r < mq_end q - mq_buf q" using assms(2) by (simp_all add: r_def)
  then have "mq_next q p = mq_buf q + (p - mq_buf q + 1) mod (mq_end q - mq_buf q)"
    using assms(1) by (intro mq_next_ring) (simp_all add: r_def [symmetric])
  then show ?thesis using assms(1) by (simp add: mod_simps)
qed

lemma mq_thread_holder:
  assumes "mq_thread t pc q m = Ret (pc', q', m')" and "mx_alive (mq_lock q)"
    and "in_section pc \<Longrightarrow> mx_holder (mq_lock q) = Some t"
  shows "mx_alive (mq_lock q') \<and>
    (if in_section pc = in_section pc' then mx_holder (mq_lock q') = mx_holder (mq_lock q)
     else if in_section pc' then mx_holder (mq_lock q) = None \<and> mx_holder (mq_lock q') = Some t
     else mx_holder (mq_lock q) = Some t \<and> mx_holder (mq_lock q') = None)"
  using assms by (cases pc) (auto simp: run_then_Ret_iff mutex_ops_defs split: if_splits)

lemma mq_thread_slots:
  assumes "mq_thread t pc q m = Ret (pc', q', m')" and "0 \<le> sm_cnt (mq_slot q)"
    and "owes_slot pc \<Longrightarrow> sm_cnt (mq_slot q) < 2147483647"
  shows "0 \<le> sm_cnt (mq_slot q') \<and> sm_err (mq_slot q') = sm_err (mq_slot q) \<and>
    sm_cnt (mq_slot q') + ind (has_slot pc') + ind (owes_slot pc') + int (length (stored pc))
    = sm_cnt (mq_slot q) + ind (has_slot pc) + ind (owes_slot pc) + int (length (taken pc'))"
  using assms by (cases pc) (auto simp: run_then_Ret_iff sema_defs split: if_splits)

lemma mq_thread_data:
  assumes "mq_thread t pc q m = Ret (pc', q', m')" and "0 \<le> sm_cnt (mq_data q)"
    and "owes_data pc \<Longrightarrow> sm_cnt (mq_data q) < 2147483647"
  shows "0 \<le> sm_cnt (mq_data q') \<and> sm_err (mq_data q') = sm_err (mq_data q) \<and>
    sm_cnt (mq_data q') + ind (has_data pc') + ind (owes_data pc') + int (length (taken pc'))
    = sm_cnt (mq_data q) + ind (has_data pc) + ind (owes_data pc) + int (length (stored pc))"
  using assms by (cases pc) (auto simp: run_then_Ret_iff sema_defs split: if_splits)

lemma mq_thread_putp:
  assumes "mq_thread t pc q m = Ret (pc', q', m')"
    and "mq_putp q = mq_buf q + x mod (mq_end q - mq_buf q)" and "mq_buf q < mq_end q"
  shows "mq_putp q' = mq_buf q + (x + int (length (stored pc)) - ind (at_put_next pc') + ind (at_put_next pc))
    mod (mq_end q - mq_buf q)"
proof -
  have "mq_next q (mq_putp q) = mq_buf q + (x + 1) mod (mq_end q - mq_buf q)"
    by (rule mq_next_mod [OF assms(2,3)])
  then show ?thesis using assms(1,2) by (cases pc) (auto simp: run_then_Ret_iff split: if_splits)
qed

lemma mq_thread_getp:
  assumes "mq_thread t pc q m = Ret (pc', q', m')"
    and "mq_getp q = mq_buf q + x mod (mq_end q - mq_buf q)" and "mq_buf q < mq_end q"
  shows "mq_getp q' = mq_buf q + (x + int (length (taken pc')) - ind (at_get_next pc') + ind (at_get_next pc))
    mod (mq_end q - mq_buf q)"
proof -
  have "mq_next q (mq_getp q) = mq_buf q + (x + 1) mod (mq_end q - mq_buf q)"
    by (rule mq_next_mod [OF assms(2,3)])
  then show ?thesis using assms(1,2) by (cases pc) (auto simp: run_then_Ret_iff split: if_splits)
qed

lemma mq_thread_size:
  assumes "mq_thread t pc q m = Ret (pc', q', m')"
    and "pc = PutIncr \<Longrightarrow> 0 \<le> mq_sz q + 1 \<and> mq_sz q + 1 < 2 ^ 64"
    and "owes_decr pc \<Longrightarrow> 0 \<le> mq_sz q - 1 \<and> mq_sz q - 1 < 2 ^ 64"
  shows "mq_sz q' = mq_sz q + int (length (stored pc)) - int (length (taken pc'))
    - ind (owes_incr pc') + ind (owes_incr pc) + ind (owes_decr pc') - ind (owes_decr pc)"
  using assms by (cases pc) (auto simp: run_then_Ret_iff split: if_splits)

text \<open>Each part of the invariant follows by adding up.\<close>

lemma mq_thread_stE:
  assumes "mq_thread_st t s = Ret s'"
  obtains pc' q' m' where "mq_thread t (qs_pcs s ! t) (qs_q s) (qs_mem s) = Ret (pc', q', m')"
    and "s' = \<lparr>qs_q = q', qs_mem = m', qs_pcs = (qs_pcs s)[t := pc'],
      qs_in = qs_in s @ stored (qs_pcs s ! t), qs_out = qs_out s @ taken pc'\<rparr>"
  using assms by (auto simp: mq_thread_st_def run_then_Ret_iff)

lemma step_lock_inv:
  assumes step: "mq_thread_st t s = Ret s'" and t: "t < length (qs_pcs s)" and inv: "lock_inv s"
  shows "lock_inv s'"
proof -
  obtain pc' q' m' where th: "mq_thread t (qs_pcs s ! t) (qs_q s) (qs_mem s) = Ret (pc', q', m')"
    and s': "s' = \<lparr>qs_q = q', qs_mem = m', qs_pcs = (qs_pcs s)[t := pc'],
      qs_in = qs_in s @ stored (qs_pcs s ! t), qs_out = qs_out s @ taken pc'\<rparr>"
    using mq_thread_stE [OF step] by blast
  have h: "mx_alive (mq_lock q') \<and>
    (if in_section (qs_pcs s ! t) = in_section pc' then mx_holder (mq_lock q') = mx_holder (mq_lock (qs_q s))
     else if in_section pc' then mx_holder (mq_lock (qs_q s)) = None \<and> mx_holder (mq_lock q') = Some t
     else mx_holder (mq_lock (qs_q s)) = Some t \<and> mx_holder (mq_lock q') = None)"
    using mq_thread_holder [OF th] inv t by (simp add: lock_inv_def)
  show ?thesis
    using h inv t unfolding s' lock_inv_def
    by (auto simp: cntp_upd nth_list_update split: if_splits)
qed

lemma step_token_inv:
  assumes step: "mq_thread_st t s = Ret s'" and t: "t < length (qs_pcs s)" and inv: "token_inv s"
    and cap: "qs_cap s \<le> 2147483647"
  shows "token_inv s'"
proof -
  obtain pc' q' m' where th: "mq_thread t (qs_pcs s ! t) (qs_q s) (qs_mem s) = Ret (pc', q', m')"
    and s': "s' = \<lparr>qs_q = q', qs_mem = m', qs_pcs = (qs_pcs s)[t := pc'],
      qs_in = qs_in s @ stored (qs_pcs s ! t), qs_out = qs_out s @ taken pc'\<rparr>"
    using mq_thread_stE [OF step] by blast
  note i = inv [unfolded token_inv_def]
  have "sm_cnt (mq_slot (qs_q s)) < 2147483647" if "owes_slot (qs_pcs s ! t)"
    using cntp_pos [where P = owes_slot, OF t that] i cap cntp_nonneg [of has_slot "qs_pcs s"]
      cntp_nonneg [of has_data "qs_pcs s"] cntp_nonneg [of owes_data "qs_pcs s"] by linarith
  from mq_thread_slots [OF th _ this] i
  have slots: "0 \<le> sm_cnt (mq_slot q') \<and> sm_err (mq_slot q') = 0 \<and>
    sm_cnt (mq_slot q') + ind (has_slot pc') + ind (owes_slot pc') + int (length (stored (qs_pcs s ! t)))
    = sm_cnt (mq_slot (qs_q s)) + ind (has_slot (qs_pcs s ! t)) + ind (owes_slot (qs_pcs s ! t)) + int (length (taken pc'))"
    by simp
  have "sm_cnt (mq_data (qs_q s)) < 2147483647" if "owes_data (qs_pcs s ! t)"
    using cntp_pos [where P = owes_data, OF t that] i cap cntp_nonneg [of has_slot "qs_pcs s"]
      cntp_nonneg [of owes_slot "qs_pcs s"] cntp_nonneg [of has_data "qs_pcs s"] by linarith
  from mq_thread_data [OF th _ this] i
  have data: "0 \<le> sm_cnt (mq_data q') \<and> sm_err (mq_data q') = 0 \<and>
    sm_cnt (mq_data q') + ind (has_data pc') + ind (owes_data pc') + int (length (taken pc'))
    = sm_cnt (mq_data (qs_q s)) + ind (has_data (qs_pcs s ! t)) + ind (owes_data (qs_pcs s ! t)) + int (length (stored (qs_pcs s ! t)))"
    by simp
  have cap': "mq_end q' - mq_buf q' = qs_cap s" using mq_thread_frame [OF th] by simp
  note upd = cntp_upd [OF t, of _ pc']
  show ?thesis
    unfolding s' token_inv_def mqs.simps upd cap' length_append of_nat_add
    using slots data i by linarith
qed

lemma step_ring_inv:
  assumes step: "mq_thread_st t s = Ret s'" and t: "t < length (qs_pcs s)" and inv: "ring_inv s" and tok: "token_inv s"
  shows "ring_inv s'"
proof -
  obtain pc' q' m' where th: "mq_thread t (qs_pcs s ! t) (qs_q s) (qs_mem s) = Ret (pc', q', m')"
    and s': "s' = \<lparr>qs_q = q', qs_mem = m', qs_pcs = (qs_pcs s)[t := pc'],
      qs_in = qs_in s @ stored (qs_pcs s ! t), qs_out = qs_out s @ taken pc'\<rparr>"
    using mq_thread_stE [OF step] by blast
  note i = inv [unfolded ring_inv_def]
  note k = tok [unfolded token_inv_def]
  have buf: "mq_buf (qs_q s) < mq_end (qs_q s)" using i by simp
  note upd = cntp_upd [OF t, of _ pc']
  have cap': "mq_end q' = mq_end (qs_q s)" "mq_buf q' = mq_buf (qs_q s)" "m_live m' = m_live (qs_mem s)"
    using mq_thread_frame [OF th] by simp_all
  have sub: "cntp owes_incr (qs_pcs s) \<le> cntp owes_data (qs_pcs s)" "cntp owes_decr (qs_pcs s) \<le> cntp owes_slot (qs_pcs s)"
    using cntp_mono by (metis owes_incr.elims(2) owes_data.simps(1,2), metis owes_decr.elims(2) owes_slot.simps(1,2))
  note nn = cntp_nonneg [of _ "qs_pcs s"]
  have sz: "0 \<le> mq_sz (qs_q s)" "mq_sz (qs_q s) \<le> 4294967294"
    using i k sub nn [of has_data] nn [of has_slot] nn [of owes_slot] nn [of owes_decr] nn [of owes_incr] by linarith+
  then have incr: "0 \<le> mq_sz (qs_q s) + 1 \<and> mq_sz (qs_q s) + 1 < 2 ^ 64" by simp
  have decr: "0 \<le> mq_sz (qs_q s) - 1 \<and> mq_sz (qs_q s) - 1 < 2 ^ 64" if "owes_decr (qs_pcs s ! t)"
  proof -
    have "1 \<le> mq_sz (qs_q s)"
      using cntp_pos [where P = owes_decr, OF t that] i k sub nn [of has_data] by linarith
    then show ?thesis using sz by simp
  qed
  have "mq_putp q' = mq_buf (qs_q s) + ((qs_n_in s - cntp at_put_next (qs_pcs s)) + int (length (stored (qs_pcs s ! t)))
      - ind (at_put_next pc') + ind (at_put_next (qs_pcs s ! t))) mod qs_cap s"
    by (rule mq_thread_putp [OF th _ buf]) (use i in simp)
  moreover have "mq_getp q' = mq_buf (qs_q s) + ((qs_n_out s - cntp at_get_next (qs_pcs s)) + int (length (taken pc'))
      - ind (at_get_next pc') + ind (at_get_next (qs_pcs s ! t))) mod qs_cap s"
    by (rule mq_thread_getp [OF th _ buf]) (use i in simp)
  moreover have "mq_sz q' = mq_sz (qs_q s) + int (length (stored (qs_pcs s ! t))) - int (length (taken pc'))
    - ind (owes_incr pc') + ind (owes_incr (qs_pcs s ! t)) + ind (owes_decr pc') - ind (owes_decr (qs_pcs s ! t))"
    by (rule mq_thread_size [OF th incr decr])
  moreover have "live_range m' (mq_buf (qs_q s)) (qs_cap s)" using i cap' by (simp add: live_range_def)
  ultimately show ?thesis
    unfolding s' ring_inv_def mqs.simps upd cap' length_append of_nat_add using i
    by (simp add: algebra_simps)
qed

lemma mq_thread_mem:
  "mq_thread t pc q m = Ret (pc', q', m') \<Longrightarrow>
   m_val m' = (case pc of PutStore v \<Rightarrow> (m_val m)(mq_putp q := v) | _ \<Rightarrow> m_val m)"
  by (cases pc) (auto simp: run_then_Ret_iff wr_def run_opt_def split: option.splits if_splits)

lemma mq_thread_taken:
  "mq_thread t pc q m = Ret (pc', q', m') \<Longrightarrow> pc = GetRead \<and> taken pc' = [m_val m (mq_getp q)] \<or> taken pc' = []"
  by (cases pc) (auto simp: run_then_Ret_iff rd_def run_opt_def split: option.splits if_splits)

lemma one_in_section:
  assumes "lock_inv s" and "t < length (qs_pcs s)" and "in_section (qs_pcs s ! t)"
    and "\<And>pc. P pc \<Longrightarrow> in_section pc" and "\<not> P (qs_pcs s ! t)"
  shows "cntp P (qs_pcs s) = 0"
proof (rule ccontr)
  assume "cntp P (qs_pcs s) \<noteq> 0"
  then obtain u where u: "u < length (qs_pcs s)" "P (qs_pcs s ! u)"
    using cntp_some [of P "qs_pcs s"] cntp_nonneg [of P "qs_pcs s"] by force
  then have "mx_holder (mq_lock (qs_q s)) = Some u" using assms(1,4) by (simp add: lock_inv_def)
  moreover have "mx_holder (mq_lock (qs_q s)) = Some t" using assms(1-3) by (simp add: lock_inv_def)
  ultimately show False using u assms(5) by simp
qed

lemma step_fifo_inv:
  assumes step: "mq_thread_st t s = Ret s'" and t: "t < length (qs_pcs s)" and inv: "fifo_inv s"
    and lock: "lock_inv s" and tok: "token_inv s" and ring: "ring_inv s"
  shows "fifo_inv s'"
proof -
  let ?pc = "qs_pcs s ! t" and ?b = "mq_buf (qs_q s)"
  obtain pc' q' m' where th: "mq_thread t ?pc (qs_q s) (qs_mem s) = Ret (pc', q', m')"
    and s': "s' = \<lparr>qs_q = q', qs_mem = m', qs_pcs = (qs_pcs s)[t := pc'],
      qs_in = qs_in s @ stored ?pc, qs_out = qs_out s @ taken pc'\<rparr>"
    using mq_thread_stE [OF step] by blast
  note f = inv [unfolded fifo_inv_def] and k = tok [unfolded token_inv_def] and r = ring [unfolded ring_inv_def]
  note fr = mq_thread_frame [OF th]
  have mem: "m_val m' = (case ?pc of PutStore v \<Rightarrow> (m_val (qs_mem s))(mq_putp (qs_q s) := v) | _ \<Rightarrow> m_val (qs_mem s))"
    by (rule mq_thread_mem [OF th])
  note nn = cntp_nonneg [of _ "qs_pcs s"]
  have le: "length (qs_out s) \<le> length (qs_in s)" "qs_n_in s - qs_n_out s \<le> qs_cap s"
    using k nn [of has_data] nn [of owes_data] nn [of has_slot] nn [of owes_slot] by linarith+
  consider (store) v where "?pc = PutStore v" | (read) "?pc = GetRead" | (other) "stored ?pc = []" "?pc \<noteq> GetRead"
    by (cases ?pc) auto
  then show ?thesis
  proof cases
    case store
    then have tk: "taken pc' = []" using mq_thread_taken [OF th] by auto
    have "in_section ?pc" "\<not> at_put_next ?pc" "has_slot ?pc" using store by simp_all
    moreover have "at_put_next pc \<Longrightarrow> in_section pc" for pc :: "'a mq_pc" by (cases pc) simp_all
    ultimately have z: "cntp at_put_next (qs_pcs s) = 0" "1 \<le> cntp has_slot (qs_pcs s)"
      using one_in_section [OF lock t] cntp_pos [OF t] by blast+
    have room: "qs_n_in s - qs_n_out s < qs_cap s" using k z(2) nn [of owes_slot] by linarith
    have putp: "mq_putp (qs_q s) = ?b + qs_n_in s mod qs_cap s" using r z(1) by simp
    have "int i mod qs_cap s \<noteq> qs_n_in s mod qs_cap s" if "length (qs_out s) \<le> i" "i < length (qs_in s)" for i
      using ring_mod_inj [of 0 "qs_cap s" "qs_n_in s - int i" "int i"] that room by auto
    then show ?thesis
      using f le putp mem fr unfolding s' fifo_inv_def by (simp add: store tk nth_append less_Suc_eq)
  next
    case read
    have st: "stored ?pc = []" using read by simp
    have "in_section ?pc" "\<not> at_get_next ?pc" "has_data ?pc" using read by simp_all
    moreover have "at_get_next pc \<Longrightarrow> in_section pc" for pc :: "'a mq_pc" by (cases pc) simp_all
    ultimately have z: "cntp at_get_next (qs_pcs s) = 0" "1 \<le> cntp has_data (qs_pcs s)"
      using one_in_section [OF lock t] cntp_pos [OF t] by blast+
    have "qs_n_out s < qs_n_in s" using k z(2) nn [of owes_data] by linarith
    then have lt: "length (qs_out s) < length (qs_in s)" by simp
    have "mq_getp (qs_q s) = ?b + qs_n_out s mod qs_cap s" using r z(1) by simp
    then have "m_val (qs_mem s) (mq_getp (qs_q s)) = qs_in s ! length (qs_out s)" using f lt by simp
    then have "taken pc' = [qs_in s ! length (qs_out s)] \<or> taken pc' = []" using mq_thread_taken [OF th] by auto
    then show ?thesis
      using f lt mem fr st unfolding s' fifo_inv_def
      by (auto simp: read take_Suc_conv_app_nth)
  next
    case other
    then have "taken pc' = []" using mq_thread_taken [OF th] by auto
    moreover have "m_val m' = m_val (qs_mem s)" using mem other by (cases ?pc) simp_all
    ultimately show ?thesis using f fr other unfolding s' fifo_inv_def by simp
  qed
qed

lemma step_call_inv:
  assumes t: "t < length (qs_pcs s)" and rest: "at_rest (qs_pcs s ! t)" and inv: "mqs_inv s"
  shows "mqs_inv (s\<lparr>qs_pcs := (qs_pcs s)[t := mq_entry c]\<rparr>)"
proof -
  have same: "cntp P ((qs_pcs s)[t := mq_entry c]) = cntp P (qs_pcs s)" "\<not> P (mq_entry c)"
    if P: "P \<in> {in_section, has_slot, owes_slot, has_data, owes_data, at_put_next, at_get_next, owes_incr, owes_decr}" for P
  proof -
    have "\<not> P (qs_pcs s ! t)" using rest P by (cases "qs_pcs s ! t") auto
    moreover show "\<not> P (mq_entry c)" using P by (cases c) auto
    ultimately show "cntp P ((qs_pcs s)[t := mq_entry c]) = cntp P (qs_pcs s)" using cntp_upd [OF t] by simp
  qed
  show ?thesis
    using inv same(2) [of in_section] t
    by (auto simp: mqs_inv_def lock_inv_def token_inv_def ring_inv_def fifo_inv_def same(1) nth_list_update)
qed

lemma mq_step_inv: "mq_step s s' \<Longrightarrow> mqs_inv s \<Longrightarrow> mqs_inv s'"
proof (induction rule: mq_step.induct)
  case (step_call t s c)
  then show ?case by (rule step_call_inv)
next
  case (step_run t s s')
  then show ?case
    using step_lock_inv [OF step_run(2,1)] step_token_inv [OF step_run(2,1)] step_ring_inv [OF step_run(2,1)]
      step_fifo_inv [OF step_run(2,1)]
    by (simp add: mqs_inv_def ring_inv_def [of s])
qed

lemma mq_reach_inv: "mq_reach s s' \<Longrightarrow> mqs_inv s \<Longrightarrow> mqs_inv s'"
  by (induction rule: mq_reach.induct) (auto intro: mq_step_inv)

lemma mqs_init_inv:
  assumes "mq_inv mutex_free q m" and "mq_items q m = []" and "mq_getp q = mq_buf q"
  shows "mqs_inv (mqs_init q m n)"
proof -
  have sz: "mq_sz q = 0" using mq_items_length [OF assms(1)] assms(2) by simp
  have "cntp P (replicate n PcIdle) = 0" if "\<not> P PcIdle" for P :: "'a mq_pc \<Rightarrow> bool"
    using that by (auto intro!: cntp_none)
  then show ?thesis
    using assms(1,3) sz
    by (simp add: mqs_inv_def mqs_init_def lock_inv_def token_inv_def ring_inv_def fifo_inv_def mq_inv_def mutex_free_def)
qed

text \<open>A thread in a state that satisfies the invariant is never at fault, and blocks only at
  rest, at the lock while another holds it, or at a semaphore without a token.\<close>

lemma mq_thread_progress:
  assumes inv: "mqs_inv s" and t: "t < length (qs_pcs s)"
  shows "mq_thread_st t s \<noteq> Undef"
    and "mq_thread_st t s = Blocks \<Longrightarrow>
      at_rest (qs_pcs s ! t) \<or> mx_holder (mq_lock (qs_q s)) \<noteq> None \<and> \<not> in_section (qs_pcs s ! t) \<or>
      (\<exists>v. qs_pcs s ! t = PutAcq v) \<and> sm_cnt (mq_slot (qs_q s)) = 0 \<or>
      qs_pcs s ! t = GetAcq \<and> sm_cnt (mq_data (qs_q s)) = 0"
proof -
  note l = inv [unfolded mqs_inv_def lock_inv_def token_inv_def]
  have n: "0 < qs_cap s" and live: "live_range (qs_mem s) (mq_buf (qs_q s)) (qs_cap s)"
    using inv by (simp_all add: mqs_inv_def ring_inv_def)
  have "m_live (qs_mem s) (mq_buf (qs_q s) + x mod qs_cap s)" for x
    using ring_mod_bounds [OF n, of x] by (intro live_range_nth [OF live]) simp_all
  then have cells: "m_live (qs_mem s) (mq_putp (qs_q s))" "m_live (qs_mem s) (mq_getp (qs_q s))"
    using inv by (simp_all add: mqs_inv_def ring_inv_def)
  show "mq_thread_st t s \<noteq> Undef"
    using l cells t by (cases "qs_pcs s ! t") (auto simp: mq_thread_st_def sema_defs mutex_ops_defs wr_live rd_live)
  show "mq_thread_st t s = Blocks \<Longrightarrow>
      at_rest (qs_pcs s ! t) \<or> mx_holder (mq_lock (qs_q s)) \<noteq> None \<and> \<not> in_section (qs_pcs s ! t) \<or>
      (\<exists>v. qs_pcs s ! t = PutAcq v) \<and> sm_cnt (mq_slot (qs_q s)) = 0 \<or>
      qs_pcs s ! t = GetAcq \<and> sm_cnt (mq_data (qs_q s)) = 0"
    using l cells t
    by (cases "qs_pcs s ! t")
      (auto simp: mq_thread_st_def sema_defs mutex_ops_defs wr_live rd_live split: if_splits)
qed

text \<open>When no thread can take a step, the lock is free and nobody holds a token.\<close>

lemma stuck_quiet:
  assumes inv: "mqs_inv s" and stuck: "\<And>t. t < length (qs_pcs s) \<Longrightarrow> mq_thread_st t s = Blocks"
  shows "mx_holder (mq_lock (qs_q s)) = None"
    and "t < length (qs_pcs s) \<Longrightarrow> at_rest (qs_pcs s ! t) \<or>
      (\<exists>v. qs_pcs s ! t = PutAcq v) \<and> qs_n_in s - qs_n_out s = qs_cap s \<or>
      qs_pcs s ! t = GetAcq \<and> qs_n_in s = qs_n_out s"
proof -
  have out: "\<not> in_section (qs_pcs s ! u)" if "u < length (qs_pcs s)" for u
  proof
    assume sec: "in_section (qs_pcs s ! u)"
    then show False
      using mq_thread_progress(2) [OF inv that stuck [OF that]] by (cases "qs_pcs s ! u") auto
  qed
  then have "cntp in_section (qs_pcs s) = 0" by (intro cntp_none) (auto simp: in_set_conv_nth)
  then show free: "mx_holder (mq_lock (qs_q s)) = None"
    using inv by (simp add: mqs_inv_def lock_inv_def split: if_splits)
  have pts: "at_rest (qs_pcs s ! u) \<or> (\<exists>v. qs_pcs s ! u = PutAcq v) \<and> sm_cnt (mq_slot (qs_q s)) = 0 \<or>
      qs_pcs s ! u = GetAcq \<and> sm_cnt (mq_data (qs_q s)) = 0" if "u < length (qs_pcs s)" for u
    using mq_thread_progress(2) [OF inv that stuck [OF that]] free by blast
  have "cntp P (qs_pcs s) = 0" if "P \<in> {has_slot, owes_slot, has_data, owes_data}" for P
  proof (rule cntp_none)
    fix pc assume "pc \<in> set (qs_pcs s)"
    then obtain u where "u < length (qs_pcs s)" "pc = qs_pcs s ! u" by (auto simp: in_set_conv_nth)
    then show "\<not> P pc" using pts [of u] that by (cases "qs_pcs s ! u") auto
  qed
  then have tok: "sm_cnt (mq_slot (qs_q s)) + (qs_n_in s - qs_n_out s) = qs_cap s"
    "sm_cnt (mq_data (qs_q s)) = qs_n_in s - qs_n_out s"
    using inv by (simp_all add: mqs_inv_def token_inv_def)
  show "t < length (qs_pcs s) \<Longrightarrow> at_rest (qs_pcs s ! t) \<or>
      (\<exists>v. qs_pcs s ! t = PutAcq v) \<and> qs_n_in s - qs_n_out s = qs_cap s \<or>
      qs_pcs s ! t = GetAcq \<and> qs_n_in s = qs_n_out s"
    using pts [of t] tok by auto
qed

inductive_cases mq_stepE: "mq_step s s'"

lemma mq_reach_threads: "mq_reach s s' \<Longrightarrow> length (qs_pcs s') = length (qs_pcs s) \<and> qs_cap s' = qs_cap s"
proof (induction rule: mq_reach.induct)
  case (reach_step s s' s'')
  from \<open>mq_step s' s''\<close> show ?case
    by (rule mq_stepE) (use reach_step.IH in \<open>auto elim!: mq_thread_stE dest!: mq_thread_frame\<close>)
qed simp

section \<open>Properties\<close>

lemma mqs_demo_inv:
  "mqs_inv (mqs_init (mq_demo\<lparr>mq_buf := 1, mq_putp := 1, mq_getp := 1, mq_end := 5, mq_slot := tokens 4\<rparr>) (arena (0::int) 9) n)"
  by (rule mqs_init_inv [OF mq_demo_inv]) (simp_all add: mq_items_def mq_demo_def)

text \<open>C5: however any number of threads interleave their calls on an empty queue, no thread ever
  touches memory outside the buffer or misuses the lock, the items come out in the order they
  were stored, none lost, repeated or overwritten, and never more than the capacity are held.\<close>

theorem mq_threads_fifo:
  assumes "mq_inv mutex_free q m" and "mq_items q m = []" and "mq_getp q = mq_buf q"
    and "mq_reach (mqs_init q m n) s"
  shows "qs_out s = take (length (qs_out s)) (qs_in s) \<and>
    length (qs_out s) \<le> length (qs_in s) \<and> length (qs_in s) - length (qs_out s) \<le> mq_room q \<and>
    (\<forall>t < n. mq_thread_st t s \<noteq> Undef)"
proof -
  have inv: "mqs_inv s" using mq_reach_inv [OF assms(4) mqs_init_inv [OF assms(1-3)]] .
  note r = mq_reach_threads [OF assms(4)]
  have "qs_n_out s \<le> qs_n_in s" "qs_n_in s - qs_n_out s \<le> qs_cap s"
    using inv cntp_nonneg [of has_data "qs_pcs s"] cntp_nonneg [of owes_data "qs_pcs s"]
      cntp_nonneg [of has_slot "qs_pcs s"] cntp_nonneg [of owes_slot "qs_pcs s"]
    unfolding mqs_inv_def token_inv_def by linarith+
  moreover have "mq_thread_st t s \<noteq> Undef" if "t < n" for t
    using mq_thread_progress(1) [OF inv] r that by (simp add: mqs_init_def)
  ultimately show ?thesis using inv r by (auto simp: mqs_inv_def fifo_inv_def mqs_init_def mq_room_def)
qed

theorem mq_threads_fifo_witness:
  "\<exists>s. mq_reach (mqs_init (mq_demo\<lparr>mq_buf := 1, mq_putp := 1, mq_getp := 1, mq_end := 5, mq_slot := tokens 4\<rparr>)
      (arena (0::int) 9) 2) s \<and> qs_pcs s ! 1 = PutAcq 7 \<and> (\<forall>t < 2. mq_thread_st t s \<noteq> Undef)"
proof -
  let ?s = "mqs_init (mq_demo\<lparr>mq_buf := 1, mq_putp := 1, mq_getp := 1, mq_end := 5, mq_slot := tokens 4\<rparr>) (arena (0::int) 9) 2"
  let ?t = "?s\<lparr>qs_pcs := (qs_pcs ?s)[1 := mq_entry (CallPut 7)]\<rparr>"
  have "mq_reach ?s ?t"
    by (rule reach_step [OF reach_refl step_call]) (simp_all add: mqs_init_def)
  moreover from mq_threads_fifo [OF mq_demo_inv _ _ this]
  have "\<forall>t < 2. mq_thread_st t ?t \<noteq> Undef" by (simp add: mq_items_def mq_demo_def)
  moreover have "qs_pcs ?t ! 1 = PutAcq 7" by (simp add: mqs_init_def)
  ultimately show ?thesis by blast
qed



end
