(* ===== verification/DistObj.thy ===== *)
theory DistObj imports Encoders begin

text \<open>
  \<open>CtrlrFx/DistObj.h\<close>, \<open>src/DistObj/DistObj.cpp\<close> and \<open>src/DistObj/DigIO_skel.cpp\<close>: the
  registry of distributed objects and the skeletons of the digital ports, which decode a
  command and call the implementation. An object pointer is an integer, 0 the null pointer;
  what the application's classes do (\<open>width\<close>, \<open>value\<close>, \<open>set\<close>, ...) is an argument, over
  a world of type \<open>'w\<close>.
\<close>

section \<open>Error codes\<close>

definition CFXE_NO_MEM :: int where "CFXE_NO_MEM = 2"
definition CFXE_PACKET_WRITE :: int where "CFXE_PACKET_WRITE = 3"
definition CFXE_PACKET_READ :: int where "CFXE_PACKET_READ = 4"
definition CFXE_UNKNOWN_OBJ :: int where "CFXE_UNKNOWN_OBJ = 6"
definition CFXE_UNKNOWN_CMD :: int where "CFXE_UNKNOWN_CMD = 7"
definition CFXE_SRVR_CLOSING :: int where "CFXE_SRVR_CLOSING = 8"

lemmas cfxe_defs = CFXE_NO_MEM_def CFXE_PACKET_WRITE_def CFXE_PACKET_READ_def CFXE_UNKNOWN_OBJ_def
  CFXE_UNKNOWN_CMD_def CFXE_SRVR_CLOSING_def

section \<open>The registry\<close>

definition MAX_NUM_DIST_OBJ :: int where "MAX_NUM_DIST_OBJ = 64"

text \<open>\<open>obj_map_\<close>: an array of 64 pairs of a key and a pointer. The constructor clears the first
  pointer only; the rest of the array is the argument.\<close>

type_synonym registry = "(int \<times> int) list"

definition reg_ctor :: "registry \<Rightarrow> registry" where
  "reg_ctor r = r[0 := (fst (r ! 0), 0)]"

definition reg_at :: "registry \<Rightarrow> int \<Rightarrow> (int \<times> int) option" where
  "reg_at r i = (if 0 \<le> i \<and> i < MAX_NUM_DIST_OBJ then Some (r ! nat i) else None)"

definition reg_set :: "registry \<Rightarrow> int \<Rightarrow> int \<times> int \<Rightarrow> registry" where
  "reg_set r i e = r[nat i := e]"

text \<open>\<open>while (obj_map_[i].obj != 0 && i < MAX_NUM_DIST_OBJ) ++i;\<close> The entry is read first.\<close>

function reg_free_loop :: "registry \<Rightarrow> int \<Rightarrow> int option" where
  "reg_free_loop r i =
     (case reg_at r i of None \<Rightarrow> None
      | Some e \<Rightarrow> if snd e \<noteq> 0 \<and> i < MAX_NUM_DIST_OBJ then reg_free_loop r (i + 1) else Some i)"
  by pat_completeness auto
termination by (relation "measure (\<lambda>(r, i). nat (64 - i))") (auto simp: MAX_NUM_DIST_OBJ_def)

declare reg_free_loop.simps [simp del]

definition reg_register_obj :: "int \<Rightarrow> int \<Rightarrow> registry \<Rightarrow> (int \<times> registry) option" where
  "reg_register_obj key obj r =
     do { i \<leftarrow> reg_free_loop r 0;
          if i = MAX_NUM_DIST_OBJ then Some (- CFXE_NO_MEM, r)
          else let r = reg_set r i (key, obj)
               in if i < MAX_NUM_DIST_OBJ - 1
                  then Some (i + 1, reg_set r (i + 1) (fst (r ! nat (i + 1)), 0))
                  else Some (i, r) }"

function reg_get_loop :: "int \<Rightarrow> registry \<Rightarrow> int \<Rightarrow> int option" where
  "reg_get_loop key r i =
     (case reg_at r i of None \<Rightarrow> None
      | Some e \<Rightarrow> if snd e \<noteq> 0 \<and> i < MAX_NUM_DIST_OBJ
          then if fst e = key then Some (snd e) else reg_get_loop key r (i + 1) else Some 0)"
  by pat_completeness auto
termination by (relation "measure (\<lambda>(key, r, i). nat (64 - i))") (auto simp: MAX_NUM_DIST_OBJ_def)

declare reg_get_loop.simps [simp del]

definition reg_get_obj :: "int \<Rightarrow> registry \<Rightarrow> int option" where
  "reg_get_obj key r = reg_get_loop key r 0"

section \<open>Invocations\<close>

text \<open>What \<open>invoke\<close> works on: the decoder of the parameters, the encoder of the response, the
  memory of both, and the world of the application's objects.\<close>

record 'w call =
  ca_param :: codec
  ca_rsp :: codec
  ca_mem :: "byte mem"
  ca_world :: 'w

type_synonym 'w handler = "'w call \<Rightarrow> (int \<times> 'w call) option"

definition call_put :: "bool \<Rightarrow> nat \<Rightarrow> int \<Rightarrow> 'w call \<Rightarrow> 'w call option" where
  "call_put le k v c =
     do { (n, e, m) \<leftarrow> enc_put le k v (ca_rsp c) (ca_mem c); Some (c\<lparr>ca_rsp := e, ca_mem := m\<rparr>) }"

definition call_get :: "bool \<Rightarrow> nat \<Rightarrow> 'w call \<Rightarrow> (int option \<times> 'w call) option" where
  "call_get le k c =
     do { (n, v, d) \<leftarrow> dec_get le k (ca_param c) (ca_mem c); Some (v, c\<lparr>ca_param := d\<rparr>) }"

text \<open>\<open>param.get(&bit)\<close>: when nothing was stored the variable that is then used is uninitialised.\<close>

definition call_get_bit :: "bool \<Rightarrow> 'w call \<Rightarrow> (int \<times> 'w call) option" where
  "call_get_bit le c =
     do { (v, c') \<leftarrow> call_get le 4 c; b \<leftarrow> v; Some (signed_val 4 b, c') }"

section \<open>Skeletons\<close>

text \<open>The application's port: what the pure virtual functions do.\<close>

record 'w digin =
  di_width :: "'w \<Rightarrow> int \<times> 'w"
  di_value :: "int \<Rightarrow> 'w \<Rightarrow> bool \<times> 'w"

record 'w digout =
  do_width :: "'w \<Rightarrow> int \<times> 'w"
  do_set :: "int \<Rightarrow> bool \<Rightarrow> 'w \<Rightarrow> 'w"
  do_clear :: "int \<Rightarrow> 'w \<Rightarrow> 'w"
  do_toggle :: "int \<Rightarrow> 'w \<Rightarrow> 'w"

definition di_width_cmd :: "bool \<Rightarrow> 'w digin \<Rightarrow> 'w handler" where
  "di_width_cmd le ob c =
     (let (wd, w) = di_width ob (ca_world c)
      in do { c' \<leftarrow> call_put le 4 (u32 wd) (c\<lparr>ca_world := w\<rparr>); Some (0, c') })"

definition di_value_cmd :: "bool \<Rightarrow> 'w digin \<Rightarrow> 'w handler" where
  "di_value_cmd le ob c =
     do { (bt, c1) \<leftarrow> call_get_bit le c;
          let (b, w) = di_value ob bt (ca_world c1) in
          do { c' \<leftarrow> call_put le 1 (if b then 1 else 0) (c1\<lparr>ca_world := w\<rparr>); Some (0, c') } }"

definition do_width_cmd :: "bool \<Rightarrow> 'w digout \<Rightarrow> 'w handler" where
  "do_width_cmd le ob c =
     (let (wd, w) = do_width ob (ca_world c)
      in do { c' \<leftarrow> call_put le 4 (u32 wd) (c\<lparr>ca_world := w\<rparr>); Some (0, c') })"

text \<open>The second parameter of \<open>set\<close> is optional.\<close>

definition do_set_cmd :: "bool \<Rightarrow> 'w digout \<Rightarrow> 'w handler" where
  "do_set_cmd le ob c =
     do { (bt, c1) \<leftarrow> call_get_bit le c; (v, c2) \<leftarrow> call_get le 1 c1;
          let b = (case v of None \<Rightarrow> True | Some x \<Rightarrow> x \<noteq> 0) in
          Some (0, c2\<lparr>ca_world := do_set ob bt b (ca_world c2)\<rparr>) }"

definition do_clear_cmd :: "bool \<Rightarrow> 'w digout \<Rightarrow> 'w handler" where
  "do_clear_cmd le ob c =
     do { (bt, c1) \<leftarrow> call_get_bit le c; Some (0, c1\<lparr>ca_world := do_clear ob bt (ca_world c1)\<rparr>) }"

definition do_toggle_cmd :: "bool \<Rightarrow> 'w digout \<Rightarrow> 'w handler" where
  "do_toggle_cmd le ob c =
     do { (bt, c1) \<leftarrow> call_get_bit le c; Some (0, c1\<lparr>ca_world := do_toggle ob bt (ca_world c1)\<rparr>) }"

text \<open>The tables of the methods, ended by a null entry, and the search in them.\<close>

definition di_method_map :: "bool \<Rightarrow> 'w digin \<Rightarrow> (int \<times> 'w handler option) list" where
  "di_method_map le ob = [(0, Some (di_width_cmd le ob)), (1, Some (di_value_cmd le ob)), (4294967295, None)]"

definition do_method_map :: "bool \<Rightarrow> 'w digout \<Rightarrow> (int \<times> 'w handler option) list" where
  "do_method_map le ob =
     [(0, Some (do_width_cmd le ob)), (1, Some (do_set_cmd le ob)), (2, Some (do_clear_cmd le ob)),
      (3, Some (do_toggle_cmd le ob)), (4294967295, None)]"

fun get_mbr_ptr :: "(int \<times> 'w handler option) list \<Rightarrow> int \<Rightarrow> 'w handler option" where
  "get_mbr_ptr ((p, Some f) # es) op = (if p = op then Some f else get_mbr_ptr es op)"
| "get_mbr_ptr _ op = None"

definition di_get_mbr_ptr :: "bool \<Rightarrow> 'w digin \<Rightarrow> int \<Rightarrow> 'w handler option" where
  "di_get_mbr_ptr le ob op = get_mbr_ptr (di_method_map le ob) op"
definition do_get_mbr_ptr :: "bool \<Rightarrow> 'w digout \<Rightarrow> int \<Rightarrow> 'w handler option" where
  "do_get_mbr_ptr le ob op = get_mbr_ptr (do_method_map le ob) op"

definition di_invoke :: "bool \<Rightarrow> 'w digin \<Rightarrow> int \<Rightarrow> 'w handler" where
  "di_invoke le ob op c = (case di_get_mbr_ptr le ob op of None \<Rightarrow> Some (- 1, c) | Some f \<Rightarrow> f c)"

definition do_invoke :: "bool \<Rightarrow> 'w digout \<Rightarrow> int \<Rightarrow> 'w handler" where
  "do_invoke le ob op c =
     (case do_get_mbr_ptr le ob op of None \<Rightarrow> Some (- CFXE_UNKNOWN_CMD, c) | Some f \<Rightarrow> f c)"

section \<open>Dispatch\<close>

text \<open>The objects of the application that pointers point to: digital ports, or an object of a class
  of its own with its \<open>invoke\<close>.\<close>

datatype 'w dist_obj = DigInObj "'w digin" | DigOutObj "'w digout" | OtherObj "int \<Rightarrow> 'w handler"

fun obj_invoke :: "bool \<Rightarrow> 'w dist_obj \<Rightarrow> int \<Rightarrow> 'w handler" where
  "obj_invoke le (DigInObj ob) op c = di_invoke le ob op c"
| "obj_invoke le (DigOutObj ob) op c = do_invoke le ob op c"
| "obj_invoke le (OtherObj f) op c = f op c"

definition reg_dispatch :: "bool \<Rightarrow> (int \<Rightarrow> 'w dist_obj) \<Rightarrow> registry \<Rightarrow> int \<Rightarrow> int \<Rightarrow> 'w handler" where
  "reg_dispatch le objs r key op c =
     do { p \<leftarrow> reg_get_obj key r;
          if p = 0 then Some (- CFXE_UNKNOWN_OBJ, c) else obj_invoke le (objs p) op c }"

text \<open>The other \<open>dispatch\<close> takes the key and the operation from the front of the command.\<close>

definition reg_dispatch_cmd :: "bool \<Rightarrow> (int \<Rightarrow> 'w dist_obj) \<Rightarrow> registry \<Rightarrow> 'w handler" where
  "reg_dispatch_cmd le objs r c =
     do { (k, c1) \<leftarrow> call_get le 4 c; (op, c2) \<leftarrow> call_get le 4 c1;
          key \<leftarrow> k; p \<leftarrow> reg_get_obj key r;
          if p = 0 then Some (- CFXE_UNKNOWN_OBJ, c2)
          else do { op \<leftarrow> op; obj_invoke le (objs p) op c2 } }"

section \<open>The registry as a finite map\<close>

text \<open>\<open>reg_holds r es\<close>: the entries of \<open>r\<close> in use are \<open>es\<close>, followed by a null pointer if there
  is room for one.\<close>

definition reg_holds :: "registry \<Rightarrow> (int \<times> int) list \<Rightarrow> bool" where
  "reg_holds r es \<longleftrightarrow> length r = 64 \<and> length es \<le> 64 \<and> take (length es) r = es \<and>
     (\<forall>e\<in>set es. snd e \<noteq> 0) \<and> (length es < 64 \<longrightarrow> snd (r ! length es) = 0)"

lemma reg_holds_nth: "reg_holds r es \<Longrightarrow> i < length es \<Longrightarrow> r ! i = es ! i \<and> snd (es ! i) \<noteq> 0"
  by (metis nth_mem nth_take reg_holds_def)

lemma reg_at_in: "reg_holds r es \<Longrightarrow> i < 64 \<Longrightarrow> reg_at r (int i) = Some (r ! i)"
  by (simp add: reg_at_def MAX_NUM_DIST_OBJ_def)

lemma reg_at_end: "reg_at r 64 = None"
  by (simp add: reg_at_def MAX_NUM_DIST_OBJ_def)

lemma reg_ctor_holds: "length r = 64 \<Longrightarrow> reg_holds (reg_ctor r) []"
  by (simp add: reg_holds_def reg_ctor_def)

lemma reg_free_loop_finds:
  assumes "reg_holds r es" and "i \<le> length es"
  shows "reg_free_loop r (int i) = (if length es < 64 then Some (int (length es)) else None)"
  using assms(2)
proof (induction "length es - i" arbitrary: i)
  case 0
  then have "i = length es" by simp
  then show ?case
    using assms(1) reg_at_in [OF assms(1), of i] reg_at_end [of r]
    by (subst reg_free_loop.simps) (auto simp: reg_holds_def le_less)
next
  case (Suc d)
  have i: "i < length es" "i < 64" using Suc.hyps(2) assms(1) unfolding reg_holds_def by linarith+
  have "reg_free_loop r (int i) = reg_free_loop r (int (Suc i))"
    using reg_at_in [OF assms(1) i(2)] reg_holds_nth [OF assms(1) i(1)] i(2)
    by (subst reg_free_loop.simps) (simp add: MAX_NUM_DIST_OBJ_def add.commute)
  moreover have "d = length es - Suc i" "Suc i \<le> length es" using Suc.hyps(2) i by simp_all
  ultimately show ?case using Suc.hyps(1) [of "Suc i"] by (simp only: refl)
qed

lemma reg_get_loop_finds:
  assumes "reg_holds r es" and "i \<le> length es"
  shows "reg_get_loop key r (int i) =
    (case map_of (drop i es) key of Some p \<Rightarrow> Some p | None \<Rightarrow> if length es < 64 then Some 0 else None)"
  using assms(2)
proof (induction "length es - i" arbitrary: i)
  case 0
  then have "i = length es" by simp
  then show ?case
    using assms(1) reg_at_in [OF assms(1), of i] reg_at_end [of r]
    by (subst reg_get_loop.simps) (auto simp: reg_holds_def le_less)
next
  case (Suc d)
  have i: "i < length es" "i < 64" using Suc.hyps(2) assms(1) unfolding reg_holds_def by linarith+
  have "reg_get_loop key r (int i) =
      (if fst (es ! i) = key then Some (snd (es ! i)) else reg_get_loop key r (int (Suc i)))"
    using reg_at_in [OF assms(1) i(2)] reg_holds_nth [OF assms(1) i(1)] i(2)
    by (subst reg_get_loop.simps) (simp add: MAX_NUM_DIST_OBJ_def add.commute)
  moreover have "drop i es = (fst (es ! i), snd (es ! i)) # drop (Suc i) es"
    using i by (simp add: Cons_nth_drop_Suc)
  moreover have "d = length es - Suc i" "Suc i \<le> length es" using Suc.hyps(2) i by simp_all
  ultimately show ?case using Suc.hyps(1) [of "Suc i"] by simp
qed

lemma reg_register_appends:
  assumes h: "reg_holds r es" and "length es < 64" "obj \<noteq> 0"
  shows "\<exists>i r'. reg_register_obj key obj r = Some (i, r') \<and> 0 \<le> i \<and> reg_holds r' (es @ [(key, obj)])"
proof -
  let ?n = "length es"
  have l: "length r = 64" "take ?n r = es" using h by (simp_all add: reg_holds_def)
  have t: "take (Suc ?n) (r[?n := (key, obj)]) = es @ [(key, obj)]"
    using l assms(2) by (simp add: take_Suc_conv_app_nth)
  show ?thesis
    using reg_free_loop_finds [OF h, of 0] assms l t h
    by (cases "?n < 63") (auto simp: reg_register_obj_def reg_holds_def reg_set_def MAX_NUM_DIST_OBJ_def
        nat_add_distrib Let_def)
qed

lemma reg_full_undefined:
  assumes "reg_holds r es" "length es = 64"
  shows "reg_register_obj key obj r = None"
    and "map_of es key = None \<Longrightarrow> reg_get_obj key r = None"
    and "map_of es key = Some p \<Longrightarrow> reg_get_obj key r = Some p"
  using reg_free_loop_finds [OF assms(1), of 0] reg_get_loop_finds [OF assms(1), of 0 key] assms(2)
  by (simp_all add: reg_register_obj_def reg_get_obj_def)

fun reg_register_all :: "(int \<times> int) list \<Rightarrow> registry \<Rightarrow> registry option" where
  "reg_register_all [] r = Some r"
| "reg_register_all ((k, p) # es) r = do { (i, r') \<leftarrow> reg_register_obj k p r; reg_register_all es r' }"

lemma reg_register_all_holds:
  "reg_holds r es \<Longrightarrow> \<forall>e\<in>set fs. snd e \<noteq> 0 \<Longrightarrow> length es + length fs \<le> 64 \<Longrightarrow>
   \<exists>r'. reg_register_all fs r = Some r' \<and> reg_holds r' (es @ fs)"
proof (induction fs arbitrary: r es)
  case Nil
  then show ?case by simp
next
  case (Cons f fs)
  obtain k p where f: "f = (k, p)" by fastforce
  obtain i r1 where "reg_register_obj k p r = Some (i, r1)" "reg_holds r1 (es @ [(k, p)])"
    using reg_register_appends [OF Cons.prems(1), of p k] Cons.prems f by auto
  then show ?case using Cons.IH [of r1 "es @ [(k, p)]"] Cons.prems f by auto
qed

end
