(* ===== verification/DistObjSrvr.thy ===== *)
theory DistObjSrvr imports Device DistObj Locks begin

text \<open>
  \<open>CtrlrFx/BinDistObj.h\<close>, \<open>CtrlrFx/DistObjSrvr.h\<close>, \<open>src/DistObj/DistObjSrvr.cpp\<close> and
  \<open>src/DistObj/DigIO_stub.cpp\<close>: the wire protocol, the server that receives commands and
  the client side that sends them. The server runs in one thread \<open>t\<close>; it may find its lock
  free or taken. Variables the code does not initialise are arguments.
\<close>

section \<open>The wire protocol\<close>

definition BIN_MSG_TYPE_CMD :: byte where "BIN_MSG_TYPE_CMD = 0"
definition BIN_MSG_TYPE_RSP :: byte where "BIN_MSG_TYPE_RSP = 1"

definition DIST_OBJ_CLASS_DIG_IN :: int where "DIST_OBJ_CLASS_DIG_IN = 1"
definition DIST_OBJ_CLASS_DIG_OUT :: int where "DIST_OBJ_CLASS_DIG_OUT = 2"

definition tgt_obj :: "int \<Rightarrow> int \<Rightarrow> int" where
  "tgt_obj obj_class obj_inst = u32 (push_bit 16 (u16 obj_class)) OR u16 obj_inst"

text \<open>The bytes \<open>'C'\<close> and \<open>'X'\<close>, and the headers as the host lays them out.\<close>

abbreviation chC :: byte where "chC \<equiv> 67"
abbreviation chX :: byte where "chX \<equiv> 88"

definition pkt_bytes :: "bool \<Rightarrow> byte \<Rightarrow> byte \<Rightarrow> int \<Rightarrow> byte list" where
  "pkt_bytes le order ty sz = [chC, chX, order, ty] @ host_bytes le 4 sz"

definition pkt_order :: "byte list \<Rightarrow> byte" where "pkt_order h = h ! 2"
definition pkt_type :: "byte list \<Rightarrow> byte" where "pkt_type h = h ! 3"
definition pkt_size :: "bool \<Rightarrow> byte list \<Rightarrow> int" where "pkt_size le h = host_val le (take 4 (drop 4 h))"

definition rsp_bytes :: "bool \<Rightarrow> int \<Rightarrow> int \<Rightarrow> byte list" where
  "rsp_bytes le msg_id reply = host_bytes le 4 msg_id @ host_bytes le 4 reply"

definition rsp_reply :: "bool \<Rightarrow> byte list \<Rightarrow> int" where
  "rsp_reply le h = signed_val 4 (host_val le (take 4 (drop 4 h)))"

section \<open>The port\<close>

text \<open>
  A communications port as a pair of byte streams: what is still to be read, what \<open>read\<close>
  reports after that (end of file or an error), what was written, and whether writes fail.
  \<open>read_n\<close> and \<open>write_n\<close> are those of \<open>Device\<close>.
\<close>

record port =
  pt_in :: "byte list"
  pt_err :: bool
  pt_out :: "byte list"
  pt_wfail :: bool

definition pt_sys_read :: "port sys_read" where
  "pt_sys_read fd n p =
     (if pt_in p = [] then (if pt_err p then -1 else 0, [], p)
      else (int (length (take (nat n) (pt_in p))), take (nat n) (pt_in p), p\<lparr>pt_in := drop (nat n) (pt_in p)\<rparr>))"

definition pt_sys_write :: "port sys_write" where
  "pt_sys_write fd bs p =
     (if pt_wfail p then (-1, p) else (int (length bs), p\<lparr>pt_out := pt_out p @ bs\<rparr>))"

definition port_read_n :: "int \<Rightarrow> port \<Rightarrow> int \<times> byte list \<times> port" where
  "port_read_n n p = dv_read_n pt_sys_read 0 n p"

definition port_write_n :: "byte list \<Rightarrow> port \<Rightarrow> int \<times> port" where
  "port_write_n bs p = dv_write_n pt_sys_write 0 bs p"

text \<open>Storing what was read over the front of a local variable.\<close>

definition overlay :: "byte list \<Rightarrow> byte list \<Rightarrow> byte list" where
  "overlay bs old = bs @ drop (length bs) old"

lemma port_read_n_eq:
  assumes "n < 2147483648"
  shows "port_read_n n p =
    (if n \<le> 0 then 0 else if pt_in p = [] then (if pt_err p then -1 else 0) else int (length (take (nat n) (pt_in p))),
     take (nat n) (pt_in p), p\<lparr>pt_in := drop (nat n) (pt_in p)\<rparr>)"
proof (cases "0 < n \<and> pt_in p \<noteq> []")
  case False
  then show ?thesis
    by (cases "0 < n") (auto simp: port_read_n_def dv_read_n_def rn_loop.simps [of _ _ n 0] pt_sys_read_def Let_def)
next
  case True
  let ?k = "int (length (take (nat n) (pt_in p)))" and ?p = "p\<lparr>pt_in := drop (nat n) (pt_in p)\<rparr>"
  have k: "0 < ?k" "?k \<le> n" using True by auto
  have "port_read_n n p = rn_loop pt_sys_read 0 n ?k ?k (take (nat n) (pt_in p)) ?p"
    using True k by (simp add: port_read_n_def dv_read_n_def rn_loop.simps [of _ _ n 0] pt_sys_read_def Let_def)
  also have "\<dots> = (?k, take (nat n) (pt_in p), ?p)"
  proof (cases "?k < n")
    case False
    then show ?thesis using k assms by (subst rn_loop.simps) simp
  next
    case less: True
    then have "pt_in ?p = []" using True by auto
    then show ?thesis using k less assms by (subst rn_loop.simps) (simp add: pt_sys_read_def)
  qed
  finally show ?thesis using True by simp
qed

lemma port_write_n_eq:
  assumes "length bs < 2147483648"
  shows "port_write_n bs p =
    (if bs = [] then (0, p) else if pt_wfail p then (-1, p) else (int (length bs), p\<lparr>pt_out := pt_out p @ bs\<rparr>))"
proof (cases "bs = [] \<or> pt_wfail p")
  case True
  then show ?thesis by (auto simp: port_write_n_def dv_write_n_def wn_loop.simps [of _ _ _ 0] pt_sys_write_def)
next
  case False
  then have "port_write_n bs p =
      wn_loop pt_sys_write 0 bs (int (length bs)) (int (length bs)) (p\<lparr>pt_out := pt_out p @ bs\<rparr>)"
    by (simp add: port_write_n_def dv_write_n_def wn_loop.simps [of _ _ _ 0] pt_sys_write_def)
  then show ?thesis using False assms by (simp add: wn_loop.simps)
qed

lemma port_read_n_less:
  "port_read_n n p = (r, bs, p') \<Longrightarrow> n < 2147483648 \<Longrightarrow> 0 < r \<Longrightarrow> length (pt_in p') < length (pt_in p)"
  by (auto simp: port_read_n_eq split: if_splits)

section \<open>Receiving a packet header\<close>

text \<open>The scan for the magic number; \<open>mg\<close> holds \<open>magic\<close>, of which \<open>nx\<close> bytes are kept.\<close>

function hdr_scan :: "bool \<Rightarrow> byte list \<Rightarrow> nat \<Rightarrow> port \<Rightarrow> int \<times> port" where
  "hdr_scan quit mg nx p =
     (let (n, bs, p') = port_read_n (2 - int nx) p
      in if n \<le> 0 then (-1, p')
         else let mg = take nx mg @ overlay bs (drop nx mg);
                  (mg, nx) = (if mg ! 1 = chC then ([chC, 0], 1) else (mg, nx))
              in if take 2 mg \<noteq> [chC, chX] \<and> \<not> quit then hdr_scan quit mg nx p' else (0, p'))"
  by pat_completeness auto
termination
  by (relation "measure (\<lambda>(quit, mg, nx, p). length (pt_in p))") (auto dest!: port_read_n_less [OF sym])

declare hdr_scan.simps [simp del]

definition get_pkt_hdr :: "bool \<Rightarrow> byte list \<Rightarrow> byte list \<Rightarrow> port \<Rightarrow> int \<times> byte list \<times> port" where
  "get_pkt_hdr quit mg hdr p =
     (let (r, p) = hdr_scan quit mg 0 p
      in if r < 0 then (-1, hdr, p)
         else if quit then (- CFXE_SRVR_CLOSING, hdr, p)
         else let (n, bs, p) = port_read_n 6 p
              in (if n < 0 then n else 0, [chC, chX] @ overlay bs (drop 2 hdr), p))"

section \<open>The server object\<close>

record 'w srv =
  sv_lock :: mutex
  sv_port :: "port option"
  sv_reg :: registry
  sv_msg_id :: int
  sv_cmd :: bf
  sv_rsp :: bf
  sv_quit :: bool
  sv_mem :: "byte mem"
  sv_world :: 'w

definition DFLT_CMD_RSP_SIZE :: int where "DFLT_CMD_RSP_SIZE = 256"

text \<open>\<open>g\<close> is the uninitialised registry array, \<open>e\<close> what creating the mutex returns.\<close>

definition srv_ctor_port :: "registry \<Rightarrow> int \<Rightarrow> port option \<Rightarrow> int \<Rightarrow> byte mem \<Rightarrow> 'w \<Rightarrow> 'w srv" where
  "srv_ctor_port g e pt sz m w =
     (let (b1, m1) = bf_ctor_cap sz m; (b2, m2) = bf_ctor_cap sz m1
      in \<lparr>sv_lock = mutex_ctor e, sv_port = pt, sv_reg = reg_ctor g, sv_msg_id = 0, sv_cmd = b1, sv_rsp = b2,
          sv_quit = False, sv_mem = m2, sv_world = w\<rparr>)"

definition srv_ctor :: "registry \<Rightarrow> int \<Rightarrow> byte mem \<Rightarrow> 'w \<Rightarrow> 'w srv" where
  "srv_ctor g e = srv_ctor_port g e None DFLT_CMD_RSP_SIZE"
definition srv_ctor_size :: "registry \<Rightarrow> int \<Rightarrow> int \<Rightarrow> byte mem \<Rightarrow> 'w \<Rightarrow> 'w srv" where
  "srv_ctor_size g e sz = srv_ctor_port g e None sz"
definition srv_ctor_dev :: "registry \<Rightarrow> int \<Rightarrow> port \<Rightarrow> byte mem \<Rightarrow> 'w \<Rightarrow> 'w srv" where
  "srv_ctor_dev g e pt = srv_ctor_port g e (Some pt) DFLT_CMD_RSP_SIZE"
definition srv_ctor_arrays ::
  "registry \<Rightarrow> int \<Rightarrow> int \<times> int \<Rightarrow> int \<times> int \<Rightarrow> byte mem \<Rightarrow> 'w \<Rightarrow> 'w srv" where
  "srv_ctor_arrays g e cmd rsp m w =
     \<lparr>sv_lock = mutex_ctor e, sv_port = None, sv_reg = reg_ctor g, sv_msg_id = 0,
      sv_cmd = bf_ctor_arr (fst cmd) (snd cmd) False, sv_rsp = bf_ctor_arr (fst rsp) (snd rsp) False,
      sv_quit = False, sv_mem = m, sv_world = w\<rparr>"

definition srv_set_port :: "port option \<Rightarrow> 'w srv \<Rightarrow> 'w srv" where
  "srv_set_port pt s = s\<lparr>sv_port := pt\<rparr>"
definition srv_next_msg_id :: "'w srv \<Rightarrow> int \<times> 'w srv" where
  "srv_next_msg_id s = (sv_msg_id s, s\<lparr>sv_msg_id := u32 (sv_msg_id s + 1)\<rparr>)"
definition srv_quit :: "'w srv \<Rightarrow> 'w srv" where
  "srv_quit s = s\<lparr>sv_quit := True\<rparr>"

definition srv_register_obj :: "nat \<Rightarrow> int \<Rightarrow> int \<Rightarrow> 'w srv \<Rightarrow> (int \<times> 'w srv) run" where
  "srv_register_obj t key obj s =
     run_then (guard_ctor (mutex_type t) (sv_lock s)) (\<lambda>g.
     run_then (run_opt (reg_register_obj key obj (sv_reg s))) (\<lambda>(n, r).
     run_then (guard_release (mutex_type t) g) (\<lambda>g.
     run_then (guard_dtor (mutex_type t) g) (\<lambda>l.
     Ret (n, s\<lparr>sv_reg := r, sv_lock := l\<rparr>)))))"

section \<open>Serving one command\<close>

text \<open>The local variables of \<open>run\<close>: the packet header and the command header.\<close>

record srv_loc =
  lc_hdr :: "byte list"
  lc_id :: int
  lc_tgt :: int
  lc_op :: int

text \<open>The payload: \<open>cmd_buf_.clear(msg_size)\<close>, which truncates to the capacity, the read, \<open>flip\<close>.\<close>

definition srv_payload :: "bool \<Rightarrow> byte list \<Rightarrow> bf \<Rightarrow> port \<Rightarrow> byte mem \<Rightarrow> (bf \<times> port \<times> byte mem) option" where
  "srv_payload le hdr b p m =
     do { (n, b', p', m') \<leftarrow> dv_read_n_buf pt_sys_read 0 (bf_clear_size (pkt_size le hdr) b) p m;
          Some (bf_flip b', p', m') }"

definition srv_cmd_hdr :: "bool \<Rightarrow> codec \<Rightarrow> byte mem \<Rightarrow> srv_loc \<Rightarrow> (srv_loc \<times> codec) option" where
  "srv_cmd_hdr le c m loc =
     do { (n1, i, c1) \<leftarrow> dec_get le 4 c m; (n2, tg, c2) \<leftarrow> dec_get le 4 c1 m; (n3, op, c3) \<leftarrow> dec_get le 4 c2 m;
          Some (loc\<lparr>lc_id := case_option (lc_id loc) id i, lc_tgt := case_option (lc_tgt loc) id tg,
                    lc_op := case_option (lc_op loc) id op\<rparr>, c3) }"

text \<open>The reply goes out whether the command failed or not, with whatever is in the buffer.\<close>

definition srv_reply :: "bool \<Rightarrow> byte list \<Rightarrow> int \<Rightarrow> int \<Rightarrow> bf \<Rightarrow> port \<Rightarrow> byte mem \<Rightarrow> (bf \<times> port \<times> byte list) option" where
  "srv_reply le hdr msg_id ret rsp p m =
     (let b = bf_flip rsp; sz = u32 (8 + bf_available b);
          hdr = take 3 hdr @ [BIN_MSG_TYPE_RSP] @ host_bytes le 4 sz;
          p = snd (port_write_n hdr p); p = snd (port_write_n (rsp_bytes le msg_id ret) p)
      in if 0 < sz then do { (n, b', p') \<leftarrow> dv_write_n_buf pt_sys_write 0 b p m; Some (b', p', hdr) }
         else Some (b, p, hdr))"

definition srv_command :: "nat \<Rightarrow> bool \<Rightarrow> (int \<Rightarrow> 'w dist_obj) \<Rightarrow> srv_loc \<Rightarrow> port \<Rightarrow> 'w srv \<Rightarrow> (srv_loc \<times> 'w srv) run" where
  "srv_command t le objs loc p s =
     run_then (run_opt (srv_cmd_hdr le (cd_rewind (cd_ctor (sv_cmd s))) (sv_mem s) loc)) (\<lambda>(loc, param).
     run_then (guard_ctor (mutex_type t) (sv_lock s)) (\<lambda>g.
     run_then (run_opt (reg_dispatch le objs (sv_reg s) (lc_tgt loc) (lc_op loc)
        \<lparr>ca_param = param, ca_rsp = cd_clear (cd_ctor (sv_rsp s)), ca_mem = sv_mem s, ca_world = sv_world s\<rparr>))
       (\<lambda>(ret, c).
     run_then (guard_release (mutex_type t) g) (\<lambda>g.
     run_then (guard_acquire (mutex_type t) g) (\<lambda>g.
     run_then (run_opt (srv_reply le (lc_hdr loc) (lc_id loc) ret (cd_buf (ca_rsp c)) p (ca_mem c))) (\<lambda>(rsp, p, hdr).
     run_then (guard_dtor (mutex_type t) g) (\<lambda>l.
     Ret (loc\<lparr>lc_hdr := hdr\<rparr>,
          s\<lparr>sv_lock := l, sv_port := Some p, sv_cmd := cd_buf (ca_param c), sv_rsp := rsp,
            sv_mem := ca_mem c, sv_world := ca_world c\<rparr>))))))))"

text \<open>One round of the loop; False when the loop is left.\<close>

definition srv_step :: "nat \<Rightarrow> bool \<Rightarrow> (int \<Rightarrow> 'w dist_obj) \<Rightarrow> byte list \<Rightarrow> srv_loc \<Rightarrow> 'w srv \<Rightarrow>
    (bool \<times> srv_loc \<times> 'w srv) run" where
  "srv_step t le objs mg loc s =
     run_then (run_opt (sv_port s)) (\<lambda>p.
       let (n, hdr, p) = get_pkt_hdr (sv_quit s) mg (lc_hdr loc) p; loc = loc\<lparr>lc_hdr := hdr\<rparr>
       in if sv_quit s \<or> n < 0 then Ret (False, loc, s\<lparr>sv_port := Some p\<rparr>)
          else run_then (run_opt (srv_payload le hdr (sv_cmd s) p (sv_mem s))) (\<lambda>(b, p, m).
            let s = s\<lparr>sv_cmd := b, sv_port := Some p, sv_mem := m\<rparr>
            in if pkt_type hdr \<noteq> BIN_MSG_TYPE_CMD then Ret (True, loc, s)
               else run_then (srv_command t le objs loc p s) (\<lambda>(loc, s). Ret (True, loc, s))))"

definition srv_left :: "'w srv \<Rightarrow> nat" where
  "srv_left s = (case sv_port s of None \<Rightarrow> 0 | Some p \<Rightarrow> length (pt_in p))"

lemma hdr_scan_less: "hdr_scan q mg nx p = (r, p') \<Longrightarrow> 0 \<le> r \<Longrightarrow> length (pt_in p') < length (pt_in p)"
proof (induction "length (pt_in p)" arbitrary: mg nx p rule: less_induct)
  case less
  obtain n bs p1 where n: "port_read_n (2 - int nx) p = (n, bs, p1)" by (metis prod_cases3)
  show ?case
  proof (cases "n \<le> 0")
    case True
    then show ?thesis using less n by (subst (asm) hdr_scan.simps) simp
  next
    case False
    then have l: "length (pt_in p1) < length (pt_in p)" using port_read_n_less [OF n] by simp
    then show ?thesis
      using less(2,3) n False less(1) [of p1]
      by (subst (asm) hdr_scan.simps) (fastforce simp: Let_def split: if_splits)
  qed
qed

lemma port_read_n_mono: "port_read_n n p = (r, bs, p') \<Longrightarrow> n < 2147483648 \<Longrightarrow> length (pt_in p') \<le> length (pt_in p)"
  by (auto simp: port_read_n_eq)

lemma get_pkt_hdr_less:
  assumes "get_pkt_hdr False mg hdr p = (n, hdr', p')" "0 \<le> n"
  shows "length (pt_in p') < length (pt_in p)"
proof -
  obtain r p1 where r: "hdr_scan False mg 0 p = (r, p1)" by fastforce
  obtain k bs p2 where k: "port_read_n 6 p1 = (k, bs, p2)" by (metis prod_cases3)
  show ?thesis
    using assms r k hdr_scan_less [OF r] port_read_n_mono [OF k]
    by (auto simp: get_pkt_hdr_def Let_def split: if_splits)
qed

lemma wn_loop_in: "pt_in (snd (wn_loop pt_sys_write 0 bs nw nx p)) = pt_in p"
proof (induction "nat (int (length bs) - nw)" arbitrary: nw nx p rule: less_induct)
  case less
  then show ?case by (subst wn_loop.simps) (auto simp: pt_sys_write_def Let_def)
qed

lemma port_write_in [simp]:
  "pt_in (snd (port_write_n bs p)) = pt_in p" "pt_in (snd (dv_write_n pt_sys_write 0 bs p)) = pt_in p"
  by (simp_all add: port_write_n_def dv_write_n_def wn_loop_in)

lemma dv_write_n_buf_in: "dv_write_n_buf pt_sys_write 0 b p m = Some (n, b', p') \<Longrightarrow> pt_in p' = pt_in p"
  using port_write_in(2) [of _ p] by (auto simp: dv_write_n_buf_def bind_Some_iff split_beta)

lemma srv_reply_in:
  assumes "srv_reply le hdr i ret b p m = Some (b', p', hdr')"
  shows "pt_in p' = pt_in p"
proof -
  let ?h = "take 3 hdr @ [BIN_MSG_TYPE_RSP] @ host_bytes le 4 (u32 (8 + bf_available (bf_flip b)))"
  let ?p = "snd (port_write_n (rsp_bytes le i ret) (snd (port_write_n ?h p)))"
  have "pt_in p' = pt_in ?p"
    using assms dv_write_n_buf_in [of "bf_flip b" ?p m _ b' p']
    unfolding srv_reply_def Let_def by (auto simp: bind_Some_iff split: if_splits)
  then show ?thesis by simp
qed

lemma rn_loop_in: "length (pt_in (snd (snd (rn_loop pt_sys_read 0 n nr nx acc p)))) \<le> length (pt_in p)"
proof (induction "nat (n - nr)" arbitrary: nr nx acc p rule: less_induct)
  case less
  show ?case
  proof (cases "nr < n \<and> pt_in p \<noteq> []")
    case False
    then show ?thesis by (subst rn_loop.simps) (auto simp: pt_sys_read_def)
  next
    case True
    define bs where "bs = take (nat (n - nr)) (pt_in p)"
    define k where "k = int (length bs)"
    let ?p = "p\<lparr>pt_in := drop (nat (n - nr)) (pt_in p)\<rparr>"
    have k: "0 < k" using True by (auto simp: k_def bs_def)
    have rd: "pt_sys_read 0 (n - nr) p = (k, bs, ?p)" using True by (simp add: pt_sys_read_def k_def bs_def)
    have "rn_loop pt_sys_read 0 n nr nx acc p = rn_loop pt_sys_read 0 n (nr + k) k (acc @ bs) ?p"
      using True k rd by (subst rn_loop.simps) simp
    moreover have "nat (n - (nr + k)) < nat (n - nr)" using True k by linarith
    ultimately show ?thesis using less [of "nr + k" k "acc @ bs" ?p] by simp
  qed
qed

lemma srv_payload_in:
  assumes "srv_payload le hdr b p m = Some (b', p', m')"
  shows "length (pt_in p') \<le> length (pt_in p)"
  using assms rn_loop_in [of "bf_available (bf_clear_size (pkt_size le hdr) b)" 0 0 "[]" p]
  by (auto simp: srv_payload_def dv_read_n_buf_def dv_read_n_def bind_Some_iff split_beta)

lemma run_opt_Ret_iff: "run_opt x = Ret y \<longleftrightarrow> x = Some y"
  by (cases x) simp_all

lemma srv_command_left:
  assumes "srv_command t le objs loc p s = Ret (loc', s')"
  shows "srv_left s' = length (pt_in p)"
  using assms srv_reply_in
  by (fastforce simp: srv_command_def run_then_Ret_iff run_opt_Ret_iff srv_left_def split_beta)

lemma srv_step_less:
  assumes "srv_step t le objs mg loc s = Ret (True, loc', s')"
  shows "srv_left s' < srv_left s"
proof (cases "sv_port s")
  case None
  then show ?thesis using assms by (simp add: srv_step_def)
next
  case (Some p)
  obtain n hdr p1 where h: "get_pkt_hdr (sv_quit s) mg (lc_hdr loc) p = (n, hdr, p1)" by (metis prod_cases3)
  have go: "\<not> sv_quit s" "0 \<le> n" using assms Some h by (auto simp: srv_step_def Let_def split: if_splits)
  then have less: "length (pt_in p1) < length (pt_in p)" using get_pkt_hdr_less [of mg "lc_hdr loc" p n hdr p1] h by simp
  obtain b p2 m where pl: "srv_payload le hdr (sv_cmd s) p1 (sv_mem s) = Some (b, p2, m)"
    using assms Some h go by (auto simp: srv_step_def run_opt_Ret_iff Let_def run_then_Ret_iff)
  have "srv_left s' = length (pt_in p2)"
  proof (cases "pkt_type hdr = BIN_MSG_TYPE_CMD")
    case False
    then show ?thesis using assms Some h go pl by (auto simp: srv_step_def srv_left_def Let_def)
  next
    case True
    then show ?thesis using assms Some h go pl
      by (auto simp: srv_step_def run_then_Ret_iff Let_def dest!: srv_command_left)
  qed
  then show ?thesis using less srv_payload_in [OF pl] Some by (simp add: srv_left_def)
qed

text \<open>\<open>run\<close>: rounds until one of them leaves the loop, or \<open>quit\<close> was called before it started.\<close>

function srv_run :: "nat \<Rightarrow> bool \<Rightarrow> (int \<Rightarrow> 'w dist_obj) \<Rightarrow> byte list \<Rightarrow> srv_loc \<Rightarrow> 'w srv \<Rightarrow> (int \<times> 'w srv) run" where
  "srv_run t le objs mg loc s =
     (if sv_quit s then Ret (0, s)
      else case srv_step t le objs mg loc s of
             Ret (True, loc', s') \<Rightarrow> srv_run t le objs mg loc' s'
           | Ret (False, loc', s') \<Rightarrow> Ret (0, s')
           | Blocks \<Rightarrow> Blocks
           | Undef \<Rightarrow> Undef)"
  by pat_completeness auto
termination
  by (relation "measure (\<lambda>(t, le, objs, mg, loc, s). srv_left s)") (auto dest: srv_step_less)

declare srv_run.simps [simp del]

section \<open>Sending a command\<close>

definition srv_send_unlocked :: "bool \<Rightarrow> byte \<Rightarrow> bf \<Rightarrow> bf \<Rightarrow> port \<Rightarrow> byte mem \<Rightarrow> (int \<times> bf \<times> bf \<times> port \<times> byte mem) option" where
  "srv_send_unlocked le ty packet rsp p m =
     (let hdr = pkt_bytes le 0 ty (u32 (bf_available packet)); (r, p) = port_write_n hdr p
      in if r < 0 then Some (- CFXE_PACKET_WRITE, packet, rsp, p, m)
         else do { (r, packet, p) \<leftarrow> dv_write_n_buf pt_sys_write 0 packet p m;
           if r < 0 then Some (- CFXE_PACKET_WRITE, packet, rsp, p, m)
           else let (r, h, p) = port_read_n 8 p
                in if r \<noteq> 8 then Some (- CFXE_PACKET_READ, packet, rsp, p, m)
                   else let (r, rh, p) = port_read_n 8 p
                        in if r \<noteq> 8 then Some (- CFXE_PACKET_READ, packet, rsp, p, m)
                           else let n = u32 (pkt_size le h - 8)
                                in if n \<noteq> 0
                                   then do { (r, rsp, p, m) \<leftarrow> dv_read_n_buf pt_sys_read 0 (bf_set_size n rsp) p m;
                                             Some (rsp_reply le rh, packet, bf_flip rsp, p, m) }
                                   else Some (rsp_reply le rh, packet, rsp, p, m) })"

definition srv_send :: "nat \<Rightarrow> bool \<Rightarrow> byte \<Rightarrow> bf \<Rightarrow> bf \<Rightarrow> 'w srv \<Rightarrow> (int \<times> bf \<times> bf \<times> 'w srv) run" where
  "srv_send t le ty packet rsp s =
     run_then (guard_ctor (mutex_type t) (sv_lock s)) (\<lambda>g.
     run_then (run_opt (sv_port s)) (\<lambda>p.
     run_then (run_opt (srv_send_unlocked le ty packet rsp p (sv_mem s))) (\<lambda>(r, packet, rsp, p, m).
     run_then (guard_dtor (mutex_type t) g) (\<lambda>l.
     Ret (r, packet, rsp, s\<lparr>sv_lock := l, sv_port := Some p, sv_mem := m\<rparr>)))))"

section \<open>Stubs\<close>

text \<open>A stub is the target it addresses and the server it sends through, which is passed along.
  \<open>ca\<close> and \<open>ra\<close> are the addresses of the arrays of the two local buffers.\<close>

definition CMD_SIZE :: int where "CMD_SIZE = DFLT_CMD_RSP_SIZE"

definition di_stub_ctor :: int where "di_stub_ctor = tgt_obj DIST_OBJ_CLASS_DIG_IN 0"
definition di_stub_ctor_inst :: "int \<Rightarrow> int" where "di_stub_ctor_inst i = tgt_obj DIST_OBJ_CLASS_DIG_IN i"
definition do_stub_ctor :: int where "do_stub_ctor = tgt_obj DIST_OBJ_CLASS_DIG_OUT 0"
definition do_stub_ctor_inst :: "int \<Rightarrow> int" where "do_stub_ctor_inst i = tgt_obj DIST_OBJ_CLASS_DIG_OUT i"

text \<open>The three words at the front of every command.\<close>

definition put_cmd_hdr :: "bool \<Rightarrow> int \<Rightarrow> int \<Rightarrow> codec \<Rightarrow> 'w srv \<Rightarrow> (codec \<times> 'w srv) option" where
  "put_cmd_hdr le tgt op enc s =
     (let (i, s) = srv_next_msg_id s
      in do { (n1, enc, m) \<leftarrow> enc_put_uint32 le i enc (sv_mem s); (n2, enc, m) \<leftarrow> enc_put_uint32 le tgt enc m;
              (n3, enc, m) \<leftarrow> enc_put_uint32 le op enc m; Some (enc, s\<lparr>sv_mem := m\<rparr>) })"

definition stub_send :: "nat \<Rightarrow> bool \<Rightarrow> int \<Rightarrow> codec \<Rightarrow> 'w srv \<Rightarrow> (int \<times> bf \<times> 'w srv) run" where
  "stub_send t le ra enc s =
     run_then (srv_send t le BIN_MSG_TYPE_CMD (bf_flip (cd_buf enc)) (fb_ctor ra CMD_SIZE) s)
       (\<lambda>(r, packet, rsp, s). Ret (r, rsp, s))"

definition di_stub_width :: "nat \<Rightarrow> bool \<Rightarrow> int \<Rightarrow> int \<Rightarrow> int \<Rightarrow> 'w srv \<Rightarrow> (int \<times> 'w srv) run" where
  "di_stub_width t le ca ra tgt s =
     run_then (run_opt (put_cmd_hdr le tgt 0 (cd_ctor (fb_ctor ca CMD_SIZE)) s)) (\<lambda>(enc, s).
     run_then (stub_send t le ra enc s) (\<lambda>(r, rsp, s).
     if r \<noteq> 0 then Ret (0, s)
     else run_then (run_opt (dec_get le 4 (cd_ctor rsp) (sv_mem s))) (\<lambda>(n, wd, d).
       Ret (case wd of None \<Rightarrow> 0 | Some v \<Rightarrow> signed_val 4 v, s))))"

definition di_stub_value :: "nat \<Rightarrow> bool \<Rightarrow> int \<Rightarrow> int \<Rightarrow> int \<Rightarrow> int \<Rightarrow> 'w srv \<Rightarrow> (bool \<times> 'w srv) run" where
  "di_stub_value t le ca ra tgt bt s =
     run_then (run_opt (put_cmd_hdr le tgt 1 (cd_ctor (fb_ctor ca CMD_SIZE)) s)) (\<lambda>(enc, s).
     run_then (run_opt (enc_put_uint32 le (u32 bt) enc (sv_mem s))) (\<lambda>(n, enc, m).
     run_then (stub_send t le ra enc (s\<lparr>sv_mem := m\<rparr>)) (\<lambda>(r, rsp, s).
     if r \<noteq> 0 then Ret (False, s)
     else run_then (run_opt (dec_get le 1 (cd_ctor rsp) (sv_mem s))) (\<lambda>(n, v, d).
       Ret (case v of None \<Rightarrow> False | Some x \<Rightarrow> x \<noteq> 0, s)))))"

definition do_stub_width :: "nat \<Rightarrow> bool \<Rightarrow> int \<Rightarrow> int \<Rightarrow> int \<Rightarrow> 'w srv \<Rightarrow> (int \<times> 'w srv) run" where
  "do_stub_width t le ca ra tgt s =
     run_then (run_opt (put_cmd_hdr le tgt 0 (cd_ctor (fb_ctor ca CMD_SIZE)) s)) (\<lambda>(enc, s).
     run_then (stub_send t le ra enc s) (\<lambda>(r, rsp, s).
     if r \<noteq> 0 then Ret (0, s)
     else run_then (run_opt (dec_get le 4 (cd_ctor rsp) (sv_mem s))) (\<lambda>(n, wd, d).
       Ret (case wd of None \<Rightarrow> 0 | Some v \<Rightarrow> signed_val 4 v, s))))"

definition do_stub_set_to :: "nat \<Rightarrow> bool \<Rightarrow> int \<Rightarrow> int \<Rightarrow> int \<Rightarrow> int \<Rightarrow> bool \<Rightarrow> 'w srv \<Rightarrow> 'w srv run" where
  "do_stub_set_to t le ca ra tgt bt v s =
     run_then (run_opt (put_cmd_hdr le tgt 1 (cd_ctor (fb_ctor ca CMD_SIZE)) s)) (\<lambda>(enc, s).
     run_then (run_opt (enc_put_int32 le bt enc (sv_mem s))) (\<lambda>(n, enc, m).
     run_then (run_opt (enc_put_bool le v enc m)) (\<lambda>(n, enc, m).
     run_then (stub_send t le ra enc (s\<lparr>sv_mem := m\<rparr>)) (\<lambda>(r, rsp, s). Ret s))))"

definition do_stub_set :: "nat \<Rightarrow> bool \<Rightarrow> int \<Rightarrow> int \<Rightarrow> int \<Rightarrow> int \<Rightarrow> 'w srv \<Rightarrow> 'w srv run" where
  "do_stub_set t le ca ra tgt bt s = do_stub_set_to t le ca ra tgt bt True s"

definition do_stub_clear :: "nat \<Rightarrow> bool \<Rightarrow> int \<Rightarrow> int \<Rightarrow> int \<Rightarrow> int \<Rightarrow> 'w srv \<Rightarrow> 'w srv run" where
  "do_stub_clear t le ca ra tgt bt s =
     run_then (run_opt (put_cmd_hdr le tgt 2 (cd_ctor (fb_ctor ca CMD_SIZE)) s)) (\<lambda>(enc, s).
     run_then (run_opt (enc_put_int32 le bt enc (sv_mem s))) (\<lambda>(n, enc, m).
     run_then (stub_send t le ra enc (s\<lparr>sv_mem := m\<rparr>)) (\<lambda>(r, rsp, s). Ret s)))"

definition do_stub_toggle :: "nat \<Rightarrow> bool \<Rightarrow> int \<Rightarrow> int \<Rightarrow> int \<Rightarrow> int \<Rightarrow> 'w srv \<Rightarrow> 'w srv run" where
  "do_stub_toggle t le ca ra tgt bt s =
     run_then (run_opt (put_cmd_hdr le tgt 3 (cd_ctor (fb_ctor ca CMD_SIZE)) s)) (\<lambda>(enc, s).
     run_then (run_opt (enc_put_int32 le bt enc (sv_mem s))) (\<lambda>(n, enc, m).
     run_then (stub_send t le ra enc (s\<lparr>sv_mem := m\<rparr>)) (\<lambda>(r, rsp, s). Ret s)))"

end
