(* ===== verification/DistObjRpc.thy ===== *)
theory DistObjRpc imports DistObjSrvr begin

text \<open>
  What the distributed objects promise: a command that a stub sends is executed by the object
  the server has registered, and its result comes back. Buffers are read as byte lists
  (\<open>wbuf\<close> while they are written, \<open>rbuf\<close> while they are read); an object's methods are
  specified on the argument bytes and the result bytes.
\<close>

section \<open>Buffers as lists\<close>

definition wbuf :: "bf \<Rightarrow> byte mem \<Rightarrow> byte list \<Rightarrow> bool" where
  "wbuf b m xs \<longleftrightarrow> bf_inv b m \<and> bf_lim b = bf_end b \<and> bf_end b - bf_base b < 2147483648 \<and> bf_done b m = xs"

definition rbuf :: "bf \<Rightarrow> byte mem \<Rightarrow> int \<Rightarrow> byte list \<Rightarrow> bool" where
  "rbuf b m n xs \<longleftrightarrow> bf_inv b m \<and> bf_end b - bf_base b < 2147483648 \<and> bf_pos b = bf_base b + n \<and> bf_rest b m = xs"

definition bf_same :: "bf \<Rightarrow> bf \<Rightarrow> bool" where
  "bf_same b b' \<longleftrightarrow> bf_base b' = bf_base b \<and> bf_end b' = bf_end b"

definition bf_disjoint :: "bf \<Rightarrow> bf \<Rightarrow> bool" where
  "bf_disjoint b d \<longleftrightarrow> bf_end b \<le> bf_base d \<or> bf_end d \<le> bf_base b"

definition untouched :: "bf \<Rightarrow> byte mem \<Rightarrow> byte mem \<Rightarrow> bool" where
  "untouched b m m' \<longleftrightarrow> m_live m' = m_live m \<and> (\<forall>a. a < bf_base b \<or> bf_end b \<le> a \<longrightarrow> m_val m' a = m_val m a)"

lemma bf_same_refl [simp]: "bf_same b b"
  by (simp add: bf_same_def)

lemma bf_same_trans: "bf_same b c \<Longrightarrow> bf_same c d \<Longrightarrow> bf_same b d"
  by (simp add: bf_same_def)

lemma untouched_refl [simp]: "untouched b m m"
  by (simp add: untouched_def)

lemma untouched_trans: "untouched b m m' \<Longrightarrow> untouched b m' m'' \<Longrightarrow> untouched b m m''"
  by (simp add: untouched_def)

lemma untouched_same: "bf_same b b' \<Longrightarrow> untouched b' = untouched b"
  by (intro ext) (simp add: untouched_def bf_same_def)

lemma bf_disjoint_same: "bf_same b b' \<Longrightarrow> bf_same d d' \<Longrightarrow> bf_disjoint b' d' = bf_disjoint b d"
  by (simp add: bf_disjoint_def bf_same_def)

lemma bf_disjoint_sym: "bf_disjoint b d \<Longrightarrow> bf_disjoint d b"
  by (auto simp: bf_disjoint_def)

lemma bf_inv_untouched: "bf_inv b m \<Longrightarrow> untouched d m m' \<Longrightarrow> bf_inv b m'"
  by (simp add: bf_inv_def untouched_def live_range_def)

lemma cells_untouched:
  assumes "untouched d m m'" "bf_disjoint b d" "bf_base b \<le> p" "p + n \<le> bf_end b"
  shows "cells m' p n = cells m p n"
proof (rule nth_equalityI)
  fix i assume "i < length (cells m' p n)"
  then have i: "i < nat n" by simp
  then have "p + int i < bf_base d \<or> bf_end d \<le> p + int i"
    using assms(2-4) unfolding bf_disjoint_def by linarith
  then have "m_val m' (p + int i) = m_val m (p + int i)" using assms(1) by (auto simp: untouched_def)
  then show "cells m' p n ! i = cells m p n ! i" using i by (simp add: nth_cells)
qed simp

lemma rbuf_untouched: "rbuf b m n xs \<Longrightarrow> untouched d m m' \<Longrightarrow> bf_disjoint b d \<Longrightarrow> rbuf b m' n xs"
  using cells_untouched [of d m m' b "bf_pos b" "bf_lim b - bf_pos b"]
    bf_inv_untouched [of b m d m'] by (auto simp: rbuf_def bf_rest_def bf_inv_def)

lemma wbuf_untouched: "wbuf b m xs \<Longrightarrow> untouched d m m' \<Longrightarrow> bf_disjoint b d \<Longrightarrow> wbuf b m' xs"
  using cells_untouched [of d m m' b "bf_base b" "bf_pos b - bf_base b"]
    bf_inv_untouched [of b m d m'] by (auto simp: wbuf_def bf_done_def bf_inv_def)

lemma wbuf_pos: "wbuf b m xs \<Longrightarrow> bf_pos b = bf_base b + int (length xs)"
  by (auto simp: wbuf_def bf_done_def bf_inv_def)

lemma rbuf_lim: "rbuf b m n xs \<Longrightarrow> bf_lim b = bf_pos b + int (length xs)"
  by (auto simp: rbuf_def bf_rest_def bf_inv_def)

lemma put_at_untouched:
  "bf_base b \<le> p \<Longrightarrow> p + int (length xs) \<le> bf_end b \<Longrightarrow> untouched b m (put_at p xs m)"
  by (auto simp: untouched_def put_at_outside)

lemma cells_put_at_before: "p + n \<le> q \<Longrightarrow> cells (put_at q xs m) p n = cells m p n"
  by (rule nth_equalityI) (auto simp: nth_cells intro!: put_at_outside)

lemma cells_plus: "0 \<le> a \<Longrightarrow> 0 \<le> b \<Longrightarrow> cells m p (a + b) = cells m p a @ cells m (p + a) b"
  using cells_append [of a "a + b" m p] by simp

lemma enc_put_append:
  assumes w: "wbuf b m xs" and k: "0 < k" "k dvd length xs" "int (length xs + k) \<le> bf_end b - bf_base b"
  shows "\<exists>b' m'. enc_put le k v \<lparr>cd_buf = b, cd_good = True\<rparr> m = Some (int k, \<lparr>cd_buf = b', cd_good = True\<rparr>, m') \<and>
    wbuf b' m' (xs @ host_bytes le k v) \<and> bf_same b b' \<and> untouched b m m'"
proof -
  let ?p = "bf_base b + int (length xs)"
  have inv: "bf_inv b m" "bf_lim b = bf_end b" "bf_end b - bf_base b < 2147483648" "bf_done b m = xs"
    using w by (simp_all add: wbuf_def)
  have pos: "bf_pos b = ?p" by (rule wbuf_pos [OF w])
  have off: "field_off k (bf_pos b - bf_base b) = int (length xs)"
    using k by (simp add: field_off_round pos flip: zmod_int)
  let ?b = "b\<lparr>bf_pos := ?p + int k\<rparr>" and ?m = "put_at ?p (host_bytes le k v) m"
  have e: "enc_put le k v \<lparr>cd_buf = b, cd_good = True\<rparr> m = Some (int k, \<lparr>cd_buf = ?b, cd_good = True\<rparr>, ?m)"
    and i: "bf_inv ?b ?m"
    using enc_put_fits [OF inv(1) k(1) inv(2,3), of le v] off k(3) inv(2) by simp_all
  have "cells ?m (bf_base b) (int (length xs) + int k) = cells ?m (bf_base b) (int (length xs)) @ cells ?m ?p (int k)"
    by (rule cells_plus) simp_all
  moreover have "cells ?m (bf_base b) (int (length xs)) = xs"
    using inv(4) pos by (simp add: cells_put_at_before bf_done_def)
  moreover have "cells ?m ?p (int k) = host_bytes le k v"
    using cells_put_at [of ?p "host_bytes le k v" m] by simp
  ultimately have "bf_done ?b ?m = xs @ host_bytes le k v" by (simp add: bf_done_def add.assoc)
  then have "wbuf ?b ?m (xs @ host_bytes le k v)" using i inv by (simp add: wbuf_def)
  moreover have "untouched b m ?m" using k(3) by (intro put_at_untouched) simp_all
  ultimately show ?thesis using e by (intro exI [of _ ?b] exI [of _ ?m]) (simp add: bf_same_def)
qed

lemma dec_get_take:
  assumes r: "rbuf b m n (bs @ ys)" and k: "0 < k" "length bs = k" "int k dvd n"
  shows "\<exists>b'. dec_get le k \<lparr>cd_buf = b, cd_good = True\<rparr> m = Some (int k, Some (host_val le bs), \<lparr>cd_buf = b', cd_good = True\<rparr>) \<and>
    rbuf b' m (n + int k) ys \<and> bf_same b b'"
proof -
  have inv: "bf_inv b m" "bf_end b - bf_base b < 2147483648" "bf_pos b = bf_base b + n" "bf_rest b m = bs @ ys"
    using r by (simp_all add: rbuf_def)
  have lim: "bf_lim b = bf_pos b + int k + int (length ys)" using rbuf_lim [OF r] k by simp
  have off: "field_off k (bf_pos b - bf_base b) = n" using k inv(3) by (simp add: field_off_round)
  let ?b = "b\<lparr>bf_pos := bf_base b + n + int k\<rparr>"
  have split: "cells m (bf_pos b) (int k + int (length ys)) = cells m (bf_pos b) (int k) @ cells m (bf_pos b + int k) (int (length ys))"
    by (rule cells_plus) simp_all
  then have "cells m (bf_pos b) (int k) @ cells m (bf_pos b + int k) (int (length ys)) = bs @ ys"
    using inv(4) lim by (simp add: bf_rest_def)
  then have "cells m (bf_pos b) (int k) = bs" "cells m (bf_pos b + int k) (int (length ys)) = ys"
    using k(2) by (simp_all add: append_eq_append_conv)
  moreover have "dec_get le k \<lparr>cd_buf = b, cd_good = True\<rparr> m =
      Some (int k, Some (host_val le (cells m (bf_base b + n) (int k))), \<lparr>cd_buf = ?b, cd_good = True\<rparr>)" and "bf_inv ?b m"
    using dec_get_fits [OF inv(1) k(1) inv(2), of le] off lim inv(3) by simp_all
  ultimately show ?thesis using inv lim
    by (intro exI [of _ ?b]) (simp add: bf_same_def rbuf_def bf_rest_def)
qed

lemma dec_get_none:
  assumes r: "rbuf b m n xs" and k: "0 < k" "length xs < k"
  shows "\<exists>b'. dec_get le k \<lparr>cd_buf = b, cd_good = True\<rparr> m = Some (0, None, \<lparr>cd_buf = b', cd_good = False\<rparr>) \<and> bf_same b b'"
proof -
  have inv: "bf_inv b m" "bf_end b - bf_base b < 2147483648" using r by (simp_all add: rbuf_def)
  have "bf_lim b < bf_base b + field_off k (bf_pos b - bf_base b) + int k"
    using field_off_bounds [OF k(1), of "bf_pos b - bf_base b"] rbuf_lim [OF r] k(2) by simp
  from dec_get_short [OF inv(1) k(1) inv(2) this, of le] show ?thesis by (auto simp: bf_same_def)
qed

section \<open>What an object promises\<close>

text \<open>The effect of an operation on the argument bytes and the world: what \<open>invoke\<close> returns, the
  result bytes and the new world; \<open>None\<close> for a command that is not well formed.\<close>

type_synonym 'w ospec = "int \<Rightarrow> byte list \<Rightarrow> 'w \<Rightarrow> (int \<times> byte list \<times> 'w) option"

definition call_ready :: "'w call \<Rightarrow> byte list \<Rightarrow> bool" where
  "call_ready c args \<longleftrightarrow> cd_good (ca_param c) \<and> rbuf (cd_buf (ca_param c)) (ca_mem c) 12 args \<and>
     cd_good (ca_rsp c) \<and> wbuf (cd_buf (ca_rsp c)) (ca_mem c) [] \<and>
     bf_disjoint (cd_buf (ca_param c)) (cd_buf (ca_rsp c)) \<and>
     4 \<le> bf_end (cd_buf (ca_rsp c)) - bf_base (cd_buf (ca_rsp c))"

definition call_done :: "'w call \<Rightarrow> 'w call \<Rightarrow> byte list \<Rightarrow> 'w \<Rightarrow> bool" where
  "call_done c c' pay w \<longleftrightarrow> wbuf (cd_buf (ca_rsp c')) (ca_mem c') pay \<and>
     bf_same (cd_buf (ca_param c)) (cd_buf (ca_param c')) \<and> bf_same (cd_buf (ca_rsp c)) (cd_buf (ca_rsp c')) \<and>
     untouched (cd_buf (ca_rsp c)) (ca_mem c) (ca_mem c') \<and> ca_world c' = w"

locale remote_object =
  fixes invoke :: "int \<Rightarrow> 'w handler"
    and spec :: "'w ospec"
  assumes invoke_spec: "spec op args (ca_world c) = Some (ret, pay, w) \<Longrightarrow> call_ready c args \<Longrightarrow>
      \<exists>c'. invoke op c = Some (ret, c') \<and> call_done c c' pay w"

definition di_spec :: "bool \<Rightarrow> 'w digin \<Rightarrow> 'w ospec" where
  "di_spec le ob op args w =
     (if op = 0 then let (wd, w') = di_width ob w in Some (0, host_bytes le 4 (u32 wd), w')
      else if op = 1 then
        if length args < 4 then None
        else let (v, w') = di_value ob (signed_val 4 (host_val le (take 4 args))) w
             in Some (0, [if v then 1 else 0], w')
      else Some (-1, [], w))"

definition do_spec :: "bool \<Rightarrow> 'w digout \<Rightarrow> 'w ospec" where
  "do_spec le ob op args w =
     (let i = signed_val 4 (host_val le (take 4 args))
      in if op = 0 then let (wd, w') = do_width ob w in Some (0, host_bytes le 4 (u32 wd), w')
         else if op = 1 \<and> 4 \<le> length args
           then Some (0, [], do_set ob i (length args = 4 \<or> args ! 4 \<noteq> 0) w)
         else if op = 2 \<and> 4 \<le> length args then Some (0, [], do_clear ob i w)
         else if op = 3 \<and> 4 \<le> length args then Some (0, [], do_toggle ob i w)
         else if op = 1 \<or> op = 2 \<or> op = 3 then None
         else Some (- CFXE_UNKNOWN_CMD, [], w))"

lemma call_get_args:
  assumes "call_ready c args" "4 \<le> length args"
  shows "\<exists>b. call_get_bit le c = Some (signed_val 4 (host_val le (take 4 args)), c\<lparr>ca_param := \<lparr>cd_buf = b, cd_good = True\<rparr>\<rparr>) \<and>
    rbuf b (ca_mem c) 16 (drop 4 args) \<and> bf_same (cd_buf (ca_param c)) b"
proof -
  let ?b = "cd_buf (ca_param c)"
  have c: "ca_param c = \<lparr>cd_buf = ?b, cd_good = True\<rparr>" "rbuf ?b (ca_mem c) 12 (take 4 args @ drop 4 args)"
    using assms(1) by (simp_all add: call_ready_def)
  obtain b where "dec_get le 4 (ca_param c) (ca_mem c) =
      Some (4, Some (host_val le (take 4 args)), \<lparr>cd_buf = b, cd_good = True\<rparr>)"
      "rbuf b (ca_mem c) 16 (drop 4 args)" "bf_same ?b b"
    using dec_get_take [OF c(2), of 4 le] assms(2) c(1) by auto
  then show ?thesis by (auto simp: call_get_bit_def call_get_def)
qed

lemma call_put_result:
  assumes "call_ready c args" "bf_same (cd_buf (ca_param c)) (cd_buf (ca_param d))" "ca_rsp d = ca_rsp c"
    "ca_mem d = ca_mem c" "ca_world d = w" "k = 1 \<or> k = 4"
  shows "\<exists>c'. call_put le k v d = Some c' \<and> call_done c c' (host_bytes le k v) w"
proof -
  let ?b = "cd_buf (ca_rsp c)"
  have c: "ca_rsp c = \<lparr>cd_buf = ?b, cd_good = True\<rparr>" "wbuf ?b (ca_mem c) []" "4 \<le> bf_end ?b - bf_base ?b"
    using assms(1) by (simp_all add: call_ready_def)
  have k: "0 < k" "k dvd length []" "int (length [] + k) \<le> bf_end ?b - bf_base ?b" using assms(6) c(3) by auto
  obtain b' m' where "enc_put le k v (ca_rsp c) (ca_mem c) = Some (int k, \<lparr>cd_buf = b', cd_good = True\<rparr>, m')"
      "wbuf b' m' (host_bytes le k v)" "bf_same ?b b'" "untouched ?b (ca_mem c) m'"
    using enc_put_append [OF c(2) k, of le v] c(1) by auto
  then show ?thesis using assms(2-5) by (auto simp: call_put_def call_done_def)
qed

lemma call_done_same:
  assumes "call_ready c args" "bf_same (cd_buf (ca_param c)) (cd_buf (ca_param c'))" "ca_rsp c' = ca_rsp c"
    "ca_mem c' = ca_mem c" "ca_world c' = w"
  shows "call_done c c' [] w"
  using assms by (simp add: call_done_def call_ready_def)

lemma host_bytes_bool:
  "host_bytes le (Suc 0) 1 = [1]" "host_bytes le (Suc 0) 0 = [0]"
  using host_bytes_1 [of le 1] host_bytes_1 [of le 0] by (simp_all add: word_of_int_0)

interpretation di: remote_object "di_invoke le ob" "di_spec le ob"
proof unfold_locales
  fix op args ret pay w and c :: "'a call"
  assume s: "di_spec le ob op args (ca_world c) = Some (ret, pay, w)" and r: "call_ready c args"
  have m: "di_invoke le ob op c = (if op = 0 then di_width_cmd le ob c else if op = 1 then di_value_cmd le ob c else Some (-1, c))"
    by (simp add: di_invoke_def di_get_mbr_ptr_def di_method_map_def)
  consider "op = 0" | "op = 1" | "op \<noteq> 0" "op \<noteq> 1" by blast
  then show "\<exists>c'. di_invoke le ob op c = Some (ret, c') \<and> call_done c c' pay w"
  proof cases
    case 1
    obtain wd where wd: "di_width ob (ca_world c) = (wd, w)" using s 1 by (auto simp: di_spec_def split: prod.splits)
    show ?thesis using s 1 wd m call_put_result [OF r, of "c\<lparr>ca_world := w\<rparr>" w 4 le "u32 wd"]
      by (auto simp: di_spec_def di_width_cmd_def)
  next
    case 2
    have l: "4 \<le> length args" using s 2 by (auto simp: di_spec_def split: if_splits)
    obtain b where b: "call_get_bit le c = Some (signed_val 4 (host_val le (take 4 args)), c\<lparr>ca_param := \<lparr>cd_buf = b, cd_good = True\<rparr>\<rparr>)"
        "bf_same (cd_buf (ca_param c)) b"
      using call_get_args [OF r l] by blast
    obtain v where v: "di_value ob (signed_val 4 (host_val le (take 4 args))) (ca_world c) = (v, w)"
      using s 2 l by (auto simp: di_spec_def split: prod.splits)
    show ?thesis using s 2 l m b v call_put_result [OF r, of "c\<lparr>ca_param := \<lparr>cd_buf = b, cd_good = True\<rparr>, ca_world := w\<rparr>" w 1 le "if v then 1 else 0"]
      by (auto simp: di_spec_def di_value_cmd_def host_bytes_bool)
  next
    case 3
    then show ?thesis using s m call_done_same [OF r, of c w] by (auto simp: di_spec_def)
  qed
qed

text \<open>The optional second parameter of \<open>set\<close>.\<close>

lemma call_get_flag:
  assumes "rbuf b (ca_mem c) 16 xs" "bf_same (cd_buf (ca_param c0)) b" "ca_param c = \<lparr>cd_buf = b, cd_good = True\<rparr>"
  shows "\<exists>v d. call_get le 1 c = Some (v, c\<lparr>ca_param := d\<rparr>) \<and> bf_same (cd_buf (ca_param c0)) (cd_buf d) \<and>
    (case v of None \<Rightarrow> True | Some x \<Rightarrow> x \<noteq> 0) = (xs = [] \<or> hd xs \<noteq> 0)"
proof (cases xs)
  case Nil
  then obtain b' where "dec_get le 1 (ca_param c) (ca_mem c) = Some (0, None, \<lparr>cd_buf = b', cd_good = False\<rparr>)" "bf_same b b'"
    using dec_get_none [OF assms(1), of 1 le] assms(3) by auto
  then show ?thesis using Nil bf_same_trans [OF assms(2)] by (auto simp: call_get_def)
next
  case (Cons x ys)
  then have "rbuf b (ca_mem c) 16 ([x] @ ys)" using assms(1) by simp
  then obtain b' where "dec_get le 1 (ca_param c) (ca_mem c) = Some (1, Some (host_val le [x]), \<lparr>cd_buf = b', cd_good = True\<rparr>)" "bf_same b b'"
    using dec_get_take [of b "ca_mem c" 16 "[x]" ys 1 le] assms(3) by auto
  moreover have "host_val le [x] = uint x" by (simp add: host_val_def)
  ultimately show ?thesis using Cons bf_same_trans [OF assms(2)] by (auto simp: call_get_def unsigned_eq_0_iff)
qed

interpretation dout: remote_object "do_invoke le ob" "do_spec le ob"
proof unfold_locales
  fix op args ret pay w and c :: "'a call"
  assume s: "do_spec le ob op args (ca_world c) = Some (ret, pay, w)" and r: "call_ready c args"
  have m: "do_invoke le ob op c = (if op = 0 then do_width_cmd le ob c else if op = 1 then do_set_cmd le ob c
      else if op = 2 then do_clear_cmd le ob c else if op = 3 then do_toggle_cmd le ob c else Some (- CFXE_UNKNOWN_CMD, c))"
    by (simp add: do_invoke_def do_get_mbr_ptr_def do_method_map_def)
  show "\<exists>c'. do_invoke le ob op c = Some (ret, c') \<and> call_done c c' pay w"
  proof (cases "op = 1 \<or> op = 2 \<or> op = 3")
    case False
    show ?thesis
    proof (cases "op = 0")
      case True
      obtain wd where wd: "do_width ob (ca_world c) = (wd, w)" using s True by (auto simp: do_spec_def split: prod.splits)
      show ?thesis using s True wd m call_put_result [OF r, of "c\<lparr>ca_world := w\<rparr>" w 4 le "u32 wd"]
        by (auto simp: do_spec_def do_width_cmd_def)
    next
      case f: False
      then show ?thesis using s False m call_done_same [OF r, of c w] by (auto simp: do_spec_def Let_def)
    qed
  next
    case True
    then have l: "4 \<le> length args" using s by (auto simp: do_spec_def Let_def split: if_splits)
    let ?i = "signed_val 4 (host_val le (take 4 args))"
    obtain b where b: "call_get_bit le c = Some (?i, c\<lparr>ca_param := \<lparr>cd_buf = b, cd_good = True\<rparr>\<rparr>)"
        "rbuf b (ca_mem c) 16 (drop 4 args)" "bf_same (cd_buf (ca_param c)) b"
      using call_get_args [OF r l] by blast
    let ?c = "c\<lparr>ca_param := \<lparr>cd_buf = b, cd_good = True\<rparr>\<rparr>"
    obtain v d where v: "call_get le 1 ?c = Some (v, ?c\<lparr>ca_param := d\<rparr>)" "bf_same (cd_buf (ca_param c)) (cd_buf d)"
        "(case v of None \<Rightarrow> True | Some x \<Rightarrow> x \<noteq> 0) = (drop 4 args = [] \<or> hd (drop 4 args) \<noteq> 0)"
      using call_get_flag [of b ?c "drop 4 args" c le] b by auto
    have "(drop 4 args = [] \<or> hd (drop 4 args) \<noteq> 0) = (length args = 4 \<or> args ! 4 \<noteq> 0)"
      using l by (cases "length args = 4") (auto simp: hd_drop_conv_nth)
    then have sv: "do_set_cmd le ob c = Some (0, ?c\<lparr>ca_param := d, ca_world := do_set ob ?i (length args = 4 \<or> args ! 4 \<noteq> 0) (ca_world c)\<rparr>)"
      using b(1) v by (simp add: do_set_cmd_def)
    show ?thesis using True s l m b(1,3) sv v(2) call_done_same [OF r]
      by (auto simp: do_spec_def do_clear_cmd_def do_toggle_cmd_def Let_def)
  qed
qed

text \<open>Any object of the library, and the registry in front of the objects.\<close>

fun obj_spec :: "bool \<Rightarrow> 'w dist_obj \<Rightarrow> 'w ospec" where
  "obj_spec le (DigInObj ob) = di_spec le ob"
| "obj_spec le (DigOutObj ob) = do_spec le ob"
| "obj_spec le (OtherObj f) = (\<lambda>op args w. None)"

interpretation skel: remote_object "obj_invoke le ob" "obj_spec le ob"
proof unfold_locales
  fix op args ret pay w and c :: "'a call"
  assume "obj_spec le ob op args (ca_world c) = Some (ret, pay, w)" "call_ready c args"
  then show "\<exists>c'. obj_invoke le ob op c = Some (ret, c') \<and> call_done c c' pay w"
    by (cases ob) (auto dest: di.invoke_spec dout.invoke_spec)
qed

definition reg_spec :: "bool \<Rightarrow> (int \<Rightarrow> 'w dist_obj) \<Rightarrow> (int \<times> int) list \<Rightarrow> int \<Rightarrow> 'w ospec" where
  "reg_spec le objs es key op args w =
     (case map_of es key of None \<Rightarrow> Some (- CFXE_UNKNOWN_OBJ, [], w) | Some p \<Rightarrow> obj_spec le (objs p) op args w)"

lemma dispatch_spec:
  assumes reg: "reg_holds r es" "length es < 64"
    and s: "reg_spec le objs es key op args (ca_world c) = Some (ret, pay, w)" and c: "call_ready c args"
  shows "\<exists>c'. reg_dispatch le objs r key op c = Some (ret, c') \<and> call_done c c' pay w"
proof -
  have g: "reg_get_obj key r = Some (case map_of es key of Some p \<Rightarrow> p | None \<Rightarrow> 0)"
    using reg_get_loop_finds [OF reg(1), of 0 key] reg(2) by (auto simp: reg_get_obj_def split: option.split)
  show ?thesis
  proof (cases "map_of es key")
    case None
    then show ?thesis using g s call_done_same [OF c, of c w] by (auto simp: reg_dispatch_def reg_spec_def)
  next
    case (Some p)
    then have "p \<noteq> 0" using reg(1) map_of_SomeD [of es key p] by (fastforce simp: reg_holds_def)
    then show ?thesis using g s Some skel.invoke_spec [OF _ c] by (simp add: reg_dispatch_def reg_spec_def)
  qed
qed

section \<open>The server's loop\<close>

text \<open>A command on the wire and the reply to it.\<close>

record request =
  rq_order :: byte
  rq_id :: int
  rq_tgt :: int
  rq_op :: int
  rq_args :: "byte list"

definition cmd_bytes :: "bool \<Rightarrow> request \<Rightarrow> byte list" where
  "cmd_bytes le q = host_bytes le 4 (rq_id q) @ host_bytes le 4 (rq_tgt q) @ host_bytes le 4 (rq_op q) @ rq_args q"

definition req_bytes :: "bool \<Rightarrow> request \<Rightarrow> byte list" where
  "req_bytes le q = pkt_bytes le (rq_order q) BIN_MSG_TYPE_CMD (int (length (cmd_bytes le q))) @ cmd_bytes le q"

definition reply_bytes :: "bool \<Rightarrow> request \<Rightarrow> int \<Rightarrow> byte list \<Rightarrow> byte list" where
  "reply_bytes le q ret pay =
     pkt_bytes le (rq_order q) BIN_MSG_TYPE_RSP (8 + int (length pay)) @ rsp_bytes le (rq_id q) ret @ pay"

definition rq_ok :: "request \<Rightarrow> bool" where
  "rq_ok q \<longleftrightarrow> 0 \<le> rq_id q \<and> rq_id q < 2 ^ 32 \<and> 0 \<le> rq_tgt q \<and> rq_tgt q < 2 ^ 32 \<and> 0 \<le> rq_op q \<and> rq_op q < 2 ^ 32"

text \<open>Storage for a buffer, whatever its position and limit.\<close>

definition bf_space :: "bf \<Rightarrow> byte mem \<Rightarrow> int \<Rightarrow> bool" where
  "bf_space b m n \<longleftrightarrow> n \<le> bf_end b - bf_base b \<and> 0 \<le> n \<and> bf_end b - bf_base b < 1073741824 \<and>
     live_range m (bf_base b) (bf_end b - bf_base b)"

lemma bf_space_untouched: "bf_space b m n \<Longrightarrow> untouched d m m' \<Longrightarrow> bf_space b m' n"
  by (simp add: bf_space_def untouched_def live_range_def)

lemma bf_space_same: "bf_same b b' \<Longrightarrow> bf_space b' m n = bf_space b m n"
  by (simp add: bf_space_def bf_same_def)

lemma bf_clear_wbuf: "bf_space b m n \<Longrightarrow> wbuf (bf_clear b) m [] \<and> bf_same b (bf_clear b)"
  by (simp add: bf_space_def wbuf_def bf_clear_def bf_inv_def bf_done_def bf_same_def)

lemma bf_rest_clear_size:
  assumes "bf_space b m n" "int k \<le> n"
  shows "bf_inv (bf_clear_size (int k) b) m" "bf_available (bf_clear_size (int k) b) = int k"
    "bf_same b (bf_clear_size (int k) b)" "bf_pos (bf_clear_size (int k) b) = bf_base b"
    "bf_lim (bf_clear_size (int k) b) = bf_base b + int k"
  using assms by (auto simp: bf_space_def bf_clear_size_def bf_inv_def bf_available_def bf_capacity_def bf_same_def)

lemma bf_clear_size_pos [simp]: "(bf_clear_size k b)\<lparr>bf_pos := bf_base b\<rparr> = bf_clear_size k b"
  by (simp add: bf_clear_size_def Let_def)

lemma srv_payload_reads:
  assumes sp: "bf_space b m n" "int (length P) \<le> n" and sz: "pkt_size le hdr = int (length P)"
    and p: "pt_in p = P @ rest"
  shows "\<exists>b' m'. srv_payload le hdr b p m = Some (b', p\<lparr>pt_in := rest\<rparr>, m') \<and> rbuf b' m' 0 P \<and>
    bf_same b b' \<and> untouched b m m'"
proof -
  let ?b = "bf_clear_size (int (length P)) b"
  note c = bf_rest_clear_size [OF sp]
  have cap: "bf_end b - bf_base b < 1073741824" "int (length P) \<le> bf_end b - bf_base b" using sp by (simp_all add: bf_space_def)
  have rd: "dv_read_n pt_sys_read 0 (int (length P)) p = (int (length P), P, p\<lparr>pt_in := rest\<rparr>)"
    using port_read_n_eq [of "int (length P)" p] cap p by (auto simp: port_read_n_def)
  let ?m = "put_at (bf_base b) P m" and ?b' = "bf_flip (?b\<lparr>bf_pos := bf_base b + int (length P)\<rparr>)"
  have "live_range m (bf_base b) (int (length P))"
    using bf_live [OF c(1), of "bf_base b" "int (length P)"] c(3) cap by (simp add: bf_same_def)
  then have wr: "wr_list m (bf_pos ?b) P = Some ?m" using c(4) by (simp add: wr_list_put_at)
  have st: "srv_payload le hdr b p m = Some (?b', p\<lparr>pt_in := rest\<rparr>, ?m)"
    using rd wr c(2,4) by (cases "P = []") (auto simp: srv_payload_def dv_read_n_buf_def sz bf_position_ptr_def bf_incr_position_def)
  have "rbuf ?b' ?m 0 P"
    using c cap cells_put_at [of "bf_base b" P m] by (simp add: rbuf_def bf_flip_def bf_inv_def bf_rest_def bf_same_def)
  moreover have "bf_same b ?b'" using c(3) by (simp add: bf_same_def bf_flip_def)
  moreover have "untouched b m ?m" using cap by (intro put_at_untouched) simp_all
  ultimately show ?thesis using st by blast
qed

lemma hdr_scan_one:
  assumes "pt_in p = x # xs"
  shows "hdr_scan q [chC, 0] 1 p =
    (let p' = p\<lparr>pt_in := xs\<rparr>
     in if x = chX \<or> q then (0, p') else hdr_scan q (if x = chC then [chC, 0] else [chC, x]) 1 p')"
  using assms by (subst hdr_scan.simps) (simp add: port_read_n_eq overlay_def Let_def)

lemma hdr_scan_two:
  assumes "pt_in p = x # y # xs" "length mg = 2"
  shows "hdr_scan q mg 0 p =
    (let p' = p\<lparr>pt_in := xs\<rparr>
     in if y = chC then (if q then (0, p') else hdr_scan q [chC, 0] 1 p')
        else if [x, y] = [chC, chX] \<or> q then (0, p') else hdr_scan q [x, y] 0 p')"
  using assms by (subst hdr_scan.simps) (simp add: port_read_n_eq overlay_def Let_def)

text \<open>Bytes other than \<open>'C'\<close> in front of a header are skipped, whatever the alignment.\<close>

lemma hdr_scan_skips:
  "chC \<notin> set junk \<Longrightarrow> length mg = 2 \<Longrightarrow> pt_in p = junk @ chC # chX # xs \<Longrightarrow>
   hdr_scan False mg 0 p = (0, p\<lparr>pt_in := xs\<rparr>)"
proof (induction "length junk" arbitrary: junk mg p rule: less_induct)
  case less
  consider "junk = []" | x where "junk = [x]" | x y zs where "junk = x # y # zs"
    by (metis neq_Nil_conv)
  then show ?case
  proof cases
    case 1
    then show ?thesis using less.prems hdr_scan_two [of p chC chX xs mg False] by simp
  next
    case 2
    then have "hdr_scan False mg 0 p = hdr_scan False [chC, 0] 1 (p\<lparr>pt_in := chX # xs\<rparr>)"
      using less.prems hdr_scan_two [of p x chC "chX # xs" mg False] by simp
    then show ?thesis using hdr_scan_one [of "p\<lparr>pt_in := chX # xs\<rparr>" chX xs False] by simp
  next
    case 3
    then have "hdr_scan False mg 0 p = hdr_scan False [x, y] 0 (p\<lparr>pt_in := zs @ chC # chX # xs\<rparr>)"
      using less.prems hdr_scan_two [of p x y "zs @ chC # chX # xs" mg False] by auto
    then show ?thesis
      using less.hyps [of zs "[x, y]" "p\<lparr>pt_in := zs @ chC # chX # xs\<rparr>"] less.prems 3 by simp
  qed
qed

lemma get_pkt_hdr_finds:
  assumes "chC \<notin> set junk" "length mg = 2" "length hdr = 8" "length h6 = 6"
    and "pt_in p = junk @ chC # chX # h6 @ rest"
  shows "get_pkt_hdr False mg hdr p = (0, chC # chX # h6, p\<lparr>pt_in := rest\<rparr>)"
  using hdr_scan_skips [OF assms(1,2,5)] assms(3,4)
  by (auto simp: get_pkt_hdr_def port_read_n_eq overlay_def)

lemma host_val_4: "0 \<le> x \<Longrightarrow> x < 2 ^ 32 \<Longrightarrow> host_val le (host_bytes le 4 x) = x"
  using native.read_back [of x 4 le] by simp

lemma pkt_fields:
  "length (pkt_bytes le o1 ty sz) = 8" "pkt_order (pkt_bytes le o1 ty sz) = o1" "pkt_type (pkt_bytes le o1 ty sz) = ty"
  "0 \<le> sz \<Longrightarrow> sz < 2 ^ 32 \<Longrightarrow> pkt_size le (pkt_bytes le o1 ty sz) = sz"
  "pkt_bytes le o1 ty sz = chC # chX # [o1, ty] @ host_bytes le 4 sz"
  by (simp_all add: pkt_bytes_def pkt_order_def pkt_type_def pkt_size_def host_val_4)

lemma srv_cmd_hdr_reads:
  assumes r: "rbuf b m 0 (cmd_bytes le q)" and q: "rq_ok q"
  shows "\<exists>b'. srv_cmd_hdr le (cd_rewind (cd_ctor b)) m loc =
      Some (loc\<lparr>lc_id := rq_id q, lc_tgt := rq_tgt q, lc_op := rq_op q\<rparr>, \<lparr>cd_buf = b', cd_good = True\<rparr>) \<and>
    rbuf b' m 12 (rq_args q) \<and> bf_same b b'"
proof -
  let ?b = "bf_rewind b"
  have v: "host_val le (host_bytes le 4 (rq_id q)) = rq_id q" "host_val le (host_bytes le 4 (rq_tgt q)) = rq_tgt q"
      "host_val le (host_bytes le 4 (rq_op q)) = rq_op q"
    using q by (simp_all add: rq_ok_def host_val_4)
  have r0: "rbuf ?b m 0 (host_bytes le 4 (rq_id q) @ host_bytes le 4 (rq_tgt q) @ host_bytes le 4 (rq_op q) @ rq_args q)"
    using r by (auto simp: rbuf_def bf_rewind_def bf_inv_def bf_rest_def cmd_bytes_def)
  obtain b1 where b1: "dec_get le 4 \<lparr>cd_buf = ?b, cd_good = True\<rparr> m = Some (4, Some (rq_id q), \<lparr>cd_buf = b1, cd_good = True\<rparr>)"
      "rbuf b1 m 4 (host_bytes le 4 (rq_tgt q) @ host_bytes le 4 (rq_op q) @ rq_args q)" "bf_same ?b b1"
    using dec_get_take [OF r0, of 4 le] v by auto
  obtain b2 where b2: "dec_get le 4 \<lparr>cd_buf = b1, cd_good = True\<rparr> m = Some (4, Some (rq_tgt q), \<lparr>cd_buf = b2, cd_good = True\<rparr>)"
      "rbuf b2 m 8 (host_bytes le 4 (rq_op q) @ rq_args q)" "bf_same b1 b2"
    using dec_get_take [OF b1(2), of 4 le] v by auto
  obtain b3 where b3: "dec_get le 4 \<lparr>cd_buf = b2, cd_good = True\<rparr> m = Some (4, Some (rq_op q), \<lparr>cd_buf = b3, cd_good = True\<rparr>)"
      "rbuf b3 m 12 (rq_args q)" "bf_same b2 b3"
    using dec_get_take [OF b2(2), of 4 le] v by auto
  have "bf_same b ?b" by (simp add: bf_same_def bf_rewind_def)
  then have "bf_same b b3" using b1(3) b2(3) b3(3) by (simp add: bf_same_def)
  then show ?thesis using b1(1) b2(1) b3(1,2)
    by (intro exI [of _ b3]) (simp add: srv_cmd_hdr_def cd_rewind_def cd_ctor_def)
qed

lemma dv_write_n_buf_port:
  assumes "bf_inv b m" "bf_end b - bf_base b < 2147483648" "\<not> pt_wfail p"
  shows "\<exists>b'. dv_write_n_buf pt_sys_write 0 b p m =
      Some (int (length (bf_rest b m)), b', p\<lparr>pt_out := pt_out p @ bf_rest b m\<rparr>) \<and> bf_same b b'"
proof -
  let ?n = "bf_available b"
  have n: "?n = bf_lim b - bf_pos b" "0 \<le> ?n" "?n < 2147483648"
    using bf_sizes(4) [OF assms(1)] assms(1,2) by (auto simp: bf_inv_def)
  have "live_range m (bf_pos b) (int (nat ?n))"
    using bf_live [OF assms(1), of "bf_pos b" ?n] assms(1) n by (simp add: bf_inv_def)
  then have rd: "rd_list m (bf_pos b) (nat ?n) = Some (bf_rest b m)"
    using rd_list_cells [of m "bf_pos b" "nat ?n"] n by (simp add: bf_rest_def)
  have "length (bf_rest b m) < 2147483648" using n by (simp add: bf_rest_def nat_less_iff)
  then have w: "dv_write_n pt_sys_write 0 (bf_rest b m) p = (int (length (bf_rest b m)), p\<lparr>pt_out := pt_out p @ bf_rest b m\<rparr>)"
    using port_write_n_eq [of "bf_rest b m" p] assms(3) by (simp add: port_write_n_def)
  show ?thesis using rd w
    by (auto simp: dv_write_n_buf_def bf_position_ptr_def bf_incr_position_def bf_same_def)
qed

lemma srv_reply_writes:
  assumes w: "wbuf b m pay" and p: "\<not> pt_wfail p" and h: "length hdr = 8" and c: "bf_end b - bf_base b < 1073741824"
  shows "\<exists>b'. srv_reply le hdr i ret b p m = Some (b',
      p\<lparr>pt_out := pt_out p @ take 3 hdr @ [BIN_MSG_TYPE_RSP] @ host_bytes le 4 (8 + int (length pay)) @ rsp_bytes le i ret @ pay\<rparr>,
      take 3 hdr @ [BIN_MSG_TYPE_RSP] @ host_bytes le 4 (8 + int (length pay))) \<and> bf_same b b'"
proof -
  let ?b = "bf_flip b" and ?n = "int (length pay)"
  have inv: "bf_inv b m" "bf_done b m = pay" "bf_pos b = bf_base b + ?n" using w wbuf_pos [OF w] by (simp_all add: wbuf_def)
  have i': "bf_inv ?b m" by (rule bf_inv_moves(4) [OF inv(1)])
  have f: "bf_base ?b = bf_base b" "bf_end ?b = bf_end b" "bf_pos ?b = bf_base b" "bf_lim ?b = bf_pos b"
    by (simp_all add: bf_flip_def)
  have rest: "bf_rest ?b m = pay" using inv(2) f by (simp add: bf_rest_def bf_done_def)
  have av: "bf_available ?b = ?n" using bf_sizes(4) [OF i'] f inv(3) by simp
  have "?n \<le> bf_end b - bf_base b" using inv(1,3) by (simp add: bf_inv_def)
  then have sz: "u32 (8 + bf_available ?b) = 8 + ?n" "0 < 8 + ?n" using av c by simp_all
  let ?h = "take 3 hdr @ [BIN_MSG_TYPE_RSP] @ host_bytes le 4 (8 + ?n)"
  let ?p = "p\<lparr>pt_out := (pt_out p @ ?h) @ rsp_bytes le i ret\<rparr>"
  have "snd (port_write_n (rsp_bytes le i ret) (snd (port_write_n ?h p))) = ?p"
    using p h by (simp add: port_write_n_eq rsp_bytes_def)
  moreover obtain b' where "dv_write_n_buf pt_sys_write 0 ?b ?p m = Some (int (length pay), b', ?p\<lparr>pt_out := pt_out ?p @ pay\<rparr>)" "bf_same ?b b'"
    using dv_write_n_buf_port [OF i', of ?p] p c f rest by auto
  moreover have "bf_same b ?b" using f by (simp add: bf_same_def)
  ultimately show ?thesis using sz by (auto simp: srv_reply_def Let_def dest: bf_same_trans)
qed

definition srv_ok :: "'w srv \<Rightarrow> (int \<times> int) list \<Rightarrow> int \<Rightarrow> bool" where
  "srv_ok s es n \<longleftrightarrow> mutex_free (sv_lock s) \<and> \<not> sv_quit s \<and> reg_holds (sv_reg s) es \<and> length es < 64 \<and>
     bf_space (sv_cmd s) (sv_mem s) n \<and> bf_space (sv_rsp s) (sv_mem s) 4 \<and> bf_disjoint (sv_cmd s) (sv_rsp s)"

lemma guard_mutex:
  assumes "mutex_free l"
  shows "\<exists>l1. guard_ctor (mutex_type t) l = Ret (True, l1) \<and> guard_release (mutex_type t) (True, l1) = Ret (False, l) \<and>
    guard_acquire (mutex_type t) (False, l) = Ret (True, l1) \<and> guard_dtor (mutex_type t) (True, l1) = Ret l"
proof -
  obtain l1 where "mutex_acquire t l = Ret l1" "mutex_release t l1 = Ret l"
    using mutex.acquire_free [OF assms, of t] by blast
  then show ?thesis
    by (simp add: guard_ctor_def guard_release_def guard_acquire_def guard_dtor_def mutex_type_def)
qed

lemma srv_command_serves:
  assumes ok: "srv_ok s es n" and b: "rbuf (sv_cmd s) (sv_mem s) 0 (cmd_bytes le q)" and q: "rq_ok q"
    and s: "reg_spec le objs es (rq_tgt q) (rq_op q) (rq_args q) (sv_world s) = Some (ret, pay, w)"
    and p: "\<not> pt_wfail p" and h: "length (lc_hdr loc) = 8" "take 3 (lc_hdr loc) = [chC, chX, rq_order q]"
  shows "\<exists>loc' s'. srv_command t le objs loc p s = Ret (loc', s') \<and> length (lc_hdr loc') = 8 \<and> srv_ok s' es n \<and>
    sv_world s' = w \<and> sv_port s' = Some (p\<lparr>pt_out := pt_out p @ reply_bytes le q ret pay\<rparr>)"
proof -
  obtain b1 where b1: "srv_cmd_hdr le (cd_rewind (cd_ctor (sv_cmd s))) (sv_mem s) loc =
      Some (loc\<lparr>lc_id := rq_id q, lc_tgt := rq_tgt q, lc_op := rq_op q\<rparr>, \<lparr>cd_buf = b1, cd_good = True\<rparr>)"
      "rbuf b1 (sv_mem s) 12 (rq_args q)" "bf_same (sv_cmd s) b1"
    using srv_cmd_hdr_reads [OF b q] by blast
  have sp: "bf_space (sv_cmd s) (sv_mem s) n" "bf_space (sv_rsp s) (sv_mem s) 4" "bf_disjoint (sv_cmd s) (sv_rsp s)"
    using ok by (simp_all add: srv_ok_def)
  have cl: "wbuf (bf_clear (sv_rsp s)) (sv_mem s) []" "bf_same (sv_rsp s) (bf_clear (sv_rsp s))"
    using bf_clear_wbuf [OF sp(2)] by simp_all
  let ?c = "\<lparr>ca_param = \<lparr>cd_buf = b1, cd_good = True\<rparr>, ca_rsp = cd_clear (cd_ctor (sv_rsp s)), ca_mem = sv_mem s,
      ca_world = sv_world s\<rparr>"
  have rsp: "ca_rsp ?c = \<lparr>cd_buf = bf_clear (sv_rsp s), cd_good = True\<rparr>" by (simp add: cd_clear_def cd_ctor_def)
  have ready: "call_ready ?c (rq_args q)"
    using b1(2) cl sp(2,3) bf_disjoint_same [OF b1(3) cl(2)] rsp
    by (simp add: call_ready_def bf_space_def bf_same_def)
  obtain c' where d: "reg_dispatch le objs (sv_reg s) (rq_tgt q) (rq_op q) ?c = Some (ret, c')" "call_done ?c c' pay w"
    using dispatch_spec [OF _ _ _ ready, of "sv_reg s" es le objs "rq_tgt q" "rq_op q" ret pay w] ok s
    by (auto simp: srv_ok_def)
  have same: "bf_same (sv_cmd s) (cd_buf (ca_param c'))" "bf_same (sv_rsp s) (cd_buf (ca_rsp c'))"
    using d(2) b1(3) cl(2) rsp by (auto simp: call_done_def intro: bf_same_trans)
  have un: "untouched (sv_rsp s) (sv_mem s) (ca_mem c')"
    using d(2) rsp untouched_same [OF cl(2)] by (simp add: call_done_def)
  have cap: "bf_end (cd_buf (ca_rsp c')) - bf_base (cd_buf (ca_rsp c')) < 1073741824"
    using same(2) sp(2) by (simp add: bf_same_def bf_space_def)
  let ?h = "[chC, chX, rq_order q] @ [BIN_MSG_TYPE_RSP] @ host_bytes le 4 (8 + int (length pay))"
  have w': "wbuf (cd_buf (ca_rsp c')) (ca_mem c') pay" using d(2) by (simp add: call_done_def)
  obtain b2 where b2: "srv_reply le (lc_hdr loc) (rq_id q) ret (cd_buf (ca_rsp c')) p (ca_mem c') =
      Some (b2, p\<lparr>pt_out := pt_out p @ reply_bytes le q ret pay\<rparr>, ?h)" "bf_same (cd_buf (ca_rsp c')) b2"
    using srv_reply_writes [OF w' p h(1) cap, of le "rq_id q" ret] h(2)
    by (auto simp: reply_bytes_def pkt_bytes_def)
  obtain l1 where l1: "guard_ctor (mutex_type t) (sv_lock s) = Ret (True, l1)"
      "guard_release (mutex_type t) (True, l1) = Ret (False, sv_lock s)"
      "guard_acquire (mutex_type t) (False, sv_lock s) = Ret (True, l1)" "guard_dtor (mutex_type t) (True, l1) = Ret (sv_lock s)"
    using guard_mutex [of "sv_lock s" t] ok by (auto simp: srv_ok_def)
  let ?s = "s\<lparr>sv_lock := sv_lock s, sv_port := Some (p\<lparr>pt_out := pt_out p @ reply_bytes le q ret pay\<rparr>),
      sv_cmd := cd_buf (ca_param c'), sv_rsp := b2, sv_mem := ca_mem c', sv_world := ca_world c'\<rparr>"
  have "srv_command t le objs loc p s =
      Ret (loc\<lparr>lc_id := rq_id q, lc_tgt := rq_tgt q, lc_op := rq_op q, lc_hdr := ?h\<rparr>, ?s)"
    using b1(1) l1 d(1) b2(1) by (simp add: srv_command_def)
  moreover have "srv_ok ?s es n"
    using ok sp bf_space_untouched [OF sp(1) un] bf_space_untouched [OF sp(2) un]
      bf_space_same [OF same(1)] bf_space_same [OF bf_same_trans [OF same(2) b2(2)]]
      bf_disjoint_same [OF same(1) bf_same_trans [OF same(2) b2(2)]]
    by (simp add: srv_ok_def)
  moreover have "ca_world c' = w" using d(2) by (simp add: call_done_def)
  ultimately show ?thesis by simp
qed

text \<open>One request on the wire, junk without a \<open>'C'\<close> in front of it: one round of the loop.\<close>

lemma srv_step_serves:
  assumes ok: "srv_ok s es n" and q: "rq_ok q" "12 + int (length (rq_args q)) \<le> n"
    and s: "reg_spec le objs es (rq_tgt q) (rq_op q) (rq_args q) (sv_world s) = Some (ret, pay, w)"
    and p: "sv_port s = Some p" "\<not> pt_wfail p" "pt_in p = junk @ req_bytes le q @ rest" "chC \<notin> set junk"
    and h: "length (lc_hdr loc) = 8" "length mg = 2"
  shows "\<exists>loc' s'. srv_step t le objs mg loc s = Ret (True, loc', s') \<and> length (lc_hdr loc') = 8 \<and> srv_ok s' es n \<and>
    sv_world s' = w \<and> sv_port s' = Some (p\<lparr>pt_in := rest, pt_out := pt_out p @ reply_bytes le q ret pay\<rparr>)"
proof -
  let ?P = "cmd_bytes le q"
  have len: "int (length ?P) = 12 + int (length (rq_args q))" by (simp add: cmd_bytes_def)
  let ?hdr = "pkt_bytes le (rq_order q) BIN_MSG_TYPE_CMD (int (length ?P))"
  have n: "n < 1073741824" "bf_space (sv_cmd s) (sv_mem s) n" using ok by (auto simp: srv_ok_def bf_space_def)
  have hs: "length ?hdr = 8" "pkt_type ?hdr = BIN_MSG_TYPE_CMD" "pkt_size le ?hdr = int (length ?P)"
      "take 3 ?hdr = [chC, chX, rq_order q]"
    using pkt_fields len q(2) n(1) by (simp_all add: pkt_bytes_def)
  let ?p1 = "p\<lparr>pt_in := ?P @ rest\<rparr>" and ?p2 = "p\<lparr>pt_in := rest\<rparr>"
  have hdr: "get_pkt_hdr False mg (lc_hdr loc) p = (0, ?hdr, ?p1)"
    using get_pkt_hdr_finds [OF p(4) h(2,1), of "[rq_order q, BIN_MSG_TYPE_CMD] @ host_bytes le 4 (int (length ?P))" p "?P @ rest"]
      p(3) by (simp add: req_bytes_def pkt_bytes_def)
  obtain b m where pl: "srv_payload le ?hdr (sv_cmd s) ?p1 (sv_mem s) = Some (b, ?p2, m)" "rbuf b m 0 ?P"
      "bf_same (sv_cmd s) b" "untouched (sv_cmd s) (sv_mem s) m"
    using srv_payload_reads [OF n(2), of ?P le ?hdr ?p1 rest] len q(2) hs(3) by auto
  let ?s = "s\<lparr>sv_cmd := b, sv_port := Some ?p2, sv_mem := m\<rparr>"
  have ok': "srv_ok ?s es n"
    using ok pl(3,4) bf_disjoint_same [OF pl(3) bf_same_refl, of "sv_rsp s"]
    by (auto simp: srv_ok_def bf_space_same bf_space_untouched)
  obtain loc' s' where c: "srv_command t le objs (loc\<lparr>lc_hdr := ?hdr\<rparr>) ?p2 ?s = Ret (loc', s')" "length (lc_hdr loc') = 8"
      "srv_ok s' es n" "sv_world s' = w" "sv_port s' = Some (?p2\<lparr>pt_out := pt_out ?p2 @ reply_bytes le q ret pay\<rparr>)"
    using srv_command_serves [OF ok', of le q objs ret pay w ?p2 "loc\<lparr>lc_hdr := ?hdr\<rparr>" t] pl(2) q(1) s p(2) hs by auto
  have "\<not> sv_quit s" using ok by (simp add: srv_ok_def)
  then have "srv_step t le objs mg loc s = Ret (True, loc', s')"
    using p(1) hdr pl(1) hs(2) c(1) by (simp add: srv_step_def)
  then show ?thesis using c by simp
qed

text \<open>What serving a list of requests gives.\<close>

fun serve_spec :: "bool \<Rightarrow> (int \<Rightarrow> 'w dist_obj) \<Rightarrow> (int \<times> int) list \<Rightarrow> request list \<Rightarrow> 'w \<Rightarrow> (byte list \<times> 'w) option" where
  "serve_spec le objs es [] w = Some ([], w)"
| "serve_spec le objs es (q # qs) w =
     do { (ret, pay, w1) \<leftarrow> reg_spec le objs es (rq_tgt q) (rq_op q) (rq_args q) w;
          (out, w2) \<leftarrow> serve_spec le objs es qs w1; Some (reply_bytes le q ret pay @ out, w2) }"

lemma hdr_scan_eof: "pt_in p = [] \<Longrightarrow> hdr_scan q mg 0 p = (-1, p)"
  by (subst hdr_scan.simps) (simp add: port_read_n_eq)

lemma srv_run_serves:
  assumes "srv_ok s es n" "\<forall>q\<in>set qs. rq_ok q \<and> 12 + int (length (rq_args q)) \<le> n"
    and "serve_spec le objs es qs (sv_world s) = Some (out, w)"
    and "sv_port s = Some p" "\<not> pt_wfail p" "pt_in p = concat (map (req_bytes le) qs)"
    and "length (lc_hdr loc) = 8" "length mg = 2"
  shows "\<exists>s'. srv_run t le objs mg loc s = Ret (0, s') \<and> srv_ok s' es n \<and> sv_world s' = w \<and>
    sv_port s' = Some (p\<lparr>pt_in := [], pt_out := pt_out p @ out\<rparr>)"
  using assms
proof (induction qs arbitrary: s loc p out)
  case Nil
  have "srv_step t le objs mg loc s = Ret (False, loc, s\<lparr>sv_port := Some p\<rparr>)"
    using Nil by (simp add: srv_step_def get_pkt_hdr_def hdr_scan_eof Let_def srv_ok_def)
  then show ?case using Nil by (subst srv_run.simps) (auto simp: srv_ok_def)
next
  case (Cons q qs)
  obtain ret pay w1 out2 where sp: "reg_spec le objs es (rq_tgt q) (rq_op q) (rq_args q) (sv_world s) = Some (ret, pay, w1)"
      "serve_spec le objs es qs w1 = Some (out2, w)" "out = reply_bytes le q ret pay @ out2"
    using Cons.prems(3) by (auto simp: bind_Some_iff)
  let ?p = "p\<lparr>pt_in := concat (map (req_bytes le) qs), pt_out := pt_out p @ reply_bytes le q ret pay\<rparr>"
  obtain loc1 s1 where st: "srv_step t le objs mg loc s = Ret (True, loc1, s1)" "length (lc_hdr loc1) = 8" "srv_ok s1 es n"
      "sv_world s1 = w1" "sv_port s1 = Some ?p"
    using srv_step_serves [OF Cons.prems(1) _ _ sp(1) Cons.prems(4,5), of "[]" "concat (map (req_bytes le) qs)" loc mg t]
      Cons.prems by auto
  obtain s' where "srv_run t le objs mg loc1 s1 = Ret (0, s')" "srv_ok s' es n" "sv_world s' = w"
      "sv_port s' = Some (?p\<lparr>pt_in := [], pt_out := pt_out ?p @ out2\<rparr>)"
    using Cons.IH [OF st(3) _ _ st(5) _ _ st(2) Cons.prems(8), of out2] Cons.prems(2,5) sp(2) st(4) by auto
  moreover have "srv_run t le objs mg loc s = srv_run t le objs mg loc1 s1"
    using st(1) Cons.prems(1) by (subst srv_run.simps) (simp add: srv_ok_def)
  ultimately show ?case using sp(3) by simp
qed

section \<open>The client's side\<close>

definition client_ok :: "'w srv \<Rightarrow> port \<Rightarrow> int \<Rightarrow> int \<Rightarrow> bool" where
  "client_ok s p ca ra \<longleftrightarrow> mutex_free (sv_lock s) \<and> sv_port s = Some p \<and> \<not> pt_wfail p \<and>
     0 \<le> sv_msg_id s \<and> sv_msg_id s < 2 ^ 32 \<and>
     live_range (sv_mem s) ca 256 \<and> live_range (sv_mem s) ra 256 \<and> (ca + 256 \<le> ra \<or> ra + 256 \<le> ca)"

lemma fb_wbuf: "live_range m a 256 \<Longrightarrow> wbuf (fb_ctor a 256) m []"
  by (simp add: fb_ctor_def bf_ctor_arr_def wbuf_def bf_inv_def bf_done_def)

lemma fb_frame: "bf_base (fb_ctor a n) = a" "bf_end (fb_ctor a n) = a + n" "bf_pos (fb_ctor a n) = a"
  by (simp_all add: fb_ctor_def bf_ctor_arr_def)

text \<open>What a stub encodes: a header and arguments, in its own buffer.\<close>

definition encoded :: "'w srv \<Rightarrow> int \<Rightarrow> codec \<Rightarrow> byte mem \<Rightarrow> byte list \<Rightarrow> bool" where
  "encoded s ca enc m xs \<longleftrightarrow> cd_good enc \<and> wbuf (cd_buf enc) m xs \<and> bf_same (fb_ctor ca 256) (cd_buf enc) \<and>
     m_live m = m_live (sv_mem s)"

lemma encoded_put:
  assumes "encoded s ca enc m xs" "0 < k" "k dvd length xs" "length xs + k \<le> 256"
  shows "\<exists>enc' m'. enc_put le k v enc m = Some (int k, enc', m') \<and> encoded s ca enc' m' (xs @ host_bytes le k v)"
proof -
  let ?b = "cd_buf enc"
  have e: "enc = \<lparr>cd_buf = ?b, cd_good = True\<rparr>" "wbuf ?b m xs" "bf_same (fb_ctor ca 256) ?b" "m_live m = m_live (sv_mem s)"
    using assms(1) by (simp_all add: encoded_def)
  have "int (length xs + k) \<le> bf_end ?b - bf_base ?b" using assms(4) e(3) by (simp add: bf_same_def fb_frame)
  from enc_put_append [OF e(2) assms(2,3) this, of le v] obtain b' m' where
    "enc_put le k v enc m = Some (int k, \<lparr>cd_buf = b', cd_good = True\<rparr>, m')" "wbuf b' m' (xs @ host_bytes le k v)"
    "bf_same ?b b'" "untouched ?b m m'" using e(1) by auto
  then show ?thesis using e(3,4) bf_same_trans [OF e(3)] by (auto simp: encoded_def untouched_def)
qed

lemma put_cmd_hdr_encodes:
  assumes "client_ok s p ca ra"
  shows "\<exists>enc s'. put_cmd_hdr le tgt op (cd_ctor (fb_ctor ca CMD_SIZE)) s = Some (enc, s') \<and>
    encoded s ca enc (sv_mem s') (host_bytes le 4 (sv_msg_id s) @ host_bytes le 4 tgt @ host_bytes le 4 op) \<and>
    sv_lock s' = sv_lock s \<and> sv_port s' = sv_port s \<and> sv_msg_id s' = u32 (sv_msg_id s + 1)"
proof -
  have e0: "encoded s ca (cd_ctor (fb_ctor ca 256)) (sv_mem s) []"
    using assms by (simp add: encoded_def cd_ctor_def fb_wbuf client_ok_def)
  obtain e1 m1 where 1: "enc_put le 4 (sv_msg_id s) (cd_ctor (fb_ctor ca 256)) (sv_mem s) = Some (4, e1, m1)"
      "encoded s ca e1 m1 (host_bytes le 4 (sv_msg_id s))"
    using encoded_put [OF e0, of 4 le "sv_msg_id s"] by auto
  obtain e2 m2 where 2: "enc_put le 4 tgt e1 m1 = Some (4, e2, m2)"
      "encoded s ca e2 m2 (host_bytes le 4 (sv_msg_id s) @ host_bytes le 4 tgt)"
    using encoded_put [OF 1(2), of 4 le tgt] by auto
  obtain e3 m3 where 3: "enc_put le 4 op e2 m2 = Some (4, e3, m3)"
      "encoded s ca e3 m3 ((host_bytes le 4 (sv_msg_id s) @ host_bytes le 4 tgt) @ host_bytes le 4 op)"
    using encoded_put [OF 2(2), of 4 le op] by auto
  show ?thesis using 1(1) 2(1) 3
    by (simp add: put_cmd_hdr_def srv_next_msg_id_def enc_put_uint32_def CMD_SIZE_def DFLT_CMD_RSP_SIZE_def)
qed

lemma signed_val_4: "- 2147483648 \<le> x \<Longrightarrow> x < 2147483648 \<Longrightarrow> signed_val 4 (host_val le (host_bytes le 4 x)) = x"
proof -
  assume x: "- 2147483648 \<le> x" "x < 2147483648"
  have v: "host_val le (host_bytes le 4 x) = x mod 4294967296" using native.of_to_b [of le 4 x] by simp
  show ?thesis
  proof (cases "0 \<le> x")
    case True
    then show ?thesis using x v by (simp add: signed_val_def)
  next
    case False
    then have "x mod 4294967296 = x + 4294967296"
      using x mod_add_self2 [of x 4294967296] mod_pos_pos_trivial [of "x + 4294967296" 4294967296] by simp
    then show ?thesis using x v False by (simp add: signed_val_def)
  qed
qed

lemma set_size_read:
  assumes "live_range m ra 256" "pay \<noteq> []" "length pay \<le> 256" "pt_in p = pay @ rest"
  shows "\<exists>b m'. dv_read_n_buf pt_sys_read 0 (bf_set_size (int (length pay)) (fb_ctor ra 256)) p m =
    Some (int (length pay), b, p\<lparr>pt_in := rest\<rparr>, m') \<and> rbuf (bf_flip b) m' 0 pay \<and> m_live m' = m_live m"
proof -
  let ?b = "bf_set_size (int (length pay)) (fb_ctor ra 256)" and ?m = "put_at ra pay m"
  have f: "bf_base ?b = ra" "bf_pos ?b = ra" "bf_lim ?b = ra + int (length pay)" "bf_end ?b = ra + 256"
    by (simp_all add: bf_set_size_def fb_ctor_def bf_ctor_arr_def)
  have av: "bf_available ?b = int (length pay)" using assms(3) by (simp add: bf_available_def f)
  have rd: "dv_read_n pt_sys_read 0 (int (length pay)) p = (int (length pay), pay, p\<lparr>pt_in := rest\<rparr>)"
    using port_read_n_eq [of "int (length pay)" p] assms by (auto simp: port_read_n_def)
  have "live_range m ra (int (length pay))" using assms(1,3) by (auto simp: live_range_def)
  then have "wr_list m (bf_pos ?b) pay = Some ?m" by (simp add: wr_list_put_at f)
  moreover have "rbuf (bf_flip (?b\<lparr>bf_pos := ra + int (length pay)\<rparr>)) ?m 0 pay"
    using assms(1,3) cells_put_at [of ra pay m] by (simp add: rbuf_def bf_flip_def bf_inv_def bf_rest_def f)
  ultimately show ?thesis using av rd assms(2) f
    by (auto simp: dv_read_n_buf_def bf_position_ptr_def bf_incr_position_def)
qed

lemma stub_send_replies:
  assumes c: "client_ok s p ca ra" and e: "encoded s ca enc m P"
    and s': "sv_lock s' = sv_lock s" "sv_port s' = sv_port s" "sv_mem s' = m"
    and rep: "pt_in p = reply_bytes le q ret pay @ rest" "length pay \<le> 256" "- 2147483648 \<le> ret" "ret < 2147483648"
  shows "\<exists>rsp c'. stub_send t le ra enc s' = Ret (ret, rsp, c') \<and>
    sv_port c' = Some (p\<lparr>pt_in := rest, pt_out := pt_out p @ pkt_bytes le 0 BIN_MSG_TYPE_CMD (int (length P)) @ P\<rparr>) \<and>
    sv_lock c' = sv_lock s \<and> m_live (sv_mem c') = m_live (sv_mem s) \<and> sv_msg_id c' = sv_msg_id s' \<and>
    (pay \<noteq> [] \<longrightarrow> rbuf rsp (sv_mem c') 0 pay)"
proof -
  let ?b = "bf_flip (cd_buf enc)"
  have w: "wbuf (cd_buf enc) m P" "bf_same (fb_ctor ca 256) (cd_buf enc)" "m_live m = m_live (sv_mem s)"
    using e by (simp_all add: encoded_def)
  have inv: "bf_inv (cd_buf enc) m" "bf_done (cd_buf enc) m = P" using w(1) by (simp_all add: wbuf_def)
  have i: "bf_inv ?b m" by (rule bf_inv_moves(4) [OF inv(1)])
  have rest: "bf_rest ?b m = P" using inv(2) by (simp add: bf_rest_def bf_done_def bf_flip_def)
  have len: "int (length P) \<le> 256"
    using wbuf_pos [OF w(1)] inv(1) w(2) by (simp add: bf_inv_def bf_same_def fb_frame)
  have av: "u32 (bf_available ?b) = int (length P)"
    using bf_sizes(4) [OF i] wbuf_pos [OF w(1)] len by (simp add: bf_flip_def)
  have p: "sv_port s = Some p" "\<not> pt_wfail p" "live_range (sv_mem s) ra 256" using c by (simp_all add: client_ok_def)
  let ?h = "pkt_bytes le 0 BIN_MSG_TYPE_CMD (int (length P))"
  let ?p1 = "p\<lparr>pt_out := pt_out p @ ?h\<rparr>" and ?p2 = "p\<lparr>pt_out := (pt_out p @ ?h) @ P\<rparr>"
  have w1: "port_write_n ?h p = (8, ?p1)" using p(2) by (simp add: port_write_n_eq pkt_bytes_def)
  have cap: "bf_end ?b - bf_base ?b < 2147483648" using w(2) by (simp add: bf_flip_def bf_same_def fb_frame)
  have "\<exists>b'. dv_write_n_buf pt_sys_write 0 ?b ?p1 m = Some (int (length P), b', ?p2)"
    using dv_write_n_buf_port [OF i cap, of ?p1] p(2) rest by auto
  then obtain b' where w2: "dv_write_n_buf pt_sys_write 0 ?b ?p1 m = Some (int (length P), b', ?p2)" by blast
  let ?rh = "pkt_bytes le (rq_order q) BIN_MSG_TYPE_RSP (8 + int (length pay))" and ?rr = "rsp_bytes le (rq_id q) ret"
  have lh: "length ?rh = 8" "length ?rr = 8" by (simp_all add: pkt_bytes_def rsp_bytes_def)
  have r1: "port_read_n 8 ?p2 = (8, ?rh, ?p2\<lparr>pt_in := ?rr @ pay @ rest\<rparr>)"
    using rep(1) lh by (simp add: port_read_n_eq reply_bytes_def pkt_bytes_def)
  have r2: "port_read_n 8 (?p2\<lparr>pt_in := ?rr @ pay @ rest\<rparr>) = (8, ?rr, ?p2\<lparr>pt_in := pay @ rest\<rparr>)"
    using lh by (cases ?rr) (simp_all add: port_read_n_eq)
  have sz: "u32 (pkt_size le ?rh - 8) = int (length pay)" using rep(2) by (simp add: pkt_fields(4))
  have rr: "rsp_reply le ?rr = ret" using signed_val_4 [OF rep(3,4), of le] by (simp add: rsp_reply_def rsp_bytes_def)
  have un: "\<exists>pk rsp m'. srv_send_unlocked le BIN_MSG_TYPE_CMD ?b (fb_ctor ra 256) p m = Some (ret, pk, rsp, ?p2\<lparr>pt_in := rest\<rparr>, m') \<and>
      m_live m' = m_live m \<and> (pay \<noteq> [] \<longrightarrow> rbuf rsp m' 0 pay)"
  proof (cases "pay = []")
    case True
    then show ?thesis using w1 w2 r1 r2 sz rr by (simp add: srv_send_unlocked_def av Let_def)
  next
    case False
    have "live_range m ra 256" using p(3) w(3) by (simp add: live_range_def)
    from set_size_read [OF this False rep(2), of "?p2\<lparr>pt_in := pay @ rest\<rparr>"] obtain rb m' where
      "dv_read_n_buf pt_sys_read 0 (bf_set_size (int (length pay)) (fb_ctor ra 256)) (?p2\<lparr>pt_in := pay @ rest\<rparr>) m =
        Some (int (length pay), rb, ?p2\<lparr>pt_in := rest\<rparr>, m')" "rbuf (bf_flip rb) m' 0 pay" "m_live m' = m_live m" by auto
    then show ?thesis using w1 w2 r1 r2 sz rr False by (simp add: srv_send_unlocked_def av Let_def)
  qed
  then obtain pk rsp m' where un: "srv_send_unlocked le BIN_MSG_TYPE_CMD ?b (fb_ctor ra 256) p m = Some (ret, pk, rsp, ?p2\<lparr>pt_in := rest\<rparr>, m')"
      "m_live m' = m_live m" "pay \<noteq> [] \<longrightarrow> rbuf rsp m' 0 pay" by blast
  obtain l1 where "guard_ctor (mutex_type t) (sv_lock s) = Ret (True, l1)" "guard_dtor (mutex_type t) (True, l1) = Ret (sv_lock s)"
    using guard_mutex [of "sv_lock s" t] c by (auto simp: client_ok_def)
  then show ?thesis using un s' p(1) w(3)
    by (simp add: stub_send_def srv_send_def CMD_SIZE_def DFLT_CMD_RSP_SIZE_def)
qed

text \<open>The request a stub with target \<open>tgt\<close> sends for an operation.\<close>

definition stub_request :: "'w srv \<Rightarrow> int \<Rightarrow> int \<Rightarrow> byte list \<Rightarrow> request" where
  "stub_request s tgt op args = \<lparr>rq_order = 0, rq_id = sv_msg_id s, rq_tgt = tgt, rq_op = op, rq_args = args\<rparr>"

lemma req_bytes_stub:
  "cmd_bytes le (stub_request s tgt op args) =
     (host_bytes le 4 (sv_msg_id s) @ host_bytes le 4 tgt @ host_bytes le 4 op) @ args"
  "req_bytes le (stub_request s tgt op args) =
     pkt_bytes le 0 BIN_MSG_TYPE_CMD (int (length (cmd_bytes le (stub_request s tgt op args)))) @
     cmd_bytes le (stub_request s tgt op args)"
  by (simp_all add: cmd_bytes_def req_bytes_def stub_request_def)

text \<open>After a call the client has sent \<open>xs\<close>, \<open>rest\<close> is still to be read, and it can make the next call.\<close>

definition client_went :: "'w srv \<Rightarrow> 'w srv \<Rightarrow> port \<Rightarrow> byte list \<Rightarrow> byte list \<Rightarrow> bool" where
  "client_went s c p rest xs \<longleftrightarrow> sv_port c = Some (p\<lparr>pt_in := rest, pt_out := pt_out p @ xs\<rparr>) \<and> sv_lock c = sv_lock s \<and>
     m_live (sv_mem c) = m_live (sv_mem s) \<and> sv_msg_id c = u32 (sv_msg_id s + 1)"

lemma client_goes_on:
  "client_ok s p ca ra \<Longrightarrow> client_went s c p rest xs \<Longrightarrow> client_ok c (p\<lparr>pt_in := rest, pt_out := pt_out p @ xs\<rparr>) ca ra"
  using u32_bounds [of "sv_msg_id s + 1"] by (simp add: client_ok_def client_went_def live_range_def)

lemma di_stub_value_call:
  assumes c: "client_ok s p ca ra" and rep: "pt_in p = reply_bytes le q 0 [if v then 1 else 0] @ rest"
  shows "\<exists>c'. di_stub_value t le ca ra tgt bt s = Ret (v, c') \<and>
    client_went s c' p rest (req_bytes le (stub_request s tgt 1 (host_bytes le 4 (u32 bt))))"
proof -
  obtain e1 s1 where 1: "put_cmd_hdr le tgt 1 (cd_ctor (fb_ctor ca CMD_SIZE)) s = Some (e1, s1)"
      "encoded s ca e1 (sv_mem s1) (host_bytes le 4 (sv_msg_id s) @ host_bytes le 4 tgt @ host_bytes le 4 1)"
      "sv_lock s1 = sv_lock s" "sv_port s1 = sv_port s" "sv_msg_id s1 = u32 (sv_msg_id s + 1)"
    using put_cmd_hdr_encodes [OF c] by blast
  obtain e2 m2 where 2: "enc_put le 4 (u32 bt) e1 (sv_mem s1) = Some (4, e2, m2)"
      "encoded s ca e2 m2 (cmd_bytes le (stub_request s tgt 1 (host_bytes le 4 (u32 bt))))"
    using encoded_put [OF 1(2), of 4 le "u32 bt"] by (auto simp: req_bytes_stub(1))
  obtain rsp c' where 3: "stub_send t le ra e2 (s1\<lparr>sv_mem := m2\<rparr>) = Ret (0, rsp, c')"
      "client_went s c' p rest (req_bytes le (stub_request s tgt 1 (host_bytes le 4 (u32 bt))))"
      "rbuf rsp (sv_mem c') 0 ([if v then 1 else 0] @ [])"
    using stub_send_replies [OF c 2(2), of "s1\<lparr>sv_mem := m2\<rparr>" le q 0 "[if v then 1 else 0]" rest t] 1(3-5) rep
    by (auto simp: client_went_def req_bytes_stub(2))
  have "\<exists>n d. dec_get le 1 (cd_ctor rsp) (sv_mem c') = Some (n, Some (if v then 1 else 0), d)"
    using dec_get_take [OF 3(3), of 1 le] by (auto simp: cd_ctor_def host_val_def)
  then show ?thesis using 1(1) 2(1) 3(1,2) by (auto simp: di_stub_value_def enc_put_uint32_def)
qed

lemma host_bytes_u32: "host_bytes le 4 (u32 x) = host_bytes le 4 x"
  using host_bytes_val [of le "host_bytes le 4 x"] native.of_to_b [of le 4 x] by (simp add: u32_def)

lemma stub_width_call:
  assumes c: "client_ok s p ca ra" and rep: "pt_in p = reply_bytes le q 0 (host_bytes le 4 (u32 wd)) @ rest"
    and wd: "- 2147483648 \<le> wd" "wd < 2147483648"
  shows "\<exists>c'. di_stub_width t le ca ra tgt s = Ret (wd, c') \<and> do_stub_width t le ca ra tgt s = Ret (wd, c') \<and>
    client_went s c' p rest (req_bytes le (stub_request s tgt 0 []))"
proof -
  obtain e1 s1 where 1: "put_cmd_hdr le tgt 0 (cd_ctor (fb_ctor ca CMD_SIZE)) s = Some (e1, s1)"
      "encoded s ca e1 (sv_mem s1) (host_bytes le 4 (sv_msg_id s) @ host_bytes le 4 tgt @ host_bytes le 4 0)"
      "sv_lock s1 = sv_lock s" "sv_port s1 = sv_port s" "sv_msg_id s1 = u32 (sv_msg_id s + 1)"
    using put_cmd_hdr_encodes [OF c] by blast
  have 2: "encoded s ca e1 (sv_mem s1) (cmd_bytes le (stub_request s tgt 0 []))" using 1(2) by (simp add: req_bytes_stub(1))
  have ne: "host_bytes le 4 (u32 wd) \<noteq> []" using host_bytes_length [of le 4 "u32 wd"] by fastforce
  obtain rsp c' where 3: "stub_send t le ra e1 s1 = Ret (0, rsp, c')"
      "client_went s c' p rest (req_bytes le (stub_request s tgt 0 []))"
      "rbuf rsp (sv_mem c') 0 (host_bytes le 4 (u32 wd) @ [])"
    using stub_send_replies [OF c 2 1(3,4) refl rep, of t] ne 1(5) by (auto simp: client_went_def req_bytes_stub(2))
  have v: "host_bytes le 4 (u32 wd) = host_bytes le 4 wd" by (rule host_bytes_u32)
  have "\<exists>n d. dec_get le 4 (cd_ctor rsp) (sv_mem c') = Some (n, Some (host_val le (host_bytes le 4 wd)), d)"
    using dec_get_take [OF 3(3), of 4 le] v by (auto simp: cd_ctor_def)
  then show ?thesis using 1(1) 3(1,2) signed_val_4 [OF wd, of le] by (auto simp: di_stub_width_def do_stub_width_def)
qed

lemma do_stub_calls:
  assumes c: "client_ok s p ca ra" and rep: "pt_in p = reply_bytes le q ret pay @ rest" "length pay \<le> 256"
    "- 2147483648 \<le> ret" "ret < 2147483648"
  shows "\<exists>c'. do_stub_set_to t le ca ra tgt bt v s = Ret c' \<and>
      client_went s c' p rest (req_bytes le (stub_request s tgt 1 (host_bytes le 4 bt @ [if v then 1 else 0])))"
    and "\<exists>c'. do_stub_clear t le ca ra tgt bt s = Ret c' \<and>
      client_went s c' p rest (req_bytes le (stub_request s tgt 2 (host_bytes le 4 bt)))"
    and "\<exists>c'. do_stub_toggle t le ca ra tgt bt s = Ret c' \<and>
      client_went s c' p rest (req_bytes le (stub_request s tgt 3 (host_bytes le 4 bt)))"
proof -
  have arg: "\<exists>e1 s1 e2 m2. put_cmd_hdr le tgt op (cd_ctor (fb_ctor ca CMD_SIZE)) s = Some (e1, s1) \<and>
      enc_put le 4 bt e1 (sv_mem s1) = Some (4, e2, m2) \<and>
      encoded s ca e2 m2 (cmd_bytes le (stub_request s tgt op (host_bytes le 4 bt))) \<and>
      sv_lock s1 = sv_lock s \<and> sv_port s1 = sv_port s \<and> sv_msg_id s1 = u32 (sv_msg_id s + 1)" for op
  proof -
    obtain e1 s1 where 1: "put_cmd_hdr le tgt op (cd_ctor (fb_ctor ca CMD_SIZE)) s = Some (e1, s1)"
        "encoded s ca e1 (sv_mem s1) (host_bytes le 4 (sv_msg_id s) @ host_bytes le 4 tgt @ host_bytes le 4 op)"
        "sv_lock s1 = sv_lock s" "sv_port s1 = sv_port s" "sv_msg_id s1 = u32 (sv_msg_id s + 1)"
      using put_cmd_hdr_encodes [OF c] by blast
    then show ?thesis using encoded_put [OF 1(2), of 4 le bt] by (auto simp: req_bytes_stub(1))
  qed
  have snd1: "\<exists>c'. do { run_then (stub_send t le ra e2 (s1\<lparr>sv_mem := m2\<rparr>)) (\<lambda>(r, rsp, s). Ret s) } = Ret c' \<and>
      client_went s c' p rest (req_bytes le (stub_request s tgt op args))"
    if "encoded s ca e2 m2 (cmd_bytes le (stub_request s tgt op args))" "sv_lock s1 = sv_lock s" "sv_port s1 = sv_port s" "sv_msg_id s1 = u32 (sv_msg_id s + 1)"
    for op args e2 m2 and s1 :: "'a srv"
    using stub_send_replies [OF c that(1), of "s1\<lparr>sv_mem := m2\<rparr>" le q ret pay rest t] that(2-4) rep
    by (auto simp: client_went_def req_bytes_stub(2))
  show "\<exists>c'. do_stub_clear t le ca ra tgt bt s = Ret c' \<and>
      client_went s c' p rest (req_bytes le (stub_request s tgt 2 (host_bytes le 4 bt)))"
    using arg [of 2] snd1 [of _ _ 2 "host_bytes le 4 bt"] by (auto simp: do_stub_clear_def enc_put_int32_def)
  show "\<exists>c'. do_stub_toggle t le ca ra tgt bt s = Ret c' \<and>
      client_went s c' p rest (req_bytes le (stub_request s tgt 3 (host_bytes le 4 bt)))"
    using arg [of 3] snd1 [of _ _ 3 "host_bytes le 4 bt"] by (auto simp: do_stub_toggle_def enc_put_int32_def)
  obtain e1 s1 e2 m2 where 1: "put_cmd_hdr le tgt 1 (cd_ctor (fb_ctor ca CMD_SIZE)) s = Some (e1, s1)"
      "enc_put le 4 bt e1 (sv_mem s1) = Some (4, e2, m2)"
      "encoded s ca e2 m2 (cmd_bytes le (stub_request s tgt 1 (host_bytes le 4 bt)))"
      "sv_lock s1 = sv_lock s" "sv_port s1 = sv_port s" "sv_msg_id s1 = u32 (sv_msg_id s + 1)" using arg [of 1] by blast
  obtain e3 m3 where 2: "enc_put le 1 (if v then 1 else 0) e2 m2 = Some (1, e3, m3)"
      "encoded s ca e3 m3 (cmd_bytes le (stub_request s tgt 1 (host_bytes le 4 bt)) @ host_bytes le 1 (if v then 1 else 0))"
    using encoded_put [OF 1(3), of 1 le "if v then 1 else 0"] by (auto simp: req_bytes_stub(1))
  have "encoded s ca e3 m3 (cmd_bytes le (stub_request s tgt 1 (host_bytes le 4 bt @ [if v then 1 else 0])))"
    using 2(2) by (cases v) (simp_all add: req_bytes_stub(1) host_bytes_bool)
  from snd1 [OF this 1(4-6)] show "\<exists>c'. do_stub_set_to t le ca ra tgt bt v s = Ret c' \<and>
      client_went s c' p rest (req_bytes le (stub_request s tgt 1 (host_bytes le 4 bt @ [if v then 1 else 0])))"
    using 1(1,2) 2(1) by (auto simp: do_stub_set_to_def enc_put_int32_def enc_put_bool_def)
qed

section \<open>Client and server connected\<close>

text \<open>A connection on which \<open>xs\<close> arrives, and what a server object has sent on its connection.\<close>

definition conn :: "byte list \<Rightarrow> port" where
  "conn xs = \<lparr>pt_in = xs, pt_err = False, pt_out = [], pt_wfail = False\<rparr>"

definition sent :: "'w srv \<Rightarrow> byte list" where
  "sent s = (case sv_port s of None \<Rightarrow> [] | Some p \<Rightarrow> pt_out p)"

lemma conn_in [simp]: "pt_in (conn xs) = xs"
  by (simp add: conn_def)

lemma client_sent_conn: "client_went s c (conn xs) rest ys \<Longrightarrow> sent c = ys"
  by (simp add: client_went_def sent_def conn_def)

lemma client_ok_conn: "client_ok c p ca ra \<Longrightarrow> client_ok (c\<lparr>sv_port := Some (conn xs)\<rparr>) (conn xs) ca ra"
  by (simp add: client_ok_def conn_def)

lemma stub_request_conn [simp]: "stub_request (c\<lparr>sv_port := x\<rparr>) = stub_request c"
  by (intro ext) (simp add: stub_request_def)

text \<open>The server's part of one call.\<close>

lemma srv_answers:
  assumes s: "srv_ok s es n" "12 + int (length args) \<le> n" and c: "client_ok c p ca ra"
    and tgt: "0 \<le> tgt" "tgt < 2 ^ 32" "0 \<le> op" "op < 2 ^ 32"
    and r: "reg_spec le objs es tgt op args (sv_world s) = Some (ret, pay, w)"
    and l: "length (lc_hdr loc) = 8" "length mg = 2"
  shows "\<exists>s'. srv_run u le objs mg loc (s\<lparr>sv_port := Some (conn (req_bytes le (stub_request c tgt op args)))\<rparr>) = Ret (0, s') \<and>
    sent s' = reply_bytes le (stub_request c tgt op args) ret pay \<and> sv_world s' = w"
proof -
  let ?q = "stub_request c tgt op args"
  let ?s = "s\<lparr>sv_port := Some (conn (req_bytes le ?q))\<rparr>"
  have ok: "srv_ok ?s es n" using s(1) by (simp add: srv_ok_def)
  have q: "\<forall>q\<in>set [?q]. rq_ok q \<and> 12 + int (length (rq_args q)) \<le> n"
    using c tgt s(2) by (simp add: rq_ok_def stub_request_def client_ok_def)
  have sp: "serve_spec le objs es [?q] (sv_world ?s) = Some (reply_bytes le ?q ret pay, w)"
    using r by (simp add: stub_request_def)
  obtain s' where "srv_run u le objs mg loc ?s = Ret (0, s')" "sv_world s' = w"
      "sv_port s' = Some ((conn (req_bytes le ?q))\<lparr>pt_in := [], pt_out := pt_out (conn (req_bytes le ?q)) @ reply_bytes le ?q ret pay\<rparr>)"
    using srv_run_serves [OF ok q sp _ _ _ l, of "conn (req_bytes le ?q)" u] by (auto simp: conn_def)
  then show ?thesis by (simp add: sent_def conn_def)
qed

section \<open>An example\<close>

text \<open>A world of output bits with an input port that reads them back.\<close>

definition demo_in :: "bool list digin" where
  "demo_in = \<lparr>di_width = (\<lambda>w. (int (length w), w)), di_value = (\<lambda>i w. (w ! nat i, w))\<rparr>"

definition demo_out :: "bool list digout" where
  "demo_out = \<lparr>do_width = (\<lambda>w. (int (length w), w)), do_set = (\<lambda>i v w. w[nat i := v]),
     do_clear = (\<lambda>i w. w[nat i := False]), do_toggle = (\<lambda>i w. w[nat i := \<not> w ! nat i])\<rparr>"

definition demo_objs :: "int \<Rightarrow> bool list dist_obj" where
  "demo_objs p = (if p = 1 then DigInObj demo_in else DigOutObj demo_out)"

definition demo_entries :: "(int \<times> int) list" where
  "demo_entries = [(tgt_obj DIST_OBJ_CLASS_DIG_IN 0, 1), (tgt_obj DIST_OBJ_CLASS_DIG_OUT 3, 2)]"

definition demo_srv :: "byte list \<Rightarrow> bool list \<Rightarrow> bool list srv" where
  "demo_srv xs w = \<lparr>sv_lock = mutex_ctor 0, sv_port = Some (conn xs), sv_reg = demo_entries @ replicate 62 (0, 0),
     sv_msg_id = 7, sv_cmd = bf_ctor_arr 1 64 False, sv_rsp = bf_ctor_arr 65 64 False, sv_quit = False,
     sv_mem = arena 0 700, sv_world = w\<rparr>"

definition demo_loc :: srv_loc where
  "demo_loc = \<lparr>lc_hdr = replicate 8 0, lc_id = 0, lc_tgt = 0, lc_op = 0\<rparr>"

lemma demo_tgt: "demo_entries = [(65536, 1), (131075, 2)]"
  by (simp add: demo_entries_def tgt_obj_def DIST_OBJ_CLASS_DIG_IN_def DIST_OBJ_CLASS_DIG_OUT_def u16_def push_bit_eq_mult)

lemma demo_srv_ok: "srv_ok (demo_srv xs w) demo_entries 64"
  by (simp add: srv_ok_def demo_srv_def mutex_free_def mutex_ctor_def reg_holds_def demo_tgt bf_space_def bf_ctor_arr_def
      bf_disjoint_def)

lemma demo_client_ok: "client_ok (demo_srv xs w) (conn xs) 129 385"
  by (simp add: client_ok_def demo_srv_def conn_def mutex_free_def mutex_ctor_def)

section \<open>Properties\<close>

text \<open>the registry is a finite map: after any registrations, fewer than its capacity, a look-up
  finds the object registered first under the key, and the null pointer for a key without one.\<close>

theorem registry_is_a_map:
  assumes "length r = 64" "\<forall>e\<in>set es. snd e \<noteq> 0" "length es < 64"
  shows "\<exists>r'. reg_register_all es (reg_ctor r) = Some r' \<and>
    (\<forall>key. reg_get_obj key r' = Some (case map_of es key of None \<Rightarrow> 0 | Some p \<Rightarrow> p))"
proof -
  obtain r' where r': "reg_register_all es (reg_ctor r) = Some r'" "reg_holds r' es"
    using reg_register_all_holds [OF reg_ctor_holds [OF assms(1)] assms(2)] assms(3) by auto
  have "reg_get_obj key r' = Some (case map_of es key of None \<Rightarrow> 0 | Some p \<Rightarrow> p)" for key
    using reg_get_loop_finds [OF r'(2), of 0 key] assms(3) by (simp add: reg_get_obj_def split: option.split)
  then show ?thesis using r'(1) by blast
qed

theorem registry_is_a_map_witness:
  "\<exists>r'. reg_register_all [(5, 10), (6, 20), (5, 30)] (reg_ctor (replicate 64 (9, 9))) = Some r' \<and>
    (\<forall>key. reg_get_obj key r' = Some (case map_of [(5, 10), (6, 20), (5, 30)] key of None \<Rightarrow> 0 | Some p \<Rightarrow> p))"
  by (rule registry_is_a_map) simp_all

text \<open>a full registry is not recognised: with all 64 entries in use, both registering another
  object and looking up a key that is not there read past the end of the array, instead of
  returning \<open>-CFXE_NO_MEM\<close> and the null pointer.\<close>

theorem registry_full_overruns:
  assumes "length r = 64" "\<forall>e\<in>set es. snd e \<noteq> 0" "length es = 64"
  shows "\<exists>r'. reg_register_all es (reg_ctor r) = Some r' \<and> (\<forall>key obj. reg_register_obj key obj r' = None) \<and>
    (\<forall>key. key \<notin> fst ` set es \<longrightarrow> reg_get_obj key r' = None)"
proof -
  obtain r' where r': "reg_register_all es (reg_ctor r) = Some r'" "reg_holds r' es"
    using reg_register_all_holds [OF reg_ctor_holds [OF assms(1)] assms(2)] assms(3) by auto
  then show ?thesis using reg_full_undefined [OF r'(2) assms(3)] by (auto simp: map_of_eq_None_iff)
qed

theorem registry_full_overruns_witness:
  "\<exists>r'. reg_register_all (map (\<lambda>k. (int k, 1)) [0..<64]) (reg_ctor (replicate 64 (9, 9))) = Some r' \<and>
    (\<forall>key obj. reg_register_obj key obj r' = None) \<and>
    (\<forall>key. key \<notin> fst ` set (map (\<lambda>k. (int k, 1::int)) [0..<64]) \<longrightarrow> reg_get_obj key r' = None)"
  by (rule registry_full_overruns) simp_all


definition demo_requests :: "request list" where
  "demo_requests =
     [\<lparr>rq_order = 0, rq_id = 1, rq_tgt = 131075, rq_op = 3, rq_args = host_bytes True 4 1\<rparr>,
      \<lparr>rq_order = 0, rq_id = 2, rq_tgt = 65536, rq_op = 1, rq_args = host_bytes True 4 1\<rparr>,
      \<lparr>rq_order = 0, rq_id = 3, rq_tgt = 9, rq_op = 1, rq_args = []\<rparr>]"

lemma demo_served: "serve_spec True demo_objs demo_entries demo_requests [False, False] =
  Some (reply_bytes True (demo_requests ! 0) 0 [] @ reply_bytes True (demo_requests ! 1) 0 [1] @
        reply_bytes True (demo_requests ! 2) (- 6) [], [False, True])"
  using signed_val_4 [of 1 True]
  by (simp add: demo_requests_def reg_spec_def demo_tgt demo_objs_def do_spec_def di_spec_def demo_in_def demo_out_def
      cfxe_defs Let_def)


text \<open>C9: a remote read is a local one: a stub that asks for a bit, or for the width, gets what the
  object the server registered under its target answers in the server's world, and the world
  changes as if it had been called there. \<open>req\<close> and \<open>rep\<close> are what crosses the wire.\<close>

theorem remote_read_is_local:
  assumes "srv_ok s es n" "16 \<le> n" "client_ok c p ca ra" "length (lc_hdr loc) = 8" "length mg = 2"
    and "0 \<le> tgt" "tgt < 2 ^ 32" "map_of es tgt = Some po" "objs po = DigInObj ob"
    and "- 2147483648 \<le> bt" "bt < 2147483648" "di_value ob bt (sv_world s) = (v, w)"
    and "di_width ob (sv_world s) = (wd, w2)" "- 2147483648 \<le> wd" "wd < 2147483648"
  shows "(\<exists>req rep c' s'. di_stub_value t le ca ra tgt bt (c\<lparr>sv_port := Some (conn rep)\<rparr>) = Ret (v, c') \<and> sent c' = req \<and>
      srv_run u le objs mg loc (s\<lparr>sv_port := Some (conn req)\<rparr>) = Ret (0, s') \<and> sent s' = rep \<and> sv_world s' = w) \<and>
    (\<exists>req rep c' s'. di_stub_width t le ca ra tgt (c\<lparr>sv_port := Some (conn rep)\<rparr>) = Ret (wd, c') \<and> sent c' = req \<and>
      srv_run u le objs mg loc (s\<lparr>sv_port := Some (conn req)\<rparr>) = Ret (0, s') \<and> sent s' = rep \<and> sv_world s' = w2)"
proof
  let ?q = "stub_request c tgt 1 (host_bytes le 4 bt)" and ?rep = "reply_bytes le (stub_request c tgt 1 (host_bytes le 4 bt)) 0 [if v then 1 else 0]"
  have r1: "reg_spec le objs es tgt 1 (host_bytes le 4 bt) (sv_world s) = Some (0, [if v then 1 else 0], w)"
    using assms(8,9,12) signed_val_4 [OF assms(10,11), of le] by (simp add: reg_spec_def di_spec_def)
  obtain c' where "di_stub_value t le ca ra tgt bt (c\<lparr>sv_port := Some (conn ?rep)\<rparr>) = Ret (v, c')" "sent c' = req_bytes le ?q"
    using di_stub_value_call [OF client_ok_conn [OF assms(3), of ?rep], of le ?q v "[]" t tgt bt] client_sent_conn
    by (fastforce simp: host_bytes_u32)
  moreover obtain s' where "srv_run u le objs mg loc (s\<lparr>sv_port := Some (conn (req_bytes le ?q))\<rparr>) = Ret (0, s')"
      "sent s' = ?rep" "sv_world s' = w"
    using srv_answers [OF assms(1) _ assms(3,6,7) _ _ r1 assms(4,5), of u] assms(2) by auto
  ultimately show "\<exists>req rep c' s'. di_stub_value t le ca ra tgt bt (c\<lparr>sv_port := Some (conn rep)\<rparr>) = Ret (v, c') \<and> sent c' = req \<and>
      srv_run u le objs mg loc (s\<lparr>sv_port := Some (conn req)\<rparr>) = Ret (0, s') \<and> sent s' = rep \<and> sv_world s' = w" by blast
next
  let ?q = "stub_request c tgt 0 []" and ?rep = "reply_bytes le (stub_request c tgt 0 []) 0 (host_bytes le 4 (u32 wd))"
  have r1: "reg_spec le objs es tgt 0 [] (sv_world s) = Some (0, host_bytes le 4 (u32 wd), w2)"
    using assms(8,9,13) by (simp add: reg_spec_def di_spec_def)
  obtain c' where "di_stub_width t le ca ra tgt (c\<lparr>sv_port := Some (conn ?rep)\<rparr>) = Ret (wd, c')" "sent c' = req_bytes le ?q"
    using stub_width_call [OF client_ok_conn [OF assms(3), of ?rep], of le ?q wd "[]" t tgt] assms(14,15) client_sent_conn
    by fastforce
  moreover obtain s' where "srv_run u le objs mg loc (s\<lparr>sv_port := Some (conn (req_bytes le ?q))\<rparr>) = Ret (0, s')"
      "sent s' = ?rep" "sv_world s' = w2"
    using srv_answers [OF assms(1) _ assms(3,6,7) _ _ r1 assms(4,5), of u] assms(2) by auto
  ultimately show "\<exists>req rep c' s'. di_stub_width t le ca ra tgt (c\<lparr>sv_port := Some (conn rep)\<rparr>) = Ret (wd, c') \<and> sent c' = req \<and>
      srv_run u le objs mg loc (s\<lparr>sv_port := Some (conn req)\<rparr>) = Ret (0, s') \<and> sent s' = rep \<and> sv_world s' = w2" by blast
qed

theorem remote_read_is_local_witness:
  "(\<exists>req rep c' s'. di_stub_value 0 True 129 385 65536 1 ((demo_srv [] [])\<lparr>sv_port := Some (conn rep)\<rparr>) = Ret (True, c') \<and> sent c' = req \<and>
      srv_run 0 True demo_objs [0, 0] demo_loc ((demo_srv [] [False, True])\<lparr>sv_port := Some (conn req)\<rparr>) = Ret (0, s') \<and>
      sent s' = rep \<and> sv_world s' = [False, True]) \<and>
    (\<exists>req rep c' s'. di_stub_width 0 True 129 385 65536 ((demo_srv [] [])\<lparr>sv_port := Some (conn rep)\<rparr>) = Ret (2, c') \<and> sent c' = req \<and>
      srv_run 0 True demo_objs [0, 0] demo_loc ((demo_srv [] [False, True])\<lparr>sv_port := Some (conn req)\<rparr>) = Ret (0, s') \<and>
      sent s' = rep \<and> sv_world s' = [False, True])"
  by (rule remote_read_is_local [OF demo_srv_ok _ demo_client_ok, where po = 1 and ob = demo_in])
    (simp_all add: demo_loc_def demo_tgt demo_objs_def demo_in_def demo_srv_def)

text \<open>C10: a remote command takes effect once: a stub that sets, clears or toggles an output bit makes
  the server apply that change to its world, exactly once, through the object registered under
  the stub's target.\<close>

theorem remote_command_takes_effect:
  assumes "srv_ok s es n" "17 \<le> n" "client_ok c p ca ra" "length (lc_hdr loc) = 8" "length mg = 2"
    and "0 \<le> tgt" "tgt < 2 ^ 32" "map_of es tgt = Some po" "objs po = DigOutObj ob"
    and "- 2147483648 \<le> bt" "bt < 2147483648"
  shows "(\<exists>req rep c' s'. do_stub_set_to t le ca ra tgt bt v (c\<lparr>sv_port := Some (conn rep)\<rparr>) = Ret c' \<and> sent c' = req \<and>
      srv_run u le objs mg loc (s\<lparr>sv_port := Some (conn req)\<rparr>) = Ret (0, s') \<and> sent s' = rep \<and>
      sv_world s' = do_set ob bt v (sv_world s)) \<and>
    (\<exists>req rep c' s'. do_stub_clear t le ca ra tgt bt (c\<lparr>sv_port := Some (conn rep)\<rparr>) = Ret c' \<and> sent c' = req \<and>
      srv_run u le objs mg loc (s\<lparr>sv_port := Some (conn req)\<rparr>) = Ret (0, s') \<and> sent s' = rep \<and>
      sv_world s' = do_clear ob bt (sv_world s)) \<and>
    (\<exists>req rep c' s'. do_stub_toggle t le ca ra tgt bt (c\<lparr>sv_port := Some (conn rep)\<rparr>) = Ret c' \<and> sent c' = req \<and>
      srv_run u le objs mg loc (s\<lparr>sv_port := Some (conn req)\<rparr>) = Ret (0, s') \<and> sent s' = rep \<and>
      sv_world s' = do_toggle ob bt (sv_world s))"
proof -
  have call: "\<exists>rep s'. (\<exists>q. pt_in (conn rep) = reply_bytes le q 0 []) \<and>
      srv_run u le objs mg loc (s\<lparr>sv_port := Some (conn (req_bytes le (stub_request c tgt op args)))\<rparr>) = Ret (0, s') \<and>
      sent s' = rep \<and> sv_world s' = w"
    if "do_spec le ob op args (sv_world s) = Some (0, [], w)" "12 + int (length args) \<le> n" "0 \<le> op" "op < 2 ^ 32" for op args w
    using srv_answers [OF assms(1) that(2) assms(3,6,7) that(3,4) _ assms(4,5), of le objs 0 "[]" w u] that(1) assms(8,9)
    by (simp add: reg_spec_def) (metis conn_def port.select_convs(1))
  note sv = signed_val_4 [OF assms(10,11), of le]
  have spec: "do_spec le ob 1 (host_bytes le 4 bt @ [if v then 1 else 0]) (sv_world s) = Some (0, [], do_set ob bt v (sv_world s))"
    "do_spec le ob 2 (host_bytes le 4 bt) (sv_world s) = Some (0, [], do_clear ob bt (sv_world s))"
    "do_spec le ob 3 (host_bytes le 4 bt) (sv_world s) = Some (0, [], do_toggle ob bt (sv_world s))"
    using sv by (auto simp: do_spec_def Let_def nth_append)
  have ok: "client_ok (c\<lparr>sv_port := Some (conn rep)\<rparr>) (conn rep) ca ra" for rep by (rule client_ok_conn [OF assms(3)])
  note stubs = do_stub_calls [OF ok, where ret = 0 and pay = "[]" and rest = "[]" and t = t and le = le and tgt = tgt and bt = bt]
  show ?thesis
  proof (intro conjI)
    show "\<exists>req rep c' s'. do_stub_set_to t le ca ra tgt bt v (c\<lparr>sv_port := Some (conn rep)\<rparr>) = Ret c' \<and> sent c' = req \<and>
      srv_run u le objs mg loc (s\<lparr>sv_port := Some (conn req)\<rparr>) = Ret (0, s') \<and> sent s' = rep \<and>
      sv_world s' = do_set ob bt v (sv_world s)"
      using call [OF spec(1)] stubs(1) assms(2) client_sent_conn by fastforce
    show "\<exists>req rep c' s'. do_stub_clear t le ca ra tgt bt (c\<lparr>sv_port := Some (conn rep)\<rparr>) = Ret c' \<and> sent c' = req \<and>
      srv_run u le objs mg loc (s\<lparr>sv_port := Some (conn req)\<rparr>) = Ret (0, s') \<and> sent s' = rep \<and>
      sv_world s' = do_clear ob bt (sv_world s)"
      using call [OF spec(2)] stubs(2) assms(2) client_sent_conn by fastforce
    show "\<exists>req rep c' s'. do_stub_toggle t le ca ra tgt bt (c\<lparr>sv_port := Some (conn rep)\<rparr>) = Ret c' \<and> sent c' = req \<and>
      srv_run u le objs mg loc (s\<lparr>sv_port := Some (conn req)\<rparr>) = Ret (0, s') \<and> sent s' = rep \<and>
      sv_world s' = do_toggle ob bt (sv_world s)"
      using call [OF spec(3)] stubs(3) assms(2) client_sent_conn by fastforce
  qed
qed

theorem remote_command_takes_effect_witness:
  "(\<exists>req rep c' s'. do_stub_set_to 0 True 129 385 131075 1 True ((demo_srv [] [])\<lparr>sv_port := Some (conn rep)\<rparr>) = Ret c' \<and> sent c' = req \<and>
      srv_run 0 True demo_objs [0, 0] demo_loc ((demo_srv [] [False, False])\<lparr>sv_port := Some (conn req)\<rparr>) = Ret (0, s') \<and>
      sent s' = rep \<and> sv_world s' = [False, True]) \<and>
    (\<exists>req rep c' s'. do_stub_clear 0 True 129 385 131075 1 ((demo_srv [] [])\<lparr>sv_port := Some (conn rep)\<rparr>) = Ret c' \<and> sent c' = req \<and>
      srv_run 0 True demo_objs [0, 0] demo_loc ((demo_srv [] [False, False])\<lparr>sv_port := Some (conn req)\<rparr>) = Ret (0, s') \<and>
      sent s' = rep \<and> sv_world s' = [False, False]) \<and>
    (\<exists>req rep c' s'. do_stub_toggle 0 True 129 385 131075 1 ((demo_srv [] [])\<lparr>sv_port := Some (conn rep)\<rparr>) = Ret c' \<and> sent c' = req \<and>
      srv_run 0 True demo_objs [0, 0] demo_loc ((demo_srv [] [False, False])\<lparr>sv_port := Some (conn req)\<rparr>) = Ret (0, s') \<and>
      sent s' = rep \<and> sv_world s' = [False, True])"
  using remote_command_takes_effect [OF demo_srv_ok [of "[]" "[False, False]"] _ demo_client_ok [of "[]" "[]"], of demo_loc "[0, 0]" 131075 2 demo_objs demo_out 1 0 True True 0]
  by (simp add: demo_loc_def demo_tgt demo_objs_def demo_out_def demo_srv_def)

text \<open>a header is found behind any bytes without a \<open>'C'\<close>, whatever their number and so their
  alignment to the two-byte reads: nothing of the header is lost, and nothing after it is taken.\<close>

theorem header_found_after_junk:
  assumes "chC \<notin> set junk" "length mg = 2" "length hdr = 8" "length h6 = 6"
    and "pt_in p = junk @ chC # chX # h6 @ rest"
  shows "get_pkt_hdr False mg hdr p = (0, chC # chX # h6, p\<lparr>pt_in := rest\<rparr>)"
  by (rule get_pkt_hdr_finds [OF assms])

theorem header_found_after_junk_witness:
  "get_pkt_hdr False [0, 0] (replicate 8 0) (conn ([1, 2, 3] @ chC # chX # [0, 0, 16, 0, 0, 0] @ [9])) =
     (0, chC # chX # [0, 0, 16, 0, 0, 0], (conn ([1, 2, 3] @ chC # chX # [0, 0, 16, 0, 0, 0] @ [9]))\<lparr>pt_in := [9]\<rparr>)"
  by (rule header_found_after_junk) (simp_all add: conn_def)

text \<open>After a \<open>'C'\<close> in the second place the scan keeps it in \<open>magic[0]\<close> whatever byte comes next, so
  that a \<open>'C'\<close> and an \<open>'X'\<close> with other bytes between them also pass for a magic number.\<close>

lemma hdr_scan_accepts_split_magic:
  assumes "pt_in p = [1, chC, 5, chX] @ xs" "length mg = 2"
  shows "hdr_scan False mg 0 p = (0, p\<lparr>pt_in := xs\<rparr>)"
proof -
  have "hdr_scan False mg 0 p = hdr_scan False [chC, 0] 1 (p\<lparr>pt_in := [5, chX] @ xs\<rparr>)"
    using hdr_scan_two [of p 1 chC "[5, chX] @ xs" mg False] assms by simp
  also have "\<dots> = hdr_scan False [chC, 5] 1 (p\<lparr>pt_in := chX # xs\<rparr>)"
    using hdr_scan_one [of "p\<lparr>pt_in := [5, chX] @ xs\<rparr>" 5 "chX # xs" False] by simp
  also have "\<dots> = (0, p\<lparr>pt_in := xs\<rparr>)"
    by (subst hdr_scan.simps) (simp add: port_read_n_eq overlay_def Let_def)
  finally show ?thesis .
qed

text \<open>\<open>send\<close> sets the limit of the caller's buffer to the size the reply claims, without comparing it
  to the capacity, and reads that much: a reply longer than the buffer overruns it.\<close>

lemma wr_list_dead: "k < length xs \<Longrightarrow> \<not> m_live m (p + int k) \<Longrightarrow> wr_list m p xs = None"
proof (induction xs arbitrary: p k m)
  case (Cons x xs)
  show ?case
  proof (cases k)
    case 0
    then show ?thesis using Cons.prems by (simp add: wr_def)
  next
    case (Suc j)
    then have "wr_list m' (p + 1) xs = None" if "m_live m' = m_live m" for m'
      using Cons.IH [of j m' "p + 1"] Cons.prems that by (simp add: ac_simps)
    then show ?thesis using wr_frame [of m p x] by (cases "wr m p x") auto
  qed
qed simp

lemma send_overruns_the_reply_buffer:
  assumes "pt_in p = pay" "256 < length pay" "length pay < 2147483648" "\<not> m_live m (ra + 256)"
  shows "dv_read_n_buf pt_sys_read 0 (bf_set_size (int (length pay)) (fb_ctor ra 256)) p m = None"
proof -
  have b: "bf_available (bf_set_size (int (length pay)) (fb_ctor ra 256)) = int (length pay)"
      "bf_pos (bf_set_size (int (length pay)) (fb_ctor ra 256)) = ra"
    using assms(3) by (simp_all add: bf_available_def bf_set_size_def fb_ctor_def bf_ctor_arr_def)
  have "dv_read_n pt_sys_read 0 (int (length pay)) p = (int (length pay), pay, p\<lparr>pt_in := []\<rparr>)"
    using port_read_n_eq [of "int (length pay)" p] assms(1-3) by (auto simp: port_read_n_def)
  moreover have "wr_list m ra pay = None" using wr_list_dead [of 256 pay m ra] assms(2,4) by simp
  ultimately show ?thesis using b by (simp add: dv_read_n_buf_def bf_position_ptr_def)
qed

end
