(* ===== verification/DigIOApp.thy ===== *)
theory DigIOApp imports DistObjRpc begin

text \<open>
  \<open>examples/DistObj/DigIOSim/DigIOSim.cpp\<close> and \<open>DigIOClient/DigIOClient.cpp\<close>: a server of simulated
  digital ports and a client that reads and toggles a bit, as the composition of the registry, the
  server, the skeletons, the codecs and the stubs. The world of the server is the array \<open>bit_val\<close>.
  Opening and accepting connections is the business of \<open>Sockets\<close>; here a connection is what arrives on
  it, and the loop ends when \<open>accept\<close> fails, after the last one.
\<close>

section \<open>The simulated ports\<close>

definition N_BIT :: int where "N_BIT = 32"

definition in_port :: "int \<Rightarrow> bool" where "in_port bt \<longleftrightarrow> 0 \<le> bt \<and> bt < N_BIT"

definition sim_value :: "int \<Rightarrow> bool list \<Rightarrow> bool" where
  "sim_value bt w = (if in_port bt then w ! nat bt else False)"

definition sim_in :: "bool list digin" where
  "sim_in = \<lparr>di_width = (\<lambda>w. (N_BIT, w)), di_value = (\<lambda>bt w. (sim_value bt w, w))\<rparr>"

definition sim_set_to :: "int \<Rightarrow> bool \<Rightarrow> bool list \<Rightarrow> bool list" where
  "sim_set_to bt b w = (if in_port bt then w[nat bt := b] else w)"
definition sim_set :: "int \<Rightarrow> bool list \<Rightarrow> bool list" where
  "sim_set bt w = sim_set_to bt True w"
definition sim_clear :: "int \<Rightarrow> bool list \<Rightarrow> bool list" where
  "sim_clear bt w = (if in_port bt then w[nat bt := False] else w)"
definition sim_toggle :: "int \<Rightarrow> bool list \<Rightarrow> bool list" where
  "sim_toggle bt w = (if in_port bt then w[nat bt := \<not> w ! nat bt] else w)"

definition sim_out :: "bool list digout" where
  "sim_out = \<lparr>do_width = (\<lambda>w. (N_BIT, w)), do_set = sim_set_to, do_clear = sim_clear, do_toggle = sim_toggle\<rparr>"

section \<open>The server program\<close>

text \<open>\<open>ai\<close> and \<open>ao\<close> are the addresses of the objects \<open>dig_in\<close> and \<open>dig_out\<close>; the array of bits starts as zeros.\<close>

definition sim_objs :: "int \<Rightarrow> int \<Rightarrow> bool list dist_obj" where
  "sim_objs ai p = (if p = ai then DigInObj sim_in else DigOutObj sim_out)"

definition sim_start :: "nat \<Rightarrow> registry \<Rightarrow> int \<Rightarrow> byte mem \<Rightarrow> int \<Rightarrow> int \<Rightarrow> bool list srv run" where
  "sim_start t g e m ai ao =
     (let s = srv_ctor g e m (replicate (nat N_BIT) False)
      in run_then (srv_register_obj t (tgt_obj DIST_OBJ_CLASS_DIG_IN 0) ai s) (\<lambda>(_, s).
         run_then (srv_register_obj t (tgt_obj DIST_OBJ_CLASS_DIG_OUT 0) ao s) (\<lambda>(_, s). Ret s)))"

text \<open>One accepted connection: \<open>obj_srvr.port(&sock); obj_srvr.run();\<close> and what was sent on it. The loop
  gives \<open>EXIT_FAILURE\<close> in the end.\<close>

definition sim_conn :: "nat \<Rightarrow> bool \<Rightarrow> int \<Rightarrow> byte list \<Rightarrow> srv_loc \<Rightarrow> byte list \<Rightarrow> bool list srv \<Rightarrow> (byte list \<times> bool list srv) run" where
  "sim_conn t le ai mg loc xs s =
     run_then (srv_run t le (sim_objs ai) mg loc (srv_set_port (Some (conn xs)) s)) (\<lambda>(_, s). Ret (sent s, s))"

fun sim_loop :: "nat \<Rightarrow> bool \<Rightarrow> int \<Rightarrow> byte list \<Rightarrow> srv_loc \<Rightarrow> byte list list \<Rightarrow> bool list srv \<Rightarrow> (int \<times> byte list list \<times> bool list srv) run" where
  "sim_loop t le ai mg loc [] s = Ret (1, [], s)"
| "sim_loop t le ai mg loc (xs # xss) s =
     run_then (sim_conn t le ai mg loc xs s) (\<lambda>(ys, s).
     run_then (sim_loop t le ai mg loc xss s) (\<lambda>(r, yss, s). Ret (r, ys # yss, s)))"

section \<open>The client program\<close>

text \<open>From the open connection on; \<open>bt\<close> is the variable \<open>bit\<close>, \<open>ca\<close> and \<open>ra\<close> the local buffers of the stubs.
  The result is what the program prints: the width and the two values.\<close>

definition cl_bit :: int where "cl_bit = 1"

definition cl_main :: "nat \<Rightarrow> bool \<Rightarrow> int \<Rightarrow> int \<Rightarrow> int \<Rightarrow> 'w srv \<Rightarrow> ((int \<times> bool \<times> bool) \<times> 'w srv) run" where
  "cl_main t le ca ra bt s =
     run_then (do_stub_width t le ca ra do_stub_ctor s) (\<lambda>(wd, s).
     run_then (di_stub_value t le ca ra di_stub_ctor bt s) (\<lambda>(b, s).
     run_then (do_stub_toggle t le ca ra do_stub_ctor bt s) (\<lambda>s.
     run_then (di_stub_value t le ca ra di_stub_ctor bt s) (\<lambda>(b', s). Ret ((wd, b, b'), s)))))"

section \<open>Ports\<close>

lemma sim_length [simp]:
  "length (sim_set_to bt b w) = length w" "length (sim_set bt w) = length w" "length (sim_clear bt w) = length w"
  "length (sim_toggle bt w) = length w"
  by (simp_all add: sim_set_to_def sim_set_def sim_clear_def sim_toggle_def)

lemma sim_value_after:
  assumes "length w = nat N_BIT"
  shows "sim_value j (sim_set_to i b w) = (if i = j \<and> in_port i then b else sim_value j w)"
    and "sim_value j (sim_clear i w) = (if i = j then False else sim_value j w)"
    and "sim_value j (sim_toggle i w) = (if i = j \<and> in_port i then \<not> sim_value j w else sim_value j w)"
  using assms by (auto simp: sim_value_def sim_set_to_def sim_clear_def sim_toggle_def in_port_def nth_list_update nat_less_iff)

text \<open>Toggling twice, or an even number of times, changes nothing.\<close>

lemma sim_toggle_twice: "length w = nat N_BIT \<Longrightarrow> sim_toggle bt (sim_toggle bt w) = w"
  by (auto simp: sim_toggle_def in_port_def nat_less_iff)

section \<open>The server, ready\<close>

lemma tgts: "tgt_obj DIST_OBJ_CLASS_DIG_IN 0 = 65536" "tgt_obj DIST_OBJ_CLASS_DIG_OUT 0 = 131072"
  by (simp_all add: tgt_obj_def DIST_OBJ_CLASS_DIG_IN_def DIST_OBJ_CLASS_DIG_OUT_def u16_def push_bit_eq_mult)

definition sim_entries :: "int \<Rightarrow> int \<Rightarrow> (int \<times> int) list" where
  "sim_entries ai ao = [(65536, ai), (131072, ao)]"

lemma srv_register_ok:
  assumes "mutex_free (sv_lock s)" "reg_holds (sv_reg s) es" "length es < 64" "obj \<noteq> 0"
  shows "\<exists>i r. srv_register_obj t key obj s = Ret (i, s\<lparr>sv_reg := r\<rparr>) \<and> reg_holds r (es @ [(key, obj)])"
proof -
  obtain i r where r: "reg_register_obj key obj (sv_reg s) = Some (i, r)" "reg_holds r (es @ [(key, obj)])"
    using reg_register_appends [OF assms(2-4)] by blast
  obtain l1 where g: "guard_ctor (mutex_type t) (sv_lock s) = Ret (True, l1)"
      "guard_release (mutex_type t) (True, l1) = Ret (False, sv_lock s)"
    using guard_mutex [OF assms(1), of t] by blast
  have "srv_register_obj t key obj s = Ret (i, s\<lparr>sv_reg := r, sv_lock := sv_lock s\<rparr>)"
    using r(1) g by (simp add: srv_register_obj_def guard_dtor_def)
  then show ?thesis using r(2) by (intro exI [of _ i] exI [of _ r]) simp
qed

lemma srv_ctor_ready:
  assumes "mem_wf m" "length g = 64"
  shows "srv_ok (srv_ctor g 0 m w) [] 256 \<and> sv_world (srv_ctor g 0 m w) = w"
proof -
  obtain m1 where n1: "mem_new 256 m = (m_brk m, m1)" by (simp add: mem_new_def)
  have w1: "mem_wf m1" using mem_new_wf [OF assms(1) _ n1] by simp
  obtain m2 where n2: "mem_new 256 m1 = (m_brk m1, m2)" by (simp add: mem_new_def)
  have m: "m_brk m1 = m_brk m + 257" "live_range m2 (m_brk m) 256" "live_range m2 (m_brk m1) 256"
    using n1 n2 by (auto simp: mem_new_def live_range_def)
  define b1 where "b1 = fst (bf_ctor_cap 256 m)"
  define b2 where "b2 = fst (bf_ctor_cap 256 m1)"
  have c: "bf_ctor_cap 256 m = (b1, m1)" "bf_ctor_cap 256 m1 = (b2, m2)"
    using n1 n2 by (simp_all add: b1_def b2_def bf_ctor_cap_def)
  have b: "bf_base b1 = m_brk m" "bf_end b1 = m_brk m + 256" "bf_base b2 = m_brk m1" "bf_end b2 = m_brk m1 + 256"
    using n1 n2 by (simp_all add: b1_def b2_def bf_ctor_cap_def)
  have v: "srv_ctor g 0 m w = \<lparr>sv_lock = mutex_ctor 0, sv_port = None, sv_reg = reg_ctor g, sv_msg_id = 0, sv_cmd = b1,
      sv_rsp = b2, sv_quit = False, sv_mem = m2, sv_world = w\<rparr>"
    using c by (simp add: srv_ctor_def srv_ctor_port_def DFLT_CMD_RSP_SIZE_def)
  have "bf_space b1 m2 256" "bf_space b2 m2 4" "bf_disjoint b1 b2"
    using b m by (simp_all add: bf_space_def bf_disjoint_def)
  then show ?thesis using reg_ctor_holds [OF assms(2)] by (simp add: v srv_ok_def mutex_free_def mutex_ctor_def)
qed

lemma sim_start_ok:
  assumes "mem_wf m" "length g = 64" "ai \<noteq> 0" "ao \<noteq> 0"
  shows "\<exists>s. sim_start t g 0 m ai ao = Ret s \<and> srv_ok s (sim_entries ai ao) 256 \<and> sv_world s = replicate (nat N_BIT) False"
proof -
  let ?s = "srv_ctor g 0 m (replicate (nat N_BIT) False)"
  have s: "srv_ok ?s [] 256" "sv_world ?s = replicate (nat N_BIT) False" using srv_ctor_ready [OF assms(1,2), of "replicate (nat N_BIT) False"] by simp_all
  obtain i1 r1 where 1: "srv_register_obj t 65536 ai ?s = Ret (i1, ?s\<lparr>sv_reg := r1\<rparr>)" "reg_holds r1 [(65536, ai)]"
    using srv_register_ok [of ?s "[]" ai t 65536] s(1) assms(3) by (auto simp: srv_ok_def)
  obtain i2 r2 where 2: "srv_register_obj t 131072 ao (?s\<lparr>sv_reg := r1\<rparr>) = Ret (i2, ?s\<lparr>sv_reg := r2\<rparr>)" "reg_holds r2 (sim_entries ai ao)"
    using srv_register_ok [of "?s\<lparr>sv_reg := r1\<rparr>" "[(65536, ai)]" ao t 131072] s(1) 1(2) assms(4)
    by (auto simp: srv_ok_def sim_entries_def)
  have "sim_start t g 0 m ai ao = Ret (?s\<lparr>sv_reg := r2\<rparr>)" using 1(1) 2(1) by (simp add: sim_start_def tgts Let_def)
  then show ?thesis using s 2(2) by (auto simp: srv_ok_def sim_entries_def)
qed

section \<open>A client's session\<close>

definition cl_rq :: "int \<Rightarrow> int \<Rightarrow> int \<Rightarrow> byte list \<Rightarrow> request" where
  "cl_rq i tgt op args = \<lparr>rq_order = 0, rq_id = i, rq_tgt = tgt, rq_op = op, rq_args = args\<rparr>"

text \<open>What the client sends when its messages are numbered from 0, and what it should receive.\<close>

definition cl_requests :: "bool \<Rightarrow> int \<Rightarrow> request list" where
  "cl_requests le bt =
     [cl_rq 0 131072 0 [], cl_rq 1 65536 1 (host_bytes le 4 bt), cl_rq 2 131072 3 (host_bytes le 4 bt),
      cl_rq 3 65536 1 (host_bytes le 4 bt)]"

definition flag :: "bool \<Rightarrow> byte list" where "flag b = [if b then 1 else 0]"

definition cl_replies :: "bool \<Rightarrow> int \<Rightarrow> bool \<Rightarrow> bool \<Rightarrow> byte list" where
  "cl_replies le bt b b' =
     reply_bytes le (cl_rq 0 131072 0 []) 0 (host_bytes le 4 (u32 N_BIT)) @
     reply_bytes le (cl_rq 1 65536 1 (host_bytes le 4 bt)) 0 (flag b) @
     reply_bytes le (cl_rq 2 131072 3 (host_bytes le 4 bt)) 0 [] @
     reply_bytes le (cl_rq 3 65536 1 (host_bytes le 4 bt)) 0 (flag b')"

lemma cl_main_talks:
  assumes c: "client_ok c p ca ra" "sv_msg_id c = 0" and rep: "pt_in p = cl_replies le bt b b'"
  shows "\<exists>c'. cl_main t le ca ra bt c = Ret ((N_BIT, b, b'), c') \<and>
    sv_port c' = Some (p\<lparr>pt_in := [], pt_out := pt_out p @ concat (map (req_bytes le) (cl_requests le bt))\<rparr>)"
proof -
  let ?a = "host_bytes le 4 bt"
  let ?q0 = "cl_rq 0 131072 0 []" and ?q1 = "cl_rq 1 65536 1 ?a" and ?q2 = "cl_rq 2 131072 3 ?a" and ?q3 = "cl_rq 3 65536 1 ?a"
  define r3 where "r3 = reply_bytes le ?q3 0 (flag b')"
  define r2 where "r2 = reply_bytes le ?q2 0 [] @ r3"
  define r1 where "r1 = reply_bytes le ?q1 0 (flag b) @ r2"
  have p0: "pt_in p = reply_bytes le ?q0 0 (host_bytes le 4 (u32 N_BIT)) @ r1"
    using rep by (simp add: cl_replies_def r1_def r2_def r3_def)
  obtain c1 where 1: "do_stub_width t le ca ra 131072 c = Ret (N_BIT, c1)" "client_went c c1 p r1 (req_bytes le ?q0)"
    using stub_width_call [OF c(1) p0, of t 131072] c(2) by (auto simp: N_BIT_def stub_request_def cl_rq_def)
  let ?p1 = "p\<lparr>pt_in := r1, pt_out := pt_out p @ req_bytes le ?q0\<rparr>"
  have c1: "client_ok c1 ?p1 ca ra" "sv_msg_id c1 = 1"
    using client_goes_on [OF c(1) 1(2)] 1(2) c(2) by (simp_all add: client_went_def)
  obtain c2 where 2: "di_stub_value t le ca ra 65536 bt c1 = Ret (b, c2)" "client_went c1 c2 ?p1 r2 (req_bytes le ?q1)"
    using di_stub_value_call [OF c1(1), of le ?q1 b r2 t 65536 bt] c1(2)
    by (auto simp: r1_def flag_def stub_request_def cl_rq_def host_bytes_u32)
  let ?p2 = "?p1\<lparr>pt_in := r2, pt_out := pt_out ?p1 @ req_bytes le ?q1\<rparr>"
  have c2: "client_ok c2 ?p2 ca ra" "sv_msg_id c2 = 2"
    using client_goes_on [OF c1(1) 2(2)] 2(2) c1(2) by (simp_all add: client_went_def)
  obtain c3 where 3: "do_stub_toggle t le ca ra 131072 bt c2 = Ret c3" "client_went c2 c3 ?p2 r3 (req_bytes le ?q2)"
    using do_stub_calls(3) [OF c2(1), of le ?q2 0 "[]" r3 t 131072 bt] c2(2)
    by (auto simp: r2_def stub_request_def cl_rq_def)
  let ?p3 = "?p2\<lparr>pt_in := r3, pt_out := pt_out ?p2 @ req_bytes le ?q2\<rparr>"
  have c3: "client_ok c3 ?p3 ca ra" "sv_msg_id c3 = 3"
    using client_goes_on [OF c2(1) 3(2)] 3(2) c2(2) by (simp_all add: client_went_def)
  obtain c4 where 4: "di_stub_value t le ca ra 65536 bt c3 = Ret (b', c4)" "client_went c3 c4 ?p3 [] (req_bytes le ?q3)"
    using di_stub_value_call [OF c3(1), of le ?q3 b' "[]" t 65536 bt] c3(2)
    by (auto simp: r3_def flag_def stub_request_def cl_rq_def host_bytes_u32)
  have "cl_main t le ca ra bt c = Ret ((N_BIT, b, b'), c4)"
    using 1(1) 2(1) 3(1) 4(1) by (simp add: cl_main_def di_stub_ctor_def do_stub_ctor_def tgts)
  moreover have "sv_port c4 = Some (p\<lparr>pt_in := [], pt_out := pt_out p @ concat (map (req_bytes le) (cl_requests le bt))\<rparr>)"
    using 4(2) by (simp add: client_went_def cl_requests_def)
  ultimately show ?thesis by blast
qed

text \<open>The server's side of the session.\<close>

lemma sim_serves:
  assumes "length w = nat N_BIT" "- 2147483648 \<le> bt" "bt < 2147483648" "ai \<noteq> ao"
  shows "serve_spec le (sim_objs ai) (sim_entries ai ao) (cl_requests le bt) w =
    Some (cl_replies le bt (sim_value bt w) (sim_value bt (sim_toggle bt w)), sim_toggle bt w)"
  using signed_val_4 [OF assms(2,3), of le] assms(4)
  by (simp add: cl_requests_def cl_rq_def reg_spec_def sim_entries_def sim_objs_def do_spec_def di_spec_def sim_in_def sim_out_def
      cl_replies_def flag_def Let_def)

lemma sim_conn_serves:
  assumes s: "srv_ok s (sim_entries ai ao) 256" "length (sv_world s) = nat N_BIT" and bt: "- 2147483648 \<le> bt" "bt < 2147483648"
    and a: "ai \<noteq> ao" and l: "length (lc_hdr loc) = 8" "length mg = 2"
  shows "\<exists>s'. sim_conn t le ai mg loc (concat (map (req_bytes le) (cl_requests le bt))) s =
      Ret (cl_replies le bt (sim_value bt (sv_world s)) (sim_value bt (sim_toggle bt (sv_world s))), s') \<and>
    srv_ok s' (sim_entries ai ao) 256 \<and> sv_world s' = sim_toggle bt (sv_world s)"
proof -
  let ?xs = "concat (map (req_bytes le) (cl_requests le bt))"
  let ?s = "srv_set_port (Some (conn ?xs)) s"
  have ok: "srv_ok ?s (sim_entries ai ao) 256" using s(1) by (simp add: srv_ok_def srv_set_port_def)
  have q: "\<forall>q\<in>set (cl_requests le bt). rq_ok q \<and> 12 + int (length (rq_args q)) \<le> 256"
    by (simp add: cl_requests_def cl_rq_def rq_ok_def)
  have sp: "serve_spec le (sim_objs ai) (sim_entries ai ao) (cl_requests le bt) (sv_world ?s) =
      Some (cl_replies le bt (sim_value bt (sv_world s)) (sim_value bt (sim_toggle bt (sv_world s))), sim_toggle bt (sv_world s))"
    using sim_serves [OF s(2) bt a] by (simp add: srv_set_port_def)
  obtain s' where r: "srv_run t le (sim_objs ai) mg loc ?s = Ret (0, s')" "srv_ok s' (sim_entries ai ao) 256"
      "sv_world s' = sim_toggle bt (sv_world s)"
      "sv_port s' = Some ((conn ?xs)\<lparr>pt_in := [], pt_out := pt_out (conn ?xs) @
         cl_replies le bt (sim_value bt (sv_world s)) (sim_value bt (sim_toggle bt (sv_world s)))\<rparr>)"
    using srv_run_serves [OF ok q sp, of "conn ?xs" loc mg t] l by (auto simp: srv_set_port_def conn_def)
  then show ?thesis by (auto simp: sim_conn_def sent_def conn_def)
qed

lemma sim_loop_serves:
  assumes "srv_ok s (sim_entries ai ao) 256" "length (sv_world s) = nat N_BIT" "in_port bt" "ai \<noteq> ao"
    and "length (lc_hdr loc) = 8" "length mg = 2" "v = sim_value bt (sv_world s)"
  shows "\<exists>s'. sim_loop t le ai mg loc (replicate n (concat (map (req_bytes le) (cl_requests le bt)))) s =
      Ret (1, map (\<lambda>k. cl_replies le bt (v \<noteq> odd k) (v = odd k)) [0..<n], s') \<and>
    srv_ok s' (sim_entries ai ao) 256 \<and> length (sv_world s') = nat N_BIT \<and>
    (\<forall>j. sim_value j (sv_world s') = (if j = bt \<and> odd n then \<not> sim_value j (sv_world s) else sim_value j (sv_world s)))"
  using assms
proof (induction n arbitrary: s v)
  case 0
  then show ?case by simp
next
  case (Suc n)
  have bt: "- 2147483648 \<le> bt" "bt < 2147483648" using Suc.prems(3) by (simp_all add: in_port_def N_BIT_def)
  have tg: "sim_value bt (sim_toggle bt (sv_world s)) = (\<not> v)" using sim_value_after(3) [OF Suc.prems(2)] Suc.prems(3,7) by simp
  obtain s1 where 1: "sim_conn t le ai mg loc (concat (map (req_bytes le) (cl_requests le bt))) s = Ret (cl_replies le bt v (\<not> v), s1)"
      "srv_ok s1 (sim_entries ai ao) 256" "sv_world s1 = sim_toggle bt (sv_world s)"
    using sim_conn_serves [OF Suc.prems(1,2) bt Suc.prems(4-6), of t le] tg Suc.prems(7) by auto
  obtain s2 where 2: "sim_loop t le ai mg loc (replicate n (concat (map (req_bytes le) (cl_requests le bt)))) s1 =
        Ret (1, map (\<lambda>k. cl_replies le bt ((\<not> v) \<noteq> odd k) ((\<not> v) = odd k)) [0..<n], s2)"
      "srv_ok s2 (sim_entries ai ao) 256" "length (sv_world s2) = nat N_BIT"
      "\<forall>j. sim_value j (sv_world s2) = (if j = bt \<and> odd n then \<not> sim_value j (sv_world s1) else sim_value j (sv_world s1))"
    using Suc.IH [OF 1(2) _ Suc.prems(3-6), of "\<not> v"] 1(3) tg Suc.prems(2) by auto
  have "map (\<lambda>k. cl_replies le bt (v \<noteq> odd k) (v = odd k)) [0..<Suc n] =
      cl_replies le bt v (\<not> v) # map (\<lambda>k. cl_replies le bt ((\<not> v) \<noteq> odd k) ((\<not> v) = odd k)) [0..<n]"
    by (subst upt_conv_Cons) (auto simp: map_Suc_upt [symmetric] simp del: upt_Suc intro!: arg_cong2 [of _ _ _ _ "cl_replies le bt"])
  then show ?case using 1(1,3) 2 sim_value_after(3) [OF Suc.prems(2)] Suc.prems(3) by (auto simp del: upt_Suc)
qed

section \<open>Properties\<close>

text \<open>C18: The simulator serves any number of clients, one connection after the other. Each client program
  sends the same bytes and prints the width of the port and the bit before and after it toggled it; the
  replies of the simulator are what a client needs for that, the \<open>k\<close>-th client finding the bit as the
  one before it left it; no other bit changes.\<close>

theorem simulator_serves_clients:
  assumes "mem_wf m" and "length g = 64" and "ai \<noteq> 0" and "ao \<noteq> 0" and "ai \<noteq> ao"
    and "length (lc_hdr loc) = 8" and "length mg = 2" and "in_port bt"
    and "\<forall>xs. client_ok (c xs) (conn xs) ca ra \<and> sv_msg_id (c xs) = 0"
  shows "\<exists>s0 req rep. sim_start t g 0 m ai ao = Ret s0 \<and>
    (\<forall>b. \<exists>c'. cl_main u le ca ra bt (c (rep b)) = Ret ((N_BIT, b, \<not> b), c') \<and> sent c' = req) \<and>
    (\<forall>n. \<exists>s. sim_loop t le ai mg loc (replicate n req) s0 = Ret (1, map (\<lambda>k. rep (odd k)) [0..<n], s) \<and>
      (\<forall>j. sim_value j (sv_world s) = (j = bt \<and> odd n)))"
proof -
  let ?req = "concat (map (req_bytes le) (cl_requests le bt))"
  obtain s0 where s0: "sim_start t g 0 m ai ao = Ret s0" "srv_ok s0 (sim_entries ai ao) 256" "sv_world s0 = replicate (nat N_BIT) False"
    using sim_start_ok [OF assms(1-4), of t] by blast
  have z: "sim_value j (sv_world s0) = False" for j by (simp add: s0(3) sim_value_def in_port_def nat_less_iff)
  define rep where "rep b = cl_replies le bt b (\<not> b)" for b
  have "\<exists>c'. cl_main u le ca ra bt (c (rep b)) = Ret ((N_BIT, b, \<not> b), c') \<and> sent c' = ?req" for b
    using cl_main_talks [of "c (rep b)" "conn (rep b)" ca ra le bt b "\<not> b" u] assms(9)
    by (auto simp: rep_def sent_def conn_def)
  moreover have "\<exists>s. sim_loop t le ai mg loc (replicate n ?req) s0 = Ret (1, map (\<lambda>k. rep (odd k)) [0..<n], s) \<and>
      (\<forall>j. sim_value j (sv_world s) = (j = bt \<and> odd n))" for n
    using sim_loop_serves [OF s0(2) _ assms(8,5-7), of False t le n] s0(3) z by (auto simp: rep_def)
  ultimately show ?thesis using s0(1) by blast
qed

theorem simulator_serves_clients_witness:
  "\<exists>s0 req rep. sim_start 0 (replicate 64 (0, 0)) 0 (arena 0 9) 1 2 = Ret s0 \<and>
    (\<forall>b. \<exists>c'. cl_main 0 True 129 385 1 ((demo_srv (rep b) [])\<lparr>sv_msg_id := 0\<rparr>) = Ret ((N_BIT, b, \<not> b), c') \<and> sent c' = req) \<and>
    (\<exists>s. sim_loop 0 True 1 [0, 0] demo_loc [req, req, req] s0 = Ret (1, [rep False, rep True, rep False], s))"
proof -
  have c: "\<forall>xs. client_ok ((demo_srv xs [])\<lparr>sv_msg_id := 0\<rparr>) (conn xs) 129 385 \<and> sv_msg_id ((demo_srv xs [])\<lparr>sv_msg_id := 0\<rparr>) = 0"
    using demo_client_ok [of _ "[]"] by (simp add: client_ok_def)
  have "\<exists>s0 req rep. sim_start 0 (replicate 64 (0, 0)) 0 (arena 0 9) 1 2 = Ret s0 \<and>
    (\<forall>b. \<exists>c'. cl_main 0 True 129 385 1 ((demo_srv (rep b) [])\<lparr>sv_msg_id := 0\<rparr>) = Ret ((N_BIT, b, \<not> b), c') \<and> sent c' = req) \<and>
    (\<forall>n. \<exists>s. sim_loop 0 True 1 [0, 0] demo_loc (replicate n req) s0 = Ret (1, map (\<lambda>k. rep (odd k)) [0..<n], s) \<and>
      (\<forall>j. sim_value j (sv_world s) = (j = 1 \<and> odd n)))"
    by (rule simulator_serves_clients [where c = "\<lambda>xs. (demo_srv xs [])\<lparr>sv_msg_id := 0\<rparr>", OF _ _ _ _ _ _ _ _ c])
      (simp_all add: demo_loc_def in_port_def N_BIT_def)
  then obtain s0 req rep where h: "sim_start 0 (replicate 64 (0, 0)) 0 (arena 0 9) 1 2 = Ret s0"
      "\<forall>b. \<exists>c'. cl_main 0 True 129 385 1 ((demo_srv (rep b) [])\<lparr>sv_msg_id := 0\<rparr>) = Ret ((N_BIT, b, \<not> b), c') \<and> sent c' = req"
      "\<forall>n. \<exists>s. sim_loop 0 True 1 [0, 0] demo_loc (replicate n req) s0 = Ret (1, map (\<lambda>k. rep (odd k)) [0..<n], s) \<and>
         (\<forall>j. sim_value j (sv_world s) = (j = 1 \<and> odd n))"
    by (elim exE conjE) (rule that; assumption)
  obtain s where h3: "sim_loop 0 True 1 [0, 0] demo_loc (replicate 3 req) s0 = Ret (1, map (\<lambda>k. rep (odd k)) [0..<3], s)"
    using spec [OF h(3), of 3] by (elim exE conjE) (rule that)
  have "replicate 3 req = [req, req, req]" "map (\<lambda>k. rep (odd k)) [0..<3] = [rep False, rep True, rep False]"
    by (simp_all add: numeral_3_eq_3)
  then have "sim_loop 0 True 1 [0, 0] demo_loc [req, req, req] s0 = Ret (1, [rep False, rep True, rep False], s)"
    using h3 by simp
  then show ?thesis using h(1,2) by (intro exI [of _ s0] exI [of _ req] exI [of _ rep] conjI exI [of _ s])
qed

end
