(* ===== verification/Spec2Isabelle.thy ===== *)
theory Spec2Isabelle imports EchoThreads EvtProgram UnitTests SmallPrograms AcqRing DevBlocks PortsAgree PortThreads EcosTimer WinCond StdioStreams IdlWire IdlShape IdlMain ThreadTimer Counters StateMachine Sockets CircQueue StackColl Encoders MsgQueueSteps MsgSlot RdWrLock Pools PosixTime DigIOApp DevStreams RecMutex OSEvent KeyArray begin

text \<open>
  CtrlrFx is a C++ library for embedded controllers: bounded containers that never allocate
  behind the user's back, synchronisation objects over the primitives of an operating system,
  queues and pools that pass items between threads, buffers with binary codecs and streams over
  devices, and a small protocol that invokes the methods of remote objects. This development
  models it in the configuration built for POSIX (\<open>os/posix\<close> and \<open>os/generic\<close>), under \<open>CtrlrFx/\<close>
  (headers) and \<open>src/\<close> (sources), and the classes that its ports to VDK, eCos and Win32 put in their place.

  \<^bold>\<open>How the parts fit together.\<close> Containers and queues keep their items in arrays
  (\<open>Cfx_Memory\<close>). A message queue or a pool adds a lock and two semaphores to such an array.
  Monitors (reader/writer lock, recursive mutex, event, guarded data, timer) add state to a
  condition variable. A codec moves values between the program and a byte buffer, a stream
  between the program and a virtual buffer that is an array, a device or a file, and a device
  is a descriptor of the operating system. The object server reads packets from a device into
  buffers, decodes a command, invokes the object's skeleton and encodes the reply; the stubs do
  the converse.

  \<^bold>\<open>How the code is read.\<close> A class is a \<open>record\<close> with the members' names, a member function a
  function on the record that has one branch for each of the code's, errors and early returns
  included. Pointers are addresses in an explicit memory of live cells, and code that can leave
  it, divide by zero or free an array twice has an \<open>option\<close> result, \<open>None\<close> being undefined
  behaviour. Calls that may block have a result of type \<open>run\<close>: \<open>Ret\<close>, \<open>Blocks\<close> or \<open>Undef\<close>.
  Integers are \<open>int\<close> with the wrap-around of their width written out (\<open>u8\<close> to \<open>s64\<close>), bytes are
  \<open>8 word\<close>. The byte order of the host, what the system calls return, the clock, and the code of
  clients (handlers, the object behind a skeleton) are arguments; what POSIX documents of
  \<open>read\<close>, \<open>write\<close>, \<open>recv\<close> and \<open>send\<close> is stated by the predicates \<open>dev_source\<close>, \<open>dev_sink\<close>,
  \<open>sys_read_ok\<close> and \<open>sys_write_ok\<close>, which the witnesses instantiate with a device that moves at
  most two bytes at a time.

  \<^bold>\<open>Foundations.\<close>
  \<^item> \<open>Cfx_Base\<close>: widths, C division, \<open>run\<close>, collections of rules. \<open>Cfx_Memory\<close>: memory, copying.
    \<open>Cfx_Interfaces\<close>: the locales of bounded collections, \<open>bounded_coll\<close>, \<open>bounded_fifo\<close> and
    \<open>bounded_lifo\<close>, whose clients' lemmas compare any run of operations with a list.

  \<^bold>\<open>Containers.\<close>
  \<^item> \<open>CircQueue\<close> (\<open>CircQueue.h\<close>) and \<open>StackColl\<close> (\<open>Stack.h\<close>): a ring and a stack over an array;
    invariants, ownership of the array, and the interpretations as a bounded FIFO and LIFO.
  \<^item> \<open>KeyArray\<close> (\<open>Array.h\<close>, \<open>KeyArray.h\<close>): a table of keys and values searched in sequence; the
    locale \<open>keyed_store\<close> and its interpretation: it is a map with a bounded number of keys.
  \<^item> \<open>BufferColl\<close> (\<open>Buffer.h\<close>, \<open>FixedBuffer.h\<close>): position, limit and mark; what \<open>put\<close>, \<open>flip\<close>,
    \<open>get\<close>, \<open>compact\<close> and \<open>align\<close> do to the contents.

  \<^bold>\<open>Synchronisation.\<close>
  \<^item> \<open>Locks\<close> (\<open>Mutex.h\<close>, \<open>NullLock.h\<close>, \<open>Guard.h\<close>, \<open>Semaphore.h\<close>): the locale \<open>lockable\<close>,
    interpreted for mutexes, null locks and condition variables: a guard gives back what it takes.
  \<^item> \<open>Monitor\<close>: threads that share an object with a condition variable; \<open>mon_step\<close> lets any thread
    make its next pass between two waits, wakes one sleeper for a signal and all for a broadcast,
    and wakes sleepers spuriously. The locales \<open>monitor_invariant\<close> and \<open>monitor_state\<close> are
    interpreted by each monitor. \<open>RdWrLock\<close> (\<open>RdWrLock.h\<close>, \<open>RdWrLock.cpp\<close>), \<open>RecMutex\<close>
    (\<open>RecursiveMutex\<close>), \<open>OSEvent\<close>, \<open>ConditionData\<close> (\<open>ConditionVar.h\<close>, \<open>ConditionData.h\<close>) and
    \<open>ThreadTimer\<close> define each method's pass and prove exclusion, and that no thread sleeps while
    what it waits for is there.
  \<^item> \<open>Counters\<close> (\<open>AtomicCounter.h\<close>, \<open>SeqLock.h\<close>): threads interleaved one access to memory at a
    time. \<open>Threads\<close> (\<open>Thread.h\<close>, \<open>Thread.cpp\<close>, \<open>QueueThread.h\<close>, \<open>ThreadPool.h\<close>): the life of an
    active object up to the join. \<open>StateMachine\<close> (\<open>StateMachine.h\<close>): dispatching in hierarchies.

  \<^bold>\<open>Queues and pools.\<close>
  \<^item> \<open>MsgQueue\<close> (\<open>MsgQueue.h\<close>): one thread at a time, over any lock type, refining the bounded
    FIFO. \<open>MsgQueueSteps\<close>: the same methods one statement at a time, by any number of threads;
    order of delivery and freedom from deadlock. \<open>MsgSlot\<close>: the queue of one place. \<open>Pools\<close>
    (\<open>ObjPool.h\<close>, \<open>BufPool.h\<close>, \<open>MemPool.h\<close>, \<open>AcqBufQueue.h\<close>): pools of pointers over queues.
    \<open>AcqQueues\<close>: the row of queues of an \<open>AcqBufQueue\<close> as a multiset of buffers that pass from one to
    the next; the locale \<open>queue_row\<close>.

  \<^bold>\<open>Data, devices and protocol.\<close>
  \<^item> \<open>Codec\<close>, \<open>Encoders\<close> (\<open>swap.h\<close>, \<open>BufCodec.h\<close>, \<open>BufCodec.cpp\<close>): byte layouts and codecs; what one
    codec writes the matching one reads. \<open>PosixTime\<close> (\<open>Time.h\<close>, \<open>TimeUnits.h\<close>, \<open>ClockTime.h\<close>,
    \<open>Time.cpp\<close>): durations and times.
  \<^item> \<open>Device\<close> (\<open>Device.h\<close>, \<open>Device.cpp\<close>): descriptors, whole transfers from short ones. \<open>BinStreams\<close>
    (\<open>BinStreamBase\<close>, \<open>BinStreamBuf\<close>, \<open>BinStream\<close>, \<open>MemBinStream\<close>) and \<open>DevStreams\<close>
    (\<open>DevBinStream\<close>): streams over a record of virtual functions, in memory and on devices. \<open>DevBlocks\<close>: the
    block transfers of the latter, which agree with the base class's. \<open>StdioStreams\<close> (\<open>StdioBinStream\<close>):
    unbuffered streams over the files of the C library.
    \<open>Sockets\<close> (\<open>Socket\<close>, \<open>InetAddr\<close>, \<open>TcpAcceptor\<close>, \<open>TcpConnector\<close>): addresses, who owns which
    handle, and transfers, which agree with those of \<open>Device\<close>.
  \<^item> \<open>DistObj\<close>, \<open>DistObjSrvr\<close>, \<open>DistObjRpc\<close> (\<open>DistObj\<close>, \<open>BinDistObj\<close>, \<open>DistObjSrvr\<close>, \<open>DigIO\<close> with
    its stubs and skeletons): the registry, the server's loop over packets and commands, and the
    calls of the stubs composed with a server: a remote call is a local one.

  \<^bold>\<open>Programs that put the parts together\<close> (\<open>examples\<close>).
  \<^item> \<open>AcqPipeline\<close> (\<open>data/AcqDemo\<close>): three threads and a row of three queues that hand four buffers
    round, with the main thread that starts and joins them; a step relation in which any of the four
    makes its next move. \<open>AcqRing\<close>: every buffer arrives with what was acquired, processed once; no
    buffer is lost or held twice; the ring never stalls while it runs, and can hang when it is shut down.
  \<^item> \<open>EchoLoops\<close> (\<open>net/echo\<close>, \<open>net/devfwd\<close>): the echo servers, the echo client and the forwarder on one
    connection; the locale \<open>relay\<close>, which three loops interpret: what is read is passed on, all and in order.
    \<open>EchoThreads\<close> (\<open>net/echo/MtEchoServer\<close>): the server's thread pool, message slots and sockets as a step
    relation; who owns which handle, what each client gets back, and that nothing gets stuck.
  \<^item> \<open>DigIOApp\<close> (\<open>DistObj/DigIOSim\<close>, \<open>DistObj/DigIOClient\<close>): a server of simulated ports and its client,
    composed of registry, server, skeletons, codecs and stubs.
  \<^item> \<open>EvtProgram\<close> (\<open>test/memory/EvtTest\<close>): two threads that pass events in blocks of a memory pool through a
    queue, as a step relation; events are printed in order, \<open>new\<close> never blocks, and no block is lost.
  \<^item> \<open>SmallPrograms\<close> (\<open>data/ArrayDemo\<close>, \<open>data/buf_example.cpp\<close>, \<open>os/PeriodicThread\<close>): what the array
    demonstration prints, where the buffer example goes wrong, and that a periodic thread does not drift.
  \<^item> \<open>UnitTests\<close> (\<open>UnitTests/data\<close>): the repository's own tests of the containers and codecs, run on the
    models from any memory; all pass but two of the circular queue, which expect one place more than it has.

  \<^bold>\<open>The ports.\<close>
  \<^item> \<open>SyncContracts\<close>: the locales \<open>counting\<close> and \<open>saturating\<close>, what clients expect of semaphores and events with
    automatic reset, as a counter that answers each call. \<open>VdkSync\<close> (\<open>os/vdk\<close>), \<open>EcosSync\<close> (\<open>os/ecos\<close>) and
    \<open>WinSync\<close> (\<open>os/Win32\<close>) model semaphores, mutexes, events and counters over the state that the system keeps,
    and interpret these locales and \<open>lockable\<close>; \<open>PortsAgree\<close> draws the conclusion that clients get the
    same answers on every system.
  \<^item> \<open>TickTimes\<close>: the three \<open>Time.h\<close>; the locales \<open>tick_time\<close> and \<open>deadline_time\<close>. \<open>PortThreads\<close>: the threads of
    eCos and Win32 up to their end. \<open>EcosTimer\<close>: timers over alarms, tick by tick. \<open>WinCond\<close>: the condition
    variable of Win32, one access to memory at a time, with the broadcasts it keeps and those it loses.

  \<^bold>\<open>The interface compiler\<close> (\<open>tools/cfxidl\<close>), which turns an interface into the sources of a stub, a
  skeleton and an empty implementation.
  \<^item> \<open>IdlModel\<close> (\<open>cfxidl.h\<close>, \<open>Func.h\<close>, \<open>Func.cpp\<close>): values, parameters, functions and their
    declarations as text. \<open>IdlFiles\<close> (\<open>Iface.h\<close>, \<open>Iface.cpp\<close>): the text of the seven files and the
    methods that create them. \<open>IdlMain\<close> (\<open>cfxidl.l\<close>, \<open>cfxidl.y\<close>, \<open>cfxidl.cpp\<close>): the lexer's rules, one
    inductive rule per production of the grammar with the actions on the global lists, and
    \<open>main\<close>; an interface's source is read back exactly, and its files are written in order.
  \<^item> \<open>IdlText\<close> reads generated C++ text back as tokens. \<open>IdlRpc\<close>: stub and skeleton agree on what
    is sent and in which order, and on the numbers of the commands. \<open>IdlWire\<close>: over the codec of
    \<open>Encoders\<close>, the skeleton receives the values the stub was called with. \<open>IdlShape\<close>: brackets
    and include guards.

  \<^bold>\<open>Termination and bounds.\<close> Loops are total functions with a measure where the code's loop ends
  for every input. Loops that need not end (\<open>od_overflow\<close>, the buffer transfers of \<open>TcpSocket\<close>,
  the block transfers of device streams, \<open>dispatch\<close>) are partial functions into \<open>option\<close>, and the properties prove that they return. The loops of the
  echo servers and of the forwarder are partial functions of the same kind. Fuel bounds the loop of \<open>aq_release\<close>,
  whose property says that no amount of it suffices, and the loops of the unit tests, which end within 5 and 65 rounds. Sizes are below 2^31 where the code narrows
  to \<open>int\<close>, and stated as hypotheses.

  \<^bold>\<open>Not modelled.\<close> The classes of the eCos port that are commented out, and scaling a duration by a
  floating-point number. The parser that bison generates for \<open>cfxidl\<close> is an argument. \<open>BufBinStream\<close> does not compile. Pure interfaces, configuration headers, debug output,
  the other tests under \<open>test\<close> and the host-side libraries in Ruby and .NET hold no logic of the library. Memory is
  sequentially consistent; allocation succeeds; real-time priorities are numbers.
\<close>

end
